(* ===== verification/GTP_Prelude.thy ===== *)
theory GTP_Prelude
  imports Complex_Main "HOL-Library.Char_ord"
begin

text \<open>
  Shared base of the development: the collections the component theories fill, and generic
  lemmas on folds and lists that more than one component uses.

  Conventions of all the theories. A C++ \<open>float\<close> or \<open>double\<close> is a \<^typ>\<open>real\<close>: rounding,
  infinities and NaN are not modelled. A pointer that may be null is an \<open>option\<close>. A singleton
  class whose objects are compared by address (rise, fall, min, max) is a datatype with one
  constructor per object. \<open>LOG_ERROR\<close> (which ends the process), a thrown exception and a read
  out of range are values of an error type.
\<close>

named_theorems rf_simps \<open>equations of the rise/fall and min/max enumerations\<close>
named_theorems vcd_simps \<open>field equations of the waveform database\<close>
named_theorems graph_simps \<open>field equations of the timing graph\<close>

text \<open>A fold of updates that keeps a property of the accumulator keeps it to the end.\<close>

lemma fold_invariant:
  assumes "\<And>x s. x \<in> set xs \<Longrightarrow> I s \<Longrightarrow> I (f x s)" and "I s"
  shows "I (fold f xs s)"
  using assms by (induction xs arbitrary: s) auto

lemma fold_unchanged:
  assumes "\<And>x s. x \<in> set xs \<Longrightarrow> g (f x s) = g s"
  shows "g (fold f xs s) = g s"
  using assms by (induction xs arbitrary: s) auto

lemma nth_Cons_pred: "0 < n \<Longrightarrow> (x # xs) ! n = xs ! (n - 1)"
  by (cases n) auto

section \<open>Comparators of ordered containers\<close>

text \<open>
  \<open>std::set\<close> and \<open>std::map\<close> need a comparator that is a strict weak order: the contract of every
  \<open>less\<close> function of the program. Elements that neither precede the other are the same key. A set
  is the list of its elements in iteration order; an equivalent element already there is kept.
\<close>

fun std_set_insert :: "('a \<Rightarrow> 'a \<Rightarrow> bool) \<Rightarrow> 'a \<Rightarrow> 'a list \<Rightarrow> 'a list" where
  "std_set_insert lt x [] = [x]"
| "std_set_insert lt x (y # ys) =
     (if lt x y then x # y # ys
      else if lt y x then y # std_set_insert lt x ys
      else y # ys)"

lemma set_std_set_insert: "set (std_set_insert lt x ys) \<subseteq> insert x (set ys)"
  by (induction ys) auto

lemma std_set_insert_mono: "set ys \<subseteq> set (std_set_insert lt x ys)"
  by (induction ys) auto

locale strict_weak_order =
  fixes lt :: "'a \<Rightarrow> 'a \<Rightarrow> bool"
    and eqv :: "'a \<Rightarrow> 'a \<Rightarrow> bool"
  assumes lt_irrefl: "\<not> lt a a"
    and lt_trans: "lt a b \<Longrightarrow> lt b c \<Longrightarrow> lt a c"
    and eqv_iff: "eqv a b \<longleftrightarrow> \<not> lt a b \<and> \<not> lt b a"
    and eqv_trans: "eqv a b \<Longrightarrow> eqv b c \<Longrightarrow> eqv a c"
begin

lemma lt_asym: "lt a b \<Longrightarrow> \<not> lt b a"
  using lt_irrefl lt_trans by blast

lemma eqv_refl: "eqv a a"
  by (simp add: eqv_iff lt_irrefl)

lemma eqv_sym: "eqv a b \<Longrightarrow> eqv b a"
  by (simp add: eqv_iff)

lemma lt_eqv_trans: "lt a b \<Longrightarrow> eqv b c \<Longrightarrow> lt a c"
  by (metis eqv_iff eqv_trans lt_trans)

lemma eqv_lt_trans: "eqv a b \<Longrightarrow> lt b c \<Longrightarrow> lt a c"
  by (metis eqv_iff eqv_trans lt_trans)

text \<open>Insertion keeps the elements in order without equivalent pairs, and adds the element's class.\<close>

lemma insert_sorted: "sorted_wrt lt ys \<Longrightarrow> sorted_wrt lt (std_set_insert lt x ys)"
proof (induction ys)
  case (Cons y ys)
  show ?case
  proof (cases "lt x y")
    case True
    with Cons.prems show ?thesis by (auto intro: lt_trans)
  next
    case False
    have "\<forall>z \<in> set (std_set_insert lt x ys). lt y z" if "lt y x"
      using that Cons.prems set_std_set_insert by fastforce
    with False Cons show ?thesis by auto
  qed
qed simp

lemma insert_member: "\<exists>y \<in> set (std_set_insert lt x ys). eqv x y"
  by (induction ys) (auto simp: eqv_iff lt_irrefl)

lemma insert_members:
  "(\<exists>y \<in> set (std_set_insert lt x ys). eqv z y) \<longleftrightarrow> eqv z x \<or> (\<exists>y \<in> set ys. eqv z y)"
proof
  show "(\<exists>y \<in> set (std_set_insert lt x ys). eqv z y) \<Longrightarrow> eqv z x \<or> (\<exists>y \<in> set ys. eqv z y)"
    using set_std_set_insert by fastforce
  show "eqv z x \<or> (\<exists>y \<in> set ys. eqv z y) \<Longrightarrow> \<exists>y \<in> set (std_set_insert lt x ys). eqv z y"
    using insert_member [of x ys] std_set_insert_mono [of ys lt x] eqv_trans by blast
qed

end

section \<open>Results\<close>

text \<open>A result is \<open>Inl\<close> an error or \<open>Inr\<close> a value; the second step runs when the first succeeds.\<close>

definition res_bind :: "'e + 'a \<Rightarrow> ('a \<Rightarrow> 'e + 'b) \<Rightarrow> 'e + 'b" where
  "res_bind r f = (case r of Inl e \<Rightarrow> Inl e | Inr x \<Rightarrow> f x)"

lemma res_bind_simps [simp]:
  "res_bind (Inl e) f = Inl e"
  "res_bind (Inr x) f = f x"
  by (simp_all add: res_bind_def)

lemma res_bind_Inr: "res_bind r f = Inr y \<longleftrightarrow> (\<exists>x. r = Inr x \<and> f x = Inr y)"
  by (cases r) auto

lemma res_bind_InrE [elim!]:
  assumes "res_bind r f = Inr y"
  obtains x where "r = Inr x" "f x = Inr y"
  using assms by (auto simp: res_bind_Inr)

fun res_map :: "('a \<Rightarrow> 'e + 'b) \<Rightarrow> 'a list \<Rightarrow> 'e + 'b list" where
  "res_map f [] = Inr []"
| "res_map f (x # xs) = res_bind (f x) (\<lambda>y. res_bind (res_map f xs) (\<lambda>ys. Inr (y # ys)))"

lemma res_map_list_all2: "res_map f xs = Inr ys \<Longrightarrow> list_all2 (\<lambda>x y. f x = Inr y) xs ys"
  by (induction xs arbitrary: ys) auto

lemma res_map_total: "(\<And>x. x \<in> set xs \<Longrightarrow> f x = Inr (h x)) \<Longrightarrow> res_map f xs = Inr (map h xs)"
  by (induction xs) auto

lemma res_map_length: "res_map f xs = Inr ys \<Longrightarrow> length ys = length xs"
  by (drule res_map_list_all2) (simp add: list_all2_lengthD)

lemma res_map_returns: "(\<And>x. x \<in> set xs \<Longrightarrow> \<exists>v. f x = Inr v) \<Longrightarrow> \<exists>vs. res_map f xs = Inr vs"
  by (induction xs) fastforce+

text \<open>A loop whose steps may fail.\<close>

fun res_fold :: "('a \<Rightarrow> 's \<Rightarrow> 'e + 's) \<Rightarrow> 'a list \<Rightarrow> 's \<Rightarrow> 'e + 's" where
  "res_fold f [] s = Inr s"
| "res_fold f (x # xs) s = res_bind (f x s) (res_fold f xs)"

lemma res_fold_append: "res_fold f (xs @ ys) s = res_bind (res_fold f xs s) (res_fold f ys)"
  by (induction xs arbitrary: s) (auto simp: res_bind_def split: sum.splits)

lemma res_fold_invariant:
  assumes "\<And>x s s'. x \<in> set xs \<Longrightarrow> I s \<Longrightarrow> f x s = Inr s' \<Longrightarrow> I s'" "I s" "res_fold f xs s = Inr s'"
  shows "I s'"
  using assms by (induction xs arbitrary: s) auto

section \<open>Binary search\<close>

text \<open>
  The loop of every binary search of the program: the least index of \<open>[left, right)\<close> at which
  the predicate is false, if it is true up to some index and false from there on. The midpoint
  is \<open>left + (right - left) / 2\<close>.
\<close>

function lower_bound_loop :: "(int \<Rightarrow> bool) \<Rightarrow> int \<Rightarrow> int \<Rightarrow> int" where
  "lower_bound_loop P left right =
     (if left < right then
        let mid = left + (right - left) div 2 in
        if P mid then lower_bound_loop P (mid + 1) right else lower_bound_loop P left mid
      else right)"
  by pat_completeness auto
termination
  by (relation "measure (\<lambda>(P, left, right). nat (right - left))") auto

declare lower_bound_loop.simps [simp del]

locale search_predicate =
  fixes P :: "int \<Rightarrow> bool" and lo hi :: int
  assumes P_down: "lo \<le> i \<Longrightarrow> i \<le> j \<Longrightarrow> j < hi \<Longrightarrow> P j \<Longrightarrow> P i"
    and lo_le_hi: "lo \<le> hi"
begin

text \<open>The loop keeps the invariant that the predicate is true below \<open>left\<close> and false from \<open>right\<close> on.\<close>

definition split_at :: "int \<Rightarrow> bool" where
  "split_at r \<longleftrightarrow> lo \<le> r \<and> r \<le> hi \<and> (\<forall>i. lo \<le> i \<and> i < hi \<longrightarrow> (P i \<longleftrightarrow> i < r))"

lemma loop_spec:
  assumes "lo \<le> left" "left \<le> right" "right \<le> hi"
    and "\<forall>i. lo \<le> i \<and> i < left \<longrightarrow> P i" and "\<forall>i. right \<le> i \<and> i < hi \<longrightarrow> \<not> P i"
  shows "split_at (lower_bound_loop P left right)"
  using assms
proof (induction "nat (right - left)" arbitrary: left right rule: less_induct)
  case less
  show ?case
  proof (cases "left < right")
    case False
    with less.prems have "left = right" by simp
    with less.prems show ?thesis by (auto simp: lower_bound_loop.simps split_at_def not_less)
  next
    case True
    define mid where "mid = left + (right - left) div 2"
    have mid: "left \<le> mid" "mid < right" using True by (auto simp: mid_def)
    have loop: "lower_bound_loop P left right =
        (if P mid then lower_bound_loop P (mid + 1) right else lower_bound_loop P left mid)"
      using True by (subst lower_bound_loop.simps) (simp add: mid_def Let_def)
    show ?thesis
    proof (cases "P mid")
      case P: True
      have "\<forall>i. lo \<le> i \<and> i < mid + 1 \<longrightarrow> P i"
        using P_down [OF _ _ _ P] mid less.prems by simp
      with less.prems mid have "split_at (lower_bound_loop P (mid + 1) right)"
        by (intro less.hyps) auto
      with P loop show ?thesis by simp
    next
      case nP: False
      have "\<forall>i. mid \<le> i \<and> i < hi \<longrightarrow> \<not> P i"
        using P_down [of mid] nP mid less.prems by fastforce
      with less.prems mid have "split_at (lower_bound_loop P left mid)"
        by (intro less.hyps) auto
      with nP loop show ?thesis by simp
    qed
  qed
qed

lemma search_split: "split_at (lower_bound_loop P lo hi)"
  using lo_le_hi by (intro loop_spec) auto

lemma search_bounds: "lo \<le> lower_bound_loop P lo hi" "lower_bound_loop P lo hi \<le> hi"
  using search_split by (auto simp: split_at_def)

lemma search_iff: "lo \<le> i \<Longrightarrow> i < hi \<Longrightarrow> P i \<longleftrightarrow> i < lower_bound_loop P lo hi"
  using search_split by (auto simp: split_at_def)

end

end
