(* ===== verification/GTP_RiseFall.thy ===== *)
theory GTP_RiseFall
  imports GTP_Prelude
begin

text \<open>
  The transition and min/max enumerations (\<open>util/Transition.cc\<close>, \<open>util/MinMax.cc\<close>) and the
  small per-edge value tables built on them (\<open>util/RiseFallMinMax.cc\<close>,
  \<open>util/RiseFallValues.cc\<close>). The arrays \<open>values_[rf][mm]\<close> and \<open>exists_[rf][mm]\<close> are functions
  of the two enumerations; the index functions are kept, with their injectivity.
\<close>

section \<open>Rise, fall and both\<close>

datatype RiseFall = Rise | Fall

datatype RiseFallBoth = RFB_rise | RFB_fall | RFB_rise_fall

datatype Transition =
  Tr_rise | Tr_fall | Tr_0Z | Tr_Z1 | Tr_1Z | Tr_Z0 | Tr_0X | Tr_X1 | Tr_1X | Tr_X0
  | Tr_XZ | Tr_ZX | Tr_rise_fall

fun rf_name :: "RiseFall \<Rightarrow> string" where
  "rf_name Rise = ''rise''"
| "rf_name Fall = ''fall''"

fun rf_shortName :: "RiseFall \<Rightarrow> string" where
  "rf_shortName Rise = ''^''"
| "rf_shortName Fall = ''v''"

fun rf_index :: "RiseFall \<Rightarrow> int" where
  "rf_index Rise = 0"
| "rf_index Fall = 1"

definition rf_range :: "RiseFall list" where
  "rf_range = [Rise, Fall]"

fun rf_opposite :: "RiseFall \<Rightarrow> RiseFall" where
  "rf_opposite rf = (if rf = Rise then Fall else Rise)"

definition rf_find_str :: "string \<Rightarrow> RiseFall option" where
  "rf_find_str s =
     (if s = rf_name Rise \<or> s = rf_shortName Rise then Some Rise
      else if s = rf_name Fall \<or> s = rf_shortName Fall then Some Fall
      else None)"

definition rf_find_index :: "int \<Rightarrow> RiseFall" where
  "rf_find_index i = (if i = rf_index Rise then Rise else Fall)"

definition rf_asRiseFallBoth :: "RiseFall \<Rightarrow> RiseFallBoth" where
  "rf_asRiseFallBoth rf = (if rf = Rise then RFB_rise else RFB_fall)"

definition rf_asTransition :: "RiseFall \<Rightarrow> Transition" where
  "rf_asTransition rf = (if rf = Rise then Tr_rise else Tr_fall)"

fun rfb_name :: "RiseFallBoth \<Rightarrow> string" where
  "rfb_name RFB_rise = ''rise''"
| "rfb_name RFB_fall = ''fall''"
| "rfb_name RFB_rise_fall = ''rise_fall''"

fun rfb_index :: "RiseFallBoth \<Rightarrow> int" where
  "rfb_index RFB_rise = 0"
| "rfb_index RFB_fall = 1"
| "rfb_index RFB_rise_fall = 2"

fun rfb_asRiseFall :: "RiseFallBoth \<Rightarrow> RiseFall option" where
  "rfb_asRiseFall RFB_rise = Some Rise"
| "rfb_asRiseFall RFB_fall = Some Fall"
| "rfb_asRiseFall RFB_rise_fall = None"

fun rfb_range :: "RiseFallBoth \<Rightarrow> RiseFall list" where
  "rfb_range RFB_rise = [Rise]"
| "rfb_range RFB_fall = [Fall]"
| "rfb_range RFB_rise_fall = [Rise, Fall]"

definition rfb_find :: "string \<Rightarrow> RiseFallBoth option" where
  "rfb_find s =
     (if s = rfb_name RFB_rise then Some RFB_rise
      else if s = rfb_name RFB_fall then Some RFB_fall
      else if s = rfb_name RFB_rise_fall then Some RFB_rise_fall
      else None)"

definition rfb_matches :: "RiseFallBoth \<Rightarrow> RiseFall \<Rightarrow> bool" where
  "rfb_matches b rf \<longleftrightarrow> b = RFB_rise_fall \<or> rfb_asRiseFall b = Some rf"

definition rfb_matches_tr :: "RiseFallBoth \<Rightarrow> Transition \<Rightarrow> bool" where
  "rfb_matches_tr b tr \<longleftrightarrow>
     b = RFB_rise_fall \<or> (b = RFB_rise \<and> tr = Tr_rise) \<or> (b = RFB_fall \<and> tr = Tr_fall)"

fun tr_name :: "Transition \<Rightarrow> string" where
  "tr_name Tr_rise = ''^''" | "tr_name Tr_fall = ''v''"
| "tr_name Tr_0Z = ''0Z''" | "tr_name Tr_Z1 = ''Z1''"
| "tr_name Tr_1Z = ''1Z''" | "tr_name Tr_Z0 = ''Z0''"
| "tr_name Tr_0X = ''0X''" | "tr_name Tr_X1 = ''X1''"
| "tr_name Tr_1X = ''1X''" | "tr_name Tr_X0 = ''X0''"
| "tr_name Tr_XZ = ''XZ''" | "tr_name Tr_ZX = ''ZX''"
| "tr_name Tr_rise_fall = ''*''"

fun tr_init_final :: "Transition \<Rightarrow> string" where
  "tr_init_final Tr_rise = ''01''" | "tr_init_final Tr_fall = ''10''"
| "tr_init_final Tr_rise_fall = ''**''"
| "tr_init_final tr = tr_name tr"

fun tr_asRiseFall :: "Transition \<Rightarrow> RiseFall option" where
  "tr_asRiseFall Tr_rise = Some Rise" | "tr_asRiseFall Tr_fall = Some Fall"
| "tr_asRiseFall Tr_0Z = Some Rise" | "tr_asRiseFall Tr_Z1 = Some Rise"
| "tr_asRiseFall Tr_1Z = Some Fall" | "tr_asRiseFall Tr_Z0 = Some Fall"
| "tr_asRiseFall Tr_0X = Some Rise" | "tr_asRiseFall Tr_X1 = Some Rise"
| "tr_asRiseFall Tr_1X = Some Fall" | "tr_asRiseFall Tr_X0 = Some Fall"
| "tr_asRiseFall Tr_XZ = None" | "tr_asRiseFall Tr_ZX = None"
| "tr_asRiseFall Tr_rise_fall = None"

fun tr_index :: "Transition \<Rightarrow> int" where
  "tr_index Tr_rise = 0" | "tr_index Tr_fall = 1" | "tr_index Tr_0Z = 2" | "tr_index Tr_Z1 = 3"
| "tr_index Tr_1Z = 4" | "tr_index Tr_Z0 = 5" | "tr_index Tr_0X = 6" | "tr_index Tr_X1 = 7"
| "tr_index Tr_1X = 8" | "tr_index Tr_X0 = 9" | "tr_index Tr_XZ = 10" | "tr_index Tr_ZX = 11"
| "tr_index Tr_rise_fall = -1"

definition tr_all :: "Transition list" where
  "tr_all = [Tr_rise, Tr_fall, Tr_0Z, Tr_Z1, Tr_1Z, Tr_Z0, Tr_0X, Tr_X1, Tr_1X, Tr_X0,
             Tr_XZ, Tr_ZX, Tr_rise_fall]"

text \<open>Each constructor registers the object in \<open>transition_map_\<close> under both of its names.\<close>

definition tr_map :: "(string \<times> Transition) list" where
  "tr_map = concat (map (\<lambda>tr. [(tr_name tr, tr), (tr_init_final tr, tr)]) tr_all)"

definition tr_find :: "string \<Rightarrow> Transition option" where
  "tr_find s = map_of tr_map s"

definition tr_matches :: "Transition \<Rightarrow> Transition \<Rightarrow> bool" where
  "tr_matches t tr \<longleftrightarrow> t = Tr_rise_fall \<or> tr = t"

fun riseFallEdgeIndex :: "RiseFall \<Rightarrow> RiseFall \<Rightarrow> int" where
  "riseFallEdgeIndex from_rf to_rf =
     (if from_rf = Fall \<and> to_rf = Fall then 0
      else if from_rf = Fall \<and> to_rf = Rise then 1
      else if from_rf = Rise \<and> to_rf = Fall then 2
      else if from_rf = Rise \<and> to_rf = Rise then 3
      else -1)"

section \<open>Min, max and all\<close>

datatype MinMax = MM_min | MM_max

datatype MinMaxAll = MMA_min | MMA_max | MMA_all

definition sta_INF :: real where
  "sta_INF = 10 ^ 30"

definition compareMin :: "real \<Rightarrow> real \<Rightarrow> bool" where
  "compareMin v1 v2 \<longleftrightarrow> v1 < v2"

definition compareMax :: "real \<Rightarrow> real \<Rightarrow> bool" where
  "compareMax v1 v2 \<longleftrightarrow> v1 > v2"

fun mm_index :: "MinMax \<Rightarrow> int" where
  "mm_index MM_min = 0"
| "mm_index MM_max = 1"

fun mm_initValue :: "MinMax \<Rightarrow> real" where
  "mm_initValue MM_min = sta_INF"
| "mm_initValue MM_max = - sta_INF"

fun mm_compare :: "MinMax \<Rightarrow> real \<Rightarrow> real \<Rightarrow> bool" where
  "mm_compare MM_min = compareMin"
| "mm_compare MM_max = compareMax"

definition mm_minMax :: "MinMax \<Rightarrow> real \<Rightarrow> real \<Rightarrow> real" where
  "mm_minMax mm v1 v2 = (if mm_compare mm v1 v2 then v1 else v2)"

definition mm_range :: "MinMax list" where
  "mm_range = [MM_min, MM_max]"

definition mm_asMinMaxAll :: "MinMax \<Rightarrow> MinMaxAll" where
  "mm_asMinMaxAll mm = (if mm = MM_min then MMA_min else MMA_max)"

definition mm_opposite :: "MinMax \<Rightarrow> MinMax" where
  "mm_opposite mm = (if mm = MM_max then MM_min else MM_max)"

definition mm_find_str :: "string \<Rightarrow> MinMax option" where
  "mm_find_str s =
     (if s = ''min'' \<or> s = ''early'' then Some MM_min
      else if s = ''max'' \<or> s = ''late'' then Some MM_max
      else None)"

definition mm_find_index :: "int \<Rightarrow> MinMax option" where
  "mm_find_index i =
     (if i = mm_index MM_min then Some MM_min
      else if i = mm_index MM_max then Some MM_max
      else None)"

fun mma_index :: "MinMaxAll \<Rightarrow> int" where
  "mma_index MMA_min = 0"
| "mma_index MMA_max = 1"
| "mma_index MMA_all = 2"

fun mma_range :: "MinMaxAll \<Rightarrow> MinMax list" where
  "mma_range MMA_min = [MM_min]"
| "mma_range MMA_max = [MM_max]"
| "mma_range MMA_all = [MM_min, MM_max]"

definition mma_asMinMax :: "MinMaxAll \<Rightarrow> MinMax" where
  "mma_asMinMax mma = (if mma = MMA_min then MM_min else MM_max)"

definition mma_matches :: "MinMaxAll \<Rightarrow> MinMax \<Rightarrow> bool" where
  "mma_matches mma mm \<longleftrightarrow> mma = MMA_all \<or> mma_asMinMax mma = mm"

definition mma_matches_all :: "MinMaxAll \<Rightarrow> MinMaxAll \<Rightarrow> bool" where
  "mma_matches_all mma mma2 \<longleftrightarrow> mma = MMA_all \<or> mma = mma2"

definition mma_find :: "string \<Rightarrow> MinMaxAll option" where
  "mma_find s =
     (if s = ''min'' \<or> s = ''early'' then Some MMA_min
      else if s = ''max'' \<or> s = ''late'' then Some MMA_max
      else if s = ''all'' \<or> s = ''min_max'' \<or> s = ''minmax'' then Some MMA_all
      else None)"

lemma in_rfb_range [rf_simps]: "rf \<in> set (rfb_range b) \<longleftrightarrow> rfb_matches b rf"
  by (cases b; cases rf) (auto simp: rfb_matches_def)

lemma in_mma_range [rf_simps]: "mm \<in> set (mma_range mma) \<longleftrightarrow> mma_matches mma mm"
  by (cases mma; cases mm) (auto simp: mma_matches_def mma_asMinMax_def)

lemma in_rf_range [rf_simps, simp]: "rf \<in> set rf_range"
  by (cases rf) (auto simp: rf_range_def)

lemma in_mm_range [rf_simps, simp]: "mm \<in> set mm_range"
  by (cases mm) (auto simp: mm_range_def)

lemma distinct_ranges: "distinct rf_range" "distinct mm_range"
  by (auto simp: rf_range_def mm_range_def)

lemma distinct_rfb_range: "distinct (rfb_range b)"
  by (cases b) auto

lemma distinct_mma_range: "distinct (mma_range mma)"
  by (cases mma) auto


section \<open>Values by edge and by min/max\<close>

record RiseFallMinMax =
  rfmm_values :: "RiseFall \<Rightarrow> MinMax \<Rightarrow> real"
  rfmm_exists :: "RiseFall \<Rightarrow> MinMax \<Rightarrow> bool"

text \<open>One array store: \<open>values_[rf][mm] = v; exists_[rf][mm] = true\<close>.\<close>

definition rfmm_put :: "RiseFall \<Rightarrow> MinMax \<Rightarrow> real \<Rightarrow> RiseFallMinMax \<Rightarrow> RiseFallMinMax" where
  "rfmm_put rf mm v t =
     t\<lparr>rfmm_values := (rfmm_values t)(rf := (rfmm_values t rf)(mm := v)),
       rfmm_exists := (rfmm_exists t)(rf := (rfmm_exists t rf)(mm := True))\<rparr>"

definition rfmm_drop :: "RiseFall \<Rightarrow> MinMax \<Rightarrow> RiseFallMinMax \<Rightarrow> RiseFallMinMax" where
  "rfmm_drop rf mm t =
     t\<lparr>rfmm_exists := (rfmm_exists t)(rf := (rfmm_exists t rf)(mm := False))\<rparr>"

text \<open>The nested loop over two index ranges.\<close>

definition rfmm_loop ::
  "(RiseFall \<Rightarrow> MinMax \<Rightarrow> RiseFallMinMax \<Rightarrow> RiseFallMinMax) \<Rightarrow> RiseFall list \<Rightarrow> MinMax list
   \<Rightarrow> RiseFallMinMax \<Rightarrow> RiseFallMinMax" where
  "rfmm_loop f rfs mms = fold (\<lambda>rf. fold (\<lambda>mm. f rf mm) mms) rfs"

definition rfmm_clear :: "RiseFallMinMax \<Rightarrow> RiseFallMinMax" where
  "rfmm_clear = rfmm_loop rfmm_drop rf_range mm_range"

definition rfmm_init :: "real \<Rightarrow> RiseFallMinMax \<Rightarrow> RiseFallMinMax" where
  "rfmm_init v = rfmm_loop (\<lambda>rf mm. rfmm_put rf mm v) rf_range mm_range"

definition rfmm_setValue_ba ::
  "RiseFallBoth \<Rightarrow> MinMaxAll \<Rightarrow> real \<Rightarrow> RiseFallMinMax \<Rightarrow> RiseFallMinMax" where
  "rfmm_setValue_ba b mma v = rfmm_loop (\<lambda>rf mm. rfmm_put rf mm v) (rfb_range b) (mma_range mma)"

definition rfmm_setValue_bm ::
  "RiseFallBoth \<Rightarrow> MinMax \<Rightarrow> real \<Rightarrow> RiseFallMinMax \<Rightarrow> RiseFallMinMax" where
  "rfmm_setValue_bm b mm v = fold (\<lambda>rf. rfmm_put rf mm v) (rfb_range b)"

definition rfmm_setValue_rm ::
  "RiseFall \<Rightarrow> MinMax \<Rightarrow> real \<Rightarrow> RiseFallMinMax \<Rightarrow> RiseFallMinMax" where
  "rfmm_setValue_rm rf mm v = rfmm_put rf mm v"

definition rfmm_setValue :: "real \<Rightarrow> RiseFallMinMax \<Rightarrow> RiseFallMinMax" where
  "rfmm_setValue v = rfmm_setValue_ba RFB_rise_fall MMA_all v"

definition rfmm_removeValue_bm ::
  "RiseFallBoth \<Rightarrow> MinMax \<Rightarrow> RiseFallMinMax \<Rightarrow> RiseFallMinMax" where
  "rfmm_removeValue_bm b mm = fold (\<lambda>rf. rfmm_drop rf mm) (rfb_range b)"

definition rfmm_removeValue_ba ::
  "RiseFallBoth \<Rightarrow> MinMaxAll \<Rightarrow> RiseFallMinMax \<Rightarrow> RiseFallMinMax" where
  "rfmm_removeValue_ba b mma = fold (\<lambda>mm. rfmm_removeValue_bm b mm) (mma_range mma)"

definition rfmm_mergeValue_rm ::
  "RiseFall \<Rightarrow> MinMax \<Rightarrow> real \<Rightarrow> RiseFallMinMax \<Rightarrow> RiseFallMinMax" where
  "rfmm_mergeValue_rm rf mm v t =
     (if \<not> rfmm_exists t rf mm \<or> mm_compare mm v (rfmm_values t rf mm)
      then rfmm_put rf mm v t else t)"

definition rfmm_mergeValue_ba ::
  "RiseFallBoth \<Rightarrow> MinMaxAll \<Rightarrow> real \<Rightarrow> RiseFallMinMax \<Rightarrow> RiseFallMinMax" where
  "rfmm_mergeValue_ba b mma v =
     rfmm_loop (\<lambda>rf mm t. if \<not> rfmm_exists t rf mm \<or> mm_compare mm v (rfmm_values t rf mm)
                           then rfmm_put rf mm v t else t)
       (rfb_range b) (mma_range mma)"

definition rfmm_setValues :: "RiseFallMinMax \<Rightarrow> RiseFallMinMax \<Rightarrow> RiseFallMinMax" where
  "rfmm_setValues src =
     rfmm_loop (\<lambda>rf mm t.
         t\<lparr>rfmm_values := (rfmm_values t)(rf := (rfmm_values t rf)(mm := rfmm_values src rf mm)),
           rfmm_exists := (rfmm_exists t)(rf := (rfmm_exists t rf)(mm := rfmm_exists src rf mm))\<rparr>)
       rf_range mm_range"

text \<open>The out-parameter form: \<open>value\<close> is written only when the entry exists.\<close>

definition rfmm_value_exists :: "RiseFallMinMax \<Rightarrow> RiseFall \<Rightarrow> MinMax \<Rightarrow> real option" where
  "rfmm_value_exists t rf mm = (if rfmm_exists t rf mm then Some (rfmm_values t rf mm) else None)"

definition rfmm_value_mm :: "RiseFallMinMax \<Rightarrow> MinMax \<Rightarrow> real" where
  "rfmm_value_mm t mm =
     (let rise = rfmm_values t Rise mm; fall = rfmm_values t Fall mm
      in if mm_compare mm rise fall then rise else fall)"

definition rfmm_hasValue_rm :: "RiseFallMinMax \<Rightarrow> RiseFall \<Rightarrow> MinMax \<Rightarrow> bool" where
  "rfmm_hasValue_rm t rf mm = rfmm_exists t rf mm"

definition rfmm_empty :: "RiseFallMinMax \<Rightarrow> bool" where
  "rfmm_empty t = list_all (\<lambda>rf. list_all (\<lambda>mm. \<not> rfmm_exists t rf mm) mm_range) rf_range"

definition rfmm_hasValue :: "RiseFallMinMax \<Rightarrow> bool" where
  "rfmm_hasValue t = (\<not> rfmm_empty t)"

definition rfmm_maxValue :: "RiseFallMinMax \<Rightarrow> real \<times> bool" where
  "rfmm_maxValue t =
     fold (\<lambda>rf. fold (\<lambda>mm (m, e).
              if rfmm_exists t rf mm then (max m (rfmm_values t rf mm), True) else (m, e)) mm_range)
       rf_range (mm_initValue MM_max, False)"

definition rfmm_mergeWith :: "RiseFallMinMax \<Rightarrow> RiseFallMinMax \<Rightarrow> RiseFallMinMax" where
  "rfmm_mergeWith src =
     fold (\<lambda>mm. fold (\<lambda>rf t.
         let exists1 = rfmm_exists t rf mm; exists2 = rfmm_exists src rf mm
         in if exists1 \<and> exists2 then
              (if mm_compare mm (rfmm_values src rf mm) (rfmm_values t rf mm)
               then t\<lparr>rfmm_values := (rfmm_values t)(rf := (rfmm_values t rf)(mm := rfmm_values src rf mm))\<rparr>
               else t)
            else if \<not> exists1 \<and> exists2 then rfmm_put rf mm (rfmm_values src rf mm) t
            else t) rf_range) mm_range"

definition rfmm_equal :: "RiseFallMinMax \<Rightarrow> RiseFallMinMax \<Rightarrow> bool" where
  "rfmm_equal t1 t2 =
     list_all (\<lambda>rf. list_all (\<lambda>mm.
        let exists1 = rfmm_exists t1 rf mm; exists2 = rfmm_exists t2 rf mm
        in \<not> exists1 \<noteq> exists2
           \<and> \<not> (exists1 \<and> exists2 \<and> rfmm_values t1 rf mm \<noteq> rfmm_values t2 rf mm)) mm_range) rf_range"

definition rfmm_isOneValue :: "RiseFallMinMax \<Rightarrow> real option" where
  "rfmm_isOneValue t =
     (if rfmm_exists t Rise MM_min then
        let value = rfmm_values t Rise MM_min
        in if list_all (\<lambda>rf. list_all (\<lambda>mm.
                rfmm_exists t rf mm \<and> rfmm_values t rf mm = value) mm_range) rf_range
           then Some value else None
      else None)"

definition rfmm_isOneValue_mm :: "RiseFallMinMax \<Rightarrow> MinMax \<Rightarrow> real option" where
  "rfmm_isOneValue_mm t mm =
     (if rfmm_exists t Rise mm then
        let value = rfmm_values t Rise mm
        in if list_all (\<lambda>rf. rfmm_exists t rf mm \<and> rfmm_values t rf mm = value) rf_range
           then Some value else None
      else None)"

section \<open>Lemmas\<close>

text \<open>
  The abstraction of a table is the partial map it represents; every operation is then one
  equation on that map.
\<close>

abbreviation rfmm_map :: "RiseFallMinMax \<Rightarrow> RiseFall \<Rightarrow> MinMax \<Rightarrow> real option" where
  "rfmm_map \<equiv> rfmm_value_exists"

lemmas rfmm_map_def = rfmm_value_exists_def

lemma rfmm_map_put [rf_simps]:
  "rfmm_map (rfmm_put rf mm v t) rf' mm' = (if rf' = rf \<and> mm' = mm then Some v else rfmm_map t rf' mm')"
  by (auto simp: rfmm_value_exists_def rfmm_put_def)

lemma rfmm_map_drop [rf_simps]:
  "rfmm_map (rfmm_drop rf mm t) rf' mm' = (if rf' = rf \<and> mm' = mm then None else rfmm_map t rf' mm')"
  by (auto simp: rfmm_value_exists_def rfmm_drop_def)

text \<open>A cell update inside the nested loop acts on every cell of the two ranges, once each.\<close>

lemma fold_cell:
  assumes upd: "\<And>mm t. c (f mm t) mm = g mm (c t mm)"
    and frame: "\<And>mm mm' t. mm' \<noteq> mm \<Longrightarrow> c (f mm t) mm' = c t mm'" and d: "distinct xs"
  shows "c (fold f xs t) k = (if k \<in> set xs then g k (c t k) else c t k)"
  using d
proof (induction xs arbitrary: t)
  case (Cons x xs)
  then show ?case by (cases "k = x") (auto simp: upd frame)
qed simp

lemma rfmm_loop_cell:
  assumes upd: "\<And>rf mm t. rfmm_map (f rf mm t) rf mm = g rf mm (rfmm_map t rf mm)"
    and frame: "\<And>rf mm rf' mm' t. rf' \<noteq> rf \<or> mm' \<noteq> mm \<Longrightarrow>
      rfmm_map (f rf mm t) rf' mm' = rfmm_map t rf' mm'"
    and d: "distinct rfs" "distinct mms"
  shows "rfmm_map (rfmm_loop f rfs mms t) rf mm =
    (if rf \<in> set rfs \<and> mm \<in> set mms then g rf mm (rfmm_map t rf mm) else rfmm_map t rf mm)"
proof -
  have inner: "rfmm_map (fold (f r) mms t') r' m =
      (if r' = r \<and> m \<in> set mms then g r m (rfmm_map t' r m) else rfmm_map t' r' m)" for r r' m t'
  proof (cases "r' = r")
    case True
    show ?thesis
      using fold_cell [of "\<lambda>t. rfmm_map t r" "f r" "g r" mms t' m] upd frame d(2) True by auto
  next
    case False
    have "rfmm_map (fold (f r) mms t') r' m = rfmm_map t' r' m"
      by (rule fold_unchanged [where g = "\<lambda>t. rfmm_map t r' m"]) (use False frame in auto)
    with False show ?thesis by simp
  qed
  show ?thesis
    unfolding rfmm_loop_def using d(1) by (induction rfs arbitrary: t) (auto simp: inner)
qed

lemma rfmm_map_clear [rf_simps]: "rfmm_map (rfmm_clear t) rf mm = None"
  unfolding rfmm_clear_def
  by (subst rfmm_loop_cell [where g = "\<lambda>_ _ _. None"])
     (auto simp: rfmm_map_drop distinct_ranges)

lemma rfmm_map_setValue_ba [rf_simps]:
  "rfmm_map (rfmm_setValue_ba b mma v t) rf mm =
     (if rfb_matches b rf \<and> mma_matches mma mm then Some v else rfmm_map t rf mm)"
  unfolding rfmm_setValue_ba_def
  by (subst rfmm_loop_cell [where g = "\<lambda>_ _ _. Some v"])
     (auto simp: rf_simps distinct_rfb_range distinct_mma_range)

text \<open>The merge of one cell: the new value wins when there is none yet or when it is tighter.\<close>

definition merge_cell :: "MinMax \<Rightarrow> real \<Rightarrow> real option \<Rightarrow> real option" where
  "merge_cell mm v c = Some (case c of None \<Rightarrow> v | Some w \<Rightarrow> mm_minMax mm v w)"

lemma rfmm_map_mergeValue_rm [rf_simps]:
  "rfmm_map (rfmm_mergeValue_rm rf mm v t) rf' mm' =
     (if rf' = rf \<and> mm' = mm then merge_cell mm v (rfmm_map t rf mm) else rfmm_map t rf' mm')"
  by (cases "rfmm_exists t rf mm")
     (auto simp: rfmm_mergeValue_rm_def rfmm_put_def merge_cell_def mm_minMax_def rfmm_map_def)

lemma rfmm_map_mergeValue_ba [rf_simps]:
  "rfmm_map (rfmm_mergeValue_ba b mma v t) rf mm =
     (if rfb_matches b rf \<and> mma_matches mma mm then merge_cell mm v (rfmm_map t rf mm)
      else rfmm_map t rf mm)"
  unfolding rfmm_mergeValue_ba_def rfmm_mergeValue_rm_def [symmetric]
  by (subst rfmm_loop_cell [where g = "\<lambda>_ mm. merge_cell mm v"])
     (auto simp: rf_simps distinct_rfb_range distinct_mma_range)

lemma rfmm_map_mergeWith [rf_simps]:
  "rfmm_map (rfmm_mergeWith src t) rf mm =
     (case rfmm_map src rf mm of None \<Rightarrow> rfmm_map t rf mm
      | Some v \<Rightarrow> merge_cell mm v (rfmm_map t rf mm))"
proof -
  let ?f = "\<lambda>mm rf t.
         let exists1 = rfmm_exists t rf mm; exists2 = rfmm_exists src rf mm
         in if exists1 \<and> exists2 then
              (if mm_compare mm (rfmm_values src rf mm) (rfmm_values t rf mm)
               then t\<lparr>rfmm_values := (rfmm_values t)(rf := (rfmm_values t rf)(mm := rfmm_values src rf mm))\<rparr>
               else t)
            else if \<not> exists1 \<and> exists2 then rfmm_put rf mm (rfmm_values src rf mm) t
            else t"
  let ?g = "\<lambda>rf mm c. case rfmm_map src rf mm of None \<Rightarrow> c | Some v \<Rightarrow> merge_cell mm v c"
  have cell: "rfmm_map (?f m r t') r' m' =
      (if r' = r \<and> m' = m then ?g r m (rfmm_map t' r m) else rfmm_map t' r' m')" for m r t' r' m'
    by (simp add: Let_def)
       (auto simp: rfmm_put_def merge_cell_def mm_minMax_def rfmm_map_def)
  show ?thesis
    by (cases rf; cases mm)
       (simp_all only: rfmm_mergeWith_def mm_range_def rf_range_def fold_simps cell, simp_all)
qed

lemma rfmm_equal_iff: "rfmm_equal t1 t2 \<longleftrightarrow> rfmm_map t1 = rfmm_map t2"
proof -
  have "rfmm_equal t1 t2 \<longleftrightarrow> (\<forall>rf mm. rfmm_map t1 rf mm = rfmm_map t2 rf mm)"
    by (auto simp: rfmm_equal_def list_all_iff Let_def rfmm_map_def split: if_splits)
  then show ?thesis by (auto simp: fun_eq_iff)
qed

lemma merge_cell_comm: "merge_cell mm v (merge_cell mm w c) = merge_cell mm w (merge_cell mm v c)"
  by (cases mm; cases c) (auto simp: merge_cell_def mm_minMax_def compareMin_def compareMax_def)

lemma rfmm_maxValue_unfold:
  "rfmm_maxValue t =
     (let vs = [rfmm_values t rf mm. rf \<leftarrow> rf_range, mm \<leftarrow> mm_range, rfmm_exists t rf mm]
      in (fold max vs (- sta_INF), vs \<noteq> []))"
  by (simp add: rfmm_maxValue_def rf_range_def mm_range_def max.commute)


text \<open>Merging a sequence of values into one cell keeps the tightest of them.\<close>

fun mm_best :: "MinMax \<Rightarrow> real set \<Rightarrow> real" where
  "mm_best MM_min = Min"
| "mm_best MM_max = Max"

definition rfmm_merge_entry ::
  "RiseFallBoth \<times> MinMaxAll \<times> real \<Rightarrow> RiseFallMinMax \<Rightarrow> RiseFallMinMax" where
  "rfmm_merge_entry = (\<lambda>(b, mma, v). rfmm_mergeValue_ba b mma v)"

definition entry_values :: "(RiseFallBoth \<times> MinMaxAll \<times> real) list \<Rightarrow> RiseFall \<Rightarrow> MinMax \<Rightarrow> real set" where
  "entry_values es rf mm = {v. \<exists>b mma. (b, mma, v) \<in> set es \<and> rfb_matches b rf \<and> mma_matches mma mm}"

lemma finite_entry_values: "finite (entry_values es rf mm)"
  by (rule finite_subset [of _ "(\<lambda>(b, mma, v). v) ` set es"]) (force simp: entry_values_def)+

lemma mm_minMax_min: "mm_minMax MM_min v w = min v w"
  by (auto simp: mm_minMax_def compareMin_def)

lemma mm_minMax_max: "mm_minMax MM_max v w = max v w"
  by (auto simp: mm_minMax_def compareMax_def)

lemma mm_minMax_best: "finite S \<Longrightarrow> S \<noteq> {} \<Longrightarrow> mm_minMax mm v (mm_best mm S) = mm_best mm (insert v S)"
  by (cases mm) (simp_all add: mm_minMax_min mm_minMax_max)

lemma entry_values_snoc:
  "entry_values (es @ [(b, mma, v)]) rf mm =
     (if rfb_matches b rf \<and> mma_matches mma mm then insert v (entry_values es rf mm)
      else entry_values es rf mm)"
  by (auto simp: entry_values_def)

section \<open>Properties\<close>

text \<open>after merging any sequence of values, each given for a set of edges and a set of
  min/max cases, a cell of the table holds a value exactly when some entry covered it, and then it
  holds the minimum (min cell) or the maximum (max cell) of the values that covered it: the order of
  the merges does not matter.\<close>

theorem rfmm_merge_all_best:
  "rfmm_value_exists (fold rfmm_merge_entry es (rfmm_clear t)) rf mm =
     (let vs = entry_values es rf mm in if vs = {} then None else Some (mm_best mm vs))"
proof (induction es rule: rev_induct)
  case Nil
  then show ?case by (simp add: rfmm_map_clear entry_values_def)
next
  case (snoc e es)
  obtain b mma v where e: "e = (b, mma, v)" by (cases e)
  show ?case
    using snoc finite_entry_values [of es rf mm]
    by (auto simp: e rfmm_merge_entry_def rfmm_map_mergeValue_ba entry_values_snoc Let_def
        merge_cell_def mm_minMax_best split: if_splits; cases mm; simp)
qed

text \<open>merging two tables into a third gives the same table, as \<open>equal\<close> sees it, in either
  order, and merging a table that \<open>equal\<close> cannot distinguish from the target changes nothing.\<close>

theorem rfmm_mergeWith_laws:
  "rfmm_equal (rfmm_mergeWith a (rfmm_mergeWith b t)) (rfmm_mergeWith b (rfmm_mergeWith a t)) \<and>
   rfmm_equal (rfmm_mergeWith t t) t"
proof
  show "rfmm_equal (rfmm_mergeWith a (rfmm_mergeWith b t)) (rfmm_mergeWith b (rfmm_mergeWith a t))"
    unfolding rfmm_equal_iff
    by (intro ext) (simp add: rfmm_map_mergeWith merge_cell_comm split: option.splits)
  show "rfmm_equal (rfmm_mergeWith t t) t"
    unfolding rfmm_equal_iff
    by (intro ext)
       (auto simp: rfmm_map_mergeWith merge_cell_def mm_minMax_def split: option.splits)
qed

end
