(* ===== verification/GTP_Names.thy ===== *)
theory GTP_Names
  imports GTP_Prelude
begin

text \<open>
  Name handling: glob patterns (\<open>util/PatternMatch.cc\<close>), bus subscripts
  (\<open>network/ParseBus.cc\<close>), the Verilog name space (\<open>network/VerilogNamespace.cc\<close>) and the
  string replacements of \<open>util/StringUtil.cc\<close>. A C string is the list of its characters before
  the terminating null. The character classes are those of the C locale on ASCII. Tcl regular
  expressions (the other branch of \<open>PatternMatch::match\<close>) are not modelled.
\<close>

section \<open>C characters and numbers\<close>

definition c_isdigit :: "char \<Rightarrow> bool" where
  "c_isdigit c \<longleftrightarrow> 48 \<le> (of_char c :: nat) \<and> (of_char c :: nat) \<le> 57"

definition c_isalpha :: "char \<Rightarrow> bool" where
  "c_isalpha c \<longleftrightarrow> (65 \<le> (of_char c :: nat) \<and> (of_char c :: nat) \<le> 90)
                 \<or> (97 \<le> (of_char c :: nat) \<and> (of_char c :: nat) \<le> 122)"

definition c_isalnum :: "char \<Rightarrow> bool" where
  "c_isalnum c \<longleftrightarrow> c_isalpha c \<or> c_isdigit c"

definition c_isspace :: "char \<Rightarrow> bool" where
  "c_isspace c \<longleftrightarrow> (of_char c :: nat) = 32 \<or> (9 \<le> (of_char c :: nat) \<and> (of_char c :: nat) \<le> 13)"

definition c_tolower :: "char \<Rightarrow> char" where
  "c_tolower c = (if 65 \<le> (of_char c :: nat) \<and> (of_char c :: nat) \<le> 90
                  then char_of ((of_char c :: nat) + 32) else c)"

definition c_toupper :: "char \<Rightarrow> char" where
  "c_toupper c = (if 97 \<le> (of_char c :: nat) \<and> (of_char c :: nat) \<le> 122
                  then char_of ((of_char c :: nat) - 32) else c)"

definition digit_val :: "char \<Rightarrow> int" where
  "digit_val c = int (of_char c) - 48"

fun digits_val :: "int \<Rightarrow> string \<Rightarrow> int" where
  "digits_val acc [] = acc"
| "digits_val acc (c # cs) = (if c_isdigit c then digits_val (10 * acc + digit_val c) cs else acc)"

text \<open>\<open>atoi\<close>: leading white space, an optional sign, then digits up to the first other
  character. A value outside \<open>int\<close> is undefined in C and exact here.\<close>

definition c_atoi :: "string \<Rightarrow> int" where
  "c_atoi s =
     (case dropWhile c_isspace s of
        [] \<Rightarrow> 0
      | c # cs \<Rightarrow> if c = CHR ''-'' then - digits_val 0 cs
                 else if c = CHR ''+'' then digits_val 0 cs
                 else digits_val 0 (c # cs))"

fun nat_to_string :: "nat \<Rightarrow> string" where
  "nat_to_string n =
     (if n < 10 then [char_of (48 + n)]
      else nat_to_string (n div 10) @ [char_of (48 + n mod 10)])"

declare nat_to_string.simps [simp del]

text \<open>\<open>std::to_string(int)\<close> and the \<open>%d\<close> conversion.\<close>

definition c_to_string :: "int \<Rightarrow> string" where
  "c_to_string i = (if i < 0 then CHR ''-'' # nat_to_string (nat (- i)) else nat_to_string (nat i))"

text \<open>\<open>strchr\<close> and \<open>strrchr\<close>: the text before and after the first or last occurrence.\<close>

fun c_strchr :: "string \<Rightarrow> char \<Rightarrow> (string \<times> string) option" where
  "c_strchr [] ch = None"
| "c_strchr (c # cs) ch =
     (if c = ch then Some ([], cs)
      else map_option (\<lambda>(a, b). (c # a, b)) (c_strchr cs ch))"

fun c_strrchr :: "string \<Rightarrow> char \<Rightarrow> (string \<times> string) option" where
  "c_strrchr [] ch = None"
| "c_strrchr (c # cs) ch =
     (case c_strrchr cs ch of
        Some (a, b) \<Rightarrow> Some (c # a, b)
      | None \<Rightarrow> if c = ch then Some ([], cs) else None)"

section \<open>Glob patterns\<close>

text \<open>
  \<open>patternMatch\<close> advances through equal characters and \<open>?\<close>, then accepts when both strings
  ended, or at a \<open>*\<close> tries the rest of the pattern at every position before the end of the
  string. \<open>eq s p\<close> is the character comparison: equality for \<open>patternMatch\<close>,
  \<open>equalCase\<close> for \<open>patternMatchNoCase\<close>.
\<close>

fun pm_advance :: "(char \<Rightarrow> char \<Rightarrow> bool) \<Rightarrow> string \<Rightarrow> string \<Rightarrow> string \<times> string" where
  "pm_advance eq (p # ps) (s # ss) =
     (if eq s p \<or> p = CHR ''?'' then pm_advance eq ps ss else (p # ps, s # ss))"
| "pm_advance eq ps ss = (ps, ss)"

lemma pm_advance_length: "(ps, ss) = pm_advance eq p s \<Longrightarrow> length ps \<le> length p \<and> length ss \<le> length s"
  by (induction eq p s rule: pm_advance.induct) (auto split: if_splits)

function (sequential) pm_match :: "(char \<Rightarrow> char \<Rightarrow> bool) \<Rightarrow> string \<Rightarrow> string \<Rightarrow> bool"
  and pm_star :: "(char \<Rightarrow> char \<Rightarrow> bool) \<Rightarrow> string \<Rightarrow> string \<Rightarrow> bool" where
  "pm_match eq pattern str =
     (case pm_advance eq pattern str of
        ([], []) \<Rightarrow> True
      | (p # ps, s) \<Rightarrow>
          if p = CHR ''*'' then (if ps = [] then True else pm_star eq ps s) else False
      | _ \<Rightarrow> False)"
| "pm_star eq p [] = False"
| "pm_star eq p (c # s) = (if pm_match eq p (c # s) then True else pm_star eq p s)"
  by pat_completeness auto
termination
  by (relation "measures [\<lambda>x. case x of Inl (eq, p, s) \<Rightarrow> 2 * length p | Inr (eq, p, s) \<Rightarrow> 2 * length p + 1,
                          \<lambda>x. case x of Inl (eq, p, s) \<Rightarrow> length s | Inr (eq, p, s) \<Rightarrow> length s]")
     (auto dest!: pm_advance_length)

declare pm_match.simps [simp del]

definition patternMatch :: "string \<Rightarrow> string \<Rightarrow> bool" where
  "patternMatch pattern str = pm_match (\<lambda>s p. s = p) pattern str"

definition equalCase :: "bool \<Rightarrow> char \<Rightarrow> char \<Rightarrow> bool" where
  "equalCase nocase s p = (if nocase then c_tolower s = c_tolower p else s = p)"

definition patternMatchNoCase :: "string \<Rightarrow> string \<Rightarrow> bool \<Rightarrow> bool" where
  "patternMatchNoCase pattern str nocase = pm_match (equalCase nocase) pattern str"

definition patternWildcards :: "string \<Rightarrow> bool" where
  "patternWildcards pattern = list_ex (\<lambda>c. c \<in> set ''*?'') pattern"

definition regexpWildcards :: "string \<Rightarrow> bool" where
  "regexpWildcards pattern = list_ex (\<lambda>c. c \<in> set ''.+*?[]'') pattern"

text \<open>The reference meaning of a glob pattern.\<close>

fun glob :: "(char \<Rightarrow> char \<Rightarrow> bool) \<Rightarrow> string \<Rightarrow> string \<Rightarrow> bool" where
  "glob eq [] s = (s = [])"
| "glob eq (p # ps) [] = (p = CHR ''*'' \<and> glob eq ps [])"
| "glob eq (p # ps) (s # ss) =
     (if p = CHR ''*'' then glob eq ps (s # ss) \<or> glob eq (p # ps) ss
      else (eq s p \<or> p = CHR ''?'') \<and> glob eq ps ss)"

fun adjacent_stars :: "string \<Rightarrow> bool" where
  "adjacent_stars (a # b # cs) = ((a = CHR ''*'' \<and> b = CHR ''*'') \<or> adjacent_stars (b # cs))"
| "adjacent_stars _ = False"

section \<open>Bus names\<close>

datatype c_error = OutOfRange

definition isBusName :: "string \<Rightarrow> char \<Rightarrow> char \<Rightarrow> char \<Rightarrow> bool" where
  "isBusName name brkt_left brkt_right escape =
     (let len = length name
      in if len \<ge> 4 \<and> name ! (len - 2) \<noteq> escape \<and> name ! (len - 1) = brkt_right
         then c_strrchr name brkt_left \<noteq> None else False)"

text \<open>The shared prefix of the two \<open>parseBusName\<close> loops: the split at the left bracket that
  belongs to the right bracket the name ends with, \<open>None\<close> when the name is no bus. Reading
  \<open>brkts_left\<close> past its end is an error.\<close>

definition bus_split ::
  "string \<Rightarrow> string \<Rightarrow> string \<Rightarrow> char \<Rightarrow> c_error + (string \<times> string) option" where
  "bus_split name brkts_left brkts_right escape =
     (let len = length name
      in if len \<ge> 4 \<and> name ! (len - 2) \<noteq> escape then
           (case c_strchr brkts_right (name ! (len - 1)) of
              None \<Rightarrow> Inr None
            | Some (before, _) \<Rightarrow>
                let brkt_index = length before
                in if brkt_index < length brkts_left
                   then Inr (c_strrchr name (brkts_left ! brkt_index))
                   else Inl OutOfRange)
         else Inr None)"

text \<open>\<open>Some (bus_name, index)\<close> when \<open>is_bus\<close>; the name is appended to the caller's string.\<close>

definition parseBusName_brkts ::
  "string \<Rightarrow> string \<Rightarrow> string \<Rightarrow> char \<Rightarrow> string \<Rightarrow> c_error + (string \<times> int) option" where
  "parseBusName_brkts name brkts_left brkts_right escape bus_name =
     (case bus_split name brkts_left brkts_right escape of
        Inl e \<Rightarrow> Inl e
      | Inr None \<Rightarrow> Inr None
      | Inr (Some (before, after)) \<Rightarrow> Inr (Some (bus_name @ before, c_atoi after)))"

definition parseBusName ::
  "string \<Rightarrow> char \<Rightarrow> char \<Rightarrow> char \<Rightarrow> string \<Rightarrow> c_error + (string \<times> int) option" where
  "parseBusName name brkt_left brkt_right escape bus_name =
     parseBusName_brkts name [brkt_left] [brkt_right] escape bus_name"

text \<open>The subscript of a bus: a range, a wildcard (\<open>from\<close> and \<open>to\<close> unset) or one bit.\<close>

datatype bus_subscript = BusRange int int | BusWild | BusBit int

definition parseBusRange_brkts ::
  "string \<Rightarrow> string \<Rightarrow> string \<Rightarrow> char \<Rightarrow> string \<Rightarrow> c_error + (string \<times> bus_subscript) option" where
  "parseBusRange_brkts name brkts_left brkts_right escape bus_name =
     (case bus_split name brkts_left brkts_right escape of
        Inl e \<Rightarrow> Inl e
      | Inr None \<Rightarrow> Inr None
      | Inr (Some (before, after)) \<Rightarrow>
          (case c_strchr name (CHR '':'') of
             Some (_, rng) \<Rightarrow> Inr (Some (bus_name @ before, BusRange (c_atoi after) (c_atoi rng)))
           | None \<Rightarrow>
               if after \<noteq> [] \<and> hd after = CHR ''*'' then Inr (Some (bus_name @ before, BusWild))
               else Inr (Some (bus_name @ before, BusBit (c_atoi after)))))"

definition parseBusRange ::
  "string \<Rightarrow> char \<Rightarrow> char \<Rightarrow> char \<Rightarrow> string \<Rightarrow> c_error + (string \<times> bus_subscript) option" where
  "parseBusRange name brkt_left brkt_right escape bus_name =
     parseBusRange_brkts name [brkt_left] [brkt_right] escape bus_name"

fun escapeChars :: "string \<Rightarrow> char \<Rightarrow> char \<Rightarrow> char \<Rightarrow> string" where
  "escapeChars [] ch1 ch2 escape = []"
| "escapeChars (ch # s) ch1 ch2 escape =
     (if ch = escape then
        (case s of [] \<Rightarrow> [] | next_ch # s' \<Rightarrow> ch # next_ch # escapeChars s' ch1 ch2 escape)
      else if ch = ch1 \<or> ch = ch2 then escape # ch # escapeChars s ch1 ch2 escape
      else ch # escapeChars s ch1 ch2 escape)"

section \<open>The Verilog name space\<close>

definition bslash :: char where "bslash = CHR 0x5C"

text \<open>The copy loop of \<open>staToVerilog\<close>: the copied characters and the \<open>escaped\<close> flag.\<close>

fun staToVerilog_loop :: "string \<Rightarrow> char \<Rightarrow> string \<times> bool" where
  "staToVerilog_loop [] escape = ([], False)"
| "staToVerilog_loop (ch # s) escape =
     (if ch = escape then
        (case s of
           next_ch # s' \<Rightarrow>
             if next_ch = escape
             then (let (r, e) = staToVerilog_loop s' escape in (ch # next_ch # r, e))
             else (let (r, e) = staToVerilog_loop s escape in (r, True))
         | [] \<Rightarrow> (let (r, e) = staToVerilog_loop s escape in (r, True)))
      else (let (r, e) = staToVerilog_loop s escape
            in (ch # r, \<not> (c_isalnum ch \<or> ch = CHR ''_'') \<or> e)))"

definition staToVerilog :: "string \<Rightarrow> char \<Rightarrow> string" where
  "staToVerilog sta_name escape =
     (let (r, escaped) = staToVerilog_loop sta_name escape
      in if escaped then bslash # r @ '' '' else sta_name)"

fun staToVerilog2_loop :: "string \<Rightarrow> char \<Rightarrow> string \<times> bool" where
  "staToVerilog2_loop [] escape = ([], False)"
| "staToVerilog2_loop (ch # s) escape =
     (if ch = escape then
        (case s of
           next_ch # s' \<Rightarrow>
             if next_ch = escape
             then (let (r, e) = staToVerilog2_loop s' escape in (ch # next_ch # r, e))
             else (let (r, e) = staToVerilog2_loop s escape in (r, True))
         | [] \<Rightarrow> (let (r, e) = staToVerilog2_loop s escape in (r, True)))
      else (let (r, e) = staToVerilog2_loop s escape;
                is_brkt = (ch = CHR ''['' \<or> ch = CHR '']'')
            in (ch # r, (\<not> (c_isalnum ch \<or> ch = CHR ''_'') \<and> \<not> is_brkt) \<or> is_brkt \<or> e)))"

definition staToVerilog2 :: "string \<Rightarrow> char \<Rightarrow> string" where
  "staToVerilog2 sta_name escape =
     (let (r, escaped) = staToVerilog2_loop sta_name escape
      in if escaped then bslash # r @ '' '' else sta_name)"

definition instanceVerilogName :: "string \<Rightarrow> char \<Rightarrow> string" where
  "instanceVerilogName sta_name escape = staToVerilog sta_name escape"

definition portVerilogName :: "string \<Rightarrow> char \<Rightarrow> string" where
  "portVerilogName sta_name escape = staToVerilog2 sta_name escape"

definition netVerilogName :: "string \<Rightarrow> char \<Rightarrow> c_error + string" where
  "netVerilogName sta_name escape =
     (case parseBusName sta_name (CHR ''['') (CHR '']'') escape [] of
        Inl e \<Rightarrow> Inl e
      | Inr (Some (bus_name, index)) \<Rightarrow>
          Inr (staToVerilog bus_name escape @ ''['' @ c_to_string index @ '']'')
      | Inr None \<Rightarrow> Inr (staToVerilog2 sta_name escape))"

definition verilog_special :: "char \<Rightarrow> bool" where
  "verilog_special ch \<longleftrightarrow> ch = CHR ''['' \<or> ch = CHR '']'' \<or> ch = CHR ''/'' \<or> ch = bslash"

fun verilogToSta_loop :: "string \<Rightarrow> string" where
  "verilogToSta_loop [] = []"
| "verilogToSta_loop (ch # s) =
     (if verilog_special ch then bslash # ch # verilogToSta_loop s else ch # verilogToSta_loop s)"

text \<open>For the one character name \<open>\\<close> the index of the last character wraps around to the
  backslash itself, which is no space, so the length stays 0.\<close>

definition verilogToSta :: "string \<Rightarrow> string" where
  "verilogToSta verilog_name =
     (case verilog_name of
        [] \<Rightarrow> []
      | c # name \<Rightarrow>
          if c = bslash then
            verilogToSta_loop (if name \<noteq> [] \<and> last name = CHR '' '' then butlast name else name)
          else verilog_name)"

definition netVerilogToSta :: "string \<Rightarrow> string" where
  "netVerilogToSta net_name = verilogToSta net_name"

section \<open>String replacement\<close>

definition starts_with :: "string \<Rightarrow> string \<Rightarrow> bool" where
  "starts_with pre s \<longleftrightarrow> take (length pre) s = pre"

fun str_find :: "string \<Rightarrow> string \<Rightarrow> (string \<times> string) option" where
  "str_find frm [] = (if frm = [] then Some ([], []) else None)"
| "str_find frm (c # s) =
     (if starts_with frm (c # s) then Some ([], drop (length frm) (c # s))
      else map_option (\<lambda>(a, b). (c # a, b)) (str_find frm s))"

fun str_rfind :: "string \<Rightarrow> string \<Rightarrow> (string \<times> string) option" where
  "str_rfind frm [] = (if frm = [] then Some ([], []) else None)"
| "str_rfind frm (c # s) =
     (case str_rfind frm s of
        Some (a, b) \<Rightarrow> Some (c # a, b)
      | None \<Rightarrow> if starts_with frm (c # s) then Some ([], drop (length frm) (c # s)) else None)"

definition replaceLast :: "string \<Rightarrow> string \<Rightarrow> string \<Rightarrow> string \<times> bool" where
  "replaceLast str frm to =
     (case str_rfind frm str of
        None \<Rightarrow> (str, False)
      | Some (before, after) \<Rightarrow> (before @ to @ after, True))"

lemma str_find_length: "str_find frm s = Some (a, b) \<Longrightarrow> length b + length frm \<le> length s"
  by (induction frm s arbitrary: a rule: str_find.induct)
     (auto simp: starts_with_def split: if_splits dest: arg_cong [where f = length])

function replaceAll :: "string \<Rightarrow> string \<Rightarrow> string \<Rightarrow> string" where
  "replaceAll str frm to =
     (if frm = [] then str
      else case str_find frm str of
             None \<Rightarrow> str
           | Some (before, after) \<Rightarrow> before @ to @ replaceAll after frm to)"
  by pat_completeness auto
termination
  by (relation "measure (\<lambda>(str, frm, to). length str)") (auto dest!: str_find_length simp: neq_Nil_conv)

declare replaceAll.simps [simp del]


section \<open>Lemmas on patterns\<close>

lemma glob_star_iff: "glob eq (CHR ''*'' # p) s \<longleftrightarrow> (\<exists>k \<le> length s. glob eq p (drop k s))"
proof (induction s)
  case Nil
  then show ?case by simp
next
  case (Cons c s)
  have "(\<exists>k \<le> length (c # s). glob eq p (drop k (c # s))) \<longleftrightarrow>
        glob eq p (c # s) \<or> (\<exists>k \<le> length s. glob eq p (drop k s))"
    by (metis Suc_le_mono drop0 drop_Suc_Cons length_Cons not0_implies_Suc zero_le)
  with Cons show ?case by simp
qed

lemma glob_star_here: "glob eq p s \<Longrightarrow> glob eq (CHR ''*'' # p) s"
  by (cases s) auto

lemma pm_advance_sound: "pm_advance eq p s = (p', s') \<Longrightarrow> glob eq p' s' \<Longrightarrow> glob eq p s"
proof (induction eq p s rule: pm_advance.induct)
  case (1 eq p ps s ss)
  then show ?case
    by (auto split: if_splits intro: glob_star_here)
qed auto

lemma pm_sound:
  "pm_match eq p s \<Longrightarrow> glob eq p s"
  "pm_star eq q t \<Longrightarrow> glob eq (CHR ''*'' # q) t"
proof (induction eq p s and eq q t rule: pm_match_pm_star.induct)
  case (1 eq p s)
  obtain p' s' where adv: "pm_advance eq p s = (p', s')" by fastforce
  have "glob eq p' s'"
  proof (cases p')
    case Nil
    with 1 adv show ?thesis by (auto simp: pm_match.simps [of eq p s] split: list.splits)
  next
    case (Cons c ps)
    with 1 adv show ?thesis
      by (auto simp: pm_match.simps [of eq p s] glob_star_iff split: if_splits)
  qed
  with adv show ?case by (rule pm_advance_sound)
qed (auto split: if_splits)

lemma pm_advance_complete:
  assumes "pm_advance eq p s = (p', s')" and "glob eq p s" and "\<forall>c \<in> set s. \<not> eq c (CHR ''*'')"
    and "\<not> adjacent_stars p"
  shows "glob eq p' s' \<and> (\<forall>c \<in> set s'. \<not> eq c (CHR ''*'')) \<and> \<not> adjacent_stars p' \<and>
    (p' = [] \<or> s' = [] \<or> (\<not> eq (hd s') (hd p') \<and> hd p' \<noteq> CHR ''?''))"
  using assms
proof (induction eq p s rule: pm_advance.induct)
  case (1 eq p ps s ss)
  show ?case
  proof (cases "eq s p \<or> p = CHR ''?''")
    case True
    with "1.prems" have "p \<noteq> CHR ''*''" by auto
    with True 1 show ?thesis by (cases ps) auto
  next
    case False
    with 1 show ?thesis by auto
  qed
qed auto

lemma glob_empty_no_stars: "glob eq p [] \<Longrightarrow> \<not> adjacent_stars (CHR ''*'' # p) \<Longrightarrow> p = []"
  by (cases p) auto

lemma pm_complete:
  "glob eq p s \<Longrightarrow> \<forall>c \<in> set s. \<not> eq c (CHR ''*'') \<Longrightarrow> \<not> adjacent_stars p \<Longrightarrow> pm_match eq p s"
  "(\<exists>k < length t. glob eq q (drop k t)) \<Longrightarrow> \<forall>c \<in> set t. \<not> eq c (CHR ''*'') \<Longrightarrow>
     \<not> adjacent_stars q \<Longrightarrow> pm_star eq q t"
proof (induction eq p s and eq q t rule: pm_match_pm_star.induct)
  case (1 eq p s)
  obtain p' s' where adv: "pm_advance eq p s = (p', s')" by fastforce
  note c = pm_advance_complete [OF adv "1.prems"]
  show ?case
  proof (cases p')
    case Nil
    with c adv show ?thesis by (auto simp: pm_match.simps [of eq p s])
  next
    case (Cons a ps)
    have a: "a = CHR ''*''" using c Cons by (cases s') (auto split: if_splits)
    show ?thesis
    proof (cases "ps = []")
      case True
      with a Cons adv show ?thesis by (simp add: pm_match.simps [of eq p s])
    next
      case False
      from c Cons a have "\<exists>k \<le> length s'. glob eq ps (drop k s')" by (simp add: glob_star_iff)
      then obtain k where k: "k \<le> length s'" "glob eq ps (drop k s')" by auto
      have nadj: "\<not> adjacent_stars (CHR ''*'' # ps)" using c Cons a by simp
      have "k \<noteq> length s'" using glob_empty_no_stars [OF _ nadj] k False by auto
      with k have "\<exists>k < length s'. glob eq ps (drop k s')" by (meson le_neq_implies_less)
      moreover have "\<not> adjacent_stars ps" using nadj by (cases ps) auto
      ultimately have "pm_star eq ps s'" using 1 adv Cons a False c by auto
      with a Cons adv False show ?thesis by (simp add: pm_match.simps [of eq p s])
    qed
  qed
next
  case (2 eq p)
  then show ?case by simp
next
  case (3 eq p c s)
  then obtain k where k: "k < length (c # s)" "glob eq p (drop k (c # s))" by auto
  then show ?case using 3 by (cases k) auto
qed

section \<open>Lemmas on bus names\<close>

lemma c_strchr_None: "c_strchr s ch = None \<longleftrightarrow> ch \<notin> set s"
  by (induction s) auto

lemma c_strchr_notin [simp]: "ch \<notin> set s \<Longrightarrow> c_strchr s ch = None"
  by (simp add: c_strchr_None)

lemma c_strrchr_None [simp]: "c_strrchr s ch = None \<longleftrightarrow> ch \<notin> set s"
  by (induction s) (auto split: option.splits)

lemma c_strrchr_last: "ch \<notin> set b \<Longrightarrow> c_strrchr (a @ ch # b) ch = Some (a, b)"
proof (induction a)
  case Nil
  then show ?case by (auto split: option.splits) (metis c_strrchr_None option.distinct(1))+
qed auto

lemma c_strchr_first: "ch \<notin> set a \<Longrightarrow> c_strchr (a @ ch # b) ch = Some (a, b)"
  by (induction a) auto

lemma nat_to_string_nonempty: "nat_to_string n \<noteq> []"
  by (subst nat_to_string.simps) auto

lemma nat_to_string_digits: "c \<in> set (nat_to_string n) \<Longrightarrow> c_isdigit c"
proof (induction n arbitrary: c rule: nat_to_string.induct)
  case (1 n)
  then show ?case
    by (subst (asm) (2) nat_to_string.simps) (auto simp: c_isdigit_def split: if_splits)
qed

lemma digits_val_nat:
  assumes "rest = [] \<or> \<not> c_isdigit (hd rest)"
  shows "\<exists>k. \<forall>acc. digits_val acc (nat_to_string n @ rest) = acc * 10 ^ k + int n"
proof (induction n rule: nat_to_string.induct)
  case (1 n)
  have dig: "c_isdigit (char_of (48 + m)) \<and> digit_val (char_of (48 + m)) = int m" if "m < 10" for m :: nat
    using that by (simp add: c_isdigit_def digit_val_def)
  have tail: "digits_val a rest = a" for a using assms by (cases rest) auto
  show ?case
  proof (cases "n < 10")
    case True
    then show ?thesis
      by (intro exI [of _ 1]) (simp add: nat_to_string.simps [of n] dig tail)
  next
    case False
    have app: "digits_val a (s @ [d] @ rest) = 10 * digits_val a s + digit_val d"
      if "c_isdigit d" "\<forall>c \<in> set s. c_isdigit c" for a s d
      using that by (induction s arbitrary: a) (auto simp: tail)
    have cut: "digits_val a (s @ rest) = digits_val a s" if "\<forall>c \<in> set s. c_isdigit c" for a s
      using that by (induction s arbitrary: a) (auto simp: tail)
    from 1 False obtain k where
      k: "\<And>acc. digits_val acc (nat_to_string (n div 10) @ rest) = acc * 10 ^ k + int (n div 10)"
      by blast
    have "digits_val acc (nat_to_string n @ rest) = acc * 10 ^ Suc k + int n" for acc
      using False k [of acc] dig [of "n mod 10"] nat_to_string_digits [of _ "n div 10"]
        app [of "char_of (48 + n mod 10)" "nat_to_string (n div 10)" acc]
        cut [of "nat_to_string (n div 10)" acc]
      by (simp add: nat_to_string.simps [of n] algebra_simps)
         (metis add.commute mult.commute mult_div_mod_eq of_nat_add of_nat_mult of_nat_numeral)
    then show ?thesis by blast
  qed
qed

lemma c_atoi_to_string:
  assumes "rest = [] \<or> \<not> c_isdigit (hd rest)"
  shows "c_atoi (c_to_string i @ rest) = i"
proof -
  have nonspace: "c_isdigit c \<Longrightarrow> \<not> c_isspace c \<and> c \<noteq> CHR ''-'' \<and> c \<noteq> CHR ''+''" for c
    by (auto simp: c_isdigit_def c_isspace_def)
  obtain d ds where n: "nat_to_string (nat i) = d # ds" "c_isdigit d"
    using nat_to_string_nonempty nat_to_string_digits by (metis list.exhaust list.set_intros(1))
  show ?thesis
  proof (cases "i < 0")
    case True
    then show ?thesis
      using digits_val_nat [OF assms, of "nat (- i)"]
      by (auto simp: c_atoi_def c_to_string_def c_isspace_def)
  next
    case False
    obtain k where "\<And>acc. digits_val acc (nat_to_string (nat i) @ rest) = acc * 10 ^ k + i"
      using digits_val_nat [OF assms, of "nat i"] False by auto
    from this [of 0] show ?thesis
      using False n nonspace [of d] by (simp add: c_atoi_def c_to_string_def)
  qed
qed


lemma c_to_string_nonempty: "c_to_string i \<noteq> []"
  by (simp add: c_to_string_def nat_to_string_nonempty)

lemma c_to_string_chars: "c \<in> set (c_to_string i) \<Longrightarrow> c_isdigit c \<or> c = CHR ''-''"
  by (auto simp: c_to_string_def dest: nat_to_string_digits split: if_splits)

lemma c_to_string_last: "c_isdigit (last (c_to_string i))"
  using nat_to_string_nonempty nat_to_string_digits last_in_set
  by (auto simp: c_to_string_def)

lemma bus_split_snoc:
  assumes "\<not> c_isdigit escape" and "name \<noteq> []" and "CHR ''['' \<notin> set mid"
  shows "bus_split (name @ ''['' @ mid @ c_to_string i @ '']'') ''['' '']'' escape
    = Inr (Some (name, mid @ c_to_string i @ '']''))"
proof -
  let ?n = "name @ ''['' @ mid @ c_to_string i @ '']''"
  have ne: "c_to_string i \<noteq> []" by (rule c_to_string_nonempty)
  have eq: "?n = ((name @ ''['' @ mid @ butlast (c_to_string i)) @ [last (c_to_string i)]) @ [CHR '']'']"
    using ne by simp
  have len: "length ?n \<ge> 4"
    using ne assms(2) by (cases name; cases "c_to_string i") auto
  have l1: "?n ! (length ?n - 1) = CHR '']''"
    unfolding eq by (subst nth_append) simp
  have l2: "?n ! (length ?n - 2) = last (c_to_string i)"
    unfolding eq by (subst nth_append, subst nth_append) simp
  have nb: "CHR ''['' \<notin> set (mid @ c_to_string i @ '']'')"
    using assms(3) c_to_string_chars [of "CHR ''[''" i] by (auto simp: c_isdigit_def)
  have esc: "last (c_to_string i) \<noteq> escape"
    using c_to_string_last [of i] assms(1) by auto
  have "c_strrchr ?n (CHR ''['') = Some (name, mid @ c_to_string i @ '']'')"
    using c_strrchr_last [OF nb, of name] by simp
  then show ?thesis
    using len l1 l2 esc by (simp add: bus_split_def Let_def)
qed

section \<open>Lemmas on the Verilog name space\<close>

text \<open>The names the network uses: a bracket, divider or backslash of the Verilog name has one
  backslash in front of it. No other backslash occurs.\<close>

fun sta_canonical :: "string \<Rightarrow> bool" where
  "sta_canonical [] = True"
| "sta_canonical (ch # s) =
     (if ch = bslash then
        (case s of [] \<Rightarrow> False
         | c # s' \<Rightarrow> c \<noteq> bslash \<and> verilog_special c \<and> sta_canonical s')
      else \<not> verilog_special ch \<and> sta_canonical s)"

lemma special_not_alnum: "verilog_special c \<Longrightarrow> \<not> (c_isalnum c \<or> c = CHR ''_'')"
  by (auto simp: verilog_special_def bslash_def c_isalnum_def c_isalpha_def c_isdigit_def)

lemma staToVerilog_loop_canonical:
  "sta_canonical s \<Longrightarrow> verilogToSta_loop (fst (staToVerilog_loop s bslash)) = s"
proof (induction s rule: sta_canonical.induct)
  case (2 ch s)
  show ?case
  proof (cases "ch = bslash")
    case True
    with 2 obtain c s' where s: "s = c # s'" "c \<noteq> bslash" "verilog_special c" "sta_canonical s'"
      by (auto split: list.splits)
    with 2 True show ?thesis by (auto simp: split_beta)
  next
    case False
    with 2 show ?thesis by (auto simp: split_beta)
  qed
qed simp

lemma staToVerilog_loop_plain:
  "sta_canonical s \<Longrightarrow> \<not> snd (staToVerilog_loop s bslash) \<Longrightarrow> bslash \<notin> set s"
proof (induction s rule: sta_canonical.induct)
  case (2 ch s)
  then show ?case
    by (cases "ch = bslash") (auto simp: split_beta split: list.splits)
qed simp

lemma staToVerilog_loop2: "staToVerilog2_loop s e = staToVerilog_loop s e"
proof (induction s e rule: staToVerilog2_loop.induct)
  case (2 ch s escape)
  have brkt: "ch = CHR ''['' \<or> ch = CHR '']'' \<Longrightarrow> \<not> (c_isalnum ch \<or> ch = CHR ''_'')"
    by (rule special_not_alnum) (auto simp: verilog_special_def)
  show ?case
  proof (cases "ch = escape")
    case True
    then show ?thesis using 2 by (cases s) (simp_all split: if_splits)
  next
    case False
    then show ?thesis using 2 brkt by (auto simp: split_beta)
  qed
qed simp

lemma escapeChars_twice:
  "escape \<noteq> ch1 \<Longrightarrow> escape \<noteq> ch2 \<Longrightarrow>
   escapeChars (escapeChars s ch1 ch2 escape) ch1 ch2 escape = escapeChars s ch1 ch2 escape"
proof (induction s ch1 ch2 escape rule: escapeChars.induct)
  case (2 ch s ch1 ch2 escape)
  show ?case
  proof (cases s)
    case Nil
    then show ?thesis using "2.prems" by simp
  next
    case (Cons c s')
    with 2 show ?thesis by (cases "ch = escape"; cases "c = escape") simp_all
  qed
qed simp

lemma str_find_char:
  "str_find [c] s = c_strchr s c"
  by (induction s) (auto simp: starts_with_def)

lemma c_strchr_Some: "c_strchr s c = Some (a, b) \<Longrightarrow> s = a @ c # b \<and> c \<notin> set a"
  by (induction s arbitrary: a) (auto split: if_splits)

lemma replaceAll_char:
  "replaceAll s [c] to = concat (map (\<lambda>x. if x = c then to else [x]) s)"
proof (induction "length s" arbitrary: s rule: less_induct)
  case less
  show ?case
  proof (cases "c_strchr s c")
    case None
    moreover from this have "concat (map (\<lambda>x. if x = c then to else [x]) s) = s"
      by (induction s) auto
    ultimately show ?thesis using None by (simp add: replaceAll.simps [of s] str_find_char)
  next
    case (Some ab)
    then obtain a b where ab: "c_strchr s c = Some (a, b)" by (cases ab) auto
    then have s: "s = a @ c # b" "c \<notin> set a" using c_strchr_Some by auto
    moreover from s(2) have "concat (map (\<lambda>x. if x = c then to else [x]) a) = a"
      by (induction a) auto
    moreover have "replaceAll b [c] to = concat (map (\<lambda>x. if x = c then to else [x]) b)"
      by (rule less) (simp add: s)
    ultimately show ?thesis
      using ab by (subst replaceAll.simps) (simp add: str_find_char)
  qed
qed

section \<open>Properties\<close>

text \<open>C40: a string that \<open>patternMatch\<close> accepts is always matched by the pattern as a glob; when
  the pattern has no two adjacent stars and the string has no star in it, the two agree. The
  same holds without case, for \<open>patternMatchNoCase\<close>.\<close>

theorem patternMatch_glob:
  "(patternMatch pattern str \<longrightarrow> glob (\<lambda>s p. s = p) pattern str) \<and>
   (patternMatchNoCase pattern str nocase \<longrightarrow> glob (equalCase nocase) pattern str) \<and>
   (\<not> adjacent_stars pattern \<and> CHR ''*'' \<notin> set str \<longrightarrow>
      patternMatch pattern str = glob (\<lambda>s p. s = p) pattern str \<and>
      patternMatchNoCase pattern str nocase = glob (equalCase nocase) pattern str)"
proof -
  have star: "c_tolower c = c_tolower (CHR ''*'') \<Longrightarrow> c = CHR ''*''" for c
  proof -
    assume a: "c_tolower c = c_tolower (CHR ''*'')"
    then have "c_tolower c = CHR ''*''" by (simp add: c_tolower_def)
    then show "c = CHR ''*''"
      by (auto simp: c_tolower_def split: if_splits dest: arg_cong [where f = "of_char :: char \<Rightarrow> nat"])
  qed
  have "CHR ''*'' \<notin> set str \<Longrightarrow> \<forall>c \<in> set str. \<not> equalCase nocase c (CHR ''*'')"
    using star by (auto simp: equalCase_def)
  moreover have "CHR ''*'' \<notin> set str \<Longrightarrow> \<forall>c \<in> set str. \<not> c = CHR ''*''" by auto
  ultimately show ?thesis
    using pm_sound(1) pm_complete(1) unfolding patternMatch_def patternMatchNoCase_def by metis
qed

theorem patternMatch_glob_witness:
  "patternMatch ''a*_?'' ''ab_x_1'' = glob (\<lambda>s p. s = p) ''a*_?'' ''ab_x_1'' \<and>
   glob (\<lambda>s p. s = p) ''a*_?'' ''ab_x_1''"
  using patternMatch_glob [of "''a*_?''" "''ab_x_1''" False] by simp

text \<open>Outside those conditions the matcher rejects strings the glob accepts: a star before the
  end of the pattern needs at least one more character of the string, and a star in the string
  is taken for the pattern's star.\<close>

lemma patternMatch_incomplete:
  "\<not> patternMatch ''a**'' ''a'' \<and> glob (\<lambda>s p. s = p) ''a**'' ''a'' \<and>
   \<not> patternMatch ''*b'' ''*ab'' \<and> glob (\<lambda>s p. s = p) ''*b'' ''*ab''"
  by (simp add: patternMatch_def pm_match.simps)

text \<open>a bus bit name built from any non-empty base name (which may itself contain brackets)
  and any integer subscript is split back into exactly that base name and subscript, by the
  single-bit parser and, when the base name has no colon, by the range parser; and a range
  subscript gives back both of its bounds.\<close>

theorem parseBusName_roundtrip:
  assumes "name \<noteq> []" and "\<not> c_isdigit escape"
  shows "parseBusName (name @ ''['' @ c_to_string i @ '']'') (CHR ''['') (CHR '']'') escape [] = Inr (Some (name, i)) \<and>
    (CHR '':'' \<notin> set name \<longrightarrow>
      parseBusRange (name @ ''['' @ c_to_string i @ '']'') (CHR ''['') (CHR '']'') escape []
        = Inr (Some (name, BusBit i)) \<and>
      parseBusRange (name @ ''['' @ c_to_string i @ '':'' @ c_to_string j @ '']'')
        (CHR ''['') (CHR '']'') escape [] = Inr (Some (name, BusRange i j)))"
proof -
  let ?one = "name @ ''['' @ c_to_string i @ '']''"
  let ?rng = "name @ ''['' @ c_to_string i @ '':'' @ c_to_string j @ '']''"
  have one: "bus_split ?one ''['' '']'' escape = Inr (Some (name, c_to_string i @ '']''))"
    using bus_split_snoc [of escape name "[]" i] assms by simp
  have rng: "bus_split ?rng ''['' '']'' escape = Inr (Some (name, c_to_string i @ '':'' @ c_to_string j @ '']''))"
    using bus_split_snoc [of escape name "c_to_string i @ '':''" j] assms c_to_string_chars [of "CHR ''[''" i]
    by (auto simp: c_isdigit_def)
  have colon: "CHR '':'' \<notin> set name \<Longrightarrow> c_strchr ?rng (CHR '':'') = Some (name @ ''['' @ c_to_string i, c_to_string j @ '']'')"
    using c_strchr_first [of "CHR '':''" "name @ ''['' @ c_to_string i" "c_to_string j @ '']''"]
      c_to_string_chars [of "CHR '':''" i] by (auto simp: c_isdigit_def)
  have nocolon: "CHR '':'' \<notin> set name \<Longrightarrow> c_strchr ?one (CHR '':'') = None"
    using c_to_string_chars [of "CHR '':''" i] by (auto simp: c_isdigit_def c_strchr_None)
  have nostar: "c_to_string i \<noteq> [] \<and> hd (c_to_string i) \<noteq> CHR ''*''"
    using c_to_string_chars [of "hd (c_to_string i)" i] c_to_string_nonempty [of i]
    by (auto simp: c_isdigit_def)
  have atoi: "c_atoi (c_to_string i @ '']'') = i" "c_atoi (c_to_string j @ '']'') = j"
    "c_atoi (c_to_string i @ '':'' @ c_to_string j @ '']'') = i"
    by (simp_all add: c_atoi_to_string c_isdigit_def)
  show ?thesis
    using one rng colon nocolon nostar atoi
    by (auto simp: parseBusName_def parseBusName_brkts_def parseBusRange_def parseBusRange_brkts_def)
qed

theorem parseBusName_roundtrip_witness:
  "parseBusName (''a[1].q'' @ ''['' @ c_to_string 12 @ '']'') (CHR ''['') (CHR '']'') (CHR 0x5C) []
     = Inr (Some (''a[1].q'', 12)) \<and>
   parseBusRange (''d'' @ ''['' @ c_to_string 7 @ '':'' @ c_to_string 0 @ '']'') (CHR ''['') (CHR '']'')
     (CHR 0x5C) [] = Inr (Some (''d'', BusRange 7 0))"
  using parseBusName_roundtrip [of "''a[1].q''" "CHR 0x5C" 12]
    parseBusName_roundtrip [of "''d''" "CHR 0x5C" 7 0]
  by (simp add: c_isdigit_def)

text \<open>Writing a network name as a Verilog name and reading it back gives the name, for every
  canonical network name (each bracket, divider and so on escaped, no other backslash); the two
  copies of the writer, for instances and for ports and nets, are the same function.\<close>

theorem verilog_name_roundtrip:
  assumes "sta_canonical name"
  shows "verilogToSta (instanceVerilogName name bslash) = name \<and>
    portVerilogName name bslash = instanceVerilogName name bslash"
proof
  obtain r e where re: "staToVerilog_loop name bslash = (r, e)" by fastforce
  show "portVerilogName name bslash = instanceVerilogName name bslash"
    by (simp add: portVerilogName_def instanceVerilogName_def staToVerilog_def staToVerilog2_def
        staToVerilog_loop2)
  show "verilogToSta (instanceVerilogName name bslash) = name"
  proof (cases e)
    case True
    with re staToVerilog_loop_canonical [OF assms] show ?thesis
      by (simp add: verilogToSta_def instanceVerilogName_def staToVerilog_def)
  next
    case False
    with re staToVerilog_loop_plain [OF assms] have "bslash \<notin> set name" by simp
    with False re show ?thesis
      by (auto simp: verilogToSta_def instanceVerilogName_def staToVerilog_def split: list.splits)
  qed
qed

theorem verilog_name_roundtrip_witness:
  "verilogToSta (instanceVerilogName (''u1.x'' @ [bslash] @ ''[3'' @ [bslash] @ '']'') bslash)
     = ''u1.x'' @ [bslash] @ ''[3'' @ [bslash] @ '']''"
  using verilog_name_roundtrip [of "''u1.x'' @ [bslash] @ ''[3'' @ [bslash] @ '']''"]
  by (simp add: bslash_def verilog_special_def)

text \<open>A backslash inside the Verilog name does not survive: read, it becomes an escaped
  backslash, and written again that pair is copied as it is, without the leading backslash and
  the closing space that make the name an escaped identifier.\<close>

lemma verilog_backslash_lost:
  "verilogToSta ([bslash] @ ''a'' @ [bslash] @ ''b '') = ''a'' @ [bslash, bslash] @ ''b'' \<and>
   instanceVerilogName (''a'' @ [bslash, bslash] @ ''b'') bslash = ''a'' @ [bslash, bslash] @ ''b''"
  by (simp add: verilogToSta_def instanceVerilogName_def staToVerilog_def verilog_special_def
      bslash_def c_isalnum_def c_isalpha_def)

end
