(* ===== verification/GTP_FuncExpr.thy ===== *)
theory GTP_FuncExpr
  imports GTP_Prelude "HOL-Library.List_Lexorder"
begin

text \<open>
  Logic functions of library cells: \<open>liberty/FuncExpr.cc\<close>, with the part of \<open>LibertyPort\<close> they
  read (\<open>liberty/Liberty.cc\<close>, \<open>network/ConcreteLibrary.cc\<close>, \<open>network/PortDirection.cc\<close>).
  A value of \<open>FuncExpr\<close> is a \<open>FuncExpr *\<close>; \<open>FE_null\<close> is the null pointer, which an unknown
  port reference leaves in an expression. Ports are compared by address, so a port is a number
  and the functions that read a port take the store \<open>lp\<close> of port objects. \<open>None\<close> is a null
  pointer dereference or a read past a member array.
\<close>

section \<open>Ports\<close>

datatype PortDirection =
  PD_input | PD_output | PD_tristate | PD_bidirect | PD_internal | PD_ground | PD_power | PD_unknown

fun pd_index :: "PortDirection \<Rightarrow> nat" where
  "pd_index PD_input = 0"
| "pd_index PD_output = 1"
| "pd_index PD_tristate = 2"
| "pd_index PD_bidirect = 3"
| "pd_index PD_internal = 4"
| "pd_index PD_ground = 5"
| "pd_index PD_power = 6"
| "pd_index PD_unknown = 7"

definition pd_find :: "string \<Rightarrow> PortDirection option" where
  "pd_find dir_name =
     (if dir_name = ''input'' then Some PD_input
      else if dir_name = ''output'' then Some PD_output
      else if dir_name = ''tristate'' then Some PD_tristate
      else if dir_name = ''bidirect'' then Some PD_bidirect
      else if dir_name = ''internal'' then Some PD_internal
      else if dir_name = ''ground'' then Some PD_ground
      else if dir_name = ''power'' then Some PD_power
      else None)"

definition pd_isAnyInput :: "PortDirection \<Rightarrow> bool" where
  "pd_isAnyInput d \<longleftrightarrow> d = PD_input \<or> d = PD_bidirect"

definition pd_isAnyOutput :: "PortDirection \<Rightarrow> bool" where
  "pd_isAnyOutput d \<longleftrightarrow> d = PD_output \<or> d = PD_tristate \<or> d = PD_bidirect"

definition pd_isAnyTristate :: "PortDirection \<Rightarrow> bool" where
  "pd_isAnyTristate d \<longleftrightarrow> d = PD_tristate \<or> d = PD_bidirect"

definition pd_isPowerGround :: "PortDirection \<Rightarrow> bool" where
  "pd_isPowerGround d \<longleftrightarrow> d = PD_ground \<or> d = PD_power"

lemma pd_index_inject [simp]: "pd_index d = pd_index d' \<longleftrightarrow> d = d'"
  by (cases d; cases d') auto

type_synonym PortId = nat

record LibertyPort =
  lp_name :: string
  lp_direction :: PortDirection
  lp_is_bus :: bool
  lp_is_bundle :: bool
  lp_from_index :: int
  lp_to_index :: int
  lp_members :: "PortId list"

type_synonym PortStore = "PortId \<Rightarrow> LibertyPort"

definition lp_hasMembers :: "LibertyPort \<Rightarrow> bool" where
  "lp_hasMembers p \<longleftrightarrow> lp_is_bus p \<or> lp_is_bundle p"

definition lp_size :: "LibertyPort \<Rightarrow> nat" where
  "lp_size p = (if lp_is_bus p then nat \<bar>lp_to_index p - lp_from_index p\<bar> + 1
                else if lp_is_bundle p then length (lp_members p)
                else 1)"

definition lp_findMember :: "LibertyPort \<Rightarrow> int \<Rightarrow> PortId option" where
  "lp_findMember p index =
     (if 0 \<le> index \<and> nat index < length (lp_members p) then Some (lp_members p ! nat index) else None)"

definition lp_equiv :: "PortStore \<Rightarrow> PortId \<Rightarrow> PortId \<Rightarrow> bool" where
  "lp_equiv lp p q \<longleftrightarrow>
     lp_name (lp p) = lp_name (lp q) \<and> lp_direction (lp p) = lp_direction (lp q)"

text \<open>\<open>stringLess\<close> is \<open>strcmp\<close>: the lexicographic order of the character codes.\<close>

definition lp_less :: "PortStore \<Rightarrow> PortId \<Rightarrow> PortId \<Rightarrow> bool" where
  "lp_less lp p q \<longleftrightarrow>
     (if lp_name (lp p) = lp_name (lp q)
      then pd_index (lp_direction (lp p)) < pd_index (lp_direction (lp q))
      else lp_name (lp p) < lp_name (lp q))"

interpretation port_order: strict_weak_order "lp_less lp" "lp_equiv lp" for lp
proof
  show "lp_less lp a b \<Longrightarrow> lp_less lp b c \<Longrightarrow> lp_less lp a c" for a b c
    by (auto simp: lp_less_def split: if_splits intro: less_trans)
  show "lp_equiv lp a b \<longleftrightarrow> \<not> lp_less lp a b \<and> \<not> lp_less lp b a" for a b
    using pd_index_inject [of "lp_direction (lp a)" "lp_direction (lp b)"]
    by (auto simp: lp_less_def lp_equiv_def simp del: pd_index_inject)
qed (auto simp: lp_less_def lp_equiv_def)

section \<open>Expressions\<close>

datatype FuncExpr =
    FE_null
  | FE_port PortId
  | FE_not FuncExpr
  | FE_or FuncExpr FuncExpr
  | FE_and FuncExpr FuncExpr
  | FE_xor FuncExpr FuncExpr
  | FE_one
  | FE_zero

text \<open>The position of the operator in \<open>enum Operator\<close> (the null pointer has none).\<close>

fun fe_op :: "FuncExpr \<Rightarrow> nat option" where
  "fe_op FE_null = None"
| "fe_op (FE_port p) = Some 0"
| "fe_op (FE_not l) = Some 1"
| "fe_op (FE_or l r) = Some 2"
| "fe_op (FE_and l r) = Some 3"
| "fe_op (FE_xor l r) = Some 4"
| "fe_op FE_one = Some 5"
| "fe_op FE_zero = Some 6"

fun fe_copy :: "FuncExpr \<Rightarrow> FuncExpr" where
  "fe_copy FE_null = FE_null"
| "fe_copy (FE_port p) = FE_port p"
| "fe_copy (FE_not l) = FE_not (fe_copy l)"
| "fe_copy (FE_or l r) = FE_or (fe_copy l) (fe_copy r)"
| "fe_copy (FE_and l r) = FE_and (fe_copy l) (fe_copy r)"
| "fe_copy (FE_xor l r) = FE_xor (fe_copy l) (fe_copy r)"
| "fe_copy FE_one = FE_one"
| "fe_copy FE_zero = FE_zero"

lemma fe_copy_id [simp]: "fe_copy e = e"
  by (induction e) auto

datatype TimingSense = TS_positive_unate | TS_negative_unate | TS_non_unate | TS_none | TS_unknown

fun timingSenseOpposite :: "TimingSense \<Rightarrow> TimingSense" where
  "timingSenseOpposite TS_positive_unate = TS_negative_unate"
| "timingSenseOpposite TS_negative_unate = TS_positive_unate"
| "timingSenseOpposite TS_non_unate = TS_non_unate"
| "timingSenseOpposite TS_unknown = TS_unknown"
| "timingSenseOpposite TS_none = TS_none"

text \<open>The two senses of a conjunction or disjunction, and of an exclusive or.\<close>

definition combine_senses :: "TimingSense \<Rightarrow> TimingSense \<Rightarrow> TimingSense" where
  "combine_senses left_sense right_sense =
     (if left_sense = right_sense then left_sense
      else if left_sense = TS_non_unate \<or> right_sense = TS_non_unate
              \<or> (left_sense = TS_positive_unate \<and> right_sense = TS_negative_unate)
              \<or> (left_sense = TS_negative_unate \<and> right_sense = TS_positive_unate)
      then TS_non_unate
      else if left_sense = TS_none \<or> left_sense = TS_unknown then right_sense
      else if right_sense = TS_none \<or> right_sense = TS_unknown then left_sense
      else TS_unknown)"

definition combine_xor_senses :: "TimingSense \<Rightarrow> TimingSense \<Rightarrow> TimingSense" where
  "combine_xor_senses left_sense right_sense =
     (if left_sense = TS_positive_unate \<or> left_sense = TS_negative_unate \<or> left_sense = TS_non_unate
         \<or> right_sense = TS_positive_unate \<or> right_sense = TS_negative_unate
         \<or> right_sense = TS_non_unate
      then TS_non_unate else TS_unknown)"

text \<open>A null sub-expression has the sense \<open>unknown\<close> at each of its uses.\<close>

fun portTimingSense :: "FuncExpr \<Rightarrow> PortId \<Rightarrow> TimingSense" where
  "portTimingSense FE_null port = TS_unknown"
| "portTimingSense (FE_port p) port = (if port = p then TS_positive_unate else TS_none)"
| "portTimingSense (FE_not l) port =
     (case portTimingSense l port of
        TS_positive_unate \<Rightarrow> TS_negative_unate
      | TS_negative_unate \<Rightarrow> TS_positive_unate
      | TS_non_unate \<Rightarrow> TS_non_unate
      | TS_none \<Rightarrow> TS_none
      | TS_unknown \<Rightarrow> TS_unknown)"
| "portTimingSense (FE_or l r) port = combine_senses (portTimingSense l port) (portTimingSense r port)"
| "portTimingSense (FE_and l r) port = combine_senses (portTimingSense l port) (portTimingSense r port)"
| "portTimingSense (FE_xor l r) port = combine_xor_senses (portTimingSense l port) (portTimingSense r port)"
| "portTimingSense FE_one port = TS_none"
| "portTimingSense FE_zero port = TS_none"

fun fe_hasPort :: "FuncExpr \<Rightarrow> PortId \<Rightarrow> bool" where
  "fe_hasPort FE_null port = False"
| "fe_hasPort (FE_port p) port = (p = port)"
| "fe_hasPort (FE_not l) port = fe_hasPort l port"
| "fe_hasPort (FE_or l r) port = (fe_hasPort l port \<or> fe_hasPort r port)"
| "fe_hasPort (FE_and l r) port = (fe_hasPort l port \<or> fe_hasPort r port)"
| "fe_hasPort (FE_xor l r) port = (fe_hasPort l port \<or> fe_hasPort r port)"
| "fe_hasPort FE_one port = False"
| "fe_hasPort FE_zero port = False"

text \<open>Printing. \<open>subexpr\<close> is \<open>asStringSubexpr\<close> on the printed operands.\<close>

definition asStringSubexpr :: "bool \<Rightarrow> char \<Rightarrow> string option \<Rightarrow> string option \<Rightarrow> string option" where
  "asStringSubexpr with_parens op left right =
     (case (left, right) of
        (Some l, Some r) \<Rightarrow>
          Some (if with_parens then CHR ''('' # l @ op # r @ [CHR '')''] else l @ op # r)
      | _ \<Rightarrow> None)"

fun fe_asString :: "PortStore \<Rightarrow> bool \<Rightarrow> FuncExpr \<Rightarrow> string option" where
  "fe_asString lp wp FE_null = None"
| "fe_asString lp wp (FE_port p) = Some (lp_name (lp p))"
| "fe_asString lp wp (FE_not l) = map_option (\<lambda>left. CHR ''!'' # left) (fe_asString lp True l)"
| "fe_asString lp wp (FE_or l r) =
     asStringSubexpr wp (CHR ''+'') (fe_asString lp True l) (fe_asString lp True r)"
| "fe_asString lp wp (FE_and l r) =
     asStringSubexpr wp (CHR ''*'') (fe_asString lp True l) (fe_asString lp True r)"
| "fe_asString lp wp (FE_xor l r) =
     asStringSubexpr wp (CHR ''^'') (fe_asString lp True l) (fe_asString lp True r)"
| "fe_asString lp wp FE_one = Some ''1''"
| "fe_asString lp wp FE_zero = Some ''0''"

definition opt_map2 :: "('a \<Rightarrow> 'b \<Rightarrow> 'c) \<Rightarrow> 'a option \<Rightarrow> 'b option \<Rightarrow> 'c option" where
  "opt_map2 f a b = (case (a, b) of (Some x, Some y) \<Rightarrow> Some (f x y) | _ \<Rightarrow> None)"

fun fe_bitSubExpr :: "PortStore \<Rightarrow> int \<Rightarrow> FuncExpr \<Rightarrow> FuncExpr option" where
  "fe_bitSubExpr lp k FE_null = None"
| "fe_bitSubExpr lp k (FE_port p) =
     (if lp_hasMembers (lp p) then
        if lp_size (lp p) = 1 then map_option FE_port (lp_findMember (lp p) 0)
        else map_option FE_port (lp_findMember (lp p) k)
      else Some (FE_port p))"
| "fe_bitSubExpr lp k (FE_not l) = map_option FE_not (fe_bitSubExpr lp k l)"
| "fe_bitSubExpr lp k (FE_or l r) = opt_map2 FE_or (fe_bitSubExpr lp k l) (fe_bitSubExpr lp k r)"
| "fe_bitSubExpr lp k (FE_and l r) = opt_map2 FE_and (fe_bitSubExpr lp k l) (fe_bitSubExpr lp k r)"
| "fe_bitSubExpr lp k (FE_xor l r) = opt_map2 FE_xor (fe_bitSubExpr lp k l) (fe_bitSubExpr lp k r)"
| "fe_bitSubExpr lp k FE_one = Some FE_one"
| "fe_bitSubExpr lp k FE_zero = Some FE_zero"

text \<open>True is a mismatch; a disjunction stops at the first operand that mismatches.\<close>

fun fe_checkSize :: "PortStore \<Rightarrow> nat \<Rightarrow> FuncExpr \<Rightarrow> bool option" where
  "fe_checkSize lp sz FE_null = None"
| "fe_checkSize lp sz (FE_port p) = Some (\<not> (lp_size (lp p) = sz \<or> lp_size (lp p) = 1))"
| "fe_checkSize lp sz (FE_not l) = fe_checkSize lp sz l"
| "fe_checkSize lp sz (FE_or l r) =
     (case fe_checkSize lp sz l of Some False \<Rightarrow> fe_checkSize lp sz r | x \<Rightarrow> x)"
| "fe_checkSize lp sz (FE_and l r) =
     (case fe_checkSize lp sz l of Some False \<Rightarrow> fe_checkSize lp sz r | x \<Rightarrow> x)"
| "fe_checkSize lp sz (FE_xor l r) =
     (case fe_checkSize lp sz l of Some False \<Rightarrow> fe_checkSize lp sz r | x \<Rightarrow> x)"
| "fe_checkSize lp sz FE_one = Some False"
| "fe_checkSize lp sz FE_zero = Some False"

fun funcExprNot :: "FuncExpr \<Rightarrow> FuncExpr" where
  "funcExprNot (FE_not l) = l"
| "funcExprNot e = FE_not e"

text \<open>\<open>findPorts\<close> inserts the ports into a \<open>LibertyPortSet\<close> ordered by \<open>LibertyPort::less\<close>.\<close>

fun fe_findPorts :: "PortStore \<Rightarrow> FuncExpr \<Rightarrow> PortId list \<Rightarrow> PortId list" where
  "fe_findPorts lp FE_null ports = ports"
| "fe_findPorts lp (FE_port p) ports = std_set_insert (lp_less lp) p ports"
| "fe_findPorts lp (FE_not l) ports = fe_findPorts lp l ports"
| "fe_findPorts lp (FE_or l r) ports = fe_findPorts lp r (fe_findPorts lp l ports)"
| "fe_findPorts lp (FE_and l r) ports = fe_findPorts lp r (fe_findPorts lp l ports)"
| "fe_findPorts lp (FE_xor l r) ports = fe_findPorts lp r (fe_findPorts lp l ports)"
| "fe_findPorts lp FE_one ports = ports"
| "fe_findPorts lp FE_zero ports = ports"

fun fe_equiv :: "PortStore \<Rightarrow> FuncExpr \<Rightarrow> FuncExpr \<Rightarrow> bool" where
  "fe_equiv lp FE_null e2 \<longleftrightarrow> e2 = FE_null"
| "fe_equiv lp (FE_port p) e2 \<longleftrightarrow> (case e2 of FE_port q \<Rightarrow> lp_equiv lp p q | _ \<Rightarrow> False)"
| "fe_equiv lp (FE_not l) e2 \<longleftrightarrow> (case e2 of FE_not l' \<Rightarrow> fe_equiv lp l l' | _ \<Rightarrow> False)"
| "fe_equiv lp (FE_or l r) e2 \<longleftrightarrow>
     (case e2 of FE_or l' r' \<Rightarrow> fe_equiv lp l l' \<and> fe_equiv lp r r' | _ \<Rightarrow> False)"
| "fe_equiv lp (FE_and l r) e2 \<longleftrightarrow>
     (case e2 of FE_and l' r' \<Rightarrow> fe_equiv lp l l' \<and> fe_equiv lp r r' | _ \<Rightarrow> False)"
| "fe_equiv lp (FE_xor l r) e2 \<longleftrightarrow>
     (case e2 of FE_xor l' r' \<Rightarrow> fe_equiv lp l l' \<and> fe_equiv lp r r' | _ \<Rightarrow> False)"
| "fe_equiv lp FE_one e2 \<longleftrightarrow> e2 = FE_one"
| "fe_equiv lp FE_zero e2 \<longleftrightarrow> e2 = FE_zero"

text \<open>
  Expressions of different operators compare by operator, the null pointer first. The operands
  of the constants are null, so two equal constants compare by \<open>less(null, null)\<close>.
\<close>

definition fe_op_less :: "FuncExpr \<Rightarrow> FuncExpr \<Rightarrow> bool" where
  "fe_op_less e1 e2 \<longleftrightarrow>
     (case (fe_op e1, fe_op e2) of
        (Some op1, Some op2) \<Rightarrow> op1 < op2
      | (None, Some _) \<Rightarrow> True
      | _ \<Rightarrow> False)"

fun fe_less :: "PortStore \<Rightarrow> FuncExpr \<Rightarrow> FuncExpr \<Rightarrow> bool" where
  "fe_less lp FE_null e2 \<longleftrightarrow> fe_op_less FE_null e2"
| "fe_less lp (FE_port p) e2 \<longleftrightarrow>
     (case e2 of FE_port q \<Rightarrow> lp_less lp p q | _ \<Rightarrow> fe_op_less (FE_port p) e2)"
| "fe_less lp (FE_not l) e2 \<longleftrightarrow>
     (case e2 of FE_not l' \<Rightarrow> fe_less lp l l' | _ \<Rightarrow> fe_op_less (FE_not l) e2)"
| "fe_less lp (FE_or l r) e2 \<longleftrightarrow>
     (case e2 of FE_or l' r' \<Rightarrow> if fe_equiv lp l l' then fe_less lp r r' else fe_less lp l l'
      | _ \<Rightarrow> fe_op_less (FE_or l r) e2)"
| "fe_less lp (FE_and l r) e2 \<longleftrightarrow>
     (case e2 of FE_and l' r' \<Rightarrow> if fe_equiv lp l l' then fe_less lp r r' else fe_less lp l l'
      | _ \<Rightarrow> fe_op_less (FE_and l r) e2)"
| "fe_less lp (FE_xor l r) e2 \<longleftrightarrow>
     (case e2 of FE_xor l' r' \<Rightarrow> if fe_equiv lp l l' then fe_less lp r r' else fe_less lp l l'
      | _ \<Rightarrow> fe_op_less (FE_xor l r) e2)"
| "fe_less lp FE_one e2 \<longleftrightarrow> fe_op_less FE_one e2"
| "fe_less lp FE_zero e2 \<longleftrightarrow> fe_op_less FE_zero e2"

text \<open>Specification: the value of an expression, for a valuation of the ports.\<close>

fun fe_eval :: "(PortId \<Rightarrow> bool) \<Rightarrow> FuncExpr \<Rightarrow> bool" where
  "fe_eval v FE_null = False"
| "fe_eval v (FE_port p) = v p"
| "fe_eval v (FE_not l) = (\<not> fe_eval v l)"
| "fe_eval v (FE_or l r) = (fe_eval v l \<or> fe_eval v r)"
| "fe_eval v (FE_and l r) = (fe_eval v l \<and> fe_eval v r)"
| "fe_eval v (FE_xor l r) = (fe_eval v l \<noteq> fe_eval v r)"
| "fe_eval v FE_one = True"
| "fe_eval v FE_zero = False"

fun fe_null_free :: "FuncExpr \<Rightarrow> bool" where
  "fe_null_free FE_null = False"
| "fe_null_free (FE_not l) = fe_null_free l"
| "fe_null_free (FE_or l r) = (fe_null_free l \<and> fe_null_free r)"
| "fe_null_free (FE_and l r) = (fe_null_free l \<and> fe_null_free r)"
| "fe_null_free (FE_xor l r) = (fe_null_free l \<and> fe_null_free r)"
| "fe_null_free _ = True"


section \<open>Lemmas\<close>

lemma opt_map2_Some: "opt_map2 f a b = Some z \<longleftrightarrow> (\<exists>x y. a = Some x \<and> b = Some y \<and> z = f x y)"
  by (auto simp: opt_map2_def split: option.splits)

lemma fe_eval_cong: "(\<And>p. fe_hasPort e p \<Longrightarrow> v p = w p) \<Longrightarrow> fe_eval v e = fe_eval w e"
  by (induction e) auto

text \<open>A sense is \<open>none\<close> or \<open>unknown\<close> exactly for the ports that do not occur.\<close>

definition sense_indep :: "TimingSense \<Rightarrow> bool" where
  "sense_indep s \<longleftrightarrow> s = TS_none \<or> s = TS_unknown"

lemma sense_indep_combine:
  "sense_indep (combine_senses a b) \<longleftrightarrow> sense_indep a \<and> sense_indep b"
  "sense_indep (combine_xor_senses a b) \<longleftrightarrow> sense_indep a \<and> sense_indep b"
  by (cases a; cases b; simp add: sense_indep_def combine_senses_def combine_xor_senses_def)+

lemma sense_indep_not:
  "sense_indep (portTimingSense (FE_not l) p) \<longleftrightarrow> sense_indep (portTimingSense l p)"
  by (cases "portTimingSense l p") (auto simp: sense_indep_def)

lemma sense_no_port: "sense_indep (portTimingSense e p) \<longleftrightarrow> \<not> fe_hasPort e p"
  by (induction e)
     (auto simp: sense_indep_combine sense_indep_not sense_indep_def [of TS_none]
        sense_indep_def [of TS_positive_unate] sense_indep_def [of TS_unknown]
        simp del: portTimingSense.simps(3))

definition sense_pos :: "TimingSense \<Rightarrow> bool" where
  "sense_pos s \<longleftrightarrow> sense_indep s \<or> s = TS_positive_unate"

definition sense_neg :: "TimingSense \<Rightarrow> bool" where
  "sense_neg s \<longleftrightarrow> sense_indep s \<or> s = TS_negative_unate"

lemma sense_combine:
  "sense_pos (combine_senses a b) \<longleftrightarrow> sense_pos a \<and> sense_pos b"
  "sense_neg (combine_senses a b) \<longleftrightarrow> sense_neg a \<and> sense_neg b"
  "sense_pos (combine_xor_senses a b) \<longleftrightarrow> sense_indep a \<and> sense_indep b"
  "sense_neg (combine_xor_senses a b) \<longleftrightarrow> sense_indep a \<and> sense_indep b"
  by (cases a; cases b;
      simp add: sense_pos_def sense_neg_def sense_indep_def combine_senses_def combine_xor_senses_def)+

lemma sense_not:
  "sense_pos (portTimingSense (FE_not l) p) = sense_neg (portTimingSense l p)"
  "sense_neg (portTimingSense (FE_not l) p) = sense_pos (portTimingSense l p)"
  by (cases "portTimingSense l p"; simp add: sense_pos_def sense_neg_def sense_indep_def)+

lemma fe_eval_indep:
  "sense_indep (portTimingSense e p) \<Longrightarrow> fe_eval (v(p := x)) e = fe_eval v e"
  by (intro fe_eval_cong) (auto simp: sense_no_port)

lemma sense_monotone:
  "(sense_pos (portTimingSense e p) \<longrightarrow>
      fe_eval (v(p := False)) e \<longrightarrow> fe_eval (v(p := True)) e) \<and>
   (sense_neg (portTimingSense e p) \<longrightarrow>
      fe_eval (v(p := True)) e \<longrightarrow> fe_eval (v(p := False)) e)"
proof (induction e)
  case (FE_not l)
  then show ?case unfolding sense_not fe_eval.simps by blast
next
  case (FE_port q)
  then show ?case by (simp add: sense_pos_def sense_neg_def sense_indep_def)
next
  case (FE_or l r)
  then show ?case unfolding portTimingSense.simps sense_combine fe_eval.simps by blast
next
  case (FE_and l r)
  then show ?case unfolding portTimingSense.simps sense_combine fe_eval.simps by blast
next
  case (FE_xor l r)
  then show ?case
    using fe_eval_indep [of l p v] fe_eval_indep [of r p v]
    unfolding portTimingSense.simps sense_combine fe_eval.simps by blast
qed simp_all

text \<open>The comparison is a strict weak order whose equivalence is \<open>equiv\<close>.\<close>

lemma fe_op_less_simps [simp]: "\<not> fe_op_less e e"
  by (auto simp: fe_op_less_def split: option.splits)

lemma fe_op_less_same: "fe_op a = fe_op b \<Longrightarrow> \<not> fe_op_less a b"
  by (auto simp: fe_op_less_def split: option.splits)

lemma fe_equiv_refl: "fe_equiv lp e e"
  by (induction e) (auto simp: port_order.eqv_refl)

lemma fe_equiv_sym: "fe_equiv lp a b \<Longrightarrow> fe_equiv lp b a"
  by (induction a arbitrary: b) (auto split: FuncExpr.splits intro: port_order.eqv_sym)

lemma fe_equiv_sym_iff: "fe_equiv lp a b \<longleftrightarrow> fe_equiv lp b a"
  using fe_equiv_sym by blast

lemma fe_equiv_trans: "fe_equiv lp a b \<Longrightarrow> fe_equiv lp b c \<Longrightarrow> fe_equiv lp a c"
proof (induction a arbitrary: b c)
  case (FE_port p)
  then show ?case
    by (cases b; cases c; simp) (metis port_order.eqv_trans)
next
  case (FE_not l)
  from FE_not.prems obtain l1 l2 where "b = FE_not l1" "c = FE_not l2"
    by (cases b; simp; cases c; simp)
  with FE_not.prems FE_not.IH [of l1 l2] show ?case by simp
next
  case (FE_or l r)
  from FE_or.prems obtain l1 r1 l2 r2 where "b = FE_or l1 r1" "c = FE_or l2 r2"
    by (cases b; simp; cases c; simp)
  with FE_or.prems FE_or.IH(1) [of l1 l2] FE_or.IH(2) [of r1 r2] show ?case by simp
next
  case (FE_and l r)
  from FE_and.prems obtain l1 r1 l2 r2 where "b = FE_and l1 r1" "c = FE_and l2 r2"
    by (cases b; simp; cases c; simp)
  with FE_and.prems FE_and.IH(1) [of l1 l2] FE_and.IH(2) [of r1 r2] show ?case by simp
next
  case (FE_xor l r)
  from FE_xor.prems obtain l1 r1 l2 r2 where "b = FE_xor l1 r1" "c = FE_xor l2 r2"
    by (cases b; simp; cases c; simp)
  with FE_xor.prems FE_xor.IH(1) [of l1 l2] FE_xor.IH(2) [of r1 r2] show ?case by simp
qed simp_all

lemma fe_equiv_iff: "fe_equiv lp a b \<longleftrightarrow> \<not> fe_less lp a b \<and> \<not> fe_less lp b a"
proof (induction a arbitrary: b)
  case (FE_port p)
  then show ?case
    by (cases b) (auto simp: fe_op_less_def port_order.eqv_iff)
next
  case (FE_not l)
  then show ?case by (cases b) (auto simp: fe_op_less_def)
next
  case (FE_or l r)
  then show ?case by (cases b) (simp_all add: fe_op_less_def fe_equiv_sym_iff [of lp _ l])
next
  case (FE_and l r)
  then show ?case by (cases b) (simp_all add: fe_op_less_def fe_equiv_sym_iff [of lp _ l])
next
  case (FE_xor l r)
  then show ?case by (cases b) (simp_all add: fe_op_less_def fe_equiv_sym_iff [of lp _ l])
qed (case_tac b; simp add: fe_op_less_def)+

lemma fe_equiv_cong: "fe_equiv lp a b \<Longrightarrow> fe_equiv lp a c = fe_equiv lp b c"
  using fe_equiv_sym fe_equiv_trans by blast

lemma fe_equiv_op: "fe_equiv lp a b \<Longrightarrow> fe_op a = fe_op b"
  by (cases a; cases b) auto

lemma fe_less_cong_left: "fe_equiv lp a b \<Longrightarrow> fe_less lp a c = fe_less lp b c"
proof (induction a arbitrary: b c)
  case (FE_port p)
  then show ?case
    by (cases b; cases c) (auto simp: fe_op_less_def
        dest: port_order.eqv_lt_trans port_order.eqv_sym [THEN port_order.eqv_lt_trans])
next
  case (FE_not l)
  from FE_not.prems obtain l1 where b: "b = FE_not l1" and eq: "fe_equiv lp l l1"
    by (cases b) simp_all
  show ?case by (cases c) (simp_all add: b FE_not.IH [OF eq] fe_op_less_def)
next
  case (FE_or l r)
  from FE_or.prems obtain l1 r1
    where b: "b = FE_or l1 r1" and eq: "fe_equiv lp l l1" "fe_equiv lp r r1"
    by (cases b) simp_all
  show ?case
    by (cases c) (simp_all add: b FE_or.IH(1) [OF eq(1)] FE_or.IH(2) [OF eq(2)]
        fe_equiv_cong [OF eq(1)] fe_op_less_def)
next
  case (FE_and l r)
  from FE_and.prems obtain l1 r1
    where b: "b = FE_and l1 r1" and eq: "fe_equiv lp l l1" "fe_equiv lp r r1"
    by (cases b) simp_all
  show ?case
    by (cases c) (simp_all add: b FE_and.IH(1) [OF eq(1)] FE_and.IH(2) [OF eq(2)]
        fe_equiv_cong [OF eq(1)] fe_op_less_def)
next
  case (FE_xor l r)
  from FE_xor.prems obtain l1 r1
    where b: "b = FE_xor l1 r1" and eq: "fe_equiv lp l l1" "fe_equiv lp r r1"
    by (cases b) simp_all
  show ?case
    by (cases c) (simp_all add: b FE_xor.IH(1) [OF eq(1)] FE_xor.IH(2) [OF eq(2)]
        fe_equiv_cong [OF eq(1)] fe_op_less_def)
qed auto

lemma fe_less_asym: "fe_less lp a b \<Longrightarrow> \<not> fe_less lp b a"
proof (induction a arbitrary: b)
  case (FE_port p)
  then show ?case by (cases b) (auto simp: fe_op_less_def dest: port_order.lt_asym)
next
  case (FE_not l)
  then show ?case by (cases b) (auto simp: fe_op_less_def)
next
  case (FE_or l r)
  then show ?case
    by (cases b) (auto simp: fe_op_less_def fe_equiv_sym_iff [of lp _ l] split: if_splits)
next
  case (FE_and l r)
  then show ?case
    by (cases b) (auto simp: fe_op_less_def fe_equiv_sym_iff [of lp _ l] split: if_splits)
next
  case (FE_xor l r)
  then show ?case
    by (cases b) (auto simp: fe_op_less_def fe_equiv_sym_iff [of lp _ l] split: if_splits)
qed (case_tac b; simp add: fe_op_less_def)+

lemma fe_less_cong_right: "fe_equiv lp a b \<Longrightarrow> fe_less lp c a = fe_less lp c b"
  by (metis fe_equiv_cong fe_equiv_iff fe_less_asym fe_less_cong_left)

lemma fe_op_less_trans: "fe_op_less a b \<Longrightarrow> fe_op_less b c \<Longrightarrow> fe_op_less a c"
  by (auto simp: fe_op_less_def split: option.splits)

lemma fe_less_op: "fe_op a \<noteq> fe_op b \<Longrightarrow> fe_less lp a b \<longleftrightarrow> fe_op_less a b"
  by (cases a; cases b) auto

lemma fe_less_op_le: "fe_less lp a b \<Longrightarrow> fe_op a = fe_op b \<or> fe_op_less a b"
  using fe_less_op by blast

lemma fe_less_mixed:
  assumes "fe_less lp a b" "fe_less lp b c" "\<not> (fe_op a = fe_op b \<and> fe_op b = fe_op c)"
  shows "fe_less lp a c"
proof -
  have "fe_op_less a c"
    using assms fe_less_op_le [of lp a b] fe_less_op_le [of lp b c] fe_op_less_trans [of a b c]
    by (auto simp: fe_op_less_def split: option.splits)
  then show ?thesis
    using fe_less_op [of a c lp] by (auto simp: fe_op_less_def split: option.splits)
qed

lemma fe_pair_trans:
  assumes IHl: "\<And>b c. fe_less lp l b \<Longrightarrow> fe_less lp b c \<Longrightarrow> fe_less lp l c"
    and IHr: "\<And>b c. fe_less lp r b \<Longrightarrow> fe_less lp b c \<Longrightarrow> fe_less lp r c"
    and ab: "if fe_equiv lp l la then fe_less lp r ra else fe_less lp l la"
    and bc: "if fe_equiv lp la lb then fe_less lp ra rb else fe_less lp la lb"
  shows "if fe_equiv lp l lb then fe_less lp r rb else fe_less lp l lb"
proof (cases "fe_equiv lp l la")
  case True
  with ab have "fe_less lp r ra" by simp
  with bc show ?thesis
    using fe_equiv_cong [OF True, of lb] fe_less_cong_left [OF True, of lb] IHr [of ra rb]
    by (simp split: if_splits)
next
  case False
  with ab have 1: "fe_less lp l la" by simp
  have "fe_less lp l lb"
    using bc 1 IHl [of la lb] fe_less_cong_right [of lp la lb l] by (simp split: if_splits)
  then show ?thesis using fe_equiv_iff by auto
qed

lemma fe_less_same_op:
  assumes "fe_less lp a b" "fe_less lp b c"
    and "fe_op a = fe_op b \<Longrightarrow> fe_op b = fe_op c \<Longrightarrow> fe_less lp a c"
  shows "fe_less lp a c"
  using assms fe_less_mixed by blast

lemma fe_less_trans: "fe_less lp a b \<Longrightarrow> fe_less lp b c \<Longrightarrow> fe_less lp a c"
proof (induction a arbitrary: b c)
  case (FE_port p)
  show ?case
  proof (rule fe_less_same_op [OF FE_port.prems])
    assume "fe_op (FE_port p) = fe_op b" "fe_op b = fe_op c"
    then obtain p1 p2 where "b = FE_port p1" "c = FE_port p2" by (cases b; cases c) auto
    with FE_port.prems port_order.lt_trans [of lp p p1 p2] show ?thesis by simp
  qed
next
  case (FE_not l)
  show ?case
  proof (rule fe_less_same_op [OF FE_not.prems])
    assume "fe_op (FE_not l) = fe_op b" "fe_op b = fe_op c"
    then obtain l1 l2 where "b = FE_not l1" "c = FE_not l2" by (cases b; cases c) auto
    with FE_not.prems FE_not.IH [of l1 l2] show ?thesis by simp
  qed
next
  case (FE_or l r)
  show ?case
  proof (rule fe_less_same_op [OF FE_or.prems])
    assume "fe_op (FE_or l r) = fe_op b" "fe_op b = fe_op c"
    then obtain l1 r1 l2 r2 where "b = FE_or l1 r1" "c = FE_or l2 r2" by (cases b; cases c) auto
    with FE_or.prems fe_pair_trans [OF FE_or.IH, where la = l1 and ra = r1 and lb = l2 and rb = r2] show ?thesis by simp
  qed
next
  case (FE_and l r)
  show ?case
  proof (rule fe_less_same_op [OF FE_and.prems])
    assume "fe_op (FE_and l r) = fe_op b" "fe_op b = fe_op c"
    then obtain l1 r1 l2 r2 where "b = FE_and l1 r1" "c = FE_and l2 r2" by (cases b; cases c) auto
    with FE_and.prems fe_pair_trans [OF FE_and.IH, where la = l1 and ra = r1 and lb = l2 and rb = r2] show ?thesis by simp
  qed
next
  case (FE_xor l r)
  show ?case
  proof (rule fe_less_same_op [OF FE_xor.prems])
    assume "fe_op (FE_xor l r) = fe_op b" "fe_op b = fe_op c"
    then obtain l1 r1 l2 r2 where "b = FE_xor l1 r1" "c = FE_xor l2 r2" by (cases b; cases c) auto
    with FE_xor.prems fe_pair_trans [OF FE_xor.IH, where la = l1 and ra = r1 and lb = l2 and rb = r2] show ?thesis by simp
  qed
qed (rule fe_less_same_op, assumption, assumption, simp add: fe_op_less_same)+

interpretation func_order: strict_weak_order "fe_less lp" "fe_equiv lp" for lp
proof
  show "fe_less lp a b \<Longrightarrow> fe_less lp b c \<Longrightarrow> fe_less lp a c" for a b c
    by (rule fe_less_trans)
  show "fe_equiv lp a b \<Longrightarrow> fe_equiv lp b c \<Longrightarrow> fe_equiv lp a c" for a b c
    by (rule fe_equiv_trans)
  show "fe_equiv lp a b \<longleftrightarrow> \<not> fe_less lp a b \<and> \<not> fe_less lp b a" for a b
    by (rule fe_equiv_iff)
  show "\<not> fe_less lp a a" for a
    using fe_less_asym by blast
qed


text \<open>The ports of an expression, as an ordered set.\<close>

lemma fe_findPorts_sorted:
  "sorted_wrt (lp_less lp) ports \<Longrightarrow> sorted_wrt (lp_less lp) (fe_findPorts lp e ports)"
  by (induction e arbitrary: ports) (auto intro: port_order.insert_sorted)

lemma fe_findPorts_members:
  "(\<exists>q \<in> set (fe_findPorts lp e ports). lp_equiv lp p q) \<longleftrightarrow>
   (\<exists>q. fe_hasPort e q \<and> lp_equiv lp p q) \<or> (\<exists>q \<in> set ports. lp_equiv lp p q)"
  by (induction e arbitrary: ports) (auto simp: port_order.insert_members)

text \<open>
  Bit slicing. \<open>fe_eval_bus\<close> is the value of an expression over buses: a port of size one is
  broadcast to the width, and the operators work bit by bit. A port is well formed when its
  member array has the size of the port and its members are scalars.
\<close>

definition lp_wf :: "PortStore \<Rightarrow> PortId \<Rightarrow> bool" where
  "lp_wf lp p \<longleftrightarrow>
     (lp_hasMembers (lp p) \<longrightarrow> length (lp_members (lp p)) = lp_size (lp p)) \<and>
     (\<forall>m \<in> set (lp_members (lp p)). \<not> lp_hasMembers (lp m))"

definition lp_bus_value :: "PortStore \<Rightarrow> nat \<Rightarrow> (PortId \<Rightarrow> bool) \<Rightarrow> PortId \<Rightarrow> bool list" where
  "lp_bus_value lp n v p =
     (let bits = (if lp_hasMembers (lp p) then map v (lp_members (lp p)) else [v p])
      in if length bits = 1 then replicate n (hd bits) else bits)"

fun fe_eval_bus :: "PortStore \<Rightarrow> nat \<Rightarrow> (PortId \<Rightarrow> bool) \<Rightarrow> FuncExpr \<Rightarrow> bool list" where
  "fe_eval_bus lp n v FE_null = replicate n False"
| "fe_eval_bus lp n v (FE_port p) = lp_bus_value lp n v p"
| "fe_eval_bus lp n v (FE_not l) = map Not (fe_eval_bus lp n v l)"
| "fe_eval_bus lp n v (FE_or l r) = map2 (\<or>) (fe_eval_bus lp n v l) (fe_eval_bus lp n v r)"
| "fe_eval_bus lp n v (FE_and l r) = map2 (\<and>) (fe_eval_bus lp n v l) (fe_eval_bus lp n v r)"
| "fe_eval_bus lp n v (FE_xor l r) = map2 (\<noteq>) (fe_eval_bus lp n v l) (fe_eval_bus lp n v r)"
| "fe_eval_bus lp n v FE_one = replicate n True"
| "fe_eval_bus lp n v FE_zero = replicate n False"

lemma checkSize_port:
  assumes "fe_checkSize lp n (FE_port p) = Some False" and "lp_wf lp p"
  shows "length (lp_bus_value lp n v p) = n"
    and "k < n \<Longrightarrow> \<exists>q. fe_bitSubExpr lp (int k) (FE_port p) = Some (FE_port q) \<and>
            \<not> lp_hasMembers (lp q) \<and> lp_bus_value lp n v p ! k = v q"
proof -
  have *: "lp_size (lp p) = n \<or> lp_size (lp p) = 1" using assms(1) by simp
  show "length (lp_bus_value lp n v p) = n"
    using * assms(2) by (auto simp: lp_bus_value_def lp_wf_def lp_size_def lp_hasMembers_def Let_def)
  show "\<exists>q. fe_bitSubExpr lp (int k) (FE_port p) = Some (FE_port q) \<and>
          \<not> lp_hasMembers (lp q) \<and> lp_bus_value lp n v p ! k = v q" if "k < n"
  proof (cases "lp_hasMembers (lp p)")
    case False
    then show ?thesis using that by (simp add: lp_bus_value_def)
  next
    case True
    with assms(2) have len: "length (lp_members (lp p)) = lp_size (lp p)" by (simp add: lp_wf_def)
    show ?thesis
    proof (cases "lp_size (lp p) = 1")
      case one: True
      with len obtain m where m: "lp_members (lp p) = [m]" by (cases "lp_members (lp p)") auto
      with assms(2) True one that show ?thesis
        by (simp add: lp_bus_value_def lp_wf_def lp_findMember_def)
    next
      case False
      with * have "lp_size (lp p) = n" by simp
      with False True len that assms(2) show ?thesis
        by (auto simp: lp_bus_value_def lp_wf_def lp_findMember_def Let_def)
    qed
  qed
qed

lemma checkSize_operands:
  assumes "(case fe_checkSize lp n l of Some False \<Rightarrow> fe_checkSize lp n r | x \<Rightarrow> x) = Some False"
  shows "fe_checkSize lp n l = Some False" and "fe_checkSize lp n r = Some False"
  using assms by (auto split: option.splits bool.splits)

definition bit_ok :: "PortStore \<Rightarrow> nat \<Rightarrow> (PortId \<Rightarrow> bool) \<Rightarrow> nat \<Rightarrow> FuncExpr \<Rightarrow> bool" where
  "bit_ok lp n v k e \<longleftrightarrow>
     length (fe_eval_bus lp n v e) = n \<and>
     (\<exists>e'. fe_bitSubExpr lp (int k) e = Some e' \<and> (\<forall>q. fe_hasPort e' q \<longrightarrow> \<not> lp_hasMembers (lp q)) \<and>
          fe_eval_bus lp n v e ! k = fe_eval v e')"

lemma bit_ok_binary:
  assumes "bit_ok lp n v k l" "bit_ok lp n v k r" "k < n"
  shows "bit_ok lp n v k (FE_or l r)" "bit_ok lp n v k (FE_and l r)" "bit_ok lp n v k (FE_xor l r)"
  using assms by (auto simp: bit_ok_def opt_map2_def)

lemma bitSubExpr_sound:
  assumes "fe_checkSize lp n e = Some False" and "\<And>p. fe_hasPort e p \<Longrightarrow> lp_wf lp p" and "k < n"
  shows "bit_ok lp n v k e"
  using assms
proof (induction e)
  case (FE_port p)
  then have wf: "lp_wf lp p" by simp
  obtain q where q: "fe_bitSubExpr lp (int k) (FE_port p) = Some (FE_port q)"
      "\<not> lp_hasMembers (lp q)" "lp_bus_value lp n v p ! k = v q"
    using checkSize_port(2) [OF FE_port.prems(1) wf FE_port.prems(3), of v] by blast
  then show ?case
    unfolding bit_ok_def using checkSize_port(1) [OF FE_port.prems(1) wf, of v]
    by (intro conjI exI [of _ "FE_port q"]) (simp_all del: fe_bitSubExpr.simps)
next
  case (FE_not l)
  then have "bit_ok lp n v k l" by simp
  then show ?case using FE_not.prems by (auto simp: bit_ok_def)
next
  case (FE_or l r)
  then show ?case
    using checkSize_operands [of lp n r l] by (intro bit_ok_binary) (simp_all add: FE_or.IH)
next
  case (FE_and l r)
  then show ?case
    using checkSize_operands [of lp n r l] by (intro bit_ok_binary) (simp_all add: FE_and.IH)
next
  case (FE_xor l r)
  then show ?case
    using checkSize_operands [of lp n r l] by (intro bit_ok_binary) (simp_all add: FE_xor.IH)
qed (simp_all add: bit_ok_def)

text \<open>Printing is unambiguous for port names without operator and parenthesis characters.\<close>

definition fe_special :: "char \<Rightarrow> bool" where
  "fe_special c \<longleftrightarrow> c \<in> set ''!+*^()''"

definition port_name_ok :: "string \<Rightarrow> bool" where
  "port_name_ok s \<longleftrightarrow> s \<noteq> [] \<and> (\<forall>c \<in> set s. \<not> fe_special c) \<and> s \<noteq> ''1'' \<and> s \<noteq> ''0''"

definition fe_names_ok :: "PortStore \<Rightarrow> FuncExpr \<Rightarrow> bool" where
  "fe_names_ok lp e \<longleftrightarrow>
     (\<forall>p. fe_hasPort e p \<longrightarrow> port_name_ok (lp_name (lp p)) \<and> (\<forall>q. q \<noteq> p \<longrightarrow> lp_name (lp q) \<noteq> lp_name (lp p)))"

lemma fe_names_ok_simps [simp]:
  "fe_names_ok lp (FE_port p) \<longleftrightarrow>
     port_name_ok (lp_name (lp p)) \<and> (\<forall>q. q \<noteq> p \<longrightarrow> lp_name (lp q) \<noteq> lp_name (lp p))"
  "fe_names_ok lp (FE_not l) \<longleftrightarrow> fe_names_ok lp l"
  "fe_names_ok lp (FE_or l r) \<longleftrightarrow> fe_names_ok lp l \<and> fe_names_ok lp r"
  "fe_names_ok lp (FE_and l r) \<longleftrightarrow> fe_names_ok lp l \<and> fe_names_ok lp r"
  "fe_names_ok lp (FE_xor l r) \<longleftrightarrow> fe_names_ok lp l \<and> fe_names_ok lp r"
  by (auto simp: fe_names_ok_def)

definition token_end :: "string \<Rightarrow> bool" where
  "token_end t \<longleftrightarrow> (case t of [] \<Rightarrow> True | c # _ \<Rightarrow> fe_special c)"

lemma token_unique:
  assumes "\<forall>c \<in> set a. \<not> fe_special c" "\<forall>c \<in> set b. \<not> fe_special c" "token_end t" "token_end u"
    and "a @ t = b @ u"
  shows "a = b \<and> t = u"
proof -
  have "takeWhile (\<lambda>c. \<not> fe_special c) (x @ y) = x" if "\<forall>c \<in> set x. \<not> fe_special c" "token_end y" for x y
    using that by (cases y) (auto simp: token_end_def takeWhile_append)
  then have "a = b" using assms by metis
  then show ?thesis using assms(5) by simp
qed

text \<open>The parenthesised form of an expression: a token, a negation or an operator in parentheses.\<close>

definition fe_binary :: "FuncExpr \<Rightarrow> (char \<times> FuncExpr \<times> FuncExpr) option" where
  "fe_binary e = (case e of
       FE_or l r \<Rightarrow> Some (CHR ''+'', l, r)
     | FE_and l r \<Rightarrow> Some (CHR ''*'', l, r)
     | FE_xor l r \<Rightarrow> Some (CHR ''^'', l, r)
     | _ \<Rightarrow> None)"

lemma fe_binary_inject: "fe_binary e = Some x \<Longrightarrow> fe_binary e' = Some x \<Longrightarrow> e = e'"
  by (cases e; cases e') (auto simp: fe_binary_def)

lemma fe_asString_binary:
  assumes "fe_binary e = Some (c, l, r)"
  shows "fe_asString lp wp e = asStringSubexpr wp c (fe_asString lp True l) (fe_asString lp True r)"
    and "fe_special c" and "size l < size e" and "size r < size e"
    and "fe_names_ok lp e \<longleftrightarrow> fe_names_ok lp l \<and> fe_names_ok lp r"
  using assms by (cases e; auto simp: fe_binary_def fe_special_def)+

lemma asStringSubexpr_Some:
  "asStringSubexpr wp c a b = Some s \<longleftrightarrow>
   (\<exists>l r. a = Some l \<and> b = Some r \<and>
      s = (if wp then CHR ''('' # l @ c # r @ [CHR '')''] else l @ c # r))"
  by (auto simp: asStringSubexpr_def split: option.splits)

text \<open>Every expression is a token (port or constant), a negation or a binary operation.\<close>

definition fe_token :: "FuncExpr \<Rightarrow> bool" where
  "fe_token e \<longleftrightarrow> (case e of FE_port _ \<Rightarrow> True | FE_one \<Rightarrow> True | FE_zero \<Rightarrow> True | _ \<Rightarrow> False)"

lemma fe_token_string:
  assumes "fe_token e" "fe_names_ok lp e" "fe_asString lp wp e = Some s"
  shows "s \<noteq> [] \<and> (\<forall>c \<in> set s. \<not> fe_special c)"
  using assms by (cases e) (auto simp: fe_token_def port_name_ok_def fe_special_def)

lemma fe_token_inject:
  assumes "fe_token e" "fe_names_ok lp e" "fe_asString lp wp e = Some s"
    and "fe_token e'" "fe_names_ok lp e'" "fe_asString lp wp' e' = Some s"
  shows "e = e'"
  using assms by (cases e; cases e') (auto simp: fe_token_def port_name_ok_def)

lemma fe_shape:
  assumes "fe_asString lp wp e = Some s"
  shows "fe_token e \<or> (\<exists>l. e = FE_not l) \<or> (\<exists>c l r. fe_binary e = Some (c, l, r))"
  using assms by (cases e) (auto simp: fe_token_def fe_binary_def)

lemma fe_first_char:
  assumes "fe_asString lp True e = Some s" "fe_names_ok lp e"
  shows "s \<noteq> []" and "fe_token e \<longleftrightarrow> \<not> fe_special (hd s)" and "(\<exists>l. e = FE_not l) \<longleftrightarrow> hd s = CHR ''!''"
  using assms fe_token_string [of e lp True s]
  by (cases e; auto simp: fe_token_def asStringSubexpr_Some port_name_ok_def fe_special_def)+

lemma asString_parens_unique:
  assumes "fe_asString lp True e1 = Some s1" "fe_asString lp True e2 = Some s2"
    and "fe_names_ok lp e1" "fe_names_ok lp e2"
    and "s1 @ t1 = s2 @ t2" "token_end t1" "token_end t2"
  shows "e1 = e2 \<and> t1 = t2"
  using assms
proof (induction "size e1" arbitrary: e1 e2 s1 s2 t1 t2 rule: less_induct)
  case less
  note first = fe_first_char [OF less.prems(1,3)] fe_first_char [OF less.prems(2,4)]
  have hd: "hd s1 = hd s2" using less.prems(5) first(1,4) by (metis hd_append2)
  show ?case
  proof (cases "fe_token e1")
    case True
    then have tok2: "fe_token e2" using first hd by simp
    have "s1 = s2 \<and> t1 = t2"
      using token_unique [OF _ _ less.prems(6,7,5)] fe_token_string [OF True less.prems(3,1)]
        fe_token_string [OF tok2 less.prems(4,2)] by blast
    then show ?thesis
      using fe_token_inject [OF True less.prems(3,1) tok2 less.prems(4)] less.prems(2) by simp
  next
    case nt1: False
    then have nt2: "\<not> fe_token e2" using first hd by simp
    show ?thesis
    proof (cases "\<exists>l. e1 = FE_not l")
      case True
      then obtain l1 l2 where l: "e1 = FE_not l1" "e2 = FE_not l2" using first hd by auto
      then show ?thesis
        using less.prems less.hyps [of l1 _ l2 _ t1 t2] by auto
    next
      case False
      then obtain c1 l1 r1 c2 l2 r2
        where e: "fe_binary e1 = Some (c1, l1, r1)" "fe_binary e2 = Some (c2, l2, r2)"
        using first hd nt1 nt2 fe_shape [OF less.prems(1)] fe_shape [OF less.prems(2)] by metis
      note b1 = fe_asString_binary [OF e(1)] and b2 = fe_asString_binary [OF e(2)]
      obtain ls1 rs1 where s1: "fe_asString lp True l1 = Some ls1" "fe_asString lp True r1 = Some rs1"
          "s1 = CHR ''('' # ls1 @ c1 # rs1 @ [CHR '')'']"
        using less.prems(1) unfolding b1(1) asStringSubexpr_Some by auto
      obtain ls2 rs2 where s2: "fe_asString lp True l2 = Some ls2" "fe_asString lp True r2 = Some rs2"
          "s2 = CHR ''('' # ls2 @ c2 # rs2 @ [CHR '')'']"
        using less.prems(2) unfolding b2(1) asStringSubexpr_Some by auto
      have "l1 = l2 \<and> c1 # rs1 @ CHR '')'' # t1 = c2 # rs2 @ CHR '')'' # t2"
        using less.prems(3-5) s1(3) s2(3) b1(2,5) b2(2,5)
        by (intro less.hyps [OF b1(3) s1(1) s2(1)]) (auto simp: token_end_def)
      moreover have "r1 = r2 \<and> CHR '')'' # t1 = CHR '')'' # t2"
        if "rs1 @ CHR '')'' # t1 = rs2 @ CHR '')'' # t2"
        using less.prems(3,4) that b1(5) b2(5)
        by (intro less.hyps [OF b1(4) s1(2) s2(2)]) (auto simp: token_end_def fe_special_def)
      ultimately show ?thesis using e fe_binary_inject by auto
    qed
  qed
qed


lemma fe_asString_not_binary:
  "fe_binary e = None \<Longrightarrow> fe_asString lp wp e = fe_asString lp True e"
  by (cases e) (auto simp: fe_binary_def)

lemma asString_binary_unique:
  assumes e1: "fe_binary e1 = Some (c1, l1, r1)" and s1: "fe_asString lp False e1 = Some s"
    and ok: "fe_names_ok lp e1" "fe_names_ok lp e2" and s2: "fe_asString lp False e2 = Some s"
  shows "e1 = e2"
proof -
  obtain ls1 rs1 where 1: "fe_asString lp True l1 = Some ls1" "fe_asString lp True r1 = Some rs1"
      "s = ls1 @ c1 # rs1"
    using s1 unfolding fe_asString_binary(1) [OF e1] asStringSubexpr_Some by auto
  have end1: "token_end (c1 # x)" for x
    using fe_asString_binary(2) [OF e1] by (simp add: token_end_def)
  have ok1: "fe_names_ok lp l1" "fe_names_ok lp r1"
    using ok(1) fe_asString_binary(5) [OF e1] by auto
  show ?thesis
  proof (cases "fe_binary e2")
    case None
    have "fe_asString lp True e2 = Some s"
      using s2 fe_asString_not_binary [OF None, of lp False] by simp
    then have "l1 = e2 \<and> c1 # rs1 = []"
      by (rule asString_parens_unique [OF 1(1) _ ok1(1) ok(2) _ end1])
         (simp_all add: 1(3) token_end_def)
    then show ?thesis by simp
  next
    case (Some x)
    then obtain c2 l2 r2 where e2: "fe_binary e2 = Some (c2, l2, r2)" by (cases x) auto
    obtain ls2 rs2 where 2: "fe_asString lp True l2 = Some ls2" "fe_asString lp True r2 = Some rs2"
        "s = ls2 @ c2 # rs2"
      using s2 unfolding fe_asString_binary(1) [OF e2] asStringSubexpr_Some by auto
    have end2: "token_end (c2 # x)" for x
      using fe_asString_binary(2) [OF e2] by (simp add: token_end_def)
    have ok2: "fe_names_ok lp l2" "fe_names_ok lp r2"
      using ok(2) fe_asString_binary(5) [OF e2] by auto
    have l: "l1 = l2 \<and> c1 # rs1 = c2 # rs2"
      by (rule asString_parens_unique [OF 1(1) 2(1) ok1(1) ok2(1) _ end1 end2])
         (use 1(3) 2(3) in simp)
    moreover have "r1 = r2"
      using asString_parens_unique [OF 1(2) 2(2) ok1(2) ok2(2), of "[]" "[]"] l
      by (simp add: token_end_def)
    ultimately show ?thesis using e1 e2 fe_binary_inject by auto
  qed
qed

lemma asString_unique:
  assumes "fe_names_ok lp e1" "fe_names_ok lp e2"
    and "fe_asString lp False e1 = Some s" "fe_asString lp False e2 = Some s"
  shows "e1 = e2"
proof (cases "fe_binary e1")
  case (Some x)
  then show ?thesis using asString_binary_unique [of e1 _ _ _ lp s e2] assms by (cases x) auto
next
  case n1: None
  show ?thesis
  proof (cases "fe_binary e2")
    case (Some x)
    then show ?thesis using asString_binary_unique [of e2 _ _ _ lp s e1] assms by (cases x) auto
  next
    case None
    then show ?thesis
      using asString_parens_unique [of lp e1 s e2 s "[]" "[]"] assms n1
        fe_asString_not_binary [of _ lp False] by (simp add: token_end_def)
  qed
qed

section \<open>Properties\<close>

text \<open>C38: The timing sense of a port is sound for the logic function: with a positive unate port a
  rise never causes a fall, with a negative unate port a rise never causes a rise, and a port whose sense is
  none or unknown does not occur in the expression and does not change its value; every other sense means
  that the port occurs. This holds for every expression, null sub-expressions included.\<close>

theorem portTimingSense_sound:
  "case portTimingSense e p of
     TS_positive_unate \<Rightarrow> fe_hasPort e p \<and> fe_eval (v(p := False)) e \<le> fe_eval (v(p := True)) e
   | TS_negative_unate \<Rightarrow> fe_hasPort e p \<and> fe_eval (v(p := True)) e \<le> fe_eval (v(p := False)) e
   | TS_non_unate \<Rightarrow> fe_hasPort e p
   | _ \<Rightarrow> \<not> fe_hasPort e p \<and> fe_eval (v(p := True)) e = fe_eval (v(p := False)) e"
  using sense_no_port [of e p] sense_monotone [of e p v] fe_eval_indep [of e p v]
  by (auto simp: sense_pos_def sense_neg_def sense_indep_def split: TimingSense.splits)

text \<open>The order on expressions is a strict weak order whose equivalence is \<open>FuncExpr::equiv\<close>:
  exactly one of less, greater and equivalent holds, less is transitive, and equivalent
  expressions compare alike with everything, so it is a valid key order for a container.\<close>

theorem funcExpr_less_order:
  "(fe_less lp a b \<longleftrightarrow> \<not> fe_less lp b a \<and> \<not> fe_equiv lp a b) \<and>
   {(x, z). \<exists>y. fe_less lp x y \<and> fe_less lp y z} \<subseteq> {(x, z). fe_less lp x z} \<and>
   equivp (fe_equiv lp)"
proof (intro conjI)
  show "fe_less lp a b \<longleftrightarrow> \<not> fe_less lp b a \<and> \<not> fe_equiv lp a b"
    using func_order.lt_asym [of lp a b] func_order.eqv_iff [of lp a b] by blast
  show "{(x, z). \<exists>y. fe_less lp x y \<and> fe_less lp y z} \<subseteq> {(x, z). fe_less lp x z}"
    using func_order.lt_trans by auto
  show "equivp (fe_equiv lp)"
    by (intro equivpI reflpI sympI transpI)
       (rule func_order.eqv_refl, erule func_order.eqv_sym, erule (1) func_order.eqv_trans)
qed


definition demo_ports :: PortStore where
  "demo_ports p =
     \<lparr>lp_name = (if p = 0 then ''A'' else replicate p (CHR ''b'')), lp_direction = PD_input,
      lp_is_bus = (p = 0), lp_is_bundle = False, lp_from_index = 1, lp_to_index = 0,
      lp_members = (if p = 0 then [1, 2] else [])\<rparr>"

lemma demo_port_names:
  "port_name_ok (lp_name (demo_ports p))"
  "lp_name (demo_ports q) = lp_name (demo_ports p) \<longleftrightarrow> q = p"
proof -
  show "port_name_ok (lp_name (demo_ports p))"
    by (cases "p = 0"; cases p) (auto simp: demo_ports_def port_name_ok_def fe_special_def)
  have "length (replicate q (CHR ''b'')) = length (replicate p (CHR ''b''))"
    if "replicate q (CHR ''b'') = replicate p (CHR ''b'')"
    using that by simp
  then show "lp_name (demo_ports q) = lp_name (demo_ports p) \<longleftrightarrow> q = p"
    by (cases q; cases p) (auto simp: demo_ports_def)
qed

lemma demo_names_ok: "fe_names_ok demo_ports e"
  by (simp add: fe_names_ok_def demo_port_names)


text \<open>When the size check of a bus function of width n passes, the function of each bit exists
  (no null pointer and no read past a member array), it refers to scalar ports only, and its value is
  that bit of the value of the whole function over the buses.\<close>

theorem bitSubExpr_correct:
  assumes "fe_checkSize lp n e = Some False" and "\<forall>p. fe_hasPort e p \<longrightarrow> lp_wf lp p" and "k < n"
  shows "\<exists>e'. fe_bitSubExpr lp (int k) e = Some e' \<and> (\<forall>q. fe_hasPort e' q \<longrightarrow> \<not> lp_hasMembers (lp q)) \<and>
              fe_eval_bus lp n v e ! k = fe_eval v e'"
  using bitSubExpr_sound [OF assms(1) _ assms(3), of v] assms(2) by (simp add: bit_ok_def)

theorem bitSubExpr_correct_witness:
  "\<exists>e'. fe_bitSubExpr demo_ports 1 (FE_and (FE_port 0) (FE_not (FE_port 3))) = Some e' \<and>
     (\<forall>q. fe_hasPort e' q \<longrightarrow> \<not> lp_hasMembers (demo_ports q)) \<and>
     fe_eval_bus demo_ports 2 (\<lambda>p. p = 2) (FE_and (FE_port 0) (FE_not (FE_port 3))) ! 1
       = fe_eval (\<lambda>p. p = 2) e'"
  using bitSubExpr_correct [of demo_ports 2 "FE_and (FE_port 0) (FE_not (FE_port 3))" 1 "\<lambda>p. p = 2"]
  by (simp add: demo_ports_def lp_size_def lp_wf_def lp_hasMembers_def)

text \<open>The port iterator of an expression visits its ports in the order of
  \<open>LibertyPort::less\<close>, each class of equal ports once and no other port.\<close>

theorem findPorts_ordered_set:
  "sorted_wrt (lp_less lp) (fe_findPorts lp e []) \<and>
   ((\<exists>q \<in> set (fe_findPorts lp e []). lp_equiv lp p q) \<longleftrightarrow> (\<exists>q. fe_hasPort e q \<and> lp_equiv lp p q))"
  by (simp add: fe_findPorts_sorted fe_findPorts_members)

end
