(* ===== verification/GTP_PowerState.thy ===== *)
theory GTP_PowerState
  imports GTP_FuncExpr "HOL-Library.AList"
begin

text \<open>
  Pin states of a gate and the tables they select: \<open>power/PowerUtils.cc\<close>, and \<open>getPinInformation\<close>,
  \<open>getLeakagePower\<close> and \<open>getStateIdx\<close> of \<open>power/TimeBasedPower.cc\<close>; with the device versions of the same
  functions (\<open>power/cuda/CudaPowerUtils.cuh\<close>). A pin state (\<open>VcdEventVal\<close>) is 0, 1, 2 for X, or
  -1 for none. The map from port names to pin indices (an \<open>unordered_map\<close>) is an association
  list with distinct keys, since its size is used as the number of pins. A table index
  (\<open>NStateVal\<close>) is a natural number; the shift \<open>1 << n\<close> is a shift of an \<open>int\<close> and is an error
  from 31 on.
\<close>

section \<open>Transitions of a pin state\<close>

type_synonym VcdEventVal = int

definition INVALID_VCD_EVENT_VAL :: VcdEventVal where
  "INVALID_VCD_EVENT_VAL = -1"

definition INVALID_N_TOGGLE_VAL :: real where
  "INVALID_N_TOGGLE_VAL = -1"

definition INVALID_PULSE_WIDTH :: int where
  "INVALID_PULSE_WIDTH = -1"

datatype power_error =
    UnavailablePin string | UnsupportedWhen | NullDeref | StateOutOfRange | AssertFailed
  | ShiftOverflow | EndlessLoop

datatype RISEFALL = RISE | FALL

definition getNRise :: "VcdEventVal \<Rightarrow> VcdEventVal \<Rightarrow> real" where
  "getNRise prev_val cur_val =
     (if prev_val = cur_val then 0
      else if cur_val = 2 then (if prev_val = 0 then 1/2 else 0)
      else if cur_val = 1 then (if prev_val = 2 then 1/2 else if prev_val = 0 then 1 else 0)
      else 0)"

definition getRiseFallEdge :: "VcdEventVal \<Rightarrow> VcdEventVal \<Rightarrow> RISEFALL" where
  "getRiseFallEdge prev_val cur_val = (if getNRise prev_val cur_val > 0 then RISE else FALL)"

definition getNToggle :: "VcdEventVal \<Rightarrow> VcdEventVal \<Rightarrow> real" where
  "getNToggle prev_val cur_val =
     (if prev_val = cur_val then 0
      else if prev_val = 2 \<or> cur_val = 2 then 1/2 else 1)"

text \<open>The device looks the same quantities up in constant tables.\<close>

definition nRiseTable :: "real list list" where
  "nRiseTable = [[0, 1, 1/2], [0, 0, 0], [0, 1/2, 0]]"

definition nToggleTable :: "real list list" where
  "nToggleTable = [[0, 1, 1/2], [1, 0, 1/2], [1/2, 1/2, 0]]"

definition table_at :: "real list list \<Rightarrow> VcdEventVal \<Rightarrow> VcdEventVal \<Rightarrow> real option" where
  "table_at t p c =
     (if 0 \<le> p \<and> p < int (length t) \<and> 0 \<le> c \<and> c < int (length (t ! nat p))
      then Some (t ! nat p ! nat c) else None)"

definition getNRise_dev :: "VcdEventVal \<Rightarrow> VcdEventVal \<Rightarrow> real option" where
  "getNRise_dev prev_val cur_val = table_at nRiseTable prev_val cur_val"

definition getNToggle_dev :: "VcdEventVal \<Rightarrow> VcdEventVal \<Rightarrow> real option" where
  "getNToggle_dev prev_val cur_val = table_at nToggleTable prev_val cur_val"

definition getRiseFallEdge_dev :: "VcdEventVal \<Rightarrow> VcdEventVal \<Rightarrow> RISEFALL option" where
  "getRiseFallEdge_dev prev_val cur_val =
     map_option (\<lambda>n. if n > 0 then RISE else FALL) (getNRise_dev prev_val cur_val)"

text \<open>The enumeration has \<open>RISE = 0\<close> and \<open>FALL = 1\<close>; the arc index orders the four edge pairs.\<close>

fun risefall_num :: "RISEFALL \<Rightarrow> int" where
  "risefall_num RISE = 0"
| "risefall_num FALL = 1"

definition getRiseFallArcIndex :: "RISEFALL \<Rightarrow> RISEFALL \<Rightarrow> int" where
  "getRiseFallArcIndex from_rf to_rf = 2 * (1 - risefall_num from_rf) + (1 - risefall_num to_rf)"

definition getTimeBasedGlitchScalingRatioH :: "real \<Rightarrow> real \<Rightarrow> real" where
  "getTimeBasedGlitchScalingRatioH pulse_width sum_slew =
     (if sum_slew = 0 then 1
      else let ratio = (pulse_width * 2) / sum_slew in min 1 (ratio * ratio))"

definition getTimeBasedGlitchScalingRatio_dev :: "real \<Rightarrow> real \<Rightarrow> real" where
  "getTimeBasedGlitchScalingRatio_dev pulse_width sum_slew =
     (if sum_slew = 0 then 1
      else let ratio = (pulse_width * 2) / sum_slew in
           (if 1 < ratio * ratio then 1 else ratio * ratio))"

text \<open>The state a pin without events keeps: the constant of its vertex, or X.\<close>

datatype LogicValue = LV_zero | LV_one | LV_unknown | LV_rise | LV_fall

record VertexSim =
  vs_isConstant :: bool
  vs_simValue :: LogicValue

definition getVertexDefaultState :: "VertexSim option \<Rightarrow> VcdEventVal" where
  "getVertexDefaultState vertex =
     (case vertex of
        None \<Rightarrow> 2
      | Some v \<Rightarrow>
          if \<not> vs_isConstant v then 2
          else if vs_simValue v = LV_zero then 0
          else if vs_simValue v = LV_one then 1
          else 2)"

text \<open>Cycle of a time: the clock period is rounded up to whole time units.\<close>

definition time_unit_per_cycle :: "real \<Rightarrow> real \<Rightarrow> int" where
  "time_unit_per_cycle vcd_time_scale period = \<lceil>period / vcd_time_scale\<rceil>"

definition c_div :: "int \<Rightarrow> int \<Rightarrow> int" where
  "c_div a b = sgn a * sgn b * (\<bar>a\<bar> div \<bar>b\<bar>)"

definition clkedWaveformIdx :: "int \<Rightarrow> real \<Rightarrow> real \<Rightarrow> int" where
  "clkedWaveformIdx time vcd_time_scale period =
     c_div time (time_unit_per_cycle vcd_time_scale period)"

section \<open>Conditions on pin states\<close>

type_synonym PinMap = "(string \<times> nat) list"

definition whenPinIndex :: "PortStore \<Rightarrow> PortId \<Rightarrow> PinMap \<Rightarrow> power_error + nat" where
  "whenPinIndex lp port pm =
     (case map_of pm (lp_name (lp port)) of
        None \<Rightarrow> Inl (UnavailablePin (lp_name (lp port)))
      | Some pin \<Rightarrow> Inr pin)"

definition set_pin_state :: "nat \<Rightarrow> VcdEventVal \<Rightarrow> VcdEventVal list \<Rightarrow> power_error + (bool \<times> VcdEventVal list)" where
  "set_pin_state pin_idx required ws =
     (if pin_idx < length ws then
        (if ws ! pin_idx \<noteq> INVALID_VCD_EVENT_VAL \<and> ws ! pin_idx \<noteq> required
         then Inr (False, ws)
         else Inr (True, ws[pin_idx := required]))
      else Inl StateOutOfRange)"

text \<open>Both operands of a conjunction are collected, into the same vector.\<close>

fun collectWhenPinStates ::
  "PortStore \<Rightarrow> PinMap \<Rightarrow> FuncExpr \<Rightarrow> bool \<Rightarrow> VcdEventVal list \<Rightarrow> power_error + (bool \<times> VcdEventVal list)"
where
  "collectWhenPinStates lp pm FE_null negated ws = Inl NullDeref"
| "collectWhenPinStates lp pm (FE_port p) negated ws =
     res_bind (whenPinIndex lp p pm) (\<lambda>pin_idx. set_pin_state pin_idx (if negated then 0 else 1) ws)"
| "collectWhenPinStates lp pm (FE_not l) negated ws = collectWhenPinStates lp pm l (\<not> negated) ws"
| "collectWhenPinStates lp pm FE_one negated ws = Inr (\<not> negated, ws)"
| "collectWhenPinStates lp pm FE_zero negated ws = Inr (negated, ws)"
| "collectWhenPinStates lp pm (FE_and l r) negated ws =
     (if \<not> negated then
        res_bind (collectWhenPinStates lp pm l negated ws) (\<lambda>(left, ws1).
        res_bind (collectWhenPinStates lp pm r negated ws1) (\<lambda>(right, ws2).
          Inr (left \<and> right, ws2)))
      else Inl UnsupportedWhen)"
| "collectWhenPinStates lp pm (FE_or l r) negated ws =
     (if negated then
        res_bind (collectWhenPinStates lp pm l negated ws) (\<lambda>(left, ws1).
        res_bind (collectWhenPinStates lp pm r negated ws1) (\<lambda>(right, ws2).
          Inr (left \<and> right, ws2)))
      else Inl UnsupportedWhen)"
| "collectWhenPinStates lp pm (FE_xor l r) negated ws = Inl UnsupportedWhen"

text \<open>A null condition, at any depth, is true. The operators stop at the first deciding operand.\<close>

fun evalWhen :: "PortStore \<Rightarrow> PinMap \<Rightarrow> FuncExpr \<Rightarrow> VcdEventVal list \<Rightarrow> power_error + bool" where
  "evalWhen lp pm FE_null st = Inr True"
| "evalWhen lp pm (FE_port p) st =
     res_bind (whenPinIndex lp p pm) (\<lambda>i. if i < length st then Inr (st ! i = 1) else Inl StateOutOfRange)"
| "evalWhen lp pm (FE_not l) st = res_bind (evalWhen lp pm l st) (\<lambda>b. Inr (\<not> b))"
| "evalWhen lp pm (FE_and l r) st =
     res_bind (evalWhen lp pm l st) (\<lambda>b. if b then evalWhen lp pm r st else Inr False)"
| "evalWhen lp pm (FE_or l r) st =
     res_bind (evalWhen lp pm l st) (\<lambda>b. if b then Inr True else evalWhen lp pm r st)"
| "evalWhen lp pm (FE_xor l r) st =
     res_bind (evalWhen lp pm l st) (\<lambda>b. res_bind (evalWhen lp pm r st) (\<lambda>b'. Inr (b \<noteq> b')))"
| "evalWhen lp pm FE_one st = Inr True"
| "evalWhen lp pm FE_zero st = Inr False"

definition getWhenPinStates ::
  "PortStore \<Rightarrow> FuncExpr \<Rightarrow> PinMap \<Rightarrow> power_error + (bool \<times> VcdEventVal list)" where
  "getWhenPinStates lp when pm =
     (let ws = replicate (length pm) INVALID_VCD_EVENT_VAL in
      if when = FE_null then Inr (True, ws) else collectWhenPinStates lp pm when False ws)"

text \<open>An internal power table applies in the states its condition accepts.\<close>

definition isInternalPowerMatchPinStates ::
  "PortStore \<Rightarrow> VcdEventVal list \<Rightarrow> FuncExpr \<Rightarrow> PinMap \<Rightarrow> power_error + bool" where
  "isInternalPowerMatchPinStates lp pin_states when pm = evalWhen lp pm when pin_states"

section \<open>Pins of a gate\<close>

text \<open>
  The pins of an instance, as pairs of the pin and the direction of its library port if it has
  one. Inputs are collected first and outputs second; a bidirectional pin is in both groups.
\<close>

type_synonym PinDir = "nat \<times> PortDirection option"

definition pin_dir_is :: "(PortDirection \<Rightarrow> bool) \<Rightarrow> PinDir \<Rightarrow> bool" where
  "pin_dir_is f p = (case snd p of None \<Rightarrow> False | Some d \<Rightarrow> f d)"

fun collect_pins :: "(PortDirection \<Rightarrow> bool) \<Rightarrow> PinDir list \<Rightarrow> nat list \<times> nat \<times> nat \<Rightarrow> nat list \<times> nat \<times> nat"
where
  "collect_pins f [] acc = acc"
| "collect_pins f (p # ps) (pins, n_pin, n_kind) =
     collect_pins f ps
       (if pin_dir_is f p then (pins @ [fst p], n_pin + 1, n_kind + 1) else (pins, n_pin, n_kind))"

definition getPinInformation :: "PinDir list \<Rightarrow> power_error + (nat list \<times> nat \<times> nat \<times> nat)" where
  "getPinInformation inst_pins =
     (let (pins, n_pin, n_input_pin) = collect_pins pd_isAnyInput inst_pins ([], 0, 0);
          (pins', n_pin', n_output_pin) = collect_pins pd_isAnyOutput inst_pins (pins, n_pin, 0)
      in if n_pin' = n_input_pin + n_output_pin \<and> n_pin' = length pins'
         then Inr (pins', n_pin', n_input_pin, n_output_pin)
         else Inl AssertFailed)"

text \<open>
  The map from port names to indices: \<open>port_name_to_idx_map[name] = pin_idx\<close> in index order.
\<close>

fun make_pin_map_loop :: "nat \<Rightarrow> string list \<Rightarrow> PinMap \<Rightarrow> PinMap" where
  "make_pin_map_loop pin_idx [] pm = pm"
| "make_pin_map_loop pin_idx (nm # nms) pm = make_pin_map_loop (pin_idx + 1) nms (AList.update nm pin_idx pm)"

definition make_pin_map :: "string list \<Rightarrow> PinMap" where
  "make_pin_map names = make_pin_map_loop 0 names []"

section \<open>State indices\<close>

fun pin_states_index_loop :: "nat \<Rightarrow> VcdEventVal list \<Rightarrow> nat \<Rightarrow> nat" where
  "pin_states_index_loop pin_idx [] res = res"
| "pin_states_index_loop pin_idx (s # ss) res =
     pin_states_index_loop (pin_idx + 1) ss (res + (if s = 1 then 1 else 0) * 2 ^ pin_idx)"

definition getPinStatesIndex :: "VcdEventVal list \<Rightarrow> nat" where
  "getPinStatesIndex pin_states = pin_states_index_loop 0 pin_states 0"

text \<open>The index of the pins that must be one, and the expansion over the unconstrained pins.\<close>

fun required_state_loop :: "nat \<Rightarrow> VcdEventVal list \<Rightarrow> nat \<Rightarrow> nat" where
  "required_state_loop pin_idx [] idx = idx"
| "required_state_loop pin_idx (s # ss) idx =
     required_state_loop (pin_idx + 1) ss (if s = 1 then or idx (2 ^ pin_idx) else idx)"

fun expand_states_loop :: "nat \<Rightarrow> VcdEventVal list \<Rightarrow> nat list \<Rightarrow> nat list" where
  "expand_states_loop pin_idx [] idxs = idxs"
| "expand_states_loop pin_idx (s # ss) idxs =
     expand_states_loop (pin_idx + 1) ss
       (if s = INVALID_VCD_EVENT_VAL then idxs @ map (\<lambda>i. or i (2 ^ pin_idx)) idxs else idxs)"

definition getStateIdx :: "PortStore \<Rightarrow> PinMap \<Rightarrow> FuncExpr \<Rightarrow> power_error + nat list" where
  "getStateIdx lp pm when =
     res_bind (getWhenPinStates lp when pm) (\<lambda>(ok, ws).
       if \<not> ok then Inr []
       else Inr (expand_states_loop 0 ws [required_state_loop 0 ws 0]))"

section \<open>Leakage tables\<close>

record LeakagePower =
  lk_when :: FuncExpr
  lk_power :: real

fun fill_states :: "nat list \<Rightarrow> real \<Rightarrow> real list \<Rightarrow> power_error + real list" where
  "fill_states [] pwr vals = Inr vals"
| "fill_states (i # idxs) pwr vals =
     (if i < length vals then fill_states idxs pwr (vals[i := pwr]) else Inl StateOutOfRange)"

fun fill_leakage ::
  "PortStore \<Rightarrow> PinMap \<Rightarrow> LeakagePower list \<Rightarrow> real list \<Rightarrow> power_error + real list" where
  "fill_leakage lp pm [] vals = Inr vals"
| "fill_leakage lp pm (pwr # pwrs) vals =
     res_bind (getStateIdx lp pm (lk_when pwr)) (\<lambda>idxs.
     res_bind (fill_states idxs (lk_power pwr) vals) (\<lambda>vals'. fill_leakage lp pm pwrs vals'))"

text \<open>
  \<open>cell_leakage\<close> is what \<open>LibertyCell::leakagePower\<close> returns: the default value, if there is one.
  The result is the table (empty when there are too many pins or no conditions), and the
  default. A gate over the pin limit is asserted to have at most one leakage group.
\<close>

definition getLeakagePower ::
  "PortStore \<Rightarrow> nat \<Rightarrow> real \<times> bool \<Rightarrow> LeakagePower list \<Rightarrow> nat \<Rightarrow> PinMap \<Rightarrow>
   power_error + (real list \<times> real \<times> bool)" where
  "getLeakagePower lp max_n_pin cell_leakage leakage_powers n_pin pm =
     (let (default_val, default_exists) = cell_leakage in
      if n_pin > max_n_pin then
        (if length leakage_powers = 0 \<or> length leakage_powers = 1 then
           (if length leakage_powers = 1
            then Inr ([], lk_power (leakage_powers ! 0), True)
            else Inr ([], default_val, default_exists))
         else Inl AssertFailed)
      else if leakage_powers \<noteq> [] then
        (if n_pin < 31 then
           res_bind (fill_leakage lp pm leakage_powers
                       (replicate (2 ^ n_pin) (if default_exists then default_val else 0)))
             (\<lambda>vals. Inr (vals, default_val, default_exists))
         else Inl ShiftOverflow)
      else Inr ([], default_val, default_exists))"

fun find_leakage_loop :: "nat \<Rightarrow> real list \<Rightarrow> VcdEventVal list \<Rightarrow> real \<Rightarrow> real" where
  "find_leakage_loop i_leak [] pin_states leakage_val = leakage_val"
| "find_leakage_loop i_leak (v # vs) pin_states leakage_val =
     (if i_leak = getPinStatesIndex pin_states then v
      else find_leakage_loop (i_leak + 1) vs pin_states leakage_val)"

definition findLeakageVal :: "VcdEventVal list \<Rightarrow> real list \<Rightarrow> real \<Rightarrow> bool \<Rightarrow> real \<Rightarrow> real" where
  "findLeakageVal pin_states leakage_power_values default_val default_exists leakage_val =
     (if length leakage_power_values \<noteq> 0
      then find_leakage_loop 0 leakage_power_values pin_states leakage_val
      else if default_exists then default_val else 0)"

section \<open>Lemmas: state indices\<close>

lemma pin_states_index_loop_sum:
  "pin_states_index_loop k ss res = res + 2 ^ k * horner_sum of_bool 2 (map (\<lambda>s. s = 1) ss)"
  by (induction k ss res rule: pin_states_index_loop.induct) (auto simp: algebra_simps)

lemma getPinStatesIndex_sum:
  "getPinStatesIndex st = horner_sum of_bool 2 (map (\<lambda>s. s = 1) st)"
  by (simp add: getPinStatesIndex_def pin_states_index_loop_sum)

lemma bit_getPinStatesIndex: "bit (getPinStatesIndex st) i \<longleftrightarrow> i < length st \<and> st ! i = 1"
  by (auto simp: getPinStatesIndex_sum bit_horner_sum_bit_iff)

lemma getPinStatesIndex_less: "getPinStatesIndex st < 2 ^ length st"
proof -
  have "horner_sum of_bool 2 bs < (2 :: nat) ^ length bs" for bs
    by (induction bs) auto
  from this [of "map (\<lambda>s. s = 1) st"] show ?thesis by (simp add: getPinStatesIndex_sum)
qed

lemma bit_or_pow: "bit (or x (2 ^ k) :: nat) j \<longleftrightarrow> bit x j \<or> j = k"
  by (auto simp: bit_or_iff bit_exp_iff)

lemma required_state_bit:
  "bit (required_state_loop k ws idx) j \<longleftrightarrow>
     bit idx j \<or> (\<exists>i < length ws. j = k + i \<and> ws ! i = 1)"
  by (induction k ws idx rule: required_state_loop.induct)
     (auto simp: bit_or_pow less_Suc_eq_0_disj split: if_splits)

text \<open>The expansion sets any subset of the unconstrained bits.\<close>

definition extends_bits :: "nat set \<Rightarrow> nat \<Rightarrow> nat \<Rightarrow> bool" where
  "extends_bits F x y \<longleftrightarrow> (\<forall>j. bit x j \<longrightarrow> bit y j) \<and> (\<forall>j. bit y j \<longrightarrow> bit x j \<or> j \<in> F)"

definition free_bits :: "nat \<Rightarrow> VcdEventVal list \<Rightarrow> nat set" where
  "free_bits k ws = {j. \<exists>i < length ws. j = k + i \<and> ws ! i = INVALID_VCD_EVENT_VAL}"

lemma free_bits_Cons:
  "free_bits k (w # ws) =
     (if w = INVALID_VCD_EVENT_VAL then insert k (free_bits (k + 1) ws) else free_bits (k + 1) ws)"
  by (auto simp: free_bits_def less_Suc_eq_0_disj)

lemma free_bits_ge: "j \<in> free_bits k ws \<Longrightarrow> k \<le> j"
  by (auto simp: free_bits_def)

lemma extends_insert:
  assumes "k \<notin> F"
  shows "extends_bits (insert k F) x y \<longleftrightarrow> extends_bits F x y \<or> extends_bits F (or x (2 ^ k)) y"
  using assms by (auto simp: extends_bits_def bit_or_pow)

lemma expand_states_set:
  "set (expand_states_loop k ws L) = {y. \<exists>x \<in> set L. extends_bits (free_bits k ws) x y}"
proof (induction k ws L rule: expand_states_loop.induct)
  case (1 k L)
  have "extends_bits (free_bits k []) x y \<longleftrightarrow> x = y" for x y :: nat
    by (auto simp: extends_bits_def free_bits_def intro: bit_eqI)
  then show ?case by auto
next
  case (2 k w ws L)
  have "k \<notin> free_bits (k + 1) ws" using free_bits_ge by fastforce
  then show ?case using 2 by (auto simp: free_bits_Cons extends_insert)
qed

lemma expand_states_distinct:
  assumes "distinct L" and "\<forall>x \<in> set L. \<forall>j \<in> free_bits k ws. \<not> bit x j"
  shows "distinct (expand_states_loop k ws L)"
  using assms
proof (induction k ws L rule: expand_states_loop.induct)
  case (2 k w ws L)
  show ?case
  proof (cases "w = INVALID_VCD_EVENT_VAL")
    case True
    have k: "\<forall>x \<in> set L. \<not> bit x k" using 2(3) True by (simp add: free_bits_Cons)
    have "inj_on (\<lambda>x. or x (2 ^ k)) (set L)"
    proof (rule inj_onI)
      fix x y assume xy: "x \<in> set L" "y \<in> set L" "or x (2 ^ k) = or y (2 ^ k)"
      show "x = y"
        using k xy bit_or_pow [of x k] bit_or_pow [of y k] by (intro bit_eqI) metis
    qed
    moreover have "x \<noteq> or y (2 ^ k)" if "x \<in> set L" for x y
      using k that bit_or_pow [of y k k] by auto
    ultimately have "distinct (L @ map (\<lambda>i. or i (2 ^ k)) L)"
      using 2(2) by (auto simp: distinct_map)
    moreover have "\<forall>x \<in> set (L @ map (\<lambda>i. or i (2 ^ k)) L). \<forall>j \<in> free_bits (k + 1) ws. \<not> bit x j"
      using 2(3) True free_bits_ge [of _ "k + 1" ws] by (fastforce simp: free_bits_Cons bit_or_pow)
    ultimately show ?thesis using 2(1) True by simp
  qed (use 2 in \<open>simp add: free_bits_Cons\<close>)
qed simp

section \<open>Lemmas: conditions\<close>

definition states_wf :: "VcdEventVal list \<Rightarrow> bool" where
  "states_wf ws \<longleftrightarrow> (\<forall>s \<in> set ws. s = INVALID_VCD_EVENT_VAL \<or> s = 0 \<or> s = 1)"

definition when_matches :: "VcdEventVal list \<Rightarrow> VcdEventVal list \<Rightarrow> bool" where
  "when_matches ws st \<longleftrightarrow>
     (\<forall>i < length ws. ws ! i = INVALID_VCD_EVENT_VAL \<or> (st ! i = 1 \<longleftrightarrow> ws ! i = 1))"

lemma states_wf_nth: "states_wf ws \<Longrightarrow> i < length ws \<Longrightarrow>
    ws ! i = INVALID_VCD_EVENT_VAL \<or> ws ! i = 0 \<or> ws ! i = 1"
  by (auto simp: states_wf_def)

lemma states_wf_update: "states_wf ws \<Longrightarrow> v = 0 \<or> v = 1 \<Longrightarrow> states_wf (ws[i := v])"
  unfolding states_wf_def using set_update_subset_insert [of ws i v] by blast

definition match_at :: "VcdEventVal list \<Rightarrow> VcdEventVal list \<Rightarrow> nat \<Rightarrow> bool" where
  "match_at ws st i \<longleftrightarrow> ws ! i = INVALID_VCD_EVENT_VAL \<or> (st ! i = 1 \<longleftrightarrow> ws ! i = 1)"

lemma when_matches_split:
  "i < length ws \<Longrightarrow>
   when_matches ws st \<longleftrightarrow> match_at ws st i \<and> (\<forall>j < length ws. j \<noteq> i \<longrightarrow> match_at ws st j)"
  by (auto simp: when_matches_def match_at_def)

lemma when_matches_update:
  assumes "i < length ws" and "v = 0 \<or> v = 1" and "ws ! i = INVALID_VCD_EVENT_VAL \<or> ws ! i = v"
  shows "when_matches (ws[i := v]) st \<longleftrightarrow> when_matches ws st \<and> (st ! i = 1 \<longleftrightarrow> v = 1)"
proof -
  have "match_at (ws[i := v]) st j \<longleftrightarrow> match_at ws st j" if "j \<noteq> i" for j
    using that by (simp add: match_at_def)
  moreover have "match_at (ws[i := v]) st i \<longleftrightarrow> (st ! i = 1 \<longleftrightarrow> v = 1)"
    using assms(1,2) by (auto simp: match_at_def INVALID_VCD_EVENT_VAL_def)
  moreover have "(st ! i = 1 \<longleftrightarrow> v = 1) \<Longrightarrow> match_at ws st i"
    using assms(3) by (auto simp: match_at_def)
  ultimately show ?thesis
    using assms(1) when_matches_split [of i ws st] when_matches_split [of i "ws[i := v]" st] by auto
qed

lemma set_pin_state_sound:
  assumes "set_pin_state i (if neg then 0 else 1) ws = Inr (ok, ws')" "states_wf ws" "length st = length ws"
  shows "length ws' = length ws" "states_wf ws'" "i < length st"
    and "ok \<Longrightarrow> when_matches ws' st \<longleftrightarrow> when_matches ws st \<and> (st ! i = 1) \<noteq> neg"
    and "\<not> ok \<Longrightarrow> \<not> (when_matches ws st \<and> (st ! i = 1) \<noteq> neg)"
proof -
  show il: "i < length st" "length ws' = length ws" "states_wf ws'"
    using assms by (auto simp: set_pin_state_def states_wf_update split: if_splits)
  show "when_matches ws' st \<longleftrightarrow> when_matches ws st \<and> (st ! i = 1) \<noteq> neg" if ok
  proof -
    have "ws' = ws[i := if neg then 0 else 1]" and
        "ws ! i = INVALID_VCD_EVENT_VAL \<or> ws ! i = (if neg then 0 else 1)"
      using that assms(1) by (auto simp: set_pin_state_def split: if_splits)
    then show ?thesis
      using when_matches_update [of i ws "if neg then 0 else 1" st] il(1) assms(3) by auto
  qed
  show "\<not> (when_matches ws st \<and> (st ! i = 1) \<noteq> neg)" if "\<not> ok"
  proof -
    have "ws ! i \<noteq> INVALID_VCD_EVENT_VAL" "ws ! i \<noteq> (if neg then 0 else 1)"
      using that assms(1) by (auto simp: set_pin_state_def split: if_splits)
    then have "ws ! i = (if neg then 1 else 0)" using states_wf_nth [OF assms(2), of i] il assms(3) by auto
    then show ?thesis
      using il(1) assms(3) \<open>ws ! i \<noteq> INVALID_VCD_EVENT_VAL\<close> by (auto simp: when_matches_def)
  qed
qed


lemma whenPinIndex_Inr:
  "whenPinIndex lp p pm = Inr i \<longleftrightarrow> map_of pm (lp_name (lp p)) = Some i"
  by (auto simp: whenPinIndex_def split: option.splits)

definition collect_post ::
  "bool \<Rightarrow> bool \<Rightarrow> VcdEventVal list \<Rightarrow> VcdEventVal list \<Rightarrow> VcdEventVal list \<Rightarrow> bool \<Rightarrow> bool" where
  "collect_post neg ok ws ws' st b \<longleftrightarrow>
     length ws' = length ws \<and> states_wf ws' \<and>
     (if ok then when_matches ws' st \<longleftrightarrow> when_matches ws st \<and> b \<noteq> neg
      else \<not> (when_matches ws st \<and> b \<noteq> neg))"

lemma collect_binary:
  assumes "res_bind (collectWhenPinStates lp pm l neg ws) (\<lambda>(left, ws1).
             res_bind (collectWhenPinStates lp pm r neg ws1) (\<lambda>(right, ws2).
               Inr (left \<and> right, ws2))) = Inr (ok, ws')"
  obtains okl ws1 okr where
    "collectWhenPinStates lp pm l neg ws = Inr (okl, ws1)"
    "collectWhenPinStates lp pm r neg ws1 = Inr (okr, ws')" "ok \<longleftrightarrow> okl \<and> okr"
  using assms by (auto simp: res_bind_def split: sum.splits prod.splits)

lemma collect_post_both:
  assumes "collect_post neg okl ws ws1 st bl" "collect_post neg okr ws1 ws' st br"
    and "b \<noteq> neg \<longleftrightarrow> bl \<noteq> neg \<and> br \<noteq> neg"
  shows "collect_post neg (okl \<and> okr) ws ws' st b"
  using assms unfolding collect_post_def by (cases okl; cases okr) auto

lemma collect_sound:
  assumes "collectWhenPinStates lp pm e neg ws = Inr (ok, ws')"
    and "states_wf ws" and "length st = length ws"
  shows "\<exists>b. evalWhen lp pm e st = Inr b \<and> collect_post neg ok ws ws' st b"
  using assms
proof (induction e arbitrary: neg ws ok ws')
  case (FE_port p)
  then obtain i where i: "whenPinIndex lp p pm = Inr i"
      and s: "set_pin_state i (if neg then 0 else 1) ws = Inr (ok, ws')" by auto
  note post = set_pin_state_sound [OF s FE_port.prems(2,3)]
  have "collect_post neg ok ws ws' st (st ! i = 1)"
    using post by (auto simp: collect_post_def)
  then show ?case using i post(3) by simp
next
  case (FE_not l)
  then obtain b where b: "evalWhen lp pm l st = Inr b" "collect_post (\<not> neg) ok ws ws' st b"
    by fastforce
  then have "collect_post neg ok ws ws' st (\<not> b)" by (auto simp: collect_post_def)
  with b(1) show ?case by simp
next
  case (FE_and l r)
  then have neg: "\<not> neg" by (auto split: if_splits)
  with FE_and.prems(1) obtain okl ws1 okr where c:
      "collectWhenPinStates lp pm l neg ws = Inr (okl, ws1)"
      "collectWhenPinStates lp pm r neg ws1 = Inr (okr, ws')" and ok: "ok \<longleftrightarrow> okl \<and> okr"
    using collect_binary [of lp pm l neg ws r ok ws'] by auto
  obtain bl where bl: "evalWhen lp pm l st = Inr bl" "collect_post neg okl ws ws1 st bl"
    using FE_and.IH(1) [OF c(1) FE_and.prems(2,3)] by blast
  obtain br where br: "evalWhen lp pm r st = Inr br" "collect_post neg okr ws1 ws' st br"
    using FE_and.IH(2) [OF c(2)] bl(2) FE_and.prems(3) by (auto simp: collect_post_def)
  have "collect_post neg ok ws ws' st (bl \<and> br)"
    unfolding ok by (rule collect_post_both [OF bl(2) br(2)]) (use neg in simp)
  moreover have "evalWhen lp pm (FE_and l r) st = Inr (bl \<and> br)"
    by (simp add: bl(1) br(1))
  ultimately show ?case by blast
next
  case (FE_or l r)
  then have neg: "neg" by (auto split: if_splits)
  with FE_or.prems(1) obtain okl ws1 okr where c:
      "collectWhenPinStates lp pm l neg ws = Inr (okl, ws1)"
      "collectWhenPinStates lp pm r neg ws1 = Inr (okr, ws')" and ok: "ok \<longleftrightarrow> okl \<and> okr"
    using collect_binary [of lp pm l neg ws r ok ws'] by auto
  obtain bl where bl: "evalWhen lp pm l st = Inr bl" "collect_post neg okl ws ws1 st bl"
    using FE_or.IH(1) [OF c(1) FE_or.prems(2,3)] by blast
  obtain br where br: "evalWhen lp pm r st = Inr br" "collect_post neg okr ws1 ws' st br"
    using FE_or.IH(2) [OF c(2)] bl(2) FE_or.prems(3) by (auto simp: collect_post_def)
  have "collect_post neg ok ws ws' st (bl \<or> br)"
    unfolding ok by (rule collect_post_both [OF bl(2) br(2)]) (use neg in simp)
  moreover have "evalWhen lp pm (FE_or l r) st = Inr (bl \<or> br)"
    by (simp add: bl(1) br(1))
  ultimately show ?case by blast
qed (auto simp: collect_post_def)

text \<open>The conditions the expansion supports: conjunctions, after pushing negations inside.\<close>

fun when_conj :: "FuncExpr \<Rightarrow> bool \<Rightarrow> bool" where
  "when_conj FE_null negated = False"
| "when_conj (FE_port p) negated = True"
| "when_conj (FE_not l) negated = when_conj l (\<not> negated)"
| "when_conj (FE_and l r) negated = (\<not> negated \<and> when_conj l negated \<and> when_conj r negated)"
| "when_conj (FE_or l r) negated = (negated \<and> when_conj l negated \<and> when_conj r negated)"
| "when_conj (FE_xor l r) negated = False"
| "when_conj FE_one negated = True"
| "when_conj FE_zero negated = True"

definition ports_known :: "PortStore \<Rightarrow> PinMap \<Rightarrow> FuncExpr \<Rightarrow> nat \<Rightarrow> bool" where
  "ports_known lp pm e n \<longleftrightarrow>
     (\<forall>p. fe_hasPort e p \<longrightarrow> (\<exists>i < n. map_of pm (lp_name (lp p)) = Some i))"

lemma ports_known_simps [simp]:
  "ports_known lp pm (FE_port p) n \<longleftrightarrow> (\<exists>i < n. map_of pm (lp_name (lp p)) = Some i)"
  "ports_known lp pm (FE_not l) n \<longleftrightarrow> ports_known lp pm l n"
  "ports_known lp pm (FE_or l r) n \<longleftrightarrow> ports_known lp pm l n \<and> ports_known lp pm r n"
  "ports_known lp pm (FE_and l r) n \<longleftrightarrow> ports_known lp pm l n \<and> ports_known lp pm r n"
  "ports_known lp pm (FE_xor l r) n \<longleftrightarrow> ports_known lp pm l n \<and> ports_known lp pm r n"
  "ports_known lp pm FE_one n" "ports_known lp pm FE_zero n" "ports_known lp pm FE_null n"
  by (auto simp: ports_known_def)

lemma collect_length:
  "collectWhenPinStates lp pm e neg ws = Inr (ok, ws') \<Longrightarrow> length ws' = length ws"
proof (induction e arbitrary: neg ws ok ws')
  case (FE_and l r)
  then show ?case by (auto split: if_splits elim!: collect_binary)
next
  case (FE_or l r)
  then show ?case by (auto split: if_splits elim!: collect_binary)
qed (auto simp: set_pin_state_def split: if_splits)

lemma collect_returns_iff:
  "(\<exists>r. collectWhenPinStates lp pm e neg ws = Inr r) \<longleftrightarrow>
   when_conj e neg \<and> ports_known lp pm e (length ws)"
proof (induction e arbitrary: neg ws)
  case (FE_port p)
  show ?case
    by (auto simp: res_bind_def set_pin_state_def whenPinIndex_def split: option.splits sum.splits)
next
  case (FE_and l r)
  have "(\<exists>res. collectWhenPinStates lp pm (FE_and l r) neg ws = Inr res) \<longleftrightarrow>
     \<not> neg \<and> (\<exists>okl ws1 res. collectWhenPinStates lp pm l neg ws = Inr (okl, ws1) \<and>
        collectWhenPinStates lp pm r neg ws1 = Inr res)"
    by (auto simp: res_bind_def split: sum.splits prod.splits)
  then show ?case using FE_and.IH collect_length by (auto, metis+)
next
  case (FE_or l r)
  have "(\<exists>res. collectWhenPinStates lp pm (FE_or l r) neg ws = Inr res) \<longleftrightarrow>
     neg \<and> (\<exists>okl ws1 res. collectWhenPinStates lp pm l neg ws = Inr (okl, ws1) \<and>
        collectWhenPinStates lp pm r neg ws1 = Inr res)"
    by (auto simp: res_bind_def split: sum.splits prod.splits)
  then show ?case using FE_or.IH collect_length by (auto, metis+)
qed auto

section \<open>Lemmas: tables\<close>

lemma states_wf_replicate: "states_wf (replicate n INVALID_VCD_EVENT_VAL)"
  by (simp add: states_wf_def)

lemma when_matches_replicate: "when_matches (replicate n INVALID_VCD_EVENT_VAL) st"
  by (simp add: when_matches_def)

definition when_supported :: "PortStore \<Rightarrow> PinMap \<Rightarrow> FuncExpr \<Rightarrow> bool" where
  "when_supported lp pm w \<longleftrightarrow> w = FE_null \<or> when_conj w False \<and> ports_known lp pm w (length pm)"

lemma getWhenPinStates_returns:
  "(\<exists>r. getWhenPinStates lp w pm = Inr r) \<longleftrightarrow> when_supported lp pm w"
  using collect_returns_iff [of lp pm w False "replicate (length pm) INVALID_VCD_EVENT_VAL"]
  by (auto simp: getWhenPinStates_def when_supported_def Let_def)

lemma getWhenPinStates_sound:
  assumes "getWhenPinStates lp w pm = Inr (ok, ws)" and "length st = length pm"
  shows "\<exists>b. evalWhen lp pm w st = Inr b \<and> length ws = length pm \<and> states_wf ws \<and>
           (b \<longleftrightarrow> ok \<and> when_matches ws st)"
proof (cases "w = FE_null")
  case True
  with assms show ?thesis
    by (auto simp: getWhenPinStates_def Let_def states_wf_replicate when_matches_replicate)
next
  case False
  with assms have "collectWhenPinStates lp pm w False (replicate (length pm) INVALID_VCD_EVENT_VAL) = Inr (ok, ws)"
    by (simp add: getWhenPinStates_def Let_def)
  from collect_sound [OF this states_wf_replicate] assms(2) obtain b where
    "evalWhen lp pm w st = Inr b"
    "collect_post False ok (replicate (length pm) INVALID_VCD_EVENT_VAL) ws st b" by auto
  then show ?thesis by (auto simp: collect_post_def when_matches_replicate split: if_splits)
qed

lemma expanded_member:
  assumes "states_wf ws" "length st = length ws"
  shows "getPinStatesIndex st \<in> set (expand_states_loop 0 ws [required_state_loop 0 ws 0]) \<longleftrightarrow>
         when_matches ws st"
proof -
  have "getPinStatesIndex st \<in> set (expand_states_loop 0 ws [required_state_loop 0 ws 0]) \<longleftrightarrow>
      (\<forall>j < length ws. (ws ! j = 1 \<longrightarrow> st ! j = 1) \<and>
         (st ! j = 1 \<longrightarrow> ws ! j = 1 \<or> ws ! j = INVALID_VCD_EVENT_VAL))"
    using assms(2)
    by (auto simp: expand_states_set extends_bits_def bit_getPinStatesIndex required_state_bit free_bits_def)
  also have "\<dots> \<longleftrightarrow> when_matches ws st"
    unfolding when_matches_def by (auto simp: INVALID_VCD_EVENT_VAL_def)
  finally show ?thesis .
qed

lemma nat_less_exp_of_bits:
  assumes "\<And>j. bit (x :: nat) j \<Longrightarrow> j < n"
  shows "x < 2 ^ n"
proof -
  have "take_bit n x = x" using assms by (intro bit_eqI) (auto simp: bit_take_bit_iff)
  then show ?thesis by (metis take_bit_nat_less_exp)
qed

lemma expanded_bound:
  assumes "x \<in> set (expand_states_loop 0 ws [required_state_loop 0 ws 0])"
  shows "x < 2 ^ length ws"
  using assms
  by (intro nat_less_exp_of_bits)
     (auto simp: expand_states_set extends_bits_def required_state_bit free_bits_def)

lemma expanded_distinct:
  "distinct (expand_states_loop 0 ws [required_state_loop 0 ws 0])"
  by (intro expand_states_distinct)
     (auto simp: required_state_bit free_bits_def INVALID_VCD_EVENT_VAL_def)

lemma getStateIdx_sound:
  assumes "when_supported lp pm w"
  shows "\<exists>idxs. getStateIdx lp pm w = Inr idxs \<and> distinct idxs \<and> set idxs \<subseteq> {..<2 ^ length pm} \<and>
    (\<forall>st. length st = length pm \<longrightarrow>
       (getPinStatesIndex st \<in> set idxs \<longleftrightarrow> evalWhen lp pm w st = Inr True))"
proof -
  obtain ok ws where g: "getWhenPinStates lp w pm = Inr (ok, ws)"
    using assms getWhenPinStates_returns [of lp w pm] by auto
  note sound = getWhenPinStates_sound [OF g]
  have ws: "length ws = length pm" "states_wf ws"
    using sound [of "replicate (length pm) 0"] by auto
  let ?idxs = "if ok then expand_states_loop 0 ws [required_state_loop 0 ws 0] else []"
  have "getStateIdx lp pm w = Inr ?idxs" by (simp add: getStateIdx_def g)
  moreover have "distinct ?idxs" by (simp add: expanded_distinct)
  moreover have "set ?idxs \<subseteq> {..<2 ^ length pm}" using expanded_bound [of _ ws] ws(1) by auto
  moreover have "getPinStatesIndex st \<in> set ?idxs \<longleftrightarrow> evalWhen lp pm w st = Inr True"
    if "length st = length pm" for st
    using sound [OF that] expanded_member [OF ws(2), of st] that ws(1) by auto
  ultimately show ?thesis by blast
qed

lemma getStateIdx_returns: "getStateIdx lp pm w = Inr idxs \<Longrightarrow> when_supported lp pm w"
  using getWhenPinStates_returns [of lp w pm] by (auto simp: getStateIdx_def)

lemma fill_states_spec:
  assumes "set idxs \<subseteq> {..<length vals}"
  shows "\<exists>vals'. fill_states idxs v vals = Inr vals' \<and> length vals' = length vals \<and>
    (\<forall>j < length vals. vals' ! j = (if j \<in> set idxs then v else vals ! j))"
  using assms
proof (induction idxs arbitrary: vals)
  case (Cons i idxs)
  then obtain vals' where "fill_states idxs v (vals[i := v]) = Inr vals'"
     "length vals' = length vals"
     "\<forall>j < length vals. vals' ! j = (if j \<in> set idxs then v else vals[i := v] ! j)"
    using Cons.IH [of "vals[i := v]"] by auto
  then show ?case using Cons.prems by (auto simp: nth_list_update)
qed simp

text \<open>The direct reading of the leakage groups: the last group whose condition holds decides.\<close>

definition leakage_of ::
  "PortStore \<Rightarrow> PinMap \<Rightarrow> LeakagePower list \<Rightarrow> real \<Rightarrow> VcdEventVal list \<Rightarrow> real" where
  "leakage_of lp pm leakage_powers default_val st =
     fold (\<lambda>pwr v. if evalWhen lp pm (lk_when pwr) st = Inr True then lk_power pwr else v)
       leakage_powers default_val"

lemma fill_leakage_spec:
  assumes "\<forall>pwr \<in> set pwrs. when_supported lp pm (lk_when pwr)" and "length vals = 2 ^ length pm"
  shows "\<exists>vals'. fill_leakage lp pm pwrs vals = Inr vals' \<and> length vals' = length vals \<and>
    (\<forall>st. length st = length pm \<longrightarrow>
       vals' ! getPinStatesIndex st = leakage_of lp pm pwrs (vals ! getPinStatesIndex st) st)"
  using assms
proof (induction pwrs arbitrary: vals)
  case Nil
  then show ?case by (simp add: leakage_of_def)
next
  case (Cons pwr pwrs)
  obtain idxs where idxs: "getStateIdx lp pm (lk_when pwr) = Inr idxs" "set idxs \<subseteq> {..<length vals}"
    "\<And>st. length st = length pm \<Longrightarrow>
       getPinStatesIndex st \<in> set idxs \<longleftrightarrow> evalWhen lp pm (lk_when pwr) st = Inr True"
    using getStateIdx_sound [of lp pm "lk_when pwr"] Cons.prems by auto
  obtain vals1 where v1: "fill_states idxs (lk_power pwr) vals = Inr vals1" "length vals1 = length vals"
    "\<forall>j < length vals. vals1 ! j = (if j \<in> set idxs then lk_power pwr else vals ! j)"
    using fill_states_spec [OF idxs(2)] by blast
  obtain vals' where v': "fill_leakage lp pm pwrs vals1 = Inr vals'" "length vals' = length vals1"
    "\<forall>st. length st = length pm \<longrightarrow>
       vals' ! getPinStatesIndex st = leakage_of lp pm pwrs (vals1 ! getPinStatesIndex st) st"
    using Cons.IH [of vals1] Cons.prems v1(2) by auto
  have "vals' ! getPinStatesIndex st = leakage_of lp pm (pwr # pwrs) (vals ! getPinStatesIndex st) st"
    if "length st = length pm" for st
    using that v'(3) v1(3) idxs(3) getPinStatesIndex_less [of st] Cons.prems(2)
    by (simp add: leakage_of_def)
  then show ?case using idxs(1) v1(1,2) v'(1,2) by auto
qed

lemma find_leakage_loop_nth:
  "find_leakage_loop k vs st v =
     (if k \<le> getPinStatesIndex st \<and> getPinStatesIndex st < k + length vs
      then vs ! (getPinStatesIndex st - k) else v)"
  by (induction k vs st v rule: find_leakage_loop.induct) (auto simp: nth_Cons')

lemma getLeakagePower_sound:
  assumes supported: "\<forall>pwr \<in> set leaks. when_supported lp pm (lk_when pwr)"
    and "length pm \<le> max_n_pin" "length pm < 31" and st: "length st = length pm"
  shows "\<exists>vals. getLeakagePower lp max_n_pin (dv, de) leaks (length pm) pm = Inr (vals, dv, de) \<and>
    findLeakageVal st vals dv de v = leakage_of lp pm leaks (if de then dv else 0) st"
proof (cases "leaks = []")
  case True
  then show ?thesis
    using assms(2) by (auto simp: getLeakagePower_def findLeakageVal_def leakage_of_def)
next
  case False
  obtain vals' where v:
    "fill_leakage lp pm leaks (replicate (2 ^ length pm) (if de then dv else 0)) = Inr vals'"
    "length vals' = 2 ^ length pm"
    "vals' ! getPinStatesIndex st = leakage_of lp pm leaks
       (replicate (2 ^ length pm) (if de then dv else 0) ! getPinStatesIndex st) st"
    using fill_leakage_spec [OF supported, of "replicate (2 ^ length pm) (if de then dv else 0)"] st
    by auto
  have "getPinStatesIndex st < 2 ^ length pm" using getPinStatesIndex_less [of st] st by simp
  then show ?thesis
    using v False assms(2,3)
    by (auto simp: getLeakagePower_def findLeakageVal_def find_leakage_loop_nth)
qed

section \<open>Lemmas: pins and transitions\<close>

lemma collect_pins_spec:
  "collect_pins f ps (pins, n, k) =
     (pins @ map fst (filter (pin_dir_is f) ps),
      n + length (filter (pin_dir_is f) ps), k + length (filter (pin_dir_is f) ps))"
  by (induction ps arbitrary: pins n k) auto

lemma make_pin_map_loop_keys:
  "fst ` set (make_pin_map_loop k names pm) = set names \<union> fst ` set pm"
  "distinct (map fst pm) \<Longrightarrow> distinct (map fst (make_pin_map_loop k names pm))"
  by (induction k names pm rule: make_pin_map_loop.induct) (auto simp: dom_update distinct_update)

lemma make_pin_map_length: "length (make_pin_map names) = card (set names)"
  using make_pin_map_loop_keys(1) [of 0 names "[]"] make_pin_map_loop_keys(2) [of "[]" 0 names]
    distinct_card [of "map fst (make_pin_map names)"]
  by (simp add: make_pin_map_def)

lemma make_pin_map_last:
  "names \<noteq> [] \<Longrightarrow> map_of (make_pin_map_loop k names pm) (last names) = Some (k + length names - 1)"
  by (induction k names pm rule: make_pin_map_loop.induct) (auto simp: update_conv')

lemma make_pin_map_loop_nth:
  "distinct names \<Longrightarrow> i < length names \<Longrightarrow>
   map_of (make_pin_map_loop k names pm) (names ! i) = Some (k + i)"
proof (induction k names pm arbitrary: i rule: make_pin_map_loop.induct)
  case (2 k nm nms pm)
  have other: "nm' \<notin> set names \<Longrightarrow> map_of (make_pin_map_loop k' names pm') nm' = map_of pm' nm'"
    for k' names pm' nm'
    by (induction k' names pm' rule: make_pin_map_loop.induct) (auto simp: update_conv')
  show ?case
    using 2 other [of nm nms] by (cases i) (auto simp: update_conv')
qed simp

text \<open>The level of a state, X in the middle.\<close>

fun level :: "VcdEventVal \<Rightarrow> real" where
  "level s = (if s = 1 then 1 else if s = 2 then 1/2 else 0)"

definition pin_state :: "VcdEventVal \<Rightarrow> bool" where
  "pin_state s \<longleftrightarrow> s = 0 \<or> s = 1 \<or> s = 2"

lemma rise_balance:
  assumes "pin_state p" "pin_state c"
  shows "getNRise p c - getNRise c p = level c - level p"
    and "getNToggle p c = getNRise p c + getNRise c p"
  using assms by (auto simp: pin_state_def getNRise_def getNToggle_def)

lemma table_at_3:
  assumes "length t = 3" "\<forall>r \<in> set t. length r = 3"
  shows "table_at t p c = (if p \<in> {0, 1, 2} \<and> c \<in> {0, 1, 2} then Some (t ! nat p ! nat c) else None)"
proof -
  have range3: "0 \<le> x \<and> x < 3 \<longleftrightarrow> x \<in> {0, 1, 2}" for x :: int by auto
  have "length (t ! nat p) = 3" if "0 \<le> p" "p < 3" using that assms by auto
  then show ?thesis using range3 [of p] range3 [of c] assms(1) by (auto simp: table_at_def)
qed

lemma device_tables:
  "getNRise_dev p c = (if p \<in> {0, 1, 2} \<and> c \<in> {0, 1, 2} then Some (getNRise p c) else None)"
  "getNToggle_dev p c = (if p \<in> {0, 1, 2} \<and> c \<in> {0, 1, 2} then Some (getNToggle p c) else None)"
  "getRiseFallEdge_dev p c = (if p \<in> {0, 1, 2} \<and> c \<in> {0, 1, 2} then Some (getRiseFallEdge p c) else None)"
proof -
  show rise: "getNRise_dev p c = (if p \<in> {0, 1, 2} \<and> c \<in> {0, 1, 2} then Some (getNRise p c) else None)"
    by (auto simp: getNRise_dev_def table_at_3 nRiseTable_def getNRise_def numeral_2_eq_2)
  show "getNToggle_dev p c = (if p \<in> {0, 1, 2} \<and> c \<in> {0, 1, 2} then Some (getNToggle p c) else None)"
    by (auto simp: getNToggle_dev_def table_at_3 nToggleTable_def getNToggle_def numeral_2_eq_2)
  show "getRiseFallEdge_dev p c = (if p \<in> {0, 1, 2} \<and> c \<in> {0, 1, 2} then Some (getRiseFallEdge p c) else None)"
    by (simp add: getRiseFallEdge_dev_def rise getRiseFallEdge_def)
qed

lemma glitch_ratio_dev:
  "getTimeBasedGlitchScalingRatio_dev w s = getTimeBasedGlitchScalingRatioH w s"
  by (simp add: getTimeBasedGlitchScalingRatio_dev_def getTimeBasedGlitchScalingRatioH_def Let_def min_def)

lemma glitch_ratio_bounds: "getTimeBasedGlitchScalingRatioH w s \<in> {0..1}"
  by (auto simp: getTimeBasedGlitchScalingRatioH_def Let_def)

fun waveform_sum :: "(VcdEventVal \<Rightarrow> VcdEventVal \<Rightarrow> real) \<Rightarrow> VcdEventVal list \<Rightarrow> real" where
  "waveform_sum f (p # c # vs) = f p c + waveform_sum f (c # vs)"
| "waveform_sum f _ = 0"

section \<open>Properties\<close>

text \<open>C5: The table index of a condition. The states a leakage condition is expanded to are computed
  without an error exactly when the condition is absent or is a conjunction of pin states (after
  pushing negations inside) over known pins; they are then distinct, within the table, and they
  are exactly the indices of the pin states in which the condition evaluates to true.\<close>

theorem getStateIdx_exact:
  "(w = FE_null \<or> when_conj w False \<and> ports_known lp pm w (length pm)) \<longleftrightarrow>
   (\<exists>idxs. getStateIdx lp pm w = Inr idxs \<and> distinct idxs \<and> set idxs \<subseteq> {..<2 ^ length pm} \<and>
      {st. length st = length pm \<and> getPinStatesIndex st \<in> set idxs} =
      {st. length st = length pm \<and> evalWhen lp pm w st = Inr True})"
  using getStateIdx_sound [of lp pm w] getStateIdx_returns [of lp pm w]
  unfolding when_supported_def [symmetric] by fastforce

text \<open>C6: The leakage of a state. For a gate within the pin limit whose leakage conditions are
  conjunctions over its pins, building the table and looking a state up in it succeeds and gives
  the value of the last leakage group whose condition holds in the state, or the default of the
  cell (zero if it has none): the table is a correct implementation of evaluating the conditions.\<close>

theorem leakage_table_correct:
  assumes "\<forall>pwr \<in> set leaks. lk_when pwr = FE_null \<or>
             when_conj (lk_when pwr) False \<and> ports_known lp pm (lk_when pwr) (length pm)"
    and "length pm \<le> max_n_pin" and "length pm < 31" and "length st = length pm"
  shows "\<exists>vals. getLeakagePower lp max_n_pin (dv, de) leaks (length pm) pm = Inr (vals, dv, de) \<and>
    findLeakageVal st vals dv de v =
      fold (\<lambda>pwr v. if evalWhen lp pm (lk_when pwr) st = Inr True then lk_power pwr else v)
        leaks (if de then dv else 0)"
  using getLeakagePower_sound [OF _ assms(2-4)] assms(1)
  unfolding leakage_of_def when_supported_def by blast

definition demo_leaks :: "LeakagePower list" where
  "demo_leaks =
     [\<lparr>lk_when = FE_null, lk_power = 5\<rparr>,
      \<lparr>lk_when = FE_not (FE_or (FE_port 1) (FE_not (FE_port 2))), lk_power = 7\<rparr>]"

theorem leakage_table_correct_witness:
  "\<exists>vals. getLeakagePower demo_ports 16 (3, True) demo_leaks 2 [(''b'', 0), (''bb'', 1)] = Inr (vals, 3, True) \<and>
     findLeakageVal [2, 1] vals 3 True 0 = 7"
proof -
  have names: "lp_name (demo_ports (Suc 0)) = ''b''" "lp_name (demo_ports 2) = ''bb''"
    by (simp_all add: demo_ports_def numeral_2_eq_2)
  let ?pm = "[(''b'', 0), (''bb'', 1)] :: PinMap"
  have supported: "\<forall>pwr \<in> set demo_leaks. lk_when pwr = FE_null \<or>
      when_conj (lk_when pwr) False \<and> ports_known demo_ports ?pm (lk_when pwr) (length ?pm)"
    by (simp add: demo_leaks_def names)
  show ?thesis
    using leakage_table_correct [OF supported, where max_n_pin = 16 and st = "[2, 1]" and dv = 3
        and de = True and v = 0]
    by (simp add: demo_leaks_def names whenPinIndex_def flip: numeral_2_eq_2)
qed

text \<open>The transition counts are balanced. Over a waveform of the states 0, 1 and X the rises
  minus the falls (rises of the reversed transition) are the difference of the last and the first level, and
  the toggles are the rises plus the falls.\<close>

theorem toggle_rise_balance:
  assumes "\<forall>s \<in> set (s0 # vs). s = 0 \<or> s = 1 \<or> s = 2"
  shows "waveform_sum getNRise (s0 # vs) - waveform_sum (\<lambda>p c. getNRise c p) (s0 # vs) =
           level (last (s0 # vs)) - level s0 \<and>
         waveform_sum getNToggle (s0 # vs) =
           waveform_sum getNRise (s0 # vs) + waveform_sum (\<lambda>p c. getNRise c p) (s0 # vs)"
  using assms
proof (induction vs arbitrary: s0)
  case (Cons c vs)
  have "pin_state s0" "pin_state c" using Cons.prems by (auto simp: pin_state_def)
  from rise_balance [OF this] show ?case
    using Cons.IH [of c] Cons.prems by (simp del: level.simps)
qed simp

theorem toggle_rise_balance_witness:
  "waveform_sum getNRise [0, 2, 1, 0, 1] - waveform_sum (\<lambda>p c. getNRise c p) [0, 2, 1, 0, 1] = level 1 - level 0"
  using toggle_rise_balance [of 0 "[2, 1, 0, 1]"] by simp

text \<open>The device computes the same transition counts, edges and glitch ratio as the host: its
  tables are defined on exactly the states 0, 1 and X and agree with the host's case analysis
  there, and the glitch scaling ratio is the same number, between 0 and 1.\<close>

theorem device_transition_tables:
  "getNRise_dev p c = (if p \<in> {0, 1, 2} \<and> c \<in> {0, 1, 2} then Some (getNRise p c) else None) \<and>
   getNToggle_dev p c = (if p \<in> {0, 1, 2} \<and> c \<in> {0, 1, 2} then Some (getNToggle p c) else None) \<and>
   getRiseFallEdge_dev p c = (if p \<in> {0, 1, 2} \<and> c \<in> {0, 1, 2} then Some (getRiseFallEdge p c) else None) \<and>
   getTimeBasedGlitchScalingRatio_dev w s = getTimeBasedGlitchScalingRatioH w s \<and>
   getTimeBasedGlitchScalingRatioH w s \<in> {0..1}"
  using device_tables(1) [of p c] device_tables(2) [of p c] device_tables(3) [of p c]
    glitch_ratio_dev [of w s] glitch_ratio_bounds [of w s] by blast

text \<open>The pins of a gate are its inputs followed by its outputs, in the order of the
  instance, the counts add up and the assertion on them never fails.\<close>

theorem getPinInformation_partition:
  "getPinInformation ps =
     Inr (map fst (filter (pin_dir_is pd_isAnyInput) ps) @ map fst (filter (pin_dir_is pd_isAnyOutput) ps),
          length (filter (pin_dir_is pd_isAnyInput) ps) + length (filter (pin_dir_is pd_isAnyOutput) ps),
          length (filter (pin_dir_is pd_isAnyInput) ps), length (filter (pin_dir_is pd_isAnyOutput) ps))"
  by (simp add: getPinInformation_def collect_pins_spec)

text \<open>The size of the port map. When the pins of a gate have distinct port names, every
  pin is mapped to its own index, below the size of the map; when a name occurs twice (a bidirectional
  port is both an input and an output pin), the last pin is mapped past the size of the map, and
  expanding a leakage condition on it is a read out of range.\<close>

theorem port_map_index_bound:
  "if distinct names
   then map (map_of (make_pin_map names)) names = map Some [0..<length (make_pin_map names)]
   else getStateIdx (\<lambda>p. \<lparr>lp_name = last names, lp_direction = PD_bidirect, lp_is_bus = False,
            lp_is_bundle = False, lp_from_index = 0, lp_to_index = 0, lp_members = []\<rparr>)
          (make_pin_map names) (FE_port port) = Inl StateOutOfRange"
proof (cases "distinct names")
  case True
  then show ?thesis
    using make_pin_map_length [of names] distinct_card [OF True]
    by (auto intro!: nth_equalityI simp: make_pin_map_loop_nth [of names _ 0, simplified] make_pin_map_def)
next
  case False
  then have "card (set names) < length names" using card_distinct card_length le_neq_implies_less by blast
  moreover have "map_of (make_pin_map names) (last names) = Some (length names - 1)"
    using make_pin_map_last [of names 0 "[]"] False by (cases "names = []") (simp_all add: make_pin_map_def)
  ultimately show ?thesis
    using False make_pin_map_length [of names]
    by (auto simp: getStateIdx_def getWhenPinStates_def Let_def whenPinIndex_def set_pin_state_def)
qed

end
