(* ===== verification/GTP_Vcd.thy ===== *)
theory GTP_Vcd
  imports GTP_Names "HOL-Library.Word"
begin

text \<open>
  The waveform database: \<open>power/Vcd.hh\<close> and \<open>power/Vcd.cc\<close>. The values of a variable are kept under
  its identifier code (several names may share one), as the list of its changes. The character of a value
  is 0, 1, X, U or Z for a one-bit change and the null character for a bus change, whose 64-bit word
  holds the bits. \<open>std::unordered_map::at\<close> on a missing key is the error \<open>KeyMissing\<close>, a failed
  assertion is \<open>AssertFailed\<close>.
\<close>

datatype VcdVarType =
  VT_wire | VT_reg | VT_parameter | VT_integer | VT_real | VT_supply0 | VT_supply1 | VT_time
  | VT_tri | VT_triand | VT_trior | VT_trireg | VT_tri0 | VT_tri1 | VT_wand | VT_wor | VT_unknown

record VcdVar =
  vr_name :: string
  vr_type :: VcdVarType
  vr_width :: int
  vr_id :: string

record VcdValue =
  vv_time :: int
  vv_value :: char
  vv_bus :: "64 word"
  vv_width :: int

record Vcd =
  vcd_date :: string
  vcd_comment :: string
  vcd_version :: string
  vcd_time_scale :: real
  vcd_time_unit :: string
  vcd_time_unit_scale :: real
  vcd_vars :: "VcdVar list"
  vcd_name_map :: "string \<rightharpoonup> VcdVar option"
  vcd_max_name_length :: nat
  vcd_max_width :: int
  vcd_id_values :: "string \<rightharpoonup> VcdValue list"
  vcd_min_delta_time :: int
  vcd_time_max :: int
  vcd_time_intervals :: "(int \<times> int) list"

datatype vcd_error =
    KeyMissing string | VcdAssertFailed | IntervalsAlreadySet | InvalidNumber string | NumberRange string
  | UnknownVariable string | UnhandledCommand string | TimescaleSyntax | UnknownTimeUnit string
  | VarSyntax | ScopeUnderflow | TokenMissing | FileNotReadable

definition null_char :: char where
  "null_char = CHR 0x00"

definition vcd_empty :: Vcd where
  "vcd_empty = \<lparr>vcd_date = [], vcd_comment = [], vcd_version = [], vcd_time_scale = 1, vcd_time_unit = [],
     vcd_time_unit_scale = 1, vcd_vars = [], vcd_name_map = Map.empty, vcd_max_name_length = 0,
     vcd_max_width = 0, vcd_id_values = Map.empty, vcd_min_delta_time = 0, vcd_time_max = 0,
     vcd_time_intervals = []\<rparr>"

section \<open>Operations\<close>

definition vcd_setTimeUnit :: "string \<Rightarrow> real \<Rightarrow> Vcd \<Rightarrow> Vcd" where
  "vcd_setTimeUnit unit scale v = v\<lparr>vcd_time_unit := unit, vcd_time_unit_scale := scale\<rparr>"

definition vcd_setTimeIntervals :: "(int \<times> int) list \<Rightarrow> Vcd \<Rightarrow> vcd_error + Vcd" where
  "vcd_setTimeIntervals ivs v =
     (if length (vcd_time_intervals v) \<noteq> 0 then Inl IntervalsAlreadySet
      else Inr (v\<lparr>vcd_time_intervals := ivs\<rparr>))"

definition vcd_makeVar :: "string \<Rightarrow> VcdVarType \<Rightarrow> int \<Rightarrow> string \<Rightarrow> Vcd \<Rightarrow> Vcd" where
  "vcd_makeVar name type width vid v =
     (let var = \<lparr>vr_name = name, vr_type = type, vr_width = width, vr_id = vid\<rparr> in
      v\<lparr>vcd_vars := vcd_vars v @ [var],
        vcd_name_map := (vcd_name_map v)(name \<mapsto> Some var),
        vcd_max_name_length := max (vcd_max_name_length v) (length name),
        vcd_max_width := max (vcd_max_width v) width,
        vcd_id_values := (vcd_id_values v)(vid \<mapsto> [])\<rparr>)"

text \<open>\<open>operator[]\<close> leaves a null entry for a name that is not there.\<close>

definition vcd_var :: "string \<Rightarrow> Vcd \<Rightarrow> VcdVar option \<times> Vcd" where
  "vcd_var name v =
     (case vcd_name_map v name of
        Some var \<Rightarrow> (var, v)
      | None \<Rightarrow> (None, v\<lparr>vcd_name_map := (vcd_name_map v)(name \<mapsto> None)\<rparr>))"

definition vcd_varIdValid :: "string \<Rightarrow> Vcd \<Rightarrow> bool" where
  "vcd_varIdValid vid v \<longleftrightarrow> vcd_id_values v vid \<noteq> None"

definition append_scalar :: "int \<Rightarrow> char \<Rightarrow> VcdValue list \<Rightarrow> vcd_error + VcdValue list" where
  "append_scalar time value vals =
     (if vals = [] \<or> vv_value (last vals) \<noteq> value then
        (if vals = [] \<or> (vv_time (last vals) < time \<and> vv_width (last vals) = 1) then
           Inr ((if vals = [] \<and> time \<noteq> 0
                 then vals @ [\<lparr>vv_time = 0, vv_value = CHR ''X'', vv_bus = 0, vv_width = 1\<rparr>]
                 else vals)
                @ [\<lparr>vv_time = time, vv_value = value, vv_bus = 0, vv_width = 1\<rparr>])
         else Inl VcdAssertFailed)
      else Inr vals)"

definition append_bus :: "int \<Rightarrow> 64 word \<Rightarrow> int \<Rightarrow> VcdValue list \<Rightarrow> vcd_error + VcdValue list" where
  "append_bus time bus_value bus_width vals =
     (if vals = [] \<or> vv_bus (last vals) \<noteq> bus_value then
        (if vals = [] \<or> vv_time (last vals) < time then
           Inr ((if vals = [] \<and> time \<noteq> 0
                 then vals @ [\<lparr>vv_time = 0, vv_value = null_char, vv_bus = 0, vv_width = bus_width\<rparr>]
                 else vals)
                @ [\<lparr>vv_time = time, vv_value = null_char, vv_bus = bus_value, vv_width = bus_width\<rparr>])
         else Inl VcdAssertFailed)
      else Inr vals)"

definition vcd_update_values ::
  "string \<Rightarrow> (VcdValue list \<Rightarrow> vcd_error + VcdValue list) \<Rightarrow> Vcd \<Rightarrow> vcd_error + Vcd" where
  "vcd_update_values vid f v =
     (case vcd_id_values v vid of
        None \<Rightarrow> Inl (KeyMissing vid)
      | Some vals \<Rightarrow>
          res_bind (f vals) (\<lambda>vals'. Inr (v\<lparr>vcd_id_values := (vcd_id_values v)(vid \<mapsto> vals')\<rparr>)))"

definition vcd_varAppendValue :: "string \<Rightarrow> int \<Rightarrow> char \<Rightarrow> Vcd \<Rightarrow> vcd_error + Vcd" where
  "vcd_varAppendValue vid time value v = vcd_update_values vid (append_scalar time value) v"

definition vcd_varAppendBusValue :: "string \<Rightarrow> int \<Rightarrow> int \<Rightarrow> int \<Rightarrow> Vcd \<Rightarrow> vcd_error + Vcd" where
  "vcd_varAppendBusValue vid time bus_value bus_width v =
     vcd_update_values vid (append_bus time (word_of_int bus_value) bus_width) v"

definition vcd_values :: "VcdVar \<Rightarrow> Vcd \<Rightarrow> vcd_error + VcdValue list" where
  "vcd_values var v =
     (case vcd_id_values v (vr_id var) of
        None \<Rightarrow> Inl (UnknownVariable (vr_name var))
      | Some vals \<Rightarrow> Inr vals)"

text \<open>The value of one bit of a change; shifting a 64-bit word by 64 or more is undefined.\<close>

definition vv_value_bit :: "VcdValue \<Rightarrow> int \<Rightarrow> char option" where
  "vv_value_bit val value_bit =
     (if vv_value val = null_char then
        (if 0 \<le> value_bit \<and> value_bit < 64
         then Some (if bit (vv_bus val) (nat value_bit) then CHR ''1'' else CHR ''0'')
         else None)
      else Some (vv_value val))"

text \<open>\<open>std::stoll\<close>: an optional sign and digits, at least one; the rest is ignored.\<close>

definition c_stoll :: "string \<Rightarrow> vcd_error + int" where
  "c_stoll s =
     (let body = (case s of c # cs \<Rightarrow> if c = CHR ''-'' \<or> c = CHR ''+'' then cs else s | [] \<Rightarrow> []);
          digits = takeWhile c_isdigit body;
          magnitude = digits_val 0 digits;
          n = (if s \<noteq> [] \<and> hd s = CHR ''-'' then - magnitude else magnitude)
      in if digits = [] then Inl (InvalidNumber s)
         else if n < - (2 ^ 63) \<or> 2 ^ 63 \<le> n then Inl (NumberRange s)
         else Inr n)"

definition vcd_sortVarsById :: "Vcd \<Rightarrow> vcd_error + Vcd" where
  "vcd_sortVarsById v =
     res_bind (res_map (\<lambda>var. c_stoll (vr_id var)) (vcd_vars v)) (\<lambda>keys.
       Inr (v\<lparr>vcd_vars := map fst (sort_key snd (zip (vcd_vars v) keys))\<rparr>))"

section \<open>Well-formed waveforms\<close>

text \<open>A waveform is empty, or it starts at time 0 and its times increase strictly.\<close>

definition wave_wf :: "VcdValue list \<Rightarrow> bool" where
  "wave_wf vs \<longleftrightarrow> sorted_wrt (<) (map vv_time vs) \<and> (vs \<noteq> [] \<longrightarrow> vv_time (hd vs) = 0)"

definition vcd_wf :: "Vcd \<Rightarrow> bool" where
  "vcd_wf v \<longleftrightarrow> (\<forall>vid vs. vcd_id_values v vid = Some vs \<longrightarrow> wave_wf vs)"

lemma wave_wf_snoc:
  assumes "wave_wf vs" "vs \<noteq> []" "vv_time (last vs) < vv_time x"
  shows "wave_wf (vs @ [x])"
proof -
  have "vv_time y < vv_time x" if "y \<in> set vs" for y
  proof -
    have "vv_time y \<le> vv_time (last vs)"
      using that assms(1,2) by (cases vs rule: rev_cases) (auto simp: wave_wf_def sorted_wrt_append)
    then show ?thesis using assms(3) by simp
  qed
  then show ?thesis using assms(1,2) by (auto simp: wave_wf_def sorted_wrt_append)
qed

lemma append_scalar_wf:
  assumes "append_scalar t c vs = Inr vs'" "wave_wf vs" "0 \<le> t"
  shows "wave_wf vs'"
proof (cases "vs = []")
  case True
  then show ?thesis using assms by (cases "t = 0") (auto simp: append_scalar_def wave_wf_def)
next
  case False
  then show ?thesis using assms wave_wf_snoc [OF assms(2) False] by (auto simp: append_scalar_def split: if_splits)
qed

lemma append_bus_wf:
  assumes "append_bus t b w vs = Inr vs'" "wave_wf vs" "0 \<le> t"
  shows "wave_wf vs'"
proof (cases "vs = []")
  case True
  then show ?thesis using assms by (cases "t = 0") (auto simp: append_bus_def wave_wf_def)
next
  case False
  then show ?thesis using assms wave_wf_snoc [OF assms(2) False] by (auto simp: append_bus_def split: if_splits)
qed

lemma vcd_update_values_wf:
  assumes "vcd_update_values vid f v = Inr v'" "vcd_wf v" "\<And>vs vs'. f vs = Inr vs' \<Longrightarrow> wave_wf vs \<Longrightarrow> wave_wf vs'"
  shows "vcd_wf v'"
  using assms by (auto simp: vcd_update_values_def vcd_wf_def split: option.splits if_splits)

lemma vcd_append_wf:
  "vcd_varAppendValue vid t c v = Inr v' \<Longrightarrow> vcd_wf v \<Longrightarrow> 0 \<le> t \<Longrightarrow> vcd_wf v'"
  "vcd_varAppendBusValue vid t b w v = Inr v' \<Longrightarrow> vcd_wf v \<Longrightarrow> 0 \<le> t \<Longrightarrow> vcd_wf v'"
  unfolding vcd_varAppendValue_def vcd_varAppendBusValue_def
  using vcd_update_values_wf append_scalar_wf append_bus_wf by metis+

lemma vcd_makeVar_wf: "vcd_wf v \<Longrightarrow> vcd_wf (vcd_makeVar name ty w vid v)"
  by (simp add: vcd_wf_def vcd_makeVar_def Let_def wave_wf_def)

section \<open>The value at a time\<close>

text \<open>Specification: the last change not after a time, read by \<open>f\<close>; the default before any change.\<close>

definition at_time :: "('a \<Rightarrow> int) \<Rightarrow> ('a \<Rightarrow> 'b) \<Rightarrow> 'b \<Rightarrow> 'a list \<Rightarrow> int \<Rightarrow> 'b" where
  "at_time tm f d xs t = (let ys = filter (\<lambda>x. tm x \<le> t) xs in if ys = [] then d else f (last ys))"

lemma at_time_snoc:
  "at_time tm f d (xs @ [x]) t = (if tm x \<le> t then f x else at_time tm f d xs t)"
  by (simp add: at_time_def Let_def)

lemma at_time_all:
  "(\<And>x. x \<in> set xs \<Longrightarrow> tm x \<le> t) \<Longrightarrow> xs \<noteq> [] \<Longrightarrow> at_time tm f d xs t = f (last xs)"
  by (simp add: at_time_def filter_True Let_def)

fun append_scalars :: "(int \<times> char) list \<Rightarrow> VcdValue list \<Rightarrow> vcd_error + VcdValue list" where
  "append_scalars [] vs = Inr vs"
| "append_scalars ((t, c) # chs) vs = res_bind (append_scalar t c vs) (append_scalars chs)"

fun append_buses :: "(int \<times> 64 word \<times> int) list \<Rightarrow> VcdValue list \<Rightarrow> vcd_error + VcdValue list" where
  "append_buses [] vs = Inr vs"
| "append_buses ((t, b, w) # chs) vs = res_bind (append_bus t b w vs) (append_buses chs)"

lemma append_scalar_at:
  assumes "append_scalar t c vs = Inr vs'" "\<forall>v \<in> set vs. vv_time v \<le> t" "0 \<le> t"
  shows "at_time vv_time vv_value (CHR ''X'') vs' u =
           (if t \<le> u then c else at_time vv_time vv_value (CHR ''X'') vs u)"
    and "\<forall>v \<in> set vs'. vv_time v \<le> t"
proof -
  show "at_time vv_time vv_value (CHR ''X'') vs' u =
           (if t \<le> u then c else at_time vv_time vv_value (CHR ''X'') vs u)"
  proof (cases "vs = []")
    case True
    then show ?thesis using assms by (auto simp: append_scalar_def at_time_def Let_def)
  next
    case False
    show ?thesis
    proof (cases "vv_value (last vs) = c")
      case True
      have "at_time vv_time vv_value (CHR ''X'') vs u = c" if "t \<le> u"
        using that assms(2) False True by (subst at_time_all) force+
      then show ?thesis using assms(1) False True by (auto simp: append_scalar_def)
    next
      case neq: False
      then show ?thesis using assms(1) False by (auto simp: append_scalar_def at_time_snoc split: if_splits)
    qed
  qed
  show "\<forall>v \<in> set vs'. vv_time v \<le> t"
    using assms by (auto simp: append_scalar_def split: if_splits)
qed

lemma append_bus_at:
  assumes "append_bus t b w vs = Inr vs'" "\<forall>v \<in> set vs. vv_time v \<le> t" "0 \<le> t"
  shows "at_time vv_time vv_bus 0 vs' u = (if t \<le> u then b else at_time vv_time vv_bus 0 vs u)"
    and "\<forall>v \<in> set vs'. vv_time v \<le> t"
proof -
  show "at_time vv_time vv_bus 0 vs' u = (if t \<le> u then b else at_time vv_time vv_bus 0 vs u)"
  proof (cases "vs = []")
    case True
    then show ?thesis using assms by (auto simp: append_bus_def at_time_def Let_def)
  next
    case False
    show ?thesis
    proof (cases "vv_bus (last vs) = b")
      case True
      have "at_time vv_time vv_bus 0 vs u = b" if "t \<le> u"
        using that assms(2) False True by (subst at_time_all) force+
      then show ?thesis using assms(1) False True by (auto simp: append_bus_def)
    next
      case neq: False
      then show ?thesis using assms(1) False by (auto simp: append_bus_def at_time_snoc split: if_splits)
    qed
  qed
  show "\<forall>v \<in> set vs'. vv_time v \<le> t"
    using assms by (auto simp: append_bus_def split: if_splits)
qed

lemma at_time_Cons_default:
  "\<forall>y \<in> set xs. tm x \<le> tm y \<Longrightarrow>
   at_time tm f d (x # xs) u = (if tm x \<le> u then at_time tm f (f x) xs u else d)"
  by (auto simp: at_time_def Let_def filter_empty_conv)


lemma append_scalars_spec:
  assumes "append_scalars chs vs = Inr vs'" "\<forall>v \<in> set vs. \<forall>ch \<in> set chs. vv_time v \<le> fst ch"
    "sorted (map fst chs)" "\<forall>ch \<in> set chs. 0 \<le> fst ch" "wave_wf vs"
  shows "at_time vv_time vv_value (CHR ''X'') vs' u =
           at_time fst snd (at_time vv_time vv_value (CHR ''X'') vs u) chs u \<and> wave_wf vs'"
  using assms
proof (induction chs vs rule: append_scalars.induct)
  case (2 t c chs vs)
  then obtain vs1 where v1: "append_scalar t c vs = Inr vs1" "append_scalars chs vs1 = Inr vs'" by auto
  have at: "at_time vv_time vv_value (CHR ''X'') vs1 u =
        (if t \<le> u then c else at_time vv_time vv_value (CHR ''X'') vs u)"
    and le: "\<forall>v \<in> set vs1. vv_time v \<le> t"
    using append_scalar_at(1) [OF v1(1), of u] append_scalar_at(2) [OF v1(1)] 2(3,5) by auto
  have ge: "\<forall>ch \<in> set chs. t \<le> fst ch" using 2(4) by auto
  have wf: "wave_wf vs1" using append_scalar_wf [OF v1(1) 2(6)] 2(5) by simp
  have "at_time vv_time vv_value (CHR ''X'') vs' u =
           at_time fst snd (at_time vv_time vv_value (CHR ''X'') vs1 u) chs u \<and> wave_wf vs'"
    using 2(1) [OF v1(2)] le ge 2(4,5) wf by (auto intro: order_trans)
  moreover have "at_time fst snd (if t \<le> u then c else d) chs u = at_time fst snd d ((t, c) # chs) u" for d
    using ge by (auto simp: at_time_def Let_def filter_empty_conv)
  ultimately show ?case by (simp add: at)
qed (simp add: at_time_def)

lemma append_buses_spec:
  assumes "append_buses chs vs = Inr vs'" "\<forall>v \<in> set vs. \<forall>ch \<in> set chs. vv_time v \<le> fst ch"
    "sorted (map fst chs)" "\<forall>ch \<in> set chs. 0 \<le> fst ch" "wave_wf vs"
  shows "at_time vv_time vv_bus 0 vs' u =
           at_time fst (\<lambda>ch. fst (snd ch)) (at_time vv_time vv_bus 0 vs u) chs u \<and> wave_wf vs'"
  using assms
proof (induction chs vs rule: append_buses.induct)
  case (2 t b w chs vs)
  then obtain vs1 where v1: "append_bus t b w vs = Inr vs1" "append_buses chs vs1 = Inr vs'" by auto
  have at: "at_time vv_time vv_bus 0 vs1 u = (if t \<le> u then b else at_time vv_time vv_bus 0 vs u)"
    and le: "\<forall>v \<in> set vs1. vv_time v \<le> t"
    using append_bus_at(1) [OF v1(1), of u] append_bus_at(2) [OF v1(1)] 2(3,5) by auto
  have ge: "\<forall>ch \<in> set chs. t \<le> fst ch" using 2(4) by auto
  have wf: "wave_wf vs1" using append_bus_wf [OF v1(1) 2(6)] 2(5) by simp
  have "at_time vv_time vv_bus 0 vs' u =
           at_time fst (\<lambda>ch. fst (snd ch)) (at_time vv_time vv_bus 0 vs1 u) chs u \<and> wave_wf vs'"
    using 2(1) [OF v1(2)] le ge 2(4,5) wf by (auto intro: order_trans)
  moreover have "at_time fst (\<lambda>ch. fst (snd ch)) (if t \<le> u then b else d) chs u =
      at_time fst (\<lambda>ch. fst (snd ch)) d ((t, b, w) # chs) u" for d
    using ge by (auto simp: at_time_def Let_def filter_empty_conv)
  ultimately show ?case by (simp add: at)
qed (simp add: at_time_def)

text \<open>C33: Recording a waveform loses nothing. When the changes of a one-bit variable are recorded in time order
  and the recorder accepts them, the stored waveform starts at time 0, its times
  increase strictly, and at every time it has the value of the last change up to then, X before
  the first: dropping redundant changes and inserting the initial X are not visible.\<close>

theorem scalar_waveform_faithful:
  assumes "append_scalars chs [] = Inr vs" "sorted (map fst chs)" "\<forall>ch \<in> set chs. 0 \<le> fst ch"
  shows "wave_wf vs \<and>
    at_time vv_time vv_value (CHR ''X'') vs u = at_time fst snd (CHR ''X'') chs u"
  using append_scalars_spec [OF assms(1) _ assms(2,3), of u]
  by (simp add: wave_wf_def at_time_def)

theorem scalar_waveform_faithful_witness:
  "\<exists>vs. append_scalars [(5, CHR ''1''), (7, CHR ''1''), (7, CHR ''0'')] [] = Inr vs \<and> length vs = 3 \<and> wave_wf vs \<and>
     at_time vv_time vv_value (CHR ''X'') vs 6 = CHR ''1''"
proof -
  obtain vs where vs: "append_scalars [(5, CHR ''1''), (7, CHR ''1''), (7, CHR ''0'')] [] = Inr vs"
      "length vs = 3"
    by (simp add: append_scalar_def)
  show ?thesis
    using scalar_waveform_faithful [OF vs(1), of 6] vs by (simp add: at_time_def)
qed

text \<open>C34: The same for buses: the stored waveform starts at time 0, its times increase
  strictly, and at every time it has the word of the last bus change up to then, zero before the first.\<close>

theorem bus_waveform_faithful:
  assumes "append_buses chs [] = Inr vs" "sorted (map fst chs)" "\<forall>ch \<in> set chs. 0 \<le> fst ch"
  shows "wave_wf vs \<and>
    at_time vv_time vv_bus 0 vs u = at_time fst (\<lambda>ch. fst (snd ch)) 0 chs u"
  using append_buses_spec [OF assms(1) _ assms(2,3), of u]
  by (simp add: wave_wf_def at_time_def)

theorem bus_waveform_faithful_witness:
  "\<exists>vs. append_buses [(5, 6, 4), (7, 6, 4), (9, 2, 4)] [] = Inr vs \<and> length vs = 3 \<and> wave_wf vs \<and>
     at_time vv_time vv_bus 0 vs 8 = 6"
proof -
  obtain vs where vs: "append_buses [(5, 6, 4), (7, 6, 4), (9, 2, 4)] [] = Inr vs" "length vs = 3"
    by (simp add: append_bus_def)
  show ?thesis
    using bus_waveform_faithful [OF vs(1), of 8] vs by (simp add: at_time_def)
qed

end
