(* ===== verification/GTP_VcdReader.thy ===== *)
theory GTP_VcdReader
  imports GTP_Vcd
begin

text \<open>
  The VCD parser, \<open>power/VcdReader.cc\<close>. The stream is the list of the characters still to be read
  (decompression is outside the program); a command of the file is a function on the reader's state. A
  \<open>fileError\<close> throws and is an error value; a warning is not modelled. Numbers are read as
  \<open>std::stoll\<close>, \<open>std::stoi\<close>, \<open>std::stod\<close> (decimal notation) and \<open>strtol\<close> in base two read them.
\<close>

section \<open>Tokens\<close>

record VcdReader =
  rd_stream :: string
  rd_file_line :: nat
  rd_stmt_line :: nat
  rd_vcd :: Vcd
  rd_time :: int
  rd_prev_time :: int
  rd_scope :: "string list"

definition count_line :: "char \<Rightarrow> nat \<Rightarrow> nat" where
  "count_line ch line = (if ch = CHR 0x0A then line + 1 else line)"

fun token_rest :: "string \<Rightarrow> string \<Rightarrow> nat \<Rightarrow> string \<times> string \<times> nat" where
  "token_rest tok [] line = ([], [], line)"
| "token_rest tok (ch # s) line =
     (if c_isspace ch then (tok, s, count_line ch line)
      else token_rest (tok @ [ch]) s (count_line ch line))"

fun token_start :: "string \<Rightarrow> nat \<Rightarrow> string \<times> string \<times> nat" where
  "token_start [] line = ([], [], line)"
| "token_start (ch # s) line =
     (if c_isspace ch then token_start s (count_line ch line)
      else token_rest [ch] s (count_line ch line))"

definition getToken :: "VcdReader \<Rightarrow> string \<times> VcdReader" where
  "getToken r =
     (let (tok, s, line) = token_start (rd_stream r) (rd_file_line r)
      in (tok, r\<lparr>rd_stream := s, rd_file_line := line\<rparr>))"

lemma token_rest_length:
  "token_rest tok s line = (t, s', line') \<Longrightarrow> length s' \<le> length s \<and> (t \<noteq> [] \<longrightarrow> length s' < length s)"
  by (induction tok s line rule: token_rest.induct) (auto split: if_splits)

lemma token_start_length:
  "token_start s line = (t, s', line') \<Longrightarrow> length s' \<le> length s \<and> (t \<noteq> [] \<longrightarrow> length s' < length s)"
  by (induction s line rule: token_start.induct)
     (auto split: if_splits dest!: token_rest_length)

lemma getToken_length:
  assumes "getToken r = (t, r')"
  shows "length (rd_stream r') \<le> length (rd_stream r)"
    and "t \<noteq> [] \<Longrightarrow> length (rd_stream r') < length (rd_stream r)"
  using assms token_start_length [of "rd_stream r" "rd_file_line r"]
  by (auto simp: getToken_def Let_def split: prod.splits)

text \<open>The tokens of a statement, up to \<open>$end\<close> or the end of the file.\<close>

function readStmt_loop :: "string list \<Rightarrow> VcdReader \<Rightarrow> string list \<times> VcdReader" where
  "readStmt_loop acc r =
     (let (token, r') = getToken r in
      if token = [] \<or> token = ''$end'' then (acc, r') else readStmt_loop (acc @ [token]) r')"
  by pat_completeness auto
termination
  by (relation "measure (\<lambda>(acc, r). length (rd_stream r))")
     (auto dest!: sym [of "(_, _)" "getToken _"] getToken_length(2))

declare readStmt_loop.simps [simp del]

definition readStmtTokens :: "VcdReader \<Rightarrow> string list \<times> VcdReader" where
  "readStmtTokens r = readStmt_loop [] (r\<lparr>rd_stmt_line := rd_file_line r\<rparr>)"

text \<open>The string of a statement is its tokens with a blank between them.\<close>

fun join_tokens :: "string \<Rightarrow> string list \<Rightarrow> string" where
  "join_tokens line [] = line"
| "join_tokens line (t # ts) = join_tokens ((if line \<noteq> [] then line @ '' '' else line) @ t) ts"

definition readStmtString :: "VcdReader \<Rightarrow> string \<times> VcdReader" where
  "readStmtString r = (let (ts, r') = readStmtTokens r in (join_tokens [] ts, r'))"

section \<open>Declarations\<close>

text \<open>\<open>std::stod\<close> on decimal notation: the value and the unread rest.\<close>

definition c_stod :: "string \<Rightarrow> vcd_error + (real \<times> string)" where
  "c_stod s =
     (let neg = (s \<noteq> [] \<and> hd s = CHR ''-'');
          body = (if s \<noteq> [] \<and> (hd s = CHR ''-'' \<or> hd s = CHR ''+'') then tl s else s);
          int_part = takeWhile c_isdigit body;
          rest = dropWhile c_isdigit body;
          frac = (if rest \<noteq> [] \<and> hd rest = CHR ''.'' then takeWhile c_isdigit (tl rest) else []);
          rest1 = (if rest \<noteq> [] \<and> hd rest = CHR ''.'' then dropWhile c_isdigit (tl rest) else rest);
          mant = (of_int (digits_val 0 (int_part @ frac)) :: real) / 10 ^ length frac;
          exp_body = (if rest1 \<noteq> [] \<and> c_tolower (hd rest1) = CHR ''e'' then tl rest1 else []);
          exp_neg = (exp_body \<noteq> [] \<and> hd exp_body = CHR ''-'');
          exp_digits_str = (if exp_body \<noteq> [] \<and> (hd exp_body = CHR ''-'' \<or> hd exp_body = CHR ''+'')
                            then tl exp_body else exp_body);
          exp_digits = takeWhile c_isdigit exp_digits_str;
          e = nat (digits_val 0 exp_digits);
          val = (if exp_digits = [] then mant else if exp_neg then mant / 10 ^ e else mant * 10 ^ e);
          rest2 = (if exp_digits = [] then rest1 else dropWhile c_isdigit exp_digits_str)
      in if int_part = [] \<and> frac = [] then Inl (InvalidNumber s)
         else Inr (if neg then - val else val, rest2))"

definition rd_setTimeUnit :: "string \<Rightarrow> VcdReader \<Rightarrow> vcd_error + VcdReader" where
  "rd_setTimeUnit unit r =
     (if unit = ''fs'' then Inr (r\<lparr>rd_vcd := vcd_setTimeUnit unit (1 / 10 ^ 15) (rd_vcd r)\<rparr>)
      else if unit = ''ps'' then Inr (r\<lparr>rd_vcd := vcd_setTimeUnit unit (1 / 10 ^ 12) (rd_vcd r)\<rparr>)
      else if unit = ''ns'' then Inr (r\<lparr>rd_vcd := vcd_setTimeUnit unit (1 / 10 ^ 9) (rd_vcd r)\<rparr>)
      else Inl (UnknownTimeUnit unit))"

definition rd_setTimeScale :: "real \<Rightarrow> VcdReader \<Rightarrow> VcdReader" where
  "rd_setTimeScale time_scale r =
     r\<lparr>rd_vcd := (rd_vcd r)\<lparr>vcd_time_scale := time_scale * vcd_time_unit_scale (rd_vcd r)\<rparr>\<rparr>"

definition parseTimescale :: "VcdReader \<Rightarrow> vcd_error + VcdReader" where
  "parseTimescale r =
     (let (tokens, r1) = readStmtTokens r in
      if length tokens = 1 then
        res_bind (c_stod (tokens ! 0)) (\<lambda>(time_scale, rest).
        res_bind (rd_setTimeUnit rest r1) (\<lambda>r2. Inr (rd_setTimeScale time_scale r2)))
      else if length tokens = 2 then
        res_bind (rd_setTimeUnit (tokens ! 1) r1) (\<lambda>r2.
        res_bind (c_stod (tokens ! 0)) (\<lambda>(time_scale, rest). Inr (rd_setTimeScale time_scale r2)))
      else Inl TimescaleSyntax)"

definition vcd_var_type_map :: "(string \<times> VcdVarType) list" where
  "vcd_var_type_map =
     [(''wire'', VT_wire), (''reg'', VT_reg), (''parameter'', VT_parameter), (''integer'', VT_integer),
      (''real'', VT_real), (''supply0'', VT_supply0), (''supply1'', VT_supply1), (''time'', VT_time),
      (''tri'', VT_tri), (''triand'', VT_triand), (''trior'', VT_trior), (''trireg'', VT_trireg),
      (''tri0'', VT_tri0), (''tri1'', VT_tri1), (''wand'', VT_wand), (''wor'', VT_wor)]"

definition c_stoi :: "string \<Rightarrow> vcd_error + int" where
  "c_stoi s =
     res_bind (c_stoll s) (\<lambda>n. if n < - (2 ^ 31) \<or> 2 ^ 31 \<le> n then Inl (NumberRange s) else Inr n)"

text \<open>A divider in the variable name is escaped; a bit range follows an escaped name after a blank.\<close>

definition var_full_name :: "string list \<Rightarrow> string list \<Rightarrow> string" where
  "var_full_name scope tokens =
     (let prefix = concat (map (\<lambda>ctx. ctx @ ''/'') scope);
          name = prefix @ replaceAll (tokens ! 3) ''/'' ([bslash] @ ''/'')
      in if length tokens = 5
         then (if name \<noteq> [] \<and> hd name = bslash then name @ '' '' else name) @ tokens ! 4
         else name)"

definition parseVar :: "VcdReader \<Rightarrow> vcd_error + VcdReader" where
  "parseVar r =
     (let (tokens, r1) = readStmtTokens r in
      if length tokens = 4 \<or> length tokens = 5 then
        (case map_of vcd_var_type_map (tokens ! 0) of
           None \<Rightarrow> Inr r1
         | Some type \<Rightarrow>
             res_bind (c_stoi (tokens ! 1)) (\<lambda>width.
               Inr (r1\<lparr>rd_vcd := vcd_makeVar (var_full_name (rd_scope r1) tokens) type width (tokens ! 2)
                                  (rd_vcd r1)\<rparr>)))
      else Inl VarSyntax)"

definition parseScope :: "VcdReader \<Rightarrow> vcd_error + VcdReader" where
  "parseScope r =
     (let (tokens, r1) = readStmtTokens r in
      if 1 < length tokens then Inr (r1\<lparr>rd_scope := rd_scope r1 @ [tokens ! 1]\<rparr>)
      else Inl TokenMissing)"

definition parseUpscope :: "VcdReader \<Rightarrow> vcd_error + VcdReader" where
  "parseUpscope r =
     (let (tokens, r1) = readStmtTokens r in
      if rd_scope r1 \<noteq> [] then Inr (r1\<lparr>rd_scope := butlast (rd_scope r1)\<rparr>) else Inl ScopeUnderflow)"

section \<open>Value changes\<close>

text \<open>\<open>strtol\<close> in base two: sign and binary digits, saturated to 64 bits.\<close>

definition c_isbit :: "char \<Rightarrow> bool" where
  "c_isbit c \<longleftrightarrow> c = CHR ''0'' \<or> c = CHR ''1''"

definition bits_val :: "string \<Rightarrow> int" where
  "bits_val s = foldl (\<lambda>acc c. 2 * acc + (if c = CHR ''1'' then 1 else 0)) 0 s"

definition c_strtol2 :: "string \<Rightarrow> int" where
  "c_strtol2 s =
     (let neg = (s \<noteq> [] \<and> hd s = CHR ''-'');
          body = (if s \<noteq> [] \<and> (hd s = CHR ''-'' \<or> hd s = CHR ''+'') then tl s else s);
          n = bits_val (takeWhile c_isbit body)
      in if neg then max (- (2 ^ 63)) (- n) else min (2 ^ 63 - 1) n)"

definition char_at :: "string \<Rightarrow> nat \<Rightarrow> char" where
  "char_at s i = (if i < length s then s ! i else null_char)"

text \<open>One token of the value section: the number of parsed events, and the new state.\<close>

definition parse_value_token :: "string \<Rightarrow> VcdReader \<Rightarrow> vcd_error + (nat \<times> VcdReader)" where
  "parse_value_token token r =
     (let char0 = c_toupper (char_at token 0) in
      if char0 = CHR ''#'' \<and> 1 < length token then
        res_bind (c_stoll (tl token)) (\<lambda>t.
          let r1 = r\<lparr>rd_prev_time := rd_time r, rd_time := t\<rparr> in
          Inr (0, if rd_prev_time r1 < t
                  then r1\<lparr>rd_vcd := (rd_vcd r1)\<lparr>vcd_min_delta_time :=
                         min (t - rd_prev_time r1) (vcd_min_delta_time (rd_vcd r1))\<rparr>\<rparr>
                  else r1))
      else if char0 = CHR ''0'' \<or> char0 = CHR ''1'' \<or> char0 = CHR ''X'' \<or> char0 = CHR ''U''
              \<or> char0 = CHR ''Z'' then
        (if vcd_varIdValid (tl token) (rd_vcd r)
         then res_bind (vcd_varAppendValue (tl token) (rd_time r) char0 (rd_vcd r)) (\<lambda>v.
                Inr (1, r\<lparr>rd_vcd := v\<rparr>))
         else Inl (UnknownVariable (tl token)))
      else if char0 = CHR ''B'' then
        (let char1 = c_toupper (char_at token 1);
             bus_value = (if char1 = CHR ''X'' \<or> char1 = CHR ''U'' \<or> char1 = CHR ''Z'' then 0
                          else c_strtol2 (tl token));
             (vid, r1) = getToken r
         in if vcd_varIdValid vid (rd_vcd r1)
            then res_bind (vcd_varAppendBusValue vid (rd_time r1) bus_value (int (length token) - 1)
                             (rd_vcd r1)) (\<lambda>v.
                   Inr (length token - 1, r1\<lparr>rd_vcd := v\<rparr>))
            else Inl (UnknownVariable vid))
      else Inr (0, r))"

lemma parse_value_token_length:
  "parse_value_token token r = Inr (n, r') \<Longrightarrow> length (rd_stream r') \<le> length (rd_stream r)"
  by (auto simp: parse_value_token_def Let_def split: if_splits prod.splits dest!: getToken_length(1))

lemma parse_values_decrease:
  assumes "parse_value_token token r = Inr b" "(n, r1) = b"
  shows "(case getToken r1 of (t, r2) \<Rightarrow> 2 * length (rd_stream r2) + (if t = [] then 0 else 1))
           < Suc (2 * length (rd_stream r))"
proof -
  obtain t r2 where g: "getToken r1 = (t, r2)" by (cases "getToken r1")
  show ?thesis
    using parse_value_token_length [of token r n r1] getToken_length [OF g] assms by (fastforce simp: g)
qed

text \<open>The intervals of the event budget: each starts where the one before ends.\<close>

definition next_interval_start :: "(int \<times> int) list \<Rightarrow> int" where
  "next_interval_start ivs = (if length ivs = 0 then 0 else snd (last ivs))"

function parse_values_loop ::
  "nat \<Rightarrow> (int \<times> int) list \<Rightarrow> nat \<Rightarrow> string \<Rightarrow> VcdReader \<Rightarrow> vcd_error + ((int \<times> int) list \<times> VcdReader)"
where
  "parse_values_loop max_event_num ivs n_cur token r =
     (if token = [] then Inr (ivs, r)
      else case parse_value_token token r of
          Inl e \<Rightarrow> Inl e
        | Inr (n_parsed, r1) \<Rightarrow>
            let (token', r2) = getToken r1;
                n = n_cur + n_parsed
            in if n > max_event_num
               then parse_values_loop max_event_num (ivs @ [(next_interval_start ivs, rd_time r2)]) 0 token' r2
               else parse_values_loop max_event_num ivs n token' r2)"
  by pat_completeness auto
termination
  by (relation "measure (\<lambda>(mx, ivs, n, token, r). 2 * length (rd_stream r) + (if token = [] then 0 else 1))")
     (simp_all add: parse_values_decrease)

declare parse_values_loop.simps [simp del]

definition parseVarValues :: "nat \<Rightarrow> VcdReader \<Rightarrow> vcd_error + VcdReader" where
  "parseVarValues max_event_num r =
     (let (token, r1) = getToken r in
      res_bind (parse_values_loop max_event_num [] 0 token r1) (\<lambda>(ivs, r2).
        let r3 = r2\<lparr>rd_vcd := (rd_vcd r2)\<lparr>vcd_time_max := rd_time r2\<rparr>\<rparr> in
        res_bind (vcd_setTimeIntervals (ivs @ [(next_interval_start ivs, rd_time r3 + 1)]) (rd_vcd r3)) (\<lambda>v.
          Inr (r3\<lparr>rd_vcd := v\<rparr>))))"

section \<open>The file\<close>

text \<open>One command of the file, after its keyword token.\<close>

definition read_command :: "nat \<Rightarrow> string \<Rightarrow> VcdReader \<Rightarrow> vcd_error + VcdReader" where
  "read_command max_event_num token r =
     (if token = ''$date'' then
        (let (s, r1) = readStmtString r in Inr (r1\<lparr>rd_vcd := (rd_vcd r1)\<lparr>vcd_date := s\<rparr>\<rparr>))
      else if token = ''$comment'' then
        (let (s, r1) = readStmtString r in Inr (r1\<lparr>rd_vcd := (rd_vcd r1)\<lparr>vcd_comment := s\<rparr>\<rparr>))
      else if token = ''$version'' then
        (let (s, r1) = readStmtString r in Inr (r1\<lparr>rd_vcd := (rd_vcd r1)\<lparr>vcd_version := s\<rparr>\<rparr>))
      else if token = ''$timescale'' then parseTimescale r
      else if token = ''$var'' then parseVar r
      else if token = ''$scope'' then parseScope r
      else if token = ''$upscope'' then parseUpscope r
      else if token = ''$enddefinitions'' then Inr (snd (readStmtString r))
      else if token = ''$dumpall'' then parseVarValues max_event_num r
      else if token = ''$dumpvars'' then parseVarValues max_event_num r
      else if char_at token 0 = CHR ''$'' then Inl (UnhandledCommand token)
      else parseVarValues max_event_num r)"


lemma readStmt_loop_length:
  "readStmt_loop acc r = (ts, r') \<Longrightarrow> length (rd_stream r') \<le> length (rd_stream r)"
proof (induction acc r rule: readStmt_loop.induct)
  case (1 acc r)
  then show ?case
    by (subst (asm) (2) readStmt_loop.simps)
       (force simp: Let_def split: prod.splits if_splits dest!: getToken_length(1))
qed

lemma readStmtTokens_length:
  "readStmtTokens r = (ts, r') \<Longrightarrow> length (rd_stream r') \<le> length (rd_stream r)"
  using readStmt_loop_length [of "[]" "r\<lparr>rd_stmt_line := rd_file_line r\<rparr>"] by (simp add: readStmtTokens_def)

lemma readStmtString_length:
  "readStmtString r = (s, r') \<Longrightarrow> length (rd_stream r') \<le> length (rd_stream r)"
  using readStmtTokens_length [of r] by (auto simp: readStmtString_def split: prod.splits)

lemma parse_values_loop_length:
  "parse_values_loop mx ivs n token r = Inr (ivs', r') \<Longrightarrow> length (rd_stream r') \<le> length (rd_stream r)"
proof (induction mx ivs n token r rule: parse_values_loop.induct)
  case (1 mx ivs n token r)
  then show ?case
    by (subst (asm) (3) parse_values_loop.simps)
       (fastforce simp: Let_def split: prod.splits if_splits sum.splits
          dest!: getToken_length(1) parse_value_token_length)
qed

lemma rd_setTimeUnit_stream: "rd_setTimeUnit u r = Inr r' \<Longrightarrow> rd_stream r' = rd_stream r"
  by (auto simp: rd_setTimeUnit_def split: if_splits)

lemma parse_lengths:
  "parseTimescale r = Inr r' \<Longrightarrow> length (rd_stream r') \<le> length (rd_stream r)"
  "parseVar r = Inr r' \<Longrightarrow> length (rd_stream r') \<le> length (rd_stream r)"
  "parseScope r = Inr r' \<Longrightarrow> length (rd_stream r') \<le> length (rd_stream r)"
  "parseUpscope r = Inr r' \<Longrightarrow> length (rd_stream r') \<le> length (rd_stream r)"
  by (auto simp: parseTimescale_def parseVar_def parseScope_def parseUpscope_def Let_def rd_setTimeScale_def
      split: prod.splits if_splits option.splits dest!: readStmtTokens_length rd_setTimeUnit_stream)

lemma parseVarValues_length:
  "parseVarValues mx r = Inr r' \<Longrightarrow> length (rd_stream r') \<le> length (rd_stream r)"
  by (fastforce simp: parseVarValues_def Let_def split: prod.splits
      dest!: getToken_length(1) parse_values_loop_length)

lemma read_command_length:
  assumes "read_command mx token r = Inr r'"
  shows "length (rd_stream r') \<le> length (rd_stream r)"
proof -
  have stmt: "length (rd_stream (snd (readStmtString r))) \<le> length (rd_stream r)"
    using readStmtString_length by (metis prod.collapse)
  show ?thesis
    using assms stmt parse_lengths parseVarValues_length
    by (auto simp: read_command_def split: if_splits prod.splits)
qed

lemma read_decrease:
  assumes "read_command mx token r = Inr r1"
  shows "(case getToken r1 of (t, r2) \<Rightarrow> 2 * length (rd_stream r2) + (if t = [] then 0 else 1))
           < Suc (2 * length (rd_stream r))"
proof -
  obtain t r2 where g: "getToken r1 = (t, r2)" by (cases "getToken r1")
  show ?thesis using read_command_length [OF assms] getToken_length [OF g] by (fastforce simp: g)
qed

function read_loop :: "nat \<Rightarrow> string \<Rightarrow> VcdReader \<Rightarrow> vcd_error + VcdReader" where
  "read_loop max_event_num token r =
     (if token = [] then Inr r
      else case read_command max_event_num token r of
          Inl e \<Rightarrow> Inl e
        | Inr r1 \<Rightarrow> let (token', r2) = getToken r1 in read_loop max_event_num token' r2)"
  by pat_completeness auto
termination
  by (relation "measure (\<lambda>(mx, token, r). 2 * length (rd_stream r) + (if token = [] then 0 else 1))")
     (use read_decrease in \<open>auto split: prod.splits\<close>)

declare read_loop.simps [simp del]

text \<open>The content is \<open>None\<close> when the file cannot be opened.\<close>

definition readVcd :: "nat \<Rightarrow> string option \<Rightarrow> vcd_error + Vcd" where
  "readVcd max_event_num content =
     (case content of
        None \<Rightarrow> Inl FileNotReadable
      | Some s \<Rightarrow>
          let r = \<lparr>rd_stream = s, rd_file_line = 1, rd_stmt_line = 1, rd_vcd = vcd_empty,
                   rd_time = 0, rd_prev_time = 0, rd_scope = []\<rparr>;
              (token, r1) = getToken r
          in res_bind (read_loop max_event_num token r1) (\<lambda>r2. Inr (rd_vcd r2)))"

section \<open>Lemmas: tokens\<close>

definition no_space :: "string \<Rightarrow> bool" where
  "no_space t \<longleftrightarrow> (\<forall>c \<in> set t. \<not> c_isspace c)"

lemma token_rest_word:
  "no_space t \<Longrightarrow> c_isspace c \<Longrightarrow> \<exists>line'. token_rest tok (t @ c # s) line = (tok @ t, s, line')"
proof (induction t arbitrary: tok line)
  case (Cons a t)
  then show ?case using Cons.IH [of "tok @ [a]" "count_line a line"] by (auto simp: no_space_def)
qed simp

lemma token_rest_eof: "no_space t \<Longrightarrow> \<exists>line'. token_rest tok t line = ([], [], line')"
  by (induction t arbitrary: tok line) (auto simp: no_space_def)

lemma getToken_word:
  assumes "no_space t" "t \<noteq> []" "rd_stream r = t @ c # s" "c_isspace c"
  shows "\<exists>line. getToken r = (t, r\<lparr>rd_stream := s, rd_file_line := line\<rparr>)"
proof -
  obtain a u where t: "t = a # u" using assms(2) by (cases t) auto
  then have u: "no_space u" "\<not> c_isspace a" using assms(1) by (auto simp: no_space_def)
  obtain line where "token_rest [a] (u @ c # s) (count_line a (rd_file_line r)) = ([a] @ u, s, line)"
    using token_rest_word [OF u(1) assms(4)] by blast
  then show ?thesis using assms(3) t u(2) by (auto simp: getToken_def Let_def)
qed

lemma getToken_eof:
  assumes "no_space t" "t \<noteq> []" "rd_stream r = t"
  shows "\<exists>line. getToken r = ([], r\<lparr>rd_stream := [], rd_file_line := line\<rparr>)"
proof -
  obtain a u where t: "t = a # u" using assms(2) by (cases t) auto
  then have u: "no_space u" "\<not> c_isspace a" using assms(1) by (auto simp: no_space_def)
  obtain line where "token_rest [a] u (count_line a (rd_file_line r)) = ([], [], line)"
    using token_rest_eof [OF u(1)] by blast
  then show ?thesis using assms(3) t u(2) by (auto simp: getToken_def Let_def)
qed

text \<open>A token is a factor of the stream, and what follows it is a suffix.\<close>

lemma token_rest_split:
  "token_rest tok s line = (t, s', line') \<Longrightarrow>
   (t = [] \<and> s' = []) \<or> (\<exists>u c. t = tok @ u \<and> s = u @ c # s')"
proof (induction tok s line rule: token_rest.induct)
  case (2 tok ch s line)
  then show ?case by (cases "c_isspace ch") auto
qed simp

lemma token_start_split:
  "token_start s line = (t, s', line') \<Longrightarrow> (t = [] \<and> s' = []) \<or> (\<exists>w c. s = w @ t @ c # s')"
proof (induction s line rule: token_start.induct)
  case (2 ch s line)
  show ?case
  proof (cases "c_isspace ch")
    case True
    then have "(t = [] \<and> s' = []) \<or> (\<exists>w c. s = w @ t @ c # s')" using 2 by simp
    then show ?thesis by (metis append_Cons)
  next
    case False
    then have "(t = [] \<and> s' = []) \<or> (\<exists>u c. t = [ch] @ u \<and> s = u @ c # s')"
      using 2(2) token_rest_split [of "[ch]" s "count_line ch line" t s' line'] by simp
    then show ?thesis
      by (metis append_Cons append_Nil)
  qed
qed simp

fun no_neg_time :: "string \<Rightarrow> bool" where
  "no_neg_time (a # b # s) = (\<not> (a = CHR ''#'' \<and> b = CHR ''-'') \<and> no_neg_time (b # s))"
| "no_neg_time _ = True"

lemma no_neg_time_suffix: "no_neg_time (w @ s) \<Longrightarrow> no_neg_time s"
proof (induction w)
  case (Cons a w)
  then show ?case by (cases "w @ s") auto
qed simp

lemma no_neg_time_factor: "no_neg_time (w @ CHR ''#'' # t @ c # s) \<Longrightarrow> t \<noteq> [] \<Longrightarrow> hd t \<noteq> CHR ''-''"
  using no_neg_time_suffix [of w "CHR ''#'' # t @ c # s"] by (cases t) auto

lemma digits_val_nonneg:
  "0 \<le> acc \<Longrightarrow> 0 \<le> digits_val acc s"
  by (induction acc s rule: digits_val.induct) (auto simp: digit_val_def c_isdigit_def)

lemma c_stoll_nonneg: "c_stoll s = Inr n \<Longrightarrow> s = [] \<or> hd s \<noteq> CHR ''-'' \<Longrightarrow> 0 \<le> n"
  using digits_val_nonneg [of 0]
  by (auto simp: c_stoll_def Let_def simp del: digits_val.simps takeWhile.simps
      split: if_splits list.splits)

section \<open>Lemmas: the invariant of the reader\<close>

fun interval_chain :: "int \<Rightarrow> (int \<times> int) list \<Rightarrow> int \<Rightarrow> bool" where
  "interval_chain a [] b = (a = b)"
| "interval_chain a ((x, y) # ivs) b = (x = a \<and> interval_chain y ivs b)"

lemma interval_chain_snoc:
  "interval_chain a (ivs @ [(x, y)]) b \<longleftrightarrow> interval_chain a ivs x \<and> y = b"
  by (induction a ivs b rule: interval_chain.induct) auto

lemma interval_chain_last:
  "interval_chain a ivs b \<Longrightarrow> b = (if ivs = [] then a else snd (last ivs))"
  by (induction a ivs b rule: interval_chain.induct) auto

lemma interval_chain_next:
  "interval_chain 0 ivs b \<Longrightarrow> interval_chain 0 (ivs @ [(next_interval_start ivs, c)]) c"
  using interval_chain_last [of 0 ivs b] by (simp add: interval_chain_snoc next_interval_start_def)

definition vcd_inv :: "Vcd \<Rightarrow> bool" where
  "vcd_inv v \<longleftrightarrow> vcd_wf v \<and> vcd_min_delta_time v = 0 \<and>
     (vcd_time_intervals v = [] \<or> interval_chain 0 (vcd_time_intervals v) (vcd_time_max v + 1))"

definition rd_inv :: "VcdReader \<Rightarrow> bool" where
  "rd_inv r \<longleftrightarrow> no_neg_time (rd_stream r) \<and> 0 \<le> rd_time r \<and> vcd_inv (rd_vcd r)"

lemma getToken_inv:
  assumes "getToken r = (t, r')" "rd_inv r"
  shows "rd_inv r'" and "t = CHR ''#'' # u \<Longrightarrow> u \<noteq> [] \<Longrightarrow> hd u \<noteq> CHR ''-''"
proof -
  obtain s line where ts: "token_start (rd_stream r) (rd_file_line r) = (t, s, line)"
      and r': "r' = r\<lparr>rd_stream := s, rd_file_line := line\<rparr>"
    using assms(1) by (auto simp: getToken_def Let_def split: prod.splits)
  have neg: "no_neg_time (rd_stream r)" using assms(2) by (simp add: rd_inv_def)
  have split: "(t = [] \<and> s = []) \<or> (\<exists>w c. rd_stream r = w @ t @ c # s)"
    using token_start_split [OF ts] .
  have "no_neg_time s"
    using split neg no_neg_time_suffix by (metis append.assoc append_Cons append_Nil no_neg_time.simps(2))
  then show "rd_inv r'" using assms(2) r' by (simp add: rd_inv_def)
  show "hd u \<noteq> CHR ''-''" if "t = CHR ''#'' # u" "u \<noteq> []"
    using split neg that no_neg_time_factor by fastforce
qed

lemma readStmt_loop_inv: "readStmt_loop acc r = (ts, r') \<Longrightarrow> rd_inv r \<Longrightarrow> rd_inv r'"
proof (induction acc r rule: readStmt_loop.induct)
  case (1 acc r)
  then show ?case
    by (subst (asm) (2) readStmt_loop.simps)
       (force simp: Let_def split: prod.splits if_splits dest: getToken_inv(1))
qed

lemma readStmt_inv:
  "readStmtTokens r = (ts, r') \<Longrightarrow> rd_inv r \<Longrightarrow> rd_inv r'"
  "readStmtString r = (s, r') \<Longrightarrow> rd_inv r \<Longrightarrow> rd_inv r'"
proof -
  show t: "readStmtTokens r = (ts, r') \<Longrightarrow> rd_inv r \<Longrightarrow> rd_inv r'" for ts r'
    using readStmt_loop_inv [of "[]" "r\<lparr>rd_stmt_line := rd_file_line r\<rparr>" ts r']
    by (simp add: readStmtTokens_def rd_inv_def)
  show "readStmtString r = (s, r') \<Longrightarrow> rd_inv r \<Longrightarrow> rd_inv r'"
    using t by (auto simp: readStmtString_def split: prod.splits)
qed

lemma vcd_update_values_inv:
  assumes "vcd_update_values vid f v = Inr v'" "vcd_inv v" "vcd_wf v'"
  shows "vcd_inv v'"
  using assms by (auto simp: vcd_update_values_def vcd_inv_def split: option.splits)

lemma vcd_append_inv:
  "vcd_varAppendValue vid t c v = Inr v' \<Longrightarrow> vcd_inv v \<Longrightarrow> 0 \<le> t \<Longrightarrow> vcd_inv v'"
  "vcd_varAppendBusValue vid t b w v = Inr v' \<Longrightarrow> vcd_inv v \<Longrightarrow> 0 \<le> t \<Longrightarrow> vcd_inv v'"
  using vcd_append_wf vcd_update_values_inv
  unfolding vcd_varAppendValue_def vcd_varAppendBusValue_def vcd_inv_def by blast+


lemma c_toupper_hash: "c_toupper c = CHR ''#'' \<Longrightarrow> c = CHR ''#''"
proof (rule ccontr)
  assume up: "c_toupper c = CHR ''#''" and ne: "c \<noteq> CHR ''#''"
  then have "97 \<le> (of_char c :: nat)" "char_of ((of_char c :: nat) - 32) = CHR ''#''"
    by (auto simp: c_toupper_def split: if_splits)
  then have "of_char (char_of ((of_char c :: nat) - 32)) = (of_char (CHR ''#'') :: nat)" by simp
  then have "((of_char c :: nat) - 32) mod 256 = 35" by simp
  moreover have "(of_char c :: nat) < 256" by simp
  ultimately show False using \<open>97 \<le> (of_char c :: nat)\<close> by simp
qed

lemma parse_value_token_inv:
  assumes "parse_value_token token r = Inr (n, r')" "rd_inv r"
    and neg: "\<And>u. token = CHR ''#'' # u \<Longrightarrow> u \<noteq> [] \<Longrightarrow> hd u \<noteq> CHR ''-''"
  shows "rd_inv r'"
proof -
  define char0 where "char0 = c_toupper (char_at token 0)"
  consider (time) "char0 = CHR ''#''" "1 < length token"
    | (scalar) "char0 \<in> {CHR ''0'', CHR ''1'', CHR ''X'', CHR ''U'', CHR ''Z''}"
    | (bus) "char0 = CHR ''B''"
    | (other) "\<not> (char0 = CHR ''#'' \<and> 1 < length token)"
        "char0 \<notin> {CHR ''0'', CHR ''1'', CHR ''X'', CHR ''U'', CHR ''Z'', CHR ''B''}" by blast
  then show ?thesis
  proof cases
    case time
    have "char_at token 0 = CHR ''#''" using c_toupper_hash time by (simp add: char0_def)
    then obtain u where token: "token = CHR ''#'' # u" "u \<noteq> []"
      using time by (cases token) (auto simp: char_at_def)
    obtain t where t: "c_stoll u = Inr t"
      using assms(1) time token by (auto simp: parse_value_token_def Let_def char0_def)
    then have "0 \<le> t" using c_stoll_nonneg neg [OF token] by blast
    then show ?thesis
      using assms(1,2) time token t
      by (auto simp: parse_value_token_def Let_def char0_def rd_inv_def vcd_inv_def vcd_wf_def split: if_splits)
  next
    case scalar
    then obtain v where v: "vcd_varAppendValue (tl token) (rd_time r) char0 (rd_vcd r) = Inr v"
        "r' = r\<lparr>rd_vcd := v\<rparr>"
      using assms(1) by (auto simp: parse_value_token_def Let_def char0_def split: if_splits)
    then show ?thesis using assms(2) vcd_append_inv(1) by (auto simp: rd_inv_def)
  next
    case bus
    obtain vid r1 where g: "getToken r = (vid, r1)" by (cases "getToken r")
    have i1: "rd_inv r1" using getToken_inv(1) [OF g assms(2)] .
    obtain b v where v: "vcd_varAppendBusValue vid (rd_time r1) b (int (length token) - 1) (rd_vcd r1) = Inr v"
        "r' = r1\<lparr>rd_vcd := v\<rparr>"
      using assms(1) bus g by (auto simp: parse_value_token_def Let_def char0_def split: if_splits)
    then show ?thesis using i1 vcd_append_inv(2) by (auto simp: rd_inv_def)
  next
    case other
    then have "r' = r" using assms(1) by (auto simp: parse_value_token_def Let_def char0_def)
    then show ?thesis using assms(2) by simp
  qed
qed

lemma parse_values_loop_inv:
  assumes "parse_values_loop mx ivs n token r = Inr (ivs', r')" "rd_inv r"
    "\<And>u. token = CHR ''#'' # u \<Longrightarrow> u \<noteq> [] \<Longrightarrow> hd u \<noteq> CHR ''-''"
    "interval_chain 0 ivs b"
  shows "rd_inv r' \<and> (\<exists>b. interval_chain 0 ivs' b)"
  using assms
proof (induction mx ivs n token r arbitrary: b rule: parse_values_loop.induct)
  case (1 mx ivs n token r)
  show ?case
  proof (cases "token = []")
    case True
    then show ?thesis using 1 by (subst (asm) (3) parse_values_loop.simps) auto
  next
    case False
    then obtain np r1 where p: "parse_value_token token r = Inr (np, r1)"
      using 1(3) by (subst (asm) parse_values_loop.simps) (auto split: sum.splits)
    obtain t r2 where g: "getToken r1 = (t, r2)" by (cases "getToken r1")
    have i2: "rd_inv r2" and neg: "\<And>u. t = CHR ''#'' # u \<Longrightarrow> u \<noteq> [] \<Longrightarrow> hd u \<noteq> CHR ''-''"
      using getToken_inv [OF g] parse_value_token_inv [OF p 1(4,5)] by blast+
    have loop: "parse_values_loop mx ivs n token r =
        (if n + np > mx
         then parse_values_loop mx (ivs @ [(next_interval_start ivs, rd_time r2)]) 0 t r2
         else parse_values_loop mx ivs (n + np) t r2)"
      using False p g by (subst parse_values_loop.simps) (simp add: Let_def)
    show ?thesis
    proof (cases "n + np > mx")
      case True
      show ?thesis
        using 1(1) [OF False p refl g [symmetric] refl refl True _ i2 neg interval_chain_next [OF 1(6)]]
          1(3) loop True by simp
    next
      case over: False
      show ?thesis
        using 1(2) [OF False p refl g [symmetric] refl refl over _ i2 neg 1(6)] 1(3) loop over by simp
    qed
  qed
qed

lemma parseVarValues_inv:
  assumes "parseVarValues mx r = Inr r'" "rd_inv r"
  shows "rd_inv r'"
proof -
  obtain t r1 where g: "getToken r = (t, r1)" by (cases "getToken r")
  obtain ivs r2 where l: "parse_values_loop mx [] 0 t r1 = Inr (ivs, r2)"
    using assms(1) g by (auto simp: parseVarValues_def Let_def)
  have inv: "rd_inv r2 \<and> (\<exists>b. interval_chain 0 ivs b)"
    using getToken_inv [OF g assms(2)] by (intro parse_values_loop_inv [OF l]) auto
  define v where "v = (rd_vcd r2)\<lparr>vcd_time_max := rd_time r2\<rparr>"
  have "vcd_setTimeIntervals (ivs @ [(next_interval_start ivs, rd_time r2 + 1)]) v = Inr (rd_vcd r')"
      "r' = r2\<lparr>rd_vcd := rd_vcd r'\<rparr>"
    using assms(1) g l by (auto simp: parseVarValues_def Let_def v_def)
  then have v': "rd_vcd r' = v\<lparr>vcd_time_intervals := ivs @ [(next_interval_start ivs, rd_time r2 + 1)]\<rparr>"
    by (auto simp: vcd_setTimeIntervals_def split: if_splits)
  have "interval_chain 0 (ivs @ [(next_interval_start ivs, rd_time r2 + 1)]) (rd_time r2 + 1)"
    using inv interval_chain_next by blast
  then have "vcd_inv (rd_vcd r')"
    using inv by (simp add: v' v_def rd_inv_def vcd_inv_def vcd_wf_def)
  then show ?thesis using inv \<open>r' = r2\<lparr>rd_vcd := rd_vcd r'\<rparr>\<close> by (metis VcdReader.select_convs(1,5)
      VcdReader.surjective VcdReader.update_convs(4) rd_inv_def)
qed

lemma rd_setTimeUnit_inv: "rd_setTimeUnit u r = Inr r' \<Longrightarrow> rd_inv r \<Longrightarrow> rd_inv r'"
  by (auto simp: rd_setTimeUnit_def rd_inv_def vcd_inv_def vcd_wf_def vcd_setTimeUnit_def split: if_splits)

lemma rd_setTimeScale_inv: "rd_inv r \<Longrightarrow> rd_inv (rd_setTimeScale x r)"
  by (auto simp: rd_setTimeScale_def rd_inv_def vcd_inv_def vcd_wf_def)

lemma vcd_makeVar_inv: "vcd_inv v \<Longrightarrow> vcd_inv (vcd_makeVar name ty w vid v)"
  using vcd_makeVar_wf [of v] by (simp add: vcd_inv_def) (simp add: vcd_makeVar_def Let_def)

lemma parse_invs:
  assumes "rd_inv r"
  shows "parseTimescale r = Inr r' \<Longrightarrow> rd_inv r'" and "parseVar r = Inr r' \<Longrightarrow> rd_inv r'"
    and "parseScope r = Inr r' \<Longrightarrow> rd_inv r'" and "parseUpscope r = Inr r' \<Longrightarrow> rd_inv r'"
proof -
  obtain ts r1 where t: "readStmtTokens r = (ts, r1)" by (cases "readStmtTokens r")
  have i: "rd_inv r1" using readStmt_inv(1) [OF t assms] .
  show "parseTimescale r = Inr r' \<Longrightarrow> rd_inv r'"
    using i rd_setTimeUnit_inv rd_setTimeScale_inv
    by (auto simp: parseTimescale_def Let_def t split: if_splits)
  show "parseVar r = Inr r' \<Longrightarrow> rd_inv r'"
    using i vcd_makeVar_inv by (auto simp: parseVar_def Let_def t rd_inv_def split: if_splits option.splits)
  show "parseScope r = Inr r' \<Longrightarrow> rd_inv r'"
    using i by (auto simp: parseScope_def Let_def t rd_inv_def split: if_splits)
  show "parseUpscope r = Inr r' \<Longrightarrow> rd_inv r'"
    using i by (auto simp: parseUpscope_def Let_def t rd_inv_def split: if_splits)
qed

lemma read_command_inv:
  assumes "read_command mx token r = Inr r'" "rd_inv r"
  shows "rd_inv r'"
proof -
  obtain str r1 where t: "readStmtString r = (str, r1)" by (cases "readStmtString r")
  have i: "rd_inv r1" using readStmt_inv(2) [OF t assms(2)] .
  have date: "rd_inv (r1\<lparr>rd_vcd := (rd_vcd r1)\<lparr>vcd_date := str\<rparr>\<rparr>)"
      "rd_inv (r1\<lparr>rd_vcd := (rd_vcd r1)\<lparr>vcd_comment := str\<rparr>\<rparr>)"
      "rd_inv (r1\<lparr>rd_vcd := (rd_vcd r1)\<lparr>vcd_version := str\<rparr>\<rparr>)"
    using i by (simp_all add: rd_inv_def vcd_inv_def vcd_wf_def)
  show ?thesis
    using assms(1) i date parse_invs [OF assms(2)] parseVarValues_inv [OF _ assms(2)]
    by (auto simp: read_command_def t split: if_splits)
qed

lemma read_loop_inv: "read_loop mx token r = Inr r' \<Longrightarrow> rd_inv r \<Longrightarrow> rd_inv r'"
proof (induction mx token r rule: read_loop.induct)
  case (1 mx token r)
  show ?case
  proof (cases "token = []")
    case True
    then show ?thesis using 1 by (subst (asm) (2) read_loop.simps) auto
  next
    case False
    then obtain r1 where c: "read_command mx token r = Inr r1"
      using 1(2) by (subst (asm) read_loop.simps) (auto split: sum.splits)
    obtain t r2 where g: "getToken r1 = (t, r2)" by (cases "getToken r1")
    have loop: "read_loop mx token r = read_loop mx t r2"
      using False c g by (subst read_loop.simps) (simp add: Let_def)
    show ?thesis
      using 1(1) [OF False c g [symmetric] refl] 1(2,3) loop getToken_inv(1) [OF g]
        read_command_inv [OF c] by simp
  qed
qed

lemma readVcd_inv:
  assumes "readVcd mx (Some s) = Inr v" "no_neg_time s"
  shows "vcd_inv v"
proof -
  define r where "r = \<lparr>rd_stream = s, rd_file_line = 1, rd_stmt_line = 1, rd_vcd = vcd_empty,
                   rd_time = 0, rd_prev_time = 0, rd_scope = []\<rparr>"
  have "rd_inv r"
    using assms(2) by (simp add: r_def rd_inv_def vcd_inv_def vcd_wf_def vcd_empty_def)
  moreover obtain t r1 where g: "getToken r = (t, r1)" by (cases "getToken r")
  moreover obtain r2 where "read_loop mx t r1 = Inr r2" "v = rd_vcd r2"
    using assms(1) g by (auto simp: readVcd_def Let_def r_def)
  ultimately show ?thesis using getToken_inv(1) [OF g] read_loop_inv by (auto simp: rd_inv_def)
qed

section \<open>Lemmas: bus values\<close>

lemma bits_val_sum: "bits_val s = horner_sum of_bool 2 (map (\<lambda>c. c = CHR ''1'') (rev s))"
  by (induction s rule: rev_induct) (auto simp: bits_val_def)

lemma bits_val_bounds: "0 \<le> bits_val s" "bits_val s < 2 ^ length s"
proof -
  have "0 \<le> horner_sum of_bool (2 :: int) bs \<and> horner_sum of_bool (2 :: int) bs < 2 ^ length bs" for bs
    by (induction bs) auto
  from this [of "map (\<lambda>c. c = CHR ''1'') (rev s)"] show "0 \<le> bits_val s" "bits_val s < 2 ^ length s"
    by (simp_all add: bits_val_sum)
qed

lemma c_strtol2_bits:
  assumes "\<forall>c \<in> set s. c_isbit c"
  shows "c_strtol2 s = min (2 ^ 63 - 1) (bits_val s)"
proof -
  have "takeWhile c_isbit s = s" using assms by (simp add: takeWhile_eq_all_conv)
  moreover have "s \<noteq> [] \<Longrightarrow> hd s \<noteq> CHR ''-'' \<and> hd s \<noteq> CHR ''+''"
    using assms by (cases s) (auto simp: c_isbit_def)
  ultimately show ?thesis by (auto simp: c_strtol2_def Let_def simp del: takeWhile_eq_all_conv)
qed

lemma bit_bits_val:
  "bit (word_of_int (bits_val s) :: 64 word) k \<longleftrightarrow> k < 64 \<and> k < length s \<and> rev s ! k = CHR ''1''"
  by (auto simp: bits_val_sum bit_word_of_int_iff bit_horner_sum_bit_iff)

definition demo_vcd :: string where
  "demo_vcd = ''$var wire 1 ! a $end $dumpvars 0! #7 1! #9 ''"

lemmas read_eval =
  readVcd_def read_loop.simps parse_values_loop.simps readStmt_loop.simps getToken_def Let_def
  c_isspace_def count_line_def read_command_def parseVar_def readStmtTokens_def vcd_var_type_map_def
  c_stoi_def c_stoll_def c_isdigit_def digit_val_def var_full_name_def replaceAll.simps
  vcd_makeVar_def char_at_def parseVarValues_def parse_value_token_def c_toupper_def
  vcd_varIdValid_def vcd_varAppendValue_def vcd_update_values_def append_scalar_def vcd_empty_def
  vcd_setTimeIntervals_def next_interval_start_def bslash_def

lemma demo_read:
  "\<exists>v. readVcd 1 (Some demo_vcd) = Inr v \<and> vcd_time_max v = 9 \<and> vcd_time_intervals v = [(0, 7), (7, 10)] \<and>
     map_option (map vv_time) (vcd_id_values v ''!'') = Some [0, 7]"
  by (simp add: demo_vcd_def read_eval)

section \<open>Properties\<close>



text \<open>The shortest step of a parsed file is always zero: it starts at zero and is only ever
  lowered, so the time step of the waveform report is zero.\<close>

theorem readVcd_min_delta_zero:
  assumes "readVcd max_event_num (Some content) = Inr v" "no_neg_time content"
  shows "vcd_min_delta_time v = 0"
  using readVcd_inv [OF assms] by (simp add: vcd_inv_def)

theorem readVcd_min_delta_zero_witness:
  "\<exists>v. readVcd 1 (Some demo_vcd) = Inr v \<and> vcd_min_delta_time v = 0"
proof -
  from demo_read obtain v where
    v: "readVcd 1 (Some demo_vcd) = Inr v \<and> vcd_time_max v = 9 \<and> vcd_time_intervals v = [(0, 7), (7, 10)] \<and>
     map_option (map vv_time) (vcd_id_values v ''!'') = Some [0, 7]" ..
  have "no_neg_time demo_vcd" by (simp add: demo_vcd_def)
  from readVcd_min_delta_zero [OF conjunct1 [OF v] this] v show ?thesis by (intro exI [of _ v]) simp
qed

text \<open>Reading a statement returns its tokens. A statement written as tokens that are not empty, contain
  no white space and are not \<open>$end\<close>, each followed by a blank, and closed by \<open>$end\<close> and a white
  space character, is read back as these tokens, and the stream is left after it.\<close>

theorem readStmtTokens_roundtrip:
  assumes "\<forall>t \<in> set ts. no_space t \<and> t \<noteq> [] \<and> t \<noteq> ''$end''" and "c_isspace c"
    and "rd_stream r = concat (map (\<lambda>t. t @ '' '') ts) @ ''$end'' @ c # rest"
  shows "fst (readStmtTokens r) = ts \<and> rd_stream (snd (readStmtTokens r)) = rest"
proof -
  have "fst (readStmt_loop acc r) = acc @ ts \<and> rd_stream (snd (readStmt_loop acc r)) = rest"
    if "\<forall>t \<in> set ts. no_space t \<and> t \<noteq> [] \<and> t \<noteq> ''$end''"
      "rd_stream r = concat (map (\<lambda>t. t @ '' '') ts) @ ''$end'' @ c # rest" for acc r ts
    using that
  proof (induction ts arbitrary: acc r)
    case Nil
    have "no_space ''$end''" by (simp add: no_space_def c_isspace_def)
    then show ?case
      using getToken_word [of "''$end''" r c rest] Nil assms(2)
      by (subst (1 2) readStmt_loop.simps) auto
  next
    case (Cons t ts)
    have "c_isspace (CHR '' '')" by (simp add: c_isspace_def)
    then obtain line where g: "getToken r =
        (t, r\<lparr>rd_stream := concat (map (\<lambda>t. t @ '' '') ts) @ ''$end'' @ c # rest, rd_file_line := line\<rparr>)"
      using getToken_word [of t r "CHR '' ''" "concat (map (\<lambda>t. t @ '' '') ts) @ ''$end'' @ c # rest"] Cons.prems
      by auto
    show ?case
      using Cons.prems Cons.IH [of "r\<lparr>rd_stream := concat (map (\<lambda>t. t @ '' '') ts) @ ''$end'' @ c # rest,
          rd_file_line := line\<rparr>" "acc @ [t]"] g
      by (subst (1 2) readStmt_loop.simps) (simp add: Let_def)
  qed
  from this [of ts "r\<lparr>rd_stmt_line := rd_file_line r\<rparr>" "[]"] assms(1,3) show ?thesis
    by (simp add: readStmtTokens_def)
qed

definition demo_reader :: "string \<Rightarrow> VcdReader" where
  "demo_reader s = \<lparr>rd_stream = s, rd_file_line = 1, rd_stmt_line = 1, rd_vcd = vcd_empty,
     rd_time = 0, rd_prev_time = 0, rd_scope = []\<rparr>"

theorem readStmtTokens_roundtrip_witness:
  "fst (readStmtTokens (demo_reader ''wire 8 # $end x'')) = [''wire'', ''8'', ''#''] \<and>
   rd_stream (snd (readStmtTokens (demo_reader ''wire 8 # $end x''))) = ''x''"
  by (rule readStmtTokens_roundtrip [where c = "CHR '' ''"])
     (simp_all add: no_space_def c_isspace_def demo_reader_def)

text \<open>A token is read back when white space follows it, and is lost when the file ends right after it.\<close>

theorem token_lost_at_eof:
  assumes "no_space t" "t \<noteq> []" "rd_stream r = t @ rest" "rest = [] \<or> c_isspace (hd rest)"
  shows "fst (getToken r) = (if rest = [] then [] else t) \<and> rd_stream (snd (getToken r)) = tl rest"
proof (cases rest)
  case Nil
  then show ?thesis using getToken_eof [of t r] assms by auto
next
  case (Cons c s)
  then show ?thesis using getToken_word [of t r c s] assms by auto
qed

theorem token_lost_at_eof_witness:
  "fst (getToken (demo_reader ''#10'')) = [] \<and> rd_stream (snd (getToken (demo_reader ''#10''))) = []"
  using token_lost_at_eof [of "''#10''" "demo_reader ''#10''" "[]"]
  by (simp add: no_space_def c_isspace_def demo_reader_def)

text \<open>The bits of a bus value. A binary literal of at most 63 digits, most significant first, is
  stored so that reading bit k of the recorded value gives its k-th digit from the right, and 0 beyond it.\<close>

theorem bus_value_roundtrip:
  assumes "\<forall>c \<in> set s. c = CHR ''0'' \<or> c = CHR ''1''" and "length s \<le> 63" and "k < 64"
  shows "vv_value_bit \<lparr>vv_time = t, vv_value = null_char, vv_bus = word_of_int (c_strtol2 s), vv_width = w\<rparr> (int k)
       = Some (if k < length s then rev s ! k else CHR ''0'')"
proof -
  have "(2 :: int) ^ length s \<le> 2 ^ 63" using assms(2) by (intro power_increasing) auto
  then have "c_strtol2 s = bits_val s"
    using c_strtol2_bits [of s] bits_val_bounds [of s] assms(1) by (simp add: c_isbit_def)
  moreover have "rev s ! k = CHR ''0'' \<or> rev s ! k = CHR ''1''" if "k < length s"
    using assms(1) that nth_mem [of k "rev s"] by (metis length_rev set_rev)
  ultimately show ?thesis using assms(3) by (auto simp: vv_value_bit_def bit_bits_val)
qed

theorem bus_value_roundtrip_witness:
  "vv_value_bit \<lparr>vv_time = 3, vv_value = null_char, vv_bus = word_of_int (c_strtol2 ''0110''), vv_width = 4\<rparr> (int 1)
     = Some (CHR ''1'')"
  using bus_value_roundtrip [of "''0110''" 1 3 4] by simp

text \<open>A bus literal of 64 binary digits whose leading digit is 1 is saturated: whatever its other digits,
  the recorded value reads 0 in bit 63 and 1 in every other bit.\<close>

theorem bus_value_saturates:
  assumes "\<forall>c \<in> set s. c = CHR ''0'' \<or> c = CHR ''1''" and "length s = 64" and "hd s = CHR ''1''" and "k < 64"
  shows "vv_value_bit \<lparr>vv_time = t, vv_value = null_char, vv_bus = word_of_int (c_strtol2 s), vv_width = w\<rparr> (int k)
       = Some (if k < 63 then CHR ''1'' else CHR ''0'')"
proof -
  obtain s' where s: "s = CHR ''1'' # s'" "length s' = 63" using assms(2,3) by (cases s) auto
  have "bits_val s = 2 ^ 63 + bits_val s'"
    using s by (simp add: bits_val_sum horner_sum_append)
  then have "c_strtol2 s = 2 ^ 63 - 1"
    using c_strtol2_bits [of s] bits_val_bounds(1) [of s'] assms(1) by (simp add: c_isbit_def)
  moreover have "bit (word_of_int (2 ^ 63 - 1) :: 64 word) k \<longleftrightarrow> k < 63"
    using assms(4) bit_mask_iff [of 63 k, where ?'a = int]
    by (simp only: bit_word_of_int_iff mask_eq_exp_minus_1) simp
  ultimately show ?thesis using assms(4) by (simp add: vv_value_bit_def)
qed

theorem bus_value_saturates_witness:
  "vv_value_bit \<lparr>vv_time = 3, vv_value = null_char,
      vv_bus = word_of_int (c_strtol2 (CHR ''1'' # replicate 63 (CHR ''0''))), vv_width = 64\<rparr> (int 62) = Some (CHR ''1'')"
  using bus_value_saturates [of "CHR ''1'' # replicate 63 (CHR ''0'')" 62 3 64] by simp

end
