(* ===== verification/GTP_Activity.thy ===== *)
theory GTP_Activity
  imports GTP_VcdReader
begin

text \<open>
  Annotation of pin activities from a waveform file: \<open>power/ReadVcdActivities.cc\<close>. The network is
  reached through its name look-ups, which are parameters (\<open>NetEnv\<close>). Reading a bit of a value is
  undefined for a bit of 64 or more, so the functions that walk a waveform first read the bit of
  every change (\<open>bit_changes\<close>) and are \<open>None\<close> if one is undefined.
\<close>

section \<open>Files and variables\<close>

definition hasExtension :: "string option \<Rightarrow> string \<Rightarrow> bool" where
  "hasExtension filename extension =
     (let file_name = (case filename of None \<Rightarrow> [] | Some s \<Rightarrow> s) in
      length extension \<le> length file_name \<and>
      drop (length file_name - length extension) file_name = extension)"

datatype activity_format = AF_fsdb | AF_vcd

definition activity_file_format :: "string option \<Rightarrow> activity_format option" where
  "activity_file_format filename =
     (if hasExtension filename ''.fsdb'' then Some AF_fsdb
      else if hasExtension filename ''.vcd'' \<or> hasExtension filename ''.vcd.gz'' then Some AF_vcd
      else None)"

definition isDigitalVar :: "VcdVar \<Rightarrow> bool" where
  "isDigitalVar var \<longleftrightarrow>
     vr_type var = VT_wire \<or> vr_type var = VT_reg \<or> vr_type var = VT_tri \<or> vr_type var = VT_triand
     \<or> vr_type var = VT_trior \<or> vr_type var = VT_trireg \<or> vr_type var = VT_tri0
     \<or> vr_type var = VT_tri1 \<or> vr_type var = VT_wand \<or> vr_type var = VT_wor"

section \<open>Counting events\<close>

definition bit_changes :: "VcdValue list \<Rightarrow> int \<Rightarrow> (int \<times> char) list option" where
  "bit_changes vs value_bit =
     those (map (\<lambda>v. map_option (Pair (vv_time v)) (vv_value_bit v value_bit)) vs)"

fun count_loop :: "char \<Rightarrow> (int \<times> char) list \<Rightarrow> nat \<Rightarrow> nat" where
  "count_loop prev_value [] event_count = event_count"
| "count_loop prev_value ((t, val) # chs) event_count =
     count_loop val chs (if val \<noteq> prev_value then event_count + 1 else event_count)"

definition eventCount_all :: "(int \<times> char) list \<Rightarrow> nat" where
  "eventCount_all chs = (if chs = [] then 0 else count_loop (snd (chs ! 0)) chs 0)"

text \<open>\<open>std::lower_bound\<close> on the times.\<close>

definition eventIndexAtOrAfter :: "(int \<times> char) list \<Rightarrow> int \<Rightarrow> nat" where
  "eventIndexAtOrAfter chs time =
     nat (lower_bound_loop (\<lambda>i. fst (chs ! nat i) < time) 0 (int (length chs)))"

definition eventCount_between :: "(int \<times> char) list \<Rightarrow> int \<Rightarrow> int \<Rightarrow> nat" where
  "eventCount_between chs start_time end_time =
     (if chs = [] \<or> end_time \<le> start_time then 0
      else let event_idx = eventIndexAtOrAfter chs start_time;
               end_idx = eventIndexAtOrAfter chs end_time in
           if end_idx \<le> event_idx then 0
           else count_loop (if event_idx = 0 then snd (chs ! event_idx) else snd (chs ! (event_idx - 1)))
                  (take (end_idx - event_idx) (drop event_idx chs)) 0)"

text \<open>The number of cycles of a time span; \<open>None\<close> for the infinite period of a design without clocks.\<close>

definition nCycle_all :: "Vcd \<Rightarrow> real option \<Rightarrow> real" where
  "nCycle_all v clk_period =
     (case clk_period of
        None \<Rightarrow> 0
      | Some p \<Rightarrow> if p \<le> 0 then 0 else of_int (vcd_time_max v) * vcd_time_scale v / p)"

definition nCycle_between :: "Vcd \<Rightarrow> real option \<Rightarrow> int \<Rightarrow> int \<Rightarrow> real" where
  "nCycle_between v clk_period start_time end_time =
     (case clk_period of
        None \<Rightarrow> 0
      | Some p \<Rightarrow>
          if p \<le> 0 \<or> end_time \<le> start_time then 0
          else let clamped_start = min (if start_time < 0 then 0 else start_time) (vcd_time_max v);
                   clamped_end = min (if end_time < 0 then 0 else end_time) (vcd_time_max v)
               in if clamped_end \<le> clamped_start then 0
                  else of_int (clamped_end - clamped_start) * vcd_time_scale v / p)"

section \<open>Activity and duty\<close>

fun activity_loop ::
  "(int \<times> char) list \<Rightarrow> int \<Rightarrow> char \<Rightarrow> int \<Rightarrow> real \<Rightarrow> int \<times> char \<times> int \<times> real" where
  "activity_loop [] prev_time prev_value high_time count = (prev_time, prev_value, high_time, count)"
| "activity_loop ((time, val) # chs) prev_time prev_value high_time count =
     activity_loop chs time val
       (if prev_value = CHR ''1'' then high_time + (time - prev_time) else high_time)
       (if val \<noteq> prev_value
        then count + (if val = CHR ''X'' \<or> val = CHR ''Z'' \<or> prev_value = CHR ''X'' \<or> prev_value = CHR ''Z''
                      then 1/2 else 1)
        else count)"

text \<open>Transition count, activity and duty. The first change is read before the loop.\<close>

definition findVarActivity :: "Vcd \<Rightarrow> real \<Rightarrow> (int \<times> char) list \<Rightarrow> (real \<times> real \<times> real) option" where
  "findVarActivity v clk_period chs =
     (if chs = [] then None
      else let (prev_time, prev_value, high, transition_count) =
                 activity_loop chs (fst (chs ! 0)) (snd (chs ! 0)) 0 0;
               time_max = vcd_time_max v;
               high_time = (if prev_value = CHR ''1'' then high + (time_max - prev_time) else high);
               duty = of_int high_time / of_int time_max;
               activity = transition_count / (of_int time_max * vcd_time_scale v / clk_period)
           in Some (transition_count, activity, duty))"

text \<open>The simulated period of a clock differs from a constraint by more than a tenth.\<close>

definition clkPeriodMismatch :: "Vcd \<Rightarrow> real \<Rightarrow> real \<Rightarrow> bool" where
  "clkPeriodMismatch v transition_count clk_period =
     (let sim_period = of_int (vcd_time_max v) * vcd_time_scale v / (transition_count / 2) in
      \<bar>(clk_period - sim_period) / clk_period\<bar> > 1/10)"

section \<open>Annotation\<close>

datatype PwrActivityOrigin =
  PO_global | PO_input | PO_user | PO_vcd | PO_propagated | PO_clock | PO_constant | PO_defaulted
  | PO_unknown

record PwrActivity =
  pa_activity :: real
  pa_duty :: real
  pa_origin :: PwrActivityOrigin
  pa_values :: "VcdValue list"
  pa_value_bit :: int

type_synonym PinId = nat

record NetEnv =
  ne_findNet :: "string \<Rightarrow> nat option"
  ne_netPins :: "nat \<Rightarrow> PinId list"
  ne_findPin :: "string \<Rightarrow> PinId option"
  ne_isLeafPinClock :: "PinId \<Rightarrow> bool"

text \<open>
  The state of the annotation: the user activities of the power engine and the annotated pins.
  \<open>need_activity\<close> is \<open>!enable_time_based_analysis || report_vcd_stat\<close>. The statistics are computed
  when they are needed; reading an undefined bit or an empty waveform there is \<open>None\<close>.
\<close>

record ActState =
  as_user :: "PinId \<rightharpoonup> PwrActivity"
  as_annotated :: "PinId set"

definition setPinActivity ::
  "NetEnv \<Rightarrow> Vcd \<Rightarrow> real \<Rightarrow> bool \<Rightarrow> PinId \<Rightarrow> VcdValue list \<Rightarrow> int \<Rightarrow> ActState \<Rightarrow> ActState option"
where
  "setPinActivity env v clk_period need_activity pin vals value_bit st =
     (let is_clock = ne_isLeafPinClock env pin;
          stats = (if need_activity \<or> is_clock
                   then Option.bind (bit_changes vals value_bit) (findVarActivity v clk_period)
                   else Some (0, 0, 0))
      in case stats of
           None \<Rightarrow> None
         | Some (transition_count, activity, duty) \<Rightarrow>
             Some (st\<lparr>as_user := (as_user st)(pin \<mapsto>
                         \<lparr>pa_activity = activity, pa_duty = duty, pa_origin = PO_vcd, pa_values = vals,
                          pa_value_bit = value_bit\<rparr>),
                      as_annotated := insert pin (as_annotated st)\<rparr>))"

fun setPinActivities ::
  "NetEnv \<Rightarrow> Vcd \<Rightarrow> real \<Rightarrow> bool \<Rightarrow> PinId list \<Rightarrow> VcdValue list \<Rightarrow> int \<Rightarrow> ActState \<Rightarrow> ActState option"
where
  "setPinActivities env v p need [] vals value_bit st = Some st"
| "setPinActivities env v p need (pin # pins) vals value_bit st =
     Option.bind (setPinActivity env v p need pin vals value_bit st)
       (setPinActivities env v p need pins vals value_bit)"

text \<open>A net is annotated first, then a pin, then the pin of the name with its last escaped divider
  unescaped; a name that matches nothing is skipped with a warning.\<close>

definition setVarActivity_pin ::
  "NetEnv \<Rightarrow> Vcd \<Rightarrow> real \<Rightarrow> bool \<Rightarrow> string \<Rightarrow> VcdValue list \<Rightarrow> int \<Rightarrow> ActState \<Rightarrow> ActState option"
where
  "setVarActivity_pin env v p need pin_name vals value_bit st =
     (case ne_findNet env pin_name of
        Some net \<Rightarrow> setPinActivities env v p need (ne_netPins env net) vals value_bit st
      | None \<Rightarrow>
          (case ne_findPin env pin_name of
             Some pin \<Rightarrow> setPinActivity env v p need pin vals value_bit st
           | None \<Rightarrow>
               (case ne_findPin env (fst (replaceLast pin_name ([bslash] @ ''/'') ''/'')) of
                  Some pin \<Rightarrow> setPinActivity env v p need pin vals value_bit st
                | None \<Rightarrow> Some st)))"

text \<open>The bits of a bus in annotation order, with the bit of the waveform value each one reads.\<close>

function bus_bits_up :: "int \<Rightarrow> int \<Rightarrow> int \<Rightarrow> (int \<times> int) list" where
  "bus_bits_up bus_bit from_bit value_bit =
     (if bus_bit \<le> from_bit then (bus_bit, value_bit) # bus_bits_up (bus_bit + 1) from_bit (value_bit + 1)
      else [])"
  by pat_completeness auto
termination by (relation "measure (\<lambda>(b, f, v). nat (f + 1 - b))") auto

function bus_bits_down :: "int \<Rightarrow> int \<Rightarrow> int \<Rightarrow> (int \<times> int) list" where
  "bus_bits_down bus_bit from_bit value_bit =
     (if from_bit \<le> bus_bit then (bus_bit, value_bit) # bus_bits_down (bus_bit - 1) from_bit (value_bit + 1)
      else [])"
  by pat_completeness auto
termination by (relation "measure (\<lambda>(b, f, v). nat (b + 1 - f))") auto

declare bus_bits_up.simps [simp del] bus_bits_down.simps [simp del]

definition bus_bits :: "int \<Rightarrow> int \<Rightarrow> (int \<times> int) list" where
  "bus_bits from_bit to_bit =
     (if to_bit < from_bit then bus_bits_up to_bit from_bit 0 else bus_bits_down to_bit from_bit 0)"

definition bus_bit_name :: "string \<Rightarrow> int \<Rightarrow> string" where
  "bus_bit_name sta_bus_name bus_bit = sta_bus_name @ ''['' @ c_to_string bus_bit @ '']''"

fun setBusActivity ::
  "NetEnv \<Rightarrow> Vcd \<Rightarrow> real \<Rightarrow> bool \<Rightarrow> string \<Rightarrow> VcdValue list \<Rightarrow> (int \<times> int) list \<Rightarrow> ActState \<Rightarrow> ActState option"
where
  "setBusActivity env v p need sta_bus_name vals [] st = Some st"
| "setBusActivity env v p need sta_bus_name vals ((bus_bit, value_bit) # bits) st =
     Option.bind (setVarActivity_pin env v p need (bus_bit_name sta_bus_name bus_bit) vals value_bit st)
       (setBusActivity env v p need sta_bus_name vals bits)"

text \<open>With a wildcard subscript the bounds are not set: reading them is undefined.\<close>

definition setVarActivity ::
  "NetEnv \<Rightarrow> Vcd \<Rightarrow> real \<Rightarrow> bool \<Rightarrow> VcdVar \<Rightarrow> string \<Rightarrow> VcdValue list \<Rightarrow> ActState \<Rightarrow> ActState option"
where
  "setVarActivity env v p need var var_name vals st =
     (if vr_width var = 1 then setVarActivity_pin env v p need (netVerilogToSta var_name) vals 0 st
      else case parseBusRange var_name (CHR ''['') (CHR '']'') bslash [] of
          Inl e \<Rightarrow> None
        | Inr None \<Rightarrow> Some st
        | Inr (Some (bus_name, BusRange from_bit to_bit)) \<Rightarrow>
            setBusActivity env v p need (netVerilogToSta bus_name) vals (bus_bits from_bit to_bit) st
        | Inr (Some (bus_name, BusBit i)) \<Rightarrow>
            setBusActivity env v p need (netVerilogToSta bus_name) vals (bus_bits i i) st
        | Inr (Some (bus_name, BusWild)) \<Rightarrow> None)"

text \<open>
  The scope prefix is removed with the divider after it; \<open>substr\<close> past the end of the name throws.
\<close>

definition scoped_name :: "string \<Rightarrow> string \<Rightarrow> string option option" where
  "scoped_name scope name =
     (if scope = [] then Some (Some name)
      else if take (length scope) name = scope
      then (if length scope + 1 \<le> length name then Some (Some (drop (length scope + 1) name)) else None)
      else Some None)"

fun setActivities_loop ::
  "NetEnv \<Rightarrow> Vcd \<Rightarrow> real \<Rightarrow> bool \<Rightarrow> string \<Rightarrow> VcdVar list \<Rightarrow> ActState \<Rightarrow> ActState option" where
  "setActivities_loop env v p need scope [] st = Some st"
| "setActivities_loop env v p need scope (var # vars) st =
     (case vcd_values var v of
        Inl e \<Rightarrow> None
      | Inr vals \<Rightarrow>
          if vals \<noteq> [] \<and> (vr_type var = VT_wire \<or> vr_type var = VT_reg) then
            (case scoped_name scope (vr_name var) of
               None \<Rightarrow> None
             | Some None \<Rightarrow> setActivities_loop env v p need scope vars st
             | Some (Some var_name) \<Rightarrow>
                 Option.bind (setVarActivity env v p need var var_name vals st)
                   (setActivities_loop env v p need scope vars))
          else setActivities_loop env v p need scope vars st)"

definition setActivities ::
  "NetEnv \<Rightarrow> Vcd \<Rightarrow> real \<Rightarrow> bool \<Rightarrow> string \<Rightarrow> ActState \<Rightarrow> ActState option" where
  "setActivities env v p need scope st = setActivities_loop env v p need scope (vcd_vars v) st"

section \<open>Lemmas: counting\<close>

text \<open>The changes of a bit with an index in \<open>[lo, hi)\<close>; the first element is no change.\<close>

definition changes_in :: "(int \<times> char) list \<Rightarrow> nat \<Rightarrow> nat \<Rightarrow> nat" where
  "changes_in chs lo hi = card {i. lo \<le> i \<and> i < hi \<and> 0 < i \<and> snd (chs ! i) \<noteq> snd (chs ! (i - 1))}"

lemma changes_in_Suc:
  assumes "lo < hi"
  shows "changes_in chs lo hi =
    (if 0 < lo \<and> snd (chs ! lo) \<noteq> snd (chs ! (lo - 1)) then 1 else 0) + changes_in chs (Suc lo) hi"
proof -
  have "{i. lo \<le> i \<and> i < hi \<and> 0 < i \<and> snd (chs ! i) \<noteq> snd (chs ! (i - 1))} =
      (if 0 < lo \<and> snd (chs ! lo) \<noteq> snd (chs ! (lo - 1)) then {lo} else {}) \<union>
      {i. Suc lo \<le> i \<and> i < hi \<and> 0 < i \<and> snd (chs ! i) \<noteq> snd (chs ! (i - 1))}"
    using assms by (auto simp: le_less Suc_le_eq)
  then show ?thesis by (auto simp: changes_in_def card_insert_if)
qed

lemma changes_in_empty: "hi \<le> lo \<Longrightarrow> changes_in chs lo hi = 0"
  by (simp add: changes_in_def)

lemma changes_in_add:
  assumes "a \<le> b" "b \<le> c"
  shows "changes_in chs a b + changes_in chs b c = changes_in chs a c"
proof -
  let ?C = "\<lambda>lo hi. {i. lo \<le> i \<and> i < hi \<and> 0 < i \<and> snd (chs ! i) \<noteq> snd (chs ! (i - 1))}"
  have "?C a c = ?C a b \<union> ?C b c" using assms by auto
  moreover have "?C a b \<inter> ?C b c = {}" by auto
  ultimately show ?thesis by (simp add: changes_in_def card_Un_disjoint)
qed

lemma count_loop_changes:
  assumes "lo \<le> hi" "hi \<le> length chs"
  shows "count_loop (if lo = 0 then snd (chs ! lo) else snd (chs ! (lo - 1)))
           (take (hi - lo) (drop lo chs)) n = n + changes_in chs lo hi"
  using assms
proof (induction "hi - lo" arbitrary: lo n)
  case 0
  then show ?case by (simp add: changes_in_empty)
next
  case (Suc k)
  then have lo: "lo < hi" "lo < length chs" by simp_all
  have "take (hi - lo) (drop lo chs) = chs ! lo # take (hi - Suc lo) (drop (Suc lo) chs)"
    using lo by (simp add: Cons_nth_drop_Suc [symmetric] take_Cons' Suc_diff_Suc)
  moreover obtain t c where c: "chs ! lo = (t, c)" by (cases "chs ! lo")
  moreover have "k = hi - Suc lo" using Suc.hyps(2) by simp
  ultimately show ?case
    using Suc.hyps(1) [of "Suc lo" "if c \<noteq> (if lo = 0 then snd (chs ! lo) else snd (chs ! (lo - 1))) then n + 1 else n"]
      Suc.prems lo changes_in_Suc [OF lo(1), of chs]
    by (cases "lo = 0") simp_all
qed

lemma eventCount_all_changes: "eventCount_all chs = changes_in chs 0 (length chs)"
  using count_loop_changes [of 0 "length chs" chs 0]
  by (auto simp: eventCount_all_def changes_in_empty)

text \<open>The type of the waveforms of one bit: their times increase strictly, so they can be searched.\<close>

typedef timeline = "{chs :: (int \<times> char) list. sorted_wrt (<) (map fst chs)}"
  by (rule exI [of _ "[]"]) simp

lemma timeline_sorted:
  "i < j \<Longrightarrow> j < length (Rep_timeline w) \<Longrightarrow> fst (Rep_timeline w ! i) < fst (Rep_timeline w ! j)"
  using Rep_timeline [of w] by (auto simp: sorted_wrt_iff_nth_less)

interpretation timeline_search:
  search_predicate "\<lambda>i. fst (Rep_timeline w ! nat i) < t" 0 "int (length (Rep_timeline w))" for w t
proof
  fix i j :: int
  assume "0 \<le> i" "i \<le> j" "j < int (length (Rep_timeline w))" "fst (Rep_timeline w ! nat j) < t"
  moreover from this have "nat j < length (Rep_timeline w)" by linarith
  ultimately show "fst (Rep_timeline w ! nat i) < t"
    using timeline_sorted [of "nat i" "nat j" w] by (cases "i = j") auto
qed simp

lemma eventIndex_iff:
  assumes "sorted_wrt (<) (map fst chs)"
  shows "eventIndexAtOrAfter chs t \<le> length chs"
    and "i < length chs \<Longrightarrow> fst (chs ! i) < t \<longleftrightarrow> i < eventIndexAtOrAfter chs t"
proof -
  define w where "w = Abs_timeline chs"
  have w: "Rep_timeline w = chs" using assms by (simp add: w_def Abs_timeline_inverse)
  note bounds = timeline_search.search_bounds [of w t, unfolded w]
  show "eventIndexAtOrAfter chs t \<le> length chs"
    using bounds by (simp add: eventIndexAtOrAfter_def)
  show "fst (chs ! i) < t \<longleftrightarrow> i < eventIndexAtOrAfter chs t" if "i < length chs"
    using that bounds timeline_search.search_iff [of "int i" w t, unfolded w]
    by (auto simp: eventIndexAtOrAfter_def)
qed

lemma eventIndex_mono:
  assumes "sorted_wrt (<) (map fst chs)" "s \<le> t"
  shows "eventIndexAtOrAfter chs s \<le> eventIndexAtOrAfter chs t"
proof (rule ccontr)
  assume "\<not> ?thesis"
  moreover define i where "i = eventIndexAtOrAfter chs t"
  ultimately have i: "i < eventIndexAtOrAfter chs s" "i < length chs"
    using eventIndex_iff(1) [OF assms(1), of s] by auto
  then show False
    using eventIndex_iff(2) [OF assms(1) i(2), of s] eventIndex_iff(2) [OF assms(1) i(2), of t] assms(2)
    by (auto simp: i_def)
qed

lemma eventIndex_ends:
  assumes "sorted_wrt (<) (map fst chs)"
  shows "(\<And>c. c \<in> set chs \<Longrightarrow> t \<le> fst c) \<Longrightarrow> eventIndexAtOrAfter chs t = 0"
    and "(\<And>c. c \<in> set chs \<Longrightarrow> fst c < t) \<Longrightarrow> eventIndexAtOrAfter chs t = length chs"
proof -
  show "eventIndexAtOrAfter chs t = 0" if "\<And>c. c \<in> set chs \<Longrightarrow> t \<le> fst c"
    using eventIndex_iff(1) [OF assms, of t] eventIndex_iff(2) [OF assms, of 0 t] that [of "chs ! 0"]
    by (cases chs) auto
  show "eventIndexAtOrAfter chs t = length chs" if "\<And>c. c \<in> set chs \<Longrightarrow> fst c < t"
    using eventIndex_iff(1) [OF assms, of t] eventIndex_iff(2) [OF assms, of "eventIndexAtOrAfter chs t" t]
      that nth_mem by (metis le_neq_implies_less less_irrefl)
qed

lemma eventCount_between_changes:
  assumes "sorted_wrt (<) (map fst chs)" "s \<le> e"
  shows "eventCount_between chs s e = changes_in chs (eventIndexAtOrAfter chs s) (eventIndexAtOrAfter chs e)"
proof (cases "chs = [] \<or> e \<le> s \<or> eventIndexAtOrAfter chs e \<le> eventIndexAtOrAfter chs s")
  case True
  then show ?thesis
    using assms(2) eventIndex_iff(1) [OF assms(1), of e]
    by (auto simp: eventCount_between_def Let_def changes_in_empty)
next
  case False
  then show ?thesis
    using count_loop_changes [of "eventIndexAtOrAfter chs s" "eventIndexAtOrAfter chs e" chs 0]
      eventIndex_iff(1) [OF assms(1), of e]
    by (simp add: eventCount_between_def Let_def)
qed

lemma chain_counts:
  assumes "interval_chain a ivs b" "\<forall>(s, e) \<in> set ivs. s \<le> e" "sorted_wrt (<) (map fst chs)"
  shows "a \<le> b \<and> (\<Sum>(s, e) \<leftarrow> ivs. eventCount_between chs s e) =
    changes_in chs (eventIndexAtOrAfter chs a) (eventIndexAtOrAfter chs b)"
  using assms
proof (induction a ivs b rule: interval_chain.induct)
  case (1 a b)
  then show ?case by (simp add: changes_in_empty)
next
  case (2 a x y ivs b)
  then have IH: "y \<le> b" "(\<Sum>(s, e) \<leftarrow> ivs. eventCount_between chs s e) =
      changes_in chs (eventIndexAtOrAfter chs y) (eventIndexAtOrAfter chs b)" and xy: "x = a" "x \<le> y"
    by auto
  have "changes_in chs (eventIndexAtOrAfter chs a) (eventIndexAtOrAfter chs y) +
      changes_in chs (eventIndexAtOrAfter chs y) (eventIndexAtOrAfter chs b) =
      changes_in chs (eventIndexAtOrAfter chs a) (eventIndexAtOrAfter chs b)"
    using xy IH(1) eventIndex_mono [OF 2(4)] by (intro changes_in_add) auto
  then show ?case using xy IH eventCount_between_changes [OF 2(4), of x y] by simp
qed

lemma bit_changes_spec:
  "bit_changes vs k = Some chs \<Longrightarrow>
   map fst chs = map vv_time vs \<and> list_all2 (\<lambda>v ch. vv_value_bit v k = Some (snd ch)) vs chs"
proof (induction vs arbitrary: chs)
  case (Cons v vs)
  then obtain c chs' where "vv_value_bit v k = Some c" "bit_changes vs k = Some chs'"
      "chs = (vv_time v, c) # chs'"
    by (auto simp: bit_changes_def split: option.splits)
  then show ?case using Cons.IH by simp
qed (simp add: bit_changes_def)

section \<open>Lemmas: duty\<close>

text \<open>The number of time units of \<open>[a, b)\<close> in which a predicate holds.\<close>

definition units :: "(int \<Rightarrow> bool) \<Rightarrow> int \<Rightarrow> int \<Rightarrow> int" where
  "units Q a b = int (card {t. a \<le> t \<and> t < b \<and> Q t})"

lemma units_finite: "finite {t :: int. a \<le> t \<and> t < b \<and> Q t}"
  by (rule finite_subset [of _ "{a..<b}"]) auto

lemma units_split:
  assumes "a \<le> b" "b \<le> c"
  shows "units Q a c = units Q a b + units Q b c"
proof -
  have "{t. a \<le> t \<and> t < c \<and> Q t} = {t. a \<le> t \<and> t < b \<and> Q t} \<union> {t. b \<le> t \<and> t < c \<and> Q t}"
    using assms by auto
  moreover have "{t. a \<le> t \<and> t < b \<and> Q t} \<inter> {t. b \<le> t \<and> t < c \<and> Q t} = {}" by auto
  ultimately show ?thesis by (simp add: units_def card_Un_disjoint units_finite)
qed

lemma units_cong: "(\<And>t. a \<le> t \<Longrightarrow> t < b \<Longrightarrow> Q t = R t) \<Longrightarrow> units Q a b = units R a b"
  unfolding units_def by (metis (mono_tags, lifting) Collect_cong)

lemma units_const: "a \<le> b \<Longrightarrow> units (\<lambda>t. q) a b = (if q then b - a else 0)"
proof -
  have "{t. a \<le> t \<and> t < b} = {a..<b}" by auto
  then show "a \<le> b \<Longrightarrow> ?thesis" by (simp add: units_def)
qed

lemma units_bounds: "a \<le> b \<Longrightarrow> 0 \<le> units Q a b \<and> units Q a b \<le> b - a"
proof -
  assume ab: "a \<le> b"
  have "card {t. a \<le> t \<and> t < b \<and> Q t} \<le> card {a..<b}" by (rule card_mono) auto
  then show ?thesis using ab by (simp add: units_def)
qed

lemma activity_loop_high:
  assumes "activity_loop chs pt pv h n = (pt', pv', h', n')" "sorted (map fst chs)"
    "\<forall>c \<in> set chs. pt \<le> fst c \<and> fst c \<le> T" "pt \<le> T"
  shows "h' + (if pv' = CHR ''1'' then T - pt' else 0) =
    h + units (\<lambda>t. at_time fst snd pv chs t = CHR ''1'') pt T"
  using assms
proof (induction chs arbitrary: pt pv h n)
  case Nil
  then show ?case using units_const [of pt T "pv = CHR ''1''"] by (simp add: at_time_def)
next
  case (Cons ch chs)
  obtain u c where ch: "ch = (u, c)" by (cases ch)
  define Q where "Q = (\<lambda>t. at_time fst snd pv (ch # chs) t = CHR ''1'')"
  have ge: "\<forall>c \<in> set chs. u \<le> fst c" using Cons.prems(2) ch by auto
  have "units Q pt u = units (\<lambda>t. pv = CHR ''1'') pt u"
    using ge ch by (intro units_cong) (auto simp: Q_def at_time_def Let_def filter_empty_conv)
  then have 1: "units Q pt u = (if pv = CHR ''1'' then u - pt else 0)"
    using units_const [of pt u] Cons.prems(3) ch by simp
  have 2: "units Q u T = units (\<lambda>t. at_time fst snd c chs t = CHR ''1'') u T"
    using ch by (intro units_cong) (auto simp: Q_def at_time_def Let_def)
  have "units Q pt T = units Q pt u + units Q u T"
    using Cons.prems(3) ch by (intro units_split) auto
  then show ?case
    using Cons.IH [of u c "if pv = CHR ''1'' then h + (u - pt) else h"] Cons.prems ge ch 1 2
    by (simp add: Q_def)
qed

lemma activity_loop_count:
  assumes "activity_loop chs pt pv h n = (pt', pv', h', n')"
  shows "n \<le> n' \<and> n' \<le> n + real (count_loop pv chs 0)"
proof -
  have shift: "count_loop pv chs (Suc k) = Suc (count_loop pv chs k)" for pv chs k
    by (induction pv chs k rule: count_loop.induct) auto
  show ?thesis
    using assms
  proof (induction chs pt pv h n rule: activity_loop.induct)
    case (2 time val chs pt pv h n)
    then show ?case by (auto simp: shift split: if_splits)
  qed simp
qed

section \<open>Lemmas: bus bits\<close>

lemma bus_bits_up_map:
  "bus_bits_up b f vb = map (\<lambda>i. (b + int i, vb + int i)) [0..<nat (f + 1 - b)]"
proof (induction b f vb rule: bus_bits_up.induct)
  case (1 b f vb)
  show ?case
  proof (cases "b \<le> f")
    case True
    then have "nat (f + 1 - b) = Suc (nat (f + 1 - (b + 1)))" by simp
    then have "[0..<nat (f + 1 - b)] = 0 # map Suc [0..<nat (f + 1 - (b + 1))]"
      by (simp add: upt_conv_Cons map_Suc_upt)
    then show ?thesis using 1 True by (subst bus_bits_up.simps) (simp add: comp_def algebra_simps)
  qed (subst bus_bits_up.simps, simp)
qed

lemma bus_bits_down_map:
  "bus_bits_down b f vb = map (\<lambda>i. (b - int i, vb + int i)) [0..<nat (b + 1 - f)]"
proof (induction b f vb rule: bus_bits_down.induct)
  case (1 b f vb)
  show ?case
  proof (cases "f \<le> b")
    case True
    then have "nat (b + 1 - f) = Suc (nat (b - 1 + 1 - f))" by simp
    then have "[0..<nat (b + 1 - f)] = 0 # map Suc [0..<nat (b - 1 + 1 - f)]"
      by (simp add: upt_conv_Cons map_Suc_upt)
    then show ?thesis using 1 True by (subst bus_bits_down.simps) (simp add: comp_def algebra_simps)
  qed (subst bus_bits_down.simps, simp)
qed

section \<open>Properties\<close>

lemma bit_changes_sorted:
  "bit_changes vs k = Some chs \<Longrightarrow> wave_wf vs \<Longrightarrow> sorted_wrt (<) (map fst chs)"
  using bit_changes_spec [of vs k chs] by (simp add: wave_wf_def)

lemma bit_changes_times:
  "bit_changes vs k = Some chs \<Longrightarrow> fst ` set chs = vv_time ` set vs"
  using bit_changes_spec [of vs k chs] by (metis list.set_map)

text \<open>The events of the intervals add up. For a well-formed waveform whose times are before
  the end of a chain of intervals from 0 (the event-budget intervals of a parsed file, each
  ending no earlier than it starts), the event counts of a bit over the intervals sum to its event count.\<close>

theorem interval_event_counts:
  assumes "bit_changes vs k = Some chs" "wave_wf vs" "\<forall>v \<in> set vs. 0 \<le> vv_time v \<and> vv_time v < T"
    and "interval_chain 0 ivs T" "\<forall>(s, e) \<in> set ivs. s \<le> e"
  shows "(\<Sum>(s, e) \<leftarrow> ivs. eventCount_between chs s e) = eventCount_all chs"
proof -
  have sorted: "sorted_wrt (<) (map fst chs)" using bit_changes_sorted [OF assms(1,2)] .
  have times: "\<And>c. c \<in> set chs \<Longrightarrow> 0 \<le> fst c \<and> fst c < T"
    using bit_changes_times [OF assms(1)] assms(3) by (metis imageE imageI)
  show ?thesis
    using chain_counts [OF assms(4,5) sorted] eventIndex_ends [OF sorted] times
    by (simp add: eventCount_all_changes)
qed

definition demo_wave :: "VcdValue list" where
  "demo_wave =
     [\<lparr>vv_time = 0, vv_value = CHR ''X'', vv_bus = 0, vv_width = 1\<rparr>,
      \<lparr>vv_time = 2, vv_value = CHR ''1'', vv_bus = 0, vv_width = 1\<rparr>,
      \<lparr>vv_time = 5, vv_value = CHR ''0'', vv_bus = 0, vv_width = 1\<rparr>]"

lemma demo_wave_bits: "bit_changes demo_wave 0 = Some [(0, CHR ''X''), (2, CHR ''1''), (5, CHR ''0'')]"
  by (simp add: bit_changes_def demo_wave_def vv_value_bit_def null_char_def)

lemma demo_wave_wf: "wave_wf demo_wave"
  by (simp add: wave_wf_def demo_wave_def)

theorem interval_event_counts_witness:
  "(\<Sum>(s, e) \<leftarrow> [(0, 2), (2, 6)]. eventCount_between [(0, CHR ''X''), (2, CHR ''1''), (5, CHR ''0'')] s e) =
     eventCount_all [(0, CHR ''X''), (2, CHR ''1''), (5, CHR ''0'')] \<and>
   eventCount_all [(0, CHR ''X''), (2, CHR ''1''), (5, CHR ''0'')] = 2"
  using interval_event_counts [OF demo_wave_bits demo_wave_wf, of 6 "[(0, 2), (2, 6)]"]
  by (simp add: demo_wave_def eventCount_all_def)

text \<open>C35: The duty is the fraction of time at one. For a well-formed waveform within the
  positive maximum time, the duty computed for a bit, times the maximum time, is the number of time
  units below it in which the bit is 1; so the duty is between 0 and 1. The transition
  count is between 0 and the number of changes of the bit.\<close>

theorem duty_is_high_time:
  assumes "bit_changes vs k = Some chs" "wave_wf vs" "\<forall>x \<in> set vs. 0 \<le> vv_time x \<and> vv_time x \<le> vcd_time_max v"
    and "0 < vcd_time_max v" and "findVarActivity v clk_period chs = Some (transition_count, activity, duty)"
  shows "duty * of_int (vcd_time_max v) =
      of_int (int (card {t. 0 \<le> t \<and> t < vcd_time_max v \<and> at_time fst snd (CHR ''X'') chs t = CHR ''1''})) \<and>
    0 \<le> duty \<and> duty \<le> 1 \<and> 0 \<le> transition_count \<and> transition_count \<le> real (eventCount_all chs)"
proof -
  let ?T = "vcd_time_max v"
  have sorted: "sorted_wrt (<) (map fst chs)" using bit_changes_sorted [OF assms(1,2)] .
  then have le_sorted: "sorted (map fst chs)" by (simp add: strict_sorted_iff)
  have times: "\<forall>c \<in> set chs. 0 \<le> fst c \<and> fst c \<le> ?T"
    using bit_changes_times [OF assms(1)] assms(3) by (metis imageE imageI)
  have ne: "chs \<noteq> []" using assms(5) by (auto simp: findVarActivity_def)
  then obtain c0 rest where chs: "chs = (0, c0) # rest"
    using bit_changes_spec [OF assms(1)] assms(2)
    by (cases chs; cases vs) (auto simp: wave_wf_def)
  obtain pt pv h n where loop: "activity_loop chs 0 c0 0 0 = (pt, pv, h, n)"
    by (metis prod.exhaust)
  have "h + (if pv = CHR ''1'' then ?T - pt else 0) =
      units (\<lambda>t. at_time fst snd c0 chs t = CHR ''1'') 0 ?T"
    using activity_loop_high [OF loop le_sorted, of ?T] times assms(4) by simp
  also have "\<dots> = units (\<lambda>t. at_time fst snd (CHR ''X'') chs t = CHR ''1'') 0 ?T"
    using chs by (intro units_cong) (auto simp: at_time_def Let_def)
  finally have high: "h + (if pv = CHR ''1'' then ?T - pt else 0) =
      units (\<lambda>t. at_time fst snd (CHR ''X'') chs t = CHR ''1'') 0 ?T" .
  have res: "transition_count = n"
      "duty = of_int (h + (if pv = CHR ''1'' then ?T - pt else 0)) / of_int ?T"
    using assms(5) loop chs by (auto simp: findVarActivity_def Let_def)
  have "n \<le> real (eventCount_all chs)" "0 \<le> n"
    using activity_loop_count [OF loop] chs by (simp_all add: eventCount_all_def)
  moreover define H where "H = units (\<lambda>t. at_time fst snd (CHR ''X'') chs t = CHR ''1'') 0 ?T"
  moreover have H: "0 \<le> H" "H \<le> ?T"
    using assms(4) units_bounds [of 0 ?T] by (simp_all add: H_def)
  moreover have duty: "duty = of_int H / of_int ?T" using res(2) high by (simp add: H_def)
  moreover have "0 \<le> duty" "duty \<le> 1" "duty * of_int ?T = of_int H"
    using H assms(4) by (simp_all add: duty)
  ultimately show ?thesis
    using res(1) by (simp add: units_def)
qed

theorem duty_is_high_time_witness:
  "\<exists>duty activity. findVarActivity (vcd_empty\<lparr>vcd_time_max := 10\<rparr>) 2 [(0, CHR ''X''), (2, CHR ''1''), (5, CHR ''0'')]
        = Some (3/2, activity, duty) \<and> 0 \<le> duty \<and> duty \<le> 1 \<and> duty = 3/10"
proof -
  let ?v = "vcd_empty\<lparr>vcd_time_max := 10\<rparr>"
  have f: "findVarActivity ?v 2 [(0, CHR ''X''), (2, CHR ''1''), (5, CHR ''0'')] = Some (3/2, 3/10, 3/10)"
    by (simp add: findVarActivity_def vcd_empty_def)
  have "0 \<le> (3/10 :: real) \<and> (3/10 :: real) \<le> 1"
    using duty_is_high_time [OF demo_wave_bits demo_wave_wf _ _ f] by (simp add: demo_wave_def)
  then show ?thesis using f by blast
qed

text \<open>The bits of a bus. A bus from one bound to another annotates every bit between
  the bounds exactly once, starting at the right bound, and reads for it the value bit that is
  its distance from the right bound, so the right bound is the least significant bit.\<close>

theorem bus_bits_mapping:
  "distinct (map fst (bus_bits from_bit to_bit)) \<and>
   set (bus_bits from_bit to_bit) =
     {(b, \<bar>b - to_bit\<bar>) | b. min from_bit to_bit \<le> b \<and> b \<le> max from_bit to_bit} \<and>
   map snd (bus_bits from_bit to_bit) = map int [0..<nat (\<bar>from_bit - to_bit\<bar> + 1)]"
proof (cases "to_bit < from_bit")
  case True
  have "set (bus_bits from_bit to_bit) =
     {(b, \<bar>b - to_bit\<bar>) | b. min from_bit to_bit \<le> b \<and> b \<le> max from_bit to_bit}"
    using True by (auto simp: bus_bits_def bus_bits_up_map image_iff intro!: bexI [of _ "nat (_ - to_bit)"])
  moreover have "distinct (map fst (bus_bits from_bit to_bit))"
    by (auto simp: True bus_bits_def bus_bits_up_map comp_def distinct_map inj_on_def)
  moreover have "map snd (bus_bits from_bit to_bit) = map int [0..<nat (\<bar>from_bit - to_bit\<bar> + 1)]"
    using True by (simp add: bus_bits_def bus_bits_up_map comp_def algebra_simps)
  ultimately show ?thesis by blast
next
  case False
  have "set (bus_bits from_bit to_bit) =
     {(b, \<bar>b - to_bit\<bar>) | b. min from_bit to_bit \<le> b \<and> b \<le> max from_bit to_bit}"
    using False by (auto simp: bus_bits_def bus_bits_down_map image_iff intro!: bexI [of _ "nat (to_bit - _)"])
  moreover have "distinct (map fst (bus_bits from_bit to_bit))"
    by (auto simp: False bus_bits_def bus_bits_down_map comp_def distinct_map inj_on_def)
  moreover have "map snd (bus_bits from_bit to_bit) = map int [0..<nat (\<bar>from_bit - to_bit\<bar> + 1)]"
    using False by (simp add: bus_bits_def bus_bits_down_map comp_def algebra_simps)
  ultimately show ?thesis by blast
qed

end
