(* ===== verification/GTP_PowerTime.thy ===== *)
theory GTP_PowerTime
  imports GTP_PowerState GTP_Activity
begin

text \<open>
  Time-based power of one gate: the event loop of \<open>power/TimeBasedPower.cc\<close> with its glitch
  classification, internal energy look-ups and per-cycle leakage. What the loop reads from other
  parts of the analyzer is a field of the pin or of the gate: slews (\<open>None\<close> when infinite), load
  capacitances, the internal power tables as functions of edge, slew and load, and the delay of the arc
  between two pins (\<open>None\<close> when there is no edge or arc). The events of a pin are its changes with
  the value already translated to a pin state; a value that has no translation, which the program
  finds when it reaches the event, is an error up front. A power waveform (a vector over
  the clock cycles) is represented by the sequence of the additions made to it.
\<close>

section \<open>Pins and gates\<close>

definition vcd_value_to_int :: "char \<Rightarrow> VcdEventVal option" where
  "vcd_value_to_int c = map_of [(CHR ''0'', 0), (CHR ''1'', 1), (CHR ''X'', 2), (CHR ''Z'', 3)] c"

definition pin_events :: "VcdValue list \<Rightarrow> int \<Rightarrow> (int \<times> VcdEventVal) list option" where
  "pin_events vals value_bit =
     those (map (\<lambda>v. map_option (Pair (vv_time v)) (Option.bind (vv_value_bit v value_bit) vcd_value_to_int)) vals)"

record InternalPower =
  ip_when :: FuncExpr
  ip_related :: "PinId option"
  ip_power :: "RISEFALL \<Rightarrow> real \<Rightarrow> real \<Rightarrow> real"

record GatePin =
  gp_pin :: PinId
  gp_events :: "(int \<times> VcdEventVal) list"
  gp_is_clock :: bool
  gp_default :: "VertexSim option"
  gp_slew :: "RISEFALL \<Rightarrow> real option"
  gp_load_cap :: real
  gp_switching_energy :: real
  gp_has_corner :: bool
  gp_internal_powers :: "InternalPower list"

record Gate =
  g_pins :: "GatePin list"
  g_n_input :: nat
  g_ports :: PortStore
  g_pin_map :: PinMap
  g_arc_delay :: "PinId \<Rightarrow> RISEFALL \<Rightarrow> PinId \<Rightarrow> RISEFALL \<Rightarrow> real option"
  g_leakage_values :: "real list"
  g_default_leakage :: real
  g_default_leakage_exists :: bool

record SimEnv =
  se_time_max :: int
  se_time_scale :: real
  se_clk_period :: real

definition cycle_of :: "SimEnv \<Rightarrow> int \<Rightarrow> int" where
  "cycle_of env time = clkedWaveformIdx time (se_time_scale env) (se_clk_period env)"

text \<open>The first event not before a time.\<close>

definition getEventIdxByTime :: "(int \<times> 'a) list \<Rightarrow> int \<Rightarrow> int" where
  "getEventIdxByTime events time =
     lower_bound_loop (\<lambda>mid. fst (events ! nat mid) < time) 0 (int (length events))"

section \<open>Glitches\<close>

text \<open>
  The events of a clock cycle come in pairs: all of them are glitches if their number is even,
  all but the last if it is odd. The initial value is not an event.
\<close>

definition mark_glitches :: "nat list \<Rightarrow> nat \<Rightarrow> bool list \<Rightarrow> bool list" where
  "mark_glitches idxes start_idx flags =
     (let n = length idxes in
      if 2 \<le> n then fold (\<lambda>i fl. fl[i - start_idx := True]) (take (if n mod 2 = 0 then n else n - 1) idxes) flags
      else flags)"

fun glitch_loop ::
  "(int \<Rightarrow> int) \<Rightarrow> nat \<Rightarrow> (nat \<times> int) list \<Rightarrow> int \<Rightarrow> nat list \<Rightarrow> bool list \<Rightarrow> bool list" where
  "glitch_loop period start_idx [] cur_period idxes flags = mark_glitches idxes start_idx flags"
| "glitch_loop period start_idx ((pos, time) # evs) cur_period idxes flags =
     (if period time \<noteq> cur_period
      then glitch_loop period start_idx evs (period time) [pos] (mark_glitches idxes start_idx flags)
      else glitch_loop period start_idx evs cur_period (idxes @ [pos]) flags)"

text \<open>\<open>flags\<close> is the flag vector of the caller; \<open>resize\<close> keeps its elements. The range is within the events.\<close>

definition resize_flags :: "nat \<Rightarrow> bool list \<Rightarrow> bool list" where
  "resize_flags n flags = take n flags @ replicate (n - length flags) False"

definition getEventClockCycleBasedGlitchFlags ::
  "SimEnv \<Rightarrow> int list \<Rightarrow> nat \<Rightarrow> nat \<Rightarrow> bool list \<Rightarrow> bool list" where
  "getEventClockCycleBasedGlitchFlags env tms start_idx end_idx flags =
     (if tms = [] \<or> start_idx = end_idx then flags
      else glitch_loop (cycle_of env) start_idx
             (map (\<lambda>pos. (pos, tms ! pos)) [start_idx + 1..<end_idx])
             (cycle_of env (tms ! start_idx))
             (if start_idx \<noteq> 0 then [start_idx] else [])
             (resize_flags (end_idx - start_idx) flags))"

text \<open>The width of a glitch is the longer of its distances to the flagged neighbours.\<close>

definition getGlitchScalingRatio ::
  "SimEnv \<Rightarrow> GatePin \<Rightarrow> bool list \<Rightarrow> nat \<Rightarrow> power_error + real" where
  "getGlitchScalingRatio env pin flags idx =
     (if length flags \<le> idx then Inl StateOutOfRange
      else if flags ! idx then
        (let tms = map fst (gp_events pin);
             prev_width = (if 1 \<le> idx \<and> flags ! (idx - 1)
                           then tms ! idx - tms ! (idx - 1) else INVALID_PULSE_WIDTH);
             next_width = (if idx + 1 < length tms \<and> flags ! (idx + 1)
                           then tms ! (idx + 1) - tms ! idx else INVALID_PULSE_WIDTH);
             selected = max prev_width next_width
         in if selected \<noteq> INVALID_PULSE_WIDTH then
              (case (gp_slew pin RISE, gp_slew pin FALL) of
                 (Some rise_slew, Some fall_slew) \<Rightarrow>
                   Inr (getTimeBasedGlitchScalingRatioH (of_int selected * se_time_scale env)
                          (rise_slew + fall_slew))
               | _ \<Rightarrow> Inl AssertFailed)
            else Inr INVALID_N_TOGGLE_VAL)
      else Inr INVALID_N_TOGGLE_VAL)"

section \<open>Internal energy\<close>

text \<open>The first table whose condition holds.\<close>

fun first_input_power ::
  "PortStore \<Rightarrow> PinMap \<Rightarrow> VcdEventVal list \<Rightarrow> RISEFALL \<Rightarrow> real \<Rightarrow> InternalPower list \<Rightarrow> power_error + real"
where
  "first_input_power lp pm st rf slew [] = Inr 0"
| "first_input_power lp pm st rf slew (pwr # pwrs) =
     res_bind (isInternalPowerMatchPinStates lp st (ip_when pwr) pm) (\<lambda>matches.
       if matches then Inr (ip_power pwr rf slew 0) else first_input_power lp pm st rf slew pwrs)"

definition findInputInternalVal ::
  "Gate \<Rightarrow> VcdEventVal list \<Rightarrow> GatePin \<Rightarrow> RISEFALL \<Rightarrow> power_error + real" where
  "findInputInternalVal g st pin rf =
     (if \<not> gp_has_corner pin then Inr 0
      else case gp_slew pin rf of
          None \<Rightarrow> Inr 0
        | Some slew \<Rightarrow> first_input_power (g_ports g) (g_pin_map g) st rf slew (gp_internal_powers pin))"

text \<open>
  The input event an output event is related to: the last event of an input before it whose time
  plus the arc delay is closest to it, among those in the same cycle. The accumulator is the
  smallest difference so far and the pin and event that have it.
\<close>

definition related_step ::
  "SimEnv \<Rightarrow> Gate \<Rightarrow> GatePin \<Rightarrow> int \<Rightarrow> RISEFALL \<Rightarrow> nat \<Rightarrow> real \<times> (nat \<times> nat) option \<Rightarrow> real \<times> (nat \<times> nat) option"
where
  "related_step env g toggle_pin cur_time to_rf input_idx acc =
     (let pin = g_pins g ! input_idx; events = gp_events pin in
      if events = [] then acc
      else
        let rel = nat (max 0 (getEventIdxByTime events cur_time - 1));
            prev = rel - 1;
            from_rf = getRiseFallEdge (snd (events ! prev)) (snd (events ! rel))
        in case g_arc_delay g (gp_pin pin) from_rf (gp_pin toggle_pin) to_rf of
             None \<Rightarrow> acc
           | Some delay \<Rightarrow>
               let diff = \<bar>of_int cur_time * se_time_scale env - delay
                           - of_int (fst (events ! rel)) * se_time_scale env\<bar>
               in if diff < fst acc \<and> cycle_of env (fst (events ! rel)) = cycle_of env cur_time
                  then (diff, Some (input_idx, rel)) else acc)"

definition find_related_pin :: "SimEnv \<Rightarrow> Gate \<Rightarrow> GatePin \<Rightarrow> int \<Rightarrow> RISEFALL \<Rightarrow> (nat \<times> nat) option" where
  "find_related_pin env g toggle_pin cur_time to_rf =
     snd (fold (related_step env g toggle_pin cur_time to_rf) [0..<g_n_input g]
            (of_int (se_time_max env) * se_time_scale env, None))"

text \<open>Without a related pin: the average over all tables from the inputs, for both input edges.\<close>

definition default_energies :: "Gate \<Rightarrow> GatePin \<Rightarrow> RISEFALL \<Rightarrow> real list" where
  "default_energies g toggle_pin to_rf =
     concat (map (\<lambda>input_idx. concat (map (\<lambda>from_rf.
        (case gp_slew (g_pins g ! input_idx) from_rf of
           None \<Rightarrow> []
         | Some slew \<Rightarrow>
             map (\<lambda>pwr. ip_power pwr to_rf slew (gp_load_cap toggle_pin))
               (filter (\<lambda>pwr. ip_related pwr = Some (gp_pin (g_pins g ! input_idx)))
                  (gp_internal_powers toggle_pin)))) [RISE, FALL])) [0..<g_n_input g])"

definition getDefaultOutputPinInternalEnergyVal :: "Gate \<Rightarrow> GatePin \<Rightarrow> RISEFALL \<Rightarrow> real" where
  "getDefaultOutputPinInternalEnergyVal g toggle_pin to_rf =
     (let energies = default_energies g toggle_pin to_rf in
      if length energies = 0 then 0 else sum_list energies / real (length energies))"

fun first_output_power ::
  "Gate \<Rightarrow> PinId \<Rightarrow> VcdEventVal list \<Rightarrow> RISEFALL \<Rightarrow> real \<Rightarrow> real \<Rightarrow> InternalPower list \<Rightarrow> power_error + real"
where
  "first_output_power g related st to_rf slew load_cap [] = Inr 0"
| "first_output_power g related st to_rf slew load_cap (pwr # pwrs) =
     (if ip_related pwr = Some related then
        res_bind (isInternalPowerMatchPinStates (g_ports g) st (ip_when pwr) (g_pin_map g)) (\<lambda>matches.
          if matches then Inr (ip_power pwr to_rf slew load_cap)
          else first_output_power g related st to_rf slew load_cap pwrs)
      else first_output_power g related st to_rf slew load_cap pwrs)"

definition findOutputInternalVal ::
  "SimEnv \<Rightarrow> Gate \<Rightarrow> VcdEventVal list \<Rightarrow> int \<Rightarrow> GatePin \<Rightarrow> RISEFALL \<Rightarrow> power_error + real" where
  "findOutputInternalVal env g st cur_time toggle_pin to_rf =
     (if \<not> gp_has_corner toggle_pin then Inr 0
      else case find_related_pin env g toggle_pin cur_time to_rf of
          None \<Rightarrow> Inr (getDefaultOutputPinInternalEnergyVal g toggle_pin to_rf)
        | Some (related_idx, event_idx) \<Rightarrow>
            let related = g_pins g ! related_idx; events = gp_events related;
                from_rf = getRiseFallEdge (snd (events ! (event_idx - 1))) (snd (events ! event_idx))
            in case gp_slew related from_rf of
                 None \<Rightarrow> Inr 0
               | Some input_slew \<Rightarrow>
                   first_output_power g (gp_pin related) st to_rf input_slew (gp_load_cap toggle_pin)
                     (gp_internal_powers toggle_pin))"

section \<open>Per-cycle leakage\<close>

text \<open>
  The energy of a leakage value between two times is split over the clock cycles. The loop does
  not end for a clock period of zero, so its result is an option; the additions are pairs of
  a cycle and an amount.
\<close>

partial_function (option) leakage_loop ::
  "real \<Rightarrow> real \<Rightarrow> real \<Rightarrow> int \<Rightarrow> real \<Rightarrow> (int \<times> real) list \<Rightarrow> (int \<times> real) list option" where
  "leakage_loop leakage_val cur clk_period cycle_idx left acc =
     (if of_int cycle_idx * clk_period \<le> cur then
        let right = min (of_int (cycle_idx + 1) * clk_period) cur;
            duration = right - left
        in leakage_loop leakage_val cur clk_period (cycle_idx + 1) (of_int (cycle_idx + 1) * clk_period)
             (acc @ [(cycle_idx, leakage_val * duration / clk_period)])
      else Some acc)"

definition calculatePerCycleLeakagePower ::
  "real \<Rightarrow> int \<Rightarrow> int \<Rightarrow> real \<Rightarrow> real \<Rightarrow> (int \<times> real) list option" where
  "calculatePerCycleLeakagePower leakage_val prev_time cur_time time_scale clk_period =
     leakage_loop leakage_val (of_int cur_time * time_scale) clk_period
       (clkedWaveformIdx prev_time time_scale clk_period) (of_int prev_time * time_scale) []"

section \<open>The event loop\<close>

datatype WaveKind = W_leakage | W_internal | W_glitch_internal | W_switching | W_glitch_switching

record LoopState =
  ls_frontier :: "nat list"
  ls_prev_states :: "VcdEventVal list"
  ls_states :: "VcdEventVal list"
  ls_prev_time :: int
  ls_internal :: real
  ls_glitch_internal :: real
  ls_switching :: real
  ls_glitch_switching :: real
  ls_leakage :: real
  ls_wave :: "(WaveKind \<times> int \<times> real) list"

definition pin_glitch_flags :: "SimEnv \<Rightarrow> GatePin \<Rightarrow> bool list" where
  "pin_glitch_flags env pin =
     (let n = length (gp_events pin); flags = replicate n False in
      if \<not> gp_is_clock pin
      then getEventClockCycleBasedGlitchFlags env (map fst (gp_events pin)) 0 n flags
      else flags)"

text \<open>The state and frontier of a pin before the loop: its first event is consumed if it is at time 0.\<close>

definition pin_initial :: "GatePin \<Rightarrow> VcdEventVal \<times> nat" where
  "pin_initial pin =
     (case gp_events pin of
        [] \<Rightarrow> (getVertexDefaultState (gp_default pin), 0)
      | (t, s) # _ \<Rightarrow> if t = 0 then (s, 1) else (2, 0))"

definition loop_initial :: "Gate \<Rightarrow> LoopState" where
  "loop_initial g =
     \<lparr>ls_frontier = map (\<lambda>p. snd (pin_initial p)) (g_pins g),
      ls_prev_states = map (\<lambda>p. fst (pin_initial p)) (g_pins g),
      ls_states = map (\<lambda>p. fst (pin_initial p)) (g_pins g),
      ls_prev_time = 0, ls_internal = 0, ls_glitch_internal = 0, ls_switching = 0,
      ls_glitch_switching = 0, ls_leakage = 0, ls_wave = []\<rparr>"

definition next_time :: "int \<Rightarrow> GatePin list \<Rightarrow> nat list \<Rightarrow> int" where
  "next_time max_time pins frontiers =
     fold (\<lambda>(pin, f) t. if f < length (gp_events pin) then min (fst (gp_events pin ! f)) t else t)
       (zip pins frontiers) max_time"

definition pin_triggered :: "int \<Rightarrow> GatePin \<Rightarrow> nat \<Rightarrow> bool" where
  "pin_triggered cur_time pin f \<longleftrightarrow> f < length (gp_events pin) \<and> fst (gp_events pin ! f) = cur_time"

definition advance_frontiers :: "int \<Rightarrow> GatePin list \<Rightarrow> nat list \<Rightarrow> nat list" where
  "advance_frontiers cur_time pins fs =
     map2 (\<lambda>pin f. if pin_triggered cur_time pin f then f + 1 else f) pins fs"

definition advance_states :: "int \<Rightarrow> GatePin list \<Rightarrow> nat list \<Rightarrow> VcdEventVal list \<Rightarrow> VcdEventVal list" where
  "advance_states cur_time pins fs sts =
     map2 (\<lambda>(pin, f) s. if pin_triggered cur_time pin f then snd (gp_events pin ! f) else s) (zip pins fs) sts"

definition sim_seconds :: "SimEnv \<Rightarrow> real" where
  "sim_seconds env = of_int (se_time_max env) * se_time_scale env"

text \<open>The leakage of the state that ends at \<open>cur_time\<close>: its share of the average, and its cycles.\<close>

definition add_leakage :: "SimEnv \<Rightarrow> Gate \<Rightarrow> int \<Rightarrow> LoopState \<Rightarrow> power_error + LoopState" where
  "add_leakage env g cur_time st =
     (let leakage_val = findLeakageVal (ls_prev_states st) (g_leakage_values g) (g_default_leakage g)
                          (g_default_leakage_exists g) 0
      in case calculatePerCycleLeakagePower leakage_val (ls_prev_time st) cur_time
                (se_time_scale env) (se_clk_period env) of
           None \<Rightarrow> Inl EndlessLoop
         | Some adds \<Rightarrow>
             Inr (st\<lparr>ls_leakage := ls_leakage st
                       + leakage_val * of_int (cur_time - ls_prev_time st) / of_int (se_time_max env),
                     ls_wave := ls_wave st @ map (Pair W_leakage) adds\<rparr>))"

text \<open>The switching energy of a rising output.\<close>

definition add_switching :: "SimEnv \<Rightarrow> GatePin \<Rightarrow> int \<Rightarrow> real \<Rightarrow> real \<Rightarrow> LoopState \<Rightarrow> LoopState" where
  "add_switching env pin cur_time n_rise ratio st =
     (if n_rise > 0 then
        let energy = n_rise * gp_switching_energy pin; c = cycle_of env cur_time in
        if ratio > 0 then
          st\<lparr>ls_glitch_switching := ls_glitch_switching st + ratio * energy / sim_seconds env,
             ls_wave := ls_wave st @ [(W_switching, c, ratio * energy / se_clk_period env),
                                      (W_glitch_switching, c, ratio * energy / se_clk_period env)]\<rparr>
        else
          st\<lparr>ls_switching := ls_switching st + energy / sim_seconds env,
             ls_wave := ls_wave st @ [(W_switching, c, energy / se_clk_period env)]\<rparr>
      else st)"

definition add_internal :: "SimEnv \<Rightarrow> int \<Rightarrow> real \<Rightarrow> real \<Rightarrow> LoopState \<Rightarrow> LoopState" where
  "add_internal env cur_time energy ratio st =
     (let c = cycle_of env cur_time in
      if ratio > 0 then
        st\<lparr>ls_glitch_internal := ls_glitch_internal st + ratio * energy / sim_seconds env,
           ls_wave := ls_wave st @ [(W_internal, c, ratio * energy / se_clk_period env),
                                    (W_glitch_internal, c, ratio * energy / se_clk_period env)]\<rparr>
      else
        st\<lparr>ls_internal := ls_internal st + energy / sim_seconds env,
           ls_wave := ls_wave st @ [(W_internal, c, energy / se_clk_period env)]\<rparr>)"

text \<open>One triggered pin. \<open>event_idx\<close> is the event it has just taken.\<close>

definition process_pin ::
  "SimEnv \<Rightarrow> Gate \<Rightarrow> bool list list \<Rightarrow> int \<Rightarrow> nat \<Rightarrow> nat \<Rightarrow> LoopState \<Rightarrow> power_error + LoopState" where
  "process_pin env g flags cur_time pin_idx event_idx st =
     (let pin = g_pins g ! pin_idx;
          prev = ls_prev_states st ! pin_idx; cur = ls_states st ! pin_idx;
          n_toggle = getNToggle prev cur
      in res_bind (getGlitchScalingRatio env pin (flags ! pin_idx) event_idx) (\<lambda>ratio.
         if pin_idx < g_n_input g then
           res_bind (findInputInternalVal g (ls_prev_states st) pin (getRiseFallEdge prev cur)) (\<lambda>e.
             Inr (add_internal env cur_time (e * n_toggle) ratio st))
         else
           res_bind (findOutputInternalVal env g (ls_prev_states st) cur_time pin (getRiseFallEdge prev cur)) (\<lambda>e.
             Inr (add_internal env cur_time (e * n_toggle) ratio
                    (add_switching env pin cur_time (getNRise prev cur) ratio st)))))"

fun process_pins ::
  "SimEnv \<Rightarrow> Gate \<Rightarrow> bool list list \<Rightarrow> int \<Rightarrow> (nat \<times> nat) list \<Rightarrow> LoopState \<Rightarrow> power_error + LoopState" where
  "process_pins env g flags cur_time [] st = Inr st"
| "process_pins env g flags cur_time ((pin_idx, event_idx) # ps) st =
     res_bind (process_pin env g flags cur_time pin_idx event_idx st) (process_pins env g flags cur_time ps)"

text \<open>One time of the loop: advance, leakage of the previous state, energies of the triggered pins.\<close>

definition loop_step :: "SimEnv \<Rightarrow> Gate \<Rightarrow> bool list list \<Rightarrow> int \<Rightarrow> LoopState \<Rightarrow> power_error + LoopState" where
  "loop_step env g flags cur_time st =
     (let fs = ls_frontier st;
          triggered = filter (\<lambda>i. pin_triggered cur_time (g_pins g ! i) (fs ! i)) [0..<length (g_pins g)];
          st1 = st\<lparr>ls_frontier := advance_frontiers cur_time (g_pins g) fs,
                   ls_states := advance_states cur_time (g_pins g) fs (ls_states st)\<rparr>
      in res_bind (add_leakage env g cur_time st1) (\<lambda>st2.
         res_bind (process_pins env g flags cur_time (map (\<lambda>i. (i, fs ! i)) triggered) st2) (\<lambda>st3.
           Inr (st3\<lparr>ls_prev_time := cur_time, ls_prev_states := ls_states st3\<rparr>))))"

lemma add_leakage_frame:
  "add_leakage env g t st = Inr st' \<Longrightarrow>
     ls_frontier st' = ls_frontier st \<and> ls_states st' = ls_states st \<and>
     ls_prev_states st' = ls_prev_states st \<and> ls_prev_time st' = ls_prev_time st"
  by (auto simp: add_leakage_def Let_def split: option.splits)

lemma add_energy_frame:
  "ls_frontier (add_switching env pin t n r st) = ls_frontier st"
  "ls_states (add_switching env pin t n r st) = ls_states st"
  "ls_prev_states (add_switching env pin t n r st) = ls_prev_states st"
  "ls_prev_time (add_switching env pin t n r st) = ls_prev_time st"
  "ls_leakage (add_switching env pin t n r st) = ls_leakage st"
  "ls_frontier (add_internal env t e r st) = ls_frontier st"
  "ls_states (add_internal env t e r st) = ls_states st"
  "ls_prev_states (add_internal env t e r st) = ls_prev_states st"
  "ls_prev_time (add_internal env t e r st) = ls_prev_time st"
  "ls_leakage (add_internal env t e r st) = ls_leakage st"
  by (simp_all add: add_switching_def add_internal_def Let_def)

lemma process_pin_frame:
  "process_pin env g flags t i k st = Inr st' \<Longrightarrow>
     ls_frontier st' = ls_frontier st \<and> ls_states st' = ls_states st \<and>
     ls_prev_states st' = ls_prev_states st \<and> ls_prev_time st' = ls_prev_time st \<and>
     ls_leakage st' = ls_leakage st"
  by (auto simp: process_pin_def Let_def add_energy_frame split: if_splits)

lemma process_pins_frame:
  "process_pins env g flags t ps st = Inr st' \<Longrightarrow>
     ls_frontier st' = ls_frontier st \<and> ls_states st' = ls_states st \<and>
     ls_prev_states st' = ls_prev_states st \<and> ls_prev_time st' = ls_prev_time st \<and>
     ls_leakage st' = ls_leakage st"
  by (induction env g flags t ps st rule: process_pins.induct) (fastforce dest!: process_pin_frame)+

lemma loop_step_frame:
  assumes "loop_step env g flags t st = Inr st'"
  shows "ls_frontier st' = advance_frontiers t (g_pins g) (ls_frontier st)"
    and "ls_states st' = advance_states t (g_pins g) (ls_frontier st) (ls_states st)"
    and "ls_prev_states st' = ls_states st'" and "ls_prev_time st' = t"
  using assms by (auto simp: loop_step_def Let_def dest!: add_leakage_frame process_pins_frame)

lemma next_time_fold:
  fixes xs :: "(GatePin \<times> nat) list"
  defines "nt \<equiv> \<lambda>m. fold (\<lambda>(pin, f) t. if f < length (gp_events pin) then min (fst (gp_events pin ! f)) t else t) xs m"
  shows "nt m \<le> m" and "(pin, f) \<in> set xs \<Longrightarrow> f < length (gp_events pin) \<Longrightarrow> nt m \<le> fst (gp_events pin ! f)"
    and "nt m \<noteq> m \<Longrightarrow> \<exists>(pin, f) \<in> set xs. pin_triggered (nt m) pin f"
proof -
  have "nt m \<le> m \<and> (\<forall>(pin, f) \<in> set xs. f < length (gp_events pin) \<longrightarrow> nt m \<le> fst (gp_events pin ! f)) \<and>
    (nt m \<noteq> m \<longrightarrow> (\<exists>(pin, f) \<in> set xs. pin_triggered (nt m) pin f))" for m
    unfolding nt_def
  proof (induction xs arbitrary: m)
    case (Cons x xs)
    obtain pin f where x: "x = (pin, f)" by (cases x)
    show ?case
    proof (cases "f < length (gp_events pin)")
      case True
      then show ?thesis
        using Cons.IH [of "min (fst (gp_events pin ! f)) m"] x
        by (auto simp: pin_triggered_def min_def split: if_splits)
    next
      case False
      then show ?thesis using Cons.IH [of m] x by auto
    qed
  qed simp
  then show "nt m \<le> m" "(pin, f) \<in> set xs \<Longrightarrow> f < length (gp_events pin) \<Longrightarrow> nt m \<le> fst (gp_events pin ! f)"
    "nt m \<noteq> m \<Longrightarrow> \<exists>(pin, f) \<in> set xs. pin_triggered (nt m) pin f" by blast+
qed

definition pending :: "GatePin list \<Rightarrow> nat list \<Rightarrow> nat" where
  "pending pins fs = sum_list (map (\<lambda>(pin, f). length (gp_events pin) - f) (zip pins fs))"

lemma pending_Cons [simp]:
  "pending (p # ps) (f # fs) = (length (gp_events p) - f) + pending ps fs"
  "pending ps [] = 0" "pending [] fs = 0"
  by (simp_all add: pending_def)

lemma advance_frontiers_Cons [simp]:
  "advance_frontiers t (p # ps) (f # fs) =
     (if pin_triggered t p f then f + 1 else f) # advance_frontiers t ps fs"
  "advance_frontiers t ps [] = []" "advance_frontiers t [] fs = []"
  by (simp_all add: advance_frontiers_def)

lemma advance_pending_le: "pending pins (advance_frontiers t pins fs) \<le> pending pins fs"
proof (induction pins arbitrary: fs)
  case (Cons p pins)
  then show ?case by (cases fs) (auto intro!: add_mono)
qed simp

lemma advance_pending:
  "\<exists>(pin, f) \<in> set (zip pins fs). pin_triggered t pin f \<Longrightarrow>
   pending pins (advance_frontiers t pins fs) < pending pins fs"
proof (induction pins arbitrary: fs)
  case (Cons p pins)
  then obtain f gs where fs: "fs = f # gs" by (cases fs) auto
  have le: "pending pins (advance_frontiers t pins gs) \<le> pending pins gs" by (rule advance_pending_le)
  show ?case
  proof (cases "pin_triggered t p f")
    case True
    then have "f < length (gp_events p)" by (simp add: pin_triggered_def)
    then show ?thesis using True le fs by simp
  next
    case False
    then have "pending pins (advance_frontiers t pins gs) < pending pins gs"
      using Cons fs by auto
    then show ?thesis using False fs by simp
  qed
qed simp

function power_loop :: "SimEnv \<Rightarrow> Gate \<Rightarrow> bool list list \<Rightarrow> LoopState \<Rightarrow> power_error + LoopState" where
  "power_loop env g flags st =
     (let max_time = se_time_max env + 10;
          cur_time = next_time max_time (g_pins g) (ls_frontier st)
      in if cur_time = max_time then Inr st
         else case loop_step env g flags cur_time st of
             Inl e \<Rightarrow> Inl e
           | Inr st' \<Rightarrow> power_loop env g flags st')"
  by pat_completeness auto
termination
proof (relation "measure (\<lambda>(env, g, flags, st). pending (g_pins g) (ls_frontier st))", goal_cases)
  case (2 env g flags st max_time cur_time st')
  then have "\<exists>(pin, f) \<in> set (zip (g_pins g) (ls_frontier st)). pin_triggered cur_time pin f"
    using next_time_fold(3) [where xs = "zip (g_pins g) (ls_frontier st)" and m = "se_time_max env + 10"]
    by (simp add: next_time_def)
  then show ?case using 2 advance_pending loop_step_frame(1) [of env g flags cur_time st st'] by simp
qed simp

declare power_loop.simps [simp del]

text \<open>After the last event the state leaks until the maximum time.\<close>

definition findTimeBasedAllPower :: "SimEnv \<Rightarrow> Gate \<Rightarrow> power_error + LoopState" where
  "findTimeBasedAllPower env g =
     res_bind (power_loop env g (map (pin_glitch_flags env) (g_pins g)) (loop_initial g))
       (add_leakage env g (se_time_max env))"

text \<open>The result of a gate: internal and switching power include their glitch parts.\<close>

definition timeBasedPower :: "SimEnv \<Rightarrow> Gate \<Rightarrow> power_error + LoopState" where
  "timeBasedPower env g =
     res_bind (findTimeBasedAllPower env g) (\<lambda>st.
       Inr (st\<lparr>ls_internal := ls_internal st + ls_glitch_internal st,
               ls_switching := ls_switching st + ls_glitch_switching st\<rparr>))"

text \<open>Building a gate: the pins and the port map, the leakage table, and the default leakage.\<close>

definition build_gate ::
  "nat \<Rightarrow> GatePin list \<Rightarrow> nat \<Rightarrow> string list \<Rightarrow> PortStore \<Rightarrow>
   (PinId \<Rightarrow> RISEFALL \<Rightarrow> PinId \<Rightarrow> RISEFALL \<Rightarrow> real option) \<Rightarrow> real \<times> bool \<Rightarrow> LeakagePower list \<Rightarrow> power_error + Gate"
where
  "build_gate max_n_pin pins n_input names lp arcs cell_leakage leaks =
     res_bind (getLeakagePower lp max_n_pin cell_leakage leaks (length pins) (make_pin_map names))
       (\<lambda>(vals, dv, de). Inr
          \<lparr>g_pins = pins, g_n_input = n_input, g_ports = lp, g_pin_map = make_pin_map names,
           g_arc_delay = arcs, g_leakage_values = vals, g_default_leakage = dv,
           g_default_leakage_exists = de\<rparr>)"

section \<open>Lemmas: per-cycle leakage\<close>

lemma mult_le_iff_le_div: "0 < k \<Longrightarrow> c * k \<le> (n::int) \<longleftrightarrow> c \<le> n div k"
proof
  assume "0 < k" "c * k \<le> n"
  then show "c \<le> n div k" using zdiv_mono1 [of "c * k" n k] by simp
next
  assume k: "0 < k" and "c \<le> n div k"
  then have "c * k \<le> n div k * k" by simp
  also have "\<dots> \<le> n" using k by (simp add: minus_mod_eq_div_mult [symmetric])
  finally show "c * k \<le> n" .
qed

lemma cycle_start_le:
  assumes "0 \<le> t" "0 < scale" "0 < period"
  shows "of_int (clkedWaveformIdx t scale period) * period \<le> of_int t * scale"
    and "0 \<le> clkedWaveformIdx t scale period"
proof -
  define u where "u = time_unit_per_cycle scale period"
  have u: "0 < u" "period / scale \<le> of_int u"
    using assms by (simp_all add: u_def time_unit_per_cycle_def)
  have c: "clkedWaveformIdx t scale period = t div u"
    using assms(1) u(1) by (cases "t = 0") (simp_all add: clkedWaveformIdx_def c_div_def u_def)
  show "0 \<le> clkedWaveformIdx t scale period" using c assms(1) u(1) by (simp add: pos_imp_zdiv_nonneg_iff)
  have "of_int (t div u) * period = of_int (t div u) * (period / scale) * scale" using assms(2) by simp
  also have "\<dots> \<le> of_int (t div u) * of_int u * scale"
    using u assms by (intro mult_right_mono mult_left_mono) (simp_all add: pos_imp_zdiv_nonneg_iff)
  also have "\<dots> \<le> of_int t * scale"
  proof -
    have "t div u * u \<le> t" using u(1) assms(1) by (metis minus_mod_eq_div_mult le_add_same_cancel1
          add_diff_cancel_left' diff_ge_0_iff_ge div_mult_mod_eq mod_int_pos_iff less_imp_le)
    then show ?thesis using assms(2) by (metis less_imp_le mult_right_mono of_int_le_iff of_int_mult)
  qed
  finally show "of_int (clkedWaveformIdx t scale period) * period \<le> of_int t * scale" using c by simp
qed

lemma leakage_loop_sum:
  assumes "0 < p"
  shows "\<exists>adds. leakage_loop lv cur p c left acc = Some (acc @ adds) \<and>
    sum_list (map snd adds) = (if of_int c * p \<le> cur then lv * (cur - left) / p else 0)"
proof (induction "nat (\<lfloor>cur / p\<rfloor> + 1 - c)" arbitrary: c left acc rule: less_induct)
  case less
  show ?case
  proof (cases "of_int c * p \<le> cur")
    case False
    then show ?thesis by (subst leakage_loop.simps) simp
  next
    case True
    then have "c \<le> \<lfloor>cur / p\<rfloor>" using assms by (simp add: le_floor_iff pos_le_divide_eq)
    then have m: "nat (\<lfloor>cur / p\<rfloor> + 1 - (c + 1)) < nat (\<lfloor>cur / p\<rfloor> + 1 - c)" by simp
    define right where "right = min (of_int (c + 1) * p) cur"
    define x where "x = (c, lv * (right - left) / p)"
    obtain adds where adds: "leakage_loop lv cur p (c + 1) (of_int (c + 1) * p) (acc @ [x]) = Some ((acc @ [x]) @ adds)"
      "sum_list (map snd adds) = (if of_int (c + 1) * p \<le> cur then lv * (cur - of_int (c + 1) * p) / p else 0)"
      using less.hyps [OF m] by blast
    have loop: "leakage_loop lv cur p c left acc = Some (acc @ (x # adds))"
      using True adds(1) by (subst leakage_loop.simps) (simp add: Let_def right_def x_def)
    have "lv * (right - left) / p + sum_list (map snd adds) = lv * (cur - left) / p"
    proof (cases "of_int (c + 1) * p \<le> cur")
      case next_cycle: True
      then have "sum_list (map snd adds) = lv * (cur - right) / p" using adds(2) by (simp add: right_def)
      then show ?thesis by (simp add: right_diff_distrib diff_divide_distrib)
    next
      case False
      then show ?thesis using adds(2) by (simp add: right_def)
    qed
    then show ?thesis using loop True by (intro exI [of _ "x # adds"]) (simp add: x_def)
  qed
qed

lemma leakage_cycles_sum:
  assumes "0 \<le> prev" "prev \<le> cur" "0 < scale" "0 < p"
  shows "\<exists>adds. calculatePerCycleLeakagePower lv prev cur scale p = Some adds \<and>
    sum_list (map snd adds) = lv * (of_int (cur - prev) * scale) / p"
proof -
  have "of_int (clkedWaveformIdx prev scale p) * p \<le> of_int prev * scale"
    using cycle_start_le assms by blast
  also have "\<dots> \<le> of_int cur * scale" using assms by simp
  finally show ?thesis
    using leakage_loop_sum [OF assms(4), of lv "of_int cur * scale" "clkedWaveformIdx prev scale p"
        "of_int prev * scale" "[]"]
    by (simp add: calculatePerCycleLeakagePower_def left_diff_distrib)
qed

text \<open>With a period of a whole number of time units, each cycle gets its overlap with the interval.\<close>

lemma clkedWaveformIdx_int:
  assumes "0 < scale" "0 < k" "0 \<le> t"
  shows "clkedWaveformIdx t scale (of_int k * scale) = t div k"
  using assms by (cases "t = 0") (simp_all add: clkedWaveformIdx_def time_unit_per_cycle_def c_div_def)

definition cycle_share :: "real \<Rightarrow> int \<Rightarrow> int \<Rightarrow> int \<Rightarrow> int \<Rightarrow> real" where
  "cycle_share lv prev cur k c = lv * of_int (min ((c + 1) * k) cur - max (c * k) prev) / of_int k"

lemma leakage_loop_exact:
  assumes "0 < scale" "0 < k" "prev \<le> c * k"
  shows "leakage_loop lv (of_int cur * scale) (of_int k * scale) c (of_int (c * k) * scale) acc =
    Some (acc @ map (\<lambda>c. (c, cycle_share lv prev cur k c)) [c..cur div k])"
  using assms(3)
proof (induction "nat (cur div k + 1 - c)" arbitrary: c acc rule: less_induct)
  case less
  have cond: "of_int c * (of_int k * scale) \<le> of_int cur * scale \<longleftrightarrow> c \<le> cur div k"
  proof -
    have "of_int c * (of_int k * scale) \<le> of_int cur * scale \<longleftrightarrow> (of_int (c * k) :: real) \<le> of_int cur"
      using assms(1) by (simp add: mult.assoc [symmetric])
    also have "\<dots> \<longleftrightarrow> c * k \<le> cur" by (rule of_int_le_iff)
    also have "\<dots> \<longleftrightarrow> c \<le> cur div k" by (rule mult_le_iff_le_div [OF assms(2)])
    finally show ?thesis .
  qed
  show ?case
  proof (cases "c \<le> cur div k")
    case False
    then show ?thesis using cond by (subst leakage_loop.simps) simp
  next
    case True
    have right: "min (of_int (c + 1) * (of_int k * scale)) (of_int cur * scale) =
        of_int (min ((c + 1) * k) cur) * scale"
      using assms(1) by (auto simp: min_def mult.assoc [symmetric] simp flip: of_int_mult of_int_add)
    have "prev \<le> (c + 1) * k" using less.prems assms(2) by (simp add: distrib_right)
    then have IH: "leakage_loop lv (of_int cur * scale) (of_int k * scale) (c + 1)
         (of_int ((c + 1) * k) * scale) acc' =
       Some (acc' @ map (\<lambda>c. (c, cycle_share lv prev cur k c)) [c + 1..cur div k])" for acc'
      using True by (intro less.hyps) auto
    have share: "lv * (of_int (min ((c + 1) * k) cur) * scale - of_int (c * k) * scale) / (of_int k * scale)
        = cycle_share lv prev cur k c"
      using less.prems assms(1) by (simp add: cycle_share_def left_diff_distrib [symmetric])
    show ?thesis
      using cond True IH [of "acc @ [(c, cycle_share lv prev cur k c)]"] share right
      by (subst leakage_loop.simps) (simp add: Let_def upto_rec1 mult.assoc)
  qed
qed

lemma leakage_share_card:
  assumes "0 < k" "c \<in> {prev div k..cur div k}" "prev \<le> cur"
  shows "real (card {t \<in> {prev..<cur}. t div k = c}) = of_int (min ((c + 1) * k) cur - max (c * k) prev)"
proof -
  have div_iff: "t div k = c \<longleftrightarrow> c * k \<le> t \<and> t < (c + 1) * k" for t
    using mult_le_iff_le_div [OF assms(1), of c t] mult_le_iff_le_div [OF assms(1), of "c + 1" t] by linarith
  have set_eq: "{t \<in> {prev..<cur}. t div k = c} = {max (c * k) prev..<min ((c + 1) * k) cur}"
    by (intro set_eqI, simp only: div_iff mem_Collect_eq atLeastLessThan_iff) linarith
  have "c * k \<le> cur" "prev < (c + 1) * k"
    using assms(2) mult_le_iff_le_div [OF assms(1), of c cur]
      mult_le_iff_le_div [OF assms(1), of "c + 1" prev] unfolding atLeastAtMost_iff by linarith+
  moreover have "c * k < (c + 1) * k" using assms(1) by (intro mult_strict_right_mono) simp_all
  ultimately have "max (c * k) prev \<le> min ((c + 1) * k) cur" using assms(3) by linarith
  then show ?thesis using set_eq by simp
qed

lemma leakage_cycles_exact:
  assumes "0 < scale" "0 < k" "0 \<le> prev" "prev \<le> cur"
  shows "calculatePerCycleLeakagePower lv prev cur scale (of_int k * scale) =
    Some (map (\<lambda>c. (c, cycle_share lv prev cur k c)) [prev div k..cur div k])"
proof -
  define c where "c = prev div k"
  have c: "c * k \<le> prev" "prev \<le> (c + 1) * k" "c \<le> cur div k"
    using mult_le_iff_le_div [OF assms(2), of c prev] mult_le_iff_le_div [OF assms(2), of "c + 1" prev]
      zdiv_mono1 [OF assms(4,2)] by (simp_all add: c_def)
  have enter: "of_int c * (of_int k * scale) \<le> of_int cur * scale"
  proof -
    have "of_int (c * k) * scale \<le> of_int cur * scale"
      using c(1) assms(1,4) by (intro mult_right_mono) (simp_all flip: of_int_mult)
    then show ?thesis by (simp add: mult.assoc)
  qed
  have right: "min (of_int (c + 1) * (of_int k * scale)) (of_int cur * scale) =
      of_int (min ((c + 1) * k) cur) * scale"
    using assms(1) by (auto simp: min_def mult.assoc [symmetric] simp flip: of_int_mult of_int_add)
  have share: "lv * (of_int (min ((c + 1) * k) cur) * scale - of_int prev * scale) / (of_int k * scale)
      = cycle_share lv prev cur k c"
    using c(1) assms(1) by (simp add: cycle_share_def left_diff_distrib [symmetric])
  have idx: "clkedWaveformIdx prev scale (of_int k * scale) = c"
    using clkedWaveformIdx_int [OF assms(1,2,3)] by (simp add: c_def)
  show ?thesis
    unfolding calculatePerCycleLeakagePower_def idx
    using enter share right c(3)
      leakage_loop_exact [OF assms(1,2) c(2), of lv cur "[(c, cycle_share lv prev cur k c)]"]
    by (subst leakage_loop.simps) (simp add: Let_def upto_rec1 mult.assoc flip: c_def)
qed

text \<open>Splitting a leakage value over the clock cycles ends for every positive clock period, and the
  shares add up to the energy of the interval over the period: nothing is lost or counted twice.\<close>

theorem leakage_split_total:
  assumes "0 \<le> prev" "prev \<le> cur" "0 < scale" "0 < p"
  shows "\<exists>adds. calculatePerCycleLeakagePower lv prev cur scale p = Some adds \<and>
    sum_list (map snd adds) = lv * (of_int (cur - prev) * scale) / p"
  using leakage_cycles_sum assms by blast

theorem leakage_split_total_witness:
  "\<exists>adds. calculatePerCycleLeakagePower 4 3 12 (1/2) 2 = Some adds \<and> sum_list (map snd adds) = 9"
  using leakage_split_total [of 3 12 "1/2" 2 4] by simp

text \<open>When the clock period is a whole number \<open>k\<close> of time units, the addition to a cycle is the
  leakage value times the fraction of the cycle's time units that lie in the interval, and the cycles are
  visited once each, in order.\<close>

theorem leakage_split_cycles:
  assumes "0 < scale" "0 < k" "0 \<le> prev" "prev \<le> cur"
  shows "calculatePerCycleLeakagePower lv prev cur scale (of_int k * scale) =
    Some (map (\<lambda>c. (c, lv * real (card {t \<in> {prev..<cur}. t div k = c}) / of_int k)) [prev div k..cur div k])"
proof -
  have "cycle_share lv prev cur k c = lv * real (card {t \<in> {prev..<cur}. t div k = c}) / of_int k"
    if "c \<in> set [prev div k..cur div k]" for c
    using leakage_share_card [OF assms(2) _ assms(4), of c] that by (simp add: cycle_share_def)
  then have "map (\<lambda>c. (c, cycle_share lv prev cur k c)) [prev div k..cur div k] =
      map (\<lambda>c. (c, lv * real (card {t \<in> {prev..<cur}. t div k = c}) / of_int k)) [prev div k..cur div k]"
    by (intro map_cong) auto
  then show ?thesis using leakage_cycles_exact [OF assms] by simp
qed

theorem leakage_split_cycles_witness:
  "calculatePerCycleLeakagePower 6 1 7 (1/2) (of_int 3 * (1/2)) =
     Some (map (\<lambda>c. (c, 6 * real (card {t \<in> {1..<7}. t div 3 = c}) / of_int 3)) [1 div 3..7 div 3])"
  using leakage_split_cycles [of "1/2" 3 1 7 6] by simp

text \<open>When the period is not a whole number of time units, the cycle of a time is computed with the
  rounded-up period while the loop uses the exact one: an interval that starts after the end of its computed
  cycle gives that cycle a negative share. With 5/2 time units per cycle, the leakage between 8 and 9 takes
  energy out of cycle 2.\<close>

theorem leakage_split_misaligned:
  "calculatePerCycleLeakagePower 1 8 9 1 (5/2) = Some [(2, -1/5), (3, 3/5)]"
proof -
  have "clkedWaveformIdx 8 1 (5/2) = 2"
    by (simp add: clkedWaveformIdx_def time_unit_per_cycle_def c_div_def ceiling_divide_eq_div_numeral)
  then show ?thesis
    unfolding calculatePerCycleLeakagePower_def
    by (subst leakage_loop.simps, simp add: Let_def, subst leakage_loop.simps, simp add: Let_def,
        subst leakage_loop.simps, simp)
qed

end
