(* ===== verification/GTP_Glitch.thy ===== *)
theory GTP_Glitch
  imports GTP_PowerTime
begin

text \<open>
  Correctness of the glitch classification and of the search for the input event that an output event is
  related to (\<open>power/TimeBasedPower.cc\<close>): the single pass over the events computes the parity rule of every
  clock cycle, and the related event is the closest one after its arc delay.
\<close>

section \<open>Glitches of a cycle\<close>

text \<open>The events of the same cycle in a list of positions and cycles, and the rule for one position.\<close>

definition cycle_group :: "(nat \<times> int) list \<Rightarrow> int \<Rightarrow> nat set" where
  "cycle_group l c = {p. (p, c) \<in> set l}"

definition is_glitch :: "(nat \<times> int) list \<Rightarrow> nat \<Rightarrow> bool" where
  "is_glitch l p \<longleftrightarrow> (\<exists>c. (p, c) \<in> set l \<and> (even (card (cycle_group l c)) \<or> (\<exists>q \<in> cycle_group l c. p < q)))"

lemma fold_set_True:
  "(\<forall>i \<in> set xs. f i < length fl) \<Longrightarrow> k < length fl \<Longrightarrow>
     fold (\<lambda>i fl. fl[f i := True]) xs fl ! k \<longleftrightarrow> fl ! k \<or> k \<in> f ` set xs"
  by (induction xs arbitrary: fl) (auto simp: nth_list_update)

lemma not_last_iff:
  assumes "sorted_wrt (<) (idxes :: nat list)" "idxes \<noteq> []"
  shows "p \<in> set (butlast idxes) \<longleftrightarrow> p \<in> set idxes \<and> (\<exists>q \<in> set idxes. p < q)"
  using assms by (cases idxes rule: rev_cases) (auto simp: sorted_wrt_append)

lemma mark_glitches_nth:
  assumes sorted: "sorted_wrt (<) idxes"
    and rng: "\<forall>p \<in> set idxes. s \<le> p \<and> p < s + length fl" and k: "k < length fl"
  shows "mark_glitches idxes s fl ! k \<longleftrightarrow> fl ! k \<or> is_glitch (map (\<lambda>p. (p, c)) idxes) (k + s)"
proof -
  have dist: "distinct idxes" using sorted by (simp add: strict_sorted_iff)
  have group: "cycle_group (map (\<lambda>p. (p, c)) idxes) c = set idxes" by (auto simp: cycle_group_def)
  have rule: "is_glitch (map (\<lambda>p. (p, c)) idxes) p \<longleftrightarrow>
      p \<in> set idxes \<and> (even (length idxes) \<or> (\<exists>q \<in> set idxes. p < q))" for p
    using dist by (auto simp: is_glitch_def group distinct_card)
  define used where "used = take (if length idxes mod 2 = 0 then length idxes else length idxes - 1) idxes"
  have used: "p \<in> set used \<longleftrightarrow> is_glitch (map (\<lambda>p. (p, c)) idxes) p" for p
  proof (cases "even (length idxes)")
    case True
    then show ?thesis by (simp add: rule used_def flip: even_iff_mod_2_eq_zero)
  next
    case False
    then have "idxes \<noteq> []" by auto
    moreover have "used = butlast idxes" using False by (auto simp: used_def butlast_conv_take)
    ultimately show ?thesis using False not_last_iff [OF sorted, of p] by (simp add: rule)
  qed
  have sub: "s \<le> p \<and> p < s + length fl" if "p \<in> set used" for p
    using rng that by (auto simp: used_def dest!: in_set_takeD split: if_splits)
  have bound: "\<forall>i \<in> set used. i - s < length fl"
  proof
    show "i - s < length fl" if "i \<in> set used" for i using sub [OF that] by linarith
  qed
  have "k \<in> (\<lambda>i. i - s) ` set used \<longleftrightarrow> k + s \<in> set used"
  proof
    show "k \<in> (\<lambda>i. i - s) ` set used" if "k + s \<in> set used" using that by (intro image_eqI [of _ _ "k + s"]) auto
    show "k + s \<in> set used" if "k \<in> (\<lambda>i. i - s) ` set used" using that sub by auto
  qed
  then have "fold (\<lambda>i fl. fl[i - s := True]) used fl ! k \<longleftrightarrow> fl ! k \<or> k + s \<in> set used"
    using k bound by (subst fold_set_True) auto
  moreover have "mark_glitches idxes s fl = fold (\<lambda>i fl. fl[i - s := True]) used fl"
  proof (cases "2 \<le> length idxes")
    case False
    then have "length idxes = 0 \<or> length idxes = 1" by linarith
    then have "used = []" by (auto simp: used_def)
    then show ?thesis using False by (simp add: mark_glitches_def Let_def)
  qed (simp add: mark_glitches_def used_def Let_def)
  ultimately show ?thesis using used by simp
qed

lemma is_glitch_append:
  assumes "\<forall>(p, c) \<in> set l1. \<forall>(q, d) \<in> set l2. c \<noteq> d"
  shows "is_glitch (l1 @ l2) p \<longleftrightarrow> is_glitch l1 p \<or> is_glitch l2 p"
proof -
  have "cycle_group (l1 @ l2) c = cycle_group l1 c" if "(q, c) \<in> set l1" for q c
    using assms that by (fastforce simp: cycle_group_def)
  moreover have "cycle_group (l1 @ l2) c = cycle_group l2 c" if "(q, c) \<in> set l2" for q c
    using assms that by (fastforce simp: cycle_group_def)
  ultimately show ?thesis by (auto simp: is_glitch_def)
qed

lemma length_mark_glitches: "length (mark_glitches idxes s fl) = length fl"
proof -
  have "length (fold (\<lambda>i fl. fl[i - s := True]) xs fl) = length fl" for xs
    by (induction xs arbitrary: fl) auto
  then show ?thesis by (simp add: mark_glitches_def Let_def)
qed

lemma glitch_loop_nth:
  assumes "sorted_wrt (<) (idxes @ map fst evs)" "sorted (c # map (\<lambda>(p, t). period t) evs)"
    and "\<forall>p \<in> set (idxes @ map fst evs). s \<le> p \<and> p < s + length fl" and "k < length fl"
  shows "glitch_loop period s evs c idxes fl ! k \<longleftrightarrow>
    fl ! k \<or> is_glitch (map (\<lambda>p. (p, c)) idxes @ map (\<lambda>(p, t). (p, period t)) evs) (k + s)"
  using assms
proof (induction period s evs c idxes fl rule: glitch_loop.induct)
  case (1 period s c idxes fl)
  then show ?case using mark_glitches_nth [of idxes s fl k c] by simp
next
  case (2 period s pos time evs c idxes fl)
  show ?case
  proof (cases "period time = c")
    case True
    then show ?thesis using 2 by simp
  next
    case False
    then have "c < period time" using "2.prems"(2) by simp
    then have disj: "\<forall>(p, c') \<in> set (map (\<lambda>p. (p, c)) idxes).
        \<forall>(q, d) \<in> set (map (\<lambda>(p, t). (p, period t)) ((pos, time) # evs)). c' \<noteq> d"
      using "2.prems"(2) by fastforce
    have "glitch_loop period s evs (period time) [pos] (mark_glitches idxes s fl) ! k \<longleftrightarrow>
        mark_glitches idxes s fl ! k \<or>
        is_glitch (map (\<lambda>p. (p, period time)) [pos] @ map (\<lambda>(p, t). (p, period t)) evs) (k + s)"
      using "2.prems" False by (intro "2.IH"(1)) (auto simp: length_mark_glitches sorted_wrt_append)
    also have "mark_glitches idxes s fl ! k \<longleftrightarrow> fl ! k \<or> is_glitch (map (\<lambda>p. (p, c)) idxes) (k + s)"
      using "2.prems" by (intro mark_glitches_nth) (auto simp: sorted_wrt_append)
    finally show ?thesis using False is_glitch_append [OF disj, of "k + s"] by auto
  qed
qed

lemma cycle_of_mono:
  assumes "0 < se_time_scale env" "0 < se_clk_period env" "0 \<le> s" "s \<le> t"
  shows "cycle_of env s \<le> cycle_of env t"
proof -
  define u where "u = time_unit_per_cycle (se_time_scale env) (se_clk_period env)"
  have u: "0 < u" using assms by (simp add: u_def time_unit_per_cycle_def)
  have "cycle_of env x = x div u" if "0 \<le> x" for x
    using that u by (cases "x = 0") (simp_all add: cycle_of_def clkedWaveformIdx_def c_div_def u_def)
  then show ?thesis using assms(3,4) zdiv_mono1 [OF assms(4) u] by simp
qed

lemma glitch_flags_rule:
  assumes "0 < se_time_scale env" "0 < se_clk_period env"
    and "sorted_wrt (<) tms" "\<forall>t \<in> set tms. 0 \<le> t" "i < length tms"
  shows "getEventClockCycleBasedGlitchFlags env tms 0 (length tms) (replicate (length tms) False) ! i \<longleftrightarrow>
    1 \<le> i \<and> (let same = {j. 1 \<le> j \<and> j < length tms \<and> cycle_of env (tms ! j) = cycle_of env (tms ! i)}
             in even (card same) \<or> (\<exists>j \<in> same. i < j))"
proof -
  define n where "n = length tms"
  have n: "tms \<noteq> []" "0 < n" using assms(5) by (auto simp: n_def)
  define evs where "evs = map (\<lambda>pos. (pos, tms ! pos)) [1..<n]"
  have fst_evs: "map fst evs = [1..<n]" by (simp add: evs_def comp_def)
  have le: "cycle_of env (tms ! p) \<le> cycle_of env (tms ! q)" if "p \<le> q" "q < n" for p q
  proof (cases "p = q")
    case False
    then have "tms ! p < tms ! q" using assms(3) that by (simp add: sorted_wrt_iff_nth_less n_def)
    moreover have "0 \<le> tms ! p" using assms(4) that by (simp add: n_def)
    ultimately show ?thesis using cycle_of_mono [OF assms(1,2)] by simp
  qed simp
  have sorted: "sorted (cycle_of env (tms ! 0) # map (\<lambda>(p, t). cycle_of env t) evs)"
    by (auto simp: evs_def comp_def sorted_wrt_map intro!: le sorted_wrt_mono_rel [OF _ sorted_wrt_upt])
  have "getEventClockCycleBasedGlitchFlags env tms 0 n (replicate n False) ! i \<longleftrightarrow>
      glitch_loop (cycle_of env) 0 evs (cycle_of env (tms ! 0)) [] (replicate n False) ! i"
    using n by (simp add: getEventClockCycleBasedGlitchFlags_def resize_flags_def evs_def)
  also have "\<dots> \<longleftrightarrow> is_glitch (map (\<lambda>(p, t). (p, cycle_of env t)) evs) i"
    using glitch_loop_nth [of "[]" evs "cycle_of env (tms ! 0)" "cycle_of env" 0 "replicate n False" i]
      sorted assms(5) by (simp add: fst_evs n_def)
  also have "\<dots> \<longleftrightarrow> 1 \<le> i \<and> (let same = {j. 1 \<le> j \<and> j < n \<and> cycle_of env (tms ! j) = cycle_of env (tms ! i)}
             in even (card same) \<or> (\<exists>j \<in> same. i < j))"
  proof -
    have "cycle_group (map (\<lambda>(p, t). (p, cycle_of env t)) evs) c = {j. 1 \<le> j \<and> j < n \<and> cycle_of env (tms ! j) = c}" for c
      by (auto simp: cycle_group_def evs_def)
    moreover have "(i, c) \<in> set (map (\<lambda>(p, t). (p, cycle_of env t)) evs) \<longleftrightarrow> 1 \<le> i \<and> c = cycle_of env (tms ! i)" for c
      using assms(5) by (auto simp: evs_def n_def)
    ultimately show ?thesis by (simp add: is_glitch_def Let_def)
  qed
  finally show ?thesis by (simp add: n_def)
qed

section \<open>The related input event\<close>

lemma lower_bound_idx:
  assumes "sorted_wrt (<) (map fst events)"
  shows "0 \<le> getEventIdxByTime events t" "getEventIdxByTime events t \<le> int (length events)"
    and "i < length events \<Longrightarrow> fst (events ! i) < t \<longleftrightarrow> int i < getEventIdxByTime events t"
proof -
  have *: "search_predicate (\<lambda>i. fst (events ! nat i) < t) 0 (int (length events))"
  proof
    fix i j :: int
    assume ij: "0 \<le> i" "i \<le> j" "j < int (length events)" "fst (events ! nat j) < t"
    show "fst (events ! nat i) < t"
    proof (cases "i = j")
      case False
      then have "fst (events ! nat i) < fst (events ! nat j)"
        using assms ij by (simp add: sorted_wrt_iff_nth_less)
      then show ?thesis using ij by simp
    qed (use ij in simp)
  qed simp
  show "0 \<le> getEventIdxByTime events t" "getEventIdxByTime events t \<le> int (length events)"
    using search_predicate.search_bounds [OF *] by (simp_all add: getEventIdxByTime_def)
  show "fst (events ! i) < t \<longleftrightarrow> int i < getEventIdxByTime events t" if "i < length events"
    using search_predicate.search_iff [OF *, of "int i"] that by (simp add: getEventIdxByTime_def)
qed

text \<open>C31: The glitch flags of a data pin follow the parity rule: an event is a glitch when it is not the initial
  value and the events of its clock cycle are even in number or it is not the last of them. One pass over the
  events computes it.\<close>

theorem glitch_flags_parity:
  assumes "0 < se_time_scale env" "0 < se_clk_period env" and "\<not> gp_is_clock pin"
    and "sorted_wrt (<) (map fst (gp_events pin))" "\<forall>e \<in> set (gp_events pin). 0 \<le> fst e"
    and "i < length (gp_events pin)"
  shows "pin_glitch_flags env pin ! i \<longleftrightarrow>
    1 \<le> i \<and> (let cycle = (\<lambda>j. cycle_of env (fst (gp_events pin ! j)));
                 same = {j. 1 \<le> j \<and> j < length (gp_events pin) \<and> cycle j = cycle i}
             in even (card same) \<or> (\<exists>j \<in> same. i < j))"
  using glitch_flags_rule [OF assms(1,2,4), of i] assms(3,5,6)
  by (simp add: pin_glitch_flags_def Let_def cong: conj_cong)

theorem glitch_flags_parity_witness:
  "pin_glitch_flags \<lparr>se_time_max = 10, se_time_scale = 1, se_clk_period = 4\<rparr>
     \<lparr>gp_pin = 0, gp_events = [(0, 0), (1, 1), (2, 0), (3, 1), (5, 0), (9, 1)], gp_is_clock = False,
      gp_default = None, gp_slew = (\<lambda>_. None), gp_load_cap = 0, gp_switching_energy = 0,
      gp_has_corner = False, gp_internal_powers = []\<rparr> ! 2"
proof -
  define env where "env = \<lparr>se_time_max = 10, se_time_scale = 1, se_clk_period = 4\<rparr>"
  define evs :: "(int \<times> VcdEventVal) list" where "evs = [(0, 0), (1, 1), (2, 0), (3, 1), (5, 0), (9, 1)]"
  define pin where "pin = \<lparr>gp_pin = 0, gp_events = evs, gp_is_clock = False,
      gp_default = None, gp_slew = (\<lambda>_. None), gp_load_cap = 0, gp_switching_energy = 0,
      gp_has_corner = False, gp_internal_powers = []\<rparr>"
  have "\<exists>j \<in> {j. 1 \<le> j \<and> j < length (gp_events pin) \<and>
      cycle_of env (fst (gp_events pin ! j)) = cycle_of env (fst (gp_events pin ! 2))}. 2 < j"
    by (rule bexI [of _ 3])
       (simp_all add: pin_def evs_def env_def cycle_of_def clkedWaveformIdx_def time_unit_per_cycle_def c_div_def)
  then have "pin_glitch_flags env pin ! 2"
    using glitch_flags_parity [of env pin 2] by (simp add: pin_def evs_def env_def Let_def)
  then show ?thesis by (simp add: env_def pin_def evs_def)
qed

text \<open>The last event before a time, or the first one; the error of an event as the cause of an output change.\<close>

definition last_event_before :: "(int \<times> 'a) list \<Rightarrow> int \<Rightarrow> nat \<Rightarrow> bool" where
  "last_event_before events t e \<longleftrightarrow>
     e < length events \<and> (\<forall>j < length events. j \<noteq> 0 \<longrightarrow> (fst (events ! j) < t \<longleftrightarrow> j \<le> e))"

definition cause_error :: "SimEnv \<Rightarrow> Gate \<Rightarrow> GatePin \<Rightarrow> int \<Rightarrow> RISEFALL \<Rightarrow> nat \<Rightarrow> nat \<Rightarrow> real option" where
  "cause_error env g toggle_pin t to_rf i e =
     (let events = gp_events (g_pins g ! i);
          from_rf = getRiseFallEdge (snd (events ! (e - 1))) (snd (events ! e))
      in if cycle_of env (fst (events ! e)) = cycle_of env t
         then map_option (\<lambda>delay. \<bar>(of_int t - of_int (fst (events ! e))) * se_time_scale env - delay\<bar>)
                (g_arc_delay g (gp_pin (g_pins g ! i)) from_rf (gp_pin toggle_pin) to_rf)
         else None)"

lemma last_event_before_idx:
  assumes "sorted_wrt (<) (map fst events)" "events \<noteq> []"
  shows "last_event_before events t e \<longleftrightarrow> e = nat (max 0 (getEventIdxByTime events t - 1))"
proof -
  define r where "r = getEventIdxByTime events t"
  have r: "0 \<le> r" "r \<le> int (length events)" "\<And>j. j < length events \<Longrightarrow> fst (events ! j) < t \<longleftrightarrow> int j < r"
    using lower_bound_idx [OF assms(1), where t = t] by (simp_all add: r_def)
  have len: "0 < length events" using assms(2) by simp
  have iff: "last_event_before events t e \<longleftrightarrow>
      e < length events \<and> (\<forall>j < length events. j \<noteq> 0 \<longrightarrow> (int j < r \<longleftrightarrow> j \<le> e))"
    using r(3) by (auto simp: last_event_before_def)
  show ?thesis unfolding iff r_def [symmetric]
  proof
    assume e: "e < length events \<and> (\<forall>j < length events. j \<noteq> 0 \<longrightarrow> (int j < r \<longleftrightarrow> j \<le> e))"
    have "e = 0 \<or> int e < r" using e by auto
    moreover have "\<not> int (e + 1) < r"
    proof
      assume less: "int (e + 1) < r"
      then have "e + 1 < length events" using r(2) by linarith
      then show False using e less by (metis Suc_eq_plus1 Zero_not_Suc not_less_eq_eq order_refl)
    qed
    ultimately show "e = nat (max 0 (r - 1))" using r(1) by linarith
  next
    assume e: "e = nat (max 0 (r - 1))"
    have "e < length events" using e r(1,2) len by linarith
    moreover have "int j < r \<longleftrightarrow> j \<le> e" if "j \<noteq> 0" for j using e r(1) that by linarith
    ultimately show "e < length events \<and> (\<forall>j < length events. j \<noteq> 0 \<longrightarrow> (int j < r \<longleftrightarrow> j \<le> e))" by blast
  qed
qed

lemma related_step_cause:
  assumes "sorted_wrt (<) (map fst (gp_events (g_pins g ! i)))"
    and "last_event_before (gp_events (g_pins g ! i)) t e"
  shows "related_step env g p t rf i acc =
    (case cause_error env g p t rf i e of
       None \<Rightarrow> acc
     | Some d \<Rightarrow> if d < fst acc then (d, Some (i, e)) else acc)"
proof -
  have ne: "gp_events (g_pins g ! i) \<noteq> []" using assms(2) by (auto simp: last_event_before_def)
  have "e = nat (max 0 (getEventIdxByTime (gp_events (g_pins g ! i)) t - 1))"
    using last_event_before_idx [OF assms(1) ne] assms(2) by simp
  then show ?thesis
    using ne by (simp add: related_step_def cause_error_def Let_def algebra_simps split: option.split)
qed

lemma related_fold:
  fixes ids :: "nat list" and t rf p env
  assumes "\<forall>i \<in> set ids. sorted_wrt (<) (map fst (gp_events (g_pins g ! i)))"
  defines "res \<equiv> fold (related_step env g p t rf) ids"
  shows "fst (res acc) \<le> fst acc"
    and "i \<in> set ids \<Longrightarrow> last_event_before (gp_events (g_pins g ! i)) t e \<Longrightarrow>
      cause_error env g p t rf i e = Some d \<Longrightarrow> fst (res acc) \<le> d"
    and "res acc = acc \<or> (\<exists>i \<in> set ids. \<exists>e. last_event_before (gp_events (g_pins g ! i)) t e \<and>
      cause_error env g p t rf i e = Some (fst (res acc)) \<and> snd (res acc) = Some (i, e) \<and>
      fst (res acc) < fst acc)"
proof -
  have "fst (res acc) \<le> fst acc \<and>
    (\<forall>i \<in> set ids. \<forall>e d. last_event_before (gp_events (g_pins g ! i)) t e \<longrightarrow>
      cause_error env g p t rf i e = Some d \<longrightarrow> fst (res acc) \<le> d) \<and>
    (res acc = acc \<or> (\<exists>i \<in> set ids. \<exists>e. last_event_before (gp_events (g_pins g ! i)) t e \<and>
      cause_error env g p t rf i e = Some (fst (res acc)) \<and> snd (res acc) = Some (i, e) \<and>
      fst (res acc) < fst acc))"
    using assms(1) unfolding res_def
  proof (induction ids arbitrary: acc)
    case (Cons i ids)
    define acc1 where "acc1 = related_step env g p t rf i acc"
    show ?case
    proof (cases "gp_events (g_pins g ! i) = []")
      case True
      then have "acc1 = acc" by (simp add: acc1_def related_step_def)
      then show ?thesis
        using Cons.IH [of acc] Cons.prems True by (auto simp: acc1_def last_event_before_def)
    next
      case False
      have sorted: "sorted_wrt (<) (map fst (gp_events (g_pins g ! i)))" using Cons.prems by simp
      define e where "e = nat (max 0 (getEventIdxByTime (gp_events (g_pins g ! i)) t - 1))"
      have e: "last_event_before (gp_events (g_pins g ! i)) t e' \<longleftrightarrow> e' = e" for e'
        using last_event_before_idx [OF sorted False] by (simp add: e_def)
      then have acc1: "acc1 = (case cause_error env g p t rf i e of None \<Rightarrow> acc
          | Some d \<Rightarrow> if d < fst acc then (d, Some (i, e)) else acc)"
        using related_step_cause [OF sorted] by (simp add: acc1_def)
      have head: "fst acc1 \<le> fst acc \<and> (\<forall>d. cause_error env g p t rf i e = Some d \<longrightarrow> fst acc1 \<le> d) \<and>
          (acc1 = acc \<or> cause_error env g p t rf i e = Some (fst acc1) \<and> snd acc1 = Some (i, e) \<and> fst acc1 < fst acc)"
        unfolding acc1 by (auto split: option.split)
      define r where "r = fold (related_step env g p t rf) ids acc1"
      have fold: "fold (related_step env g p t rf) (i # ids) acc = r" by (simp add: r_def acc1_def)
      have tail: "fst r \<le> fst acc1"
        "\<And>i' e' d. i' \<in> set ids \<Longrightarrow> last_event_before (gp_events (g_pins g ! i')) t e' \<Longrightarrow>
           cause_error env g p t rf i' e' = Some d \<Longrightarrow> fst r \<le> d"
        "r = acc1 \<or> (\<exists>i \<in> set ids. \<exists>e. last_event_before (gp_events (g_pins g ! i)) t e \<and>
           cause_error env g p t rf i e = Some (fst r) \<and> snd r = Some (i, e) \<and> fst r < fst acc1)"
        using Cons.IH [of acc1] Cons.prems unfolding r_def by simp_all
      have "fst r \<le> d" if "i' \<in> set (i # ids)" "last_event_before (gp_events (g_pins g ! i')) t e'"
        "cause_error env g p t rf i' e' = Some d" for i' e' d
        using that tail(1) tail(2) [of i' e' d] head e [of e'] by (cases "i' \<in> set ids") auto
      moreover have "r = acc \<or> (\<exists>i \<in> set (i # ids). \<exists>e. last_event_before (gp_events (g_pins g ! i)) t e \<and>
           cause_error env g p t rf i e = Some (fst r) \<and> snd r = Some (i, e) \<and> fst r < fst acc)"
        using tail(3)
      proof
        assume "r = acc1"
        then show ?thesis using head e [of e] by auto
      next
        assume "\<exists>i \<in> set ids. \<exists>e. last_event_before (gp_events (g_pins g ! i)) t e \<and>
           cause_error env g p t rf i e = Some (fst r) \<and> snd r = Some (i, e) \<and> fst r < fst acc1"
        then show ?thesis using head by (meson list.set_intros(2) order.strict_trans2)
      qed
      ultimately show ?thesis unfolding fold using tail(1) head by (meson order.trans)
    qed
  qed simp
  then show "fst (res acc) \<le> fst acc"
    "i \<in> set ids \<Longrightarrow> last_event_before (gp_events (g_pins g ! i)) t e \<Longrightarrow>
      cause_error env g p t rf i e = Some d \<Longrightarrow> fst (res acc) \<le> d"
    "res acc = acc \<or> (\<exists>i \<in> set ids. \<exists>e. last_event_before (gp_events (g_pins g ! i)) t e \<and>
      cause_error env g p t rf i e = Some (fst (res acc)) \<and> snd (res acc) = Some (i, e) \<and>
      fst (res acc) < fst acc)"
    by blast+
qed

text \<open>An output change is attributed to the best cause among the inputs: the chosen event is the last one
  of its pin before the change, lies in the same clock cycle, has a timing arc, and no other input's last event
  in the cycle is closer to the change after its arc delay.\<close>

theorem related_input_closest:
  assumes "\<forall>i < g_n_input g. sorted_wrt (<) (map fst (gp_events (g_pins g ! i)))"
    and "find_related_pin env g p t rf = Some (i, e)"
  shows "i < g_n_input g \<and> last_event_before (gp_events (g_pins g ! i)) t e \<and>
    (\<exists>d. cause_error env g p t rf i e = Some d \<and> d < sim_seconds env \<and>
      (\<forall>i' < g_n_input g. \<forall>e' d'. last_event_before (gp_events (g_pins g ! i')) t e' \<longrightarrow>
         cause_error env g p t rf i' e' = Some d' \<longrightarrow> d \<le> d'))"
proof -
  have sorted: "\<forall>i \<in> set [0..<g_n_input g]. sorted_wrt (<) (map fst (gp_events (g_pins g ! i)))"
    using assms(1) by simp
  note best = related_fold [OF sorted, where env = env and p = p and t = t and rf = rf and acc = "(sim_seconds env, None)"]
  show ?thesis
    using best(2,3) assms(2) by (auto simp: find_related_pin_def simp flip: sim_seconds_def)
qed

text \<open>Two inputs toggle before the output at 6: the second one, at 5, explains it with its delay of 1/2.\<close>

definition two_inputs :: Gate where
  "two_inputs =
     (let pin = (\<lambda>p evs. \<lparr>gp_pin = p, gp_events = evs, gp_is_clock = False, gp_default = None,
                   gp_slew = (\<lambda>_. Some 1), gp_load_cap = 1, gp_switching_energy = 1, gp_has_corner = True,
                   gp_internal_powers = []\<rparr>)
      in \<lparr>g_pins = [pin 0 [(0, 0), (4, 1)], pin 1 [(0, 0), (5, 1)], pin 2 [(0, 0), (6, 1)]], g_n_input = 2,
          g_ports = (\<lambda>p. \<lparr>lp_name = ''A'', lp_direction = PD_input, lp_is_bus = False, lp_is_bundle = False,
                       lp_from_index = 0, lp_to_index = 0, lp_members = []\<rparr>),
          g_pin_map = [], g_arc_delay = (\<lambda>_ _ _ _. Some (1 / 2)),
          g_leakage_values = [], g_default_leakage = 0, g_default_leakage_exists = False\<rparr>)"

definition two_inputs_env :: SimEnv where
  "two_inputs_env = \<lparr>se_time_max = 10, se_time_scale = 1, se_clk_period = 4\<rparr>"

theorem related_input_closest_witness:
  "last_event_before (gp_events (g_pins two_inputs ! 1)) 6 1 \<and>
   (\<exists>d. cause_error two_inputs_env two_inputs (g_pins two_inputs ! 2) 6 RISE 1 1 = Some d \<and> d < 10)"
proof -
  have sorted: "\<forall>i < g_n_input two_inputs. sorted_wrt (<) (map fst (gp_events (g_pins two_inputs ! i)))"
    by (simp add: two_inputs_def less_Suc_eq numeral_2_eq_2)
  have "find_related_pin two_inputs_env two_inputs (g_pins two_inputs ! 2) 6 RISE = Some (1, 1)"
    by code_simp
  from related_input_closest [OF sorted this]
  have best: "last_event_before (gp_events (g_pins two_inputs ! 1)) 6 1"
    "\<exists>d. cause_error two_inputs_env two_inputs (g_pins two_inputs ! 2) 6 RISE 1 1 = Some d \<and>
       d < sim_seconds two_inputs_env" by blast+
  moreover have "sim_seconds two_inputs_env = 10" by (simp add: sim_seconds_def two_inputs_env_def)
  ultimately show ?thesis by simp
qed

end
