(* ===== verification/GTP_GateEnergy.thy ===== *)
theory GTP_GateEnergy
  imports GTP_PowerTime
begin

text \<open>
  What the event loop of \<open>power/TimeBasedPower.cc\<close> computes. The state of a gate at a time is the value of
  the last event of each pin up to it; the loop is proved to average the leakage of these states over the
  simulated time, to charge every event once with the energy of the states around it, and to put into the
  cycle waveforms exactly the energy it reports as power.
\<close>

section \<open>States and events of a gate\<close>

definition pin_state_at :: "GatePin \<Rightarrow> int \<Rightarrow> VcdEventVal" where
  "pin_state_at pin t =
     (if gp_events pin = [] then getVertexDefaultState (gp_default pin)
      else let past = filter (\<lambda>e. fst e \<le> t) (gp_events pin) in
           if past = [] then 2 else snd (last past))"

definition gate_state_at :: "Gate \<Rightarrow> int \<Rightarrow> VcdEventVal list" where
  "gate_state_at g t = map (\<lambda>p. pin_state_at p t) (g_pins g)"

definition gate_leakage_at :: "Gate \<Rightarrow> int \<Rightarrow> real" where
  "gate_leakage_at g t =
     findLeakageVal (gate_state_at g t) (g_leakage_values g) (g_default_leakage g) (g_default_leakage_exists g) 0"

definition consumed :: "GatePin \<Rightarrow> int \<Rightarrow> nat" where
  "consumed pin t = length (filter (\<lambda>e. fst e \<le> t) (gp_events pin))"

definition pin_ok :: "Gate \<Rightarrow> SimEnv \<Rightarrow> GatePin \<Rightarrow> bool" where
  "pin_ok g env pin \<longleftrightarrow>
     sorted_wrt (<) (map fst (gp_events pin)) \<and>
     (\<forall>e \<in> set (gp_events pin). 0 \<le> fst e \<and> fst e \<le> se_time_max env) \<and>
     gp_slew pin RISE \<noteq> None \<and> gp_slew pin FALL \<noteq> None \<and>
     (\<forall>pwr \<in> set (gp_internal_powers pin).
        ports_known (g_ports g) (g_pin_map g) (ip_when pwr) (length (g_pins g)))"

definition gate_ok :: "SimEnv \<Rightarrow> Gate \<Rightarrow> bool" where
  "gate_ok env g \<longleftrightarrow>
     0 < se_time_scale env \<and> 0 < se_clk_period env \<and> 0 < se_time_max env \<and>
     (\<forall>pin \<in> set (g_pins g). pin_ok g env pin)"

section \<open>Lemmas: events up to a time\<close>

lemma sorted_all_gt:
  fixes es :: "(int \<times> 'a) list"
  assumes "sorted_wrt (<) (map fst (e # es))" "c \<le> fst e"
  shows "filter (\<lambda>e. fst e \<le> c) es = []"
proof -
  have "\<not> fst x \<le> c" if "x \<in> set es" for x
  proof -
    have "fst e < fst x" using assms(1) that by auto
    then show ?thesis using assms(2) by simp
  qed
  then show ?thesis by (simp add: filter_empty_conv)
qed

lemma next_after:
  "sorted_wrt (<) (map fst (es :: (int \<times> 'a) list)) \<Longrightarrow> length (filter (\<lambda>e. fst e \<le> T) es) < length es \<Longrightarrow>
     T < fst (es ! length (filter (\<lambda>e. fst e \<le> T) es))"
proof (induction es)
  case (Cons e es)
  show ?case
  proof (cases "fst e \<le> T")
    case False
    then show ?thesis using sorted_all_gt [OF Cons.prems(1), of T] by (simp add: not_le)
  qed (use Cons in auto)
qed simp

lemma filter_advance:
  "sorted_wrt (<) (map fst (es :: (int \<times> 'a) list)) \<Longrightarrow> T < c \<Longrightarrow>
   (length (filter (\<lambda>e. fst e \<le> T) es) < length es \<Longrightarrow> c \<le> fst (es ! length (filter (\<lambda>e. fst e \<le> T) es))) \<Longrightarrow>
     filter (\<lambda>e. fst e \<le> c) es = filter (\<lambda>e. fst e \<le> T) es @
       (if length (filter (\<lambda>e. fst e \<le> T) es) < length es \<and> fst (es ! length (filter (\<lambda>e. fst e \<le> T) es)) = c
        then [es ! length (filter (\<lambda>e. fst e \<le> T) es)] else [])"
proof (induction es)
  case (Cons e es)
  show ?case
  proof (cases "fst e \<le> T")
    case True
    then show ?thesis using Cons by simp
  next
    case False
    then have nil: "filter (\<lambda>e. fst e \<le> T) es = []" using sorted_all_gt [OF Cons.prems(1), of T] by simp
    then have "c \<le> fst e" using Cons.prems(3) False by simp
    then show ?thesis using nil False sorted_all_gt [OF Cons.prems(1), of c] by auto
  qed
qed simp

lemma filter_between:
  "sorted_wrt (<) (map fst (es :: (int \<times> 'a) list)) \<Longrightarrow> T \<le> t \<Longrightarrow>
   (length (filter (\<lambda>e. fst e \<le> T) es) < length es \<Longrightarrow> t < fst (es ! length (filter (\<lambda>e. fst e \<le> T) es))) \<Longrightarrow>
     filter (\<lambda>e. fst e \<le> t) es = filter (\<lambda>e. fst e \<le> T) es"
proof (induction es)
  case (Cons e es)
  show ?case
  proof (cases "fst e \<le> T")
    case True
    then show ?thesis using Cons by simp
  next
    case False
    then have nil: "filter (\<lambda>e. fst e \<le> T) es = []" using sorted_all_gt [OF Cons.prems(1), of T] by simp
    then have "t < fst e" using Cons.prems(3) False by simp
    then show ?thesis using nil False sorted_all_gt [OF Cons.prems(1), of t] by auto
  qed
qed simp

lemma filter_upto_take:
  "sorted_wrt (<) (map fst (es :: (int \<times> 'a) list)) \<Longrightarrow>
     filter (\<lambda>e. fst e \<le> T) es = take (length (filter (\<lambda>e. fst e \<le> T) es)) es"
proof (induction es)
  case (Cons e es)
  show ?case
  proof (cases "fst e \<le> T")
    case True
    then show ?thesis using Cons by simp
  next
    case False
    then have "filter (\<lambda>e. fst e \<le> T) es = []" using sorted_all_gt [OF Cons.prems, of T] by simp
    then show ?thesis using False by simp
  qed
qed simp

lemma zip_map_self: "zip xs (map f xs) = map (\<lambda>x. (x, f x)) xs"
  by (induction xs) auto

lemma zip3_map_self: "zip (zip xs (map f xs)) (map h xs) = map (\<lambda>x. ((x, f x), h x)) xs"
  by (induction xs) auto

lemma pin_triggered_consumed:
  assumes "sorted_wrt (<) (map fst (gp_events pin))" "T < c"
    and "consumed pin T < length (gp_events pin) \<Longrightarrow> c \<le> fst (gp_events pin ! consumed pin T)"
  shows "consumed pin c = (if pin_triggered c pin (consumed pin T) then consumed pin T + 1 else consumed pin T)"
    and "pin_state_at pin c = (if pin_triggered c pin (consumed pin T)
           then snd (gp_events pin ! consumed pin T) else pin_state_at pin T)"
    and "T \<le> t \<Longrightarrow> t < c \<Longrightarrow> pin_state_at pin t = pin_state_at pin T"
proof -
  have up: "filter (\<lambda>e. fst e \<le> c) (gp_events pin) = filter (\<lambda>e. fst e \<le> T) (gp_events pin) @
      (if pin_triggered c pin (consumed pin T) then [gp_events pin ! consumed pin T] else [])"
    using filter_advance [OF assms(1,2)] assms(3) by (simp add: pin_triggered_def consumed_def)
  show "consumed pin c = (if pin_triggered c pin (consumed pin T) then consumed pin T + 1 else consumed pin T)"
    using up by (simp add: consumed_def [of pin c]) (simp add: consumed_def)
  show "pin_state_at pin c = (if pin_triggered c pin (consumed pin T)
           then snd (gp_events pin ! consumed pin T) else pin_state_at pin T)"
    using up by (auto simp: pin_state_at_def Let_def pin_triggered_def)
  show "pin_state_at pin t = pin_state_at pin T" if "T \<le> t" "t < c"
  proof -
    have "filter (\<lambda>e. fst e \<le> t) (gp_events pin) = filter (\<lambda>e. fst e \<le> T) (gp_events pin)"
      using filter_between [OF assms(1) that(1)] that(2) assms(3) by (force simp: consumed_def)
    then show ?thesis by (simp add: pin_state_at_def)
  qed
qed

section \<open>The energy of an event\<close>

text \<open>
  Event \<open>j\<close> of pin \<open>i\<close> is charged in the states just before it and at it. Its ratio is positive when it
  is a glitch, and then scales its energy.
\<close>

definition event_time :: "Gate \<Rightarrow> nat \<Rightarrow> nat \<Rightarrow> int" where
  "event_time g i j = fst (gp_events (g_pins g ! i) ! j)"

definition event_ratio :: "SimEnv \<Rightarrow> Gate \<Rightarrow> nat \<Rightarrow> nat \<Rightarrow> power_error + real" where
  "event_ratio env g i j =
     getGlitchScalingRatio env (g_pins g ! i) (pin_glitch_flags env (g_pins g ! i)) j"

definition event_is_glitch :: "SimEnv \<Rightarrow> Gate \<Rightarrow> nat \<Rightarrow> nat \<Rightarrow> bool" where
  "event_is_glitch env g i j = (case event_ratio env g i j of Inl _ \<Rightarrow> False | Inr r \<Rightarrow> r > 0)"

definition event_factor :: "SimEnv \<Rightarrow> Gate \<Rightarrow> nat \<Rightarrow> nat \<Rightarrow> real" where
  "event_factor env g i j = (case event_ratio env g i j of Inl _ \<Rightarrow> 0 | Inr r \<Rightarrow> if r > 0 then r else 1)"

definition event_switching :: "SimEnv \<Rightarrow> Gate \<Rightarrow> nat \<Rightarrow> nat \<Rightarrow> real" where
  "event_switching env g i j =
     (let pin = g_pins g ! i; t = event_time g i j in
      if i < g_n_input g then 0
      else event_factor env g i j * (getNRise (pin_state_at pin (t - 1)) (pin_state_at pin t) * gp_switching_energy pin))"

definition event_internal :: "SimEnv \<Rightarrow> Gate \<Rightarrow> nat \<Rightarrow> nat \<Rightarrow> real" where
  "event_internal env g i j =
     (let pin = g_pins g ! i; t = event_time g i j; before = gate_state_at g (t - 1);
          rf = getRiseFallEdge (pin_state_at pin (t - 1)) (pin_state_at pin t)
      in case (if i < g_n_input g then findInputInternalVal g before pin rf
               else findOutputInternalVal env g before t pin rf) of
           Inl _ \<Rightarrow> 0
         | Inr e \<Rightarrow> event_factor env g i j * (e * getNToggle (pin_state_at pin (t - 1)) (pin_state_at pin t)))"

text \<open>The energies of the events up to a frontier, and of all events after the initial states.\<close>

definition frontier_sum :: "Gate \<Rightarrow> nat list \<Rightarrow> (nat \<Rightarrow> nat \<Rightarrow> real) \<Rightarrow> real" where
  "frontier_sum g fs e =
     (\<Sum>i = 0..<length (g_pins g). \<Sum>j = snd (pin_initial (g_pins g ! i))..<fs ! i. e i j)"

definition gate_energy :: "Gate \<Rightarrow> (nat \<Rightarrow> nat \<Rightarrow> real) \<Rightarrow> real" where
  "gate_energy g e = frontier_sum g (map (\<lambda>p. length (gp_events p)) (g_pins g)) e"

definition only_glitches :: "SimEnv \<Rightarrow> Gate \<Rightarrow> (nat \<Rightarrow> nat \<Rightarrow> real) \<Rightarrow> nat \<Rightarrow> nat \<Rightarrow> real" where
  "only_glitches env g e i j = (if event_is_glitch env g i j then e i j else 0)"

text \<open>The energy put into a waveform: the sum of its additions times the clock period.\<close>

definition wave_energy :: "SimEnv \<Rightarrow> WaveKind \<Rightarrow> LoopState \<Rightarrow> real" where
  "wave_energy env k st =
     se_clk_period env * sum_list (map (\<lambda>(k', c, a). if k' = k then a else 0) (ls_wave st))"

definition waves_balanced :: "SimEnv \<Rightarrow> LoopState \<Rightarrow> bool" where
  "waves_balanced env st \<longleftrightarrow>
     wave_energy env W_leakage st = ls_leakage st * sim_seconds env \<and>
     wave_energy env W_internal st = (ls_internal st + ls_glitch_internal st) * sim_seconds env \<and>
     wave_energy env W_glitch_internal st = ls_glitch_internal st * sim_seconds env \<and>
     wave_energy env W_switching st = (ls_switching st + ls_glitch_switching st) * sim_seconds env \<and>
     wave_energy env W_glitch_switching st = ls_glitch_switching st * sim_seconds env"

section \<open>Lemmas: an event returns its energy\<close>

lemma evalWhen_returns:
  "ports_known lp pm e (length st) \<Longrightarrow> \<exists>b. evalWhen lp pm e st = Inr b"
  by (induction e) (fastforce simp: whenPinIndex_def)+

lemma first_input_power_returns:
  "\<forall>pwr \<in> set pwrs. ports_known lp pm (ip_when pwr) (length st) \<Longrightarrow>
     \<exists>e. first_input_power lp pm st rf slew pwrs = Inr e"
proof (induction pwrs)
  case (Cons pwr pwrs)
  then obtain b where "evalWhen lp pm (ip_when pwr) st = Inr b" using evalWhen_returns by fastforce
  then show ?case using Cons by (simp add: isInternalPowerMatchPinStates_def)
qed simp

lemma first_output_power_returns:
  "\<forall>pwr \<in> set pwrs. ports_known (g_ports g) (g_pin_map g) (ip_when pwr) (length st) \<Longrightarrow>
     \<exists>e. first_output_power g related st rf slew cap pwrs = Inr e"
proof (induction pwrs)
  case (Cons pwr pwrs)
  then obtain b where "evalWhen (g_ports g) (g_pin_map g) (ip_when pwr) st = Inr b"
    using evalWhen_returns by fastforce
  then show ?case using Cons by (simp add: isInternalPowerMatchPinStates_def)
qed simp

lemma length_gate_state [simp]: "length (gate_state_at g t) = length (g_pins g)"
  by (simp add: gate_state_at_def)

lemma internal_val_returns:
  assumes "pin_ok g env pin" "length st = length (g_pins g)"
  shows "\<exists>e. findInputInternalVal g st pin rf = Inr e"
    and "\<exists>e. findOutputInternalVal env g st t pin rf = Inr e"
proof -
  have known: "\<forall>pwr \<in> set (gp_internal_powers pin).
      ports_known (g_ports g) (g_pin_map g) (ip_when pwr) (length st)"
    using assms by (simp add: pin_ok_def)
  show "\<exists>e. findInputInternalVal g st pin rf = Inr e"
    using first_input_power_returns [OF known] by (auto simp: findInputInternalVal_def split: option.split)
  show "\<exists>e. findOutputInternalVal env g st t pin rf = Inr e"
    using first_output_power_returns [OF known]
    by (auto simp: findOutputInternalVal_def Let_def split: option.split)
qed

lemma length_fold_update: "length (fold (\<lambda>i fl. fl[f i := True]) xs fl) = length fl"
  by (induction xs arbitrary: fl) auto

lemma length_glitch_loop: "length (glitch_loop p s evs c idxes fl) = length fl"
  by (induction p s evs c idxes fl rule: glitch_loop.induct)
     (auto simp: mark_glitches_def Let_def length_fold_update)

lemma length_pin_glitch_flags: "length (pin_glitch_flags env pin) = length (gp_events pin)"
  by (auto simp: pin_glitch_flags_def Let_def getEventClockCycleBasedGlitchFlags_def length_glitch_loop
      resize_flags_def)

lemma event_ratio_returns:
  assumes "pin_ok g env (g_pins g ! i)" "j < length (gp_events (g_pins g ! i))"
  shows "\<exists>r. event_ratio env g i j = Inr r"
proof -
  obtain a b where "gp_slew (g_pins g ! i) RISE = Some a" "gp_slew (g_pins g ! i) FALL = Some b"
    using assms(1) by (auto simp: pin_ok_def)
  then show ?thesis
    using assms(2) by (simp add: event_ratio_def getGlitchScalingRatio_def length_pin_glitch_flags Let_def)
qed

section \<open>Lemmas: one time of the loop\<close>

definition adds_events :: "SimEnv \<Rightarrow> Gate \<Rightarrow> (nat \<times> nat) list \<Rightarrow> LoopState \<Rightarrow> LoopState \<Rightarrow> bool" where
  "adds_events env g ps st st' \<longleftrightarrow>
     (ls_frontier st' = ls_frontier st \<and> ls_states st' = ls_states st \<and>
      ls_prev_states st' = ls_prev_states st \<and> ls_prev_time st' = ls_prev_time st \<and>
      ls_leakage st' = ls_leakage st) \<and>
     (ls_switching st' + ls_glitch_switching st') * sim_seconds env =
       (ls_switching st + ls_glitch_switching st) * sim_seconds env
         + (\<Sum>(i, j) \<leftarrow> ps. event_switching env g i j) \<and>
     ls_glitch_switching st' * sim_seconds env = ls_glitch_switching st * sim_seconds env
         + (\<Sum>(i, j) \<leftarrow> ps. only_glitches env g (event_switching env g) i j) \<and>
     (ls_internal st' + ls_glitch_internal st') * sim_seconds env =
       (ls_internal st + ls_glitch_internal st) * sim_seconds env
         + (\<Sum>(i, j) \<leftarrow> ps. event_internal env g i j) \<and>
     ls_glitch_internal st' * sim_seconds env = ls_glitch_internal st * sim_seconds env
         + (\<Sum>(i, j) \<leftarrow> ps. only_glitches env g (event_internal env g) i j) \<and>
     (waves_balanced env st \<longrightarrow> waves_balanced env st')"

lemma getNRise_nonneg: "0 \<le> getNRise p c"
  by (simp add: getNRise_def)

lemma wave_energy_append:
  "wave_energy env k (st\<lparr>ls_wave := ls_wave st @ adds\<rparr>) =
     wave_energy env k st + se_clk_period env * sum_list (map (\<lambda>(k', c, a). if k' = k then a else 0) adds)"
  by (simp add: wave_energy_def distrib_left)

lemma add_internal_effect:
  fixes st e r t
  assumes "0 < sim_seconds env" "0 < se_clk_period env"
  defines "st' \<equiv> add_internal env t e r st" and "E \<equiv> (if r > 0 then r else 1) * e"
  shows "ls_switching st' = ls_switching st" "ls_glitch_switching st' = ls_glitch_switching st"
    and "(ls_internal st' + ls_glitch_internal st') * sim_seconds env =
      (ls_internal st + ls_glitch_internal st) * sim_seconds env + E"
    and "ls_glitch_internal st' * sim_seconds env =
      ls_glitch_internal st * sim_seconds env + (if r > 0 then E else 0)"
    and "waves_balanced env st \<Longrightarrow> waves_balanced env st'"
  using assms(1,2)
  by (auto simp: st'_def E_def add_internal_def Let_def waves_balanced_def wave_energy_def field_simps)

lemma add_switching_effect:
  fixes st n r t pin
  assumes "0 < sim_seconds env" "0 < se_clk_period env" "0 \<le> n"
  defines "st' \<equiv> add_switching env pin t n r st"
    and "E \<equiv> (if r > 0 then r else 1) * (n * gp_switching_energy pin)"
  shows "ls_internal st' = ls_internal st" "ls_glitch_internal st' = ls_glitch_internal st"
    and "(ls_switching st' + ls_glitch_switching st') * sim_seconds env =
      (ls_switching st + ls_glitch_switching st) * sim_seconds env + E"
    and "ls_glitch_switching st' * sim_seconds env =
      ls_glitch_switching st * sim_seconds env + (if r > 0 then E else 0)"
    and "waves_balanced env st \<Longrightarrow> waves_balanced env st'"
  using assms(1,2,3)
  by (auto simp: st'_def E_def add_switching_def Let_def waves_balanced_def wave_energy_def field_simps)

lemma sim_seconds_pos: "gate_ok env g \<Longrightarrow> 0 < sim_seconds env \<and> 0 < se_clk_period env"
  by (simp add: gate_ok_def sim_seconds_def)

lemma process_pin_event:
  assumes ok: "gate_ok env g" and i: "i < length (g_pins g)" and j: "j < length (gp_events (g_pins g ! i))"
    and t: "event_time g i j = t"
    and states: "ls_prev_states st = gate_state_at g (t - 1)" "ls_states st = gate_state_at g t"
  shows "\<exists>st'. process_pin env g (map (pin_glitch_flags env) (g_pins g)) t i j st = Inr st' \<and>
    adds_events env g [(i, j)] st st'"
proof -
  define pin where "pin = g_pins g ! i"
  have pin: "pin_ok g env pin" using ok i by (simp add: gate_ok_def pin_def)
  obtain r where r: "event_ratio env g i j = Inr r"
    using event_ratio_returns [of g env i j] pin j by (auto simp: pin_def)
  have ratio: "getGlitchScalingRatio env pin (pin_glitch_flags env pin) j = Inr r"
    using r by (simp add: event_ratio_def pin_def)
  have vals: "ls_prev_states st ! i = pin_state_at pin (t - 1)" "ls_states st ! i = pin_state_at pin t"
    using i states by (simp_all add: gate_state_at_def pin_def)
  define rf where "rf = getRiseFallEdge (pin_state_at pin (t - 1)) (pin_state_at pin t)"
  note pos = sim_seconds_pos [OF ok, THEN conjunct1] sim_seconds_pos [OF ok, THEN conjunct2]
  note switching = add_switching_effect [OF pos getNRise_nonneg]
  note internal = add_internal_effect [OF pos]
  note energies = event_switching_def event_internal_def only_glitches_def event_is_glitch_def event_factor_def
  show ?thesis
  proof (cases "i < g_n_input g")
    case True
    obtain e where "findInputInternalVal g (gate_state_at g (t - 1)) pin rf = Inr e"
      using internal_val_returns(1) [OF pin length_gate_state] by blast
    then show ?thesis
      using True i t r ratio vals states
      by (simp add: process_pin_def adds_events_def Let_def add_energy_frame internal energies
          flip: pin_def rf_def)
  next
    case False
    obtain e where "findOutputInternalVal env g (gate_state_at g (t - 1)) t pin rf = Inr e"
      using internal_val_returns(2) [OF pin length_gate_state] by blast
    then show ?thesis
      using False i t r ratio vals states
      by (simp add: process_pin_def adds_events_def Let_def add_energy_frame internal switching energies
          flip: pin_def rf_def)
  qed
qed

lemma adds_events_trans:
  "adds_events env g ps st st1 \<Longrightarrow> adds_events env g qs st1 st2 \<Longrightarrow> adds_events env g (ps @ qs) st st2"
  by (simp add: adds_events_def)

lemma process_pins_events:
  assumes "gate_ok env g"
  shows "\<forall>(i, j) \<in> set ps. i < length (g_pins g) \<and> j < length (gp_events (g_pins g ! i)) \<and> event_time g i j = t \<Longrightarrow>
    ls_prev_states st = gate_state_at g (t - 1) \<Longrightarrow> ls_states st = gate_state_at g t \<Longrightarrow>
    \<exists>st'. process_pins env g (map (pin_glitch_flags env) (g_pins g)) t ps st = Inr st' \<and> adds_events env g ps st st'"
proof (induction ps arbitrary: st)
  case Nil
  then show ?case by (simp add: adds_events_def)
next
  case (Cons p ps)
  obtain i j where p: "p = (i, j)" by (cases p)
  obtain st1 where st1: "process_pin env g (map (pin_glitch_flags env) (g_pins g)) t i j st = Inr st1"
      "adds_events env g [(i, j)] st st1"
    using process_pin_event [OF assms, of i j t st] Cons.prems p by auto
  then have "ls_prev_states st1 = gate_state_at g (t - 1)" "ls_states st1 = gate_state_at g t"
    using Cons.prems by (simp_all add: adds_events_def)
  then obtain st' where "process_pins env g (map (pin_glitch_flags env) (g_pins g)) t ps st1 = Inr st'"
      "adds_events env g ps st1 st'"
    using Cons by auto
  then show ?case using st1 p adds_events_trans [OF st1(2), of ps st'] by simp
qed

lemma wave_energy_leakage:
  "wave_energy env k (st\<lparr>ls_leakage := l, ls_wave := ls_wave st @ map (Pair W_leakage) adds\<rparr>) =
     wave_energy env k st + (if k = W_leakage then se_clk_period env * sum_list (map snd adds) else 0)"
proof -
  have "sum_list (map (\<lambda>(k', c, a). if k' = k then a else 0) (map (Pair W_leakage) adds)) =
     (if k = W_leakage then sum_list (map snd adds) else (0 :: real))"
    by (induction adds) auto
  then show ?thesis by (simp add: wave_energy_def distrib_left del: map_map)
qed

definition energies_upto :: "SimEnv \<Rightarrow> Gate \<Rightarrow> LoopState \<Rightarrow> bool" where
  "energies_upto env g st \<longleftrightarrow>
     (ls_switching st + ls_glitch_switching st) * sim_seconds env =
       frontier_sum g (ls_frontier st) (event_switching env g) \<and>
     ls_glitch_switching st * sim_seconds env =
       frontier_sum g (ls_frontier st) (only_glitches env g (event_switching env g)) \<and>
     (ls_internal st + ls_glitch_internal st) * sim_seconds env =
       frontier_sum g (ls_frontier st) (event_internal env g) \<and>
     ls_glitch_internal st * sim_seconds env =
       frontier_sum g (ls_frontier st) (only_glitches env g (event_internal env g))"

lemma add_leakage_effect:
  assumes ok: "gate_ok env g" and "0 \<le> ls_prev_time st" "ls_prev_time st \<le> c"
  shows "\<exists>adds l. add_leakage env g c st = Inr (st\<lparr>ls_leakage := l, ls_wave := ls_wave st @ map (Pair W_leakage) adds\<rparr>) \<and>
    l * of_int (se_time_max env) = ls_leakage st * of_int (se_time_max env) +
      findLeakageVal (ls_prev_states st) (g_leakage_values g) (g_default_leakage g) (g_default_leakage_exists g) 0
        * of_int (c - ls_prev_time st) \<and>
    (waves_balanced env st \<longrightarrow>
       waves_balanced env (st\<lparr>ls_leakage := l, ls_wave := ls_wave st @ map (Pair W_leakage) adds\<rparr>))"
proof -
  define lv where "lv = findLeakageVal (ls_prev_states st) (g_leakage_values g) (g_default_leakage g)
    (g_default_leakage_exists g) 0"
  define l where "l = ls_leakage st + lv * of_int (c - ls_prev_time st) / of_int (se_time_max env)"
  have pos: "0 < se_time_scale env" "0 < se_clk_period env" "0 < se_time_max env"
    using ok by (simp_all add: gate_ok_def)
  obtain adds where adds: "calculatePerCycleLeakagePower lv (ls_prev_time st) c (se_time_scale env) (se_clk_period env) = Some adds"
    "sum_list (map snd adds) = lv * (of_int (c - ls_prev_time st) * se_time_scale env) / se_clk_period env"
    using leakage_cycles_sum [OF assms(2,3) pos(1,2)] by blast
  have res: "add_leakage env g c st = Inr (st\<lparr>ls_leakage := l, ls_wave := ls_wave st @ map (Pair W_leakage) adds\<rparr>)"
    using adds(1) by (simp add: add_leakage_def l_def lv_def Let_def)
  have total: "l * of_int (se_time_max env) = ls_leakage st * of_int (se_time_max env) + lv * of_int (c - ls_prev_time st)"
    using pos(3) by (simp add: l_def field_simps)
  moreover have "se_clk_period env * sum_list (map snd adds) = (l - ls_leakage st) * sim_seconds env"
    using adds(2) pos by (simp add: l_def sim_seconds_def)
  ultimately show ?thesis
    using res unfolding lv_def [symmetric]
    by (intro exI [of _ adds] exI [of _ l])
       (simp add: waves_balanced_def wave_energy_leakage left_diff_distrib)
qed

lemma pin_initial_consumed:
  "0 \<le> T \<Longrightarrow> snd (pin_initial pin) \<le> consumed pin T"
  by (auto simp: pin_initial_def consumed_def split: list.splits)

lemma frontier_sum_advance:
  assumes "length fs = length (g_pins g)"
    and "\<And>i. i < length (g_pins g) \<Longrightarrow> snd (pin_initial (g_pins g ! i)) \<le> fs ! i"
  shows "frontier_sum g (advance_frontiers t (g_pins g) fs) e =
    frontier_sum g fs e +
    (\<Sum>(i, j) \<leftarrow> map (\<lambda>i. (i, fs ! i)) (filter (\<lambda>i. pin_triggered t (g_pins g ! i) (fs ! i)) [0..<length (g_pins g)]). e i j)"
proof -
  have step: "(\<Sum>j = snd (pin_initial (g_pins g ! i))..<advance_frontiers t (g_pins g) fs ! i. e i j) =
      (\<Sum>j = snd (pin_initial (g_pins g ! i))..<fs ! i. e i j) +
      (if pin_triggered t (g_pins g ! i) (fs ! i) then e i (fs ! i) else 0)" if "i < length (g_pins g)" for i
    using assms(1) assms(2) [OF that] that by (simp add: advance_frontiers_def)
  have "(\<Sum>(i, j) \<leftarrow> map (\<lambda>i. (i, fs ! i)) (filter P [0..<n]). e i j) = (\<Sum>i = 0..<n. if P i then e i (fs ! i) else 0)"
    for P :: "nat \<Rightarrow> bool" and n
    by (induction n) (simp_all add: comp_def)
  then show ?thesis by (simp add: frontier_sum_def step sum.distrib)
qed

section \<open>The loop invariant\<close>

definition loop_inv :: "SimEnv \<Rightarrow> Gate \<Rightarrow> int \<Rightarrow> LoopState \<Rightarrow> bool" where
  "loop_inv env g T st \<longleftrightarrow>
     0 \<le> T \<and> T \<le> se_time_max env \<and> ls_prev_time st = T \<and>
     ls_frontier st = map (\<lambda>p. consumed p T) (g_pins g) \<and>
     ls_states st = gate_state_at g T \<and> ls_prev_states st = gate_state_at g T \<and>
     ls_leakage st * of_int (se_time_max env) = (\<Sum>t = 0..<T. gate_leakage_at g t) \<and>
     waves_balanced env st \<and> energies_upto env g st"

lemma next_time_facts:
  assumes ok: "gate_ok env g" and fs: "fs = map (\<lambda>p. consumed p T) (g_pins g)"
    and c: "c = next_time (se_time_max env + 10) (g_pins g) fs" "c \<noteq> se_time_max env + 10"
  shows "T < c" "c \<le> se_time_max env"
    and "p \<in> set (g_pins g) \<Longrightarrow> consumed p T < length (gp_events p) \<Longrightarrow> c \<le> fst (gp_events p ! consumed p T)"
proof -
  have zip: "set (zip (g_pins g) fs) = (\<lambda>p. (p, consumed p T)) ` set (g_pins g)"
    by (simp add: fs zip_map_self)
  obtain p where p: "p \<in> set (g_pins g)" "pin_triggered c p (consumed p T)"
    using next_time_fold(3) [where xs = "zip (g_pins g) fs" and m = "se_time_max env + 10"] c zip
    by (auto simp: next_time_def)
  then have e: "consumed p T < length (gp_events p)" "fst (gp_events p ! consumed p T) = c"
    by (simp_all add: pin_triggered_def)
  have ok': "pin_ok g env p" using ok p(1) by (simp add: gate_ok_def)
  show "T < c" using next_after [of "gp_events p" T] ok' e by (simp add: consumed_def pin_ok_def)
  show "c \<le> se_time_max env" using ok' e by (force simp: pin_ok_def)
  show "p \<in> set (g_pins g) \<Longrightarrow> consumed p T < length (gp_events p) \<Longrightarrow> c \<le> fst (gp_events p ! consumed p T)" for p
    using next_time_fold(2) [where xs = "zip (g_pins g) fs" and m = "se_time_max env + 10" and pin = p and f = "consumed p T"] zip c
    by (auto simp: next_time_def)
qed

lemma gate_advance:
  assumes ok: "gate_ok env g" and fs: "fs = map (\<lambda>p. consumed p T) (g_pins g)"
    and c: "c = next_time (se_time_max env + 10) (g_pins g) fs" "c \<noteq> se_time_max env + 10"
  shows "advance_frontiers c (g_pins g) fs = map (\<lambda>p. consumed p c) (g_pins g)"
    and "advance_states c (g_pins g) fs (gate_state_at g T) = gate_state_at g c"
    and "T \<le> t \<Longrightarrow> t < c \<Longrightarrow> gate_state_at g t = gate_state_at g T"
    and "i < length (g_pins g) \<Longrightarrow> pin_triggered c (g_pins g ! i) (fs ! i) \<Longrightarrow>
      fs ! i < length (gp_events (g_pins g ! i)) \<and> event_time g i (fs ! i) = c"
proof -
  note facts = next_time_facts [OF ok fs c]
  have sorted: "sorted_wrt (<) (map fst (gp_events p))" if "p \<in> set (g_pins g)" for p
    using ok that by (simp add: gate_ok_def pin_ok_def)
  note trig = pin_triggered_consumed [OF sorted facts(1) facts(3)]
  show "advance_frontiers c (g_pins g) fs = map (\<lambda>p. consumed p c) (g_pins g)"
    using trig(1) by (simp add: advance_frontiers_def fs zip_map_self)
  show "advance_states c (g_pins g) fs (gate_state_at g T) = gate_state_at g c"
  proof -
    have "zip (zip (g_pins g) fs) (gate_state_at g T) =
        map (\<lambda>p. ((p, consumed p T), pin_state_at p T)) (g_pins g)"
      unfolding fs gate_state_at_def by (rule zip3_map_self)
    then show ?thesis using trig(2) by (simp add: advance_states_def gate_state_at_def)
  qed
  show "T \<le> t \<Longrightarrow> t < c \<Longrightarrow> gate_state_at g t = gate_state_at g T"
    unfolding gate_state_at_def by (intro map_cong [OF refl]) (rule trig(3))
  show "i < length (g_pins g) \<Longrightarrow> pin_triggered c (g_pins g ! i) (fs ! i) \<Longrightarrow>
      fs ! i < length (gp_events (g_pins g ! i)) \<and> event_time g i (fs ! i) = c"
    by (simp add: pin_triggered_def event_time_def)
qed

lemma leakage_sum_extend:
  assumes "0 \<le> T" "T \<le> c" "\<And>t. T \<le> t \<Longrightarrow> t < c \<Longrightarrow> gate_state_at g t = gate_state_at g T"
  shows "(\<Sum>t = 0..<c. gate_leakage_at g t) =
    (\<Sum>t = 0..<T. gate_leakage_at g t) + gate_leakage_at g T * of_int (c - T)"
proof -
  have "(\<Sum>t = T..<c. gate_leakage_at g t) = (\<Sum>t = T..<c. gate_leakage_at g T)"
  proof (rule sum.cong [OF refl])
    fix t assume "t \<in> {T..<c}"
    then have "gate_state_at g t = gate_state_at g T" using assms(3) [of t] by simp
    then show "gate_leakage_at g t = gate_leakage_at g T" unfolding gate_leakage_at_def by (simp only:)
  qed
  also have "\<dots> = of_nat (card {T..<c}) * gate_leakage_at g T" by (rule sum_constant)
  also have "\<dots> = gate_leakage_at g T * of_int (c - T)" using assms(2) by simp
  finally have "(\<Sum>t = T..<c. gate_leakage_at g t) = gate_leakage_at g T * of_int (c - T)" .
  moreover have "{0..<c} = {0..<T} \<union> {T..<c}" using assms(1,2) by auto
  ultimately show ?thesis by (simp add: sum.union_disjoint)
qed

lemma loop_step_inv:
  assumes ok: "gate_ok env g" and inv: "loop_inv env g T st"
    and c: "c = next_time (se_time_max env + 10) (g_pins g) (ls_frontier st)" "c \<noteq> se_time_max env + 10"
  shows "\<exists>st'. loop_step env g (map (pin_glitch_flags env) (g_pins g)) c st = Inr st' \<and> loop_inv env g c st'"
proof -
  define fs where "fs = ls_frontier st"
  define trig where "trig = filter (\<lambda>i. pin_triggered c (g_pins g ! i) (fs ! i)) [0..<length (g_pins g)]"
  define st1 where "st1 = st\<lparr>ls_frontier := advance_frontiers c (g_pins g) fs,
                   ls_states := advance_states c (g_pins g) fs (ls_states st)\<rparr>"
  have fs: "fs = map (\<lambda>p. consumed p T) (g_pins g)" using inv by (simp add: loop_inv_def fs_def)
  have c': "c = next_time (se_time_max env + 10) (g_pins g) fs" using c(1) by (simp add: fs_def)
  note facts = next_time_facts [OF ok fs c' c(2)] and adv = gate_advance [OF ok fs c' c(2)]
  have T: "0 \<le> T" "T \<le> c" using inv facts(1) by (simp_all add: loop_inv_def)
  have st1: "ls_frontier st1 = map (\<lambda>p. consumed p c) (g_pins g)" "ls_states st1 = gate_state_at g c"
      "ls_prev_states st1 = gate_state_at g T" "ls_prev_time st1 = T" "ls_leakage st1 = ls_leakage st"
    using inv adv(1,2) by (simp_all add: st1_def loop_inv_def)
  have bal1: "waves_balanced env st1"
    using inv by (simp add: st1_def loop_inv_def waves_balanced_def wave_energy_def)
  obtain adds l where leak: "add_leakage env g c st1 =
        Inr (st1\<lparr>ls_leakage := l, ls_wave := ls_wave st1 @ map (Pair W_leakage) adds\<rparr>)"
      "l * of_int (se_time_max env) = ls_leakage st * of_int (se_time_max env) + gate_leakage_at g T * of_int (c - T)"
      "waves_balanced env (st1\<lparr>ls_leakage := l, ls_wave := ls_wave st1 @ map (Pair W_leakage) adds\<rparr>)"
    using add_leakage_effect [OF ok, of st1 c] st1 T bal1 by (auto simp: gate_leakage_at_def)
  define st2 where "st2 = st1\<lparr>ls_leakage := l, ls_wave := ls_wave st1 @ map (Pair W_leakage) adds\<rparr>"
  have st2: "ls_prev_states st2 = gate_state_at g (c - 1)" "ls_states st2 = gate_state_at g c"
    using st1 adv(3) [of "c - 1"] facts(1) by (simp_all add: st2_def)
  obtain st3 where st3: "process_pins env g (map (pin_glitch_flags env) (g_pins g)) c (map (\<lambda>i. (i, fs ! i)) trig) st2 = Inr st3"
      "adds_events env g (map (\<lambda>i. (i, fs ! i)) trig) st2 st3"
    using process_pins_events [OF ok _ st2, of "map (\<lambda>i. (i, fs ! i)) trig"] adv(4) by (auto simp: trig_def)
  define st' where "st' = st3\<lparr>ls_prev_time := c, ls_prev_states := ls_states st3\<rparr>"
  have res: "loop_step env g (map (pin_glitch_flags env) (g_pins g)) c st = Inr st'"
    using leak(1) st3(1) by (simp add: loop_step_def Let_def st'_def st1_def st2_def fs_def trig_def)
  have frontier: "ls_frontier st' = advance_frontiers c (g_pins g) fs"
    using st3(2) by (simp add: st'_def st2_def st1_def adds_events_def)
  have sums: "frontier_sum g (ls_frontier st') e = frontier_sum g fs e +
      (\<Sum>(i, j) \<leftarrow> map (\<lambda>i. (i, fs ! i)) trig. e i j)" for e
    unfolding frontier trig_def by (rule frontier_sum_advance) (simp_all add: fs pin_initial_consumed T(1))
  have "energies_upto env g st'"
    using inv st3(2) unfolding energies_upto_def sums loop_inv_def
    by (simp add: adds_events_def st'_def st2_def st1_def fs_def del: map_map)
  moreover have "waves_balanced env st'"
    using st3(2) leak(3) by (simp add: adds_events_def st'_def st2_def waves_balanced_def wave_energy_def)
  moreover have "ls_leakage st' * of_int (se_time_max env) = (\<Sum>t = 0..<c. gate_leakage_at g t)"
    using leakage_sum_extend [OF T adv(3)] leak(2) inv st3(2)
    by (simp add: adds_events_def st'_def st2_def loop_inv_def)
  ultimately have "loop_inv env g c st'"
    using facts(2) T st3(2) st1 frontier adv(1) by (simp add: loop_inv_def adds_events_def st'_def st2_def)
  with res show ?thesis by blast
qed

lemma power_loop_inv:
  assumes "gate_ok env g"
  shows "flags = map (pin_glitch_flags env) (g_pins g) \<Longrightarrow> loop_inv env g T st \<Longrightarrow>
    \<exists>st' T'. power_loop env g flags st = Inr st' \<and> loop_inv env g T' st' \<and>
      next_time (se_time_max env + 10) (g_pins g) (ls_frontier st') = se_time_max env + 10"
  using assms
proof (induction env g flags st arbitrary: T rule: power_loop.induct)
  case (1 env g flags st)
  define c where "c = next_time (se_time_max env + 10) (g_pins g) (ls_frontier st)"
  show ?case
  proof (cases "c = se_time_max env + 10")
    case True
    then show ?thesis using "1.prems" by (subst power_loop.simps) (auto simp: Let_def c_def)
  next
    case False
    obtain st1 where st1: "loop_step env g flags c st = Inr st1" "loop_inv env g c st1"
      using loop_step_inv [OF "1.prems"(3,2) c_def False] "1.prems"(1) by blast
    have "power_loop env g flags st = power_loop env g flags st1"
      using False st1(1) by (subst power_loop.simps) (simp add: Let_def c_def)
    then show ?thesis
      using "1.IH" [OF refl refl, folded c_def, OF False st1(1) "1.prems"(1) st1(2) "1.prems"(3)] by simp
  qed
qed

lemma pin_initial_state:
  assumes "pin_ok g env pin"
  shows "fst (pin_initial pin) = pin_state_at pin 0" and "snd (pin_initial pin) = consumed pin 0"
proof -
  have "fst (pin_initial pin) = pin_state_at pin 0 \<and> snd (pin_initial pin) = consumed pin 0"
  proof (cases "gp_events pin")
    case Nil
    then show ?thesis by (simp add: pin_initial_def pin_state_at_def consumed_def)
  next
    case (Cons e es)
    then have "0 \<le> fst e" and "filter (\<lambda>e. fst e \<le> 0) es = []"
      using assms sorted_all_gt [of e es 0] by (simp_all add: pin_ok_def)
    then show ?thesis using Cons by (cases e) (auto simp: pin_initial_def pin_state_at_def consumed_def)
  qed
  then show "fst (pin_initial pin) = pin_state_at pin 0" "snd (pin_initial pin) = consumed pin 0" by auto
qed

lemma loop_initial_inv:
  assumes ok: "gate_ok env g"
  shows "loop_inv env g 0 (loop_initial g)"
proof -
  have pins: "\<forall>p \<in> set (g_pins g). fst (pin_initial p) = pin_state_at p 0 \<and> snd (pin_initial p) = consumed p 0"
    using ok pin_initial_state by (fastforce simp: gate_ok_def)
  have "energies_upto env g (loop_initial g)"
    by (simp add: energies_upto_def frontier_sum_def loop_initial_def)
  moreover have "waves_balanced env (loop_initial g)"
    by (simp add: waves_balanced_def wave_energy_def loop_initial_def)
  ultimately show ?thesis
    using ok pins by (simp add: loop_inv_def loop_initial_def gate_state_at_def gate_ok_def)
qed

lemma all_consumed:
  assumes ok: "gate_ok env g" and inv: "loop_inv env g T st" and p: "p \<in> set (g_pins g)"
    and stop: "next_time (se_time_max env + 10) (g_pins g) (ls_frontier st) = se_time_max env + 10"
  shows "consumed p T = length (gp_events p)"
    and "T \<le> t \<Longrightarrow> pin_state_at p t = pin_state_at p T"
proof -
  have ok': "pin_ok g env p" using ok p by (simp add: gate_ok_def)
  have done': "\<not> consumed p T < length (gp_events p)"
  proof
    assume less: "consumed p T < length (gp_events p)"
    have "(p, consumed p T) \<in> set (zip (g_pins g) (ls_frontier st))"
      using inv p by (simp add: loop_inv_def zip_map_self)
    from next_time_fold(2) [OF this less, of "se_time_max env + 10"]
    have "se_time_max env + 10 \<le> fst (gp_events p ! consumed p T)" using stop by (simp add: next_time_def)
    moreover have "fst (gp_events p ! consumed p T) \<le> se_time_max env" using ok' less by (force simp: pin_ok_def)
    ultimately show False by simp
  qed
  then show "consumed p T = length (gp_events p)" by (simp add: consumed_def not_less le_antisym)
  show "T \<le> t \<Longrightarrow> pin_state_at p t = pin_state_at p T"
    using filter_between [of "gp_events p" T t] ok' done' by (simp add: pin_state_at_def consumed_def pin_ok_def)
qed

lemma gate_power_computed:
  assumes ok: "gate_ok env g"
  shows "\<exists>st. findTimeBasedAllPower env g = Inr st \<and>
    ls_leakage st * of_int (se_time_max env) = (\<Sum>t = 0..<se_time_max env. gate_leakage_at g t) \<and>
    waves_balanced env st \<and>
    (ls_switching st + ls_glitch_switching st) * sim_seconds env = gate_energy g (event_switching env g) \<and>
    ls_glitch_switching st * sim_seconds env = gate_energy g (only_glitches env g (event_switching env g)) \<and>
    (ls_internal st + ls_glitch_internal st) * sim_seconds env = gate_energy g (event_internal env g) \<and>
    ls_glitch_internal st * sim_seconds env = gate_energy g (only_glitches env g (event_internal env g))"
proof -
  obtain st1 T where st1: "power_loop env g (map (pin_glitch_flags env) (g_pins g)) (loop_initial g) = Inr st1"
      "loop_inv env g T st1"
      "next_time (se_time_max env + 10) (g_pins g) (ls_frontier st1) = se_time_max env + 10"
    using power_loop_inv [OF ok refl loop_initial_inv [OF ok]] by blast
  have T: "0 \<le> T" "T \<le> se_time_max env" "ls_prev_time st1 = T" "ls_prev_states st1 = gate_state_at g T"
    using st1(2) by (simp_all add: loop_inv_def)
  have const: "gate_state_at g t = gate_state_at g T" if "T \<le> t" "t < se_time_max env" for t
    unfolding gate_state_at_def by (intro map_cong [OF refl]) (rule all_consumed(2) [OF ok st1(2) _ st1(3) that(1)])
  have frontier: "ls_frontier st1 = map (\<lambda>p. length (gp_events p)) (g_pins g)"
    using st1(2) all_consumed(1) [OF ok st1(2) _ st1(3)] by (simp add: loop_inv_def)
  obtain adds l where leak: "add_leakage env g (se_time_max env) st1 =
        Inr (st1\<lparr>ls_leakage := l, ls_wave := ls_wave st1 @ map (Pair W_leakage) adds\<rparr>)"
      "l * of_int (se_time_max env) = ls_leakage st1 * of_int (se_time_max env)
         + gate_leakage_at g T * of_int (se_time_max env - T)"
      "waves_balanced env (st1\<lparr>ls_leakage := l, ls_wave := ls_wave st1 @ map (Pair W_leakage) adds\<rparr>)"
    using add_leakage_effect [OF ok, of st1 "se_time_max env"] T st1(2)
    by (auto simp: gate_leakage_at_def loop_inv_def)
  show ?thesis
    using st1(1,2) leak leakage_sum_extend [OF T(1,2) const]
    by (intro exI [of _ "st1\<lparr>ls_leakage := l, ls_wave := ls_wave st1 @ map (Pair W_leakage) adds\<rparr>"])
       (simp add: findTimeBasedAllPower_def loop_inv_def energies_upto_def gate_energy_def frontier)
qed

section \<open>An inverter\<close>

text \<open>A gate to evaluate the model on: the input rises at 5 and the output falls at 6 and rises at 7, of 10 time units.\<close>

definition inverter_env :: SimEnv where
  "inverter_env = \<lparr>se_time_max = 10, se_time_scale = 1/2, se_clk_period = 2\<rparr>"

definition inverter_pin :: "PinId \<Rightarrow> (int \<times> VcdEventVal) list \<Rightarrow> GatePin" where
  "inverter_pin p evs =
     \<lparr>gp_pin = p, gp_events = evs, gp_is_clock = False, gp_default = None, gp_slew = (\<lambda>_. Some 1),
      gp_load_cap = 1, gp_switching_energy = 2, gp_has_corner = True,
      gp_internal_powers = [\<lparr>ip_when = FE_not (FE_port 0), ip_related = None, ip_power = (\<lambda>_ _ _. 3)\<rparr>]\<rparr>"

definition inverter_ports :: PortStore where
  "inverter_ports p =
     \<lparr>lp_name = (if p = 0 then ''A'' else ''ZN''), lp_direction = (if p = 0 then PD_input else PD_output),
      lp_is_bus = False, lp_is_bundle = False, lp_from_index = 0, lp_to_index = 0, lp_members = []\<rparr>"

definition inverter :: Gate where
  "inverter =
     \<lparr>g_pins = [inverter_pin 0 [(0, 0), (5, 1)], inverter_pin 1 [(0, 1), (6, 0), (7, 1)]], g_n_input = 1,
      g_ports = inverter_ports, g_pin_map = [(''A'', 0), (''ZN'', 1)], g_arc_delay = (\<lambda>_ _ _ _. None),
      g_leakage_values = [1, 2, 3, 4], g_default_leakage = 0, g_default_leakage_exists = False\<rparr>"

lemma inverter_ok: "gate_ok inverter_env inverter"
  by (auto simp: gate_ok_def pin_ok_def inverter_env_def inverter_def inverter_pin_def inverter_ports_def)

lemma inverter_leakage: "(\<Sum>t = 0..<10. gate_leakage_at inverter t) = 33"
proof -
  have "{0..<10 :: int} = {0, 1, 2, 3, 4, 5, 6, 7, 8, 9}"
    by (intro set_eqI, simp only: atLeastLessThan_iff insert_iff empty_iff) presburger
  then show ?thesis
    by (simp add: gate_leakage_at_def gate_state_at_def pin_state_at_def inverter_def inverter_pin_def
        findLeakageVal_def getPinStatesIndex_def)
qed

lemma inverter_energies:
  "gate_energy inverter (event_switching inverter_env inverter) = 1 / 2"
  "gate_energy inverter (only_glitches inverter_env inverter (event_switching inverter_env inverter)) = 1 / 2"
  "gate_energy inverter (event_internal inverter_env inverter) = 3"
  by (code_simp)+



text \<open>C7: Switching and internal power charge every event of every pin once: each power times the simulated
  seconds is the sum over the events of the energy of the transition in the states before and at it, scaled
  for glitches; the glitch powers are the same sums over the glitch events only.\<close>

theorem gate_event_energies:
  assumes "gate_ok env g"
  shows "\<exists>st. timeBasedPower env g = Inr st \<and>
    ls_switching st = gate_energy g (event_switching env g) / sim_seconds env \<and>
    ls_glitch_switching st = gate_energy g (only_glitches env g (event_switching env g)) / sim_seconds env \<and>
    ls_internal st = gate_energy g (event_internal env g) / sim_seconds env \<and>
    ls_glitch_internal st = gate_energy g (only_glitches env g (event_internal env g)) / sim_seconds env"
  using gate_power_computed [OF assms] sim_seconds_pos [OF assms]
  by (auto simp: timeBasedPower_def field_simps)

theorem gate_event_energies_witness:
  "\<exists>st. timeBasedPower inverter_env inverter = Inr st \<and>
     ls_switching st = 1 / 10 \<and> ls_glitch_switching st = 1 / 10 \<and> ls_internal st = 3 / 5"
  using gate_event_energies [OF inverter_ok]
  by (auto simp: sim_seconds_def inverter_energies) (auto simp: inverter_env_def)



end
