(* ===== verification/GTP_CudaLut.thy ===== *)
theory GTP_CudaLut
  imports GTP_PowerTime
begin

text \<open>
  The internal power tables of the device: one- and two-dimensional tables with linear interpolation and
  extrapolation (\<open>util/cuda/OneDimensionalLUT.cuh\<close>, \<open>util/cuda/TwoDimensionalLUT.cuh\<close>), and the construction
  of the tables of a port from its internal power groups (\<open>power/cuda/CudaPower.cu\<close>), both as an array indexed
  by the state of the pins and as a list in the order of the groups. An assertion of the device code and a null
  table are errors of the model, and so is a \<open>LOG_ERROR\<close>, which ends the program.
\<close>

section \<open>One-dimensional tables\<close>

record LUT1D =
  l1_is_scalar :: bool
  l1_scalar_value :: real
  l1_axis :: "real list"
  l1_table :: "real list"

fun validateStrictlyIncreasing :: "real list \<Rightarrow> bool" where
  "validateStrictlyIncreasing (a # b # xs) = (a < b \<and> validateStrictlyIncreasing (b # xs))"
| "validateStrictlyIncreasing _ = True"

definition OneDimensionalLUT :: "real list \<Rightarrow> real list \<Rightarrow> bool \<Rightarrow> real \<Rightarrow> power_error + LUT1D" where
  "OneDimensionalLUT axis table is_scalar scalar_value =
     (if is_scalar then Inr \<lparr>l1_is_scalar = True, l1_scalar_value = scalar_value, l1_axis = [], l1_table = []\<rparr>
      else if length axis = 0 \<or> \<not> validateStrictlyIncreasing axis then Inl AssertFailed
      else Inr \<lparr>l1_is_scalar = False, l1_scalar_value = scalar_value, l1_axis = axis, l1_table = table\<rparr>)"

text \<open>The segment of an axis to interpolate in; outside the axis, its first or last segment.\<close>

definition findSegment :: "real list \<Rightarrow> real \<Rightarrow> power_error + (nat \<times> nat)" where
  "findSegment axis value =
     (let dim = length axis in
      if dim < 2 then Inl AssertFailed
      else if value \<le> axis ! 0 then Inr (0, 1)
      else if value \<ge> axis ! (dim - 1) then Inr (dim - 2, dim - 1)
      else case find (\<lambda>i. value \<le> axis ! i) [1..<dim] of
          Some i \<Rightarrow> Inr (i - 1, i)
        | None \<Rightarrow> Inr (dim - 2, dim - 1))"

definition lookUpValue1 :: "LUT1D \<Rightarrow> real \<Rightarrow> power_error + real" where
  "lookUpValue1 lut x0 =
     (if l1_is_scalar lut then Inr (l1_scalar_value lut)
      else let x = l1_axis lut; tbl = l1_table lut in
      if length x = 0 then Inl AssertFailed
      else if length x = 1 then Inr (tbl ! 0)
      else res_bind (findSegment x x0) (\<lambda>(x1_idx, x2_idx).
        let x_diff = x ! x2_idx - x ! x1_idx in
        if x_diff = 0 then Inl AssertFailed
        else let x01 = (x0 - x ! x1_idx) / x_diff in
             Inr (tbl ! x1_idx + x01 * (tbl ! x2_idx - tbl ! x1_idx))))"

section \<open>Two-dimensional tables\<close>

record LUT2D =
  l2_is_scalar :: bool
  l2_scalar_value :: real
  l2_axis1 :: "real list"
  l2_axis2 :: "real list"
  l2_table :: "real list"

definition copyDeviceArrays :: "real list \<Rightarrow> real list \<Rightarrow> real list \<Rightarrow> power_error + LUT2D" where
  "copyDeviceArrays axis1 axis2 table =
     (if length axis1 = 0 \<or> length axis2 = 0 \<or> \<not> validateStrictlyIncreasing axis1
         \<or> \<not> validateStrictlyIncreasing axis2 then Inl AssertFailed
      else Inr \<lparr>l2_is_scalar = False, l2_scalar_value = 0, l2_axis1 = axis1, l2_axis2 = axis2, l2_table = table\<rparr>)"

text \<open>From the rows of a table: every row must have the length of the second axis.\<close>

definition TwoDimensionalLUT :: "real list \<Rightarrow> real list \<Rightarrow> real list list \<Rightarrow> power_error + LUT2D" where
  "TwoDimensionalLUT axis1 axis2 rows =
     (if length axis1 = 0 \<or> length axis2 = 0 \<or> length axis1 \<noteq> length rows
         \<or> (\<exists>row \<in> set rows. length axis2 \<noteq> length row) then Inl AssertFailed
      else copyDeviceArrays axis1 axis2 (concat rows))"

definition TwoDimensionalLUT_scalar :: "real \<Rightarrow> LUT2D" where
  "TwoDimensionalLUT_scalar v =
     \<lparr>l2_is_scalar = True, l2_scalar_value = v, l2_axis1 = [], l2_axis2 = [], l2_table = []\<rparr>"

text \<open>A table over the load only becomes a table with one row.\<close>

definition TwoDimensionalLUT_of_1D :: "real list \<Rightarrow> real list \<Rightarrow> power_error + LUT2D" where
  "TwoDimensionalLUT_of_1D axis2 table = copyDeviceArrays [0] axis2 table"

definition interpolate :: "real \<Rightarrow> real \<Rightarrow> real \<Rightarrow> real \<Rightarrow> real \<Rightarrow> power_error + real" where
  "interpolate value lower_axis upper_axis lower_value upper_value =
     (let axis_diff = upper_axis - lower_axis in
      if axis_diff = 0 then Inl AssertFailed
      else let ratio = (value - lower_axis) / axis_diff in
           Inr (lower_value + ratio * (upper_value - lower_value)))"

definition lookUpValue2 :: "LUT2D \<Rightarrow> real \<Rightarrow> real \<Rightarrow> power_error + real" where
  "lookUpValue2 lut x0 y0 =
     (if l2_is_scalar lut then Inr (l2_scalar_value lut)
      else let x = l2_axis1 lut; y = l2_axis2 lut; tbl = l2_table lut; n2 = length y in
      if length x = 0 \<or> n2 = 0 then Inl AssertFailed
      else if length x = 1 \<and> n2 = 1 then Inr (tbl ! 0)
      else if length x = 1 then
        res_bind (findSegment y y0) (\<lambda>(y1, y2). interpolate y0 (y ! y1) (y ! y2) (tbl ! y1) (tbl ! y2))
      else if n2 = 1 then
        res_bind (findSegment x x0) (\<lambda>(x1, x2).
          interpolate x0 (x ! x1) (x ! x2) (tbl ! (x1 * n2)) (tbl ! (x2 * n2)))
      else
        res_bind (findSegment x x0) (\<lambda>(x1, x2). res_bind (findSegment y y0) (\<lambda>(y1, y2).
          let x_diff = x ! x2 - x ! x1; y_diff = y ! y2 - y ! y1 in
          if x_diff = 0 \<or> y_diff = 0 then Inl AssertFailed
          else
            let x01 = (x0 - x ! x1) / x_diff; x20 = (x ! x2 - x0) / x_diff;
                y01 = (y0 - y ! y1) / y_diff; y20 = (y ! y2 - y0) / y_diff
            in Inr (x20 * y20 * tbl ! (x1 * n2 + y1) + x20 * y01 * tbl ! (x1 * n2 + y2)
                    + x01 * y20 * tbl ! (x2 * n2 + y1) + x01 * y01 * tbl ! (x2 * n2 + y2)))))"

section \<open>Pairs of tables with a condition\<close>

definition MAX_N_PIN :: nat where
  "MAX_N_PIN = 150"

record 'l LUTPair =
  tp_rise :: "'l option"
  tp_fall :: "'l option"
  tp_satisfiable :: bool
  tp_when_state :: "VcdEventVal list"

definition setWhenState :: "VcdEventVal list \<Rightarrow> bool \<Rightarrow> 'l LUTPair \<Rightarrow> power_error + 'l LUTPair" where
  "setWhenState ws satisfiable p =
     (if length ws \<le> MAX_N_PIN
      then Inr (p\<lparr>tp_satisfiable := satisfiable,
                 tp_when_state := ws @ replicate (MAX_N_PIN - length ws) INVALID_VCD_EVENT_VAL\<rparr>)
      else Inl AssertFailed)"

definition matchPinStates :: "'l LUTPair \<Rightarrow> VcdEventVal list \<Rightarrow> nat \<Rightarrow> bool" where
  "matchPinStates p pin_states n_pin \<longleftrightarrow>
     tp_satisfiable p \<and>
     list_all (\<lambda>i. tp_when_state p ! i = INVALID_VCD_EVENT_VAL \<or>
                  tp_when_state p ! i = (if pin_states ! i = 2 \<or> pin_states ! i = 0 then 0 else 1)) [0..<n_pin]"

definition pair_table :: "'l LUTPair \<Rightarrow> RISEFALL \<Rightarrow> power_error + 'l" where
  "pair_table p rf =
     (case (case rf of FALL \<Rightarrow> tp_fall p | RISE \<Rightarrow> tp_rise p) of None \<Rightarrow> Inl AssertFailed | Some t \<Rightarrow> Inr t)"

definition lookUp1 :: "LUT1D LUTPair \<Rightarrow> real \<Rightarrow> RISEFALL \<Rightarrow> power_error + real" where
  "lookUp1 p slew rf = res_bind (pair_table p rf) (\<lambda>t. lookUpValue1 t slew)"

definition lookUp2 :: "LUT2D LUTPair \<Rightarrow> real \<Rightarrow> real \<Rightarrow> RISEFALL \<Rightarrow> power_error + real" where
  "lookUp2 p slew cap rf = res_bind (pair_table p rf) (\<lambda>t. lookUpValue2 t slew cap)"

section \<open>Tables of a port\<close>

text \<open>
  The tables of a cell as the library reader leaves them: \<open>PT1\<close> has a flag that its axis is the total output
  capacitance; \<open>PT_other\<close> stands for the other shapes, which the construction rejects.
\<close>

datatype PowerTable =
  PT0 real
| PT1 bool "real list" "real list"
| PT2 "real list" "real list" "real list list"
| PT_other

record PortPower =
  pp_when :: FuncExpr
  pp_related :: "string option"
  pp_table :: "RISEFALL \<Rightarrow> PowerTable"

fun input_lut :: "PowerTable \<Rightarrow> power_error + LUT1D" where
  "input_lut (PT1 load axis vals) = OneDimensionalLUT axis vals False 0"
| "input_lut (PT0 v) = OneDimensionalLUT [] [] True v"
| "input_lut _ = Inl AssertFailed"

fun output_lut :: "PowerTable \<Rightarrow> power_error + LUT2D" where
  "output_lut (PT2 axis1 axis2 rows) = TwoDimensionalLUT axis1 axis2 rows"
| "output_lut (PT0 v) = Inr (TwoDimensionalLUT_scalar v)"
| "output_lut (PT1 load axis vals) = (if load then TwoDimensionalLUT_of_1D axis vals else Inl AssertFailed)"
| "output_lut PT_other = Inl AssertFailed"

text \<open>One group: its pair of tables, and the states its condition expands to, which the pair overwrites.\<close>

definition make_pair ::
  "(PowerTable \<Rightarrow> power_error + 'l) \<Rightarrow> PortStore \<Rightarrow> PinMap \<Rightarrow> PortPower \<Rightarrow> power_error + 'l LUTPair" where
  "make_pair mk lp pm pwr =
     res_bind (getWhenPinStates lp (pp_when pwr) pm) (\<lambda>(satisfiable, ws).
     res_bind (mk (pp_table pwr RISE)) (\<lambda>rise.
     res_bind (mk (pp_table pwr FALL)) (\<lambda>fall.
       setWhenState ws satisfiable
         \<lparr>tp_rise = Some rise, tp_fall = Some fall, tp_satisfiable = True, tp_when_state = []\<rparr>)))"

fun write_states :: "'l LUTPair \<Rightarrow> nat list \<Rightarrow> 'l LUTPair option list \<Rightarrow> power_error + 'l LUTPair option list" where
  "write_states p [] tbl = Inr tbl"
| "write_states p (i # is) tbl =
     (if i < length tbl then write_states p is (tbl[i := Some p]) else Inl StateOutOfRange)"

fun build_luts ::
  "(PowerTable \<Rightarrow> power_error + 'l) \<Rightarrow> PortStore \<Rightarrow> PinMap \<Rightarrow> bool \<Rightarrow> PortPower list
     \<Rightarrow> 'l LUTPair option list \<times> 'l LUTPair list \<Rightarrow> power_error + ('l LUTPair option list \<times> 'l LUTPair list)"
where
  "build_luts mk lp pm indexed [] acc = Inr acc"
| "build_luts mk lp pm indexed (pwr # pwrs) (tbl, ordered) =
     res_bind (make_pair mk lp pm pwr) (\<lambda>p.
     res_bind (if indexed then res_bind (getStateIdx lp pm (pp_when pwr)) (\<lambda>idxs. write_states p idxs tbl)
               else Inr tbl) (\<lambda>tbl'.
       build_luts mk lp pm indexed pwrs (tbl', ordered @ [p])))"

text \<open>
  The state-indexed array, absent when the cell has more pins than the limit or no groups, and the list.
\<close>

definition port_luts ::
  "(PowerTable \<Rightarrow> power_error + 'l) \<Rightarrow> nat \<Rightarrow> PortStore \<Rightarrow> PinMap \<Rightarrow> nat \<Rightarrow> PortPower list
     \<Rightarrow> power_error + ('l LUTPair option list option \<times> 'l LUTPair list)" where
  "port_luts mk max_n_pin lp pm n_pin pwrs =
     (if pwrs = [] then Inr (None, [])
      else let indexed = n_pin \<le> max_n_pin in
        res_bind (build_luts mk lp pm indexed pwrs (replicate (if indexed then 2 ^ n_pin else 0) None, []))
          (\<lambda>(tbl, ordered). Inr (if indexed then Some tbl else None, ordered)))"

definition getInputInternalPower ::
  "nat \<Rightarrow> PortStore \<Rightarrow> PinMap \<Rightarrow> nat \<Rightarrow> PortPower list
     \<Rightarrow> power_error + (LUT1D LUTPair option list option \<times> LUT1D LUTPair list)" where
  "getInputInternalPower = port_luts input_lut"

text \<open>
  For an output port, the groups with the name of the related port, or those without a related pin; a related
  port that has neither gets no tables.
\<close>

definition related_groups :: "PortPower list \<Rightarrow> string \<Rightarrow> PortPower list" where
  "related_groups pwrs related =
     (let named = filter (\<lambda>p. pp_related p = Some related) pwrs in
      if named \<noteq> [] then named else filter (\<lambda>p. pp_related p = None) pwrs)"

definition getOutputInternalPower ::
  "nat \<Rightarrow> PortStore \<Rightarrow> PinMap \<Rightarrow> nat \<Rightarrow> PortPower list \<Rightarrow> string
     \<Rightarrow> power_error + (LUT2D LUTPair option list option \<times> LUT2D LUTPair list)" where
  "getOutputInternalPower max_n_pin lp pm n_pin pwrs related =
     port_luts output_lut max_n_pin lp pm n_pin (related_groups pwrs related)"

text \<open>The table of an input pin that applies in a state: by state if the array has one, else by order.\<close>

definition select_lut :: "'l LUTPair option list option \<Rightarrow> 'l LUTPair list \<Rightarrow> VcdEventVal list \<Rightarrow> nat \<Rightarrow> 'l LUTPair option"
where
  "select_lut by_state ordered pin_states n_pin =
     (case by_state of
        Some tbl \<Rightarrow> (case tbl ! getPinStatesIndex (take n_pin pin_states) of
                      Some p \<Rightarrow> Some p
                    | None \<Rightarrow> find (\<lambda>p. matchPinStates p pin_states n_pin) ordered)
      | None \<Rightarrow> find (\<lambda>p. matchPinStates p pin_states n_pin) ordered)"

section \<open>Lemmas: interpolation\<close>

lemma validate_iff: "validateStrictlyIncreasing axis \<longleftrightarrow> sorted_wrt (<) axis"
  by (induction axis rule: validateStrictlyIncreasing.induct) (fastforce intro: less_trans)+

lemma find_segment_bounds:
  assumes "2 \<le> length axis"
  shows "\<exists>lo. findSegment axis v = Inr (lo, lo + 1) \<and> lo + 1 < length axis"
proof (cases "find (\<lambda>i. v \<le> axis ! i) [1..<length axis]")
  case None
  have "length axis - 2 + 1 = length axis - 1" using assms by simp
  then show ?thesis using assms None by (auto simp: findSegment_def Let_def)
next
  case (Some i)
  then have "1 \<le> i" "i < length axis" by (auto simp: find_Some_iff)
  moreover have "length axis - 2 + 1 = length axis - 1" using assms by simp
  ultimately show ?thesis using assms Some by (auto simp: findSegment_def Let_def)
qed

text \<open>A value between two neighbours of the axis is interpolated in their segment or is one of them.\<close>

lemma find_segment_inside:
  assumes "sorted_wrt (<) axis" "i + 1 < length axis" "axis ! i < v" "v \<le> axis ! (i + 1)"
  shows "findSegment axis v = Inr (i, i + 1)"
proof -
  have le: "axis ! j \<le> axis ! k" if "j \<le> k" "k < length axis" for j k
    using assms(1) that by (cases "j = k") (auto simp: sorted_wrt_iff_nth_less intro: less_imp_le)
  have below: "\<not> v \<le> axis ! j" if "j \<le> i" for j using le [of j i] that assms(2,3) by simp
  show ?thesis
  proof (cases "v \<ge> axis ! (length axis - 1)")
    case True
    then have "axis ! (i + 1) \<ge> axis ! (length axis - 1)" using assms(4) by simp
    moreover have "i + 1 = length axis - 1 \<or> axis ! (i + 1) < axis ! (length axis - 1)"
      using assms(1,2) by (cases "i + 1 = length axis - 1") (auto simp: sorted_wrt_iff_nth_less)
    ultimately have "i + 1 = length axis - 1" by simp
    then show ?thesis using True assms(2) below [of 0] by (auto simp: findSegment_def Let_def)
  next
    case False
    have "find (\<lambda>j. v \<le> axis ! j) [1..<length axis] = Some (i + 1)"
      unfolding find_Some_iff using assms(2,4) below by (intro exI [of _ i]) auto
    then show ?thesis using False assms(2) below [of 0] by (auto simp: findSegment_def Let_def)
  qed
qed

lemma find_segment_first:
  "2 \<le> length axis \<Longrightarrow> v \<le> axis ! 0 \<Longrightarrow> findSegment axis v = Inr (0, 1)"
  by (simp add: findSegment_def)

lemma axis_step: "sorted_wrt (<) axis \<Longrightarrow> i + 1 < length axis \<Longrightarrow> axis ! i < axis ! (i + 1)"
  by (simp add: sorted_wrt_iff_nth_less)

text \<open>The weight of the upper end of the segment that contains a value.\<close>

lemma find_segment_cover:
  assumes "sorted_wrt (<) axis" "2 \<le> length axis" "axis ! i \<le> v" "v \<le> axis ! (i + 1)" "i + 1 < length axis"
  shows "findSegment axis v = Inr (i, i + 1) \<or> v = axis ! i \<and>
    (i = 0 \<and> findSegment axis v = Inr (0, 1) \<or> 0 < i \<and> findSegment axis v = Inr (i - 1, i))"
proof (cases "axis ! i < v")
  case True
  then show ?thesis using find_segment_inside [OF assms(1,5) True assms(4)] by simp
next
  case False
  then have v: "v = axis ! i" using assms(3) by simp
  show ?thesis
  proof (cases i)
    case 0
    then show ?thesis using find_segment_first [OF assms(2), of v] v by simp
  next
    case (Suc j)
    then have "axis ! j < v" "v \<le> axis ! (j + 1)" using axis_step [OF assms(1), of j] assms(5) v by auto
    then show ?thesis using find_segment_inside [OF assms(1), of j v] v Suc assms(5) by simp
  qed
qed

lemma lookup1_linear:
  assumes "OneDimensionalLUT axis vals False v = Inr lut" "length vals = length axis"
    and "i + 1 < length axis" "axis ! i \<le> x" "x \<le> axis ! (i + 1)"
  shows "lookUpValue1 lut x =
    Inr (vals ! i + (x - axis ! i) / (axis ! (i + 1) - axis ! i) * (vals ! (i + 1) - vals ! i))"
proof -
  have lut: "\<not> l1_is_scalar lut" "l1_axis lut = axis" "l1_table lut = vals" and sorted: "sorted_wrt (<) axis"
    using assms(1) by (auto simp: OneDimensionalLUT_def validate_iff split: if_splits)
  have len: "2 \<le> length axis" "length axis \<noteq> 0" "length axis \<noteq> 1" using assms(3) by auto
  have step: "axis ! i < axis ! (i + 1)" using axis_step [OF sorted assms(3)] .
  consider "findSegment axis x = Inr (i, i + 1)" | "x = axis ! i" "0 < i" "findSegment axis x = Inr (i - 1, i)"
    using find_segment_cover [OF sorted len(1) assms(4,5,3)] by fastforce
  then show ?thesis
  proof cases
    case 1
    then show ?thesis using lut len step by (simp add: lookUpValue1_def Let_def)
  next
    case 2
    then obtain j where j: "i = j + 1" by (cases i) auto
    then have "axis ! j < axis ! i" using axis_step [OF sorted, of j] assms(3) by simp
    then show ?thesis using 2 lut len j by (simp add: lookUpValue1_def Let_def)
  qed
qed

lemma lookup2_bilinear:
  assumes "TwoDimensionalLUT axis1 axis2 rows = Inr lut" "i + 1 < length axis1" "j + 1 < length axis2"
    and "axis1 ! i \<le> x" "x \<le> axis1 ! (i + 1)" "axis2 ! j \<le> y" "y \<le> axis2 ! (j + 1)"
  shows "lookUpValue2 lut x y = Inr (
    (let u = (x - axis1 ! i) / (axis1 ! (i + 1) - axis1 ! i); v = (y - axis2 ! j) / (axis2 ! (j + 1) - axis2 ! j)
     in (1 - u) * (1 - v) * rows ! i ! j + (1 - u) * v * rows ! i ! (j + 1)
        + u * (1 - v) * rows ! (i + 1) ! j + u * v * rows ! (i + 1) ! (j + 1)))"
proof -
  have lut: "\<not> l2_is_scalar lut" "l2_axis1 lut = axis1" "l2_axis2 lut = axis2" "l2_table lut = concat rows"
    and sorted: "sorted_wrt (<) axis1" "sorted_wrt (<) axis2"
    and rows: "length rows = length axis1" "\<forall>row \<in> set rows. length row = length axis2"
    using assms(1) by (auto simp: TwoDimensionalLUT_def copyDeviceArrays_def validate_iff split: if_splits)
  have len: "2 \<le> length axis1" "2 \<le> length axis2" "length axis1 \<noteq> 0" "length axis1 \<noteq> 1"
    "length axis2 \<noteq> 0" "length axis2 \<noteq> 1" "axis1 \<noteq> []" "axis2 \<noteq> []" using assms(2,3) by auto
  have cell: "concat rows ! (r * length axis2 + c) = rows ! r ! c" if "r < length axis1" "c < length axis2" for r c
  proof -
    have "concat rs ! (r * n + c) = rs ! r ! c"
      if "r < length rs" "c < n" "\<forall>row \<in> set rs. length row = n" for rs :: "real list list" and r c n
      using that
    proof (induction rs arbitrary: r)
      case (Cons row rs)
      then show ?case by (cases r) (auto simp: nth_append)
    qed simp
    then show ?thesis using that rows by simp
  qed
  have step: "axis1 ! i < axis1 ! (i + 1)" "axis2 ! j < axis2 ! (j + 1)"
    using axis_step sorted assms(2,3) by blast+
  have seg1: "findSegment axis1 x = Inr (i, i + 1) \<or> x = axis1 ! i \<and> (\<exists>k. i = k + 1 \<and> findSegment axis1 x = Inr (k, k + 1))"
    using find_segment_cover [OF sorted(1) len(1) assms(4,5,2)] by (cases i) auto
  have seg2: "findSegment axis2 y = Inr (j, j + 1) \<or> y = axis2 ! j \<and> (\<exists>k. j = k + 1 \<and> findSegment axis2 y = Inr (k, k + 1))"
    using find_segment_cover [OF sorted(2) len(2) assms(6,7,3)] by (cases j) auto
  have val: "lookUpValue2 lut x y = Inr (
      (axis1 ! (p + 1) - x) / (axis1 ! (p + 1) - axis1 ! p) * ((axis2 ! (q + 1) - y) / (axis2 ! (q + 1) - axis2 ! q)) * rows ! p ! q
    + (axis1 ! (p + 1) - x) / (axis1 ! (p + 1) - axis1 ! p) * ((y - axis2 ! q) / (axis2 ! (q + 1) - axis2 ! q)) * rows ! p ! (q + 1)
    + (x - axis1 ! p) / (axis1 ! (p + 1) - axis1 ! p) * ((axis2 ! (q + 1) - y) / (axis2 ! (q + 1) - axis2 ! q)) * rows ! (p + 1) ! q
    + (x - axis1 ! p) / (axis1 ! (p + 1) - axis1 ! p) * ((y - axis2 ! q) / (axis2 ! (q + 1) - axis2 ! q)) * rows ! (p + 1) ! (q + 1))"
    if "findSegment axis1 x = Inr (p, p + 1)" "findSegment axis2 y = Inr (q, q + 1)" "p + 1 < length axis1" "q + 1 < length axis2"
    for p q
    using that lut len axis_step [OF sorted(1) that(3)] axis_step [OF sorted(2) that(4)]
      cell [of p q] cell [of p "q + 1"] cell [of "p + 1" q] cell [of "p + 1" "q + 1"]
    by (simp add: lookUpValue2_def Let_def)
  have w1: "(axis1 ! (i + 1) - x) / (axis1 ! (i + 1) - axis1 ! i) = 1 - (x - axis1 ! i) / (axis1 ! (i + 1) - axis1 ! i)"
    using step(1) by (simp add: field_simps)
  have w2: "(axis2 ! (j + 1) - y) / (axis2 ! (j + 1) - axis2 ! j) = 1 - (y - axis2 ! j) / (axis2 ! (j + 1) - axis2 ! j)"
    using step(2) by (simp add: field_simps)
  show ?thesis
    using seg1
  proof (elim disjE conjE exE)
    assume s1: "findSegment axis1 x = Inr (i, i + 1)"
    show ?thesis using seg2
    proof (elim disjE conjE exE)
      assume "findSegment axis2 y = Inr (j, j + 1)"
      then show ?thesis using val [OF s1 _ assms(2,3)] by (simp only: w1 w2 Let_def)
    next
      fix k assume k: "y = axis2 ! j" "j = k + 1" "findSegment axis2 y = Inr (k, k + 1)"
      have "axis2 ! k < axis2 ! (k + 1)" using axis_step [OF sorted(2)] assms(3) k(2) by simp
      then show ?thesis using val [OF s1 k(3) assms(2), unfolded w1] assms(3) k by (simp add: Let_def)
    qed
  next
    fix l assume l: "x = axis1 ! i" "i = l + 1" "findSegment axis1 x = Inr (l, l + 1)"
    have l_step: "axis1 ! l < axis1 ! (l + 1)" using axis_step [OF sorted(1)] assms(2) l(2) by simp
    show ?thesis using seg2
    proof (elim disjE conjE exE)
      assume s2: "findSegment axis2 y = Inr (j, j + 1)"
      then show ?thesis using val [OF l(3) s2 _ assms(3), unfolded w2] assms(2) l l_step by (simp add: Let_def)
    next
      fix k assume k: "y = axis2 ! j" "j = k + 1" "findSegment axis2 y = Inr (k, k + 1)"
      have "axis2 ! k < axis2 ! (k + 1)" using axis_step [OF sorted(2)] assms(3) k(2) by simp
      then show ?thesis using val [OF l(3) k(3)] assms(2,3) k l l_step by (simp add: Let_def)
    qed
  qed
qed

section \<open>Lemmas: tables by state and by order\<close>

definition group_matches :: "PortStore \<Rightarrow> PinMap \<Rightarrow> VcdEventVal list \<Rightarrow> PortPower \<Rightarrow> bool" where
  "group_matches lp pm st pwr \<longleftrightarrow> evalWhen lp pm (pp_when pwr) st = Inr True"

lemma write_states_nth:
  "write_states p is tbl = Inr tbl' \<Longrightarrow>
     length tbl' = length tbl \<and> (\<forall>i < length tbl. tbl' ! i = (if i \<in> set is then Some p else tbl ! i))"
  by (induction p "is" tbl rule: write_states.induct) (auto simp: nth_list_update split: if_splits)

lemma make_pair_match:
  assumes "make_pair mk lp pm pwr = Inr p" "length st = length pm" "set st \<subseteq> {0, 1, 2}"
  shows "matchPinStates p st (length pm) \<longleftrightarrow> group_matches lp pm st pwr"
    and "when_supported lp pm (pp_when pwr)"
proof -
  obtain ok ws r f where w: "getWhenPinStates lp (pp_when pwr) pm = Inr (ok, ws)" "length ws \<le> MAX_N_PIN"
    "p = \<lparr>tp_rise = Some r, tp_fall = Some f, tp_satisfiable = ok,
          tp_when_state = ws @ replicate (MAX_N_PIN - length ws) INVALID_VCD_EVENT_VAL\<rparr>"
    using assms(1) by (auto simp: make_pair_def setWhenState_def split: if_splits)
  show "when_supported lp pm (pp_when pwr)" using getWhenPinStates_returns w(1) by blast
  obtain b where b: "evalWhen lp pm (pp_when pwr) st = Inr b" "length ws = length pm" "states_wf ws"
      "b \<longleftrightarrow> ok \<and> when_matches ws st"
    using getWhenPinStates_sound [OF w(1) assms(2)] by blast
  have bit: "(if st ! i = 2 \<or> st ! i = 0 then 0 else 1) = (if st ! i = 1 then 1 else (0 :: int))" if "i < length pm" for i
  proof -
    have "st ! i \<in> set st" using assms(2) that by simp
    then have "st ! i \<in> {0, 1, 2}" using assms(3) by blast
    then show ?thesis by auto
  qed
  have wf: "ws ! i = INVALID_VCD_EVENT_VAL \<or> ws ! i = 0 \<or> ws ! i = 1" if "i < length pm" for i
  proof -
    have "ws ! i \<in> set ws" using b(2) that by simp
    then show ?thesis using b(3) by (simp add: states_wf_def)
  qed
  have "matchPinStates p st (length pm) \<longleftrightarrow> ok \<and> (\<forall>i < length pm. ws ! i = INVALID_VCD_EVENT_VAL \<or>
      ws ! i = (if st ! i = 1 then 1 else 0))"
    using b(2) bit by (auto simp: matchPinStates_def w(3) list_all_iff nth_append)
  also have "\<dots> \<longleftrightarrow> ok \<and> when_matches ws st"
    using wf b(2) by (auto simp: when_matches_def)
  finally show "matchPinStates p st (length pm) \<longleftrightarrow> group_matches lp pm st pwr"
    using b(1,4) by (simp add: group_matches_def)
qed

text \<open>The last matching group owns a state of the array; the list keeps the groups in order.\<close>

lemma build_luts_spec:
  assumes "build_luts mk lp pm indexed pwrs (tbl, ordered) = Inr (tbl', ordered')"
    and "length st = length pm" "set st \<subseteq> {0, 1, 2}"
    and "getPinStatesIndex st < length tbl"
  shows "\<exists>ps. ordered' = ordered @ ps \<and> list_all2 (\<lambda>pwr p. make_pair mk lp pm pwr = Inr p) pwrs ps \<and>
    length tbl' = length tbl \<and>
    (indexed \<longrightarrow> tbl' ! getPinStatesIndex st =
      (case filter (\<lambda>p. matchPinStates p st (length pm)) ps of
         [] \<Rightarrow> tbl ! getPinStatesIndex st | m # ms \<Rightarrow> Some (last (m # ms)))) \<and>
    (\<not> indexed \<longrightarrow> tbl' = tbl)"
  using assms(1,4)
proof (induction pwrs arbitrary: tbl ordered)
  case Nil
  then show ?case by simp
next
  case (Cons pwr pwrs)
  obtain p tbl1 where p: "make_pair mk lp pm pwr = Inr p"
    and tbl1: "(if indexed then res_bind (getStateIdx lp pm (pp_when pwr)) (\<lambda>idxs. write_states p idxs tbl) else Inr tbl) = Inr tbl1"
    and rest: "build_luts mk lp pm indexed pwrs (tbl1, ordered @ [p]) = Inr (tbl', ordered')"
    using Cons.prems(1) by auto
  have owner: "length tbl1 = length tbl \<and> (indexed \<longrightarrow> tbl1 ! getPinStatesIndex st =
      (if matchPinStates p st (length pm) then Some p else tbl ! getPinStatesIndex st)) \<and> (\<not> indexed \<longrightarrow> tbl1 = tbl)"
  proof (cases indexed)
    case True
    obtain idxs where idxs: "getStateIdx lp pm (pp_when pwr) = Inr idxs"
        "getPinStatesIndex st \<in> set idxs \<longleftrightarrow> group_matches lp pm st pwr"
      using getStateIdx_sound [OF make_pair_match(2) [OF p assms(2,3)]] assms(2) by (auto simp: group_matches_def)
    then have "write_states p idxs tbl = Inr tbl1" using tbl1 True by simp
    then show ?thesis
      using write_states_nth [of p idxs tbl tbl1] Cons.prems(2) idxs(2) make_pair_match(1) [OF p assms(2,3)] True by simp
  qed (use tbl1 in simp)
  then obtain ps where ps: "ordered' = (ordered @ [p]) @ ps" "list_all2 (\<lambda>pwr p. make_pair mk lp pm pwr = Inr p) pwrs ps"
    "length tbl' = length tbl1"
    "indexed \<longrightarrow> tbl' ! getPinStatesIndex st = (case filter (\<lambda>p. matchPinStates p st (length pm)) ps of
         [] \<Rightarrow> tbl1 ! getPinStatesIndex st | m # ms \<Rightarrow> Some (last (m # ms)))" "\<not> indexed \<longrightarrow> tbl' = tbl1"
    using Cons.IH [OF rest] Cons.prems(2) by auto
  show ?case
    using ps p owner by (intro exI [of _ "p # ps"]) (auto split: list.splits)
qed

lemma build_luts_order:
  "build_luts mk lp pm indexed pwrs (tbl, ordered) = Inr (tbl', ordered') \<Longrightarrow>
     \<exists>ps. ordered' = ordered @ ps \<and> list_all2 (\<lambda>pwr p. make_pair mk lp pm pwr = Inr p) pwrs ps"
proof (induction pwrs arbitrary: tbl ordered)
  case (Cons pwr pwrs)
  then obtain p tbl1 where "make_pair mk lp pm pwr = Inr p"
    "build_luts mk lp pm indexed pwrs (tbl1, ordered @ [p]) = Inr (tbl', ordered')" by auto
  then show ?case using Cons.IH [of tbl1 "ordered @ [p]"] by auto
qed simp

lemma find_hd: "find P xs = (case filter P xs of [] \<Rightarrow> None | y # ys \<Rightarrow> Some y)"
  by (induction xs) auto

text \<open>The table that the device selects in a state, as a group: the last matching one by state, the first by order.\<close>

definition selected_group :: "bool \<Rightarrow> PortPower list \<Rightarrow> PortStore \<Rightarrow> PinMap \<Rightarrow> VcdEventVal list \<Rightarrow> PortPower option" where
  "selected_group indexed pwrs lp pm st =
     (case filter (group_matches lp pm st) pwrs of
        [] \<Rightarrow> None
      | m # ms \<Rightarrow> Some (if indexed then last (m # ms) else m))"

lemma list_all2_filter:
  assumes "list_all2 R xs ys" "\<And>x y. x \<in> set xs \<Longrightarrow> R x y \<Longrightarrow> P x \<longleftrightarrow> Q y"
  shows "list_all2 R (filter P xs) (filter Q ys)"
  using assms by (induction rule: list_all2_induct) auto

lemma list_all2_last: "list_all2 R xs ys \<Longrightarrow> xs \<noteq> [] \<Longrightarrow> R (last xs) (last ys)"
proof (induction rule: list_all2_induct)
  case (Cons x xs y ys)
  then show ?case by (cases xs; cases ys) auto
qed simp

lemma port_luts_selection:
  assumes "port_luts mk max_n_pin lp pm (length pm) pwrs = Inr (by_state, ordered)"
    and "length st = length pm" "set st \<subseteq> {0, 1, 2}"
  shows "rel_option (\<lambda>pwr p. make_pair mk lp pm pwr = Inr p)
    (selected_group (length pm \<le> max_n_pin) pwrs lp pm st) (select_lut by_state ordered st (length pm))"
proof (cases "pwrs = []")
  case True
  then show ?thesis using assms(1) by (auto simp: port_luts_def selected_group_def select_lut_def)
next
  case False
  define indexed where "indexed \<longleftrightarrow> length pm \<le> max_n_pin"
  define idx where "idx = getPinStatesIndex st"
  define n where "n = (2 :: nat) ^ length pm"
  have idx: "idx < n" using getPinStatesIndex_less [of st] assms(2) by (simp add: idx_def n_def)
  obtain tbl where tbl: "build_luts mk lp pm indexed pwrs (replicate (if indexed then n else 0) None, []) = Inr (tbl, ordered)"
    "by_state = (if indexed then Some tbl else None)"
    using assms(1) False unfolding port_luts_def Let_def indexed_def [symmetric] n_def [symmetric] by auto
  have take: "take (length pm) st = st" using assms(2) by simp
  have match: "group_matches lp pm st x \<longleftrightarrow> matchPinStates y st (length pm)" if "make_pair mk lp pm x = Inr y" for x y
    using make_pair_match(1) [OF that assms(2,3)] by simp
  show ?thesis
  proof (cases indexed)
    case True
    have "getPinStatesIndex st < length (replicate (if indexed then n else 0) (None :: 'a LUTPair option))"
      using True idx by (simp add: idx_def)
    from build_luts_spec [OF tbl(1) assms(2,3) this] obtain ps where ps:
      "ordered = ps" "list_all2 (\<lambda>pwr p. make_pair mk lp pm pwr = Inr p) pwrs ps"
      "tbl ! idx = (case filter (\<lambda>p. matchPinStates p st (length pm)) ps of [] \<Rightarrow> None | m # ms \<Rightarrow> Some (last (m # ms)))"
      using True idx by (auto simp: idx_def cong: list.case_cong)
    note rel = list_all2_filter [OF ps(2), of "group_matches lp pm st" "\<lambda>p. matchPinStates p st (length pm)", OF match]
    show ?thesis
      using rel list_all2_last [OF rel] ps(1,3) True tbl(2) take
      by (auto simp: selected_group_def select_lut_def find_hd indexed_def [symmetric] idx_def [symmetric]
          split: list.splits)
  next
    case False
    have "list_all2 (\<lambda>pwr p. make_pair mk lp pm pwr = Inr p) pwrs ordered"
      using build_luts_order [OF tbl(1)] by simp
    note rel = list_all2_filter [OF this, of "group_matches lp pm st" "\<lambda>p. matchPinStates p st (length pm)", OF match]
    show ?thesis
      using rel False tbl(2)
      by (auto simp: selected_group_def select_lut_def find_hd indexed_def [symmetric] split: list.splits)
  qed
qed

text \<open>A two-dimensional table of the device is read by bilinear interpolation: for a slew and a load inside a
  cell of its axes the value is the blend of the four corners of that cell, so at the axis points it is the
  table itself, and the segment search never fails.\<close>

theorem device_table_bilinear:
  assumes "TwoDimensionalLUT axis1 axis2 rows = Inr lut" "i + 1 < length axis1" "j + 1 < length axis2"
    and "axis1 ! i \<le> x" "x \<le> axis1 ! (i + 1)" "axis2 ! j \<le> y" "y \<le> axis2 ! (j + 1)"
  shows "lookUpValue2 lut x y = Inr (
    (let u = (x - axis1 ! i) / (axis1 ! (i + 1) - axis1 ! i); v = (y - axis2 ! j) / (axis2 ! (j + 1) - axis2 ! j)
     in (1 - u) * (1 - v) * rows ! i ! j + (1 - u) * v * rows ! i ! (j + 1)
        + u * (1 - v) * rows ! (i + 1) ! j + u * v * rows ! (i + 1) ! (j + 1)))"
  using lookup2_bilinear [OF assms] .

theorem device_table_bilinear_witness:
  "\<exists>lut. TwoDimensionalLUT [0, 2] [1, 3] [[0, 4], [8, 16]] = Inr lut \<and> lookUpValue2 lut 1 2 = Inr 7"
proof -
  obtain lut where lut: "TwoDimensionalLUT [0, 2] [1, 3] [[0, 4], [8, 16]] = Inr lut"
    by (simp add: TwoDimensionalLUT_def copyDeviceArrays_def)
  then show ?thesis using device_table_bilinear [OF lut, of 0 0 1 2] by simp
qed

text \<open>C36: Which internal power table the device uses for an input pin: with an array indexed by state, the table
  of the last group of the library whose condition holds in the state; without one, the table of the first
  such group; none exactly when no condition holds. (The host takes the first matching group in both
  cases.)\<close>

theorem device_table_selection:
  assumes "getInputInternalPower max_n_pin lp pm (length pm) pwrs = Inr (by_state, ordered)"
    and "length st = length pm" "set st \<subseteq> {0, 1, 2}"
  shows "rel_option (\<lambda>pwr p. make_pair input_lut lp pm pwr = Inr p)
    (selected_group (length pm \<le> max_n_pin) pwrs lp pm st) (select_lut by_state ordered st (length pm))"
  using port_luts_selection [OF assms(1) [unfolded getInputInternalPower_def] assms(2,3)] .

text \<open>An input with a table for \<open>A = 1\<close> and a table without a condition: by state, the second one wins.\<close>

definition two_groups :: "PortPower list" where
  "two_groups = [\<lparr>pp_when = FE_port 0, pp_related = None, pp_table = (\<lambda>_. PT0 3)\<rparr>,
                 \<lparr>pp_when = FE_null, pp_related = None, pp_table = (\<lambda>_. PT0 5)\<rparr>]"

definition port_A :: PortStore where
  "port_A p = \<lparr>lp_name = ''A'', lp_direction = PD_input, lp_is_bus = False, lp_is_bundle = False,
               lp_from_index = 0, lp_to_index = 0, lp_members = []\<rparr>"

lemma two_groups_both_match:
  "selected_group True two_groups port_A [(''A'', 0)] [1] = Some (two_groups ! 1)"
  "selected_group False two_groups port_A [(''A'', 0)] [1] = Some (two_groups ! 0)"
  by (simp_all add: selected_group_def two_groups_def group_matches_def whenPinIndex_def port_A_def)

theorem device_table_selection_witness:
  "\<exists>by_state ordered p. getInputInternalPower 4 port_A [(''A'', 0)] 1 two_groups = Inr (by_state, ordered) \<and>
     select_lut by_state ordered [1] 1 = Some p \<and> make_pair input_lut port_A [(''A'', 0)] (two_groups ! 1) = Inr p"
proof -
  obtain by_state ordered where built: "getInputInternalPower 4 port_A [(''A'', 0)] 1 two_groups = Inr (by_state, ordered)"
  proof -
    have "case getInputInternalPower 4 port_A [(''A'', 0)] 1 two_groups of Inl _ \<Rightarrow> False | Inr _ \<Rightarrow> True" by code_simp
    then show ?thesis using that by (auto split: sum.splits)
  qed
  have "rel_option (\<lambda>pwr p. make_pair input_lut port_A [(''A'', 0)] pwr = Inr p)
      (selected_group True two_groups port_A [(''A'', 0)] [1]) (select_lut by_state ordered [1] 1)"
    using device_table_selection [where max_n_pin = 4 and pm = "[(''A'', 0)]" and st = "[1]"] built by simp
  then obtain p where "select_lut by_state ordered [1] 1 = Some p"
      "make_pair input_lut port_A [(''A'', 0)] (two_groups ! 1) = Inr p"
    by (auto simp: two_groups_both_match rel_option_iff split: option.splits)
  then show ?thesis using built by blast
qed

end
