(* ===== verification/GTP_CudaSchedule.thy ===== *)
theory GTP_CudaSchedule
  imports GTP_CudaLut
begin

text \<open>
  The work of the device: the gate and event records that the kernels read (\<open>power/cuda/Gate.cuh\<close>,
  \<open>power/cuda/Event.cuh\<close>), the binary searches over the event buffer (\<open>power/cuda/CudaPowerUtils.cuh\<close>), the
  number of cycles per thread, the thread and block counts of every gate with their offsets and the table from
  blocks to gates (\<open>CudaPower::scheduleKernelForEventAndCycleBasedPartition\<close>), and the time range of one thread
  (the preparation of the kernels in \<open>power/cuda/CudaPower.cu\<close>). The lemmas show that the threads of a gate cover
  every time of the interval exactly once and that the blocks cover every thread exactly once.
\<close>

section \<open>Gates and events\<close>

record Event =
  ev_time :: int
  ev_val :: VcdEventVal

record DevGate =
  dg_is_logic :: bool
  dg_leakage_powers :: "real list option"
  dg_default_leakage_exists :: bool
  dg_default_leakage_power_val :: real
  dg_n_pin :: nat
  dg_n_input_pin :: nat
  dg_pin_waveform_starts :: "int list"
  dg_pin_waveform_ends :: "int list"
  dg_pin_default_states :: "VcdEventVal list option"
  dg_n_cycle_per_thread :: int
  dg_pin_voltages :: "real list"
  dg_pin_rise_slews :: "real list"
  dg_pin_fall_slews :: "real list"
  dg_pin_load_capacitances :: "real list"
  dg_pin_is_clocks :: "bool list"
  dg_cell_arc_delays :: "real list"
  dg_event_threads :: "nat \<times> nat"
  dg_event_blocks :: "nat \<times> nat"
  dg_cycle_threads :: "nat \<times> nat"
  dg_cycle_blocks :: "nat \<times> nat"
  dg_tile_offset :: nat
  dg_input_luts :: "(LUT1D LUTPair option list option \<times> LUT1D LUTPair list) list"
  dg_output_luts :: "(LUT2D LUTPair option list option \<times> LUT2D LUTPair list) list option list"

text \<open>The two ways to divide the work of a gate: by number of events and by number of cycles.\<close>

datatype PartitionBasis = PB_event | PB_cycle

definition getStartThreadIdx :: "PartitionBasis \<Rightarrow> DevGate \<Rightarrow> nat" where
  "getStartThreadIdx basis g = (case basis of PB_event \<Rightarrow> fst (dg_event_threads g) | PB_cycle \<Rightarrow> fst (dg_cycle_threads g))"

definition getEndThreadIdx :: "PartitionBasis \<Rightarrow> DevGate \<Rightarrow> nat" where
  "getEndThreadIdx basis g = (case basis of PB_event \<Rightarrow> snd (dg_event_threads g) | PB_cycle \<Rightarrow> snd (dg_cycle_threads g))"

definition getStartBlockIdx :: "PartitionBasis \<Rightarrow> DevGate \<Rightarrow> nat" where
  "getStartBlockIdx basis g = (case basis of PB_event \<Rightarrow> fst (dg_event_blocks g) | PB_cycle \<Rightarrow> fst (dg_cycle_blocks g))"

definition getEndBlockIdx :: "PartitionBasis \<Rightarrow> DevGate \<Rightarrow> nat" where
  "getEndBlockIdx basis g = (case basis of PB_event \<Rightarrow> snd (dg_event_blocks g) | PB_cycle \<Rightarrow> snd (dg_cycle_blocks g))"

definition ceil_div :: "int \<Rightarrow> int \<Rightarrow> int" where
  "ceil_div a b = (a + b - 1) div b"

definition waveform_size :: "DevGate \<Rightarrow> nat \<Rightarrow> int" where
  "waveform_size g i = dg_pin_waveform_ends g ! i - dg_pin_waveform_starts g ! i"

definition n_gate_events :: "DevGate \<Rightarrow> int" where
  "n_gate_events g = sum_list (map (waveform_size g) [0..<dg_n_pin g])"

section \<open>Searches in the event buffer\<close>

definition getEventIdxByTime_dev :: "Event list \<Rightarrow> int \<Rightarrow> int \<Rightarrow> int \<Rightarrow> bool \<Rightarrow> int" where
  "getEventIdxByTime_dev events start_pos end_pos time contains_equal =
     lower_bound_loop (\<lambda>mid. ev_time (events ! nat mid) < time
                           \<or> (contains_equal \<and> ev_time (events ! nat mid) \<le> time)) start_pos end_pos"

text \<open>The number of events of a gate before a cycle, and the first cycle with at least so many before it.\<close>

definition getAccuEventCountOfGateByPeriodIdx :: "DevGate \<Rightarrow> Event list \<Rightarrow> int \<Rightarrow> int \<Rightarrow> int" where
  "getAccuEventCountOfGateByPeriodIdx g events period_idx vcd_time_unit_per_cycle =
     sum_list (map (\<lambda>i. getEventIdxByTime_dev events (dg_pin_waveform_starts g ! i) (dg_pin_waveform_ends g ! i)
                          (period_idx * vcd_time_unit_per_cycle) False - dg_pin_waveform_starts g ! i)
                 [0..<dg_n_pin g])"

definition getCycleIndexByAccuEventCount :: "DevGate \<Rightarrow> Event list \<Rightarrow> int \<Rightarrow> int \<Rightarrow> int \<Rightarrow> int \<Rightarrow> int" where
  "getCycleIndexByAccuEventCount g events accu_event_count min_period_idx max_period_idx vcd_time_unit_per_cycle =
     lower_bound_loop
       (\<lambda>mid. getAccuEventCountOfGateByPeriodIdx g events mid vcd_time_unit_per_cycle < accu_event_count)
       min_period_idx max_period_idx"

section \<open>The time range of a thread\<close>

text \<open>
  The launch parameters that a thread needs: the partition, the events per thread, the threads per block, the
  cycles of the interval, the time units of a cycle, the end of the simulation, the clock period and the time unit.
\<close>

record Launch =
  la_basis :: PartitionBasis
  la_n_event_per_thread :: int
  la_n_thread_per_block :: nat
  la_start_period :: int
  la_end_period :: int
  la_unit_per_cycle :: int
  la_max_time :: int
  la_clk_period :: real
  la_time_scale :: real

definition thread_periods :: "Launch \<Rightarrow> DevGate \<Rightarrow> Event list \<Rightarrow> nat \<Rightarrow> int \<times> int" where
  "thread_periods la g events k =
     (case la_basis la of
        PB_event \<Rightarrow>
          (getCycleIndexByAccuEventCount g events (int k * la_n_event_per_thread la)
             (la_start_period la) (la_end_period la) (la_unit_per_cycle la),
           getCycleIndexByAccuEventCount g events ((int k + 1) * la_n_event_per_thread la)
             (la_start_period la) (la_end_period la) (la_unit_per_cycle la))
      | PB_cycle \<Rightarrow>
          (int k * dg_n_cycle_per_thread g + la_start_period la,
           (int k + 1) * dg_n_cycle_per_thread g + la_start_period la))"

text \<open>The times \<open>[start, end)\<close> of a thread, one more time unit at the end of the interval; none if it has no work.\<close>

definition thread_range :: "Launch \<Rightarrow> DevGate \<Rightarrow> Event list \<Rightarrow> nat \<Rightarrow> (int \<times> int) option" where
  "thread_range la g events k =
     (let (p, q) = thread_periods la g events k in
      if getEndThreadIdx (la_basis la) g - getStartThreadIdx (la_basis la) g \<le> k \<or> p = q then None
      else Some (p * la_unit_per_cycle la,
                 q * la_unit_per_cycle la + (if q = la_end_period la then 1 else 0)))"

section \<open>Scheduling\<close>

record ScheduleConfig =
  sc_power_res_length :: nat
  sc_n_thread_per_block :: nat
  sc_auto_cycles :: bool
  sc_n_cycle_per_thread :: int
  sc_parallelism_floor :: int
  sc_e_target :: int
  sc_separate_kernels :: bool
  sc_n_event_per_thread :: int

definition llround :: "real \<Rightarrow> int" where
  "llround x = (if 0 \<le> x then \<lfloor>x + 1/2\<rfloor> else \<lceil>x - 1/2\<rceil>)"

definition setNCyclePerThreadByEventCount :: "int \<Rightarrow> int \<Rightarrow> int \<Rightarrow> DevGate \<Rightarrow> power_error + DevGate" where
  "setNCyclePerThreadByEventCount n_cycle threads_target E_target g =
     (let n_event = n_gate_events g in
      if n_cycle \<le> 0 \<or> n_event < 0 then Inl AssertFailed
      else
        let n_cycle_target = max ((n_cycle + threads_target - 1) div threads_target) 1;
            rho = of_int n_event / of_int n_cycle;
            rho_floor = of_int E_target / of_int n_cycle_target;
            rho_eff = rho + rho_floor :: real;
            n = max (min (llround (of_int E_target / rho_eff)) n_cycle) 1
        in Inr (g\<lparr>dg_n_cycle_per_thread := n\<rparr>))"

definition set_cycles :: "ScheduleConfig \<Rightarrow> int \<Rightarrow> DevGate \<Rightarrow> power_error + DevGate" where
  "set_cycles cfg n_cycle g =
     (if sc_auto_cycles cfg
      then setNCyclePerThreadByEventCount n_cycle (sc_parallelism_floor cfg) (sc_e_target cfg) g
      else Inr (g\<lparr>dg_n_cycle_per_thread := sc_n_cycle_per_thread cfg\<rparr>))"

fun prefix_offsets :: "nat \<Rightarrow> nat list \<Rightarrow> nat list" where
  "prefix_offsets acc [] = [acc]"
| "prefix_offsets acc (c # cs) = acc # prefix_offsets (acc + c) cs"

text \<open>
  \<open>std::fill\<close> of the blocks of one gate; the gates are filled in the order in which the host threads take them.
\<close>

definition fill_range :: "nat \<Rightarrow> nat \<Rightarrow> 'a \<Rightarrow> 'a list \<Rightarrow> 'a list" where
  "fill_range a b v arr = fold (\<lambda>i arr. arr[i := v]) [a..<b] arr"

definition fill_blocks :: "nat list \<Rightarrow> nat list \<Rightarrow> nat list \<Rightarrow> nat list" where
  "fill_blocks offsets order arr = fold (\<lambda>g arr. fill_range (offsets ! g) (offsets ! (g + 1)) g arr) order arr"

record Schedule =
  sd_gates :: "DevGate list"
  sd_event_block_gates :: "nat list"
  sd_cycle_block_gates :: "nat list"

definition thread_count :: "ScheduleConfig \<Rightarrow> int \<Rightarrow> PartitionBasis \<Rightarrow> DevGate \<Rightarrow> nat" where
  "thread_count cfg n_cycle basis g =
     (case basis of
        PB_event \<Rightarrow> nat (ceil_div (n_gate_events g) (if sc_separate_kernels cfg then 1 else sc_n_event_per_thread cfg))
      | PB_cycle \<Rightarrow> nat (ceil_div n_cycle (dg_n_cycle_per_thread g)))"

text \<open>
  \<open>order\<close> is the order in which the parallel loop takes the gates, and \<open>junk\<close> the contents of the freshly
  allocated arrays.
\<close>

definition schedule_gates ::
  "ScheduleConfig \<Rightarrow> int \<Rightarrow> nat list \<Rightarrow> (nat \<Rightarrow> nat) \<Rightarrow> DevGate list \<Rightarrow> Schedule" where
  "schedule_gates cfg n_cycle order junk gates =
     (let tpb = int (sc_n_thread_per_block cfg);
          event_threads = map (thread_count cfg n_cycle PB_event) gates;
          cycle_threads = map (thread_count cfg n_cycle PB_cycle) gates;
          event_blocks = map (\<lambda>c. nat (ceil_div (int c) tpb)) event_threads;
          cycle_blocks = map (\<lambda>c. nat (ceil_div (int c) tpb)) cycle_threads;
          et = prefix_offsets 0 event_threads; ct = prefix_offsets 0 cycle_threads;
          eb = prefix_offsets 0 event_blocks; cb = prefix_offsets 0 cycle_blocks
      in \<lparr>sd_gates = map (\<lambda>(i, g). g\<lparr>dg_event_threads := (et ! i, et ! (i + 1)),
                                     dg_event_blocks := (eb ! i, eb ! (i + 1)),
                                     dg_cycle_threads := (ct ! i, ct ! (i + 1)),
                                     dg_cycle_blocks := (cb ! i, cb ! (i + 1)),
                                     dg_tile_offset := i * sc_power_res_length cfg\<rparr>)
                        (List.enumerate 0 gates),
          sd_event_block_gates = fill_blocks eb order (map junk [0..<last eb]),
          sd_cycle_block_gates = fill_blocks cb order (map junk [0..<last cb])\<rparr>)"

definition scheduleKernelForEventAndCycleBasedPartition ::
  "ScheduleConfig \<Rightarrow> int \<Rightarrow> int \<Rightarrow> int \<Rightarrow> nat list \<Rightarrow> (nat \<Rightarrow> nat) \<Rightarrow> DevGate list \<Rightarrow> power_error + Schedule" where
  "scheduleKernelForEventAndCycleBasedPartition cfg unit_per_cycle interval_start interval_end order junk gates =
     (if sc_power_res_length cfg \<noteq> sc_n_thread_per_block cfg then Inl AssertFailed
      else
        let n_cycle = interval_end div unit_per_cycle - interval_start div unit_per_cycle in
        res_bind (res_map (set_cycles cfg n_cycle) gates) (\<lambda>gates'.
          Inr (schedule_gates cfg n_cycle order junk gates')))"

text \<open>The index of a thread within its gate, from its block and its lane.\<close>

definition thread_idx_in_gate :: "PartitionBasis \<Rightarrow> nat \<Rightarrow> DevGate \<Rightarrow> nat \<Rightarrow> nat \<Rightarrow> nat" where
  "thread_idx_in_gate basis tpb g block lane = (block - getStartBlockIdx basis g) * tpb + lane"

definition block_gates :: "PartitionBasis \<Rightarrow> Schedule \<Rightarrow> nat list" where
  "block_gates basis sd = (case basis of PB_event \<Rightarrow> sd_event_block_gates sd | PB_cycle \<Rightarrow> sd_cycle_block_gates sd)"
section \<open>Lemmas: blocks\<close>

lemma length_prefix_offsets [simp]: "length (prefix_offsets acc cs) = length cs + 1"
  by (induction cs arbitrary: acc) auto

lemma prefix_offsets_nth: "i \<le> length cs \<Longrightarrow> prefix_offsets acc cs ! i = acc + sum_list (take i cs)"
proof (induction cs arbitrary: acc i)
  case (Cons c cs)
  then show ?case by (cases i) auto
qed simp

lemma prefix_offsets_last: "last (prefix_offsets acc cs) = acc + sum_list cs"
  using prefix_offsets_nth [of "length cs" cs acc] by (simp add: last_conv_nth del: prefix_offsets.simps)
     (metis length_prefix_offsets add_diff_cancel_right' One_nat_def last_conv_nth list.size(3) add_is_0 one_neq_zero)

lemma prefix_offsets_step:
  "i < length cs \<Longrightarrow> prefix_offsets acc cs ! Suc i = prefix_offsets acc cs ! i + cs ! i"
  by (simp add: prefix_offsets_nth take_Suc_conv_app_nth)

lemma prefix_offsets_mono: "i \<le> j \<Longrightarrow> j \<le> length cs \<Longrightarrow> prefix_offsets acc cs ! i \<le> prefix_offsets acc cs ! j"
proof (induction j)
  case (Suc j)
  then show ?case by (cases "i = Suc j") (auto simp: prefix_offsets_step)
qed simp

text \<open>Every index below the last offset is in exactly one of the ranges.\<close>

lemma offset_range_exists:
  "acc \<le> b \<Longrightarrow> b < last (prefix_offsets acc cs) \<Longrightarrow>
     \<exists>i < length cs. prefix_offsets acc cs ! i \<le> b \<and> b < prefix_offsets acc cs ! Suc i"
proof (induction cs arbitrary: acc)
  case (Cons c cs)
  show ?case
  proof (cases "b < acc + c")
    case True
    then have "prefix_offsets acc (c # cs) ! 0 \<le> b \<and> b < prefix_offsets acc (c # cs) ! Suc 0"
      using Cons.prems prefix_offsets_nth [of 0 cs "acc + c"] by simp
    then show ?thesis by (metis length_greater_0_conv list.distinct(1))
  next
    case False
    have "last (prefix_offsets acc (c # cs)) = last (prefix_offsets (acc + c) cs)"
      by (simp only: prefix_offsets_last) simp
    with Cons False obtain i where "i < length cs" "prefix_offsets (acc + c) cs ! i \<le> b"
        "b < prefix_offsets (acc + c) cs ! Suc i" by (metis not_le)
    then show ?thesis by (intro exI [of _ "Suc i"]) simp
  qed
qed simp

lemma offset_range_unique:
  assumes "prefix_offsets acc cs ! i \<le> b" "b < prefix_offsets acc cs ! Suc i" "i < length cs"
    and "prefix_offsets acc cs ! j \<le> b" "b < prefix_offsets acc cs ! Suc j" "j < length cs"
  shows "i = j"
proof (rule ccontr)
  assume "i \<noteq> j"
  then consider "Suc i \<le> j" | "Suc j \<le> i" by linarith
  then show False
  proof cases
    case 1
    then have "prefix_offsets acc cs ! Suc i \<le> prefix_offsets acc cs ! j" using assms by (intro prefix_offsets_mono) auto
    then show False using assms by simp
  next
    case 2
    then have "prefix_offsets acc cs ! Suc j \<le> prefix_offsets acc cs ! i" using assms by (intro prefix_offsets_mono) auto
    then show False using assms by simp
  qed
qed

lemma fold_set_nth:
  "length (fold (\<lambda>i arr. arr[i := v]) is arr) = length arr"
  "j < length arr \<Longrightarrow> fold (\<lambda>i arr. arr[i := v]) is arr ! j = (if j \<in> set is then v else arr ! j)"
  by (induction "is" arbitrary: arr) (auto simp: nth_list_update)

lemma length_fill_range [simp]: "length (fill_range a b v arr) = length arr"
  by (simp add: fill_range_def fold_set_nth)

lemma fill_range_nth: "j < length arr \<Longrightarrow> fill_range a b v arr ! j = (if a \<le> j \<and> j < b then v else arr ! j)"
  by (simp add: fill_range_def fold_set_nth)

lemma length_fill_blocks [simp]: "length (fill_blocks offs order arr) = length arr"
  unfolding fill_blocks_def by (induction order arbitrary: arr) auto

text \<open>Whatever the order of the gates, a block of the range of a gate is filled with that gate.\<close>

lemma fill_blocks_nth:
  assumes "\<And>h. h \<in> set order \<Longrightarrow> offs ! h \<le> b \<Longrightarrow> b < offs ! (h + 1) \<Longrightarrow> h = g"
    and "g \<in> set order" "offs ! g \<le> b" "b < offs ! (g + 1)" "b < length arr"
  shows "fill_blocks offs order arr ! b = g"
  using assms
proof (induction order rule: rev_induct)
  case (snoc h hs)
  have len: "b < length (fill_blocks offs hs arr)" using snoc.prems(5) by simp
  have step: "fill_blocks offs (hs @ [h]) arr = fill_range (offs ! h) (offs ! (h + 1)) h (fill_blocks offs hs arr)"
    by (simp add: fill_blocks_def)
  show ?case
  proof (cases "offs ! h \<le> b \<and> b < offs ! (h + 1)")
    case True
    then have "h = g" by (intro snoc.prems(1)) auto
    then show ?thesis unfolding step using True len by (simp add: fill_range_nth)
  next
    case False
    then have "g \<in> set hs" using snoc.prems(2-4) by auto
    then have "fill_blocks offs hs arr ! b = g"
      using snoc.prems(3-5) by (intro snoc.IH) (auto intro: snoc.prems(1))
    then show ?thesis using False len by (auto simp: step fill_range_nth)
  qed
qed simp

lemma ceil_div_blocks:
  fixes k c t :: nat
  assumes "0 < t"
  shows "k < c \<Longrightarrow> k div t < nat (ceil_div (int c) (int t))"
    and "q < nat (ceil_div (int c) (int t)) \<Longrightarrow> q * t < c"
proof -
  have e: "nat (ceil_div (int c) (int t)) = (c + t - 1) div t"
  proof -
    have "int c + int t - 1 = int (c + t - 1)" using assms by (simp add: of_nat_diff)
    then have "ceil_div (int c) (int t) = int ((c + t - 1) div t)" by (simp only: ceil_div_def zdiv_int)
    then show ?thesis by simp
  qed
  show "k < c \<Longrightarrow> k div t < nat (ceil_div (int c) (int t))"
  proof -
    assume "k < c"
    then have "k + t \<le> c + t - 1" using assms by simp
    then have "(k + t) div t \<le> (c + t - 1) div t" by (rule div_le_mono)
    then show ?thesis using assms by (simp add: e)
  qed
  show "q < nat (ceil_div (int c) (int t)) \<Longrightarrow> q * t < c"
  proof -
    assume "q < nat (ceil_div (int c) (int t))"
    then have "Suc q \<le> (c + t - 1) div t" by (simp add: e)
    then have "Suc q * t \<le> c + t - 1" using assms by (simp add: less_eq_div_iff_mult_less_eq)
    then show ?thesis using assms by simp
  qed
qed
lemma blocks_cover:
  fixes counts :: "nat list" and t :: nat and junk :: "nat \<Rightarrow> nat"
  assumes t: "0 < t" and order: "set order = {..<length counts}"
  defines "blocks \<equiv> map (\<lambda>c. nat (ceil_div (int c) (int t))) counts"
  defines "offs \<equiv> prefix_offsets 0 blocks"
  defines "arr \<equiv> fill_blocks offs order (map junk [0..<last offs])"
  shows "b < length arr \<Longrightarrow> arr ! b < length counts \<and> offs ! (arr ! b) \<le> b \<and> b < offs ! Suc (arr ! b)"
    and "i < length counts \<Longrightarrow> k < counts ! i \<Longrightarrow>
      \<exists>!p. fst p < length arr \<and> snd p < t \<and> arr ! fst p = i \<and> (fst p - offs ! i) * t + snd p = k"
proof -
  have len: "length arr = last offs" by (simp add: arr_def)
  have nb: "length blocks = length counts" by (simp add: blocks_def)
  have filled: "arr ! b = i" if "i < length counts" "offs ! i \<le> b" "b < offs ! Suc i" for b i
  proof -
    have "offs ! Suc i \<le> offs ! length counts"
      unfolding offs_def using that nb by (intro prefix_offsets_mono) auto
    also have "\<dots> = last offs"
      using prefix_offsets_nth [of "length counts" blocks 0] prefix_offsets_last [of 0 blocks] nb by (simp add: offs_def)
    finally have "b < last offs" using that by simp
    then show ?thesis
      unfolding arr_def using that order nb
      by (intro fill_blocks_nth) (auto simp: offs_def intro: offset_range_unique)
  qed
  show block: "arr ! b < length counts \<and> offs ! (arr ! b) \<le> b \<and> b < offs ! Suc (arr ! b)" if b: "b < length arr" for b
  proof -
    obtain i where i: "i < length blocks" "offs ! i \<le> b" "b < offs ! Suc i"
      using offset_range_exists [of 0 b blocks] b by (auto simp: len offs_def)
    then show ?thesis using filled [of i b] nb by simp
  qed
  show "\<exists>!p. fst p < length arr \<and> snd p < t \<and> arr ! fst p = i \<and> (fst p - offs ! i) * t + snd p = k"
    if i: "i < length counts" and k: "k < counts ! i"
  proof (rule ex1I [of _ "(offs ! i + k div t, k mod t)"])
    have "k div t < blocks ! i" using ceil_div_blocks(1) [OF t k] i by (simp add: blocks_def)
    then have lt: "offs ! i + k div t < offs ! Suc i" using i nb by (simp add: offs_def prefix_offsets_step)
    then have "offs ! i + k div t < last offs"
      using prefix_offsets_mono [of "Suc i" "length blocks" blocks 0] prefix_offsets_nth [of "length blocks" blocks 0]
        prefix_offsets_last [of 0 blocks] i nb by (simp add: offs_def)
    then show "fst (offs ! i + k div t, k mod t) < length arr \<and> snd (offs ! i + k div t, k mod t) < t \<and>
      arr ! fst (offs ! i + k div t, k mod t) = i \<and>
      (fst (offs ! i + k div t, k mod t) - offs ! i) * t + snd (offs ! i + k div t, k mod t) = k"
      using filled [OF i _ lt] t by (simp add: len)
  next
    fix p assume p: "fst p < length arr \<and> snd p < t \<and> arr ! fst p = i \<and> (fst p - offs ! i) * t + snd p = k"
    then have "offs ! i \<le> fst p" using block [of "fst p"] by simp
    moreover have "fst p - offs ! i = k div t" "snd p = k mod t" using p t by auto
    ultimately show "p = (offs ! i + k div t, k mod t)" by (simp add: prod_eq_iff)
  qed
qed

lemma schedule_gates_nth:
  assumes "i < length gates"
  shows "length (sd_gates (schedule_gates cfg n order junk gates)) = length gates"
    and "getStartBlockIdx basis (sd_gates (schedule_gates cfg n order junk gates) ! i) =
      prefix_offsets 0 (map (\<lambda>c. nat (ceil_div (int c) (int (sc_n_thread_per_block cfg))))
        (map (thread_count cfg n basis) gates)) ! i"
    and "getEndBlockIdx basis (sd_gates (schedule_gates cfg n order junk gates) ! i) =
      prefix_offsets 0 (map (\<lambda>c. nat (ceil_div (int c) (int (sc_n_thread_per_block cfg))))
        (map (thread_count cfg n basis) gates)) ! Suc i"
    and "getEndThreadIdx basis (sd_gates (schedule_gates cfg n order junk gates) ! i)
      - getStartThreadIdx basis (sd_gates (schedule_gates cfg n order junk gates) ! i) = thread_count cfg n basis (gates ! i)"
  using assms
  by (auto simp: schedule_gates_def Let_def nth_enumerate_eq getStartBlockIdx_def getEndBlockIdx_def
      getStartThreadIdx_def getEndThreadIdx_def thread_count_def prefix_offsets_step comp_def
      split: PartitionBasis.splits)

lemma block_gates_schedule:
  "block_gates basis (schedule_gates cfg n order junk gates) =
    (let offs = prefix_offsets 0 (map (\<lambda>c. nat (ceil_div (int c) (int (sc_n_thread_per_block cfg))))
       (map (thread_count cfg n basis) gates))
     in fill_blocks offs order (map junk [0..<last offs]))"
  by (cases basis) (simp_all add: block_gates_def schedule_gates_def Let_def)

lemma scheduled_blocks:
  assumes sched: "scheduleKernelForEventAndCycleBasedPartition cfg unit_time start_time end_time order junk gates = Inr sd"
    and order: "set order = {..<length gates}" and tpb: "0 < sc_n_thread_per_block cfg"
  shows "(\<forall>b < length (block_gates basis sd). let i = block_gates basis sd ! b in i < length gates \<and>
      getStartBlockIdx basis (sd_gates sd ! i) \<le> b \<and> b < getEndBlockIdx basis (sd_gates sd ! i)) \<and>
    (\<forall>i < length gates. \<forall>k < getEndThreadIdx basis (sd_gates sd ! i) - getStartThreadIdx basis (sd_gates sd ! i).
      \<exists>!p. fst p < length (block_gates basis sd) \<and> snd p < sc_n_thread_per_block cfg \<and>
        block_gates basis sd ! fst p = i \<and>
        thread_idx_in_gate basis (sc_n_thread_per_block cfg) (sd_gates sd ! i) (fst p) (snd p) = k)"
proof -
  obtain gates' n where set: "res_map (set_cycles cfg n) gates = Inr gates'"
      and sd: "sd = schedule_gates cfg n order junk gates'"
    using sched by (auto simp: scheduleKernelForEventAndCycleBasedPartition_def Let_def split: if_splits)
  have len: "length gates' = length gates" using res_map_list_all2 [OF set] by (simp add: list_all2_lengthD)
  define counts where "counts = map (thread_count cfg n basis) gates'"
  have order': "set order = {..<length counts}" using order len by (simp add: counts_def)
  note cover = blocks_cover [OF tpb order', where junk = junk]
  show ?thesis
    using cover len
    by (auto simp: sd block_gates_schedule schedule_gates_nth thread_idx_in_gate_def Let_def counts_def)
qed

text \<open>C37: Scheduling gives every thread of every gate to exactly one lane of one block, whatever the order in which
  the parallel loop fills the block table and whatever the memory held before; and every block lies in the block
  range of the gate it names, which the kernels assert.\<close>

theorem schedule_covers_threads:
  assumes sched: "scheduleKernelForEventAndCycleBasedPartition cfg unit_time start_time end_time order junk gates = Inr sd"
    and order: "set order = {..<length gates}" and tpb: "0 < sc_n_thread_per_block cfg"
  shows "(\<forall>b < length (block_gates basis sd). let i = block_gates basis sd ! b in i < length gates \<and>
      getStartBlockIdx basis (sd_gates sd ! i) \<le> b \<and> b < getEndBlockIdx basis (sd_gates sd ! i)) \<and>
    (\<forall>i < length gates. \<forall>k < getEndThreadIdx basis (sd_gates sd ! i) - getStartThreadIdx basis (sd_gates sd ! i).
      \<exists>!p. fst p < length (block_gates basis sd) \<and> snd p < sc_n_thread_per_block cfg \<and>
        block_gates basis sd ! fst p = i \<and>
        thread_idx_in_gate basis (sc_n_thread_per_block cfg) (sd_gates sd ! i) (fst p) (snd p) = k)"
  by (rule scheduled_blocks [OF sched order tpb])
section \<open>Lemmas: the times of the threads\<close>

text \<open>
  Threads divide the cycles of an interval at cuts that never decrease. Thread \<open>k\<close> works from cut \<open>k\<close> to cut
  \<open>k + 1\<close>, with one more time unit when it ends where the interval ends.
\<close>

locale thread_cuts =
  fixes cut :: "nat \<Rightarrow> int"
  assumes cut_step: "cut k \<le> cut (Suc k)"
begin

definition in_thread :: "int \<Rightarrow> int \<Rightarrow> nat \<Rightarrow> int \<Rightarrow> bool" where
  "in_thread u E k \<tau> \<longleftrightarrow> cut k \<noteq> cut (Suc k) \<and> cut k * u \<le> \<tau> \<and>
     \<tau> < cut (Suc k) * u + (if cut (Suc k) = E then 1 else 0)"

lemma cut_mono: "i \<le> j \<Longrightarrow> cut i \<le> cut j"
  using cut_step by (rule lift_Suc_mono_le)

lemma crossing_exists: "cut 0 \<le> p \<Longrightarrow> p < cut n \<Longrightarrow> \<exists>k < n. cut k \<le> p \<and> p < cut (Suc k)"
proof (induction n)
  case (Suc n)
  show ?case
  proof (cases "p < cut n")
    case True
    then show ?thesis using Suc less_SucI by blast
  next
    case False
    then show ?thesis using Suc.prems by (intro exI [of _ n]) simp
  qed
qed simp

lemma crossing_unique: "cut i \<le> p \<Longrightarrow> p < cut (Suc i) \<Longrightarrow> cut j \<le> p \<Longrightarrow> p < cut (Suc j) \<Longrightarrow> i = j"
  by (metis cut_mono leD le_less_trans linorder_neqE_nat Suc_leI)

lemma covered_before:
  assumes u: "0 < u" and "cut 0 * u \<le> \<tau>" "\<tau> < E * u" "\<tau> div u < cut n"
  shows "\<exists>!k. k < n \<and> in_thread u E k \<tau>"
proof -
  have inside: "in_thread u E k \<tau> \<longleftrightarrow> cut k \<le> \<tau> div u \<and> \<tau> div u < cut (Suc k)" for k
  proof -
    have "\<tau> < cut (Suc k) * u + (if cut (Suc k) = E then 1 else 0) \<longleftrightarrow> \<not> cut (Suc k) * u \<le> \<tau>"
      using assms(3) by auto
    then show ?thesis by (auto simp: in_thread_def mult_le_iff_le_div [OF u])
  qed
  have "cut 0 \<le> \<tau> div u" using assms(2) by (simp add: mult_le_iff_le_div [OF u])
  then obtain k where "k < n" "cut k \<le> \<tau> div u" "\<tau> div u < cut (Suc k)"
    using crossing_exists assms(4) by blast
  then show ?thesis by (auto simp: inside intro: crossing_unique)
qed

lemma covered_last:
  assumes u: "0 < u" and "cut 0 < E" "E \<le> cut n"
    and active: "\<And>k. k < n \<Longrightarrow> cut k \<noteq> cut (Suc k) \<Longrightarrow> cut k < E"
  shows "\<exists>!k. k < n \<and> in_thread u E k (E * u)"
proof -
  have inside: "in_thread u E k (E * u) \<longleftrightarrow> cut k \<le> E - 1 \<and> E - 1 < cut (Suc k)" if "k < n" for k
    using active [OF that] u by (auto simp: in_thread_def mult_le_cancel_right)
  obtain k where "k < n" "cut k \<le> E - 1" "E - 1 < cut (Suc k)"
    using crossing_exists [of "E - 1" n] assms by auto
  then show ?thesis using crossing_unique [of _ "E - 1"] by (auto simp: inside)
qed

end
text \<open>A larger predicate stops a search later; so the cuts of both partitions never decrease.\<close>

lemma lower_bound_loop_mono:
  assumes "\<And>i. P i \<Longrightarrow> Q i"
  shows "l \<le> r \<Longrightarrow> lower_bound_loop P l r \<le> lower_bound_loop Q l r \<and> l \<le> lower_bound_loop P l r
    \<and> lower_bound_loop Q l r \<le> r"
proof (induction "nat (r - l)" arbitrary: l r rule: less_induct)
  case less
  define m where "m = l + (r - l) div 2"
  have loop: "lower_bound_loop R l r = (if l < r then if R m then lower_bound_loop R (m + 1) r
      else lower_bound_loop R l m else r)" for R
    by (subst lower_bound_loop.simps) (simp add: m_def Let_def)
  show ?case
  proof (cases "l < r")
    case True
    then have m: "l \<le> m" "m < r" by (auto simp: m_def)
    have right: "lower_bound_loop P (m + 1) r \<le> lower_bound_loop Q (m + 1) r \<and> m + 1 \<le> lower_bound_loop P (m + 1) r
        \<and> lower_bound_loop Q (m + 1) r \<le> r" using m by (intro less.hyps) auto
    have left: "lower_bound_loop P l m \<le> lower_bound_loop Q l m \<and> l \<le> lower_bound_loop P l m
        \<and> lower_bound_loop Q l m \<le> m" using m by (intro less.hyps) auto
    show ?thesis using loop left right m True assms [of m] by (auto simp: loop)
  qed (use loop less.prems in auto)
qed

lemma lower_bound_loop_bounds: "l \<le> r \<Longrightarrow> l \<le> lower_bound_loop P l r \<and> lower_bound_loop P l r \<le> r"
  using lower_bound_loop_mono [of P P l r] by simp

interpretation event_cuts:
  thread_cuts "\<lambda>k. getCycleIndexByAccuEventCount g events (int k * int n) S (max S E) unit_time" for g events n S E unit_time
proof
  fix k
  have "int k * int n \<le> int (Suc k) * int n" by (simp add: algebra_simps)
  then show "getCycleIndexByAccuEventCount g events (int k * int n) S (max S E) unit_time
      \<le> getCycleIndexByAccuEventCount g events (int (Suc k) * int n) S (max S E) unit_time"
    unfolding getCycleIndexByAccuEventCount_def by (intro lower_bound_loop_mono [THEN conjunct1]) auto
qed

interpretation cycle_cuts: thread_cuts "\<lambda>k. int k * int n + S" for n S
  by unfold_locales (simp add: algebra_simps)

text \<open>The waveforms of a gate in the buffer: each is empty or an ordered range of the buffer.\<close>

definition wave_ok :: "Event list \<Rightarrow> int \<Rightarrow> int \<Rightarrow> bool" where
  "wave_ok events s e \<longleftrightarrow> s = e \<or>
     (0 \<le> s \<and> s < e \<and> e \<le> int (length events) \<and>
      sorted_wrt (<) (map ev_time (take (nat (e - s)) (drop (nat s) events))))"

definition waves_ok :: "Event list \<Rightarrow> DevGate \<Rightarrow> bool" where
  "waves_ok events g \<longleftrightarrow> list_all (\<lambda>i. wave_ok events (dg_pin_waveform_starts g ! i) (dg_pin_waveform_ends g ! i)) [0..<dg_n_pin g]"

lemma wave_ok_less:
  assumes "wave_ok events s e" "s \<le> i" "i < j" "j < e"
  shows "ev_time (events ! nat i) < ev_time (events ! nat j)"
proof -
  have w: "0 \<le> s" "s < e" "e \<le> int (length events)"
      "sorted_wrt (<) (map ev_time (take (nat (e - s)) (drop (nat s) events)))"
    using assms by (auto simp: wave_ok_def)
  have "ev_time (take (nat (e - s)) (drop (nat s) events) ! nat (i - s))
      < ev_time (take (nat (e - s)) (drop (nat s) events) ! nat (j - s))"
    using sorted_wrt_nth_less [OF w(4), of "nat (i - s)" "nat (j - s)"] assms(2-4) w(1-3) by (simp add: nat_less_eq_zless)
  moreover have "nat s + nat (i - s) = nat i" "nat s + nat (j - s) = nat j" using assms(2-4) w(1) by auto
  ultimately show ?thesis using assms(2-4) w(1-3) by (simp add: nat_less_eq_zless)
qed

lemma device_search_predicate:
  assumes "wave_ok events s e"
  shows "search_predicate (\<lambda>mid. ev_time (events ! nat mid) < t \<or> (c \<and> ev_time (events ! nat mid) \<le> t)) s e"
proof
  show "s \<le> e" using assms by (auto simp: wave_ok_def)
next
  fix i j assume "s \<le> i" "i \<le> j" "j < e"
    and "ev_time (events ! nat j) < t \<or> (c \<and> ev_time (events ! nat j) \<le> t)"
  then show "ev_time (events ! nat i) < t \<or> (c \<and> ev_time (events ! nat i) \<le> t)"
    using wave_ok_less [OF assms, of i j] by (cases "i = j") auto
qed

lemma event_idx_iff:
  assumes "wave_ok events s e" "s \<le> i" "i < e"
  shows "i < getEventIdxByTime_dev events s e t False \<longleftrightarrow> ev_time (events ! nat i) < t"
  using search_predicate.search_iff [OF device_search_predicate [OF assms(1)] assms(2,3), of t False]
  by (simp add: getEventIdxByTime_dev_def)

lemma event_idx_bounds:
  assumes "wave_ok events s e"
  shows "s \<le> getEventIdxByTime_dev events s e t c" "getEventIdxByTime_dev events s e t c \<le> e"
  using search_predicate.search_bounds [OF device_search_predicate [OF assms]]
  by (auto simp: getEventIdxByTime_dev_def)

lemma accu_mono:
  assumes "waves_ok events g" "0 \<le> u" "p \<le> q"
  shows "getAccuEventCountOfGateByPeriodIdx g events p u \<le> getAccuEventCountOfGateByPeriodIdx g events q u"
  unfolding getAccuEventCountOfGateByPeriodIdx_def
proof (rule sum_list_mono)
  fix i assume "i \<in> set [0..<dg_n_pin g]"
  then have w: "wave_ok events (dg_pin_waveform_starts g ! i) (dg_pin_waveform_ends g ! i)"
    using assms(1) by (auto simp: waves_ok_def list_all_iff)
  have "p * u \<le> q * u" using assms(2,3) by (rule mult_right_mono [rotated])
  then have "getEventIdxByTime_dev events (dg_pin_waveform_starts g ! i) (dg_pin_waveform_ends g ! i) (p * u) False
      \<le> getEventIdxByTime_dev events (dg_pin_waveform_starts g ! i) (dg_pin_waveform_ends g ! i) (q * u) False"
    using w unfolding getEventIdxByTime_dev_def
    by (intro lower_bound_loop_mono [THEN conjunct1]) (auto simp: wave_ok_def)
  then show "getEventIdxByTime_dev events (dg_pin_waveform_starts g ! i) (dg_pin_waveform_ends g ! i) (p * u) False
        - dg_pin_waveform_starts g ! i
      \<le> getEventIdxByTime_dev events (dg_pin_waveform_starts g ! i) (dg_pin_waveform_ends g ! i) (q * u) False
        - dg_pin_waveform_starts g ! i" by simp
qed

lemma accu_bounds:
  assumes "waves_ok events g"
  shows "0 \<le> getAccuEventCountOfGateByPeriodIdx g events p u"
    and "getAccuEventCountOfGateByPeriodIdx g events p u \<le> n_gate_events g"
proof -
  have w: "wave_ok events (dg_pin_waveform_starts g ! i) (dg_pin_waveform_ends g ! i)" if "i \<in> set [0..<dg_n_pin g]" for i
    using assms that by (auto simp: waves_ok_def list_all_iff)
  show "0 \<le> getAccuEventCountOfGateByPeriodIdx g events p u"
    unfolding getAccuEventCountOfGateByPeriodIdx_def using event_idx_bounds(1) [OF w] by (intro sum_list_nonneg) auto
  show "getAccuEventCountOfGateByPeriodIdx g events p u \<le> n_gate_events g"
    unfolding getAccuEventCountOfGateByPeriodIdx_def n_gate_events_def waveform_size_def
    using event_idx_bounds(2) [OF w] by (intro sum_list_mono) auto
qed

text \<open>As long as an event lies at or after the start of a cycle, the count before that cycle is not complete.\<close>

lemma accu_incomplete:
  assumes ok: "waves_ok events g" and i: "i < dg_n_pin g"
    and j: "dg_pin_waveform_starts g ! i \<le> j" "j < dg_pin_waveform_ends g ! i" "p * u \<le> ev_time (events ! nat j)"
  shows "getAccuEventCountOfGateByPeriodIdx g events p u < n_gate_events g"
proof -
  have w: "wave_ok events (dg_pin_waveform_starts g ! i) (dg_pin_waveform_ends g ! i)" if "i \<in> {0..<dg_n_pin g}" for i
    using ok that by (auto simp: waves_ok_def list_all_iff)
  have "\<not> j < getEventIdxByTime_dev events (dg_pin_waveform_starts g ! i) (dg_pin_waveform_ends g ! i) (p * u) False"
    using event_idx_iff [OF w j(1,2)] i j(3) by auto
  then have "(\<Sum>i = 0..<dg_n_pin g. getEventIdxByTime_dev events (dg_pin_waveform_starts g ! i) (dg_pin_waveform_ends g ! i)
        (p * u) False - dg_pin_waveform_starts g ! i) < (\<Sum>i = 0..<dg_n_pin g. waveform_size g i)"
    using i j event_idx_bounds(2) [OF w]
    by (intro sum_strict_mono_ex1) (auto simp: waveform_size_def intro!: bexI [of _ i])
  then show ?thesis
    by (simp add: getAccuEventCountOfGateByPeriodIdx_def n_gate_events_def interv_sum_list_conv_sum_set_nat)
qed
section \<open>Properties: the work of the threads\<close>

text \<open>The launch of a gate: a positive cycle, an interval of at least one cycle, and the threads of the schedule.\<close>

definition launch_ok :: "Launch \<Rightarrow> DevGate \<Rightarrow> bool" where
  "launch_ok la g \<longleftrightarrow> 0 < la_unit_per_cycle la \<and> la_start_period la < la_end_period la \<and>
     0 < la_n_event_per_thread la \<and> 0 < dg_n_cycle_per_thread g \<and>
     getEndThreadIdx (la_basis la) g - getStartThreadIdx (la_basis la) g =
       (case la_basis la of
          PB_event \<Rightarrow> nat (ceil_div (n_gate_events g) (la_n_event_per_thread la))
        | PB_cycle \<Rightarrow> nat (ceil_div (la_end_period la - la_start_period la) (dg_n_cycle_per_thread g)))"

definition takes_time :: "Launch \<Rightarrow> DevGate \<Rightarrow> Event list \<Rightarrow> nat \<Rightarrow> int \<Rightarrow> bool" where
  "takes_time la g events k \<tau> = (case thread_range la g events k of None \<Rightarrow> False | Some (a, b) \<Rightarrow> a \<le> \<tau> \<and> \<tau> < b)"

lemma ceil_div_enough: "0 < n \<Longrightarrow> 0 \<le> a \<Longrightarrow> a \<le> int (nat (ceil_div a n)) * n"
proof -
  assume n: "0 < n" "0 \<le> a"
  have "a - 1 < (a + n - 1) div n * n"
    using minus_mod_eq_div_mult [of "a + n - 1" n] pos_mod_bound [of n "a + n - 1"] n by linarith
  then show ?thesis using n by (simp add: ceil_div_def pos_imp_zdiv_nonneg_iff)
qed

lemma ceil_div_least: "0 < n \<Longrightarrow> 0 \<le> a \<Longrightarrow> k < nat (ceil_div a n) \<Longrightarrow> int k * n < a"
proof -
  assume n: "0 < n" "0 \<le> a" and "k < nat (ceil_div a n)"
  then have "int k + 1 \<le> (a + n - 1) div n" by (simp add: ceil_div_def zless_nat_eq_int_zless)
  then have "(int k + 1) * n \<le> a + n - 1" using mult_le_iff_le_div [OF n(1)] by blast
  then show ?thesis by (simp add: algebra_simps)
qed

lemma cycle_threads_cover:
  assumes "launch_ok la g" "la_basis la = PB_cycle"
    and \<tau>: "la_start_period la * la_unit_per_cycle la \<le> \<tau>" "\<tau> \<le> la_end_period la * la_unit_per_cycle la"
  shows "\<exists>!k. takes_time la g events k \<tau>"
proof -
  define n where "n = nat (dg_n_cycle_per_thread g)"
  define S where "S = la_start_period la"
  define E where "E = la_end_period la"
  define u where "u = la_unit_per_cycle la"
  define T where "T = nat (ceil_div (E - S) (int n))"
  have ok: "0 < u" "S < E" "0 < n" "dg_n_cycle_per_thread g = int n"
    "getEndThreadIdx PB_cycle g - getStartThreadIdx PB_cycle g = T"
    using assms(1,2) by (auto simp: launch_ok_def n_def S_def E_def u_def T_def)
  have takes: "takes_time la g events k \<tau> \<longleftrightarrow> k < T \<and> cycle_cuts.in_thread n S u E k \<tau>" for k
    unfolding takes_time_def thread_range_def thread_periods_def cycle_cuts.in_thread_def Let_def
    using ok(4,5) assms(2) by (simp add: not_le S_def E_def u_def add.commute conj_ac)
  have enough: "E \<le> int T * int n + S" using ceil_div_enough [of "int n" "E - S"] ok by (simp add: T_def)
  show ?thesis
  proof (cases "\<tau> = E * u")
    case True
    have "int k * int n + S < E" if "k < T" for k
      using ceil_div_least [of "int n" "E - S" k] that ok by (simp add: T_def)
    then have "\<exists>!k. k < T \<and> cycle_cuts.in_thread n S u E k (E * u)"
      using ok enough by (intro cycle_cuts.covered_last) auto
    then show ?thesis unfolding takes unfolding True .
  next
    case False
    then have lt: "\<tau> < E * u" using \<tau> by (simp add: E_def u_def)
    then have "\<tau> div u < E" using mult_le_iff_le_div [OF ok(1), of E \<tau>] by (auto simp: not_le)
    then have "\<exists>!k. k < T \<and> cycle_cuts.in_thread n S u E k \<tau>"
      using ok enough lt \<tau> by (intro cycle_cuts.covered_before) (auto simp: S_def u_def)
    then show ?thesis by (simp add: takes)
  qed
qed

lemma event_threads_cover:
  assumes "launch_ok la g" "la_basis la = PB_event" and waves: "waves_ok events g"
    and i: "i < dg_n_pin g" and j: "dg_pin_waveform_starts g ! i \<le> j" "j < dg_pin_waveform_ends g ! i"
    and \<tau>: "ev_time (events ! nat j) = \<tau>"
      "la_start_period la * la_unit_per_cycle la \<le> \<tau>" "\<tau> \<le> la_end_period la * la_unit_per_cycle la"
  shows "\<exists>!k. takes_time la g events k \<tau>"
proof -
  define n where "n = nat (la_n_event_per_thread la)"
  define S where "S = la_start_period la"
  define E where "E = la_end_period la"
  define u where "u = la_unit_per_cycle la"
  define T where "T = nat (ceil_div (n_gate_events g) (int n))"
  define A where "A p = getAccuEventCountOfGateByPeriodIdx g events p u" for p
  define cut where "cut k = getCycleIndexByAccuEventCount g events (int k * int n) S E u" for k
  have ok: "0 < u" "S < E" "0 < n" "la_n_event_per_thread la = int n" "max S E = E"
    "getEndThreadIdx PB_event g - getStartThreadIdx PB_event g = T"
    using assms(1,2) by (auto simp: launch_ok_def n_def S_def E_def u_def T_def)
  have search: "search_predicate (\<lambda>p. A p < c) S E" for c
    using accu_mono [OF waves, of u] ok
    by unfold_locales (auto simp: A_def intro: le_less_trans)
  have cut_iff: "A p < int k * int n \<longleftrightarrow> p < cut k" if "S \<le> p" "p < E" for p k
    using search_predicate.search_iff [OF search that] by (simp add: cut_def getCycleIndexByAccuEventCount_def A_def)
  have cut_bounds: "S \<le> cut k" "cut k \<le> E" for k
    using lower_bound_loop_bounds [of S E] ok by (auto simp: cut_def getCycleIndexByAccuEventCount_def)
  have cuts: "cut = (\<lambda>k. getCycleIndexByAccuEventCount g events (int k * int n) S (max S E) u)"
    using ok by (simp add: cut_def fun_eq_iff)
  have tc: "thread_cuts cut" unfolding cuts by (rule event_cuts.thread_cuts_axioms)
  have takes: "takes_time la g events k \<tau> \<longleftrightarrow> k < T \<and> thread_cuts.in_thread cut u E k \<tau>" for k
    unfolding takes_time_def thread_range_def thread_periods_def thread_cuts.in_thread_def [OF tc] Let_def cut_def
    using ok(4,6) assms(2) by (simp add: not_le S_def E_def u_def add.commute conj_ac)
  have first: "cut 0 = S"
    using cut_iff [of S 0] ok cut_bounds(1) [of 0] accu_bounds(1) [OF waves] by (auto simp: A_def not_less [symmetric])
  have enough: "A p < int T * int n" if "p * u \<le> \<tau>" for p
  proof -
    have "A p < n_gate_events g" using accu_incomplete [OF waves i j] that \<tau>(1) by (simp add: A_def)
    moreover have "0 \<le> n_gate_events g" using accu_bounds [OF waves] by (meson order_trans)
    ultimately show ?thesis using ceil_div_enough [of "int n" "n_gate_events g"] ok by (simp add: T_def)
  qed
  show ?thesis
  proof (cases "\<tau> = E * u")
    case True
    have "cut T = E"
    proof (rule ccontr)
      assume "cut T \<noteq> E"
      then have "cut T < E" using cut_bounds [of T] by simp
      moreover from this have "A (cut T) < int T * int n" using True ok by (intro enough) simp
      ultimately show False using cut_iff [of "cut T" T] cut_bounds [of T] by simp
    qed
    have "\<exists>!k. k < T \<and> thread_cuts.in_thread cut u E k (E * u)"
    proof (rule thread_cuts.covered_last [OF tc])
      show "0 < u" "cut 0 < E" "E \<le> cut T" using ok first \<open>cut T = E\<close> by simp_all
      show "cut k < E" if "cut k \<noteq> cut (Suc k)" for k
        using that thread_cuts.cut_step [OF tc, of k] cut_bounds(2) [of "Suc k"] by simp
    qed
    then show ?thesis unfolding takes unfolding True .
  next
    case False
    then have lt: "\<tau> < E * u" using \<tau> by (simp add: E_def u_def)
    define p where "p = \<tau> div u"
    have p: "S \<le> p" "p < E" using \<tau>(2) lt mult_le_iff_le_div [OF ok(1)] by (auto simp: p_def S_def u_def not_le [symmetric])
    have "A p < int T * int n" by (rule enough) (simp add: mult_le_iff_le_div [OF ok(1)] p_def)
    then have "p < cut T" using cut_iff p by simp
    then have "\<exists>!k. k < T \<and> thread_cuts.in_thread cut u E k \<tau>"
      using ok lt first \<tau>(2) by (intro thread_cuts.covered_before [OF tc]) (auto simp: p_def S_def u_def)
    then show ?thesis by (simp add: takes)
  qed
qed
text \<open>Within an interval of whole cycles every event of a gate falls in the time range of exactly one thread
  when the work is divided by events, and every time does when it is divided by cycles: nothing of the interval,
  its last time unit included, is computed twice or left out.\<close>

theorem threads_cover_interval:
  assumes "launch_ok la g" "waves_ok events g"
    and "la_start_period la * la_unit_per_cycle la \<le> \<tau>" "\<tau> \<le> la_end_period la * la_unit_per_cycle la"
    and "la_basis la = PB_cycle \<or> (i < dg_n_pin g \<and> dg_pin_waveform_starts g ! i \<le> j \<and>
           j < dg_pin_waveform_ends g ! i \<and> ev_time (events ! nat j) = \<tau>)"
  shows "\<exists>!k. takes_time la g events k \<tau>"
proof (cases "la_basis la")
  case PB_event
  then show ?thesis using assms by (intro event_threads_cover [where i = i and j = j]) auto
next
  case PB_cycle
  then show ?thesis using assms by (intro cycle_threads_cover) auto
qed

text \<open>An inverter whose input rises at 5 and whose output falls at 6 and rises at 7; a cycle has 4 time units.\<close>

definition dev_events :: "Event list" where
  "dev_events = [\<lparr>ev_time = 0, ev_val = 0\<rparr>, \<lparr>ev_time = 5, ev_val = 1\<rparr>,
                 \<lparr>ev_time = 0, ev_val = 1\<rparr>, \<lparr>ev_time = 6, ev_val = 0\<rparr>, \<lparr>ev_time = 7, ev_val = 1\<rparr>]"

definition dev_pair :: "'l \<Rightarrow> 'l LUTPair" where
  "dev_pair l = \<lparr>tp_rise = Some l, tp_fall = Some l, tp_satisfiable = True,
                 tp_when_state = replicate MAX_N_PIN INVALID_VCD_EVENT_VAL\<rparr>"

definition dev_inverter :: DevGate where
  "dev_inverter =
     \<lparr>dg_is_logic = True, dg_leakage_powers = Some [1, 2, 3, 4], dg_default_leakage_exists = False,
      dg_default_leakage_power_val = 0, dg_n_pin = 2, dg_n_input_pin = 1,
      dg_pin_waveform_starts = [0, 2], dg_pin_waveform_ends = [2, 5], dg_pin_default_states = None,
      dg_n_cycle_per_thread = 2, dg_pin_voltages = [1, 1], dg_pin_rise_slews = [1, 1], dg_pin_fall_slews = [1, 1],
      dg_pin_load_capacitances = [0, 2], dg_pin_is_clocks = [False, False], dg_cell_arc_delays = [1/2, 1/2, 1/2, 1/2],
      dg_event_threads = (0, 3), dg_event_blocks = (0, 1), dg_cycle_threads = (0, 2), dg_cycle_blocks = (0, 1),
      dg_tile_offset = 0,
      dg_input_luts = [(None, [dev_pair \<lparr>l1_is_scalar = True, l1_scalar_value = 3, l1_axis = [], l1_table = []\<rparr>])],
      dg_output_luts = [Some [(None, [dev_pair (TwoDimensionalLUT_scalar 5)])]]\<rparr>"

definition dev_launch :: "PartitionBasis \<Rightarrow> Launch" where
  "dev_launch basis =
     \<lparr>la_basis = basis, la_n_event_per_thread = 2, la_n_thread_per_block = 32, la_start_period = 0,
      la_end_period = 3, la_unit_per_cycle = 4, la_max_time = 10, la_clk_period = 2, la_time_scale = 1/2\<rparr>"

lemma dev_inverter_ok: "launch_ok (dev_launch basis) dev_inverter" "waves_ok dev_events dev_inverter"
proof -
  have "launch_ok (dev_launch PB_event) dev_inverter" by code_simp
  moreover have "launch_ok (dev_launch PB_cycle) dev_inverter" by code_simp
  ultimately show "launch_ok (dev_launch basis) dev_inverter" by (cases basis) simp_all
  show "waves_ok dev_events dev_inverter" by code_simp
qed

theorem threads_cover_interval_witness:
  "(\<exists>!k. takes_time (dev_launch PB_event) dev_inverter dev_events k 6) \<and>
   (\<exists>!k. takes_time (dev_launch PB_cycle) dev_inverter dev_events k 12)"
proof -
  have "ev_time (dev_events ! nat 3) = 6" by code_simp
  then show ?thesis
    using threads_cover_interval [OF dev_inverter_ok, of PB_event 6 1 3]
      threads_cover_interval [OF dev_inverter_ok, of PB_cycle 12 0 0]
    by (simp add: dev_launch_def dev_inverter_def)
qed

text \<open>
  When the cycles of the interval are not a multiple of the cycles per thread, the last thread goes on into the
  next interval; and when the number of events is a multiple of the events per thread, the cycles after the last
  event belong to no thread.
\<close>

lemma cycle_threads_overrun:
  assumes "launch_ok la g" "la_basis la = PB_cycle"
    and "\<not> dg_n_cycle_per_thread g dvd la_end_period la - la_start_period la"
  shows "\<exists>k. takes_time la g events k (la_end_period la * la_unit_per_cycle la)
    \<and> takes_time la g events k ((la_end_period la + 1) * la_unit_per_cycle la - 1)"
proof -
  define n where "n = nat (dg_n_cycle_per_thread g)"
  define S where "S = la_start_period la"
  define E where "E = la_end_period la"
  define u where "u = la_unit_per_cycle la"
  have ok: "0 < u" "S < E" "0 < n" "dg_n_cycle_per_thread g = int n"
    using assms(1) by (auto simp: launch_ok_def n_def S_def E_def u_def)
  have T: "getEndThreadIdx PB_cycle g - getStartThreadIdx PB_cycle g = nat (ceil_div (E - S) (int n))"
    using assms(1,2) ok(4) by (simp add: launch_ok_def S_def E_def)
  define k where "k = nat ((E - S) div int n)"
  have k: "int k = (E - S) div int n" using ok by (simp add: k_def pos_imp_zdiv_nonneg_iff)
  have "(E - S) mod int n \<noteq> 0"
    using assms(3) ok(4) mod_0_imp_dvd [of "E - S" "int n"] by (auto simp only: S_def E_def)
  moreover have "0 \<le> (E - S) mod int n" using ok(3) by (intro pos_mod_sign) simp
  ultimately have rem: "0 < (E - S) mod int n" by (rule le_neq_trans [OF _ not_sym, rotated])
  have bound: "(E - S) mod int n < int n" using ok(3) by simp
  have split: "E - S = int k * int n + (E - S) mod int n" by (simp add: k mult.commute)
  have "E - S + int n - 1 = ((E - S) mod int n - 1) + (int k + 1) * int n" using split by (simp add: algebra_simps)
  then have "(E - S + int n - 1) div int n = int k + 1 + ((E - S) mod int n - 1) div int n"
    using ok(3) by (simp only: div_mult_self1)
  moreover have "((E - S) mod int n - 1) div int n = 0"
    by (rule div_pos_pos_trivial) (use rem bound in linarith)+
  ultimately have "ceil_div (E - S) (int n) = int k + 1" by (simp add: ceil_div_def)
  then have kT: "k < getEndThreadIdx PB_cycle g - getStartThreadIdx PB_cycle g" by (simp add: T)
  have lo: "int k * int n + S < E" using split rem by simp
  have hi: "E < (int k + 1) * int n + S"
    using split bound by (simp add: algebra_simps)
  have range: "thread_range la g events k = Some ((int k * int n + S) * u, ((int k + 1) * int n + S) * u)"
    using kT lo hi ok(3,4) unfolding thread_range_def thread_periods_def Let_def assms(2)
    by (simp add: S_def E_def u_def)
  have "(int k * int n + S) * u \<le> E * u" using lo ok by (intro mult_right_mono) auto
  moreover have "(E + 1) * u \<le> ((int k + 1) * int n + S) * u" using hi ok by (intro mult_right_mono) auto
  moreover have "E * u < (E + 1) * u" using ok by (simp add: algebra_simps)
  ultimately have "takes_time la g events k (E * u) \<and> takes_time la g events k ((E + 1) * u - 1)"
    unfolding takes_time_def range option.case prod.case by linarith
  then show ?thesis by (auto simp: E_def u_def)
qed

lemma event_threads_stop_early:
  fixes k :: nat
  defines "g \<equiv> dev_inverter\<lparr>dg_event_threads := (0, 1), dg_n_pin := 1\<rparr>"
  shows "launch_ok (dev_launch PB_event) g \<and> \<not> takes_time (dev_launch PB_event) g dev_events k 9"
proof -
  have "launch_ok (dev_launch PB_event) g" "\<not> takes_time (dev_launch PB_event) g dev_events 0 9"
    unfolding g_def by code_simp+
  moreover have "\<not> takes_time (dev_launch PB_event) g dev_events k 9" if "0 < k"
    using that by (simp add: g_def takes_time_def thread_range_def dev_launch_def dev_inverter_def
        getEndThreadIdx_def getStartThreadIdx_def split: prod.splits)
  ultimately show ?thesis by (cases "k = 0") auto
qed
text \<open>The automatic number of cycles per thread is at least one and at most the cycles of the interval.\<close>

lemma setNCyclePerThreadByEventCount_bounds:
  assumes "setNCyclePerThreadByEventCount n_cycle threads_target E_target g = Inr g'"
  shows "1 \<le> dg_n_cycle_per_thread g' \<and> dg_n_cycle_per_thread g' \<le> n_cycle"
  using assms by (auto simp: setNCyclePerThreadByEventCount_def Let_def split: if_splits)

text \<open>The schedule establishes what the kernels need: the launch of every scheduled gate is well-formed.\<close>

lemma schedule_launch_ok:
  assumes "scheduleKernelForEventAndCycleBasedPartition cfg u s e order junk gates = Inr sd"
    and "i < length gates" "0 < u" "s div u < e div u" "la_start_period la = s div u" "la_end_period la = e div u"
    and "la_unit_per_cycle la = u" "0 < la_n_event_per_thread la"
    and "la_n_event_per_thread la = (if sc_separate_kernels cfg then 1 else sc_n_event_per_thread cfg)"
    and "sc_auto_cycles cfg \<or> 0 < sc_n_cycle_per_thread cfg"
  shows "launch_ok la (sd_gates sd ! i)"
proof -
  define n where "n = e div u - s div u"
  obtain gates' where set: "res_map (set_cycles cfg n) gates = Inr gates'"
      and sd: "sd = schedule_gates cfg n order junk gates'"
    using assms(1) by (auto simp: scheduleKernelForEventAndCycleBasedPartition_def Let_def n_def split: if_splits)
  have rel: "list_all2 (\<lambda>g g'. set_cycles cfg n g = Inr g') gates gates'" by (rule res_map_list_all2 [OF set])
  have i: "i < length gates'" using rel assms(2) by (simp add: list_all2_lengthD)
  have "set_cycles cfg n (gates ! i) = Inr (gates' ! i)" using rel assms(2) by (rule list_all2_nthD)
  then have pos: "0 < dg_n_cycle_per_thread (gates' ! i)"
    using assms(10) by (auto simp: set_cycles_def split: if_splits dest: setNCyclePerThreadByEventCount_bounds
        dest!: arg_cong [of _ _ dg_n_cycle_per_thread])
  have keep: "dg_n_cycle_per_thread (sd_gates sd ! i) = dg_n_cycle_per_thread (gates' ! i)"
      "n_gate_events (sd_gates sd ! i) = n_gate_events (gates' ! i)"
    using i by (simp_all add: sd schedule_gates_def Let_def nth_enumerate_eq n_gate_events_def waveform_size_def [abs_def])
  show ?thesis
    using assms(3-9) pos keep schedule_gates_nth(4) [OF i, of "la_basis la" cfg n order junk]
    by (auto simp: launch_ok_def sd thread_count_def n_def split: PartitionBasis.splits)
qed

definition dev_config :: ScheduleConfig where
  "dev_config = \<lparr>sc_power_res_length = 2, sc_n_thread_per_block = 2, sc_auto_cycles = False, sc_n_cycle_per_thread = 2,
     sc_parallelism_floor = 1, sc_e_target = 1, sc_separate_kernels = False, sc_n_event_per_thread = 2\<rparr>"

theorem schedule_covers_threads_witness:
  "\<exists>sd. scheduleKernelForEventAndCycleBasedPartition dev_config 4 0 14 [1, 0] (\<lambda>_. 7) [dev_inverter, dev_inverter] = Inr sd \<and>
     block_gates PB_event sd = [0, 0, 1, 1] \<and>
     (\<exists>!p. fst p < 4 \<and> snd p < 2 \<and> block_gates PB_event sd ! fst p = 1 \<and>
        thread_idx_in_gate PB_event 2 (sd_gates sd ! 1) (fst p) (snd p) = 2)"
proof -
  define r where "r = scheduleKernelForEventAndCycleBasedPartition dev_config 4 0 14 [1, 0] (\<lambda>_. 7) [dev_inverter, dev_inverter]"
  have "case r of Inl _ \<Rightarrow> False | Inr sd \<Rightarrow> block_gates PB_event sd = [0, 0, 1, 1] \<and>
      getEndThreadIdx PB_event (sd_gates sd ! 1) - getStartThreadIdx PB_event (sd_gates sd ! 1) = 3"
    unfolding r_def by code_simp
  then obtain sd where sd: "r = Inr sd" "block_gates PB_event sd = [0, 0, 1, 1]"
      "getEndThreadIdx PB_event (sd_gates sd ! 1) - getStartThreadIdx PB_event (sd_gates sd ! 1) = 3"
    by (auto split: sum.splits)
  have "set [1, 0] = {..<length [dev_inverter, dev_inverter]}" by auto
  moreover have "0 < sc_n_thread_per_block dev_config" "sc_n_thread_per_block dev_config = 2" by (simp_all add: dev_config_def)
  ultimately have "\<exists>!p. fst p < length (block_gates PB_event sd) \<and> snd p < sc_n_thread_per_block dev_config \<and>
      block_gates PB_event sd ! fst p = 1 \<and>
      thread_idx_in_gate PB_event (sc_n_thread_per_block dev_config) (sd_gates sd ! 1) (fst p) (snd p) = 2"
    using sd(3) by (intro schedule_covers_threads [OF sd(1) [unfolded r_def], of PB_event, THEN conjunct2, rule_format]) simp_all
  then have "\<exists>!p. fst p < 4 \<and> snd p < 2 \<and> block_gates PB_event sd ! fst p = 1 \<and>
      thread_idx_in_gate PB_event 2 (sd_gates sd ! 1) (fst p) (snd p) = 2"
    by (simp only: sd(2)) (simp add: dev_config_def eval_nat_numeral)
  then show ?thesis using sd(1,2) unfolding r_def by blast
qed

end
