(* ===== verification/GTP_CudaKernel.thy ===== *)
theory GTP_CudaKernel
  imports GTP_CudaSchedule
begin

text \<open>
  The power kernels of the device (\<open>power/cuda/CudaPower.cu\<close>): leakage, internal and switching energies of a gate on
  the event buffer, the glitch ratio of an event, and the three kernels, as functions from the gate, the buffer and
  the index of the thread to its sums and the list of its atomic additions to the per-cycle arrays. A failed assertion,
  a null table and a pin value outside the transition tables are errors of the model.
\<close>

section \<open>Pin states and leakage\<close>

definition of_table :: "'a option \<Rightarrow> power_error + 'a" where
  "of_table v = (case v of None \<Rightarrow> Inl StateOutOfRange | Some x \<Rightarrow> Inr x)"

definition getPinDefaultState :: "DevGate \<Rightarrow> nat \<Rightarrow> VcdEventVal" where
  "getPinDefaultState g pin_idx =
     (case dg_pin_default_states g of
        None \<Rightarrow> 2
      | Some ds \<Rightarrow> if ds ! pin_idx = 0 \<or> ds ! pin_idx = 1 then ds ! pin_idx else 2)"

definition has_waveform :: "DevGate \<Rightarrow> nat \<Rightarrow> bool" where
  "has_waveform g pin_idx \<longleftrightarrow> dg_pin_waveform_starts g ! pin_idx \<noteq> -1 \<and> dg_pin_waveform_ends g ! pin_idx \<noteq> -1"

definition findLeakageVal_dev :: "DevGate \<Rightarrow> VcdEventVal list \<Rightarrow> real" where
  "findLeakageVal_dev g pin_states =
     (case dg_leakage_powers g of
        Some powers \<Rightarrow> powers ! getPinStatesIndex (take (dg_n_pin g) pin_states)
      | None \<Rightarrow> if dg_default_leakage_exists g then dg_default_leakage_power_val g else 0)"

definition la_cycle :: "Launch \<Rightarrow> int \<Rightarrow> int" where
  "la_cycle la time = clkedWaveformIdx time (la_time_scale la) (la_clk_period la)"

partial_function (option) dev_leakage_loop ::
  "real \<Rightarrow> real \<Rightarrow> real \<Rightarrow> real \<Rightarrow> int \<Rightarrow> (int \<times> real) list \<Rightarrow> (int \<times> real) list option" where
  "dev_leakage_loop leakage_val prev cur clk_period cycle_idx acc =
     (if of_int cycle_idx * clk_period \<le> cur then
        let left = max (of_int cycle_idx * clk_period) prev;
            right = min (of_int (cycle_idx + 1) * clk_period) cur;
            duration = right - left
        in dev_leakage_loop leakage_val prev cur clk_period (cycle_idx + 1)
             (acc @ [(cycle_idx, leakage_val * duration / clk_period)])
      else Some acc)"

text \<open>The additions to the per-cycle leakage; none for a clock period of zero, where the loop does not end.\<close>

definition calculatePerCycleLeakagePower_dev :: "Launch \<Rightarrow> real \<Rightarrow> int \<Rightarrow> int \<Rightarrow> (int \<times> real) list option" where
  "calculatePerCycleLeakagePower_dev la leakage_val prev_time cur_time =
     dev_leakage_loop leakage_val (of_int prev_time * la_time_scale la) (of_int cur_time * la_time_scale la)
       (la_clk_period la) (la_cycle la prev_time) []"

section \<open>Internal energies\<close>

definition getPinSlew :: "DevGate \<Rightarrow> nat \<Rightarrow> RISEFALL \<Rightarrow> real" where
  "getPinSlew g pin_idx rf = (case rf of RISE \<Rightarrow> dg_pin_rise_slews g ! pin_idx | FALL \<Rightarrow> dg_pin_fall_slews g ! pin_idx)"

definition getSingleRiseTransitionEnergy :: "DevGate \<Rightarrow> nat \<Rightarrow> real" where
  "getSingleRiseTransitionEnergy g pin_idx =
     dg_pin_load_capacitances g ! pin_idx * dg_pin_voltages g ! pin_idx * dg_pin_voltages g ! pin_idx"

definition cellArcDelay :: "DevGate \<Rightarrow> nat \<Rightarrow> nat \<Rightarrow> RISEFALL \<Rightarrow> RISEFALL \<Rightarrow> real" where
  "cellArcDelay g output_local input_idx from_rf to_rf =
     dg_cell_arc_delays g ! ((output_local * dg_n_input_pin g + input_idx) * 4 + nat (getRiseFallArcIndex from_rf to_rf))"

definition getInputPinInternalEnergyVal :: "DevGate \<Rightarrow> VcdEventVal list \<Rightarrow> nat \<Rightarrow> RISEFALL \<Rightarrow> power_error + real" where
  "getInputPinInternalEnergyVal g pin_states toggle_pin rf =
     (let (by_state, ordered) = dg_input_luts g ! toggle_pin in
      case select_lut by_state ordered pin_states (dg_n_pin g) of
        None \<Rightarrow> Inr 0
      | Some p \<Rightarrow> lookUp1 p (getPinSlew g toggle_pin rf) rf)"

text \<open>The tables that count for the average: every table of every input, for the input edges with an arc and a slew.\<close>

definition default_lookups :: "DevGate \<Rightarrow> nat \<Rightarrow> RISEFALL \<Rightarrow> (LUT2D LUTPair \<times> real) list" where
  "default_lookups g toggle_pin to_rf =
     (let output_local = toggle_pin - dg_n_input_pin g in
      case dg_output_luts g ! output_local of
        None \<Rightarrow> []
      | Some luts \<Rightarrow>
          concat (map (\<lambda>related. concat (map (\<lambda>p. concat (map (\<lambda>from_rf.
              if 0 \<le> cellArcDelay g output_local related from_rf to_rf \<and> 0 \<le> getPinSlew g related from_rf
              then [(p, getPinSlew g related from_rf)] else []) [RISE, FALL]))
            (snd (luts ! related)))) [0..<dg_n_input_pin g]))"

definition getDefaultOutputPinInternalEnergyVal_dev :: "DevGate \<Rightarrow> nat \<Rightarrow> RISEFALL \<Rightarrow> power_error + real" where
  "getDefaultOutputPinInternalEnergyVal_dev g toggle_pin to_rf =
     (let tables = default_lookups g toggle_pin to_rf in
      res_bind (res_map (\<lambda>(p, slew). lookUp2 p slew (dg_pin_load_capacitances g ! toggle_pin) to_rf) tables) (\<lambda>energies.
        Inr (if length tables = 0 then 0 else sum_list energies / real (length tables))))"

text \<open>A double converted to an integer loses its fraction.\<close>

definition c_trunc :: "real \<Rightarrow> int" where
  "c_trunc x = (if 0 \<le> x then \<lfloor>x\<rfloor> else \<lceil>x\<rceil>)"

record RelatedPin =
  rp_min_diff :: int
  rp_pin :: "nat option"
  rp_event :: int

text \<open>
  One input in the search of the related pin. Of two inputs that changed at the same time and whose differences are
  at most one time unit apart, the one whose event is later in the buffer wins.
\<close>

definition related_step_dev ::
  "Launch \<Rightarrow> DevGate \<Rightarrow> Event list \<Rightarrow> int \<Rightarrow> nat \<Rightarrow> RISEFALL \<Rightarrow> nat \<Rightarrow> RelatedPin \<Rightarrow> power_error + RelatedPin" where
  "related_step_dev la g events cur_time toggle_pin to_rf pin_idx acc =
     (if \<not> has_waveform g pin_idx then Inr acc
      else
        let start = dg_pin_waveform_starts g ! pin_idx;
            rel = max start (getEventIdxByTime_dev events start (dg_pin_waveform_ends g ! pin_idx) cur_time False - 1);
            prev = max start (rel - 1)
        in res_bind (of_table (getRiseFallEdge_dev (ev_val (events ! nat prev)) (ev_val (events ! nat rel)))) (\<lambda>from_rf.
           let delay = cellArcDelay g (toggle_pin - dg_n_input_pin g) pin_idx from_rf to_rf in
           if delay < 0 then Inr acc
           else
             let ticks = delay / la_time_scale la;
                 delay_ticks = c_trunc (if 0 \<le> ticks then ticks + 1/2 else ticks - 1/2);
                 rel_time = ev_time (events ! nat rel);
                 diff = \<bar>cur_time - (rel_time + delay_ticks)\<bar>
             in if dg_is_logic g \<and> la_cycle la rel_time \<noteq> la_cycle la cur_time then Inr acc
                else
                  let tie = \<bar>diff - rp_min_diff acc\<bar>;
                      near_tie = rp_pin acc \<noteq> None \<and> rel_time = ev_time (events ! nat (rp_event acc)) \<and> tie \<le> 1
                  in Inr (if diff < rp_min_diff acc \<or> (near_tie \<and> rp_event acc < rel)
                          then \<lparr>rp_min_diff = diff, rp_pin = Some pin_idx, rp_event = rel\<rparr> else acc)))"

fun related_steps ::
  "Launch \<Rightarrow> DevGate \<Rightarrow> Event list \<Rightarrow> int \<Rightarrow> nat \<Rightarrow> RISEFALL \<Rightarrow> nat list \<Rightarrow> RelatedPin \<Rightarrow> power_error + RelatedPin" where
  "related_steps la g events cur_time toggle_pin to_rf [] acc = Inr acc"
| "related_steps la g events cur_time toggle_pin to_rf (i # is) acc =
     res_bind (related_step_dev la g events cur_time toggle_pin to_rf i acc)
       (related_steps la g events cur_time toggle_pin to_rf is)"

definition getOutputPinInternalEnergyVal ::
  "Launch \<Rightarrow> DevGate \<Rightarrow> Event list \<Rightarrow> int \<Rightarrow> nat \<Rightarrow> RISEFALL \<Rightarrow> VcdEventVal list \<Rightarrow> power_error + real" where
  "getOutputPinInternalEnergyVal la g events cur_time toggle_pin to_rf prev_pin_states =
     res_bind (related_steps la g events cur_time toggle_pin to_rf [0..<dg_n_input_pin g]
                 \<lparr>rp_min_diff = la_max_time la, rp_pin = None, rp_event = -1\<rparr>) (\<lambda>rp.
       case rp_pin rp of
         None \<Rightarrow> getDefaultOutputPinInternalEnergyVal_dev g toggle_pin to_rf
       | Some related \<Rightarrow>
           let prev = max (dg_pin_waveform_starts g ! related) (rp_event rp - 1) in
           res_bind (of_table (getRiseFallEdge_dev (ev_val (events ! nat prev)) (ev_val (events ! nat (rp_event rp))))) (\<lambda>from_rf.
           case (case dg_output_luts g ! (toggle_pin - dg_n_input_pin g) of
                   None \<Rightarrow> None
                 | Some luts \<Rightarrow> select_lut (fst (luts ! related)) (snd (luts ! related)) prev_pin_states (dg_n_pin g)) of
             None \<Rightarrow> getDefaultOutputPinInternalEnergyVal_dev g toggle_pin to_rf
           | Some p \<Rightarrow> lookUp2 p (getPinSlew g related from_rf) (dg_pin_load_capacitances g ! toggle_pin) to_rf))"
section \<open>The glitch ratio of an event\<close>

text \<open>The number of events of a pin in a cycle is a 16-bit signed integer.\<close>

definition to_short :: "int \<Rightarrow> int" where
  "to_short x = (x + 2 ^ 15) mod 2 ^ 16 - 2 ^ 15"

definition c_odd :: "int \<Rightarrow> bool" where
  "c_odd n \<longleftrightarrow> 0 < n \<and> n mod 2 = 1"

definition INVALID_N_PERIOD_VAL :: int where
  "INVALID_N_PERIOD_VAL = -1"

definition scaled_ratio :: "Launch \<Rightarrow> DevGate \<Rightarrow> nat \<Rightarrow> int \<Rightarrow> real" where
  "scaled_ratio la g pin_idx width =
     (if width \<noteq> INVALID_PULSE_WIDTH then
        getTimeBasedGlitchScalingRatio_dev (of_int width * la_time_scale la)
          (dg_pin_rise_slews g ! pin_idx + dg_pin_fall_slews g ! pin_idx)
      else INVALID_N_TOGGLE_VAL)"

text \<open>
  In the fused kernel the thread counts the events of every pin in its current cycle; the count is updated even when
  the event gets no ratio. The result is the ratio and the new cycle and count of the pin.
\<close>

definition getGlitchScalingRatioClockCycleBasedOnDeviceOnly ::
  "Launch \<Rightarrow> DevGate \<Rightarrow> Event list \<Rightarrow> int \<Rightarrow> int \<Rightarrow> int \<Rightarrow> nat \<Rightarrow> real \<times> int \<times> int" where
  "getGlitchScalingRatioClockCycleBasedOnDeviceOnly la g events cur_period_idx n_event_in_period cur_event pin_idx =
     (if dg_pin_is_clocks g ! pin_idx then (INVALID_N_TOGGLE_VAL, cur_period_idx, n_event_in_period)
      else
        let period = (\<lambda>i. la_cycle la (ev_time (events ! nat i)));
            event_period = period cur_event;
            n = (if event_period = cur_period_idx then to_short (n_event_in_period + 1) else 1);
            start = dg_pin_waveform_starts g ! pin_idx; end_idx = dg_pin_waveform_ends g ! pin_idx;
            prev_width = (if start \<le> cur_event - 1 \<and> event_period = period (cur_event - 1)
              then ev_time (events ! nat cur_event) - ev_time (events ! nat (cur_event - 1)) else INVALID_PULSE_WIDTH);
            has_next = (cur_event + 1 < end_idx \<and> event_period = period (cur_event + 1));
            next_width = (if has_next \<and>
                ((cur_event + 2 < end_idx \<and> event_period = period (cur_event + 2)) \<or> c_odd n)
              then ev_time (events ! nat (cur_event + 1)) - ev_time (events ! nat cur_event) else INVALID_PULSE_WIDTH)
        in (if \<not> has_next \<and> c_odd n then INVALID_N_TOGGLE_VAL
            else scaled_ratio la g pin_idx (max prev_width next_width), event_period, n))"

definition lowerBoundEventIdxByPeriod :: "Launch \<Rightarrow> Event list \<Rightarrow> int \<Rightarrow> int \<Rightarrow> int \<Rightarrow> int" where
  "lowerBoundEventIdxByPeriod la events start end_idx target_period =
     lower_bound_loop (\<lambda>mid. la_cycle la (ev_time (events ! nat mid)) < target_period) start end_idx"

text \<open>In the kernel with one thread per event, the same from the events of the cycle in the buffer.\<close>

definition getGlitchScalingRatioClockCycle_EventCentric ::
  "Launch \<Rightarrow> DevGate \<Rightarrow> Event list \<Rightarrow> int \<Rightarrow> nat \<Rightarrow> real" where
  "getGlitchScalingRatioClockCycle_EventCentric la g events cur_event pin_idx =
     (let start = dg_pin_waveform_starts g ! pin_idx; end_idx = dg_pin_waveform_ends g ! pin_idx in
      if dg_pin_is_clocks g ! pin_idx \<or> start = -1 \<or> end_idx = -1 \<or> cur_event < start \<or> end_idx \<le> cur_event
      then INVALID_N_TOGGLE_VAL
      else
        let cur_period = la_cycle la (ev_time (events ! nat cur_event));
            period_start = lowerBoundEventIdxByPeriod la events start end_idx cur_period;
            period_end = lowerBoundEventIdxByPeriod la events start end_idx (cur_period + 1);
            n_in_period = period_end - period_start;
            pos = cur_event - period_start;
            count_so_far = to_short (pos + 1);
            prev_width = (if 1 \<le> pos
              then ev_time (events ! nat cur_event) - ev_time (events ! nat (cur_event - 1)) else INVALID_PULSE_WIDTH);
            next_width = (if pos + 1 < n_in_period \<and> (pos + 2 < n_in_period \<or> c_odd count_so_far)
              then ev_time (events ! nat (cur_event + 1)) - ev_time (events ! nat cur_event) else INVALID_PULSE_WIDTH)
        in if n_in_period \<le> 0 \<or> pos < 0 \<or> n_in_period \<le> pos then INVALID_N_TOGGLE_VAL
           else if \<not> pos + 1 < n_in_period \<and> c_odd count_so_far then INVALID_N_TOGGLE_VAL
           else scaled_ratio la g pin_idx (max prev_width next_width))"

section \<open>The fused kernel\<close>

text \<open>The local state of a thread: its arrays over the pins, its five sums and its atomic additions so far.\<close>

record ThreadState =
  th_states :: "VcdEventVal list"
  th_frontiers :: "int list"
  th_periods :: "int list"
  th_counts :: "int list"
  th_prev_time :: int
  th_leakage :: real
  th_switching :: real
  th_glitch_switching :: real
  th_internal :: real
  th_glitch_internal :: real
  th_adds :: "(WaveKind \<times> int \<times> real) list"

definition kernel_sim_seconds :: "Launch \<Rightarrow> real" where
  "kernel_sim_seconds la = of_int (la_max_time la) * la_time_scale la"

text \<open>
  The state and frontier of a pin before the loop. The first event of the waveform is the initial condition and is
  never processed; a pin without a waveform has no frontier, and the loop does not read it.
\<close>

definition pin_start :: "DevGate \<Rightarrow> Event list \<Rightarrow> int \<Rightarrow> nat \<Rightarrow> VcdEventVal \<times> int" where
  "pin_start g events start_time pin_idx =
     (if \<not> has_waveform g pin_idx then (getPinDefaultState g pin_idx, 0)
      else
        let start = dg_pin_waveform_starts g ! pin_idx;
            first = getEventIdxByTime_dev events start (dg_pin_waveform_ends g ! pin_idx) start_time False;
            prev = max start (first - 1)
        in (ev_val (events ! nat prev), if prev = start then start + 1 else first))"

definition pin_end :: "DevGate \<Rightarrow> Event list \<Rightarrow> int \<Rightarrow> nat \<Rightarrow> int" where
  "pin_end g events end_time pin_idx =
     getEventIdxByTime_dev events (dg_pin_waveform_starts g ! pin_idx) (dg_pin_waveform_ends g ! pin_idx) end_time False"

definition thread_initial :: "DevGate \<Rightarrow> Event list \<Rightarrow> int \<Rightarrow> ThreadState" where
  "thread_initial g events start_time =
     \<lparr>th_states = map (\<lambda>i. fst (pin_start g events start_time i)) [0..<dg_n_pin g],
      th_frontiers = map (\<lambda>i. snd (pin_start g events start_time i)) [0..<dg_n_pin g],
      th_periods = replicate (dg_n_pin g) INVALID_N_PERIOD_VAL, th_counts = replicate (dg_n_pin g) 0,
      th_prev_time = start_time, th_leakage = 0, th_switching = 0, th_glitch_switching = 0, th_internal = 0,
      th_glitch_internal = 0, th_adds = []\<rparr>"

text \<open>The scan for the least time of the frontiers: that time, its pins in order, and whether an output toggles.\<close>

definition pin_pending :: "DevGate \<Rightarrow> int list \<Rightarrow> int list \<Rightarrow> nat \<Rightarrow> bool" where
  "pin_pending g ends frontiers i \<longleftrightarrow> has_waveform g i \<and> frontiers ! i < ends ! i"

definition scan_pin ::
  "DevGate \<Rightarrow> Event list \<Rightarrow> int list \<Rightarrow> ThreadState \<Rightarrow> nat \<Rightarrow> int \<times> nat list \<times> bool \<Rightarrow> power_error + (int \<times> nat list \<times> bool)"
where
  "scan_pin g events ends th i acc =
     (if \<not> pin_pending g ends (th_frontiers th) i then Inr acc
      else
        let (cur_time, triggered, has_output_toggle) = acc;
            e = events ! nat (th_frontiers th ! i); t = ev_time e;
            (cur_time', triggered', has_output_toggle') =
              (if t < cur_time then (t, [i], False)
               else if t = cur_time then (cur_time, triggered @ [i], has_output_toggle) else acc)
        in if t = cur_time' \<and> dg_n_input_pin g \<le> i then
             res_bind (of_table (getNToggle_dev (th_states th ! i) (ev_val e))) (\<lambda>n.
               Inr (cur_time', triggered', has_output_toggle' \<or> n \<noteq> 0))
           else Inr (cur_time', triggered', has_output_toggle'))"

fun scan_pins ::
  "DevGate \<Rightarrow> Event list \<Rightarrow> int list \<Rightarrow> ThreadState \<Rightarrow> nat list \<Rightarrow> int \<times> nat list \<times> bool \<Rightarrow> power_error + (int \<times> nat list \<times> bool)"
where
  "scan_pins g events ends th [] acc = Inr acc"
| "scan_pins g events ends th (i # is) acc =
     res_bind (scan_pin g events ends th i acc) (scan_pins g events ends th is)"

text \<open>The insertion sort of the triggered pins by their event index.\<close>

definition insert_triggered :: "(nat \<Rightarrow> int) \<Rightarrow> nat list \<Rightarrow> nat \<Rightarrow> nat list" where
  "insert_triggered key sorted_pins pin =
     rev (dropWhile (\<lambda>p. key pin < key p) (rev sorted_pins)) @ [pin] @
     rev (takeWhile (\<lambda>p. key pin < key p) (rev sorted_pins))"

definition sort_triggered :: "(nat \<Rightarrow> int) \<Rightarrow> nat list \<Rightarrow> nat list" where
  "sort_triggered key pins = foldl (insert_triggered key) [] pins"
definition thread_leakage :: "Launch \<Rightarrow> DevGate \<Rightarrow> int \<Rightarrow> ThreadState \<Rightarrow> power_error + ThreadState" where
  "thread_leakage la g cur_time th =
     (let leakage_val = findLeakageVal_dev g (th_states th) in
      case calculatePerCycleLeakagePower_dev la leakage_val (th_prev_time th) cur_time of
        None \<Rightarrow> Inl EndlessLoop
      | Some adds \<Rightarrow> Inr (th\<lparr>th_leakage := th_leakage th
            + leakage_val * of_int (cur_time - th_prev_time th) / of_int (la_max_time la),
            th_adds := th_adds th @ map (Pair W_leakage) adds\<rparr>))"

definition thread_add_switching :: "Launch \<Rightarrow> DevGate \<Rightarrow> nat \<Rightarrow> int \<Rightarrow> real \<Rightarrow> real \<Rightarrow> ThreadState \<Rightarrow> ThreadState" where
  "thread_add_switching la g pin_idx cur_time n_rise ratio th =
     (if n_rise > 0 then
        let energy = n_rise * getSingleRiseTransitionEnergy g pin_idx; c = la_cycle la cur_time in
        if ratio > 0 then
          th\<lparr>th_glitch_switching := th_glitch_switching th + ratio * energy * (1 / kernel_sim_seconds la),
             th_adds := th_adds th @ [(W_glitch_switching, c, ratio * energy * (1 / la_clk_period la))]\<rparr>
        else
          th\<lparr>th_switching := th_switching th + energy * (1 / kernel_sim_seconds la),
             th_adds := th_adds th @ [(W_switching, c, energy * (1 / la_clk_period la))]\<rparr>
      else th)"

definition thread_add_internal :: "Launch \<Rightarrow> int \<Rightarrow> real \<Rightarrow> real \<Rightarrow> ThreadState \<Rightarrow> ThreadState" where
  "thread_add_internal la cur_time energy ratio th =
     (let c = la_cycle la cur_time in
      if ratio > 0 then
        th\<lparr>th_glitch_internal := th_glitch_internal th + ratio * energy * (1 / kernel_sim_seconds la),
           th_adds := th_adds th @ [(W_glitch_internal, c, ratio * energy * (1 / la_clk_period la))]\<rparr>
      else
        th\<lparr>th_internal := th_internal th + energy * (1 / kernel_sim_seconds la),
           th_adds := th_adds th @ [(W_internal, c, energy * (1 / la_clk_period la))]\<rparr>)"

text \<open>
  One triggered pin: it takes its event at once, so the next pins of the same time see its new state; the energy of
  an output is looked up in the states before the time (\<open>before\<close>).
\<close>

definition thread_pin ::
  "Launch \<Rightarrow> DevGate \<Rightarrow> Event list \<Rightarrow> int \<Rightarrow> VcdEventVal list \<Rightarrow> nat \<Rightarrow> ThreadState \<Rightarrow> power_error + ThreadState" where
  "thread_pin la g events cur_time before i th0 =
     (let cur_event = th_frontiers th0 ! i;
          new_val = ev_val (events ! nat cur_event);
          old_val = th_states th0 ! i;
          th = th0\<lparr>th_frontiers := (th_frontiers th0)[i := cur_event + 1]\<rparr>
      in res_bind (of_table (getNToggle_dev old_val new_val)) (\<lambda>n_toggle.
         if n_toggle = 0 then Inr (th\<lparr>th_states := (th_states th)[i := new_val]\<rparr>)
         else
           let (ratio, period, n) = getGlitchScalingRatioClockCycleBasedOnDeviceOnly la g events
                 (th_periods th ! i) (th_counts th ! i) cur_event i;
               th1 = th\<lparr>th_periods := (th_periods th)[i := period], th_counts := (th_counts th)[i := n]\<rparr>
           in res_bind (of_table (getRiseFallEdge_dev old_val new_val)) (\<lambda>rf.
              res_bind (if i < dg_n_input_pin g then
                  res_bind (getInputPinInternalEnergyVal g (th_states th1) i rf) (\<lambda>e. Inr (n_toggle * e, th1))
                else
                  res_bind (getOutputPinInternalEnergyVal la g events cur_time i rf before) (\<lambda>e.
                  res_bind (of_table (getNRise_dev old_val new_val)) (\<lambda>n_rise.
                    Inr (n_toggle * e, thread_add_switching la g i cur_time n_rise ratio th1)))) (\<lambda>(energy, th2).
              Inr ((thread_add_internal la cur_time energy ratio th2)\<lparr>th_states := (th_states th2)[i := new_val]\<rparr>)))))"

fun thread_pins ::
  "Launch \<Rightarrow> DevGate \<Rightarrow> Event list \<Rightarrow> int \<Rightarrow> VcdEventVal list \<Rightarrow> nat list \<Rightarrow> ThreadState \<Rightarrow> power_error + ThreadState"
where
  "thread_pins la g events cur_time before [] th = Inr th"
| "thread_pins la g events cur_time before (i # is) th =
     res_bind (thread_pin la g events cur_time before i th) (thread_pins la g events cur_time before is)"

text \<open>
  One time of the loop. Without an output toggle the copy of the states is not made; no triggered pin reads it then,
  and the model passes the empty list.
\<close>

definition thread_step ::
  "Launch \<Rightarrow> DevGate \<Rightarrow> Event list \<Rightarrow> int \<Rightarrow> nat list \<Rightarrow> bool \<Rightarrow> ThreadState \<Rightarrow> power_error + ThreadState" where
  "thread_step la g events cur_time triggered has_output_toggle th =
     res_bind (thread_leakage la g cur_time th) (\<lambda>th1.
     res_bind (thread_pins la g events cur_time (if has_output_toggle then th_states th else [])
                 (sort_triggered (\<lambda>i. th_frontiers th ! i) triggered) th1) (\<lambda>th2.
       Inr (th2\<lparr>th_prev_time := cur_time\<rparr>)))"

text \<open>
  The loop ends when no pin has an event before the end of the thread. Every iteration takes at least one event;
  \<open>fuel\<close> bounds the iterations, and \<open>n_gate_events\<close> plus one is enough.
\<close>

fun thread_loop ::
  "nat \<Rightarrow> Launch \<Rightarrow> DevGate \<Rightarrow> Event list \<Rightarrow> int list \<Rightarrow> ThreadState \<Rightarrow> power_error + ThreadState" where
  "thread_loop 0 la g events ends th = Inl EndlessLoop"
| "thread_loop (Suc fuel) la g events ends th =
     res_bind (scan_pins g events ends th [0..<dg_n_pin g] (la_max_time la + 10, [], False))
       (\<lambda>(cur_time, triggered, has_output_toggle).
       if cur_time = la_max_time la + 10 then Inr th
       else res_bind (thread_step la g events cur_time triggered has_output_toggle th)
              (thread_loop fuel la g events ends))"

definition thread_fuel :: "DevGate \<Rightarrow> nat" where
  "thread_fuel g = nat (n_gate_events g) + 1"

text \<open>A thread of the fused kernel: the loop over its times, then the leakage up to its end.\<close>

definition kernel1All :: "Launch \<Rightarrow> DevGate \<Rightarrow> Event list \<Rightarrow> nat \<Rightarrow> power_error + ThreadState option" where
  "kernel1All la g events k =
     (case thread_range la g events k of
        None \<Rightarrow> Inr None
      | Some (start_time, end_time) \<Rightarrow>
          res_bind (thread_loop (thread_fuel g) la g events (map (pin_end g events end_time) [0..<dg_n_pin g])
                      (thread_initial g events start_time)) (\<lambda>th.
          res_bind (thread_leakage la g (min end_time (la_max_time la)) th) (\<lambda>th'. Inr (Some th'))))"
section \<open>The two separate kernels\<close>

text \<open>The pin and event with a given index, counting the events of the pins in order.\<close>

fun flattened_event :: "DevGate \<Rightarrow> int \<Rightarrow> int \<Rightarrow> nat list \<Rightarrow> (nat \<times> int) option" where
  "flattened_event g linear_idx base [] = None"
| "flattened_event g linear_idx base (i # is) =
     (if \<not> has_waveform g i then flattened_event g linear_idx base is
      else if linear_idx < base + waveform_size g i
        then Some (i, dg_pin_waveform_starts g ! i + (linear_idx - base))
      else flattened_event g linear_idx (base + waveform_size g i) is)"

definition mapFlattenedEventToPinAndEventIdx :: "DevGate \<Rightarrow> int \<Rightarrow> (nat \<times> int) option" where
  "mapFlattenedEventToPinAndEventIdx g linear_idx = flattened_event g linear_idx 0 [0..<dg_n_pin g]"

text \<open>The state of a pin before a time, and after its events of that time that lie before \<open>event_idx\<close> in the buffer.\<close>

definition state_before :: "DevGate \<Rightarrow> Event list \<Rightarrow> int \<Rightarrow> nat \<Rightarrow> VcdEventVal" where
  "state_before g events cur_time p =
     (if \<not> has_waveform g p then getPinDefaultState g p
      else
        let start = dg_pin_waveform_starts g ! p;
            pos = getEventIdxByTime_dev events start (dg_pin_waveform_ends g ! p) cur_time False
        in ev_val (events ! nat (if start < pos then pos - 1 else start)))"

definition state_seen :: "DevGate \<Rightarrow> Event list \<Rightarrow> int \<Rightarrow> int \<Rightarrow> nat \<Rightarrow> VcdEventVal" where
  "state_seen g events cur_time event_idx p =
     (if \<not> has_waveform g p then getPinDefaultState g p
      else
        let start = dg_pin_waveform_starts g ! p;
            pos = getEventIdxByTime_dev events start (dg_pin_waveform_ends g ! p) cur_time False;
            same = takeWhile (\<lambda>i. i < dg_pin_waveform_ends g ! p \<and> ev_time (events ! nat i) = cur_time \<and> i < event_idx)
                     [pos..dg_pin_waveform_ends g ! p]
        in if same = [] then state_before g events cur_time p else ev_val (events ! nat (last same)))"

definition empty_thread :: ThreadState where
  "empty_thread = \<lparr>th_states = [], th_frontiers = [], th_periods = [], th_counts = [], th_prev_time = 0, th_leakage = 0,
     th_switching = 0, th_glitch_switching = 0, th_internal = 0, th_glitch_internal = 0, th_adds = []\<rparr>"

definition event_energy ::
  "Launch \<Rightarrow> DevGate \<Rightarrow> Event list \<Rightarrow> nat \<Rightarrow> int \<Rightarrow> power_error + ThreadState option" where
  "event_energy la g events i event_idx =
     (let cur_time = ev_time (events ! nat event_idx);
          before = map (state_before g events cur_time) [0..<dg_n_pin g];
          prev = map (state_seen g events cur_time event_idx) [0..<dg_n_pin g];
          ratio = getGlitchScalingRatioClockCycle_EventCentric la g events event_idx i;
          new_val = ev_val (events ! nat event_idx)
      in res_bind (of_table (getNToggle_dev (prev ! i) new_val)) (\<lambda>n_toggle.
         if n_toggle = 0 then Inr None
         else
           res_bind (of_table (getRiseFallEdge_dev (prev ! i) new_val)) (\<lambda>rf.
           res_bind (if i < dg_n_input_pin g then
               res_bind (getInputPinInternalEnergyVal g prev i rf) (\<lambda>e. Inr (n_toggle * e, empty_thread))
             else
               res_bind (getOutputPinInternalEnergyVal la g events cur_time i rf before) (\<lambda>e.
               res_bind (of_table (getNRise_dev (prev ! i) new_val)) (\<lambda>n_rise.
                 Inr (n_toggle * e, thread_add_switching la g i cur_time n_rise ratio empty_thread)))) (\<lambda>(energy, th).
           Inr (Some (thread_add_internal la cur_time energy ratio th))))))"

text \<open>A thread of the kernel with one event per thread: the initial condition of a pin has no energy.\<close>

definition kernel1_1 :: "Launch \<Rightarrow> DevGate \<Rightarrow> Event list \<Rightarrow> nat \<Rightarrow> power_error + ThreadState option" where
  "kernel1_1 la g events k =
     (if la_basis la \<noteq> PB_event \<or> la_n_event_per_thread la \<noteq> 1 then Inr None
      else case mapFlattenedEventToPinAndEventIdx g (int k) of
          None \<Rightarrow> Inr None
        | Some (i, event_idx) \<Rightarrow>
            let cur_time = ev_time (events ! nat event_idx) in
            if event_idx = dg_pin_waveform_starts g ! i then Inr None
            else if cur_time < la_start_period la * la_unit_per_cycle la
                 \<or> la_end_period la * la_unit_per_cycle la + 1 \<le> cur_time then Inr None
            else event_energy la g events i event_idx)"

text \<open>The leakage-only kernel: the fused loop without energies.\<close>

definition leakage_step :: "Launch \<Rightarrow> DevGate \<Rightarrow> Event list \<Rightarrow> int list \<Rightarrow> int \<Rightarrow> ThreadState \<Rightarrow> power_error + ThreadState" where
  "leakage_step la g events ends cur_time th =
     (let hit = (\<lambda>i. pin_pending g ends (th_frontiers th) i \<and> ev_time (events ! nat (th_frontiers th ! i)) = cur_time);
          states = map (\<lambda>i. if hit i then ev_val (events ! nat (th_frontiers th ! i)) else th_states th ! i) [0..<dg_n_pin g];
          frontiers = map (\<lambda>i. if hit i then th_frontiers th ! i + 1 else th_frontiers th ! i) [0..<dg_n_pin g]
      in res_bind (thread_leakage la g cur_time th) (\<lambda>th1.
           Inr (th1\<lparr>th_states := states, th_frontiers := frontiers, th_prev_time := cur_time\<rparr>)))"

definition scan_time :: "DevGate \<Rightarrow> Event list \<Rightarrow> int list \<Rightarrow> int list \<Rightarrow> int \<Rightarrow> int" where
  "scan_time g events ends frontiers max_time =
     fold (\<lambda>i t. if pin_pending g ends frontiers i then min (ev_time (events ! nat (frontiers ! i))) t else t)
       [0..<dg_n_pin g] max_time"

fun leakage_thread_loop ::
  "nat \<Rightarrow> Launch \<Rightarrow> DevGate \<Rightarrow> Event list \<Rightarrow> int list \<Rightarrow> ThreadState \<Rightarrow> power_error + ThreadState" where
  "leakage_thread_loop 0 la g events ends th = Inl EndlessLoop"
| "leakage_thread_loop (Suc fuel) la g events ends th =
     (let cur_time = scan_time g events ends (th_frontiers th) (la_max_time la + 10) in
      if cur_time = la_max_time la + 10 then Inr th
      else res_bind (leakage_step la g events ends cur_time th) (leakage_thread_loop fuel la g events ends))"

definition kernel1_2 :: "Launch \<Rightarrow> DevGate \<Rightarrow> Event list \<Rightarrow> nat \<Rightarrow> power_error + ThreadState option" where
  "kernel1_2 la g events k =
     (case la_basis la of
        PB_event \<Rightarrow> Inl AssertFailed
      | PB_cycle \<Rightarrow>
          (case thread_range la g events k of
             None \<Rightarrow> Inr None
           | Some (start_time, end_time) \<Rightarrow>
               res_bind (leakage_thread_loop (thread_fuel g) la g events
                           (map (pin_end g events end_time) [0..<dg_n_pin g]) (thread_initial g events start_time)) (\<lambda>th.
               res_bind (thread_leakage la g (min end_time (la_max_time la)) th) (\<lambda>th'. Inr (Some th')))))"
section \<open>States over time\<close>

text \<open>
  The index after the last event of a pin up to a time, never before its second event: the first event is the
  initial condition. The state of the pin at the time is the value of the event before that index.
\<close>

definition dev_front :: "DevGate \<Rightarrow> Event list \<Rightarrow> nat \<Rightarrow> int \<Rightarrow> int" where
  "dev_front g events i t =
     max (dg_pin_waveform_starts g ! i + 1)
       (getEventIdxByTime_dev events (dg_pin_waveform_starts g ! i) (dg_pin_waveform_ends g ! i) (t + 1) False)"

definition dev_state_at :: "DevGate \<Rightarrow> Event list \<Rightarrow> nat \<Rightarrow> int \<Rightarrow> VcdEventVal" where
  "dev_state_at g events i t =
     (if has_waveform g i then ev_val (events ! nat (dev_front g events i t - 1)) else getPinDefaultState g i)"

definition dev_states_at :: "DevGate \<Rightarrow> Event list \<Rightarrow> int \<Rightarrow> VcdEventVal list" where
  "dev_states_at g events t = map (\<lambda>i. dev_state_at g events i t) [0..<dg_n_pin g]"

definition dev_leakage_at :: "DevGate \<Rightarrow> Event list \<Rightarrow> int \<Rightarrow> real" where
  "dev_leakage_at g events t = findLeakageVal_dev g (dev_states_at g events t)"

text \<open>A gate whose waveforms have an initial condition, are ordered and end within the simulated time.\<close>

definition dev_gate_ok :: "Launch \<Rightarrow> DevGate \<Rightarrow> Event list \<Rightarrow> bool" where
  "dev_gate_ok la g events \<longleftrightarrow>
     0 < la_time_scale la \<and> 0 < la_clk_period la \<and> 0 < la_max_time la \<and> waves_ok events g \<and>
     list_all (\<lambda>i. has_waveform g i \<longrightarrow> dg_pin_waveform_starts g ! i < dg_pin_waveform_ends g ! i \<and>
        list_all (\<lambda>j. ev_time (events ! nat j) \<le> la_max_time la)
          [dg_pin_waveform_starts g ! i..dg_pin_waveform_ends g ! i - 1]) [0..<dg_n_pin g]"

lemma dev_gate_wave:
  assumes "dev_gate_ok la g events" "i < dg_n_pin g"
  shows "wave_ok events (dg_pin_waveform_starts g ! i) (dg_pin_waveform_ends g ! i)"
    and "has_waveform g i \<Longrightarrow> dg_pin_waveform_starts g ! i < dg_pin_waveform_ends g ! i"
    and "has_waveform g i \<Longrightarrow> dg_pin_waveform_starts g ! i \<le> j \<Longrightarrow> j < dg_pin_waveform_ends g ! i \<Longrightarrow>
      ev_time (events ! nat j) \<le> la_max_time la"
  using assms by (auto simp: dev_gate_ok_def waves_ok_def list_all_iff)

lemma dev_front_bounds:
  assumes "dev_gate_ok la g events" "i < dg_n_pin g" "has_waveform g i"
  shows "dg_pin_waveform_starts g ! i < dev_front g events i t" "dev_front g events i t \<le> dg_pin_waveform_ends g ! i"
  using dev_gate_wave [OF assms(1,2)] event_idx_bounds assms(3) by (auto simp: dev_front_def)

lemma dev_front_passed:
  assumes "dev_gate_ok la g events" "i < dg_n_pin g" "has_waveform g i"
    and "dg_pin_waveform_starts g ! i < j" "j < dg_pin_waveform_ends g ! i"
  shows "j < dev_front g events i t \<longleftrightarrow> ev_time (events ! nat j) \<le> t"
  using event_idx_iff [OF dev_gate_wave(1) [OF assms(1,2)], of j "t + 1"] assms(4,5) by (auto simp: dev_front_def)

lemma dev_front_eqI:
  assumes ok: "dev_gate_ok la g events" "i < dg_n_pin g" "has_waveform g i"
    and f: "dg_pin_waveform_starts g ! i < f" "f \<le> dg_pin_waveform_ends g ! i"
    and before: "\<And>j. dg_pin_waveform_starts g ! i < j \<Longrightarrow> j < f \<Longrightarrow> ev_time (events ! nat j) \<le> t"
    and after: "f < dg_pin_waveform_ends g ! i \<Longrightarrow> t < ev_time (events ! nat f)"
  shows "dev_front g events i t = f"
proof (rule ccontr)
  note bounds = dev_front_bounds [OF ok, of t] and passed = dev_front_passed [OF ok]
  assume "dev_front g events i t \<noteq> f"
  then consider "dev_front g events i t < f" | "f < dev_front g events i t" by linarith
  then show False
  proof cases
    case 1
    then show False using before [of "dev_front g events i t"] passed [of "dev_front g events i t" t] bounds f by auto
  next
    case 2
    then show False using after passed [of f t] bounds f by auto
  qed
qed

text \<open>
  Between the frontier at \<open>T\<close> and the next pending time \<open>c\<close>: the frontier stays until \<open>c\<close> and moves past the event
  at \<open>c\<close>, if the pin has one. Events from \<open>b\<close> on are not pending.
\<close>

definition front_next :: "DevGate \<Rightarrow> Event list \<Rightarrow> int \<Rightarrow> nat \<Rightarrow> int \<Rightarrow> int \<Rightarrow> bool" where
  "front_next g events b i T c \<longleftrightarrow>
     (dev_front g events i T < pin_end g events b i \<longrightarrow> c \<le> ev_time (events ! nat (dev_front g events i T)))"

lemma pin_end_iff:
  assumes "dev_gate_ok la g events" "i < dg_n_pin g" "dg_pin_waveform_starts g ! i \<le> j" "j < dg_pin_waveform_ends g ! i"
  shows "j < pin_end g events b i \<longleftrightarrow> ev_time (events ! nat j) < b"
  using event_idx_iff [OF dev_gate_wave(1) [OF assms(1,2)] assms(3,4)] by (simp add: pin_end_def)

lemma pin_end_bounds:
  assumes "dev_gate_ok la g events" "i < dg_n_pin g"
  shows "pin_end g events b i \<le> dg_pin_waveform_ends g ! i"
  using event_idx_bounds [OF dev_gate_wave(1) [OF assms]] by (simp add: pin_end_def)

lemma front_move:
  assumes ok: "dev_gate_ok la g events" "i < dg_n_pin g" "has_waveform g i"
    and nxt: "front_next g events b i T c" and "T < c" "c < b"
  shows "T \<le> t \<Longrightarrow> t < c \<Longrightarrow> dev_front g events i t = dev_front g events i T"
    and "dev_front g events i c = dev_front g events i T +
      (if dev_front g events i T < pin_end g events b i \<and> ev_time (events ! nat (dev_front g events i T)) = c then 1 else 0)"
proof -
  define f where "f = dev_front g events i T"
  define s where "s = dg_pin_waveform_starts g ! i"
  define e where "e = dg_pin_waveform_ends g ! i"
  note wave = dev_gate_wave(1) [OF ok(1,2), folded s_def e_def]
  have f: "s < f" "f \<le> e" using dev_front_bounds [OF ok] by (auto simp: f_def s_def e_def)
  have passed: "ev_time (events ! nat j) \<le> T" if "s < j" "j < f" for j
    using dev_front_passed [OF ok, of j T] that f by (auto simp: f_def s_def e_def)
  have after: "T < ev_time (events ! nat f)" if "f < e"
    using dev_front_passed [OF ok, of f T] that f by (auto simp: f_def s_def e_def)
  have later: "c \<le> ev_time (events ! nat f)" if "f < e"
  proof (cases "f < pin_end g events b i")
    case True
    then show ?thesis using nxt by (simp add: front_next_def f_def)
  next
    case False
    then have "b \<le> ev_time (events ! nat f)"
      using pin_end_iff [OF ok(1,2), of f b] that f by (auto simp: s_def e_def)
    then show ?thesis using \<open>c < b\<close> by simp
  qed
  show "dev_front g events i t = f" if "T \<le> t" "t < c" for t
  proof (rule dev_front_eqI [OF ok, folded s_def e_def])
    show "ev_time (events ! nat j) \<le> t" if "s < j" "j < f" for j
      using passed [OF that] \<open>T \<le> t\<close> by simp
    show "t < ev_time (events ! nat f)" if "f < e" using later [OF that] \<open>t < c\<close> by simp
  qed (use f in auto)
  show "dev_front g events i c = f + (if f < pin_end g events b i \<and> ev_time (events ! nat f) = c then 1 else 0)"
  proof (cases "f < pin_end g events b i \<and> ev_time (events ! nat f) = c")
    case True
    have "f < e" using True pin_end_bounds [OF ok(1,2), of b] by (simp add: e_def)
    have "dev_front g events i c = f + 1"
    proof (rule dev_front_eqI [OF ok, folded s_def e_def])
      show "ev_time (events ! nat j) \<le> c" if "s < j" "j < f + 1" for j
        using passed [of j] that True \<open>T < c\<close> by (cases "j = f") auto
      show "c < ev_time (events ! nat (f + 1))" if "f + 1 < e"
        using wave_ok_less [OF wave, of f "f + 1"] that f True by simp
    qed (use f \<open>f < e\<close> in auto)
    then show ?thesis using True by simp
  next
    case False
    have "dev_front g events i c = f"
    proof (rule dev_front_eqI [OF ok, folded s_def e_def])
      show "ev_time (events ! nat j) \<le> c" if "s < j" "j < f" for j
        using passed [OF that] \<open>T < c\<close> by simp
      show "c < ev_time (events ! nat f)" if "f < e"
      proof (cases "f < pin_end g events b i")
        case True
        then show ?thesis using False later [OF that] by simp
      next
        case False
        then show ?thesis using pin_end_iff [OF ok(1,2), of f b] that f \<open>c < b\<close> by (auto simp: s_def e_def)
      qed
    qed (use f in auto)
    with False show ?thesis by simp
  qed
qed
section \<open>Lemmas: the leakage of a thread\<close>

lemma dev_leakage_loop_sum:
  assumes "0 < p"
  shows "\<exists>adds. dev_leakage_loop lv prev cur p c acc = Some (acc @ adds) \<and>
    (prev \<le> of_int (c + 1) * p \<longrightarrow>
      sum_list (map snd adds) = (if of_int c * p \<le> cur then lv * (cur - max (of_int c * p) prev) / p else 0))"
proof (induction "nat (\<lfloor>cur / p\<rfloor> + 1 - c)" arbitrary: c acc rule: less_induct)
  case less
  show ?case
  proof (cases "of_int c * p \<le> cur")
    case False
    then show ?thesis by (subst dev_leakage_loop.simps) simp
  next
    case True
    then have "c \<le> \<lfloor>cur / p\<rfloor>" using assms by (simp add: le_floor_iff pos_le_divide_eq)
    then have m: "nat (\<lfloor>cur / p\<rfloor> + 1 - (c + 1)) < nat (\<lfloor>cur / p\<rfloor> + 1 - c)" by simp
    define left where "left = max (of_int c * p) prev"
    define right where "right = min (of_int (c + 1) * p) cur"
    define x where "x = (c, lv * (right - left) / p)"
    obtain adds where adds: "dev_leakage_loop lv prev cur p (c + 1) (acc @ [x]) = Some ((acc @ [x]) @ adds)"
      "prev \<le> of_int (c + 1 + 1) * p \<longrightarrow> sum_list (map snd adds) =
        (if of_int (c + 1) * p \<le> cur then lv * (cur - max (of_int (c + 1) * p) prev) / p else 0)"
      using less.hyps [OF m] by blast
    have loop: "dev_leakage_loop lv prev cur p c acc = Some (acc @ (x # adds))"
      using True adds(1) by (subst dev_leakage_loop.simps) (simp add: Let_def left_def right_def x_def)
    have "lv * (right - left) / p + sum_list (map snd adds) = lv * (cur - left) / p" if "prev \<le> of_int (c + 1) * p"
    proof -
      have "of_int (c + 1) * p \<le> of_int (c + 1 + 1) * p" using assms by (intro mult_right_mono) auto
      then have sum: "sum_list (map snd adds) = (if of_int (c + 1) * p \<le> cur then lv * (cur - of_int (c + 1) * p) / p else 0)"
        using adds(2) that by (simp add: max_absorb1)
      show ?thesis
      proof (cases "of_int (c + 1) * p \<le> cur")
        case True
        then have "sum_list (map snd adds) = lv * (cur - right) / p" using sum by (simp add: right_def)
        then show ?thesis by (simp add: right_diff_distrib diff_divide_distrib)
      next
        case False
        then show ?thesis using sum by (simp add: right_def)
      qed
    qed
    then show ?thesis using loop True by (intro exI [of _ "x # adds"]) (simp add: x_def left_def)
  qed
qed

lemma thread_leakage_returns:
  assumes "dev_gate_ok la g events"
  shows "\<exists>adds. thread_leakage la g c th = Inr (th\<lparr>th_leakage := th_leakage th
      + findLeakageVal_dev g (th_states th) * of_int (c - th_prev_time th) / of_int (la_max_time la),
    th_adds := th_adds th @ map (Pair W_leakage) adds\<rparr>)"
proof -
  have "0 < la_clk_period la" using assms by (simp add: dev_gate_ok_def)
  from dev_leakage_loop_sum [OF this, of "findLeakageVal_dev g (th_states th)"
      "of_int (th_prev_time th) * la_time_scale la" "of_int c * la_time_scale la" "la_cycle la (th_prev_time th)" "[]"]
  obtain adds where "calculatePerCycleLeakagePower_dev la (findLeakageVal_dev g (th_states th)) (th_prev_time th) c = Some adds"
    by (auto simp: calculatePerCycleLeakagePower_dev_def)
  then show ?thesis by (auto simp: thread_leakage_def Let_def)
qed

text \<open>
  The invariant of a thread that started at \<open>a\<close>: it has taken all events up to \<open>T\<close> and charged the leakage up to
  \<open>P\<close>. Before its first event \<open>T\<close> is \<open>a - 1\<close> and \<open>P\<close> is \<open>a\<close>; after that they are the same time.
\<close>

definition thread_inv :: "Launch \<Rightarrow> DevGate \<Rightarrow> Event list \<Rightarrow> int \<Rightarrow> int \<Rightarrow> int \<Rightarrow> ThreadState \<Rightarrow> bool" where
  "thread_inv la g events a T P th \<longleftrightarrow>
     a \<le> P \<and> (T = P \<or> T = P - 1) \<and> P \<le> la_max_time la \<and> th_prev_time th = P \<and>
     th_states th = dev_states_at g events T \<and> length (th_frontiers th) = dg_n_pin g \<and>
     (\<forall>i < dg_n_pin g. has_waveform g i \<longrightarrow> th_frontiers th ! i = dev_front g events i T) \<and>
     th_leakage th * of_int (la_max_time la) = (\<Sum>t = a..<P. dev_leakage_at g events t)"

lemma thread_initial_inv:
  assumes "dev_gate_ok la g events" "a \<le> la_max_time la"
  shows "thread_inv la g events a (a - 1) a (thread_initial g events a)"
proof -
  have "fst (pin_start g events a i) = dev_state_at g events i (a - 1)" for i
    by (auto simp: pin_start_def dev_state_at_def dev_front_def Let_def max_def intro!: arg_cong [where f = "\<lambda>j. ev_val (events ! nat j)"])
  moreover have "snd (pin_start g events a i) = dev_front g events i (a - 1)" if "has_waveform g i" for i
    using that by (auto simp: pin_start_def dev_front_def Let_def max_def)
  ultimately show ?thesis using assms(2) by (simp add: thread_inv_def thread_initial_def dev_states_at_def)
qed

text \<open>The next time of the loop.\<close>

lemma scan_time_spec:
  fixes g events ends fs m
  defines "c \<equiv> scan_time g events ends fs m"
  shows "c \<le> m" and "i < dg_n_pin g \<Longrightarrow> pin_pending g ends fs i \<Longrightarrow> c \<le> ev_time (events ! nat (fs ! i))"
    and "c \<noteq> m \<Longrightarrow> \<exists>i < dg_n_pin g. pin_pending g ends fs i \<and> ev_time (events ! nat (fs ! i)) = c"
proof -
  define step where "step = (\<lambda>i t. if pin_pending g ends fs i then min (ev_time (events ! nat (fs ! i))) t else t)"
  have "fold step is m \<le> m \<and> (\<forall>i \<in> set is. pin_pending g ends fs i \<longrightarrow> fold step is m \<le> ev_time (events ! nat (fs ! i))) \<and>
    (fold step is m \<noteq> m \<longrightarrow> (\<exists>i \<in> set is. pin_pending g ends fs i \<and> ev_time (events ! nat (fs ! i)) = fold step is m))" for "is"
  proof (induction "is" rule: rev_induct)
    case (snoc i "is")
    then show ?case by (auto simp: step_def min_def)
  qed simp
  from this [of "[0..<dg_n_pin g]"] have "c \<le> m \<and> (\<forall>i < dg_n_pin g. pin_pending g ends fs i \<longrightarrow> c \<le> ev_time (events ! nat (fs ! i))) \<and>
      (c \<noteq> m \<longrightarrow> (\<exists>i < dg_n_pin g. pin_pending g ends fs i \<and> ev_time (events ! nat (fs ! i)) = c))"
    by (simp add: c_def scan_time_def step_def Ball_def Bex_def)
  then show "c \<le> m" and "i < dg_n_pin g \<Longrightarrow> pin_pending g ends fs i \<Longrightarrow> c \<le> ev_time (events ! nat (fs ! i))"
    and "c \<noteq> m \<Longrightarrow> \<exists>i < dg_n_pin g. pin_pending g ends fs i \<and> ev_time (events ! nat (fs ! i)) = c"
    by blast+
qed
definition thread_ends :: "DevGate \<Rightarrow> Event list \<Rightarrow> int \<Rightarrow> int list" where
  "thread_ends g events b = map (pin_end g events b) [0..<dg_n_pin g]"

definition next_event_time :: "Launch \<Rightarrow> DevGate \<Rightarrow> Event list \<Rightarrow> int \<Rightarrow> ThreadState \<Rightarrow> int" where
  "next_event_time la g events b th = scan_time g events (thread_ends g events b) (th_frontiers th) (la_max_time la + 10)"

lemma thread_next:
  assumes ok: "dev_gate_ok la g events" and inv: "thread_inv la g events a T P th"
    and c: "c = next_event_time la g events b th" "c \<noteq> la_max_time la + 10"
  shows "T < c" "P \<le> c" "c < b" "c \<le> la_max_time la"
    and "i < dg_n_pin g \<Longrightarrow> has_waveform g i \<Longrightarrow> front_next g events b i T c"
    and "i < dg_n_pin g \<Longrightarrow> pin_pending g (thread_ends g events b) (th_frontiers th) i \<longleftrightarrow>
      has_waveform g i \<and> dev_front g events i T < pin_end g events b i"
proof -
  show pending: "pin_pending g (thread_ends g events b) (th_frontiers th) i \<longleftrightarrow>
      has_waveform g i \<and> dev_front g events i T < pin_end g events b i" if "i < dg_n_pin g" for i
    using inv that by (auto simp: pin_pending_def thread_ends_def thread_inv_def)
  obtain i where i: "i < dg_n_pin g" "pin_pending g (thread_ends g events b) (th_frontiers th) i"
      "ev_time (events ! nat (th_frontiers th ! i)) = c"
    using scan_time_spec(3) c unfolding next_event_time_def by metis
  then have w: "has_waveform g i" "dev_front g events i T < pin_end g events b i"
      "ev_time (events ! nat (dev_front g events i T)) = c"
    using pending inv by (auto simp: thread_inv_def)
  note bounds = dev_front_bounds [OF ok i(1) w(1), of T] and pe = pin_end_bounds [OF ok i(1), of b]
  show T: "T < c" using dev_front_passed [OF ok i(1) w(1), of "dev_front g events i T" T] bounds w pe by simp
  then show "P \<le> c" using inv by (auto simp: thread_inv_def)
  show "c < b" using pin_end_iff [OF ok i(1), of "dev_front g events i T" b] bounds w pe by simp
  show "c \<le> la_max_time la" using dev_gate_wave(3) [OF ok i(1) w(1), of "dev_front g events i T"] bounds w pe by simp
  show "front_next g events b i T c" if "i < dg_n_pin g" "has_waveform g i" for i
    using scan_time_spec(2) [OF that(1), of "thread_ends g events b" "th_frontiers th" events "la_max_time la + 10"]
      pending [OF that(1)] that inv c(1) by (simp add: front_next_def thread_inv_def next_event_time_def)
qed

definition thread_hit :: "DevGate \<Rightarrow> Event list \<Rightarrow> int \<Rightarrow> ThreadState \<Rightarrow> int \<Rightarrow> nat \<Rightarrow> bool" where
  "thread_hit g events b th c i \<longleftrightarrow>
     pin_pending g (thread_ends g events b) (th_frontiers th) i \<and> ev_time (events ! nat (th_frontiers th ! i)) = c"

text \<open>The states and frontiers after a time, however the triggered pins are taken.\<close>

definition hit_states :: "DevGate \<Rightarrow> Event list \<Rightarrow> int \<Rightarrow> ThreadState \<Rightarrow> int \<Rightarrow> VcdEventVal list" where
  "hit_states g events b th c =
     map (\<lambda>i. if thread_hit g events b th c i then ev_val (events ! nat (th_frontiers th ! i)) else th_states th ! i) [0..<dg_n_pin g]"

definition hit_frontiers :: "DevGate \<Rightarrow> Event list \<Rightarrow> int \<Rightarrow> ThreadState \<Rightarrow> int \<Rightarrow> int list" where
  "hit_frontiers g events b th c =
     map (\<lambda>i. if thread_hit g events b th c i then th_frontiers th ! i + 1 else th_frontiers th ! i) [0..<dg_n_pin g]"

lemma thread_advance:
  assumes ok: "dev_gate_ok la g events" and inv: "thread_inv la g events a T P th"
    and c: "c = next_event_time la g events b th" "c \<noteq> la_max_time la + 10"
  shows "hit_states g events b th c = dev_states_at g events c"
    and "i < dg_n_pin g \<Longrightarrow> has_waveform g i \<Longrightarrow> hit_frontiers g events b th c ! i = dev_front g events i c"
    and "T \<le> t \<Longrightarrow> t < c \<Longrightarrow> dev_states_at g events t = dev_states_at g events T"
proof -
  note next_facts = thread_next [OF ok inv c]
  have move: "dev_front g events i c = th_frontiers th ! i + (if thread_hit g events b th c i then 1 else 0)"
    if "i < dg_n_pin g" "has_waveform g i" for i
    using front_move(2) [OF ok that next_facts(5) [OF that] next_facts(1,3)] next_facts(6) [OF that(1)] that inv
    by (auto simp: thread_hit_def thread_inv_def)
  have "hit_states g events b th c ! i = dev_state_at g events i c" if i: "i < dg_n_pin g" for i
  proof (cases "has_waveform g i")
    case True
    then show ?thesis using move [OF i True] inv i
      by (auto simp: hit_states_def dev_state_at_def thread_inv_def dev_states_at_def)
  next
    case False
    then show ?thesis using inv i next_facts(6) [OF i]
      by (auto simp: hit_states_def thread_hit_def dev_state_at_def thread_inv_def dev_states_at_def)
  qed
  then show "hit_states g events b th c = dev_states_at g events c"
    by (intro nth_equalityI) (auto simp: hit_states_def dev_states_at_def)
  show "hit_frontiers g events b th c ! i = dev_front g events i c" if "i < dg_n_pin g" "has_waveform g i" for i
    using move [OF that] that by (simp add: hit_frontiers_def)
  show "dev_states_at g events t = dev_states_at g events T" if "T \<le> t" "t < c" for t
    using front_move(1) [OF ok _ _ next_facts(5) next_facts(1,3) that]
    by (auto simp: dev_states_at_def dev_state_at_def)
qed

lemma dev_leakage_extend:
  assumes "a \<le> P" "P \<le> c" "\<And>t. P \<le> t \<Longrightarrow> t < c \<Longrightarrow> dev_states_at g events t = st"
  shows "(\<Sum>t = a..<c. dev_leakage_at g events t) =
    (\<Sum>t = a..<P. dev_leakage_at g events t) + findLeakageVal_dev g st * of_int (c - P)"
proof -
  have "(\<Sum>t = P..<c. dev_leakage_at g events t) = (\<Sum>t = P..<c. findLeakageVal_dev g st)"
    using assms(3) by (intro sum.cong) (auto simp: dev_leakage_at_def)
  also have "\<dots> = findLeakageVal_dev g st * of_int (c - P)" using assms(2) by simp
  finally have "(\<Sum>t = P..<c. dev_leakage_at g events t) = findLeakageVal_dev g st * of_int (c - P)" .
  moreover have "{a..<c} = {a..<P} \<union> {P..<c}" using assms(1,2) by auto
  ultimately show ?thesis by (simp add: sum.union_disjoint)
qed

text \<open>A thread that charges the leakage up to the next time and takes its events keeps the invariant.\<close>

lemma thread_time_inv:
  assumes ok: "dev_gate_ok la g events" and inv: "thread_inv la g events a T P th"
    and c: "c = next_event_time la g events b th" "c \<noteq> la_max_time la + 10"
    and leak: "thread_leakage la g c th = Inr th1"
    and th': "th_states th' = hit_states g events b th c" "th_frontiers th' = hit_frontiers g events b th c"
      "th_prev_time th' = c" "th_leakage th' = th_leakage th1"
  shows "thread_inv la g events a c c th'"
proof -
  note next_facts = thread_next [OF ok inv c] and adv = thread_advance [OF ok inv c]
  have max_pos: "0 < la_max_time la" using ok by (simp add: dev_gate_ok_def)
  have T: "T \<le> P" "a \<le> P" using inv by (auto simp: thread_inv_def)
  have "th_leakage th1 = th_leakage th + findLeakageVal_dev g (dev_states_at g events T) * of_int (c - P) / of_int (la_max_time la)"
    using thread_leakage_returns [OF ok, of c th] leak inv by (auto simp: thread_inv_def)
  then have "th_leakage th' * of_int (la_max_time la) =
      th_leakage th * of_int (la_max_time la) + findLeakageVal_dev g (dev_states_at g events T) * of_int (c - P)"
    using max_pos th' by (simp add: distrib_right)
  also have "\<dots> = (\<Sum>t = a..<c. dev_leakage_at g events t)"
  proof -
    have "dev_states_at g events t = dev_states_at g events T" if "P \<le> t" "t < c" for t
      using that T by (intro adv(3)) auto
    from dev_leakage_extend [OF T(2) next_facts(2) this] inv show ?thesis by (simp add: thread_inv_def)
  qed
  finally show ?thesis
    using th' adv(1,2) next_facts T by (simp add: thread_inv_def hit_frontiers_def)
qed

text \<open>The events still to take bound the iterations.\<close>

definition thread_pending :: "DevGate \<Rightarrow> Event list \<Rightarrow> int \<Rightarrow> int list \<Rightarrow> nat" where
  "thread_pending g events b fs =
     (\<Sum>i = 0..<dg_n_pin g. if has_waveform g i then nat (pin_end g events b i - fs ! i) else 0)"

lemma thread_pending_decreases:
  assumes c: "c = next_event_time la g events b th" "c \<noteq> la_max_time la + 10"
  shows "thread_pending g events b (hit_frontiers g events b th c) < thread_pending g events b (th_frontiers th)"
proof -
  obtain i where i: "i < dg_n_pin g" "thread_hit g events b th c i"
    using scan_time_spec(3) c unfolding next_event_time_def thread_hit_def by metis
  show ?thesis
    unfolding thread_pending_def
  proof (rule sum_strict_mono_ex1)
    show "\<exists>i \<in> {0..<dg_n_pin g}. (if has_waveform g i then nat (pin_end g events b i - hit_frontiers g events b th c ! i) else 0)
        < (if has_waveform g i then nat (pin_end g events b i - th_frontiers th ! i) else 0)"
      using i by (intro bexI [of _ i]) (auto simp: hit_frontiers_def thread_hit_def pin_pending_def thread_ends_def)
  qed (auto simp: hit_frontiers_def)
qed

lemma thread_pending_initial:
  assumes ok: "dev_gate_ok la g events"
  shows "thread_pending g events b (th_frontiers (thread_initial g events a)) < thread_fuel g"
proof -
  have wave: "wave_ok events (dg_pin_waveform_starts g ! i) (dg_pin_waveform_ends g ! i)" if "i < dg_n_pin g" for i
    using dev_gate_wave(1) [OF ok that] .
  have size: "0 \<le> waveform_size g i" if "i < dg_n_pin g" for i
    using wave [OF that] by (auto simp: wave_ok_def waveform_size_def)
  have "thread_pending g events b (th_frontiers (thread_initial g events a)) \<le> (\<Sum>i = 0..<dg_n_pin g. nat (waveform_size g i))"
    unfolding thread_pending_def
  proof (rule sum_mono)
    fix i assume "i \<in> {0..<dg_n_pin g}"
    then have i: "i < dg_n_pin g" by simp
    have "has_waveform g i \<Longrightarrow> dg_pin_waveform_starts g ! i \<le> th_frontiers (thread_initial g events a) ! i"
      using i event_idx_bounds(1) [OF wave [OF i]] by (auto simp: thread_initial_def pin_start_def Let_def)
    then show "(if has_waveform g i then nat (pin_end g events b i - th_frontiers (thread_initial g events a) ! i) else 0)
        \<le> nat (waveform_size g i)"
      using pin_end_bounds [OF ok i, of b] by (auto simp: waveform_size_def)
  qed
  also have "\<dots> = nat (n_gate_events g)"
  proof -
    have "int (\<Sum>i = 0..<dg_n_pin g. nat (waveform_size g i)) = (\<Sum>i = 0..<dg_n_pin g. waveform_size g i)"
      using size by simp
    then have "(\<Sum>i = 0..<dg_n_pin g. nat (waveform_size g i)) = nat (\<Sum>i = 0..<dg_n_pin g. waveform_size g i)"
      by (metis nat_int)
    then show ?thesis by (simp add: n_gate_events_def interv_sum_list_conv_sum_set_nat)
  qed
  finally show ?thesis by (simp add: thread_fuel_def)
qed

end
