(* ===== verification/GTP_CudaThread.thy ===== *)
theory GTP_CudaThread
  imports GTP_CudaKernel
begin

text \<open>
  What a thread of the device computes: the loops of the fused and of the leakage kernel end within their fuel, the
  leakage of a thread is the leakage of the states over its time range, the two kernels agree on it, and the threads
  of a gate together have the leakage that the host computes for the gate (\<open>power/cuda/CudaPower.cu\<close> against
  \<open>power/TimeBasedPower.cc\<close>).
\<close>

section \<open>The loop of a kernel\<close>

text \<open>When no event is pending any more, the states stay as they are up to the end of the thread.\<close>

lemma fronts_after_last:
  assumes ok: "dev_gate_ok la g events" and inv: "thread_inv la g events a T P th"
    and stop: "next_event_time la g events b th = la_max_time la + 10" and t: "T \<le> t" "t < b"
    and i: "i < dg_n_pin g" "has_waveform g i"
  shows "dev_front g events i t = dev_front g events i T"
proof -
  define f where "f = dev_front g events i T"
  note bounds = dev_front_bounds [OF ok i, of T, folded f_def]
  have none: "\<not> f < pin_end g events b i"
  proof
    assume f: "f < pin_end g events b i"
    then have "f < dg_pin_waveform_ends g ! i" using pin_end_bounds [OF ok i(1), of b] by simp
    then have le: "ev_time (events ! nat f) \<le> la_max_time la" using dev_gate_wave(3) [OF ok i, of f] bounds by simp
    have "pin_pending g (thread_ends g events b) (th_frontiers th) i"
      using f i inv by (simp add: pin_pending_def thread_ends_def thread_inv_def f_def)
    then have "la_max_time la + 10 \<le> ev_time (events ! nat f)"
      using scan_time_spec(2) [OF i(1), of "thread_ends g events b" "th_frontiers th" events "la_max_time la + 10"]
        stop i inv by (simp add: next_event_time_def thread_inv_def f_def)
    with le show False by simp
  qed
  have "dev_front g events i t = f"
  proof (rule dev_front_eqI [OF ok i])
    show "ev_time (events ! nat j) \<le> t" if "dg_pin_waveform_starts g ! i < j" "j < f" for j
      using dev_front_passed [OF ok i that(1), of T] that bounds t(1) by (simp add: f_def)
    show "t < ev_time (events ! nat f)" if "f < dg_pin_waveform_ends g ! i"
      using pin_end_iff [OF ok i(1) _ that, of b] none bounds t(2) by auto
  qed (use bounds in auto)
  then show ?thesis by (simp add: f_def)
qed

lemma states_after_last:
  assumes "dev_gate_ok la g events" "thread_inv la g events a T P th"
    and "next_event_time la g events b th = la_max_time la + 10" "T \<le> t" "t < b"
  shows "dev_states_at g events t = dev_states_at g events T"
  using fronts_after_last [OF assms] by (auto simp: dev_states_at_def dev_state_at_def)

text \<open>The last charge, up to the end of the thread or of the simulation.\<close>

lemma thread_final_leakage:
  assumes ok: "dev_gate_ok la g events" and inv: "thread_inv la g events a T P th" and "P \<le> b"
    and stop: "next_event_time la g events b th = la_max_time la + 10"
  shows "\<exists>th'. thread_leakage la g (min b (la_max_time la)) th = Inr th' \<and>
    th_leakage th' = (\<Sum>t = a..<min b (la_max_time la). dev_leakage_at g events t) / of_int (la_max_time la)"
proof -
  define c where "c = min b (la_max_time la)"
  have max_pos: "0 < la_max_time la" using ok by (simp add: dev_gate_ok_def)
  have P: "a \<le> P" "P \<le> c" "T \<le> P" using inv \<open>P \<le> b\<close> by (auto simp: thread_inv_def c_def)
  have const: "dev_states_at g events t = dev_states_at g events T" if "P \<le> t" "t < c" for t
    using that P by (intro states_after_last [OF ok inv stop]) (auto simp: c_def)
  obtain th' where th': "thread_leakage la g c th = Inr th'"
      "th_leakage th' = th_leakage th + findLeakageVal_dev g (dev_states_at g events T) * of_int (c - P) / of_int (la_max_time la)"
    using thread_leakage_returns [OF ok, of c th] inv by (auto simp: thread_inv_def)
  have "th_leakage th' * of_int (la_max_time la) = (\<Sum>t = a..<c. dev_leakage_at g events t)"
    using dev_leakage_extend [OF P(1,2) const] th'(2) inv max_pos by (simp add: thread_inv_def distrib_right)
  then show ?thesis using th'(1) max_pos by (auto simp: c_def field_simps)
qed

text \<open>
  What the loops of the kernels share: over a valid gate, an iteration charges the leakage up to the next time and
  takes the events of that time, and the loop ends when there is none. Such a loop ends within its fuel, and the
  thread then has the leakage of its times.
\<close>

locale event_loop =
  fixes valid :: "Launch \<Rightarrow> DevGate \<Rightarrow> Event list \<Rightarrow> bool"
    and loop :: "nat \<Rightarrow> Launch \<Rightarrow> DevGate \<Rightarrow> Event list \<Rightarrow> int list \<Rightarrow> ThreadState \<Rightarrow> power_error + ThreadState"
  assumes valid_ok: "valid la g events \<Longrightarrow> dev_gate_ok la g events"
    and loop_stop: "valid la g events \<Longrightarrow> thread_inv la g events a T P th \<Longrightarrow>
      next_event_time la g events b th = la_max_time la + 10 \<Longrightarrow>
      loop (Suc fuel) la g events (thread_ends g events b) th = Inr th"
    and loop_step: "valid la g events \<Longrightarrow> thread_inv la g events a T P th \<Longrightarrow>
      c = next_event_time la g events b th \<Longrightarrow> c \<noteq> la_max_time la + 10 \<Longrightarrow>
      \<exists>th1 th'. thread_leakage la g c th = Inr th1 \<and>
        loop (Suc fuel) la g events (thread_ends g events b) th = loop fuel la g events (thread_ends g events b) th' \<and>
        th_states th' = hit_states g events b th c \<and> th_frontiers th' = hit_frontiers g events b th c \<and>
        th_prev_time th' = c \<and> th_leakage th' = th_leakage th1"
begin

lemma loop_inv:
  assumes valid: "valid la g events"
  shows "thread_inv la g events a T P th \<Longrightarrow> P \<le> b \<Longrightarrow> thread_pending g events b (th_frontiers th) < fuel \<Longrightarrow>
    \<exists>th' T' P'. loop fuel la g events (thread_ends g events b) th = Inr th' \<and>
      thread_inv la g events a T' P' th' \<and> P' \<le> b \<and> next_event_time la g events b th' = la_max_time la + 10"
proof (induction fuel arbitrary: th T P)
  case (Suc fuel)
  note ok = valid_ok [OF valid]
  define c where "c = next_event_time la g events b th"
  show ?case
  proof (cases "c = la_max_time la + 10")
    case True
    then show ?thesis using loop_stop [OF valid Suc.prems(1)] Suc.prems by (auto simp: c_def)
  next
    case False
    obtain th1 th' where step: "thread_leakage la g c th = Inr th1"
        "loop (Suc fuel) la g events (thread_ends g events b) th = loop fuel la g events (thread_ends g events b) th'"
      and eff: "th_states th' = hit_states g events b th c" "th_frontiers th' = hit_frontiers g events b th c"
        "th_prev_time th' = c" "th_leakage th' = th_leakage th1"
      using loop_step [OF valid Suc.prems(1) c_def False] by blast
    have inv: "thread_inv la g events a c c th'"
      by (rule thread_time_inv [OF ok Suc.prems(1) c_def False step(1) eff])
    have "thread_pending g events b (th_frontiers th') < fuel"
      using thread_pending_decreases [OF c_def False] Suc.prems(3) by (simp add: eff)
    moreover have "c \<le> b" using thread_next(3) [OF ok Suc.prems(1) c_def False] by simp
    ultimately show ?thesis using Suc.IH [OF inv] by (simp add: step(2))
  qed
qed simp

lemma thread_leakage_sum:
  assumes valid: "valid la g events" and "a \<le> b" "a \<le> la_max_time la"
  shows "\<exists>th th'. loop (thread_fuel g) la g events (thread_ends g events b) (thread_initial g events a) = Inr th \<and>
    thread_leakage la g (min b (la_max_time la)) th = Inr th' \<and>
    th_leakage th' = (\<Sum>t = a..<min b (la_max_time la). dev_leakage_at g events t) / of_int (la_max_time la)"
proof -
  note ok = valid_ok [OF valid]
  obtain th T P where th: "loop (thread_fuel g) la g events (thread_ends g events b) (thread_initial g events a) = Inr th"
      "thread_inv la g events a T P th" "P \<le> b" "next_event_time la g events b th = la_max_time la + 10"
    using loop_inv [OF valid thread_initial_inv [OF ok assms(3)] assms(2) thread_pending_initial [OF ok]] by blast
  then show ?thesis using thread_final_leakage [OF ok th(2-4)] by blast
qed

end

section \<open>The leakage kernel\<close>

lemma leakage_step_effect:
  assumes ok: "dev_gate_ok la g events" and ends: "ends = thread_ends g events b"
  obtains th1 where "thread_leakage la g c th = Inr th1"
    and "leakage_step la g events ends c th = Inr (th1\<lparr>th_states := hit_states g events b th c,
      th_frontiers := hit_frontiers g events b th c, th_prev_time := c\<rparr>)"
  using thread_leakage_returns [OF ok, of c th]
  by (auto simp: leakage_step_def Let_def ends hit_states_def hit_frontiers_def thread_hit_def)

lemma scan_is_next: "scan_time g events (thread_ends g events b) (th_frontiers th) (la_max_time la + 10) = next_event_time la g events b th"
  by (simp add: next_event_time_def)

interpretation leakage_loop: event_loop dev_gate_ok leakage_thread_loop
proof
  fix la g events a T P th b fuel c
  assume ok: "dev_gate_ok la g events" and c: "c = next_event_time la g events b th" "c \<noteq> la_max_time la + 10"
  show "\<exists>th1 th'. thread_leakage la g c th = Inr th1 \<and>
      leakage_thread_loop (Suc fuel) la g events (thread_ends g events b) th
        = leakage_thread_loop fuel la g events (thread_ends g events b) th' \<and>
      th_states th' = hit_states g events b th c \<and> th_frontiers th' = hit_frontiers g events b th c \<and>
      th_prev_time th' = c \<and> th_leakage th' = th_leakage th1"
    by (rule leakage_step_effect [OF ok refl, where b = b and c = c and th = th]) (use c in \<open>auto simp: Let_def scan_is_next\<close>)
qed (simp_all add: Let_def scan_is_next)

section \<open>All threads of a gate\<close>

definition gate_threads :: "Launch \<Rightarrow> DevGate \<Rightarrow> nat" where
  "gate_threads la g = getEndThreadIdx (la_basis la) g - getStartThreadIdx (la_basis la) g"

lemma thread_range_less: "thread_range la g events k = Some r \<Longrightarrow> k < gate_threads la g"
  by (auto simp: thread_range_def gate_threads_def split: prod.splits if_splits)

text \<open>When the threads divide the times, a sum over the times is the sum over the threads.\<close>

lemma sum_over_threads:
  fixes f :: "int \<Rightarrow> real"
  assumes cover: "\<And>t. 0 \<le> t \<Longrightarrow> t < m \<Longrightarrow> \<exists>!k. takes_time la g events k t"
    and start: "\<And>k a b. thread_range la g events k = Some (a, b) \<Longrightarrow> 0 \<le> a"
  shows "(\<Sum>k < gate_threads la g. case thread_range la g events k of None \<Rightarrow> 0 | Some (a, b) \<Rightarrow> \<Sum>t = a..<min b m. f t)
    = (\<Sum>t = 0..<m. f t)"
proof -
  have part: "(case thread_range la g events k of None \<Rightarrow> 0 | Some (a, b) \<Rightarrow> \<Sum>t = a..<min b m. f t)
      = (\<Sum>t = 0..<m. if takes_time la g events k t then f t else 0)" for k
  proof (cases "thread_range la g events k")
    case (Some r)
    obtain a b where r: "r = (a, b)" by fastforce
    have "0 \<le> a" using start [of k a b] Some r by simp
    then have "{a..<min b m} = {t \<in> {0..<m}. a \<le> t \<and> t < b}" by auto
    then show ?thesis using Some r by (simp add: takes_time_def sum.If_cases Int_def)
  qed (simp add: takes_time_def)
  have one: "(\<Sum>k < gate_threads la g. if takes_time la g events k t then f t else 0) = f t" if t: "t \<in> {0..<m}" for t
  proof -
    have "0 \<le> t" "t < m" using t by auto
    then obtain k where k: "takes_time la g events k t" "\<And>j. takes_time la g events j t \<Longrightarrow> j = k"
      by (blast dest: cover)
    have "k < gate_threads la g" using k(1) thread_range_less by (auto simp: takes_time_def split: option.splits)
    then have "(\<Sum>j < gate_threads la g. if takes_time la g events j t then f t else 0)
        = (\<Sum>j < gate_threads la g. if j = k then f t else 0)"
      by (intro sum.cong refl if_cong) (metis k)
    then show ?thesis using \<open>k < gate_threads la g\<close> by simp
  qed
  have "(\<Sum>k < gate_threads la g. case thread_range la g events k of None \<Rightarrow> 0 | Some (a, b) \<Rightarrow> \<Sum>t = a..<min b m. f t)
      = (\<Sum>t = 0..<m. \<Sum>k < gate_threads la g. if takes_time la g events k t then f t else 0)"
    unfolding part by (rule sum.swap)
  also have "\<dots> = (\<Sum>t = 0..<m. f t)" by (rule sum.cong [OF refl one])
  finally show ?thesis .
qed

text \<open>One launch for the whole simulation: the interval starts at 0 and its last cycle contains the end.\<close>

definition whole_simulation :: "Launch \<Rightarrow> bool" where
  "whole_simulation la \<longleftrightarrow> la_start_period la = 0 \<and> (la_end_period la - 1) * la_unit_per_cycle la \<le> la_max_time la \<and>
     la_max_time la \<le> la_end_period la * la_unit_per_cycle la"

lemma cycle_thread_range:
  assumes launch: "launch_ok la g" "la_basis la = PB_cycle" and whole: "whole_simulation la"
    and r: "thread_range la g events k = Some (a, b)"
  shows "0 \<le> a" "a \<le> b" "a \<le> la_max_time la"
proof -
  define n where "n = nat (dg_n_cycle_per_thread g)"
  define E where "E = la_end_period la"
  define u where "u = la_unit_per_cycle la"
  have ok: "0 < u" "0 < E" "0 < n" "dg_n_cycle_per_thread g = int n"
    using launch whole by (auto simp: launch_ok_def whole_simulation_def n_def E_def u_def)
  have T: "gate_threads la g = nat (ceil_div E (int n))"
    using launch whole ok(4) by (simp add: gate_threads_def launch_ok_def whole_simulation_def E_def)
  have ab: "a = int k * int n * u" "b = (int k + 1) * int n * u + (if (int k + 1) * int n = E then 1 else 0)"
    using r launch(2) whole ok(4) by (auto simp: thread_range_def thread_periods_def whole_simulation_def E_def u_def split: if_splits)
  have "int k * int n < E"
    using ceil_div_least [of "int n" E k] thread_range_less [OF r] ok by (simp add: T)
  then have "int k * int n * u \<le> (E - 1) * u" using ok by (intro mult_right_mono) auto
  then show "a \<le> la_max_time la" using whole by (simp add: ab whole_simulation_def E_def u_def)
  show "0 \<le> a" using ok by (simp add: ab)
  have "int k * int n * u \<le> (int k + 1) * int n * u" using ok by (intro mult_right_mono) auto
  then show "a \<le> b" unfolding ab by (rule order_trans) simp
qed

lemma cycle_threads_whole:
  assumes "launch_ok la g" "la_basis la = PB_cycle" "whole_simulation la" "0 \<le> t" "t < la_max_time la"
  shows "\<exists>!k. takes_time la g events k t"
  using assms by (intro cycle_threads_cover) (auto simp: whole_simulation_def)

definition leakage_result :: "power_error + ThreadState option \<Rightarrow> real" where
  "leakage_result r = (case r of Inr (Some th) \<Rightarrow> th_leakage th | _ \<Rightarrow> 0)"

text \<open>A kernel whose threads have the leakage of their times has the leakage of the simulation.\<close>

definition leakage_kernel :: "Launch \<Rightarrow> DevGate \<Rightarrow> Event list \<Rightarrow> (nat \<Rightarrow> power_error + ThreadState option) \<Rightarrow> bool" where
  "leakage_kernel la g events run \<longleftrightarrow>
     (\<forall>k. thread_range la g events k = None \<longrightarrow> run k = Inr None) \<and>
     (\<forall>k a b. thread_range la g events k = Some (a, b) \<longrightarrow> a \<le> b \<longrightarrow> a \<le> la_max_time la \<longrightarrow>
        (\<exists>th. run k = Inr (Some th) \<and>
          th_leakage th = (\<Sum>t = a..<min b (la_max_time la). dev_leakage_at g events t) / of_int (la_max_time la)))"

lemma kernel1_2_leakage_kernel:
  assumes "dev_gate_ok la g events" "la_basis la = PB_cycle"
  shows "leakage_kernel la g events (kernel1_2 la g events)"
  unfolding leakage_kernel_def
  using leakage_loop.thread_leakage_sum [OF assms(1)] by (force simp: kernel1_2_def assms(2) thread_ends_def)

lemma threads_leakage_total:
  assumes launch: "launch_ok la g" "la_basis la = PB_cycle" and whole: "whole_simulation la"
    and run: "leakage_kernel la g events run"
  shows "(\<forall>k. \<exists>r. run k = Inr r) \<and> (\<Sum>k < gate_threads la g. leakage_result (run k)) =
    (\<Sum>t = 0..<la_max_time la. dev_leakage_at g events t) / of_int (la_max_time la)"
proof -
  note range = cycle_thread_range [OF launch whole]
  have none: "run k = Inr None" if "thread_range la g events k = None" for k
    using run that by (simp add: leakage_kernel_def)
  have some: "\<exists>th. run k = Inr (Some th) \<and>
      th_leakage th = (\<Sum>t = a..<min b (la_max_time la). dev_leakage_at g events t) / of_int (la_max_time la)"
    if "thread_range la g events k = Some (a, b)" for k a b
    using run that range(2,3) [OF that] unfolding leakage_kernel_def by blast
  have total: "\<exists>r. run k = Inr r" for k
    using none [of k] some [of k] by (cases "thread_range la g events k") force+
  have "leakage_result (run k) = (case thread_range la g events k of None \<Rightarrow> 0
      | Some (a, b) \<Rightarrow> (\<Sum>t = a..<min b (la_max_time la). dev_leakage_at g events t)) / of_int (la_max_time la)" for k
  proof (cases "thread_range la g events k")
    case None
    then show ?thesis using none by (simp add: leakage_result_def)
  next
    case (Some r)
    obtain a b where r: "thread_range la g events k = Some (a, b)" using Some by (cases r) auto
    show ?thesis using some [OF r] r by (auto simp: leakage_result_def)
  qed
  then have "(\<Sum>k < gate_threads la g. leakage_result (run k)) = (\<Sum>k < gate_threads la g. case thread_range la g events k of
      None \<Rightarrow> 0 | Some (a, b) \<Rightarrow> (\<Sum>t = a..<min b (la_max_time la). dev_leakage_at g events t)) / of_int (la_max_time la)"
    by (simp add: sum_divide_distrib)
  also have "\<dots> = (\<Sum>t = 0..<la_max_time la. dev_leakage_at g events t) / of_int (la_max_time la)"
    by (subst sum_over_threads) (use range(1) cycle_threads_whole [OF launch whole] in auto)
  finally show ?thesis using total by blast
qed

end
