(* ===== verification/GTP_CudaFused.thy ===== *)
theory GTP_CudaFused
  imports GTP_CudaThread "HOL-Library.Multiset"
begin

text \<open>
  The fused kernel of \<open>power/cuda/CudaPower.cu\<close>: on a gate whose waveforms hold the values 0, 1 and X and whose tables
  are complete, every lookup returns, so a thread takes the triggered pins of every time in some order without an
  error, and its leakage is that of the leakage kernel.
\<close>

section \<open>Tables that return\<close>

definition lut1_ok :: "LUT1D \<Rightarrow> bool" where
  "lut1_ok t \<longleftrightarrow> l1_is_scalar t \<or> (l1_axis t \<noteq> [] \<and> validateStrictlyIncreasing (l1_axis t))"

definition lut2_ok :: "LUT2D \<Rightarrow> bool" where
  "lut2_ok t \<longleftrightarrow> l2_is_scalar t \<or> (l2_axis1 t \<noteq> [] \<and> validateStrictlyIncreasing (l2_axis1 t) \<and>
     l2_axis2 t \<noteq> [] \<and> validateStrictlyIncreasing (l2_axis2 t))"

definition pair_ok :: "('l \<Rightarrow> bool) \<Rightarrow> 'l LUTPair \<Rightarrow> bool" where
  "pair_ok ok p \<longleftrightarrow> (case (tp_rise p, tp_fall p) of (Some r, Some f) \<Rightarrow> ok r \<and> ok f | _ \<Rightarrow> False)"

definition luts_ok :: "('l \<Rightarrow> bool) \<Rightarrow> nat \<Rightarrow> 'l LUTPair option list option \<times> 'l LUTPair list \<Rightarrow> bool" where
  "luts_ok ok n luts \<longleftrightarrow> list_all (pair_ok ok) (snd luts) \<and>
     (case fst luts of None \<Rightarrow> True
      | Some tbl \<Rightarrow> length tbl = 2 ^ n \<and> list_all (\<lambda>p. case p of None \<Rightarrow> True | Some p \<Rightarrow> pair_ok ok p) tbl)"

definition dev_luts_ok :: "DevGate \<Rightarrow> bool" where
  "dev_luts_ok g \<longleftrightarrow> dg_n_input_pin g \<le> dg_n_pin g \<and>
     list_all (\<lambda>i. luts_ok lut1_ok (dg_n_pin g) (dg_input_luts g ! i)) [0..<dg_n_input_pin g] \<and>
     list_all (\<lambda>k. case dg_output_luts g ! k of None \<Rightarrow> True
       | Some luts \<Rightarrow> list_all (\<lambda>i. luts_ok lut2_ok (dg_n_pin g) (luts ! i)) [0..<dg_n_input_pin g])
       [0..<dg_n_pin g - dg_n_input_pin g]"

lemma find_segment_step:
  assumes "validateStrictlyIncreasing axis" "2 \<le> length axis"
  shows "\<exists>lo. findSegment axis v = Inr (lo, lo + 1) \<and> axis ! lo < axis ! (lo + 1)"
  using find_segment_bounds [OF assms(2), of v] axis_step assms(1) by (auto simp: validate_iff)

lemma axis_cases: "axis \<noteq> [] \<Longrightarrow> length axis = 1 \<or> 2 \<le> length axis"
  by (cases axis; cases "tl axis") auto

lemma lookup1_returns: "lut1_ok t \<Longrightarrow> \<exists>v. lookUpValue1 t x = Inr v"
  using axis_cases [of "l1_axis t"] find_segment_step [of "l1_axis t" x]
  by (auto simp: lut1_ok_def lookUpValue1_def Let_def)

lemma lookup2_returns:
  assumes "lut2_ok t"
  shows "\<exists>v. lookUpValue2 t x y = Inr v"
proof (cases "l2_is_scalar t")
  case False
  then have ok: "l2_axis1 t \<noteq> []" "validateStrictlyIncreasing (l2_axis1 t)" "l2_axis2 t \<noteq> []" "validateStrictlyIncreasing (l2_axis2 t)"
    using assms by (auto simp: lut2_ok_def)
  note seg1 = find_segment_step [OF ok(2), of x] and seg2 = find_segment_step [OF ok(4), of y]
  consider "length (l2_axis1 t) = 1" "length (l2_axis2 t) = 1" | "length (l2_axis1 t) = 1" "2 \<le> length (l2_axis2 t)"
    | "2 \<le> length (l2_axis1 t)" "length (l2_axis2 t) = 1" | "2 \<le> length (l2_axis1 t)" "2 \<le> length (l2_axis2 t)"
    using axis_cases ok(1,3) by blast
  then show ?thesis
  proof cases
    case 2
    then show ?thesis using seg2 by (auto simp: lookUpValue2_def interpolate_def Let_def)
  next
    case 3
    then show ?thesis using seg1 by (auto simp: lookUpValue2_def interpolate_def Let_def)
  next
    case 4
    then show ?thesis using seg1 seg2 by (auto simp: lookUpValue2_def Let_def)
  qed (use ok in \<open>simp add: lookUpValue2_def Let_def\<close>)
qed (simp add: lookUpValue2_def)

lemma pair_returns:
  assumes "pair_ok ok p"
  shows "\<exists>t. pair_table p rf = Inr t \<and> ok t"
  using assms by (cases rf) (auto simp: pair_ok_def pair_table_def split: option.splits)

lemma lookUp1_returns: "pair_ok lut1_ok p \<Longrightarrow> \<exists>v. lookUp1 p slew rf = Inr v"
  using pair_returns [of lut1_ok p rf] lookup1_returns by (fastforce simp: lookUp1_def)

lemma lookUp2_returns: "pair_ok lut2_ok p \<Longrightarrow> \<exists>v. lookUp2 p slew cap rf = Inr v"
  using pair_returns [of lut2_ok p rf] lookup2_returns by (fastforce simp: lookUp2_def)

lemma select_lut_ok:
  assumes "luts_ok ok n luts" "select_lut (fst luts) (snd luts) st n = Some p"
  shows "pair_ok ok p"
proof -
  have ordered: "pair_ok ok q" if "find (\<lambda>p. matchPinStates p st n) (snd luts) = Some q" for q
    using assms(1) that by (auto simp: luts_ok_def list_all_iff find_Some_iff)
  show ?thesis
  proof (cases "fst luts")
    case None
    then show ?thesis using assms(2) ordered by (simp add: select_lut_def)
  next
    case (Some tbl)
    have "getPinStatesIndex (take n st) < 2 ^ length (take n st)" by (rule getPinStatesIndex_less)
    also have "(2 :: nat) ^ length (take n st) \<le> 2 ^ n" by (intro power_increasing) auto
    finally have "getPinStatesIndex (take n st) < length tbl" using assms(1) Some by (simp add: luts_ok_def)
    then have "tbl ! getPinStatesIndex (take n st) \<in> set tbl" by (rule nth_mem)
    then have "pair_ok ok q" if "tbl ! getPinStatesIndex (take n st) = Some q" for q
      using assms(1) Some that by (auto simp: luts_ok_def list_all_iff)
    then show ?thesis using assms(2) Some ordered by (auto simp: select_lut_def split: option.splits)
  qed
qed
section \<open>Energies that return\<close>

text \<open>The values of the waveforms of the gate, which are the indices of the transition tables.\<close>

definition dev_values_ok :: "DevGate \<Rightarrow> Event list \<Rightarrow> bool" where
  "dev_values_ok g events \<longleftrightarrow> list_all (\<lambda>i. has_waveform g i \<longrightarrow>
     list_all (\<lambda>j. ev_val (events ! nat j) \<in> {0, 1, 2}) [dg_pin_waveform_starts g ! i..dg_pin_waveform_ends g ! i - 1])
     [0..<dg_n_pin g]"

lemma dev_value:
  assumes "dev_values_ok g events" "i < dg_n_pin g" "has_waveform g i"
    and "dg_pin_waveform_starts g ! i \<le> j" "j < dg_pin_waveform_ends g ! i"
  shows "ev_val (events ! nat j) \<in> {0, 1, 2}"
  using assms by (auto simp: dev_values_ok_def list_all_iff)

lemma edge_returns: "p \<in> {0, 1, 2} \<Longrightarrow> c \<in> {0, 1, 2} \<Longrightarrow> of_table (getRiseFallEdge_dev p c) = Inr (getRiseFallEdge p c)"
  and toggle_returns: "p \<in> {0, 1, 2} \<Longrightarrow> c \<in> {0, 1, 2} \<Longrightarrow> of_table (getNToggle_dev p c) = Inr (getNToggle p c)"
  and rise_returns: "p \<in> {0, 1, 2} \<Longrightarrow> c \<in> {0, 1, 2} \<Longrightarrow> of_table (getNRise_dev p c) = Inr (getNRise p c)"
  by (simp_all add: device_tables of_table_def)

lemma input_energy_returns:
  assumes "dev_luts_ok g" "i < dg_n_input_pin g"
  shows "\<exists>v. getInputPinInternalEnergyVal g st i rf = Inr v"
proof -
  have ok: "luts_ok lut1_ok (dg_n_pin g) (dg_input_luts g ! i)" using assms by (simp add: dev_luts_ok_def list_all_iff)
  show ?thesis
    using select_lut_ok [OF ok, of st] lookUp1_returns
    by (auto simp: getInputPinInternalEnergyVal_def Let_def split: prod.splits option.splits)
qed

lemma output_luts_ok:
  assumes "dev_luts_ok g" "dg_n_input_pin g \<le> pin" "pin < dg_n_pin g" "related < dg_n_input_pin g"
    and "dg_output_luts g ! (pin - dg_n_input_pin g) = Some luts"
  shows "luts_ok lut2_ok (dg_n_pin g) (luts ! related)"
proof -
  have "pin - dg_n_input_pin g < dg_n_pin g - dg_n_input_pin g" using assms(2,3) by simp
  then show ?thesis using assms(1,4,5) by (force simp: dev_luts_ok_def list_all_iff split: option.splits)
qed

lemma default_energy_returns:
  assumes "dev_luts_ok g" "dg_n_input_pin g \<le> pin" "pin < dg_n_pin g"
  shows "\<exists>v. getDefaultOutputPinInternalEnergyVal_dev g pin rf = Inr v"
proof -
  have table: "pair_ok lut2_ok p" if "dg_output_luts g ! (pin - dg_n_input_pin g) = Some luts" "related < dg_n_input_pin g"
      "p \<in> set (snd (luts ! related))" for luts related p
    using output_luts_ok [OF assms that(2,1)] that(3) by (simp add: luts_ok_def list_all_iff)
  have "pair_ok lut2_ok p" if "(p, slew) \<in> set (default_lookups g pin rf)" for p slew
    using that by (auto simp: default_lookups_def Let_def split: option.splits if_splits intro: table [OF sym])
  then have "\<exists>vs. res_map (\<lambda>(p, slew). lookUp2 p slew (dg_pin_load_capacitances g ! pin) rf) (default_lookups g pin rf) = Inr vs"
    using lookUp2_returns by (intro res_map_returns) auto
  then show ?thesis by (auto simp: getDefaultOutputPinInternalEnergyVal_dev_def Let_def)
qed

text \<open>The related pin, when there is one, is an input with a waveform, and its event is of that waveform.\<close>

definition related_ok :: "DevGate \<Rightarrow> RelatedPin \<Rightarrow> bool" where
  "related_ok g rp \<longleftrightarrow> (case rp_pin rp of None \<Rightarrow> True
     | Some i \<Rightarrow> i < dg_n_input_pin g \<and> has_waveform g i \<and>
         dg_pin_waveform_starts g ! i \<le> rp_event rp \<and> rp_event rp < dg_pin_waveform_ends g ! i)"

lemma related_step_returns:
  assumes ok: "dev_gate_ok la g events" and vals: "dev_values_ok g events" and n: "dg_n_input_pin g \<le> dg_n_pin g"
    and i: "i < dg_n_input_pin g" and acc: "related_ok g acc"
  shows "\<exists>acc'. related_step_dev la g events t pin rf i acc = Inr acc' \<and> related_ok g acc'"
proof (cases "has_waveform g i")
  case True
  define s where "s = dg_pin_waveform_starts g ! i"
  define e where "e = dg_pin_waveform_ends g ! i"
  define rel where "rel = max s (getEventIdxByTime_dev events s e t False - 1)"
  define prev where "prev = max s (rel - 1)"
  have i': "i < dg_n_pin g" using i n by simp
  have "s < e" using dev_gate_wave(2) [OF ok i' True] by (simp add: s_def e_def)
  then have b: "s \<le> rel" "rel < e" "s \<le> prev" "prev < e"
    using event_idx_bounds(2) [OF dev_gate_wave(1) [OF ok i'], of t False] by (auto simp: rel_def prev_def s_def e_def)
  have val: "ev_val (events ! nat j) \<in> {0, 1, 2}" if "s \<le> j" "j < e" for j
    using dev_value [OF vals i' True] that by (simp add: s_def e_def)
  have "related_ok g \<lparr>rp_min_diff = d, rp_pin = Some i, rp_event = rel\<rparr>" for d
    using b i True by (simp add: related_ok_def s_def e_def)
  then show ?thesis
    using edge_returns [OF val [OF b(3,4)] val [OF b(1,2)]] True acc
    by (simp add: related_step_dev_def Let_def s_def [symmetric] e_def [symmetric] rel_def [symmetric] prev_def [symmetric])
qed (use acc in \<open>simp add: related_step_dev_def\<close>)

lemma related_steps_returns:
  assumes "dev_gate_ok la g events" "dev_values_ok g events" "dg_n_input_pin g \<le> dg_n_pin g"
  shows "\<forall>i \<in> set is. i < dg_n_input_pin g \<Longrightarrow> related_ok g acc \<Longrightarrow>
    \<exists>acc'. related_steps la g events t pin rf is acc = Inr acc' \<and> related_ok g acc'"
proof (induction "is" arbitrary: acc)
  case (Cons i "is")
  then show ?case using related_step_returns [OF assms, of i acc t pin rf] by auto
qed simp

lemma output_energy_returns:
  assumes ok: "dev_gate_ok la g events" and vals: "dev_values_ok g events" and luts: "dev_luts_ok g"
    and pin: "dg_n_input_pin g \<le> pin" "pin < dg_n_pin g"
  shows "\<exists>v. getOutputPinInternalEnergyVal la g events t pin rf before = Inr v"
proof -
  have n: "dg_n_input_pin g \<le> dg_n_pin g" using luts by (simp add: dev_luts_ok_def)
  obtain rp where rp: "related_steps la g events t pin rf [0..<dg_n_input_pin g]
      \<lparr>rp_min_diff = la_max_time la, rp_pin = None, rp_event = -1\<rparr> = Inr rp" "related_ok g rp"
    using related_steps_returns [OF ok vals n, of "[0..<dg_n_input_pin g]"
      "\<lparr>rp_min_diff = la_max_time la, rp_pin = None, rp_event = -1\<rparr>" t pin rf] by (auto simp: related_ok_def)
  note default = default_energy_returns [OF luts pin, of rf]
  show ?thesis
  proof (cases "rp_pin rp")
    case None
    then show ?thesis using rp default by (simp add: getOutputPinInternalEnergyVal_def)
  next
    case (Some i)
    have i: "i < dg_n_input_pin g" "has_waveform g i" "dg_pin_waveform_starts g ! i \<le> rp_event rp"
        "rp_event rp < dg_pin_waveform_ends g ! i" using rp(2) Some by (auto simp: related_ok_def)
    have val: "ev_val (events ! nat j) \<in> {0, 1, 2}" if "dg_pin_waveform_starts g ! i \<le> j" "j \<le> rp_event rp" for j
      using dev_value [OF vals, of i j] i n that by simp
    have edge: "of_table (getRiseFallEdge_dev (ev_val (events ! nat (max (dg_pin_waveform_starts g ! i) (rp_event rp - 1))))
        (ev_val (events ! nat (rp_event rp)))) = Inr (getRiseFallEdge (ev_val (events ! nat (max (dg_pin_waveform_starts g ! i)
        (rp_event rp - 1)))) (ev_val (events ! nat (rp_event rp))))"
      by (rule edge_returns; rule val) (use i in auto)
    have pair: "pair_ok lut2_ok p" if "dg_output_luts g ! (pin - dg_n_input_pin g) = Some luts"
        "select_lut (fst (luts ! i)) (snd (luts ! i)) before (dg_n_pin g) = Some p" for luts p
      using select_lut_ok [OF output_luts_ok [OF assms(3) pin i(1) that(1)] that(2)] .
    show ?thesis
      using rp Some edge default lookUp2_returns pair
      by (auto simp: getOutputPinInternalEnergyVal_def Let_def split: option.splits)
  qed
qed
section \<open>The scan and the order of the triggered pins\<close>

lemma scan_step_le: "fold (\<lambda>i t. if P i then min (f i) t else t) is c \<le> (c :: int)"
proof (induction "is" arbitrary: c)
  case (Cons i "is")
  have "(if P i then min (f i) c else c) \<le> c" by simp
  then show ?case using Cons.IH [of "if P i then min (f i) c else c"] by (simp only: fold_Cons comp_def)
qed simp

lemma scan_pins_result:
  fixes g events ends th
  defines "time \<equiv> \<lambda>i. ev_time (events ! nat (th_frontiers th ! i))"
    and "pend \<equiv> pin_pending g ends (th_frontiers th)"
  shows "\<forall>i \<in> set is. pend i \<longrightarrow> th_states th ! i \<in> {0, 1, 2} \<and> ev_val (events ! nat (th_frontiers th ! i)) \<in> {0, 1, 2} \<Longrightarrow>
    \<exists>hot'. scan_pins g events ends th is (c, tr, hot) =
      (let c' = fold (\<lambda>i t. if pend i then min (time i) t else t) is c
       in Inr (c', (if c' < c then [] else tr) @ filter (\<lambda>i. pend i \<and> time i = c') is, hot'))"
proof (induction "is" arbitrary: c tr hot)
  case (Cons i "is")
  define c1 where "c1 = (if pend i then min (time i) c else c)"
  define tr1 where "tr1 = (if pend i then if time i < c then [i] else if time i = c then tr @ [i] else tr else tr)"
  have tail: "\<forall>i \<in> set is. pend i \<longrightarrow> th_states th ! i \<in> {0, 1, 2} \<and> ev_val (events ! nat (th_frontiers th ! i)) \<in> {0, 1, 2}"
    using Cons.prems by simp
  have "\<exists>hot1. scan_pin g events ends th i (c, tr, hot) = Inr (c1, tr1, hot1)"
  proof (cases "pend i")
    case True
    then have tog: "of_table (getNToggle_dev (th_states th ! i) (ev_val (events ! nat (th_frontiers th ! i)))) =
        Inr (getNToggle (th_states th ! i) (ev_val (events ! nat (th_frontiers th ! i))))"
      using Cons.prems by (intro toggle_returns) auto
    have time_i: "ev_time (events ! nat (th_frontiers th ! i)) = time i" by (simp add: time_def)
    consider "time i < c" | "time i = c" | "c < time i" by linarith
    then show ?thesis
      by cases (auto simp: True True [unfolded pend_def] tog scan_pin_def time_i c1_def tr1_def Let_def)
  qed (simp add: scan_pin_def pend_def c1_def tr1_def)
  then obtain hot1 where step: "scan_pin g events ends th i (c, tr, hot) = Inr (c1, tr1, hot1)" ..
  define c' where "c' = fold (\<lambda>i t. if pend i then min (time i) t else t) is c1"
  obtain hot' where "scan_pins g events ends th is (c1, tr1, hot1) =
      Inr (c', (if c' < c1 then [] else tr1) @ filter (\<lambda>i. pend i \<and> time i = c') is, hot')"
    using Cons.IH [OF tail, of c1 tr1 hot1] by (auto simp: Let_def c'_def)
  moreover have "c' \<le> c1" unfolding c'_def by (rule scan_step_le)
  moreover have "fold (\<lambda>i t. if pend i then min (time i) t else t) (i # is) c = c'"
    by (simp add: c'_def c1_def)
  ultimately show ?case
    using step by (auto simp: Let_def c1_def tr1_def min_def split: if_splits)
qed simp

lemma insert_triggered_mset: "mset (insert_triggered key ps p) = add_mset p (mset ps)"
proof -
  have "mset (dropWhile (\<lambda>q. key p < key q) (rev ps)) + mset (takeWhile (\<lambda>q. key p < key q) (rev ps)) = mset ps"
    by (metis add.commute mset_append mset_rev takeWhile_dropWhile_id)
  then show ?thesis by (simp add: insert_triggered_def)
qed

lemma sort_triggered_mset: "mset (sort_triggered key ps) = mset ps"
proof -
  have "mset (foldl (insert_triggered key) acc ps) = mset acc + mset ps" for acc
    by (induction ps arbitrary: acc) (simp_all add: insert_triggered_mset)
  then show ?thesis by (simp add: sort_triggered_def)
qed

text \<open>The pins come out in the order of their events.\<close>

lemma insert_triggered_sorted:
  assumes "sorted (map key ps)"
  shows "sorted (map key (insert_triggered key ps p))"
proof -
  define late where "late = takeWhile (\<lambda>q. key p < key q) (rev ps)"
  define early where "early = dropWhile (\<lambda>q. key p < key q) (rev ps)"
  have split: "ps = rev early @ rev late" unfolding early_def late_def
    by (metis rev_append rev_rev_ident takeWhile_dropWhile_id)
  have late: "key p < key q" if "q \<in> set late" for q using that set_takeWhileD by (force simp: late_def)
  have "key q \<le> key p" if "q \<in> set early" for q
  proof (cases early)
    case (Cons e es)
    then have "\<not> key p < key e" using hd_dropWhile [of "\<lambda>q. key p < key q" "rev ps"] by (simp add: early_def [symmetric])
    moreover have "key q \<le> key e" using assms that Cons by (auto simp: split sorted_append)
    ultimately show ?thesis by simp
  qed (use that in simp)
  then show ?thesis
    using assms late unfolding insert_triggered_def early_def [symmetric] late_def [symmetric]
    by (fastforce simp: split sorted_append)
qed

lemma sort_triggered_sorted: "sorted (map key (sort_triggered key ps))"
proof -
  have "sorted (map key (foldl (insert_triggered key) acc ps))" if "sorted (map key acc)" for acc
    using that by (induction ps arbitrary: acc) (simp_all add: insert_triggered_sorted)
  then show ?thesis by (simp add: sort_triggered_def)
qed
section \<open>The times of the fused kernel\<close>

definition fused_ok :: "Launch \<Rightarrow> DevGate \<Rightarrow> Event list \<Rightarrow> bool" where
  "fused_ok la g events \<longleftrightarrow> dev_gate_ok la g events \<and> dev_values_ok g events \<and> dev_luts_ok g"

text \<open>A triggered pin takes its event; the sums that it adds to leave the rest of the thread as it is.\<close>

lemma thread_add_frame:
  "th_states (thread_add_internal la t e r th) = th_states th" "th_frontiers (thread_add_internal la t e r th) = th_frontiers th"
  "th_leakage (thread_add_internal la t e r th) = th_leakage th"
  "th_states (thread_add_switching la g i t n r th) = th_states th"
  "th_frontiers (thread_add_switching la g i t n r th) = th_frontiers th"
  "th_leakage (thread_add_switching la g i t n r th) = th_leakage th"
  by (simp_all add: thread_add_internal_def thread_add_switching_def Let_def)

lemma thread_pin_effect:
  assumes ok: "fused_ok la g events" and i: "i < dg_n_pin g"
    and vals: "th_states th ! i \<in> {0, 1, 2}" "ev_val (events ! nat (th_frontiers th ! i)) \<in> {0, 1, 2}"
  shows "\<exists>th'. thread_pin la g events t before i th = Inr th' \<and>
    th_states th' = (th_states th)[i := ev_val (events ! nat (th_frontiers th ! i))] \<and>
    th_frontiers th' = (th_frontiers th)[i := th_frontiers th ! i + 1] \<and> th_leakage th' = th_leakage th"
proof -
  define f where "f = th_frontiers th ! i"
  define new where "new = ev_val (events ! nat f)"
  have new: "new \<in> {0, 1, 2}" using vals(2) by (simp add: new_def f_def)
  note tables = toggle_returns [OF vals(1) new] edge_returns [OF vals(1) new] rise_returns [OF vals(1) new]
  have energy: "\<exists>v. getInputPinInternalEnergyVal g st i rf = Inr v" if "i < dg_n_input_pin g" for st rf
    using input_energy_returns [OF _ that] ok by (simp add: fused_ok_def)
  have out: "\<exists>v. getOutputPinInternalEnergyVal la g events t i rf before = Inr v" if "\<not> i < dg_n_input_pin g" for rf
    using output_energy_returns [of la g events i] ok i that by (simp add: fused_ok_def)
  show ?thesis
  proof (cases "getNToggle (th_states th ! i) new = 0")
    case True
    then show ?thesis using tables
      by (simp add: thread_pin_def Let_def f_def [symmetric] new_def [symmetric])
  next
    case False
    show ?thesis
    proof (cases "i < dg_n_input_pin g")
      case True
      then show ?thesis using tables False energy [OF True, of "th_states th" "getRiseFallEdge (th_states th ! i) new"]
        by (auto simp: thread_pin_def Let_def f_def [symmetric] new_def [symmetric] thread_add_frame split: prod.splits)
    next
      case inp: False
      then show ?thesis using tables False out [OF inp, of "getRiseFallEdge (th_states th ! i) new"]
        by (auto simp: thread_pin_def Let_def f_def [symmetric] new_def [symmetric] thread_add_frame split: prod.splits)
    qed
  qed
qed
text \<open>The triggered pins of a time, each once and in any order.\<close>

lemma thread_pins_effect:
  assumes ok: "fused_ok la g events"
  shows "distinct is \<Longrightarrow> \<forall>i \<in> set is. i < dg_n_pin g \<and> i < length (th_states th) \<and> i < length (th_frontiers th) \<and>
      th_states th ! i \<in> {0, 1, 2} \<and> ev_val (events ! nat (th_frontiers th ! i)) \<in> {0, 1, 2} \<Longrightarrow>
    \<exists>th'. thread_pins la g events t before is th = Inr th' \<and>
      th_states th' = map (\<lambda>i. if i \<in> set is then ev_val (events ! nat (th_frontiers th ! i)) else th_states th ! i) [0..<length (th_states th)] \<and>
      th_frontiers th' = map (\<lambda>i. if i \<in> set is then th_frontiers th ! i + 1 else th_frontiers th ! i) [0..<length (th_frontiers th)] \<and>
      th_leakage th' = th_leakage th"
proof (induction "is" arbitrary: th)
  case Nil
  then show ?case by (simp add: map_nth)
next
  case (Cons i "is")
  obtain th1 where th1: "thread_pin la g events t before i th = Inr th1"
      "th_states th1 = (th_states th)[i := ev_val (events ! nat (th_frontiers th ! i))]"
      "th_frontiers th1 = (th_frontiers th)[i := th_frontiers th ! i + 1]" "th_leakage th1 = th_leakage th"
    using thread_pin_effect [OF ok, of i th t before] Cons.prems by auto
  have "i \<notin> set is" using Cons.prems by simp
  then have rest: "\<forall>j \<in> set is. j < dg_n_pin g \<and> j < length (th_states th1) \<and> j < length (th_frontiers th1) \<and>
      th_states th1 ! j \<in> {0, 1, 2} \<and> ev_val (events ! nat (th_frontiers th1 ! j)) \<in> {0, 1, 2}"
    using Cons.prems th1 by (auto simp: nth_list_update)
  obtain th' where th': "thread_pins la g events t before is th1 = Inr th'"
      "th_states th' = map (\<lambda>i. if i \<in> set is then ev_val (events ! nat (th_frontiers th1 ! i)) else th_states th1 ! i) [0..<length (th_states th1)]"
      "th_frontiers th' = map (\<lambda>i. if i \<in> set is then th_frontiers th1 ! i + 1 else th_frontiers th1 ! i) [0..<length (th_frontiers th1)]"
      "th_leakage th' = th_leakage th1"
    using Cons.IH [OF _ rest] Cons.prems by auto
  have "th_states th' = map (\<lambda>j. if j \<in> set (i # is) then ev_val (events ! nat (th_frontiers th ! j)) else th_states th ! j) [0..<length (th_states th)]"
    unfolding th'(2) using th1(2,3) \<open>i \<notin> set is\<close> Cons.prems(2) by (auto simp: nth_list_update)
  moreover have "th_frontiers th' = map (\<lambda>j. if j \<in> set (i # is) then th_frontiers th ! j + 1 else th_frontiers th ! j) [0..<length (th_frontiers th)]"
    unfolding th'(3) using th1(3) \<open>i \<notin> set is\<close> Cons.prems(2) by (auto simp: nth_list_update)
  ultimately show ?case using th1(1,4) th'(1,4) by simp
qed

lemma fused_states_ok:
  assumes ok: "fused_ok la g events" and inv: "thread_inv la g events a T P th" and i: "i < dg_n_pin g"
  shows "th_states th ! i \<in> {0, 1, 2}"
    and "pin_pending g (thread_ends g events b) (th_frontiers th) i \<Longrightarrow> ev_val (events ! nat (th_frontiers th ! i)) \<in> {0, 1, 2}"
proof -
  have gate: "dev_gate_ok la g events" and vals: "dev_values_ok g events" using ok by (auto simp: fused_ok_def)
  note front = dev_front_bounds [OF gate i]
  have "dev_state_at g events i T \<in> {0, 1, 2}"
  proof (cases "has_waveform g i")
    case True
    then have "ev_val (events ! nat (dev_front g events i T - 1)) \<in> {0, 1, 2}"
      using front [OF True, of T] by (intro dev_value [OF vals i True]) auto
    then show ?thesis using True by (simp add: dev_state_at_def)
  next
    case False
    then show ?thesis by (auto simp: dev_state_at_def getPinDefaultState_def Let_def split: option.splits)
  qed
  then show "th_states th ! i \<in> {0, 1, 2}" using inv i by (simp add: thread_inv_def dev_states_at_def)
  show "ev_val (events ! nat (th_frontiers th ! i)) \<in> {0, 1, 2}"
    if "pin_pending g (thread_ends g events b) (th_frontiers th) i"
  proof -
    have w: "has_waveform g i" "th_frontiers th ! i < pin_end g events b i"
      using that i by (auto simp: pin_pending_def thread_ends_def)
    then show ?thesis
      using front [OF w(1), of T] pin_end_bounds [OF gate i, of b] inv i by (intro dev_value [OF vals i w(1)]) (auto simp: thread_inv_def)
  qed
qed

text \<open>The scan of the fused kernel finds the next time and exactly the pins with an event at it.\<close>

lemma fused_scan:
  assumes ok: "fused_ok la g events" and inv: "thread_inv la g events a T P th"
    and c: "c = next_event_time la g events b th"
  obtains hot where "scan_pins g events (thread_ends g events b) th [0..<dg_n_pin g] (la_max_time la + 10, [], False) =
    Inr (c, filter (thread_hit g events b th c) [0..<dg_n_pin g], hot)"
proof -
  have "\<forall>i \<in> set [0..<dg_n_pin g]. pin_pending g (thread_ends g events b) (th_frontiers th) i \<longrightarrow>
      th_states th ! i \<in> {0, 1, 2} \<and> ev_val (events ! nat (th_frontiers th ! i)) \<in> {0, 1, 2}"
    using fused_states_ok [OF ok inv] by simp
  from scan_pins_result [OF this, of "la_max_time la + 10" "[]" False]
  show ?thesis using that by (auto simp: c next_event_time_def scan_time_def thread_hit_def [abs_def] Let_def)
qed

lemma fused_step:
  assumes ok: "fused_ok la g events" and inv: "thread_inv la g events a T P th"
  obtains th1 th' where "thread_leakage la g c th = Inr th1"
    and "thread_step la g events c (filter (thread_hit g events b th c) [0..<dg_n_pin g]) hot th = Inr th'"
    and "th_states th' = hit_states g events b th c" "th_frontiers th' = hit_frontiers g events b th c"
      "th_prev_time th' = c" "th_leakage th' = th_leakage th1"
proof -
  have gate: "dev_gate_ok la g events" using ok by (simp add: fused_ok_def)
  define pins where "pins = sort_triggered (\<lambda>i. th_frontiers th ! i) (filter (thread_hit g events b th c) [0..<dg_n_pin g])"
  have perm: "mset pins = mset (filter (thread_hit g events b th c) [0..<dg_n_pin g])"
    unfolding pins_def by (rule sort_triggered_mset)
  have pins: "distinct pins" "set pins = {i. i < dg_n_pin g \<and> thread_hit g events b th c i}"
    using mset_eq_imp_distinct_iff [OF perm] mset_eq_setD [OF perm] by auto
  obtain adds where leak: "thread_leakage la g c th = Inr (th\<lparr>th_leakage := th_leakage th
      + findLeakageVal_dev g (th_states th) * of_int (c - th_prev_time th) / of_int (la_max_time la),
      th_adds := th_adds th @ map (Pair W_leakage) adds\<rparr>)" (is "_ = Inr ?th1")
    using thread_leakage_returns [OF gate, of c th] by blast
  have len: "length (th_states th) = dg_n_pin g" "length (th_frontiers th) = dg_n_pin g"
    using inv by (auto simp: thread_inv_def dev_states_at_def)
  have "\<forall>i \<in> set pins. i < dg_n_pin g \<and> i < length (th_states ?th1) \<and> i < length (th_frontiers ?th1) \<and>
      th_states ?th1 ! i \<in> {0, 1, 2} \<and> ev_val (events ! nat (th_frontiers ?th1 ! i)) \<in> {0, 1, 2}"
    using fused_states_ok [OF ok inv] len pins(2) by (auto simp: thread_hit_def)
  from thread_pins_effect [OF ok pins(1) this, of c "if hot then th_states th else []"]
  obtain th2 where th2: "thread_pins la g events c (if hot then th_states th else []) pins ?th1 = Inr th2"
      "th_states th2 = map (\<lambda>i. if i \<in> set pins then ev_val (events ! nat (th_frontiers th ! i)) else th_states th ! i) [0..<dg_n_pin g]"
      "th_frontiers th2 = map (\<lambda>i. if i \<in> set pins then th_frontiers th ! i + 1 else th_frontiers th ! i) [0..<dg_n_pin g]"
      "th_leakage th2 = th_leakage ?th1" by (auto simp: len)
  have "thread_step la g events c (filter (thread_hit g events b th c) [0..<dg_n_pin g]) hot th = Inr (th2\<lparr>th_prev_time := c\<rparr>)"
    using leak th2(1) by (simp add: thread_step_def pins_def)
  moreover have "th_states th2 = hit_states g events b th c" "th_frontiers th2 = hit_frontiers g events b th c"
    unfolding th2(2,3) hit_states_def hit_frontiers_def by (simp_all add: pins(2))
  ultimately show ?thesis using that leak th2(4) by simp
qed

interpretation fused_loop: event_loop fused_ok thread_loop
proof
  fix la g events a T P th b fuel c
  assume ok: "fused_ok la g events" and inv: "thread_inv la g events a T P th"
    and c: "c = next_event_time la g events b th" "c \<noteq> la_max_time la + 10"
  obtain hot where scan: "scan_pins g events (thread_ends g events b) th [0..<dg_n_pin g] (la_max_time la + 10, [], False) =
      Inr (c, filter (thread_hit g events b th c) [0..<dg_n_pin g], hot)" by (rule fused_scan [OF ok inv c(1)])
  show "\<exists>th1 th'. thread_leakage la g c th = Inr th1 \<and>
      thread_loop (Suc fuel) la g events (thread_ends g events b) th = thread_loop fuel la g events (thread_ends g events b) th' \<and>
      th_states th' = hit_states g events b th c \<and> th_frontiers th' = hit_frontiers g events b th c \<and>
      th_prev_time th' = c \<and> th_leakage th' = th_leakage th1"
    by (rule fused_step [OF ok inv, of c b hot]) (use scan c(2) in auto)
next
  fix la g events a T P th b fuel
  assume ok: "fused_ok la g events" and inv: "thread_inv la g events a T P th"
    and stop: "next_event_time la g events b th = la_max_time la + 10"
  obtain hot where "scan_pins g events (thread_ends g events b) th [0..<dg_n_pin g] (la_max_time la + 10, [], False) =
      Inr (la_max_time la + 10, filter (thread_hit g events b th (la_max_time la + 10)) [0..<dg_n_pin g], hot)"
    by (rule fused_scan [OF ok inv stop [symmetric]])
  then show "thread_loop (Suc fuel) la g events (thread_ends g events b) th = Inr th" by simp
qed (simp add: fused_ok_def)

text \<open>A thread of the fused kernel has the leakage of its times, as the leakage kernel has.\<close>

lemma kernel1All_leakage_kernel:
  assumes "fused_ok la g events"
  shows "leakage_kernel la g events (kernel1All la g events)"
  unfolding leakage_kernel_def
  using fused_loop.thread_leakage_sum [OF assms] by (force simp: kernel1All_def thread_ends_def)

end
