(* ===== verification/GTP_CudaHost.thy ===== *)
theory GTP_CudaHost
  imports GTP_CudaThread GTP_GateEnergy
begin

text \<open>
  A gate of the device and the same gate on the host: when a gate record and its part of the event buffer
  (\<open>power/cuda/Gate.cuh\<close>, \<open>power/cuda/CudaPower.cu\<close>) hold the pins, waveforms and leakage table of a host gate
  (\<open>power/TimeBasedPower.cc\<close>), the two have the same states and leakage at every time.
\<close>

section \<open>The same gate\<close>

text \<open>
  Waveforms start at time 0, where both take the first event as the initial state; before a first event later than
  that the host has the state X and the device already has the value of the event.
\<close>

definition same_pin :: "DevGate \<Rightarrow> Event list \<Rightarrow> GatePin \<Rightarrow> nat \<Rightarrow> bool" where
  "same_pin g events pin i \<longleftrightarrow>
     (let s = dg_pin_waveform_starts g ! i; e = dg_pin_waveform_ends g ! i in
      if gp_events pin = [] then s = -1 \<and> e = -1 \<and> getPinDefaultState g i = getVertexDefaultState (gp_default pin)
      else 0 \<le> s \<and> s < e \<and> e \<le> int (length events) \<and> fst (hd (gp_events pin)) = 0 \<and>
        map (\<lambda>ev. (ev_time ev, ev_val ev)) (take (nat (e - s)) (drop (nat s) events)) = gp_events pin)"

definition same_gate :: "SimEnv \<Rightarrow> Gate \<Rightarrow> Launch \<Rightarrow> DevGate \<Rightarrow> Event list \<Rightarrow> bool" where
  "same_gate env hg la g events \<longleftrightarrow>
     la_max_time la = se_time_max env \<and> la_time_scale la = se_time_scale env \<and> la_clk_period la = se_clk_period env \<and>
     dg_n_pin g = length (g_pins hg) \<and>
     list_all (\<lambda>i. same_pin g events (g_pins hg ! i) i) [0..<dg_n_pin g] \<and>
     dg_default_leakage_exists g = g_default_leakage_exists hg \<and> dg_default_leakage_power_val g = g_default_leakage hg \<and>
     (if g_leakage_values hg = [] then dg_leakage_powers g = None
      else dg_leakage_powers g = Some (g_leakage_values hg) \<and> length (g_leakage_values hg) = 2 ^ dg_n_pin g)"

lemma same_pin_events:
  assumes "same_pin g events pin i" "gp_events pin \<noteq> []"
  defines "s \<equiv> dg_pin_waveform_starts g ! i" and "e \<equiv> dg_pin_waveform_ends g ! i"
  shows "0 \<le> s" "s < e" "e \<le> int (length events)" "has_waveform g i" "e - s = int (length (gp_events pin))"
    and "map ev_time (take (nat (e - s)) (drop (nat s) events)) = map fst (gp_events pin)"
    and "s \<le> j \<Longrightarrow> j < e \<Longrightarrow> (ev_time (events ! nat j), ev_val (events ! nat j)) = gp_events pin ! nat (j - s)"
proof -
  have w: "0 \<le> s" "s < e" "e \<le> int (length events)"
    and evs: "gp_events pin = map (\<lambda>ev. (ev_time ev, ev_val ev)) (take (nat (e - s)) (drop (nat s) events))"
    using assms(1,2) by (simp_all add: same_pin_def Let_def s_def e_def)
  then show "0 \<le> s" "s < e" "e \<le> int (length events)" by simp_all
  show "has_waveform g i" using w by (simp add: has_waveform_def s_def e_def)
  show "e - s = int (length (gp_events pin))" using w by (simp add: evs)
  show "map ev_time (take (nat (e - s)) (drop (nat s) events)) = map fst (gp_events pin)"
    by (simp add: evs comp_def)
  show "(ev_time (events ! nat j), ev_val (events ! nat j)) = gp_events pin ! nat (j - s)" if "s \<le> j" "j < e"
  proof -
    have "nat s + nat (j - s) = nat j" "nat (j - s) < nat (e - s)" using that w by auto
    then show ?thesis using w by (simp add: evs)
  qed
qed

lemma same_gate_ok:
  assumes host: "gate_ok env hg" and same: "same_gate env hg la g events"
  shows "dev_gate_ok la g events"
proof -
  have "wave_ok events (dg_pin_waveform_starts g ! i) (dg_pin_waveform_ends g ! i) \<and>
      (has_waveform g i \<longrightarrow> dg_pin_waveform_starts g ! i < dg_pin_waveform_ends g ! i \<and>
        list_all (\<lambda>j. ev_time (events ! nat j) \<le> la_max_time la) [dg_pin_waveform_starts g ! i..dg_pin_waveform_ends g ! i - 1])"
    if i: "i < dg_n_pin g" for i
  proof -
    define pin where "pin = g_pins hg ! i"
    have pin: "same_pin g events pin i" "pin_ok hg env pin"
      using same host i by (auto simp: same_gate_def gate_ok_def list_all_iff pin_def)
    show ?thesis
    proof (cases "gp_events pin = []")
      case True
      then show ?thesis using pin(1) by (simp add: same_pin_def wave_ok_def has_waveform_def)
    next
      case False
      note ev = same_pin_events [OF pin(1) False]
      have "wave_ok events (dg_pin_waveform_starts g ! i) (dg_pin_waveform_ends g ! i)"
        using ev(1-3,6) pin(2) by (simp add: wave_ok_def pin_ok_def)
      moreover have "ev_time (events ! nat j) \<le> la_max_time la"
        if "dg_pin_waveform_starts g ! i \<le> j" "j < dg_pin_waveform_ends g ! i" for j
      proof -
        have "(ev_time (events ! nat j), ev_val (events ! nat j)) \<in> set (gp_events pin)"
          unfolding ev(7) [OF that] using that ev(5) by (intro nth_mem) simp
        then show ?thesis using pin(2) same by (auto simp: pin_ok_def same_gate_def)
      qed
      ultimately show ?thesis using ev(2) by (auto simp: list_all_iff)
    qed
  qed
  then show ?thesis using host same by (auto simp: dev_gate_ok_def gate_ok_def same_gate_def waves_ok_def list_all_iff)
qed
section \<open>The same states and leakage\<close>

lemma same_pin_state:
  assumes dev: "dev_gate_ok la g events" and i: "i < dg_n_pin g" and same: "same_pin g events pin i"
    and sorted: "sorted_wrt (<) (map fst (gp_events pin))" and t: "0 \<le> t"
  shows "dev_state_at g events i t = pin_state_at pin t"
proof (cases "gp_events pin = []")
  case True
  then show ?thesis using same by (simp add: same_pin_def has_waveform_def dev_state_at_def pin_state_at_def)
next
  case False
  note ev = same_pin_events [OF same False]
  define s where "s = dg_pin_waveform_starts g ! i"
  define n where "n = length (filter (\<lambda>e. fst e \<le> t) (gp_events pin))"
  have past: "filter (\<lambda>e. fst e \<le> t) (gp_events pin) = take n (gp_events pin)"
    unfolding n_def by (rule filter_upto_take [OF sorted])
  have "fst (hd (gp_events pin)) = 0" using same False by (simp add: same_pin_def Let_def)
  then have "hd (gp_events pin) \<in> set (filter (\<lambda>e. fst e \<le> t) (gp_events pin))" using t False by simp
  then have n: "0 < n" "n \<le> length (gp_events pin)" unfolding n_def by (auto simp del: set_filter intro: length_pos_if_in_set)
  have early: "fst (gp_events pin ! j) \<le> t" if "j < n" for j
  proof -
    have "gp_events pin ! j = filter (\<lambda>e. fst e \<le> t) (gp_events pin) ! j" using that by (simp add: past)
    moreover have "filter (\<lambda>e. fst e \<le> t) (gp_events pin) ! j \<in> set (filter (\<lambda>e. fst e \<le> t) (gp_events pin))"
      using that by (intro nth_mem) (simp add: n_def)
    ultimately show ?thesis by simp
  qed
  have at_event: "ev_time (events ! nat j) = fst (gp_events pin ! nat (j - s))"
      "ev_val (events ! nat j) = snd (gp_events pin ! nat (j - s))" if "s \<le> j" "j < s + int (length (gp_events pin))" for j
    using ev(7) [of j] ev(5) that by (auto simp: s_def prod_eq_iff)
  have "dev_front g events i t = s + int n"
  proof (rule dev_front_eqI [OF dev i ev(4), folded s_def])
    show "s + int n \<le> dg_pin_waveform_ends g ! i" using ev(5) n by (simp add: s_def)
    show "ev_time (events ! nat j) \<le> t" if "s < j" "j < s + int n" for j
      using at_event(1) [of j] early [of "nat (j - s)"] that n by (simp add: nat_less_iff)
    show "t < ev_time (events ! nat (s + int n))" if "s + int n < dg_pin_waveform_ends g ! i"
      using at_event(1) [of "s + int n"] next_after [OF sorted, of t, folded n_def] ev(5) that by (simp add: s_def)
  qed (use n in simp)
  then have "dev_state_at g events i t = ev_val (events ! nat (s + int n - 1))"
    using ev(4) by (simp add: dev_state_at_def)
  also have "\<dots> = snd (gp_events pin ! (n - 1))" using at_event(2) [of "s + int n - 1"] n by (simp add: nat_diff_distrib)
  also have "\<dots> = snd (last (take n (gp_events pin)))" using n by (cases n) (simp_all add: take_Suc_conv_app_nth)
  also have "\<dots> = pin_state_at pin t" using False n by (simp add: pin_state_at_def Let_def past)
  finally show ?thesis .
qed

lemma same_leakage_at:
  assumes host: "gate_ok env hg" and same: "same_gate env hg la g events" and t: "0 \<le> t"
  shows "dev_leakage_at g events t = gate_leakage_at hg t"
proof -
  note dev = same_gate_ok [OF host same]
  have "dev_state_at g events i t = pin_state_at (g_pins hg ! i) t" if i: "i < dg_n_pin g" for i
  proof (rule same_pin_state [OF dev i _ _ t])
    show "same_pin g events (g_pins hg ! i) i" using same i by (simp add: same_gate_def list_all_iff)
    have "pin_ok hg env (g_pins hg ! i)" using host same i by (simp add: gate_ok_def same_gate_def)
    then show "sorted_wrt (<) (map fst (gp_events (g_pins hg ! i)))" by (simp add: pin_ok_def)
  qed
  then have states: "dev_states_at g events t = gate_state_at hg t"
    using same by (intro nth_equalityI) (auto simp: dev_states_at_def gate_state_at_def same_gate_def)
  have "getPinStatesIndex (gate_state_at hg t) < 2 ^ dg_n_pin g"
    using getPinStatesIndex_less [of "gate_state_at hg t"] same by (simp add: same_gate_def)
  then show ?thesis
    using same states
    by (auto simp: dev_leakage_at_def gate_leakage_at_def findLeakageVal_dev_def findLeakageVal_def find_leakage_loop_nth
        same_gate_def split: if_splits)
qed

text \<open>A kernel whose threads have the leakage of their times has, over a whole simulation, the leakage of the host.\<close>

lemma threads_match_host:
  assumes host: "gate_ok env hg" and same: "same_gate env hg la g events"
    and launch: "launch_ok la g" "la_basis la = PB_cycle" "whole_simulation la"
    and run: "leakage_kernel la g events run"
  shows "\<forall>k. \<exists>r. run k = Inr r"
    and "\<exists>st. findTimeBasedAllPower env hg = Inr st \<and> (\<Sum>k < gate_threads la g. leakage_result (run k)) = ls_leakage st"
proof -
  have max: "la_max_time la = se_time_max env" using same by (simp add: same_gate_def)
  note total = threads_leakage_total [OF launch run]
  show "\<forall>k. \<exists>r. run k = Inr r" using total by blast
  have "(\<Sum>k < gate_threads la g. leakage_result (run k)) =
      (\<Sum>t = 0..<se_time_max env. dev_leakage_at g events t) / of_int (se_time_max env)" using total by (simp add: max)
  also have "(\<Sum>t = 0..<se_time_max env. dev_leakage_at g events t) = (\<Sum>t = 0..<se_time_max env. gate_leakage_at hg t)"
    by (intro sum.cong) (simp_all add: same_leakage_at [OF host same])
  finally have dev: "(\<Sum>k < gate_threads la g. leakage_result (run k)) * of_int (se_time_max env) =
      (\<Sum>t = 0..<se_time_max env. gate_leakage_at hg t)" and pos: "0 < se_time_max env"
    using host by (simp_all add: gate_ok_def)
  obtain st where "findTimeBasedAllPower env hg = Inr st"
      "ls_leakage st * of_int (se_time_max env) = (\<Sum>t = 0..<se_time_max env. gate_leakage_at hg t)"
    using gate_power_computed [OF host] by blast
  moreover from this have "(\<Sum>k < gate_threads la g. leakage_result (run k)) = ls_leakage st"
    using dev pos by (metis mult_right_cancel of_int_eq_0_iff less_irrefl)
  ultimately show "\<exists>st. findTimeBasedAllPower env hg = Inr st \<and>
      (\<Sum>k < gate_threads la g. leakage_result (run k)) = ls_leakage st" by blast
qed

end
