(* ===== verification/GTP_CudaMemory.thy ===== *)
theory GTP_CudaMemory
  imports GTP_CudaFused GTP_CudaHost
begin

text \<open>
  A launch of a kernel on the grid (\<open>CudaPower::runCudaPowerAnalysis\<close>): the threads of all blocks add atomically to
  the per-tile results of their gates and to the per-cycle arrays, in any interleaving; then the tiles of a gate are
  merged (\<open>kernel2MergeAllPowerResult\<close>) and recorded (\<open>CudaPower::recordResult\<close>). Every launch ends, in the same
  memory whatever the interleaving, and the merged leakage of every gate is the leakage that the host computes.
\<close>

section \<open>The grid\<close>

datatype Kernel = K_fused | K_dynamic | K_leakage

text \<open>
  The cells that the atomic additions go to: the tile of a lane in the results of all gates, and a cycle; there is
  one array of each for every kind of power.
\<close>

datatype Cell = Tile WaveKind nat | Cycle WaveKind int

type_synonym Memory = "Cell \<Rightarrow> real"
type_synonym Writes = "(Cell \<times> real) list"

primrec th_sum :: "WaveKind \<Rightarrow> ThreadState \<Rightarrow> real" where
  "th_sum W_leakage th = th_leakage th"
| "th_sum W_internal th = th_internal th"
| "th_sum W_glitch_internal th = th_glitch_internal th"
| "th_sum W_switching th = th_switching th"
| "th_sum W_glitch_switching th = th_glitch_switching th"

primrec tile_kinds :: "Kernel \<Rightarrow> WaveKind list" where
  "tile_kinds K_fused = [W_leakage, W_glitch_switching, W_switching, W_glitch_internal, W_internal]"
| "tile_kinds K_dynamic = [W_glitch_switching, W_switching, W_glitch_internal, W_internal]"
| "tile_kinds K_leakage = [W_leakage]"

primrec run_kernel :: "Kernel \<Rightarrow> Launch \<Rightarrow> DevGate \<Rightarrow> Event list \<Rightarrow> nat \<Rightarrow> power_error + ThreadState option" where
  "run_kernel K_fused = kernel1All"
| "run_kernel K_dynamic = kernel1_1"
| "run_kernel K_leakage = kernel1_2"

text \<open>The additions of a thread in order: to the cycles as it goes, and its sums to its tile at the end.\<close>

definition thread_writes :: "Kernel \<Rightarrow> nat \<Rightarrow> ThreadState option \<Rightarrow> Writes" where
  "thread_writes kn tile r =
     (case r of None \<Rightarrow> []
      | Some th \<Rightarrow> map (\<lambda>(k, c, v). (Cycle k c, v)) (th_adds th) @ map (\<lambda>k. (Tile k tile, th_sum k th)) (tile_kinds kn))"

definition lane_writes :: "Kernel \<Rightarrow> Launch \<Rightarrow> Schedule \<Rightarrow> Event list \<Rightarrow> nat \<times> nat \<Rightarrow> power_error + Writes" where
  "lane_writes kn la sd events p =
     (let g = sd_gates sd ! (block_gates (la_basis la) sd ! fst p) in
      res_bind (run_kernel kn la g events (thread_idx_in_gate (la_basis la) (la_n_thread_per_block la) g (fst p) (snd p)))
        (\<lambda>r. Inr (thread_writes kn (dg_tile_offset g + snd p) r)))"

definition grid_lanes :: "Launch \<Rightarrow> Schedule \<Rightarrow> (nat \<times> nat) list" where
  "grid_lanes la sd = List.product [0..<length (block_gates (la_basis la) sd)] [0..<la_n_thread_per_block la]"

definition launch_kernel :: "Kernel \<Rightarrow> Launch \<Rightarrow> Schedule \<Rightarrow> Event list \<Rightarrow> power_error + Writes list" where
  "launch_kernel kn la sd events = res_map (lane_writes kn la sd events) (grid_lanes la sd)"

section \<open>Interleavings of the atomic additions\<close>

inductive gpu_step :: "Memory \<times> Writes list \<Rightarrow> Memory \<times> Writes list \<Rightarrow> bool" where
  atomicAdd: "i < length ts \<Longrightarrow> ts ! i = (l, v) # rest \<Longrightarrow> gpu_step (m, ts) (m(l := m l + v), ts[i := rest])"

inductive_cases gpu_stepE: "gpu_step (m, ts) s"

abbreviation gpu_steps :: "Memory \<times> Writes list \<Rightarrow> Memory \<times> Writes list \<Rightarrow> bool" where
  "gpu_steps \<equiv> gpu_step\<^sup>*\<^sup>*"

definition all_done :: "Writes list \<Rightarrow> bool" where
  "all_done ts \<longleftrightarrow> list_all (\<lambda>t. t = []) ts"

text \<open>The freshly allocated arrays are set to zero.\<close>

definition zero_memory :: Memory where
  "zero_memory = (\<lambda>_. 0)"

section \<open>Merging and recording\<close>

definition kernel2MergeAllPowerResult :: "nat \<Rightarrow> Memory \<Rightarrow> DevGate \<Rightarrow> WaveKind \<Rightarrow> real" where
  "kernel2MergeAllPowerResult power_res_length m g k =
     fold (\<lambda>t res. res + m (Tile k (dg_tile_offset g + t))) [0..<power_res_length] 0"

record InstPower =
  ip_leakage :: real
  ip_internal :: real
  ip_glitch_internal :: real
  ip_switching :: real
  ip_glitch_switching :: real

definition recordResult :: "(WaveKind \<Rightarrow> real) \<Rightarrow> InstPower \<Rightarrow> InstPower" where
  "recordResult gate p =
     \<lparr>ip_leakage = ip_leakage p + gate W_leakage,
      ip_internal = ip_internal p + (gate W_internal + gate W_glitch_internal),
      ip_glitch_internal = ip_glitch_internal p + gate W_glitch_internal,
      ip_switching = ip_switching p + (gate W_switching + gate W_glitch_switching),
      ip_glitch_switching = ip_glitch_switching p + gate W_glitch_switching\<rparr>"

section \<open>Lemmas: interleavings\<close>

definition remaining :: "Writes list \<Rightarrow> nat" where
  "remaining ts = sum_list (map length ts)"

definition written :: "Writes \<Rightarrow> Cell \<Rightarrow> real" where
  "written ws l = sum_list (map snd (filter (\<lambda>w. fst w = l) ws))"

lemma written_simps [simp]:
  "written [] l = 0" "written ((l', v) # ws) l = (if l' = l then v else 0) + written ws l"
  "written (ws @ ws') l = written ws l + written ws' l"
  by (simp_all add: written_def)

text \<open>An addition moves its value from the writes to come into the memory.\<close>

lemma gpu_step_effect:
  assumes "gpu_step (m, ts) (m', ts')"
  shows "remaining ts = Suc (remaining ts')" "length ts' = length ts"
    and "m' l + written (concat ts') l = m l + written (concat ts) l"
proof -
  obtain i l' v rest where s: "i < length ts" "ts ! i = (l', v) # rest" "m' = m(l' := m l' + v)" "ts' = ts[i := rest]"
    using assms by (auto elim: gpu_stepE)
  have ts: "ts = take i ts @ ((l', v) # rest) # drop (Suc i) ts" using id_take_nth_drop [OF s(1)] s(2) by simp
  have ts': "ts' = take i ts @ rest # drop (Suc i) ts" using s(1,4) by (simp add: upd_conv_take_nth_drop)
  show "length ts' = length ts" using s(4) by simp
  have "remaining (take i ts @ ((l', v) # rest) # drop (Suc i) ts) = Suc (remaining (take i ts @ rest # drop (Suc i) ts))"
    by (simp add: remaining_def)
  then show "remaining ts = Suc (remaining ts')" using ts ts' by metis
  have "m' l + written (concat (take i ts @ rest # drop (Suc i) ts)) l
      = m l + written (concat (take i ts @ ((l', v) # rest) # drop (Suc i) ts)) l"
    using s(3) by simp
  then show "m' l + written (concat ts') l = m l + written (concat ts) l" using ts ts' by metis
qed

lemma gpu_steps_effect:
  assumes "(gpu_step ^^ n) (m, ts) (m', ts')"
  shows "remaining ts = n + remaining ts' \<and> (\<forall>l. m' l + written (concat ts') l = m l + written (concat ts) l)"
  using assms
proof (induction n arbitrary: m ts)
  case (Suc n)
  obtain m1 ts1 where "gpu_step (m, ts) (m1, ts1)" "(gpu_step ^^ n) (m1, ts1) (m', ts')"
    using relpowp_Suc_D2 [OF Suc.prems] by auto
  then show ?case using Suc.IH gpu_step_effect by force
qed simp

lemma remaining_zero: "remaining ts = 0 \<longleftrightarrow> all_done ts"
  by (induction ts) (auto simp: remaining_def all_done_def)

lemma done_written: "all_done ts \<Longrightarrow> written (concat ts) l = 0"
  by (induction ts) (auto simp: all_done_def)

lemma gpu_progress:
  assumes "\<not> all_done ts"
  shows "\<exists>s. gpu_step (m, ts) s"
proof -
  obtain i where "i < length ts" "ts ! i \<noteq> []" using assms by (auto simp: all_done_def list_all_iff in_set_conv_nth)
  then show ?thesis by (cases "ts ! i") (auto intro: atomicAdd)
qed

lemma gpu_can_finish: "\<exists>m' ts'. (gpu_step ^^ remaining ts) (m, ts) (m', ts') \<and> all_done ts'"
proof (induction "remaining ts" arbitrary: m ts)
  case 0
  then show ?case using remaining_zero by fastforce
next
  case (Suc n)
  then obtain m1 ts1 where s: "gpu_step (m, ts) (m1, ts1)"
    using gpu_progress remaining_zero by (metis nat.distinct(1) surj_pair)
  then have "n = remaining ts1" using gpu_step_effect(1) [OF s] Suc.hyps(2) by simp
  then show ?case using Suc.hyps(1) [of ts1 m1] s Suc.hyps(2) by (metis relpowp_Suc_I2)
qed
section \<open>Lemmas: the tiles of a gate\<close>

lemma merge_sum:
  "kernel2MergeAllPowerResult n m g k = (\<Sum>t < n. m (Tile k (dg_tile_offset g + t)))"
proof -
  have "fold (\<lambda>t res. res + f t) [0..<n] acc = acc + (\<Sum>t < n. f t)" for f :: "nat \<Rightarrow> real" and acc
    by (induction n) auto
  then show ?thesis by (simp add: kernel2MergeAllPowerResult_def)
qed

text \<open>What a thread adds to a tile: its sum of that kind, if it is its own tile.\<close>

definition kind_result :: "Kernel \<Rightarrow> WaveKind \<Rightarrow> ThreadState option \<Rightarrow> real" where
  "kind_result kn k r = (case r of Some th \<Rightarrow> if k \<in> set (tile_kinds kn) then th_sum k th else 0 | None \<Rightarrow> 0)"

lemma distinct_tile_kinds: "distinct (tile_kinds kn)"
  by (cases kn) auto

lemma written_own_tiles:
  "distinct ks \<Longrightarrow> written (map (\<lambda>k. (Tile k tile, f k)) ks) (Tile k a) = (if a = tile \<and> k \<in> set ks then f k else 0)"
  by (induction ks) auto

lemma written_cycles: "written (map (\<lambda>(k, c, v). (Cycle k c, v)) adds) (Tile k' a) = 0"
  by (induction adds) auto

lemma thread_writes_tile: "written (thread_writes kn tile r) (Tile k a) = (if a = tile then kind_result kn k r else 0)"
  by (auto simp: thread_writes_def kind_result_def written_cycles written_own_tiles [OF distinct_tile_kinds] split: option.splits)

lemma written_concat: "written (concat ts) l = sum_list (map (\<lambda>ws. written ws l) ts)"
  by (induction ts) auto

lemma sum_single_shift:
  fixes x :: real and a b n :: nat
  shows "(\<Sum>t < n. if a + t = b then x else 0) = (if a \<le> b \<and> b < a + n then x else 0)"
proof -
  have "(\<Sum>t < n. if a + t = b then x else 0) = (\<Sum>t < n. if t = b - a \<and> a \<le> b then x else 0)"
    by (intro sum.cong) auto
  then show ?thesis by (cases "a \<le> b") auto
qed
lemma tile_offset_range:
  fixes i j l n :: nat
  assumes "l < n"
  shows "i * n \<le> j * n + l \<and> j * n + l < i * n + n \<longleftrightarrow> j = i"
proof
  assume h: "i * n \<le> j * n + l \<and> j * n + l < i * n + n"
  then have "i * n < (j + 1) * n" "j * n < (i + 1) * n" using assms by (simp_all add: algebra_simps)
  then have "i < j + 1" "j < i + 1" by (simp_all only: mult_less_cancel2)
  then show "j = i" by simp
qed (use assms in simp)

definition thread_result :: "power_error + ThreadState option \<Rightarrow> ThreadState option" where
  "thread_result r = (case r of Inl _ \<Rightarrow> None | Inr th \<Rightarrow> th)"

text \<open>The lanes of the grid that work for a gate are its threads.\<close>

lemma lanes_bij:
  assumes sched: "scheduleKernelForEventAndCycleBasedPartition cfg u s e order junk gates = Inr sd"
    and order: "set order = {..<length gates}" and tpb: "0 < sc_n_thread_per_block cfg"
    and la: "la_n_thread_per_block la = sc_n_thread_per_block cfg" and i: "i < length gates"
  defines "idx \<equiv> \<lambda>p. thread_idx_in_gate (la_basis la) (sc_n_thread_per_block cfg) (sd_gates sd ! i) (fst p) (snd p)"
  shows "bij_betw idx {p \<in> set (grid_lanes la sd). block_gates (la_basis la) sd ! fst p = i \<and> idx p < gate_threads la (sd_gates sd ! i)}
    {..<gate_threads la (sd_gates sd ! i)}" (is "bij_betw idx ?S {..<?T}")
proof -
  have lanes: "p \<in> set (grid_lanes la sd) \<longleftrightarrow>
      fst p < length (block_gates (la_basis la) sd) \<and> snd p < sc_n_thread_per_block cfg" for p
    by (cases p) (simp add: grid_lanes_def la)
  have one: "\<exists>!p. fst p < length (block_gates (la_basis la) sd) \<and> snd p < sc_n_thread_per_block cfg \<and>
      block_gates (la_basis la) sd ! fst p = i \<and> idx p = k" if "k < ?T" for k
    using scheduled_blocks [OF sched order tpb, of "la_basis la", THEN conjunct2, rule_format, OF i] that
    unfolding gate_threads_def idx_def by blast
  show ?thesis
  proof (rule bij_betw_imageI)
    show "inj_on idx ?S"
    proof (rule inj_onI)
      fix p q assume "p \<in> ?S" "q \<in> ?S" "idx p = idx q"
      then show "p = q" using one [of "idx p"] lanes by auto
    qed
    show "idx ` ?S = {..<?T}"
    proof (intro set_eqI iffI)
      fix k assume "k \<in> {..<?T}"
      then obtain p where "p \<in> ?S" "idx p = k" using one [of k] lanes by auto
      then show "k \<in> idx ` ?S" by blast
    qed auto
  qed
qed

text \<open>
  After a launch in which no thread fails and the threads beyond those of a gate do nothing, the additions to the
  tiles of a gate are the sums of its threads.
\<close>

lemma launch_tiles:
  assumes sched: "scheduleKernelForEventAndCycleBasedPartition cfg u s e order junk gates = Inr sd"
    and order: "set order = {..<length gates}" and tpb: "0 < sc_n_thread_per_block cfg"
    and la: "la_n_thread_per_block la = sc_n_thread_per_block cfg"
    and runs: "\<And>i k. i < length gates \<Longrightarrow> \<exists>r. run_kernel kn la (sd_gates sd ! i) events k = Inr r"
    and quiet: "\<And>i k. i < length gates \<Longrightarrow> gate_threads la (sd_gates sd ! i) \<le> k \<Longrightarrow>
      run_kernel kn la (sd_gates sd ! i) events k = Inr None"
  obtains ts where "launch_kernel kn la sd events = Inr ts"
    and "\<And>i w. i < length gates \<Longrightarrow>
      (\<Sum>t < sc_power_res_length cfg. written (concat ts) (Tile w (dg_tile_offset (sd_gates sd ! i) + t))) =
      (\<Sum>k < gate_threads la (sd_gates sd ! i). kind_result kn w (thread_result (run_kernel kn la (sd_gates sd ! i) events k)))"
proof -
  define n where "n = sc_n_thread_per_block cfg"
  define basis where "basis = la_basis la"
  define gate where "gate = (\<lambda>p :: nat \<times> nat. block_gates basis sd ! fst p)"
  define idx_of where "idx_of = (\<lambda>i p. thread_idx_in_gate basis n (sd_gates sd ! i) (fst p) (snd p))"
  define idx where "idx = (\<lambda>p. idx_of (gate p) p)"
  define res where "res = (\<lambda>i k. thread_result (run_kernel kn la (sd_gates sd ! i) events k))"
  define ts where "ts = map (\<lambda>p. thread_writes kn (dg_tile_offset (sd_gates sd ! gate p) + snd p) (res (gate p) (idx p))) (grid_lanes la sd)"
  note cover = scheduled_blocks [OF sched order tpb, of basis, folded n_def]
  have lanes: "set (grid_lanes la sd) = {..<length (block_gates basis sd)} \<times> {..<n}" "distinct (grid_lanes la sd)"
    by (auto simp: grid_lanes_def basis_def la n_def distinct_product)
  have gate_less: "gate p < length gates" if "p \<in> set (grid_lanes la sd)" for p
    using cover that lanes by (auto simp: gate_def Let_def)
  have len: "sc_power_res_length cfg = n"
    using sched by (auto simp: scheduleKernelForEventAndCycleBasedPartition_def n_def split: if_splits)
  have offset: "dg_tile_offset (sd_gates sd ! i) = i * n" if i: "i < length gates" for i
  proof -
    obtain gates' m where set: "res_map (set_cycles cfg m) gates = Inr gates'" and sd: "sd = schedule_gates cfg m order junk gates'"
      using sched by (auto simp: scheduleKernelForEventAndCycleBasedPartition_def Let_def split: if_splits)
    have "i < length gates'" using res_map_list_all2 [OF set] i by (simp add: list_all2_lengthD)
    then show ?thesis by (simp add: sd schedule_gates_def Let_def nth_enumerate_eq len)
  qed
  have launch: "launch_kernel kn la sd events = Inr ts"
    unfolding launch_kernel_def ts_def
  proof (rule res_map_total)
    fix p assume "p \<in> set (grid_lanes la sd)"
    then obtain r where "run_kernel kn la (sd_gates sd ! gate p) events (idx p) = Inr r" using runs gate_less by blast
    then show "lane_writes kn la sd events p =
        Inr (thread_writes kn (dg_tile_offset (sd_gates sd ! gate p) + snd p) (res (gate p) (idx p)))"
      by (simp add: lane_writes_def Let_def gate_def idx_def idx_of_def res_def thread_result_def basis_def n_def la)
  qed
  moreover have "(\<Sum>t < sc_power_res_length cfg. written (concat ts) (Tile w (dg_tile_offset (sd_gates sd ! i) + t))) =
      (\<Sum>k < gate_threads la (sd_gates sd ! i). kind_result kn w (res i k))" if i: "i < length gates" for i w
  proof -
    define T where "T = gate_threads la (sd_gates sd ! i)"
    have part: "(\<Sum>t < n. if i * n + t = gate p * n + snd p then x else 0) = (if gate p = i then x else (0 :: real))"
      if "p \<in> set (grid_lanes la sd)" for p x
    proof -
      have "snd p < n" using that unfolding lanes(1) by auto
      then show ?thesis by (simp only: sum_single_shift tile_offset_range)
    qed
    have "(\<Sum>t < sc_power_res_length cfg. written (concat ts) (Tile w (dg_tile_offset (sd_gates sd ! i) + t))) =
        (\<Sum>t < n. \<Sum>p \<in> set (grid_lanes la sd). if i * n + t = gate p * n + snd p then kind_result kn w (res (gate p) (idx p)) else 0)"
      unfolding len offset [OF i]
    proof (rule sum.cong [OF refl])
      fix t
      have "written (concat ts) (Tile w (i * n + t)) = (\<Sum>p \<in> set (grid_lanes la sd).
          if i * n + t = dg_tile_offset (sd_gates sd ! gate p) + snd p then kind_result kn w (res (gate p) (idx p)) else 0)"
        by (simp add: written_concat ts_def comp_def thread_writes_tile sum_list_distinct_conv_sum_set [OF lanes(2)])
      also have "\<dots> = (\<Sum>p \<in> set (grid_lanes la sd).
          if i * n + t = gate p * n + snd p then kind_result kn w (res (gate p) (idx p)) else 0)"
        by (intro sum.cong refl) (simp add: offset gate_less)
      finally show "written (concat ts) (Tile w (i * n + t)) = (\<Sum>p \<in> set (grid_lanes la sd).
          if i * n + t = gate p * n + snd p then kind_result kn w (res (gate p) (idx p)) else 0)" .
    qed
    also have "\<dots> = (\<Sum>p \<in> set (grid_lanes la sd). \<Sum>t < n. if i * n + t = gate p * n + snd p then kind_result kn w (res (gate p) (idx p)) else 0)"
      by (rule sum.swap)
    also have "\<dots> = (\<Sum>p \<in> set (grid_lanes la sd). if gate p = i then kind_result kn w (res (gate p) (idx p)) else 0)"
      by (rule sum.cong [OF refl part])
    also have "\<dots> = (\<Sum>p \<in> {p \<in> set (grid_lanes la sd). gate p = i \<and> idx_of i p < T}. kind_result kn w (res i (idx_of i p)))"
    proof (intro sum.mono_neutral_cong_right ballI)
      fix p assume "p \<in> set (grid_lanes la sd) - {p \<in> set (grid_lanes la sd). gate p = i \<and> idx_of i p < T}"
      then show "(if gate p = i then kind_result kn w (res (gate p) (idx p)) else 0) = 0"
        using quiet [OF i] by (auto simp: T_def res_def idx_def thread_result_def kind_result_def not_less)
    qed (auto simp: idx_def)
    also have "\<dots> = (\<Sum>k < T. kind_result kn w (res i k))"
      unfolding T_def gate_def idx_of_def basis_def n_def
      by (rule sum.reindex_bij_betw [OF lanes_bij [OF sched order tpb la i]])
    finally show ?thesis by (simp add: T_def)
  qed
  ultimately show ?thesis using that unfolding res_def by blast
qed
section \<open>Lemmas: scheduled gates\<close>

text \<open>Scheduling sets the division of the work of a gate and nothing else of it.\<close>

definition same_work :: "DevGate \<Rightarrow> DevGate \<Rightarrow> bool" where
  "same_work g g' \<longleftrightarrow> (\<exists>c et eb ct cb off. g' = g\<lparr>dg_n_cycle_per_thread := c, dg_event_threads := et, dg_event_blocks := eb,
     dg_cycle_threads := ct, dg_cycle_blocks := cb, dg_tile_offset := off\<rparr>)"

lemma scheduled_same_work:
  assumes "scheduleKernelForEventAndCycleBasedPartition cfg u s e order junk gates = Inr sd" "i < length gates"
  shows "same_work (gates ! i) (sd_gates sd ! i)"
proof -
  obtain gates' n where set: "res_map (set_cycles cfg n) gates = Inr gates'" and sd: "sd = schedule_gates cfg n order junk gates'"
    using assms(1) by (auto simp: scheduleKernelForEventAndCycleBasedPartition_def Let_def split: if_splits)
  have rel: "list_all2 (\<lambda>g g'. set_cycles cfg n g = Inr g') gates gates'" by (rule res_map_list_all2 [OF set])
  then have i: "i < length gates'" using assms(2) by (simp add: list_all2_lengthD)
  have "set_cycles cfg n (gates ! i) = Inr (gates' ! i)" using rel assms(2) by (rule list_all2_nthD)
  then obtain c where "gates' ! i = (gates ! i)\<lparr>dg_n_cycle_per_thread := c\<rparr>"
    by (auto simp: set_cycles_def setNCyclePerThreadByEventCount_def Let_def split: if_splits intro: that [OF sym])
  then have "sd_gates sd ! i = (gates ! i)\<lparr>dg_n_cycle_per_thread := c,
      dg_event_threads := dg_event_threads (sd_gates sd ! i), dg_event_blocks := dg_event_blocks (sd_gates sd ! i),
      dg_cycle_threads := dg_cycle_threads (sd_gates sd ! i), dg_cycle_blocks := dg_cycle_blocks (sd_gates sd ! i),
      dg_tile_offset := dg_tile_offset (sd_gates sd ! i)\<rparr>"
    using i by (simp add: sd schedule_gates_def Let_def nth_enumerate_eq)
  then show ?thesis unfolding same_work_def by blast
qed

lemma same_work_gate:
  assumes "same_work g g'"
  shows "same_gate env hg la g' events = same_gate env hg la g events"
    and "dev_values_ok g' events = dev_values_ok g events" "dev_luts_ok g' = dev_luts_ok g"
proof -
  obtain c et eb ct cb off where g': "g' = g\<lparr>dg_n_cycle_per_thread := c, dg_event_threads := et, dg_event_blocks := eb,
      dg_cycle_threads := ct, dg_cycle_blocks := cb, dg_tile_offset := off\<rparr>" using assms unfolding same_work_def by blast
  have pins: "same_pin g' events = same_pin g events" "has_waveform g' = has_waveform g"
    by (simp_all add: g' same_pin_def [abs_def] getPinDefaultState_def [abs_def] has_waveform_def [abs_def])
  show "same_gate env hg la g' events = same_gate env hg la g events" unfolding same_gate_def pins by (simp add: g')
  show "dev_values_ok g' events = dev_values_ok g events" unfolding dev_values_ok_def pins by (simp add: g')
  show "dev_luts_ok g' = dev_luts_ok g" unfolding dev_luts_ok_def g' by (simp cong: option.case_cong)
qed

lemma leakage_kernel_quiet:
  assumes "leakage_kernel la g events run" "gate_threads la g \<le> k"
  shows "run k = Inr None"
proof -
  have "thread_range la g events k = None" using thread_range_less [of la g events k] assms(2) by (cases "thread_range la g events k") auto
  then show ?thesis using assms(1) by (simp add: leakage_kernel_def)
qed

lemma leakage_kind_result: "kn \<noteq> K_dynamic \<Longrightarrow> kind_result kn W_leakage (thread_result r) = leakage_result r"
  by (cases kn) (auto simp: kind_result_def thread_result_def leakage_result_def split: sum.splits option.splits)

lemma run_kernel_leakage:
  assumes "kn \<noteq> K_dynamic" "dev_gate_ok la g events" "la_basis la = PB_cycle"
    and "kn = K_fused \<longrightarrow> dev_values_ok g events \<and> dev_luts_ok g"
  shows "leakage_kernel la g events (run_kernel kn la g events)"
  using assms kernel1All_leakage_kernel kernel1_2_leakage_kernel by (cases kn) (auto simp: fused_ok_def)

section \<open>Properties: launches\<close>


text \<open>The analysis in one round: the interval ends one cycle after the last time of the waveforms.\<close>

definition single_round :: "ScheduleConfig \<Rightarrow> SimEnv \<Rightarrow> Launch" where
  "single_round cfg env =
     (let u = time_unit_per_cycle (se_time_scale env) (se_clk_period env) in
      \<lparr>la_basis = PB_cycle, la_n_event_per_thread = (if sc_separate_kernels cfg then 1 else sc_n_event_per_thread cfg),
       la_n_thread_per_block = sc_n_thread_per_block cfg, la_start_period = 0 div u,
       la_end_period = (se_time_max env + u) div u, la_unit_per_cycle = u, la_max_time = se_time_max env,
       la_clk_period = se_clk_period env, la_time_scale = se_time_scale env\<rparr>)"

definition schedule_round ::
  "ScheduleConfig \<Rightarrow> SimEnv \<Rightarrow> nat list \<Rightarrow> (nat \<Rightarrow> nat) \<Rightarrow> DevGate list \<Rightarrow> power_error + Schedule" where
  "schedule_round cfg env =
     (let u = time_unit_per_cycle (se_time_scale env) (se_clk_period env)
      in scheduleKernelForEventAndCycleBasedPartition cfg u 0 (se_time_max env + u))"

definition config_ok :: "ScheduleConfig \<Rightarrow> bool" where
  "config_ok cfg \<longleftrightarrow> 0 < sc_n_thread_per_block cfg \<and> 0 < sc_n_event_per_thread cfg \<and>
     (sc_auto_cycles cfg \<or> 0 < sc_n_cycle_per_thread cfg)"

text \<open>A gate of the host and its device gate; the fused kernel needs values and tables that it can look up.\<close>

definition device_copy :: "Kernel \<Rightarrow> Launch \<Rightarrow> SimEnv \<Rightarrow> Event list \<Rightarrow> Gate \<Rightarrow> DevGate \<Rightarrow> bool" where
  "device_copy kn la env events hg g \<longleftrightarrow> gate_ok env hg \<and> same_gate env hg la g events \<and>
     (kn = K_fused \<longrightarrow> dev_values_ok g events \<and> dev_luts_ok g)"

lemma single_round_launch:
  assumes host: "gate_ok env hg" and cfg: "config_ok cfg"
    and sched: "schedule_round cfg env order junk gates = Inr sd" and i: "i < length gates"
  shows "launch_ok (single_round cfg env) (sd_gates sd ! i)" "whole_simulation (single_round cfg env)"
proof -
  define u where "u = time_unit_per_cycle (se_time_scale env) (se_clk_period env)"
  define m where "m = se_time_max env"
  have pos: "0 < u" "0 < m"
    using host by (auto simp: gate_ok_def u_def m_def time_unit_per_cycle_def)
  have div: "(m + u) div u = m div u + 1" "0 \<le> m div u" using pos by (auto simp: pos_imp_zdiv_nonneg_iff)
  show "launch_ok (single_round cfg env) (sd_gates sd ! i)"
  proof (rule schedule_launch_ok)
    show "scheduleKernelForEventAndCycleBasedPartition cfg u 0 (m + u) order junk gates = Inr sd"
      using sched by (simp add: schedule_round_def Let_def u_def m_def)
  qed (use cfg i pos div in \<open>auto simp: single_round_def Let_def u_def m_def config_ok_def\<close>)
  have "m div u * u \<le> m" "m \<le> (m div u + 1) * u"
    using mult_le_iff_le_div [OF pos(1), of "m div u" m] mult_le_iff_le_div [OF pos(1), of "m div u + 1" m] by simp_all
  then show "whole_simulation (single_round cfg env)"
    using div by (simp add: whole_simulation_def single_round_def Let_def u_def [symmetric] m_def [symmetric])
qed

lemma inverter_copy: "device_copy K_fused (single_round dev_config inverter_env) inverter_env dev_events inverter dev_inverter"
proof -
  have u: "time_unit_per_cycle (1 / 2) 2 = 4" by (simp add: time_unit_per_cycle_def)
  have "same_gate inverter_env inverter (single_round dev_config inverter_env) dev_inverter dev_events"
    by (simp add: same_gate_def single_round_def inverter_env_def inverter_def inverter_pin_def dev_inverter_def dev_events_def
        same_pin_def Let_def upt_rec)
  moreover have "dev_values_ok dev_inverter dev_events" "dev_luts_ok dev_inverter" by code_simp+
  ultimately show ?thesis using inverter_ok by (simp add: device_copy_def)
qed

section \<open>Properties: every kernel returns\<close>

lemma thread_range_bounds:
  assumes launch: "launch_ok la g" and inside: "(la_end_period la - 1) * la_unit_per_cycle la \<le> la_max_time la"
    and r: "thread_range la g events k = Some (a, b)"
  shows "a \<le> b" "a \<le> la_max_time la"
proof -
  define S where "S = la_start_period la"
  define E where "E = la_end_period la"
  define u where "u = la_unit_per_cycle la"
  obtain p q where pq: "thread_periods la g events k = (p, q)" by fastforce
  have ok: "0 < u" "S < E" "0 < dg_n_cycle_per_thread g" using launch by (auto simp: launch_ok_def S_def E_def u_def)
  have ab: "p \<noteq> q" "a = p * u" "b = q * u + (if q = E then 1 else 0)"
    using r pq by (auto simp: thread_range_def u_def E_def split: if_splits)
  have "p \<le> q \<and> p < E"
  proof (cases "la_basis la")
    case PB_event
    define n where "n = nat (la_n_event_per_thread la)"
    have n: "la_n_event_per_thread la = int n" using launch by (simp add: launch_ok_def n_def)
    have pq': "p = getCycleIndexByAccuEventCount g events (int k * int n) S (max S E) u"
        "q = getCycleIndexByAccuEventCount g events (int (Suc k) * int n) S (max S E) u"
      using pq PB_event ok(2) by (auto simp: thread_periods_def n S_def E_def u_def add.commute max_def)
    have "p \<le> q" unfolding pq' by (rule event_cuts.cut_step)
    moreover have "q \<le> E" using lower_bound_loop_bounds [of S E] ok(2) by (simp add: pq' getCycleIndexByAccuEventCount_def)
    ultimately show ?thesis using ab(1) by simp
  next
    case PB_cycle
    have "k < nat (ceil_div (E - S) (dg_n_cycle_per_thread g))"
      using thread_range_less [OF r] launch PB_cycle by (simp add: gate_threads_def launch_ok_def S_def E_def)
    then have "int k * dg_n_cycle_per_thread g < E - S" using ok(2,3) by (intro ceil_div_least) auto
    then show ?thesis using pq PB_cycle ok(3) by (auto simp: thread_periods_def S_def algebra_simps)
  qed
  then have "p * u \<le> q * u" "p * u \<le> (E - 1) * u" using ok(1) by (auto intro: mult_right_mono)
  then show "a \<le> b" "a \<le> la_max_time la" using inside ab by (auto simp: E_def u_def)
qed

text \<open>An index of the flattened events names an event of a pin.\<close>

lemma flattened_event_bounds:
  "flattened_event g n base is = Some (i, e) \<Longrightarrow> base \<le> n \<Longrightarrow>
     i \<in> set is \<and> has_waveform g i \<and> dg_pin_waveform_starts g ! i \<le> e \<and> e < dg_pin_waveform_ends g ! i"
  by (induction g n base "is" rule: flattened_event.induct) (auto simp: waveform_size_def split: if_splits)

lemma state_seen_ok:
  assumes ok: "fused_ok la g events" and p: "p < dg_n_pin g"
  shows "state_seen g events t e p \<in> {0, 1, 2}"
proof (cases "has_waveform g p")
  case True
  have gate: "dev_gate_ok la g events" and vals: "dev_values_ok g events" using ok by (auto simp: fused_ok_def)
  define s where "s = dg_pin_waveform_starts g ! p"
  define f where "f = dg_pin_waveform_ends g ! p"
  define pos where "pos = getEventIdxByTime_dev events s f t False"
  have sf: "s < f" "s \<le> pos" "pos \<le> f"
    using dev_gate_wave [OF gate p] True event_idx_bounds [of events s f t False] by (auto simp: s_def f_def pos_def)
  have val: "ev_val (events ! nat j) \<in> {0, 1, 2}" if "s \<le> j" "j < f" for j
    using dev_value [OF vals p True] that by (simp add: s_def f_def)
  define same where "same = takeWhile (\<lambda>i. i < f \<and> ev_time (events ! nat i) = t \<and> i < e) [pos..f]"
  have "state_before g events t p \<in> {0, 1, 2}"
    using True sf val [of "pos - 1"] val [of s] by (simp add: state_before_def Let_def s_def f_def pos_def)
  moreover have "ev_val (events ! nat (last same)) \<in> {0, 1, 2}" if "same \<noteq> []"
  proof -
    have "last same \<in> set same" using that by (rule last_in_set)
    then have "last same < f \<and> pos \<le> last same" unfolding same_def using set_takeWhileD by fastforce
    then show ?thesis using val sf by simp
  qed
  ultimately show ?thesis using True by (simp add: state_seen_def Let_def same_def s_def f_def pos_def)
next
  case False
  then show ?thesis by (auto simp: state_seen_def getPinDefaultState_def Let_def split: option.splits)
qed

lemma kernel1_1_returns:
  assumes ok: "fused_ok la g events"
  shows "\<exists>r. kernel1_1 la g events k = Inr r"
proof -
  have "\<exists>r. event_energy la g events i e = Inr r"
    if ie: "i < dg_n_pin g" "has_waveform g i" "dg_pin_waveform_starts g ! i \<le> e" "e < dg_pin_waveform_ends g ! i" for i e
  proof -
    have gate: "dev_gate_ok la g events" and vals: "dev_values_ok g events" and luts: "dev_luts_ok g"
      using ok by (auto simp: fused_ok_def)
    define t where "t = ev_time (events ! nat e)"
    define new where "new = ev_val (events ! nat e)"
    define prev where "prev = map (state_seen g events t e) [0..<dg_n_pin g]"
    have new: "new \<in> {0, 1, 2}" using dev_value [OF vals ie] by (simp add: new_def)
    have prev: "prev ! i \<in> {0, 1, 2}" using state_seen_ok [OF ok ie(1)] ie(1) by (simp add: prev_def)
    note tables = toggle_returns [OF prev new] edge_returns [OF prev new] rise_returns [OF prev new]
    show ?thesis
    proof (cases "i < dg_n_input_pin g")
      case True
      show ?thesis using tables True input_energy_returns [OF luts True, of prev "getRiseFallEdge (prev ! i) new"]
        by (auto simp: event_energy_def Let_def t_def [symmetric] new_def [symmetric] prev_def [symmetric])
    next
      case False
      then show ?thesis
        using tables output_energy_returns [OF gate vals luts _ ie(1), of t "getRiseFallEdge (prev ! i) new" "map (state_before g events t) [0..<dg_n_pin g]"]
        by (auto simp: event_energy_def Let_def t_def [symmetric] new_def [symmetric] prev_def [symmetric])
    qed
  qed
  then show ?thesis
    using flattened_event_bounds [of g "int k" 0 "[0..<dg_n_pin g]"]
    by (auto simp: kernel1_1_def mapFlattenedEventToPinAndEventIdx_def Let_def split: option.splits)
qed

text \<open>C9: On a gate with ordered waveforms of the values 0, 1 and X and complete tables, every thread of every kernel
  ends and returns: no loop runs out of its fuel, no assertion fails and no table is missing, whatever the interval
  of the launch, and for the fused kernel whatever the partition.\<close>

theorem kernels_return:
  assumes launch: "launch_ok la g" and ok: "fused_ok la g events"
    and inside: "(la_end_period la - 1) * la_unit_per_cycle la \<le> la_max_time la"
    and basis: "kn = K_leakage \<longrightarrow> la_basis la = PB_cycle"
  shows "\<exists>r. run_kernel kn la g events k = Inr r"
proof (cases "kn = K_dynamic")
  case True
  then show ?thesis using kernel1_1_returns [OF ok] by simp
next
  case False
  then have "leakage_kernel la g events (run_kernel kn la g events)"
    using basis kernel1All_leakage_kernel [OF ok] kernel1_2_leakage_kernel [of la g events] ok
    by (cases kn) (auto simp: fused_ok_def)
  moreover have "a \<le> b \<and> a \<le> la_max_time la" if "thread_range la g events k = Some (a, b)" for a b
    using thread_range_bounds [OF launch inside that] by simp
  ultimately show ?thesis by (cases "thread_range la g events k") (fastforce simp: leakage_kernel_def)+
qed

theorem kernels_return_witness:
  "(\<exists>r. run_kernel K_fused (dev_launch PB_event) dev_inverter dev_events 1 = Inr r) \<and>
   (\<exists>r. run_kernel K_leakage (dev_launch PB_cycle) dev_inverter dev_events 0 = Inr r) \<and>
   (\<exists>r. run_kernel K_dynamic (dev_launch PB_event) dev_inverter dev_events 4 = Inr r)"
proof -
  have ok: "fused_ok (dev_launch basis) dev_inverter dev_events" for basis
  proof -
    have "dev_gate_ok (dev_launch PB_event) dev_inverter dev_events" "dev_gate_ok (dev_launch PB_cycle) dev_inverter dev_events"
        "dev_values_ok dev_inverter dev_events" "dev_luts_ok dev_inverter" by code_simp+
    then show ?thesis by (cases basis) (simp_all add: fused_ok_def)
  qed
  have "(la_end_period (dev_launch basis) - 1) * la_unit_per_cycle (dev_launch basis) \<le> la_max_time (dev_launch basis)" for basis
    by (simp add: dev_launch_def)
  then show ?thesis
    using kernels_return [OF dev_inverter_ok(1) ok, of PB_event K_fused 1] kernels_return [OF dev_inverter_ok(1) ok, of PB_cycle K_leakage 0]
      kernels_return [OF dev_inverter_ok(1) ok, of PB_event K_dynamic 4] by (simp add: dev_launch_def)
qed

end
