(* ===== verification/GTP_CudaWave.thy ===== *)
theory GTP_CudaWave
  imports GTP_CudaHost
begin

text \<open>
  The rounds of the device and its event buffer: the intervals of whole cycles that hold about as many events as the
  buffer (\<open>CudaPower::getTimeIntervalsByCycle\<close>, \<open>util/VcdHelper.hh\<close>), the slice of every waveform that a round
  copies into the buffer and the range of every pin in it (\<open>CudaPower::getGateWaveformRangeMultiThread\<close>).
\<close>

section \<open>Intervals\<close>

fun getVarBusWidth :: "VcdValue list \<Rightarrow> int" where
  "getVarBusWidth [] = 0"
| "getVarBusWidth [v] = vv_width v"
| "getVarBusWidth (v # w # vals) = max (vv_width v) (vv_width w)"

text \<open>The total asks for the values of every variable, so an unknown variable ends the computation here.\<close>

definition getTotalBusWidthOfAllVars :: "Vcd \<Rightarrow> vcd_error + int" where
  "getTotalBusWidthOfAllVars v =
     res_bind (res_map (\<lambda>var. vcd_values var v) (vcd_vars v)) (\<lambda>vals. Inr (sum_list (map getVarBusWidth vals)))"

definition values_of :: "Vcd \<Rightarrow> VcdVar \<Rightarrow> VcdValue list" where
  "values_of v var = (case vcd_id_values v (vr_id var) of Some vals \<Rightarrow> vals | None \<Rightarrow> [])"

text \<open>The first change from \<open>left\<close> on that is not before a time.\<close>

definition getEventIdxByTime_from :: "VcdValue list \<Rightarrow> int \<Rightarrow> int \<Rightarrow> int" where
  "getEventIdxByTime_from vals time left =
     lower_bound_loop (\<lambda>mid. vv_time (vals ! nat mid) < time) left (int (length vals))"

definition getAccuEventCountOfAllGates :: "Vcd \<Rightarrow> int \<Rightarrow> int" where
  "getAccuEventCountOfAllGates v time =
     sum_list (map (\<lambda>var. getEventIdxByTime_from (values_of v var) time 0 * getVarBusWidth (values_of v var)) (vcd_vars v))"

definition getCycleIntervalBoudary :: "Vcd \<Rightarrow> int \<Rightarrow> int \<Rightarrow> int \<Rightarrow> int \<Rightarrow> int" where
  "getCycleIntervalBoudary v n_period unit_per_cycle accu_event_count left =
     lower_bound_loop (\<lambda>mid. getAccuEventCountOfAllGates v (mid * unit_per_cycle) < accu_event_count) left n_period"

text \<open>The boundaries so far, and the next one for as many events as intervals; the loop may not end.\<close>

partial_function (option) boundaries_loop :: "(int \<Rightarrow> int \<Rightarrow> int) \<Rightarrow> int \<Rightarrow> int \<Rightarrow> int list \<Rightarrow> int list option" where
  "boundaries_loop bound n_event_per_interval n_period bs =
     (let right = bound (n_event_per_interval * int (length bs)) (last bs) in
      if n_period \<le> right then Some (bs @ [right])
      else boundaries_loop bound n_event_per_interval n_period (bs @ [right]))"

definition boundary_intervals :: "int \<Rightarrow> int list \<Rightarrow> (int \<times> int) list" where
  "boundary_intervals unit_per_cycle bs =
     (let ivs = map (\<lambda>(l, r). (l * unit_per_cycle, r * unit_per_cycle)) (zip (butlast bs) (tl bs))
      in butlast ivs @ [(fst (last ivs), snd (last ivs) + 1)])"

definition getTimeIntervalsByCycle :: "int \<Rightarrow> int \<Rightarrow> int \<Rightarrow> Vcd \<Rightarrow> vcd_error + (int \<times> int) list option" where
  "getTimeIntervalsByCycle max_event_num n_period unit_per_cycle v =
     res_bind (getTotalBusWidthOfAllVars v) (\<lambda>total_bus_width.
       if max_event_num < 2 * total_bus_width + 1 then Inl VcdAssertFailed
       else Inr (map_option (boundary_intervals unit_per_cycle)
              (boundaries_loop (getCycleIntervalBoudary v n_period unit_per_cycle)
                 (max_event_num - total_bus_width - 1) n_period [0])))"

section \<open>Slices of the waveforms\<close>

text \<open>An array of value changes, by its position among the arrays, and a bit of it.\<close>

type_synonym BitKey = "nat \<times> int"

definition vcdValueToEventValTable :: "char \<Rightarrow> VcdEventVal" where
  "vcdValueToEventValTable c =
     (if c = CHR ''0'' then 0 else if c = CHR ''1'' then 1 else if c = CHR ''X'' \<or> c = CHR ''x'' then 2
      else if c = CHR ''Z'' \<or> c = CHR ''z'' then 3 else 255)"

text \<open>
  The changes of an array that a round copies: from the last one of the round before, which gives the state at the
  start, to the end of the interval.
\<close>

definition pair_range :: "int \<Rightarrow> int \<Rightarrow> int \<Rightarrow> VcdValue list \<Rightarrow> int \<Rightarrow> int \<times> int" where
  "pair_range max_event_time start_time end_time vals prev_right_bound =
     (let is_first = (start_time = 0) in
      (if is_first then 0 else if 0 < prev_right_bound then prev_right_bound - 1 else 0,
       if max_event_time \<le> end_time then int (length vals)
       else getEventIdxByTime_from vals end_time (if is_first then 0 else prev_right_bound)))"

definition n_in_range :: "int \<times> int \<Rightarrow> int" where
  "n_in_range r = (if fst r \<le> snd r then snd r - fst r else 0)"

fun buffer_offsets :: "int \<Rightarrow> (int \<times> int) list \<Rightarrow> (int \<times> int) list" where
  "buffer_offsets off [] = []"
| "buffer_offsets off (r # rs) = (off, off + n_in_range r) # buffer_offsets (off + n_in_range r) rs"

definition pair_event :: "VcdValue list \<Rightarrow> int \<Rightarrow> int \<Rightarrow> power_error + Event" where
  "pair_event vals bit_idx pos =
     (case vv_value_bit (vals ! nat pos) bit_idx of
        None \<Rightarrow> Inl StateOutOfRange
      | Some c \<Rightarrow> Inr \<lparr>ev_time = vv_time (vals ! nat pos), ev_val = vcdValueToEventValTable c\<rparr>)"

definition pair_events :: "VcdValue list \<Rightarrow> int \<Rightarrow> int \<times> int \<Rightarrow> power_error + Event list" where
  "pair_events vals bit_idx r = res_map (pair_event vals bit_idx) [fst r..snd r - 1]"

record WaveRound =
  wr_events :: "Event list"
  wr_ranges :: "(BitKey \<times> int \<times> int) list"
  wr_bounds :: "BitKey \<rightharpoonup> int"

text \<open>
  The used pairs are those with a right bound of the round before; the others belong to no pin. The buffer holds the
  slices one after the other, and the rest of it, which no range names, is left out here.
\<close>

definition getGateWaveformRangeMultiThread ::
  "int \<Rightarrow> int \<Rightarrow> VcdValue list list \<Rightarrow> BitKey list \<Rightarrow> int \<Rightarrow> int \<Rightarrow> (BitKey \<rightharpoonup> int) \<Rightarrow> power_error + WaveRound" where
  "getGateWaveformRangeMultiThread max_event_num max_event_time arrays pairs start_time end_time bounds =
     (let used = filter (\<lambda>p. bounds p \<noteq> None) pairs;
          ranges = map (\<lambda>p. pair_range max_event_time start_time end_time (arrays ! fst p) (the (bounds p))) used;
          offsets = buffer_offsets 0 ranges
      in if max_event_num < sum_list (map n_in_range ranges) then Inl AssertFailed
         else res_bind (res_map (\<lambda>(p, r). pair_events (arrays ! fst p) (snd p) r) (zip used ranges)) (\<lambda>events.
           Inr \<lparr>wr_events = concat events, wr_ranges = zip used offsets,
                wr_bounds = (\<lambda>p. case map_of (zip used ranges) p of Some r \<Rightarrow> Some (snd r) | None \<Rightarrow> bounds p)\<rparr>))"

text \<open>The range of a pin: that of its pair, none for a pin without an array.\<close>

definition pin_range :: "WaveRound \<Rightarrow> BitKey option \<Rightarrow> int \<times> int" where
  "pin_range wr key = (case Option.bind key (map_of (wr_ranges wr)) of Some r \<Rightarrow> r | None \<Rightarrow> (-1, -1))"

text \<open>A gate takes the ranges of its pins.\<close>

definition renewWaveformPointers :: "WaveRound \<Rightarrow> BitKey option list \<Rightarrow> DevGate \<Rightarrow> DevGate" where
  "renewWaveformPointers wr keys g =
     g\<lparr>dg_pin_waveform_starts := map (\<lambda>k. fst (pin_range wr k)) keys,
       dg_pin_waveform_ends := map (\<lambda>k. snd (pin_range wr k)) keys\<rparr>"
section \<open>Lemmas: the boundaries\<close>

text \<open>
  For a count of events \<open>A\<close> up to a cycle: boundary \<open>k\<close> is the first cycle from the boundary before with \<open>n * k\<close>
  events before it, or the last cycle.
\<close>

definition boundaries_inv :: "(int \<Rightarrow> int) \<Rightarrow> int \<Rightarrow> int \<Rightarrow> int list \<Rightarrow> bool" where
  "boundaries_inv A n N bs \<longleftrightarrow> bs \<noteq> [] \<and> hd bs = 0 \<and> set bs \<subseteq> {0..N} \<and>
     (\<forall>k. Suc k < length bs \<longrightarrow> bs ! k \<le> bs ! Suc k \<and>
        (\<forall>p. bs ! k \<le> p \<and> p < bs ! Suc k \<longrightarrow> A p < n * int (Suc k)) \<and>
        (bs ! Suc k < N \<longrightarrow> n * int (Suc k) \<le> A (bs ! Suc k)))"

lemma boundaries_inv_snoc:
  assumes inv: "boundaries_inv A n N bs" and r: "last bs \<le> r" "r \<le> N"
    and below: "\<And>p. last bs \<le> p \<Longrightarrow> p < r \<Longrightarrow> A p < n * int (length bs)"
    and above: "r < N \<Longrightarrow> n * int (length bs) \<le> A r"
  shows "boundaries_inv A n N (bs @ [r])"
proof -
  have bs: "bs \<noteq> []" "0 \<le> last bs" using inv last_in_set by (fastforce simp: boundaries_inv_def)+
  have step: "(bs @ [r]) ! k \<le> (bs @ [r]) ! Suc k \<and>
      (\<forall>p. (bs @ [r]) ! k \<le> p \<and> p < (bs @ [r]) ! Suc k \<longrightarrow> A p < n * int (Suc k)) \<and>
      ((bs @ [r]) ! Suc k < N \<longrightarrow> n * int (Suc k) \<le> A ((bs @ [r]) ! Suc k))" if k: "Suc k < length (bs @ [r])" for k
  proof (cases "Suc k < length bs")
    case True
    then show ?thesis using inv by (auto simp: boundaries_inv_def nth_append)
  next
    case False
    then have len: "length bs = Suc k" using k by simp
    then have "(bs @ [r]) ! k = last bs" "(bs @ [r]) ! Suc k = r" using bs(1) by (simp_all add: nth_append last_conv_nth)
    then show ?thesis using r(1) below above unfolding len by simp
  qed
  show ?thesis using inv bs r step by (auto simp: boundaries_inv_def)
qed

lemma boundaries_loop_spec:
  assumes n: "0 < n" and mono: "\<And>p q. 0 \<le> p \<Longrightarrow> p \<le> q \<Longrightarrow> q \<le> N \<Longrightarrow> A p \<le> A q"
    and bound: "\<And>bs. boundaries_inv A n N bs \<Longrightarrow>
      bound (n * int (length bs)) (last bs) = lower_bound_loop (\<lambda>p. A p < n * int (length bs)) (last bs) N"
  shows "boundaries_inv A n N bs \<Longrightarrow>
    \<exists>bs'. boundaries_loop bound n N bs = Some bs' \<and> boundaries_inv A n N bs' \<and> last bs' = N \<and> 2 \<le> length bs'"
proof (induction "nat (A N + n - n * int (length bs))" arbitrary: bs rule: less_induct)
  case less
  define r where "r = bound (n * int (length bs)) (last bs)"
  have bs: "bs \<noteq> []" "0 \<le> last bs" "last bs \<le> N" using less.prems last_in_set by (fastforce simp: boundaries_inv_def)+
  have sp: "search_predicate (\<lambda>p. A p < n * int (length bs)) (last bs) N"
  proof
    fix i j assume ij: "last bs \<le> i" "i \<le> j" "j < N" "A j < n * int (length bs)"
    then have "A i \<le> A j" using bs(2) by (intro mono) auto
    then show "A i < n * int (length bs)" using ij by simp
  qed (rule bs(3))
  have r: "last bs \<le> r" "r \<le> N" and iff: "\<And>p. last bs \<le> p \<Longrightarrow> p < N \<Longrightarrow> A p < n * int (length bs) \<longleftrightarrow> p < r"
    using search_predicate.search_bounds [OF sp] search_predicate.search_iff [OF sp] by (auto simp: r_def bound [OF less.prems])
  have above: "n * int (length bs) \<le> A r" if "r < N" using iff [of r] r that by simp
  have inv: "boundaries_inv A n N (bs @ [r])"
    by (rule boundaries_inv_snoc [OF less.prems r]) (use iff r above in auto)
  show ?case
  proof (cases "N \<le> r")
    case True
    then have "boundaries_loop bound n N bs = Some (bs @ [r])"
      by (subst boundaries_loop.simps) (simp add: r_def [symmetric])
    then show ?thesis using inv True r bs(1) by (cases bs) auto
  next
    case False
    have "A r \<le> A N" using bs r by (intro mono) auto
    then have "n * int (length bs) \<le> A N" using above False by simp
    then have "nat (A N + n - n * int (length (bs @ [r]))) < nat (A N + n - n * int (length bs))"
      using n by (simp add: algebra_simps)
    moreover have "boundaries_loop bound n N bs = boundaries_loop bound n N (bs @ [r])"
      using False by (subst boundaries_loop.simps) (simp add: r_def [symmetric])
    ultimately show ?thesis using less.hyps [OF _ inv] by simp
  qed
qed

text \<open>The intervals between the boundaries follow each other, and the last one ends a time unit later.\<close>

lemma boundary_intervals_nth:
  assumes "2 \<le> length bs"
  shows "length (boundary_intervals u bs) = length bs - 1"
    and "k < length bs - 1 \<Longrightarrow> boundary_intervals u bs ! k =
      (bs ! k * u, bs ! Suc k * u + (if k = length bs - 2 then 1 else 0))"
proof -
  define ivs where "ivs = map (\<lambda>(l, r). (l * u, r * u)) (zip (butlast bs) (tl bs))"
  have len: "length ivs = length bs - 1" by (simp add: ivs_def)
  have nth: "ivs ! k = (bs ! k * u, bs ! Suc k * u)" if "k < length bs - 1" for k
    using that by (simp add: ivs_def nth_butlast nth_tl)
  have b: "boundary_intervals u bs = butlast ivs @ [(fst (last ivs), snd (last ivs) + 1)]"
    by (simp add: boundary_intervals_def Let_def ivs_def)
  show "length (boundary_intervals u bs) = length bs - 1" using assms len by (simp add: b)
  have last: "last ivs = ivs ! (length bs - 2)" using assms len by (subst last_conv_nth) (auto simp: numeral_2_eq_2)
  show "boundary_intervals u bs ! k = (bs ! k * u, bs ! Suc k * u + (if k = length bs - 2 then 1 else 0))" if "k < length bs - 1"
  proof (cases "k = length bs - 2")
    case True
    obtain m where "length bs = Suc (Suc m)" using assms by (metis Suc_le_D numeral_2_eq_2 Suc_le_mono)
    then show ?thesis using True len nth [OF that] by (simp add: b nth_append last)
  next
    case False
    then have "k < length bs - 2" using that by simp
    then show ?thesis using False nth [OF that] len by (simp add: b nth_append nth_butlast numeral_2_eq_2)
  qed
qed

text \<open>Later times have at least as many events before them.\<close>

lemma events_from_mono:
  assumes "0 \<le> l" "l \<le> int (length vals)" "s \<le> t"
  shows "getEventIdxByTime_from vals s l \<le> getEventIdxByTime_from vals t l" "l \<le> getEventIdxByTime_from vals s l"
  unfolding getEventIdxByTime_from_def
  using lower_bound_loop_mono [of "\<lambda>mid. vv_time (vals ! nat mid) < s" "\<lambda>mid. vv_time (vals ! nat mid) < t"] assms by auto

definition widths_ok :: "Vcd \<Rightarrow> bool" where
  "widths_ok v \<longleftrightarrow> list_all (\<lambda>var. list_all (\<lambda>x. 0 \<le> vv_width x) (values_of v var)) (vcd_vars v)"

lemma bus_width_nonneg: "list_all (\<lambda>x. 0 \<le> vv_width x) vals \<Longrightarrow> 0 \<le> getVarBusWidth vals"
  by (induction vals rule: getVarBusWidth.induct) auto

lemma accu_all_mono:
  assumes "widths_ok v" "s \<le> t"
  shows "getAccuEventCountOfAllGates v s \<le> getAccuEventCountOfAllGates v t"
  unfolding getAccuEventCountOfAllGates_def
  using assms events_from_mono bus_width_nonneg
  by (intro sum_list_mono mult_right_mono) (auto simp: widths_ok_def list_all_iff)

lemma accu_all_nonneg:
  assumes "widths_ok v"
  shows "0 \<le> getAccuEventCountOfAllGates v t"
  unfolding getAccuEventCountOfAllGates_def
  using assms events_from_mono(2) [of 0 _ t t] bus_width_nonneg
  by (intro sum_list_nonneg) (auto simp: widths_ok_def list_all_iff intro!: mult_nonneg_nonneg)

section \<open>Properties: the rounds\<close>

text \<open>A variable with three changes over three cycles of four time units, and a buffer for one event per round.\<close>

definition wave_vals :: "VcdValue list" where
  "wave_vals = [\<lparr>vv_time = 0, vv_value = CHR ''0'', vv_bus = 0, vv_width = 1\<rparr>,
    \<lparr>vv_time = 5, vv_value = CHR ''1'', vv_bus = 0, vv_width = 1\<rparr>, \<lparr>vv_time = 9, vv_value = CHR ''0'', vv_bus = 0, vv_width = 1\<rparr>]"

definition wave_vcd :: Vcd where
  "wave_vcd = vcd_empty\<lparr>vcd_vars := [\<lparr>vr_name = ''a'', vr_type = VT_wire, vr_width = 1, vr_id = ''!''\<rparr>],
     vcd_id_values := [''!'' \<mapsto> wave_vals], vcd_time_max := 10\<rparr>"


section \<open>Lemmas: the buffer\<close>

lemma pair_events_length: "pair_events vals b r = Inr evs \<Longrightarrow> int (length evs) = n_in_range r"
  by (auto simp: pair_events_def n_in_range_def dest!: res_map_length)

text \<open>Each slice of the buffer is found at its offset.\<close>

lemma buffer_slice:
  "list_all2 (\<lambda>r es. int (length es) = n_in_range r) rs ess \<Longrightarrow> i < length rs \<Longrightarrow>
    (case buffer_offsets off rs ! i of (a, b) \<Rightarrow> off \<le> a \<and> b = a + int (length (ess ! i)) \<and>
      b \<le> off + int (length (concat ess)) \<and> take (length (ess ! i)) (drop (nat (a - off)) (concat ess)) = ess ! i)"
proof (induction rs ess arbitrary: i off rule: list_all2_induct)
  case (Cons r rs es ess)
  show ?case
  proof (cases i)
    case 0
    then show ?thesis using Cons.hyps by simp
  next
    case (Suc j)
    obtain a b where ab: "buffer_offsets (off + n_in_range r) rs ! j = (a, b)" by fastforce
    have j: "off + n_in_range r \<le> a" "b = a + int (length (ess ! j))"
        "b \<le> off + n_in_range r + int (length (concat ess))"
        "take (length (ess ! j)) (drop (nat (a - (off + n_in_range r))) (concat ess)) = ess ! j"
      using Cons.IH [of j "off + n_in_range r"] Cons.prems Suc ab by auto
    have "nat (a - off) = length es + nat (a - (off + n_in_range r))" using j(1) Cons.hyps(1) by simp
    moreover have "off \<le> a" using j(1) Cons.hyps(1) by simp
    ultimately show ?thesis using Suc ab j Cons.hyps(1) by simp
  qed
qed simp

lemma length_buffer_offsets [simp]: "length (buffer_offsets off rs) = length rs"
  by (induction rs arbitrary: off) auto

text \<open>The events of a pin in a round.\<close>

definition pin_slice :: "WaveRound \<Rightarrow> BitKey \<Rightarrow> Event list" where
  "pin_slice wr p = (let (a, b) = pin_range wr (Some p) in take (nat (b - a)) (drop (nat a) (wr_events wr)))"

lemma round_pin:
  assumes round: "getGateWaveformRangeMultiThread max_event_num max_time arrays pairs s e bounds = Inr wr"
    and p: "p \<in> set pairs" "bounds p = Some prb"
  defines "r \<equiv> pair_range max_time s e (arrays ! fst p) prb"
  shows "pair_events (arrays ! fst p) (snd p) r = Inr (pin_slice wr p)"
    and "wr_bounds wr p = Some (snd r)"
    and "\<exists>a. pin_range wr (Some p) = (a, a + int (length (pin_slice wr p))) \<and> 0 \<le> a \<and>
      a + int (length (pin_slice wr p)) \<le> int (length (wr_events wr))"
proof -
  define used where "used = filter (\<lambda>p. bounds p \<noteq> None) pairs"
  define range_of where "range_of = (\<lambda>p. pair_range max_time s e (arrays ! fst p) (the (bounds p)))"
  define offsets where "offsets = buffer_offsets 0 (map range_of used)"
  obtain ess where ess: "res_map (\<lambda>(p, r). pair_events (arrays ! fst p) (snd p) r) (zip used (map range_of used)) = Inr ess"
      and wr: "wr = \<lparr>wr_events = concat ess, wr_ranges = zip used offsets,
        wr_bounds = (\<lambda>p. case map_of (zip used (map range_of used)) p of Some r \<Rightarrow> Some (snd r) | None \<Rightarrow> bounds p)\<rparr>"
    using round by (auto simp: getGateWaveformRangeMultiThread_def Let_def used_def range_of_def offsets_def split: if_splits)
  have rel: "list_all2 (\<lambda>(p, r) es. pair_events (arrays ! fst p) (snd p) r = Inr es) (zip used (map range_of used)) ess"
    using res_map_list_all2 [OF ess] by (simp add: case_prod_beta')
  have len: "length ess = length used" using list_all2_lengthD [OF rel] by simp
  have at: "pair_events (arrays ! fst (used ! i)) (snd (used ! i)) (range_of (used ! i)) = Inr (ess ! i)" if "i < length used" for i
    using list_all2_nthD2 [OF rel, of i] that len by simp
  have "list_all2 (\<lambda>r es. int (length es) = n_in_range r) (map range_of used) ess"
    using at len by (auto simp: list_all2_conv_all_nth dest: pair_events_length)
  note slice = buffer_slice [OF this, of _ 0, folded offsets_def]
  have pu: "p \<in> set used" using p by (simp add: used_def)
  have "length used = length offsets" by (simp add: offsets_def)
  then obtain ab where ab: "map_of (zip used offsets) p = Some ab" using pu map_of_zip_is_Some [of used offsets p] by auto
  then have "(p, ab) \<in> set (zip used offsets)" by (rule map_of_SomeD)
  then obtain i where i: "i < length used" "used ! i = p" "offsets ! i = ab" by (auto simp: set_zip)
  obtain a b where "ab = (a, b)" by fastforce
  then have ab': "0 \<le> a" "b = a + int (length (ess ! i))" "b \<le> int (length (concat ess))"
      "take (length (ess ! i)) (drop (nat a) (concat ess)) = ess ! i" and pr: "pin_range wr (Some p) = (a, b)"
    using slice [of i] i ab by (auto simp: pin_range_def wr)
  have sl: "pin_slice wr p = ess ! i" using ab' pr by (simp add: pin_slice_def wr)
  have r: "range_of p = r" by (simp add: range_of_def r_def p(2))
  show "pair_events (arrays ! fst p) (snd p) r = Inr (pin_slice wr p)" using at [of i] i sl r by simp
  show "\<exists>a. pin_range wr (Some p) = (a, a + int (length (pin_slice wr p))) \<and> 0 \<le> a \<and>
      a + int (length (pin_slice wr p)) \<le> int (length (wr_events wr))"
    using ab' pr unfolding sl by (simp add: wr)
  obtain r' where r': "map_of (zip used (map range_of used)) p = Some r'"
    using pu map_of_zip_is_Some [of used "map range_of used" p] by auto
  then have "(p, r') \<in> set (zip used (map range_of used))" by (rule map_of_SomeD)
  then have "r' = range_of p" by (auto simp: set_zip)
  then show "wr_bounds wr p = Some (snd r)" using r' r by (simp add: wr)
qed
text \<open>The values of the host map are sent to the same states by the table of the device.\<close>

lemma value_maps_agree: "vcd_value_to_int c = Some x \<Longrightarrow> vcdValueToEventValTable c = x"
  by (auto simp: vcd_value_to_int_def vcdValueToEventValTable_def split: if_splits)

lemma pair_events_nth:
  assumes "pair_events vals b r = Inr evs" "i < length evs" "0 \<le> fst r"
  shows "pair_event vals b (fst r + int i) = Inr (evs ! i)"
proof -
  have rel: "list_all2 (\<lambda>pos e. pair_event vals b pos = Inr e) [fst r..snd r - 1] evs"
    using assms(1) unfolding pair_events_def by (rule res_map_list_all2)
  have i: "i < length [fst r..snd r - 1]" using list_all2_lengthD [OF rel] assms(2) by simp
  then show ?thesis using list_all2_nthD [OF rel i] by (simp add: nth_upto)
qed

lemma pair_event_time: "pair_event vals b pos = Inr e \<Longrightarrow> ev_time e = vv_time (vals ! nat pos)"
  by (auto simp: pair_event_def split: option.splits)

lemma pin_events_nth:
  assumes "pin_events vals b = Some evs"
  shows "length evs = length vals"
    and "i < length vals \<Longrightarrow> pair_event vals b (int i) = Inr e \<Longrightarrow> (ev_time e, ev_val e) = evs ! i"
proof -
  have len: "length ys = length xs" if "those (map f xs) = Some ys" for f :: "VcdValue \<Rightarrow> (int \<times> VcdEventVal) option" and xs ys
    using that by (induction xs arbitrary: ys) (auto split: option.splits)
  have nth: "f (xs ! i) = Some (ys ! i)" if "those (map f xs) = Some ys" "i < length xs"
    for f :: "VcdValue \<Rightarrow> (int \<times> VcdEventVal) option" and xs ys i
    using that by (induction xs arbitrary: ys i) (auto simp: nth_Cons' split: option.splits)
  note t = assms [unfolded pin_events_def]
  show "length evs = length vals" by (rule len [OF t])
  assume i: "i < length vals" and e: "pair_event vals b (int i) = Inr e"
  obtain c where c: "vv_value_bit (vals ! i) b = Some c"
      "e = \<lparr>ev_time = vv_time (vals ! i), ev_val = vcdValueToEventValTable c\<rparr>"
    using e by (auto simp: pair_event_def split: option.splits)
  have "map_option (Pair (vv_time (vals ! i))) (vcd_value_to_int c) = Some (evs ! i)"
    using nth [OF t i] c(1) by simp
  then show "(ev_time e, ev_val e) = evs ! i" using c(2) value_maps_agree by fastforce
qed

section \<open>Properties: the buffer\<close>



section \<open>Lemmas: the rounds of a waveform\<close>

text \<open>The rounds of the analysis, each with the right bounds of the one before.\<close>

fun fill_rounds ::
  "(int \<Rightarrow> int \<Rightarrow> (BitKey \<rightharpoonup> int) \<Rightarrow> power_error + WaveRound) \<Rightarrow> (BitKey \<rightharpoonup> int) \<Rightarrow> (int \<times> int) list \<Rightarrow>
    power_error + WaveRound list" where
  "fill_rounds fill bounds [] = Inr []"
| "fill_rounds fill bounds ((s, e) # ivs) =
     res_bind (fill s e bounds) (\<lambda>wr. res_bind (fill_rounds fill (wr_bounds wr) ivs) (\<lambda>wrs. Inr (wr # wrs)))"

abbreviation analysis_rounds ::
  "int \<Rightarrow> int \<Rightarrow> VcdValue list list \<Rightarrow> BitKey list \<Rightarrow> (BitKey \<rightharpoonup> int) \<Rightarrow> (int \<times> int) list \<Rightarrow> power_error + WaveRound list" where
  "analysis_rounds max_event_num max_event_time arrays pairs \<equiv>
     fill_rounds (getGateWaveformRangeMultiThread max_event_num max_event_time arrays pairs)"

definition n_before :: "('a \<Rightarrow> int) \<Rightarrow> 'a list \<Rightarrow> int \<Rightarrow> nat" where
  "n_before f vals t = length (filter (\<lambda>v. f v < t) vals)"

lemma n_before_none:
  assumes "sorted_wrt (<) (map f (v # vals))" "t \<le> f v"
  shows "n_before f (v # vals) t = 0"
proof -
  have "t \<le> f x" if "x \<in> set (v # vals)" for x using assms that by force
  then have "filter (\<lambda>x. f x < t) (v # vals) = []" by (auto simp: filter_empty_conv not_less)
  then show ?thesis by (simp add: n_before_def del: filter.simps)
qed

lemma n_before_iff:
  assumes "sorted_wrt (<) (map f vals)" "i < length vals"
  shows "f (vals ! i) < t \<longleftrightarrow> i < n_before f vals t"
  using assms
proof (induction vals arbitrary: i)
  case (Cons v vals)
  show ?case
  proof (cases "f v < t")
    case True
    then show ?thesis using Cons by (cases i) (auto simp: n_before_def)
  next
    case False
    have "f v \<le> f ((v # vals) ! i)" using Cons.prems by (cases i) (auto simp: less_imp_le)
    then show ?thesis using False n_before_none [OF Cons.prems(1), of t] by simp
  qed
qed simp

lemma n_before_le: "n_before f vals t \<le> length vals"
  by (simp add: n_before_def)

lemma idx_from_n_before:
  assumes sorted: "sorted_wrt (<) (map vv_time vals)" and l: "0 \<le> l" "l \<le> int (n_before vv_time vals t)"
  shows "getEventIdxByTime_from vals t l = int (n_before vv_time vals t)"
proof -
  have at: "vv_time (vals ! nat i) < t \<longleftrightarrow> i < int (n_before vv_time vals t)" if "0 \<le> i" "i < int (length vals)" for i
    using n_before_iff [OF sorted, of "nat i" t] that by (simp add: nat_less_iff)
  have sp: "search_predicate (\<lambda>mid. vv_time (vals ! nat mid) < t) l (int (length vals))"
    using at l n_before_le [of vv_time vals t] by unfold_locales auto
  define r where "r = getEventIdxByTime_from vals t l"
  have r: "l \<le> r" "r \<le> int (length vals)"
    using search_predicate.search_bounds [OF sp] by (simp_all add: r_def getEventIdxByTime_from_def)
  have iff: "i < int (n_before vv_time vals t) \<longleftrightarrow> i < r" if "l \<le> i" "i < int (length vals)" for i
    using search_predicate.search_iff [OF sp that] at [of i] that l by (simp add: r_def getEventIdxByTime_from_def)
  have "\<not> r < int (n_before vv_time vals t)" using iff [of r] r n_before_le [of vv_time vals t] by auto
  moreover have "\<not> int (n_before vv_time vals t) < r" using iff [of "int (n_before vv_time vals t)"] r l by auto
  ultimately show ?thesis by (simp add: r_def)
qed

text \<open>The changes from one count to another are those of the times between.\<close>

lemma window_filter:
  assumes "sorted_wrt (<) (map f vals)" "s \<le> t"
  shows "take (n_before f vals t - n_before f vals s) (drop (n_before f vals s) vals) = filter (\<lambda>v. s \<le> f v \<and> f v < t) vals"
  using assms
proof (induction vals)
  case (Cons v vals)
  have later: "f v < f x" if "x \<in> set vals" for x using Cons.prems(1) that by simp
  consider "f v < s" | "s \<le> f v" "f v < t" | "t \<le> f v" by linarith
  then show ?case
  proof cases
    case 1
    then show ?thesis using Cons by (simp add: n_before_def)
  next
    case 2
    have none: "filter (\<lambda>v. f v < s) vals = []" using later 2 by (force simp: filter_empty_conv)
    then show ?thesis using Cons 2 by (simp add: n_before_def)
  next
    case 3
    have "filter (\<lambda>v. f v < s) (v # vals) = []" "filter (\<lambda>v. f v < t) (v # vals) = []"
        "filter (\<lambda>u. s \<le> f u \<and> f u < t) (v # vals) = []"
      using later 3 Cons.prems(2) by (force simp: filter_empty_conv)+
    then show ?thesis by (simp add: n_before_def del: filter.simps)
  qed
qed simp

text \<open>
  The intervals of the rounds from a time on: each starts where the one before ends, and only the last one reaches
  the last time of the waveforms.
\<close>

fun rounds_from :: "int \<Rightarrow> int \<Rightarrow> (int \<times> int) list \<Rightarrow> bool" where
  "rounds_from max_event_time t [] \<longleftrightarrow> False"
| "rounds_from max_event_time t [(s, e)] \<longleftrightarrow> s = t \<and> s \<le> e \<and> max_event_time < e"
| "rounds_from max_event_time t ((s, e) # iv # ivs) \<longleftrightarrow>
     s = t \<and> s \<le> e \<and> 0 < e \<and> e < max_event_time \<and> rounds_from max_event_time e (iv # ivs)"

lemma n_before_map:
  assumes "map f xs = map g ys"
  shows "n_before f xs t = n_before g ys t"
proof -
  have "map f xs = map g ys \<Longrightarrow> n_before f xs t = n_before g ys t"
  proof (induction xs arbitrary: ys)
    case (Cons x xs)
    then show ?case by (cases ys) (auto simp: n_before_def)
  qed (simp add: n_before_def)
  then show ?thesis using assms .
qed

lemma n_before_mono: "s \<le> t \<Longrightarrow> n_before f xs s \<le> n_before f xs t"
  unfolding n_before_def by (induction xs) auto

lemma filter_before: "sorted_wrt (<) (map f xs) \<Longrightarrow> filter (\<lambda>x. f x < t) xs = take (n_before f xs t) xs"
proof (induction xs)
  case (Cons x xs)
  show ?case
  proof (cases "f x < t")
    case True
    then show ?thesis using Cons by (simp add: n_before_def)
  next
    case False
    then have "n_before f (x # xs) t = 0" using n_before_none [OF Cons.prems] by simp
    then show ?thesis by (simp add: n_before_def)
  qed
qed simp

lemma n_before_start: "wave_wf vals \<Longrightarrow> n_before vv_time vals 0 = 0"
  using n_before_none [of vv_time "hd vals" "tl vals" 0] by (cases vals) (auto simp: wave_wf_def n_before_def)

lemma pair_events_times:
  assumes "pair_events vals b (0, int (length vals)) = Inr evs"
  shows "map ev_time evs = map vv_time vals"
proof (rule nth_equalityI)
  show "length (map ev_time evs) = length (map vv_time vals)" using pair_events_length [OF assms] by (simp add: n_in_range_def)
  then show "map ev_time evs ! i = map vv_time vals ! i" if "i < length (map ev_time evs)" for i
    using pair_event_time [OF pair_events_nth [OF assms, of i]] that by simp
qed

text \<open>A slice is a part of the events of the whole waveform.\<close>

lemma pair_events_part:
  assumes part: "pair_events vals b (int m, int n) = Inr sl" and whole: "pair_events vals b (0, int (length vals)) = Inr evs"
    and "m \<le> n" "n \<le> length vals"
  shows "sl = take (n - m) (drop m evs)"
proof (rule nth_equalityI)
  have len: "length sl = n - m" "length evs = length vals"
    using pair_events_length [OF part] pair_events_length [OF whole] assms(3) by (auto simp: n_in_range_def)
  then show "length sl = length (take (n - m) (drop m evs))" using assms(3,4) by simp
  show "sl ! i = take (n - m) (drop m evs) ! i" if i: "i < length sl" for i
  proof -
    have "pair_event vals b (int (m + i)) = Inr (sl ! i)" using pair_events_nth [OF part i] by simp
    moreover have "pair_event vals b (int (m + i)) = Inr (evs ! (m + i))"
      using pair_events_nth [OF whole, of "m + i"] i len assms(3,4) by simp
    ultimately show ?thesis using i len assms(3,4) by simp
  qed
qed

text \<open>The range of a round: the changes of its interval, after the last change before it.\<close>

lemma round_range:
  assumes wf: "wave_wf vals" "vals \<noteq> []" and late: "\<forall>v \<in> set vals. vv_time v \<le> max_time"
    and se: "0 \<le> s" "s \<le> e" "e < max_time \<or> max_time < e" and prb: "0 < s \<longrightarrow> prb = int (n_before vv_time vals s)"
  shows "pair_range max_time s e vals prb = (int (n_before vv_time vals s - 1), int (n_before vv_time vals e))"
    and "0 < s \<Longrightarrow> 0 < n_before vv_time vals s"
proof -
  have sorted: "sorted_wrt (<) (map vv_time vals)" and first: "vv_time (vals ! 0) = 0"
    using wf by (auto simp: wave_wf_def hd_conv_nth)
  show pos: "0 < n_before vv_time vals s" if "0 < s" using n_before_iff [OF sorted, of 0 s] wf(2) first that by simp
  note zero = n_before_start [OF wf(1)]
  have end_all: "n_before vv_time vals e = length vals" if "max_time < e"
    using late that by (auto simp: n_before_def intro!: arg_cong [where f = length] filter_True)
  have idx: "getEventIdxByTime_from vals e (if s = 0 then 0 else prb) = int (n_before vv_time vals e)"
    using prb se n_before_mono [of s e vv_time vals] by (intro idx_from_n_before [OF sorted]) auto
  show "pair_range max_time s e vals prb = (int (n_before vv_time vals s - 1), int (n_before vv_time vals e))"
    using idx end_all se prb pos zero by (auto simp: pair_range_def Let_def of_nat_diff)
qed

end
