(* ===== verification/GTP_PowerActivity.thy ===== *)
theory GTP_PowerActivity
  imports GTP_PowerState GTP_Activity
begin

text \<open>
  The activities of the statistical power engine (\<open>power/PowerClass.hh\<close>, \<open>power/Power.cc\<close>): the activity of a pin per
  clock cycle with its duty and origin, the maps of \<open>Power\<close> and the functions that look an activity up. The network,
  the constants and clocks of the graph and the clocks of the paths of a pin are functions of an environment.
\<close>

type_synonym InstId = nat
type_synonym ClockId = nat

definition pa_unknown :: PwrActivity where
  "pa_unknown = \<lparr>pa_activity = 0, pa_duty = 0, pa_origin = PO_unknown, pa_values = [], pa_value_bit = -1\<rparr>"

definition min_activity :: real where
  "min_activity = 1 / 10 ^ 10"

definition pa_check :: "PwrActivity \<Rightarrow> PwrActivity" where
  "pa_check a = (if \<bar>pa_activity a\<bar> < min_activity then a\<lparr>pa_activity := 0\<rparr> else a)"

text \<open>Only \<open>set\<close> clips small activities, the constructor with arguments does not.\<close>

definition pa_set :: "real \<Rightarrow> real \<Rightarrow> PwrActivityOrigin \<Rightarrow> PwrActivity \<Rightarrow> PwrActivity" where
  "pa_set act duty orig a = pa_check (a\<lparr>pa_activity := act, pa_duty := duty, pa_origin := orig\<rparr>)"

definition pa_new :: "real \<Rightarrow> real \<Rightarrow> PwrActivityOrigin \<Rightarrow> PwrActivity" where
  "pa_new act duty orig = \<lparr>pa_activity = act, pa_duty = duty, pa_origin = orig, pa_values = [], pa_value_bit = -1\<rparr>"

definition pa_isSet :: "PwrActivity \<Rightarrow> bool" where
  "pa_isSet a \<longleftrightarrow> pa_origin a \<noteq> PO_unknown"

fun originName :: "PwrActivityOrigin \<Rightarrow> string" where
  "originName PO_global = ''global''"
| "originName PO_input = ''input''"
| "originName PO_user = ''user''"
| "originName PO_vcd = ''vcd''"
| "originName PO_propagated = ''propagated''"
| "originName PO_clock = ''clock''"
| "originName PO_constant = ''constant''"
| "originName PO_defaulted = ''defaulted''"
| "originName PO_unknown = ''unknown''"

section \<open>Clocks\<close>

record Clock =
  ck_period :: real
  ck_is_generated :: bool
  ck_master :: "ClockId option"
  ck_waveform :: "real list"

record PowerEnv =
  en_ports :: PortStore
  en_link_pin :: "InstId \<Rightarrow> PortId \<Rightarrow> PinId option"
  en_inst_pins :: "InstId \<Rightarrow> PinId list"
  en_load_constant :: "PinId \<Rightarrow> bool"
  en_load_clock :: "PinId \<Rightarrow> bool"
  en_path_clocks :: "PinId \<Rightarrow> ClockId list"
  en_clock :: "ClockId \<Rightarrow> Clock"

text \<open>A generated clock has the duty of its master; the recursion does not end on a cycle of masters.\<close>

partial_function (option) clockDuty :: "(ClockId \<Rightarrow> Clock) \<Rightarrow> ClockId \<Rightarrow> (power_error + real) option" where
  "clockDuty clocks c =
     (if ck_is_generated (clocks c) then
        (case ck_master (clocks c) of None \<Rightarrow> Some (Inr (1/2)) | Some m \<Rightarrow> clockDuty clocks m)
      else if length (ck_waveform (clocks c)) < 2 then Some (Inl StateOutOfRange)
      else Some (Inr ((ck_waveform (clocks c) ! 1 - ck_waveform (clocks c) ! 0) / ck_period (clocks c))))"

definition findClk :: "PowerEnv \<Rightarrow> PinId \<Rightarrow> ClockId option" where
  "findClk env pin =
     fold (\<lambda>c clk. case clk of None \<Rightarrow> Some c
                   | Some b \<Rightarrow> if ck_period (en_clock env c) < ck_period (en_clock env b) then Some c else clk)
       (en_path_clocks env pin) None"

definition findInstClk :: "PowerEnv \<Rightarrow> InstId \<Rightarrow> ClockId option" where
  "findInstClk env inst =
     (case filter (\<lambda>pin. findClk env pin \<noteq> None) (en_inst_pins env inst) of [] \<Rightarrow> None | pin # _ \<Rightarrow> findClk env pin)"

section \<open>The maps of the engine\<close>

record PowerActs =
  pw_global :: PwrActivity
  pw_input :: PwrActivity
  pw_user :: "PinId \<rightharpoonup> PwrActivity"
  pw_acts :: "PinId \<rightharpoonup> PwrActivity"
  pw_seq :: "InstId \<times> PortId \<rightharpoonup> PwrActivity"
  pw_valid :: bool

definition power_new :: PowerActs where
  "power_new =
     \<lparr>pw_global = pa_unknown, pw_input = pa_new (1/10) (1/2) PO_input, pw_user = Map.empty, pw_acts = Map.empty,
      pw_seq = Map.empty, pw_valid = False\<rparr>"

definition setGlobalActivity :: "real \<Rightarrow> real \<Rightarrow> PowerActs \<Rightarrow> PowerActs" where
  "setGlobalActivity act duty st = st\<lparr>pw_global := pa_set act duty PO_global (pw_global st), pw_valid := False\<rparr>"

definition setInputActivity :: "real \<Rightarrow> real \<Rightarrow> PowerActs \<Rightarrow> PowerActs" where
  "setInputActivity act duty st = st\<lparr>pw_input := pa_set act duty PO_input (pw_input st), pw_valid := False\<rparr>"

definition setInputPortActivity :: "PinId option \<Rightarrow> real \<Rightarrow> real \<Rightarrow> PowerActs \<Rightarrow> PowerActs" where
  "setInputPortActivity pin act duty st =
     (case pin of None \<Rightarrow> st
      | Some p \<Rightarrow> st\<lparr>pw_user := (pw_user st)(p \<mapsto> pa_new act duty PO_user), pw_valid := False\<rparr>)"

text \<open>The default argument is a null pointer, which is dereferenced.\<close>

definition setUserActivity ::
  "PinId \<Rightarrow> real \<Rightarrow> real \<Rightarrow> PwrActivityOrigin \<Rightarrow> VcdValue list option \<Rightarrow> int \<Rightarrow> PowerActs \<Rightarrow> power_error + PowerActs" where
  "setUserActivity p act duty orig vals value_bit st =
     (case vals of None \<Rightarrow> Inl NullDeref
      | Some vs \<Rightarrow> Inr (st\<lparr>pw_user := (pw_user st)(p \<mapsto>
          \<lparr>pa_activity = act, pa_duty = duty, pa_origin = orig, pa_values = vs, pa_value_bit = value_bit\<rparr>),
          pw_valid := False\<rparr>))"

definition setActivity :: "PinId \<Rightarrow> PwrActivity \<Rightarrow> PowerActs \<Rightarrow> PowerActs" where
  "setActivity p a st = st\<lparr>pw_acts := (pw_acts st)(p \<mapsto> a)\<rparr>"

text \<open>Reading the activity of a pin without one adds an unknown activity to the map.\<close>

definition activity_ref :: "PinId \<Rightarrow> PowerActs \<Rightarrow> PwrActivity \<times> PowerActs" where
  "activity_ref p st = (case pw_acts st p of Some a \<Rightarrow> (a, st) | None \<Rightarrow> (pa_unknown, setActivity p pa_unknown st))"

definition setSeqActivity :: "InstId \<Rightarrow> PortId \<Rightarrow> PwrActivity \<Rightarrow> PowerActs \<Rightarrow> PowerActs" where
  "setSeqActivity reg output a st = st\<lparr>pw_seq := (pw_seq st)((reg, output) \<mapsto> a), pw_valid := False\<rparr>"

section \<open>Finding an activity\<close>

text \<open>An entry of the activity map hides the user activity, also when its origin is unknown.\<close>

definition known_activity :: "PowerActs \<Rightarrow> PinId \<Rightarrow> PwrActivity option" where
  "known_activity st p =
     (case (case pw_acts st p of Some a \<Rightarrow> Some a | None \<Rightarrow> pw_user st p) of
        Some a \<Rightarrow> if pa_isSet a then Some a else None
      | None \<Rightarrow> None)"

definition findActivity :: "PowerEnv \<Rightarrow> PowerActs \<Rightarrow> PinId \<Rightarrow> power_error + PwrActivity" where
  "findActivity env st p =
     (if en_load_constant env p then Inr (pa_new 0 0 PO_constant)
      else if en_load_clock env p then
        (case known_activity st p of
           Some a \<Rightarrow> Inr a
         | None \<Rightarrow> (case findClk env p of
             None \<Rightarrow> Inl NullDeref
           | Some clk \<Rightarrow> (case clockDuty (en_clock env) clk of
               None \<Rightarrow> Inl EndlessLoop
             | Some r \<Rightarrow> res_bind r (\<lambda>duty. Inr (pa_new 2 duty PO_clock)))))
      else if pa_isSet (pw_global st) then Inr (pw_global st)
      else Inr (case known_activity st p of Some a \<Rightarrow> a | None \<Rightarrow> pa_unknown))"

definition findSeqActivity :: "PowerActs \<Rightarrow> InstId \<Rightarrow> PortId \<Rightarrow> PwrActivity" where
  "findSeqActivity st inst p =
     (if pa_isSet (pw_global st) then pw_global st
      else case pw_seq st (inst, p) of
          Some a \<Rightarrow> if pa_isSet a then a else pa_unknown
        | None \<Rightarrow> pa_unknown)"

text \<open>The activity per second, from the clock of the pin or else the clock of its instance.\<close>

definition findClkedActivity :: "PowerEnv \<Rightarrow> PowerActs \<Rightarrow> PinId \<Rightarrow> ClockId option \<Rightarrow> power_error + PwrActivity" where
  "findClkedActivity env st p inst_clk =
     res_bind (findActivity env st p) (\<lambda>a.
       Inr (case (case findClk env p of Some c \<Rightarrow> Some c | None \<Rightarrow> inst_clk) of
              None \<Rightarrow> a
            | Some c \<Rightarrow> if 0 < ck_period (en_clock env c)
                        then a\<lparr>pa_activity := pa_activity a / ck_period (en_clock env c)\<rparr> else a))"

section \<open>Lemmas\<close>

text \<open>The clock of a pin is one of its path clocks, with the least period.\<close>

lemma findClk_least:
  assumes "findClk env p = Some c"
  shows "c \<in> set (en_path_clocks env p)" "c' \<in> set (en_path_clocks env p) \<Longrightarrow> ck_period (en_clock env c) \<le> ck_period (en_clock env c')"
proof -
  define step where "step = (\<lambda>c clk. case clk of None \<Rightarrow> Some c
      | Some b \<Rightarrow> if ck_period (en_clock env c) < ck_period (en_clock env b) then Some c else clk)"
  have "fold step cs b = Some c \<Longrightarrow>
      (c \<in> set cs \<or> b = Some c) \<and> (\<forall>c' \<in> set cs \<union> set_option b. ck_period (en_clock env c) \<le> ck_period (en_clock env c'))"
    for cs b
  proof (induction cs arbitrary: b)
    case (Cons d cs)
    then have "fold step cs (step d b) = Some c" by simp
    then show ?case using Cons.IH [of "step d b"] by (auto simp: step_def split: option.splits if_splits)
  qed auto
  then have "c \<in> set (en_path_clocks env p) \<and>
      (\<forall>c' \<in> set (en_path_clocks env p). ck_period (en_clock env c) \<le> ck_period (en_clock env c'))"
    using assms unfolding findClk_def step_def [symmetric] by fastforce
  then show "c \<in> set (en_path_clocks env p)"
    "c' \<in> set (en_path_clocks env p) \<Longrightarrow> ck_period (en_clock env c) \<le> ck_period (en_clock env c')" by auto
qed

end
