(* ===== verification/GTP_Bdd.thy ===== *)
theory GTP_Bdd
  imports GTP_PowerActivity
begin

text \<open>
  Decision diagrams of logic functions (\<open>search/Bdd.cc\<close>) and the activities that the power engine evaluates on them
  (\<open>Power::evalActivity\<close>, \<open>Power::evalDiffDuty\<close>). The CUDD package is not part of the repository: its operations are
  a record of functions on nodes, and \<open>cudd_ok\<close> states what its manual promises of them. A node may be a complemented
  pointer; its children are those of the regular node.
\<close>

section \<open>The package\<close>

record 'n Cudd =
  cu_one :: 'n
  cu_zero :: 'n
  cu_ithVar :: "nat \<Rightarrow> 'n"
  cu_not :: "'n \<Rightarrow> 'n"
  cu_or :: "'n \<Rightarrow> 'n \<Rightarrow> 'n"
  cu_and :: "'n \<Rightarrow> 'n \<Rightarrow> 'n"
  cu_xor :: "'n \<Rightarrow> 'n \<Rightarrow> 'n"
  cu_booleanDiff :: "'n \<Rightarrow> nat \<Rightarrow> 'n"
  cu_isConstant :: "'n \<Rightarrow> bool"
  cu_isComplement :: "'n \<Rightarrow> bool"
  cu_E :: "'n \<Rightarrow> 'n"
  cu_T :: "'n \<Rightarrow> 'n"
  cu_readIndex :: "'n \<Rightarrow> nat"
  cu_readPerm :: "nat \<Rightarrow> nat"

section \<open>Diagrams of functions\<close>

text \<open>The two maps of \<open>Bdd\<close>: the node of a port, in order of creation, and the port of a variable.\<close>

record 'n Bdd =
  bd_port_var :: "(PortId \<times> 'n) list"
  bd_var_port :: "nat \<rightharpoonup> PortId"

definition bdd_clearVarMap :: "'n Bdd" where
  "bdd_clearVarMap = \<lparr>bd_port_var = [], bd_var_port = Map.empty\<rparr>"

definition bdd_findNode :: "'n Bdd \<Rightarrow> PortId \<Rightarrow> 'n option" where
  "bdd_findNode b p = map_of (bd_port_var b) p"

definition bdd_nodePort :: "'n Cudd \<Rightarrow> 'n Bdd \<Rightarrow> 'n \<Rightarrow> PortId option" where
  "bdd_nodePort cu b node = bd_var_port b (cu_readIndex cu node)"

definition bdd_varIndexPort :: "'n Bdd \<Rightarrow> nat \<Rightarrow> PortId option" where
  "bdd_varIndexPort b var_index = bd_var_port b var_index"

definition bdd_ensureNode :: "'n Cudd \<Rightarrow> PortId \<Rightarrow> 'n Bdd \<Rightarrow> 'n \<times> 'n Bdd" where
  "bdd_ensureNode cu p b =
     (case map_of (bd_port_var b) p of
        Some node \<Rightarrow> (node, b)
      | None \<Rightarrow>
          let var_index = length (bd_port_var b); node = cu_ithVar cu var_index
          in (node, \<lparr>bd_port_var = bd_port_var b @ [(p, node)], bd_var_port = (bd_var_port b)(var_index \<mapsto> p)\<rparr>))"

text \<open>The package returns a node whenever it has memory, so the branches for a missing operand are not taken.\<close>

fun bdd_funcBdd :: "'n Cudd \<Rightarrow> FuncExpr \<Rightarrow> 'n Bdd \<Rightarrow> ('n \<times> 'n Bdd) option" where
  "bdd_funcBdd cu FE_null b = None"
| "bdd_funcBdd cu (FE_port p) b = Some (bdd_ensureNode cu p b)"
| "bdd_funcBdd cu (FE_not l) b = map_option (\<lambda>(n, b'). (cu_not cu n, b')) (bdd_funcBdd cu l b)"
| "bdd_funcBdd cu (FE_or l r) b = Option.bind (bdd_funcBdd cu l b) (\<lambda>(n, b1).
     map_option (\<lambda>(m, b2). (cu_or cu n m, b2)) (bdd_funcBdd cu r b1))"
| "bdd_funcBdd cu (FE_and l r) b = Option.bind (bdd_funcBdd cu l b) (\<lambda>(n, b1).
     map_option (\<lambda>(m, b2). (cu_and cu n m, b2)) (bdd_funcBdd cu r b1))"
| "bdd_funcBdd cu (FE_xor l r) b = Option.bind (bdd_funcBdd cu l b) (\<lambda>(n, b1).
     map_option (\<lambda>(m, b2). (cu_xor cu n m, b2)) (bdd_funcBdd cu r b1))"
| "bdd_funcBdd cu FE_one b = Some (cu_one cu, b)"
| "bdd_funcBdd cu FE_zero b = Some (cu_zero cu, b)"

section \<open>Duty and activity of a diagram\<close>

text \<open>
  \<open>fuel\<close> bounds the depth of the recursion; one more than the number of variables is enough. The duty of an internal
  port of a register replaces that of the whole node, as the code has it.
\<close>

fun evalBddDuty :: "'n Cudd \<Rightarrow> PowerEnv \<Rightarrow> PowerActs \<Rightarrow> InstId \<Rightarrow> 'n Bdd \<Rightarrow> nat \<Rightarrow> 'n \<Rightarrow> power_error + real" where
  "evalBddDuty cu env st inst b 0 node = Inl EndlessLoop"
| "evalBddDuty cu env st inst b (Suc fuel) node =
     (if cu_isConstant cu node then
        (if node = cu_one cu then Inr 1 else if node = cu_zero cu then Inr 0 else Inl AssertFailed)
      else
        res_bind (evalBddDuty cu env st inst b fuel (cu_E cu node)) (\<lambda>duty0.
        res_bind (evalBddDuty cu env st inst b fuel (cu_T cu node)) (\<lambda>duty1.
        case bdd_varIndexPort b (cu_readPerm cu (cu_readIndex cu node)) of
          None \<Rightarrow> Inl NullDeref
        | Some port \<Rightarrow>
            if lp_direction (en_ports env port) = PD_internal then Inr (pa_duty (findSeqActivity st inst port))
            else case en_link_pin env inst port of
                None \<Rightarrow> Inr 0
              | Some pin \<Rightarrow> res_bind (findActivity env st pin) (\<lambda>a.
                  let duty = duty0 * (1 - pa_duty a) + duty1 * pa_duty a
                  in Inr (if cu_isComplement cu node then 1 - duty else duty)))))"

definition bdd_fuel :: "'n Bdd \<Rightarrow> nat" where
  "bdd_fuel b = length (bd_port_var b) + 1"

definition evalBddActivity :: "'n Cudd \<Rightarrow> PowerEnv \<Rightarrow> PowerActs \<Rightarrow> InstId \<Rightarrow> 'n Bdd \<Rightarrow> 'n \<Rightarrow> power_error + real" where
  "evalBddActivity cu env st inst b node =
     res_bind (res_map (\<lambda>(port, var_node).
       case en_link_pin env inst port of
         None \<Rightarrow> Inr 0
       | Some pin \<Rightarrow> res_bind (findActivity env st pin) (\<lambda>a.
           res_bind (evalBddDuty cu env st inst b (bdd_fuel b) (cu_booleanDiff cu node (cu_readIndex cu var_node)))
             (\<lambda>diff_duty. Inr (pa_activity a * diff_duty)))) (bd_port_var b)) (\<lambda>var_acts. Inr (sum_list var_acts))"

fun fe_port :: "FuncExpr \<Rightarrow> PortId option" where
  "fe_port (FE_port p) = Some p"
| "fe_port _ = None"

definition evalActivity :: "'n Cudd \<Rightarrow> PowerEnv \<Rightarrow> PowerActs \<Rightarrow> FuncExpr \<Rightarrow> InstId \<Rightarrow> power_error + PwrActivity" where
  "evalActivity cu env st expr inst =
     (case filter (\<lambda>p. lp_direction (en_ports env p) = PD_internal) (case fe_port expr of None \<Rightarrow> [] | Some p \<Rightarrow> [p]) of
        func_port # _ \<Rightarrow> Inr (findSeqActivity st inst func_port)
      | [] \<Rightarrow> (case bdd_funcBdd cu expr bdd_clearVarMap of
          None \<Rightarrow> Inl NullDeref
        | Some (bdd, b) \<Rightarrow>
            res_bind (evalBddDuty cu env st inst b (bdd_fuel b) bdd) (\<lambda>duty.
            res_bind (evalBddActivity cu env st inst b bdd) (\<lambda>act. Inr (pa_new act duty PO_propagated)))))"

definition evalDiffDuty ::
  "'n Cudd \<Rightarrow> PowerEnv \<Rightarrow> PowerActs \<Rightarrow> FuncExpr \<Rightarrow> PortId \<Rightarrow> InstId \<Rightarrow> power_error + real" where
  "evalDiffDuty cu env st expr from_port inst =
     (case bdd_funcBdd cu expr bdd_clearVarMap of
        None \<Rightarrow> Inl NullDeref
      | Some (bdd, b) \<Rightarrow> (case bdd_findNode b from_port of
          None \<Rightarrow> Inl NullDeref
        | Some var_node \<Rightarrow>
            evalBddDuty cu env st inst b (bdd_fuel b) (cu_booleanDiff cu bdd (cu_readIndex cu var_node))))"

section \<open>Probabilities\<close>

text \<open>The probability of a function when the variables of \<open>V\<close> are true independently, each with its own probability.\<close>

definition prob :: "('v \<Rightarrow> real) \<Rightarrow> 'v set \<Rightarrow> (('v \<Rightarrow> bool) \<Rightarrow> bool) \<Rightarrow> real" where
  "prob d V f = (\<Sum>S \<in> Pow V. (\<Prod>v \<in> S. d v) * (\<Prod>v \<in> V - S. 1 - d v) * of_bool (f (\<lambda>v. v \<in> S)))"

lemma prob_insert:
  assumes "finite V" "v \<notin> V"
  shows "prob d (insert v V) f = (1 - d v) * prob d V f + d v * prob d V (\<lambda>A. f (A(v := True)))"
proof -
  define g where "g = (\<lambda>S. (\<Prod>v \<in> S. d v) * (\<Prod>w \<in> insert v V - S. 1 - d w) * of_bool (f (\<lambda>v. v \<in> S)))"
  have disj: "Pow V \<inter> insert v ` Pow V = {}" using assms(2) by auto
  have inj: "inj_on (insert v) (Pow V)" using assms(2) by (fastforce simp: inj_on_def)
  have low: "g S = (1 - d v) * ((\<Prod>v \<in> S. d v) * (\<Prod>v \<in> V - S. 1 - d v) * of_bool (f (\<lambda>v. v \<in> S)))" if "S \<in> Pow V" for S
  proof -
    have "insert v V - S = insert v (V - S)" using that assms(2) by auto
    then show ?thesis using assms by (simp add: g_def)
  qed
  have high: "g (insert v S) = d v * ((\<Prod>v \<in> S. d v) * (\<Prod>v \<in> V - S. 1 - d v) * of_bool (f ((\<lambda>w. w \<in> S)(v := True))))"
    if "S \<in> Pow V" for S
  proof -
    have "insert v V - insert v S = V - S" "v \<notin> S" "finite S" using that assms finite_subset by auto
    moreover have "(\<lambda>w. w \<in> insert v S) = (\<lambda>w. w \<in> S)(v := True)" by (rule ext) simp
    ultimately show ?thesis by (simp add: g_def)
  qed
  have "prob d (insert v V) f = sum g (Pow V \<union> insert v ` Pow V)" by (simp add: prob_def g_def Pow_insert)
  also have "\<dots> = sum g (Pow V) + sum g (insert v ` Pow V)" using assms(1) disj by (intro sum.union_disjoint) auto
  also have "\<dots> = (\<Sum>S \<in> Pow V. g S) + (\<Sum>S \<in> Pow V. g (insert v S))" by (simp add: sum.reindex [OF inj])
  also have "\<dots> = (1 - d v) * prob d V f + d v * prob d V (\<lambda>A. f (A(v := True)))"
    unfolding prob_def sum_distrib_left using low high by (intro arg_cong2 [where f = "(+)"] sum.cong) auto
  finally show ?thesis .
qed

lemma prob_empty [simp]: "prob d {} f = of_bool (f (\<lambda>_. False))"
  by (simp add: prob_def)

lemma prob_cong: "(\<And>A. f A = g A) \<Longrightarrow> prob d V f = prob d V g"
  by (simp add: prob_def)

lemma prob_True [simp]: "finite V \<Longrightarrow> prob d V (\<lambda>_. True) = 1"
  by (induction V rule: finite_induct) (simp_all add: prob_insert)

lemma prob_False [simp]: "prob d V (\<lambda>_. False) = 0"
  by (simp add: prob_def)

lemma prob_not: "finite V \<Longrightarrow> prob d V (\<lambda>A. \<not> f A) = 1 - prob d V f"
proof -
  assume "finite V"
  have "prob d V f + prob d V (\<lambda>A. \<not> f A) = prob d V (\<lambda>_. True)"
    unfolding prob_def sum.distrib [symmetric] by (intro sum.cong) auto
  then show ?thesis using \<open>finite V\<close> by simp
qed

lemma prob_bounds:
  assumes "finite V" "\<And>v. v \<in> V \<Longrightarrow> 0 \<le> d v \<and> d v \<le> 1"
  shows "0 \<le> prob d V f \<and> prob d V f \<le> 1"
  using assms
proof (induction V arbitrary: f rule: finite_induct)
  case (insert v V)
  have v: "0 \<le> d v" "d v \<le> 1" using insert.prems by auto
  have "0 \<le> prob d V g \<and> prob d V g \<le> 1" for g using insert.IH insert.prems by auto
  then show ?case using convex_bound_le [of "prob d V f" 1 "prob d V (\<lambda>A. f (A(v := True)))" "1 - d v" "d v"] v insert.hyps
    by (simp add: prob_insert)
qed simp

text \<open>Expansion by a variable, whether or not the function depends on it.\<close>

lemma prob_expand:
  assumes V: "finite V" "v \<in> V"
  shows "prob d V f = (1 - d v) * prob d V (\<lambda>A. f (A(v := False))) + d v * prob d V (\<lambda>A. f (A(v := True)))"
proof -
  define W where "W = V - {v}"
  have W: "V = insert v W" "finite W" "v \<notin> W" using V by (auto simp: W_def)
  have off: "prob d W (\<lambda>A. f (A(v := False))) = prob d W f"
  proof -
    have "(\<lambda>w. w \<in> S)(v := False) = (\<lambda>w. w \<in> S)" if "S \<in> Pow W" for S
      using that W(3) by (intro ext) auto
    then show ?thesis unfolding prob_def by (intro sum.cong) simp_all
  qed
  have "prob d V (\<lambda>A. f (A(v := x))) = prob d W (\<lambda>A. f (A(v := x)))" for x
    using prob_insert [OF W(2,3), of d "\<lambda>A. f (A(v := x))"] by (simp add: W(1) algebra_simps)
  then show ?thesis using prob_insert [OF W(2,3), of d f] off by (simp add: W(1))
qed

section \<open>The contract of the package\<close>

text \<open>
  \<open>ev\<close> is the function of a node (\<open>Cudd_Eval\<close>). Nodes are reduced and canonical, their variables increase from a node
  to its children in the order of \<open>Cudd_ReadPerm\<close>, and without reordering, which the program never asks for, that
  order is the order of the indices.
\<close>

definition cudd_functions :: "'n Cudd \<Rightarrow> ('n \<Rightarrow> (nat \<Rightarrow> bool) \<Rightarrow> bool) \<Rightarrow> nat \<Rightarrow> bool" where
  "cudd_functions cu ev max_index \<longleftrightarrow>
     (\<forall>a. ev (cu_one cu) a) \<and> (\<forall>a. \<not> ev (cu_zero cu) a) \<and>
     (\<forall>i a. i < max_index \<longrightarrow> ev (cu_ithVar cu i) a = a i) \<and>
     (\<forall>f a. ev (cu_not cu f) a = (\<not> ev f a)) \<and>
     (\<forall>f g a. ev (cu_or cu f g) a = (ev f a \<or> ev g a)) \<and>
     (\<forall>f g a. ev (cu_and cu f g) a = (ev f a \<and> ev g a)) \<and>
     (\<forall>f g a. ev (cu_xor cu f g) a = (ev f a \<noteq> ev g a)) \<and>
     (\<forall>f i a. ev (cu_booleanDiff cu f i) a = (ev f (a(i := True)) \<noteq> ev f (a(i := False))))"

definition cudd_inner :: "'n Cudd \<Rightarrow> ('n \<Rightarrow> (nat \<Rightarrow> bool) \<Rightarrow> bool) \<Rightarrow> nat \<Rightarrow> 'n \<Rightarrow> bool" where
  "cudd_inner cu ev max_index f \<longleftrightarrow>
     cu_T cu f \<noteq> cu_E cu f \<and> cu_readIndex cu f < max_index \<and>
     (\<forall>a. ev f a = (ev (if a (cu_readIndex cu f) then cu_T cu f else cu_E cu f) a \<noteq> cu_isComplement cu f)) \<and>
     (\<forall>c \<in> {cu_T cu f, cu_E cu f}. \<not> cu_isConstant cu c \<longrightarrow>
        cu_readPerm cu (cu_readIndex cu f) < cu_readPerm cu (cu_readIndex cu c))"

definition cudd_ok :: "'n Cudd \<Rightarrow> ('n \<Rightarrow> (nat \<Rightarrow> bool) \<Rightarrow> bool) \<Rightarrow> nat \<Rightarrow> bool" where
  "cudd_ok cu ev max_index \<longleftrightarrow>
     cudd_functions cu ev max_index \<and>
     (\<forall>f. cu_isConstant cu f = (f = cu_one cu \<or> f = cu_zero cu)) \<and>
     (\<forall>f g. (\<forall>a. ev f a = ev g a) \<longrightarrow> f = g) \<and>
     (\<forall>f. \<not> cu_isConstant cu f \<longrightarrow> cudd_inner cu ev max_index f) \<and>
     (\<forall>i. cu_readPerm cu i = i)"

section \<open>Lemmas: nodes\<close>

lemma cudd_eval:
  assumes "cudd_ok cu ev mx"
  shows "ev (cu_one cu) a" "\<not> ev (cu_zero cu) a" "i < mx \<Longrightarrow> ev (cu_ithVar cu i) a = a i"
    "ev (cu_not cu f) a = (\<not> ev f a)" "ev (cu_or cu f g) a = (ev f a \<or> ev g a)" "ev (cu_and cu f g) a = (ev f a \<and> ev g a)"
    "ev (cu_xor cu f g) a = (ev f a \<noteq> ev g a)" "ev (cu_booleanDiff cu f i) a = (ev f (a(i := True)) \<noteq> ev f (a(i := False)))"
proof -
  have "cudd_functions cu ev mx" using assms by (simp add: cudd_ok_def)
  then show "ev (cu_one cu) a" "\<not> ev (cu_zero cu) a" "i < mx \<Longrightarrow> ev (cu_ithVar cu i) a = a i"
    "ev (cu_not cu f) a = (\<not> ev f a)" "ev (cu_or cu f g) a = (ev f a \<or> ev g a)" "ev (cu_and cu f g) a = (ev f a \<and> ev g a)"
    "ev (cu_xor cu f g) a = (ev f a \<noteq> ev g a)" "ev (cu_booleanDiff cu f i) a = (ev f (a(i := True)) \<noteq> ev f (a(i := False)))"
    by (simp_all add: cudd_functions_def)
qed

lemma cudd_constant:
  assumes "cudd_ok cu ev mx"
  shows "cu_isConstant cu f = (f = cu_one cu \<or> f = cu_zero cu)" "(\<And>a. ev f a = ev g a) \<Longrightarrow> f = g" "cu_readPerm cu i = i"
  using assms by (simp_all add: cudd_ok_def)

lemma cudd_node:
  assumes "cudd_ok cu ev mx" "\<not> cu_isConstant cu f"
  shows "cu_T cu f \<noteq> cu_E cu f" "cu_readIndex cu f < mx"
    "ev f a = (ev (if a (cu_readIndex cu f) then cu_T cu f else cu_E cu f) a \<noteq> cu_isComplement cu f)"
    "c \<in> {cu_T cu f, cu_E cu f} \<Longrightarrow> \<not> cu_isConstant cu c \<Longrightarrow> cu_readIndex cu f < cu_readIndex cu c"
proof -
  have inner: "cudd_inner cu ev mx f" using assms by (simp add: cudd_ok_def)
  then show "cu_T cu f \<noteq> cu_E cu f" "cu_readIndex cu f < mx" by (simp_all add: cudd_inner_def)
  show "ev f a = (ev (if a (cu_readIndex cu f) then cu_T cu f else cu_E cu f) a \<noteq> cu_isComplement cu f)"
    using inner unfolding cudd_inner_def by (elim conjE) (erule spec)
  show "cu_readIndex cu f < cu_readIndex cu c" if "c \<in> {cu_T cu f, cu_E cu f}" "\<not> cu_isConstant cu c"
    using inner that cudd_constant(3) [OF assms(1)] by (auto simp: cudd_inner_def)
qed

text \<open>A node does not depend on variables before its own, and its children do not depend on its own.\<close>

lemma node_above:
  assumes cu: "cudd_ok cu ev mx"
  shows "cu_isConstant cu f \<or> i < cu_readIndex cu f \<Longrightarrow> ev f (a(i := x)) = ev f a"
proof (induction "mx - cu_readIndex cu f" arbitrary: f rule: less_induct)
  case less
  show ?case
  proof (cases "cu_isConstant cu f")
    case True
    then show ?thesis using cudd_constant(1) [OF cu] cudd_eval(1,2) [OF cu] by auto
  next
    case False
    note node = cudd_node [OF cu False]
    have "ev c (a(i := x)) = ev c a" if c: "c \<in> {cu_T cu f, cu_E cu f}" for c
    proof (cases "cu_isConstant cu c")
      case True
      then show ?thesis using cudd_constant(1) [OF cu] cudd_eval(1,2) [OF cu] by auto
    next
      case nc: False
      have "cu_readIndex cu f < cu_readIndex cu c" by (rule node(4) [OF c nc])
      moreover have "cu_readIndex cu c < mx" by (rule cudd_node(2) [OF cu nc])
      ultimately show ?thesis using less.prems False by (intro less.hyps) auto
    qed
    then show ?thesis using less.prems False node(3) [of "a(i := x)"] node(3) [of a] by simp
  qed
qed

lemma child_above:
  assumes cu: "cudd_ok cu ev mx" and f: "\<not> cu_isConstant cu f" and c: "c \<in> {cu_T cu f, cu_E cu f}"
  shows "ev c (a(cu_readIndex cu f := x)) = ev c a"
  using node_above [OF cu, of c "cu_readIndex cu f"] cudd_node(4) [OF cu f c] by blast

text \<open>So a node depends on its own variable, and the children are its cofactors.\<close>

lemma child_cofactor:
  assumes cu: "cudd_ok cu ev mx" and f: "\<not> cu_isConstant cu f"
  shows "ev (cu_T cu f) a = (ev f (a(cu_readIndex cu f := True)) \<noteq> cu_isComplement cu f)"
    "ev (cu_E cu f) a = (ev f (a(cu_readIndex cu f := False)) \<noteq> cu_isComplement cu f)"
  using cudd_node(3) [OF cu f, of "a(cu_readIndex cu f := True)"] cudd_node(3) [OF cu f, of "a(cu_readIndex cu f := False)"]
    child_above [OF cu f] by auto

lemma node_depends:
  assumes cu: "cudd_ok cu ev mx" and f: "\<not> cu_isConstant cu f"
  shows "\<exists>a. ev f (a(cu_readIndex cu f := True)) \<noteq> ev f (a(cu_readIndex cu f := False))"
proof (rule ccontr)
  assume "\<not> ?thesis"
  then have "ev (cu_T cu f) a = ev (cu_E cu f) a" for a using child_cofactor [OF cu f] by blast
  then show False using cudd_constant(2) [OF cu] cudd_node(1) [OF cu f] by blast
qed

text \<open>A function of the first \<open>n\<close> variables.\<close>

definition depends_below :: "('n \<Rightarrow> (nat \<Rightarrow> bool) \<Rightarrow> bool) \<Rightarrow> nat \<Rightarrow> 'n \<Rightarrow> bool" where
  "depends_below ev n f \<longleftrightarrow> (\<forall>a b. (\<forall>i < n. a i = b i) \<longrightarrow> ev f a = ev f b)"

lemma depends_below_update: "depends_below ev n f \<Longrightarrow> n \<le> i \<Longrightarrow> ev f (a(i := x)) = ev f a"
  by (auto simp: depends_below_def)

lemma depends_below_node:
  assumes cu: "cudd_ok cu ev mx" and f: "\<not> cu_isConstant cu f" and n: "depends_below ev n f"
  shows "cu_readIndex cu f < n" "depends_below ev n (cu_T cu f)" "depends_below ev n (cu_E cu f)"
proof -
  show "cu_readIndex cu f < n"
    using node_depends [OF cu f] depends_below_update [OF n] by (metis not_le_imp_less)
  have same: "ev f (a(cu_readIndex cu f := x)) = ev f (b(cu_readIndex cu f := x))" if "\<forall>i < n. a i = b i" for a b x
    using n that by (simp add: depends_below_def)
  show "depends_below ev n (cu_T cu f)"
    unfolding depends_below_def child_cofactor(1) [OF cu f] by (intro allI impI) (simp only: same)
  show "depends_below ev n (cu_E cu f)"
    unfolding depends_below_def child_cofactor(2) [OF cu f] by (intro allI impI) (simp only: same)
qed

section \<open>Lemmas: the duty of a diagram\<close>

text \<open>The values of the variables for values of the ports.\<close>

definition port_vals :: "PortId list \<Rightarrow> (PortId \<Rightarrow> bool) \<Rightarrow> nat \<Rightarrow> bool" where
  "port_vals ps A i \<longleftrightarrow> i < length ps \<and> A (ps ! i)"

lemma port_vals_update: "distinct ps \<Longrightarrow> j < length ps \<Longrightarrow> port_vals ps (A(ps ! j := x)) = (port_vals ps A)(j := x)"
  by (intro ext) (auto simp: port_vals_def nth_eq_iff_index_eq)

definition bdd_ports :: "'n Bdd \<Rightarrow> PortId list" where
  "bdd_ports b = map fst (bd_port_var b)"

definition bdd_wf :: "'n Cudd \<Rightarrow> 'n Bdd \<Rightarrow> bool" where
  "bdd_wf cu b \<longleftrightarrow> distinct (bdd_ports b) \<and>
     (\<forall>i < length (bd_port_var b). snd (bd_port_var b ! i) = cu_ithVar cu i) \<and>
     bd_var_port b = (\<lambda>i. if i < length (bdd_ports b) then Some (bdd_ports b ! i) else None)"

text \<open>A port that is linked to a pin with an activity.\<close>

definition port_known :: "PowerEnv \<Rightarrow> PowerActs \<Rightarrow> InstId \<Rightarrow> (PortId \<Rightarrow> PwrActivity) \<Rightarrow> PortId \<Rightarrow> bool" where
  "port_known env st inst act p \<longleftrightarrow> lp_direction (en_ports env p) \<noteq> PD_internal \<and>
     (case en_link_pin env inst p of None \<Rightarrow> False | Some pin \<Rightarrow> findActivity env st pin = Inr (act p))"

lemma evalBddDuty_prob:
  assumes cu: "cudd_ok cu ev mx" and wf: "bdd_wf cu b" and known: "\<forall>p \<in> set (bdd_ports b). port_known env st inst act p"
  shows "depends_below ev (length (bdd_ports b)) f \<Longrightarrow>
    (if cu_isConstant cu f then 0 < fuel else length (bdd_ports b) < fuel + cu_readIndex cu f) \<Longrightarrow>
    evalBddDuty cu env st inst b fuel f =
      Inr (prob (\<lambda>p. pa_duty (act p)) (set (bdd_ports b)) (\<lambda>A. ev f (port_vals (bdd_ports b) A)))"
proof (induction fuel arbitrary: f)
  case 0
  then show ?case using depends_below_node(1) [OF cu] by (fastforce split: if_splits)
next
  case (Suc fuel)
  define ps where "ps = bdd_ports b"
  define d where "d = (\<lambda>p. pa_duty (act p))"
  have dist: "distinct ps" using wf by (simp add: bdd_wf_def ps_def)
  show ?case
  proof (cases "cu_isConstant cu f")
    case True
    then have "f = cu_one cu \<or> f = cu_zero cu" "cu_one cu \<noteq> cu_zero cu"
      using cudd_constant(1) [OF cu] cudd_eval(1,2) [OF cu] by metis+
    then show ?thesis using True cudd_eval(1,2) [OF cu] by auto
  next
    case False
    define j where "j = cu_readIndex cu f"
    note node = cudd_node [OF cu False, folded j_def]
    note below = depends_below_node [OF cu False Suc.prems(1), folded j_def ps_def]
    define p where "p = ps ! j"
    have p: "p \<in> set ps" using below(1) by (simp add: p_def)
    then obtain pin where pin: "lp_direction (en_ports env p) \<noteq> PD_internal" "en_link_pin env inst p = Some pin"
        "findActivity env st pin = Inr (act p)"
      using known by (auto simp: port_known_def ps_def split: option.splits)
    have var: "bdd_varIndexPort b (cu_readPerm cu j) = Some p"
      using wf below(1) by (simp add: bdd_varIndexPort_def cudd_constant(3) [OF cu] bdd_wf_def p_def ps_def)
    have fuel: "length ps < Suc fuel + j" using Suc.prems(2) False by (simp add: ps_def j_def)
    have child: "evalBddDuty cu env st inst b fuel c = Inr (prob d (set ps) (\<lambda>A. ev c (port_vals ps A)))"
      if c: "c \<in> {cu_T cu f, cu_E cu f}" for c
    proof -
      have "j < cu_readIndex cu c" if "\<not> cu_isConstant cu c" using node(4) [OF c that] .
      then have "if cu_isConstant cu c then 0 < fuel else length (bdd_ports b) < fuel + cu_readIndex cu c"
        using fuel below(1) by (auto simp: ps_def)
      then show ?thesis using Suc.IH [of c] c below(2,3) by (auto simp: ps_def d_def)
    qed
    define x0 where "x0 = prob d (set ps) (\<lambda>A. ev (cu_E cu f) (port_vals ps A))"
    define x1 where "x1 = prob d (set ps) (\<lambda>A. ev (cu_T cu f) (port_vals ps A))"
    have eval: "evalBddDuty cu env st inst b (Suc fuel) f =
        Inr (if cu_isComplement cu f then 1 - (x0 * (1 - d p) + x1 * d p) else x0 * (1 - d p) + x1 * d p)"
      using False var pin child by (simp add: Let_def x0_def x1_def d_def j_def)
    have upd: "ev f (port_vals ps (A(p := x))) = (ev (if x then cu_T cu f else cu_E cu f) (port_vals ps A) \<noteq> cu_isComplement cu f)"
      for A x
    proof -
      have pv: "port_vals ps (A(p := x)) = (port_vals ps A)(j := x)"
        unfolding p_def by (rule port_vals_update [OF dist below(1)])
      show ?thesis
        unfolding pv using child_cofactor [OF cu False, of "port_vals ps A", folded j_def] by (cases x) auto
    qed
    have "prob d (set ps) (\<lambda>A. ev f (port_vals ps A)) =
        (1 - d p) * prob d (set ps) (\<lambda>A. ev (cu_E cu f) (port_vals ps A) \<noteq> cu_isComplement cu f) +
        d p * prob d (set ps) (\<lambda>A. ev (cu_T cu f) (port_vals ps A) \<noteq> cu_isComplement cu f)"
      using prob_expand [OF _ p, of d "\<lambda>A. ev f (port_vals ps A)"] upd by simp
    also have "\<dots> = (if cu_isComplement cu f then 1 - (x0 * (1 - d p) + x1 * d p) else x0 * (1 - d p) + x1 * d p)"
      by (simp add: prob_not x0_def x1_def algebra_simps)
    finally show ?thesis using eval by (simp add: ps_def d_def)
  qed
qed

lemma evalBddDuty_fuel:
  assumes cu: "cudd_ok cu ev mx" and wf: "bdd_wf cu b" and known: "\<forall>p \<in> set (bdd_ports b). port_known env st inst act p"
    and f: "depends_below ev (length (bdd_ports b)) f"
  shows "evalBddDuty cu env st inst b (bdd_fuel b) f =
    Inr (prob (\<lambda>p. pa_duty (act p)) (set (bdd_ports b)) (\<lambda>A. ev f (port_vals (bdd_ports b) A)))"
proof (rule evalBddDuty_prob [OF cu wf known f])
  have "bdd_fuel b = length (bdd_ports b) + 1" by (simp add: bdd_fuel_def bdd_ports_def)
  then show "if cu_isConstant cu f then 0 < bdd_fuel b else length (bdd_ports b) < bdd_fuel b + cu_readIndex cu f" by simp
qed

section \<open>Lemmas: the diagram of an expression\<close>

lemma ensureNode_wf:
  assumes wf: "bdd_wf cu b" and e: "bdd_ensureNode cu p b = (node, b')"
  shows "bdd_wf cu b'" "bdd_ports b' = bdd_ports b @ (if p \<in> set (bdd_ports b) then [] else [p])"
    "\<exists>i < length (bdd_ports b'). bdd_ports b' ! i = p \<and> node = cu_ithVar cu i"
proof -
  have "bdd_wf cu b' \<and> bdd_ports b' = bdd_ports b @ (if p \<in> set (bdd_ports b) then [] else [p]) \<and>
    (\<exists>i < length (bdd_ports b'). bdd_ports b' ! i = p \<and> node = cu_ithVar cu i)"
  proof (cases "map_of (bd_port_var b) p")
    case None
    define n where "n = length (bd_port_var b)"
    have new: "p \<notin> set (bdd_ports b)" using None by (simp add: map_of_eq_None_iff bdd_ports_def)
    have b': "bd_port_var b' = bd_port_var b @ [(p, node)]" "bd_var_port b' = (bd_var_port b)(n \<mapsto> p)" "node = cu_ithVar cu n"
      using e None by (auto simp: bdd_ensureNode_def Let_def n_def)
    then have ports: "bdd_ports b' = bdd_ports b @ [p]" by (simp add: bdd_ports_def)
    have "bdd_wf cu b'" using wf new ports b' by (auto simp: bdd_wf_def nth_append n_def less_Suc_eq bdd_ports_def)
    moreover have "bdd_ports b' ! n = p" "n < length (bdd_ports b')"
    proof -
      have "n = length (bdd_ports b)" by (simp add: n_def bdd_ports_def)
      then show "bdd_ports b' ! n = p" "n < length (bdd_ports b')" by (simp_all add: ports)
    qed
    ultimately show ?thesis using ports new b'(3) by auto
  next
    case (Some m)
    then have b': "b' = b" "node = m" using e by (simp_all add: bdd_ensureNode_def)
    obtain i where "i < length (bd_port_var b)" "bd_port_var b ! i = (p, m)"
      using map_of_SomeD [OF Some] by (auto simp: in_set_conv_nth)
    then have "i < length (bdd_ports b)" "bdd_ports b ! i = p" "m = cu_ithVar cu i"
      using wf by (auto simp: bdd_ports_def bdd_wf_def)
    then show ?thesis using wf b' nth_mem by fastforce
  qed
  then show "bdd_wf cu b'" "bdd_ports b' = bdd_ports b @ (if p \<in> set (bdd_ports b) then [] else [p])"
    "\<exists>i < length (bdd_ports b'). bdd_ports b' ! i = p \<and> node = cu_ithVar cu i" by blast+
qed

text \<open>The diagram of an expression: the ports so far and those of the expression, and the function of the node.\<close>

definition bdd_for :: "'n Cudd \<Rightarrow> ('n \<Rightarrow> (nat \<Rightarrow> bool) \<Rightarrow> bool) \<Rightarrow> 'n Bdd \<Rightarrow> FuncExpr \<Rightarrow> 'n \<Rightarrow> 'n Bdd \<Rightarrow> bool" where
  "bdd_for cu ev b e node b' \<longleftrightarrow>
     bdd_wf cu b' \<and> (\<exists>later. bdd_ports b' = bdd_ports b @ later) \<and>
     set (bdd_ports b') = set (bdd_ports b) \<union> {p. fe_hasPort e p} \<and>
     (\<forall>a A. (\<forall>i < length (bdd_ports b'). a i = A (bdd_ports b' ! i)) \<longrightarrow> ev node a = fe_eval A e)"

lemma bdd_for_two:
  assumes l: "bdd_for cu ev b l n b1" and r: "bdd_for cu ev b1 r m b2"
    and node: "\<And>a. ev node a = g (ev n a) (ev m a)" and e: "\<And>A. fe_eval A e = g (fe_eval A l) (fe_eval A r)"
    and ports: "\<And>p. fe_hasPort e p = (fe_hasPort l p \<or> fe_hasPort r p)"
  shows "bdd_for cu ev b e node b2"
proof -
  obtain l1 l2 where later: "bdd_ports b1 = bdd_ports b @ l1" "bdd_ports b2 = bdd_ports b1 @ l2"
    using l r by (auto simp: bdd_for_def)
  have "ev node a = fe_eval A e" if a: "\<forall>i < length (bdd_ports b2). a i = A (bdd_ports b2 ! i)" for a A
  proof -
    have "a i = A (bdd_ports b1 ! i)" if "i < length (bdd_ports b1)" for i
      using a that by (auto simp: later(2) nth_append)
    then have "ev n a = fe_eval A l" using l by (simp add: bdd_for_def)
    moreover have "ev m a = fe_eval A r" using r a by (simp add: bdd_for_def)
    ultimately show ?thesis using node e by simp
  qed
  then show ?thesis using l r later ports by (auto simp: bdd_for_def)
qed

lemma bdd_for_more:
  "bdd_for cu ev b l n b1 \<Longrightarrow> set (bdd_ports b1) \<union> {p. fe_hasPort r p} = set (bdd_ports b) \<union> {p. fe_hasPort l p \<or> fe_hasPort r p}"
  by (auto simp: bdd_for_def)

lemma finite_ports: "finite {p. fe_hasPort e p}"
  by (induction e) (auto simp: Collect_disj_eq)

lemma funcBdd_operands:
  assumes l: "card (set (bdd_ports b) \<union> {p. fe_hasPort l p}) \<le> mx \<Longrightarrow>
      \<exists>n b1. bdd_funcBdd cu l b = Some (n, b1) \<and> bdd_for cu ev b l n b1"
    and r: "\<And>b1. bdd_wf cu b1 \<Longrightarrow> card (set (bdd_ports b1) \<union> {p. fe_hasPort r p}) \<le> mx \<Longrightarrow>
      \<exists>m b2. bdd_funcBdd cu r b1 = Some (m, b2) \<and> bdd_for cu ev b1 r m b2"
    and card: "card (set (bdd_ports b) \<union> {p. fe_hasPort l p \<or> fe_hasPort r p}) \<le> mx"
  shows "\<exists>n b1 m b2. bdd_funcBdd cu l b = Some (n, b1) \<and> bdd_for cu ev b l n b1 \<and>
    bdd_funcBdd cu r b1 = Some (m, b2) \<and> bdd_for cu ev b1 r m b2"
proof -
  have "card (set (bdd_ports b) \<union> {p. fe_hasPort l p}) \<le> card (set (bdd_ports b) \<union> {p. fe_hasPort l p \<or> fe_hasPort r p})"
    using finite_ports by (intro card_mono) (auto simp: Collect_disj_eq)
  then obtain n b1 where n: "bdd_funcBdd cu l b = Some (n, b1)" "bdd_for cu ev b l n b1" using l card by auto
  then have "bdd_wf cu b1" by (simp add: bdd_for_def)
  then obtain m b2 where "bdd_funcBdd cu r b1 = Some (m, b2)" "bdd_for cu ev b1 r m b2"
    using r [of b1] card bdd_for_more [OF n(2), of r] by auto
  then show ?thesis using n by blast
qed

lemma funcBdd_correct:
  assumes cu: "cudd_ok cu ev mx"
  shows "fe_null_free e \<Longrightarrow> bdd_wf cu b \<Longrightarrow> card (set (bdd_ports b) \<union> {p. fe_hasPort e p}) \<le> mx \<Longrightarrow>
    \<exists>node b'. bdd_funcBdd cu e b = Some (node, b') \<and> bdd_for cu ev b e node b'"
proof (induction e arbitrary: b)
  case (FE_port p)
  obtain node b' where nb: "bdd_ensureNode cu p b = (node, b')" by fastforce
  note b' = ensureNode_wf [OF FE_port.prems(2) nb]
  obtain i where i: "i < length (bdd_ports b')" "bdd_ports b' ! i = p" "node = cu_ithVar cu i" using b'(3) by blast
  have set: "set (bdd_ports b') = set (bdd_ports b) \<union> {q. fe_hasPort (FE_port p) q}" using b'(2) by auto
  then have "length (bdd_ports b') \<le> mx"
    using b'(1) FE_port.prems(3) distinct_card [of "bdd_ports b'"] by (simp add: bdd_wf_def)
  then have "bdd_for cu ev b (FE_port p) node b'"
    using set b'(1,2) i cudd_eval(3) [OF cu, of i] unfolding bdd_for_def by (metis fe_eval.simps(2) less_le_trans)
  then show ?case using nb by simp
next
  case (FE_not l)
  obtain n b' where "bdd_funcBdd cu l b = Some (n, b')" "bdd_for cu ev b l n b'"
    using FE_not.IH [of b] FE_not.prems by (auto simp only: fe_null_free.simps fe_hasPort.simps)
  then show ?case using cudd_eval(4) [OF cu] by (simp add: bdd_for_def)
next
  case (FE_or l r)
  have nl: "fe_null_free l" and nr: "fe_null_free r" using FE_or.prems(1) by simp_all
  obtain n b1 m b2 where l: "bdd_funcBdd cu l b = Some (n, b1)" "bdd_for cu ev b l n b1"
      and r: "bdd_funcBdd cu r b1 = Some (m, b2)" "bdd_for cu ev b1 r m b2"
    using funcBdd_operands [where mx = mx, OF FE_or.IH(1) [OF nl FE_or.prems(2)] FE_or.IH(2) [OF nr]] FE_or.prems(3) by auto
  have "bdd_for cu ev b (FE_or l r) (cu_or cu n m) b2"
    by (rule bdd_for_two [OF l(2) r(2), where g = "(\<or>)"]) (simp_all add: cudd_eval [OF cu])
  then show ?case using l r by simp
next
  case (FE_and l r)
  have nl: "fe_null_free l" and nr: "fe_null_free r" using FE_and.prems(1) by simp_all
  obtain n b1 m b2 where l: "bdd_funcBdd cu l b = Some (n, b1)" "bdd_for cu ev b l n b1"
      and r: "bdd_funcBdd cu r b1 = Some (m, b2)" "bdd_for cu ev b1 r m b2"
    using funcBdd_operands [where mx = mx, OF FE_and.IH(1) [OF nl FE_and.prems(2)] FE_and.IH(2) [OF nr]] FE_and.prems(3) by auto
  have "bdd_for cu ev b (FE_and l r) (cu_and cu n m) b2"
    by (rule bdd_for_two [OF l(2) r(2), where g = "(\<and>)"]) (simp_all add: cudd_eval [OF cu])
  then show ?case using l r by simp
next
  case (FE_xor l r)
  have nl: "fe_null_free l" and nr: "fe_null_free r" using FE_xor.prems(1) by simp_all
  obtain n b1 m b2 where l: "bdd_funcBdd cu l b = Some (n, b1)" "bdd_for cu ev b l n b1"
      and r: "bdd_funcBdd cu r b1 = Some (m, b2)" "bdd_for cu ev b1 r m b2"
    using funcBdd_operands [where mx = mx, OF FE_xor.IH(1) [OF nl FE_xor.prems(2)] FE_xor.IH(2) [OF nr]] FE_xor.prems(3) by auto
  have "bdd_for cu ev b (FE_xor l r) (cu_xor cu n m) b2"
    by (rule bdd_for_two [OF l(2) r(2), where g = "(\<noteq>)"]) (simp_all add: cudd_eval [OF cu])
  then show ?case using l r by simp
qed (simp_all add: bdd_for_def cudd_eval [OF cu])
lemma ithVar_index:
  assumes cu: "cudd_ok cu ev mx" and i: "i < mx"
  shows "cu_readIndex cu (cu_ithVar cu i) = i"
proof -
  note val = cudd_eval(3) [OF cu i]
  have "\<not> cu_isConstant cu (cu_ithVar cu i)"
  proof
    assume "cu_isConstant cu (cu_ithVar cu i)"
    then have "cu_ithVar cu i = cu_one cu \<or> cu_ithVar cu i = cu_zero cu" using cudd_constant(1) [OF cu] by simp
    then show False using val [of "\<lambda>_. False"] val [of "\<lambda>_. True"] cudd_eval(1,2) [OF cu] by auto
  qed
  from node_depends [OF cu this] show ?thesis unfolding val by (auto split: if_splits)
qed

lemma diff_below: "cudd_ok cu ev mx \<Longrightarrow> depends_below ev n f \<Longrightarrow> depends_below ev n (cu_booleanDiff cu f i)"
proof -
  assume cu: "cudd_ok cu ev mx" and f: "depends_below ev n f"
  have same: "ev f (a(i := x)) = ev f (b(i := x))" if "\<forall>i < n. a i = b i" for a b x
    using f that by (simp add: depends_below_def)
  show ?thesis unfolding depends_below_def cudd_eval(8) [OF cu] by (intro allI impI) (simp only: same)
qed

text \<open>The diagram of a whole expression, with the facts that the two evaluations need.\<close>

definition fe_ports :: "FuncExpr \<Rightarrow> PortId set" where
  "fe_ports e = {p. fe_hasPort e p}"

lemma bdd_of_expr:
  assumes cu: "cudd_ok cu ev mx" and e: "fe_null_free e" "card (fe_ports e) \<le> mx"
  shows "\<exists>node b. bdd_funcBdd cu e bdd_clearVarMap = Some (node, b) \<and> bdd_wf cu b \<and> set (bdd_ports b) = fe_ports e \<and>
    length (bdd_ports b) \<le> mx \<and> depends_below ev (length (bdd_ports b)) node \<and>
    (\<forall>A. ev node (port_vals (bdd_ports b) A) = fe_eval A e)"
proof -
  have "bdd_wf cu (bdd_clearVarMap :: 'a Bdd)" "set (bdd_ports (bdd_clearVarMap :: 'a Bdd)) = {}"
    by (simp_all add: bdd_wf_def bdd_clearVarMap_def bdd_ports_def)
  then obtain node b where node: "bdd_funcBdd cu e bdd_clearVarMap = Some (node, b)" "bdd_for cu ev bdd_clearVarMap e node b"
    using funcBdd_correct [OF cu e(1), of bdd_clearVarMap] e(2) by (auto simp: fe_ports_def)
  have b: "bdd_wf cu b" "set (bdd_ports b) = fe_ports e"
    and eval: "\<And>a A. \<forall>i < length (bdd_ports b). a i = A (bdd_ports b ! i) \<Longrightarrow> ev node a = fe_eval A e"
    using node(2) by (auto simp: bdd_for_def fe_ports_def bdd_clearVarMap_def bdd_ports_def)
  have dist: "distinct (bdd_ports b)" using b(1) by (simp add: bdd_wf_def)
  have "depends_below ev (length (bdd_ports b)) node"
    unfolding depends_below_def
  proof (intro allI impI)
    fix a c :: "nat \<Rightarrow> bool" assume same: "\<forall>i < length (bdd_ports b). a i = c i"
    define A where "A = (\<lambda>p. a (the_inv_into {..<length (bdd_ports b)} ((!) (bdd_ports b)) p))"
    have "A (bdd_ports b ! i) = a i" if "i < length (bdd_ports b)" for i
      using that the_inv_into_f_f [OF inj_on_nth [OF dist, of "{..<length (bdd_ports b)}"]] by (simp add: A_def)
    then show "ev node a = ev node c" using same eval [of a A] eval [of c A] by simp
  qed
  moreover have "ev node (port_vals (bdd_ports b) A) = fe_eval A e" for A by (rule eval) (simp add: port_vals_def)
  moreover have "length (bdd_ports b) \<le> mx" using e(2) b(2) distinct_card [OF dist] by simp
  ultimately show ?thesis using node(1) b by blast
qed

text \<open>The probability that the function is sensitive to a port.\<close>

definition sensitivity :: "(PortId \<Rightarrow> real) \<Rightarrow> FuncExpr \<Rightarrow> PortId \<Rightarrow> real" where
  "sensitivity d e p = prob d (fe_ports e) (\<lambda>A. fe_eval (A(p := True)) e \<noteq> fe_eval (A(p := False)) e)"

lemma diff_duty:
  assumes cu: "cudd_ok cu ev mx" and wf: "bdd_wf cu b" and known: "\<forall>p \<in> set (bdd_ports b). port_known env st inst act p"
    and ports: "set (bdd_ports b) = fe_ports e" and node: "depends_below ev (length (bdd_ports b)) node"
      "\<forall>A. ev node (port_vals (bdd_ports b) A) = fe_eval A e"
    and i: "i < length (bdd_ports b)"
  shows "evalBddDuty cu env st inst b (bdd_fuel b) (cu_booleanDiff cu node i) =
    Inr (sensitivity (\<lambda>p. pa_duty (act p)) e (bdd_ports b ! i))"
proof -
  have dist: "distinct (bdd_ports b)" using wf by (simp add: bdd_wf_def)
  have "ev (cu_booleanDiff cu node i) (port_vals (bdd_ports b) A) =
      (fe_eval (A(bdd_ports b ! i := True)) e \<noteq> fe_eval (A(bdd_ports b ! i := False)) e)" for A
    using node(2) by (simp add: cudd_eval(8) [OF cu] port_vals_update [OF dist i, symmetric])
  then show ?thesis
    unfolding evalBddDuty_fuel [OF cu wf known diff_below [OF cu node(1)]] by (simp add: sensitivity_def ports)
qed

section \<open>Lemmas: duties are probabilities\<close>

lemma evalActivity_value:
  assumes cu: "cudd_ok cu ev mx" and e: "fe_null_free e" "card (fe_ports e) \<le> mx"
    and known: "\<forall>p \<in> fe_ports e. port_known env st inst act p"
  shows "evalActivity cu env st e inst =
    Inr (pa_new (\<Sum>p \<in> fe_ports e. pa_activity (act p) * sensitivity (\<lambda>p. pa_duty (act p)) e p)
      (prob (\<lambda>p. pa_duty (act p)) (fe_ports e) (\<lambda>A. fe_eval A e)) PO_propagated)"
proof -
  define d where "d = (\<lambda>p. pa_duty (act p))"
  obtain node b where nb: "bdd_funcBdd cu e bdd_clearVarMap = Some (node, b)" and wf: "bdd_wf cu b"
      and ports: "set (bdd_ports b) = fe_ports e" and mx: "length (bdd_ports b) \<le> mx"
      and node: "depends_below ev (length (bdd_ports b)) node" "\<forall>A. ev node (port_vals (bdd_ports b) A) = fe_eval A e"
    using bdd_of_expr [OF cu e] by blast
  have dist: "distinct (bdd_ports b)" using wf by (simp add: bdd_wf_def)
  have known': "\<forall>p \<in> set (bdd_ports b). port_known env st inst act p" using known ports by simp
  have duty: "evalBddDuty cu env st inst b (bdd_fuel b) node = Inr (prob d (fe_ports e) (\<lambda>A. fe_eval A e))"
    unfolding evalBddDuty_fuel [OF cu wf known' node(1)] using node(2) by (simp add: d_def ports)
  define g where "g = (\<lambda>(port, var_node :: 'a). pa_activity (act port) * sensitivity d e port)"
  have var: "(\<lambda>(port, var_node). case en_link_pin env inst port of None \<Rightarrow> Inr 0
       | Some pin \<Rightarrow> res_bind (findActivity env st pin) (\<lambda>a.
           res_bind (evalBddDuty cu env st inst b (bdd_fuel b) (cu_booleanDiff cu node (cu_readIndex cu var_node)))
             (\<lambda>diff_duty. Inr (pa_activity a * diff_duty)))) x = Inr (g x)" if x: "x \<in> set (bd_port_var b)" for x
  proof -
    obtain i where i: "i < length (bd_port_var b)" "bd_port_var b ! i = x" using x by (auto simp: in_set_conv_nth)
    then have i': "i < length (bdd_ports b)" "fst x = bdd_ports b ! i" "snd x = cu_ithVar cu i"
      using wf by (auto simp: bdd_ports_def bdd_wf_def)
    have "port_known env st inst act (fst x)" using known' i' by simp
    then show ?thesis
      using diff_duty [OF cu wf known' ports node i'(1)] i' ithVar_index [OF cu, of i] mx
      by (auto simp: port_known_def g_def d_def split: option.splits prod.splits)
  qed
  have "sum_list (map g (bd_port_var b)) = (\<Sum>p \<leftarrow> bdd_ports b. pa_activity (act p) * sensitivity d e p)"
    by (simp add: bdd_ports_def g_def comp_def case_prod_beta')
  also have "\<dots> = (\<Sum>p \<in> fe_ports e. pa_activity (act p) * sensitivity d e p)"
    by (simp add: sum_list_distinct_conv_sum_set [OF dist] ports)
  finally have activity: "evalBddActivity cu env st inst b node =
      Inr (\<Sum>p \<in> fe_ports e. pa_activity (act p) * sensitivity d e p)"
    by (simp add: evalBddActivity_def res_map_total [OF var])
  have not_internal: "filter (\<lambda>p. lp_direction (en_ports env p) = PD_internal)
      (case fe_port e of None \<Rightarrow> [] | Some p \<Rightarrow> [p]) = []"
    using known by (cases e) (auto simp: port_known_def fe_ports_def)
  show ?thesis unfolding evalActivity_def not_internal by (simp add: nb duty activity d_def)
qed

text \<open>The duty of the difference by a port of the function is the probability that the function is sensitive to it.\<close>

lemma evalDiffDuty_sensitivity:
  assumes cu: "cudd_ok cu ev mx" and e: "fe_null_free e" "card (fe_ports e) \<le> mx"
    and known: "\<forall>p \<in> fe_ports e. port_known env st inst act p" and p: "p \<in> fe_ports e"
  shows "evalDiffDuty cu env st e p inst = Inr (sensitivity (\<lambda>p. pa_duty (act p)) e p)"
proof -
  obtain node b where nb: "bdd_funcBdd cu e bdd_clearVarMap = Some (node, b)" and wf: "bdd_wf cu b"
      and ports: "set (bdd_ports b) = fe_ports e" and mx: "length (bdd_ports b) \<le> mx"
      and node: "depends_below ev (length (bdd_ports b)) node" "\<forall>A. ev node (port_vals (bdd_ports b) A) = fe_eval A e"
    using bdd_of_expr [OF cu e] by blast
  have known': "\<forall>p \<in> set (bdd_ports b). port_known env st inst act p" using known ports by simp
  have "map_of (bd_port_var b) p \<noteq> None" using p ports by (simp add: map_of_eq_None_iff bdd_ports_def)
  then obtain var where var: "map_of (bd_port_var b) p = Some var" by blast
  then obtain i where "i < length (bd_port_var b)" "bd_port_var b ! i = (p, var)"
    using map_of_SomeD by (fastforce simp: in_set_conv_nth)
  then have i: "i < length (bdd_ports b)" "bdd_ports b ! i = p" "var = cu_ithVar cu i"
    using wf by (auto simp: bdd_ports_def bdd_wf_def)
  then show ?thesis
    using diff_duty [OF cu wf known' ports node i(1)] ithVar_index [OF cu, of i] mx
    by (simp add: evalDiffDuty_def nb bdd_findNode_def var)
qed

section \<open>An instance of the package\<close>

text \<open>
  Nodes for two variables that meet the contract: the truth table of a function, with the complement of a node and
  its children as the package has them (a node that is false where all variables are true is complemented).
\<close>

type_synonym Table2 = "bool \<times> bool \<times> bool \<times> bool"

definition tt_eval :: "Table2 \<Rightarrow> (nat \<Rightarrow> bool) \<Rightarrow> bool" where
  "tt_eval f a = (case f of (f00, f01, f10, f11) \<Rightarrow>
     if a 0 then (if a 1 then f11 else f10) else (if a 1 then f01 else f00))"

definition tt_of :: "((nat \<Rightarrow> bool) \<Rightarrow> bool) \<Rightarrow> Table2" where
  "tt_of F = (F (\<lambda>_. False), F ((\<lambda>_. False)(1 := True)), F ((\<lambda>_. False)(0 := True)), F ((\<lambda>_. False)(0 := True, 1 := True)))"

definition tt_index :: "Table2 \<Rightarrow> nat" where
  "tt_index f = (case f of (f00, f01, f10, f11) \<Rightarrow> if f00 \<noteq> f10 \<or> f01 \<noteq> f11 then 0 else 1)"

definition tt_complement :: "Table2 \<Rightarrow> bool" where
  "tt_complement f \<longleftrightarrow> \<not> snd (snd (snd f))"

definition tt_child :: "bool \<Rightarrow> Table2 \<Rightarrow> Table2" where
  "tt_child x f = tt_of (\<lambda>a. tt_eval f (a(tt_index f := x)) \<noteq> tt_complement f)"

definition tt_cudd :: "Table2 Cudd" where
  "tt_cudd =
     \<lparr>cu_one = tt_of (\<lambda>_. True), cu_zero = tt_of (\<lambda>_. False), cu_ithVar = (\<lambda>i. tt_of (\<lambda>a. a i)),
      cu_not = (\<lambda>f. tt_of (\<lambda>a. \<not> tt_eval f a)), cu_or = (\<lambda>f g. tt_of (\<lambda>a. tt_eval f a \<or> tt_eval g a)),
      cu_and = (\<lambda>f g. tt_of (\<lambda>a. tt_eval f a \<and> tt_eval g a)), cu_xor = (\<lambda>f g. tt_of (\<lambda>a. tt_eval f a \<noteq> tt_eval g a)),
      cu_booleanDiff = (\<lambda>f i. tt_of (\<lambda>a. tt_eval f (a(i := True)) \<noteq> tt_eval f (a(i := False)))),
      cu_isConstant = (\<lambda>f. f = tt_of (\<lambda>_. True) \<or> f = tt_of (\<lambda>_. False)), cu_isComplement = tt_complement,
      cu_E = tt_child False, cu_T = tt_child True, cu_readIndex = tt_index, cu_readPerm = (\<lambda>i. i)\<rparr>"

text \<open>The functions of the first two variables, which a table represents.\<close>

definition two_vars :: "((nat \<Rightarrow> bool) \<Rightarrow> bool) \<Rightarrow> bool" where
  "two_vars F \<longleftrightarrow> (\<forall>a b. a 0 = b 0 \<longrightarrow> a 1 = b 1 \<longrightarrow> F a = F b)"

lemma two_vars_cong: "two_vars F \<Longrightarrow> a 0 = b 0 \<Longrightarrow> a 1 = b 1 \<Longrightarrow> F a = F b"
  unfolding two_vars_def by (drule spec [of _ a], drule spec [of _ b]) simp

lemma tt_eval_of:
  assumes "two_vars F"
  shows "tt_eval (tt_of F) a = F a"
proof -
  have "F a = F ((\<lambda>_. False)(0 := a 0, 1 := a 1))" by (rule two_vars_cong [OF assms]) simp_all
  then show ?thesis by (cases "a 0"; cases "a 1"; simp add: tt_eval_def tt_of_def fun_upd_idem)
qed

lemma two_vars_update: "two_vars (\<lambda>a. tt_eval f (a(i := x)))"
  by (cases f) (auto simp: two_vars_def tt_eval_def)

lemma two_vars_eval: "two_vars (tt_eval f)"
  by (cases f) (auto simp: two_vars_def tt_eval_def)

lemma two_vars_var: "i < 2 \<Longrightarrow> two_vars (\<lambda>a. a i)"
  by (auto simp: two_vars_def less_2_cases_iff)

lemma two_vars_op:
  assumes "two_vars F" "two_vars G"
  shows "two_vars (\<lambda>a. h (F a) (G a))"
  unfolding two_vars_def
proof (intro allI impI)
  fix a b :: "nat \<Rightarrow> bool" assume "a 0 = b 0" "a 1 = b 1"
  then have "F a = F b" "G a = G b" by (simp_all add: two_vars_cong [OF assms(1), of a b] two_vars_cong [OF assms(2), of a b])
  then show "h (F a) (G a) = h (F b) (G b)" by simp
qed

lemma two_vars_const: "two_vars (\<lambda>_. c)"
  by (simp add: two_vars_def)

lemmas tt_op_eval = tt_eval_of [OF two_vars_op]

lemma tt_canonical: "(\<And>a. tt_eval f a = tt_eval g a) \<Longrightarrow> f = g"
proof -
  assume same: "\<And>a. tt_eval f a = tt_eval g a"
  have "f = tt_of (tt_eval f)" for f by (simp add: tt_of_def tt_eval_def split: prod.split)
  moreover have "tt_eval f = tt_eval g" using same by (rule ext)
  ultimately show "f = g" by metis
qed

lemma tt_nodes:
  "\<forall>f00 f01 f10 f11. let f = (f00, f01, f10, f11) in f = tt_of (\<lambda>_. True) \<or> f = tt_of (\<lambda>_. False) \<or>
     (tt_child True f \<noteq> tt_child False f \<and> tt_index f < 2 \<and>
      (\<forall>x. tt_child x f = tt_of (\<lambda>_. True) \<or> tt_child x f = tt_of (\<lambda>_. False) \<or> tt_index f < tt_index (tt_child x f)))"
  by code_simp

lemma tt_inner:
  assumes "\<not> cu_isConstant tt_cudd f"
  shows "cudd_inner tt_cudd tt_eval 2 f"
proof -
  obtain f00 f01 f10 f11 where f: "f = (f00, f01, f10, f11)" by (cases f)
  have child: "tt_eval (tt_child x f) a = (tt_eval f (a(tt_index f := x)) \<noteq> tt_complement f)" for x a
    unfolding tt_child_def by (rule tt_op_eval [OF two_vars_update two_vars_const])
  have "tt_eval f a = (tt_eval (if a (tt_index f) then tt_child True f else tt_child False f) a \<noteq> tt_complement f)" for a
  proof -
    have "a(tt_index f := a (tt_index f)) = a" by simp
    then show ?thesis using child [of "a (tt_index f)" a] by (cases "a (tt_index f)") auto
  qed
  moreover have "tt_child True f \<noteq> tt_child False f \<and> tt_index f < 2 \<and>
      (\<forall>x. tt_child x f = tt_of (\<lambda>_. True) \<or> tt_child x f = tt_of (\<lambda>_. False) \<or> tt_index f < tt_index (tt_child x f))"
    using tt_nodes [THEN spec [of _ f00], THEN spec [of _ f01], THEN spec [of _ f10], THEN spec [of _ f11]] assms
    by (simp add: f Let_def tt_cudd_def)
  ultimately show ?thesis by (auto simp: cudd_inner_def tt_cudd_def)
qed

lemma tt_cudd_ok: "cudd_ok tt_cudd tt_eval 2"
proof -
  have funs: "cudd_functions tt_cudd tt_eval 2"
    unfolding cudd_functions_def tt_cudd_def Cudd.simps
  proof (intro conjI allI impI)
    show "tt_eval (tt_of (\<lambda>_. True)) a" "\<not> tt_eval (tt_of (\<lambda>_. False)) a" for a
      unfolding tt_eval_of [OF two_vars_const] by simp_all
    show "tt_eval (tt_of (\<lambda>a. a i)) a = a i" if "i < 2" for i a by (rule tt_eval_of [OF two_vars_var [OF that]])
    show "tt_eval (tt_of (\<lambda>a. \<not> tt_eval f a)) a = (\<not> tt_eval f a)" for f a
      by (rule tt_op_eval [OF two_vars_eval two_vars_const, where h = "\<lambda>x y. \<not> x"])
    show "tt_eval (tt_of (\<lambda>a. tt_eval f a \<or> tt_eval g a)) a = (tt_eval f a \<or> tt_eval g a)"
      "tt_eval (tt_of (\<lambda>a. tt_eval f a \<and> tt_eval g a)) a = (tt_eval f a \<and> tt_eval g a)"
      "tt_eval (tt_of (\<lambda>a. tt_eval f a \<noteq> tt_eval g a)) a = (tt_eval f a \<noteq> tt_eval g a)" for f g a
      by (rule tt_op_eval [OF two_vars_eval two_vars_eval])+
    show "tt_eval (tt_of (\<lambda>a. tt_eval f (a(i := True)) \<noteq> tt_eval f (a(i := False)))) a =
        (tt_eval f (a(i := True)) \<noteq> tt_eval f (a(i := False)))" for f i a
      by (rule tt_op_eval [OF two_vars_update two_vars_update])
  qed
  have canonical: "\<forall>f g. (\<forall>a. tt_eval f a = tt_eval g a) \<longrightarrow> f = g"
    by (intro allI impI tt_canonical) (erule spec)
  have inner: "\<forall>f. \<not> cu_isConstant tt_cudd f \<longrightarrow> cudd_inner tt_cudd tt_eval 2 f" using tt_inner by blast
  show ?thesis
    unfolding cudd_ok_def
    by (intro conjI funs canonical inner) (simp_all add: tt_cudd_def)
qed

definition two_pin_env :: PowerEnv where
  "two_pin_env =
     \<lparr>en_ports = (\<lambda>p. \<lparr>lp_name = (if p = 0 then ''A'' else ''B''), lp_direction = (if p = 2 then PD_internal else PD_input),
        lp_is_bus = False, lp_is_bundle = False, lp_from_index = 0, lp_to_index = 0, lp_members = []\<rparr>),
      en_link_pin = (\<lambda>inst p. if p < 2 then Some p else None), en_inst_pins = (\<lambda>inst. [0, 1]),
      en_load_constant = (\<lambda>_. False), en_load_clock = (\<lambda>_. False), en_path_clocks = (\<lambda>_. []),
      en_clock = (\<lambda>_. \<lparr>ck_period = 1, ck_is_generated = False, ck_master = None, ck_waveform = [0, 1/2]\<rparr>)\<rparr>"

definition two_pin_acts :: PowerActs where
  "two_pin_acts = power_new\<lparr>pw_acts := [0 \<mapsto> pa_new 1 (1/4) PO_user, 1 \<mapsto> pa_new 2 (1/2) PO_user],
     pw_seq := [(0, 2) \<mapsto> pa_new 1 (1/4) PO_propagated]\<rparr>"

section \<open>Properties: duties are probabilities\<close>

text \<open>C13: With the documented behaviour of the package, the duty that the engine computes for a function of ports with
  known activities is the probability that the function is true when every port is true independently with its duty,
  the activity is the sum over the ports of their activity times the probability that the function is sensitive
  to the port, and the duty of the difference by a port is that probability.\<close>

theorem evalActivity_probability:
  assumes cu: "cudd_ok cu ev mx" and e: "fe_null_free e" "card (fe_ports e) \<le> mx"
    and known: "\<forall>p \<in> fe_ports e. port_known env st inst act p"
  shows "evalActivity cu env st e inst =
    Inr (pa_new (\<Sum>p \<in> fe_ports e. pa_activity (act p) * sensitivity (\<lambda>p. pa_duty (act p)) e p)
      (prob (\<lambda>p. pa_duty (act p)) (fe_ports e) (\<lambda>A. fe_eval A e)) PO_propagated) \<and>
    (\<forall>p \<in> fe_ports e. evalDiffDuty cu env st e p inst = Inr (sensitivity (\<lambda>p. pa_duty (act p)) e p))"
  using evalActivity_value [OF assms] evalDiffDuty_sensitivity [OF assms] by blast

definition two_pin_activity :: "PortId \<Rightarrow> PwrActivity" where
  "two_pin_activity p = (if p = 0 then pa_new 1 (1/4) PO_user else pa_new 2 (1/2) PO_user)"

lemma two_pin_known: "p < 2 \<Longrightarrow> port_known two_pin_env two_pin_acts 0 two_pin_activity p"
  by (auto simp: less_2_cases_iff port_known_def two_pin_env_def two_pin_acts_def findActivity_def known_activity_def
      power_new_def pa_isSet_def pa_unknown_def pa_new_def two_pin_activity_def)

theorem evalActivity_probability_witness:
  "evalActivity tt_cudd two_pin_env two_pin_acts (FE_and (FE_port 0) (FE_not (FE_port 1))) 0 =
     Inr (pa_new 1 (1/8) PO_propagated) \<and>
   evalDiffDuty tt_cudd two_pin_env two_pin_acts (FE_and (FE_port 0) (FE_not (FE_port 1))) 1 0 = Inr (1/4)"
proof -
  define e where "e = FE_and (FE_port 0) (FE_not (FE_port 1))"
  have ports: "fe_ports e = insert 0 {1}" by (auto simp: fe_ports_def e_def)
  have known: "\<forall>p \<in> fe_ports e. port_known two_pin_env two_pin_acts 0 two_pin_activity p"
    by (simp add: ports two_pin_known)
  have p1: "prob d {1} f = (1 - d 1) * of_bool (f (\<lambda>_. False)) + d 1 * of_bool (f ((\<lambda>_. False)(1 := True)))"
    for d and f :: "(nat \<Rightarrow> bool) \<Rightarrow> bool"
    using prob_insert [of "{}" 1 d f] by simp
  have p2: "prob d (insert 0 {1}) f = (1 - d 0) * prob d {1} f + d 0 * prob d {1} (\<lambda>A. f (A(0 := True)))"
    for d and f :: "(nat \<Rightarrow> bool) \<Rightarrow> bool"
    by (rule prob_insert) auto
  have "fe_null_free e" "card (fe_ports e) \<le> 2" by (simp add: e_def) (simp add: ports)
  from evalActivity_probability [OF tt_cudd_ok this known] show ?thesis
    unfolding e_def [symmetric] sensitivity_def ports p2 p1 by (simp add: e_def two_pin_activity_def pa_new_def)
qed

text \<open>The duty of a function with an internal port of a register is not complemented: that of its negation is the same.\<close>

lemma internal_port_not_complemented:
  assumes cu: "cudd_ok cu ev mx" "0 < mx" and internal: "lp_direction (en_ports env p) = PD_internal"
    and pin: "en_link_pin env inst p = None"
  shows "evalActivity cu env st (FE_not (FE_port p)) inst = Inr (pa_new 0 (pa_duty (findSeqActivity st inst p)) PO_propagated)"
proof -
  define b where "b = \<lparr>bd_port_var = [(p, cu_ithVar cu 0)], bd_var_port = Map.empty(0 \<mapsto> p)\<rparr>"
  define f where "f = cu_not cu (cu_ithVar cu 0)"
  have f: "ev f a = (\<not> a 0)" for a using cudd_eval(3,4) [OF cu(1)] cu(2) by (simp add: f_def)
  have nc: "\<not> cu_isConstant cu f"
  proof
    assume "cu_isConstant cu f"
    then have "f = cu_one cu \<or> f = cu_zero cu" using cudd_constant(1) [OF cu(1)] by simp
    then show False using f [of "\<lambda>_. False"] f [of "\<lambda>_. True"] cudd_eval(1,2) [OF cu(1)] by auto
  qed
  then have idx: "cu_readIndex cu f = 0" using node_depends [OF cu(1) nc] unfolding f by (auto split: if_splits)
  have child: "cu_isConstant cu c" if c: "c \<in> {cu_T cu f, cu_E cu f}" for c
  proof (rule ccontr)
    assume "\<not> cu_isConstant cu c"
    then obtain a where a: "ev c (a(cu_readIndex cu c := True)) \<noteq> ev c (a(cu_readIndex cu c := False))"
        and i: "0 < cu_readIndex cu c"
      using node_depends [OF cu(1)] cudd_node(4) [OF cu(1) nc c] idx by auto
    then show False using c i child_cofactor [OF cu(1) nc] unfolding idx f by auto
  qed
  have "evalBddDuty cu env st inst b (bdd_fuel b) f = Inr (pa_duty (findSeqActivity st inst p))"
  proof -
    have "\<exists>v. evalBddDuty cu env st inst b (Suc 0) c = Inr v" if "c \<in> {cu_T cu f, cu_E cu f}" for c
      using child [OF that] cudd_constant(1) [OF cu(1)] by auto
    then obtain v w where "evalBddDuty cu env st inst b (Suc 0) (cu_E cu f) = Inr v"
        "evalBddDuty cu env st inst b (Suc 0) (cu_T cu f) = Inr w" by blast
    then show ?thesis
      using nc internal by (simp add: bdd_fuel_def b_def bdd_varIndexPort_def idx cudd_constant(3) [OF cu(1)] del: evalBddDuty.simps(1))
  qed
  then show ?thesis
    using pin by (simp add: evalActivity_def evalBddActivity_def bdd_ensureNode_def bdd_clearVarMap_def Let_def f_def b_def)
qed

text \<open>Variables that a function does not depend on do not change its probability.\<close>

lemma prob_more:
  assumes "finite V" "V \<subseteq> W" "finite W" and indep: "\<And>A B. (\<And>v. v \<in> V \<Longrightarrow> A v = B v) \<Longrightarrow> f A = f B"
  shows "prob d W f = prob d V f"
proof -
  have "prob d (V \<union> U) f = prob d V f" if "finite U" "U \<inter> V = {}" for U
    using that
  proof (induction U rule: finite_induct)
    case (insert u U)
    have "f (A(u := True)) = f A" for A by (rule indep) (use insert.prems in auto)
    then have "prob d (insert u (V \<union> U)) f = prob d (V \<union> U) f"
      using insert assms(1) by (subst prob_insert) (auto simp: algebra_simps)
    then show ?case using insert by simp
  qed simp
  moreover have "V \<union> (W - V) = W" "(W - V) \<inter> V = {}" using assms(2) by auto
  ultimately show ?thesis using assms(3) by (metis finite_Diff)
qed

lemma prob_fe_eval:
  "fe_ports e \<subseteq> W \<Longrightarrow> finite W \<Longrightarrow> prob d W (\<lambda>A. fe_eval A e) = prob d (fe_ports e) (\<lambda>A. fe_eval A e)"
  using finite_ports [of e] by (intro prob_more) (auto simp: fe_ports_def intro!: fe_eval_cong)

end
