(* ===== verification/GTP_CellPower.thy ===== *)
theory GTP_CellPower
  imports GTP_Bdd GTP_PowerTime GTP_RiseFall
begin

text \<open>
  Statistical power of one cell instance (\<open>Power::power\<close> with \<open>findInternalPower\<close>, \<open>findSwitchingPower\<close> and
  \<open>findLeakagePower\<close>, \<open>power/Power.cc\<close>): average energies of the power tables, weighted by the duties of their
  conditions and the activities of the pins. Slews and loads come from the delay calculator, as values of the pins; a
  slew is \<open>None\<close> when it is infinite. A corner cell has the ports of the cell, by name.
\<close>

section \<open>Cells\<close>

record StatPower =
  sp_when :: FuncExpr
  sp_related :: "PortId option"
  sp_pg_pin :: "string option"
  sp_power :: "RiseFall \<Rightarrow> real \<Rightarrow> real \<Rightarrow> real"

record StatPin =
  st_pin :: PinId
  st_port :: "PortId option"
  st_load_cap :: real
  st_has_corner :: bool
  st_internal_powers :: "StatPower list"
  st_voltage :: real

record CellEnv =
  ce_inst :: InstId
  ce_pins :: "StatPin list"
  ce_link_port :: "PortId \<Rightarrow> PortId option"
  ce_function :: "PortId \<Rightarrow> FuncExpr"
  ce_load_slew :: "PinId \<Rightarrow> (RiseFall \<Rightarrow> real option) option"
  ce_load_is_clock :: "PinId \<Rightarrow> bool"
  ce_arc_senses :: "PortId \<Rightarrow> PortId \<Rightarrow> TimingSense list"
  ce_leakage_powers :: "LeakagePower list"
  ce_leakage_power :: "real \<times> bool"

text \<open>The average of the energies of the two edges with a finite slew.\<close>

definition average_energy :: "real list \<Rightarrow> real" where
  "average_energy es = (if length es = 0 then 0 else sum_list es / real (length es))"

definition edge_energies :: "StatPower \<Rightarrow> (RiseFall \<Rightarrow> real option) \<Rightarrow> real \<Rightarrow> real list" where
  "edge_energies pwr slew load_cap =
     concat (map (\<lambda>rf. case slew rf of None \<Rightarrow> [] | Some s \<Rightarrow> [sp_power pwr rf s load_cap]) rf_range)"

section \<open>Conditions\<close>

fun findExprOutPort :: "PortStore \<Rightarrow> FuncExpr \<Rightarrow> power_error + PortId option" where
  "findExprOutPort lp FE_null = Inl NullDeref"
| "findExprOutPort lp (FE_port p) = Inr (if pd_isAnyOutput (lp_direction (lp p)) then Some p else None)"
| "findExprOutPort lp (FE_not l) = findExprOutPort lp l"
| "findExprOutPort lp (FE_or l r) =
     res_bind (findExprOutPort lp l) (\<lambda>p. case p of Some q \<Rightarrow> Inr (Some q) | None \<Rightarrow> findExprOutPort lp r)"
| "findExprOutPort lp (FE_and l r) =
     res_bind (findExprOutPort lp l) (\<lambda>p. case p of Some q \<Rightarrow> Inr (Some q) | None \<Rightarrow> findExprOutPort lp r)"
| "findExprOutPort lp (FE_xor l r) =
     res_bind (findExprOutPort lp l) (\<lambda>p. case p of Some q \<Rightarrow> Inr (Some q) | None \<Rightarrow> findExprOutPort lp r)"
| "findExprOutPort lp FE_one = Inr None"
| "findExprOutPort lp FE_zero = Inr None"

definition eval_duty :: "'n Cudd \<Rightarrow> PowerEnv \<Rightarrow> PowerActs \<Rightarrow> FuncExpr \<Rightarrow> InstId \<Rightarrow> power_error + real" where
  "eval_duty cu env st e inst = res_bind (evalActivity cu env st e inst) (\<lambda>a. Inr (pa_duty a))"

text \<open>A condition on an output stands for the other inputs of its function, if the function has the port.\<close>

definition input_when_duty ::
  "'n Cudd \<Rightarrow> PowerEnv \<Rightarrow> PowerActs \<Rightarrow> CellEnv \<Rightarrow> PortId \<Rightarrow> StatPower \<Rightarrow> power_error + real" where
  "input_when_duty cu env st ce port pwr =
     (if sp_when pwr = FE_null then Inr 1
      else res_bind (findExprOutPort (en_ports env) (sp_when pwr)) (\<lambda>out.
        case out of
          None \<Rightarrow> eval_duty cu env st (sp_when pwr) (ce_inst ce)
        | Some out_corner_port \<Rightarrow> (case ce_link_port ce out_corner_port of
            None \<Rightarrow> Inr 1
          | Some out_port \<Rightarrow>
              if ce_function ce out_port \<noteq> FE_null \<and> fe_hasPort (ce_function ce out_port) port
              then evalDiffDuty cu env st (ce_function ce out_port) port (ce_inst ce)
              else eval_duty cu env st (sp_when pwr) (ce_inst ce))))"

definition findInputInternalPower ::
  "'n Cudd \<Rightarrow> PowerEnv \<Rightarrow> PowerActs \<Rightarrow> CellEnv \<Rightarrow> StatPin \<Rightarrow> PortId \<Rightarrow> PwrActivity \<Rightarrow> real \<Rightarrow> power_error + real" where
  "findInputInternalPower cu env st ce pin port act load_cap =
     (if \<not> st_has_corner pin \<or> st_internal_powers pin = [] then Inr 0
      else case ce_load_slew ce (st_pin pin) of
          None \<Rightarrow> Inl NullDeref
        | Some slew \<Rightarrow>
            res_bind (res_map (\<lambda>pwr. res_bind (input_when_duty cu env st ce port pwr) (\<lambda>duty.
              Inr (average_energy (edge_energies pwr slew load_cap) * duty * pa_activity act))) (st_internal_powers pin))
              (\<lambda>internals. Inr (sum_list internals)))"

text \<open>The duty of the input of an output table.\<close>

definition findInputDuty ::
  "'n Cudd \<Rightarrow> PowerEnv \<Rightarrow> PowerActs \<Rightarrow> CellEnv \<Rightarrow> FuncExpr \<Rightarrow> StatPower \<Rightarrow> power_error + real" where
  "findInputDuty cu env st ce func pwr =
     (case sp_related pwr of
        None \<Rightarrow> Inr 0
      | Some from_corner_port \<Rightarrow> (case ce_link_port ce from_corner_port of
          None \<Rightarrow> Inl NullDeref
        | Some from_port \<Rightarrow> (case en_link_pin env (ce_inst ce) from_port of
            None \<Rightarrow> Inr 0
          | Some from_pin \<Rightarrow>
              if func \<noteq> FE_null \<and> fe_hasPort func from_port then evalDiffDuty cu env st func from_port (ce_inst ce)
              else if sp_when pwr \<noteq> FE_null then eval_duty cu env st (sp_when pwr) (ce_inst ce)
              else if ce_load_is_clock ce from_pin then Inr 1 else Inr (1/2))))"

text \<open>The activity times the duty of the related input of a table, and the sum of these for each supply pin.\<close>

definition from_activity :: "PowerEnv \<Rightarrow> PowerActs \<Rightarrow> CellEnv \<Rightarrow> PortId \<Rightarrow> power_error + real" where
  "from_activity env st ce from_corner_port =
     (case en_link_pin env (ce_inst ce) from_corner_port of
        None \<Rightarrow> Inl NullDeref
      | Some pin \<Rightarrow> res_bind (findActivity env st pin) (\<lambda>a. Inr (pa_activity a)))"

fun pg_duty_sums ::
  "'n Cudd \<Rightarrow> PowerEnv \<Rightarrow> PowerActs \<Rightarrow> CellEnv \<Rightarrow> FuncExpr \<Rightarrow> StatPower list \<Rightarrow> (string option \<rightharpoonup> real) \<Rightarrow>
   power_error + (string option \<rightharpoonup> real)"
where
  "pg_duty_sums cu env st ce func [] dsums = Inr dsums"
| "pg_duty_sums cu env st ce func (pwr # pwrs) dsums =
     (case sp_related pwr of
        None \<Rightarrow> pg_duty_sums cu env st ce func pwrs dsums
      | Some from_corner_port \<Rightarrow>
          res_bind (from_activity env st ce from_corner_port) (\<lambda>act.
          res_bind (findInputDuty cu env st ce func pwr) (\<lambda>duty.
            pg_duty_sums cu env st ce func pwrs
              (dsums(sp_pg_pin pwr \<mapsto> (case dsums (sp_pg_pin pwr) of None \<Rightarrow> 0 | Some s \<Rightarrow> s) + act * duty)))))"

definition isPositiveUnate :: "CellEnv \<Rightarrow> PortId \<Rightarrow> PortId \<Rightarrow> bool" where
  "isPositiveUnate ce from to =
     (case ce_arc_senses ce from to of [] \<Rightarrow> True | sense # _ \<Rightarrow> sense = TS_positive_unate \<or> sense = TS_non_unate)"

text \<open>One output table: its slew is that of the related input, for the edge that causes the edge of the output.\<close>

definition output_slew :: "PowerEnv \<Rightarrow> CellEnv \<Rightarrow> PortId \<Rightarrow> StatPower \<Rightarrow> RiseFall \<Rightarrow> real option" where
  "output_slew env ce to_port pwr to_rf =
     (case sp_related pwr of
        None \<Rightarrow> Some 0
      | Some from \<Rightarrow> (case Option.bind (en_link_pin env (ce_inst ce) from) (ce_load_slew ce) of
          None \<Rightarrow> Some 0
        | Some slew \<Rightarrow> slew (if isPositiveUnate ce from to_port then to_rf else rf_opposite to_rf)))"

definition output_weight ::
  "'n Cudd \<Rightarrow> PowerEnv \<Rightarrow> PowerActs \<Rightarrow> CellEnv \<Rightarrow> FuncExpr \<Rightarrow> (string option \<rightharpoonup> real) \<Rightarrow> StatPower \<Rightarrow> power_error + real" where
  "output_weight cu env st ce func dsums pwr =
     res_bind (findInputDuty cu env st ce func pwr) (\<lambda>duty.
       case dsums (sp_pg_pin pwr) of
         None \<Rightarrow> Inr 0
       | Some duty_sum \<Rightarrow> (case Option.bind (sp_related pwr) (en_link_pin env (ce_inst ce)) of
           None \<Rightarrow> Inr 0
         | Some from_pin \<Rightarrow>
             if duty_sum = 0 then Inr 0
             else res_bind (findActivity env st from_pin) (\<lambda>a. Inr (pa_activity a * duty / duty_sum))))"

definition findOutputInternalPower ::
  "'n Cudd \<Rightarrow> PowerEnv \<Rightarrow> PowerActs \<Rightarrow> CellEnv \<Rightarrow> StatPin \<Rightarrow> PortId \<Rightarrow> PwrActivity \<Rightarrow> real \<Rightarrow> power_error + real" where
  "findOutputInternalPower cu env st ce pin to_port to_activity load_cap =
     (let func = ce_function ce to_port in
      res_bind (pg_duty_sums cu env st ce func (st_internal_powers pin) Map.empty) (\<lambda>dsums.
      res_bind (res_map (\<lambda>pwr. res_bind (output_weight cu env st ce func dsums pwr) (\<lambda>weight.
          Inr (weight * average_energy (edge_energies pwr (output_slew env ce to_port pwr) load_cap)
               * pa_activity to_activity))) (st_internal_powers pin)) (\<lambda>internals.
        Inr (sum_list internals))))"

section \<open>The three parts\<close>

text \<open>The clocked activity and the load of every pin with a port; a bidirectional port is an output and an input.\<close>

definition findInternalPower :: "'n Cudd \<Rightarrow> PowerEnv \<Rightarrow> PowerActs \<Rightarrow> CellEnv \<Rightarrow> power_error + real" where
  "findInternalPower cu env st ce =
     res_bind (res_map (\<lambda>pin. case st_port pin of
         None \<Rightarrow> Inr 0
       | Some to_port \<Rightarrow>
           let dir = lp_direction (en_ports env to_port);
               load_cap = (if pd_isAnyOutput dir then st_load_cap pin else 0)
           in res_bind (findClkedActivity env st (st_pin pin) (findInstClk env (ce_inst ce))) (\<lambda>act.
              res_bind (if pd_isAnyOutput dir then findOutputInternalPower cu env st ce pin to_port act load_cap else Inr 0) (\<lambda>out.
              res_bind (if pd_isAnyInput dir then findInputInternalPower cu env st ce pin to_port act load_cap else Inr 0) (\<lambda>inp.
                Inr (out + inp))))) (ce_pins ce)) (\<lambda>internals. Inr (sum_list internals))"

definition findSwitchingPower :: "PowerEnv \<Rightarrow> PowerActs \<Rightarrow> CellEnv \<Rightarrow> power_error + real" where
  "findSwitchingPower env st ce =
     res_bind (res_map (\<lambda>pin. case st_port pin of
         None \<Rightarrow> Inr 0
       | Some to_port \<Rightarrow>
           res_bind (findClkedActivity env st (st_pin pin) (findInstClk env (ce_inst ce))) (\<lambda>act.
             Inr (if pd_isAnyOutput (lp_direction (en_ports env to_port))
                  then 1/2 * st_load_cap pin * st_voltage pin * st_voltage pin * pa_activity act else 0)))
       (ce_pins ce)) (\<lambda>switchings. Inr (sum_list switchings))"

text \<open>The sums over the leakage groups: conditional, duty of the conditions with positive power, unconditional.\<close>

record LeakSums =
  lk_cond :: real
  lk_found_cond :: bool
  lk_cond_duty :: real
  lk_uncond :: real
  lk_found_uncond :: bool

definition leak_step :: "'n Cudd \<Rightarrow> PowerEnv \<Rightarrow> PowerActs \<Rightarrow> InstId \<Rightarrow> LeakagePower \<Rightarrow> LeakSums \<Rightarrow> power_error + LeakSums" where
  "leak_step cu env st inst leak s =
     (if lk_when leak \<noteq> FE_null then
        res_bind (eval_duty cu env st (lk_when leak) inst) (\<lambda>cond_duty.
          Inr (s\<lparr>lk_cond := lk_cond s + lk_power leak * cond_duty,
                 lk_cond_duty := (if lk_power leak > 0 then lk_cond_duty s + cond_duty else lk_cond_duty s),
                 lk_found_cond := True\<rparr>))
      else Inr (s\<lparr>lk_uncond := lk_uncond s + lk_power leak, lk_found_uncond := True\<rparr>))"

fun leak_sums :: "'n Cudd \<Rightarrow> PowerEnv \<Rightarrow> PowerActs \<Rightarrow> InstId \<Rightarrow> LeakagePower list \<Rightarrow> LeakSums \<Rightarrow> power_error + LeakSums" where
  "leak_sums cu env st inst [] s = Inr s"
| "leak_sums cu env st inst (leak # leaks) s =
     res_bind (leak_step cu env st inst leak s) (leak_sums cu env st inst leaks)"

definition findLeakagePower :: "'n Cudd \<Rightarrow> PowerEnv \<Rightarrow> PowerActs \<Rightarrow> CellEnv \<Rightarrow> power_error + real" where
  "findLeakagePower cu env st ce =
     res_bind (leak_sums cu env st (ce_inst ce) (ce_leakage_powers ce)
                 \<lparr>lk_cond = 0, lk_found_cond = False, lk_cond_duty = 0, lk_uncond = 0, lk_found_uncond = False\<rparr>) (\<lambda>s.
       let (cell_leakage, exists) = ce_leakage_power ce;
           leakage = (if lk_found_cond s then lk_cond s else if lk_found_uncond s then lk_uncond s else 0)
       in Inr (if exists then leakage + cell_leakage * (1 - lk_cond_duty s) else leakage))"

text \<open>The voltage of a port: that of its supply pin, or else of the operating conditions.\<close>

definition pgNameVoltage ::
  "(string \<rightharpoonup> string) \<Rightarrow> (string \<rightharpoonup> real) \<Rightarrow> real option \<Rightarrow> real option \<Rightarrow> string option \<Rightarrow> real" where
  "pgNameVoltage pg_port_voltage_name supply_voltage pvt default_pvt pg_port_name =
     (case Option.bind (Option.bind pg_port_name pg_port_voltage_name) supply_voltage of
        Some v \<Rightarrow> v
      | None \<Rightarrow> (case (case pvt of Some v \<Rightarrow> Some v | None \<Rightarrow> default_pvt) of Some v \<Rightarrow> v | None \<Rightarrow> 0))"
section \<open>Lemmas: expectations\<close>

text \<open>The expectation of a value over ports that are true independently; \<open>prob\<close> is that of a condition.\<close>

definition expectation :: "('v \<Rightarrow> real) \<Rightarrow> 'v set \<Rightarrow> (('v \<Rightarrow> bool) \<Rightarrow> real) \<Rightarrow> real" where
  "expectation d V g = (\<Sum>S \<in> Pow V. (\<Prod>v \<in> S. d v) * (\<Prod>v \<in> V - S. 1 - d v) * g (\<lambda>v. v \<in> S))"

lemma expectation_prob: "expectation d V (\<lambda>A. of_bool (f A)) = prob d V f"
  by (simp add: expectation_def prob_def)

lemma expectation_add: "expectation d V (\<lambda>A. f A + g A) = expectation d V f + expectation d V g"
  by (simp add: expectation_def sum.distrib algebra_simps)

lemma expectation_scale: "expectation d V (\<lambda>A. c * f A) = c * expectation d V f"
  by (simp add: expectation_def sum_distrib_left algebra_simps)

lemma expectation_const: "finite V \<Longrightarrow> expectation d V (\<lambda>_. c) = c"
  using expectation_scale [of d V c "\<lambda>_. 1"] expectation_prob [of d V "\<lambda>_. True"] by simp

lemma expectation_cong: "(\<And>A. f A = g A) \<Longrightarrow> expectation d V f = expectation d V g"
  by (simp add: expectation_def)

lemma expectation_sum_list:
  "expectation d V (\<lambda>A. \<Sum>x \<leftarrow> xs. c x * of_bool (f x A)) = (\<Sum>x \<leftarrow> xs. c x * prob d V (f x))"
proof (induction xs)
  case (Cons x xs)
  then show ?case by (simp add: expectation_add expectation_scale expectation_prob)
qed (simp add: expectation_def)

section \<open>Lemmas: leakage\<close>

text \<open>The leakage of a state, read directly: that of the condition which holds, or the default of the cell.\<close>

definition state_leakage :: "LeakagePower list \<Rightarrow> real \<Rightarrow> (PortId \<Rightarrow> bool) \<Rightarrow> real" where
  "state_leakage leaks default_leak A =
     fold (\<lambda>leak v. if fe_eval A (lk_when leak) then lk_power leak else v) leaks default_leak"

definition exclusive_leaks :: "LeakagePower list \<Rightarrow> bool" where
  "exclusive_leaks leaks \<longleftrightarrow> (\<forall>A. length (filter (\<lambda>leak. fe_eval A (lk_when leak)) leaks) \<le> 1)"

definition leaks_known ::
  "PowerEnv \<Rightarrow> PowerActs \<Rightarrow> InstId \<Rightarrow> (PortId \<Rightarrow> PwrActivity) \<Rightarrow> nat \<Rightarrow> PortId set \<Rightarrow> LeakagePower list \<Rightarrow> bool"
where
  "leaks_known env st inst act mx V leaks \<longleftrightarrow>
     finite V \<and> card V \<le> mx \<and> (\<forall>p \<in> V. port_known env st inst act p) \<and>
     (\<forall>leak \<in> set leaks. fe_null_free (lk_when leak) \<and> fe_ports (lk_when leak) \<subseteq> V)"

lemma state_leakage_none: "\<forall>leak \<in> set leaks. \<not> fe_eval A (lk_when leak) \<Longrightarrow> state_leakage leaks d A = d"
  by (induction leaks) (simp_all add: state_leakage_def)

lemma state_leakage_sum:
  assumes "length (filter (\<lambda>leak. fe_eval A (lk_when leak)) leaks) \<le> 1"
  shows "state_leakage leaks d A = d + (\<Sum>leak \<leftarrow> leaks. (lk_power leak - d) * of_bool (fe_eval A (lk_when leak)))"
  using assms
proof (induction leaks)
  case (Cons l leaks)
  show ?case
  proof (cases "fe_eval A (lk_when l)")
    case True
    then have none: "\<forall>leak \<in> set leaks. \<not> fe_eval A (lk_when leak)"
      using Cons.prems by (auto simp: filter_empty_conv)
    then have "(\<Sum>leak \<leftarrow> leaks. (lk_power leak - d) * of_bool (fe_eval A (lk_when leak))) = 0"
      by (intro sum_list_nonneg_eq_0_iff [THEN iffD2]) auto
    then show ?thesis using state_leakage_none [OF none, of "lk_power l"] True by (simp add: state_leakage_def)
  next
    case False
    then show ?thesis using Cons by (simp add: state_leakage_def)
  qed
qed (simp add: state_leakage_def)

text \<open>The sums of the code, from the probabilities of the conditions.\<close>

lemma eval_duty_prob:
  assumes cu: "cudd_ok cu ev mx" and known: "leaks_known env st inst act mx V leaks" and l: "leak \<in> set leaks"
  shows "eval_duty cu env st (lk_when leak) inst =
    Inr (prob (\<lambda>p. pa_duty (act p)) V (\<lambda>A. fe_eval A (lk_when leak)))"
proof -
  have e: "fe_null_free (lk_when leak)" "fe_ports (lk_when leak) \<subseteq> V" and V: "finite V" "card V \<le> mx"
    and ports: "\<forall>p \<in> V. port_known env st inst act p"
    using known l by (auto simp: leaks_known_def)
  have card: "card (fe_ports (lk_when leak)) \<le> mx" using card_mono [OF V(1) e(2)] V(2) by simp
  have "\<forall>p \<in> fe_ports (lk_when leak). port_known env st inst act p" using ports e(2) by auto
  from evalActivity_value [OF cu e(1) card this] show ?thesis
    by (simp add: eval_duty_def pa_new_def prob_fe_eval [OF e(2) V(1)])
qed

lemma leak_sums_value:
  assumes cu: "cudd_ok cu ev mx"
  shows "leaks_known env st inst act mx V leaks \<Longrightarrow> \<forall>leak \<in> set leaks. lk_power leak > 0 \<Longrightarrow>
    leak_sums cu env st inst leaks s =
      Inr (s\<lparr>lk_cond := lk_cond s + (\<Sum>l \<leftarrow> leaks. lk_power l * prob (\<lambda>p. pa_duty (act p)) V (\<lambda>A. fe_eval A (lk_when l))),
             lk_cond_duty := lk_cond_duty s + (\<Sum>l \<leftarrow> leaks. prob (\<lambda>p. pa_duty (act p)) V (\<lambda>A. fe_eval A (lk_when l))),
             lk_found_cond := (lk_found_cond s \<or> leaks \<noteq> [])\<rparr>)"
proof (induction leaks arbitrary: s)
  case (Cons l leaks)
  have known: "leaks_known env st inst act mx V leaks" using Cons.prems(1) by (simp add: leaks_known_def)
  have "lk_when l \<noteq> FE_null" using Cons.prems(1) by (auto simp: leaks_known_def)
  then have "leak_step cu env st inst l s =
      Inr (s\<lparr>lk_cond := lk_cond s + lk_power l * prob (\<lambda>p. pa_duty (act p)) V (\<lambda>A. fe_eval A (lk_when l)),
             lk_cond_duty := lk_cond_duty s + prob (\<lambda>p. pa_duty (act p)) V (\<lambda>A. fe_eval A (lk_when l)),
             lk_found_cond := True\<rparr>)"
    using eval_duty_prob [OF cu Cons.prems(1), of l] Cons.prems(2) by (simp add: leak_step_def)
  then show ?case using Cons.IH [OF known] Cons.prems(2) by (simp add: algebra_simps)
qed simp

section \<open>Lemmas: output tables\<close>

text \<open>A sum over a list, by the groups of its elements.\<close>

lemma sum_list_groups:
  fixes f :: "'a \<Rightarrow> real"
  assumes "finite G" "h ` set xs \<subseteq> G"
  shows "(\<Sum>x \<leftarrow> xs. f x) = (\<Sum>g \<in> G. \<Sum>x \<leftarrow> filter (\<lambda>x. h x = g) xs. f x)"
  using assms(2)
proof (induction xs)
  case (Cons x xs)
  have "(\<Sum>g \<in> G. \<Sum>y \<leftarrow> filter (\<lambda>y. h y = g) (x # xs). f y) =
      (\<Sum>g \<in> G. (if h x = g then f x else 0) + (\<Sum>y \<leftarrow> filter (\<lambda>y. h y = g) xs. f y))"
    by (intro sum.cong) auto
  also have "\<dots> = f x + (\<Sum>y \<leftarrow> xs. f y)"
    using Cons assms(1) by (simp add: sum.distrib)
  finally show ?case by simp
qed simp

text \<open>A table whose related pin has a known activity, with the duty of its input.\<close>

definition table_known ::
  "'n Cudd \<Rightarrow> PowerEnv \<Rightarrow> PowerActs \<Rightarrow> CellEnv \<Rightarrow> FuncExpr \<Rightarrow> StatPower \<Rightarrow> real \<Rightarrow> real \<Rightarrow> bool"
where
  "table_known cu env st ce func pwr act duty \<longleftrightarrow>
     findInputDuty cu env st ce func pwr = Inr duty \<and>
     (case Option.bind (sp_related pwr) (en_link_pin env (ce_inst ce)) of
        None \<Rightarrow> False | Some pin \<Rightarrow> res_bind (findActivity env st pin) (\<lambda>a. Inr (pa_activity a)) = Inr act)"

definition group_weight :: "(StatPower \<Rightarrow> real) \<Rightarrow> StatPower list \<Rightarrow> string option \<Rightarrow> real" where
  "group_weight w pwrs pg = (\<Sum>pwr \<leftarrow> filter (\<lambda>pwr. sp_pg_pin pwr = pg) pwrs. w pwr)"

lemma group_weight_Cons:
  "group_weight w (pwr # pwrs) pg = (if sp_pg_pin pwr = pg then w pwr else 0) + group_weight w pwrs pg"
  by (simp add: group_weight_def)

lemma group_weight_none: "pg \<notin> sp_pg_pin ` set pwrs \<Longrightarrow> group_weight w pwrs pg = 0"
  by (induction pwrs) (auto simp: group_weight_def)

lemma pg_duty_sums_value:
  assumes "\<forall>pwr \<in> set pwrs. table_known cu env st ce func pwr (act pwr) (duty pwr)"
  shows "pg_duty_sums cu env st ce func pwrs m =
    Inr (\<lambda>pg. if pg \<in> sp_pg_pin ` set pwrs
          then Some ((case m pg of None \<Rightarrow> 0 | Some s \<Rightarrow> s) + group_weight (\<lambda>pwr. act pwr * duty pwr) pwrs pg) else m pg)"
  using assms
proof (induction pwrs arbitrary: m)
  case (Cons pwr pwrs)
  have known: "table_known cu env st ce func pwr (act pwr) (duty pwr)" using Cons.prems by simp
  then obtain port where port: "sp_related pwr = Some port" by (auto simp: table_known_def split: option.splits bind_splits)
  have duty: "findInputDuty cu env st ce func pwr = Inr (duty pwr)" using known by (simp add: table_known_def)
  have "from_activity env st ce port = Inr (act pwr)"
    using known port by (auto simp: table_known_def from_activity_def split: option.splits)
  then show ?case using Cons.IH Cons.prems port duty by (auto simp: group_weight_Cons group_weight_none fun_eq_iff)
qed simp

lemma output_weight_value:
  assumes known: "\<forall>pwr \<in> set pwrs. table_known cu env st ce func pwr (act pwr) (duty pwr)" and pwr: "pwr \<in> set pwrs"
    and sums: "pg_duty_sums cu env st ce func pwrs Map.empty = Inr dsums"
  shows "output_weight cu env st ce func dsums pwr =
    Inr (act pwr * duty pwr / group_weight (\<lambda>pwr. act pwr * duty pwr) pwrs (sp_pg_pin pwr))"
proof -
  have "dsums (sp_pg_pin pwr) = Some (group_weight (\<lambda>pwr. act pwr * duty pwr) pwrs (sp_pg_pin pwr))"
    using sums pwr by (auto simp: pg_duty_sums_value [OF known])
  moreover have "table_known cu env st ce func pwr (act pwr) (duty pwr)" using known pwr by simp
  ultimately show ?thesis
    by (auto simp: output_weight_def table_known_def res_bind_def split: option.splits bind_splits sum.splits)
qed

section \<open>Properties\<close>

text \<open>C14: The statistical leakage is an expectation. When the leakage conditions of a cell exclude each other and
  their powers are positive, the statistical leakage of an instance is the expectation, over its ports being true
  independently with their duties, of the leakage read from the groups for a state: the power of the condition that
  holds, or the default of the cell (zero if it has none) when no condition holds.\<close>

theorem leakage_is_expectation:
  assumes cu: "cudd_ok cu ev mx" and known: "leaks_known env st (ce_inst ce) act mx V (ce_leakage_powers ce)"
    and leaks: "ce_leakage_powers ce \<noteq> []" "\<forall>leak \<in> set (ce_leakage_powers ce). lk_power leak > 0"
      "exclusive_leaks (ce_leakage_powers ce)"
    and cell: "ce_leakage_power ce = (dv, de)"
  shows "findLeakagePower cu env st ce =
    Inr (expectation (\<lambda>p. pa_duty (act p)) V (state_leakage (ce_leakage_powers ce) (if de then dv else 0)))"
proof -
  define d where "d = (\<lambda>p. pa_duty (act p))"
  define c where "c = (if de then dv else 0)"
  define P where "P = (\<lambda>l :: LeakagePower. prob d V (\<lambda>A. fe_eval A (lk_when l)))"
  let ?leaks = "ce_leakage_powers ce"
  have V: "finite V" using known by (simp add: leaks_known_def)
  have "expectation d V (state_leakage ?leaks c) =
      expectation d V (\<lambda>A. c + (\<Sum>l \<leftarrow> ?leaks. (lk_power l - c) * of_bool (fe_eval A (lk_when l))))"
    using leaks(3) unfolding exclusive_leaks_def by (intro expectation_cong state_leakage_sum) simp
  also have "\<dots> = c + (\<Sum>l \<leftarrow> ?leaks. (lk_power l - c) * P l)"
    by (simp add: expectation_add expectation_const [OF V] expectation_sum_list P_def)
  also have "\<dots> = (\<Sum>l \<leftarrow> ?leaks. lk_power l * P l) + c * (1 - (\<Sum>l \<leftarrow> ?leaks. P l))"
    by (simp add: algebra_simps sum_list_subtractf sum_list_const_mult)
  finally show ?thesis
    using leaks(1) leak_sums_value [OF cu known leaks(2)]
    by (simp add: findLeakagePower_def cell P_def d_def c_def Let_def)
qed

definition two_state_cell :: CellEnv where
  "two_state_cell =
     \<lparr>ce_inst = 0, ce_pins = [], ce_link_port = Some, ce_function = (\<lambda>_. FE_null),
      ce_load_slew = (\<lambda>_. Some (\<lambda>_. Some 1)), ce_load_is_clock = (\<lambda>pin. pin = 0), ce_arc_senses = (\<lambda>_ _. []),
      ce_leakage_powers = [\<lparr>lk_when = FE_and (FE_port 0) (FE_not (FE_port 1)), lk_power = 3\<rparr>,
                           \<lparr>lk_when = FE_not (FE_port 0), lk_power = 5\<rparr>],
      ce_leakage_power = (2, True)\<rparr>"

theorem leakage_is_expectation_witness:
  "findLeakagePower tt_cudd two_pin_env two_pin_acts two_state_cell = Inr (35/8)"
proof -
  have ports: "fe_ports (FE_and (FE_port 0) (FE_not (FE_port 1))) = {0, 1}" "fe_ports (FE_not (FE_port 0)) = {0}"
    by (auto simp: fe_ports_def)
  have pow: "Pow {0, 1 :: nat} = {{}, {0}, {1}, {0, 1}}" by (auto simp: Pow_insert)
  have known: "leaks_known two_pin_env two_pin_acts (ce_inst two_state_cell) two_pin_activity 2 {0, 1}
      (ce_leakage_powers two_state_cell)"
    using ports by (simp add: leaks_known_def two_state_cell_def two_pin_known)
  have "findLeakagePower tt_cudd two_pin_env two_pin_acts two_state_cell =
    Inr (expectation (\<lambda>p. pa_duty (two_pin_activity p)) {0, 1} (state_leakage (ce_leakage_powers two_state_cell) 2))"
    using leakage_is_expectation [OF tt_cudd_ok known, of 2 True]
    by (simp add: two_state_cell_def exclusive_leaks_def)
  then show ?thesis
    unfolding expectation_def pow
    by (simp add: state_leakage_def two_state_cell_def two_pin_activity_def pa_new_def insert_Diff_if)
qed

text \<open>C15: The internal power of an output is a sum of means. When every table of an output has a related pin with a
  known activity, the energies of the tables of each supply pin count with their mean, weighted by the activity of the
  related pin times the duty of the table; the sum of these means over the supply pins is the energy of a transition of
  the output, and a supply pin whose weights are all zero contributes nothing.\<close>

theorem output_power_weighted_means:
  assumes known: "\<forall>pwr \<in> set (st_internal_powers pin).
      table_known cu env st ce (ce_function ce to_port) pwr (act pwr) (duty pwr)"
  shows "findOutputInternalPower cu env st ce pin to_port to_act load_cap =
    Inr (pa_activity to_act * (\<Sum>pg \<in> sp_pg_pin ` set (st_internal_powers pin).
      group_weight (\<lambda>pwr. act pwr * duty pwr * average_energy (edge_energies pwr (output_slew env ce to_port pwr) load_cap))
        (st_internal_powers pin) pg /
      group_weight (\<lambda>pwr. act pwr * duty pwr) (st_internal_powers pin) pg))"
proof -
  let ?pwrs = "st_internal_powers pin"
  define E where "E = (\<lambda>pwr. average_energy (edge_energies pwr (output_slew env ce to_port pwr) load_cap))"
  define w where "w = (\<lambda>pwr. act pwr * duty pwr)"
  obtain dsums where sums: "pg_duty_sums cu env st ce (ce_function ce to_port) ?pwrs Map.empty = Inr dsums"
    using pg_duty_sums_value [OF known] by blast
  have "res_map (\<lambda>pwr. res_bind (output_weight cu env st ce (ce_function ce to_port) dsums pwr) (\<lambda>weight.
          Inr (weight * E pwr * pa_activity to_act))) ?pwrs =
      Inr (map (\<lambda>pwr. w pwr / group_weight w ?pwrs (sp_pg_pin pwr) * E pwr * pa_activity to_act) ?pwrs)"
    by (intro res_map_total) (simp add: output_weight_value [OF known _ sums] w_def)
  then have "findOutputInternalPower cu env st ce pin to_port to_act load_cap =
      Inr (\<Sum>pwr \<leftarrow> ?pwrs. w pwr / group_weight w ?pwrs (sp_pg_pin pwr) * E pwr * pa_activity to_act)"
    by (simp add: findOutputInternalPower_def sums E_def)
  also have "(\<Sum>pwr \<leftarrow> ?pwrs. w pwr / group_weight w ?pwrs (sp_pg_pin pwr) * E pwr * pa_activity to_act) =
      (\<Sum>pg \<in> sp_pg_pin ` set ?pwrs. \<Sum>pwr \<leftarrow> filter (\<lambda>pwr. sp_pg_pin pwr = pg) ?pwrs.
         w pwr / group_weight w ?pwrs (sp_pg_pin pwr) * E pwr * pa_activity to_act)"
    by (intro sum_list_groups) auto
  also have "\<dots> = (\<Sum>pg \<in> sp_pg_pin ` set ?pwrs.
      pa_activity to_act * (group_weight (\<lambda>pwr. w pwr * E pwr) ?pwrs pg / group_weight w ?pwrs pg))"
  proof (intro sum.cong refl)
    fix pg
    have "(\<Sum>pwr \<leftarrow> filter (\<lambda>pwr. sp_pg_pin pwr = pg) ?pwrs.
         w pwr / group_weight w ?pwrs (sp_pg_pin pwr) * E pwr * pa_activity to_act) =
       (\<Sum>pwr \<leftarrow> filter (\<lambda>pwr. sp_pg_pin pwr = pg) ?pwrs.
         pa_activity to_act / group_weight w ?pwrs pg * (w pwr * E pwr))"
      by (intro arg_cong [where f = sum_list] map_cong) auto
    then show "(\<Sum>pwr \<leftarrow> filter (\<lambda>pwr. sp_pg_pin pwr = pg) ?pwrs.
         w pwr / group_weight w ?pwrs (sp_pg_pin pwr) * E pwr * pa_activity to_act) =
       pa_activity to_act * (group_weight (\<lambda>pwr. w pwr * E pwr) ?pwrs pg / group_weight w ?pwrs pg)"
      by (simp only: sum_list_const_mult) (simp add: group_weight_def)
  qed
  finally show ?thesis by (simp add: sum_distrib_left w_def E_def)
qed

definition two_table_pin :: StatPin where
  "two_table_pin =
     \<lparr>st_pin = 2, st_port = Some 2, st_load_cap = 1, st_has_corner = True,
      st_internal_powers = [\<lparr>sp_when = FE_null, sp_related = Some 0, sp_pg_pin = None, sp_power = (\<lambda>_ slew _. 4 * slew)\<rparr>,
                            \<lparr>sp_when = FE_null, sp_related = Some 1, sp_pg_pin = None, sp_power = (\<lambda>_ _ cap. 8 * cap)\<rparr>],
      st_voltage = 1\<rparr>"

theorem output_power_weighted_means_witness:
  "findOutputInternalPower tt_cudd two_pin_env two_pin_acts two_state_cell two_table_pin 2 (pa_new 3 (1/2) PO_user) 1 = Inr 18"
proof -
  define act where "act = (\<lambda>pwr :: StatPower. if sp_related pwr = Some 0 then 1 else 2 :: real)"
  define duty where "duty = (\<lambda>pwr :: StatPower. if sp_related pwr = Some 0 then 1 else 1/2 :: real)"
  have "\<forall>pwr \<in> set (st_internal_powers two_table_pin).
      table_known tt_cudd two_pin_env two_pin_acts two_state_cell (ce_function two_state_cell 2) pwr (act pwr) (duty pwr)"
    by (simp add: two_table_pin_def table_known_def findInputDuty_def two_state_cell_def two_pin_env_def two_pin_acts_def
        findActivity_def known_activity_def power_new_def pa_isSet_def pa_unknown_def pa_new_def act_def duty_def)
  from output_power_weighted_means [OF this] show ?thesis
    by (simp add: group_weight_def two_table_pin_def act_def duty_def average_energy_def edge_energies_def rf_range_def
        output_slew_def two_state_cell_def two_pin_env_def pa_new_def)
qed

end
