(* ===== verification/GTP_PowerTotals.thy ===== *)
theory GTP_PowerTotals
  imports GTP_CellPower "HOL-Library.Multiset"
begin

text \<open>
  The totals of a power analysis (\<open>Power::power\<close> and \<open>PowerResult\<close>): the results of the instances are added to the
  total and to the group of the instance, one after the other or by threads that each take a range of the shuffled
  instances. The threads write to results of their own, which are merged in the order of the threads.
\<close>

section \<open>Results\<close>

record PowerClkedWaveform =
  cw_period :: real
  cw_waveform :: "real list"

definition pcw_new :: "real \<Rightarrow> nat \<Rightarrow> PowerClkedWaveform" where
  "pcw_new period n_period = \<lparr>cw_period = period, cw_waveform = replicate n_period 0\<rparr>"

text \<open>The five maps from instances to waveforms are a function of the kind of the waveform.\<close>

record PowerResult =
  pr_internal :: real
  pr_glitch_internal :: real
  pr_switching :: real
  pr_glitch_switching :: real
  pr_leakage :: real
  pr_waves :: "WaveKind \<Rightarrow> InstId \<rightharpoonup> PowerClkedWaveform"

definition pr_new :: PowerResult where
  "pr_new = \<lparr>pr_internal = 0, pr_glitch_internal = 0, pr_switching = 0, pr_glitch_switching = 0, pr_leakage = 0,
     pr_waves = (\<lambda>_. Map.empty)\<rparr>"

text \<open>Clearing keeps the glitch parts and the waveforms.\<close>

definition pr_clear :: "PowerResult \<Rightarrow> PowerResult" where
  "pr_clear r = r\<lparr>pr_internal := 0, pr_switching := 0, pr_leakage := 0\<rparr>"

definition pr_total :: "PowerResult \<Rightarrow> real" where
  "pr_total r = pr_internal r + pr_switching r + pr_leakage r"

text \<open>Inserting a range into a map keeps the entries that are there.\<close>

definition pr_incr :: "PowerResult \<Rightarrow> PowerResult \<Rightarrow> PowerResult" where
  "pr_incr result r =
     \<lparr>pr_internal = pr_internal r + pr_internal result, pr_glitch_internal = pr_glitch_internal r + pr_glitch_internal result,
      pr_switching = pr_switching r + pr_switching result,
      pr_glitch_switching = pr_glitch_switching r + pr_glitch_switching result, pr_leakage = pr_leakage r + pr_leakage result,
      pr_waves = (\<lambda>k. pr_waves result k ++ pr_waves r k)\<rparr>"

definition pr_initWave :: "WaveKind \<Rightarrow> InstId \<Rightarrow> real \<Rightarrow> nat \<Rightarrow> PowerResult \<Rightarrow> PowerResult" where
  "pr_initWave k inst clk_period n_period r =
     (case pr_waves r k inst of
        Some w \<Rightarrow> r
      | None \<Rightarrow> r\<lparr>pr_waves := (pr_waves r)(k := (pr_waves r k)(inst \<mapsto> pcw_new clk_period n_period))\<rparr>)"

text \<open>Reading a waveform throws when the instance has none; the index of a vector is not checked by the code.\<close>

definition pr_findWave :: "WaveKind \<Rightarrow> InstId \<Rightarrow> PowerResult \<Rightarrow> power_error + PowerClkedWaveform" where
  "pr_findWave k inst r = (case pr_waves r k inst of None \<Rightarrow> Inl StateOutOfRange | Some w \<Rightarrow> Inr w)"

definition pr_readWave :: "WaveKind \<Rightarrow> InstId \<Rightarrow> int \<Rightarrow> PowerResult \<Rightarrow> power_error + real" where
  "pr_readWave k inst c r = res_bind (pr_findWave k inst r) (\<lambda>w.
     if 0 \<le> c \<and> nat c < length (cw_waveform w) then Inr (cw_waveform w ! nat c) else Inl StateOutOfRange)"

definition pr_addWave :: "WaveKind \<Rightarrow> InstId \<Rightarrow> int \<Rightarrow> real \<Rightarrow> PowerResult \<Rightarrow> power_error + PowerResult" where
  "pr_addWave k inst c a r = res_bind (pr_findWave k inst r) (\<lambda>w. res_bind (pr_readWave k inst c r) (\<lambda>v.
     Inr (r\<lparr>pr_waves := (pr_waves r)(k := (pr_waves r k)(inst \<mapsto>
       w\<lparr>cw_waveform := (cw_waveform w)[nat c := v + a]\<rparr>))\<rparr>)))"

section \<open>Instances\<close>

record CellClass =
  cc_is_macro :: bool
  cc_is_memory :: bool
  cc_interface_timing :: bool
  cc_is_pad :: bool
  cc_has_sequentials :: bool

record PowerInst =
  pi_id :: InstId
  pi_cell :: "CellClass option"
  pi_pins :: "(PortDirection \<times> bool) list"

datatype PowerGroup = G_macro | G_pad | G_clock | G_sequential | G_combinational

text \<open>Every output of an instance of the clock network is a clock pin.\<close>

definition inClockNetwork :: "PowerInst \<Rightarrow> bool" where
  "inClockNetwork inst = list_all (\<lambda>(dir, is_clock). \<not> (pd_isAnyOutput dir \<and> \<not> is_clock)) (pi_pins inst)"

definition power_group :: "CellClass \<Rightarrow> PowerInst \<Rightarrow> PowerGroup" where
  "power_group cell inst =
     (if cc_is_macro cell \<or> cc_is_memory cell \<or> cc_interface_timing cell then G_macro
      else if cc_is_pad cell then G_pad
      else if inClockNetwork inst then G_clock
      else if cc_has_sequentials cell then G_sequential
      else G_combinational)"

text \<open>What a run reads: the simulation with the gates of the instances, and the cells of the statistical engine.\<close>

record 'n PowerRun =
  pu_env :: SimEnv
  pu_top :: InstId
  pu_gate :: "InstId \<Rightarrow> power_error + Gate"
  pu_cudd :: "'n Cudd"
  pu_penv :: PowerEnv
  pu_acts :: PowerActs
  pu_cell_env :: "InstId \<Rightarrow> CellEnv"

text \<open>\<open>Power::power\<close> of one instance: the three parts of the statistical power.\<close>

definition power_cell :: "'n PowerRun \<Rightarrow> PowerInst \<Rightarrow> power_error + PowerResult" where
  "power_cell run inst =
     (let ce = pu_cell_env run (pi_id inst) in
      res_bind (findInternalPower (pu_cudd run) (pu_penv run) (pu_acts run) ce) (\<lambda>internal.
      res_bind (findSwitchingPower (pu_penv run) (pu_acts run) ce) (\<lambda>switching.
      res_bind (findLeakagePower (pu_cudd run) (pu_penv run) (pu_acts run) ce) (\<lambda>leakage.
        Inr (pr_new\<lparr>pr_internal := internal, pr_switching := switching, pr_leakage := leakage\<rparr>)))))"

text \<open>The time-based power of one instance adds to the waveforms of the top instance in the given total.\<close>

definition gate_result :: "LoopState \<Rightarrow> PowerResult" where
  "gate_result ls = pr_new\<lparr>pr_internal := ls_internal ls, pr_glitch_internal := ls_glitch_internal ls,
     pr_switching := ls_switching ls, pr_glitch_switching := ls_glitch_switching ls, pr_leakage := ls_leakage ls\<rparr>"

definition time_power :: "'n PowerRun \<Rightarrow> PowerInst \<Rightarrow> PowerResult \<Rightarrow> power_error + (PowerResult \<times> PowerResult)" where
  "time_power run inst r =
     res_bind (pu_gate run (pi_id inst)) (\<lambda>g. res_bind (timeBasedPower (pu_env run) g) (\<lambda>ls.
     res_bind (res_fold (\<lambda>(k, c, a). pr_addWave k (pu_top run) c a) (ls_wave ls) r) (\<lambda>r'.
       Inr (gate_result ls, r'))))"

section \<open>Reports\<close>

record PowerReport =
  rp_total :: PowerResult
  rp_group :: "PowerGroup \<Rightarrow> PowerResult"
  rp_cells :: "(InstId \<times> PowerResult) list"

definition report_new :: PowerReport where
  "report_new = \<lparr>rp_total = pr_new, rp_group = (\<lambda>_. pr_new), rp_cells = []\<rparr>"

definition report_add :: "CellClass \<Rightarrow> PowerInst \<Rightarrow> PowerResult \<Rightarrow> PowerReport \<Rightarrow> PowerReport" where
  "report_add cell inst res rp =
     rp\<lparr>rp_group := (rp_group rp)(power_group cell inst := pr_incr res (rp_group rp (power_group cell inst))),
        rp_total := pr_incr res (rp_total rp)\<rparr>"

definition init_waves :: "'n PowerRun \<Rightarrow> nat \<Rightarrow> PowerResult \<Rightarrow> PowerResult" where
  "init_waves run n =
     fold (\<lambda>k. pr_initWave k (pu_top run) (se_clk_period (pu_env run)) n)
       [W_leakage, W_internal, W_glitch_internal, W_switching, W_glitch_switching]"

definition run_n_period :: "'n PowerRun \<Rightarrow> nat" where
  "run_n_period run = nat \<lceil>of_int (se_time_max (pu_env run)) * se_time_scale (pu_env run) / se_clk_period (pu_env run)\<rceil>"

definition power_start :: "'n PowerRun \<Rightarrow> PowerReport \<Rightarrow> PowerReport" where
  "power_start run rp =
     \<lparr>rp_total = init_waves run (run_n_period run) (pr_clear (rp_total rp)),
      rp_group = (\<lambda>g. pr_clear (rp_group rp g)), rp_cells = []\<rparr>"

text \<open>One instance of the sequential loop.\<close>

definition power_step :: "'n PowerRun \<Rightarrow> bool \<Rightarrow> PowerInst \<Rightarrow> PowerReport \<Rightarrow> power_error + PowerReport" where
  "power_step run time_based inst rp =
     (case pi_cell inst of
        None \<Rightarrow> Inr rp
      | Some cell \<Rightarrow>
          if time_based then
            res_bind (time_power run inst (rp_total rp)) (\<lambda>(res, r).
              Inr (report_add cell inst res (rp\<lparr>rp_total := r, rp_cells := rp_cells rp @ [(pi_id inst, res)]\<rparr>)))
          else res_bind (power_cell run inst) (\<lambda>res. Inr (report_add cell inst res rp)))"

section \<open>Threads\<close>

definition thread_start :: "nat \<Rightarrow> nat \<Rightarrow> nat \<Rightarrow> nat" where
  "thread_start n_inst n_thread t = t * (n_inst div n_thread) + min t (n_inst mod n_thread)"

definition thread_instances :: "nat \<Rightarrow> PowerInst list \<Rightarrow> nat \<Rightarrow> power_error + PowerInst list" where
  "thread_instances n_thread insts t =
     (let start = thread_start (length insts) n_thread t;
          finish = start + length insts div n_thread + (if t < length insts mod n_thread then 1 else 0)
      in res_map (\<lambda>i. if i < length insts then Inr (insts ! i) else Inl StateOutOfRange) [start..<finish])"

text \<open>The job of a thread: its waveforms, and the results of its instances.\<close>

definition thread_job :: "'n PowerRun \<Rightarrow> PowerInst list \<Rightarrow> power_error + (PowerResult \<times> PowerResult list)" where
  "thread_job run insts =
     res_fold (\<lambda>inst (r, results). res_bind (time_power run inst r) (\<lambda>(res, r'). Inr (r', results @ [res])))
       insts (init_waves run (run_n_period run) pr_new, [])"

definition run_thread ::
  "'n PowerRun \<Rightarrow> PowerInst list \<Rightarrow> power_error + (PowerInst list \<times> PowerResult \<times> PowerResult list)" where
  "run_thread run insts = res_bind (thread_job run insts) (\<lambda>(r, results). Inr (insts, r, results))"

definition merge_waves :: "'n PowerRun \<Rightarrow> PowerResult \<Rightarrow> PowerResult \<Rightarrow> power_error + PowerResult" where
  "merge_waves run thread_result r =
     res_fold (\<lambda>(c, k) r. res_bind (pr_readWave k (pu_top run) (int c) thread_result) (\<lambda>a.
         pr_addWave k (pu_top run) (int c) a r))
       (List.product [0..<run_n_period run] [W_leakage, W_internal, W_glitch_internal, W_switching, W_glitch_switching]) r"

definition merge_result :: "PowerInst \<times> PowerResult \<Rightarrow> PowerReport \<Rightarrow> power_error + PowerReport" where
  "merge_result = (\<lambda>(inst, res) rp.
     case pi_cell inst of
       None \<Rightarrow> Inl NullDeref
     | Some cell \<Rightarrow> Inr (report_add cell inst res (rp\<lparr>rp_cells := rp_cells rp @ [(pi_id inst, res)]\<rparr>)))"

definition merge_thread ::
  "'n PowerRun \<Rightarrow> PowerInst list \<times> PowerResult \<times> PowerResult list \<Rightarrow> PowerReport \<Rightarrow> power_error + PowerReport" where
  "merge_thread run = (\<lambda>(insts, thread_result, results) rp.
     res_bind (merge_waves run thread_result (rp_total rp)) (\<lambda>r.
       if length insts \<noteq> length results then Inl AssertFailed
       else res_fold merge_result (zip insts results) (rp\<lparr>rp_total := r\<rparr>)))"

text \<open>
  The whole analysis. \<open>shuffle\<close> is the order in which the random engine leaves the instances that have a cell. With no
  thread the division by their number fails.
\<close>

definition power_threads ::
  "'n PowerRun \<Rightarrow> nat \<Rightarrow> (PowerInst list \<Rightarrow> PowerInst list) \<Rightarrow> PowerInst list \<Rightarrow> PowerReport \<Rightarrow> power_error + PowerReport"
where
  "power_threads run n_thread shuffle insts rp =
     (if n_thread = 0 then Inl AssertFailed
      else let gates = shuffle (filter (\<lambda>inst. pi_cell inst \<noteq> None) insts) in
        res_bind (res_map (thread_instances n_thread gates) [0..<n_thread]) (\<lambda>per_thread.
        res_bind (res_map (run_thread run) per_thread) (\<lambda>jobs.
          res_fold (merge_thread run) jobs (power_start run rp))))"

definition power_sequential :: "'n PowerRun \<Rightarrow> bool \<Rightarrow> PowerInst list \<Rightarrow> PowerReport \<Rightarrow> power_error + PowerReport" where
  "power_sequential run time_based insts rp = res_fold (power_step run time_based) insts (power_start run rp)"

definition power_all ::
  "'n PowerRun \<Rightarrow> bool \<Rightarrow> bool \<Rightarrow> nat \<Rightarrow> (PowerInst list \<Rightarrow> PowerInst list) \<Rightarrow> PowerInst list \<Rightarrow> PowerReport \<Rightarrow>
   power_error + PowerReport"
where
  "power_all run multi_threaded time_based n_thread shuffle insts rp =
     (if multi_threaded then
        (if \<not> time_based then Inl AssertFailed else power_threads run n_thread shuffle insts rp)
      else power_sequential run time_based insts rp)"

section \<open>Hierarchical instances\<close>

datatype PowerTree = PT_leaf PowerInst | PT_hier "PowerTree list"

fun powerInside :: "'n PowerRun \<Rightarrow> PowerTree list \<Rightarrow> PowerResult \<Rightarrow> power_error + PowerResult" where
  "powerInside run [] r = Inr r"
| "powerInside run (PT_hier children # ts) r = res_bind (powerInside run children r) (powerInside run ts)"
| "powerInside run (PT_leaf inst # ts) r =
     (case pi_cell inst of
        None \<Rightarrow> powerInside run ts r
      | Some cell \<Rightarrow> res_bind (power_cell run inst) (\<lambda>res. powerInside run ts (pr_incr res r)))"

text \<open>Only for a leaf are the activities brought up to date first, by \<open>ensure\<close>.\<close>

definition power_inst :: "('n PowerRun \<Rightarrow> power_error + 'n PowerRun) \<Rightarrow> 'n PowerRun \<Rightarrow> PowerTree \<Rightarrow> power_error + PowerResult" where
  "power_inst ensure run t =
     (case t of
        PT_hier children \<Rightarrow> powerInside run children pr_new
      | PT_leaf inst \<Rightarrow> (case pi_cell inst of
          None \<Rightarrow> Inr pr_new
        | Some cell \<Rightarrow> res_bind (ensure run) (\<lambda>run'. power_cell run' inst)))"
section \<open>Lemmas: additions to waveforms\<close>

text \<open>Adding the values of \<open>d\<close> to all waveforms of an instance.\<close>

definition add_waves :: "InstId \<Rightarrow> (WaveKind \<Rightarrow> nat \<Rightarrow> real) \<Rightarrow> PowerResult \<Rightarrow> PowerResult" where
  "add_waves ti d r = r\<lparr>pr_waves := (\<lambda>k. (pr_waves r k)(ti \<mapsto>
     (the (pr_waves r k ti))\<lparr>cw_waveform := map (\<lambda>c. cw_waveform (the (pr_waves r k ti)) ! c + d k c)
        [0..<length (cw_waveform (the (pr_waves r k ti)))]\<rparr>))\<rparr>"

definition has_waves :: "InstId \<Rightarrow> nat \<Rightarrow> PowerResult \<Rightarrow> bool" where
  "has_waves ti n r \<longleftrightarrow> (\<forall>k. \<exists>w. pr_waves r k ti = Some w \<and> length (cw_waveform w) = n)"

definition wave_adds :: "(WaveKind \<times> int \<times> real) list \<Rightarrow> WaveKind \<Rightarrow> nat \<Rightarrow> real" where
  "wave_adds adds k c = (\<Sum>(k', c', a) \<leftarrow> adds. if k' = k \<and> nat c' = c then a else 0)"

definition in_waves :: "nat \<Rightarrow> (WaveKind \<times> int \<times> real) list \<Rightarrow> bool" where
  "in_waves n adds \<longleftrightarrow> (\<forall>(k, c, a) \<in> set adds. 0 \<le> c \<and> nat c < n)"

lemma add_waves_add: "add_waves ti d (add_waves ti e r) = add_waves ti (\<lambda>k c. e k c + d k c) r"
  by (simp add: add_waves_def fun_eq_iff)


lemma has_add_waves: "has_waves ti n r \<Longrightarrow> has_waves ti n (add_waves ti d r)"
proof -
  assume r: "has_waves ti n r"
  have "length (cw_waveform (the (pr_waves r k ti))) = n" for k using r by (metis has_waves_def option.sel)
  then show ?thesis by (simp add: has_waves_def add_waves_def)
qed

lemma add_waves_cong:
  assumes "has_waves ti n r" "\<And>k c. c < n \<Longrightarrow> d k c = e k c"
  shows "add_waves ti d r = add_waves ti e r"
proof -
  have len: "length (cw_waveform (the (pr_waves r k ti))) = n" for k
    using assms(1) by (metis has_waves_def option.sel)
  have vals: "map (\<lambda>c. w ! c + d k c) [0..<n] = map (\<lambda>c. w ! c + e k c) [0..<n]" for w k
    using assms(2) by (intro map_cong) auto
  show ?thesis unfolding add_waves_def len vals ..
qed

lemma add_waves_zero:
  assumes "has_waves ti n r"
  shows "add_waves ti (\<lambda>_ _. 0) r = r"
proof -
  have "(pr_waves r k)(ti \<mapsto> the (pr_waves r k ti)) = pr_waves r k" for k
    using assms by (metis fun_upd_triv has_waves_def option.sel)
  then show ?thesis by (simp add: add_waves_def map_nth)
qed

lemma addWave_value:
  assumes r: "has_waves ti n r"
  shows "pr_addWave k ti c a r =
    (if 0 \<le> c \<and> nat c < n then Inr (add_waves ti (wave_adds [(k, c, a)]) r) else Inl StateOutOfRange)"
proof -
  have "\<forall>k. \<exists>w. pr_waves r k ti = Some w \<and> length (cw_waveform w) = n" using r by (simp add: has_waves_def)
  then obtain w where w: "\<And>k. pr_waves r k ti = Some (w k)" "\<And>k. length (cw_waveform (w k)) = n" by metis
  have upd: "(cw_waveform (w k))[nat c := cw_waveform (w k) ! nat c + a] =
      map (\<lambda>i. cw_waveform (w k) ! i + wave_adds [(k, c, a)] k i) [0..<n]" if "nat c < n"
    using that w(2) by (intro nth_equalityI) (auto simp: wave_adds_def nth_list_update)
  have "w k' = w k'\<lparr>cw_waveform := map (\<lambda>i. cw_waveform (w k') ! i + wave_adds [(k, c, a)] k' i) [0..<n]\<rparr>" if "k' \<noteq> k" for k'
    using that map_nth [of "cw_waveform (w k')"] w(2) [of k'] by (simp add: wave_adds_def)
  then have "(pr_waves r)(k := (pr_waves r k)(ti \<mapsto> w k\<lparr>cw_waveform := (cw_waveform (w k))[nat c := cw_waveform (w k) ! nat c + a]\<rparr>)) =
      (\<lambda>k'. (pr_waves r k')(ti \<mapsto> w k'\<lparr>cw_waveform := map (\<lambda>i. cw_waveform (w k') ! i + wave_adds [(k, c, a)] k' i) [0..<n]\<rparr>))"
    if "nat c < n"
    using w(1) upd [OF that] by (auto simp: fun_eq_iff)
  then show ?thesis
    by (auto simp: pr_addWave_def pr_readWave_def pr_findWave_def w add_waves_def)
qed

lemma wave_adds_Cons: "wave_adds (x # adds) k c = wave_adds [x] k c + wave_adds adds k c"
  by (simp add: wave_adds_def split: prod.split)

lemma adds_value:
  assumes "has_waves ti n r" "in_waves n adds"
  shows "res_fold (\<lambda>(k, c, a). pr_addWave k ti c a) adds r = Inr (add_waves ti (wave_adds adds) r)"
  using assms
proof (induction adds arbitrary: r)
  case Nil
  then show ?case using add_waves_zero [of ti n r] by (simp add: wave_adds_def)
next
  case (Cons x adds)
  obtain k c a where x: "x = (k, c, a)" by (cases x)
  have "in_waves n adds" "0 \<le> c" "nat c < n" using Cons.prems by (auto simp: in_waves_def x)
  moreover have "wave_adds (x # adds) = (\<lambda>k c. wave_adds [x] k c + wave_adds adds k c)"
    by (simp add: fun_eq_iff wave_adds_Cons [of x adds])
  ultimately show ?case
    using Cons.IH [of "add_waves ti (wave_adds [x]) r"] Cons.prems(1)
    by (simp add: x addWave_value [OF Cons.prems(1)] has_add_waves add_waves_add)
qed

lemma adds_in_waves:
  assumes "has_waves ti n r" "res_fold (\<lambda>(k, c, a). pr_addWave k ti c a) adds r = Inr r'"
  shows "in_waves n adds"
  using assms
proof (induction adds arbitrary: r)
  case (Cons x adds)
  obtain k c a where x: "x = (k, c, a)" by (cases x)
  have "0 \<le> c" "nat c < n" and "res_fold (\<lambda>(k, c, a). pr_addWave k ti c a) adds (add_waves ti (wave_adds [x]) r) = Inr r'"
    using Cons.prems by (auto simp: x addWave_value [OF Cons.prems(1)] split: if_splits)
  then show ?case using Cons.IH [OF has_add_waves [OF Cons.prems(1)]] by (auto simp: in_waves_def x)
qed (simp add: in_waves_def)

section \<open>Lemmas: the power of an instance\<close>

definition inst_loop :: "'n PowerRun \<Rightarrow> PowerInst \<Rightarrow> power_error + LoopState" where
  "inst_loop run inst = res_bind (pu_gate run (pi_id inst)) (timeBasedPower (pu_env run))"

definition inst_runs :: "'n PowerRun \<Rightarrow> PowerInst \<Rightarrow> bool" where
  "inst_runs run inst \<longleftrightarrow> (\<exists>ls. inst_loop run inst = Inr ls \<and> in_waves (run_n_period run) (ls_wave ls))"

definition inst_result :: "'n PowerRun \<Rightarrow> PowerInst \<Rightarrow> PowerResult" where
  "inst_result run inst = gate_result (projr (inst_loop run inst))"

definition inst_adds :: "'n PowerRun \<Rightarrow> PowerInst \<Rightarrow> WaveKind \<Rightarrow> nat \<Rightarrow> real" where
  "inst_adds run inst = wave_adds (ls_wave (projr (inst_loop run inst)))"

lemma time_power_loop:
  "time_power run inst r = res_bind (inst_loop run inst) (\<lambda>ls.
     res_bind (res_fold (\<lambda>(k, c, a). pr_addWave k (pu_top run) c a) (ls_wave ls) r) (\<lambda>r'. Inr (gate_result ls, r')))"
  by (simp add: time_power_def inst_loop_def res_bind_def split: sum.split)

lemma time_power_value:
  assumes "has_waves (pu_top run) (run_n_period run) r" "inst_runs run inst"
  shows "time_power run inst r = Inr (inst_result run inst, add_waves (pu_top run) (inst_adds run inst) r)"
  using assms by (auto simp: time_power_loop inst_runs_def adds_value inst_result_def inst_adds_def)

lemma time_power_runs:
  assumes "has_waves (pu_top run) (run_n_period run) r" "time_power run inst r = Inr x"
  shows "inst_runs run inst"
  using assms adds_in_waves by (fastforce simp: time_power_loop inst_runs_def)
section \<open>Lemmas: the order of the instances\<close>

lemma incr_add_waves:
  "pr_waves res = (\<lambda>_. Map.empty) \<Longrightarrow> pr_incr res (add_waves ti d r) = add_waves ti d (pr_incr res r)"
  by (simp add: pr_incr_def add_waves_def)

lemma incr_commute:
  "pr_waves a = (\<lambda>_. Map.empty) \<Longrightarrow> pr_waves b = (\<lambda>_. Map.empty) \<Longrightarrow> pr_incr a (pr_incr b r) = pr_incr b (pr_incr a r)"
  by (simp add: pr_incr_def algebra_simps)

lemma result_no_waves [simp]: "pr_waves (inst_result run inst) = (\<lambda>_. Map.empty)"
  by (simp add: inst_result_def gate_result_def pr_new_def)

text \<open>The effect of one instance on the total and the groups, and its parts: the waveforms, then the sums.\<close>

definition wave_effect :: "InstId \<Rightarrow> (WaveKind \<Rightarrow> nat \<Rightarrow> real) \<Rightarrow> PowerReport \<Rightarrow> PowerReport" where
  "wave_effect ti d rp = rp\<lparr>rp_total := add_waves ti d (rp_total rp)\<rparr>"

definition sum_effect :: "'n PowerRun \<Rightarrow> PowerInst \<Rightarrow> PowerReport \<Rightarrow> PowerReport" where
  "sum_effect run inst rp =
     (case pi_cell inst of None \<Rightarrow> rp | Some cell \<Rightarrow> report_add cell inst (inst_result run inst) rp)"

definition inst_effect :: "'n PowerRun \<Rightarrow> PowerInst \<Rightarrow> PowerReport \<Rightarrow> PowerReport" where
  "inst_effect run inst rp = sum_effect run inst (wave_effect (pu_top run) (inst_adds run inst) rp)"

lemma wave_effect_add: "wave_effect ti d (wave_effect ti e rp) = wave_effect ti (\<lambda>k c. e k c + d k c) rp"
  by (simp add: wave_effect_def add_waves_add)

lemma sum_wave_effect: "sum_effect run inst (wave_effect ti d rp) = wave_effect ti d (sum_effect run inst rp)"
  by (simp add: sum_effect_def wave_effect_def report_add_def incr_add_waves split: option.split)

lemma sum_effect_commute: "sum_effect run a (sum_effect run b rp) = sum_effect run b (sum_effect run a rp)"
  by (auto simp: sum_effect_def report_add_def incr_commute fun_eq_iff split: option.split)

lemma inst_effect_commute: "inst_effect run a (inst_effect run b rp) = inst_effect run b (inst_effect run a rp)"
  by (simp add: inst_effect_def sum_wave_effect wave_effect_add sum_effect_commute [of run a b] add.commute)

lemma inst_effects_mset: "mset is = mset js \<Longrightarrow> fold (inst_effect run) is rp = fold (inst_effect run) js rp"
  by (rule fun_cong [OF fold_multiset_equiv]) (simp_all add: fun_eq_iff inst_effect_commute)

lemma fold_effects:
  "fold (inst_effect run) is rp =
     fold (sum_effect run) is (wave_effect (pu_top run) (\<lambda>k c. \<Sum>i \<leftarrow> is. inst_adds run i k c) rp)"
  if "has_waves (pu_top run) n (rp_total rp)"
proof -
  have move: "fold (sum_effect run) is (wave_effect ti d rp) = wave_effect ti d (fold (sum_effect run) is rp)" for "is" ti d rp
    by (induction "is" arbitrary: rp) (simp_all add: sum_wave_effect)
  have keep: "has_waves ti n (rp_total (sum_effect run i (wave_effect ti d rp)))" if "has_waves ti n (rp_total rp)" for ti d i rp
    using has_add_waves [OF that, of d]
    by (auto simp: sum_effect_def report_add_def wave_effect_def pr_incr_def has_waves_def split: option.splits)
  show ?thesis using that
  proof (induction "is" arbitrary: rp)
    case Nil
    then show ?case using add_waves_zero by (simp add: wave_effect_def)
  next
    case (Cons i "is")
    then show ?case using Cons.IH [OF keep [OF Cons.prems]]
      by (simp add: inst_effect_def move sum_wave_effect wave_effect_add add.commute)
  qed
qed

section \<open>Lemmas: the sequential loop\<close>

definition has_cell :: "PowerInst \<Rightarrow> bool" where
  "has_cell inst \<longleftrightarrow> pi_cell inst \<noteq> None"

definition cell_results :: "'n PowerRun \<Rightarrow> PowerInst list \<Rightarrow> (InstId \<times> PowerResult) list" where
  "cell_results run is = map (\<lambda>i. (pi_id i, inst_result run i)) (filter has_cell is)"

lemma effect_fields:
  "rp_cells (inst_effect run i rp) = rp_cells rp"
  "inst_effect run i (rp\<lparr>rp_cells := cs\<rparr>) = (inst_effect run i rp)\<lparr>rp_cells := cs\<rparr>"
  by (simp_all add: inst_effect_def sum_effect_def wave_effect_def report_add_def split: option.split)

lemma effects_fields:
  "rp_cells (fold (inst_effect run) is rp) = rp_cells rp"
  "fold (inst_effect run) is (rp\<lparr>rp_cells := cs\<rparr>) = (fold (inst_effect run) is rp)\<lparr>rp_cells := cs\<rparr>"
  by (induction "is" arbitrary: rp) (simp_all add: effect_fields)

lemma has_waves_effect:
  assumes "has_waves (pu_top run) n (rp_total rp)"
  shows "has_waves (pu_top run) n (rp_total (inst_effect run i rp))"
  using has_add_waves [OF assms, of "inst_adds run i"]
  by (auto simp: inst_effect_def sum_effect_def report_add_def wave_effect_def pr_incr_def has_waves_def split: option.splits)

lemma has_waves_effects:
  "has_waves (pu_top run) n (rp_total rp) \<Longrightarrow> has_waves (pu_top run) n (rp_total (fold (inst_effect run) is rp))"
  by (induction "is" arbitrary: rp) (simp_all add: has_waves_effect)

lemma power_step_value:
  assumes "has_waves (pu_top run) (run_n_period run) (rp_total rp)" "has_cell inst" "inst_runs run inst"
  shows "power_step run True inst rp =
    Inr ((inst_effect run inst rp)\<lparr>rp_cells := rp_cells rp @ [(pi_id inst, inst_result run inst)]\<rparr>)"
  using assms(2) time_power_value [OF assms(1,3)]
  by (auto simp: power_step_def has_cell_def inst_effect_def sum_effect_def wave_effect_def report_add_def)

lemma sequential_value:
  assumes "has_waves (pu_top run) (run_n_period run) (rp_total rp)" "res_fold (power_step run True) is rp = Inr rp'"
  shows "rp' = (fold (inst_effect run) (filter has_cell is) rp)\<lparr>rp_cells := rp_cells rp @ cell_results run is\<rparr> \<and>
    (\<forall>i \<in> set (filter has_cell is). inst_runs run i)"
  using assms
proof (induction "is" arbitrary: rp)
  case (Cons i "is")
  show ?case
  proof (cases "has_cell i")
    case False
    then have "power_step run True i rp = Inr rp" by (simp add: has_cell_def power_step_def)
    then show ?thesis using Cons False by (simp add: cell_results_def)
  next
    case True
    obtain rp1 where rp1: "power_step run True i rp = Inr rp1" "res_fold (power_step run True) is rp1 = Inr rp'"
      using Cons.prems(2) by auto
    then have runs: "inst_runs run i"
      using True time_power_runs [OF Cons.prems(1)] by (auto simp: power_step_def has_cell_def)
    from power_step_value [OF Cons.prems(1) True this] have
      rp1': "rp1 = (inst_effect run i rp)\<lparr>rp_cells := rp_cells rp @ [(pi_id i, inst_result run i)]\<rparr>" using rp1(1) by simp
    have "has_waves (pu_top run) (run_n_period run) (rp_total rp1)" using has_waves_effect [OF Cons.prems(1)] by (simp add: rp1')
    from Cons.IH [OF this rp1(2)] True runs show ?thesis by (simp add: rp1' effects_fields cell_results_def)
  qed
qed (simp add: cell_results_def)
lemma sequential_returns:
  assumes "has_waves (pu_top run) (run_n_period run) (rp_total rp)" "\<forall>i \<in> set is. has_cell i \<and> inst_runs run i"
  shows "res_fold (power_step run True) is rp =
    Inr ((fold (inst_effect run) is rp)\<lparr>rp_cells := rp_cells rp @ cell_results run is\<rparr>)"
  using assms
proof (induction "is" arbitrary: rp)
  case (Cons i "is")
  then show ?case
    by (simp add: power_step_value has_waves_effect effects_fields cell_results_def)
qed (simp add: cell_results_def)

section \<open>Lemmas: the ranges of the threads\<close>

lemma concat_ranges: "(\<And>i. i < n \<Longrightarrow> f i \<le> f (Suc i)) \<Longrightarrow> concat (map (\<lambda>i. [f i..<f (Suc i)]) [0..<n]) = [f 0..<f n]"
proof (induction n)
  case (Suc n)
  have "f 0 \<le> f m" if "m \<le> n" for m using that Suc.prems by (induction m) (auto intro: order_trans)
  then have "f 0 \<le> f n" "f n \<le> f (Suc n)" using Suc.prems by simp_all
  then have "[f 0..<f (Suc n)] = [f 0..<f n] @ [f n..<f (Suc n)]"
    using upt_add_eq_append [of "f 0" "f n" "f (Suc n) - f n"] by simp
  then show ?case using Suc by simp
qed simp

lemma thread_start_next:
  "thread_start count' n t + count' div n + (if t < count' mod n then 1 else 0) = thread_start count' n (Suc t)"
  by (simp add: thread_start_def)

lemma thread_start_bounds:
  assumes "0 < n" shows "thread_start c n 0 = 0" "thread_start c n n = c"
  using assms mod_less_divisor [of n c] by (simp_all add: thread_start_def)

lemma thread_start_mono: "s \<le> t \<Longrightarrow> thread_start c n s \<le> thread_start c n t"
  by (auto simp: thread_start_def intro!: add_mono mult_le_mono1)

lemma thread_slices:
  assumes "0 < n"
  shows "\<exists>slices. res_map (thread_instances n is) [0..<n] = Inr slices \<and> concat slices = is"
proof -
  define f where "f = thread_start (length is) n"
  define slice where "slice = (\<lambda>t. map ((!) is) [f t..<f (Suc t)])"
  have len: "f (Suc t) \<le> length is" if "t < n" for t
    using thread_start_mono [of "Suc t" n "length is" n] thread_start_bounds(2) [OF assms, of "length is"] that by (simp add: f_def)
  have "thread_instances n is t = Inr (slice t)" if "t < n" for t
    unfolding thread_instances_def Let_def thread_start_next
    unfolding slice_def f_def [symmetric]
    by (intro res_map_total) (use len [OF that] in auto)
  then have "res_map (thread_instances n is) [0..<n] = Inr (map slice [0..<n])" by (intro res_map_total) simp
  moreover have "concat (map slice [0..<n]) = map ((!) is) (concat (map (\<lambda>t. [f t..<f (Suc t)]) [0..<n]))"
    by (simp add: slice_def map_concat comp_def)
  then have "concat (map slice [0..<n]) = is"
    using concat_ranges [of n f] thread_start_mono [of _ _ "length is" n] thread_start_bounds [OF assms, of "length is"]
    by (simp add: f_def map_nth)
  ultimately show ?thesis by blast
qed

section \<open>Lemmas: jobs and merges\<close>

definition wave_of :: "InstId \<Rightarrow> PowerResult \<Rightarrow> WaveKind \<Rightarrow> nat \<Rightarrow> real" where
  "wave_of ti r k c = cw_waveform (the (pr_waves r k ti)) ! c"

lemma wave_of_add: "has_waves ti n r \<Longrightarrow> c < n \<Longrightarrow> wave_of ti (add_waves ti d r) k c = wave_of ti r k c + d k c"
proof -
  assume r: "has_waves ti n r" "c < n"
  have "length (cw_waveform (the (pr_waves r k ti))) = n" using r(1) by (metis has_waves_def option.sel)
  then show ?thesis using r(2) by (simp add: wave_of_def add_waves_def)
qed

lemma update_kinds:
  "m(W_leakage := g W_leakage, W_internal := g W_internal, W_glitch_internal := g W_glitch_internal,
     W_switching := g W_switching, W_glitch_switching := g W_glitch_switching) = g"
proof (rule ext)
  fix k show "(m(W_leakage := g W_leakage, W_internal := g W_internal, W_glitch_internal := g W_glitch_internal,
     W_switching := g W_switching, W_glitch_switching := g W_glitch_switching)) k = g k" by (cases k) simp_all
qed

lemma init_waves_new:
  assumes "\<And>k. pr_waves r k (pu_top run) = None"
  shows "init_waves run n r = r\<lparr>pr_waves := (\<lambda>k. (pr_waves r k)(pu_top run \<mapsto> pcw_new (se_clk_period (pu_env run)) n))\<rparr>"
  using assms update_kinds [of "pr_waves r" "\<lambda>k. (pr_waves r k)(pu_top run \<mapsto> pcw_new (se_clk_period (pu_env run)) n)"]
  by (simp add: init_waves_def pr_initWave_def)

lemma init_waves_has:
  assumes "\<And>k. pr_waves r k (pu_top run) = None"
  shows "has_waves (pu_top run) n (init_waves run n r)" "c < n \<Longrightarrow> wave_of (pu_top run) (init_waves run n r) k c = 0"
  by (simp_all add: init_waves_new [OF assms] has_waves_def wave_of_def pcw_new_def)

lemma thread_job_value:
  assumes "\<forall>i \<in> set is. inst_runs run i"
  shows "thread_job run is = Inr (add_waves (pu_top run) (\<lambda>k c. \<Sum>i \<leftarrow> is. inst_adds run i k c)
    (init_waves run (run_n_period run) pr_new), map (inst_result run) is)"
proof -
  have "res_fold (\<lambda>inst (r, results). res_bind (time_power run inst r) (\<lambda>(res, r'). Inr (r', results @ [res]))) is (r, results) =
      Inr (add_waves (pu_top run) (\<lambda>k c. \<Sum>i \<leftarrow> is. inst_adds run i k c) r, results @ map (inst_result run) is)"
    if "has_waves (pu_top run) (run_n_period run) r" for r results
    using that assms
  proof (induction "is" arbitrary: r results)
    case Nil
    then show ?case using add_waves_zero by simp
  next
    case (Cons i "is")
    then show ?case
      using Cons.IH [OF has_add_waves [OF Cons.prems(1)]] by (simp add: time_power_value add_waves_add add.commute)
  qed
  moreover have "has_waves (pu_top run) (run_n_period run) (init_waves run (run_n_period run) pr_new)"
    by (rule init_waves_has(1)) (simp add: pr_new_def)
  ultimately show ?thesis by (simp add: thread_job_def)
qed

lemma merge_waves_value:
  assumes r: "has_waves (pu_top run) (run_n_period run) r" and t: "has_waves (pu_top run) (run_n_period run) thread_result"
  shows "merge_waves run thread_result r = Inr (add_waves (pu_top run) (wave_of (pu_top run) thread_result) r)"
proof -
  define kinds where "kinds = [W_leakage, W_internal, W_glitch_internal, W_switching, W_glitch_switching]"
  define v where "v = wave_of (pu_top run) thread_result"
  let ?n = "run_n_period run"
  have read: "pr_readWave k (pu_top run) (int c) thread_result = Inr (v k c)" if "c < ?n" for k c
  proof -
    obtain w where "pr_waves thread_result k (pu_top run) = Some w" "length (cw_waveform w) = ?n"
      using t by (metis has_waves_def)
    then show ?thesis using that by (simp add: pr_readWave_def pr_findWave_def v_def wave_of_def)
  qed
  have loop: "res_fold (\<lambda>(c, k) r. res_bind (pr_readWave k (pu_top run) (int c) thread_result) (\<lambda>a.
         pr_addWave k (pu_top run) (int c) a r)) cks r =
      res_fold (\<lambda>(k, c, a). pr_addWave k (pu_top run) c a) (map (\<lambda>(c, k). (k, int c, v k c)) cks) r"
    if "\<forall>(c, k) \<in> set cks. c < ?n" for cks r
    using that
  proof (induction cks arbitrary: r)
    case (Cons ck cks)
    have "res_fold (\<lambda>(c, k) r. res_bind (pr_readWave k (pu_top run) (int c) thread_result) (\<lambda>a.
         pr_addWave k (pu_top run) (int c) a r)) cks =
      res_fold (\<lambda>(k, c, a). pr_addWave k (pu_top run) c a) (map (\<lambda>(c, k). (k, int c, v k c)) cks)"
      using Cons by (intro ext) simp
    then show ?case using Cons.prems read by (cases ck) simp
  qed simp
  define adds where "adds = map (\<lambda>(c, k). (k, int c, v k c)) (List.product [0..<?n] kinds)"
  have "distinct (List.product [0..<?n] kinds)" by (simp add: distinct_product kinds_def)
  moreover have "k \<in> set kinds" for k by (cases k) (simp_all add: kinds_def)
  ultimately have sum: "wave_adds adds k c = v k c" if "c < ?n" for k c
  proof -
    have "wave_adds adds k c = (\<Sum>x \<leftarrow> List.product [0..<?n] kinds. if x = (c, k) then v k c else 0)"
      unfolding wave_adds_def adds_def by (auto simp: comp_def case_prod_beta' prod_eq_iff intro!: arg_cong [where f = sum_list] map_cong)
    also have "\<dots> = (\<Sum>x \<in> set (List.product [0..<?n] kinds). if x = (c, k) then v k c else 0)"
      by (rule sum_list_distinct_conv_sum_set) (rule \<open>distinct (List.product [0..<?n] kinds)\<close>)
    also have "\<dots> = (if (c, k) \<in> set (List.product [0..<?n] kinds) then v k c else 0)" by (rule sum.delta) simp
    also have "\<dots> = v k c" using that \<open>k \<in> set kinds\<close> by simp
    finally show ?thesis .
  qed
  have "in_waves ?n adds" by (auto simp: in_waves_def adds_def)
  from adds_value [OF r this] show ?thesis
    using add_waves_cong [OF r sum] loop [of "List.product [0..<?n] kinds"]
    by (simp add: merge_waves_def kinds_def [symmetric] adds_def v_def)
qed

lemma sum_effect_cells: "sum_effect run i (rp\<lparr>rp_cells := cs\<rparr>) = (sum_effect run i rp)\<lparr>rp_cells := cs\<rparr>"
  by (simp add: sum_effect_def report_add_def split: option.split)

lemma merge_result_value:
  "has_cell i \<Longrightarrow> merge_result (i, inst_result run i) rp =
    Inr ((sum_effect run i rp)\<lparr>rp_cells := rp_cells rp @ [(pi_id i, inst_result run i)]\<rparr>)"
  by (auto simp: merge_result_def sum_effect_def report_add_def has_cell_def)

lemma merge_results_value:
  assumes "\<forall>i \<in> set is. has_cell i"
  shows "res_fold merge_result (zip is (map (inst_result run) is)) rp =
    Inr ((fold (sum_effect run) is rp)\<lparr>rp_cells := rp_cells rp @ cell_results run is\<rparr>)"
  using assms
proof (induction "is" arbitrary: rp)
  case (Cons i "is")
  have "fold (sum_effect run) is (rp\<lparr>rp_cells := cs\<rparr>) = (fold (sum_effect run) is rp)\<lparr>rp_cells := cs\<rparr>" for rp cs
    by (induction "is" arbitrary: rp) (simp_all add: sum_effect_cells)
  then show ?case using Cons by (simp add: merge_result_value cell_results_def)
qed (simp add: cell_results_def)

lemma merge_thread_value:
  assumes rp: "has_waves (pu_top run) (run_n_period run) (rp_total rp)"
    and insts: "\<forall>i \<in> set is. has_cell i \<and> inst_runs run i" and job: "thread_job run is = Inr (r, results)"
  shows "merge_thread run (is, r, results) rp =
    Inr ((fold (inst_effect run) is rp)\<lparr>rp_cells := rp_cells rp @ cell_results run is\<rparr>)"
proof -
  let ?n = "run_n_period run" and ?zero = "init_waves run (run_n_period run) pr_new"
  have zero: "has_waves (pu_top run) ?n ?zero" "\<And>k c. c < ?n \<Longrightarrow> wave_of (pu_top run) ?zero k c = 0"
    using init_waves_has [of pr_new run] by (simp_all add: pr_new_def)
  have r: "r = add_waves (pu_top run) (\<lambda>k c. \<Sum>i \<leftarrow> is. inst_adds run i k c) ?zero" and results: "results = map (inst_result run) is"
    using job thread_job_value [of "is" run] insts by auto
  have "merge_waves run r (rp_total rp) =
      Inr (add_waves (pu_top run) (\<lambda>k c. \<Sum>i \<leftarrow> is. inst_adds run i k c) (rp_total rp))"
    unfolding merge_waves_value [OF rp has_add_waves [OF zero(1)], of "\<lambda>k c. \<Sum>i \<leftarrow> is. inst_adds run i k c", folded r]
    using wave_of_add [OF zero(1)] zero(2) by (intro arg_cong [where f = Inr] add_waves_cong [OF rp]) (simp add: r)
  then show ?thesis
    using merge_results_value [of "is" run] insts fold_effects [OF rp, of "is"]
    by (simp add: merge_thread_def results wave_effect_def)
qed
lemma res_fold_merge_threads:
  assumes "has_waves (pu_top run) (run_n_period run) (rp_total rp)"
    and "\<forall>is \<in> set per_thread. \<forall>i \<in> set is. has_cell i \<and> inst_runs run i"
  shows "res_bind (res_map (run_thread run) per_thread) (\<lambda>jobs.
      res_fold (merge_thread run) jobs rp) =
    Inr ((fold (inst_effect run) (concat per_thread) rp)\<lparr>rp_cells := rp_cells rp @ cell_results run (concat per_thread)\<rparr>)"
  using assms
proof (induction per_thread arbitrary: rp)
  case (Cons "is" per_thread)
  obtain r results where job: "thread_job run is = Inr (r, results)"
    using thread_job_value [of "is" run] Cons.prems(2) by simp
  define rp1 where "rp1 = (fold (inst_effect run) is rp)\<lparr>rp_cells := rp_cells rp @ cell_results run is\<rparr>"
  have merge: "merge_thread run (is, r, results) rp = Inr rp1"
    unfolding rp1_def by (rule merge_thread_value [OF Cons.prems(1) _ job]) (use Cons.prems(2) in simp)
  have "has_waves (pu_top run) (run_n_period run) (rp_total rp1)"
    using has_waves_effects [OF Cons.prems(1)] by (simp add: rp1_def)
  moreover have "\<forall>is \<in> set per_thread. \<forall>i \<in> set is. has_cell i \<and> inst_runs run i" using Cons.prems(2) by simp
  ultimately obtain jobs where
    "res_map (run_thread run) per_thread = Inr jobs"
    "res_fold (merge_thread run) jobs rp1 = Inr ((fold (inst_effect run) (concat per_thread) rp1)
       \<lparr>rp_cells := rp_cells rp1 @ cell_results run (concat per_thread)\<rparr>)"
    by (rule res_bind_InrE [OF Cons.IH])
  moreover have "run_thread run is = Inr (is, r, results)" by (simp add: run_thread_def job)
  ultimately show ?case using merge by (simp add: rp1_def effects_fields cell_results_def)
qed (simp add: cell_results_def)

section \<open>Lemmas: sums of a report\<close>

definition power_sums :: "(PowerResult \<Rightarrow> real) set" where
  "power_sums = {pr_internal, pr_glitch_internal, pr_switching, pr_glitch_switching, pr_leakage}"

text \<open>Every sum of the total is the sum over the groups.\<close>

definition report_balanced :: "PowerReport \<Rightarrow> bool" where
  "report_balanced rp \<longleftrightarrow>
     (\<forall>f \<in> power_sums. f (rp_total rp) = (\<Sum>g \<leftarrow> [G_macro, G_pad, G_clock, G_sequential, G_combinational]. f (rp_group rp g)))"

lemma report_add_balanced: "report_balanced rp \<Longrightarrow> report_balanced (report_add cell inst res rp)"
  by (cases "power_group cell inst") (simp_all add: report_balanced_def power_sums_def report_add_def pr_incr_def)

lemma add_wave_sums:
  assumes "pr_addWave k ti c a r = Inr r'"
  shows "f \<in> power_sums \<Longrightarrow> f r' = f r"
  using assms by (auto simp: pr_addWave_def power_sums_def)

lemma balanced_total:
  assumes "report_balanced rp" "\<forall>f \<in> power_sums. f r = f (rp_total rp)"
  shows "report_balanced (rp\<lparr>rp_total := r, rp_cells := cs\<rparr>)" "report_balanced (rp\<lparr>rp_total := r\<rparr>)"
  using assms by (simp_all add: report_balanced_def)

lemma init_waves_sums: "f \<in> power_sums \<Longrightarrow> f (init_waves run n r) = f r"
  by (auto simp: init_waves_def pr_initWave_def power_sums_def split: option.split)

lemma adds_sums:
  assumes "res_fold g xs r = Inr r'" and "\<And>x r r'. g x r = Inr r' \<Longrightarrow> \<exists>k ti c a. pr_addWave k ti c a r = Inr r'"
  shows "\<forall>f \<in> power_sums. f r' = f r"
proof (rule res_fold_invariant [where I = "\<lambda>s. \<forall>f \<in> power_sums. f s = f r", OF _ _ assms(1)])
  fix x s s' assume "\<forall>f \<in> power_sums. f s = f r" "g x s = Inr s'"
  then show "\<forall>f \<in> power_sums. f s' = f r" using assms(2) add_wave_sums by metis
qed simp

lemma power_step_balanced:
  assumes "report_balanced rp" "power_step run time_based inst rp = Inr rp'"
  shows "report_balanced rp'"
proof (cases "pi_cell inst")
  case (Some cell)
  show ?thesis
  proof (cases time_based)
    case True
    then obtain res r where time: "time_power run inst (rp_total rp) = Inr (res, r)"
        and rp': "rp' = report_add cell inst res (rp\<lparr>rp_total := r, rp_cells := rp_cells rp @ [(pi_id inst, res)]\<rparr>)"
      using assms(2) Some by (auto simp: power_step_def)
    obtain ls :: LoopState where "res_fold (\<lambda>(k, c, a). pr_addWave k (pu_top run) c a) (ls_wave ls) (rp_total rp) = Inr r"
      using time by (auto simp: time_power_loop)
    then have "\<forall>f \<in> power_sums. f r = f (rp_total rp)" by (rule adds_sums) auto
    then show ?thesis unfolding rp' by (intro report_add_balanced balanced_total(1) assms(1))
  next
    case False
    then show ?thesis using assms Some report_add_balanced by (auto simp: power_step_def)
  qed
qed (use assms in \<open>simp add: power_step_def\<close>)

lemma merge_thread_balanced:
  assumes "report_balanced rp" "merge_thread run job rp = Inr rp'"
  shows "report_balanced rp'"
proof -
  obtain insts thread_result results where job: "job = (insts, thread_result, results)" by (cases job)
  obtain r where r: "merge_waves run thread_result (rp_total rp) = Inr r"
      and loop: "res_fold merge_result (zip insts results) (rp\<lparr>rp_total := r\<rparr>) = Inr rp'"
    using assms(2) by (auto simp: merge_thread_def job split: if_splits)
  have "\<forall>f \<in> power_sums. f r = f (rp_total rp)"
    by (rule adds_sums [OF r [unfolded merge_waves_def]]) auto
  then have "report_balanced (rp\<lparr>rp_total := r\<rparr>)" by (rule balanced_total(2) [OF assms(1)])
  moreover have "report_balanced s'" if s: "report_balanced s" "merge_result x s = Inr s'" for x s s'
  proof -
    obtain inst res cell where "s' = report_add cell inst res (s\<lparr>rp_cells := rp_cells s @ [(pi_id inst, res)]\<rparr>)"
      using s(2) by (cases x) (auto simp: merge_result_def split: option.splits)
    moreover have "report_balanced (s\<lparr>rp_cells := cs\<rparr>)" for cs using s(1) by (simp add: report_balanced_def)
    ultimately show ?thesis by (simp add: report_add_balanced)
  qed
  ultimately show ?thesis using res_fold_invariant [where I = report_balanced, OF _ _ loop] by blast
qed

section \<open>Properties\<close>

text \<open>C11: The threads compute what the loop computes. When the sequential time-based analysis returns a report, the
  multi-threaded one returns a report as well, for every number of threads and every shuffle of the instances; its
  total with all cycle waveforms and its five groups are the same, and its cell results are the same up to the order.\<close>

theorem threads_match_sequential:
  assumes seq: "power_all run False True n_thread shuffle insts rp = Inr rp_seq"
    and fresh: "\<forall>k. pr_waves (rp_total rp) k (pu_top run) = None"
    and threads: "0 < n_thread" "mset (shuffle (filter has_cell insts)) = mset (filter has_cell insts)"
  shows "\<exists>rp_thr. power_all run True True n_thread shuffle insts rp = Inr rp_thr \<and>
    rp_total rp_thr = rp_total rp_seq \<and> rp_group rp_thr = rp_group rp_seq \<and> mset (rp_cells rp_thr) = mset (rp_cells rp_seq)"
proof -
  let ?gates = "filter has_cell insts"
  let ?start = "power_start run rp"
  have waves: "has_waves (pu_top run) (run_n_period run) (rp_total ?start)"
    using init_waves_has(1) [of "pr_clear (rp_total rp)" run] fresh by (simp add: power_start_def pr_clear_def)
  have seq': "rp_seq = (fold (inst_effect run) ?gates ?start)\<lparr>rp_cells := cell_results run insts\<rparr>"
      and runs: "\<forall>i \<in> set ?gates. inst_runs run i"
    using sequential_value [OF waves, of insts] seq by (simp_all add: power_all_def power_sequential_def power_start_def)
  obtain slices where slices: "res_map (thread_instances n_thread (shuffle ?gates)) [0..<n_thread] = Inr slices"
      "concat slices = shuffle ?gates"
    using thread_slices [OF threads(1), of "shuffle ?gates"] by blast
  have "set (shuffle ?gates) = set ?gates" using threads(2) by (metis set_mset_mset)
  then have "\<forall>i \<in> set (shuffle ?gates). has_cell i \<and> inst_runs run i" using runs by simp
  then have "\<forall>is \<in> set slices. \<forall>i \<in> set is. has_cell i \<and> inst_runs run i" unfolding slices(2) [symmetric] by simp
  note merged = res_fold_merge_threads [OF waves this, unfolded slices(2)]
  have "power_all run True True n_thread shuffle insts rp =
      Inr ((fold (inst_effect run) (shuffle ?gates) ?start)\<lparr>rp_cells := cell_results run (shuffle ?gates)\<rparr>)"
    using threads(1) slices(1) merged by (simp add: power_all_def power_threads_def has_cell_def [abs_def] power_start_def)
  moreover have "fold (inst_effect run) (shuffle ?gates) ?start = fold (inst_effect run) ?gates ?start"
    by (rule inst_effects_mset [OF threads(2)])
  moreover have "mset (cell_results run (shuffle ?gates)) = mset (cell_results run insts)"
  proof -
    have "filter has_cell (shuffle ?gates) = shuffle ?gates"
      using \<open>set (shuffle ?gates) = set ?gates\<close> by (simp add: filter_id_conv)
    then show ?thesis using threads(2) by (simp add: cell_results_def)
  qed
  ultimately show ?thesis by (simp add: seq')
qed

text \<open>C17: The groups partition the total. In every mode each power of the total of the report, glitch parts included, is
  the sum of that power over the macro, pad, clock, sequential and combinational groups, if this holds for the report
  that the analysis starts with, whose glitch parts it keeps.\<close>

theorem groups_partition_total:
  assumes balanced: "report_balanced rp" and run: "power_all run multi_threaded time_based n_thread shuffle insts rp = Inr rp'"
  shows "report_balanced rp'"
proof -
  define cleared where "cleared = \<lparr>rp_total = pr_clear (rp_total rp), rp_group = (\<lambda>g. pr_clear (rp_group rp g)), rp_cells = []\<rparr>"
  have "report_balanced cleared"
    using balanced by (simp add: report_balanced_def power_sums_def pr_clear_def cleared_def)
  then have "report_balanced (cleared\<lparr>rp_total := init_waves run (run_n_period run) (rp_total cleared)\<rparr>)"
    by (rule balanced_total(2)) (simp add: init_waves_sums)
  then have start: "report_balanced (power_start run rp)" by (simp add: power_start_def cleared_def)
  show ?thesis
  proof (cases multi_threaded)
    case False
    then have "res_fold (power_step run time_based) insts (power_start run rp) = Inr rp'"
      using run by (simp add: power_all_def power_sequential_def)
    from res_fold_invariant [where I = report_balanced, OF _ start this] power_step_balanced show ?thesis by blast
  next
    case True
    then obtain jobs where "res_fold (merge_thread run) jobs (power_start run rp) = Inr rp'"
      using run by (auto simp: power_all_def power_threads_def Let_def split: if_splits)
    from res_fold_invariant [where I = report_balanced, OF _ start this] merge_thread_balanced show ?thesis by blast
  qed
qed
text \<open>Two gates without pins that leak 4 and 6, three time units and a clock of two.\<close>

definition leaky_gate :: "real \<Rightarrow> Gate" where
  "leaky_gate l = \<lparr>g_pins = [], g_n_input = 0, g_ports = en_ports two_pin_env, g_pin_map = [], g_arc_delay = (\<lambda>_ _ _ _. None),
     g_leakage_values = [l], g_default_leakage = 0, g_default_leakage_exists = False\<rparr>"

definition leaky_env :: SimEnv where
  "leaky_env = \<lparr>se_time_max = 3, se_time_scale = 1, se_clk_period = 2\<rparr>"

definition leaky_run :: "Table2 PowerRun" where
  "leaky_run = \<lparr>pu_env = leaky_env, pu_top = 0, pu_gate = (\<lambda>i. Inr (leaky_gate (if i = 1 then 4 else 6))), pu_cudd = tt_cudd,
     pu_penv = two_pin_env, pu_acts = two_pin_acts, pu_cell_env = (\<lambda>_. two_state_cell)\<rparr>"

definition leaky_insts :: "PowerInst list" where
  "leaky_insts = map (\<lambda>i. \<lparr>pi_id = i,
     pi_cell = Some \<lparr>cc_is_macro = (i = 1), cc_is_memory = False, cc_interface_timing = False, cc_is_pad = False,
       cc_has_sequentials = False\<rparr>, pi_pins = []\<rparr>) [1, 2]"

lemma first_cycle: "clkedWaveformIdx 0 s p = 0"
  by (simp add: clkedWaveformIdx_def c_div_def)

lemma leaky_loop:
  "timeBasedPower leaky_env (leaky_gate l) = Inr ((loop_initial (leaky_gate l))
     \<lparr>ls_leakage := l, ls_wave := [(W_leakage, 0, l), (W_leakage, 1, l / 2)]\<rparr>)"
proof -
  have split: "calculatePerCycleLeakagePower l 0 3 1 2 = Some [(0, l), (1, l / 2)]"
    unfolding calculatePerCycleLeakagePower_def first_cycle
    by (simp add: leakage_loop.simps min_def)
  then show ?thesis
    by (simp add: timeBasedPower_def findTimeBasedAllPower_def power_loop.simps leaky_gate_def leaky_env_def loop_initial_def
        next_time_def pending_def add_leakage_def findLeakageVal_def getPinStatesIndex_def)
qed

lemma effect_parts:
  "has_cell i \<Longrightarrow> rp_total (inst_effect run i rp) =
     pr_incr (inst_result run i) (add_waves (pu_top run) (inst_adds run i) (rp_total rp))"
  "has_cell i \<Longrightarrow> rp_group (inst_effect run i rp) =
     (rp_group rp)(power_group (the (pi_cell i)) i := pr_incr (inst_result run i) (rp_group rp (power_group (the (pi_cell i)) i)))"
  by (auto simp: has_cell_def inst_effect_def wave_effect_def sum_effect_def report_add_def)

lemma incr_parts:
  "pr_waves (pr_incr (inst_result run i) r) = pr_waves r"
  "pr_leakage (pr_incr res r) = pr_leakage r + pr_leakage res"
  by (simp_all add: pr_incr_def)

lemma add_waves_leakage: "pr_leakage (add_waves ti d r) = pr_leakage r"
  by (simp add: add_waves_def)

lemma leaky_sequential:
  "\<exists>rp. power_all leaky_run False True n shuffle leaky_insts report_new = Inr rp \<and>
     pr_leakage (rp_total rp) = 10 \<and> pr_leakage (rp_group rp G_macro) = 4 \<and>
     map_option cw_waveform (pr_waves (rp_total rp) W_leakage 0) = Some [10, 5]"
proof -
  have n: "run_n_period leaky_run = 2" by (simp add: run_n_period_def leaky_run_def leaky_env_def)
  have start: "power_start leaky_run report_new =
      report_new\<lparr>rp_total := pr_new\<lparr>pr_waves := (\<lambda>k. [0 \<mapsto> pcw_new 2 2])\<rparr>\<rparr>"
    using init_waves_new [of "pr_clear pr_new" leaky_run 2]
    by (simp add: power_start_def n report_new_def pr_clear_def pr_new_def) (simp add: leaky_run_def leaky_env_def)
  then have zero: "pr_leakage (rp_total (power_start leaky_run report_new)) = 0"
      "pr_leakage (rp_group (power_start leaky_run report_new) g) = 0"
      "pr_waves (rp_total (power_start leaky_run report_new)) W_leakage 0 = Some (pcw_new 2 2)" for g
    by (simp_all add: report_new_def pr_new_def)
  have loop: "inst_loop leaky_run i = Inr ((loop_initial (leaky_gate l))
      \<lparr>ls_leakage := l, ls_wave := [(W_leakage, 0, l), (W_leakage, 1, l / 2)]\<rparr>)"
    if "pi_id i = 1 \<and> l = 4 \<or> pi_id i = 2 \<and> l = 6" for i l
    using that by (auto simp: inst_loop_def leaky_run_def leaky_loop)
  define a b where "a = leaky_insts ! 0" and "b = leaky_insts ! 1"
  have ab: "leaky_insts = [a, b]" "pi_id a = 1" "pi_id b = 2" "pi_cell a \<noteq> None" "pi_cell b \<noteq> None"
      "power_group (the (pi_cell a)) a = G_macro" "power_group (the (pi_cell b)) b \<noteq> G_macro"
    by (simp_all add: a_def b_def leaky_insts_def power_group_def inClockNetwork_def)
  note loops = loop [of a 4] loop [of b 6]
  have adds: "inst_adds leaky_run a W_leakage 0 = 4" "inst_adds leaky_run a W_leakage (Suc 0) = 2"
      "inst_adds leaky_run b W_leakage 0 = 6" "inst_adds leaky_run b W_leakage (Suc 0) = 3"
    and leaks: "pr_leakage (inst_result leaky_run a) = 4" "pr_leakage (inst_result leaky_run b) = 6"
    using ab(2,3) loops by (simp_all add: inst_adds_def wave_adds_def inst_result_def gate_result_def)
  have runs: "\<forall>i \<in> set leaky_insts. has_cell i \<and> inst_runs leaky_run i"
    using ab(2-5) loops unfolding ab(1) by (simp add: has_cell_def inst_runs_def n in_waves_def)
  have "has_waves (pu_top leaky_run) (run_n_period leaky_run) (rp_total (power_start leaky_run report_new))"
    by (simp add: start n has_waves_def pcw_new_def) (simp add: leaky_run_def)
  from sequential_returns [OF this runs] have "power_all leaky_run False True n shuffle leaky_insts report_new =
      Inr ((fold (inst_effect leaky_run) [a, b] (power_start leaky_run report_new))
        \<lparr>rp_cells := cell_results leaky_run leaky_insts\<rparr>)"
    by (simp add: power_all_def power_sequential_def ab(1) power_start_def)
  moreover have "pr_waves (add_waves 0 d r) W_leakage 0 =
      Some ((the (pr_waves r W_leakage 0))\<lparr>cw_waveform := [cw_waveform (the (pr_waves r W_leakage 0)) ! 0 + d W_leakage 0,
        cw_waveform (the (pr_waves r W_leakage 0)) ! 1 + d W_leakage 1]\<rparr>)"
    if "length (cw_waveform (the (pr_waves r W_leakage 0))) = 2" for d r
  proof -
    have "[0..<2 :: nat] = [0, 1]" by (simp add: upt_rec)
    then show ?thesis by (simp add: add_waves_def that)
  qed
  moreover have "pu_top leaky_run = 0" by (simp add: leaky_run_def)
  ultimately show ?thesis
    using ab(4-7) adds leaks
    by (simp add: zero effect_parts has_cell_def pcw_new_def incr_parts add_waves_leakage numeral_2_eq_2)
qed

theorem threads_match_sequential_witness:
  "\<exists>rp. power_all leaky_run True True 2 rev leaky_insts report_new = Inr rp \<and>
     pr_leakage (rp_total rp) = 10 \<and> pr_leakage (rp_group rp G_macro) = 4 \<and>
     map_option cw_waveform (pr_waves (rp_total rp) W_leakage 0) = Some [10, 5]"
proof -
  obtain rp where "power_all leaky_run False True 2 rev leaky_insts report_new = Inr rp"
    "pr_leakage (rp_total rp) = 10" "pr_leakage (rp_group rp G_macro) = 4"
    "map_option cw_waveform (pr_waves (rp_total rp) W_leakage 0) = Some [10, 5]"
    using leaky_sequential by blast
  then show ?thesis
    using threads_match_sequential [of leaky_run 2 rev leaky_insts report_new rp]
    by (auto simp: report_new_def pr_new_def)
qed

theorem groups_partition_total_witness:
  "\<exists>rp. power_all leaky_run False True 1 rev leaky_insts report_new = Inr rp \<and> report_balanced rp \<and>
     pr_leakage (rp_group rp G_macro) = 4"
proof -
  have "report_balanced report_new" by (simp add: report_balanced_def report_new_def power_sums_def pr_new_def)
  then show ?thesis using leaky_sequential [of 1 rev] groups_partition_total by blast
qed

text \<open>The leakage of a simulation whose end is the end of a cycle is also added, as zero, past the end of the waveform.\<close>

lemma leakage_past_waveform:
  "calculatePerCycleLeakagePower l 0 4 1 2 = Some [(0, l), (1, l), (2, 0)] \<and>
   pr_addWave W_leakage 0 2 0 (pr_new\<lparr>pr_waves := (\<lambda>k. [0 \<mapsto> pcw_new 2 2])\<rparr>) = Inl StateOutOfRange"
proof -
  have "calculatePerCycleLeakagePower l 0 4 1 2 = Some [(0, l), (1, l), (2, 0)]"
    unfolding calculatePerCycleLeakagePower_def first_cycle by (simp add: leakage_loop.simps min_def)
  then show ?thesis by (simp add: pr_addWave_def pr_readWave_def pr_findWave_def pcw_new_def)
qed

end
