(* ===== verification/GTP_Graph.thy ===== *)
theory GTP_Graph
  imports GTP_RiseFall GTP_FuncExpr GTP_Activity
begin

text \<open>
  The timing graph as the searches see it: the roles of timing arcs (\<open>liberty/TimingRole.cc\<close>), vertices and edges with
  their disabling flags, and the predicates that say which of them a search may cross (\<open>search/SearchPred.cc\<close>). The
  simulation of constants, the constraints and the state of latches set the flags; they are values of the model.
\<close>

section \<open>Roles of timing arcs\<close>

datatype TimingRole =
    TR_wire | TR_combinational | TR_tristateEnable | TR_tristateDisable | TR_regClkToQ | TR_regSetClr
  | TR_latchEnToQ | TR_latchDtoQ | TR_sdfIopath | TR_setup | TR_hold | TR_recovery | TR_removal | TR_width | TR_period
  | TR_skew | TR_nochange | TR_outputSetup | TR_outputHold | TR_gatedClockSetup | TR_gatedClockHold | TR_latchSetup
  | TR_latchHold | TR_dataCheckSetup | TR_dataCheckHold | TR_nonSeqSetup | TR_nonSeqHold | TR_clockTreePathMin
  | TR_clockTreePathMax

record TimingRoleData =
  tr_name :: string
  tr_is_sdf_iopath :: bool
  tr_is_timing_check :: bool
  tr_is_non_seq_check :: bool
  tr_path_min_max :: "MinMax option"
  tr_generic_role :: "TimingRole option"
  tr_index :: nat

definition tr_new :: "string \<Rightarrow> bool \<Rightarrow> bool \<Rightarrow> bool \<Rightarrow> MinMax option \<Rightarrow> TimingRole option \<Rightarrow> nat \<Rightarrow> TimingRoleData" where
  "tr_new name sdf check non_seq mm generic index =
     \<lparr>tr_name = name, tr_is_sdf_iopath = sdf, tr_is_timing_check = check, tr_is_non_seq_check = non_seq,
      tr_path_min_max = mm, tr_generic_role = generic, tr_index = index\<rparr>"

fun tr_data :: "TimingRole \<Rightarrow> TimingRoleData" where
  "tr_data TR_wire = tr_new ''wire'' False False False None None 0"
| "tr_data TR_combinational = tr_new ''combinational'' True False False None None 1"
| "tr_data TR_tristateEnable = tr_new ''tristate enable'' True False False None None 2"
| "tr_data TR_tristateDisable = tr_new ''tristate disable'' True False False None None 3"
| "tr_data TR_regClkToQ = tr_new ''Reg Clk to Q'' True False False None None 4"
| "tr_data TR_regSetClr = tr_new ''Reg Set/Clr'' True False False None None 5"
| "tr_data TR_latchEnToQ = tr_new ''Latch En to Q'' True False False None (Some TR_regClkToQ) 6"
| "tr_data TR_latchDtoQ = tr_new ''Latch D to Q'' True False False None None 7"
| "tr_data TR_sdfIopath = tr_new ''sdf IOPATH'' True False False None None 8"
| "tr_data TR_setup = tr_new ''setup'' False True False (Some MM_max) None 9"
| "tr_data TR_hold = tr_new ''hold'' False True False (Some MM_min) None 10"
| "tr_data TR_recovery = tr_new ''recovery'' False True False (Some MM_max) (Some TR_setup) 11"
| "tr_data TR_removal = tr_new ''removal'' False True False (Some MM_min) (Some TR_hold) 12"
| "tr_data TR_width = tr_new ''width'' False True False None None 13"
| "tr_data TR_period = tr_new ''period'' False True False None None 14"
| "tr_data TR_skew = tr_new ''skew'' False True False None None 15"
| "tr_data TR_nochange = tr_new ''nochange'' True False False None None 16"
| "tr_data TR_outputSetup = tr_new ''output setup'' False True False (Some MM_max) (Some TR_setup) 17"
| "tr_data TR_outputHold = tr_new ''output hold'' False True False (Some MM_min) (Some TR_hold) 18"
| "tr_data TR_gatedClockSetup = tr_new ''clock gating setup'' False True False (Some MM_max) (Some TR_setup) 19"
| "tr_data TR_gatedClockHold = tr_new ''clock gating hold'' False True False (Some MM_min) (Some TR_hold) 20"
| "tr_data TR_latchSetup = tr_new ''latch setup'' False True False (Some MM_max) (Some TR_setup) 21"
| "tr_data TR_latchHold = tr_new ''latch hold'' False True False (Some MM_min) (Some TR_hold) 22"
| "tr_data TR_dataCheckSetup = tr_new ''data check setup'' False True False (Some MM_max) (Some TR_setup) 23"
| "tr_data TR_dataCheckHold = tr_new ''data check hold'' False True False (Some MM_min) (Some TR_hold) 24"
| "tr_data TR_nonSeqSetup = tr_new ''non-sequential setup'' False True True (Some MM_max) (Some TR_setup) 25"
| "tr_data TR_nonSeqHold = tr_new ''non-sequential hold'' False True True (Some MM_min) (Some TR_hold) 26"
| "tr_data TR_clockTreePathMin = tr_new ''min clock tree path'' False False False (Some MM_min) None 27"
| "tr_data TR_clockTreePathMax = tr_new ''max clock tree path'' False False False (Some MM_max) None 28"

definition tr_all :: "TimingRole list" where
  "tr_all =
     [TR_wire, TR_combinational, TR_tristateEnable, TR_tristateDisable, TR_regClkToQ, TR_regSetClr, TR_latchEnToQ,
      TR_latchDtoQ, TR_sdfIopath, TR_setup, TR_hold, TR_recovery, TR_removal, TR_width, TR_period, TR_skew, TR_nochange,
      TR_outputSetup, TR_outputHold, TR_gatedClockSetup, TR_gatedClockHold, TR_latchSetup, TR_latchHold,
      TR_dataCheckSetup, TR_dataCheckHold, TR_nonSeqSetup, TR_nonSeqHold, TR_clockTreePathMin, TR_clockTreePathMax]"

text \<open>The map of role names, which the constructor fills; an unknown name gives a null pointer.\<close>

definition tr_role_map :: "string \<rightharpoonup> TimingRole" where
  "tr_role_map = map_of (map (\<lambda>r. (tr_name (tr_data r), r)) tr_all)"

definition tr_find_name :: "string \<Rightarrow> TimingRole option" where
  "tr_find_name name = tr_role_map name"

definition tr_sdfRole :: "TimingRole \<Rightarrow> TimingRole" where
  "tr_sdfRole r = (if tr_is_sdf_iopath (tr_data r) then TR_sdfIopath else r)"

definition tr_genericRole :: "TimingRole \<Rightarrow> TimingRole" where
  "tr_genericRole r = (case tr_generic_role (tr_data r) of None \<Rightarrow> r | Some g \<Rightarrow> g)"

text \<open>Null when the role has no side: the code calls \<open>opposite\<close> on a null pointer then.\<close>

definition tr_tgtClkEarlyLate :: "TimingRole \<Rightarrow> MinMax option" where
  "tr_tgtClkEarlyLate r = map_option (\<lambda>mm. case mm of MM_min \<Rightarrow> MM_max | MM_max \<Rightarrow> MM_min) (tr_path_min_max (tr_data r))"

definition tr_isWire :: "TimingRole \<Rightarrow> bool" where
  "tr_isWire r \<longleftrightarrow> r = TR_wire"

definition tr_isAsyncTimingCheck :: "TimingRole \<Rightarrow> bool" where
  "tr_isAsyncTimingCheck r \<longleftrightarrow> r = TR_recovery \<or> r = TR_removal"

definition tr_isDataCheck :: "TimingRole \<Rightarrow> bool" where
  "tr_isDataCheck r \<longleftrightarrow> r = TR_dataCheckSetup \<or> r = TR_dataCheckHold"

definition tr_isLatchDtoQ :: "TimingRole \<Rightarrow> bool" where
  "tr_isLatchDtoQ r \<longleftrightarrow> r = TR_latchDtoQ"

definition tr_isTimingCheckBetween :: "TimingRole \<Rightarrow> bool" where
  "tr_isTimingCheckBetween r \<longleftrightarrow> tr_is_timing_check (tr_data r) \<and> r \<noteq> TR_width \<and> r \<noteq> TR_period"

definition tr_less :: "TimingRole \<Rightarrow> TimingRole \<Rightarrow> bool" where
  "tr_less r1 r2 \<longleftrightarrow> tr_index (tr_data r1) < tr_index (tr_data r2)"

text \<open>The index of a role is its position in the declaration, so \<open>less\<close> is a linear order of the roles.\<close>

lemma tr_all_complete: "r \<in> set tr_all"
  by (cases r) (simp_all add: tr_all_def)

lemma tr_all_index: "map (\<lambda>r. tr_index (tr_data r)) tr_all = [0..<29]"
  by (simp add: tr_all_def tr_new_def upt_rec)

lemma tr_index_inj: "tr_index (tr_data r1) = tr_index (tr_data r2) \<longleftrightarrow> r1 = r2"
proof -
  have "inj_on (\<lambda>r. tr_index (tr_data r)) (set tr_all)"
    by (rule distinct_map [THEN iffD1, THEN conjunct2]) (simp add: tr_all_index)
  then show ?thesis using tr_all_complete by (auto dest: inj_onD)
qed

instantiation TimingRole :: linorder
begin

definition less_TimingRole :: "TimingRole \<Rightarrow> TimingRole \<Rightarrow> bool" where
  "less_TimingRole = tr_less"

definition less_eq_TimingRole :: "TimingRole \<Rightarrow> TimingRole \<Rightarrow> bool" where
  "less_eq_TimingRole r1 r2 \<longleftrightarrow> \<not> tr_less r2 r1"

instance
  by standard (auto simp: less_TimingRole_def less_eq_TimingRole_def tr_less_def not_less tr_index_inj [symmetric])

end

interpretation role_order: strict_weak_order tr_less "(=)"
  by unfold_locales (auto simp: tr_less_def tr_index_inj [symmetric])

lemma tr_find_name_roundtrip: "tr_find_name (tr_name (tr_data r)) = Some r"
proof -
  have "distinct (map fst (map (\<lambda>r. (tr_name (tr_data r), r)) tr_all))" by (simp add: tr_all_def tr_new_def)
  then show ?thesis using tr_all_complete [of r] by (simp add: tr_find_name_def tr_role_map_def map_of_eq_Some_iff image_iff)
qed

lemma genericRole_idem: "tr_genericRole (tr_genericRole r) = tr_genericRole r"
  by (cases r) (simp_all add: tr_genericRole_def tr_new_def)

section \<open>Vertices and edges\<close>

type_synonym VertexId = nat
type_synonym EdgeId = nat

datatype LatchEnableState = LES_enabled | LES_open | LES_closed

record TVertex =
  tv_pin :: PinId
  tv_name_rank :: nat
  tv_is_disabled_constraint :: bool
  tv_is_constant :: bool
  tv_is_bidirect_driver :: bool
  tv_is_bidirect :: bool
  tv_is_top_level_port :: bool

record TEdge =
  te_from :: VertexId
  te_to :: VertexId
  te_role :: TimingRole
  te_is_disabled_constraint :: bool
  te_is_disabled_cond :: bool
  te_is_cond_default :: bool
  te_sim_timing_sense :: TimingSense
  te_is_bidirect_inst_path :: bool
  te_is_bidirect_net_path :: bool
  te_latch_state :: LatchEnableState

record TGraph =
  tg_vertices :: "VertexId list"
  tg_vertex :: "VertexId \<Rightarrow> TVertex"
  tg_edge :: "EdgeId \<Rightarrow> TEdge"
  tg_out_edges :: "VertexId \<Rightarrow> EdgeId list"
  tg_in_edges :: "VertexId \<Rightarrow> EdgeId list"
  tg_drvr_vertex :: "PinId \<Rightarrow> VertexId"

section \<open>Flags of the constraints\<close>

record SdcFlags =
  sdc_preset_clr_arcs_enabled :: bool
  sdc_cond_default_arcs_enabled :: bool
  sdc_bidirect_net_paths_enabled :: bool
  sdc_bidirect_inst_paths_enabled :: bool
  sdc_clk_thru_tristate_enabled :: bool

definition isDisabledCondDefault :: "SdcFlags \<Rightarrow> TEdge \<Rightarrow> bool" where
  "isDisabledCondDefault sdc e \<longleftrightarrow> \<not> sdc_cond_default_arcs_enabled sdc \<and> te_is_cond_default e"

definition setBidirectInstPathsEnabled :: "bool \<Rightarrow> SdcFlags \<Rightarrow> SdcFlags" where
  "setBidirectInstPathsEnabled enabled sdc = sdc\<lparr>sdc_bidirect_inst_paths_enabled := enabled\<rparr>"

text \<open>The flag of the net paths is neither read nor written: both functions use that of the instance paths.\<close>

definition bidirectNetPathsEnabled :: "SdcFlags \<Rightarrow> bool" where
  "bidirectNetPathsEnabled sdc = sdc_bidirect_inst_paths_enabled sdc"

definition setBidirectNetPathsEnabled :: "bool \<Rightarrow> SdcFlags \<Rightarrow> SdcFlags" where
  "setBidirectNetPathsEnabled enabled sdc = sdc\<lparr>sdc_bidirect_inst_paths_enabled := enabled\<rparr>"

definition bidirectDrvrSlewFromLoad :: "SdcFlags \<Rightarrow> TVertex \<Rightarrow> bool" where
  "bidirectDrvrSlewFromLoad sdc v \<longleftrightarrow>
     sdc_bidirect_inst_paths_enabled sdc \<and> tv_is_bidirect v \<and> tv_is_top_level_port v"

lemma net_paths_switch_inst_paths:
  "sdc_bidirect_inst_paths_enabled (setBidirectNetPathsEnabled False (setBidirectInstPathsEnabled True sdc)) = False"
  by (simp add: setBidirectNetPathsEnabled_def)

section \<open>Search predicates\<close>

text \<open>\<open>dis\<close> is the flag of the edges that levelization disabled to break a loop.\<close>

record SearchPred =
  sr_from :: "VertexId \<Rightarrow> bool"
  sr_thru :: "EdgeId \<Rightarrow> bool"
  sr_to :: "VertexId \<Rightarrow> bool"

definition searchFrom0 :: "TGraph \<Rightarrow> VertexId \<Rightarrow> bool" where
  "searchFrom0 g v \<longleftrightarrow> \<not> (tv_is_disabled_constraint (tg_vertex g v) \<or> tv_is_constant (tg_vertex g v))"

definition searchTo0 :: "TGraph \<Rightarrow> VertexId \<Rightarrow> bool" where
  "searchTo0 g v \<longleftrightarrow> \<not> tv_is_constant (tg_vertex g v)"

definition searchThru0 :: "TGraph \<Rightarrow> SdcFlags \<Rightarrow> EdgeId \<Rightarrow> bool" where
  "searchThru0 g sdc e =
     (let edge = tg_edge g e; role = te_role edge in
      \<not> (te_is_disabled_constraint edge \<or> te_is_disabled_cond edge \<or> isDisabledCondDefault sdc edge
         \<or> (role = TR_regSetClr \<and> \<not> sdc_preset_clr_arcs_enabled sdc)
         \<or> te_sim_timing_sense edge = TS_none
         \<or> (te_is_bidirect_inst_path edge \<and> \<not> sdc_bidirect_inst_paths_enabled sdc)
         \<or> (te_is_bidirect_net_path edge \<and> \<not> bidirectNetPathsEnabled sdc)
         \<or> (role = TR_latchDtoQ \<and> te_latch_state edge = LES_closed)))"

definition searchThru1 :: "TGraph \<Rightarrow> SdcFlags \<Rightarrow> (EdgeId \<Rightarrow> bool) \<Rightarrow> EdgeId \<Rightarrow> bool" where
  "searchThru1 g sdc dis e \<longleftrightarrow> searchThru0 g sdc e \<and> \<not> dis e"

definition searchThru2 :: "TGraph \<Rightarrow> SdcFlags \<Rightarrow> (EdgeId \<Rightarrow> bool) \<Rightarrow> EdgeId \<Rightarrow> bool" where
  "searchThru2 g sdc dis e \<longleftrightarrow> searchThru1 g sdc dis e \<and> \<not> tr_is_timing_check (tr_data (te_role (tg_edge g e)))"

definition latches_isLatchDtoQ :: "TGraph \<Rightarrow> EdgeId \<Rightarrow> bool" where
  "latches_isLatchDtoQ g e \<longleftrightarrow> te_role (tg_edge g e) = TR_latchDtoQ \<and> te_latch_state (tg_edge g e) = LES_enabled"

definition searchThruNonLatch2 :: "TGraph \<Rightarrow> SdcFlags \<Rightarrow> (EdgeId \<Rightarrow> bool) \<Rightarrow> EdgeId \<Rightarrow> bool" where
  "searchThruNonLatch2 g sdc dis e \<longleftrightarrow> searchThru2 g sdc dis e \<and> \<not> latches_isLatchDtoQ g e"

definition searchThruNonReg2 :: "TGraph \<Rightarrow> SdcFlags \<Rightarrow> (EdgeId \<Rightarrow> bool) \<Rightarrow> EdgeId \<Rightarrow> bool" where
  "searchThruNonReg2 g sdc dis e \<longleftrightarrow>
     searchThru2 g sdc dis e \<and> \<not> latches_isLatchDtoQ g e \<and> tr_genericRole (te_role (tg_edge g e)) \<noteq> TR_regClkToQ"

definition searchThruClkTree :: "TGraph \<Rightarrow> SdcFlags \<Rightarrow> (EdgeId \<Rightarrow> bool) \<Rightarrow> EdgeId \<Rightarrow> bool" where
  "searchThruClkTree g sdc dis e =
     (let role = te_role (tg_edge g e) in
      (tr_isWire role \<or> role = TR_combinational)
      \<and> (sdc_clk_thru_tristate_enabled sdc \<or> \<not> (role = TR_tristateEnable \<or> role = TR_tristateDisable))
      \<and> searchThru1 g sdc dis e)"

text \<open>The predicate of the activity search of the power engine.\<close>

definition searchThruActivity :: "TGraph \<Rightarrow> SdcFlags \<Rightarrow> (EdgeId \<Rightarrow> bool) \<Rightarrow> EdgeId \<Rightarrow> bool" where
  "searchThruActivity g sdc dis e \<longleftrightarrow> searchThruNonLatch2 g sdc dis e \<and> te_role (tg_edge g e) \<noteq> TR_regClkToQ"

definition pred_with :: "TGraph \<Rightarrow> (EdgeId \<Rightarrow> bool) \<Rightarrow> SearchPred" where
  "pred_with g thru = \<lparr>sr_from = searchFrom0 g, sr_thru = thru, sr_to = searchTo0 g\<rparr>"

definition isClkEnd :: "TGraph \<Rightarrow> SdcFlags \<Rightarrow> (EdgeId \<Rightarrow> bool) \<Rightarrow> VertexId \<Rightarrow> bool" where
  "isClkEnd g sdc dis v = list_all (\<lambda>e. \<not> searchThruClkTree g sdc dis e) (tg_out_edges g v)"

definition hasFanin :: "TGraph \<Rightarrow> SearchPred \<Rightarrow> VertexId \<Rightarrow> bool" where
  "hasFanin g pred v \<longleftrightarrow>
     sr_to pred v \<and> list_ex (\<lambda>e. sr_from pred (te_from (tg_edge g e)) \<and> sr_thru pred e) (tg_in_edges g v)"

definition hasFanout :: "TGraph \<Rightarrow> SearchPred \<Rightarrow> VertexId \<Rightarrow> bool" where
  "hasFanout g pred v \<longleftrightarrow>
     sr_from pred v \<and> list_ex (\<lambda>e. sr_to pred (te_to (tg_edge g e)) \<and> sr_thru pred e) (tg_out_edges g v)"

text \<open>The adjacency lists agree with the ends of the edges.\<close>

definition graph_wf :: "TGraph \<Rightarrow> bool" where
  "graph_wf g \<longleftrightarrow>
     distinct (tg_vertices g) \<and>
     (\<forall>v \<in> set (tg_vertices g). \<forall>e \<in> set (tg_out_edges g v).
        te_from (tg_edge g e) = v \<and> te_to (tg_edge g e) \<in> set (tg_vertices g) \<and>
        e \<in> set (tg_in_edges g (te_to (tg_edge g e)))) \<and>
     (\<forall>v \<in> set (tg_vertices g). \<forall>e \<in> set (tg_in_edges g v).
        te_to (tg_edge g e) = v \<and> te_from (tg_edge g e) \<in> set (tg_vertices g) \<and>
        e \<in> set (tg_out_edges g (te_from (tg_edge g e))))"

lemmas search_thru_defs = searchThruActivity_def searchThruNonLatch2_def searchThru2_def searchThru1_def

text \<open>Disabling more edges lets a search cross fewer, and what the activity search crosses the levelizer crosses.\<close>

lemma searchThru_antimono:
  "(\<And>e. dis e \<Longrightarrow> dis' e) \<Longrightarrow> searchThruNonLatch2 g sdc dis' e \<Longrightarrow> searchThruNonLatch2 g sdc dis e"
  by (auto simp: search_thru_defs)

lemma activity_in_nonLatch: "searchThruActivity g sdc dis e \<Longrightarrow> searchThruNonLatch2 g sdc dis e"
  by (simp add: searchThruActivity_def)

end
