(* ===== verification/GTP_Levelize.thy ===== *)
theory GTP_Levelize
  imports GTP_Graph
begin

text \<open>
  Levelization of the timing graph (\<open>search/Levelize.cc\<close>): a depth first search from the roots that gives every vertex
  a level above those of its predecessors, disables the edges that close a loop and searches from the vertices that no
  root reaches. \<open>fuel\<close> bounds the depth of the search; one unit for every vertex is enough without bidirect ports.
  The observer and the loop exceptions of the constraints are not modelled.
\<close>

section \<open>State\<close>

datatype LevelColor = LC_white | LC_gray | LC_black

datatype levelize_error = LevelExceeded | DepthExceeded

record Levels =
  lv_level :: "VertexId \<Rightarrow> int"
  lv_color :: "VertexId \<Rightarrow> LevelColor"
  lv_disabled :: "EdgeId \<Rightarrow> bool"
  lv_roots :: "VertexId list"
  lv_relevelize_from :: "VertexId list"
  lv_max_level :: int
  lv_space :: int
  lv_loops :: "EdgeId list list option"
  lv_loop_edges :: "EdgeId list"
  lv_latch_edges :: "EdgeId list"
  lv_levelized :: bool
  lv_levels_valid :: bool

definition vertex_level_max :: int where
  "vertex_level_max = 2 ^ 24 - 1"

definition set_add :: "'a \<Rightarrow> 'a list \<Rightarrow> 'a list" where
  "set_add x xs = (if x \<in> set xs then xs else xs @ [x])"

definition lv_new :: Levels where
  "lv_new =
     \<lparr>lv_level = (\<lambda>_. 0), lv_color = (\<lambda>_. LC_white), lv_disabled = (\<lambda>_. False), lv_roots = [], lv_relevelize_from = [],
      lv_max_level = 0, lv_space = 10, lv_loops = None, lv_loop_edges = [], lv_latch_edges = [],
      lv_levelized = False, lv_levels_valid = False\<rparr>"

definition setLevelSpace :: "int \<Rightarrow> Levels \<Rightarrow> Levels" where
  "setLevelSpace space st = st\<lparr>lv_space := space\<rparr>"

definition setLevel :: "VertexId \<Rightarrow> int \<Rightarrow> Levels \<Rightarrow> Levels" where
  "setLevel v level st = st\<lparr>lv_level := (lv_level st)(v := level)\<rparr>"

definition setColor :: "VertexId \<Rightarrow> LevelColor \<Rightarrow> Levels \<Rightarrow> Levels" where
  "setColor v color st = st\<lparr>lv_color := (lv_color st)(v := color)\<rparr>"

definition clearLoopEdges :: "Levels \<Rightarrow> Levels" where
  "clearLoopEdges st = st\<lparr>lv_disabled := (\<lambda>_. False)\<rparr>"

definition deleteLoops :: "Levels \<Rightarrow> Levels" where
  "deleteLoops st = (case lv_loops st of None \<Rightarrow> st | Some _ \<Rightarrow> st\<lparr>lv_loops := None, lv_loop_edges := []\<rparr>)"

definition levelize_clear :: "Levels \<Rightarrow> Levels" where
  "levelize_clear st =
     deleteLoops (clearLoopEdges (st\<lparr>lv_levelized := False, lv_levels_valid := False, lv_roots := [], lv_relevelize_from := []\<rparr>))"

section \<open>Roots\<close>

definition levelize_pred :: "TGraph \<Rightarrow> SdcFlags \<Rightarrow> Levels \<Rightarrow> SearchPred" where
  "levelize_pred g sdc st = pred_with g (searchThruNonLatch2 g sdc (lv_disabled st))"

definition isRoot :: "TGraph \<Rightarrow> SdcFlags \<Rightarrow> Levels \<Rightarrow> VertexId \<Rightarrow> bool" where
  "isRoot g sdc st v =
     (let pred = levelize_pred g sdc st in
      sr_to pred v
      \<and> \<not> list_ex (\<lambda>e. sr_from pred (te_from (tg_edge g e)) \<and> sr_thru pred e) (tg_in_edges g v)
      \<and> \<not> bidirectDrvrSlewFromLoad sdc (tg_vertex g v))"

text \<open>A root with fanout is coloured black, a root without keeps its colour: the comment says the opposite.\<close>

definition find_root :: "TGraph \<Rightarrow> SdcFlags \<Rightarrow> VertexId \<Rightarrow> Levels \<Rightarrow> Levels" where
  "find_root g sdc v st =
     (let st1 = setLevel v 0 st in
      if isRoot g sdc st1 v then
        let st2 = st1\<lparr>lv_roots := set_add v (lv_roots st1)\<rparr> in
        if hasFanout g (levelize_pred g sdc st2) v then setColor v LC_black st2 else st2
      else setColor v LC_white st1)"

definition findRoots :: "TGraph \<Rightarrow> SdcFlags \<Rightarrow> Levels \<Rightarrow> Levels" where
  "findRoots g sdc st = fold (find_root g sdc) (tg_vertices g) st"

text \<open>The vector is empty when its size is tested, so the roots are always copied and sorted.\<close>

definition sortRoots :: "TGraph \<Rightarrow> VertexId list \<Rightarrow> VertexId list" where
  "sortRoots g roots = sort_key (\<lambda>v. tv_name_rank (tg_vertex g v)) roots"

section \<open>Loops\<close>

definition loopEdges :: "TGraph \<Rightarrow> EdgeId list \<Rightarrow> EdgeId \<Rightarrow> EdgeId list" where
  "loopEdges g path closing =
     dropWhile (\<lambda>e. tv_pin (tg_vertex g (te_from (tg_edge g e))) \<noteq> tv_pin (tg_vertex g (te_to (tg_edge g closing)))) path
     @ [closing]"

definition recordLoop :: "TGraph \<Rightarrow> EdgeId \<Rightarrow> EdgeId list \<Rightarrow> Levels \<Rightarrow> Levels" where
  "recordLoop g e path st =
     (let st1 = (case lv_loops st of
            None \<Rightarrow> st
          | Some loops \<Rightarrow>
              let loop = loopEdges g path e
              in st\<lparr>lv_loops := Some (loops @ [loop]), lv_loop_edges := fold set_add loop (lv_loop_edges st)\<rparr>)
      in st1\<lparr>lv_disabled := (lv_disabled st1)(e := True)\<rparr>)"

definition loop_isCombinational :: "TGraph \<Rightarrow> EdgeId list \<Rightarrow> bool" where
  "loop_isCombinational g loop =
     list_all (\<lambda>e. te_role (tg_edge g e) \<in> {TR_wire, TR_combinational, TR_tristateEnable, TR_tristateDisable}) loop"

section \<open>The search\<close>

definition add_latch_edge :: "TGraph \<Rightarrow> EdgeId \<Rightarrow> Levels \<Rightarrow> Levels" where
  "add_latch_edge g e st =
     (if te_role (tg_edge g e) = TR_latchDtoQ then st\<lparr>lv_latch_edges := set_add e (lv_latch_edges st)\<rparr> else st)"

function levelize_visit ::
    "TGraph \<Rightarrow> SdcFlags \<Rightarrow> int \<Rightarrow> nat \<Rightarrow> VertexId \<Rightarrow> int \<Rightarrow> EdgeId list \<Rightarrow> Levels \<Rightarrow> levelize_error + Levels"
  and levelize_edges ::
    "TGraph \<Rightarrow> SdcFlags \<Rightarrow> int \<Rightarrow> nat \<Rightarrow> EdgeId list \<Rightarrow> int \<Rightarrow> EdgeId list \<Rightarrow> Levels \<Rightarrow> levelize_error + Levels"
where
  "levelize_visit g sdc space 0 v level path st = Inl DepthExceeded"
| "levelize_visit g sdc space (Suc fuel) v level path st =
     (let st1 = setLevel v level (setColor v LC_gray st);
          st2 = st1\<lparr>lv_max_level := max level (lv_max_level st1)\<rparr>;
          pred = levelize_pred g sdc st2
      in if level + space \<ge> vertex_level_max then Inl LevelExceeded
         else if sr_from pred v then
           res_bind (levelize_edges g sdc space fuel (tg_out_edges g v) (level + space) path st2) (\<lambda>st3.
           res_bind (let to_vertex = tg_drvr_vertex g (tv_pin (tg_vertex g v)) in
               if bidirectDrvrSlewFromLoad sdc (tg_vertex g v) \<and> \<not> tv_is_bidirect_driver (tg_vertex g v)
                  \<and> sr_to pred to_vertex
                  \<and> (lv_color st3 to_vertex = LC_white \<or> lv_level st3 to_vertex < level + space)
               then levelize_visit g sdc space fuel to_vertex (level + space) path st3
               else Inr st3) (\<lambda>st4. Inr (setColor v LC_black st4)))
         else Inr (setColor v LC_black st2))"
| "levelize_edges g sdc space fuel [] level path st = Inr st"
| "levelize_edges g sdc space fuel (e # es) level path st =
     (let pred = levelize_pred g sdc st; to_vertex = te_to (tg_edge g e) in
      res_bind
        (if sr_thru pred e \<and> sr_to pred to_vertex then
           if lv_color st to_vertex = LC_gray then Inr (recordLoop g e path st)
           else if lv_color st to_vertex = LC_white \<or> lv_level st to_vertex < level
             then levelize_visit g sdc space fuel to_vertex level (path @ [e]) st
           else Inr st
         else Inr st)
        (\<lambda>st1. levelize_edges g sdc space fuel es level path (add_latch_edge g e st1)))"
  by pat_completeness auto
termination
  by (relation "(\<lambda>x. case x of Inl (_, _, _, fuel, _) \<Rightarrow> 2 * fuel | Inr (_, _, _, fuel, _) \<Rightarrow> 2 * fuel + 1)
       <*mlex*> measure (\<lambda>x. case x of Inl _ \<Rightarrow> 0 | Inr (_, _, _, _, es, _) \<Rightarrow> length es)")
     (auto intro: mlex_less mlex_leq wf_mlex)

declare levelize_visit.simps(2) [simp del]

definition levelize_fuel :: "TGraph \<Rightarrow> nat" where
  "levelize_fuel g = length (tg_vertices g) + 1"

definition levelizeFrom :: "TGraph \<Rightarrow> SdcFlags \<Rightarrow> VertexId list \<Rightarrow> Levels \<Rightarrow> levelize_error + Levels" where
  "levelizeFrom g sdc roots st = res_fold (\<lambda>root st. levelize_visit g sdc (lv_space st) (levelize_fuel g) root 0 [] st) roots st"

definition latch_level :: "TGraph \<Rightarrow> EdgeId \<Rightarrow> Levels \<Rightarrow> Levels" where
  "latch_level g e st =
     (let from = te_from (tg_edge g e) in
      if lv_level st from = lv_level st (te_to (tg_edge g e)) then setLevel from (lv_level st from + lv_space st) st else st)"

definition ensureLatchLevels :: "TGraph \<Rightarrow> Levels \<Rightarrow> Levels" where
  "ensureLatchLevels g st = (fold (latch_level g) (lv_latch_edges st) st)\<lparr>lv_latch_edges := []\<rparr>"

definition levelizeCycles :: "TGraph \<Rightarrow> SdcFlags \<Rightarrow> Levels \<Rightarrow> levelize_error + Levels" where
  "levelizeCycles g sdc st =
     (let uncolored = filter (\<lambda>v. lv_color st v = LC_white \<and> sr_from (levelize_pred g sdc st) v) (tg_vertices g)
      in res_fold (\<lambda>v st.
           if lv_color st v = LC_white
           then levelize_visit g sdc (lv_space st) (levelize_fuel g) v 0 [] (st\<lparr>lv_roots := set_add v (lv_roots st)\<rparr>)
           else Inr st) (sortRoots g uncolored) st)"

definition levelize :: "TGraph \<Rightarrow> SdcFlags \<Rightarrow> Levels \<Rightarrow> levelize_error + Levels" where
  "levelize g sdc st =
     (let st1 = (deleteLoops (clearLoopEdges (st\<lparr>lv_max_level := 0\<rparr>)))\<lparr>lv_loops := Some []\<rparr>;
          st2 = findRoots g sdc st1
      in res_bind (levelizeFrom g sdc (sortRoots g (lv_roots st2)) st2) (\<lambda>st3.
         res_bind (levelizeCycles g sdc (ensureLatchLevels g st3)) (\<lambda>st4.
           Inr (st4\<lparr>lv_levelized := True, lv_levels_valid := True\<rparr>))))"

section \<open>Incremental levelization\<close>

definition levelize_invalidFrom :: "TGraph \<Rightarrow> VertexId \<Rightarrow> Levels \<Rightarrow> Levels" where
  "levelize_invalidFrom g v st =
     st\<lparr>lv_relevelize_from := set_add v (fold (\<lambda>e. set_add (te_from (tg_edge g e))) (tg_in_edges g v) (lv_relevelize_from st)),
        lv_levels_valid := False\<rparr>"

definition levelize_relevelizeFrom :: "VertexId \<Rightarrow> Levels \<Rightarrow> Levels" where
  "levelize_relevelizeFrom v st = st\<lparr>lv_relevelize_from := set_add v (lv_relevelize_from st), lv_levels_valid := False\<rparr>"

definition levelize_deleteVertexBefore :: "VertexId \<Rightarrow> Levels \<Rightarrow> Levels" where
  "levelize_deleteVertexBefore v st = st\<lparr>lv_roots := removeAll v (lv_roots st), lv_relevelize_from := removeAll v (lv_relevelize_from st)\<rparr>"

definition levelize_deleteEdgeBefore :: "EdgeId \<Rightarrow> Levels \<Rightarrow> Levels" where
  "levelize_deleteEdgeBefore e st = (if e \<in> set (lv_loop_edges st) then levelize_clear st else st)"

definition relevelize_vertex :: "TGraph \<Rightarrow> SdcFlags \<Rightarrow> VertexId \<Rightarrow> Levels \<Rightarrow> levelize_error + Levels" where
  "relevelize_vertex g sdc v st =
     (if sr_from (levelize_pred g sdc st) v then
        let st1 = (if isRoot g sdc st v then (setLevel v 0 st)\<lparr>lv_roots := set_add v (lv_roots st)\<rparr> else st)
        in levelize_visit g sdc 1 (levelize_fuel g) v (lv_level st1 v) [] st1
      else Inr st)"

definition relevelize :: "TGraph \<Rightarrow> SdcFlags \<Rightarrow> Levels \<Rightarrow> levelize_error + Levels" where
  "relevelize g sdc st =
     res_bind (res_fold (relevelize_vertex g sdc) (lv_relevelize_from st) st) (\<lambda>st1.
       Inr ((ensureLatchLevels g st1)\<lparr>lv_levels_valid := True, lv_relevelize_from := []\<rparr>))"

definition ensureLevelized :: "TGraph \<Rightarrow> SdcFlags \<Rightarrow> Levels \<Rightarrow> levelize_error + Levels" where
  "ensureLevelized g sdc st =
     (if \<not> lv_levels_valid st then if lv_levelized st then relevelize g sdc st else levelize g sdc st else Inr st)"
section \<open>Lemmas: the search\<close>

definition searchable :: "TGraph \<Rightarrow> SdcFlags \<Rightarrow> Levels \<Rightarrow> EdgeId \<Rightarrow> bool" where
  "searchable g sdc st e \<longleftrightarrow>
     searchFrom0 g (te_from (tg_edge g e)) \<and> searchThruNonLatch2 g sdc (lv_disabled st) e \<and> searchTo0 g (te_to (tg_edge g e))"

definition edge_ok :: "TGraph \<Rightarrow> SdcFlags \<Rightarrow> int \<Rightarrow> Levels \<Rightarrow> EdgeId \<Rightarrow> bool" where
  "edge_ok g sdc space st e \<longleftrightarrow>
     (searchable g sdc st e \<longrightarrow> lv_level st (te_from (tg_edge g e)) + space \<le> lv_level st (te_to (tg_edge g e)))"

definition no_bidirect :: "TGraph \<Rightarrow> SdcFlags \<Rightarrow> bool" where
  "no_bidirect g sdc \<longleftrightarrow> (\<forall>v. \<not> bidirectDrvrSlewFromLoad sdc (tg_vertex g v))"

definition latch_source :: "TGraph \<Rightarrow> VertexId \<Rightarrow> bool" where
  "latch_source g v \<longleftrightarrow> (\<exists>e \<in> set (tg_out_edges g v). te_role (tg_edge g e) = TR_latchDtoQ)"

text \<open>What holds between the steps of the search; the vertices of \<open>X\<close> are exempt.\<close>

definition lev_inv :: "TGraph \<Rightarrow> SdcFlags \<Rightarrow> int \<Rightarrow> VertexId set \<Rightarrow> Levels \<Rightarrow> bool" where
  "lev_inv g sdc space X st \<longleftrightarrow>
     (\<forall>u \<in> set (tg_vertices g). (lv_color st u = LC_white \<longrightarrow> lv_level st u = 0) \<and> 0 \<le> lv_level st u) \<and>
     (\<forall>u \<in> set (tg_vertices g) - X. lv_color st u = LC_black \<longrightarrow> (\<forall>e \<in> set (tg_out_edges g u). edge_ok g sdc space st e)) \<and>
     (\<forall>e \<in> set (lv_latch_edges st). lv_color st (te_from (tg_edge g e)) \<noteq> LC_white \<and> latch_source g (te_from (tg_edge g e)))"

text \<open>What a search leaves: gray vertices with their levels, higher levels elsewhere, more disabled edges.\<close>

definition lev_frame :: "Levels \<Rightarrow> Levels \<Rightarrow> bool" where
  "lev_frame st st' \<longleftrightarrow>
     (\<forall>u. lv_color st' u = LC_gray \<longleftrightarrow> lv_color st u = LC_gray) \<and>
     (\<forall>u. lv_color st u \<noteq> LC_white \<longrightarrow> lv_color st' u \<noteq> LC_white) \<and>
     (\<forall>u. lv_level st u \<le> lv_level st' u) \<and>
     (\<forall>u. lv_color st u = LC_gray \<longrightarrow> lv_level st' u = lv_level st u) \<and>
     (\<forall>e. lv_disabled st e \<longrightarrow> lv_disabled st' e) \<and>
     lv_space st' = lv_space st \<and> lv_roots st' = lv_roots st"

definition free_vertices :: "TGraph \<Rightarrow> Levels \<Rightarrow> VertexId set" where
  "free_vertices g st = {u \<in> set (tg_vertices g). lv_color st u \<noteq> LC_gray}"

text \<open>A vertex that no edge leads to.\<close>

definition never_entered :: "TGraph \<Rightarrow> SdcFlags \<Rightarrow> VertexId \<Rightarrow> bool" where
  "never_entered g sdc r \<longleftrightarrow>
     (\<forall>u \<in> set (tg_vertices g). \<forall>e \<in> set (tg_out_edges g u).
        te_to (tg_edge g e) = r \<longrightarrow> \<not> (searchFrom0 g u \<and> searchThruNonLatch2 g sdc (\<lambda>_. False) e \<and> searchTo0 g r))"

lemma lev_frame_refl: "lev_frame st st"
  by (simp add: lev_frame_def)

lemma lev_frame_trans: "lev_frame a b \<Longrightarrow> lev_frame b c \<Longrightarrow> lev_frame a c"
  by (simp add: lev_frame_def) (meson order_trans)

lemma lev_inv_weaken: "lev_inv g sdc s X st \<Longrightarrow> X \<subseteq> Y \<Longrightarrow> lev_inv g sdc s Y st"
  unfolding lev_inv_def by blast

lemma edge_ok_frame:
  assumes "edge_ok g sdc s st e" "lev_frame st st'" "lv_color st (te_from (tg_edge g e)) = LC_gray"
  shows "edge_ok g sdc s st' e"
proof -
  have "lv_level st' (te_from (tg_edge g e)) = lv_level st (te_from (tg_edge g e))"
    "lv_level st (te_to (tg_edge g e)) \<le> lv_level st' (te_to (tg_edge g e))"
    using assms(2,3) by (auto simp: lev_frame_def)
  moreover have "searchable g sdc st' e \<Longrightarrow> searchable g sdc st e"
    using assms(2) searchThru_antimono [of "lv_disabled st" "lv_disabled st'" g sdc e] by (auto simp: searchable_def lev_frame_def)
  ultimately show ?thesis using assms(1) by (auto simp: edge_ok_def)
qed

lemma free_frame: "lev_frame st st' \<Longrightarrow> free_vertices g st' = free_vertices g st"
  by (auto simp: lev_frame_def free_vertices_def)

text \<open>Entering a vertex.\<close>

definition enter :: "VertexId \<Rightarrow> int \<Rightarrow> Levels \<Rightarrow> Levels" where
  "enter v level st =
     (setLevel v level (setColor v LC_gray st))\<lparr>lv_max_level := max level (lv_max_level (setLevel v level (setColor v LC_gray st)))\<rparr>"

lemma enter_fields [simp]:
  "lv_level (enter v level st) = (lv_level st)(v := level)" "lv_color (enter v level st) = (lv_color st)(v := LC_gray)"
  "lv_disabled (enter v level st) = lv_disabled st" "lv_latch_edges (enter v level st) = lv_latch_edges st"
  "lv_space (enter v level st) = lv_space st" "lv_roots (enter v level st) = lv_roots st"
  by (simp_all add: enter_def setLevel_def setColor_def)

lemma enter_inv:
  assumes "graph_wf g" "lev_inv g sdc s X st" "lv_level st v \<le> level" "0 \<le> level"
  shows "lev_inv g sdc s (X - {v}) (enter v level st)"
proof -
  have "edge_ok g sdc s (enter v level st) e"
    if "edge_ok g sdc s st e" "e \<in> set (tg_out_edges g u)" "u \<noteq> v" "u \<in> set (tg_vertices g)" for e u
    using that assms(1,3) by (auto simp: edge_ok_def searchable_def graph_wf_def)
  then show ?thesis using assms by (auto simp: lev_inv_def)
qed

lemma setColor_fields [simp]:
  "lv_level (setColor v c st) = lv_level st" "lv_color (setColor v c st) = (lv_color st)(v := c)"
  "lv_disabled (setColor v c st) = lv_disabled st" "lv_latch_edges (setColor v c st) = lv_latch_edges st"
  "lv_space (setColor v c st) = lv_space st" "lv_roots (setColor v c st) = lv_roots st"
  "edge_ok g sdc s (setColor v c st) = edge_ok g sdc s st"
  by (simp_all add: setColor_def edge_ok_def searchable_def fun_eq_iff)

lemma leave_inv:
  assumes "lev_inv g sdc s X st" "\<forall>e \<in> set (tg_out_edges g v). edge_ok g sdc s st e" "lv_color st v = LC_gray"
  shows "lev_inv g sdc s X (setColor v LC_black st)"
  using assms by (auto simp: lev_inv_def)

lemma visit_frame:
  assumes "lev_frame (enter v level st) st'" "lv_color st v \<noteq> LC_gray" "lv_level st v \<le> level"
  shows "lev_frame st (setColor v LC_black st')"
proof -
  have "\<forall>u. lv_color st' u = LC_gray \<longleftrightarrow> (if u = v then LC_gray else lv_color st u) = LC_gray"
    "\<forall>u. (if u = v then LC_gray else lv_color st u) \<noteq> LC_white \<longrightarrow> lv_color st' u \<noteq> LC_white"
    "\<forall>u. (if u = v then level else lv_level st u) \<le> lv_level st' u"
    "\<forall>u. (if u = v then LC_gray else lv_color st u) = LC_gray \<longrightarrow> lv_level st' u = (if u = v then level else lv_level st u)"
    "\<forall>e. lv_disabled st e \<longrightarrow> lv_disabled st' e" "lv_space st' = lv_space st" "lv_roots st' = lv_roots st"
    using assms(1) by (simp_all add: lev_frame_def)
  then show ?thesis
    using assms(2,3) unfolding lev_frame_def setColor_fields fun_upd_apply
    by (intro conjI allI) (auto split: if_splits dest: spec [of _ v])
qed

lemma recordLoop_fields [simp]:
  "lv_level (recordLoop g e path st) = lv_level st" "lv_color (recordLoop g e path st) = lv_color st"
  "lv_disabled (recordLoop g e path st) = (lv_disabled st)(e := True)" "lv_latch_edges (recordLoop g e path st) = lv_latch_edges st"
  "lv_space (recordLoop g e path st) = lv_space st" "lv_roots (recordLoop g e path st) = lv_roots st"
  by (simp_all add: recordLoop_def Let_def split: option.split)

lemma recordLoop_inv:
  assumes "lev_inv g sdc s X st"
  shows "lev_inv g sdc s X (recordLoop g e path st)" "edge_ok g sdc s (recordLoop g e path st) e"
proof -
  have mono: "searchable g sdc (recordLoop g e path st) e' \<Longrightarrow> searchable g sdc st e'" for e'
    using searchThru_antimono [of "lv_disabled st" "lv_disabled (recordLoop g e path st)" g sdc e'] by (auto simp: searchable_def)
  then have "edge_ok g sdc s st e' \<Longrightarrow> edge_ok g sdc s (recordLoop g e path st) e'" for e' by (auto simp: edge_ok_def)
  then show "lev_inv g sdc s X (recordLoop g e path st)" using assms by (auto simp: lev_inv_def)
  show "edge_ok g sdc s (recordLoop g e path st) e" by (simp add: edge_ok_def searchable_def search_thru_defs)
qed

lemma recordLoop_frame: "lev_frame st (recordLoop g e path st)"
  by (simp add: lev_frame_def)

lemma add_latch_edge_fields [simp]:
  "lv_level (add_latch_edge g e st) = lv_level st" "lv_color (add_latch_edge g e st) = lv_color st"
  "lv_disabled (add_latch_edge g e st) = lv_disabled st" "lv_space (add_latch_edge g e st) = lv_space st"
  "lv_roots (add_latch_edge g e st) = lv_roots st" "edge_ok g sdc s (add_latch_edge g e st) = edge_ok g sdc s st"
  by (auto simp: add_latch_edge_def edge_ok_def searchable_def)

lemma add_latch_edge_inv:
  assumes "lev_inv g sdc s X st" "lv_color st (te_from (tg_edge g e)) \<noteq> LC_white" "e \<in> set (tg_out_edges g (te_from (tg_edge g e)))"
  shows "lev_inv g sdc s X (add_latch_edge g e st)"
proof -
  have "set (lv_latch_edges (add_latch_edge g e st)) \<subseteq>
      set (lv_latch_edges st) \<union> (if te_role (tg_edge g e) = TR_latchDtoQ then {e} else {})"
    by (auto simp: add_latch_edge_def set_add_def)
  then show ?thesis using assms by (auto simp: lev_inv_def latch_source_def split: if_splits)
qed
definition visit_result :: "TGraph \<Rightarrow> SdcFlags \<Rightarrow> int \<Rightarrow> VertexId set \<Rightarrow> VertexId \<Rightarrow> int \<Rightarrow> Levels \<Rightarrow> levelize_error + Levels \<Rightarrow> bool" where
  "visit_result g sdc space X v level st r \<longleftrightarrow>
     (case r of Inl err \<Rightarrow> err = LevelExceeded \<and> vertex_level_max \<le> level + space * int (card (free_vertices g st))
      | Inr st' \<Rightarrow> lev_frame st st' \<and> lev_inv g sdc space (X - {v}) st' \<and> lv_color st' v = LC_black \<and> level \<le> lv_level st' v \<and>
          (\<forall>r. never_entered g sdc r \<longrightarrow> r \<noteq> v \<longrightarrow> lv_level st' r = lv_level st r))"

definition edges_result :: "TGraph \<Rightarrow> SdcFlags \<Rightarrow> int \<Rightarrow> int \<Rightarrow> VertexId set \<Rightarrow> EdgeId list \<Rightarrow> Levels \<Rightarrow> levelize_error + Levels \<Rightarrow> bool" where
  "edges_result g sdc space bound X es st r \<longleftrightarrow>
     (case r of Inl err \<Rightarrow> err = LevelExceeded \<and> vertex_level_max \<le> bound
      | Inr st' \<Rightarrow> lev_frame st st' \<and> lev_inv g sdc space X st' \<and> (\<forall>e \<in> set es. edge_ok g sdc space st' e) \<and>
          (\<forall>r. never_entered g sdc r \<longrightarrow> lv_level st' r = lv_level st r))"

lemma free_enter:
  assumes "v \<in> set (tg_vertices g)" "lv_color st v \<noteq> LC_gray"
  shows "Suc (card (free_vertices g (enter v level st))) = card (free_vertices g st)"
proof -
  have "free_vertices g (enter v level st) = free_vertices g st - {v}" by (auto simp: free_vertices_def)
  moreover have "v \<in> free_vertices g st" "finite (free_vertices g st)" using assms by (auto simp: free_vertices_def)
  ultimately show ?thesis using card_Suc_Diff1 by metis
qed

text \<open>Entering the end of an edge, once the search of the rest has its specification.\<close>

lemma edges_step:
  assumes wf: "graph_wf g" and v: "v \<in> set (tg_vertices g)" "lv_color st v = LC_gray" "lv_level st v + space = level"
    and e: "e \<in> set (tg_out_edges g v)" and inv: "lev_inv g sdc space X st" "0 < space"
    and bound: "level + space * int (card (free_vertices g st)) \<le> bound"
    and visit: "searchable g sdc st e \<Longrightarrow> lv_color st (te_to (tg_edge g e)) \<noteq> LC_gray \<Longrightarrow>
      lv_color st (te_to (tg_edge g e)) = LC_white \<or> lv_level st (te_to (tg_edge g e)) < level \<Longrightarrow>
      visit_result g sdc space X (te_to (tg_edge g e)) level st
        (levelize_visit g sdc space fuel (te_to (tg_edge g e)) level (path @ [e]) st)" and src: "searchFrom0 g v"
  shows "edges_result g sdc space bound X [e] st
    (if sr_thru (levelize_pred g sdc st) e \<and> sr_to (levelize_pred g sdc st) (te_to (tg_edge g e)) then
       if lv_color st (te_to (tg_edge g e)) = LC_gray then Inr (recordLoop g e path st)
       else if lv_color st (te_to (tg_edge g e)) = LC_white \<or> lv_level st (te_to (tg_edge g e)) < level
         then levelize_visit g sdc space fuel (te_to (tg_edge g e)) level (path @ [e]) st
       else Inr st
     else Inr st)"
proof -
  have from_v: "te_from (tg_edge g e) = v" using wf v(1) e by (auto simp: graph_wf_def)
  have pred: "sr_thru (levelize_pred g sdc st) e \<and> sr_to (levelize_pred g sdc st) (te_to (tg_edge g e)) \<longleftrightarrow> searchable g sdc st e"
    using src by (simp add: levelize_pred_def pred_with_def searchable_def from_v)
  consider "\<not> searchable g sdc st e" | "searchable g sdc st e" "lv_color st (te_to (tg_edge g e)) = LC_gray"
    | "searchable g sdc st e" "lv_color st (te_to (tg_edge g e)) \<noteq> LC_gray"
      "lv_color st (te_to (tg_edge g e)) = LC_white \<or> lv_level st (te_to (tg_edge g e)) < level"
    | "searchable g sdc st e" "lv_color st (te_to (tg_edge g e)) = LC_black" "level \<le> lv_level st (te_to (tg_edge g e))"
    by (cases "lv_color st (te_to (tg_edge g e))") force+
  then show ?thesis
  proof cases
    case 1
    then show ?thesis unfolding pred using inv(1) by (simp add: edges_result_def lev_frame_refl edge_ok_def)
  next
    case 2
    then show ?thesis unfolding pred using recordLoop_inv [OF inv(1)] by (simp add: edges_result_def recordLoop_frame)
  next
    case 3
    have entered: "\<not> never_entered g sdc (te_to (tg_edge g e))"
      using 3(1) v(1) e from_v src searchThru_antimono [of "\<lambda>_. False" "lv_disabled st" g sdc e]
      by (auto simp: never_entered_def searchable_def)
    have "edges_result g sdc space bound X [e] st (Inr st')"
      if r: "visit_result g sdc space X (te_to (tg_edge g e)) level st (Inr st')" for st'
    proof -
      have "lv_level st' v = lv_level st v" using r v(2) by (simp add: visit_result_def lev_frame_def)
      then have "edge_ok g sdc space st' e" using r v(3) by (simp add: visit_result_def edge_ok_def from_v)
      then show ?thesis using r entered lev_inv_weaken [of g sdc space "X - {te_to (tg_edge g e)}" st' X]
        by (auto simp: visit_result_def edges_result_def)
    qed
    moreover have "edges_result g sdc space bound X [e] st (Inl err)" if "visit_result g sdc space X (te_to (tg_edge g e)) level st (Inl err)" for err
      using that bound by (simp add: visit_result_def edges_result_def)
    ultimately have "edges_result g sdc space bound X [e] st r" if "visit_result g sdc space X (te_to (tg_edge g e)) level st r" for r
      using that by (cases r) blast+
    from this [OF visit [OF 3]] show ?thesis unfolding pred using 3 by simp
  next
    case 4
    then show ?thesis unfolding pred using inv(1) v(3) by (simp add: edges_result_def lev_frame_refl edge_ok_def from_v)
  qed
qed

lemma edges_append:
  assumes first: "edges_result g sdc space bound X [e] st (Inr st1)" and gray: "lv_color st (te_from (tg_edge g e)) = LC_gray"
    and rest: "edges_result g sdc space bound X es (add_latch_edge g e st1) r"
  shows "edges_result g sdc space bound X (e # es) st r"
proof (cases r)
  case (Inr st')
  have f1: "lev_frame st (add_latch_edge g e st1)" and ok: "edge_ok g sdc space (add_latch_edge g e st1) e"
    using first by (simp_all add: edges_result_def lev_frame_def)
  have f2: "lev_frame (add_latch_edge g e st1) st'" using rest Inr by (simp add: edges_result_def)
  have "lv_color (add_latch_edge g e st1) (te_from (tg_edge g e)) = LC_gray" using f1 gray by (simp add: lev_frame_def)
  from edge_ok_frame [OF ok f2 this] show ?thesis
    using first rest Inr lev_frame_trans [OF f1 f2] by (simp add: edges_result_def)
qed (use rest in \<open>simp add: edges_result_def\<close>)

text \<open>The specification of the search at a fuel.\<close>

definition visit_spec :: "TGraph \<Rightarrow> SdcFlags \<Rightarrow> int \<Rightarrow> nat \<Rightarrow> bool" where
  "visit_spec g sdc space fuel \<longleftrightarrow>
     (\<forall>v st X level path. v \<in> set (tg_vertices g) \<longrightarrow> lv_color st v \<noteq> LC_gray \<longrightarrow> lev_inv g sdc space X st \<longrightarrow>
        lv_level st v \<le> level \<longrightarrow> 0 \<le> level \<longrightarrow> card (free_vertices g st) \<le> fuel \<longrightarrow>
        visit_result g sdc space X v level st (levelize_visit g sdc space fuel v level path st))"

lemma levelize_edges_spec:
  assumes wf: "graph_wf g" and space: "0 < space" and spec: "visit_spec g sdc space fuel"
    and v: "v \<in> set (tg_vertices g)" "searchFrom0 g v"
  shows "set es \<subseteq> set (tg_out_edges g v) \<Longrightarrow> lv_color st v = LC_gray \<Longrightarrow> lev_inv g sdc space X st \<Longrightarrow>
      lv_level st v + space = level \<Longrightarrow> card (free_vertices g st) \<le> fuel \<Longrightarrow>
      level + space * int (card (free_vertices g st)) \<le> bound \<Longrightarrow>
      edges_result g sdc space bound X es st (levelize_edges g sdc space fuel es level path st)"
proof (induction es arbitrary: st)
  case Nil
  then show ?case by (simp add: edges_result_def lev_frame_refl)
next
  case (Cons e es)
  have e: "e \<in> set (tg_out_edges g v)" using Cons.prems(1) by simp
  have ends: "te_from (tg_edge g e) = v" "te_to (tg_edge g e) \<in> set (tg_vertices g)"
    using wf v(1) e by (auto simp: graph_wf_def)
  have level: "0 \<le> lv_level st v" using Cons.prems(3) v(1) by (simp add: lev_inv_def)
  define r where "r = (if sr_thru (levelize_pred g sdc st) e \<and> sr_to (levelize_pred g sdc st) (te_to (tg_edge g e)) then
       if lv_color st (te_to (tg_edge g e)) = LC_gray then Inr (recordLoop g e path st)
       else if lv_color st (te_to (tg_edge g e)) = LC_white \<or> lv_level st (te_to (tg_edge g e)) < level
         then levelize_visit g sdc space fuel (te_to (tg_edge g e)) level (path @ [e]) st
       else Inr st
     else Inr st)"
  have all: "levelize_edges g sdc space fuel (e # es) level path st =
      res_bind r (\<lambda>st1. levelize_edges g sdc space fuel es level path (add_latch_edge g e st1))"
    by (simp add: r_def Let_def)
  have step: "edges_result g sdc space bound X [e] st r"
    unfolding r_def
  proof (rule edges_step [OF wf v(1) Cons.prems(2,4) e Cons.prems(3) space Cons.prems(6) _ v(2)])
    assume to: "lv_color st (te_to (tg_edge g e)) \<noteq> LC_gray"
      "lv_color st (te_to (tg_edge g e)) = LC_white \<or> lv_level st (te_to (tg_edge g e)) < level"
    then have "lv_level st (te_to (tg_edge g e)) \<le> level"
      using Cons.prems(3,4) level space ends(2) by (auto simp: lev_inv_def)
    then show "visit_result g sdc space X (te_to (tg_edge g e)) level st
        (levelize_visit g sdc space fuel (te_to (tg_edge g e)) level (path @ [e]) st)"
      using spec ends(2) to(1) Cons.prems(3-5) level space by (auto simp: visit_spec_def)
  qed
  show ?case
  proof (cases r)
    case (Inl err)
    then show ?thesis unfolding all using step by (simp add: edges_result_def)
  next
    case (Inr st1)
    have frame: "lev_frame st st1" and inv: "lev_inv g sdc space X st1" using step Inr by (simp_all add: edges_result_def)
    have gray: "lv_color st1 v = LC_gray" "lv_level st1 v = lv_level st v"
      using frame Cons.prems(2) by (simp_all add: lev_frame_def)
    have "lev_inv g sdc space X (add_latch_edge g e st1)"
      using add_latch_edge_inv [OF inv] gray(1) ends(1) e by simp
    moreover have "free_vertices g (add_latch_edge g e st1) = free_vertices g st"
      using free_frame [OF frame] by (simp add: free_vertices_def)
    ultimately have "edges_result g sdc space bound X es (add_latch_edge g e st1)
        (levelize_edges g sdc space fuel es level path (add_latch_edge g e st1))"
      using Cons gray by simp
    then show ?thesis
      unfolding all using edges_append [OF step [unfolded Inr]] Cons.prems(2) ends(1) by (simp add: Inr)
  qed
qed

lemma levelize_visit_spec:
  assumes wf: "graph_wf g" and nb: "no_bidirect g sdc" and space: "0 < space"
  shows "visit_spec g sdc space fuel"
proof (induction fuel)
  case 0
  then show ?case by (auto simp: visit_spec_def free_vertices_def)
next
  case (Suc fuel)
  show ?case
    unfolding visit_spec_def
  proof (intro allI impI)
    fix v st X level path
    assume v: "v \<in> set (tg_vertices g)" "lv_color st v \<noteq> LC_gray" and inv: "lev_inv g sdc space X st"
      and level: "lv_level st v \<le> level" "0 \<le> level" and card: "card (free_vertices g st) \<le> Suc fuel"
    let ?st = "enter v level st"
    have pred: "sr_from (levelize_pred g sdc ?st) v \<longleftrightarrow> searchFrom0 g v" by (simp add: levelize_pred_def pred_with_def)
    have unfold: "levelize_visit g sdc space (Suc fuel) v level path st =
        (if level + space \<ge> vertex_level_max then Inl LevelExceeded
         else if searchFrom0 g v then
           res_bind (levelize_edges g sdc space fuel (tg_out_edges g v) (level + space) path ?st) (\<lambda>st3. Inr (setColor v LC_black st3))
         else Inr (setColor v LC_black ?st))"
      using nb pred by (simp add: levelize_visit.simps(2) Let_def enter_def no_bidirect_def cong: if_cong)
    have inv': "lev_inv g sdc space (X - {v}) ?st" by (rule enter_inv [OF wf inv level])
    have left: "visit_result g sdc space X v level st (Inr (setColor v LC_black st'))"
      if frame: "lev_frame ?st st'" and "lev_inv g sdc space (X - {v}) st'" "\<forall>e \<in> set (tg_out_edges g v). edge_ok g sdc space st' e"
        and roots: "\<forall>r. never_entered g sdc r \<longrightarrow> lv_level st' r = lv_level ?st r" for st'
    proof -
      have "lv_color st' v = LC_gray" "lv_level st' v = level" using frame by (simp_all add: lev_frame_def)
      then show ?thesis
        using visit_frame [OF frame v(2) level(1)] leave_inv [OF that(2,3)] roots by (simp add: visit_result_def)
    qed
    have "0 < card (free_vertices g st)" using free_enter [OF v, of level] by simp
    then have high: "level + space \<le> level + space * int (card (free_vertices g st))"
      using space by (simp add: mult_le_cancel_left1)
    show "visit_result g sdc space X v level st (levelize_visit g sdc space (Suc fuel) v level path st)"
    proof (cases "searchFrom0 g v")
      case True
      have "edges_result g sdc space (level + space * int (card (free_vertices g st))) (X - {v}) (tg_out_edges g v) ?st
          (levelize_edges g sdc space fuel (tg_out_edges g v) (level + space) path ?st)"
        using levelize_edges_spec [OF wf space Suc v(1) True, where es = "tg_out_edges g v" and st = ?st and X = "X - {v}" and
            level = "level + space" and path = path]
          inv' card by (simp add: free_enter [OF v, of level, symmetric] algebra_simps)
      then show ?thesis
        using True high unfolding unfold by (auto simp: edges_result_def visit_result_def [of _ _ _ _ _ _ _ "Inl _"] split: sum.splits intro: left)
    next
      case False
      have "edge_ok g sdc space ?st e" if "e \<in> set (tg_out_edges g v)" for e
        using that wf v(1) False by (auto simp: edge_ok_def searchable_def graph_wf_def)
      then show ?thesis
        using False left [OF lev_frame_refl inv'] high unfolding unfold by (auto simp: visit_result_def [of _ _ _ _ _ _ _ "Inl _"])
    qed
  qed
qed
section \<open>Lemmas: the whole graph\<close>

definition no_gray :: "TGraph \<Rightarrow> Levels \<Rightarrow> bool" where
  "no_gray g st \<longleftrightarrow> (\<forall>v \<in> set (tg_vertices g). lv_color st v \<noteq> LC_gray)"

text \<open>The state in which \<open>levelize\<close> is called: new, or cleared after a search that ended.\<close>

definition levels_fresh :: "TGraph \<Rightarrow> Levels \<Rightarrow> bool" where
  "levels_fresh g st \<longleftrightarrow> no_gray g st \<and> lv_roots st = [] \<and> lv_latch_edges st = [] \<and> 0 < lv_space st"

lemma levels_fresh_new: "levels_fresh g lv_new"
  by (simp add: levels_fresh_def no_gray_def lv_new_def)

definition level_bound :: "TGraph \<Rightarrow> int \<Rightarrow> int" where
  "level_bound g space = space * int (length (tg_vertices g))"

text \<open>One search at level zero, from a vertex whose level is zero.\<close>

definition search_ok :: "TGraph \<Rightarrow> SdcFlags \<Rightarrow> int \<Rightarrow> VertexId set \<Rightarrow> Levels \<Rightarrow> bool" where
  "search_ok g sdc space X st \<longleftrightarrow> lev_inv g sdc space X st \<and> no_gray g st \<and> lv_space st = space"

lemma search_from:
  assumes wf: "graph_wf g" "no_bidirect g sdc" "0 < space" and ok: "search_ok g sdc space X st"
    and v: "v \<in> set (tg_vertices g)" "lv_level st v = 0"
  shows "case levelize_visit g sdc (lv_space st) (levelize_fuel g) v 0 [] st of
      Inl err \<Rightarrow> err = LevelExceeded \<and> vertex_level_max \<le> level_bound g space
    | Inr st' \<Rightarrow> search_ok g sdc space (X - {v}) st' \<and> lv_color st' v = LC_black \<and>
        (\<forall>u. lv_color st u \<noteq> LC_white \<longrightarrow> lv_color st' u \<noteq> LC_white) \<and>
        (\<forall>r. never_entered g sdc r \<longrightarrow> r \<noteq> v \<longrightarrow> lv_level st' r = lv_level st r)"
proof -
  have free: "free_vertices g st = set (tg_vertices g)" using ok by (auto simp: free_vertices_def search_ok_def no_gray_def)
  have card: "card (set (tg_vertices g)) = length (tg_vertices g)" using wf(1) by (simp add: graph_wf_def distinct_card)
  have "card (free_vertices g st) \<le> levelize_fuel g" by (simp add: free card levelize_fuel_def)
  then have "visit_result g sdc space X v 0 st (levelize_visit g sdc space (levelize_fuel g) v 0 [] st)"
    using levelize_visit_spec [OF wf, of "levelize_fuel g"] ok v
    by (simp add: visit_spec_def search_ok_def no_gray_def)
  then show ?thesis
    using ok by (auto simp: visit_result_def search_ok_def lev_frame_def no_gray_def free card level_bound_def split: sum.splits)
qed

lemma levelize_roots:
  assumes wf: "graph_wf g" "no_bidirect g sdc" "0 < space"
  shows "search_ok g sdc space (set rs \<union> X) st \<Longrightarrow> distinct rs \<Longrightarrow>
      \<forall>r \<in> set rs. r \<in> set (tg_vertices g) \<and> never_entered g sdc r \<and> lv_level st r = 0 \<Longrightarrow>
    case levelizeFrom g sdc rs st of
      Inl err \<Rightarrow> err = LevelExceeded \<and> vertex_level_max \<le> level_bound g space
    | Inr st' \<Rightarrow> search_ok g sdc space X st'"
proof (induction rs arbitrary: st)
  case (Cons r rs)
  note from_r = search_from [OF wf Cons.prems(1), of r]
  show ?case
  proof (cases "levelize_visit g sdc (lv_space st) (levelize_fuel g) r 0 [] st")
    case (Inl err)
    then show ?thesis using from_r Cons.prems(3) by (simp add: levelizeFrom_def)
  next
    case (Inr st1)
    then have st1: "search_ok g sdc space (set (r # rs) \<union> X - {r}) st1"
        "\<forall>u. never_entered g sdc u \<longrightarrow> u \<noteq> r \<longrightarrow> lv_level st1 u = lv_level st u"
      using from_r Cons.prems(3) by simp_all
    have "search_ok g sdc space (set rs \<union> X) st1"
      using st1(1) by (auto simp: search_ok_def intro: lev_inv_weaken)
    moreover have "\<forall>u \<in> set rs. u \<in> set (tg_vertices g) \<and> never_entered g sdc u \<and> lv_level st1 u = 0"
    proof
      fix u assume "u \<in> set rs"
      then have "u \<noteq> r" "u \<in> set (tg_vertices g) \<and> never_entered g sdc u \<and> lv_level st u = 0" using Cons.prems(2,3) by auto
      then show "u \<in> set (tg_vertices g) \<and> never_entered g sdc u \<and> lv_level st1 u = 0" using st1(2) by simp
    qed
    ultimately show ?thesis using Cons.IH [of st1] Cons.prems(2) Inr by (simp add: levelizeFrom_def)
  qed
qed (simp add: levelizeFrom_def)

lemma find_root_fields [simp]:
  "lv_disabled (find_root g sdc v st) = lv_disabled st" "lv_latch_edges (find_root g sdc v st) = lv_latch_edges st"
  "lv_space (find_root g sdc v st) = lv_space st" "lv_level (find_root g sdc v st) = (lv_level st)(v := 0)"
  by (simp_all add: find_root_def setLevel_def setColor_def Let_def)

lemma isRoot_level: "isRoot g sdc (setLevel u l st) v = isRoot g sdc st v"
  by (simp add: isRoot_def setLevel_def levelize_pred_def)

lemma isRoot_cong: "lv_disabled st = lv_disabled st' \<Longrightarrow> isRoot g sdc st v = isRoot g sdc st' v"
  by (simp add: isRoot_def levelize_pred_def)

lemma find_root_color:
  "u \<noteq> v \<Longrightarrow> lv_color (find_root g sdc v st) u = lv_color st u"
  "lv_color st v \<noteq> LC_gray \<Longrightarrow> lv_color (find_root g sdc v st) v \<noteq> LC_gray"
  "\<not> isRoot g sdc st v \<Longrightarrow> lv_color (find_root g sdc v st) v = LC_white"
  "lv_roots (find_root g sdc v st) = (if isRoot g sdc st v then set_add v (lv_roots st) else lv_roots st)"
  by (auto simp: find_root_def Let_def isRoot_level) (simp_all add: setLevel_def)

lemma find_roots_loop:
  "distinct vs \<Longrightarrow> distinct (lv_roots st) \<Longrightarrow>
   (let st' = fold (find_root g sdc) vs st in
     lv_disabled st' = lv_disabled st \<and> lv_latch_edges st' = lv_latch_edges st \<and> lv_space st' = lv_space st \<and>
     (\<forall>v \<in> set vs. lv_level st' v = 0) \<and> (\<forall>v. v \<notin> set vs \<longrightarrow> lv_level st' v = lv_level st v \<and> lv_color st' v = lv_color st v) \<and>
     (\<forall>v \<in> set vs. (lv_color st v \<noteq> LC_gray \<longrightarrow> lv_color st' v \<noteq> LC_gray) \<and> (\<not> isRoot g sdc st v \<longrightarrow> lv_color st' v = LC_white)) \<and>
     set (lv_roots st') = set (lv_roots st) \<union> {v \<in> set vs. isRoot g sdc st v} \<and> distinct (lv_roots st'))"
proof (induction vs arbitrary: st)
  case (Cons v vs)
  have dist: "distinct (lv_roots (find_root g sdc v st))" using Cons.prems(2) by (simp add: find_root_color(4) set_add_def)
  have same: "isRoot g sdc (find_root g sdc v st) u = isRoot g sdc st u" for u by (rule isRoot_cong) simp
  have roots: "set (lv_roots (find_root g sdc v st)) = set (lv_roots st) \<union> (if isRoot g sdc st v then {v} else {})"
    by (auto simp: find_root_color(4) set_add_def)
  have "distinct vs" "v \<notin> set vs" using Cons.prems(1) by simp_all
  note IH = Cons.IH [OF this(1) dist, unfolded Let_def same roots]
  show ?case
    unfolding Let_def fold_Cons comp_apply
  proof (intro conjI ballI allI impI)
    fix u assume u: "u \<in> set (v # vs)"
    show "lv_level (fold (find_root g sdc) vs (find_root g sdc v st)) u = 0"
      using IH u \<open>v \<notin> set vs\<close> by (cases "u = v") simp_all
    show "lv_color (fold (find_root g sdc) vs (find_root g sdc v st)) u \<noteq> LC_gray" if "lv_color st u \<noteq> LC_gray"
      using IH u that \<open>v \<notin> set vs\<close> by (cases "u = v") (simp_all add: find_root_color(1,2))
    show "lv_color (fold (find_root g sdc) vs (find_root g sdc v st)) u = LC_white" if "\<not> isRoot g sdc st u"
      using IH u that \<open>v \<notin> set vs\<close> by (cases "u = v") (simp_all add: find_root_color(1,3))
  qed (use IH in \<open>auto simp: find_root_color(1)\<close>)
qed simp

lemma isRoot_never_entered:
  assumes "graph_wf g" "isRoot g sdc st v" "lv_disabled st = (\<lambda>_. False)" "v \<in> set (tg_vertices g)"
  shows "never_entered g sdc v"
  unfolding never_entered_def
proof (intro ballI impI)
  fix u e assume "u \<in> set (tg_vertices g)" "e \<in> set (tg_out_edges g u)" "te_to (tg_edge g e) = v"
  then have "e \<in> set (tg_in_edges g v)" "te_from (tg_edge g e) = u" using assms(1) by (auto simp: graph_wf_def)
  then show "\<not> (searchFrom0 g u \<and> searchThruNonLatch2 g sdc (\<lambda>_. False) e \<and> searchTo0 g v)"
    using assms(2,3) by (auto simp: isRoot_def levelize_pred_def pred_with_def list_ex_iff)
qed
lemma findRoots_ok:
  fixes sdc :: SdcFlags
  assumes wf: "graph_wf g" and fresh: "no_gray g st" "lv_roots st = []" "lv_latch_edges st = []" "lv_disabled st = (\<lambda>_. False)"
  defines "st' \<equiv> findRoots g sdc st"
  shows "search_ok g sdc (lv_space st) (set (lv_roots st')) st'" "distinct (lv_roots st')"
    "\<forall>r \<in> set (lv_roots st'). r \<in> set (tg_vertices g) \<and> never_entered g sdc r \<and> lv_level st' r = 0"
proof -
  have "distinct (tg_vertices g)" using wf by (simp add: graph_wf_def)
  note loop = find_roots_loop [OF this, of st g sdc, folded findRoots_def st'_def, unfolded Let_def fresh(2), simplified]
  show "distinct (lv_roots st')" using loop by simp
  show "\<forall>r \<in> set (lv_roots st'). r \<in> set (tg_vertices g) \<and> never_entered g sdc r \<and> lv_level st' r = 0"
    using loop isRoot_never_entered [OF wf _ fresh(4)] by auto
  have "lv_color st' v = LC_white" if "v \<in> set (tg_vertices g) - set (lv_roots st')" for v using loop that by auto
  then show "search_ok g sdc (lv_space st) (set (lv_roots st')) st'"
    using loop fresh by (auto simp: search_ok_def lev_inv_def no_gray_def)
qed

text \<open>Raising the sources of latch edges exempts them.\<close>

lemma latch_levels_loop:
  assumes wf: "graph_wf g" "0 < space"
  shows "search_ok g sdc space {v. latch_source g v} st \<Longrightarrow>
    (\<forall>e \<in> set es. lv_color st (te_from (tg_edge g e)) \<noteq> LC_white \<and> latch_source g (te_from (tg_edge g e))) \<Longrightarrow>
    search_ok g sdc space {v. latch_source g v} (fold (latch_level g) es st) \<and>
    lv_color (fold (latch_level g) es st) = lv_color st \<and> lv_latch_edges (fold (latch_level g) es st) = lv_latch_edges st"
proof (induction es arbitrary: st)
  case (Cons e es)
  define st1 where "st1 = latch_level g e st"
  have same: "lv_color st1 = lv_color st" "lv_disabled st1 = lv_disabled st" "lv_latch_edges st1 = lv_latch_edges st"
      "lv_space st1 = lv_space st"
    by (simp_all add: st1_def latch_level_def setLevel_def Let_def)
  have level: "lv_level st u \<le> lv_level st1 u" "u \<noteq> te_from (tg_edge g e) \<Longrightarrow> lv_level st1 u = lv_level st u" for u
    using Cons.prems(1) wf(2) by (simp_all add: st1_def latch_level_def setLevel_def Let_def search_ok_def)
  have ok: "edge_ok g sdc space st1 e'" if "edge_ok g sdc space st e'" "\<not> latch_source g (te_from (tg_edge g e'))" for e'
  proof -
    have "te_from (tg_edge g e') \<noteq> te_from (tg_edge g e)" using that(2) Cons.prems(2) by auto
    then have "lv_level st1 (te_from (tg_edge g e')) = lv_level st (te_from (tg_edge g e'))" by (rule level(2))
    then show ?thesis
      using that(1) level(1) [of "te_to (tg_edge g e')"] same(2) by (auto simp: edge_ok_def searchable_def)
  qed
  have "lev_inv g sdc space {v. latch_source g v} st1"
    unfolding lev_inv_def same
  proof (intro conjI ballI impI)
    have inv: "lev_inv g sdc space {v. latch_source g v} st" using Cons.prems(1) by (simp add: search_ok_def)
    fix u assume u: "u \<in> set (tg_vertices g)"
    show "0 \<le> lv_level st1 u" using inv u level(1) [of u] by (auto simp: lev_inv_def intro: order_trans)
    assume "lv_color st u = LC_white"
    then have "u \<noteq> te_from (tg_edge g e)" "lv_level st u = 0" using Cons.prems(2) inv u by (auto simp: lev_inv_def)
    then show "lv_level st1 u = 0" using level(2) by simp
  next
    fix u e' assume u: "u \<in> set (tg_vertices g) - {v. latch_source g v}" "lv_color st u = LC_black" "e' \<in> set (tg_out_edges g u)"
    then have "te_from (tg_edge g e') = u" using wf(1) by (auto simp: graph_wf_def)
    then show "edge_ok g sdc space st1 e'"
      using ok [of e'] u Cons.prems(1) by (auto simp: search_ok_def lev_inv_def)
  next
    fix e' assume "e' \<in> set (lv_latch_edges st)"
    then show "lv_color st (te_from (tg_edge g e')) \<noteq> LC_white" "latch_source g (te_from (tg_edge g e'))"
      using Cons.prems(1) by (auto simp: search_ok_def lev_inv_def)
  qed
  then have "search_ok g sdc space {v. latch_source g v} st1"
    using Cons.prems(1) same by (simp add: search_ok_def no_gray_def)
  then show ?case using Cons.IH [of st1] Cons.prems(2) same by (simp add: st1_def)
qed simp

lemma ensureLatchLevels_ok:
  assumes "graph_wf g" "0 < space" "search_ok g sdc space {} st"
  shows "search_ok g sdc space {v. latch_source g v} (ensureLatchLevels g st)"
proof -
  have "search_ok g sdc space {v. latch_source g v} st" using assms(3) lev_inv_weaken [of g sdc space "{}"] by (simp add: search_ok_def)
  moreover have "\<forall>e \<in> set (lv_latch_edges st). lv_color st (te_from (tg_edge g e)) \<noteq> LC_white \<and> latch_source g (te_from (tg_edge g e))"
    using assms(3) by (simp add: search_ok_def lev_inv_def)
  ultimately have "search_ok g sdc space {v. latch_source g v} (fold (latch_level g) (lv_latch_edges st) st)"
    using latch_levels_loop [OF assms(1,2), of sdc st "lv_latch_edges st"] by blast
  then show ?thesis by (simp add: ensureLatchLevels_def search_ok_def lev_inv_def no_gray_def edge_ok_def searchable_def)
qed

definition cycle_step :: "TGraph \<Rightarrow> SdcFlags \<Rightarrow> VertexId \<Rightarrow> Levels \<Rightarrow> levelize_error + Levels" where
  "cycle_step g sdc v st =
     (if lv_color st v = LC_white
      then levelize_visit g sdc (lv_space st) (levelize_fuel g) v 0 [] (st\<lparr>lv_roots := set_add v (lv_roots st)\<rparr>)
      else Inr st)"

lemma cycles_loop:
  assumes wf: "graph_wf g" "no_bidirect g sdc" "0 < space"
  shows "search_ok g sdc space X st \<Longrightarrow> set vs \<subseteq> set (tg_vertices g) \<Longrightarrow>
    case res_fold (cycle_step g sdc) vs st of
      Inl err \<Rightarrow> err = LevelExceeded \<and> vertex_level_max \<le> level_bound g space
    | Inr st' \<Rightarrow> search_ok g sdc space X st' \<and> (\<forall>v. v \<in> set vs \<or> lv_color st v \<noteq> LC_white \<longrightarrow> lv_color st' v \<noteq> LC_white)"
proof (induction vs arbitrary: st)
  case (Cons v vs)
  show ?case
  proof (cases "lv_color st v = LC_white")
    case False
    then show ?thesis using Cons.IH [OF Cons.prems(1)] Cons.prems(2) by (simp add: cycle_step_def split: sum.splits)
  next
    case True
    define st0 where "st0 = st\<lparr>lv_roots := set_add v (lv_roots st)\<rparr>"
    have ok0: "search_ok g sdc space X st0" and v: "v \<in> set (tg_vertices g)" "lv_level st0 v = 0"
      using Cons.prems True by (auto simp: search_ok_def lev_inv_def no_gray_def st0_def edge_ok_def searchable_def)
    have step: "cycle_step g sdc v st = levelize_visit g sdc (lv_space st0) (levelize_fuel g) v 0 [] st0"
      using True by (simp add: cycle_step_def st0_def)
    note from_v = search_from [OF wf ok0 v, folded step]
    show ?thesis
    proof (cases "cycle_step g sdc v st")
      case (Inl err)
      then show ?thesis using from_v by simp
    next
      case (Inr st1)
      then have "search_ok g sdc space X st1" "lv_color st1 v = LC_black"
          "\<forall>u. lv_color st u \<noteq> LC_white \<longrightarrow> lv_color st1 u \<noteq> LC_white"
        using from_v lev_inv_weaken [of g sdc space "X - {v}" st1 X] by (auto simp: search_ok_def st0_def)
      then show ?thesis using Cons.IH [of st1] Cons.prems(2) Inr by (auto split: sum.splits)
    qed
  qed
qed simp

text \<open>The edges that are still searched lead upwards.\<close>

lemma levelize_up:
  assumes wf: "graph_wf g" "no_bidirect g sdc" and fresh: "levels_fresh g st"
  shows "case levelize g sdc st of
      Inl err \<Rightarrow> err = LevelExceeded \<and> vertex_level_max \<le> lv_space st * int (length (tg_vertices g))
    | Inr st' \<Rightarrow> lv_levels_valid st' \<and>
        (\<forall>u \<in> set (tg_vertices g). \<forall>e \<in> set (tg_out_edges g u). \<not> latch_source g u \<longrightarrow> searchable g sdc st' e \<longrightarrow>
           lv_level st' u + lv_space st \<le> lv_level st' (te_to (tg_edge g e)))"
proof -
  define st1 where "st1 = (deleteLoops (clearLoopEdges (st\<lparr>lv_max_level := 0\<rparr>)))\<lparr>lv_loops := Some []\<rparr>"
  define st2 where "st2 = findRoots g sdc st1"
  have st1: "no_gray g st1" "lv_roots st1 = []" "lv_latch_edges st1 = []" "lv_disabled st1 = (\<lambda>_. False)" "lv_space st1 = lv_space st"
    using fresh by (auto simp: st1_def levels_fresh_def no_gray_def deleteLoops_def clearLoopEdges_def split: option.splits)
  have space: "0 < lv_space st" using fresh by (simp add: levels_fresh_def)
  note ok2 = findRoots_ok [OF wf(1) st1(1-4), of sdc, folded st2_def, unfolded st1(5)]
  have sorted: "distinct (sortRoots g (lv_roots st2))" "set (sortRoots g (lv_roots st2)) = set (lv_roots st2)"
    using ok2(2) by (simp_all add: sortRoots_def)
  have ok2': "search_ok g sdc (lv_space st) (set (sortRoots g (lv_roots st2)) \<union> {}) st2" using ok2(1) sorted(2) by simp
  have roots2: "\<forall>r \<in> set (sortRoots g (lv_roots st2)). r \<in> set (tg_vertices g) \<and> never_entered g sdc r \<and> lv_level st2 r = 0"
    using ok2(3) sorted(2) by simp
  note from_roots = levelize_roots [OF wf space ok2' sorted(1) roots2]
  show ?thesis
  proof (cases "levelizeFrom g sdc (sortRoots g (lv_roots st2)) st2")
    case (Inl err)
    then show ?thesis using from_roots by (simp add: levelize_def st1_def [symmetric] st2_def [symmetric] level_bound_def Let_def)
  next
    case (Inr st3)
    define st4 where "st4 = ensureLatchLevels g st3"
    define vs where "vs = sortRoots g (filter (\<lambda>v. lv_color st4 v = LC_white \<and> searchFrom0 g v) (tg_vertices g))"
    have ok4: "search_ok g sdc (lv_space st) {v. latch_source g v} st4"
      using ensureLatchLevels_ok [OF wf(1) space] from_roots Inr by (simp add: st4_def)
    have vs: "set vs = {v \<in> set (tg_vertices g). lv_color st4 v = LC_white \<and> searchFrom0 g v}" by (auto simp: vs_def sortRoots_def)
    have cycles: "levelizeCycles g sdc st4 = res_fold (cycle_step g sdc) vs st4"
      by (simp add: levelizeCycles_def vs_def cycle_step_def [abs_def] levelize_pred_def pred_with_def)
    have all: "levelize g sdc st = res_bind (res_fold (cycle_step g sdc) vs st4) (\<lambda>st5. Inr (st5\<lparr>lv_levelized := True, lv_levels_valid := True\<rparr>))"
      unfolding levelize_def st1_def [symmetric] Let_def st2_def [symmetric] Inr res_bind_simps st4_def [symmetric] cycles ..
    have "set vs \<subseteq> set (tg_vertices g)" using vs by auto
    note loop = cycles_loop [OF wf space ok4 this]
    show ?thesis
    proof (cases "res_fold (cycle_step g sdc) vs st4")
      case (Inl err)
      then show ?thesis unfolding all using loop by (simp add: level_bound_def)
    next
      case (Inr st5)
      have "lv_level st5 u + lv_space st \<le> lv_level st5 (te_to (tg_edge g e))"
        if u: "u \<in> set (tg_vertices g)" "e \<in> set (tg_out_edges g u)" "\<not> latch_source g u" "searchable g sdc st5 e" for u e
      proof -
        have from_u: "te_from (tg_edge g e) = u" using u(1,2) wf(1) by (auto simp: graph_wf_def)
        then have "searchFrom0 g u" using u(4) by (simp add: searchable_def)
        then have "lv_color st5 u \<noteq> LC_white" using loop Inr u(1) vs by (cases "lv_color st4 u = LC_white") auto
        moreover have "lv_color st5 u \<noteq> LC_gray" using loop Inr u(1) by (auto simp: search_ok_def no_gray_def)
        ultimately have "lv_color st5 u = LC_black" by (cases "lv_color st5 u") auto
        then have "edge_ok g sdc (lv_space st) st5 e" using loop Inr u(1-3) by (auto simp: search_ok_def lev_inv_def)
        then show ?thesis using u(4) from_u by (simp add: edge_ok_def)
      qed
      then show ?thesis unfolding all Inr by (simp add: searchable_def)
    qed
  qed
qed

section \<open>Lemmas: the range of the levels\<close>

text \<open>
  The maximum level bounds the levels while no latch is seen. \<open>ensureLatchLevels\<close> raises the level of the data input
  of a latch without raising the maximum, see \<open>latch_level_above_max\<close>.
\<close>

definition level_range :: "TGraph \<Rightarrow> Levels \<Rightarrow> bool" where
  "level_range g st \<longleftrightarrow>
     (\<forall>u \<in> set (tg_vertices g). 0 \<le> lv_level st u \<and> lv_level st u \<le> lv_max_level st) \<and>
     0 \<le> lv_max_level st \<and> 0 \<le> lv_space st \<and> lv_latch_edges st = []"

lemma max_level_fields [simp]:
  "lv_max_level (enter v level st) = max level (lv_max_level st)" "lv_max_level (setColor v c st) = lv_max_level st"
  "lv_max_level (recordLoop g e path st) = lv_max_level st"
  by (simp_all add: enter_def setLevel_def setColor_def recordLoop_def Let_def split: option.split)

lemma level_range_enter: "level_range g st \<Longrightarrow> 0 \<le> level \<Longrightarrow> level_range g (enter v level st)"
  by (auto simp: level_range_def max_def)

lemma level_range_keep [simp]:
  "level_range g (setColor v c st) = level_range g st" "level_range g (recordLoop g' e path st) = level_range g st"
  by (simp_all add: level_range_def)

definition visit_keeps_range :: "TGraph \<Rightarrow> SdcFlags \<Rightarrow> int \<Rightarrow> nat \<Rightarrow> bool" where
  "visit_keeps_range g sdc space fuel \<longleftrightarrow>
     (\<forall>v level path st st'. level_range g st \<longrightarrow> 0 \<le> level \<longrightarrow>
        levelize_visit g sdc space fuel v level path st = Inr st' \<longrightarrow> level_range g st')"

lemma edges_level_range:
  assumes visit: "visit_keeps_range g sdc space fuel"
  shows "level_range g st \<Longrightarrow> 0 \<le> level \<Longrightarrow> \<forall>e \<in> set es. te_role (tg_edge g e) \<noteq> TR_latchDtoQ \<Longrightarrow>
    levelize_edges g sdc space fuel es level path st = Inr st' \<Longrightarrow> level_range g st'"
proof (induction es arbitrary: st)
  case (Cons e es)
  obtain st1 where st1: "levelize_edges g sdc space fuel es level path (add_latch_edge g e st1) = Inr st'" "level_range g st1"
    using Cons.prems(1,2,4) visit unfolding visit_keeps_range_def by (auto simp: Let_def res_bind_Inr split: if_splits)
  then show ?case using Cons.IH Cons.prems by (simp add: add_latch_edge_def)
qed simp

lemma visit_level_range:
  assumes latch: "\<forall>u. \<not> latch_source g u" and space: "0 \<le> space"
  shows "visit_keeps_range g sdc space fuel"
proof (induction fuel)
  case (Suc fuel)
  show ?case
    unfolding visit_keeps_range_def
  proof (intro allI impI)
    fix v level path st st'
    assume st: "level_range g st" "0 \<le> level" and run: "levelize_visit g sdc space (Suc fuel) v level path st = Inr st'"
    define st2 where "st2 = enter v level st"
    have range: "level_range g st2" using level_range_enter [OF st] by (simp add: st2_def)
    have level: "0 \<le> level + space" using st(2) space by simp
    have "\<forall>e \<in> set (tg_out_edges g v). te_role (tg_edge g e) \<noteq> TR_latchDtoQ" using latch by (auto simp: latch_source_def)
    note edges = edges_level_range [OF Suc.IH range level this, where path = path]
    show "level_range g st'"
      using run edges range level Suc.IH
      unfolding levelize_visit.simps Let_def enter_def [symmetric] st2_def [symmetric] visit_keeps_range_def
      by (auto simp: res_bind_Inr split: if_splits)
  qed
qed (simp add: visit_keeps_range_def)

lemma find_root_range:
  "lv_max_level (find_root g sdc v st) = lv_max_level st" "lv_level (find_root g sdc v st) = (lv_level st)(v := 0)"
  "lv_latch_edges (find_root g sdc v st) = lv_latch_edges st" "lv_space (find_root g sdc v st) = lv_space st"
  by (simp_all add: find_root_def Let_def setLevel_def setColor_def)

lemma find_roots_range:
  "lv_max_level (fold (find_root g sdc) vs st) = lv_max_level st \<and> lv_latch_edges (fold (find_root g sdc) vs st) = lv_latch_edges st \<and>
   lv_space (fold (find_root g sdc) vs st) = lv_space st \<and>
   (\<forall>u. lv_level (fold (find_root g sdc) vs st) u = (if u \<in> set vs then 0 else lv_level st u))"
  by (induction vs arbitrary: st) (auto simp: find_root_range)

text \<open>The levels of a graph without latches lie between zero and the maximum level.\<close>

lemma levelize_level_range:
  assumes latch: "\<forall>u. \<not> latch_source g u" and fresh: "levels_fresh g st" and run: "levelize g sdc st = Inr st'"
  shows "level_range g st'"
proof -
  define st1 where "st1 = (deleteLoops (clearLoopEdges (st\<lparr>lv_max_level := 0\<rparr>)))\<lparr>lv_loops := Some []\<rparr>"
  define st2 where "st2 = findRoots g sdc st1"
  have visit: "level_range g s'" if "levelize_visit g sdc (lv_space s) n v 0 [] s = Inr s'" "level_range g s" for n v s s'
    using visit_level_range [OF latch] that unfolding visit_keeps_range_def level_range_def by (metis order_refl)
  have new_root: "level_range g (s\<lparr>lv_roots := rs\<rparr>) = level_range g s" for rs s by (simp add: level_range_def)
  have visit_root: "level_range g s'"
    if "levelize_visit g sdc (lv_space s) n v 0 [] (s\<lparr>lv_roots := rs\<rparr>) = Inr s'" "level_range g s" for n v rs s s'
    using visit [of "s\<lparr>lv_roots := rs\<rparr>" n v s'] that by (simp add: new_root)
  have st1: "lv_max_level st1 = 0" "lv_latch_edges st1 = []" "lv_space st1 = lv_space st" "0 < lv_space st"
    using fresh by (auto simp: st1_def levels_fresh_def deleteLoops_def clearLoopEdges_def split: option.splits)
  have range2: "level_range g st2"
    using find_roots_range [of g sdc "tg_vertices g" st1] st1 by (simp add: st2_def findRoots_def level_range_def)
  obtain st3 st4 where st3: "levelizeFrom g sdc (sortRoots g (lv_roots st2)) st2 = Inr st3"
    and st4: "levelizeCycles g sdc (ensureLatchLevels g st3) = Inr st4"
    and st': "st' = st4\<lparr>lv_levelized := True, lv_levels_valid := True\<rparr>"
    using run unfolding levelize_def st1_def [symmetric] Let_def st2_def [symmetric] by (auto simp: res_bind_Inr)
  have range3: "level_range g st3"
    by (rule res_fold_invariant [where I = "level_range g", OF _ range2 st3 [unfolded levelizeFrom_def]]) (rule visit)
  then have range3': "level_range g (ensureLatchLevels g st3)" by (simp add: level_range_def ensureLatchLevels_def)
  have "level_range g st4"
    by (rule res_fold_invariant [where I = "level_range g", OF _ range3' st4 [unfolded levelizeCycles_def Let_def]])
       (auto split: if_splits dest: visit_root)
  then show ?thesis by (simp add: st' level_range_def)
qed

text \<open>A latch whose data and output have the same level: its data is raised above the maximum level.\<close>

definition latch_graph :: TGraph where
  "latch_graph =
     \<lparr>tg_vertices = [0, 1, 2, 3],
      tg_vertex = (\<lambda>v. \<lparr>tv_pin = v, tv_name_rank = v, tv_is_disabled_constraint = False, tv_is_constant = False,
        tv_is_bidirect_driver = False, tv_is_bidirect = False, tv_is_top_level_port = False\<rparr>),
      tg_edge = (\<lambda>e. \<lparr>te_from = (if e = 0 then 0 else if e = 1 then 1 else 2), te_to = (if e = 0 then 1 else 3),
        te_role = (if e = 0 then TR_wire else if e = 1 then TR_latchDtoQ else TR_latchEnToQ), te_is_disabled_constraint = False,
        te_is_disabled_cond = False, te_is_cond_default = False, te_sim_timing_sense = TS_unknown,
        te_is_bidirect_inst_path = False, te_is_bidirect_net_path = False, te_latch_state = LES_enabled\<rparr>),
      tg_out_edges = (\<lambda>v. if v < 3 then [v] else []),
      tg_in_edges = (\<lambda>v. if v = 1 then [0] else if v = 3 then [1, 2] else []), tg_drvr_vertex = (\<lambda>pin. pin)\<rparr>"

lemma latch_level_above_max:
  "case levelize latch_graph \<lparr>sdc_preset_clr_arcs_enabled = False, sdc_cond_default_arcs_enabled = False,
       sdc_bidirect_net_paths_enabled = False, sdc_bidirect_inst_paths_enabled = False, sdc_clk_thru_tristate_enabled = False\<rparr> lv_new of
     Inl _ \<Rightarrow> False
   | Inr st \<Rightarrow> map (lv_level st) [0, 1, 2, 3] = [0, 20, 0, 10] \<and> lv_max_level st = 10"
  by code_simp

section \<open>Properties\<close>


text \<open>A loop of two vertices after a root: the edge that closes it is disabled.\<close>

definition loop_edge :: "VertexId \<Rightarrow> VertexId \<Rightarrow> TEdge" where
  "loop_edge u v = \<lparr>te_from = u, te_to = v, te_role = TR_combinational, te_is_disabled_constraint = False,
     te_is_disabled_cond = False, te_is_cond_default = False, te_sim_timing_sense = TS_unknown,
     te_is_bidirect_inst_path = False, te_is_bidirect_net_path = False, te_latch_state = LES_enabled\<rparr>"

definition loop_graph :: TGraph where
  "loop_graph = \<lparr>tg_vertices = [0, 1, 2],
     tg_vertex = (\<lambda>v. \<lparr>tv_pin = v, tv_name_rank = v, tv_is_disabled_constraint = False, tv_is_constant = False,
        tv_is_bidirect_driver = False, tv_is_bidirect = False, tv_is_top_level_port = False\<rparr>),
     tg_edge = (\<lambda>e. if e = 0 then loop_edge 0 1 else if e = 1 then loop_edge 1 2 else loop_edge 2 1),
     tg_out_edges = (\<lambda>v. if v < 3 then [v] else []),
     tg_in_edges = (\<lambda>v. if v = 1 then [0, 2] else if v = 2 then [1] else []), tg_drvr_vertex = (\<lambda>pin. pin)\<rparr>"

definition loop_sdc :: SdcFlags where
  "loop_sdc = \<lparr>sdc_preset_clr_arcs_enabled = False, sdc_cond_default_arcs_enabled = False,
     sdc_bidirect_net_paths_enabled = False, sdc_bidirect_inst_paths_enabled = False, sdc_clk_thru_tristate_enabled = False\<rparr>"

lemma loop_levels:
  "case levelize loop_graph loop_sdc lv_new of
     Inl _ \<Rightarrow> False
   | Inr st \<Rightarrow> map (lv_disabled st) [0, 1, 2] = [False, False, True] \<and> lv_loops st = Some [[1, 2]]"
  by code_simp

lemma loop_graph_ok: "graph_wf loop_graph" "no_bidirect loop_graph loop_sdc"
  by (auto simp: graph_wf_def no_bidirect_def bidirectDrvrSlewFromLoad_def loop_graph_def loop_edge_def loop_sdc_def)


end
