(* ===== verification/GTP_Bfs.thy ===== *)
theory GTP_Bfs
  imports GTP_Levelize GTP_PowerState "HOL-Library.Multiset"
begin

text \<open>
  The search by levels over the timing graph (\<open>search/Bfs.cc\<close>): a queue of vertices for every level, a forward and a
  backward iterator and the visit of all queued vertices by a visitor, which may queue more. The flag of a vertex that
  says that it is in the queue belongs to the iterator here. A vertex removed from the queue leaves a null entry. The
  visit by several threads is not modelled.
\<close>

section \<open>State\<close>

datatype BfsDirection = BFS_fwd | BFS_bkwd

record BfsIterator =
  bf_direction :: BfsDirection
  bf_level_min :: int
  bf_level_max :: int
  bf_queue :: "VertexId option list list"
  bf_in_queue :: "VertexId \<Rightarrow> bool"
  bf_first_level :: int
  bf_last_level :: int

definition level_max :: int where
  "level_max = 2 ^ 31 - 1"

fun incrLevel :: "BfsDirection \<Rightarrow> int \<Rightarrow> int" where
  "incrLevel BFS_fwd lev = lev + 1"
| "incrLevel BFS_bkwd lev = lev - 1"

fun levelLessOrEqual :: "BfsDirection \<Rightarrow> int \<Rightarrow> int \<Rightarrow> bool" where
  "levelLessOrEqual BFS_fwd lev1 lev2 \<longleftrightarrow> lev1 \<le> lev2"
| "levelLessOrEqual BFS_bkwd lev1 lev2 \<longleftrightarrow> lev1 \<ge> lev2"

fun levelLess :: "BfsDirection \<Rightarrow> int \<Rightarrow> int \<Rightarrow> bool" where
  "levelLess BFS_fwd lev1 lev2 \<longleftrightarrow> lev1 < lev2"
| "levelLess BFS_bkwd lev1 lev2 \<longleftrightarrow> lev1 > lev2"

definition bfs_ensureSize :: "Levels \<Rightarrow> BfsIterator \<Rightarrow> BfsIterator" where
  "bfs_ensureSize lv b =
     (if lv_levels_valid lv then
        let max_level_1 = nat (lv_max_level lv + 1)
        in if length (bf_queue b) < max_level_1
           then b\<lparr>bf_queue := bf_queue b @ replicate (max_level_1 - length (bf_queue b)) []\<rparr> else b
      else b)"

definition bfs_init :: "Levels \<Rightarrow> BfsIterator \<Rightarrow> BfsIterator" where
  "bfs_init lv b = bfs_ensureSize lv (b\<lparr>bf_first_level := bf_level_max b, bf_last_level := bf_level_min b\<rparr>)"

text \<open>The backward iterator exchanges the least and the greatest level.\<close>

definition bfs_new :: "BfsDirection \<Rightarrow> Levels \<Rightarrow> BfsIterator" where
  "bfs_new dir lv =
     bfs_init lv
       \<lparr>bf_direction = dir, bf_level_min = (case dir of BFS_fwd \<Rightarrow> 0 | BFS_bkwd \<Rightarrow> level_max),
        bf_level_max = (case dir of BFS_fwd \<Rightarrow> level_max | BFS_bkwd \<Rightarrow> 0),
        bf_queue = [], bf_in_queue = (\<lambda>_. False), bf_first_level = 0, bf_last_level = 0\<rparr>"

definition bfs_empty :: "BfsIterator \<Rightarrow> bool" where
  "bfs_empty b = levelLess (bf_direction b) (bf_last_level b) (bf_first_level b)"

text \<open>A level outside the queue is an error: the code would index a vector out of its range.\<close>

definition bfs_level_ok :: "int \<Rightarrow> BfsIterator \<Rightarrow> bool" where
  "bfs_level_ok lev b \<longleftrightarrow> 0 \<le> lev \<and> lev < int (length (bf_queue b))"

definition bfs_unqueue :: "VertexId option list \<Rightarrow> BfsIterator \<Rightarrow> BfsIterator" where
  "bfs_unqueue vs b = b\<lparr>bf_in_queue := (\<lambda>v. bf_in_queue b v \<and> Some v \<notin> set vs)\<rparr>"

definition bfs_deleteEntries :: "int \<Rightarrow> BfsIterator \<Rightarrow> power_error + BfsIterator" where
  "bfs_deleteEntries lev b =
     (if bfs_level_ok lev b then
        let b1 = bfs_unqueue (bf_queue b ! nat lev) b in Inr (b1\<lparr>bf_queue := (bf_queue b1)[nat lev := []]\<rparr>)
      else Inl StateOutOfRange)"

function bfs_clear_levels :: "int \<Rightarrow> BfsIterator \<Rightarrow> power_error + BfsIterator" where
  "bfs_clear_levels lev b =
     (if levelLessOrEqual (bf_direction b) lev (bf_last_level b) then
        (case bfs_deleteEntries lev b of
           Inl e \<Rightarrow> Inl e
         | Inr b1 \<Rightarrow> bfs_clear_levels (incrLevel (bf_direction b) lev) b1)
      else Inr b)"
  by pat_completeness auto
termination
proof (relation "measure (\<lambda>(lev, b). case bf_direction b of
    BFS_fwd \<Rightarrow> nat (bf_last_level b + 1 - lev) | BFS_bkwd \<Rightarrow> nat (lev + 1 - bf_last_level b))")
  fix lev b b1
  assume "levelLessOrEqual (bf_direction b) lev (bf_last_level b)" "bfs_deleteEntries lev b = Inr b1"
  then show "((incrLevel (bf_direction b) lev, b1), lev, b) \<in> measure (\<lambda>(lev, b). case bf_direction b of
    BFS_fwd \<Rightarrow> nat (bf_last_level b + 1 - lev) | BFS_bkwd \<Rightarrow> nat (lev + 1 - bf_last_level b))"
    by (cases "bf_direction b") (auto simp: bfs_deleteEntries_def bfs_unqueue_def Let_def split: if_splits)
qed simp

declare bfs_clear_levels.simps [simp del]

definition bfs_clear :: "Levels \<Rightarrow> BfsIterator \<Rightarrow> power_error + BfsIterator" where
  "bfs_clear lv b = res_bind (bfs_clear_levels (bf_first_level b) b) (\<lambda>b1. Inr (bfs_init lv b1))"

section \<open>Queueing\<close>

definition bfs_push :: "int \<Rightarrow> VertexId \<Rightarrow> BfsIterator \<Rightarrow> BfsIterator" where
  "bfs_push lev v b =
     b\<lparr>bf_queue := (bf_queue b)[nat lev := bf_queue b ! nat lev @ [Some v]],
       bf_in_queue := (bf_in_queue b)(v := True),
       bf_first_level := (if levelLess (bf_direction b) lev (bf_first_level b) then lev else bf_first_level b),
       bf_last_level := (if levelLess (bf_direction b) (bf_last_level b) lev then lev else bf_last_level b)\<rparr>"

definition bfs_enqueue :: "Levels \<Rightarrow> VertexId \<Rightarrow> BfsIterator \<Rightarrow> power_error + BfsIterator" where
  "bfs_enqueue lv v b =
     (if bf_in_queue b v then Inr b
      else if bfs_level_ok (lv_level lv v) b then Inr (bfs_push (lv_level lv v) v b)
      else Inl StateOutOfRange)"

definition bfs_adjacent :: "TGraph \<Rightarrow> Levels \<Rightarrow> SearchPred \<Rightarrow> BfsDirection \<Rightarrow> int \<Rightarrow> VertexId \<Rightarrow> VertexId list" where
  "bfs_adjacent g lv pred dir to_level v =
     (case dir of
        BFS_fwd \<Rightarrow>
          if sr_from pred v then
            map (\<lambda>e. te_to (tg_edge g e))
              (filter (\<lambda>e. lv_level lv (te_to (tg_edge g e)) \<le> to_level \<and> sr_thru pred e \<and> sr_to pred (te_to (tg_edge g e)))
                (tg_out_edges g v))
          else []
      | BFS_bkwd \<Rightarrow>
          if sr_to pred v then
            map (\<lambda>e. te_from (tg_edge g e))
              (filter (\<lambda>e. lv_level lv (te_from (tg_edge g e)) \<ge> to_level \<and> sr_from pred (te_from (tg_edge g e)) \<and> sr_thru pred e)
                (tg_in_edges g v))
          else [])"

definition bfs_enqueueAll :: "Levels \<Rightarrow> VertexId list \<Rightarrow> BfsIterator \<Rightarrow> power_error + BfsIterator" where
  "bfs_enqueueAll lv vs b = res_fold (bfs_enqueue lv) vs b"

definition bfs_enqueueAdjacentTo ::
    "TGraph \<Rightarrow> Levels \<Rightarrow> SearchPred \<Rightarrow> int \<Rightarrow> VertexId \<Rightarrow> BfsIterator \<Rightarrow> power_error + BfsIterator" where
  "bfs_enqueueAdjacentTo g lv pred to_level v b =
     bfs_enqueueAll lv (bfs_adjacent g lv pred (bf_direction b) to_level v) b"

definition bfs_enqueueAdjacent :: "TGraph \<Rightarrow> Levels \<Rightarrow> SearchPred \<Rightarrow> VertexId \<Rightarrow> BfsIterator \<Rightarrow> power_error + BfsIterator" where
  "bfs_enqueueAdjacent g lv pred v b = bfs_enqueueAdjacentTo g lv pred (bf_level_max b) v b"

definition bfs_remove :: "Levels \<Rightarrow> VertexId \<Rightarrow> BfsIterator \<Rightarrow> BfsIterator" where
  "bfs_remove lv v b =
     (let lev = nat (lv_level lv v) in
      if bf_in_queue b v \<and> lev < length (bf_queue b) then
        (case find (\<lambda>i. bf_queue b ! lev ! i = Some v) [0..<length (bf_queue b ! lev)] of
           None \<Rightarrow> b
         | Some i \<Rightarrow> b\<lparr>bf_queue := (bf_queue b)[lev := (bf_queue b ! lev)[i := None]],
                       bf_in_queue := (bf_in_queue b)(v := False)\<rparr>)
      else b)"

section \<open>Taking vertices one by one\<close>

function bfs_findNext :: "int \<Rightarrow> BfsIterator \<Rightarrow> power_error + BfsIterator" where
  "bfs_findNext to_level b =
     (if levelLessOrEqual (bf_direction b) (bf_first_level b) (bf_last_level b)
         \<and> levelLessOrEqual (bf_direction b) (bf_first_level b) to_level then
        if \<not> bfs_level_ok (bf_first_level b) b then Inl StateOutOfRange
        else if bf_queue b ! nat (bf_first_level b) = []
        then bfs_findNext to_level (b\<lparr>bf_first_level := incrLevel (bf_direction b) (bf_first_level b)\<rparr>)
        else Inr b
      else Inr b)"
  by pat_completeness auto
termination
proof (relation "measure (\<lambda>(to_level, b). case bf_direction b of
    BFS_fwd \<Rightarrow> nat (bf_last_level b + 1 - bf_first_level b) | BFS_bkwd \<Rightarrow> nat (bf_first_level b + 1 - bf_last_level b))")
  fix to_level b
  assume "levelLessOrEqual (bf_direction b) (bf_first_level b) (bf_last_level b)
         \<and> levelLessOrEqual (bf_direction b) (bf_first_level b) to_level"
  then show "((to_level, b\<lparr>bf_first_level := incrLevel (bf_direction b) (bf_first_level b)\<rparr>), to_level, b)
      \<in> measure (\<lambda>(to_level, b). case bf_direction b of
    BFS_fwd \<Rightarrow> nat (bf_last_level b + 1 - bf_first_level b) | BFS_bkwd \<Rightarrow> nat (bf_first_level b + 1 - bf_last_level b))"
    by (cases "bf_direction b") auto
qed simp

declare bfs_findNext.simps [simp del]

definition bfs_hasNext :: "int \<Rightarrow> BfsIterator \<Rightarrow> power_error + bool \<times> BfsIterator" where
  "bfs_hasNext to_level b =
     res_bind (bfs_findNext to_level b) (\<lambda>b1.
       if levelLessOrEqual (bf_direction b1) (bf_first_level b1) (bf_last_level b1) then
         if bfs_level_ok (bf_first_level b1) b1 then Inr (bf_queue b1 ! nat (bf_first_level b1) \<noteq> [], b1) else Inl StateOutOfRange
       else Inr (False, b1))"

definition bfs_next :: "BfsIterator \<Rightarrow> power_error + VertexId \<times> BfsIterator" where
  "bfs_next b =
     (let lev = nat (bf_first_level b) in
      if \<not> bfs_level_ok (bf_first_level b) b \<or> bf_queue b ! lev = [] then Inl StateOutOfRange
      else case last (bf_queue b ! lev) of
          None \<Rightarrow> Inl NullDeref
        | Some v \<Rightarrow> Inr (v, b\<lparr>bf_queue := (bf_queue b)[lev := butlast (bf_queue b ! lev)],
                              bf_in_queue := (bf_in_queue b)(v := False)\<rparr>))"

section \<open>Visiting\<close>

text \<open>A visitor with a state of its own; it may queue vertices in the iterator that calls it.\<close>

record 's VertexVisitor =
  vv_visit :: "VertexId \<Rightarrow> 's \<Rightarrow> BfsIterator \<Rightarrow> power_error + 's \<times> BfsIterator"
  vv_levelFinished :: "'s \<Rightarrow> 's"

definition bfs_pop :: "nat \<Rightarrow> BfsIterator \<Rightarrow> BfsIterator" where
  "bfs_pop lev b =
     (let b1 = b\<lparr>bf_queue := (bf_queue b)[lev := butlast (bf_queue b ! lev)]\<rparr>
      in case last (bf_queue b ! lev) of None \<Rightarrow> b1 | Some v \<Rightarrow> b1\<lparr>bf_in_queue := (bf_in_queue b1)(v := False)\<rparr>)"

text \<open>The vertices of a level are taken from the end of its vector until it is empty.\<close>

partial_function (option) bfs_visit_level ::
    "'s VertexVisitor \<Rightarrow> nat \<Rightarrow> int \<Rightarrow> 's \<Rightarrow> BfsIterator \<Rightarrow> (power_error + int \<times> 's \<times> BfsIterator) option" where
  "bfs_visit_level visitor lev n s b =
     (if bf_queue b ! lev = [] then Some (Inr (n, s, b))
      else case last (bf_queue b ! lev) of
          None \<Rightarrow> bfs_visit_level visitor lev n s (bfs_pop lev b)
        | Some v \<Rightarrow> (case vv_visit visitor v s (bfs_pop lev b) of
            Inl e \<Rightarrow> Some (Inl e)
          | Inr sb \<Rightarrow> bfs_visit_level visitor lev (n + 1) (fst sb) (snd sb)))"

partial_function (option) bfs_visit_loop ::
    "int \<Rightarrow> 's VertexVisitor \<Rightarrow> int \<Rightarrow> 's \<Rightarrow> BfsIterator \<Rightarrow> (power_error + int \<times> 's \<times> BfsIterator) option" where
  "bfs_visit_loop to_level visitor n s b =
     (if levelLessOrEqual (bf_direction b) (bf_first_level b) (bf_last_level b)
         \<and> levelLessOrEqual (bf_direction b) (bf_first_level b) to_level then
        if \<not> bfs_level_ok (bf_first_level b) b then Some (Inl StateOutOfRange)
        else Option.bind
          (bfs_visit_level visitor (nat (bf_first_level b)) n s
             (b\<lparr>bf_first_level := incrLevel (bf_direction b) (bf_first_level b)\<rparr>))
          (\<lambda>r. case r of
             Inl e \<Rightarrow> Some (Inl e)
           | Inr nsb \<Rightarrow> bfs_visit_loop to_level visitor (fst nsb) (vv_levelFinished visitor (fst (snd nsb))) (snd (snd nsb)))
      else Some (Inr (n, s, b)))"

definition bfs_visit :: "int \<Rightarrow> 's VertexVisitor \<Rightarrow> 's \<Rightarrow> BfsIterator \<Rightarrow> (power_error + int \<times> 's \<times> BfsIterator) option" where
  "bfs_visit to_level visitor s b = bfs_visit_loop to_level visitor 0 s b"

section \<open>Lemmas: the queue\<close>

text \<open>Both directions at once: a key that grows in the direction of the search.\<close>

definition level_key :: "BfsDirection \<Rightarrow> int \<Rightarrow> int" where
  "level_key dir lev = (case dir of BFS_fwd \<Rightarrow> lev | BFS_bkwd \<Rightarrow> - lev)"

lemma level_keys [simp]:
  "levelLess dir a b \<longleftrightarrow> level_key dir a < level_key dir b"
  "levelLessOrEqual dir a b \<longleftrightarrow> level_key dir a \<le> level_key dir b"
  "level_key dir (incrLevel dir a) = level_key dir a + 1"
  by (cases dir; simp add: level_key_def)+

lemma level_key_inj: "level_key dir a = level_key dir b \<longleftrightarrow> a = b"
  by (cases dir) (simp_all add: level_key_def)

definition queued :: "BfsIterator \<Rightarrow> VertexId set" where
  "queued b = {v. bf_in_queue b v}"

definition entries :: "VertexId option list \<Rightarrow> VertexId list" where
  "entries q = List.map_filter id q"

lemma entries_simps [simp]:
  "entries [] = []" "entries (None # q) = entries q" "entries (Some v # q) = v # entries q"
  "entries (q @ q') = entries q @ entries q'"
  by (simp_all add: entries_def List.map_filter_def)

lemma set_entries [simp]: "v \<in> set (entries q) \<longleftrightarrow> Some v \<in> set q"
  by (induction q rule: list.induct) (auto simp: entries_def List.map_filter_def)

text \<open>
  The queue and the flags agree, every vertex is in the list of its level, once, and the lists outside the range from
  the first to the last level are empty; the levels of \<open>X\<close> are exempt from the last. The first and the last level do not
  leave the queue at the side at which an enqueued vertex does not move them.
\<close>

definition span_ok :: "BfsIterator \<Rightarrow> bool" where
  "span_ok b \<longleftrightarrow>
     (case bf_direction b of
        BFS_fwd \<Rightarrow> 0 \<le> bf_first_level b \<and> bf_last_level b < int (length (bf_queue b))
      | BFS_bkwd \<Rightarrow> bf_first_level b < int (length (bf_queue b)) \<and> 0 \<le> bf_last_level b)"

definition bfs_wf :: "Levels \<Rightarrow> nat set \<Rightarrow> BfsIterator \<Rightarrow> bool" where
  "bfs_wf lv X b \<longleftrightarrow>
     span_ok b \<and>
     (\<forall>v \<in> queued b. bfs_level_ok (lv_level lv v) b \<and> Some v \<in> set (bf_queue b ! nat (lv_level lv v))) \<and>
     (\<forall>l < length (bf_queue b). distinct (entries (bf_queue b ! l)) \<and>
        (\<forall>v. Some v \<in> set (bf_queue b ! l) \<longrightarrow> v \<in> queued b \<and> lv_level lv v = int l)) \<and>
     (\<forall>l < length (bf_queue b). l \<notin> X \<longrightarrow> bf_queue b ! l \<noteq> [] \<longrightarrow>
        level_key (bf_direction b) (bf_first_level b) \<le> level_key (bf_direction b) (int l) \<and>
        level_key (bf_direction b) (int l) \<le> level_key (bf_direction b) (bf_last_level b))"

definition same_shape :: "BfsIterator \<Rightarrow> BfsIterator \<Rightarrow> bool" where
  "same_shape b b' \<longleftrightarrow> bf_direction b' = bf_direction b \<and> bf_level_max b' = bf_level_max b \<and> length (bf_queue b') = length (bf_queue b)"

lemma same_shape_trans: "same_shape a b \<Longrightarrow> same_shape b c \<Longrightarrow> same_shape a c"
  by (simp add: same_shape_def)

lemma same_shape_refl [simp]: "same_shape b b"
  by (simp add: same_shape_def)

lemma bfs_push_wf:
  assumes wf: "bfs_wf lv X b" and v: "v \<notin> queued b" "bfs_level_ok (lv_level lv v) b"
  shows "bfs_wf lv X (bfs_push (lv_level lv v) v b)" "queued (bfs_push (lv_level lv v) v b) = insert v (queued b)"
    "same_shape b (bfs_push (lv_level lv v) v b)"
proof -
  define b' where "b' = bfs_push (lv_level lv v) v b"
  obtain n where n: "lv_level lv v = int n" "n < length (bf_queue b)"
    using v(2) by (auto simp: bfs_level_ok_def dest: zero_le_imp_eq_int)
  have q: "queued b' = insert v (queued b)" by (auto simp: b'_def bfs_push_def queued_def)
  have len: "length (bf_queue b') = length (bf_queue b)" by (simp add: b'_def bfs_push_def)
  have nth: "bf_queue b' ! l = (if l = n then bf_queue b ! n @ [Some v] else bf_queue b ! l)" if "l < length (bf_queue b)" for l
    using that n by (simp add: b'_def bfs_push_def)
  have dir: "bf_direction b' = bf_direction b" "bf_level_max b' = bf_level_max b" by (simp_all add: b'_def bfs_push_def)
  have range: "level_key (bf_direction b) (bf_first_level b') \<le> level_key (bf_direction b) (bf_first_level b)"
    "level_key (bf_direction b) (bf_first_level b') \<le> level_key (bf_direction b) (int n)"
    "level_key (bf_direction b) (int n) \<le> level_key (bf_direction b) (bf_last_level b')"
    "level_key (bf_direction b) (bf_last_level b) \<le> level_key (bf_direction b) (bf_last_level b')"
    by (simp_all add: b'_def bfs_push_def n(1))
  have "bfs_wf lv X b'"
    unfolding bfs_wf_def
  proof (intro conjI ballI allI impI)
    show "span_ok b'"
      using wf v(2) by (auto simp: bfs_wf_def span_ok_def bfs_level_ok_def b'_def bfs_push_def split: BfsDirection.splits)
  next
    fix u assume u: "u \<in> queued b'"
    have ok: "bfs_level_ok (lv_level lv u) b \<and> (u \<noteq> v \<longrightarrow> Some u \<in> set (bf_queue b ! nat (lv_level lv u)))"
      using u q wf v(2) by (auto simp: bfs_wf_def)
    then show "bfs_level_ok (lv_level lv u) b'" by (simp add: bfs_level_ok_def len)
    have "nat (lv_level lv u) < length (bf_queue b)" using ok by (auto simp: bfs_level_ok_def)
    then show "Some u \<in> set (bf_queue b' ! nat (lv_level lv u))" using ok n(1) by (auto simp: nth)
  next
    fix l assume l: "l < length (bf_queue b')"
    then have l': "l < length (bf_queue b)" by (simp add: len)
    then have old: "distinct (entries (bf_queue b ! l))" "\<And>u. Some u \<in> set (bf_queue b ! l) \<Longrightarrow> u \<in> queued b \<and> lv_level lv u = int l"
      using wf by (auto simp: bfs_wf_def)
    show "distinct (entries (bf_queue b' ! l))" using old v(1) by (auto simp: nth [OF l'])
    fix u assume "Some u \<in> set (bf_queue b' ! l)"
    then have "Some u \<in> set (bf_queue b ! l) \<or> (u = v \<and> l = n)" by (auto simp: nth [OF l'] split: if_splits)
    then show "u \<in> queued b'" "lv_level lv u = int l" using old(2) q n(1) by auto
  next
    fix l assume l: "l < length (bf_queue b')" "l \<notin> X" "bf_queue b' ! l \<noteq> []"
    then have "l = n \<or> bf_queue b ! l \<noteq> []" using nth [of l] len by (auto split: if_splits)
    then have "l = n \<or> (level_key (bf_direction b) (bf_first_level b) \<le> level_key (bf_direction b) (int l) \<and>
        level_key (bf_direction b) (int l) \<le> level_key (bf_direction b) (bf_last_level b))"
      using wf l len by (auto simp: bfs_wf_def)
    then show "level_key (bf_direction b') (bf_first_level b') \<le> level_key (bf_direction b') (int l)"
      "level_key (bf_direction b') (int l) \<le> level_key (bf_direction b') (bf_last_level b')"
      using range by (auto simp: dir)
  qed
  then show "bfs_wf lv X (bfs_push (lv_level lv v) v b)" "queued (bfs_push (lv_level lv v) v b) = insert v (queued b)"
    "same_shape b (bfs_push (lv_level lv v) v b)"
    using q len dir by (simp_all add: b'_def same_shape_def)
qed

lemma bfs_enqueueAll_ok:
  assumes "bfs_wf lv X b" "\<forall>v \<in> set vs. bfs_level_ok (lv_level lv v) b"
  shows "\<exists>b'. bfs_enqueueAll lv vs b = Inr b' \<and> bfs_wf lv X b' \<and> queued b' = queued b \<union> set vs \<and> same_shape b b'"
  using assms
proof (induction vs arbitrary: b)
  case (Cons v vs)
  obtain b1 where b1: "bfs_enqueue lv v b = Inr b1" "bfs_wf lv X b1" "queued b1 = insert v (queued b)" "same_shape b b1"
  proof (cases "v \<in> queued b")
    case True
    then show ?thesis using that [of b] Cons.prems by (auto simp: bfs_enqueue_def queued_def)
  next
    case False
    then show ?thesis using that bfs_push_wf [OF Cons.prems(1) False] Cons.prems(2) by (simp add: bfs_enqueue_def queued_def)
  qed
  moreover have "\<forall>v \<in> set vs. bfs_level_ok (lv_level lv v) b1"
    using Cons.prems(2) b1(4) by (simp add: bfs_level_ok_def same_shape_def)
  ultimately obtain b' where b': "bfs_enqueueAll lv vs b1 = Inr b'" "bfs_wf lv X b'" "queued b' = queued b1 \<union> set vs" "same_shape b1 b'"
    using Cons.IH by blast
  then have "bfs_enqueueAll lv (v # vs) b = Inr b'" using b1(1) by (simp add: bfs_enqueueAll_def)
  then show ?case using b'(2,3) b1(3) same_shape_trans [OF b1(4) b'(4)] by auto
qed (simp add: bfs_enqueueAll_def)

lemma bfs_enqueueAll_append:
  "bfs_enqueueAll lv (vs @ ws) b = res_bind (bfs_enqueueAll lv vs b) (bfs_enqueueAll lv ws)"
  by (simp add: bfs_enqueueAll_def [abs_def] res_fold_append)

lemma bfs_pop_wf:
  assumes wf: "bfs_wf lv X b" and l: "l < length (bf_queue b)" "bf_queue b ! l \<noteq> []"
  shows "bfs_wf lv X (bfs_pop l b)" "same_shape b (bfs_pop l b)"
    "queued (bfs_pop l b) = (case last (bf_queue b ! l) of None \<Rightarrow> queued b | Some v \<Rightarrow> queued b - {v})"
    "last (bf_queue b ! l) = Some v \<Longrightarrow> v \<in> queued b \<and> lv_level lv v = int l"
    "bf_first_level (bfs_pop l b) = bf_first_level b" "bf_last_level (bfs_pop l b) = bf_last_level b"
    "bf_queue (bfs_pop l b) = (bf_queue b)[l := butlast (bf_queue b ! l)]"
proof -
  define b' where "b' = bfs_pop l b"
  have q: "queued b' = (case last (bf_queue b ! l) of None \<Rightarrow> queued b | Some v \<Rightarrow> queued b - {v})"
    by (auto simp: b'_def bfs_pop_def queued_def Let_def split: option.splits)
  have fields: "bf_queue b' = (bf_queue b)[l := butlast (bf_queue b ! l)]" "bf_direction b' = bf_direction b"
    "bf_first_level b' = bf_first_level b" "bf_last_level b' = bf_last_level b" "bf_level_max b' = bf_level_max b"
    by (simp_all add: b'_def bfs_pop_def Let_def split: option.splits)
  have old: "distinct (entries (bf_queue b ! k))" "\<And>u. Some u \<in> set (bf_queue b ! k) \<Longrightarrow> u \<in> queued b \<and> lv_level lv u = int k"
    if "k < length (bf_queue b)" for k
    using wf that by (auto simp: bfs_wf_def)
  have split: "bf_queue b ! l = butlast (bf_queue b ! l) @ [last (bf_queue b ! l)]" using l(2) by simp
  then have es: "entries (bf_queue b ! l) = entries (butlast (bf_queue b ! l)) @ entries [last (bf_queue b ! l)]"
    by (metis entries_simps(4))
  have here: "last (bf_queue b ! l) = Some v \<Longrightarrow> v \<in> queued b \<and> lv_level lv v = int l" for v
    using old(2) [OF l(1)] l(2) last_in_set by metis
  have nth: "bf_queue b' ! k = (if k = l then butlast (bf_queue b ! l) else bf_queue b ! k)" if "k < length (bf_queue b)" for k
    using that l(1) by (simp add: fields)
  have sub: "set (bf_queue b' ! k) \<subseteq> set (bf_queue b ! k)" if "k < length (bf_queue b)" for k
    using nth [OF that] by (auto dest: in_set_butlastD split: if_splits)
  have "bfs_wf lv X b'"
    unfolding bfs_wf_def
  proof (intro conjI ballI allI impI)
    show "span_ok b'" using wf by (cases "bf_direction b") (simp_all add: bfs_wf_def span_ok_def fields)
  next
    fix u assume u: "u \<in> queued b'"
    then have u': "u \<in> queued b" "last (bf_queue b ! l) \<noteq> Some u" using q by (auto split: option.splits)
    then have ok: "bfs_level_ok (lv_level lv u) b" "Some u \<in> set (bf_queue b ! nat (lv_level lv u))"
      using wf by (auto simp: bfs_wf_def)
    then show "bfs_level_ok (lv_level lv u) b'" by (simp add: bfs_level_ok_def fields)
    have "nat (lv_level lv u) < length (bf_queue b)" using ok(1) by (auto simp: bfs_level_ok_def)
    moreover have "Some u \<in> set (butlast (bf_queue b ! l))" if "Some u \<in> set (bf_queue b ! l)"
      using that u'(2) split by (metis Un_iff empty_iff list.set(1) set_ConsD set_append)
    ultimately show "Some u \<in> set (bf_queue b' ! nat (lv_level lv u))"
      using ok(2) by (cases "nat (lv_level lv u) = l") (simp_all add: nth)
  next
    fix k assume k: "k < length (bf_queue b')"
    then have k': "k < length (bf_queue b)" by (simp add: fields)
    show "distinct (entries (bf_queue b' ! k))" using old(1) [OF k'] es by (auto simp: nth [OF k'])
    fix u assume u: "Some u \<in> set (bf_queue b' ! k)"
    then have u': "u \<in> queued b" "lv_level lv u = int k" using old(2) [OF k'] sub [OF k'] by blast+
    have "last (bf_queue b ! l) \<noteq> Some u"
    proof
      assume last: "last (bf_queue b ! l) = Some u"
      then have "k = l" using here u'(2) by simp
      then have "u \<in> set (entries (butlast (bf_queue b ! l)))" using u nth [OF k'] by simp
      then show False using old(1) [OF l(1)] es last by simp
    qed
    then show "u \<in> queued b'" using u'(1) q by (auto split: option.splits)
    show "lv_level lv u = int k" using u'(2) .
  next
    fix k assume k: "k < length (bf_queue b')" "k \<notin> X" "bf_queue b' ! k \<noteq> []"
    then have "bf_queue b ! k \<noteq> []" using sub [of k] fields by auto
    then show "level_key (bf_direction b') (bf_first_level b') \<le> level_key (bf_direction b') (int k)"
      "level_key (bf_direction b') (int k) \<le> level_key (bf_direction b') (bf_last_level b')"
      using wf k by (auto simp: bfs_wf_def fields)
  qed
  then show "bfs_wf lv X (bfs_pop l b)" "same_shape b (bfs_pop l b)"
    "queued (bfs_pop l b) = (case last (bf_queue b ! l) of None \<Rightarrow> queued b | Some v \<Rightarrow> queued b - {v})"
    "last (bf_queue b ! l) = Some v \<Longrightarrow> v \<in> queued b \<and> lv_level lv v = int l"
    "bf_first_level (bfs_pop l b) = bf_first_level b" "bf_last_level (bfs_pop l b) = bf_last_level b"
    "bf_queue (bfs_pop l b) = (bf_queue b)[l := butlast (bf_queue b ! l)]"
    using q fields here by (simp_all add: b'_def same_shape_def)
qed

lemma span_level_ok:
  "span_ok b \<Longrightarrow> level_key (bf_direction b) (bf_first_level b) \<le> level_key (bf_direction b) (bf_last_level b) \<Longrightarrow>
   bfs_level_ok (bf_first_level b) b"
  by (cases "bf_direction b") (auto simp: span_ok_def level_key_def bfs_level_ok_def)

lemma first_level_step:
  assumes wf: "bfs_wf lv {} b" and first: "bf_first_level b = int l"
  shows "bfs_wf lv {l} (b\<lparr>bf_first_level := incrLevel (bf_direction b) (bf_first_level b)\<rparr>)"
proof -
  define b' where "b' = b\<lparr>bf_first_level := incrLevel (bf_direction b) (bf_first_level b)\<rparr>"
  have q: "queued b' = queued b" by (simp add: b'_def queued_def)
  have span: "span_ok b'"
    using wf by (cases "bf_direction b") (auto simp: bfs_wf_def span_ok_def b'_def)
  have "level_key (bf_direction b) (bf_first_level b) + 1 \<le> level_key (bf_direction b) (int k)"
    if "level_key (bf_direction b) (bf_first_level b) \<le> level_key (bf_direction b) (int k)" "k \<noteq> l" for k
    using that level_key_inj [of "bf_direction b" "int l" "int k"] first by fastforce
  then show ?thesis using wf span q unfolding bfs_wf_def b'_def [symmetric] by (simp add: b'_def bfs_level_ok_def)
qed

lemma finite_queued: "bfs_wf lv X b \<Longrightarrow> finite (queued b)"
proof (rule finite_subset)
  assume wf: "bfs_wf lv X b"
  show "queued b \<subseteq> (\<Union>l < length (bf_queue b). set (entries (bf_queue b ! l)))"
  proof
    fix v assume "v \<in> queued b"
    then have "bfs_level_ok (lv_level lv v) b" "Some v \<in> set (bf_queue b ! nat (lv_level lv v))" using wf by (auto simp: bfs_wf_def)
    then show "v \<in> (\<Union>l < length (bf_queue b). set (entries (bf_queue b ! l)))"
      by (intro UN_I [of "nat (lv_level lv v)"]) (auto simp: bfs_level_ok_def)
  qed
qed simp

text \<open>A visit replaces the rank of its vertex by lower ones.\<close>

lemma step_ranks:
  fixes rank :: "VertexId \<Rightarrow> nat"
  assumes fin: "finite Q" "v \<notin> Q" and low: "\<forall>w \<in> set ws. rank w < rank v"
  shows "(image_mset rank (mset_set (Q \<union> set ws)), image_mset rank (mset_set (insert v Q))) \<in> mult less_than"
proof -
  have "mset_set (Q \<union> set ws) = mset_set Q + mset_set (set ws - Q)"
    using mset_set_Union [of Q "set ws - Q"] fin by (simp add: Un_commute)
  moreover have "mset_set (insert v Q) = mset_set Q + {#v#}" using fin by simp
  moreover have "(image_mset rank (mset_set Q) + image_mset rank (mset_set (set ws - Q)), image_mset rank (mset_set Q) + {#rank v#})
      \<in> mult less_than"
    by (rule one_step_implies_mult) (use low in auto)
  ultimately show ?thesis by simp
qed

section \<open>Lemmas: the next vertex\<close>

text \<open>\<open>hasNext\<close> and \<open>next\<close> do not skip the null entries that \<open>remove\<close> leaves; a queue without them.\<close>

definition no_null :: "BfsIterator \<Rightarrow> bool" where
  "no_null b \<longleftrightarrow> (\<forall>l < length (bf_queue b). None \<notin> set (bf_queue b ! l))"

lemma enqueue_no_null: "bfs_enqueue lv v b = Inr b' \<Longrightarrow> no_null b \<Longrightarrow> no_null b'"
  by (cases "nat (lv_level lv v) < length (bf_queue b)")
    (auto simp: no_null_def bfs_enqueue_def bfs_push_def bfs_level_ok_def nth_list_update split: if_split_asm)

lemma pop_no_null: "no_null b \<Longrightarrow> l < length (bf_queue b) \<Longrightarrow> no_null (bfs_pop l b)"
  by (auto simp: no_null_def bfs_pop_def Let_def nth_list_update dest: in_set_butlastD split: option.splits if_split_asm)

lemma enqueueAll_no_null:
  assumes "bfs_enqueueAll lv vs b = Inr b'" "no_null b"
  shows "no_null b'"
  by (rule res_fold_invariant [where I = no_null, OF enqueue_no_null assms(2) assms(1) [unfolded bfs_enqueueAll_def]])

lemma findNext_ok:
  assumes "bfs_wf lv {} b"
  shows "\<exists>l. bfs_findNext to_level b = Inr (b\<lparr>bf_first_level := l\<rparr>) \<and> bfs_wf lv {} (b\<lparr>bf_first_level := l\<rparr>) \<and>
    (level_key (bf_direction b) l \<le> level_key (bf_direction b) (bf_last_level b) \<longrightarrow>
     level_key (bf_direction b) l \<le> level_key (bf_direction b) to_level \<longrightarrow> bf_queue b ! nat l \<noteq> [])"
  using assms
proof (induction to_level b rule: bfs_findNext.induct)
  case (1 to_level b)
  have span: "span_ok b" using 1(2) by (simp add: bfs_wf_def)
  consider (stop) "\<not> (level_key (bf_direction b) (bf_first_level b) \<le> level_key (bf_direction b) (bf_last_level b) \<and>
        level_key (bf_direction b) (bf_first_level b) \<le> level_key (bf_direction b) to_level)"
    | (found) "level_key (bf_direction b) (bf_first_level b) \<le> level_key (bf_direction b) (bf_last_level b)"
        "level_key (bf_direction b) (bf_first_level b) \<le> level_key (bf_direction b) to_level" "bf_queue b ! nat (bf_first_level b) \<noteq> []"
    | (skip) "level_key (bf_direction b) (bf_first_level b) \<le> level_key (bf_direction b) (bf_last_level b)"
        "level_key (bf_direction b) (bf_first_level b) \<le> level_key (bf_direction b) to_level" "bf_queue b ! nat (bf_first_level b) = []"
    by auto
  then show ?case
  proof cases
    case stop
    then show ?thesis using 1(2) by (intro exI [of _ "bf_first_level b"]) (auto simp: bfs_findNext.simps)
  next
    case found
    then show ?thesis using 1(2) span_level_ok [OF span]
      by (intro exI [of _ "bf_first_level b"]) (auto simp: bfs_findNext.simps [of to_level b])
  next
    case skip
    define b1 where "b1 = b\<lparr>bf_first_level := incrLevel (bf_direction b) (bf_first_level b)\<rparr>"
    have ok: "bfs_level_ok (bf_first_level b) b" using span_level_ok [OF span skip(1)] .
    then obtain n where n: "bf_first_level b = int n" by (auto simp: bfs_level_ok_def dest: zero_le_imp_eq_int)
    have "bfs_wf lv {n} b1" unfolding b1_def by (rule first_level_step [OF 1(2) n])
    then have "bfs_wf lv {} b1" using skip(3) by (auto simp: bfs_wf_def b1_def n)
    moreover have "bfs_findNext to_level b = bfs_findNext to_level b1"
      using skip ok by (subst bfs_findNext.simps) (simp add: b1_def)
    ultimately show ?thesis using 1(1) skip ok by (auto simp: b1_def)
  qed
qed

text \<open>While a vertex is queued the iterator gives one of the first level; then it has no next.\<close>

lemma bfs_next_ok:
  assumes wf: "bfs_wf lv {} b" and null: "no_null b"
  shows "queued b = {} \<Longrightarrow> \<exists>b1. bfs_hasNext (bf_last_level b) b = Inr (False, b1)"
    "queued b \<noteq> {} \<Longrightarrow> \<exists>b1 v b2. bfs_hasNext (bf_last_level b) b = Inr (True, b1) \<and> bfs_next b1 = Inr (v, b2) \<and> v \<in> queued b \<and>
       bfs_wf lv {} b2 \<and> same_shape b b2 \<and> queued b2 = queued b - {v} \<and> no_null b2"
proof -
  define key where "key = level_key (bf_direction b)"
  obtain l where l: "bfs_findNext (bf_last_level b) b = Inr (b\<lparr>bf_first_level := l\<rparr>)" "bfs_wf lv {} (b\<lparr>bf_first_level := l\<rparr>)"
      "key l \<le> key (bf_last_level b) \<Longrightarrow> bf_queue b ! nat l \<noteq> []"
    using findNext_ok [OF wf, of "bf_last_level b"] by (auto simp: key_def)
  define b1 where "b1 = b\<lparr>bf_first_level := l\<rparr>"
  have q1: "queued b1 = queued b" by (simp add: b1_def queued_def)
  have ok: "bfs_level_ok l b" if "key l \<le> key (bf_last_level b)"
    using span_level_ok [of b1] l(2) that by (simp add: b1_def bfs_wf_def key_def bfs_level_ok_def)
  have found: "bfs_hasNext (bf_last_level b) b = Inr (key l \<le> key (bf_last_level b), b1)"
    using l(1,3) ok by (simp add: bfs_hasNext_def b1_def key_def bfs_level_ok_def)
  have pop: "bfs_next b1 = Inr (v, bfs_pop (nat l) b1)" "bf_queue b1 ! nat l \<noteq> []" "nat l < length (bf_queue b1)"
    if "key l \<le> key (bf_last_level b)" "last (bf_queue b ! nat l) = Some v" for v
    using that l(3) ok by (simp_all add: bfs_next_def bfs_pop_def b1_def Let_def bfs_level_ok_def nat_less_iff)
  have last: "\<exists>v. last (bf_queue b ! nat l) = Some v" if "key l \<le> key (bf_last_level b)"
  proof -
    have "last (bf_queue b ! nat l) \<in> set (bf_queue b ! nat l)" "nat l < length (bf_queue b)"
      using l(3) [OF that] ok [OF that] by (simp_all add: bfs_level_ok_def nat_less_iff)
    then have "last (bf_queue b ! nat l) \<noteq> None" using null by (metis no_null_def)
    then show ?thesis by simp
  qed
  show "\<exists>b1. bfs_hasNext (bf_last_level b) b = Inr (False, b1)" if empty: "queued b = {}"
  proof -
    have "\<not> key l \<le> key (bf_last_level b)"
    proof
      assume below: "key l \<le> key (bf_last_level b)"
      then obtain v where v: "last (bf_queue b ! nat l) = Some v" using last by blast
      show False using bfs_pop_wf(4) [OF l(2) [folded b1_def] pop(3,2) [OF below v]] v empty q1 by (simp add: b1_def)
    qed
    then show ?thesis using found by simp
  qed
  show "\<exists>b1 v b2. bfs_hasNext (bf_last_level b) b = Inr (True, b1) \<and> bfs_next b1 = Inr (v, b2) \<and> v \<in> queued b \<and>
       bfs_wf lv {} b2 \<and> same_shape b b2 \<and> queued b2 = queued b - {v} \<and> no_null b2" if some: "queued b \<noteq> {}"
  proof -
    obtain u where "u \<in> queued b1" using some q1 by auto
    then have "\<exists>k < length (bf_queue b1). bf_queue b1 ! k \<noteq> []"
      using l(2) [folded b1_def] by (intro exI [of _ "nat (lv_level lv u)"]) (auto simp: bfs_wf_def bfs_level_ok_def)
    then have below: "key l \<le> key (bf_last_level b)"
      using l(2) [folded b1_def] by (auto simp: bfs_wf_def b1_def key_def)
    then obtain v where v: "last (bf_queue b ! nat l) = Some v" using last by blast
    note popped = bfs_pop_wf [OF l(2) [folded b1_def] pop(3,2) [OF below v]]
    have "no_null (bfs_pop (nat l) b1)"
      using pop_no_null [OF _ pop(3) [OF below v]] null by (simp add: no_null_def b1_def)
    moreover have "same_shape b (bfs_pop (nat l) b1)"
      using same_shape_trans [OF _ popped(2)] by (simp add: b1_def same_shape_def)
    moreover have "last (bf_queue b1 ! nat l) = Some v" using v by (simp add: b1_def)
    ultimately show ?thesis
      using found below pop(1) [OF below v] popped(1,3,4) q1
      by (intro exI [of _ b1] exI [of _ v] exI [of _ "bfs_pop (nat l) b1"]) simp
  qed
qed

section \<open>Visitors\<close>

text \<open>
  What the iterator asks of a visitor so that a visit ends: it queues only vertices of a lower rank, for instance
  vertices further down a graph without cycles. A visit of a vertex takes it from the queue and keeps the invariant
  \<open>ok\<close> of the state of the visitor and the set of queued vertices.
\<close>

locale bfs_visitor =
  fixes lv :: Levels and visitor :: "'s VertexVisitor" and V :: "VertexId set" and rank :: "VertexId \<Rightarrow> nat"
    and proto :: BfsIterator and ok :: "'s \<Rightarrow> VertexId set \<Rightarrow> bool"
  assumes levels_ok: "v \<in> V \<Longrightarrow> bfs_level_ok (lv_level lv v) proto"
    and visit_step: "same_shape proto b \<Longrightarrow> Q \<subseteq> V \<Longrightarrow> v \<in> V \<Longrightarrow> v \<notin> Q \<Longrightarrow> ok s (insert v Q) \<Longrightarrow>
      \<exists>ws s'. set ws \<subseteq> V \<and> (\<forall>w \<in> set ws. rank w < rank v) \<and> ok s' (Q \<union> set ws) \<and>
        vv_visit visitor v s b = res_bind (bfs_enqueueAll lv ws b) (\<lambda>b'. Inr (s', b'))"
    and finished_ok: "ok s Q \<Longrightarrow> ok (vv_levelFinished visitor s) Q"
begin

definition state_ok :: "nat set \<Rightarrow> 's \<Rightarrow> BfsIterator \<Rightarrow> bool" where
  "state_ok X s b \<longleftrightarrow> same_shape proto b \<and> bfs_wf lv X b \<and> queued b \<subseteq> V \<and> ok s (queued b)"

definition ranks :: "BfsIterator \<Rightarrow> nat multiset" where
  "ranks b = image_mset rank (mset_set (queued b))"

lemma visit_vertex:
  assumes st: "state_ok X s b" and l: "l < length (bf_queue b)" "bf_queue b ! l \<noteq> []" "last (bf_queue b ! l) = Some v"
  shows "\<exists>s' b'. vv_visit visitor v s (bfs_pop l b) = Inr (s', b') \<and> state_ok X s' b' \<and> (ranks b', ranks b) \<in> mult less_than"
proof -
  have wf: "bfs_wf lv X b" and shape: "same_shape proto b" and V: "queued b \<subseteq> V" and ok: "ok s (queued b)"
    using st by (simp_all add: state_ok_def)
  note pop = bfs_pop_wf [OF wf l(1,2)]
  have v: "v \<in> queued b" using pop(4) l(3) by simp
  have q: "queued (bfs_pop l b) = queued b - {v}" "insert v (queued b - {v}) = queued b" using pop(3) l(3) v by auto
  have shape': "same_shape proto (bfs_pop l b)" using same_shape_trans [OF shape pop(2)] .
  obtain ws s' where ws: "set ws \<subseteq> V" "\<forall>w \<in> set ws. rank w < rank v" "ok s' (queued b - {v} \<union> set ws)"
      "vv_visit visitor v s (bfs_pop l b) = res_bind (bfs_enqueueAll lv ws (bfs_pop l b)) (\<lambda>b'. Inr (s', b'))"
    using visit_step [OF shape', of "queued b - {v}" v s] V v ok q(2) by auto
  have "\<forall>w \<in> set ws. bfs_level_ok (lv_level lv w) (bfs_pop l b)"
    using ws(1) levels_ok shape' by (auto simp: same_shape_def bfs_level_ok_def)
  then obtain b' where b': "bfs_enqueueAll lv ws (bfs_pop l b) = Inr b'" "bfs_wf lv X b'"
      "queued b' = queued b - {v} \<union> set ws" "same_shape (bfs_pop l b) b'"
    using bfs_enqueueAll_ok [OF pop(1)] q(1) by metis
  have "state_ok X s' b'"
    using b' ws(1,3) V same_shape_trans [OF shape' b'(4)] by (auto simp: state_ok_def)
  moreover have "(ranks b', ranks b) \<in> mult less_than"
    using step_ranks [of "queued b - {v}" v ws] finite_queued [OF wf] ws(2) q(2) by (simp add: ranks_def b'(3))
  ultimately show ?thesis using ws(4) b'(1) by simp
qed

text \<open>The loop over one level ends with its list empty; when it visited a vertex the ranks are lower.\<close>

lemma visit_level_ok:
  assumes "state_ok {l} s b" "l < length (bf_queue b)"
  shows "\<exists>n' s' b'. bfs_visit_level visitor l n s b = Some (Inr (n', s', b')) \<and> state_ok {} s' b' \<and>
    ((ranks b', ranks b) \<in> mult less_than \<or>
     ranks b' = ranks b \<and> bf_first_level b' = bf_first_level b \<and> bf_last_level b' = bf_last_level b)"
  using assms
proof (induction "(ranks b, length (bf_queue b ! l))" arbitrary: n s b
    rule: wf_induct_rule [OF wf_lex_prod [OF wf_mult [OF wf_less_than] wf_less_than]])
  case 1
  have wf: "bfs_wf lv {l} b" and shape: "same_shape proto b" and V: "queued b \<subseteq> V" and ok: "ok s (queued b)"
    using 1(2) by (simp_all add: state_ok_def)
  have trans: "trans (mult less_than)" by (simp add: trans_mult)
  show ?case
  proof (cases "bf_queue b ! l = []")
    case True
    have "bfs_wf lv {} b" using wf True by (auto simp: bfs_wf_def)
    then have "state_ok {} s b" using 1(2) by (simp add: state_ok_def)
    moreover have "bfs_visit_level visitor l n s b = Some (Inr (n, s, b))"
      using True by (subst bfs_visit_level.simps) simp
    ultimately show ?thesis by blast
  next
    case False
    note pop = bfs_pop_wf [OF wf 1(3) False]
    show ?thesis
    proof (cases "last (bf_queue b ! l)")
      case None
      have q: "queued (bfs_pop l b) = queued b" using pop(3) None by simp
      have st: "state_ok {l} s (bfs_pop l b)"
        using pop(1) 1(2) q same_shape_trans [OF shape pop(2)] by (simp add: state_ok_def)
      have r: "ranks (bfs_pop l b) = ranks b" using q by (simp add: ranks_def)
      have "length (bf_queue (bfs_pop l b) ! l) < length (bf_queue b ! l)" using False 1(3) by (simp add: pop(7))
      then have less: "((ranks (bfs_pop l b), length (bf_queue (bfs_pop l b) ! l)), ranks b, length (bf_queue b ! l))
          \<in> mult less_than <*lex*> less_than" using r by simp
      have l': "l < length (bf_queue (bfs_pop l b))" using 1(3) by (simp add: pop(7))
      have "bfs_visit_level visitor l n s b = bfs_visit_level visitor l n s (bfs_pop l b)"
        using False None by (subst bfs_visit_level.simps) simp
      then show ?thesis using 1(1) [OF less st l', of n] r pop(5,6) by metis
    next
      case (Some v)
      obtain s1 b1 where v: "vv_visit visitor v s (bfs_pop l b) = Inr (s1, b1)" "state_ok {l} s1 b1"
          "(ranks b1, ranks b) \<in> mult less_than"
        using visit_vertex [OF 1(2,3) False Some] by blast
      have "length (bf_queue b1) = length (bf_queue b)" using v(2) shape by (simp add: state_ok_def same_shape_def)
      then have l1: "l < length (bf_queue b1)" using 1(3) by simp
      have less: "((ranks b1, length (bf_queue b1 ! l)), ranks b, length (bf_queue b ! l)) \<in> mult less_than <*lex*> less_than"
        using v(3) by simp
      have "bfs_visit_level visitor l n s b = bfs_visit_level visitor l (n + 1) s1 b1"
        using False Some v(1) by (subst bfs_visit_level.simps) simp
      then show ?thesis using 1(1) [OF less v(2) l1, of "n + 1"] v(3) transD [OF trans] by metis
    qed
  qed
qed

text \<open>A visit ends and leaves no vertex in the queue up to its last level.\<close>

lemma visit_loop_ok:
  assumes "state_ok {} s b"
  shows "\<exists>n' s' b'. bfs_visit_loop to_level visitor n s b = Some (Inr (n', s', b')) \<and> state_ok {} s' b' \<and>
    (\<forall>v \<in> queued b'. level_key (bf_direction proto) to_level < level_key (bf_direction proto) (lv_level lv v))"
  using assms
proof (induction "(ranks b, nat (level_key (bf_direction b) (bf_last_level b) - level_key (bf_direction b) (bf_first_level b) + 1))"
    arbitrary: n s b rule: wf_induct_rule [OF wf_lex_prod [OF wf_mult [OF wf_less_than] wf_less_than]])
  case 1
  define key where "key = level_key (bf_direction proto)"
  have wf: "bfs_wf lv {} b" and shape: "same_shape proto b" using 1(2) by (simp_all add: state_ok_def)
  have dir: "bf_direction b = bf_direction proto" using shape by (simp add: same_shape_def)
  have span: "span_ok b" using wf by (simp add: bfs_wf_def)
  show ?case
  proof (cases "key (bf_first_level b) \<le> key (bf_last_level b) \<and> key (bf_first_level b) \<le> key to_level")
    case False
    have "key to_level < key (lv_level lv v)" if v: "v \<in> queued b" for v
    proof -
      have "bfs_level_ok (lv_level lv v) b" "bf_queue b ! nat (lv_level lv v) \<noteq> []" using wf v by (auto simp: bfs_wf_def)
      then have "key (bf_first_level b) \<le> key (lv_level lv v) \<and> key (lv_level lv v) \<le> key (bf_last_level b)"
        using wf by (auto simp: bfs_wf_def bfs_level_ok_def dir key_def dest!: spec [of _ "nat (lv_level lv v)"])
      then show ?thesis using False by auto
    qed
    moreover have "bfs_visit_loop to_level visitor n s b = Some (Inr (n, s, b))"
      using False by (subst bfs_visit_loop.simps) (auto simp: dir key_def)
    ultimately show ?thesis using 1(2) by (auto simp: key_def)
  next
    case True
    define b0 where "b0 = b\<lparr>bf_first_level := incrLevel (bf_direction b) (bf_first_level b)\<rparr>"
    have first: "bfs_level_ok (bf_first_level b) b" using span_level_ok [OF span] True by (simp add: key_def dir)
    then obtain l where l: "bf_first_level b = int l" "l < length (bf_queue b)"
      by (auto simp: bfs_level_ok_def dest: zero_le_imp_eq_int)
    have q: "queued b0 = queued b" by (simp add: b0_def queued_def)
    have "state_ok {l} s b0"
      using 1(2) first_level_step [OF wf l(1)] shape q by (simp add: state_ok_def b0_def same_shape_def)
    moreover have "l < length (bf_queue b0)" using l(2) by (simp add: b0_def)
    ultimately obtain n1 s1 b1 where v: "bfs_visit_level visitor l n s b0 = Some (Inr (n1, s1, b1))" "state_ok {} s1 b1"
        "(ranks b1, ranks b0) \<in> mult less_than \<or>
         ranks b1 = ranks b0 \<and> bf_first_level b1 = bf_first_level b0 \<and> bf_last_level b1 = bf_last_level b0"
      using visit_level_ok by blast
    define s2 where "s2 = vv_levelFinished visitor s1"
    have st2: "state_ok {} s2 b1" using v(2) finished_ok by (simp add: state_ok_def s2_def)
    have dir1: "bf_direction b1 = bf_direction proto" using v(2) by (simp add: state_ok_def same_shape_def)
    have r0: "ranks b0 = ranks b" using q by (simp add: ranks_def)
    have b0: "bf_last_level b0 = bf_last_level b" "key (bf_first_level b0) = key (bf_first_level b) + 1"
      by (simp_all add: b0_def key_def dir)
    have "((ranks b1, nat (level_key (bf_direction b1) (bf_last_level b1) - level_key (bf_direction b1) (bf_first_level b1) + 1)),
        ranks b, nat (level_key (bf_direction b) (bf_last_level b) - level_key (bf_direction b) (bf_first_level b) + 1))
      \<in> mult less_than <*lex*> less_than"
      using v(3) True b0 unfolding r0 dir dir1 key_def [symmetric] by auto
    moreover have "bfs_visit_loop to_level visitor n s b = bfs_visit_loop to_level visitor n1 s2 b1"
      using True first l(1) v(1) by (subst bfs_visit_loop.simps) (simp add: dir key_def b0_def s2_def)
    ultimately show ?thesis using 1(1) [OF _ st2, of n1] by metis
  qed
qed

text \<open>A visit up to a level that no vertex exceeds empties the queue.\<close>

lemma visit_all:
  assumes "state_ok {} s b" "\<forall>v \<in> V. level_key (bf_direction proto) (lv_level lv v) \<le> level_key (bf_direction proto) to_level"
  shows "\<exists>n' s' b'. bfs_visit to_level visitor s b = Some (Inr (n', s', b')) \<and> state_ok {} s' b' \<and> queued b' = {}"
proof -
  obtain n' s' b' where b': "bfs_visit to_level visitor s b = Some (Inr (n', s', b'))" "state_ok {} s' b'"
      "\<forall>v \<in> queued b'. level_key (bf_direction proto) to_level < level_key (bf_direction proto) (lv_level lv v)"
    using visit_loop_ok [OF assms(1), of to_level 0] by (auto simp: bfs_visit_def)
  have "v \<notin> queued b'" for v
    using b'(2,3) assms(2) by (fastforce simp: state_ok_def)
  then have "queued b' = {}" by auto
  then show ?thesis using b' by blast
qed

end

lemma bfs_new_ok:
  assumes "lv_levels_valid lv" "0 \<le> lv_max_level lv"
  shows "bfs_wf lv {} (bfs_new dir lv)" "queued (bfs_new dir lv) = {}"
    "bfs_level_ok l (bfs_new dir lv) \<longleftrightarrow> 0 \<le> l \<and> l \<le> lv_max_level lv" "bf_direction (bfs_new dir lv) = dir"
    "bf_level_max (bfs_new BFS_fwd lv) = level_max" "bf_level_max (bfs_new BFS_bkwd lv) = 0" "no_null (bfs_new dir lv)"
proof -
  define q :: "VertexId option list list" where "q = replicate (nat (lv_max_level lv + 1)) []"
  have q: "bf_queue (bfs_new dir lv) = q" for dir
    using assms by (simp add: bfs_new_def bfs_init_def bfs_ensureSize_def q_def Let_def)
  have fields: "bf_direction (bfs_new dir lv) = dir" "bf_in_queue (bfs_new dir lv) = (\<lambda>_. False)"
    "bf_first_level (bfs_new dir lv) = (case dir of BFS_fwd \<Rightarrow> level_max | BFS_bkwd \<Rightarrow> 0)"
    "bf_last_level (bfs_new dir lv) = (case dir of BFS_fwd \<Rightarrow> 0 | BFS_bkwd \<Rightarrow> level_max)"
    "bf_level_max (bfs_new BFS_fwd lv) = level_max" "bf_level_max (bfs_new BFS_bkwd lv) = 0" for dir
    by (auto simp: bfs_new_def bfs_init_def bfs_ensureSize_def Let_def split: BfsDirection.splits)
  have len: "int (length q) = lv_max_level lv + 1" and nil: "\<forall>l < length q. q ! l = []"
    using assms(2) by (simp_all add: q_def)
  show empty: "queued (bfs_new dir lv) = {}" by (simp add: queued_def fields)
  show "bfs_wf lv {} (bfs_new dir lv)"
    using nil len assms(2) unfolding bfs_wf_def empty span_ok_def q fields
    by (auto simp: level_max_def split: BfsDirection.splits)
  show "bfs_level_ok l (bfs_new dir lv) \<longleftrightarrow> 0 \<le> l \<and> l \<le> lv_max_level lv"
    using len by (auto simp: bfs_level_ok_def q)
  show "bf_direction (bfs_new dir lv) = dir" "bf_level_max (bfs_new BFS_fwd lv) = level_max"
    "bf_level_max (bfs_new BFS_bkwd lv) = 0" "no_null (bfs_new dir lv)"
    using fields nil by (auto simp: no_null_def q)
qed

end
