(* ===== verification/GTP_Propagate.thy ===== *)
theory GTP_Propagate
  imports GTP_Bfs GTP_Bdd
begin

text \<open>
  Propagation of activities through the netlist (\<open>Power::ensureActivities\<close> and \<open>PropActivityVisitor\<close> in
  \<open>power/Power.cc\<close>): the roots of the timing graph are seeded, a search by levels evaluates the functions of the cells,
  and passes over the registers carry activities from data to output until nothing changes. The netlist and the cells of
  its instances are a record of functions; levels and the graph are those of the levelizer.
\<close>

section \<open>The netlist\<close>

record Sequential =
  sq_is_register :: bool
  sq_data :: FuncExpr
  sq_output :: "PortId option"
  sq_output_inv :: "PortId option"

record ActCell =
  ac_sequentials :: "Sequential list"
  ac_has_statetable :: bool
  ac_is_clock_gate :: bool

definition hasSequentials :: "ActCell \<Rightarrow> bool" where
  "hasSequentials cell \<longleftrightarrow> ac_sequentials cell \<noteq> [] \<or> ac_has_statetable cell"

record ActNet =
  an_env :: PowerEnv
  an_graph :: TGraph
  an_sdc :: SdcFlags
  an_levels :: Levels
  an_instance :: "PinId \<Rightarrow> InstId"
  an_is_load :: "PinId \<Rightarrow> bool"
  an_is_driver :: "PinId \<Rightarrow> bool"
  an_is_internal :: "PinId \<Rightarrow> bool"
  an_liberty_port :: "PinId \<Rightarrow> PortId option"
  an_function :: "PortId \<Rightarrow> FuncExpr"
  an_gate_enable :: "PortId \<Rightarrow> bool"
  an_gate_clock :: "PortId \<Rightarrow> bool"
  an_gate_out :: "PortId \<Rightarrow> bool"
  an_cell :: "InstId \<Rightarrow> ActCell option"
  an_find_pin :: "InstId \<Rightarrow> PortId \<Rightarrow> PinId option"

definition an_pin :: "ActNet \<Rightarrow> VertexId \<Rightarrow> PinId" where
  "an_pin net v = tv_pin (tg_vertex (an_graph net) v)"

definition act_pred :: "ActNet \<Rightarrow> SearchPred" where
  "act_pred net = pred_with (an_graph net) (searchThruActivity (an_graph net) (an_sdc net) (lv_disabled (an_levels net)))"

definition hasUserActivity :: "PowerActs \<Rightarrow> PinId \<Rightarrow> bool" where
  "hasUserActivity st pin \<longleftrightarrow> pw_user st pin \<noteq> None"

section \<open>Visiting a vertex\<close>

record PropVisitor =
  pv_visited_regs :: "InstId list"
  pv_max_change :: real
  pv_power :: PowerActs

definition prop_new :: "PowerActs \<Rightarrow> PropVisitor" where
  "prop_new st = \<lparr>pv_visited_regs = [], pv_max_change = 0, pv_power = st\<rparr>"

definition prop_init :: "PropVisitor \<Rightarrow> PropVisitor" where
  "prop_init pv = pv\<lparr>pv_max_change := 0\<rparr>"

definition change_tolerance :: real where
  "change_tolerance = 1 / 1000"

definition activity_differs :: "PwrActivity \<Rightarrow> PwrActivity \<Rightarrow> bool" where
  "activity_differs a b \<longleftrightarrow>
     \<bar>pa_activity a - pa_activity b\<bar> > change_tolerance \<or> \<bar>pa_duty a - pa_duty b\<bar> > change_tolerance \<or> pa_origin a \<noteq> pa_origin b"

definition setActivityCheck :: "PinId \<Rightarrow> PwrActivity \<Rightarrow> PropVisitor \<Rightarrow> bool \<times> PropVisitor" where
  "setActivityCheck pin a pv =
     (let (prev, st) = activity_ref pin (pv_power pv) in
      if activity_differs a prev
      then (True, pv\<lparr>pv_max_change := max (max (pv_max_change pv) \<bar>pa_activity a - pa_activity prev\<bar>) \<bar>pa_duty a - pa_duty prev\<bar>,
                     pv_power := setActivity pin a st\<rparr>)
      else (False, pv\<lparr>pv_power := st\<rparr>))"

definition clock_gate_pin :: "ActNet \<Rightarrow> PinId \<Rightarrow> PinId option \<times> PinId option \<times> PinId option \<Rightarrow>
    power_error + PinId option \<times> PinId option \<times> PinId option" where
  "clock_gate_pin net pin pins =
     (case pins of (enable, clk, gclk) \<Rightarrow>
      case an_liberty_port net pin of
        None \<Rightarrow> Inl NullDeref
      | Some port \<Rightarrow> Inr (if an_gate_enable net port then Some pin else enable,
                          if an_gate_clock net port then Some pin else clk,
                          if an_gate_out net port then Some pin else gclk))"

definition clockGatePins :: "ActNet \<Rightarrow> InstId \<Rightarrow> power_error + PinId option \<times> PinId option \<times> PinId option" where
  "clockGatePins net inst = res_fold (clock_gate_pin net) (en_inst_pins (an_env net) inst) (None, None, None)"

text \<open>A load takes the activity of the driver of its first edge when that is a wire.\<close>

definition visit_wire :: "ActNet \<Rightarrow> VertexId \<Rightarrow> PropVisitor \<Rightarrow> bool \<times> PropVisitor" where
  "visit_wire net v pv =
     (case tg_in_edges (an_graph net) v of
        [] \<Rightarrow> (False, pv)
      | e # _ \<Rightarrow>
          if tr_isWire (te_role (tg_edge (an_graph net) e)) then
            let (from_activity, st) = activity_ref (an_pin net (te_from (tg_edge (an_graph net) e))) (pv_power pv)
            in setActivityCheck (an_pin net v) (from_activity\<lparr>pa_origin := PO_propagated\<rparr>) (pv\<lparr>pv_power := st\<rparr>)
          else (False, pv))"

definition visit_clock_gate :: "ActNet \<Rightarrow> InstId \<Rightarrow> bool \<times> PropVisitor \<Rightarrow> power_error + bool \<times> PropVisitor" where
  "visit_clock_gate net inst cp =
     res_bind (clockGatePins net inst) (\<lambda>pins.
       case pins of
         (Some enable, Some clk, Some gclk) \<Rightarrow>
           res_bind (findActivity (an_env net) (pv_power (snd cp)) clk) (\<lambda>activity1.
           res_bind (findActivity (an_env net) (pv_power (snd cp)) enable) (\<lambda>activity2.
             let p1 = pa_duty activity1; p2 = pa_duty activity2
             in Inr (setActivityCheck gclk
                  (pa_new (pa_activity activity1 * p2 + pa_activity activity2 * p1) (p1 * p2) PO_propagated) (snd cp))))
       | _ \<Rightarrow> Inr cp)"

text \<open>The function and the clock gate replace the flag that an earlier step has set.\<close>

definition visit_driver :: "'n Cudd \<Rightarrow> ActNet \<Rightarrow> PinId \<Rightarrow> bool \<times> PropVisitor \<Rightarrow> power_error + bool \<times> PropVisitor" where
  "visit_driver cu net pin cp =
     (let inst = an_instance net pin in
      case an_liberty_port net pin of
        None \<Rightarrow> Inr cp
      | Some port \<Rightarrow>
          res_bind
            (if an_function net port \<noteq> FE_null then
               res_bind (evalActivity cu (an_env net) (pv_power (snd cp)) (an_function net port) inst)
                 (\<lambda>a. Inr (setActivityCheck pin a (snd cp)))
             else Inr cp)
            (\<lambda>cp1. if an_gate_out net port then visit_clock_gate net inst cp1 else Inr cp1))"

definition visit_pin :: "'n Cudd \<Rightarrow> ActNet \<Rightarrow> VertexId \<Rightarrow> PropVisitor \<Rightarrow> power_error + bool \<times> PropVisitor" where
  "visit_pin cu net v pv =
     (let pin = an_pin net v in
      case pw_user (pv_power pv) pin of
        Some a \<Rightarrow> Inr (setActivityCheck pin a pv)
      | None \<Rightarrow>
          let cp = (if an_is_load net pin then visit_wire net v pv else (False, pv))
          in if an_is_driver net pin then visit_driver cu net pin cp else Inr cp)"

definition list_insert_reg :: "InstId \<Rightarrow> PropVisitor \<Rightarrow> PropVisitor" where
  "list_insert_reg inst pv =
     (if inst \<in> set (pv_visited_regs pv) then pv else pv\<lparr>pv_visited_regs := pv_visited_regs pv @ [inst]\<rparr>)"

definition mark_register :: "ActNet \<Rightarrow> PinId \<Rightarrow> PropVisitor \<Rightarrow> PropVisitor" where
  "mark_register net pin pv =
     (case an_cell net (an_instance net pin) of
        Some cell \<Rightarrow> if an_is_load net pin \<and> hasSequentials cell then list_insert_reg (an_instance net pin) pv else pv
      | None \<Rightarrow> pv)"

definition enqueue_gated_clock :: "ActNet \<Rightarrow> PinId \<Rightarrow> BfsIterator \<Rightarrow> power_error + BfsIterator" where
  "enqueue_gated_clock net pin b =
     (case an_cell net (an_instance net pin) of
        Some cell \<Rightarrow>
          if an_is_load net pin \<and> ac_is_clock_gate cell then
            res_bind (clockGatePins net (an_instance net pin)) (\<lambda>pins.
              case snd (snd pins) of
                Some gclk \<Rightarrow> bfs_enqueue (an_levels net) (tg_drvr_vertex (an_graph net) gclk) b
              | None \<Rightarrow> Inr b)
          else Inr b
      | None \<Rightarrow> Inr b)"

definition prop_visit :: "'n Cudd \<Rightarrow> ActNet \<Rightarrow> VertexId \<Rightarrow> PropVisitor \<Rightarrow> BfsIterator \<Rightarrow> power_error + PropVisitor \<times> BfsIterator" where
  "prop_visit cu net v pv b =
     res_bind (visit_pin cu net v pv) (\<lambda>(changed, pv1).
       if changed then
         res_bind (enqueue_gated_clock net (an_pin net v) b) (\<lambda>b1.
         res_bind (bfs_enqueueAdjacent (an_graph net) (an_levels net) (act_pred net) v b1) (\<lambda>b2.
           Inr (mark_register net (an_pin net v) pv1, b2)))
       else Inr (pv1, b))"

definition prop_visitor :: "'n Cudd \<Rightarrow> ActNet \<Rightarrow> PropVisitor VertexVisitor" where
  "prop_visitor cu net = \<lparr>vv_visit = prop_visit cu net, vv_levelFinished = (\<lambda>pv. pv)\<rparr>"

section \<open>Seeding\<close>

definition seed_root :: "ActNet \<Rightarrow> VertexId \<Rightarrow> PowerActs \<times> BfsIterator \<Rightarrow> power_error + PowerActs \<times> BfsIterator" where
  "seed_root net v sb =
     (let pin = an_pin net v; st = fst sb in
      if an_is_internal net pin then Inr sb
      else let st1 = (case pw_user st pin of Some a \<Rightarrow> setActivity pin a st | None \<Rightarrow> setActivity pin (pw_input st) st)
        in res_bind (bfs_enqueueAdjacent (an_graph net) (an_levels net) (act_pred net) (tg_drvr_vertex (an_graph net) pin) (snd sb))
             (\<lambda>b1. Inr (st1, b1)))"

definition seedActivities :: "ActNet \<Rightarrow> PowerActs \<Rightarrow> BfsIterator \<Rightarrow> power_error + PowerActs \<times> BfsIterator" where
  "seedActivities net st b = res_fold (seed_root net) (lv_roots (an_levels net)) (st, b)"

text \<open>The output of a register: at most one transition per clock cycle, that of a latch is not limited.\<close>

definition reg_activity :: "Sequential \<Rightarrow> bool \<Rightarrow> PwrActivity \<Rightarrow> PwrActivity" where
  "reg_activity seq invert a =
     (let a1 = (if sq_is_register seq \<and> pa_activity a > 1 then a\<lparr>pa_activity := 1\<rparr> else a);
          a2 = (if invert then a1\<lparr>pa_duty := 1 - pa_duty a1\<rparr> else a1)
      in a2\<lparr>pa_origin := PO_propagated\<rparr>)"

definition seedRegOutput ::
    "'n Cudd \<Rightarrow> ActNet \<Rightarrow> InstId \<Rightarrow> Sequential \<Rightarrow> PortId option \<Rightarrow> bool \<Rightarrow> PowerActs \<Rightarrow> power_error + PowerActs" where
  "seedRegOutput cu net reg seq output_port invert st =
     (case output_port of
        None \<Rightarrow> Inl NullDeref
      | Some port \<Rightarrow>
          if (case an_find_pin net reg port of None \<Rightarrow> False | Some out_pin \<Rightarrow> hasUserActivity st out_pin) then Inr st
          else res_bind (evalActivity cu (an_env net) st (sq_data seq) reg) (\<lambda>a.
            Inr (setSeqActivity reg port (reg_activity seq invert a) st)))"

definition enqueue_reg_pin :: "ActNet \<Rightarrow> Sequential \<Rightarrow> PinId \<Rightarrow> BfsIterator \<Rightarrow> power_error + BfsIterator" where
  "enqueue_reg_pin net seq pin b =
     (case an_liberty_port net pin of
        None \<Rightarrow> Inr b
      | Some port \<Rightarrow>
          if an_function net port \<noteq> FE_null
             \<and> (fe_port (an_function net port) = sq_output seq \<or> fe_port (an_function net port) = sq_output_inv seq)
          then bfs_enqueue (an_levels net) (tg_drvr_vertex (an_graph net) pin) b else Inr b)"

definition seed_sequential :: "'n Cudd \<Rightarrow> ActNet \<Rightarrow> InstId \<Rightarrow> Sequential \<Rightarrow> PowerActs \<times> BfsIterator \<Rightarrow> power_error + PowerActs \<times> BfsIterator" where
  "seed_sequential cu net reg seq sb =
     res_bind (seedRegOutput cu net reg seq (sq_output seq) False (fst sb)) (\<lambda>st1.
     res_bind (seedRegOutput cu net reg seq (sq_output_inv seq) True st1) (\<lambda>st2.
     res_bind (res_fold (enqueue_reg_pin net seq) (en_inst_pins (an_env net) reg) (snd sb)) (\<lambda>b1. Inr (st2, b1))))"

definition seedRegOutputActivities :: "'n Cudd \<Rightarrow> ActNet \<Rightarrow> InstId \<Rightarrow> PowerActs \<times> BfsIterator \<Rightarrow> power_error + PowerActs \<times> BfsIterator" where
  "seedRegOutputActivities cu net reg sb =
     (case an_cell net reg of
        None \<Rightarrow> Inl NullDeref
      | Some cell \<Rightarrow> res_fold (seed_sequential cu net reg) (ac_sequentials cell) sb)"

section \<open>Passes\<close>

definition max_activity_passes :: nat where
  "max_activity_passes = 100"

text \<open>The register passes: \<open>n\<close> counts those that are left; the visited registers are moved out of the visitor.\<close>

fun activity_passes ::
    "'n Cudd \<Rightarrow> ActNet \<Rightarrow> nat \<Rightarrow> PropVisitor \<Rightarrow> BfsIterator \<Rightarrow> (power_error + PropVisitor \<times> BfsIterator) option" where
  "activity_passes cu net 0 pv b = Some (Inr (pv, b))"
| "activity_passes cu net (Suc n) pv b =
     (let regs = pv_visited_regs pv; pv1 = prop_init (pv\<lparr>pv_visited_regs := []\<rparr>) in
      if regs = [] then Some (Inr (pv, b))
      else case res_fold (seedRegOutputActivities cu net) regs (pv_power pv1, b) of
          Inl e \<Rightarrow> Some (Inl e)
        | Inr (st, b1) \<Rightarrow>
            Option.bind (bfs_visit (lv_max_level (an_levels net)) (prop_visitor cu net) (pv1\<lparr>pv_power := st\<rparr>) b1) (\<lambda>r.
              case r of Inl e \<Rightarrow> Some (Inl e) | Inr (_, pv2, b2) \<Rightarrow> activity_passes cu net n pv2 b2))"

definition propagateActivities :: "'n Cudd \<Rightarrow> ActNet \<Rightarrow> PowerActs \<Rightarrow> (power_error + PropVisitor \<times> BfsIterator) option" where
  "propagateActivities cu net st =
     (case seedActivities net (st\<lparr>pw_acts := Map.empty, pw_seq := Map.empty\<rparr>) (bfs_new BFS_fwd (an_levels net)) of
        Inl e \<Rightarrow> Some (Inl e)
      | Inr (st1, b1) \<Rightarrow>
          Option.bind (bfs_visit (lv_max_level (an_levels net)) (prop_visitor cu net) (prop_new st1) b1) (\<lambda>r.
            case r of Inl e \<Rightarrow> Some (Inl e) | Inr (_, pv, b2) \<Rightarrow> activity_passes cu net (max_activity_passes - 1) pv b2))"

definition ensureActivities :: "'n Cudd \<Rightarrow> ActNet \<Rightarrow> PowerActs \<Rightarrow> (power_error + PowerActs) option" where
  "ensureActivities cu net st =
     (if pa_isSet (pw_global st) \<or> pw_valid st then Some (Inr st)
      else map_option (\<lambda>r. res_bind r (\<lambda>(pv, _). Inr ((pv_power pv)\<lparr>pw_valid := True\<rparr>))) (propagateActivities cu net st))"

section \<open>What a visit computes\<close>

text \<open>The activity that a visit of a vertex gives to its pin, from the current activities; none when it sets nothing.\<close>

definition activity_of :: "PowerActs \<Rightarrow> PinId \<Rightarrow> PwrActivity" where
  "activity_of st pin = (case pw_acts st pin of Some a \<Rightarrow> a | None \<Rightarrow> pa_unknown)"

definition wire_driver :: "ActNet \<Rightarrow> VertexId \<Rightarrow> VertexId option" where
  "wire_driver net v =
     (case tg_in_edges (an_graph net) v of
        [] \<Rightarrow> None
      | e # _ \<Rightarrow> if tr_isWire (te_role (tg_edge (an_graph net) e)) then Some (te_from (tg_edge (an_graph net) e)) else None)"

definition gate_value :: "ActNet \<Rightarrow> InstId \<Rightarrow> PowerActs \<Rightarrow> PwrActivity option" where
  "gate_value net inst st =
     (case clockGatePins net inst of
        Inr (Some enable, Some clk, Some gclk) \<Rightarrow>
          (case (findActivity (an_env net) st clk, findActivity (an_env net) st enable) of
             (Inr activity1, Inr activity2) \<Rightarrow>
               Some (pa_new (pa_activity activity1 * pa_duty activity2 + pa_activity activity2 * pa_duty activity1)
                       (pa_duty activity1 * pa_duty activity2) PO_propagated)
           | _ \<Rightarrow> None)
      | _ \<Rightarrow> None)"

definition pin_value :: "'n Cudd \<Rightarrow> ActNet \<Rightarrow> PowerActs \<Rightarrow> VertexId \<Rightarrow> PwrActivity option" where
  "pin_value cu net st v =
     (let pin = an_pin net v in
      case pw_user st pin of
        Some a \<Rightarrow> Some a
      | None \<Rightarrow>
          if an_is_load net pin then
            map_option (\<lambda>u. (activity_of st (an_pin net u))\<lparr>pa_origin := PO_propagated\<rparr>) (wire_driver net v)
          else if an_is_driver net pin then
            (case an_liberty_port net pin of
               None \<Rightarrow> None
             | Some port \<Rightarrow>
                 if an_function net port \<noteq> FE_null then
                   (case evalActivity cu (an_env net) st (an_function net port) (an_instance net pin) of
                      Inr a \<Rightarrow> Some a | Inl _ \<Rightarrow> None)
                 else if an_gate_out net port then gate_value net (an_instance net pin) st else None)
          else None)"

text \<open>The pin has the activity that its inputs give, up to the tolerance.\<close>

definition settled :: "'n Cudd \<Rightarrow> ActNet \<Rightarrow> PowerActs \<Rightarrow> VertexId \<Rightarrow> bool" where
  "settled cu net st v \<longleftrightarrow>
     (case pin_value cu net st v of None \<Rightarrow> True | Some a \<Rightarrow> \<not> activity_differs a (activity_of st (an_pin net v)))"

text \<open>The pins and the register output that the value of a vertex reads.\<close>

definition link_pins :: "ActNet \<Rightarrow> InstId \<Rightarrow> FuncExpr \<Rightarrow> PinId set" where
  "link_pins net inst e =
     {q. \<exists>p \<in> fe_ports e. en_link_pin (an_env net) inst p = Some q \<and> \<not> en_load_constant (an_env net) q}"

definition gate_inputs :: "ActNet \<Rightarrow> InstId \<Rightarrow> PinId set" where
  "gate_inputs net inst =
     (case clockGatePins net inst of
        Inr (Some enable, Some clk, Some gclk) \<Rightarrow> {q \<in> {enable, clk}. \<not> en_load_constant (an_env net) q} | _ \<Rightarrow> {})"

definition pin_reads :: "ActNet \<Rightarrow> VertexId \<Rightarrow> PinId set" where
  "pin_reads net v =
     (let pin = an_pin net v in
      if an_is_load net pin then (case wire_driver net v of None \<Rightarrow> {} | Some u \<Rightarrow> {an_pin net u})
      else if an_is_driver net pin then
        (case an_liberty_port net pin of
           None \<Rightarrow> {}
         | Some port \<Rightarrow>
             if an_function net port \<noteq> FE_null then link_pins net (an_instance net pin) (an_function net port)
             else if an_gate_out net port then gate_inputs net (an_instance net pin) else {})
      else {})"

definition seq_read :: "ActNet \<Rightarrow> VertexId \<Rightarrow> PortId option" where
  "seq_read net v =
     (case an_liberty_port net (an_pin net v) of
        None \<Rightarrow> None
      | Some port \<Rightarrow> (case fe_port (an_function net port) of
          None \<Rightarrow> None
        | Some p \<Rightarrow> if lp_direction (en_ports (an_env net) p) = PD_internal then Some p else None))"

text \<open>The vertices that a change of the activity of a vertex puts into the queue.\<close>

definition gated_vertices :: "ActNet \<Rightarrow> PinId \<Rightarrow> VertexId list" where
  "gated_vertices net pin =
     (case an_cell net (an_instance net pin) of
        Some cell \<Rightarrow>
          if an_is_load net pin \<and> ac_is_clock_gate cell then
            (case clockGatePins net (an_instance net pin) of
               Inr (_, _, Some gclk) \<Rightarrow> [tg_drvr_vertex (an_graph net) gclk] | _ \<Rightarrow> [])
          else []
      | None \<Rightarrow> [])"

definition fanout :: "ActNet \<Rightarrow> VertexId \<Rightarrow> VertexId list" where
  "fanout net v = bfs_adjacent (an_graph net) (an_levels net) (act_pred net) BFS_fwd level_max v"

definition act_succs :: "ActNet \<Rightarrow> VertexId \<Rightarrow> VertexId list" where
  "act_succs net v = gated_vertices net (an_pin net v) @ fanout net v"

section \<open>Sound netlists\<close>

definition clock_pin_ok :: "PowerEnv \<Rightarrow> PinId \<Rightarrow> bool" where
  "clock_pin_ok env pin \<longleftrightarrow>
     (en_load_clock env pin \<longrightarrow> (\<exists>c d. findClk env pin = Some c \<and> clockDuty (en_clock env) c = Some (Inr d)))"

text \<open>A function that can be evaluated: the output of a register, or ports that are linked to pins.\<close>

definition func_ok :: "nat \<Rightarrow> PowerEnv \<Rightarrow> InstId \<Rightarrow> FuncExpr \<Rightarrow> bool" where
  "func_ok mx env inst e \<longleftrightarrow>
     fe_null_free e \<and> card (fe_ports e) \<le> mx \<and>
     (\<forall>p \<in> fe_ports e. lp_direction (en_ports env p) \<noteq> PD_internal \<and>
        (\<exists>pin. en_link_pin env inst p = Some pin \<and> clock_pin_ok env pin))"

definition driver_ok :: "nat \<Rightarrow> ActNet \<Rightarrow> VertexId \<Rightarrow> bool" where
  "driver_ok mx net v \<longleftrightarrow>
     (case an_liberty_port net (an_pin net v) of
        None \<Rightarrow> True
      | Some port \<Rightarrow>
          (an_function net port \<noteq> FE_null \<longrightarrow>
             \<not> an_is_load net (an_pin net v) \<and> \<not> an_gate_out net port \<and>
             (seq_read net v \<noteq> None \<or> func_ok mx (an_env net) (an_instance net (an_pin net v)) (an_function net port))) \<and>
          (an_gate_out net port \<longrightarrow>
             \<not> an_is_load net (an_pin net v) \<and>
             (\<exists>enable clk. clockGatePins net (an_instance net (an_pin net v)) = Inr (enable, clk, Some (an_pin net v)) \<and>
                (\<forall>q \<in> set_option enable \<union> set_option clk. clock_pin_ok (an_env net) q))))"

definition seq_outputs :: "Sequential \<Rightarrow> PortId option list" where
  "seq_outputs seq = [sq_output seq, sq_output_inv seq]"

definition cell_ok :: "nat \<Rightarrow> ActNet \<Rightarrow> InstId \<Rightarrow> ActCell \<Rightarrow> bool" where
  "cell_ok mx net inst cell \<longleftrightarrow>
     (ac_is_clock_gate cell \<longrightarrow> (\<exists>pins. clockGatePins net inst = Inr pins)) \<and>
     (\<forall>pin \<in> set (en_inst_pins (an_env net) inst).
        tg_drvr_vertex (an_graph net) pin \<in> set (tg_vertices (an_graph net)) \<and>
        an_pin net (tg_drvr_vertex (an_graph net) pin) = pin) \<and>
     (\<forall>seq \<in> set (ac_sequentials cell).
        sq_output seq \<noteq> None \<and> sq_output_inv seq \<noteq> None \<and> func_ok mx (an_env net) inst (sq_data seq)) \<and>
     distinct (concat (map seq_outputs (ac_sequentials cell)))"

text \<open>
  The conditions under which propagation is free of errors: levels within the queue, one vertex for every pin, pins that
  are loads or drivers, one driver for every net, functions that can be evaluated, and a rank that falls along the
  search, which a graph without cycles has.
\<close>

definition net_ok :: "nat \<Rightarrow> (VertexId \<Rightarrow> nat) \<Rightarrow> ActNet \<Rightarrow> bool" where
  "net_ok mx rank net \<longleftrightarrow>
     lv_levels_valid (an_levels net) \<and> 0 \<le> lv_max_level (an_levels net) \<and>
     set (lv_roots (an_levels net)) \<subseteq> set (tg_vertices (an_graph net)) \<and>
     (\<forall>v \<in> set (tg_vertices (an_graph net)).
        0 \<le> lv_level (an_levels net) v \<and> lv_level (an_levels net) v \<le> lv_max_level (an_levels net) \<and>
        tg_drvr_vertex (an_graph net) (an_pin net v) = v \<and>
        \<not> (an_is_load net (an_pin net v) \<and> an_is_driver net (an_pin net v)) \<and>
        driver_ok mx net v \<and>
        (\<forall>w \<in> set (act_succs net v). w \<in> set (tg_vertices (an_graph net)) \<and> rank w < rank v \<and>
           (an_is_load net (an_pin net w) \<longrightarrow> wire_driver net w \<in> {None, Some v}))) \<and>
     (\<forall>inst cell. an_cell net inst = Some cell \<longrightarrow> cell_ok mx net inst cell)"

section \<open>Lemmas: what an evaluation reads\<close>

definition agree_on :: "PinId set \<Rightarrow> PowerActs \<Rightarrow> PowerActs \<Rightarrow> bool" where
  "agree_on P st st' \<longleftrightarrow>
     pw_user st' = pw_user st \<and> pw_global st' = pw_global st \<and> pw_input st' = pw_input st \<and>
     (\<forall>q \<in> P. activity_of st' q = activity_of st q \<and> known_activity st' q = known_activity st q)"

lemma agree_on_subset: "agree_on P st st' \<Longrightarrow> Q \<subseteq> P \<Longrightarrow> agree_on Q st st'"
  by (auto simp: agree_on_def)

lemma findActivity_returns:
  assumes "clock_pin_ok env pin"
  shows "\<exists>a. findActivity env st pin = Inr a"
  using assms by (auto simp: findActivity_def clock_pin_ok_def split: option.splits)

lemma findActivity_agree:
  assumes "agree_on P st st'" "\<not> en_load_constant env q \<Longrightarrow> q \<in> P"
  shows "findActivity env st' q = findActivity env st q"
  using assms by (cases "en_load_constant env q") (simp_all add: findActivity_def agree_on_def)

lemma findSeqActivity_agree:
  assumes "agree_on P st st'" "pw_seq st' (inst, p) = pw_seq st (inst, p)"
  shows "findSeqActivity st' inst p = findSeqActivity st inst p"
  using assms by (simp add: findSeqActivity_def agree_on_def)

text \<open>The evaluation of a sound function returns and depends on the pins of its ports.\<close>

lemma func_activity:
  assumes cu: "cudd_ok cu ev mx" and e: "func_ok mx (an_env net) inst e"
  shows "\<exists>a. evalActivity cu (an_env net) st e inst = Inr a"
    "agree_on (link_pins net inst e) st st' \<Longrightarrow>
     evalActivity cu (an_env net) st' e inst = evalActivity cu (an_env net) st e inst"
proof -
  define act where "act = (\<lambda>p. case en_link_pin (an_env net) inst p of
      None \<Rightarrow> pa_unknown | Some pin \<Rightarrow> (case findActivity (an_env net) st pin of Inr a \<Rightarrow> a | Inl _ \<Rightarrow> pa_unknown))"
  have null: "fe_null_free e" "card (fe_ports e) \<le> mx" using e by (simp_all add: func_ok_def)
  have port: "lp_direction (en_ports (an_env net) p) \<noteq> PD_internal \<and>
      (\<exists>pin. en_link_pin (an_env net) inst p = Some pin \<and> findActivity (an_env net) st pin = Inr (act p))"
    if p: "p \<in> fe_ports e" for p
  proof -
    obtain pin where pin: "en_link_pin (an_env net) inst p = Some pin" "clock_pin_ok (an_env net) pin"
        "lp_direction (en_ports (an_env net) p) \<noteq> PD_internal"
      using e p by (auto simp: func_ok_def)
    obtain a where "findActivity (an_env net) st pin = Inr a" using findActivity_returns [OF pin(2)] by blast
    then show ?thesis using pin by (simp add: act_def)
  qed
  then have known: "\<forall>p \<in> fe_ports e. port_known (an_env net) st inst act p" by (fastforce simp: port_known_def)
  show "\<exists>a. evalActivity cu (an_env net) st e inst = Inr a" using evalActivity_value [OF cu null known] by blast
  assume agree: "agree_on (link_pins net inst e) st st'"
  have known': "\<forall>p \<in> fe_ports e. port_known (an_env net) st' inst act p"
  proof
    fix p assume p: "p \<in> fe_ports e"
    then obtain pin where pin: "en_link_pin (an_env net) inst p = Some pin" "findActivity (an_env net) st pin = Inr (act p)"
        "lp_direction (en_ports (an_env net) p) \<noteq> PD_internal"
      using port by blast
    have "findActivity (an_env net) st' pin = findActivity (an_env net) st pin"
      by (rule findActivity_agree [OF agree]) (use p pin(1) in \<open>auto simp: link_pins_def\<close>)
    then show "port_known (an_env net) st' inst act p" using pin by (simp add: port_known_def)
  qed
  show "evalActivity cu (an_env net) st' e inst = evalActivity cu (an_env net) st e inst"
    using evalActivity_value [OF cu null known] evalActivity_value [OF cu null known'] by simp
qed

lemma seq_read_activity:
  assumes "an_liberty_port net (an_pin net v) = Some port" "seq_read net v = Some p"
  shows "evalActivity cu (an_env net) st (an_function net port) inst = Inr (findSeqActivity st inst p)"
proof -
  have "an_function net port = FE_port p" "lp_direction (en_ports (an_env net) p) = PD_internal"
    using assms by (auto simp: seq_read_def elim: fe_port.elims split: option.splits if_splits)
  then show ?thesis by (simp add: evalActivity_def)
qed

text \<open>The evaluation of the function of a sound driver.\<close>

lemma driver_activity:
  assumes cu: "cudd_ok cu ev mx" and ok: "driver_ok mx net v"
    and port: "an_liberty_port net (an_pin net v) = Some port" "an_function net port \<noteq> FE_null"
  defines "inst \<equiv> an_instance net (an_pin net v)"
  shows "\<exists>a. evalActivity cu (an_env net) st (an_function net port) inst = Inr a"
    "agree_on (link_pins net inst (an_function net port)) st st' \<Longrightarrow>
     (\<And>p. seq_read net v = Some p \<Longrightarrow> pw_seq st' (inst, p) = pw_seq st (inst, p)) \<Longrightarrow>
     evalActivity cu (an_env net) st' (an_function net port) inst = evalActivity cu (an_env net) st (an_function net port) inst"
proof -
  have "seq_read net v \<noteq> None \<or> func_ok mx (an_env net) inst (an_function net port)"
    using ok port by (simp add: driver_ok_def inst_def)
  then show "\<exists>a. evalActivity cu (an_env net) st (an_function net port) inst = Inr a"
    using seq_read_activity [OF port(1)] func_activity(1) [OF cu] by blast
  assume agree: "agree_on (link_pins net inst (an_function net port)) st st'"
    and seq: "\<And>p. seq_read net v = Some p \<Longrightarrow> pw_seq st' (inst, p) = pw_seq st (inst, p)"
  show "evalActivity cu (an_env net) st' (an_function net port) inst = evalActivity cu (an_env net) st (an_function net port) inst"
  proof (cases "seq_read net v")
    case (Some p)
    show ?thesis 
      unfolding seq_read_activity [where cu = cu, OF port(1) Some] findSeqActivity_agree [OF agree seq [OF Some]] ..
  next
    case None
    then have "func_ok mx (an_env net) inst (an_function net port)" using ok port by (simp add: driver_ok_def inst_def)
    then show ?thesis using func_activity(2) [OF cu _ agree] by blast
  qed
qed

lemma gate_value_agree:
  assumes "agree_on (gate_inputs net inst) st st'"
  shows "gate_value net inst st' = gate_value net inst st"
proof (cases "clockGatePins net inst")
  case (Inr pins)
  obtain enable clk gclk where pins: "pins = (enable, clk, gclk)" by (cases pins)
  show ?thesis
  proof (cases "enable = None \<or> clk = None \<or> gclk = None")
    case True
    then show ?thesis by (auto simp: gate_value_def Inr pins split: option.splits)
  next
    case False
    then obtain e c g where some: "enable = Some e" "clk = Some c" "gclk = Some g" by auto
    have "findActivity (an_env net) st' q = findActivity (an_env net) st q" if "q \<in> {e, c}" for q
      by (rule findActivity_agree [OF assms]) (use that in \<open>auto simp: gate_inputs_def Inr pins some\<close>)
    then show ?thesis by (simp add: gate_value_def Inr pins some)
  qed
qed (simp add: gate_value_def)

lemma pin_value_agree:
  assumes cu: "cudd_ok cu ev mx" and ok: "driver_ok mx net v"
    and agree: "agree_on (pin_reads net v) st st'"
    and seq: "\<And>p. seq_read net v = Some p \<Longrightarrow> pw_seq st' (an_instance net (an_pin net v), p) = pw_seq st (an_instance net (an_pin net v), p)"
  shows "pin_value cu net st' v = pin_value cu net st v"
proof -
  define pin where "pin = an_pin net v"
  have user: "pw_user st' = pw_user st" using agree by (simp add: agree_on_def)
  show ?thesis
  proof (cases "pw_user st pin")
    case None
    consider (load) "an_is_load net pin" | (driver) port where "\<not> an_is_load net pin" "an_is_driver net pin" "an_liberty_port net pin = Some port"
      | (none) "\<not> an_is_load net pin" "an_is_driver net pin \<longrightarrow> an_liberty_port net pin = None"
      by (cases "an_is_load net pin"; cases "an_liberty_port net pin"; cases "an_is_driver net pin") auto
    then show ?thesis
    proof cases
      case load
      have "activity_of st' (an_pin net u) = activity_of st (an_pin net u)" if "wire_driver net v = Some u" for u
        using agree load that by (simp add: pin_reads_def agree_on_def pin_def [symmetric])
      then show ?thesis using None load by (cases "wire_driver net v") (simp_all add: pin_value_def user pin_def [symmetric])
    next
      case driver
      show ?thesis
      proof (cases "an_function net port = FE_null")
        case True
        have "gate_value net (an_instance net pin) st' = gate_value net (an_instance net pin) st" if "an_gate_out net port"
          using gate_value_agree agree driver True that by (simp add: pin_reads_def pin_def [symmetric])
        then show ?thesis using None driver True by (simp add: pin_value_def user pin_def [symmetric])
      next
        case False
        have "agree_on (link_pins net (an_instance net pin) (an_function net port)) st st'"
          using agree driver False by (simp add: pin_reads_def pin_def [symmetric])
        then have "evalActivity cu (an_env net) st' (an_function net port) (an_instance net pin) =
            evalActivity cu (an_env net) st (an_function net port) (an_instance net pin)"
          using driver_activity(2) [OF cu ok driver(3) [unfolded pin_def] False] seq by (simp add: pin_def)
        then show ?thesis using None driver False by (simp add: pin_value_def user pin_def [symmetric])
      qed
    next
      case none
      then show ?thesis using None by (cases "an_is_driver net pin") (simp_all add: pin_value_def user pin_def [symmetric])
    qed
  qed (simp add: pin_value_def user pin_def [symmetric])
qed

section \<open>Lemmas: setting an activity\<close>

lemma same_entry:
  assumes "pw_acts st' q = pw_acts st q" "pw_user st' = pw_user st"
  shows "activity_of st' q = activity_of st q" "known_activity st' q = known_activity st q"
  using assms by (cases "pw_acts st q"; simp add: activity_of_def known_activity_def)+

lemma activity_ref_fields:
  "activity_ref pin st = (a, st') \<Longrightarrow> a = activity_of st pin \<and>
     st' = (if pw_acts st pin = None then setActivity pin pa_unknown st else st)"
  by (auto simp: activity_ref_def activity_of_def split: option.splits)

lemma setActivityCheck_spec:
  assumes "setActivityCheck pin a pv = (c, pv')"
    and user: "pw_user (pv_power pv) pin = None \<or> pw_user (pv_power pv) pin = Some a"
  shows "c \<longleftrightarrow> activity_differs a (activity_of (pv_power pv) pin)"
    "agree_on (- {pin}) (pv_power pv) (pv_power pv')"
    "\<not> c \<Longrightarrow> agree_on UNIV (pv_power pv) (pv_power pv')"
    "\<not> activity_differs a (activity_of (pv_power pv') pin)"
    "pw_seq (pv_power pv') = pw_seq (pv_power pv)" "pv_visited_regs pv' = pv_visited_regs pv"
    "pw_acts (pv_power pv') q \<noteq> None \<longleftrightarrow> q = pin \<or> pw_acts (pv_power pv) q \<noteq> None"
proof -
  define st where "st = pv_power pv"
  define st0 where "st0 = (if pw_acts st pin = None then setActivity pin pa_unknown st else st)"
  have ref: "activity_ref pin st = (activity_of st pin, st0)"
    by (simp add: activity_ref_def activity_of_def st0_def split: option.splits)
  have c: "c \<longleftrightarrow> activity_differs a (activity_of st pin)"
    and st': "pv_power pv' = (if c then setActivity pin a st0 else st0)"
    and rest: "pv_visited_regs pv' = pv_visited_regs pv"
    using assms(1) by (auto simp: setActivityCheck_def st_def [symmetric] ref Let_def split: if_splits)
  have fields: "pw_user st0 = pw_user st" "pw_global st0 = pw_global st" "pw_seq st0 = pw_seq st" "pw_input st0 = pw_input st"
    by (simp_all add: st0_def setActivity_def)
  have other: "pw_acts st0 q = pw_acts st q" if "q \<noteq> pin" for q using that by (simp add: st0_def setActivity_def)
  have at: "activity_of st0 pin = activity_of st pin" by (auto simp: st0_def activity_of_def setActivity_def split: option.splits)
  show "c \<longleftrightarrow> activity_differs a (activity_of (pv_power pv) pin)" using c by (simp add: st_def)
  show "agree_on (- {pin}) (pv_power pv) (pv_power pv')"
    unfolding agree_on_def st' st_def [symmetric]
  proof (intro conjI ballI)
    fix q assume "q \<in> - {pin}"
    then have "pw_acts (if c then setActivity pin a st0 else st0) q = pw_acts st q" using other by (simp add: setActivity_def)
    moreover have "pw_user (if c then setActivity pin a st0 else st0) = pw_user st" by (simp add: setActivity_def fields)
    ultimately show "activity_of (if c then setActivity pin a st0 else st0) q = activity_of st q"
      "known_activity (if c then setActivity pin a st0 else st0) q = known_activity st q"
      by (rule same_entry)+
  qed (simp_all add: setActivity_def fields)
  show "pw_seq (pv_power pv') = pw_seq (pv_power pv)" by (simp add: st' fields setActivity_def st_def)
  show "pv_visited_regs pv' = pv_visited_regs pv" using rest .
  show "pw_acts (pv_power pv') q \<noteq> None \<longleftrightarrow> q = pin \<or> pw_acts (pv_power pv) q \<noteq> None"
    by (auto simp: st' st0_def setActivity_def st_def)
  have self: "\<not> activity_differs a a" by (simp add: activity_differs_def change_tolerance_def)
  show "\<not> activity_differs a (activity_of (pv_power pv') pin)"
    using self c at by (simp add: st' activity_of_def setActivity_def)
  assume no: "\<not> c"
  have "known_activity st0 pin = known_activity st pin"
  proof (cases "pw_acts st pin")
    case None
    then have "pa_origin a = PO_unknown"
      using no c by (simp add: activity_of_def activity_differs_def pa_unknown_def)
    then show ?thesis using None user
      by (auto simp: known_activity_def st0_def setActivity_def pa_isSet_def pa_unknown_def st_def [symmetric])
  qed (simp add: st0_def)
  then show "agree_on UNIV (pv_power pv) (pv_power pv')"
    unfolding agree_on_def st' st_def [symmetric] if_not_P [OF no]
    using at same_entry [OF other fields(1)] fields by (metis (full_types))
qed

section \<open>Lemmas: a visit\<close>

text \<open>A visit of a sound vertex sets the value of its pin, and nothing else.\<close>

lemma visit_gate:
  assumes ok: "driver_ok mx net v" and port: "an_liberty_port net (an_pin net v) = Some port" "an_gate_out net port"
  shows "visit_clock_gate net (an_instance net (an_pin net v)) (False, pv) =
    Inr (case gate_value net (an_instance net (an_pin net v)) (pv_power pv) of
           None \<Rightarrow> (False, pv) | Some a \<Rightarrow> setActivityCheck (an_pin net v) a pv)"
proof -
  define inst where "inst = an_instance net (an_pin net v)"
  obtain enable clk where pins: "clockGatePins net inst = Inr (enable, clk, Some (an_pin net v))"
      "\<forall>q \<in> set_option enable \<union> set_option clk. clock_pin_ok (an_env net) q"
    using ok port by (auto simp: driver_ok_def inst_def)
  show ?thesis
  proof (cases "enable = None \<or> clk = None")
    case True
    then show ?thesis unfolding inst_def [symmetric]
      by (auto simp: visit_clock_gate_def gate_value_def pins(1) split: option.splits)
  next
    case False
    then obtain e c where some: "enable = Some e" "clk = Some c" by auto
    obtain a1 where a1: "findActivity (an_env net) (pv_power pv) c = Inr a1" using findActivity_returns pins(2) some by fastforce
    obtain a2 where a2: "findActivity (an_env net) (pv_power pv) e = Inr a2" using findActivity_returns pins(2) some by fastforce
    show ?thesis unfolding inst_def [symmetric]
      by (simp add: visit_clock_gate_def gate_value_def pins(1) some a1 a2 Let_def)
  qed
qed

lemma visit_pin_value:
  assumes cu: "cudd_ok cu ev mx" and ok: "driver_ok mx net v" and one: "\<not> (an_is_load net (an_pin net v) \<and> an_is_driver net (an_pin net v))"
    and wire: "\<And>u. an_is_load net (an_pin net v) \<Longrightarrow> wire_driver net v = Some u \<Longrightarrow> pw_acts (pv_power pv) (an_pin net u) \<noteq> None"
  shows "visit_pin cu net v pv =
    Inr (case pin_value cu net (pv_power pv) v of None \<Rightarrow> (False, pv) | Some a \<Rightarrow> setActivityCheck (an_pin net v) a pv)"
proof -
  define pin where "pin = an_pin net v"
  show ?thesis
  proof (cases "pw_user (pv_power pv) pin")
    case None
    consider (load) "an_is_load net pin" "\<not> an_is_driver net pin"
      | (driver) port where "\<not> an_is_load net pin" "an_is_driver net pin" "an_liberty_port net pin = Some port"
      | (none) "\<not> an_is_load net pin" "an_is_driver net pin \<longrightarrow> an_liberty_port net pin = None"
      using one by (cases "an_is_load net pin"; cases "an_liberty_port net pin"; cases "an_is_driver net pin") (auto simp: pin_def)
    then show ?thesis
    proof cases
      case load
      have "visit_wire net v pv = (case wire_driver net v of
          None \<Rightarrow> (False, pv)
        | Some u \<Rightarrow> setActivityCheck pin ((activity_of (pv_power pv) (an_pin net u))\<lparr>pa_origin := PO_propagated\<rparr>) pv)"
      proof (cases "wire_driver net v")
        case None
        then show ?thesis by (auto simp: visit_wire_def wire_driver_def split: list.splits if_splits)
      next
        case (Some u)
        then obtain e es where e: "tg_in_edges (an_graph net) v = e # es" "tr_isWire (te_role (tg_edge (an_graph net) e))"
            "u = te_from (tg_edge (an_graph net) e)"
          by (auto simp: wire_driver_def split: list.splits if_splits)
        have "activity_ref (an_pin net u) (pv_power pv) = (activity_of (pv_power pv) (an_pin net u), pv_power pv)"
          using wire [of u] load(1) Some by (auto simp: activity_ref_def activity_of_def pin_def split: option.splits)
        then show ?thesis using Some e by (simp add: visit_wire_def Let_def pin_def)
      qed
      then show ?thesis using None load
        by (cases "wire_driver net v") (simp_all add: visit_pin_def pin_value_def pin_def [symmetric] Let_def)
    next
      case driver
      show ?thesis
      proof (cases "an_function net port = FE_null")
        case True
        then show ?thesis using None driver visit_gate [OF ok driver(3) [unfolded pin_def]]
          by (simp add: visit_pin_def visit_driver_def pin_value_def pin_def [symmetric] Let_def)
      next
        case False
        have "\<not> an_gate_out net port" using ok driver False by (simp add: driver_ok_def pin_def)
        moreover obtain a where "evalActivity cu (an_env net) (pv_power pv) (an_function net port) (an_instance net pin) = Inr a"
          using driver_activity(1) [OF cu ok driver(3) [unfolded pin_def] False] by (auto simp: pin_def)
        ultimately show ?thesis using None driver False
          by (simp add: visit_pin_def visit_driver_def pin_value_def pin_def [symmetric] Let_def)
      qed
    next
      case none
      then show ?thesis using None
        by (cases "an_is_driver net pin") (simp_all add: visit_pin_def visit_driver_def pin_value_def pin_def [symmetric] Let_def)
    qed
  qed (simp add: visit_pin_def pin_value_def pin_def [symmetric] Let_def)
qed

lemma pin_value_user:
  "pin_value cu net st v = Some a \<Longrightarrow> pw_user st (an_pin net v) = None \<or> pw_user st (an_pin net v) = Some a"
  by (cases "pw_user st (an_pin net v)") (simp_all add: pin_value_def Let_def)

section \<open>Lemmas: the invariant of propagation\<close>

definition vertices :: "ActNet \<Rightarrow> VertexId set" where
  "vertices net = set (tg_vertices (an_graph net))"

definition roots :: "ActNet \<Rightarrow> VertexId set" where
  "roots net = set (lv_roots (an_levels net))"

text \<open>Every pin that the value of a vertex reads leads to the vertex in the search.\<close>

definition reads_covered :: "ActNet \<Rightarrow> VertexId \<Rightarrow> bool" where
  "reads_covered net v \<longleftrightarrow>
     (\<forall>q \<in> pin_reads net v. \<exists>u \<in> vertices net. an_pin net u = q \<and> v \<in> set (act_succs net u) \<and>
        (u \<in> roots net \<longrightarrow> v \<in> set (fanout net u))) \<and>
     (seq_read net v \<noteq> None \<longrightarrow> an_pin net v \<in> set (en_inst_pins (an_env net) (an_instance net (an_pin net v))))"

definition reads_set :: "ActNet \<Rightarrow> PowerActs \<Rightarrow> VertexId \<Rightarrow> bool" where
  "reads_set net st v \<longleftrightarrow>
     (\<exists>q \<in> pin_reads net v. pa_isSet (activity_of st q)) \<or>
     (\<exists>p. seq_read net v = Some p \<and> pw_seq st (an_instance net (an_pin net v), p) \<noteq> None)"

text \<open>A root that the search does not enter has the activity of its user or the default of the inputs.\<close>

definition seed_value :: "PowerActs \<Rightarrow> PinId \<Rightarrow> PwrActivity" where
  "seed_value st pin = (case pw_user st pin of Some a \<Rightarrow> a | None \<Rightarrow> pw_input st)"

definition input_root :: "ActNet \<Rightarrow> VertexId \<Rightarrow> bool" where
  "input_root net v \<longleftrightarrow>
     v \<in> roots net \<and> \<not> an_is_internal net (an_pin net v) \<and> (\<forall>u \<in> vertices net. v \<notin> set (act_succs net u)) \<and>
     (case an_liberty_port net (an_pin net v) of None \<Rightarrow> True | Some port \<Rightarrow> an_function net port = FE_null)"

definition root_inv :: "ActNet \<Rightarrow> PowerActs \<Rightarrow> PowerActs \<Rightarrow> VertexId set \<Rightarrow> bool" where
  "root_inv net s0 st R \<longleftrightarrow>
     pw_user st = pw_user s0 \<and> pw_input st = pw_input s0 \<and>
     (\<forall>v \<in> R. input_root net v \<longrightarrow> activity_of st (an_pin net v) = seed_value s0 (an_pin net v))"

definition prop_inv :: "'n Cudd \<Rightarrow> ActNet \<Rightarrow> PowerActs \<Rightarrow> VertexId set \<Rightarrow> bool" where
  "prop_inv cu net st Q \<longleftrightarrow>
     (\<forall>v \<in> vertices net - roots net. reads_covered net v \<longrightarrow> reads_set net st v \<longrightarrow> v \<in> Q \<or> settled cu net st v) \<and>
     (\<forall>v \<in> Q. \<forall>u. an_is_load net (an_pin net v) \<longrightarrow> wire_driver net v = Some u \<longrightarrow> pw_acts st (an_pin net u) \<noteq> None) \<and>
     (\<forall>v \<in> Q. \<not> input_root net v)"

text \<open>The registers: the outputs have the value that the data gives.\<close>

definition reg_value :: "'n Cudd \<Rightarrow> ActNet \<Rightarrow> PowerActs \<Rightarrow> InstId \<Rightarrow> Sequential \<Rightarrow> bool \<Rightarrow> PwrActivity option" where
  "reg_value cu net st inst seq invert =
     (case evalActivity cu (an_env net) st (sq_data seq) inst of Inr a \<Rightarrow> Some (reg_activity seq invert a) | Inl _ \<Rightarrow> None)"

definition user_output :: "ActNet \<Rightarrow> PowerActs \<Rightarrow> InstId \<Rightarrow> PortId \<Rightarrow> bool" where
  "user_output net st inst p \<longleftrightarrow> (case an_find_pin net inst p of None \<Rightarrow> False | Some q \<Rightarrow> hasUserActivity st q)"

definition reg_settled :: "'n Cudd \<Rightarrow> ActNet \<Rightarrow> PowerActs \<Rightarrow> InstId \<Rightarrow> Sequential \<Rightarrow> bool" where
  "reg_settled cu net st inst seq \<longleftrightarrow>
     (\<forall>(port, invert) \<in> {(sq_output seq, False), (sq_output_inv seq, True)}. \<forall>p. port = Some p \<longrightarrow>
        \<not> user_output net st inst p \<longrightarrow> pw_seq st (inst, p) = reg_value cu net st inst seq invert)"

definition data_covered :: "ActNet \<Rightarrow> InstId \<Rightarrow> Sequential \<Rightarrow> bool" where
  "data_covered net inst seq \<longleftrightarrow>
     (\<forall>q \<in> link_pins net inst (sq_data seq). an_is_load net q \<and> an_instance net q = inst)"

definition data_set :: "ActNet \<Rightarrow> PowerActs \<Rightarrow> InstId \<Rightarrow> Sequential \<Rightarrow> bool" where
  "data_set net st inst seq \<longleftrightarrow>
     (\<exists>v \<in> vertices net - roots net. an_pin net v \<in> link_pins net inst (sq_data seq) \<and> pa_isSet (activity_of st (an_pin net v)))"

definition reg_inv :: "'n Cudd \<Rightarrow> ActNet \<Rightarrow> PowerActs \<Rightarrow> InstId set \<Rightarrow> bool" where
  "reg_inv cu net st R \<longleftrightarrow>
     (\<forall>inst cell. \<forall>seq \<in> set (ac_sequentials cell). an_cell net inst = Some cell \<longrightarrow> data_covered net inst seq \<longrightarrow>
        data_set net st inst seq \<longrightarrow> inst \<in> R \<or> reg_settled cu net st inst seq) \<and>
     (\<forall>inst \<in> R. an_cell net inst \<noteq> None)"

text \<open>The vertices of a sound netlist; none of any other, so that facts about them need no further hypothesis.\<close>

definition sound_vertices :: "'n Cudd \<Rightarrow> ('n \<Rightarrow> (nat \<Rightarrow> bool) \<Rightarrow> bool) \<Rightarrow> nat \<Rightarrow> (VertexId \<Rightarrow> nat) \<Rightarrow> ActNet \<Rightarrow> VertexId set" where
  "sound_vertices cu ev mx rank net = (if cudd_ok cu ev mx \<and> net_ok mx rank net then vertices net else {})"

lemma sound_vertex:
  assumes "v \<in> sound_vertices cu ev mx rank net"
  shows "cudd_ok cu ev mx" "net_ok mx rank net" "v \<in> vertices net" "sound_vertices cu ev mx rank net = vertices net"
  using assms by (simp_all add: sound_vertices_def split: if_splits)

lemma net_vertex:
  assumes "net_ok mx rank net" "v \<in> vertices net"
  shows "0 \<le> lv_level (an_levels net) v" "lv_level (an_levels net) v \<le> lv_max_level (an_levels net)"
    "tg_drvr_vertex (an_graph net) (an_pin net v) = v" "\<not> (an_is_load net (an_pin net v) \<and> an_is_driver net (an_pin net v))"
    "driver_ok mx net v"
    "w \<in> set (act_succs net v) \<Longrightarrow> w \<in> vertices net \<and> rank w < rank v"
    "w \<in> set (act_succs net v) \<Longrightarrow> an_is_load net (an_pin net w) \<Longrightarrow> wire_driver net w = Some u \<Longrightarrow> u = v"
proof -
  have "w \<in> set (act_succs net v) \<Longrightarrow> an_is_load net (an_pin net w) \<Longrightarrow> wire_driver net w \<in> {None, Some v}"
    using assms by (auto simp: net_ok_def vertices_def)
  then show "w \<in> set (act_succs net v) \<Longrightarrow> an_is_load net (an_pin net w) \<Longrightarrow> wire_driver net w = Some u \<Longrightarrow> u = v"
    by auto
qed (use assms in \<open>auto simp: net_ok_def vertices_def\<close>)

lemma net_cell:
  assumes "net_ok mx rank net" "an_cell net inst = Some cell"
  shows "cell_ok mx net inst cell"
  using assms by (simp add: net_ok_def)

lemma pin_vertex: "net_ok mx rank net \<Longrightarrow> u \<in> vertices net \<Longrightarrow> v \<in> vertices net \<Longrightarrow> an_pin net u = an_pin net v \<longleftrightarrow> u = v"
  using net_vertex(3) by metis

lemma own_pin_not_read:
  assumes "net_ok mx rank net" "v \<in> vertices net" "reads_covered net v"
  shows "an_pin net v \<notin> pin_reads net v"
proof
  assume "an_pin net v \<in> pin_reads net v"
  then obtain u where "u \<in> vertices net" "an_pin net u = an_pin net v" "v \<in> set (act_succs net u)"
    using assms(3) by (auto simp: reads_covered_def)
  then show False using net_vertex(6) [OF assms(1), of u v] pin_vertex [OF assms(1) _ assms(2)] by auto
qed

lemma settled_agree:
  assumes cu: "cudd_ok cu ev mx" and ok: "driver_ok mx net v"
    and agree: "agree_on (insert (an_pin net v) (pin_reads net v)) st st'"
    and seq: "\<And>p. seq_read net v = Some p \<Longrightarrow> pw_seq st' (an_instance net (an_pin net v), p) = pw_seq st (an_instance net (an_pin net v), p)"
  shows "settled cu net st' v = settled cu net st v" "reads_set net st' v = reads_set net st v"
proof -
  have "agree_on (pin_reads net v) st st'" by (rule agree_on_subset [OF agree]) auto
  then have "pin_value cu net st' v = pin_value cu net st v" using seq by (rule pin_value_agree [OF cu ok])
  then show "settled cu net st' v = settled cu net st v" 
    using agree by (cases "pin_value cu net st v") (simp_all add: settled_def agree_on_def)
  show "reads_set net st' v = reads_set net st v" using agree seq by (auto simp: reads_set_def agree_on_def)
qed

text \<open>
  A change of the activity of one pin keeps the invariant when the vertices that read it are put into the queue; no
  vertex needs to be when nothing has changed.
\<close>

lemma change_pin:
  assumes cu: "cudd_ok cu ev mx" and net: "net_ok mx rank net" and v: "v \<in> vertices net"
    and inv: "prop_inv cu net st Q \<or> prop_inv cu net st (insert v Q)"
    and agree: "agree_on (- {an_pin net v}) st st'" and seq: "pw_seq st' = pw_seq st"
    and mono: "\<And>q. pw_acts st q \<noteq> None \<Longrightarrow> pw_acts st' q \<noteq> None"
    and self: "v \<notin> roots net \<Longrightarrow> reads_covered net v \<Longrightarrow> settled cu net st' v"
    and ws: "set ws \<subseteq> set (act_succs net v)" "ws \<noteq> [] \<Longrightarrow> pw_acts st' (an_pin net v) \<noteq> None"
    and readers: "\<And>w. w \<in> vertices net - roots net \<Longrightarrow> reads_covered net w \<Longrightarrow> an_pin net v \<in> pin_reads net w \<Longrightarrow>
      w \<in> set ws \<or> agree_on UNIV st st'"
  shows "prop_inv cu net st' (Q \<union> set ws)"
  unfolding prop_inv_def
proof (intro conjI ballI allI impI)
  fix w assume w: "w \<in> vertices net - roots net" "reads_covered net w" "reads_set net st' w"
  show "w \<in> Q \<union> set ws \<or> settled cu net st' w"
  proof (cases "w = v \<or> w \<in> set ws")
    case True
    then show ?thesis using self w by auto
  next
    case False
    have "an_pin net w \<noteq> an_pin net v" using pin_vertex [OF net _ v] w(1) False by auto
    then have "insert (an_pin net w) (pin_reads net w) \<subseteq> - {an_pin net v} \<or> agree_on UNIV st st'"
      using readers [OF w(1,2)] False by auto
    then have "agree_on (insert (an_pin net w) (pin_reads net w)) st st'"
      using agree_on_subset agree by blast
    note same = settled_agree [OF cu net_vertex(5) [OF net, of w] this]
    show ?thesis using inv w False same by (auto simp: seq prop_inv_def)
  qed
next
  fix w u assume w: "w \<in> Q \<union> set ws" "an_is_load net (an_pin net w)" "wire_driver net w = Some u"
  show "pw_acts st' (an_pin net u) \<noteq> None"
  proof (cases "w \<in> Q")
    case True
    then show ?thesis using inv w mono by (auto simp: prop_inv_def)
  next
    case False
    then have "w \<in> set (act_succs net v)" "ws \<noteq> []" using w(1) ws(1) by auto
    then show ?thesis using net_vertex(7) [OF net v _ w(2,3)] ws(2) by simp
  qed
next
  fix w assume "w \<in> Q \<union> set ws"
  then show "\<not> input_root net w" using inv ws(1) v by (auto simp: prop_inv_def input_root_def)
qed

lemma seed_value_same: "pw_user st' = pw_user st \<Longrightarrow> pw_input st' = pw_input st \<Longrightarrow> seed_value st' q = seed_value st q"
  by (cases "pw_user st q") (simp_all add: seed_value_def)

lemma change_root:
  assumes "net_ok mx rank net" "v \<in> vertices net" "\<not> input_root net v" "agree_on (- {an_pin net v}) st st'"
    and "root_inv net s0 st (roots net)"
  shows "root_inv net s0 st' (roots net)"
proof -
  have "an_pin net r \<noteq> an_pin net v" if "input_root net r" for r
    using that pin_vertex [OF assms(1) _ assms(2), of r] assms(1,3) by (auto simp: input_root_def roots_def vertices_def net_ok_def)
  then show ?thesis using assms(4,5) by (auto simp: root_inv_def agree_on_def)
qed

lemma reg_agree:
  assumes cu: "cudd_ok cu ev mx" and f: "func_ok mx (an_env net) inst (sq_data seq)"
    and agree: "agree_on (link_pins net inst (sq_data seq)) st st'"
    and seq: "\<And>p. Some p \<in> {sq_output seq, sq_output_inv seq} \<Longrightarrow> pw_seq st' (inst, p) = pw_seq st (inst, p)"
  shows "reg_settled cu net st' inst seq = reg_settled cu net st inst seq"
proof -
  have "reg_value cu net st' inst seq i = reg_value cu net st inst seq i" for i
    by (simp add: reg_value_def func_activity(2) [OF cu f agree])
  moreover have "user_output net st' inst p = user_output net st inst p" for p
    using agree by (simp add: user_output_def hasUserActivity_def agree_on_def split: option.splits)
  ultimately show ?thesis using seq by (auto simp: reg_settled_def)
qed

lemma data_set_agree:
  assumes "agree_on (link_pins net inst (sq_data seq)) st st'"
  shows "data_set net st' inst seq = data_set net st inst seq"
  using assms by (auto simp: data_set_def agree_on_def)

lemma mark_register_fields [simp]:
  "pv_power (mark_register net pin pv) = pv_power pv"
  by (simp add: mark_register_def list_insert_reg_def split: option.splits)

lemma mark_register_regs:
  "set (pv_visited_regs (mark_register net pin pv)) = set (pv_visited_regs pv) \<union>
     (case an_cell net (an_instance net pin) of
        Some cell \<Rightarrow> if an_is_load net pin \<and> hasSequentials cell then {an_instance net pin} else {}
      | None \<Rightarrow> {})"
  by (auto simp: mark_register_def list_insert_reg_def split: option.splits)

lemma seq_data_ok:
  assumes "net_ok mx rank net" "an_cell net inst = Some cell" "seq \<in> set (ac_sequentials cell)"
  shows "func_ok mx (an_env net) inst (sq_data seq)"
  using net_cell [OF assms(1,2)] assms(3) by (simp add: cell_ok_def)

text \<open>A change of a pin keeps the invariant of the registers when the register of a load is marked.\<close>

lemma change_reg_pin:
  assumes cu: "cudd_ok cu ev mx" and net: "net_ok mx rank net" and v: "v \<in> vertices net"
    and inv: "reg_inv cu net st R"
    and agree: "agree_on (- {an_pin net v}) st st'" and seq: "pw_seq st' = pw_seq st"
    and R: "R \<subseteq> R'" "\<forall>inst \<in> R'. an_cell net inst \<noteq> None"
    and marked: "\<And>cell. an_cell net (an_instance net (an_pin net v)) = Some cell \<Longrightarrow> hasSequentials cell \<Longrightarrow>
      an_is_load net (an_pin net v) \<Longrightarrow> an_instance net (an_pin net v) \<in> R' \<or> agree_on UNIV st st'"
  shows "reg_inv cu net st' R'"
  unfolding reg_inv_def
proof (intro conjI ballI allI impI)
  fix inst cell seq
  assume s: "seq \<in> set (ac_sequentials cell)" "an_cell net inst = Some cell" "data_covered net inst seq" "data_set net st' inst seq"
  show "inst \<in> R' \<or> reg_settled cu net st' inst seq"
  proof (cases "inst \<in> R'")
    case False
    have "hasSequentials cell" using s(1) by (auto simp: hasSequentials_def)
    then have "an_pin net v \<notin> link_pins net inst (sq_data seq) \<or> agree_on UNIV st st'"
      using marked [of cell] s False by (auto simp: data_covered_def)
    then have agree': "agree_on (link_pins net inst (sq_data seq)) st st'"
      using agree_on_subset agree by blast
    have "data_set net st inst seq" using s(4) data_set_agree [OF agree'] by simp
    then have "reg_settled cu net st inst seq" using inv s False R(1) by (auto simp: reg_inv_def)
    then show ?thesis using reg_agree [OF cu seq_data_ok [OF net s(2,1)] agree'] by (simp add: seq)
  qed simp
qed (use R(2) in auto)

lemma agree_on_refl [simp]: "agree_on P st st"
  by (simp add: agree_on_def)

lemma visit_pin_effect:
  assumes cu: "cudd_ok cu ev mx" and net: "net_ok mx rank net" and v: "v \<in> vertices net"
    and inv: "prop_inv cu net (pv_power pv) (insert v Q)"
  shows "\<exists>c pv1. visit_pin cu net v pv = Inr (c, pv1) \<and> agree_on (- {an_pin net v}) (pv_power pv) (pv_power pv1) \<and>
    (\<not> c \<longrightarrow> agree_on UNIV (pv_power pv) (pv_power pv1)) \<and> (c \<longrightarrow> pw_acts (pv_power pv1) (an_pin net v) \<noteq> None) \<and>
    pw_seq (pv_power pv1) = pw_seq (pv_power pv) \<and> pv_visited_regs pv1 = pv_visited_regs pv \<and>
    (\<forall>q. pw_acts (pv_power pv) q \<noteq> None \<longrightarrow> pw_acts (pv_power pv1) q \<noteq> None) \<and>
    (reads_covered net v \<longrightarrow> settled cu net (pv_power pv1) v)"
proof -
  have "pw_acts (pv_power pv) (an_pin net u) \<noteq> None" if "an_is_load net (an_pin net v)" "wire_driver net v = Some u" for u
    using inv that by (simp add: prop_inv_def)
  note vis = visit_pin_value [OF cu net_vertex(5,4) [OF net v] this]
  show ?thesis
  proof (cases "pin_value cu net (pv_power pv) v")
    case None
    then show ?thesis using vis by (intro exI [of _ False] exI [of _ pv]) (simp add: settled_def)
  next
    case (Some a)
    obtain c pv1 where set: "setActivityCheck (an_pin net v) a pv = (c, pv1)" by fastforce
    note spec = setActivityCheck_spec [OF set pin_value_user [OF Some]]
    have "settled cu net (pv_power pv1) v" if "reads_covered net v"
    proof -
      have "agree_on (pin_reads net v) (pv_power pv) (pv_power pv1)"
        by (rule agree_on_subset [OF spec(2)]) (use own_pin_not_read [OF net v that] in auto)
      then have "pin_value cu net (pv_power pv1) v = pin_value cu net (pv_power pv) v"
        by (rule pin_value_agree [OF cu net_vertex(5) [OF net v]]) (simp add: spec(5))
      then show ?thesis using Some spec(4) by (simp add: settled_def)
    qed
    then show ?thesis using vis Some set spec by auto
  qed
qed

lemma enqueue_fanout:
  "bf_direction b = BFS_fwd \<Longrightarrow> bf_level_max b = level_max \<Longrightarrow>
   bfs_enqueueAdjacent (an_graph net) (an_levels net) (act_pred net) v b = bfs_enqueueAll (an_levels net) (fanout net v) b"
  by (simp add: bfs_enqueueAdjacent_def bfs_enqueueAdjacentTo_def fanout_def)

lemma enqueue_succs:
  assumes net: "net_ok mx rank net" and shape: "same_shape (bfs_new BFS_fwd (an_levels net)) b"
  shows "res_bind (enqueue_gated_clock net (an_pin net v) b) (\<lambda>b1.
      bfs_enqueueAdjacent (an_graph net) (an_levels net) (act_pred net) v b1) = bfs_enqueueAll (an_levels net) (act_succs net v) b"
proof -
  have gate: "enqueue_gated_clock net (an_pin net v) b = bfs_enqueueAll (an_levels net) (gated_vertices net (an_pin net v)) b"
  proof (cases "an_cell net (an_instance net (an_pin net v))")
    case (Some cell)
    have "\<exists>pins. clockGatePins net (an_instance net (an_pin net v)) = Inr pins" if "ac_is_clock_gate cell"
      using net_cell [OF net Some] that by (simp add: cell_ok_def)
    then show ?thesis using Some
      by (auto simp: enqueue_gated_clock_def gated_vertices_def bfs_enqueueAll_def res_bind_def split: option.splits sum.splits)
  qed (simp add: enqueue_gated_clock_def gated_vertices_def bfs_enqueueAll_def)
  have lv: "lv_levels_valid (an_levels net)" "0 \<le> lv_max_level (an_levels net)" using net by (simp_all add: net_ok_def)
  note adj = enqueue_fanout
  have keep: "bf_direction b1 = bf_direction b \<and> bf_level_max b1 = bf_level_max b"
    if "bfs_enqueueAll (an_levels net) ws b = Inr b1" for ws b1
  proof (rule res_fold_invariant [where I = "\<lambda>b1. bf_direction b1 = bf_direction b \<and> bf_level_max b1 = bf_level_max b"])
    show "res_fold (bfs_enqueue (an_levels net)) ws b = Inr b1" using that by (simp add: bfs_enqueueAll_def)
  qed (auto simp: bfs_enqueue_def bfs_push_def split: if_splits)
  have dir: "bf_direction b = BFS_fwd" "bf_level_max b = level_max"
    using shape bfs_new_ok(4,5) [OF lv] by (simp_all add: same_shape_def)
  show ?thesis unfolding act_succs_def bfs_enqueueAll_append gate
    by (cases "bfs_enqueueAll (an_levels net) (gated_vertices net (an_pin net v)) b") (auto simp: adj keep dir)
qed

lemma prop_visit_step:
  assumes cu: "cudd_ok cu ev mx" and net: "net_ok mx rank net" and v: "v \<in> vertices net"
    and shape: "same_shape (bfs_new BFS_fwd (an_levels net)) b"
    and inv: "prop_inv cu net (pv_power pv) (insert v Q)" and regs: "reg_inv cu net (pv_power pv) (set (pv_visited_regs pv))"
    and root: "root_inv net s0 (pv_power pv) (roots net)"
  shows "\<exists>ws pv'. set ws \<subseteq> vertices net \<and> (\<forall>w \<in> set ws. rank w < rank v) \<and>
    (prop_inv cu net (pv_power pv') (Q \<union> set ws) \<and> reg_inv cu net (pv_power pv') (set (pv_visited_regs pv')) \<and>
     root_inv net s0 (pv_power pv') (roots net)) \<and>
    prop_visit cu net v pv b = res_bind (bfs_enqueueAll (an_levels net) ws b) (\<lambda>b'. Inr (pv', b'))"
proof -
  obtain c pv1 where visit: "visit_pin cu net v pv = Inr (c, pv1)"
    and agree: "agree_on (- {an_pin net v}) (pv_power pv) (pv_power pv1)" "\<not> c \<Longrightarrow> agree_on UNIV (pv_power pv) (pv_power pv1)"
    and acts: "c \<Longrightarrow> pw_acts (pv_power pv1) (an_pin net v) \<noteq> None"
      "\<And>q. pw_acts (pv_power pv) q \<noteq> None \<Longrightarrow> pw_acts (pv_power pv1) q \<noteq> None"
    and seq: "pw_seq (pv_power pv1) = pw_seq (pv_power pv)" "pv_visited_regs pv1 = pv_visited_regs pv"
    and self: "reads_covered net v \<Longrightarrow> settled cu net (pv_power pv1) v"
    using visit_pin_effect [OF cu net v inv] by blast
  define ws where "ws = (if c then act_succs net v else [])"
  define pv' where "pv' = (if c then mark_register net (an_pin net v) pv1 else pv1)"
  have power: "pv_power pv' = pv_power pv1" by (simp add: pv'_def)
  have ws: "set ws \<subseteq> set (act_succs net v)" "set ws \<subseteq> vertices net" "\<forall>w \<in> set ws. rank w < rank v"
    using net_vertex(6) [OF net v] by (auto simp: ws_def)
  have "prop_inv cu net (pv_power pv1) (Q \<union> set ws)"
  proof (rule change_pin [OF cu net v disjI2 [OF inv] agree(1) seq(1) acts(2) self ws(1)])
    show "ws \<noteq> [] \<Longrightarrow> pw_acts (pv_power pv1) (an_pin net v) \<noteq> None" using acts(1) by (simp add: ws_def split: if_splits)
    fix w assume w: "w \<in> vertices net - roots net" "reads_covered net w" "an_pin net v \<in> pin_reads net w"
    then obtain u where "u \<in> vertices net" "an_pin net u = an_pin net v" "w \<in> set (act_succs net u)"
      by (auto simp: reads_covered_def)
    then have "w \<in> set (act_succs net v)" using pin_vertex [OF net _ v] by auto
    then show "w \<in> set ws \<or> agree_on UNIV (pv_power pv) (pv_power pv1)" using agree(2) by (auto simp: ws_def)
  qed auto
  moreover have "reg_inv cu net (pv_power pv1) (set (pv_visited_regs pv'))"
  proof (rule change_reg_pin [OF cu net v regs agree(1) seq(1)])
    show "set (pv_visited_regs pv) \<subseteq> set (pv_visited_regs pv')" by (auto simp: pv'_def mark_register_regs seq(2))
    show "\<forall>inst \<in> set (pv_visited_regs pv'). an_cell net inst \<noteq> None"
      using regs by (auto simp: pv'_def mark_register_regs seq(2) reg_inv_def split: option.splits if_splits)
    fix cell assume "an_cell net (an_instance net (an_pin net v)) = Some cell" "hasSequentials cell" "an_is_load net (an_pin net v)"
    then show "an_instance net (an_pin net v) \<in> set (pv_visited_regs pv') \<or> agree_on UNIV (pv_power pv) (pv_power pv1)"
      using agree(2) by (auto simp: pv'_def mark_register_regs)
  qed
  moreover have "prop_visit cu net v pv b = res_bind (bfs_enqueueAll (an_levels net) ws b) (\<lambda>b'. Inr (pv', b'))"
  proof (cases c)
    case True
    have "prop_visit cu net v pv b = res_bind (res_bind (enqueue_gated_clock net (an_pin net v) b) (\<lambda>b1.
        bfs_enqueueAdjacent (an_graph net) (an_levels net) (act_pred net) v b1)) (\<lambda>b'. Inr (pv', b'))"
      using True by (simp add: prop_visit_def visit pv'_def res_bind_def split: sum.splits)
    then show ?thesis unfolding enqueue_succs [OF net shape] using True by (simp add: ws_def)
  qed (simp add: prop_visit_def visit pv'_def ws_def bfs_enqueueAll_def)
  moreover have "root_inv net s0 (pv_power pv1) (roots net)"
    using change_root [OF net v _ agree(1) root] inv by (simp add: prop_inv_def)
  ultimately show ?thesis using ws(2,3) power by metis
qed

interpretation activity_search: bfs_visitor "an_levels net" "prop_visitor cu net" "sound_vertices cu ev mx rank net" rank
  "bfs_new BFS_fwd (an_levels net)"
  "\<lambda>pv Q. prop_inv cu net (pv_power pv) Q \<and> reg_inv cu net (pv_power pv) (set (pv_visited_regs pv)) \<and>
     root_inv net s0 (pv_power pv) (roots net)" for cu ev mx rank net s0
proof
  fix v assume "v \<in> sound_vertices cu ev mx rank net"
  note v = sound_vertex [OF this]
  show "bfs_level_ok (lv_level (an_levels net) v) (bfs_new BFS_fwd (an_levels net))"
    using bfs_new_ok(3) [of "an_levels net" _ BFS_fwd] net_vertex(1,2) [OF v(2,3)] v(2) by (simp add: net_ok_def)
next
  fix b Q v and pv :: PropVisitor
  assume "v \<in> sound_vertices cu ev mx rank net"
  note v = sound_vertex [OF this]
  assume "same_shape (bfs_new BFS_fwd (an_levels net)) b"
    and "prop_inv cu net (pv_power pv) (insert v Q) \<and> reg_inv cu net (pv_power pv) (set (pv_visited_regs pv)) \<and>
      root_inv net s0 (pv_power pv) (roots net)"
  then show "\<exists>ws s'. set ws \<subseteq> sound_vertices cu ev mx rank net \<and> (\<forall>w \<in> set ws. rank w < rank v) \<and>
      (prop_inv cu net (pv_power s') (Q \<union> set ws) \<and> reg_inv cu net (pv_power s') (set (pv_visited_regs s')) \<and>
       root_inv net s0 (pv_power s') (roots net)) \<and>
      vv_visit (prop_visitor cu net) v pv b = res_bind (bfs_enqueueAll (an_levels net) ws b) (\<lambda>b'. Inr (s', b'))"
    using prop_visit_step [OF v(1-3), of b pv Q] unfolding v(4) by (simp add: prop_visitor_def)
qed (simp add: prop_visitor_def)

section \<open>Lemmas: seeding\<close>

definition queue_ok :: "ActNet \<Rightarrow> BfsIterator \<Rightarrow> bool" where
  "queue_ok net b \<longleftrightarrow> same_shape (bfs_new BFS_fwd (an_levels net)) b \<and> bfs_wf (an_levels net) {} b \<and> queued b \<subseteq> vertices net"

lemma queue_ok_new:
  assumes "net_ok mx rank net"
  shows "queue_ok net (bfs_new BFS_fwd (an_levels net))" "queued (bfs_new BFS_fwd (an_levels net)) = {}"
  using assms bfs_new_ok(1,2) [of "an_levels net"] by (simp_all add: queue_ok_def net_ok_def)

lemma queue_ok_enqueue:
  assumes net: "net_ok mx rank net" and b: "queue_ok net b" and ws: "set ws \<subseteq> vertices net"
  shows "\<exists>b'. bfs_enqueueAll (an_levels net) ws b = Inr b' \<and> queue_ok net b' \<and> queued b' = queued b \<union> set ws"
proof -
  have "bfs_level_ok (lv_level (an_levels net) w) (bfs_new BFS_fwd (an_levels net))" if "w \<in> vertices net" for w
    using bfs_new_ok(3) [of "an_levels net" _ BFS_fwd] net_vertex(1,2) [OF net that] net by (simp add: net_ok_def)
  then have "\<forall>w \<in> set ws. bfs_level_ok (lv_level (an_levels net) w) b"
    using ws b by (auto simp: queue_ok_def same_shape_def bfs_level_ok_def)
  then obtain b' where "bfs_enqueueAll (an_levels net) ws b = Inr b'" "bfs_wf (an_levels net) {} b'"
      "queued b' = queued b \<union> set ws" "same_shape b b'"
    using bfs_enqueueAll_ok b unfolding queue_ok_def by blast
  then show ?thesis using b ws same_shape_trans by (fastforce simp: queue_ok_def)
qed

lemma queue_ok_shape:
  assumes "net_ok mx rank net" "queue_ok net b"
  shows "bf_direction b = BFS_fwd" "bf_level_max b = level_max"
  using assms bfs_new_ok(4,5) [of "an_levels net"] by (simp_all add: queue_ok_def same_shape_def net_ok_def)

text \<open>While the roots are seeded only their pins have activities.\<close>

definition only_roots :: "ActNet \<Rightarrow> PowerActs \<Rightarrow> bool" where
  "only_roots net st \<longleftrightarrow> (\<forall>v \<in> vertices net - roots net. \<not> pa_isSet (activity_of st (an_pin net v)))"

lemma seed_root_step:
  assumes cu: "cudd_ok cu ev mx" and net: "net_ok mx rank net" and r: "r \<in> roots net"
    and b: "queue_ok net b" and inv: "prop_inv cu net st (queued b)" and only: "only_roots net st" "root_inv net s0 st R"
  shows "\<exists>st' b'. seed_root net r (st, b) = Inr (st', b') \<and> queue_ok net b' \<and> prop_inv cu net st' (queued b') \<and>
    only_roots net st' \<and> root_inv net s0 st' (insert r R)"
proof (cases "an_is_internal net (an_pin net r)")
  case True
  then show ?thesis using b inv only by (simp add: seed_root_def root_inv_def input_root_def)
next
  case False
  have rv: "r \<in> vertices net" using net r by (auto simp: net_ok_def roots_def vertices_def)
  define a where "a = (case pw_user st (an_pin net r) of Some a \<Rightarrow> a | None \<Rightarrow> pw_input st)"
  define st' where "st' = setActivity (an_pin net r) a st"
  have seed: "seed_root net r (st, b) = res_bind (bfs_enqueueAll (an_levels net) (fanout net r) b) (\<lambda>b'. Inr (st', b'))"
    using False net_vertex(3) [OF net rv] enqueue_fanout [OF queue_ok_shape [OF net b]]
    by (cases "pw_user st (an_pin net r)") (simp_all add: seed_root_def st'_def a_def Let_def)
  have fan: "set (fanout net r) \<subseteq> vertices net" "set (fanout net r) \<subseteq> set (act_succs net r)"
    using net_vertex(6) [OF net rv] by (auto simp: act_succs_def)
  obtain b' where b': "bfs_enqueueAll (an_levels net) (fanout net r) b = Inr b'" "queue_ok net b'"
      "queued b' = queued b \<union> set (fanout net r)"
    using queue_ok_enqueue [OF net b fan(1)] by blast
  have same: "pw_acts st' q = pw_acts st q" if "q \<noteq> an_pin net r" for q using that by (simp add: st'_def setActivity_def)
  have user: "pw_user st' = pw_user st" "pw_global st' = pw_global st" "pw_seq st' = pw_seq st" "pw_input st' = pw_input st"
    by (simp_all add: st'_def setActivity_def)
  have agree: "agree_on (- {an_pin net r}) st st'" using same_entry [OF same user(1)] user by (auto simp: agree_on_def)
  have "prop_inv cu net st' (queued b \<union> set (fanout net r))"
  proof (rule change_pin [OF cu net rv disjI1 [OF inv] agree user(3) _ _ fan(2)])
    fix w assume w: "w \<in> vertices net - roots net" "reads_covered net w" "an_pin net r \<in> pin_reads net w"
    then obtain u where u: "u \<in> vertices net" "an_pin net u = an_pin net r" "u \<in> roots net \<longrightarrow> w \<in> set (fanout net u)"
      by (auto simp: reads_covered_def)
    then show "w \<in> set (fanout net r) \<or> agree_on UNIV st st'" using pin_vertex [OF net u(1) rv] r by simp
  qed (use r in \<open>auto simp: st'_def setActivity_def\<close>)
  moreover have "only_roots net st'"
  proof -
    have "activity_of st' (an_pin net v) = activity_of st (an_pin net v)" if "v \<in> vertices net - roots net" for v
      using same_entry(1) [OF same user(1)] pin_vertex [OF net _ rv, of v] that r by auto
    then show ?thesis using only(1) by (simp add: only_roots_def)
  qed
  moreover have "root_inv net s0 st' (insert r R)"
    unfolding root_inv_def
  proof (intro conjI ballI impI)
    show "pw_user st' = pw_user s0" "pw_input st' = pw_input s0" using only(2) user by (simp_all add: root_inv_def)
  next
    fix v assume v: "v \<in> insert r R" "input_root net v"
    have seed0: "seed_value s0 q = seed_value st q" for q using only(2) seed_value_same [of s0 st] by (simp add: root_inv_def)
    show "activity_of st' (an_pin net v) = seed_value s0 (an_pin net v)"
    proof (cases "an_pin net v = an_pin net r")
      case True
      then have "activity_of st' (an_pin net v) = a" by (simp add: activity_of_def st'_def setActivity_def)
      moreover have "seed_value st (an_pin net r) = a" by (simp add: seed_value_def a_def)
      ultimately show ?thesis using True seed0 by simp
    next
      case False
      then show ?thesis using only(2) v same_entry(1) [OF same user(1)] by (auto simp: root_inv_def)
    qed
  qed
  ultimately show ?thesis using seed b' by simp
qed

lemma seed_roots_loop:
  assumes cu: "cudd_ok cu ev mx" and net: "net_ok mx rank net"
  shows "set rs \<subseteq> roots net \<Longrightarrow> queue_ok net b \<Longrightarrow> prop_inv cu net st (queued b) \<Longrightarrow> only_roots net st \<Longrightarrow> root_inv net s0 st R \<Longrightarrow>
    \<exists>st' b'. res_fold (seed_root net) rs (st, b) = Inr (st', b') \<and> queue_ok net b' \<and> prop_inv cu net st' (queued b') \<and>
      only_roots net st' \<and> root_inv net s0 st' (R \<union> set rs)"
proof (induction rs arbitrary: st b R)
  case (Cons r rs)
  obtain st1 b1 where "seed_root net r (st, b) = Inr (st1, b1)" "queue_ok net b1" "prop_inv cu net st1 (queued b1)" "only_roots net st1"
      "root_inv net s0 st1 (insert r R)"
    using seed_root_step [OF cu net _ Cons.prems(2-5)] Cons.prems(1) by fastforce
  then show ?case using Cons.IH [of b1 st1 "insert r R"] Cons.prems(1) by auto
qed simp

lemma seedActivities_ok:
  assumes cu: "cudd_ok cu ev mx" and net: "net_ok mx rank net" and st: "pw_acts st = Map.empty" "pw_seq st = Map.empty"
  shows "\<exists>st' b'. seedActivities net st (bfs_new BFS_fwd (an_levels net)) = Inr (st', b') \<and> queue_ok net b' \<and>
    prop_inv cu net st' (queued b') \<and> reg_inv cu net st' {} \<and> root_inv net st st' (roots net)"
proof -
  have none: "\<not> pa_isSet (activity_of st q)" for q by (simp add: activity_of_def st pa_isSet_def pa_unknown_def)
  have "prop_inv cu net st (queued (bfs_new BFS_fwd (an_levels net)))" "only_roots net st"
    using none by (auto simp: prop_inv_def reads_set_def st queue_ok_new(2) [OF net] only_roots_def)
  moreover have "root_inv net st st {}" by (simp add: root_inv_def)
  ultimately obtain st' b' where "seedActivities net st (bfs_new BFS_fwd (an_levels net)) = Inr (st', b')" "queue_ok net b'"
      "prop_inv cu net st' (queued b')" "only_roots net st'" "root_inv net st st' (roots net)"
    using seed_roots_loop [OF cu net _ queue_ok_new(1) [OF net], of "lv_roots (an_levels net)" st st "{}"]
    by (auto simp: seedActivities_def roots_def)
  moreover have "reg_inv cu net st' {}" using calculation(4) by (auto simp: reg_inv_def data_set_def only_roots_def)
  ultimately show ?thesis by blast
qed

text \<open>Seeding a register changes its outputs only.\<close>

definition seq_change :: "InstId \<Rightarrow> PortId set \<Rightarrow> PowerActs \<Rightarrow> PowerActs \<Rightarrow> bool" where
  "seq_change reg P st st' \<longleftrightarrow>
     agree_on UNIV st st' \<and> pw_acts st' = pw_acts st \<and> (\<forall>inst p. inst \<noteq> reg \<or> p \<notin> P \<longrightarrow> pw_seq st' (inst, p) = pw_seq st (inst, p))"

lemma seq_change_refl [simp]: "seq_change reg P st st"
  by (simp add: seq_change_def)

lemma seq_change_agree: "seq_change reg P st st' \<Longrightarrow> agree_on X st st'"
  by (rule agree_on_subset [of UNIV]) (simp_all add: seq_change_def)

lemma seq_change_trans: "seq_change reg P a b \<Longrightarrow> seq_change reg Q b c \<Longrightarrow> seq_change reg (P \<union> Q) a c"
  by (auto simp: seq_change_def agree_on_def)

definition out_ports :: "Sequential \<Rightarrow> PortId set" where
  "out_ports seq = {p. Some p \<in> set (seq_outputs seq)}"

lemma seed_output:
  assumes cu: "cudd_ok cu ev mx" and f: "func_ok mx (an_env net) reg (sq_data seq)"
  shows "\<exists>st'. seedRegOutput cu net reg seq (Some p) i st = Inr st' \<and> seq_change reg {p} st st' \<and>
    (\<not> user_output net st reg p \<longrightarrow> pw_seq st' (reg, p) = reg_value cu net st reg seq i)"
proof (cases "user_output net st reg p")
  case True
  then show ?thesis by (auto simp: seedRegOutput_def user_output_def)
next
  case False
  obtain a where a: "evalActivity cu (an_env net) st (sq_data seq) reg = Inr a" using func_activity(1) [OF cu f] by blast
  define st' where "st' = setSeqActivity reg p (reg_activity seq i a) st"
  have "seedRegOutput cu net reg seq (Some p) i st = Inr st'"
    using False a by (auto simp: seedRegOutput_def user_output_def st'_def split: option.splits)
  moreover have "agree_on UNIV st st'"
  proof -
    have "pw_acts st' q = pw_acts st q" "pw_user st' = pw_user st" "pw_global st' = pw_global st" "pw_input st' = pw_input st" for q
      by (simp_all add: st'_def setSeqActivity_def)
    then show ?thesis using same_entry [of st' _ st] by (simp add: agree_on_def)
  qed
  ultimately show ?thesis using a by (auto simp: seq_change_def st'_def setSeqActivity_def reg_value_def)
qed

lemma seed_outputs:
  assumes cu: "cudd_ok cu ev mx" and f: "func_ok mx (an_env net) reg (sq_data seq)"
    and out: "sq_output seq = Some p" "sq_output_inv seq = Some p'" "p \<noteq> p'"
  shows "\<exists>st1 st2. seedRegOutput cu net reg seq (sq_output seq) False st = Inr st1 \<and>
    seedRegOutput cu net reg seq (sq_output_inv seq) True st1 = Inr st2 \<and>
    seq_change reg (out_ports seq) st st2 \<and> reg_settled cu net st2 reg seq"
proof -
  obtain st1 where st1: "seedRegOutput cu net reg seq (Some p) False st = Inr st1" "seq_change reg {p} st st1"
      "\<not> user_output net st reg p \<longrightarrow> pw_seq st1 (reg, p) = reg_value cu net st reg seq False"
    using seed_output [OF cu f] by blast
  obtain st2 where st2: "seedRegOutput cu net reg seq (Some p') True st1 = Inr st2" "seq_change reg {p'} st1 st2"
      "\<not> user_output net st1 reg p' \<longrightarrow> pw_seq st2 (reg, p') = reg_value cu net st1 reg seq True"
    using seed_output [OF cu f] by blast
  have "out_ports seq = {p} \<union> {p'}" by (auto simp: out_ports_def seq_outputs_def out)
  then have change: "seq_change reg (out_ports seq) st st2" using seq_change_trans [OF st1(2) st2(2)] by simp
  have agree: "agree_on UNIV st st1" "agree_on UNIV st1 st2" using st1(2) st2(2) by (simp_all add: seq_change_def)
  have user: "user_output net st2 reg q = user_output net st reg q" "user_output net st1 reg q = user_output net st reg q" for q
    using agree by (simp_all add: user_output_def hasUserActivity_def agree_on_def split: option.splits)
  have val: "reg_value cu net st1 reg seq i = reg_value cu net st reg seq i" "reg_value cu net st2 reg seq i = reg_value cu net st1 reg seq i" for i
    using func_activity(2) [OF cu f agree_on_subset [OF agree(1)]] func_activity(2) [OF cu f agree_on_subset [OF agree(2)]]
    by (simp_all add: reg_value_def)
  have "pw_seq st2 (reg, p) = pw_seq st1 (reg, p)" using st2(2) out(3) by (auto simp: seq_change_def)
  then have "reg_settled cu net st2 reg seq" using st1(3) st2(3) by (auto simp: reg_settled_def out user val)
  then show ?thesis using st1(1) st2(1) change out by auto
qed

definition reg_pin_hit :: "ActNet \<Rightarrow> Sequential \<Rightarrow> PinId \<Rightarrow> bool" where
  "reg_pin_hit net seq pin \<longleftrightarrow>
     (case an_liberty_port net pin of
        None \<Rightarrow> False
      | Some port \<Rightarrow> an_function net port \<noteq> FE_null \<and> fe_port (an_function net port) \<in> set (seq_outputs seq))"

lemma enqueue_reg_pins:
  "res_fold (enqueue_reg_pin net seq) pins b =
   bfs_enqueueAll (an_levels net) (map (tg_drvr_vertex (an_graph net)) (filter (reg_pin_hit net seq) pins)) b"
proof (induction pins arbitrary: b)
  case (Cons pin pins)
  have "enqueue_reg_pin net seq pin b =
      (if reg_pin_hit net seq pin then bfs_enqueue (an_levels net) (tg_drvr_vertex (an_graph net) pin) b else Inr b)"
    by (auto simp: enqueue_reg_pin_def reg_pin_hit_def seq_outputs_def split: option.splits)
  moreover have "res_fold (enqueue_reg_pin net seq) pins =
      bfs_enqueueAll (an_levels net) (map (tg_drvr_vertex (an_graph net)) (filter (reg_pin_hit net seq) pins))"
    using Cons.IH by (rule ext)
  ultimately show ?case by (simp add: bfs_enqueueAll_def [abs_def])
qed (simp add: bfs_enqueueAll_def)

text \<open>A change of register outputs keeps the invariant when the vertices that read them are put into the queue.\<close>

lemma change_seq:
  assumes cu: "cudd_ok cu ev mx" and net: "net_ok mx rank net" and inv: "prop_inv cu net st Q"
    and change: "seq_change reg P st st'"
    and readers: "\<And>w p. w \<in> vertices net \<Longrightarrow> reads_covered net w \<Longrightarrow> seq_read net w = Some p \<Longrightarrow>
      an_instance net (an_pin net w) = reg \<Longrightarrow> p \<in> P \<Longrightarrow> w \<in> set ws"
    and ws: "\<forall>w \<in> set ws. \<not> an_is_load net (an_pin net w) \<and> \<not> input_root net w"
  shows "prop_inv cu net st' (Q \<union> set ws)"
  unfolding prop_inv_def
proof (intro conjI ballI allI impI)
  fix w assume w: "w \<in> vertices net - roots net" "reads_covered net w" "reads_set net st' w"
  show "w \<in> Q \<union> set ws \<or> settled cu net st' w"
  proof (cases "w \<in> set ws")
    case False
    have "pw_seq st' (an_instance net (an_pin net w), p) = pw_seq st (an_instance net (an_pin net w), p)"
      if "seq_read net w = Some p" for p
      using readers [OF _ w(2) that] w(1) False change by (auto simp: seq_change_def)
    moreover have "agree_on (insert (an_pin net w) (pin_reads net w)) st st'"
      by (rule seq_change_agree [OF change])
    ultimately have "settled cu net st' w = settled cu net st w" "reads_set net st' w = reads_set net st w"
      using settled_agree [OF cu net_vertex(5) [OF net, of w]] w(1) by auto
    then show ?thesis using inv w by (auto simp: prop_inv_def)
  qed simp
next
  fix w u assume w: "w \<in> Q \<union> set ws" "an_is_load net (an_pin net w)" "wire_driver net w = Some u"
  then have "w \<in> Q" using ws by auto
  then show "pw_acts st' (an_pin net u) \<noteq> None" using inv w change by (auto simp: prop_inv_def seq_change_def)
next
  fix w assume "w \<in> Q \<union> set ws"
  then show "\<not> input_root net w" using inv ws by (auto simp: prop_inv_def)
qed

lemma root_seq_change:
  assumes "seq_change reg P st st'" "root_inv net s0 st R"
  shows "root_inv net s0 st' R"
proof -
  have agree: "agree_on UNIV st st'" using seq_change_agree [OF assms(1)] .
  then have "activity_of st' q = activity_of st q" "pw_user st' = pw_user st" "pw_input st' = pw_input st" for q
    by (simp_all add: agree_on_def)
  then show ?thesis using assms(2) by (simp add: root_inv_def)
qed

lemma seed_sequential_ok:
  assumes cu: "cudd_ok cu ev mx" and net: "net_ok mx rank net" and cell: "an_cell net reg = Some cell"
    and seq: "seq \<in> set (ac_sequentials cell)"
    and b: "queue_ok net b" and inv: "prop_inv cu net st (queued b)"
  shows "\<exists>st' b'. seed_sequential cu net reg seq (st, b) = Inr (st', b') \<and> queue_ok net b' \<and> prop_inv cu net st' (queued b') \<and>
    seq_change reg (out_ports seq) st st' \<and> reg_settled cu net st' reg seq"
proof -
  have ok: "cell_ok mx net reg cell" using net_cell [OF net cell] .
  obtain p p' where out: "sq_output seq = Some p" "sq_output_inv seq = Some p'" using ok seq by (auto simp: cell_ok_def)
  have "distinct (seq_outputs seq)" using ok seq by (auto simp: cell_ok_def distinct_concat_iff)
  then have "p \<noteq> p'" by (simp add: seq_outputs_def out)
  then obtain st1 st2 where st: "seedRegOutput cu net reg seq (sq_output seq) False st = Inr st1"
      "seedRegOutput cu net reg seq (sq_output_inv seq) True st1 = Inr st2"
      "seq_change reg (out_ports seq) st st2" "reg_settled cu net st2 reg seq"
    using seed_outputs [OF cu seq_data_ok [OF net cell seq] out] by blast
  define ws where "ws = map (tg_drvr_vertex (an_graph net)) (filter (reg_pin_hit net seq) (en_inst_pins (an_env net) reg))"
  have pins: "tg_drvr_vertex (an_graph net) pin \<in> vertices net" "an_pin net (tg_drvr_vertex (an_graph net) pin) = pin"
    if "pin \<in> set (en_inst_pins (an_env net) reg)" for pin
    using ok that by (simp_all add: cell_ok_def vertices_def)
  have ws: "set ws \<subseteq> vertices net" using pins by (auto simp: ws_def)
  have not_load: "\<forall>w \<in> set ws. \<not> an_is_load net (an_pin net w) \<and> \<not> input_root net w"
  proof
    fix w assume "w \<in> set ws"
    then obtain pin where pin: "pin \<in> set (en_inst_pins (an_env net) reg)" "reg_pin_hit net seq pin"
        "w = tg_drvr_vertex (an_graph net) pin" by (auto simp: ws_def)
    then have "driver_ok mx net w" "an_pin net w = pin" using net_vertex(5) [OF net pins(1)] pins(2) by auto
    then show "\<not> an_is_load net (an_pin net w) \<and> \<not> input_root net w"
      using pin(2) by (auto simp: driver_ok_def reg_pin_hit_def input_root_def split: option.splits)
  qed
  obtain b' where b': "bfs_enqueueAll (an_levels net) ws b = Inr b'" "queue_ok net b'" "queued b' = queued b \<union> set ws"
    using queue_ok_enqueue [OF net b ws] by blast
  have "prop_inv cu net st2 (queued b \<union> set ws)"
  proof (rule change_seq [OF cu net inv st(3) _ not_load])
    fix w q
    assume w: "w \<in> vertices net" "reads_covered net w" "seq_read net w = Some q" "an_instance net (an_pin net w) = reg" "q \<in> out_ports seq"
    have "an_pin net w \<in> set (en_inst_pins (an_env net) reg)" using w(2-4) by (auto simp: reads_covered_def)
    moreover have "reg_pin_hit net seq (an_pin net w)"
      using w(3,5) by (auto simp: seq_read_def reg_pin_hit_def out_ports_def split: option.splits if_splits)
    ultimately show "w \<in> set ws"
      using net_vertex(3) [OF net w(1)] by (auto simp: ws_def intro: image_eqI [where x = "an_pin net w"])
  qed
  then show ?thesis using st b' by (simp add: seed_sequential_def enqueue_reg_pins ws_def [symmetric])
qed

lemma seed_cell_loop:
  assumes cu: "cudd_ok cu ev mx" and net: "net_ok mx rank net" and cell: "an_cell net reg = Some cell"
  shows "set seqs \<subseteq> set (ac_sequentials cell) \<Longrightarrow> distinct (concat (map seq_outputs seqs)) \<Longrightarrow>
    queue_ok net b \<Longrightarrow> prop_inv cu net st (queued b) \<Longrightarrow>
    \<exists>st' b'. res_fold (seed_sequential cu net reg) seqs (st, b) = Inr (st', b') \<and> queue_ok net b' \<and> prop_inv cu net st' (queued b') \<and>
      seq_change reg (\<Union>s \<in> set seqs. out_ports s) st st' \<and> (\<forall>s \<in> set seqs. reg_settled cu net st' reg s)"
proof (induction seqs arbitrary: st b)
  case (Cons s seqs)
  have s: "s \<in> set (ac_sequentials cell)" using Cons.prems(1) by simp
  obtain st1 b1 where 1: "seed_sequential cu net reg s (st, b) = Inr (st1, b1)" "queue_ok net b1" "prop_inv cu net st1 (queued b1)"
      "seq_change reg (out_ports s) st st1" "reg_settled cu net st1 reg s"
    using seed_sequential_ok [OF cu net cell s Cons.prems(3,4)] by blast
  obtain st2 b2 where 2: "res_fold (seed_sequential cu net reg) seqs (st1, b1) = Inr (st2, b2)" "queue_ok net b2"
      "prop_inv cu net st2 (queued b2)" "seq_change reg (\<Union>s \<in> set seqs. out_ports s) st1 st2"
      "\<forall>s \<in> set seqs. reg_settled cu net st2 reg s"
    using Cons.IH [OF _ _ 1(2,3)] Cons.prems(1,2) by auto
  have "p \<notin> (\<Union>t \<in> set seqs. out_ports t)" if "Some p \<in> {sq_output s, sq_output_inv s}" for p
    using Cons.prems(2) that by (auto simp: out_ports_def seq_outputs_def)
  then have "pw_seq st2 (reg, p) = pw_seq st1 (reg, p)" if "Some p \<in> {sq_output s, sq_output_inv s}" for p
    using 2(4) that unfolding seq_change_def by blast
  moreover have "agree_on (link_pins net reg (sq_data s)) st1 st2"
    by (rule seq_change_agree [OF 2(4)])
  ultimately have "reg_settled cu net st2 reg s" using reg_agree [OF cu seq_data_ok [OF net cell s]] 1(5) by blast
  then show ?case using 1 2 seq_change_trans [OF 1(4) 2(4)] by simp
qed simp

lemma seed_reg_ok:
  assumes cu: "cudd_ok cu ev mx" and net: "net_ok mx rank net"
    and b: "queue_ok net b" and inv: "prop_inv cu net st (queued b)" and regs: "reg_inv cu net st (insert reg R)"
  shows "\<exists>st' b'. seedRegOutputActivities cu net reg (st, b) = Inr (st', b') \<and> queue_ok net b' \<and> prop_inv cu net st' (queued b') \<and>
    reg_inv cu net st' R \<and> (root_inv net s0 st (roots net) \<longrightarrow> root_inv net s0 st' (roots net))"
proof -
  obtain cell where cell: "an_cell net reg = Some cell" using regs by (auto simp: reg_inv_def)
  have "distinct (concat (map seq_outputs (ac_sequentials cell)))" using net_cell [OF net cell] by (simp add: cell_ok_def)
  then obtain st' b' where loop: "res_fold (seed_sequential cu net reg) (ac_sequentials cell) (st, b) = Inr (st', b')"
      "queue_ok net b'" "prop_inv cu net st' (queued b')"
      "seq_change reg (\<Union>s \<in> set (ac_sequentials cell). out_ports s) st st'"
      "\<forall>s \<in> set (ac_sequentials cell). reg_settled cu net st' reg s"
    using seed_cell_loop [OF cu net cell subset_refl _ b inv] by blast
  have "reg_inv cu net st' R"
    unfolding reg_inv_def
  proof (intro conjI ballI allI impI)
    fix inst c seq
    assume s: "seq \<in> set (ac_sequentials c)" "an_cell net inst = Some c" "data_covered net inst seq" "data_set net st' inst seq"
    have agree: "agree_on (link_pins net inst (sq_data seq)) st st'" by (rule seq_change_agree [OF loop(4)])
    show "inst \<in> R \<or> reg_settled cu net st' inst seq"
    proof (cases "inst = reg")
      case True
      then show ?thesis using loop(5) s cell by simp
    next
      case False
      have "inst \<in> R \<or> reg_settled cu net st inst seq"
        using regs s False data_set_agree [OF agree] by (auto simp: reg_inv_def)
      moreover have "pw_seq st' (inst, p) = pw_seq st (inst, p)" for p using loop(4) False by (simp add: seq_change_def)
      ultimately show ?thesis using reg_agree [OF cu seq_data_ok [OF net s(2,1)] agree] by simp
    qed
  qed (use regs in \<open>simp add: reg_inv_def\<close>)
  then show ?thesis using loop cell root_seq_change [OF loop(4)] by (simp add: seedRegOutputActivities_def)
qed

lemma seed_regs_loop:
  assumes cu: "cudd_ok cu ev mx" and net: "net_ok mx rank net"
  shows "queue_ok net b \<Longrightarrow> prop_inv cu net st (queued b) \<Longrightarrow> reg_inv cu net st (set rs) \<Longrightarrow> root_inv net s0 st (roots net) \<Longrightarrow>
    \<exists>st' b'. res_fold (seedRegOutputActivities cu net) rs (st, b) = Inr (st', b') \<and> queue_ok net b' \<and>
      prop_inv cu net st' (queued b') \<and> reg_inv cu net st' {} \<and> root_inv net s0 st' (roots net)"
proof (induction rs arbitrary: st b)
  case (Cons r rs)
  have regs: "reg_inv cu net st (insert r (set rs))" using Cons.prems(3) by simp
  obtain st1 b1 where "seedRegOutputActivities cu net r (st, b) = Inr (st1, b1)" "queue_ok net b1" "prop_inv cu net st1 (queued b1)"
      "reg_inv cu net st1 (set rs)" "root_inv net s0 st1 (roots net)"
    using Cons.prems(4) seed_reg_ok [OF cu net Cons.prems(1,2) regs] by blast
  then show ?case using Cons.IH [of b1 st1] by simp
qed simp

section \<open>Lemmas: passes\<close>

text \<open>The state between passes: an empty queue, every pin settled, every register settled or still to be visited.\<close>

definition pass_ok :: "'n Cudd \<Rightarrow> ActNet \<Rightarrow> PowerActs \<Rightarrow> PropVisitor \<Rightarrow> BfsIterator \<Rightarrow> bool" where
  "pass_ok cu net s0 pv b \<longleftrightarrow>
     queue_ok net b \<and> queued b = {} \<and> prop_inv cu net (pv_power pv) {} \<and>
     reg_inv cu net (pv_power pv) (set (pv_visited_regs pv)) \<and> root_inv net s0 (pv_power pv) (roots net)"

lemma search_pass:
  fixes cu :: "'n Cudd"
  assumes cu: "cudd_ok cu ev mx" and net: "net_ok mx rank net"
    and b: "queue_ok net b" and inv: "prop_inv cu net (pv_power pv) (queued b)"
    and regs: "reg_inv cu net (pv_power pv) (set (pv_visited_regs pv))" "root_inv net s0 (pv_power pv) (roots net)"
  shows "\<exists>n pv' b'. bfs_visit (lv_max_level (an_levels net)) (prop_visitor cu net) pv b = Some (Inr (n, pv', b')) \<and> pass_ok cu net s0 pv' b'"
proof -
  have V: "sound_vertices cu ev mx rank net = vertices net" by (simp add: sound_vertices_def cu net)
  have dir: "bf_direction (bfs_new BFS_fwd (an_levels net)) = BFS_fwd" using net bfs_new_ok(4) by (simp add: net_ok_def)
  have "activity_search.state_ok TYPE('n) net cu ev mx rank s0 {} pv b"
    unfolding activity_search.state_ok_def using b inv regs by (simp add: V queue_ok_def)
  moreover have "\<forall>v \<in> sound_vertices cu ev mx rank net. level_key (bf_direction (bfs_new BFS_fwd (an_levels net))) (lv_level (an_levels net) v)
      \<le> level_key (bf_direction (bfs_new BFS_fwd (an_levels net))) (lv_max_level (an_levels net))"
    using net_vertex(2) [OF net] by (simp add: V dir level_key_def)
  ultimately obtain n pv' b' where v: "bfs_visit (lv_max_level (an_levels net)) (prop_visitor cu net) pv b = Some (Inr (n, pv', b'))"
      "activity_search.state_ok TYPE('n) net cu ev mx rank s0 {} pv' b'" "queued b' = {}"
    using activity_search.visit_all by blast
  have "pass_ok cu net s0 pv' b'" 
    using v(2) [unfolded activity_search.state_ok_def] v(3) by (simp add: V pass_ok_def queue_ok_def)
  then show ?thesis using v(1) by blast
qed

lemma passes_ok:
  assumes cu: "cudd_ok cu ev mx" and net: "net_ok mx rank net"
  shows "pass_ok cu net s0 pv b \<Longrightarrow> \<exists>pv' b'. activity_passes cu net n pv b = Some (Inr (pv', b')) \<and> pass_ok cu net s0 pv' b'"
proof (induction n arbitrary: pv b)
  case (Suc n)
  show ?case
  proof (cases "pv_visited_regs pv = []")
    case True
    then show ?thesis using Suc.prems by (simp add: Let_def)
  next
    case False
    define pv1 where "pv1 = prop_init (pv\<lparr>pv_visited_regs := []\<rparr>)"
    have b: "queue_ok net b" "prop_inv cu net (pv_power pv) (queued b)" "reg_inv cu net (pv_power pv) (set (pv_visited_regs pv))"
      "root_inv net s0 (pv_power pv) (roots net)"
      using Suc.prems by (simp_all add: pass_ok_def)
    obtain st b1 where seed: "res_fold (seedRegOutputActivities cu net) (pv_visited_regs pv) (pv_power pv, b) = Inr (st, b1)"
        "queue_ok net b1" "prop_inv cu net st (queued b1)" "reg_inv cu net st {}" "root_inv net s0 st (roots net)"
      using seed_regs_loop [OF cu net b] by blast
    obtain m pv2 b2 where pass: "bfs_visit (lv_max_level (an_levels net)) (prop_visitor cu net) (pv1\<lparr>pv_power := st\<rparr>) b1 = Some (Inr (m, pv2, b2))"
        "pass_ok cu net s0 pv2 b2"
      using search_pass [OF cu net seed(2), of "pv1\<lparr>pv_power := st\<rparr>" s0] seed(3-5) by (auto simp: pv1_def prop_init_def)
    have "pv_power pv1 = pv_power pv" by (simp add: pv1_def prop_init_def)
    then have "activity_passes cu net (Suc n) pv b = activity_passes cu net n pv2 b2"
      using False seed(1) pass(1) by (simp add: Let_def pv1_def [symmetric])
    then show ?thesis using Suc.IH [OF pass(2)] by simp
  qed
qed simp

lemma propagate_ok:
  assumes cu: "cudd_ok cu ev mx" and net: "net_ok mx rank net"
  shows "\<exists>pv b. propagateActivities cu net st = Some (Inr (pv, b)) \<and> pass_ok cu net (st\<lparr>pw_acts := Map.empty, pw_seq := Map.empty\<rparr>) pv b"
proof -
  obtain st1 b1 where seed: "seedActivities net (st\<lparr>pw_acts := Map.empty, pw_seq := Map.empty\<rparr>) (bfs_new BFS_fwd (an_levels net)) = Inr (st1, b1)"
      "queue_ok net b1" "prop_inv cu net st1 (queued b1)" "reg_inv cu net st1 {}" "root_inv net (st\<lparr>pw_acts := Map.empty, pw_seq := Map.empty\<rparr>) st1 (roots net)"
    using seedActivities_ok [OF cu net, of "st\<lparr>pw_acts := Map.empty, pw_seq := Map.empty\<rparr>"] by auto
  obtain m pv2 b2 where pass: "bfs_visit (lv_max_level (an_levels net)) (prop_visitor cu net) (prop_new st1) b1 = Some (Inr (m, pv2, b2))"
      "pass_ok cu net (st\<lparr>pw_acts := Map.empty, pw_seq := Map.empty\<rparr>) pv2 b2"
    using search_pass [OF cu net seed(2), of "prop_new st1" "st\<lparr>pw_acts := Map.empty, pw_seq := Map.empty\<rparr>"] seed(3-5) by (auto simp: prop_new_def)
  show ?thesis using passes_ok [OF cu net pass(2), of "max_activity_passes - 1"] seed(1) pass(1)
    by (simp add: propagateActivities_def)
qed

section \<open>Properties\<close>

text \<open>C12: On a sound netlist the propagation of activities ends without an error. Then every root that the search does
  not enter has the activity of its user or the default of the inputs; every pin that is not a root
  and reads a pin or a register output with an activity has the activity that its user, its driver, its function or its
  clock gate gives it, up to the tolerance of 0.001; and when the passes have ended because no register was left to
  visit, every output of a register has exactly the activity that the data of the register gives it. This covers
  the pins whose inputs lead to them in the search, and the registers whose data reads loads of their own instance.\<close>

theorem activities_settle:
  assumes cu: "cudd_ok cu ev mx" and net: "net_ok mx rank net"
    and st: "\<not> pa_isSet (pw_global st)" "\<not> pw_valid st"
  shows "\<exists>pv b st'. propagateActivities cu net st = Some (Inr (pv, b)) \<and>
    ensureActivities cu net st = Some (Inr st') \<and> pw_valid st' \<and> pw_user st' = pw_user st \<and> queued b = {} \<and>
    (\<forall>v. input_root net v \<longrightarrow> activity_of st' (an_pin net v) = seed_value st (an_pin net v)) \<and>
    (\<forall>v \<in> vertices net - roots net. reads_covered net v \<longrightarrow> reads_set net st' v \<longrightarrow> settled cu net st' v) \<and>
    (pv_visited_regs pv = [] \<longrightarrow>
       (\<forall>inst cell. an_cell net inst = Some cell \<longrightarrow>
          (\<forall>seq \<in> set (ac_sequentials cell). data_covered net inst seq \<longrightarrow> data_set net st' inst seq \<longrightarrow>
             reg_settled cu net st' inst seq)))"
proof -
  obtain pv b where run: "propagateActivities cu net st = Some (Inr (pv, b))" "pass_ok cu net (st\<lparr>pw_acts := Map.empty, pw_seq := Map.empty\<rparr>) pv b"
    using propagate_ok [OF cu net] by blast
  define st' where "st' = (pv_power pv)\<lparr>pw_valid := True\<rparr>"
  have change: "seq_change 0 {} (pv_power pv) st'"
    using same_entry [of st' _ "pv_power pv"] by (simp add: seq_change_def agree_on_def st'_def)
  have seq: "pw_seq st' = pw_seq (pv_power pv)" by (simp add: st'_def)
  have "prop_inv cu net st' ({} \<union> set [])"
    by (rule change_seq [OF cu net _ change]) (use run(2) in \<open>auto simp: pass_ok_def\<close>)
  moreover have "reg_settled cu net st' inst seq"
    if "pv_visited_regs pv = []" "an_cell net inst = Some cell" "seq \<in> set (ac_sequentials cell)" "data_covered net inst seq"
      "data_set net st' inst seq" for inst cell seq
  proof -
    have agree: "agree_on (link_pins net inst (sq_data seq)) (pv_power pv) st'" by (rule seq_change_agree [OF change])
    have "reg_settled cu net (pv_power pv) inst seq"
      using run(2) that data_set_agree [OF agree] by (auto simp: pass_ok_def reg_inv_def)
    then show ?thesis using reg_agree [OF cu seq_data_ok [OF net that(2,3)] agree] by (simp add: seq)
  qed
  moreover have "ensureActivities cu net st = Some (Inr st')" "pw_valid st'" using st run(1) by (simp_all add: ensureActivities_def st'_def)
  moreover have "pw_user st' = pw_user st" using run(2) by (simp add: st'_def pass_ok_def root_inv_def)
  moreover have "\<forall>v. input_root net v \<longrightarrow> activity_of st' (an_pin net v) = seed_value st (an_pin net v)"
  proof (intro allI impI)
    fix v assume v: "input_root net v"
    have "root_inv net (st\<lparr>pw_acts := Map.empty, pw_seq := Map.empty\<rparr>) st' (roots net)"
      using root_seq_change [OF change] run(2) by (simp add: pass_ok_def)
    then have "activity_of st' (an_pin net v) = seed_value (st\<lparr>pw_acts := Map.empty, pw_seq := Map.empty\<rparr>) (an_pin net v)"
      using v by (simp add: root_inv_def input_root_def)
    then show "activity_of st' (an_pin net v) = seed_value st (an_pin net v)"
      using seed_value_same [of "st\<lparr>pw_acts := Map.empty, pw_seq := Map.empty\<rparr>" st] by simp
  qed
  ultimately show ?thesis using run by (intro exI [of _ pv] exI [of _ b] exI [of _ st']) (auto simp: prop_inv_def pass_ok_def)
qed

text \<open>An input port (pin 0) that drives the data (1) of a register with output 2 and an unconnected clock (3).\<close>

definition reg_graph :: TGraph where
  "reg_graph = loop_graph\<lparr>tg_vertices := [0, 1, 2, 3],
     tg_edge := (\<lambda>e. if e = 0 then (loop_edge 0 1)\<lparr>te_role := TR_wire\<rparr> else (loop_edge 3 2)\<lparr>te_role := TR_regClkToQ\<rparr>),
     tg_out_edges := (\<lambda>v. if v = 0 then [0] else if v = 3 then [1] else []),
     tg_in_edges := (\<lambda>v. if v = 1 then [0] else if v = 2 then [1] else [])\<rparr>"

definition reg_levels :: Levels where
  "reg_levels = lv_new\<lparr>lv_level := (\<lambda>v. if v = 1 then 10 else 0), lv_roots := [0, 3], lv_max_level := 10, lv_levels_valid := True\<rparr>"

definition reg_env :: PowerEnv where
  "reg_env = two_pin_env\<lparr>
     en_ports := (\<lambda>p. (en_ports two_pin_env p)\<lparr>lp_direction := (if p = 2 \<or> p = 3 then PD_internal else PD_input)\<rparr>),
     en_link_pin := (\<lambda>inst p. if p = 0 then Some 1 else if p = 1 then Some 2 else if p = 4 then Some 3 else None),
     en_inst_pins := (\<lambda>inst. if inst = 1 then [1, 2, 3] else [0])\<rparr>"

definition reg_cell :: ActCell where
  "reg_cell =
     \<lparr>ac_sequentials = [\<lparr>sq_is_register = True, sq_data = FE_port 0, sq_output = Some 2, sq_output_inv = Some 3\<rparr>],
      ac_has_statetable = False, ac_is_clock_gate = False\<rparr>"

definition reg_net :: ActNet where
  "reg_net =
     \<lparr>an_env = reg_env, an_graph = reg_graph, an_sdc = loop_sdc, an_levels = reg_levels,
      an_instance = (\<lambda>pin. if pin = 0 then 0 else 1), an_is_load = (\<lambda>pin. pin = 1 \<or> pin = 3),
      an_is_driver = (\<lambda>pin. pin = 0 \<or> pin = 2), an_is_internal = (\<lambda>_. False),
      an_liberty_port = (\<lambda>pin. if pin = 1 then Some 0 else if pin = 2 then Some 1 else if pin = 3 then Some 4 else None),
      an_function = (\<lambda>p. if p = 1 then FE_port 2 else FE_null),
      an_gate_enable = (\<lambda>_. False), an_gate_clock = (\<lambda>_. False), an_gate_out = (\<lambda>_. False),
      an_cell = (\<lambda>inst. if inst = 1 then Some reg_cell else None),
      an_find_pin = (\<lambda>inst p. if p = 0 then Some 1 else if p = 1 then Some 2 else if p = 4 then Some 3 else None)\<rparr>"

lemma reg_net_fields [simp]:
  "an_env reg_net = reg_env" "an_graph reg_net = reg_graph" "an_sdc reg_net = loop_sdc" "an_levels reg_net = reg_levels"
  "an_instance reg_net pin = (if pin = 0 then 0 else 1)" "an_is_load reg_net pin \<longleftrightarrow> pin = 1 \<or> pin = 3"
  "an_is_driver reg_net pin \<longleftrightarrow> pin = 0 \<or> pin = 2" "\<not> an_is_internal reg_net pin"
  "an_liberty_port reg_net pin = (if pin = 1 then Some 0 else if pin = 2 then Some 1 else if pin = 3 then Some 4 else None)"
  "an_function reg_net p = (if p = 1 then FE_port 2 else FE_null)" "\<not> an_gate_out reg_net p"
  "an_cell reg_net inst = (if inst = 1 then Some reg_cell else None)" "an_pin reg_net v = v"
  by (simp_all add: reg_net_def an_pin_def reg_graph_def loop_graph_def)

lemmas reg_net_defs = reg_env_def reg_levels_def reg_graph_def two_pin_env_def loop_graph_def loop_edge_def lv_new_def

lemma reg_fanout: "fanout reg_net v = (if v = 0 then [1] else [])"
  by (simp add: fanout_def bfs_adjacent_def act_pred_def pred_with_def searchFrom0_def searchTo0_def search_thru_defs
      searchThru0_def latches_isLatchDtoQ_def isDisabledCondDefault_def level_max_def tr_new_def reg_net_defs)

lemma reg_succs: "act_succs reg_net v = (if v = 0 then [1] else [])"
  by (auto simp: act_succs_def reg_fanout gated_vertices_def reg_cell_def)

lemma reg_net_ok: "net_ok 2 (\<lambda>v. if v = 0 then 1 else 0) reg_net"
proof -
  have cell: "cell_ok 2 reg_net 1 reg_cell"
    by (simp add: cell_ok_def reg_cell_def seq_outputs_def func_ok_def clock_pin_ok_def fe_ports_def reg_net_defs)
  have driver: "driver_ok 2 reg_net v" for v
    by (simp add: driver_ok_def seq_read_def reg_net_defs)
  have wire: "wire_driver reg_net 1 = Some 0" by (simp add: wire_driver_def tr_isWire_def reg_net_defs)
  show ?thesis unfolding net_ok_def reg_succs
    using cell driver wire by (auto simp: reg_net_defs)
qed

theorem activities_settle_witness:
  "\<exists>st. ensureActivities tt_cudd reg_net power_new = Some (Inr st) \<and> pw_valid st \<and>
     activity_of st 0 = pa_new (1/10) (1/2) PO_input \<and>
     \<not> activity_differs (pa_new (1/10) (1/2) PO_propagated) (activity_of st 1)"
proof -
  have st: "\<not> pa_isSet (pw_global power_new)" "\<not> pw_valid power_new" by (simp_all add: power_new_def pa_isSet_def pa_unknown_def)
  obtain pv b st where run: "propagateActivities tt_cudd reg_net power_new = Some (Inr (pv, b))"
      "ensureActivities tt_cudd reg_net power_new = Some (Inr st)" "pw_valid st"
    and user: "pw_user st = pw_user power_new"
    and roots: "\<And>v. input_root reg_net v \<Longrightarrow> activity_of st (an_pin reg_net v) = seed_value power_new (an_pin reg_net v)"
    and nodes: "\<And>v. v \<in> vertices reg_net - roots reg_net \<Longrightarrow> reads_covered reg_net v \<Longrightarrow> reads_set reg_net st v \<Longrightarrow>
      settled tt_cudd reg_net st v"
    using activities_settle [OF tt_cudd_ok reg_net_ok st] by blast
  have "input_root reg_net 0" by (auto simp: input_root_def roots_def reg_succs vertices_def reg_net_defs)
  then have root: "activity_of st 0 = pa_new (1/10) (1/2) PO_input" using roots [of 0] by (simp add: seed_value_def power_new_def)
  have wire: "wire_driver reg_net 1 = Some 0" by (simp add: wire_driver_def tr_isWire_def reg_net_defs)
  have reads: "pin_reads reg_net 1 = {0}" "seq_read reg_net 1 = None"
    by (simp_all add: pin_reads_def seq_read_def wire [simplified])
  have "reads_covered reg_net 1"
    unfolding reads_covered_def reads by (simp add: reg_succs reg_fanout vertices_def reg_net_defs)
  moreover have "reads_set reg_net st 1" unfolding reads_set_def reads by (simp add: root pa_isSet_def pa_new_def)
  moreover have "1 \<in> vertices reg_net - roots reg_net" by (simp add: vertices_def roots_def reg_net_defs)
  ultimately have "settled tt_cudd reg_net st 1" using nodes by blast
  moreover have "pw_user st 1 = None" by (simp add: user power_new_def)
  ultimately show ?thesis using run root
    by (auto simp: settled_def pin_value_def wire [simplified] pa_new_def)
qed

end
