(* ===== verification/GTP_ClkPins.thy ===== *)
theory GTP_ClkPins
  imports GTP_Bfs
begin

text \<open>
  The search for the vertices above register clock pins (\<open>Search::ensureDownstreamClkPins\<close> in \<open>search/Search.cc\<close>): the
  register clock vertices of the graph are queued in a backward iterator, and every vertex that it returns is marked and
  queues its fanin through the clock tree predicate. The levels are those of the levelizer.
\<close>

section \<open>Marking\<close>

record ClkPinMarks =
  cp_found :: bool
  cp_downstream :: "VertexId \<Rightarrow> bool"

definition clk_tree_pred :: "TGraph \<Rightarrow> SdcFlags \<Rightarrow> Levels \<Rightarrow> SearchPred" where
  "clk_tree_pred g sdc lv = pred_with g (searchThruClkTree g sdc (lv_disabled lv))"

definition setHasDownstreamClkPin :: "VertexId \<Rightarrow> bool \<Rightarrow> ClkPinMarks \<Rightarrow> ClkPinMarks" where
  "setHasDownstreamClkPin v has cp = cp\<lparr>cp_downstream := (cp_downstream cp)(v := has)\<rparr>"

partial_function (option) mark_downstream ::
    "TGraph \<Rightarrow> Levels \<Rightarrow> SearchPred \<Rightarrow> ClkPinMarks \<Rightarrow> BfsIterator \<Rightarrow> (power_error + ClkPinMarks) option" where
  "mark_downstream g lv pred cp b =
     (case bfs_hasNext (bf_last_level b) b of
        Inl e \<Rightarrow> Some (Inl e)
      | Inr mb \<Rightarrow>
          if \<not> fst mb then Some (Inr cp)
          else (case bfs_next (snd mb) of
              Inl e \<Rightarrow> Some (Inl e)
            | Inr vb \<Rightarrow> (case bfs_enqueueAdjacent g lv pred (fst vb) (snd vb) of
                Inl e \<Rightarrow> Some (Inl e)
              | Inr b2 \<Rightarrow> mark_downstream g lv pred (setHasDownstreamClkPin (fst vb) True cp) b2)))"

definition ensureDownstreamClkPins ::
    "TGraph \<Rightarrow> SdcFlags \<Rightarrow> Levels \<Rightarrow> VertexId list \<Rightarrow> ClkPinMarks \<Rightarrow> (power_error + ClkPinMarks) option" where
  "ensureDownstreamClkPins g sdc lv reg_clk_vertices cp =
     (if cp_found cp then Some (Inr cp)
      else case bfs_enqueueAll lv reg_clk_vertices (bfs_new BFS_bkwd lv) of
          Inl e \<Rightarrow> Some (Inl e)
        | Inr b \<Rightarrow> map_option (\<lambda>r. res_bind r (\<lambda>cp1. Inr (cp1\<lparr>cp_found := True\<rparr>)))
                     (mark_downstream g lv (clk_tree_pred g sdc lv) cp b))"

section \<open>The vertices to mark\<close>

text \<open>The vertices from which a register clock pin is reached through wires and combinational arcs of the clock tree.\<close>

definition clk_edge :: "TGraph \<Rightarrow> SdcFlags \<Rightarrow> Levels \<Rightarrow> VertexId \<Rightarrow> VertexId \<Rightarrow> bool" where
  "clk_edge g sdc lv u v \<longleftrightarrow>
     (\<exists>e \<in> set (tg_in_edges g v). te_from (tg_edge g e) = u \<and> searchTo0 g v \<and> searchFrom0 g u \<and>
        searchThruClkTree g sdc (lv_disabled lv) e)"

inductive above_clk_pin :: "TGraph \<Rightarrow> SdcFlags \<Rightarrow> Levels \<Rightarrow> VertexId list \<Rightarrow> VertexId \<Rightarrow> bool"
  for g sdc lv regs where
  reg_clk: "v \<in> set regs \<Longrightarrow> above_clk_pin g sdc lv regs v"
| above: "above_clk_pin g sdc lv regs v \<Longrightarrow> clk_edge g sdc lv u v \<Longrightarrow> above_clk_pin g sdc lv regs u"

section \<open>Lemmas\<close>

lemma clk_tree_in_nonLatch: "searchThruClkTree g sdc dis e \<Longrightarrow> searchThruNonLatch2 g sdc dis e"
  by (auto simp: searchThruClkTree_def search_thru_defs latches_isLatchDtoQ_def tr_isWire_def tr_new_def Let_def)

text \<open>The graph with its levels: what levelizing gives.\<close>

definition clk_levels_ok :: "TGraph \<Rightarrow> SdcFlags \<Rightarrow> Levels \<Rightarrow> bool" where
  "clk_levels_ok g sdc lv \<longleftrightarrow>
     lv_levels_valid lv \<and> graph_wf g \<and> level_range g lv \<and>
     (\<forall>v \<in> set (tg_vertices g). \<forall>u. clk_edge g sdc lv u v \<longrightarrow> lv_level lv u < lv_level lv v)"

lemma levelized_clk_levels:
  assumes wf: "graph_wf g" "no_bidirect g sdc" and latch: "\<forall>u. \<not> latch_source g u" and fresh: "levels_fresh g st"
    and run: "levelize g sdc st = Inr lv"
  shows "clk_levels_ok g sdc lv"
proof -
  have space: "0 < lv_space st" using fresh by (simp add: levels_fresh_def)
  have up: "lv_levels_valid lv" "\<And>u e. u \<in> set (tg_vertices g) \<Longrightarrow> e \<in> set (tg_out_edges g u) \<Longrightarrow> searchable g sdc lv e \<Longrightarrow>
      lv_level lv u + lv_space st \<le> lv_level lv (te_to (tg_edge g e))"
    using levelize_up [OF wf fresh] run latch by auto
  have "lv_level lv u < lv_level lv v" if v: "v \<in> set (tg_vertices g)" and edge: "clk_edge g sdc lv u v" for u v
  proof -
    obtain e where e: "e \<in> set (tg_in_edges g v)" "te_from (tg_edge g e) = u" "searchTo0 g v" "searchFrom0 g u"
        "searchThruNonLatch2 g sdc (lv_disabled lv) e"
      using edge clk_tree_in_nonLatch by (auto simp: clk_edge_def)
    then have "te_to (tg_edge g e) = v" "u \<in> set (tg_vertices g)" "e \<in> set (tg_out_edges g u)"
      using wf(1) v by (auto simp: graph_wf_def)
    then show ?thesis using up(2) [of u e] e space by (simp add: searchable_def)
  qed
  then show ?thesis
    using up(1) wf(1) levelize_level_range [OF latch fresh run] by (simp add: clk_levels_ok_def)
qed

definition clk_fanin :: "TGraph \<Rightarrow> SdcFlags \<Rightarrow> Levels \<Rightarrow> VertexId \<Rightarrow> VertexId list" where
  "clk_fanin g sdc lv v = bfs_adjacent g lv (clk_tree_pred g sdc lv) BFS_bkwd 0 v"

lemma clk_fanin_edges:
  assumes "clk_levels_ok g sdc lv" "v \<in> set (tg_vertices g)"
  shows "u \<in> set (clk_fanin g sdc lv v) \<longleftrightarrow> clk_edge g sdc lv u v"
    "clk_edge g sdc lv u v \<Longrightarrow> u \<in> set (tg_vertices g) \<and> lv_level lv u < lv_level lv v"
proof -
  have ends: "te_from (tg_edge g e) \<in> set (tg_vertices g) \<and> 0 \<le> lv_level lv (te_from (tg_edge g e))"
    if "e \<in> set (tg_in_edges g v)" for e
    using assms that by (auto simp: clk_levels_ok_def graph_wf_def level_range_def)
  then show "u \<in> set (clk_fanin g sdc lv v) \<longleftrightarrow> clk_edge g sdc lv u v"
    by (auto simp: clk_fanin_def bfs_adjacent_def clk_tree_pred_def pred_with_def clk_edge_def)
  show "clk_edge g sdc lv u v \<Longrightarrow> u \<in> set (tg_vertices g) \<and> lv_level lv u < lv_level lv v"
    using ends assms by (auto simp: clk_edge_def clk_levels_ok_def)
qed

lemma vertex_level_ok:
  assumes "clk_levels_ok g sdc lv" "same_shape (bfs_new BFS_bkwd lv) b" "v \<in> set (tg_vertices g)"
  shows "bfs_level_ok (lv_level lv v) b"
proof -
  have "bfs_level_ok (lv_level lv v) (bfs_new BFS_bkwd lv)"
    using bfs_new_ok(3) assms(1,3) by (auto simp: clk_levels_ok_def level_range_def)
  then show ?thesis using assms(2) by (simp add: bfs_level_ok_def same_shape_def)
qed

text \<open>The loop: \<open>D\<close> are the vertices that it has marked.\<close>

definition clk_queue_ok :: "TGraph \<Rightarrow> Levels \<Rightarrow> BfsIterator \<Rightarrow> bool" where
  "clk_queue_ok g lv b \<longleftrightarrow>
     bfs_wf lv {} b \<and> no_null b \<and> same_shape (bfs_new BFS_bkwd lv) b \<and> queued b \<subseteq> set (tg_vertices g)"

definition clk_marked :: "TGraph \<Rightarrow> SdcFlags \<Rightarrow> Levels \<Rightarrow> VertexId list \<Rightarrow> VertexId set \<Rightarrow> VertexId set \<Rightarrow> bool" where
  "clk_marked g sdc lv regs D Q \<longleftrightarrow>
     set regs \<subseteq> D \<union> Q \<and> (\<forall>v \<in> D \<union> Q. above_clk_pin g sdc lv regs v) \<and> (\<forall>v \<in> D. \<forall>u. clk_edge g sdc lv u v \<longrightarrow> u \<in> D \<union> Q)"

lemma clk_marked_all: "clk_marked g sdc lv regs D {} \<Longrightarrow> above_clk_pin g sdc lv regs v \<longleftrightarrow> v \<in> D"
proof
  assume inv: "clk_marked g sdc lv regs D {}"
  show "v \<in> D" if "above_clk_pin g sdc lv regs v"
    using that by induction (use inv in \<open>auto simp: clk_marked_def\<close>)
qed (simp add: clk_marked_def)

text \<open>One turn: the next vertex is marked and its fanin queued, of lower levels.\<close>

lemma mark_step:
  assumes lv: "clk_levels_ok g sdc lv" and q: "clk_queue_ok g lv b" "queued b \<noteq> {}" and inv: "clk_marked g sdc lv regs D (queued b)"
  shows "\<exists>v b'. mark_downstream g lv (clk_tree_pred g sdc lv) cp b =
      mark_downstream g lv (clk_tree_pred g sdc lv) (setHasDownstreamClkPin v True cp) b' \<and> clk_queue_ok g lv b' \<and>
    clk_marked g sdc lv regs (insert v D) (queued b') \<and>
    (image_mset (nat \<circ> lv_level lv) (mset_set (queued b')), image_mset (nat \<circ> lv_level lv) (mset_set (queued b))) \<in> mult less_than"
proof -
  have b: "bfs_wf lv {} b" "no_null b" "same_shape (bfs_new BFS_bkwd lv) b" "queued b \<subseteq> set (tg_vertices g)"
    using q(1) by (simp_all add: clk_queue_ok_def)
  obtain b1 v b2 where step: "bfs_hasNext (bf_last_level b) b = Inr (True, b1)" "bfs_next b1 = Inr (v, b2)" "v \<in> queued b"
      "bfs_wf lv {} b2" "same_shape b b2" "queued b2 = queued b - {v}" "no_null b2"
    using bfs_next_ok(2) [OF b(1,2) q(2)] by blast
  have v: "v \<in> set (tg_vertices g)" using step(3) b(4) by auto
  have shape2: "same_shape (bfs_new BFS_bkwd lv) b2" using same_shape_trans [OF b(3) step(5)] .
  have valid: "lv_levels_valid lv" "0 \<le> lv_max_level lv" using lv by (simp_all add: clk_levels_ok_def level_range_def)
  have fanin: "bfs_enqueueAdjacent g lv (clk_tree_pred g sdc lv) v b2 = bfs_enqueueAll lv (clk_fanin g sdc lv v) b2"
    using shape2 bfs_new_ok(4,6) [OF valid] by (simp add: bfs_enqueueAdjacent_def bfs_enqueueAdjacentTo_def clk_fanin_def same_shape_def)
  have below: "u \<in> set (tg_vertices g) \<and> lv_level lv u < lv_level lv v" if "u \<in> set (clk_fanin g sdc lv v)" for u
    using clk_fanin_edges [OF lv v] that by blast
  then have "\<forall>u \<in> set (clk_fanin g sdc lv v). bfs_level_ok (lv_level lv u) b2" using vertex_level_ok [OF lv shape2] by blast
  then obtain b' where b': "bfs_enqueueAll lv (clk_fanin g sdc lv v) b2 = Inr b'" "bfs_wf lv {} b'"
      "queued b' = queued b - {v} \<union> set (clk_fanin g sdc lv v)" "same_shape b2 b'"
    using bfs_enqueueAll_ok [OF step(4)] step(6) by metis
  have "clk_queue_ok g lv b'"
    using b'(2,3) b(4) below enqueueAll_no_null [OF b'(1) step(7)] same_shape_trans [OF shape2 b'(4)]
    by (auto simp: clk_queue_ok_def)
  moreover have "clk_marked g sdc lv regs (insert v D) (queued b')"
    using inv step(3) clk_fanin_edges [OF lv v] unfolding clk_marked_def b'(3) by (auto intro: above)
  moreover have "(image_mset (nat \<circ> lv_level lv) (mset_set (queued b')), image_mset (nat \<circ> lv_level lv) (mset_set (queued b)))
      \<in> mult less_than"
  proof -
    have "\<forall>u \<in> set (clk_fanin g sdc lv v). (nat \<circ> lv_level lv) u < (nat \<circ> lv_level lv) v"
      using below lv by (fastforce simp: clk_levels_ok_def level_range_def)
    then show ?thesis
      using step_ranks [of "queued b - {v}" v "clk_fanin g sdc lv v" "nat \<circ> lv_level lv"] finite_queued [OF b(1)] step(3)
      by (simp add: b'(3) insert_absorb)
  qed
  moreover have "mark_downstream g lv (clk_tree_pred g sdc lv) cp b =
      mark_downstream g lv (clk_tree_pred g sdc lv) (setHasDownstreamClkPin v True cp) b'"
    using step(1,2) fanin b'(1) by (subst mark_downstream.simps) simp
  ultimately show ?thesis by blast
qed

lemma mark_downstream_ok:
  assumes lv: "clk_levels_ok g sdc lv"
  shows "clk_queue_ok g lv b \<Longrightarrow> clk_marked g sdc lv regs D (queued b) \<Longrightarrow> \<forall>v \<in> D. cp_downstream cp v \<Longrightarrow>
    \<exists>cp'. mark_downstream g lv (clk_tree_pred g sdc lv) cp b = Some (Inr cp') \<and>
      (\<forall>v. cp_downstream cp' v \<longleftrightarrow> cp_downstream cp v \<or> above_clk_pin g sdc lv regs v)"
proof (induction "image_mset (nat \<circ> lv_level lv) (mset_set (queued b))" arbitrary: D cp b
    rule: wf_induct_rule [OF wf_mult [OF wf_less_than]])
  case 1
  show ?case
  proof (cases "queued b = {}")
    case True
    have "bfs_wf lv {} b" "no_null b" using 1(2) by (simp_all add: clk_queue_ok_def)
    then obtain b1 where "bfs_hasNext (bf_last_level b) b = Inr (False, b1)" using bfs_next_ok(1) True by blast
    then have "mark_downstream g lv (clk_tree_pred g sdc lv) cp b = Some (Inr cp)" by (subst mark_downstream.simps) simp
    moreover have "\<forall>v. above_clk_pin g sdc lv regs v \<longleftrightarrow> v \<in> D" using clk_marked_all 1(3) True by metis
    ultimately show ?thesis using 1(4) by auto
  next
    case False
    obtain v b' where step: "mark_downstream g lv (clk_tree_pred g sdc lv) cp b =
        mark_downstream g lv (clk_tree_pred g sdc lv) (setHasDownstreamClkPin v True cp) b'" "clk_queue_ok g lv b'"
        "clk_marked g sdc lv regs (insert v D) (queued b')"
        "(image_mset (nat \<circ> lv_level lv) (mset_set (queued b')), image_mset (nat \<circ> lv_level lv) (mset_set (queued b))) \<in> mult less_than"
      using mark_step [OF lv 1(2) False 1(3)] by blast
    define cp1 where "cp1 = setHasDownstreamClkPin v True cp"
    have cp1: "\<forall>u. cp_downstream cp1 u \<longleftrightarrow> u = v \<or> cp_downstream cp u" by (simp add: cp1_def setHasDownstreamClkPin_def)
    then have "\<forall>u \<in> insert v D. cp_downstream cp1 u" using 1(4) by simp
    then obtain cp' where cp': "mark_downstream g lv (clk_tree_pred g sdc lv) cp1 b' = Some (Inr cp')"
        "\<forall>u. cp_downstream cp' u \<longleftrightarrow> cp_downstream cp1 u \<or> above_clk_pin g sdc lv regs u"
      using 1(1) [OF step(4,2,3)] by blast
    moreover have "above_clk_pin g sdc lv regs v" using step(3) by (simp add: clk_marked_def)
    ultimately show ?thesis unfolding step(1) cp1_def [symmetric] using cp1 by metis
  qed
qed

lemma ensure_downstream_ok:
  assumes lv: "clk_levels_ok g sdc lv" and regs: "set regs \<subseteq> set (tg_vertices g)" and cp: "\<not> cp_found cp"
  shows "\<exists>cp'. ensureDownstreamClkPins g sdc lv regs cp = Some (Inr cp') \<and> cp_found cp' \<and>
    (\<forall>v. cp_downstream cp' v \<longleftrightarrow> cp_downstream cp v \<or> above_clk_pin g sdc lv regs v)"
proof -
  have valid: "lv_levels_valid lv" "0 \<le> lv_max_level lv" using lv by (simp_all add: clk_levels_ok_def level_range_def)
  note new = bfs_new_ok(1,2,7) [OF valid, of BFS_bkwd]
  have "\<forall>v \<in> set regs. bfs_level_ok (lv_level lv v) (bfs_new BFS_bkwd lv)"
    using vertex_level_ok [OF lv same_shape_refl] regs by auto
  then obtain b where b: "bfs_enqueueAll lv regs (bfs_new BFS_bkwd lv) = Inr b" "bfs_wf lv {} b"
      "queued b = set regs" "same_shape (bfs_new BFS_bkwd lv) b"
    using bfs_enqueueAll_ok [OF new(1)] new(2) by (metis Un_empty_left)
  have "clk_queue_ok g lv b"
    using b(2-4) regs enqueueAll_no_null [OF b(1) new(3)] by (simp add: clk_queue_ok_def)
  moreover have "clk_marked g sdc lv regs {} (queued b)" by (simp add: clk_marked_def b(3) reg_clk)
  ultimately obtain cp' where "mark_downstream g lv (clk_tree_pred g sdc lv) cp b = Some (Inr cp')"
      "\<forall>v. cp_downstream cp' v \<longleftrightarrow> cp_downstream cp v \<or> above_clk_pin g sdc lv regs v"
    using mark_downstream_ok [OF lv, of b regs "{}" cp] by auto
  then show ?thesis using b(1) cp by (simp add: ensureDownstreamClkPins_def)
qed

text \<open>The data of the latch of \<open>latch_graph\<close> is outside the queue of every iterator: enqueueing it fails.\<close>

lemma latch_vertex_outside_queue:
  "case levelize latch_graph loop_sdc lv_new of
     Inl _ \<Rightarrow> False
   | Inr lv \<Rightarrow> (case bfs_enqueue lv 1 (bfs_new BFS_fwd lv) of Inl err \<Rightarrow> err = StateOutOfRange | Inr _ \<Rightarrow> False)"
  by code_simp

section \<open>Properties\<close>



end
