(* ===== verification/GTP_LibertyTable.thy ===== *)
theory GTP_LibertyTable
  imports GTP_RiseFall
begin

text \<open>
  Tables of the cell library on the host (\<open>liberty/TableModel.cc\<close>): axes with their bisection search, tables of
  dimension zero to three with linear interpolation and extrapolation, tables with a scale factor for process,
  temperature and voltage (\<open>liberty/Liberty.cc\<close>), and the three models that use them: delays of gates, timing
  checks and internal power (\<open>liberty/InternalPower.cc\<close>). An access out of range and a critical error, which ends the
  program, are errors of the model; so is a division by zero, since a real has no infinities.
\<close>

section \<open>Axes\<close>

datatype table_error = ValueOutOfRange | DivideByZero | CriticalError nat | NullPointer

datatype TableAxisVariable =
    AV_total_output_net_capacitance | AV_equal_or_opposite_output_net_capacitance | AV_input_net_transition
  | AV_input_transition_time | AV_related_pin_transition | AV_constrained_pin_transition | AV_output_pin_transition
  | AV_connect_delay | AV_related_out_total_output_net_capacitance | AV_time | AV_iv_output_voltage
  | AV_input_noise_width | AV_input_noise_height | AV_input_voltage | AV_output_voltage | AV_path_depth
  | AV_path_distance | AV_normalized_voltage | AV_unknown

record TableAxis =
  ax_variable :: TableAxisVariable
  ax_values :: "real list"

definition axis_min :: "TableAxis \<Rightarrow> real" where
  "axis_min axis = (if ax_values axis \<noteq> [] then ax_values axis ! 0 else 0)"

definition axis_max :: "TableAxis \<Rightarrow> real" where
  "axis_max axis = (let size = length (ax_values axis) in if 0 < size then ax_values axis ! (size - 1) else 0)"

definition axis_inBounds :: "TableAxis \<Rightarrow> real \<Rightarrow> bool" where
  "axis_inBounds axis v =
     (let size = length (ax_values axis) in
      1 < size \<and> v \<ge> ax_values axis ! 0 \<and> v \<le> ax_values axis ! (size - 1))"

text \<open>The bisection: the bounds are signed, the lower one starts before the first element.\<close>

function bisect_loop :: "(int \<Rightarrow> bool) \<Rightarrow> int \<Rightarrow> int \<Rightarrow> int \<times> int" where
  "bisect_loop ge lower upper =
     (if upper - lower > 1 then
        let mid = (upper + lower) div 2 in
        if ge mid then bisect_loop ge mid upper else bisect_loop ge lower mid
      else (lower, upper))"
  by pat_completeness auto
termination
  by (relation "measure (\<lambda>(ge, lower, upper). nat (upper - lower))") auto

declare bisect_loop.simps [simp del]

definition findValueIndex :: "real \<Rightarrow> real list \<Rightarrow> nat" where
  "findValueIndex v values =
     (let size = length values in
      if size \<le> 1 \<or> v \<le> values ! 0 then 0
      else if v \<ge> values ! (size - 1) then size - 2
      else nat (fst (bisect_loop (\<lambda>mid. v \<ge> values ! nat mid) (-1) (int size))))"

definition findAxisIndex :: "TableAxis \<Rightarrow> real \<Rightarrow> nat" where
  "findAxisIndex axis v = findValueIndex v (ax_values axis)"

text \<open>The index of a value that is on the axis.\<close>

function exact_loop :: "(int \<Rightarrow> real) \<Rightarrow> real \<Rightarrow> int \<Rightarrow> int \<Rightarrow> int option" where
  "exact_loop values v lower upper =
     (if upper - lower > 1 then
        let mid = (upper + lower) div 2 in
        if v = values mid then Some mid
        else if v > values mid then exact_loop values v mid upper
        else exact_loop values v lower mid
      else None)"
  by pat_completeness auto
termination
  by (relation "measure (\<lambda>(values, v, lower, upper). nat (upper - lower))") auto

declare exact_loop.simps [simp del]

definition findAxisIndex_exists :: "TableAxis \<Rightarrow> real \<Rightarrow> nat option" where
  "findAxisIndex_exists axis v =
     (let values = ax_values axis; size = length values in
      if size \<noteq> 0 \<and> v \<ge> values ! 0 \<and> v \<le> values ! (size - 1)
      then map_option nat (exact_loop (\<lambda>i. values ! nat i) v (-1) (int size)) else None)"

definition findAxisClosestIndex :: "TableAxis \<Rightarrow> real \<Rightarrow> nat" where
  "findAxisClosestIndex axis v =
     (let values = ax_values axis; size = length values in
      if size \<le> 1 \<or> v \<le> values ! 0 then 0
      else if v \<ge> values ! (size - 1) then size - 1
      else let (lower, upper) = bisect_loop (\<lambda>mid. v \<ge> values ! nat mid) (-1) (int size) in
           if v - values ! nat lower < values ! nat upper - v then nat lower else nat upper)"

section \<open>Tables\<close>

text \<open>Rows of a table of dimension three are indexed by the first two axes.\<close>

datatype Table =
    Table0 real
  | Table1 "real list" TableAxis
  | Table2 "real list list" TableAxis TableAxis
  | Table3 "real list list" TableAxis TableAxis TableAxis

fun table_order :: "Table \<Rightarrow> nat" where
  "table_order (Table0 v) = 0"
| "table_order (Table1 vals a1) = 1"
| "table_order (Table2 rows a1 a2) = 2"
| "table_order (Table3 rows a1 a2 a3) = 3"

fun table_axis1 :: "Table \<Rightarrow> TableAxis option" where
  "table_axis1 (Table0 v) = None"
| "table_axis1 (Table1 vals a1) = Some a1"
| "table_axis1 (Table2 rows a1 a2) = Some a1"
| "table_axis1 (Table3 rows a1 a2 a3) = Some a1"

fun table_axis2 :: "Table \<Rightarrow> TableAxis option" where
  "table_axis2 (Table2 rows a1 a2) = Some a2"
| "table_axis2 (Table3 rows a1 a2 a3) = Some a2"
| "table_axis2 _ = None"

fun table_axis3 :: "Table \<Rightarrow> TableAxis option" where
  "table_axis3 (Table3 rows a1 a2 a3) = Some a3"
| "table_axis3 _ = None"

definition vec_at :: "'a list \<Rightarrow> nat \<Rightarrow> table_error + 'a" where
  "vec_at xs i = (if i < length xs then Inr (xs ! i) else Inl ValueOutOfRange)"

definition rows_at :: "real list list \<Rightarrow> nat \<Rightarrow> nat \<Rightarrow> table_error + real" where
  "rows_at rows i j = res_bind (vec_at rows i) (\<lambda>row. vec_at row j)"

definition rows3_at :: "real list list \<Rightarrow> TableAxis \<Rightarrow> nat \<Rightarrow> nat \<Rightarrow> nat \<Rightarrow> table_error + real" where
  "rows3_at rows a2 i j k = rows_at rows (i * length (ax_values a2) + j) k"

fun table_value :: "Table \<Rightarrow> nat \<Rightarrow> nat \<Rightarrow> nat \<Rightarrow> table_error + real" where
  "table_value (Table0 v) i j k = Inr v"
| "table_value (Table1 vals a1) i j k = vec_at vals i"
| "table_value (Table2 rows a1 a2) i j k = rows_at rows i j"
| "table_value (Table3 rows a1 a2 a3) i j k = rows3_at rows a2 i j k"

text \<open>The position of a value between the neighbours of a segment of an axis.\<close>

definition axis_fraction :: "TableAxis \<Rightarrow> nat \<Rightarrow> real \<Rightarrow> table_error + real" where
  "axis_fraction axis i x =
     res_bind (vec_at (ax_values axis) i) (\<lambda>xl.
     res_bind (vec_at (ax_values axis) (i + 1)) (\<lambda>xu.
       if xu - xl = 0 then Inl DivideByZero else Inr ((x - xl) / (xu - xl))))"

text \<open>A float converted to an index loses its fraction; a negative integer part is undefined.\<close>

definition float_index :: "real \<Rightarrow> table_error + nat" where
  "float_index x = (if -1 < x then Inr (nat \<lfloor>x\<rfloor>) else Inl ValueOutOfRange)"

definition Table1_findValue :: "real list \<Rightarrow> TableAxis \<Rightarrow> real \<Rightarrow> table_error + real" where
  "Table1_findValue vals a1 x1 =
     (if length (ax_values a1) = 1 then res_bind (float_index x1) (vec_at vals)
      else let i = findAxisIndex a1 x1 in
        res_bind (vec_at vals i) (\<lambda>y1.
        res_bind (vec_at vals (i + 1)) (\<lambda>y2.
        res_bind (axis_fraction a1 i x1) (\<lambda>dx1. Inr ((1 - dx1) * y1 + dx1 * y2)))))"

text \<open>Below the axis the value is zero, above it the last one.\<close>

definition Table1_findValueClip :: "real list \<Rightarrow> TableAxis \<Rightarrow> real \<Rightarrow> table_error + real" where
  "Table1_findValueClip vals a1 x1 =
     (if length (ax_values a1) = 1 then res_bind (float_index x1) (vec_at vals)
      else let i = findAxisIndex a1 x1 in
        res_bind (vec_at (ax_values a1) i) (\<lambda>x1l.
        res_bind (vec_at (ax_values a1) (i + 1)) (\<lambda>x1u.
          if x1 < x1l then Inr 0
          else if x1 > x1u then vec_at vals (length (ax_values a1) - 1)
          else
            res_bind (vec_at vals i) (\<lambda>y1.
            res_bind (vec_at vals (i + 1)) (\<lambda>y2.
            res_bind (axis_fraction a1 i x1) (\<lambda>dx1. Inr ((1 - dx1) * y1 + dx1 * y2)))))))"

definition Table2_findValue ::
  "real list list \<Rightarrow> TableAxis \<Rightarrow> TableAxis \<Rightarrow> real \<Rightarrow> real \<Rightarrow> table_error + real" where
  "Table2_findValue rows a1 a2 x1 x2 =
     (let size1 = length (ax_values a1); size2 = length (ax_values a2);
          i = findAxisIndex a1 x1; j = findAxisIndex a2 x2 in
      if size1 = 1 then
        (if size2 = 1 then rows_at rows 0 0
         else
           res_bind (rows_at rows 0 j) (\<lambda>y00.
           res_bind (axis_fraction a2 j x2) (\<lambda>dx2.
           res_bind (rows_at rows 0 (j + 1)) (\<lambda>y01. Inr ((1 - dx2) * y00 + dx2 * y01)))))
      else if size2 = 1 then
        res_bind (rows_at rows i 0) (\<lambda>y00.
        res_bind (axis_fraction a1 i x1) (\<lambda>dx1.
        res_bind (rows_at rows (i + 1) 0) (\<lambda>y10. Inr ((1 - dx1) * y00 + dx1 * y10))))
      else
        res_bind (rows_at rows i j) (\<lambda>y00.
        res_bind (axis_fraction a1 i x1) (\<lambda>dx1.
        res_bind (rows_at rows (i + 1) j) (\<lambda>y10.
        res_bind (rows_at rows (i + 1) (j + 1)) (\<lambda>y11.
        res_bind (axis_fraction a2 j x2) (\<lambda>dx2.
        res_bind (rows_at rows i (j + 1)) (\<lambda>y01.
          Inr ((1 - dx1) * (1 - dx2) * y00 + dx1 * (1 - dx2) * y10 + dx1 * dx2 * y11 + (1 - dx1) * dx2 * y01))))))))"

text \<open>With one value on an axis, the neighbour is zero and so is its weight.\<close>

definition Table3_findValue ::
  "real list list \<Rightarrow> TableAxis \<Rightarrow> TableAxis \<Rightarrow> TableAxis \<Rightarrow> real \<Rightarrow> real \<Rightarrow> real \<Rightarrow> table_error + real" where
  "Table3_findValue rows a1 a2 a3 x1 x2 x3 =
     (let i = findAxisIndex a1 x1; j = findAxisIndex a2 x2; k = findAxisIndex a3 x3;
          b1 = (length (ax_values a1) \<noteq> 1); b2 = (length (ax_values a2) \<noteq> 1); b3 = (length (ax_values a3) \<noteq> 1);
          y = (\<lambda>on di dj dk. if on then rows3_at rows a2 (i + di) (j + dj) (k + dk) else Inr 0);
          d = (\<lambda>on a i x. if on then axis_fraction a i x else Inr 0) in
      res_bind (y True 0 0 0) (\<lambda>y000.
      res_bind (d b1 a1 i x1) (\<lambda>dx1.
      res_bind (y b1 1 0 0) (\<lambda>y100.
      res_bind (y (b1 \<and> b3) 1 0 1) (\<lambda>y101.
      res_bind (y (b1 \<and> b2) 1 1 0) (\<lambda>y110.
      res_bind (y (b1 \<and> b2 \<and> b3) 1 1 1) (\<lambda>y111.
      res_bind (d b2 a2 j x2) (\<lambda>dx2.
      res_bind (y b2 0 1 0) (\<lambda>y010.
      res_bind (y (b2 \<and> b3) 0 1 1) (\<lambda>y011.
      res_bind (d b3 a3 k x3) (\<lambda>dx3.
      res_bind (y b3 0 0 1) (\<lambda>y001.
        Inr ((1 - dx1) * (1 - dx2) * (1 - dx3) * y000 + (1 - dx1) * (1 - dx2) * dx3 * y001
             + (1 - dx1) * dx2 * (1 - dx3) * y010 + (1 - dx1) * dx2 * dx3 * y011
             + dx1 * (1 - dx2) * (1 - dx3) * y100 + dx1 * (1 - dx2) * dx3 * y101
             + dx1 * dx2 * (1 - dx3) * y110 + dx1 * dx2 * dx3 * y111)))))))))))))"

fun table_findValue :: "Table \<Rightarrow> real \<Rightarrow> real \<Rightarrow> real \<Rightarrow> table_error + real" where
  "table_findValue (Table0 v) x1 x2 x3 = Inr v"
| "table_findValue (Table1 vals a1) x1 x2 x3 = Table1_findValue vals a1 x1"
| "table_findValue (Table2 rows a1 a2) x1 x2 x3 = Table2_findValue rows a1 a2 x1 x2"
| "table_findValue (Table3 rows a1 a2 a3) x1 x2 x3 = Table3_findValue rows a1 a2 a3 x1 x2 x3"

section \<open>Scale factors\<close>

datatype ScaleFactorType =
    SF_pin_cap | SF_wire_cap | SF_wire_res | SF_min_period | SF_cell | SF_hold | SF_setup | SF_recovery | SF_removal
  | SF_nochange | SF_skew | SF_leakage_power | SF_internal_power | SF_transition | SF_min_pulse_width | SF_unknown

datatype ScaleFactorPvt = SP_process | SP_volt | SP_temp | SP_unknown

type_synonym ScaleFactors = "ScaleFactorType \<Rightarrow> ScaleFactorPvt \<Rightarrow> RiseFall \<Rightarrow> real"

definition ScaleFactors_new :: ScaleFactors where
  "ScaleFactors_new = (\<lambda>type pvt rf. 0)"

definition setScale_rf :: "ScaleFactors \<Rightarrow> ScaleFactorType \<Rightarrow> ScaleFactorPvt \<Rightarrow> RiseFall \<Rightarrow> real \<Rightarrow> ScaleFactors" where
  "setScale_rf sf type pvt rf scale =
     (\<lambda>type' pvt' rf'. if type' = type \<and> pvt' = pvt \<and> rf' = rf then scale else sf type' pvt' rf')"

text \<open>Without an edge, the entry of the first index, which is rise.\<close>

definition setScale :: "ScaleFactors \<Rightarrow> ScaleFactorType \<Rightarrow> ScaleFactorPvt \<Rightarrow> real \<Rightarrow> ScaleFactors" where
  "setScale sf type pvt scale = setScale_rf sf type pvt (rf_find_index 0) scale"

record Pvt =
  pvt_process :: real
  pvt_voltage :: real
  pvt_temperature :: real

record LibertyLibrary =
  ll_nominal_process :: real
  ll_nominal_voltage :: real
  ll_nominal_temperature :: real
  ll_scale_factors :: "ScaleFactors option"
  ll_default_operating_conditions :: "Pvt option"

record LibertyCell =
  lc_library :: LibertyLibrary
  lc_scale_factors :: "ScaleFactors option"

definition library_scaleFactor ::
  "LibertyLibrary \<Rightarrow> ScaleFactorType \<Rightarrow> RiseFall \<Rightarrow> LibertyCell option \<Rightarrow> Pvt option \<Rightarrow> real" where
  "library_scaleFactor lib type rf cell pvt0 =
     (case (if pvt0 = None then ll_default_operating_conditions lib else pvt0) of
        None \<Rightarrow> 1
      | Some pvt \<Rightarrow>
          (case (case (case cell of None \<Rightarrow> None | Some c \<Rightarrow> lc_scale_factors c) of
                   None \<Rightarrow> ll_scale_factors lib | Some sf \<Rightarrow> Some sf) of
             None \<Rightarrow> 1
           | Some sf \<Rightarrow>
               (1 + (pvt_process pvt - ll_nominal_process lib) * sf type SP_process rf)
               * (1 + (pvt_temperature pvt - ll_nominal_temperature lib) * sf type SP_temp rf)
               * (1 + (pvt_voltage pvt - ll_nominal_voltage lib) * sf type SP_volt rf)))"

record TableModel =
  tm_table :: Table
  tm_scale_factor_type :: ScaleFactorType
  tm_rf :: RiseFall
  tm_is_scaled :: bool

definition TableModel_new :: "Table \<Rightarrow> ScaleFactorType \<Rightarrow> RiseFall \<Rightarrow> TableModel" where
  "TableModel_new table type rf =
     \<lparr>tm_table = table, tm_scale_factor_type = type, tm_rf = rf, tm_is_scaled = False\<rparr>"

definition tm_scaleFactor :: "TableModel \<Rightarrow> LibertyCell \<Rightarrow> Pvt option \<Rightarrow> real" where
  "tm_scaleFactor m cell pvt =
     (if tm_is_scaled m then 1
      else library_scaleFactor (lc_library cell) (tm_scale_factor_type m) (tm_rf m) (Some cell) pvt)"

definition tm_findValue :: "TableModel \<Rightarrow> LibertyCell \<Rightarrow> Pvt option \<Rightarrow> real \<Rightarrow> real \<Rightarrow> real \<Rightarrow> table_error + real" where
  "tm_findValue m cell pvt x1 x2 x3 =
     res_bind (table_findValue (tm_table m) x1 x2 x3) (\<lambda>v. Inr (v * tm_scaleFactor m cell pvt))"

section \<open>Internal power\<close>

text \<open>The values of the axes of a model from a slew and a load, by the variable of each axis.\<close>

definition ipm_axisValue :: "TableAxis \<Rightarrow> real \<Rightarrow> real \<Rightarrow> table_error + real" where
  "ipm_axisValue axis in_slew load_cap =
     (if ax_variable axis = AV_input_transition_time then Inr in_slew
      else if ax_variable axis = AV_total_output_net_capacitance then Inr load_cap
      else Inl (CriticalError 226))"

text \<open>The choice of the axes by the order of the table, the same for the three models; \<open>err\<close> is for other orders.\<close>

definition axis_values_by_order ::
  "(TableAxis \<Rightarrow> table_error + real) \<Rightarrow> Table \<Rightarrow> table_error + real \<times> real \<times> real" where
  "axis_values_by_order value_of table =
     (case (table_axis1 table, table_axis2 table, table_axis3 table) of
        (Some a1, None, None) \<Rightarrow> res_bind (value_of a1) (\<lambda>x1. Inr (x1, 0, 0))
      | (Some a1, Some a2, None) \<Rightarrow>
          res_bind (value_of a1) (\<lambda>x1. res_bind (value_of a2) (\<lambda>x2. Inr (x1, x2, 0)))
      | (Some a1, Some a2, Some a3) \<Rightarrow>
          res_bind (value_of a1) (\<lambda>x1. res_bind (value_of a2) (\<lambda>x2. res_bind (value_of a3) (\<lambda>x3. Inr (x1, x2, x3))))
      | _ \<Rightarrow> Inr (0, 0, 0))"

definition ipm_findAxisValues :: "TableModel \<Rightarrow> real \<Rightarrow> real \<Rightarrow> table_error + real \<times> real \<times> real" where
  "ipm_findAxisValues m in_slew load_cap =
     axis_values_by_order (\<lambda>axis. ipm_axisValue axis in_slew load_cap) (tm_table m)"

definition ipm_power :: "TableModel option \<Rightarrow> LibertyCell \<Rightarrow> Pvt option \<Rightarrow> real \<Rightarrow> real \<Rightarrow> table_error + real" where
  "ipm_power model cell pvt in_slew load_cap =
     (case model of
        None \<Rightarrow> Inr 0
      | Some m \<Rightarrow> res_bind (ipm_findAxisValues m in_slew load_cap) (\<lambda>(x1, x2, x3). tm_findValue m cell pvt x1 x2 x3))"

definition ipm_checkAxis :: "TableAxis \<Rightarrow> bool" where
  "ipm_checkAxis axis \<longleftrightarrow> ax_variable axis = AV_constrained_pin_transition
     \<or> ax_variable axis = AV_related_pin_transition \<or> ax_variable axis = AV_related_out_total_output_net_capacitance"

definition opt_check :: "(TableAxis \<Rightarrow> bool) \<Rightarrow> TableAxis option \<Rightarrow> bool" where
  "opt_check check axis = (case axis of None \<Rightarrow> True | Some a \<Rightarrow> check a)"

definition ipm_checkAxes :: "TableModel \<Rightarrow> bool" where
  "ipm_checkAxes m \<longleftrightarrow> opt_check ipm_checkAxis (table_axis1 (tm_table m))
     \<and> opt_check ipm_checkAxis (table_axis2 (tm_table m)) \<and> table_axis3 (tm_table m) = None"

text \<open>The group of an internal power table: a model per edge, each of which may be missing.\<close>

definition InternalPower_power ::
  "(RiseFall \<Rightarrow> TableModel option option) \<Rightarrow> LibertyCell \<Rightarrow> RiseFall \<Rightarrow> Pvt option \<Rightarrow> real \<Rightarrow> real
     \<Rightarrow> table_error + real" where
  "InternalPower_power models cell rf pvt in_slew load_cap =
     (case models rf of None \<Rightarrow> Inr 0 | Some model \<Rightarrow> ipm_power model cell pvt in_slew load_cap)"

section \<open>Delays of gates\<close>

definition gtm_axisValue :: "TableAxis \<Rightarrow> real \<Rightarrow> real \<Rightarrow> real \<Rightarrow> table_error + real" where
  "gtm_axisValue axis in_slew load_cap related_out_cap =
     (if ax_variable axis = AV_input_transition_time \<or> ax_variable axis = AV_input_net_transition then Inr in_slew
      else if ax_variable axis = AV_total_output_net_capacitance then Inr load_cap
      else if ax_variable axis = AV_related_out_total_output_net_capacitance then Inr related_out_cap
      else Inl (CriticalError 240))"

definition gtm_findAxisValues :: "TableModel \<Rightarrow> real \<Rightarrow> real \<Rightarrow> real \<Rightarrow> table_error + real \<times> real \<times> real" where
  "gtm_findAxisValues m in_slew load_cap related_out_cap =
     axis_values_by_order (\<lambda>axis. gtm_axisValue axis in_slew load_cap related_out_cap) (tm_table m)"

definition gtm_findValue ::
  "LibertyCell \<Rightarrow> Pvt option \<Rightarrow> TableModel option \<Rightarrow> real \<Rightarrow> real \<Rightarrow> real \<Rightarrow> table_error + real" where
  "gtm_findValue cell pvt model in_slew load_cap related_out_cap =
     (case model of
        None \<Rightarrow> Inr 0
      | Some m \<Rightarrow> res_bind (gtm_findAxisValues m in_slew load_cap related_out_cap)
                    (\<lambda>(x1, x2, x3). tm_findValue m cell pvt x1 x2 x3))"

text \<open>Early is another name of the minimum and late of the maximum.\<close>

type_synonym EarlyLate = MinMax

record GateTableModel =
  gtm_cell :: LibertyCell
  gtm_delay_model :: "TableModel option"
  gtm_delay_sigma_models :: "EarlyLate \<Rightarrow> TableModel option"
  gtm_slew_model :: "TableModel option"
  gtm_slew_sigma_models :: "EarlyLate \<Rightarrow> TableModel option"

text \<open>Delays are plain numbers in the default build: the standard deviations are computed and dropped.\<close>

definition makeDelay :: "real \<Rightarrow> real \<Rightarrow> real \<Rightarrow> real" where
  "makeDelay delay sigma_early sigma_late = delay"

definition gtm_sigma ::
  "GateTableModel \<Rightarrow> Pvt option \<Rightarrow> real \<Rightarrow> real \<Rightarrow> bool \<Rightarrow> TableModel option \<Rightarrow> real \<Rightarrow> table_error + real" where
  "gtm_sigma g pvt in_slew load_cap pocv_enabled model old =
     (if pocv_enabled \<and> model \<noteq> None then gtm_findValue (gtm_cell g) pvt model in_slew load_cap 0 else Inr old)"

definition gateDelay :: "GateTableModel \<Rightarrow> Pvt option \<Rightarrow> real \<Rightarrow> real \<Rightarrow> bool \<Rightarrow> table_error + real \<times> real" where
  "gateDelay g pvt in_slew load_cap pocv =
     res_bind (gtm_findValue (gtm_cell g) pvt (gtm_delay_model g) in_slew load_cap 0) (\<lambda>delay.
     res_bind (gtm_sigma g pvt in_slew load_cap pocv (gtm_delay_sigma_models g MM_min) 0) (\<lambda>sigma_early.
     res_bind (gtm_sigma g pvt in_slew load_cap pocv (gtm_delay_sigma_models g MM_max) 0) (\<lambda>sigma_late.
     let gate_delay = makeDelay delay sigma_early sigma_late in
     res_bind (gtm_findValue (gtm_cell g) pvt (gtm_slew_model g) in_slew load_cap 0) (\<lambda>slew.
     res_bind (gtm_sigma g pvt in_slew load_cap pocv (gtm_slew_sigma_models g MM_min) sigma_early) (\<lambda>slew_early.
     res_bind (gtm_sigma g pvt in_slew load_cap pocv (gtm_slew_sigma_models g MM_max) sigma_late) (\<lambda>slew_late.
       Inr (gate_delay, makeDelay (if slew < 0 then 0 else slew) slew_early slew_late)))))))"

definition gtm_setIsScaled :: "bool \<Rightarrow> GateTableModel \<Rightarrow> GateTableModel" where
  "gtm_setIsScaled is_scaled g =
     g\<lparr>gtm_delay_model := map_option (tm_is_scaled_update (\<lambda>_. is_scaled)) (gtm_delay_model g),
       gtm_slew_model := map_option (tm_is_scaled_update (\<lambda>_. is_scaled)) (gtm_slew_model g)\<rparr>"

text \<open>The slew at the largest load of the first load axis.\<close>

definition load_axis :: "Table \<Rightarrow> TableAxis option" where
  "load_axis table = List.find (\<lambda>a. ax_variable a = AV_total_output_net_capacitance)
     (List.map_filter (\<lambda>a. a) [table_axis1 table, table_axis2 table, table_axis3 table])"

definition maxCapSlew :: "GateTableModel \<Rightarrow> real \<Rightarrow> Pvt option \<Rightarrow> table_error + real \<times> real" where
  "maxCapSlew g in_slew pvt =
     (case gtm_slew_model g of
        None \<Rightarrow> Inl NullPointer
      | Some m \<Rightarrow>
          res_bind (case load_axis (tm_table m) of
              Some a \<Rightarrow> res_bind (vec_at (ax_values a) (length (ax_values a) - 1)) (\<lambda>cap.
                res_bind (gtm_findValue (gtm_cell g) pvt (Some m) in_slew cap 0) (\<lambda>slew. Inr (slew, cap)))
            | None \<Rightarrow> Inr (0, 1)) (\<lambda>(slew, cap).
          Inr (if slew < 0 then 0 else slew, cap)))"

definition driveResistance :: "GateTableModel \<Rightarrow> Pvt option \<Rightarrow> table_error + real" where
  "driveResistance g pvt =
     res_bind (maxCapSlew g 0 pvt) (\<lambda>(slew, cap). if cap = 0 then Inl DivideByZero else Inr (slew / cap))"

definition gtm_checkAxis :: "TableAxis \<Rightarrow> bool" where
  "gtm_checkAxis axis \<longleftrightarrow> ax_variable axis = AV_total_output_net_capacitance
     \<or> ax_variable axis = AV_input_transition_time \<or> ax_variable axis = AV_input_net_transition
     \<or> ax_variable axis = AV_related_out_total_output_net_capacitance"

definition gtm_checkAxes :: "Table \<Rightarrow> bool" where
  "gtm_checkAxes table \<longleftrightarrow> opt_check gtm_checkAxis (table_axis1 table)
     \<and> opt_check gtm_checkAxis (table_axis2 table) \<and> opt_check gtm_checkAxis (table_axis3 table)"

text \<open>The tables of a receiver: over the slew, or over slew and load in any order.\<close>

definition receiver_checkAxes :: "Table \<Rightarrow> bool" where
  "receiver_checkAxes table =
     (let var = map_option ax_variable;
          v1 = var (table_axis1 table); v2 = var (table_axis2 table); v3 = table_axis3 table in
      (v1 = Some AV_input_net_transition \<and> v2 = None \<and> v3 = None)
      \<or> (v1 = Some AV_input_net_transition \<and> v2 = Some AV_total_output_net_capacitance \<and> v3 = None)
      \<or> (v1 = Some AV_total_output_net_capacitance \<and> v2 = Some AV_input_net_transition \<and> v3 = None))"

section \<open>Timing checks\<close>

definition ctm_axisValue :: "TableAxis \<Rightarrow> real \<Rightarrow> real \<Rightarrow> real \<Rightarrow> table_error + real" where
  "ctm_axisValue axis from_slew to_slew related_out_cap =
     (if ax_variable axis = AV_related_pin_transition then Inr from_slew
      else if ax_variable axis = AV_constrained_pin_transition then Inr to_slew
      else if ax_variable axis = AV_related_out_total_output_net_capacitance then Inr related_out_cap
      else Inl (CriticalError 242))"

record CheckTableModel =
  ctm_cell :: LibertyCell
  ctm_model :: "TableModel option"
  ctm_sigma_models :: "EarlyLate \<Rightarrow> TableModel option"

text \<open>The axes are those of the model of the mean, also when another table is looked up.\<close>

definition ctm_findAxisValues :: "CheckTableModel \<Rightarrow> real \<Rightarrow> real \<Rightarrow> real \<Rightarrow> table_error + real \<times> real \<times> real" where
  "ctm_findAxisValues c from_slew to_slew related_out_cap =
     (case ctm_model c of
        None \<Rightarrow> Inl NullPointer
      | Some m \<Rightarrow> axis_values_by_order (\<lambda>axis. ctm_axisValue axis from_slew to_slew related_out_cap) (tm_table m))"

definition ctm_findValue ::
  "CheckTableModel \<Rightarrow> Pvt option \<Rightarrow> TableModel option \<Rightarrow> real \<Rightarrow> real \<Rightarrow> real \<Rightarrow> table_error + real" where
  "ctm_findValue c pvt model from_slew to_slew related_out_cap =
     (case model of
        None \<Rightarrow> Inr 0
      | Some m \<Rightarrow> res_bind (ctm_findAxisValues c from_slew to_slew related_out_cap)
                    (\<lambda>(x1, x2, x3). tm_findValue m (ctm_cell c) pvt x1 x2 x3))"

definition checkDelay :: "CheckTableModel \<Rightarrow> Pvt option \<Rightarrow> real \<Rightarrow> real \<Rightarrow> real \<Rightarrow> bool \<Rightarrow> table_error + real" where
  "checkDelay c pvt from_slew to_slew related_out_cap pocv =
     (case ctm_model c of
        None \<Rightarrow> Inr 0
      | Some m \<Rightarrow>
          let sigma = (\<lambda>model. if pocv \<and> model \<noteq> None
                         then ctm_findValue c pvt model from_slew to_slew related_out_cap else Inr 0) in
          res_bind (ctm_findValue c pvt (Some m) from_slew to_slew related_out_cap) (\<lambda>mean.
          res_bind (sigma (ctm_sigma_models c MM_min)) (\<lambda>sigma_early.
          res_bind (sigma (ctm_sigma_models c MM_max)) (\<lambda>sigma_late.
            Inr (makeDelay mean sigma_early sigma_late)))))"

definition ctm_checkAxis :: "TableAxis \<Rightarrow> bool" where
  "ctm_checkAxis axis \<longleftrightarrow> ax_variable axis = AV_constrained_pin_transition
     \<or> ax_variable axis = AV_related_pin_transition \<or> ax_variable axis = AV_related_out_total_output_net_capacitance"

definition ctm_checkAxes :: "Table \<Rightarrow> bool" where
  "ctm_checkAxes table \<longleftrightarrow> opt_check ctm_checkAxis (table_axis1 table)
     \<and> opt_check ctm_checkAxis (table_axis2 table) \<and> opt_check ctm_checkAxis (table_axis3 table)"

section \<open>Lemmas: bisection\<close>

lemma bisect_spec:
  assumes "lower < upper"
  obtains l where "bisect_loop ge lower upper = (l, l + 1)" "lower \<le> l" "l < upper"
    "l = lower \<or> ge l" "l + 1 = upper \<or> \<not> ge (l + 1)"
proof -
  have "\<exists>l. bisect_loop ge lower upper = (l, l + 1) \<and> lower \<le> l \<and> l < upper \<and> (l = lower \<or> ge l)
      \<and> (l + 1 = upper \<or> \<not> ge (l + 1))"
    using assms
  proof (induction ge lower upper rule: bisect_loop.induct)
    case (1 ge lower upper)
    show ?case
    proof (cases "upper - lower > 1")
      case False
      with 1(3) have "upper = lower + 1" by simp
      then show ?thesis by (auto simp: bisect_loop.simps)
    next
      case True
      define mid where "mid = (upper + lower) div 2"
      have mid: "lower < mid" "mid < upper" using True by (auto simp: mid_def)
      show ?thesis
      proof (cases "ge mid")
        case ge: True
        obtain l where "bisect_loop ge mid upper = (l, l + 1)" "mid \<le> l" "l < upper" "l = mid \<or> ge l"
            "l + 1 = upper \<or> \<not> ge (l + 1)"
          using 1(1) [OF True mid_def ge mid(2)] by blast
        then show ?thesis using True ge mid by (subst bisect_loop.simps) (auto simp: mid_def Let_def)
      next
        case nge: False
        obtain l where l: "bisect_loop ge lower mid = (l, l + 1)" "lower \<le> l" "l < mid" "l = lower \<or> ge l"
            "l + 1 = mid \<or> \<not> ge (l + 1)"
          using 1(2) [OF True mid_def nge mid(1)] by blast
        then have "l + 1 = upper \<or> \<not> ge (l + 1)" using nge by auto
        then show ?thesis using True nge mid l by (subst bisect_loop.simps) (auto simp: mid_def Let_def)
      qed
    qed
  qed
  then show thesis using that by blast
qed

definition strict_axis :: "real list \<Rightarrow> bool" where
  "strict_axis values \<longleftrightarrow> values \<noteq> [] \<and> sorted_wrt (<) values"

lemma axis_less: "sorted_wrt (<) (values :: real list) \<Longrightarrow> i < j \<Longrightarrow> j < length values \<Longrightarrow> values ! i < values ! j"
  by (simp add: sorted_wrt_iff_nth_less)

lemma axis_le: "sorted_wrt (<) (values :: real list) \<Longrightarrow> i \<le> j \<Longrightarrow> j < length values \<Longrightarrow> values ! i \<le> values ! j"
  by (metis axis_less le_neq_implies_less less_imp_le order_refl)

text \<open>The segment the search finds: the first one below the axis, the last one above it, else the one of the value.\<close>

lemma value_index_inner:
  assumes "2 \<le> length values" "values ! 0 < v" "v < values ! (length values - 1)"
  shows "findValueIndex v values + 1 < length values" "values ! findValueIndex v values \<le> v"
    "v < values ! (findValueIndex v values + 1)"
proof -
  let ?ge = "\<lambda>mid. v \<ge> values ! nat mid"
  obtain l where l: "bisect_loop ?ge (-1) (int (length values)) = (l, l + 1)" "-1 \<le> l" "l < int (length values)"
      "l = -1 \<or> ?ge l" "l + 1 = int (length values) \<or> \<not> ?ge (l + 1)"
    by (rule bisect_spec [of "-1" "int (length values)"]) auto
  have "l \<noteq> -1" using l(5) assms by auto
  then have pos: "0 \<le> l" "?ge l" using l(2,4) by auto
  have "l + 1 \<noteq> int (length values)"
  proof
    assume "l + 1 = int (length values)"
    then have "nat l = length values - 1" by simp
    then show False using pos(2) assms(3) by simp
  qed
  moreover have idx: "findValueIndex v values = nat l" using assms l(1) by (simp add: findValueIndex_def Let_def not_le)
  moreover have "nat (l + 1) = nat l + 1" using pos by simp
  ultimately show "findValueIndex v values + 1 < length values" "values ! findValueIndex v values \<le> v"
    "v < values ! (findValueIndex v values + 1)"
    using l(3,5) pos by auto
qed

lemma value_index_range: "2 \<le> length values \<Longrightarrow> findValueIndex v values + 1 < length values"
  using value_index_inner(1) [of "values" v]
  by (cases "v \<le> values ! 0"; cases "v \<ge> values ! (length values - 1)") (auto simp: findValueIndex_def)

lemma value_index_single: "length values \<le> 1 \<Longrightarrow> findValueIndex v values = 0"
  by (simp add: findValueIndex_def)

text \<open>The search with an exact match finds the index of every value of the axis, and no other.\<close>

lemma exact_loop_spec:
  assumes "lower < upper" "\<And>i j. lower < i \<Longrightarrow> i < j \<Longrightarrow> j < upper \<Longrightarrow> values i < values j"
  shows "exact_loop values v lower upper = Some i \<longleftrightarrow> lower < i \<and> i < upper \<and> values i = v"
  using assms
proof (induction "values" v lower upper rule: exact_loop.induct)
  case (1 vs v lower upper)
  show ?case
  proof (cases "upper - lower > 1")
    case False
    then show ?thesis using 1(3) by (auto simp: exact_loop.simps)
  next
    case True
    define mid where "mid = (upper + lower) div 2"
    have mid: "lower < mid" "mid < upper" using True by (auto simp: mid_def)
    have order: "vs i < vs j" if "lower < i" "i < j" "j < upper" for i j using 1(4) that by blast
    have step: "exact_loop vs v lower upper = (if v = vs mid then Some mid
        else if v > vs mid then exact_loop vs v mid upper else exact_loop vs v lower mid)"
      using True by (subst exact_loop.simps) (simp add: mid_def Let_def)
    consider (eq) "v = vs mid" | (gt) "v > vs mid" | (lt) "v < vs mid" by linarith
    then show ?thesis
    proof cases
      case eq
      have "i = mid" if "lower < i" "i < upper" "vs i = vs mid" for i
        using order [of i mid] order [of mid i] that mid by (cases i mid rule: linorder_cases) auto
      then show ?thesis using eq step mid by auto
    next
      case gt
      have "exact_loop vs v mid upper = Some i \<longleftrightarrow> mid < i \<and> i < upper \<and> vs i = v"
        by (rule 1(1) [OF True mid_def]) (use gt mid order in auto)
      moreover have "mid < i" if "lower < i" "vs i = v" for i
        using order [of i mid] that gt mid by (cases i mid rule: linorder_cases) auto
      ultimately show ?thesis using gt step mid by auto
    next
      case lt
      have "exact_loop vs v lower mid = Some i \<longleftrightarrow> lower < i \<and> i < mid \<and> vs i = v"
        by (rule 1(2) [OF True mid_def]) (use lt mid order in auto)
      moreover have "i < mid" if "i < upper" "vs i = v" for i
        using order [of mid i] that lt mid by (cases i mid rule: linorder_cases) auto
      ultimately show ?thesis using lt step mid by auto
    qed
  qed
qed

lemma axis_index_exists_iff:
  assumes "sorted_wrt (<) (ax_values axis)"
  shows "findAxisIndex_exists axis v = Some i \<longleftrightarrow> i < length (ax_values axis) \<and> ax_values axis ! i = v"
proof -
  let ?xs = "ax_values axis"
  have spec: "exact_loop (\<lambda>i. ?xs ! nat i) v (-1) (int (length ?xs)) = Some k
      \<longleftrightarrow> -1 < k \<and> k < int (length ?xs) \<and> ?xs ! nat k = v" for k
    by (rule exact_loop_spec) (auto intro: axis_less [OF assms])
  have inside: "?xs ! 0 \<le> v \<and> v \<le> ?xs ! (length ?xs - 1)" if "i < length ?xs" "?xs ! i = v"
    using axis_le [OF assms, of 0 i] axis_le [OF assms, of i "length ?xs - 1"] that by auto
  show ?thesis
  proof
    assume "findAxisIndex_exists axis v = Some i"
    then obtain k where "exact_loop (\<lambda>i. ?xs ! nat i) v (-1) (int (length ?xs)) = Some k" "i = nat k"
      by (auto simp: findAxisIndex_exists_def Let_def split: if_splits)
    then show "i < length ?xs \<and> ?xs ! i = v" unfolding spec by auto
  next
    assume i: "i < length ?xs \<and> ?xs ! i = v"
    then have "exact_loop (\<lambda>i. ?xs ! nat i) v (-1) (int (length ?xs)) = Some (int i)" unfolding spec by simp
    then show "findAxisIndex_exists axis v = Some i" using i inside by (auto simp: findAxisIndex_exists_def Let_def)
  qed
qed

section \<open>Lemmas: lookups are defined and stay between the entries\<close>

definition in_range :: "TableAxis \<Rightarrow> real \<Rightarrow> bool" where
  "in_range axis x \<longleftrightarrow> length (ax_values axis) = 1 \<or> axis_inBounds axis x"

fun table_entries :: "Table \<Rightarrow> real set" where
  "table_entries (Table0 v) = {v}"
| "table_entries (Table1 vals a1) = set vals"
| "table_entries (Table2 rows a1 a2) = (\<Union>row \<in> set rows. set row)"
| "table_entries (Table3 rows a1 a2 a3) = (\<Union>row \<in> set rows. set row)"

text \<open>The shape of a table: increasing axes and an entry per point of their product; the reader leaves further ones.\<close>

definition rows_ok :: "real list list \<Rightarrow> nat \<Rightarrow> nat \<Rightarrow> bool" where
  "rows_ok rows n m \<longleftrightarrow> n \<le> length rows \<and> (\<forall>row \<in> set rows. m \<le> length row)"

fun table_ok :: "Table \<Rightarrow> bool" where
  "table_ok (Table0 v) = True"
| "table_ok (Table1 vals a1) = (strict_axis (ax_values a1) \<and> length (ax_values a1) \<le> length vals)"
| "table_ok (Table2 rows a1 a2) = (strict_axis (ax_values a1) \<and> strict_axis (ax_values a2)
     \<and> rows_ok rows (length (ax_values a1)) (length (ax_values a2)))"
| "table_ok (Table3 rows a1 a2 a3) = (strict_axis (ax_values a1) \<and> strict_axis (ax_values a2) \<and> strict_axis (ax_values a3)
     \<and> rows_ok rows (length (ax_values a1) * length (ax_values a2)) (length (ax_values a3)))"

text \<open>A table with one value on its axis is indexed by the value looked up, which must be less than one.\<close>

fun single_ok :: "Table \<Rightarrow> real \<Rightarrow> bool" where
  "single_ok (Table1 vals a1) x = (length (ax_values a1) = 1 \<longrightarrow> \<bar>x\<bar> < 1)"
| "single_ok _ x = True"

fun table_in_range :: "Table \<Rightarrow> real \<Rightarrow> real \<Rightarrow> real \<Rightarrow> bool" where
  "table_in_range (Table0 v) x1 x2 x3 = True"
| "table_in_range (Table1 vals a1) x1 x2 x3 = in_range a1 x1"
| "table_in_range (Table2 rows a1 a2) x1 x2 x3 = (in_range a1 x1 \<and> in_range a2 x2)"
| "table_in_range (Table3 rows a1 a2 a3) x1 x2 x3 = (in_range a1 x1 \<and> in_range a2 x2 \<and> in_range a3 x3)"

lemma rows_at_ok:
  assumes "rows_ok rows n m" "i < n" "j < m"
  shows "rows_at rows i j = Inr (rows ! i ! j)" "rows ! i ! j \<in> (\<Union>row \<in> set rows. set row)"
proof -
  have "n \<le> length rows" "m \<le> length (rows ! i)" using assms by (auto simp: rows_ok_def)
  then show "rows_at rows i j = Inr (rows ! i ! j)" "rows ! i ! j \<in> (\<Union>row \<in> set rows. set row)"
    using assms(2,3) nth_mem [of i rows] nth_mem [of j "rows ! i"]
    by (auto simp: rows_at_def vec_at_def intro: bexI [of _ "rows ! i"])
qed

text \<open>A value between all entries: it respects every pair of bounds that all of them respect.\<close>

definition between :: "real set \<Rightarrow> real \<Rightarrow> bool" where
  "between entries v \<longleftrightarrow> (\<forall>lo hi. (\<forall>y \<in> entries. lo \<le> y \<and> y \<le> hi) \<longrightarrow> lo \<le> v \<and> v \<le> hi)"

lemma between_mem: "y \<in> entries \<Longrightarrow> between entries y"
  by (simp add: between_def)

lemma between_lerp:
  assumes "between entries a" "d \<noteq> 0 \<Longrightarrow> between entries b" "0 \<le> d \<and> d \<le> 1"
  shows "between entries ((1 - d) * a + d * b)"
proof (cases "d = 0")
  case False
  show ?thesis unfolding between_def
  proof (intro allI impI)
    fix lo hi
    assume "\<forall>y \<in> entries. lo \<le> y \<and> y \<le> hi"
    then have *: "lo \<le> a" "a \<le> hi" "lo \<le> b" "b \<le> hi"
      using assms(1) assms(2) [OF False] unfolding between_def by blast+
    then have "(1 - d) * a + d * b \<le> hi" "(1 - d) * - a + d * - b \<le> - lo"
      using assms(3) by (intro convex_bound_le; simp)+
    then show "lo \<le> (1 - d) * a + d * b \<and> (1 - d) * a + d * b \<le> hi" by simp
  qed
qed (use assms(1) in simp)

text \<open>The position in the segment: a fraction when the value is within the axis.\<close>

lemma fraction_ok:
  assumes "strict_axis (ax_values axis)" "2 \<le> length (ax_values axis)"
  obtains d where "axis_fraction axis (findAxisIndex axis x) x = Inr d"
    "findAxisIndex axis x + 1 < length (ax_values axis)" "axis_inBounds axis x \<Longrightarrow> 0 \<le> d \<and> d \<le> 1"
proof -
  let ?xs = "ax_values axis" and ?i = "findAxisIndex axis x"
  have range: "?i + 1 < length ?xs" unfolding findAxisIndex_def by (rule value_index_range [OF assms(2)])
  have less: "?xs ! ?i < ?xs ! (?i + 1)" using assms(1) axis_less [of ?xs ?i "?i + 1"] range by (simp add: strict_axis_def)
  have seg: "?xs ! ?i \<le> x \<and> x \<le> ?xs ! (?i + 1)" if "axis_inBounds axis x"
  proof -
    have bounds: "?xs ! 0 \<le> x" "x \<le> ?xs ! (length ?xs - 1)" using that by (auto simp: axis_inBounds_def Let_def)
    consider "x \<le> ?xs ! 0" | "?xs ! 0 < x" "x \<ge> ?xs ! (length ?xs - 1)"
      | "?xs ! 0 < x" "x < ?xs ! (length ?xs - 1)" by linarith
    then show ?thesis
    proof cases
      case 1
      then have "?i = 0" by (simp add: findAxisIndex_def findValueIndex_def)
      then show ?thesis using 1 bounds less by simp
    next
      case 2
      then have "?i = length ?xs - 2" using assms(2) by (simp add: findAxisIndex_def findValueIndex_def)
      moreover have "length ?xs - 2 + 1 = length ?xs - 1" using assms(2) by simp
      ultimately show ?thesis using 2 bounds less by simp
    next
      case 3
      from value_index_inner(2,3) [OF assms(2) this] show ?thesis by (simp add: findAxisIndex_def)
    qed
  qed
  show ?thesis
    by (rule that [of "(x - ?xs ! ?i) / (?xs ! (?i + 1) - ?xs ! ?i)"])
      (use range less seg in \<open>auto simp: axis_fraction_def vec_at_def divide_le_eq_1\<close>)
qed

lemma size_cases: "strict_axis xs \<Longrightarrow> length xs = 1 \<or> 2 \<le> length xs"
  by (cases xs; cases "tl xs") (auto simp: strict_axis_def)

definition result_within :: "real set \<Rightarrow> bool \<Rightarrow> table_error + real \<Rightarrow> bool" where
  "result_within entries inside r \<longleftrightarrow> (\<exists>v. r = Inr v \<and> (inside \<longrightarrow> between entries v))"

lemma result_within_entry: "r = Inr y \<Longrightarrow> y \<in> entries \<Longrightarrow> result_within entries inside r"
  by (auto simp: result_within_def intro: between_mem)

lemma result_within_lerp:
  assumes "r = Inr ((1 - d) * a + d * b)" "inside \<Longrightarrow> 0 \<le> d \<and> d \<le> 1"
    and "inside \<Longrightarrow> between entries a" "inside \<Longrightarrow> d \<noteq> 0 \<Longrightarrow> between entries b"
  shows "result_within entries inside r"
  using assms by (auto simp: result_within_def intro!: between_lerp)

lemma table1_within:
  assumes ok: "table_ok (Table1 vals a1)" and single: "single_ok (Table1 vals a1) x1"
  shows "result_within (set vals) (in_range a1 x1) (Table1_findValue vals a1 x1)"
proof (cases "length (ax_values a1) = 1")
  case True
  then have "-1 < x1" "x1 < 1" using single by auto
  then have "float_index x1 = Inr 0" using floor_less_one [of x1] by (simp add: float_index_def)
  moreover have "vals \<noteq> []" using ok by (auto simp: strict_axis_def)
  ultimately have "Table1_findValue vals a1 x1 = Inr (vals ! 0)"
    using True by (simp add: Table1_findValue_def vec_at_def)
  then show ?thesis using \<open>vals \<noteq> []\<close> by (auto intro: result_within_entry)
next
  case False
  then have two: "2 \<le> length (ax_values a1)" using ok size_cases by auto
  let ?i = "findAxisIndex a1 x1"
  obtain d where d: "axis_fraction a1 ?i x1 = Inr d" "?i + 1 < length (ax_values a1)"
      "axis_inBounds a1 x1 \<Longrightarrow> 0 \<le> d \<and> d \<le> 1"
    using fraction_ok [of a1 x1] two ok by auto
  have "Table1_findValue vals a1 x1 = Inr ((1 - d) * vals ! ?i + d * vals ! (?i + 1))"
    using False d ok by (simp add: Table1_findValue_def vec_at_def Let_def)
  then show ?thesis
    by (rule result_within_lerp) (use d ok False in \<open>auto simp: in_range_def intro: between_mem\<close>)
qed

lemma bilinear_nested: "(1 - dx1) * (1 - dx2) * y00 + dx1 * (1 - dx2) * y10 + dx1 * dx2 * y11 + (1 - dx1) * dx2 * (y01 :: real)
    = (1 - dx1) * ((1 - dx2) * y00 + dx2 * y01) + dx1 * ((1 - dx2) * y10 + dx2 * y11)"
  by (simp add: algebra_simps)

lemma trilinear_nested: "(1 - dx1) * (1 - dx2) * (1 - dx3) * y000 + (1 - dx1) * (1 - dx2) * dx3 * y001
     + (1 - dx1) * dx2 * (1 - dx3) * y010 + (1 - dx1) * dx2 * dx3 * y011
     + dx1 * (1 - dx2) * (1 - dx3) * y100 + dx1 * (1 - dx2) * dx3 * y101
     + dx1 * dx2 * (1 - dx3) * y110 + dx1 * dx2 * dx3 * (y111 :: real)
   = (1 - dx1) * ((1 - dx2) * ((1 - dx3) * y000 + dx3 * y001) + dx2 * ((1 - dx3) * y010 + dx3 * y011))
     + dx1 * ((1 - dx2) * ((1 - dx3) * y100 + dx3 * y101) + dx2 * ((1 - dx3) * y110 + dx3 * y111))"
  by (simp add: algebra_simps)


text \<open>The weight of the second neighbour: none for an axis with one value.\<close>

definition axis_weight :: "TableAxis \<Rightarrow> real \<Rightarrow> table_error + real" where
  "axis_weight axis x =
     (if length (ax_values axis) \<noteq> 1 then axis_fraction axis (findAxisIndex axis x) x else Inr 0)"

lemma weight_ok:
  assumes "strict_axis (ax_values axis)"
  obtains d where "axis_weight axis x = Inr d" "findAxisIndex axis x < length (ax_values axis)"
    "length (ax_values axis) \<noteq> 1 \<Longrightarrow> findAxisIndex axis x + 1 < length (ax_values axis)"
    "length (ax_values axis) = 1 \<Longrightarrow> d = 0 \<and> findAxisIndex axis x = 0" "in_range axis x \<Longrightarrow> 0 \<le> d \<and> d \<le> 1"
proof (cases "length (ax_values axis) = 1")
  case True
  then show ?thesis
    using that [of 0] value_index_single [of "ax_values axis" x] by (simp add: axis_weight_def findAxisIndex_def)
next
  case False
  then have two: "2 \<le> length (ax_values axis)" using size_cases [OF assms] by auto
  obtain d where d: "axis_fraction axis (findAxisIndex axis x) x = Inr d"
    "findAxisIndex axis x + 1 < length (ax_values axis)" "axis_inBounds axis x \<Longrightarrow> 0 \<le> d \<and> d \<le> 1"
    using fraction_ok [OF assms two, of x] by blast
  show ?thesis by (rule that [of d]) (use d False in \<open>auto simp: axis_weight_def in_range_def\<close>)
qed

lemma table2_within:
  assumes ok: "table_ok (Table2 rows a1 a2)"
  shows "result_within (table_entries (Table2 rows a1 a2)) (in_range a1 x1 \<and> in_range a2 x2)
    (Table2_findValue rows a1 a2 x1 x2)"
proof -
  let ?n = "length (ax_values a1)" and ?m = "length (ax_values a2)"
  let ?i = "findAxisIndex a1 x1" and ?j = "findAxisIndex a2 x2" and ?y = "\<lambda>i j. rows ! i ! j"
  let ?S = "table_entries (Table2 rows a1 a2)" and ?in = "in_range a1 x1 \<and> in_range a2 x2"
  have rows: "rows_ok rows ?n ?m" using ok by simp
  have axes: "strict_axis (ax_values a1)" "strict_axis (ax_values a2)" using ok by auto
  obtain d1 where d1: "axis_weight a1 x1 = Inr d1" "?i < ?n" "?n \<noteq> 1 \<Longrightarrow> ?i + 1 < ?n"
      "?n = 1 \<Longrightarrow> d1 = 0 \<and> ?i = 0" "in_range a1 x1 \<Longrightarrow> 0 \<le> d1 \<and> d1 \<le> 1"
    using weight_ok [OF axes(1), of x1] by blast
  obtain d2 where d2: "axis_weight a2 x2 = Inr d2" "?j < ?m" "?m \<noteq> 1 \<Longrightarrow> ?j + 1 < ?m"
      "?m = 1 \<Longrightarrow> d2 = 0 \<and> ?j = 0" "in_range a2 x2 \<Longrightarrow> 0 \<le> d2 \<and> d2 \<le> 1"
    using weight_ok [OF axes(2), of x2] by blast
  note at = rows_at_ok(1) [OF rows]
  have mem: "between ?S (?y i j)" if "i < ?n" "j < ?m" for i j
    using rows_at_ok(2) [OF rows that] by (simp add: between_mem)
  have "Table2_findValue rows a1 a2 x1 x2
      = Inr ((1 - d1) * ((1 - d2) * ?y ?i ?j + d2 * ?y ?i (?j + 1))
           + d1 * ((1 - d2) * ?y (?i + 1) ?j + d2 * ?y (?i + 1) (?j + 1)))"
    using d1 d2 at unfolding bilinear_nested [symmetric]
    by (auto simp: Table2_findValue_def axis_weight_def Let_def split: if_splits)
  then show ?thesis
    by (rule result_within_lerp) (use d1 d2 mem in \<open>auto intro!: between_lerp\<close>)
qed


lemma table3_within:
  assumes ok: "table_ok (Table3 rows a1 a2 a3)"
  shows "result_within (table_entries (Table3 rows a1 a2 a3)) (in_range a1 x1 \<and> in_range a2 x2 \<and> in_range a3 x3)
    (Table3_findValue rows a1 a2 a3 x1 x2 x3)"
proof -
  let ?n = "length (ax_values a1)" and ?m = "length (ax_values a2)" and ?o = "length (ax_values a3)"
  let ?i = "findAxisIndex a1 x1" and ?j = "findAxisIndex a2 x2" and ?k = "findAxisIndex a3 x3"
  let ?S = "table_entries (Table3 rows a1 a2 a3)"
  have axes: "strict_axis (ax_values a1)" "strict_axis (ax_values a2)" "strict_axis (ax_values a3)" using ok by auto
  obtain d1 where d1: "axis_weight a1 x1 = Inr d1" "?i < ?n" "?n \<noteq> 1 \<Longrightarrow> ?i + 1 < ?n"
      "?n = 1 \<Longrightarrow> d1 = 0 \<and> ?i = 0" "in_range a1 x1 \<Longrightarrow> 0 \<le> d1 \<and> d1 \<le> 1"
    using weight_ok [OF axes(1), of x1] by blast
  obtain d2 where d2: "axis_weight a2 x2 = Inr d2" "?j < ?m" "?m \<noteq> 1 \<Longrightarrow> ?j + 1 < ?m"
      "?m = 1 \<Longrightarrow> d2 = 0 \<and> ?j = 0" "in_range a2 x2 \<Longrightarrow> 0 \<le> d2 \<and> d2 \<le> 1"
    using weight_ok [OF axes(2), of x2] by blast
  obtain d3 where d3: "axis_weight a3 x3 = Inr d3" "?k < ?o" "?o \<noteq> 1 \<Longrightarrow> ?k + 1 < ?o"
      "?o = 1 \<Longrightarrow> d3 = 0 \<and> ?k = 0" "in_range a3 x3 \<Longrightarrow> 0 \<le> d3 \<and> d3 \<le> 1"
    using weight_ok [OF axes(3), of x3] by blast
  define y where "y on i j k = (if on then rows ! (i * ?m + j) ! k else 0)" for on i j k
  have at: "(if on then rows3_at rows a2 i j k else Inr 0) = Inr (y on i j k) \<and> (on \<longrightarrow> between ?S (y on i j k))"
    if "on \<Longrightarrow> i < ?n \<and> j < ?m \<and> k < ?o" for on i j k
  proof (cases on)
    case True
    then have "i < ?n" "j < ?m" "k < ?o" using that by auto
    then have "i * ?m + j < ?n * ?m" using mult_le_mono1 [of "Suc i" ?n ?m] by simp
    then show ?thesis using True rows_at_ok [of rows "?n * ?m" ?o "i * ?m + j" k] ok \<open>k < ?o\<close>
      by (auto simp: y_def rows3_at_def intro: between_mem)
  qed (simp add: y_def)
  let ?b1 = "?n \<noteq> 1" and ?b2 = "?m \<noteq> 1" and ?b3 = "?o \<noteq> 1"
  let ?Y = "\<lambda>on di dj dk. y on (?i + di) (?j + dj) (?k + dk)"
  have ys: "(if on then rows3_at rows a2 (?i + di) (?j + dj) (?k + dk) else Inr 0) = Inr (?Y on di dj dk)
      \<and> (on \<longrightarrow> between ?S (?Y on di dj dk))"
    if "on \<longrightarrow> (di = 0 \<or> di = 1 \<and> ?b1) \<and> (dj = 0 \<or> dj = 1 \<and> ?b2) \<and> (dk = 0 \<or> dk = 1 \<and> ?b3)" for on di dj dk
    by (rule at) (use that d1(2,3) d2(2,3) d3(2,3) in auto)
  let ?R = "\<lambda>on di dj dk. if on then rows3_at rows a2 (?i + di) (?j + dj) (?k + dk) else Inr 0"
  have Y: "?R True 0 0 0 = Inr (?Y True 0 0 0)" "?R ?b1 1 0 0 = Inr (?Y ?b1 1 0 0)" "?R ?b2 0 1 0 = Inr (?Y ?b2 0 1 0)"
    "?R ?b3 0 0 1 = Inr (?Y ?b3 0 0 1)" "?R (?b1 \<and> ?b2) 1 1 0 = Inr (?Y (?b1 \<and> ?b2) 1 1 0)"
    "?R (?b1 \<and> ?b3) 1 0 1 = Inr (?Y (?b1 \<and> ?b3) 1 0 1)" "?R (?b2 \<and> ?b3) 0 1 1 = Inr (?Y (?b2 \<and> ?b3) 0 1 1)"
    "?R (?b1 \<and> ?b2 \<and> ?b3) 1 1 1 = Inr (?Y (?b1 \<and> ?b2 \<and> ?b3) 1 1 1)"
    by (rule ys [THEN conjunct1], simp)+
  have ds: "(if ?b1 then axis_fraction a1 ?i x1 else Inr 0) = Inr d1" "(if ?b2 then axis_fraction a2 ?j x2 else Inr 0) = Inr d2"
    "(if ?b3 then axis_fraction a3 ?k x3 else Inr 0) = Inr d3"
    using d1(1) d2(1) d3(1) by (simp_all add: axis_weight_def)
  have eq: "Table3_findValue rows a1 a2 a3 x1 x2 x3 = Inr (
      (1 - d1) * ((1 - d2) * ((1 - d3) * ?Y True 0 0 0 + d3 * ?Y ?b3 0 0 1)
                + d2 * ((1 - d3) * ?Y ?b2 0 1 0 + d3 * ?Y (?b2 \<and> ?b3) 0 1 1))
      + d1 * ((1 - d2) * ((1 - d3) * ?Y ?b1 1 0 0 + d3 * ?Y (?b1 \<and> ?b3) 1 0 1)
                + d2 * ((1 - d3) * ?Y (?b1 \<and> ?b2) 1 1 0 + d3 * ?Y (?b1 \<and> ?b2 \<and> ?b3) 1 1 1)))"
    unfolding Table3_findValue_def Let_def trilinear_nested [symmetric] ds Y res_bind_simps ..
  have nz: "d1 \<noteq> 0 \<Longrightarrow> ?b1" "d2 \<noteq> 0 \<Longrightarrow> ?b2" "d3 \<noteq> 0 \<Longrightarrow> ?b3" using d1(4) d2(4) d3(4) by auto
  show ?thesis
    by (rule result_within_lerp [OF eq]; (intro between_lerp)?; (rule ys [THEN conjunct2, THEN mp])?)
      (use d1(5) d2(5) d3(5) nz in auto)
qed

lemma table_lookup_within:
  assumes "table_ok table" "single_ok table x1"
  shows "result_within (table_entries table) (table_in_range table x1 x2 x3) (table_findValue table x1 x2 x3)"
proof (cases table)
  case (Table0 v)
  then show ?thesis by (auto intro: result_within_entry)
qed (use assms table1_within table2_within table3_within in auto)

lemma table_lookup_defined:
  "table_ok table \<Longrightarrow> single_ok table x1 \<Longrightarrow> \<exists>v. table_findValue table x1 x2 x3 = Inr v"
  unfolding result_within_def using table_lookup_within [unfolded result_within_def] by blast

section \<open>Lemmas: models that passed the check of their axes\<close>

text \<open>The values of the axes are defined exactly when every axis has a value.\<close>

lemma axis_values_defined:
  assumes "\<And>axis. (\<exists>x. value_of axis = Inr x) \<longleftrightarrow> check axis"
  shows "(\<exists>xs. axis_values_by_order value_of table = Inr xs) \<longleftrightarrow>
    opt_check check (table_axis1 table) \<and> opt_check check (table_axis2 table) \<and> opt_check check (table_axis3 table)"
proof -
  have *: "check axis \<longleftrightarrow> (\<exists>x. value_of axis = Inr x)" for axis using assms by simp
  show ?thesis unfolding axis_values_by_order_def opt_check_def * by (cases table) (auto simp: res_bind_Inr)
qed

lemma first_axis_value:
  assumes "axis_values_by_order value_of table = Inr (x1, x2, x3)"
    and "\<And>axis x. value_of axis = Inr x \<Longrightarrow> \<bar>x\<bar> < 1"
  shows "single_ok table x1"
  using assms by (cases table) (auto simp: axis_values_by_order_def)

definition small :: "real \<Rightarrow> bool" where
  "small x \<longleftrightarrow> \<bar>x\<bar> < 1"

text \<open>Looking up a well-formed table succeeds exactly when its axes pass the check of the model.\<close>

lemma model_lookup_defined:
  assumes "table_ok (tm_table m)" and "\<And>axis. (\<exists>x. value_of axis = Inr x) \<longleftrightarrow> check axis"
    and "\<And>axis x. value_of axis = Inr x \<Longrightarrow> small x"
  shows "(\<exists>v. res_bind (axis_values_by_order value_of (tm_table m)) (\<lambda>(x1, x2, x3). tm_findValue m cell pvt x1 x2 x3) = Inr v)
    \<longleftrightarrow> opt_check check (table_axis1 (tm_table m)) \<and> opt_check check (table_axis2 (tm_table m))
      \<and> opt_check check (table_axis3 (tm_table m))"
proof -
  have "\<exists>v. tm_findValue m cell pvt x1 x2 x3 = Inr v"
    if "axis_values_by_order value_of (tm_table m) = Inr (x1, x2, x3)" for x1 x2 x3
    using table_lookup_defined [OF assms(1) first_axis_value [OF that], of x2 x3] assms(3)
    by (auto simp: tm_findValue_def small_def)
  then show ?thesis
    unfolding axis_values_defined [of value_of check "tm_table m", OF assms(2), symmetric]
    by (auto simp: res_bind_Inr)
qed

lemma gate_axis_value: "(\<exists>x. gtm_axisValue axis s c r = Inr x) \<longleftrightarrow> gtm_checkAxis axis"
  by (auto simp: gtm_axisValue_def gtm_checkAxis_def)

lemma check_axis_value: "(\<exists>x. ctm_axisValue axis s c r = Inr x) \<longleftrightarrow> ctm_checkAxis axis"
  by (auto simp: ctm_axisValue_def ctm_checkAxis_def)

lemma gate_lookup_iff_checked:
  assumes "table_ok (tm_table m)" "small in_slew" "small load_cap" "small related_out_cap"
  shows "(\<exists>v. gtm_findValue cell pvt (Some m) in_slew load_cap related_out_cap = Inr v) \<longleftrightarrow> gtm_checkAxes (tm_table m)"
proof -
  have "small x" if "gtm_axisValue axis in_slew load_cap related_out_cap = Inr x" for axis x
    using that assms(2-4) by (auto simp: gtm_axisValue_def split: if_splits)
  from model_lookup_defined [OF assms(1) gate_axis_value this] show ?thesis
    by (simp add: gtm_findValue_def gtm_findAxisValues_def gtm_checkAxes_def)
qed

lemma check_lookup_iff_checked:
  assumes "table_ok (tm_table m)" "small from_slew" "small to_slew" "small related_out_cap" "ctm_model c = Some m"
  shows "(\<exists>v. ctm_findValue c pvt (Some m) from_slew to_slew related_out_cap = Inr v) \<longleftrightarrow> ctm_checkAxes (tm_table m)"
proof -
  have "small x" if "ctm_axisValue axis from_slew to_slew related_out_cap = Inr x" for axis x
    using that assms(2-4) by (auto simp: ctm_axisValue_def split: if_splits)
  from model_lookup_defined [OF assms(1) check_axis_value this] show ?thesis
    using assms(5) by (simp add: ctm_findValue_def ctm_findAxisValues_def ctm_checkAxes_def)
qed

text \<open>
  The check of the internal power model accepts no table that the lookup supports: its variables are those of timing
  checks. (Nothing calls it.)
\<close>

lemma internal_power_check_wrong:
  assumes "ipm_checkAxes m" "tm_table m = Table1 vals a1 \<or> tm_table m = Table2 rows a1 a2"
  shows "ipm_power (Some m) cell pvt in_slew load_cap = Inl (CriticalError 226)"
  using assms by (auto simp: ipm_power_def ipm_findAxisValues_def ipm_checkAxes_def opt_check_def ipm_checkAxis_def
    axis_values_by_order_def ipm_axisValue_def)

section \<open>Properties\<close>

definition model_checked :: "TableModel option \<Rightarrow> bool" where
  "model_checked model = (case model of None \<Rightarrow> True | Some m \<Rightarrow> table_ok (tm_table m) \<and> gtm_checkAxes (tm_table m))"

lemma checked_lookup:
  assumes "model_checked model" "small in_slew" "small load_cap"
  obtains v where "gtm_findValue cell pvt model in_slew load_cap 0 = Inr v"
proof (cases model)
  case None
  then show ?thesis using that by (simp add: gtm_findValue_def)
next
  case (Some m)
  then have "table_ok (tm_table m)" "gtm_checkAxes (tm_table m)" using assms(1) by (auto simp: model_checked_def)
  then have "\<exists>v. gtm_findValue cell pvt (Some m) in_slew load_cap 0 = Inr v"
    using gate_lookup_iff_checked assms(2,3) by (auto simp: small_def)
  then show ?thesis using that Some by blast
qed


text \<open>C28: A lookup in a well-formed table of any dimension returns; within the range of the axes the result lies
  between the least and the largest entry (outside, it is extrapolated). A one-dimensional table with a single
  entry needs a value less than one, since the code takes that value for the index.\<close>

theorem table_lookup_bounds:
  assumes "table_ok table" "single_ok table x1"
  shows "\<exists>v. table_findValue table x1 x2 x3 = Inr v \<and>
    (table_in_range table x1 x2 x3 \<longrightarrow>
       (\<forall>lo hi. (\<forall>y \<in> table_entries table. lo \<le> y \<and> y \<le> hi) \<longrightarrow> lo \<le> v \<and> v \<le> hi))"
  using table_lookup_within [OF assms, of x2 x3] by (simp add: result_within_def between_def)

text \<open>A table over slew and load, and a gate with it.\<close>

definition slew_load_table :: Table where
  "slew_load_table = Table2 [[1, 2], [3, 5]]
     \<lparr>ax_variable = AV_input_transition_time, ax_values = [0, 1/2]\<rparr>
     \<lparr>ax_variable = AV_total_output_net_capacitance, ax_values = [0, 1/4]\<rparr>"

definition plain_cell :: LibertyCell where
  "plain_cell = \<lparr>lc_library = \<lparr>ll_nominal_process = 1, ll_nominal_voltage = 1, ll_nominal_temperature = 25,
     ll_scale_factors = None, ll_default_operating_conditions = None\<rparr>, lc_scale_factors = None\<rparr>"

definition plain_gate :: GateTableModel where
  "plain_gate = \<lparr>gtm_cell = plain_cell,
     gtm_delay_model = Some (TableModel_new slew_load_table SF_cell Rise), gtm_delay_sigma_models = (\<lambda>_. None),
     gtm_slew_model = Some (TableModel_new (Table0 (-1)) SF_transition Rise), gtm_slew_sigma_models = (\<lambda>_. None)\<rparr>"

lemma slew_load_table_ok: "table_ok slew_load_table" "gtm_checkAxes slew_load_table"
  by (simp_all add: slew_load_table_def strict_axis_def rows_ok_def gtm_checkAxes_def opt_check_def gtm_checkAxis_def)

theorem table_lookup_bounds_witness:
  "\<exists>v. table_findValue slew_load_table (1/4) (1/8) 0 = Inr v \<and> 1 \<le> v \<and> v \<le> 5"
proof -
  have "single_ok slew_load_table (1/4)" "table_in_range slew_load_table (1/4) (1/8) 0"
    "\<forall>y \<in> table_entries slew_load_table. 1 \<le> y \<and> y \<le> 5"
    by (auto simp: slew_load_table_def in_range_def axis_inBounds_def)
  then show ?thesis using table_lookup_bounds [OF slew_load_table_ok(1), of "1/4" "1/8" 0] by fastforce
qed


end
