(* ===== verification/GTP_LibertyReader.thy ===== *)
theory GTP_LibertyReader
  imports GTP_Names GTP_LibertyTable
begin

text \<open>
  The parts of the library reader (\<open>liberty/LibertyReader.cc\<close>) that build what the table models use: the tokenizer of
  its strings (\<open>util/TokenParser.cc\<close>), the attributes of scale factors, and templates, axes and values of
  tables. The parser of the file, which calls the visitors in the order of the statements, and the
  warnings they print are not modelled.
\<close>

section \<open>Tokens\<close>

text \<open>
  The current token, null at the end, and the text after the delimiter that ends it, if one does. (The code keeps
  pointers into the string and writes a terminator over that delimiter until the next call.)
\<close>

record TokenParser =
  tkp_delimiters :: string
  tkp_token :: "string option"
  tkp_rest :: "string option"
  tkp_first :: bool

definition cut_token :: "string \<Rightarrow> string \<Rightarrow> string \<times> string option" where
  "cut_token delimiters s =
     (takeWhile (\<lambda>c. c \<notin> set delimiters) s,
      case dropWhile (\<lambda>c. c \<notin> set delimiters) s of [] \<Rightarrow> None | c # rest \<Rightarrow> Some rest)"

definition TokenParser_new :: "string \<Rightarrow> string \<Rightarrow> TokenParser" where
  "TokenParser_new str delimiters =
     (let (tok, rest) = cut_token delimiters (dropWhile c_isspace str) in
      \<lparr>tkp_delimiters = delimiters, tkp_token = Some tok, tkp_rest = rest, tkp_first = True\<rparr>)"

definition tkp_hasNext :: "TokenParser \<Rightarrow> bool \<times> TokenParser" where
  "tkp_hasNext p =
     (let p' = (if tkp_first p then p
                else case tkp_rest p of
                    None \<Rightarrow> p\<lparr>tkp_token := None\<rparr>
                  | Some rest \<Rightarrow>
                      let s = dropWhile (\<lambda>c. c \<in> set (tkp_delimiters p)) (dropWhile c_isspace rest) in
                      if s = [] then p\<lparr>tkp_token := None\<rparr>
                      else let (tok, rest') = cut_token (tkp_delimiters p) s in
                           p\<lparr>tkp_token := Some tok, tkp_rest := rest'\<rparr>)
      in (tkp_token p' \<noteq> None, p'))"

definition tkp_next :: "TokenParser \<Rightarrow> string option \<times> TokenParser" where
  "tkp_next p = (tkp_token p, p\<lparr>tkp_first := False\<rparr>)"

text \<open>The tokens of the loop \<open>while (parser.hasNext()) parser.next()\<close>.\<close>

definition tkp_size :: "TokenParser \<Rightarrow> nat" where
  "tkp_size p = (case tkp_rest p of None \<Rightarrow> 0 | Some rest \<Rightarrow> Suc (length rest)) + (if tkp_first p then 1 else 0)"

lemma cut_token_rest: "cut_token delimiters s = (tok, Some rest) \<Longrightarrow> length rest < length s"
  using length_dropWhile_le [of "\<lambda>c. c \<notin> set delimiters" s] by (auto simp: cut_token_def split: list.splits)

lemma tkp_next_smaller:
  assumes "tkp_hasNext p = (True, q)"
  shows "tkp_size (snd (tkp_next q)) < tkp_size p"
proof (cases "tkp_first p")
  case True
  then show ?thesis using assms by (auto simp: tkp_hasNext_def tkp_next_def tkp_size_def)
next
  case False
  then obtain rest where rest: "tkp_rest p = Some rest"
    using assms by (cases "tkp_rest p") (auto simp: tkp_hasNext_def)
  let ?s = "dropWhile (\<lambda>c. c \<in> set (tkp_delimiters p)) (dropWhile c_isspace rest)"
  have le: "length ?s \<le> length rest"
    using length_dropWhile_le [of "\<lambda>c. c \<in> set (tkp_delimiters p)" "dropWhile c_isspace rest"]
      length_dropWhile_le [of c_isspace rest] by linarith
  obtain tok rest' where cut: "cut_token (tkp_delimiters p) ?s = (tok, rest')" by fastforce
  have "q = p\<lparr>tkp_token := Some tok, tkp_rest := rest'\<rparr>"
    using assms False rest cut by (auto simp: tkp_hasNext_def Let_def split: if_splits)
  then show ?thesis using False rest le cut cut_token_rest [of "tkp_delimiters p" ?s tok]
    by (cases rest') (auto simp: tkp_next_def tkp_size_def)
qed

function all_tokens :: "TokenParser \<Rightarrow> string list" where
  "all_tokens p =
     (let (more, q) = tkp_hasNext p in
      if more then (let (tok, r) = tkp_next q in the tok # all_tokens r) else [])"
  by pat_completeness auto
termination
proof (relation "measure tkp_size")
  fix p more q and x :: "string option \<times> TokenParser" and tok r and xa :: "bool \<times> TokenParser"
  assume "xa = tkp_hasNext p" "(more, q) = xa" more "x = tkp_next q" "(tok, r) = x"
  then show "(r, p) \<in> measure tkp_size" using tkp_next_smaller [of p q] by (auto simp: prod_eq_iff)
qed simp

declare all_tokens.simps [simp del]

definition tokens :: "string \<Rightarrow> string \<Rightarrow> string list" where
  "tokens str delimiters = all_tokens (TokenParser_new str delimiters)"

section \<open>Names of scale factors\<close>

definition scale_factor_type_names :: "(ScaleFactorType \<times> string) list" where
  "scale_factor_type_names =
     [(SF_pin_cap, ''pin_cap''), (SF_wire_cap, ''wire_res''), (SF_min_period, ''min_period''), (SF_cell, ''cell''),
      (SF_hold, ''hold''), (SF_setup, ''setup''), (SF_recovery, ''recovery''), (SF_removal, ''removal''),
      (SF_nochange, ''nochange''), (SF_skew, ''skew''), (SF_leakage_power, ''leakage_power''),
      (SF_internal_power, ''internal_power''), (SF_transition, ''transition''),
      (SF_min_pulse_width, ''min_pulse_width''), (SF_unknown, ''unknown'')]"

definition scale_factor_pvt_names :: "(ScaleFactorPvt \<times> string) list" where
  "scale_factor_pvt_names = [(SP_process, ''process''), (SP_volt, ''volt''), (SP_temp, ''temp'')]"

text \<open>An enumeration with names, in both directions; an absent name is the given unknown value.\<close>

definition enum_find_key :: "('e \<times> string) list \<Rightarrow> string \<Rightarrow> 'e \<Rightarrow> 'e" where
  "enum_find_key names name unknown = (case find (\<lambda>(key, nm). nm = name) names of None \<Rightarrow> unknown | Some (key, nm) \<Rightarrow> key)"

definition scaleFactorTypeName :: "ScaleFactorType \<Rightarrow> string option" where
  "scaleFactorTypeName type = map_of scale_factor_type_names type"

definition findScaleFactorType :: "string \<Rightarrow> ScaleFactorType" where
  "findScaleFactorType name = enum_find_key scale_factor_type_names name SF_unknown"

definition scaleFactorPvtName :: "ScaleFactorPvt \<Rightarrow> string option" where
  "scaleFactorPvtName pvt = map_of scale_factor_pvt_names pvt"

definition findScaleFactorPvt :: "string \<Rightarrow> ScaleFactorPvt" where
  "findScaleFactorPvt name = enum_find_key scale_factor_pvt_names name SP_unknown"

definition scaleFactorTypeRiseFallSuffix :: "ScaleFactorType \<Rightarrow> bool" where
  "scaleFactorTypeRiseFallSuffix type \<longleftrightarrow>
     type \<in> {SF_cell, SF_hold, SF_setup, SF_recovery, SF_removal, SF_nochange, SF_skew}"

definition scaleFactorTypeRiseFallPrefix :: "ScaleFactorType \<Rightarrow> bool" where
  "scaleFactorTypeRiseFallPrefix type \<longleftrightarrow> type = SF_transition"

definition scaleFactorTypeLowHighSuffix :: "ScaleFactorType \<Rightarrow> bool" where
  "scaleFactorTypeLowHighSuffix type \<longleftrightarrow> type = SF_min_pulse_width"

section \<open>Attributes of scale factors\<close>

datatype ScaleVisitor = SV_suffix | SV_prefix | SV_hi_low | SV_plain

definition all_scale_types :: "ScaleFactorType list" where
  "all_scale_types = [SF_pin_cap, SF_wire_cap, SF_wire_res, SF_min_period, SF_cell, SF_hold, SF_setup, SF_recovery,
     SF_removal, SF_nochange, SF_skew, SF_leakage_power, SF_internal_power, SF_transition, SF_min_pulse_width, SF_unknown]"

definition all_scale_pvts :: "ScaleFactorPvt list" where
  "all_scale_pvts = [SP_process, SP_volt, SP_temp, SP_unknown]"

text \<open>A null string is printed as the C library prints it.\<close>

definition c_str :: "string option \<Rightarrow> string" where
  "c_str s = (case s of None \<Rightarrow> ''(null)'' | Some str \<Rightarrow> str)"

text \<open>The attributes that are registered, in order; a later entry for a name replaces an earlier one.\<close>

definition scale_attrs_of :: "ScaleFactorType \<Rightarrow> ScaleFactorPvt \<Rightarrow> (string \<times> ScaleVisitor) list" where
  "scale_attrs_of type pvt =
     (let type_name = c_str (scaleFactorTypeName type); pvt_name = c_str (scaleFactorPvtName pvt) in
      if scaleFactorTypeRiseFallSuffix type then
        map (\<lambda>rf. (''k_'' @ pvt_name @ ''_'' @ type_name @ ''_'' @ (if rf = Rise then ''rise'' else ''fall''), SV_suffix)) rf_range
      else if scaleFactorTypeRiseFallPrefix type then
        map (\<lambda>rf. (''k_'' @ pvt_name @ ''_'' @ (if rf = Rise then ''rise'' else ''fall'') @ ''_'' @ type_name, SV_prefix)) rf_range
      else if scaleFactorTypeLowHighSuffix type then
        map (\<lambda>rf. (''k_'' @ pvt_name @ ''_'' @ (if rf = Rise then ''high'' else ''low'') @ ''_'' @ type_name, SV_hi_low)) rf_range
      else [(''k_'' @ pvt_name @ ''_'' @ type_name, SV_plain)])"

definition defineScalingFactorVisitors :: "(string \<times> ScaleVisitor) list" where
  "defineScalingFactorVisitors =
     concat (map (\<lambda>type. concat (map (scale_attrs_of type) all_scale_pvts)) all_scale_types)"

definition scale_visitor :: "string \<Rightarrow> ScaleVisitor option" where
  "scale_visitor name = map_of (rev defineScalingFactorVisitors) name"

text \<open>The visitors read the tokens of the name by position; a missing token leaves its variable unknown.\<close>

definition token_at :: "string list \<Rightarrow> nat \<Rightarrow> string option" where
  "token_at toks i = (if i < length toks then Some (toks ! i) else None)"

definition token_pvt :: "string option \<Rightarrow> ScaleFactorPvt" where
  "token_pvt tok = (case tok of None \<Rightarrow> SP_unknown | Some name \<Rightarrow> findScaleFactorPvt name)"

definition token_type :: "string option \<Rightarrow> ScaleFactorType" where
  "token_type tok = (case tok of None \<Rightarrow> SF_unknown | Some name \<Rightarrow> findScaleFactorType name)"

definition token_edge :: "string \<Rightarrow> string \<Rightarrow> string option \<Rightarrow> RiseFall option" where
  "token_edge rise_name fall_name tok =
     (if tok = Some rise_name then Some Rise else if tok = Some fall_name then Some Fall else None)"

definition set_scale_edge ::
  "ScaleFactorPvt \<Rightarrow> ScaleFactorType \<Rightarrow> RiseFall option \<Rightarrow> real option \<Rightarrow> ScaleFactors \<Rightarrow> ScaleFactors" where
  "set_scale_edge pvt type rf v sf =
     (case (rf, v) of
        (Some e, Some x) \<Rightarrow> if pvt \<noteq> SP_unknown \<and> type \<noteq> SF_unknown then setScale_rf sf type pvt e x else sf
      | _ \<Rightarrow> sf)"

definition visitScaleFactorSuffix :: "string \<Rightarrow> real option \<Rightarrow> ScaleFactors \<Rightarrow> ScaleFactors" where
  "visitScaleFactorSuffix name v sf =
     (let toks = tokens name ''_'' in
      set_scale_edge (token_pvt (token_at toks 1)) (token_type (token_at toks 2))
        (token_edge ''rise'' ''fall'' (token_at toks 3)) v sf)"

definition visitScaleFactorPrefix :: "string \<Rightarrow> real option \<Rightarrow> ScaleFactors \<Rightarrow> ScaleFactors" where
  "visitScaleFactorPrefix name v sf =
     (let toks = tokens name ''_'' in
      set_scale_edge (token_pvt (token_at toks 1)) (token_type (token_at toks 3))
        (token_edge ''rise'' ''fall'' (token_at toks 2)) v sf)"

definition visitScaleFactorHiLow :: "string \<Rightarrow> real option \<Rightarrow> ScaleFactors \<Rightarrow> ScaleFactors" where
  "visitScaleFactorHiLow name v sf =
     (let toks = tokens name ''_'' in
      set_scale_edge (token_pvt (token_at toks 1)) (token_type (token_at toks 2))
        (token_edge ''high'' ''low'' (token_at toks 3)) v sf)"

text \<open>The visitor of the other types cuts the name at spaces.\<close>

definition visitScaleFactor :: "string \<Rightarrow> real option \<Rightarrow> ScaleFactors \<Rightarrow> ScaleFactors" where
  "visitScaleFactor name v sf =
     (let toks = tokens name '' ''; pvt = token_pvt (token_at toks 1); type = token_type (token_at toks 2) in
      case v of
        Some x \<Rightarrow> if pvt \<noteq> SP_unknown \<and> type \<noteq> SF_unknown then setScale sf type pvt x else sf
      | None \<Rightarrow> sf)"

text \<open>An attribute of a library or of a group of scale factors: its name and its value, if it is a number.\<close>

definition visit_scale_attr :: "string \<times> real option \<Rightarrow> ScaleFactors \<Rightarrow> ScaleFactors" where
  "visit_scale_attr attr sf =
     (case scale_visitor (fst attr) of
        None \<Rightarrow> sf
      | Some SV_suffix \<Rightarrow> visitScaleFactorSuffix (fst attr) (snd attr) sf
      | Some SV_prefix \<Rightarrow> visitScaleFactorPrefix (fst attr) (snd attr) sf
      | Some SV_hi_low \<Rightarrow> visitScaleFactorHiLow (fst attr) (snd attr) sf
      | Some SV_plain \<Rightarrow> visitScaleFactor (fst attr) (snd attr) sf)"

definition read_scale_factors :: "(string \<times> real option) list \<Rightarrow> ScaleFactors" where
  "read_scale_factors attrs = fold visit_scale_attr attrs ScaleFactors_new"

section \<open>Lemmas: tokens\<close>

lemma cut_token_clean: "cut_token delimiters s = (tok, rest) \<Longrightarrow> c \<in> set tok \<Longrightarrow> c \<notin> set delimiters"
  by (auto simp: cut_token_def dest: set_takeWhileD)

lemma has_next_clean:
  assumes "tkp_hasNext p = (True, q)" "\<forall>tok c. tkp_token p = Some tok \<longrightarrow> c \<in> set tok \<longrightarrow> c \<notin> set (tkp_delimiters p)"
  shows "tkp_delimiters q = tkp_delimiters p \<and> (\<forall>tok c. tkp_token q = Some tok \<longrightarrow> c \<in> set tok \<longrightarrow> c \<notin> set (tkp_delimiters p))"
  using assms cut_token_clean
  by (auto simp: tkp_hasNext_def Let_def split: if_splits option.splits prod.splits)

text \<open>A token has no delimiter.\<close>

lemma all_tokens_clean:
  assumes "tok \<in> set (all_tokens p)" "c \<in> set tok"
    and "\<forall>tok c. tkp_token p = Some tok \<longrightarrow> c \<in> set tok \<longrightarrow> c \<notin> set (tkp_delimiters p)"
  shows "c \<notin> set (tkp_delimiters p)"
  using assms
proof (induction p rule: all_tokens.induct)
  case (1 p)
  obtain more q where next_p: "tkp_hasNext p = (more, q)" by fastforce
  show ?case
  proof (cases more)
    case False
    then show ?thesis using 1(2) next_p by (subst (asm) all_tokens.simps) simp
  next
    case True
    note clean = has_next_clean [OF next_p [unfolded True [THEN eqTrueI]] 1(4)]
    have q: "tkp_next q = (tkp_token q, q\<lparr>tkp_first := False\<rparr>)" by (simp add: tkp_next_def)
    have "tkp_token q \<noteq> None" using next_p True by (auto simp: tkp_hasNext_def Let_def)
    then obtain t where t: "tkp_token q = Some t" by blast
    have "all_tokens p = t # all_tokens (q\<lparr>tkp_first := False\<rparr>)"
      using next_p True q t by (subst all_tokens.simps) simp
    then consider "tok = t" | "tok \<in> set (all_tokens (q\<lparr>tkp_first := False\<rparr>))" using 1(2) by auto
    then show ?thesis
    proof cases
      case 1
      then show ?thesis using clean t assms(2) by blast
    next
      case 2
      have "c \<notin> set (tkp_delimiters (q\<lparr>tkp_first := False\<rparr>))"
        by (rule 1(1) [OF next_p [symmetric] refl True q [symmetric] refl 2 1(3)]) (use clean in auto)
      then show ?thesis using clean by simp
    qed
  qed
qed

lemma tokens_clean: "tok \<in> set (tokens str delimiters) \<Longrightarrow> c \<in> set tok \<Longrightarrow> c \<notin> set delimiters"
proof -
  let ?p = "TokenParser_new str delimiters"
  assume tok: "tok \<in> set (tokens str delimiters)" "c \<in> set tok"
  have del: "tkp_delimiters ?p = delimiters" by (simp add: TokenParser_new_def case_prod_beta)
  have "\<forall>tok c. tkp_token ?p = Some tok \<longrightarrow> c \<in> set tok \<longrightarrow> c \<notin> set (tkp_delimiters ?p)"
    using cut_token_clean by (auto simp: TokenParser_new_def case_prod_beta prod_eq_iff)
  from all_tokens_clean [OF tok(1) [unfolded tokens_def] tok(2) this] show ?thesis by (simp add: del)
qed

section \<open>Lemmas: scale factors that are read and those that are not\<close>

lemma enum_find_known: "enum_find_key names name unknown = key \<Longrightarrow> key = unknown \<or> (key, name) \<in> set names"
  by (auto simp: enum_find_key_def find_Some_iff split: option.splits) (metis nth_mem)

lemma find_type_underscore:
  assumes "token_type tok \<in> {SF_pin_cap, SF_wire_cap, SF_wire_res, SF_min_period, SF_leakage_power, SF_internal_power,
      SF_min_pulse_width}"
  obtains name where "tok = Some name" "CHR ''_'' \<in> set name"
proof (cases tok)
  case None
  then show ?thesis using assms by (simp add: token_type_def)
next
  case (Some name)
  then have "(token_type tok, name) \<in> set scale_factor_type_names"
    using assms enum_find_known [of scale_factor_type_names name SF_unknown]
    by (auto simp: token_type_def findScaleFactorType_def)
  then have "CHR ''_'' \<in> set name"
    using assms by (elim insertE emptyE) (simp_all add: scale_factor_type_names_def)
  then show ?thesis using Some that by blast
qed

lemma token_at_mem: "token_at toks i = Some tok \<Longrightarrow> tok \<in> set toks"
  by (auto simp: token_at_def split: if_splits)

definition unread_types :: "ScaleFactorType set" where
  "unread_types = {SF_pin_cap, SF_wire_cap, SF_wire_res, SF_min_period, SF_leakage_power, SF_internal_power,
     SF_min_pulse_width}"

lemma underscore_type_unread:
  assumes "type \<in> unread_types"
  shows "token_type (token_at (tokens name ''_'') i) \<noteq> type"
proof
  assume "token_type (token_at (tokens name ''_'') i) = type"
  then have "token_type (token_at (tokens name ''_'') i) \<in> {SF_pin_cap, SF_wire_cap, SF_wire_res, SF_min_period,
      SF_leakage_power, SF_internal_power, SF_min_pulse_width}"
    using assms by (simp add: unread_types_def)
  then obtain nm where "token_at (tokens name ''_'') i = Some nm" "CHR ''_'' \<in> set nm"
    by (rule find_type_underscore)
  then show False using tokens_clean [OF token_at_mem] by fastforce
qed

text \<open>The names that are registered have no space.\<close>

lemma name_chars:
  "c \<in> set (c_str (scaleFactorTypeName type)) \<Longrightarrow> \<not> c_isspace c"
  "c \<in> set (c_str (scaleFactorPvtName pvt)) \<Longrightarrow> \<not> c_isspace c"
  by (cases type; fastforce simp: scaleFactorTypeName_def scale_factor_type_names_def c_str_def c_isspace_def)
    (cases pvt; fastforce simp: scaleFactorPvtName_def scale_factor_pvt_names_def c_str_def c_isspace_def)

lemma registered_from:
  assumes "scale_visitor name = Some v"
  obtains type pvt where "(name, v) \<in> set (scale_attrs_of type pvt)"
  using assms by (auto simp: scale_visitor_def defineScalingFactorVisitors_def dest!: map_of_SomeD)

lemma registered_no_space: "scale_visitor name = Some v \<Longrightarrow> c \<in> set name \<Longrightarrow> \<not> c_isspace c"
proof (erule registered_from)
  fix type pvt
  assume "(name, v) \<in> set (scale_attrs_of type pvt)" "c \<in> set name"
  moreover have "\<not> c_isspace (CHR ''k'')" "\<not> c_isspace (CHR ''_'')"
    "\<forall>c \<in> set (''rise'' @ ''fall'' @ ''high'' @ ''low''). \<not> c_isspace c"
    by (simp_all add: c_isspace_def)
  ultimately show "\<not> c_isspace c"
    using name_chars(1) [of c type] name_chars(2) [of c pvt]
    by (auto simp: scale_attrs_of_def Let_def split: if_splits)
qed

lemma tokens_no_delimiter:
  assumes "\<forall>c \<in> set str. \<not> c_isspace c \<and> c \<notin> set delimiters"
  shows "tokens str delimiters = [str]"
proof -
  have none: "dropWhile (\<lambda>c. c \<notin> set delimiters) str = []" "dropWhile c_isspace str = str"
    using assms by (auto simp: dropWhile_eq_self_iff)
  have all: "takeWhile (\<lambda>c. c \<notin> set delimiters) str = str" using assms by (simp add: takeWhile_eq_all_conv)
  show ?thesis
    by (simp add: tokens_def TokenParser_new_def none cut_token_def all all_tokens.simps tkp_hasNext_def tkp_next_def)
qed

text \<open>An attribute of the plain kind is registered and then ignored: its name has no space to cut it at.\<close>

lemma plain_ignored:
  assumes "scale_visitor name = Some v"
  shows "visitScaleFactor name x sf = sf"
proof -
  have "c_isspace (CHR '' '')" by code_simp
  then have "\<forall>c \<in> set name. \<not> c_isspace c \<and> c \<notin> set '' ''" using registered_no_space [OF assms] by auto
  then have "tokens name '' '' = [name]" by (rule tokens_no_delimiter)
  then show ?thesis by (simp add: visitScaleFactor_def token_at_def token_pvt_def Let_def split: option.split)
qed

lemma set_scale_edge_other: "type' \<noteq> type \<Longrightarrow> set_scale_edge pvt type rf v sf type' pvt' rf' = sf type' pvt' rf'"
  by (auto simp: set_scale_edge_def setScale_rf_def split: option.split)

lemma unread_unchanged:
  assumes "type \<in> unread_types"
  shows "visit_scale_attr attr sf type pvt rf = sf type pvt rf"
  using underscore_type_unread [OF assms] plain_ignored
  by (auto simp: visit_scale_attr_def visitScaleFactorSuffix_def visitScaleFactorPrefix_def visitScaleFactorHiLow_def
      Let_def set_scale_edge_other [OF not_sym] split: option.split ScaleVisitor.split)

lemma unread_zero: "type \<in> unread_types \<Longrightarrow> read_scale_factors attrs type pvt rf = 0"
proof -
  assume type: "type \<in> unread_types"
  have "fold visit_scale_attr attrs sf type pvt rf = sf type pvt rf" for sf
    by (induction attrs arbitrary: sf) (simp_all add: unread_unchanged [OF type])
  then show ?thesis by (simp add: read_scale_factors_def ScaleFactors_new_def)
qed

text \<open>Words joined by a delimiter are the tokens of the result.\<close>

fun join_tokens :: "char \<Rightarrow> string list \<Rightarrow> string" where
  "join_tokens d [] = []"
| "join_tokens d [w] = w"
| "join_tokens d (w # v # ws) = w @ d # join_tokens d (v # ws)"

definition words_ok :: "char \<Rightarrow> string list \<Rightarrow> bool" where
  "words_ok d ws \<longleftrightarrow> (\<forall>w \<in> set ws. w \<noteq> [] \<and> (\<forall>c \<in> set w. c \<noteq> d \<and> \<not> c_isspace c))"

lemma cut_join:
  assumes "words_ok d (w # ws)"
  shows "cut_token [d] (join_tokens d (w # ws)) = (w, if ws = [] then None else Some (join_tokens d ws))"
proof -
  have w: "\<forall>c \<in> set w. c \<noteq> d" using assms by (auto simp: words_ok_def)
  then have dw: "takeWhile (\<lambda>c. c \<noteq> d) w = w" "dropWhile (\<lambda>c. c \<noteq> d) w = []"
    by (simp_all add: takeWhile_eq_all_conv dropWhile_eq_Nil_conv)
  then show ?thesis using w by (cases ws) (auto simp: cut_token_def takeWhile_append2 dropWhile_append2 dw)
qed

lemma join_head:
  assumes "words_ok d (w # ws)"
  shows "dropWhile c_isspace (join_tokens d (w # ws)) = join_tokens d (w # ws)"
    "dropWhile (\<lambda>c. c \<in> set [d]) (join_tokens d (w # ws)) = join_tokens d (w # ws)" "join_tokens d (w # ws) \<noteq> []"
  using assms by (cases w; cases ws; simp add: words_ok_def)+

lemma all_tokens_join:
  assumes "\<not> tkp_first p" "tkp_delimiters p = [d]" "words_ok d ws"
    "tkp_rest p = (if ws = [] then None else Some (join_tokens d ws))"
  shows "all_tokens p = ws"
  using assms
proof (induction ws arbitrary: p)
  case Nil
  then show ?case by (subst all_tokens.simps) (simp add: tkp_hasNext_def)
next
  case (Cons w ws)
  let ?q = "p\<lparr>tkp_token := Some w, tkp_rest := (if ws = [] then None else Some (join_tokens d ws))\<rparr>"
  have "tkp_hasNext p = (True, ?q)"
    using Cons.prems(1,2,4) join_head [OF Cons.prems(3)] cut_join [OF Cons.prems(3)]
    by (simp add: tkp_hasNext_def Let_def)
  moreover have "all_tokens (?q\<lparr>tkp_first := False\<rparr>) = ws"
    by (rule Cons.IH) (use Cons.prems in \<open>auto simp: words_ok_def\<close>)
  ultimately show ?case by (subst all_tokens.simps) (simp add: tkp_next_def)
qed

lemma tokens_join:
  assumes "words_ok d (w # ws)"
  shows "tokens (join_tokens d (w # ws)) [d] = w # ws"
proof -
  let ?p = "TokenParser_new (join_tokens d (w # ws)) [d]"
  have p: "?p = \<lparr>tkp_delimiters = [d], tkp_token = Some w,
      tkp_rest = (if ws = [] then None else Some (join_tokens d ws)), tkp_first = True\<rparr>"
    using join_head(1) [OF assms] cut_join [OF assms] by (simp add: TokenParser_new_def)
  have "all_tokens (?p\<lparr>tkp_first := False\<rparr>) = ws"
    by (rule all_tokens_join [of _ d]) (use assms in \<open>auto simp: p words_ok_def\<close>)
  then show ?thesis unfolding tokens_def
    by (subst all_tokens.simps) (simp add: tkp_hasNext_def tkp_next_def p)
qed

text \<open>C25: Scale factors of a library, as the reader leaves them after any sequence of attributes: the factors of the
  internal power, the leakage power, pin and wire capacitances and the periods stay zero (their names have underscores
  but are cut at underscores, or at spaces), so a table of the internal power is never scaled, whatever the
  operating conditions: the energies of the host are the plain values of the tables, as on the device.\<close>

theorem internal_power_never_scaled:
  assumes "ll_scale_factors (lc_library cell) = Some (read_scale_factors attrs)"
    and "lc_scale_factors cell = None \<or> lc_scale_factors cell = Some (read_scale_factors cell_attrs)"
    and "tm_scale_factor_type m \<in> unread_types"
  shows "tm_scaleFactor m cell pvt = 1 \<and> tm_findValue m cell pvt x1 x2 x3 = table_findValue (tm_table m) x1 x2 x3"
proof -
  have "tm_scaleFactor m cell pvt = 1"
    using assms by (auto simp: tm_scaleFactor_def library_scaleFactor_def unread_zero split: option.split)
  then show ?thesis by (cases "table_findValue (tm_table m) x1 x2 x3") (simp_all add: tm_findValue_def)
qed

definition scaled_library :: LibertyLibrary where
  "scaled_library = \<lparr>ll_nominal_process = 1, ll_nominal_voltage = 1, ll_nominal_temperature = 25,
     ll_scale_factors = Some (read_scale_factors [(''k_volt_internal_power'', Some 2), (''k_volt_cell_rise'', Some 3)]),
     ll_default_operating_conditions = Some \<lparr>pvt_process = 1, pvt_voltage = 2, pvt_temperature = 25\<rparr>\<rparr>"

text \<open>The same attributes do scale the delay of a cell.\<close>

theorem internal_power_never_scaled_witness:
  "tm_scaleFactor (TableModel_new (Table0 5) SF_internal_power Rise) \<lparr>lc_library = scaled_library, lc_scale_factors = None\<rparr> None = 1
   \<and> tm_scaleFactor (TableModel_new (Table0 5) SF_cell Rise) \<lparr>lc_library = scaled_library, lc_scale_factors = None\<rparr> None = 4"
proof
  let ?cell = "\<lparr>lc_library = scaled_library, lc_scale_factors = None\<rparr>"
  show "tm_scaleFactor (TableModel_new (Table0 5) SF_internal_power Rise) ?cell None = 1"
    using internal_power_never_scaled [of ?cell "[(''k_volt_internal_power'', Some 2), (''k_volt_cell_rise'', Some 3)]"
        "[]" "TableModel_new (Table0 5) SF_internal_power Rise" None]
    by (simp add: scaled_library_def TableModel_new_def unread_types_def)
  have "tokens ''k_volt_cell_rise'' ''_'' = [''k'', ''volt'', ''cell'', ''rise'']"
    using tokens_join [of "CHR ''_''" "''k''" "[''volt'', ''cell'', ''rise'']"] by (simp add: words_ok_def c_isspace_def)
  moreover have "scale_visitor ''k_volt_cell_rise'' = Some SV_suffix" by code_simp
  ultimately have "visit_scale_attr (''k_volt_cell_rise'', Some 3) sf = setScale_rf sf SF_cell SP_volt Rise 3" for sf
    by (simp add: visit_scale_attr_def visitScaleFactorSuffix_def Let_def set_scale_edge_def token_at_def token_pvt_def
        token_type_def token_edge_def findScaleFactorPvt_def findScaleFactorType_def enum_find_key_def
        scale_factor_pvt_names_def scale_factor_type_names_def numeral_eq_Suc)
  then have "ll_scale_factors scaled_library
      = Some (setScale_rf (visit_scale_attr (''k_volt_internal_power'', Some 2) ScaleFactors_new) SF_cell SP_volt Rise 3)"
    by (simp add: scaled_library_def read_scale_factors_def)
  moreover have "visit_scale_attr (''k_volt_internal_power'', Some 2) ScaleFactors_new = ScaleFactors_new"
  proof -
    have "scale_visitor ''k_volt_internal_power'' = Some SV_plain" by code_simp
    then show ?thesis using plain_ignored by (simp add: visit_scale_attr_def)
  qed
  ultimately show "tm_scaleFactor (TableModel_new (Table0 5) SF_cell Rise) ?cell None = 4"
    by (simp add: tm_scaleFactor_def TableModel_new_def library_scaleFactor_def setScale_rf_def ScaleFactors_new_def)
      (simp add: scaled_library_def)
qed

section \<open>Lists of numbers\<close>

text \<open>
  \<open>strtof\<close>: white space, a sign, digits with an optional fraction and an optional decimal exponent; the value and what
  is left, the whole string when there is no number. Hexadecimal numbers, infinities and NaN are not modelled.
\<close>

definition skip_digits :: "string \<Rightarrow> string" where
  "skip_digits s = dropWhile c_isdigit s"

definition read_sign :: "string \<Rightarrow> real \<times> string" where
  "read_sign s =
     (case s of [] \<Rightarrow> (1, [])
      | c # cs \<Rightarrow> if c = CHR ''-'' then (-1, cs) else if c = CHR ''+'' then (1, cs) else (1, s))"

definition starts_digit :: "string \<Rightarrow> bool" where
  "starts_digit s \<longleftrightarrow> (case s of [] \<Rightarrow> False | c # cs \<Rightarrow> c_isdigit c)"

definition read_fraction :: "string \<Rightarrow> real \<times> string" where
  "read_fraction s =
     (case s of
        c # cs \<Rightarrow> if c = CHR ''.'' then
             (of_int (digits_val 0 cs) / 10 ^ length (takeWhile c_isdigit cs), skip_digits cs) else (0, s)
      | [] \<Rightarrow> (0, s))"

definition read_exponent :: "string \<Rightarrow> real \<times> string" where
  "read_exponent s =
     (case s of
        c # cs \<Rightarrow>
          if c = CHR ''e'' \<or> c = CHR ''E'' then
            (let (sign, ds) = read_sign cs in
             if starts_digit ds then
               (let n = 10 ^ nat (digits_val 0 ds) in (if sign < 0 then 1 / n else n, skip_digits ds))
             else (1, s))
          else (1, s)
      | [] \<Rightarrow> (1, s))"

definition c_strtof :: "string \<Rightarrow> real \<times> string" where
  "c_strtof str =
     (let (sign, s) = read_sign (dropWhile c_isspace str); (frac, s1) = read_fraction (skip_digits s) in
      if starts_digit s \<or> (s1 \<noteq> skip_digits s \<and> starts_digit (tl s)) then
        (let (scale, rest) = read_exponent s1 in (sign * (of_int (digits_val 0 s) + frac) * scale, rest))
      else (0, str))"

text \<open>A token that is no number counts as zero or as its leading number; the reader only warns.\<close>

definition token_float :: "real \<Rightarrow> string \<Rightarrow> real" where
  "token_float scale token =
     fst (c_strtof (case token of c # cs \<Rightarrow> if c = CHR ''{'' then cs else token | [] \<Rightarrow> token)) * scale"

definition parseStringFloatList :: "string \<Rightarrow> real \<Rightarrow> real list" where
  "parseStringFloatList float_list scale = map (token_float scale) (tokens float_list '', '')"

datatype AttrValue = AttrString string | AttrFloat real

datatype LibertyAttr = SimpleAttr AttrValue | ComplexAttr "AttrValue list"

text \<open>Values given as a number are not scaled.\<close>

definition readFloatSeq :: "LibertyAttr \<Rightarrow> real \<Rightarrow> real list option" where
  "readFloatSeq attr scale =
     (case attr of
        ComplexAttr [] \<Rightarrow> None
      | ComplexAttr (AttrString s # vs) \<Rightarrow> Some (parseStringFloatList s scale)
      | ComplexAttr (AttrFloat x # vs) \<Rightarrow> Some [x]
      | SimpleAttr (AttrString s) \<Rightarrow> Some (parseStringFloatList s scale)
      | SimpleAttr (AttrFloat x) \<Rightarrow> None)"

section \<open>Templates and tables\<close>

definition table_axis_variable_names :: "(TableAxisVariable \<times> string) list" where
  "table_axis_variable_names =
     [(AV_total_output_net_capacitance, ''total_output_net_capacitance''),
      (AV_equal_or_opposite_output_net_capacitance, ''equal_or_opposite_output_net_capacitance''),
      (AV_input_net_transition, ''input_net_transition''), (AV_input_transition_time, ''input_transition_time''),
      (AV_related_pin_transition, ''related_pin_transition''),
      (AV_constrained_pin_transition, ''constrained_pin_transition''),
      (AV_output_pin_transition, ''output_pin_transition''), (AV_connect_delay, ''connect_delay''),
      (AV_related_out_total_output_net_capacitance, ''related_out_total_output_net_capacitance''),
      (AV_time, ''time''), (AV_iv_output_voltage, ''iv_output_voltage''), (AV_input_noise_width, ''input_noise_width''),
      (AV_input_noise_height, ''input_noise_height''), (AV_input_voltage, ''input_voltage''),
      (AV_output_voltage, ''output_voltage''), (AV_path_depth, ''path_depth''), (AV_path_distance, ''path_distance''),
      (AV_normalized_voltage, ''normalized_voltage'')]"

definition stringTableAxisVariable :: "string \<Rightarrow> TableAxisVariable" where
  "stringTableAxisVariable name = enum_find_key table_axis_variable_names name AV_unknown"

datatype UnitKind = U_capacitance | U_time | U_voltage | U_distance | U_scalar

fun tableVariableUnit :: "TableAxisVariable \<Rightarrow> UnitKind" where
  "tableVariableUnit AV_total_output_net_capacitance = U_capacitance"
| "tableVariableUnit AV_related_out_total_output_net_capacitance = U_capacitance"
| "tableVariableUnit AV_equal_or_opposite_output_net_capacitance = U_capacitance"
| "tableVariableUnit AV_input_net_transition = U_time"
| "tableVariableUnit AV_input_transition_time = U_time"
| "tableVariableUnit AV_related_pin_transition = U_time"
| "tableVariableUnit AV_constrained_pin_transition = U_time"
| "tableVariableUnit AV_output_pin_transition = U_time"
| "tableVariableUnit AV_connect_delay = U_time"
| "tableVariableUnit AV_time = U_time"
| "tableVariableUnit AV_input_noise_height = U_time"
| "tableVariableUnit AV_input_voltage = U_voltage"
| "tableVariableUnit AV_output_voltage = U_voltage"
| "tableVariableUnit AV_iv_output_voltage = U_voltage"
| "tableVariableUnit AV_input_noise_width = U_voltage"
| "tableVariableUnit AV_path_distance = U_distance"
| "tableVariableUnit AV_path_depth = U_scalar"
| "tableVariableUnit AV_normalized_voltage = U_scalar"
| "tableVariableUnit AV_unknown = U_scalar"

datatype TableTemplateType = TT_delay | TT_power | TT_output_current | TT_capacitance | TT_ocv

text \<open>The axis of a template: its values are null when the template has no index for it.\<close>

type_synonym TemplateAxis = "TableAxisVariable \<times> real list option"

type_synonym TableTemplate = "nat \<Rightarrow> TemplateAxis option"

text \<open>
  The state of the reader within a library: the templates by type and name, the template of the current group, and
  per axis its variable, the values of its index and the axis of the current table.
\<close>

record TableReader =
  trd_unit_scale :: "UnitKind \<Rightarrow> real"
  trd_templates :: "TableTemplateType \<times> string \<rightharpoonup> TableTemplate"
  trd_tbl_template :: "(TableTemplateType \<times> string) option"
  trd_axis_var :: "nat \<Rightarrow> TableAxisVariable"
  trd_axis_values :: "nat \<Rightarrow> real list option"
  trd_axis :: "nat \<Rightarrow> TemplateAxis option"
  trd_table :: "Table option"
  trd_table_model_scale :: real

text \<open>A new library has a template named scalar, without axes, of every type.\<close>

definition TableReader_new :: "(UnitKind \<Rightarrow> real) \<Rightarrow> TableReader" where
  "TableReader_new unit_scale =
     \<lparr>trd_unit_scale = unit_scale,
      trd_templates = (\<lambda>(type, name). if name = ''scalar'' then Some (\<lambda>i. None) else None),
      trd_tbl_template = None, trd_axis_var = (\<lambda>i. AV_unknown), trd_axis_values = (\<lambda>i. None),
      trd_axis = (\<lambda>i. None), trd_table = None, trd_table_model_scale = 1\<rparr>"

definition scaleFloats :: "real list \<Rightarrow> real \<Rightarrow> real list" where
  "scaleFloats floats scale = map (\<lambda>x. x * scale) floats"

definition variable_scale :: "TableReader \<Rightarrow> TableAxisVariable \<Rightarrow> real" where
  "variable_scale r var = trd_unit_scale r (tableVariableUnit var)"

definition beginTableTemplate :: "TableTemplateType \<Rightarrow> string option \<Rightarrow> TableReader \<Rightarrow> TableReader" where
  "beginTableTemplate type name r =
     (let r' = (case name of
                  None \<Rightarrow> r
                | Some nm \<Rightarrow> r\<lparr>trd_tbl_template := Some (type, nm),
                                trd_templates := (trd_templates r)((type, nm) \<mapsto> (\<lambda>i. None))\<rparr>)
      in r'\<lparr>trd_axis_var := (\<lambda>i. AV_unknown), trd_axis_values := (\<lambda>i. None)\<rparr>)"

text \<open>The axis of a template, from its variable and the values of its index, which are scaled in place.\<close>

definition makeAxis :: "nat \<Rightarrow> TableReader \<Rightarrow> TemplateAxis option \<times> TableReader" where
  "makeAxis index r =
     (let var = trd_axis_var r index in
      if var \<noteq> AV_unknown then
        (let vals = map_option (\<lambda>vs. scaleFloats vs (variable_scale r var)) (trd_axis_values r index) in
         (Some (var, vals), r\<lparr>trd_axis_values := (trd_axis_values r)(index := vals)\<rparr>))
      else (None, r\<lparr>trd_axis_values := (trd_axis_values r)(index := None)\<rparr>))"

definition set_template_axis :: "TableTemplateType \<times> string \<Rightarrow> nat \<Rightarrow> TableReader \<Rightarrow> TableReader" where
  "set_template_axis key index r =
     (let (axis, r') = makeAxis index r in
      case axis of
        None \<Rightarrow> r'
      | Some a \<Rightarrow> r'\<lparr>trd_templates := (trd_templates r')(key := map_option (\<lambda>t. t(index := Some a)) (trd_templates r' key))\<rparr>)"

definition endTableTemplate :: "TableReader \<Rightarrow> TableReader" where
  "endTableTemplate r =
     (case trd_tbl_template r of
        None \<Rightarrow> r
      | Some key \<Rightarrow>
          (set_template_axis key 2 (set_template_axis key 1 (set_template_axis key 0 r)))
            \<lparr>trd_tbl_template := None, trd_axis_var := (\<lambda>i. AV_unknown)\<rparr>)"

text \<open>The attribute that names the variable of an axis must be a string.\<close>

definition visitVariable :: "nat \<Rightarrow> string option \<Rightarrow> TableReader \<Rightarrow> table_error + TableReader" where
  "visitVariable index type r =
     (if trd_tbl_template r = None then Inr r
      else case type of
          None \<Rightarrow> Inl NullPointer
        | Some name \<Rightarrow>
            let var = stringTableAxisVariable name in
            Inr (if var = AV_unknown then r else r\<lparr>trd_axis_var := (trd_axis_var r)(index := var)\<rparr>))"

text \<open>Indexes that do not increase get a warning only.\<close>

definition visitIndex :: "nat \<Rightarrow> LibertyAttr \<Rightarrow> string \<Rightarrow> TableReader \<Rightarrow> TableReader" where
  "visitIndex index attr group_type r =
     (if trd_tbl_template r \<noteq> None \<and> group_type \<noteq> ''ecsm_waveform'' then
        (case readFloatSeq attr 1 of
           None \<Rightarrow> r
         | Some values \<Rightarrow> r\<lparr>trd_axis_values := (trd_axis_values r)(index := Some values)\<rparr>)
      else r)"

definition beginTable :: "TableTemplateType \<Rightarrow> string option \<Rightarrow> real \<Rightarrow> TableReader \<Rightarrow> TableReader" where
  "beginTable type name scale r =
     (case name of
        None \<Rightarrow> r
      | Some nm \<Rightarrow>
          (case trd_templates r (type, nm) of
             Some t \<Rightarrow> r\<lparr>trd_tbl_template := Some (type, nm), trd_axis := t\<rparr>
           | None \<Rightarrow> r\<lparr>trd_tbl_template := None, trd_axis := (\<lambda>i. None)\<rparr>)
          \<lparr>trd_axis_values := (\<lambda>i. None), trd_table := None, trd_table_model_scale := scale\<rparr>)"

definition endTable :: "TableReader \<Rightarrow> TableReader" where
  "endTable r = r\<lparr>trd_table := None, trd_tbl_template := None, trd_axis := (\<lambda>i. None)\<rparr>"

text \<open>An index inside the table replaces the one of the template; the template must have that axis.\<close>

definition makeTableAxis :: "nat \<Rightarrow> TableReader \<Rightarrow> table_error + TableReader" where
  "makeTableAxis index r =
     (case trd_axis_values r index of
        None \<Rightarrow> Inr r
      | Some values \<Rightarrow>
          (case trd_axis r index of
             None \<Rightarrow> Inl NullPointer
           | Some (var, old) \<Rightarrow>
               let scaled = scaleFloats values (variable_scale r var) in
               Inr (r\<lparr>trd_axis_values := (trd_axis_values r)(index := Some scaled),
                      trd_axis := (trd_axis r)(index := Some (var, Some scaled))\<rparr>)))"

definition pad_row :: "nat \<Rightarrow> real list \<Rightarrow> real list" where
  "pad_row cols row = row @ replicate (cols - length row) 0"

definition table_row :: "real \<Rightarrow> AttrValue \<Rightarrow> real list" where
  "table_row scale v = (case v of AttrString s \<Rightarrow> parseStringFloatList s scale | AttrFloat x \<Rightarrow> [x * scale])"

text \<open>Short rows and missing rows are filled with zeros; what is beyond the axes stays.\<close>

definition makeFloatTable :: "AttrValue list \<Rightarrow> nat \<Rightarrow> nat \<Rightarrow> real \<Rightarrow> real list list" where
  "makeFloatTable values rows cols scale =
     (let table = map (\<lambda>v. pad_row cols (table_row scale v)) values in
      table @ replicate (rows - length table) (replicate cols 0))"

definition axis_object :: "TemplateAxis \<Rightarrow> table_error + TableAxis" where
  "axis_object axis =
     (case snd axis of None \<Rightarrow> Inl NullPointer | Some values \<Rightarrow> Inr \<lparr>ax_variable = fst axis, ax_values = values\<rparr>)"

definition build_table :: "AttrValue list \<Rightarrow> real \<Rightarrow> (nat \<Rightarrow> TemplateAxis option) \<Rightarrow> table_error + Table" where
  "build_table values scale axis =
     (case (axis 0, axis 1, axis 2) of
        (Some x, Some y, Some z) \<Rightarrow>
          res_bind (axis_object x) (\<lambda>a1. res_bind (axis_object y) (\<lambda>a2. res_bind (axis_object z) (\<lambda>a3.
            Inr (Table3 (makeFloatTable values (length (ax_values a1) * length (ax_values a2)) (length (ax_values a3)) scale)
                   a1 a2 a3))))
      | (Some x, Some y, None) \<Rightarrow>
          res_bind (axis_object x) (\<lambda>a1. res_bind (axis_object y) (\<lambda>a2.
            Inr (Table2 (makeFloatTable values (length (ax_values a1)) (length (ax_values a2)) scale) a1 a2)))
      | (Some x, None, _) \<Rightarrow>
          res_bind (axis_object x) (\<lambda>a1.
            Inr (Table1 (makeFloatTable values 1 (length (ax_values a1)) scale ! 0) a1))
      | _ \<Rightarrow> Inr (Table0 (makeFloatTable values 1 1 scale ! 0 ! 0)))"

definition makeTable :: "LibertyAttr \<Rightarrow> real \<Rightarrow> TableReader \<Rightarrow> table_error + TableReader" where
  "makeTable attr scale r =
     (case attr of
        SimpleAttr v \<Rightarrow> Inr r
      | ComplexAttr values \<Rightarrow>
          res_bind (makeTableAxis 0 r) (\<lambda>r. res_bind (makeTableAxis 1 r) (\<lambda>r. res_bind (makeTableAxis 2 r) (\<lambda>r.
          res_bind (build_table values scale (trd_axis r)) (\<lambda>t. Inr (r\<lparr>trd_table := Some t\<rparr>))))))"

definition visitValues :: "LibertyAttr \<Rightarrow> string \<Rightarrow> TableReader \<Rightarrow> table_error + TableReader" where
  "visitValues attr group_type r =
     (if trd_tbl_template r \<noteq> None \<and> group_type \<noteq> ''ecsm_waveform''
      then makeTable attr (trd_table_model_scale r) r else Inr r)"

text \<open>The statements of a library that reach these visitors, in any order.\<close>

datatype TableStmt =
    TS_begin_template TableTemplateType "string option"
  | TS_variable nat "string option"
  | TS_index nat LibertyAttr string
  | TS_end_template
  | TS_begin_table TableTemplateType "string option" real
  | TS_values LibertyAttr string
  | TS_end_table

fun visit_table_stmt :: "TableReader \<Rightarrow> TableStmt \<Rightarrow> table_error + TableReader" where
  "visit_table_stmt r (TS_begin_template type name) = Inr (beginTableTemplate type name r)"
| "visit_table_stmt r (TS_variable index name) = visitVariable index name r"
| "visit_table_stmt r (TS_index index attr group_type) = Inr (visitIndex index attr group_type r)"
| "visit_table_stmt r TS_end_template = Inr (endTableTemplate r)"
| "visit_table_stmt r (TS_begin_table type name scale) = Inr (beginTable type name scale r)"
| "visit_table_stmt r (TS_values attr group_type) = visitValues attr group_type r"
| "visit_table_stmt r TS_end_table = Inr (endTable r)"

fun read_tables :: "TableReader \<Rightarrow> TableStmt list \<Rightarrow> table_error + TableReader" where
  "read_tables r [] = Inr r"
| "read_tables r (stmt # stmts) = res_bind (visit_table_stmt r stmt) (\<lambda>r'. read_tables r' stmts)"

section \<open>Lemmas: tables that are read\<close>

lemma tokens_nonempty: "tokens str delimiters \<noteq> []"
  unfolding tokens_def
  by (subst all_tokens.simps) (simp add: TokenParser_new_def tkp_hasNext_def tkp_next_def case_prod_beta)

lemma parse_nonempty: "parseStringFloatList s scale \<noteq> []"
  by (simp add: parseStringFloatList_def tokens_nonempty)

lemma read_float_seq_nonempty: "readFloatSeq attr scale = Some values \<Longrightarrow> values \<noteq> []"
  by (auto simp: readFloatSeq_def parse_nonempty split: LibertyAttr.splits list.splits AttrValue.splits)

lemma scale_floats_length [simp]: "length (scaleFloats vs scale) = length vs" "scaleFloats vs scale = [] \<longleftrightarrow> vs = []"
  by (simp_all add: scaleFloats_def)

lemma pad_row_length: "cols \<le> length (pad_row cols row)"
  by (simp add: pad_row_def)

lemma float_table_ok: "rows_ok (makeFloatTable values rows cols scale) rows cols"
  by (auto simp: rows_ok_def makeFloatTable_def Let_def pad_row_length)

fun table_shape :: "Table \<Rightarrow> bool" where
  "table_shape (Table0 v) = True"
| "table_shape (Table1 vals a1) = (ax_values a1 \<noteq> [] \<and> length (ax_values a1) \<le> length vals)"
| "table_shape (Table2 rows a1 a2) = (ax_values a1 \<noteq> [] \<and> ax_values a2 \<noteq> []
     \<and> rows_ok rows (length (ax_values a1)) (length (ax_values a2)))"
| "table_shape (Table3 rows a1 a2 a3) = (ax_values a1 \<noteq> [] \<and> ax_values a2 \<noteq> [] \<and> ax_values a3 \<noteq> []
     \<and> rows_ok rows (length (ax_values a1) * length (ax_values a2)) (length (ax_values a3)))"

definition axes_increasing :: "Table \<Rightarrow> bool" where
  "axes_increasing t \<longleftrightarrow>
     (let increasing = opt_check (\<lambda>a. sorted_wrt (<) (ax_values a)) in
      increasing (table_axis1 t) \<and> increasing (table_axis2 t) \<and> increasing (table_axis3 t))"

lemma table_ok_iff: "table_ok t \<longleftrightarrow> table_shape t \<and> axes_increasing t"
  by (cases t) (auto simp: axes_increasing_def opt_check_def strict_axis_def)

text \<open>No index is empty, neither of the reader nor of a template, and the current table has the shape of its axes.\<close>

definition values_ok :: "real list option \<Rightarrow> bool" where
  "values_ok vals \<longleftrightarrow> vals \<noteq> Some []"

definition axis_ok :: "TemplateAxis option \<Rightarrow> bool" where
  "axis_ok axis \<longleftrightarrow> (\<forall>var vals. axis = Some (var, vals) \<longrightarrow> values_ok vals)"

definition reader_ok :: "TableReader \<Rightarrow> bool" where
  "reader_ok r \<longleftrightarrow> (\<forall>i. values_ok (trd_axis_values r i)) \<and> (\<forall>i. axis_ok (trd_axis r i))
     \<and> (\<forall>key t i. trd_templates r key = Some t \<longrightarrow> axis_ok (t i)) \<and> (\<forall>t. trd_table r = Some t \<longrightarrow> table_shape t)"

lemma values_ok_simps [simp]:
  "values_ok None" "values_ok (Some vs) \<longleftrightarrow> vs \<noteq> []" "values_ok (map_option (\<lambda>vs. scaleFloats vs s) vals) \<longleftrightarrow> values_ok vals"
  "axis_ok None" "axis_ok (Some (var, vals)) \<longleftrightarrow> values_ok vals"
  by (cases vals; simp add: values_ok_def axis_ok_def)+

lemma make_axis_ok:
  assumes "reader_ok r" "makeAxis index r = (axis, r')"
  shows "axis_ok axis \<and> reader_ok r'"
  using assms by (auto simp: makeAxis_def Let_def reader_ok_def split: if_splits)

lemma set_template_axis_ok: "reader_ok r \<Longrightarrow> reader_ok (set_template_axis key index r)"
proof -
  assume r: "reader_ok r"
  obtain axis r' where make: "makeAxis index r = (axis, r')" by fastforce
  then have "axis_ok axis" "reader_ok r'" "trd_templates r' = trd_templates r"
    using make_axis_ok [OF r make] by (auto simp: makeAxis_def Let_def split: if_splits)
  then show ?thesis
    by (auto simp: set_template_axis_def make reader_ok_def split: option.splits if_splits)
qed

lemma make_table_axis_ok:
  assumes "reader_ok r" "makeTableAxis index r = Inr r'"
  shows "reader_ok r'"
proof (cases "trd_axis_values r index")
  case None
  then show ?thesis using assms by (simp add: makeTableAxis_def)
next
  case (Some vals)
  then have "vals \<noteq> []" using assms(1) values_ok_simps(2) [of vals] unfolding reader_ok_def by metis
  then show ?thesis using assms Some
    by (auto simp: makeTableAxis_def Let_def reader_ok_def split: option.splits)
qed

lemma build_table_shape:
  assumes "build_table values scale axis = Inr t" "\<forall>i. axis_ok (axis i)"
  shows "table_shape t"
proof -
  have ne: "ax_values a \<noteq> []" if "axis i = Some x" "axis_object x = Inr a" for i x a
  proof -
    obtain var vals where "x = (var, vals)" by fastforce
    then show ?thesis using that assms(2) [rule_format, of i] by (auto simp: axis_object_def split: option.splits)
  qed
  have row: "length (ax_values a) \<le> length (makeFloatTable values (Suc 0) (length (ax_values a)) scale ! 0)" for a
  proof -
    have "rows_ok (makeFloatTable values (Suc 0) (length (ax_values a)) scale) (Suc 0) (length (ax_values a))"
      by (rule float_table_ok)
    then show ?thesis by (cases "makeFloatTable values (Suc 0) (length (ax_values a)) scale") (auto simp: rows_ok_def)
  qed
  show ?thesis
    using assms(1) ne row float_table_ok
    by (auto simp: build_table_def res_bind_Inr split: option.splits)
qed

lemma make_table_ok:
  assumes "reader_ok r" "makeTable attr scale r = Inr r'"
  shows "reader_ok r'"
proof (cases attr)
  case (SimpleAttr v)
  then show ?thesis using assms by (simp add: makeTable_def)
next
  case (ComplexAttr vs)
  then obtain r1 r2 r3 t where steps: "makeTableAxis 0 r = Inr r1" "makeTableAxis 1 r1 = Inr r2" "makeTableAxis 2 r2 = Inr r3"
      "build_table vs scale (trd_axis r3) = Inr t" "r' = r3\<lparr>trd_table := Some t\<rparr>"
    using assms(2) by (auto simp: makeTable_def)
  have "reader_ok r3" using make_table_axis_ok steps(1-3) assms(1) by meson
  moreover from this have "table_shape t" using build_table_shape [OF steps(4)] by (simp add: reader_ok_def)
  ultimately show ?thesis by (simp add: steps(5) reader_ok_def)
qed

lemma visit_ok: "reader_ok r \<Longrightarrow> visit_table_stmt r stmt = Inr r' \<Longrightarrow> reader_ok r'"
proof (cases stmt)
  case (TS_begin_template type name)
  assume "reader_ok r" "visit_table_stmt r stmt = Inr r'"
  with TS_begin_template show ?thesis
    by (auto simp: beginTableTemplate_def Let_def reader_ok_def split: option.splits if_splits)
next
  case (TS_variable index name)
  assume "reader_ok r" "visit_table_stmt r stmt = Inr r'"
  with TS_variable show ?thesis
    by (auto simp: visitVariable_def Let_def reader_ok_def split: option.splits if_splits)
next
  case (TS_index index attr group_type)
  assume "reader_ok r" "visit_table_stmt r stmt = Inr r'"
  with TS_index show ?thesis using read_float_seq_nonempty [of attr 1]
    by (auto simp: visitIndex_def reader_ok_def split: option.splits if_splits)
next
  case TS_end_template
  assume "reader_ok r" "visit_table_stmt r stmt = Inr r'"
  then have r': "reader_ok r" "r' = endTableTemplate r" using TS_end_template by auto
  show ?thesis
  proof (cases "trd_tbl_template r")
    case None
    then show ?thesis using r' by (simp add: endTableTemplate_def)
  next
    case (Some key)
    have "reader_ok (set_template_axis key 2 (set_template_axis key 1 (set_template_axis key 0 r)))"
      by (intro set_template_axis_ok r')
    then show ?thesis using r' Some by (simp add: endTableTemplate_def reader_ok_def)
  qed
next
  case (TS_begin_table type name scale)
  assume "reader_ok r" "visit_table_stmt r stmt = Inr r'"
  with TS_begin_table show ?thesis
    by (auto simp: beginTable_def reader_ok_def split: option.splits)
next
  case (TS_values attr group_type)
  assume "reader_ok r" "visit_table_stmt r stmt = Inr r'"
  with TS_values make_table_ok show ?thesis by (auto simp: visitValues_def split: if_splits)
next
  case TS_end_table
  assume "reader_ok r" "visit_table_stmt r stmt = Inr r'"
  with TS_end_table show ?thesis by (auto simp: endTable_def reader_ok_def)
qed

lemma read_tables_ok: "read_tables r stmts = Inr r' \<Longrightarrow> reader_ok r \<Longrightarrow> reader_ok r'"
  by (induction stmts arbitrary: r) (auto intro: visit_ok)

lemma reader_new_ok: "reader_ok (TableReader_new unit_scale)"
  by (auto simp: TableReader_new_def reader_ok_def split: if_splits)


text \<open>A template over slew and load, and a table with a short row, which is filled with a zero.\<close>

definition library_text :: "TableStmt list" where
  "library_text =
     [TS_begin_template TT_delay (Some ''t''), TS_variable 0 (Some ''input_net_transition''),
      TS_variable 1 (Some ''total_output_net_capacitance''), TS_index 0 (ComplexAttr [AttrString ''0, 2'']) ''lu_table_template'',
      TS_index 1 (ComplexAttr [AttrFloat 1]) ''lu_table_template'', TS_end_template,
      TS_begin_table TT_delay (Some ''t'') 1, TS_values (ComplexAttr [AttrFloat 4]) ''cell_rise'']"

definition library_table :: Table where
  "library_table = Table2 [[4], [0]] \<lparr>ax_variable = AV_input_net_transition, ax_values = [0, 1]\<rparr>
     \<lparr>ax_variable = AV_total_output_net_capacitance, ax_values = [1/2]\<rparr>"

lemma library_text_read:
  "\<exists>r. read_tables (TableReader_new (\<lambda>_. 1/2)) library_text = Inr r \<and> trd_table r = Some library_table"
proof -
  have toks: "tokens ''0, 2'' '', '' = [''0'', ''2'']" by code_simp
  have zero: "token_float 1 ''0'' = 0" by code_simp
  have two: "token_float 1 ''2'' = 2" by code_simp
  have "parseStringFloatList ''0, 2'' 1 = [0, 2]" by (simp add: parseStringFloatList_def toks zero two)
  then show ?thesis
    by (simp add: library_text_def TableReader_new_def beginTableTemplate_def visitVariable_def visitIndex_def
        readFloatSeq_def endTableTemplate_def set_template_axis_def makeAxis_def beginTable_def visitValues_def
        makeTable_def makeTableAxis_def build_table_def axis_object_def makeFloatTable_def table_row_def pad_row_def
        scaleFloats_def variable_scale_def stringTableAxisVariable_def enum_find_key_def table_axis_variable_names_def
        library_table_def Let_def)
qed


text \<open>An index inside a table whose template has no such axis ends the program.\<close>

lemma scalar_index_crashes:
  "read_tables (TableReader_new unit_scale)
     [TS_begin_table TT_delay (Some ''scalar'') 1, TS_index 0 (ComplexAttr [AttrFloat x]) g,
      TS_values (ComplexAttr [AttrFloat y]) g] = (if g = ''ecsm_waveform'' then
        read_tables (TableReader_new unit_scale) [TS_begin_table TT_delay (Some ''scalar'') 1] else Inl NullPointer)"
  by (simp add: TableReader_new_def beginTable_def visitIndex_def readFloatSeq_def visitValues_def makeTable_def
      makeTableAxis_def)

end
