(* ===== verification/GTP_TableEquiv.thy ===== *)
theory GTP_TableEquiv
  imports GTP_CudaKernel GTP_GateEnergy GTP_LibertyTable
begin

text \<open>
  The internal power tables of the device against those of the host: the same table read with the linear search of
  \<open>util/cuda/OneDimensionalLUT.cuh\<close> and \<open>TwoDimensionalLUT.cuh\<close> and with the bisection of \<open>liberty/TableModel.cc\<close>,
  and the energy of an event of an input pin on both sides, from the groups of the library.
\<close>

section \<open>The tables the device is built from\<close>

text \<open>
  What the casts of the construction see of a table. A table of dimension three is one of dimension two
  for the cast: its rows with the first two axes.
\<close>

fun power_table :: "Table \<Rightarrow> PowerTable" where
  "power_table (Table0 v) = PT0 v"
| "power_table (Table1 vals a1) = PT1 (ax_variable a1 = AV_total_output_net_capacitance) (ax_values a1) vals"
| "power_table (Table2 rows a1 a2) = PT2 (ax_values a1) (ax_values a2) rows"
| "power_table (Table3 rows a1 a2 a3) = PT2 (ax_values a1) (ax_values a2) rows"

text \<open>The device takes the first axis of a table for the slew and the second for the load, whatever their variables.\<close>

fun slew_load_axes :: "Table \<Rightarrow> bool" where
  "slew_load_axes (Table0 v) = True"
| "slew_load_axes (Table1 vals a1) = (ax_variable a1 = AV_total_output_net_capacitance)"
| "slew_load_axes (Table2 rows a1 a2) =
     (ax_variable a1 = AV_input_transition_time \<and> ax_variable a2 = AV_total_output_net_capacitance)"
| "slew_load_axes (Table3 rows a1 a2 a3) = False"

fun slew_axis :: "Table \<Rightarrow> bool" where
  "slew_axis (Table0 v) = True"
| "slew_axis (Table1 vals a1) = (ax_variable a1 = AV_input_transition_time)"
| "slew_axis _ = False"

section \<open>Lemmas: both searches interpolate alike\<close>

text \<open>
  The two searches find the same segment, except at an inner point of the axis, which the host takes for the start
  of a segment and the device for the end of the one before.
\<close>

lemma segments_agree:
  assumes "sorted_wrt (<) xs" "2 \<le> length xs"
  obtains s where "findSegment xs v = Inr (s, s + 1)" "s + 1 < length xs" "findValueIndex v xs + 1 < length xs"
    "findValueIndex v xs = s \<or> findValueIndex v xs = s + 1 \<and> v = xs ! (s + 1)"
proof -
  let ?h = "findValueIndex v xs"
  have range: "?h + 1 < length xs" using value_index_range [OF assms(2)] .
  consider "v \<le> xs ! 0" | "xs ! 0 < v" "v \<ge> xs ! (length xs - 1)" | "xs ! 0 < v" "v < xs ! (length xs - 1)" by linarith
  then show ?thesis
  proof cases
    case 1
    then show ?thesis using assms(2) range by (intro that [of 0]) (auto simp: findSegment_def findValueIndex_def)
  next
    case 2
    have "length xs - 2 + 1 = length xs - 1" using assms(2) by simp
    then show ?thesis using 2 assms(2) range
      by (intro that [of "length xs - 2"]) (auto simp: findSegment_def findValueIndex_def Let_def)
  next
    case 3
    have h: "xs ! ?h \<le> v" "v < xs ! (?h + 1)" using value_index_inner(2,3) [OF assms(2) 3] by auto
    show ?thesis
    proof (cases "xs ! ?h < v")
      case True
      then show ?thesis using find_segment_inside [OF assms(1) range True] h(2) range by (intro that [of ?h]) auto
    next
      case False
      then have v: "v = xs ! ?h" using h(1) by simp
      then obtain k where k: "?h = k + 1" using 3(1) by (cases ?h) auto
      have "xs ! k < v" using axis_less [OF assms(1), of k ?h] range v k by simp
      then show ?thesis using find_segment_inside [OF assms(1), of k v] range v k by (intro that [of k]) auto
    qed
  qed
qed

text \<open>So the blend of two neighbours is the same.\<close>

lemma blends_agree:
  assumes "strict_axis (ax_values axis)" "length (ax_values axis) \<noteq> 1"
  obtains s d e where "findSegment (ax_values axis) v = Inr (s, s + 1)" "s + 1 < length (ax_values axis)"
    "findAxisIndex axis v + 1 < length (ax_values axis)"
    "d = (v - ax_values axis ! s) / (ax_values axis ! (s + 1) - ax_values axis ! s)"
    "1 - d = (ax_values axis ! (s + 1) - v) / (ax_values axis ! (s + 1) - ax_values axis ! s)"
    "ax_values axis ! s < ax_values axis ! (s + 1)" "axis_fraction axis (findAxisIndex axis v) v = Inr e"
    "\<And>y :: nat \<Rightarrow> real. (1 - e) * y (findAxisIndex axis v) + e * y (findAxisIndex axis v + 1)
       = (1 - d) * y s + d * y (s + 1)"
proof -
  let ?xs = "ax_values axis" and ?h = "findAxisIndex axis v"
  have sorted: "sorted_wrt (<) ?xs" "2 \<le> length ?xs" using assms size_cases by (auto simp: strict_axis_def)
  obtain s where s: "findSegment ?xs v = Inr (s, s + 1)" "s + 1 < length ?xs" "?h + 1 < length ?xs"
      "?h = s \<or> ?h = s + 1 \<and> v = ?xs ! (s + 1)"
    using segments_agree [OF sorted, of v] unfolding findAxisIndex_def by blast
  have less: "?xs ! s < ?xs ! (s + 1)" "?xs ! ?h < ?xs ! (?h + 1)" using axis_less [OF sorted(1)] s(2,3) by auto
  let ?d = "(v - ?xs ! s) / (?xs ! (s + 1) - ?xs ! s)"
  have "1 - ?d = (?xs ! (s + 1) - v) / (?xs ! (s + 1) - ?xs ! s)" using less by (simp add: field_simps)
  then show ?thesis
    by (intro that [of s ?d "(v - ?xs ! ?h) / (?xs ! (?h + 1) - ?xs ! ?h)"])
      (use s less in \<open>auto simp: axis_fraction_def vec_at_def\<close>)
qed

lemma lookup1_agree:
  assumes "table_ok (Table1 vals a1)" "single_ok (Table1 vals a1) x"
    and "OneDimensionalLUT (ax_values a1) vals False v0 = Inr lut"
  shows "\<exists>v. lookUpValue1 lut x = Inr v \<and> Table1_findValue vals a1 x = Inr v"
proof -
  have lut: "\<not> l1_is_scalar lut" "l1_axis lut = ax_values a1" "l1_table lut = vals"
    using assms(3) by (auto simp: OneDimensionalLUT_def split: if_splits)
  have ok: "strict_axis (ax_values a1)" "length (ax_values a1) \<le> length vals" using assms(1) by auto
  show ?thesis
  proof (cases "length (ax_values a1) = 1")
    case True
    then have "float_index x = Inr 0"
      using assms(2) floor_less_one [of x] by (simp add: float_index_def abs_less_iff)
    then show ?thesis using True lut ok
      by (auto simp: lookUpValue1_def Table1_findValue_def vec_at_def strict_axis_def Let_def)
  next
    case False
    obtain s d e where b: "findSegment (ax_values a1) x = Inr (s, s + 1)" "s + 1 < length (ax_values a1)"
      "findAxisIndex a1 x + 1 < length (ax_values a1)"
      "d = (x - ax_values a1 ! s) / (ax_values a1 ! (s + 1) - ax_values a1 ! s)"
      "ax_values a1 ! s < ax_values a1 ! (s + 1)" "axis_fraction a1 (findAxisIndex a1 x) x = Inr e"
      "\<And>y :: nat \<Rightarrow> real. (1 - e) * y (findAxisIndex a1 x) + e * y (findAxisIndex a1 x + 1) = (1 - d) * y s + d * y (s + 1)"
      using blends_agree [OF ok(1) False, of x] by metis
    have "Table1_findValue vals a1 x = Inr ((1 - d) * vals ! s + d * vals ! (s + 1))"
      using False ok b(3,6) b(7) [of "\<lambda>i. vals ! i"] by (simp add: Table1_findValue_def vec_at_def Let_def)
    moreover have "lookUpValue1 lut x = Inr ((1 - d) * vals ! s + d * vals ! (s + 1))"
      using False ok b(1,2,4,5) lut by (auto simp: lookUpValue1_def Let_def strict_axis_def algebra_simps)
    ultimately show ?thesis by blast
  qed
qed

text \<open>The rows of a table laid end to end.\<close>

lemma concat_cell:
  assumes "r < length rows" "c < n" "\<forall>row \<in> set rows. length row = n"
  shows "concat rows ! (r * n + c) = rows ! r ! c"
  using assms
proof (induction rows arbitrary: r)
  case (Cons row rows)
  then show ?case by (cases r) (auto simp: nth_append)
qed simp

lemma lookup2_agree:
  assumes "table_ok (Table2 rows a1 a2)" and "TwoDimensionalLUT (ax_values a1) (ax_values a2) rows = Inr lut"
  shows "\<exists>v. lookUpValue2 lut x y = Inr v \<and> Table2_findValue rows a1 a2 x y = Inr v"
proof -
  let ?n = "length (ax_values a1)" and ?m = "length (ax_values a2)"
  let ?i = "findAxisIndex a1 x" and ?j = "findAxisIndex a2 y"
  have lut: "\<not> l2_is_scalar lut" "l2_axis1 lut = ax_values a1" "l2_axis2 lut = ax_values a2" "l2_table lut = concat rows"
    using assms(2) by (auto simp: TwoDimensionalLUT_def copyDeviceArrays_def split: if_splits)
  have ok: "strict_axis (ax_values a1)" "strict_axis (ax_values a2)" "rows_ok rows ?n ?m" using assms(1) by auto
  have nonempty: "ax_values a1 \<noteq> []" "ax_values a2 \<noteq> []" using ok by (auto simp: strict_axis_def)
  note at = rows_at_ok(1) [OF ok(3)]
  have cell: "concat rows ! (r * ?m + c) = rows ! r ! c" if "r < ?n" "c < ?m" for r c
    using concat_cell [of r rows c ?m] assms(2) that
    by (auto simp: TwoDimensionalLUT_def split: if_splits)
  have blend1: thesis if "?n \<noteq> 1" "\<And>s d e. findSegment (ax_values a1) x = Inr (s, s + 1) \<Longrightarrow> s + 1 < ?n \<Longrightarrow> ?i + 1 < ?n \<Longrightarrow>
      d = (x - ax_values a1 ! s) / (ax_values a1 ! (s + 1) - ax_values a1 ! s) \<Longrightarrow>
      1 - d = (ax_values a1 ! (s + 1) - x) / (ax_values a1 ! (s + 1) - ax_values a1 ! s) \<Longrightarrow>
      ax_values a1 ! s < ax_values a1 ! (s + 1) \<Longrightarrow> axis_fraction a1 ?i x = Inr e \<Longrightarrow>
      (\<And>f :: nat \<Rightarrow> real. (1 - e) * f ?i + e * f (?i + 1) = (1 - d) * f s + d * f (s + 1)) \<Longrightarrow> thesis" for thesis
    using blends_agree [OF ok(1) that(1), of x] that(2) by metis
  have blend2: thesis if "?m \<noteq> 1" "\<And>s d e. findSegment (ax_values a2) y = Inr (s, s + 1) \<Longrightarrow> s + 1 < ?m \<Longrightarrow> ?j + 1 < ?m \<Longrightarrow>
      d = (y - ax_values a2 ! s) / (ax_values a2 ! (s + 1) - ax_values a2 ! s) \<Longrightarrow>
      1 - d = (ax_values a2 ! (s + 1) - y) / (ax_values a2 ! (s + 1) - ax_values a2 ! s) \<Longrightarrow>
      ax_values a2 ! s < ax_values a2 ! (s + 1) \<Longrightarrow> axis_fraction a2 ?j y = Inr e \<Longrightarrow>
      (\<And>f :: nat \<Rightarrow> real. (1 - e) * f ?j + e * f (?j + 1) = (1 - d) * f s + d * f (s + 1)) \<Longrightarrow> thesis" for thesis
    using blends_agree [OF ok(2) that(1), of y] that(2) by metis
  consider "?n = 1" "?m = 1" | "?n = 1" "?m \<noteq> 1" | "?n \<noteq> 1" "?m = 1" | "?n \<noteq> 1" "?m \<noteq> 1" by blast
  then show ?thesis
  proof cases
    case 1
    then show ?thesis using at [of 0 0] cell [of 0 0] lut nonempty
      by (simp add: lookUpValue2_def Table2_findValue_def Let_def)
  next
    case 2
    show ?thesis
    proof (rule blend2 [OF 2(2)])
      fix s d e
      assume b: "findSegment (ax_values a2) y = Inr (s, s + 1)" "s + 1 < ?m" "?j + 1 < ?m"
        "d = (y - ax_values a2 ! s) / (ax_values a2 ! (s + 1) - ax_values a2 ! s)"
        "1 - d = (ax_values a2 ! (s + 1) - y) / (ax_values a2 ! (s + 1) - ax_values a2 ! s)"
        "ax_values a2 ! s < ax_values a2 ! (s + 1)" "axis_fraction a2 ?j y = Inr e"
        "\<And>f :: nat \<Rightarrow> real. (1 - e) * f ?j + e * f (?j + 1) = (1 - d) * f s + d * f (s + 1)"
      have "Table2_findValue rows a1 a2 x y = Inr ((1 - d) * rows ! 0 ! s + d * rows ! 0 ! (s + 1))"
        using 2 b(3,7) b(8) [of "\<lambda>k. rows ! 0 ! k"] at [of 0] by (simp add: Table2_findValue_def Let_def)
      moreover have "lookUpValue2 lut x y = Inr ((1 - d) * rows ! 0 ! s + d * rows ! 0 ! (s + 1))"
        using 2 b(1,2,4,6) cell [of 0 s] cell [of 0 "s + 1"] lut nonempty
        by (simp add: lookUpValue2_def interpolate_def Let_def algebra_simps)
      ultimately show ?thesis by blast
    qed
  next
    case 3
    show ?thesis
    proof (rule blend1 [OF 3(1)])
      fix s d e
      assume b: "findSegment (ax_values a1) x = Inr (s, s + 1)" "s + 1 < ?n" "?i + 1 < ?n"
        "d = (x - ax_values a1 ! s) / (ax_values a1 ! (s + 1) - ax_values a1 ! s)"
        "1 - d = (ax_values a1 ! (s + 1) - x) / (ax_values a1 ! (s + 1) - ax_values a1 ! s)"
        "ax_values a1 ! s < ax_values a1 ! (s + 1)" "axis_fraction a1 ?i x = Inr e"
        "\<And>f :: nat \<Rightarrow> real. (1 - e) * f ?i + e * f (?i + 1) = (1 - d) * f s + d * f (s + 1)"
      have "Table2_findValue rows a1 a2 x y = Inr ((1 - d) * rows ! s ! 0 + d * rows ! (s + 1) ! 0)"
        using 3 b(3,7) b(8) [of "\<lambda>k. rows ! k ! 0"] at [of _ 0] by (simp add: Table2_findValue_def Let_def)
      moreover have "lookUpValue2 lut x y = Inr ((1 - d) * rows ! s ! 0 + d * rows ! (s + 1) ! 0)"
        using 3 b(1,2,4,6) cell [of s 0] cell [of "s + 1" 0] lut nonempty
        by (simp add: lookUpValue2_def interpolate_def Let_def algebra_simps)
      ultimately show ?thesis by blast
    qed
  next
    case 4
    show ?thesis
    proof (rule blend1 [OF 4(1)], rule blend2 [OF 4(2)])
      fix s d e t g h
      assume b: "findSegment (ax_values a1) x = Inr (s, s + 1)" "s + 1 < ?n" "?i + 1 < ?n"
        "d = (x - ax_values a1 ! s) / (ax_values a1 ! (s + 1) - ax_values a1 ! s)"
        "1 - d = (ax_values a1 ! (s + 1) - x) / (ax_values a1 ! (s + 1) - ax_values a1 ! s)"
        "ax_values a1 ! s < ax_values a1 ! (s + 1)" "axis_fraction a1 ?i x = Inr e"
        "\<And>f :: nat \<Rightarrow> real. (1 - e) * f ?i + e * f (?i + 1) = (1 - d) * f s + d * f (s + 1)"
      assume c: "findSegment (ax_values a2) y = Inr (t, t + 1)" "t + 1 < ?m" "?j + 1 < ?m"
        "g = (y - ax_values a2 ! t) / (ax_values a2 ! (t + 1) - ax_values a2 ! t)"
        "1 - g = (ax_values a2 ! (t + 1) - y) / (ax_values a2 ! (t + 1) - ax_values a2 ! t)"
        "ax_values a2 ! t < ax_values a2 ! (t + 1)" "axis_fraction a2 ?j y = Inr h"
        "\<And>f :: nat \<Rightarrow> real. (1 - h) * f ?j + h * f (?j + 1) = (1 - g) * f t + g * f (t + 1)"
      let ?c = "\<lambda>k l. rows ! k ! l"
      let ?r = "(1 - d) * ((1 - g) * ?c s t + g * ?c s (t + 1)) + d * ((1 - g) * ?c (s + 1) t + g * ?c (s + 1) (t + 1))"
      have "Table2_findValue rows a1 a2 x y = Inr ((1 - e) * ((1 - h) * ?c ?i ?j + h * ?c ?i (?j + 1))
           + e * ((1 - h) * ?c (?i + 1) ?j + h * ?c (?i + 1) (?j + 1)))"
        using 4 b(3,7) c(3,7) at unfolding bilinear_nested [symmetric] by (simp add: Table2_findValue_def Let_def)
      also have "\<dots> = Inr ?r"
        unfolding c(8) [of "?c ?i"] c(8) [of "?c (?i + 1)"]
        using b(8) [of "\<lambda>k. (1 - g) * ?c k t + g * ?c k (t + 1)"] by simp
      finally have host: "Table2_findValue rows a1 a2 x y = Inr ?r" .
      let ?x = "ax_values a1" and ?y = "ax_values a2"
      have "lookUpValue2 lut x y = Inr (
            (?x ! (s + 1) - x) / (?x ! (s + 1) - ?x ! s) * ((?y ! (t + 1) - y) / (?y ! (t + 1) - ?y ! t)) * ?c s t
          + (?x ! (s + 1) - x) / (?x ! (s + 1) - ?x ! s) * ((y - ?y ! t) / (?y ! (t + 1) - ?y ! t)) * ?c s (t + 1)
          + (x - ?x ! s) / (?x ! (s + 1) - ?x ! s) * ((?y ! (t + 1) - y) / (?y ! (t + 1) - ?y ! t)) * ?c (s + 1) t
          + (x - ?x ! s) / (?x ! (s + 1) - ?x ! s) * ((y - ?y ! t) / (?y ! (t + 1) - ?y ! t)) * ?c (s + 1) (t + 1))"
        using 4 b(1,2,6) c(1,2,6) cell [of s t] cell [of s "t + 1"] cell [of "s + 1" t] cell [of "s + 1" "t + 1"] lut nonempty
        by (simp add: lookUpValue2_def Let_def)
      also have "\<dots> = Inr ((1 - d) * (1 - g) * ?c s t + (1 - d) * g * ?c s (t + 1)
          + d * (1 - g) * ?c (s + 1) t + d * g * ?c (s + 1) (t + 1))"
        by (simp only: b(4,5) [symmetric] c(4,5) [symmetric])
      also have "\<dots> = Inr ?r" by (simp add: algebra_simps)
      finally show ?thesis using host by blast
    qed
  qed
qed


text \<open>A table over the load only, which the device keeps as a table with one row.\<close>

lemma lookup2_row_agree:
  assumes "table_ok (Table1 vals a1)" "single_ok (Table1 vals a1) y"
    and "copyDeviceArrays [0] (ax_values a1) vals = Inr lut"
  shows "\<exists>v. lookUpValue2 lut x y = Inr v \<and> Table1_findValue vals a1 y = Inr v"
proof -
  have lut: "\<not> l2_is_scalar lut" "l2_axis1 lut = [0]" "l2_axis2 lut = ax_values a1" "l2_table lut = vals"
    using assms(3) by (auto simp: copyDeviceArrays_def split: if_splits)
  have ok: "strict_axis (ax_values a1)" "length (ax_values a1) \<le> length vals" using assms(1) by auto
  show ?thesis
  proof (cases "length (ax_values a1) = 1")
    case True
    then have "float_index y = Inr 0"
      using assms(2) floor_less_one [of y] by (simp add: float_index_def abs_less_iff)
    then show ?thesis using True lut ok by (auto simp: lookUpValue2_def Table1_findValue_def vec_at_def Let_def)
  next
    case False
    obtain s d e where b: "findSegment (ax_values a1) y = Inr (s, s + 1)" "s + 1 < length (ax_values a1)"
      "findAxisIndex a1 y + 1 < length (ax_values a1)"
      "d = (y - ax_values a1 ! s) / (ax_values a1 ! (s + 1) - ax_values a1 ! s)"
      "ax_values a1 ! s < ax_values a1 ! (s + 1)" "axis_fraction a1 (findAxisIndex a1 y) y = Inr e"
      "\<And>f :: nat \<Rightarrow> real. (1 - e) * f (findAxisIndex a1 y) + e * f (findAxisIndex a1 y + 1) = (1 - d) * f s + d * f (s + 1)"
      using blends_agree [OF ok(1) False, of y] by metis
    have "Table1_findValue vals a1 y = Inr ((1 - d) * vals ! s + d * vals ! (s + 1))"
      using False ok b(3,6) b(7) [of "\<lambda>i. vals ! i"] by (simp add: Table1_findValue_def vec_at_def Let_def)
    moreover have "lookUpValue2 lut x y = Inr ((1 - d) * vals ! s + d * vals ! (s + 1))"
      using False ok b(1,2,4,5) lut
      by (auto simp: lookUpValue2_def interpolate_def Let_def strict_axis_def algebra_simps)
    ultimately show ?thesis by blast
  qed
qed

section \<open>Models\<close>

text \<open>C4: The internal power table of an output pin. Whenever the device can be built from a table of the library whose
  first axis is the slew and whose second axis is the load (or whose only axis is the load, or which is a constant),
  its lookup returns for every slew and load, outside the axes too, and the energy of the host is that value times the
  factor of the operating conditions: linear search and bisection, with their different segments at the points of an
  axis, interpolate and extrapolate alike.\<close>

theorem output_table_device_is_host:
  assumes "output_lut (power_table (tm_table m)) = Inr lut"
    and "table_ok (tm_table m)" "single_ok (tm_table m) load_cap" "slew_load_axes (tm_table m)"
  shows "\<exists>v. lookUpValue2 lut in_slew load_cap = Inr v \<and>
    ipm_power (Some m) cell pvt in_slew load_cap = Inr (v * tm_scaleFactor m cell pvt)"
proof (cases "tm_table m")
  case (Table0 v)
  then show ?thesis using assms(1)
    by (auto simp: TwoDimensionalLUT_scalar_def lookUpValue2_def ipm_power_def ipm_findAxisValues_def
        axis_values_by_order_def tm_findValue_def)
next
  case (Table1 vals a1)
  then have "\<exists>v. lookUpValue2 lut in_slew load_cap = Inr v \<and> Table1_findValue vals a1 load_cap = Inr v"
    using assms by (intro lookup2_row_agree) (auto simp: TwoDimensionalLUT_of_1D_def)
  then show ?thesis using Table1 assms(4)
    by (auto simp: ipm_power_def ipm_findAxisValues_def axis_values_by_order_def ipm_axisValue_def tm_findValue_def)
next
  case (Table2 rows a1 a2)
  then have "\<exists>v. lookUpValue2 lut in_slew load_cap = Inr v \<and> Table2_findValue rows a1 a2 in_slew load_cap = Inr v"
    using assms(1,2) by (intro lookup2_agree) auto
  then show ?thesis using Table2 assms(4)
    by (auto simp: ipm_power_def ipm_findAxisValues_def axis_values_by_order_def ipm_axisValue_def tm_findValue_def)
qed (use assms(4) in simp)

lemma input_table_agree:
  assumes "input_lut (power_table (tm_table m)) = Inr lut"
    and "table_ok (tm_table m)" "single_ok (tm_table m) in_slew" "slew_axis (tm_table m)"
  shows "\<exists>v. lookUpValue1 lut in_slew = Inr v \<and>
    ipm_power (Some m) cell pvt in_slew load_cap = Inr (v * tm_scaleFactor m cell pvt)"
proof (cases "tm_table m")
  case (Table0 v)
  then show ?thesis using assms(1)
    by (auto simp: OneDimensionalLUT_def lookUpValue1_def ipm_power_def ipm_findAxisValues_def
        axis_values_by_order_def tm_findValue_def)
next
  case (Table1 vals a1)
  then have "\<exists>v. lookUpValue1 lut in_slew = Inr v \<and> Table1_findValue vals a1 in_slew = Inr v"
    using assms(1-3) by (intro lookup1_agree) auto
  then show ?thesis using Table1 assms(4)
    by (auto simp: ipm_power_def ipm_findAxisValues_def axis_values_by_order_def ipm_axisValue_def tm_findValue_def)
qed (use assms(4) in simp_all)


section \<open>Energies of input pins\<close>

text \<open>A group of the library and what the two engines take of it. Both edges have a table.\<close>

record PowerGroup =
  pwg_when :: FuncExpr
  pwg_related :: "string option"
  pwg_model :: "RiseFall \<Rightarrow> TableModel"

definition edge_of :: "RISEFALL \<Rightarrow> RiseFall" where
  "edge_of rf = (case rf of RISE \<Rightarrow> Rise | FALL \<Rightarrow> Fall)"

definition host_group :: "LibertyCell \<Rightarrow> Pvt option \<Rightarrow> PowerGroup \<Rightarrow> InternalPower" where
  "host_group cell pvt pg =
     \<lparr>ip_when = pwg_when pg, ip_related = None,
      ip_power = (\<lambda>rf slew cap.
        case InternalPower_power (\<lambda>e. Some (Some (pwg_model pg e))) cell (edge_of rf) pvt slew cap of Inr v \<Rightarrow> v | Inl e \<Rightarrow> 0)\<rparr>"

definition device_group :: "PowerGroup \<Rightarrow> PortPower" where
  "device_group pg =
     \<lparr>pp_when = pwg_when pg, pp_related = pwg_related pg,
      pp_table = (\<lambda>rf. power_table (tm_table (pwg_model pg (edge_of rf))))\<rparr>"

definition unscaled :: "LibertyCell \<Rightarrow> Pvt option \<Rightarrow> PowerGroup \<Rightarrow> bool" where
  "unscaled cell pvt pg \<longleftrightarrow> (\<forall>e. tm_scaleFactor (pwg_model pg e) cell pvt = 1)"

text \<open>The groups of an input: well-formed tables over the slew, for this slew.\<close>

definition input_group_ok :: "PowerGroup \<Rightarrow> RISEFALL \<Rightarrow> real \<Rightarrow> bool" where
  "input_group_ok pg rf slew \<longleftrightarrow>
     (let t = tm_table (pwg_model pg (edge_of rf)) in table_ok t \<and> single_ok t slew \<and> slew_axis t)"

lemma group_lookup:
  assumes "make_pair input_lut lp pm (device_group pg) = Inr p" "input_group_ok pg rf slew" "unscaled cell pvt pg"
  shows "lookUp1 p slew rf = Inr (ip_power (host_group cell pvt pg) rf slew 0)"
proof -
  let ?m = "pwg_model pg (edge_of rf)"
  obtain r f where "input_lut (pp_table (device_group pg) RISE) = Inr r" "input_lut (pp_table (device_group pg) FALL) = Inr f"
      "tp_rise p = Some r" "tp_fall p = Some f"
    using assms(1) by (auto simp: make_pair_def setWhenState_def split: if_splits)
  then obtain lut where lut: "input_lut (power_table (tm_table ?m)) = Inr lut" "pair_table p rf = Inr lut"
    by (cases rf) (auto simp: device_group_def pair_table_def edge_of_def)
  obtain v where "lookUpValue1 lut slew = Inr v" "ipm_power (Some ?m) cell pvt slew 0 = Inr (v * tm_scaleFactor ?m cell pvt)"
    using input_table_agree [OF lut(1), of slew cell pvt 0] assms(2) by (auto simp: input_group_ok_def Let_def)
  then show ?thesis using lut(2) assms(3)
    by (simp add: lookUp1_def host_group_def InternalPower_power_def unscaled_def)
qed

text \<open>The host takes the first group whose condition is true.\<close>

lemma first_input_power_find:
  assumes "\<forall>pg \<in> set pgs. \<exists>b. evalWhen lp pm (pwg_when pg) st = Inr b"
  shows "first_input_power lp pm st rf slew (map (host_group cell pvt) pgs) =
    Inr (case find (\<lambda>pg. evalWhen lp pm (pwg_when pg) st = Inr True) pgs of
           None \<Rightarrow> 0 | Some pg \<Rightarrow> ip_power (host_group cell pvt pg) rf slew 0)"
  using assms
proof (induction pgs)
  case (Cons pg pgs)
  then obtain b where "evalWhen lp pm (pwg_when pg) st = Inr b" by auto
  then show ?case using Cons by (cases b) (simp_all add: isInternalPowerMatchPinStates_def host_group_def)
qed simp

lemma filter_single: "length (filter P xs) \<le> 1 \<Longrightarrow>
    (case filter P xs of [] \<Rightarrow> None | m # ms \<Rightarrow> Some (if c then last (m # ms) else m)) = find P xs"
  by (cases "filter P xs") (auto simp: find_hd)

lemma build_luts_pairs:
  assumes "build_luts mk lp pm indexed pwrs (tbl, ordered) = Inr (tbl', ordered')" "pwr \<in> set pwrs"
  shows "\<exists>p. make_pair mk lp pm pwr = Inr p"
  using assms by (induction pwrs arbitrary: tbl ordered) auto



section \<open>Witnesses\<close>

theorem output_table_device_is_host_witness:
  "\<exists>lut v. output_lut (power_table slew_load_table) = Inr lut \<and> lookUpValue2 lut (1/2) (1/8) = Inr v \<and>
    ipm_power (Some (TableModel_new slew_load_table SF_internal_power Rise)) plain_cell None (1/2) (1/8) = Inr v"
proof -
  let ?m = "TableModel_new slew_load_table SF_internal_power Rise"
  obtain lut where lut: "output_lut (power_table (tm_table ?m)) = Inr lut"
    by (simp add: TableModel_new_def slew_load_table_def TwoDimensionalLUT_def copyDeviceArrays_def)
  moreover have "single_ok (tm_table ?m) (1/8)" "slew_load_axes (tm_table ?m)"
    by (simp_all add: TableModel_new_def slew_load_table_def)
  moreover have "tm_table ?m = slew_load_table" "tm_scaleFactor ?m plain_cell None = 1"
    by (simp_all add: TableModel_new_def tm_scaleFactor_def plain_cell_def library_scaleFactor_def)
  ultimately show ?thesis
    using output_table_device_is_host [OF lut, of "1/8" "1/2" plain_cell None] slew_load_table_ok(1) by auto
qed

text \<open>An input with a constant while it is high and a table over the slew while it is low.\<close>

definition slew_table :: Table where
  "slew_table = Table1 [1, 2] \<lparr>ax_variable = AV_input_transition_time, ax_values = [0, 1/2]\<rparr>"

definition exclusive_groups :: "PowerGroup list" where
  "exclusive_groups =
     [\<lparr>pwg_when = FE_port 0, pwg_related = None, pwg_model = (\<lambda>e. TableModel_new (Table0 3) SF_internal_power e)\<rparr>,
      \<lparr>pwg_when = FE_not (FE_port 0), pwg_related = None, pwg_model = (\<lambda>e. TableModel_new slew_table SF_internal_power e)\<rparr>]"

definition table_gate :: DevGate where
  "table_gate = dev_inverter\<lparr>dg_n_pin := 1, dg_pin_rise_slews := [1/4], dg_pin_fall_slews := [1/4],
     dg_input_luts := (case getInputInternalPower 4 port_A [(''A'', 0)] 1 (map device_group exclusive_groups) of
                         Inr luts \<Rightarrow> [luts] | Inl e \<Rightarrow> [])\<rparr>"

definition table_pin :: GatePin where
  "table_pin = \<lparr>gp_pin = 0, gp_events = [], gp_is_clock = False, gp_default = None, gp_slew = (\<lambda>_. Some (1/4)),
     gp_load_cap = 0, gp_switching_energy = 0, gp_has_corner = True,
     gp_internal_powers = map (host_group plain_cell None) exclusive_groups\<rparr>"


end
