(* ===== verification/GTP_CudaRounds.thy ===== *)
theory GTP_CudaRounds
  imports GTP_CudaWave
begin

text \<open>
  The other ways in which \<open>power/cuda/CudaPower.cu\<close> divides an analysis into rounds, by time units
  (\<open>CudaPower::getTimeIntervals\<close>) and by counting the events of every cycle
  (\<open>CudaPower::getTimeIntervalsByCycleIterateAllEvents\<close>), the filling of the event buffer from one thread
  (\<open>CudaPower::getGateWaveformRangeSingleThread\<close>), and the report of the workload on the host that promises to count
  what the buffer holds (\<open>Power::reportResolvedTimeBasedPowerAnalysisWorkload\<close>).
\<close>

section \<open>Intervals of time units\<close>

definition getTimeIntervalBoudary :: "Vcd \<Rightarrow> int \<Rightarrow> int \<Rightarrow> int" where
  "getTimeIntervalBoudary v max_event_time accu_event_count =
     lower_bound_loop (\<lambda>mid. getAccuEventCountOfAllGates v mid < accu_event_count) 0 (max_event_time + 1)"

text \<open>The loop may not end, for a budget of no events.\<close>

partial_function (option) time_intervals_loop ::
  "(int \<Rightarrow> int) \<Rightarrow> int \<Rightarrow> int \<Rightarrow> int \<Rightarrow> (int \<times> int) list \<Rightarrow> (int \<times> int) list option" where
  "time_intervals_loop bound n_event_per_interval max_event_time interval_count ivs =
     (let left = bound (n_event_per_interval * interval_count);
          right = bound (n_event_per_interval * (interval_count + 1))
      in if max_event_time \<le> right then Some (ivs @ [(left, right)])
         else time_intervals_loop bound n_event_per_interval max_event_time (interval_count + 1) (ivs @ [(left, right)]))"

definition getTimeIntervals :: "int \<Rightarrow> int \<Rightarrow> Vcd \<Rightarrow> vcd_error + (int \<times> int) list option" where
  "getTimeIntervals max_event_num max_event_time v =
     res_bind (getTotalBusWidthOfAllVars v) (\<lambda>total_bus_width.
       if max_event_num < 2 * total_bus_width + 1 then Inl VcdAssertFailed
       else Inr (time_intervals_loop (getTimeIntervalBoudary v max_event_time)
              (max_event_num - total_bus_width - 1) max_event_time 0 []))"

section \<open>Intervals of counted cycles\<close>

text \<open>The events of every array that a pin has, once per array, by the cycle of their times.\<close>

fun count_cycles :: "(int \<Rightarrow> int) \<Rightarrow> VcdValue list \<Rightarrow> (int \<rightharpoonup> int) \<Rightarrow> (int \<rightharpoonup> int)" where
  "count_cycles cycle [] m = m"
| "count_cycles cycle (v # vals) m =
     count_cycles cycle vals (m(cycle (vv_time v) \<mapsto> (case m (cycle (vv_time v)) of None \<Rightarrow> 0 | Some c \<Rightarrow> c) + 1))"

fun count_arrays :: "(int \<Rightarrow> int) \<Rightarrow> VcdValue list list \<Rightarrow> nat option list \<Rightarrow> nat option set \<Rightarrow> (int \<rightharpoonup> int) \<Rightarrow> (int \<rightharpoonup> int)" where
  "count_arrays cycle arrays [] seen m = m"
| "count_arrays cycle arrays (key # keys) seen m =
     (if key \<in> seen then count_arrays cycle arrays keys seen m
      else count_arrays cycle arrays keys (insert key seen)
             (case key of None \<Rightarrow> m | Some a \<Rightarrow> count_cycles cycle (arrays ! a) m))"

text \<open>The events before each cycle from 0 on; a cycle without an event is missing from the counts.\<close>

fun accu_cycles :: "(int \<rightharpoonup> int) \<Rightarrow> nat \<Rightarrow> vcd_error + int list" where
  "accu_cycles n_event 0 = Inr [0]"
| "accu_cycles n_event (Suc c) =
     res_bind (accu_cycles n_event c) (\<lambda>accu.
       case n_event (int c) of None \<Rightarrow> Inl (KeyMissing ''cycle'') | Some k \<Rightarrow> Inr (accu @ [last accu + k]))"

definition getCycleIntervalBoudaryByCycleIdxToAccuEvents :: "int list \<Rightarrow> int \<Rightarrow> int \<Rightarrow> int" where
  "getCycleIntervalBoudaryByCycleIdxToAccuEvents accu n_period accu_event_count =
     lower_bound_loop (\<lambda>mid. accu ! nat mid < accu_event_count) 0 n_period"

definition getTimeIntervalsByCycleIterateAllEvents ::
  "int \<Rightarrow> int \<Rightarrow> int \<Rightarrow> (int \<Rightarrow> int) \<Rightarrow> VcdValue list list \<Rightarrow> nat option list \<Rightarrow> Vcd \<Rightarrow> vcd_error + (int \<times> int) list option" where
  "getTimeIntervalsByCycleIterateAllEvents max_event_num n_period unit_per_cycle cycle arrays keys v =
     res_bind (getTotalBusWidthOfAllVars v) (\<lambda>total_bus_width.
       if max_event_num < 2 * total_bus_width + 1 then Inl VcdAssertFailed
       else res_bind (accu_cycles (count_arrays cycle arrays keys {} Map.empty) (nat n_period)) (\<lambda>accu.
         Inr (map_option (boundary_intervals unit_per_cycle)
           (boundaries_loop (\<lambda>c _. getCycleIntervalBoudaryByCycleIdxToAccuEvents accu n_period c)
              (max_event_num - total_bus_width - 1) n_period [0]))))"

section \<open>Intervals of an analysis\<close>

text \<open>How \<open>CudaPower::power\<close> chooses them; those of a file are moved to the next whole cycles.\<close>

record RoundConfig =
  rc_by_file :: bool
  rc_by_cycle :: bool
  rc_format_is_vcd :: bool
  rc_iterate_all :: bool
  rc_max_event_num :: int
  rc_max_event_time :: int
  rc_n_period :: int
  rc_unit_per_cycle :: int

fun round_to_cycles :: "int \<Rightarrow> (int \<times> int) list \<Rightarrow> vcd_error + (int \<times> int) list" where
  "round_to_cycles u [] = Inr []"
| "round_to_cycles u ((s, e) # ivs) =
     (let s' = ceil_div s u * u; e' = ceil_div e u * u in
      if s' = e' then Inl VcdAssertFailed
      else res_bind (round_to_cycles u ivs) (\<lambda>ivs'. Inr ((s', e') # ivs')))"

definition analysis_intervals ::
  "RoundConfig \<Rightarrow> (int \<Rightarrow> int) \<Rightarrow> VcdValue list list \<Rightarrow> nat option list \<Rightarrow> Vcd \<Rightarrow> vcd_error + (int \<times> int) list option" where
  "analysis_intervals rc cycle arrays keys v =
     (if rc_by_file rc then
        if rc_by_cycle rc \<and> rc_format_is_vcd rc
        then res_bind (round_to_cycles (rc_unit_per_cycle rc) (vcd_time_intervals v)) (\<lambda>ivs. Inr (Some ivs))
        else Inr (Some (vcd_time_intervals v))
      else if rc_by_cycle rc then
        if rc_iterate_all rc
        then getTimeIntervalsByCycleIterateAllEvents (rc_max_event_num rc) (rc_n_period rc) (rc_unit_per_cycle rc)
               cycle arrays keys v
        else getTimeIntervalsByCycle (rc_max_event_num rc) (rc_n_period rc) (rc_unit_per_cycle rc) v
      else getTimeIntervals (rc_max_event_num rc) (rc_max_event_time rc) v)"

section \<open>Lemmas: intervals of time units\<close>

lemma time_boundary:
  assumes widths: "widths_ok v" and T: "0 \<le> T"
  shows "0 \<le> getTimeIntervalBoudary v T c" "getTimeIntervalBoudary v T c \<le> T + 1"
    and "0 \<le> p \<Longrightarrow> p < getTimeIntervalBoudary v T c \<Longrightarrow> getAccuEventCountOfAllGates v p < c"
    and "getTimeIntervalBoudary v T c \<le> T \<Longrightarrow> c \<le> getAccuEventCountOfAllGates v (getTimeIntervalBoudary v T c)"
proof -
  have sp: "search_predicate (\<lambda>mid. getAccuEventCountOfAllGates v mid < c) 0 (T + 1)"
    using accu_all_mono [OF widths] T by unfold_locales (auto intro: le_less_trans)
  note b = search_predicate.search_bounds [OF sp] and i = search_predicate.search_iff [OF sp]
  show "0 \<le> getTimeIntervalBoudary v T c" "getTimeIntervalBoudary v T c \<le> T + 1"
    using b by (simp_all add: getTimeIntervalBoudary_def)
  show "getAccuEventCountOfAllGates v p < c" if "0 \<le> p" "p < getTimeIntervalBoudary v T c"
    using i [of p] b that by (simp add: getTimeIntervalBoudary_def)
  show "c \<le> getAccuEventCountOfAllGates v (getTimeIntervalBoudary v T c)" if "getTimeIntervalBoudary v T c \<le> T"
    using i [of "getTimeIntervalBoudary v T c"] b that by (simp add: getTimeIntervalBoudary_def)
qed

lemma time_boundary_mono:
  assumes widths: "widths_ok v" and T: "0 \<le> T" and "c \<le> d"
  shows "getTimeIntervalBoudary v T c \<le> getTimeIntervalBoudary v T d"
proof (rule ccontr)
  assume "\<not> ?thesis"
  then have less: "getTimeIntervalBoudary v T d < getTimeIntervalBoudary v T c" by simp
  note b = time_boundary [OF widths T]
  have "getAccuEventCountOfAllGates v (getTimeIntervalBoudary v T d) < c" using b(3) [OF b(1) less] .
  moreover have "d \<le> getAccuEventCountOfAllGates v (getTimeIntervalBoudary v T d)"
    using b(4) [of d] less b(2) [of c] by linarith
  ultimately show False using assms(3) by simp
qed

lemma time_boundary_zero: "widths_ok v \<Longrightarrow> 0 \<le> T \<Longrightarrow> getTimeIntervalBoudary v T 0 = 0"
  using time_boundary(1) [of v T 0] time_boundary(3) [of v T 0 0] accu_all_nonneg [of v 0] by fastforce

text \<open>The loop ends, and interval \<open>k\<close> goes from the boundary of \<open>n * k\<close> events to the next one.\<close>

definition nth_time_interval :: "(int \<Rightarrow> int) \<Rightarrow> int \<Rightarrow> nat \<Rightarrow> int \<times> int" where
  "nth_time_interval bound n k = (bound (n * int k), bound (n * (int k + 1)))"

lemma time_intervals_loop_spec:
  assumes n: "0 < n" and below: "\<And>c. bound c < T \<Longrightarrow> c \<le> tot"
  shows "(\<forall>k < i. snd (nth_time_interval bound n k) < T) \<Longrightarrow>
    \<exists>m. time_intervals_loop bound n T (int i) (map (nth_time_interval bound n) [0..<i]) =
        Some (map (nth_time_interval bound n) [0..<Suc m]) \<and>
      (\<forall>k < m. snd (nth_time_interval bound n k) < T) \<and> T \<le> snd (nth_time_interval bound n m)"
proof (induction "nat (tot + n - n * int i)" arbitrary: i rule: less_induct)
  case less
  define ivs where "ivs = map (nth_time_interval bound n) [0..<i]"
  have next_ivs: "ivs @ [nth_time_interval bound n i] = map (nth_time_interval bound n) [0..<Suc i]" by (simp add: ivs_def)
  have loop: "time_intervals_loop bound n T (int i) ivs =
      (if T \<le> snd (nth_time_interval bound n i) then Some (ivs @ [nth_time_interval bound n i])
       else time_intervals_loop bound n T (int (Suc i)) (ivs @ [nth_time_interval bound n i]))"
    by (subst time_intervals_loop.simps) (simp add: nth_time_interval_def Let_def add.commute)
  show ?case
  proof (cases "T \<le> snd (nth_time_interval bound n i)")
    case True
    then have "time_intervals_loop bound n T (int i) ivs = Some (map (nth_time_interval bound n) [0..<Suc i])"
      using loop by (simp only: if_True next_ivs)
    then show ?thesis using True less.prems unfolding ivs_def by blast
  next
    case False
    then have "n * (int i + 1) \<le> tot" using below by (simp add: nth_time_interval_def)
    then have "nat (tot + n - n * int (Suc i)) < nat (tot + n - n * int i)" using n by (simp add: algebra_simps)
    moreover have "\<forall>k < Suc i. snd (nth_time_interval bound n k) < T" using less.prems False by (auto simp: less_Suc_eq)
    moreover have "time_intervals_loop bound n T (int i) ivs =
        time_intervals_loop bound n T (int (Suc i)) (map (nth_time_interval bound n) [0..<Suc i])"
      using loop False unfolding next_ivs by simp
    ultimately show ?thesis using less.hyps [of "Suc i"] unfolding ivs_def by presburger
  qed
qed

text \<open>A time unit has at most one change of each variable.\<close>

lemma events_step:
  assumes "sorted_wrt (<) (map vv_time vals)"
  shows "getEventIdxByTime_from vals (t + 1) 0 \<le> getEventIdxByTime_from vals t 0 + 1"
proof -
  have idx: "getEventIdxByTime_from vals s 0 = int (n_before vv_time vals s)" for s
    by (rule idx_from_n_before [OF assms]) simp_all
  define m where "m = n_before vv_time vals t"
  have "n_before vv_time vals (t + 1) \<le> Suc m"
  proof (rule ccontr)
    assume "\<not> ?thesis"
    then have gt: "Suc m < n_before vv_time vals (t + 1)" by simp
    then have len: "Suc m < length vals" using n_before_le [of vv_time vals "t + 1"] by simp
    have "vv_time (vals ! Suc m) < t + 1" using n_before_iff [OF assms len, of "t + 1"] gt by blast
    moreover have "t \<le> vv_time (vals ! m)" using n_before_iff [OF assms, of m t] len by (simp add: m_def)
    moreover have "vv_time (vals ! m) < vv_time (vals ! Suc m)"
      using sorted_wrt_nth_less [OF assms, of m "Suc m"] len by simp
    ultimately show False by simp
  qed
  then show ?thesis by (simp add: idx m_def)
qed

definition waves_sorted :: "Vcd \<Rightarrow> bool" where
  "waves_sorted v \<longleftrightarrow> list_all (\<lambda>var. sorted_wrt (<) (map vv_time (values_of v var))) (vcd_vars v)"

lemma accu_step:
  assumes "widths_ok v" "waves_sorted v"
  shows "getAccuEventCountOfAllGates v (t + 1) \<le>
    getAccuEventCountOfAllGates v t + sum_list (map (\<lambda>var. getVarBusWidth (values_of v var)) (vcd_vars v))"
  unfolding getAccuEventCountOfAllGates_def sum_list_addf [symmetric]
proof (rule sum_list_mono)
  fix var assume var: "var \<in> set (vcd_vars v)"
  have "0 \<le> getVarBusWidth (values_of v var)"
    using assms(1) var bus_width_nonneg by (auto simp: widths_ok_def list_all_iff)
  moreover have "getEventIdxByTime_from (values_of v var) (t + 1) 0 \<le> getEventIdxByTime_from (values_of v var) t 0 + 1"
    using assms(2) var events_step by (auto simp: waves_sorted_def list_all_iff)
  ultimately have "getEventIdxByTime_from (values_of v var) (t + 1) 0 * getVarBusWidth (values_of v var) \<le>
      (getEventIdxByTime_from (values_of v var) t 0 + 1) * getVarBusWidth (values_of v var)"
    by (intro mult_right_mono) auto
  then show "getEventIdxByTime_from (values_of v var) (t + 1) 0 * getVarBusWidth (values_of v var) \<le>
      getEventIdxByTime_from (values_of v var) t 0 * getVarBusWidth (values_of v var) + getVarBusWidth (values_of v var)"
    by (simp add: algebra_simps)
qed

lemma total_width:
  assumes "getTotalBusWidthOfAllVars v = Inr width"
  shows "sum_list (map (\<lambda>var. getVarBusWidth (values_of v var)) (vcd_vars v)) = width"
proof -
  have all: "res_map (\<lambda>var. vcd_values var v) vars = Inr vals \<Longrightarrow> vals = map (values_of v) vars" for vars vals
    by (induction vars arbitrary: vals) (auto simp: vcd_values_def values_of_def split: option.splits)
  obtain vals where "res_map (\<lambda>var. vcd_values var v) (vcd_vars v) = Inr vals" "width = sum_list (map getVarBusWidth vals)"
    using assms by (auto simp: getTotalBusWidthOfAllVars_def)
  then show ?thesis using all [of "vcd_vars v" vals] by (simp add: comp_def)
qed

lemma width_nonneg:
  assumes "getTotalBusWidthOfAllVars v = Inr width" "widths_ok v"
  shows "0 \<le> width"
  using total_width [OF assms(1)] assms(2) bus_width_nonneg by (force simp: widths_ok_def list_all_iff intro!: sum_list_nonneg)

text \<open>
  The intervals: one after the other from 0 to the last time or one past it, and the events that an interval takes.
\<close>

lemma getTimeIntervals_spec:
  assumes tw: "getTotalBusWidthOfAllVars v = Inr width" and widths: "widths_ok v" and sorted: "waves_sorted v"
    and size: "2 * width + 1 \<le> max_event_num" "width + 1 < max_event_num" and T: "0 \<le> T"
  obtains ivs where "getTimeIntervals max_event_num T v = Inr (Some ivs)" "ivs \<noteq> []" "fst (hd ivs) = 0"
    "T \<le> snd (last ivs)" "snd (last ivs) \<le> T + 1" "\<forall>k. Suc k < length ivs \<longrightarrow> snd (ivs ! k) = fst (ivs ! Suc k)"
    "\<forall>k. Suc k < length ivs \<longrightarrow> snd (ivs ! k) < T"
    "\<forall>s e. (s, e) \<in> set ivs \<longrightarrow> 0 \<le> s \<and> s \<le> e \<and>
      getAccuEventCountOfAllGates v e - getAccuEventCountOfAllGates v s < max_event_num - 1"
proof -
  define n where "n = max_event_num - width - 1"
  define bound where "bound = getTimeIntervalBoudary v T"
  define nth where "nth = nth_time_interval bound n"
  note b = time_boundary [OF widths T, folded bound_def]
  have w: "0 \<le> width" by (rule width_nonneg [OF tw widths])
  have n: "0 < n" using size by (simp add: n_def)
  have below: "c \<le> getAccuEventCountOfAllGates v T" if "bound c < T" for c
    using b(4) [of c] accu_all_mono [OF widths, of "bound c" T] that by simp
  obtain m where loop: "time_intervals_loop bound n T 0 [] = Some (map nth [0..<Suc m])"
      and before: "\<And>k. k < m \<Longrightarrow> snd (nth k) < T" and last: "T \<le> snd (nth m)"
    using time_intervals_loop_spec [where i = 0 and bound = bound and T = T, OF n below] unfolding nth_def by auto
  define ivs where "ivs = map nth [0..<Suc m]"
  have ivs: "ivs ! k = nth k" "ivs ! k = (bound (n * int k), bound (n * (int k + 1)))" if "k \<le> m" for k
    using that by (simp_all add: ivs_def nth_def nth_time_interval_def del: upt_Suc)
  have ne: "ivs \<noteq> []" "length ivs = Suc m" by (simp_all add: ivs_def)
  have last_ivs: "last ivs = nth m" using ne ivs(1) [of m] by (simp add: last_conv_nth)
  have start: "fst (hd ivs) = 0"
  proof -
    have "fst (ivs ! 0) = bound 0" using ivs(2) [OF le0] by simp
    then show ?thesis using time_boundary_zero [OF widths T] unfolding hd_conv_nth [OF ne(1)] bound_def by simp
  qed
  have events: "0 \<le> s \<and> s \<le> e \<and> getAccuEventCountOfAllGates v e - getAccuEventCountOfAllGates v s < max_event_num - 1"
    if iv: "(s, e) \<in> set ivs" for s e
  proof -
    obtain k where k: "k \<le> m" "(s, e) = ivs ! k" using iv ne(2) by (auto simp: in_set_conv_nth less_Suc_eq_le)
    then have s: "s = bound (n * int k)" and e: "e = bound (n * (int k + 1))" using ivs(2) [of k] by simp_all
    have low: "n * int k \<le> getAccuEventCountOfAllGates v s"
    proof (cases k)
      case 0
      then show ?thesis using accu_all_nonneg [OF widths] by simp
    next
      case (Suc j)
      then have "s = snd (nth j)" by (simp add: s nth_def nth_time_interval_def add.commute)
      then have "s < T" using before [of j] k(1) Suc by simp
      then show ?thesis using b(4) [of "n * int k"] by (simp add: s)
    qed
    have se: "0 \<le> s" "s \<le> e"
      using b(1) time_boundary_mono [OF widths T, of "n * int k" "n * (int k + 1)"] n by (simp_all add: s e bound_def mult_left_mono)
    show ?thesis
    proof (cases "s = e")
      case True
      then show ?thesis using se(1) size w by simp
    next
      case False
      then have "0 \<le> e - 1" "e - 1 < e" using se by simp_all
      then have "getAccuEventCountOfAllGates v (e - 1) < n * (int k + 1)" using b(3) [of "e - 1"] unfolding e by blast
      moreover have "getAccuEventCountOfAllGates v e \<le> getAccuEventCountOfAllGates v (e - 1) + width"
        using accu_step [OF widths sorted, of "e - 1"] total_width [OF tw] by simp
      ultimately show ?thesis using low se by (simp add: n_def algebra_simps)
    qed
  qed
  show thesis
  proof (rule that [of ivs])
    show "getTimeIntervals max_event_num T v = Inr (Some ivs)"
      using tw size loop by (simp add: getTimeIntervals_def n_def bound_def ivs_def)
    show "T \<le> snd (last ivs)" "snd (last ivs) \<le> T + 1"
      using last b(2) by (simp_all add: last_ivs nth_def nth_time_interval_def)
    show "\<forall>k. Suc k < length ivs \<longrightarrow> snd (ivs ! k) = fst (ivs ! Suc k)"
      using ne ivs(2) by (simp add: add.commute)
    show "\<forall>k. Suc k < length ivs \<longrightarrow> snd (ivs ! k) < T" using ne ivs(1) before by simp
  qed (use ne start events in auto)
qed

lemma chain_of_nth:
  "ivs \<noteq> [] \<Longrightarrow> fst (hd ivs) = s \<Longrightarrow> (\<And>k. Suc k < length ivs \<Longrightarrow> snd (ivs ! k) = fst (ivs ! Suc k)) \<Longrightarrow>
    interval_chain s ivs (snd (last ivs))"
proof (induction ivs arbitrary: s)
  case (Cons iv ivs)
  obtain a b where iv: "iv = (a, b)" by fastforce
  show ?case
  proof (cases "ivs = []")
    case False
    then have "fst (hd ivs) = b" using Cons.prems(3) [of 0] by (simp add: iv hd_conv_nth)
    then have "interval_chain b ivs (snd (last ivs))"
      using False Cons.prems(3) [of "Suc _"] by (intro Cons.IH) auto
    then show ?thesis using False Cons.prems(2) by (simp add: iv)
  qed (use Cons.prems in \<open>simp add: iv\<close>)
qed simp

section \<open>Lemmas: what a round puts into the buffer\<close>

text \<open>The arrays of the variables, and pairs of an array and a bit of it, each once.\<close>

definition pairs_ok :: "Vcd \<Rightarrow> BitKey list \<Rightarrow> bool" where
  "pairs_ok v pairs \<longleftrightarrow> distinct pairs \<and>
     (\<forall>(a, b) \<in> set pairs. a < length (vcd_vars v) \<and> 0 \<le> b \<and> b < getVarBusWidth (values_of v (vcd_vars v ! a)))"

definition waves_ok :: "Vcd \<Rightarrow> int \<Rightarrow> bool" where
  "waves_ok v max_time \<longleftrightarrow>
     list_all (\<lambda>var. wave_wf (values_of v var) \<and> list_all (\<lambda>x. vv_time x \<le> max_time) (values_of v var)) (vcd_vars v)"

lemma waves_okD:
  assumes "waves_ok v T"
  shows "waves_sorted v" "var \<in> set (vcd_vars v) \<Longrightarrow> wave_wf (values_of v var)"
    "var \<in> set (vcd_vars v) \<Longrightarrow> \<forall>x \<in> set (values_of v var). vv_time x \<le> T"
  using assms by (auto simp: waves_ok_def waves_sorted_def wave_wf_def list_all_iff)

text \<open>The right bounds of the round before: the changes before the start of this one.\<close>

definition bounds_ok :: "VcdValue list list \<Rightarrow> int \<Rightarrow> (BitKey \<rightharpoonup> int) \<Rightarrow> BitKey list \<Rightarrow> bool" where
  "bounds_ok arrays s bounds pairs \<longleftrightarrow> (\<forall>p \<in> set pairs. \<forall>b. 0 < s \<longrightarrow> bounds p = Some b \<longrightarrow>
     b = int (n_before vv_time (arrays ! fst p) s))"

text \<open>A range ends with the changes before the end, or with all of them; one change before the start comes with it.\<close>

definition round_end :: "int \<Rightarrow> int \<Rightarrow> int" where
  "round_end T e = (if T \<le> e then T + 1 else e)"

lemma pair_range_ends:
  assumes wf: "wave_wf vals" and late: "\<forall>x \<in> set vals. vv_time x \<le> T" and s: "0 \<le> s" "s \<le> e"
    and prb: "0 < s \<longrightarrow> prb = int (n_before vv_time vals s)"
  shows "snd (pair_range T s e vals prb) = int (n_before vv_time vals (round_end T e))"
    and "n_in_range (pair_range T s e vals prb) \<le>
      int (n_before vv_time vals (round_end T e)) - int (n_before vv_time vals s) + 1"
proof -
  have sorted: "sorted_wrt (<) (map vv_time vals)" using wf by (simp add: wave_wf_def)
  have all: "n_before vv_time vals (T + 1) = length vals"
    using late by (auto simp: n_before_def intro!: arg_cong [where f = length] filter_True)
  have idx: "getEventIdxByTime_from vals e (if s = 0 then 0 else prb) = int (n_before vv_time vals e)"
    using prb s n_before_mono [of s e vv_time vals] by (intro idx_from_n_before [OF sorted]) auto
  show ends: "snd (pair_range T s e vals prb) = int (n_before vv_time vals (round_end T e))"
    using idx all by (simp add: pair_range_def Let_def round_end_def)
  have "fst (pair_range T s e vals prb) \<ge> int (n_before vv_time vals s) - 1"
    using prb s n_before_start [OF wf] by (cases "s = 0") (simp_all add: pair_range_def Let_def)
  moreover have "n_before vv_time vals s \<le> n_before vv_time vals (round_end T e)"
    using s all n_before_mono [of s e vv_time vals] n_before_le [of vv_time vals s] by (auto simp: round_end_def)
  ultimately show "n_in_range (pair_range T s e vals prb) \<le>
      int (n_before vv_time vals (round_end T e)) - int (n_before vv_time vals s) + 1"
    using ends by (simp add: n_in_range_def)
qed

lemma sum_pairs:
  fixes g :: "nat \<Rightarrow> int"
  assumes "distinct pairs" "\<forall>(a, b) \<in> set pairs. a < n \<and> 0 \<le> b \<and> b < W a" "\<And>a. a < n \<Longrightarrow> 0 \<le> g a" "\<And>a. a < n \<Longrightarrow> 0 \<le> W a"
    and "\<And>p. p \<in> set pairs \<Longrightarrow> f p \<le> g (fst p)"
  shows "sum_list (map f pairs) \<le> (\<Sum>a < n. g a * W a)"
proof -
  have "sum_list (map f pairs) = sum f (set pairs)" using assms(1) by (rule sum_list_distinct_conv_sum_set)
  also have "\<dots> \<le> (\<Sum>p \<in> set pairs. g (fst p))" using assms(5) by (intro sum_mono) auto
  also have "\<dots> \<le> (\<Sum>p \<in> Sigma {..<n} (\<lambda>a. {0..<W a}). g (fst p))"
    using assms(2,3) by (intro sum_mono2) auto
  also have "\<dots> = (\<Sum>a < n. \<Sum>b \<in> {0..<W a}. g a)" by (subst sum.Sigma) (auto simp: split_beta)
  also have "\<dots> = (\<Sum>a < n. g a * W a)" using assms(4) by (intro sum.cong) (simp_all add: mult.commute)
  finally show ?thesis .
qed

lemma accu_n_before:
  assumes "waves_sorted v"
  shows "getAccuEventCountOfAllGates v t = (\<Sum>a < length (vcd_vars v).
    int (n_before vv_time (values_of v (vcd_vars v ! a)) t) * getVarBusWidth (values_of v (vcd_vars v ! a)))"
proof -
  have "getEventIdxByTime_from (values_of v var) t 0 = int (n_before vv_time (values_of v var) t)" if "var \<in> set (vcd_vars v)" for var
    using assms that by (intro idx_from_n_before) (auto simp: waves_sorted_def list_all_iff)
  then show ?thesis
    by (simp add: getAccuEventCountOfAllGates_def sum_list_sum_nth atLeast0LessThan)
qed

lemma round_total:
  assumes waves: "waves_ok v T" and widths: "widths_ok v" and tw: "getTotalBusWidthOfAllVars v = Inr width"
    and pairs: "pairs_ok v pairs" and bounds: "bounds_ok (map (values_of v) (vcd_vars v)) s bounds pairs" and se: "0 \<le> s" "s \<le> e"
  shows "sum_list (map (\<lambda>p. n_in_range (pair_range T s e (map (values_of v) (vcd_vars v) ! fst p) (the (bounds p))))
      (filter (\<lambda>p. bounds p \<noteq> None) pairs)) \<le>
    getAccuEventCountOfAllGates v (round_end T e) - getAccuEventCountOfAllGates v s + width"
proof -
  define vals where "vals = (\<lambda>a. values_of v (vcd_vars v ! a))"
  define N where "N = length (vcd_vars v)"
  define g where "g = (\<lambda>a. int (n_before vv_time (vals a) (round_end T e)) - int (n_before vv_time (vals a) s) + 1)"
  have var: "vcd_vars v ! a \<in> set (vcd_vars v)" if "a < N" for a using that by (simp add: N_def)
  have W: "0 \<le> getVarBusWidth (vals a)" if "a < N" for a
    using widths var [OF that] bus_width_nonneg by (auto simp: widths_ok_def list_all_iff vals_def)
  have pr: "n_in_range (pair_range T s e (vals a) prb) \<le> g a" if "a < N" "0 < s \<longrightarrow> prb = int (n_before vv_time (vals a) s)" for a prb
    unfolding g_def using waves_okD [OF waves] var that se by (intro pair_range_ends(2)) (auto simp: vals_def)
  have g: "0 \<le> g a" if "a < N" for a
  proof -
    have "0 \<le> n_in_range (pair_range T s e (vals a) (int (n_before vv_time (vals a) s)))" by (simp add: n_in_range_def)
    then show ?thesis using pr [OF that, of "int (n_before vv_time (vals a) s)"] by simp
  qed
  have "sum_list (map (\<lambda>p. n_in_range (pair_range T s e (map (values_of v) (vcd_vars v) ! fst p) (the (bounds p))))
      (filter (\<lambda>p. bounds p \<noteq> None) pairs)) \<le> (\<Sum>a < N. g a * getVarBusWidth (vals a))"
  proof (rule sum_pairs)
    show "distinct (filter (\<lambda>p. bounds p \<noteq> None) pairs)" using pairs by (simp add: pairs_ok_def)
    show "\<forall>(a, b) \<in> set (filter (\<lambda>p. bounds p \<noteq> None) pairs). a < N \<and> 0 \<le> b \<and> b < getVarBusWidth (vals a)"
      using pairs by (auto simp: pairs_ok_def N_def vals_def)
    show "n_in_range (pair_range T s e (map (values_of v) (vcd_vars v) ! fst p) (the (bounds p))) \<le> g (fst p)"
      if "p \<in> set (filter (\<lambda>p. bounds p \<noteq> None) pairs)" for p
    proof -
      have a: "fst p < N" and p: "p \<in> set pairs" using pairs that by (auto simp: pairs_ok_def N_def)
      then have "map (values_of v) (vcd_vars v) ! fst p = vals (fst p)" by (simp add: N_def vals_def)
      moreover have "0 < s \<longrightarrow> the (bounds p) = int (n_before vv_time (vals (fst p)) s)"
        using bounds that p a by (auto simp: bounds_ok_def N_def vals_def)
      ultimately show ?thesis using pr [OF a] by simp
    qed
  qed (use g W in auto)
  also have "\<dots> = getAccuEventCountOfAllGates v (round_end T e) - getAccuEventCountOfAllGates v s + width"
    unfolding accu_n_before [OF waves_okD(1) [OF waves]] total_width [OF tw, symmetric]
    by (simp add: g_def vals_def N_def sum_list_sum_nth atLeast0LessThan algebra_simps sum.distrib sum_subtractf)
  finally show ?thesis .
qed

lemma res_bind_Inl: "res_bind r f = Inl e \<longleftrightarrow> r = Inl e \<or> (\<exists>x. r = Inr x \<and> f x = Inl e)"
  by (cases r) auto

lemma res_map_Inl: "res_map f xs = Inl e \<Longrightarrow> \<exists>x \<in> set xs. f x = Inl e"
  by (induction xs) (auto simp: res_bind_Inl)

lemma multi_thread_fits:
  assumes "sum_list (map (\<lambda>p. n_in_range (pair_range T s e (arrays ! fst p) (the (bounds p))))
      (filter (\<lambda>p. bounds p \<noteq> None) pairs)) \<le> max_event_num"
  shows "getGateWaveformRangeMultiThread max_event_num T arrays pairs s e bounds \<noteq> Inl AssertFailed"
proof -
  have ev: "pair_events vals b r \<noteq> Inl AssertFailed" for vals b r
    by (auto simp: pair_events_def pair_event_def dest!: res_map_Inl split: option.splits)
  show ?thesis
    using assms ev unfolding getGateWaveformRangeMultiThread_def Let_def
    by (auto simp: comp_def res_bind_Inl dest!: res_map_Inl split: prod.splits)
qed

lemma next_bounds_ok:
  assumes round: "getGateWaveformRangeMultiThread max_event_num T arrays pairs s e bounds = Inr wr"
    and bounds: "bounds_ok arrays s bounds pairs" and se: "0 \<le> s" "s \<le> e" "e < T"
    and waves: "\<And>p. p \<in> set pairs \<Longrightarrow> wave_wf (arrays ! fst p)" "\<And>p. p \<in> set pairs \<Longrightarrow> \<forall>x \<in> set (arrays ! fst p). vv_time x \<le> T"
  shows "bounds_ok arrays e (wr_bounds wr) pairs"
  unfolding bounds_ok_def
proof (intro ballI allI impI)
  fix p b assume p: "p \<in> set pairs" and b: "wr_bounds wr p = Some b"
  show "b = int (n_before vv_time (arrays ! fst p) e)"
  proof (cases "bounds p")
    case None
    then have "wr_bounds wr p = None"
      using round by (auto simp: getGateWaveformRangeMultiThread_def Let_def map_of_eq_None_iff split: if_splits option.splits
          dest!: map_of_SomeD set_zip_leftD)
    then show ?thesis using b by simp
  next
    case (Some prb)
    then have "wr_bounds wr p = Some (snd (pair_range T s e (arrays ! fst p) prb))" using round_pin(2) [OF round p] by simp
    moreover have "snd (pair_range T s e (arrays ! fst p) prb) = int (n_before vv_time (arrays ! fst p) (round_end T e))"
      using waves [OF p] se bounds p Some by (intro pair_range_ends(1)) (auto simp: bounds_ok_def)
    ultimately show ?thesis using b se(3) by (simp add: round_end_def)
  qed
qed

lemma rounds_no_overflow:
  assumes waves: "waves_ok v T" and widths: "widths_ok v" and tw: "getTotalBusWidthOfAllVars v = Inr width" and pairs: "pairs_ok v pairs"
  shows "interval_chain s ivs t \<Longrightarrow> 0 \<le> s \<Longrightarrow> (\<And>k. Suc k < length ivs \<Longrightarrow> snd (ivs ! k) < T) \<Longrightarrow>
    (\<And>s e. (s, e) \<in> set ivs \<Longrightarrow> s \<le> e \<and>
      getAccuEventCountOfAllGates v (round_end T e) - getAccuEventCountOfAllGates v s + width \<le> max_event_num) \<Longrightarrow>
    bounds_ok (map (values_of v) (vcd_vars v)) s bounds pairs \<Longrightarrow>
    analysis_rounds max_event_num T (map (values_of v) (vcd_vars v)) pairs bounds ivs \<noteq> Inl AssertFailed"
proof (induction ivs arbitrary: s bounds)
  case (Cons iv ivs)
  define arrays where "arrays = map (values_of v) (vcd_vars v)"
  obtain e where iv: "iv = (s, e)" and chain: "interval_chain e ivs t" using Cons.prems(1) by (cases iv) auto
  have se: "s \<le> e" and room: "getAccuEventCountOfAllGates v (round_end T e) - getAccuEventCountOfAllGates v s + width \<le> max_event_num"
    using Cons.prems(4) [of s e] by (auto simp: iv)
  have fits: "getGateWaveformRangeMultiThread max_event_num T arrays pairs s e bounds \<noteq> Inl AssertFailed"
    using round_total [OF waves widths tw pairs Cons.prems(5,2) se] room
    unfolding arrays_def by (intro multi_thread_fits) (rule order_trans)
  have rest: "analysis_rounds max_event_num T arrays pairs (wr_bounds wr) ivs \<noteq> Inl AssertFailed"
    if wr: "getGateWaveformRangeMultiThread max_event_num T arrays pairs s e bounds = Inr wr" for wr
  proof (cases "ivs = []")
    case False
    then have e: "e < T" using Cons.prems(3) [of 0] by (simp add: iv)
    have in_vars: "\<exists>var \<in> set (vcd_vars v). arrays ! fst p = values_of v var" if "p \<in> set pairs" for p
      using pairs that by (force simp: pairs_ok_def arrays_def)
    have "bounds_ok arrays e (wr_bounds wr) pairs"
      using Cons.prems(5,2) se e in_vars waves_okD(2,3) [OF waves]
      by (intro next_bounds_ok [OF wr]) (fastforce simp: arrays_def)+
    then show ?thesis
      using Cons.IH [OF chain, of "wr_bounds wr"] Cons.prems(2,4) se Cons.prems(3) [of "Suc _"] by (auto simp: arrays_def)
  qed simp
  show ?case using fits rest by (auto simp: iv arrays_def [symmetric] res_bind_Inl)
qed simp

section \<open>Properties: the rounds of time units\<close>

text \<open>C23: An analysis that is divided by time units covers the simulation with intervals that follow each other from 0
  to its last time or one past it, and never overflows an event buffer with twice the width of all variables more
  than the budget that the division was made for: what the division reserves for the changes of one time unit does not
  hold the changes that repeat the states at the start, nor those at the last time.\<close>

theorem time_rounds_fit:
  assumes tw: "getTotalBusWidthOfAllVars v = Inr width" and widths: "widths_ok v" and waves: "waves_ok v max_time"
    and size: "2 * width + 1 \<le> max_event_num" "width + 1 < max_event_num" and time: "0 \<le> max_time"
    and pairs: "pairs_ok v pairs"
  shows "\<exists>ivs. getTimeIntervals max_event_num max_time v = Inr (Some ivs) \<and> ivs \<noteq> [] \<and>
    interval_chain 0 ivs (snd (last ivs)) \<and> max_time \<le> snd (last ivs) \<and> snd (last ivs) \<le> max_time + 1 \<and>
    analysis_rounds (max_event_num + 2 * width) max_time (map (values_of v) (vcd_vars v)) pairs bounds ivs \<noteq> Inl AssertFailed"
proof -
  obtain ivs where ivs: "getTimeIntervals max_event_num max_time v = Inr (Some ivs)" "ivs \<noteq> []" "fst (hd ivs) = 0"
      "max_time \<le> snd (last ivs)" "snd (last ivs) \<le> max_time + 1"
      "\<And>k. Suc k < length ivs \<Longrightarrow> snd (ivs ! k) = fst (ivs ! Suc k)"
      "\<And>k. Suc k < length ivs \<Longrightarrow> snd (ivs ! k) < max_time"
      "\<And>s e. (s, e) \<in> set ivs \<Longrightarrow> 0 \<le> s \<and> s \<le> e \<and>
        getAccuEventCountOfAllGates v e - getAccuEventCountOfAllGates v s < max_event_num - 1"
    by (rule getTimeIntervals_spec [OF tw widths waves_okD(1) [OF waves] size time]) blast
  note step = accu_step [OF widths waves_okD(1) [OF waves], unfolded total_width [OF tw]]
  have chain: "interval_chain 0 ivs (snd (last ivs))" using ivs(2,3,6) by (rule chain_of_nth)
  have small: "e \<le> max_time + 1" if e: "(s, e) \<in> set ivs" for s e
  proof -
    obtain k where k: "k < length ivs" "ivs ! k = (s, e)" using e by (auto simp: in_set_conv_nth)
    show ?thesis
    proof (cases "Suc k < length ivs")
      case True
      then show ?thesis using ivs(7) k by fastforce
    next
      case False
      then have "k = length ivs - 1" using k by linarith
      then have "last ivs = (s, e)" using k by (simp add: last_conv_nth [OF ivs(2)])
      then show ?thesis using ivs(5) by simp
    qed
  qed
  have room: "s \<le> e \<and> getAccuEventCountOfAllGates v (round_end max_time e) - getAccuEventCountOfAllGates v s + width \<le>
      max_event_num + 2 * width" if se: "(s, e) \<in> set ivs" for s e
  proof -
    have "round_end max_time e = e \<or> round_end max_time e = e + 1"
      using small [OF se] by (auto simp: round_end_def)
    then have "getAccuEventCountOfAllGates v (round_end max_time e) \<le> getAccuEventCountOfAllGates v e + width"
      using step [of e] accu_all_mono [OF widths, of e "e + 1"] width_nonneg [OF tw widths] by auto
    then show ?thesis using ivs(8) [OF se] by simp
  qed
  have "analysis_rounds (max_event_num + 2 * width) max_time (map (values_of v) (vcd_vars v)) pairs bounds ivs \<noteq> Inl AssertFailed"
    by (rule rounds_no_overflow [OF waves widths tw pairs chain]) (use ivs(7) room in \<open>auto simp: bounds_ok_def\<close>)
  then show ?thesis using ivs(1,2,4,5) chain by blast
qed

theorem time_rounds_fit_witness:
  "\<exists>ivs. getTimeIntervals 3 10 wave_vcd = Inr (Some ivs) \<and> interval_chain 0 ivs (snd (last ivs)) \<and>
    analysis_rounds 5 10 [wave_vals] [(0, 0)] [(0, 0) \<mapsto> 0] ivs \<noteq> Inl AssertFailed"
proof -
  have w: "getTotalBusWidthOfAllVars wave_vcd = Inr 1" "widths_ok wave_vcd" "waves_ok wave_vcd 10" "pairs_ok wave_vcd [(0, 0)]"
    by (simp_all add: getTotalBusWidthOfAllVars_def wave_vcd_def vcd_values_def wave_vals_def widths_ok_def values_of_def
        waves_ok_def wave_wf_def pairs_ok_def)
  have "map (values_of wave_vcd) (vcd_vars wave_vcd) = [wave_vals]" by (simp add: values_of_def wave_vcd_def)
  then show ?thesis
    using time_rounds_fit [OF w(1-3) _ _ _ w(4), of 3 "[(0, 0) \<mapsto> 0]"] by auto
qed

text \<open>Three bits that change together overflow the buffer that the division was made for.\<close>

definition busy_vals :: "VcdValue list" where
  "busy_vals = map (\<lambda>(t, c). \<lparr>vv_time = t, vv_value = c, vv_bus = 0, vv_width = 1\<rparr>) [(0, CHR ''0''), (6, CHR ''1''), (10, CHR ''0'')]"

definition early_vals :: "VcdValue list" where
  "early_vals = map (\<lambda>(t, c). \<lparr>vv_time = t, vv_value = c, vv_bus = 0, vv_width = 1\<rparr>)
     [(0, CHR ''0''), (5, CHR ''1''), (6, CHR ''0''), (10, CHR ''1'')]"

definition busy_vcd :: Vcd where
  "busy_vcd = vcd_empty\<lparr>vcd_vars := map (\<lambda>i. \<lparr>vr_name = i, vr_type = VT_wire, vr_width = 1, vr_id = i\<rparr>) [''a'', ''b'', ''c''],
     vcd_id_values := [''a'' \<mapsto> early_vals, ''b'' \<mapsto> early_vals, ''c'' \<mapsto> busy_vals], vcd_time_max := 10\<rparr>"

lemma reserve_too_small:
  "getTimeIntervals 7 10 busy_vcd = Inr (Some [(0, 1), (1, 7), (7, 11)])"
  "analysis_rounds 7 10 [early_vals, early_vals, busy_vals] [(0, 0), (1, 0), (2, 0)]
     [(0, 0) \<mapsto> 0, (1, 0) \<mapsto> 0, (2, 0) \<mapsto> 0] [(0, 1), (1, 7), (7, 11)] = Inl AssertFailed"
proof -
  have width: "getTotalBusWidthOfAllVars busy_vcd = Inr 3" by code_simp
  have bound: "getTimeIntervalBoudary busy_vcd 10 0 = 0" "getTimeIntervalBoudary busy_vcd 10 3 = 1"
      "getTimeIntervalBoudary busy_vcd 10 6 = 7" "getTimeIntervalBoudary busy_vcd 10 9 = 11"
    by code_simp+
  have "time_intervals_loop (getTimeIntervalBoudary busy_vcd 10) 3 10 0 [] = Some [(0, 1), (1, 7), (7, 11)]"
    by (subst time_intervals_loop.simps, simp add: bound, subst time_intervals_loop.simps, simp add: bound,
        subst time_intervals_loop.simps, simp add: bound)
  then show "getTimeIntervals 7 10 busy_vcd = Inr (Some [(0, 1), (1, 7), (7, 11)])"
    by (simp add: getTimeIntervals_def width)
  show "analysis_rounds 7 10 [early_vals, early_vals, busy_vals] [(0, 0), (1, 0), (2, 0)]
     [(0, 0) \<mapsto> 0, (1, 0) \<mapsto> 0, (2, 0) \<mapsto> 0] [(0, 1), (1, 7), (7, 11)] = Inl AssertFailed"
  proof -
    have "case analysis_rounds 7 10 [early_vals, early_vals, busy_vals] [(0, 0), (1, 0), (2, 0)]
       [(0, 0) \<mapsto> 0, (1, 0) \<mapsto> 0, (2, 0) \<mapsto> 0] [(0, 1), (1, 7), (7, 11)] of Inl e \<Rightarrow> e = AssertFailed | Inr _ \<Rightarrow> False"
      by code_simp
    then show ?thesis by (auto split: sum.splits)
  qed
qed

section \<open>Lemmas: counted cycles\<close>

text \<open>A cycle has a count if one of its times is in an array that is not counted yet.\<close>

lemma count_cycles_dom:
  "m' = count_cycles cycle vals m \<Longrightarrow> c \<in> dom m' \<longleftrightarrow> c \<in> dom m \<or> (\<exists>x \<in> set vals. cycle (vv_time x) = c)"
  by (induction cycle vals m arbitrary: m' rule: count_cycles.induct) auto

lemma count_cycles_pos:
  "\<forall>c \<in> ran m. 0 < c \<Longrightarrow> \<forall>c \<in> ran (count_cycles cycle vals m). 0 < (c :: int)"
proof (induction cycle vals m rule: count_cycles.induct)
  case (2 cycle v vals m)
  have "0 < (case m (cycle (vv_time v)) of None \<Rightarrow> 0 | Some c \<Rightarrow> c) + 1"
  proof (cases "m (cycle (vv_time v))")
    case (Some c)
    then have "0 < c" using 2(2) by (auto simp: ran_def)
    then show ?thesis using Some by simp
  qed simp
  then have "\<forall>c \<in> ran (m(cycle (vv_time v) \<mapsto> (case m (cycle (vv_time v)) of None \<Rightarrow> 0 | Some c \<Rightarrow> c) + 1)). 0 < c"
    using 2(2) by (auto simp: ran_def split: if_splits)
  then show ?case unfolding count_cycles.simps by (rule 2(1))
qed simp

lemma count_arrays_dom:
  "c \<in> dom (count_arrays cycle arrays keys seen m) \<longleftrightarrow> c \<in> dom m \<or>
    (\<exists>a. Some a \<in> set keys - seen \<and> (\<exists>x \<in> set (arrays ! a). cycle (vv_time x) = c))"
proof (induction keys arbitrary: seen m)
  case (Cons key keys)
  then show ?case
    using count_cycles_dom [OF refl, of c cycle _ m] by (cases key) (auto split: if_splits)
qed simp

lemma count_arrays_pos:
  "\<forall>c \<in> ran m. 0 < c \<Longrightarrow> \<forall>c \<in> ran (count_arrays cycle arrays keys seen m). 0 < (c :: int)"
proof (induction keys arbitrary: seen m)
  case (Cons key keys)
  show ?case
  proof (cases "key \<in> seen")
    case True
    then show ?thesis using Cons by simp
  next
    case False
    have "\<forall>c \<in> ran (case key of None \<Rightarrow> m | Some a \<Rightarrow> count_cycles cycle (arrays ! a) m). 0 < c"
      using Cons.prems count_cycles_pos by (auto split: option.splits)
    then show ?thesis using False Cons.IH by simp
  qed
qed simp

text \<open>The sums exist exactly if every cycle has a count, and then they do not fall.\<close>

lemma accu_cycles_returns:
  "(\<exists>accu. accu_cycles m n = Inr accu) \<longleftrightarrow> (\<forall>c < n. int c \<in> dom m)"
proof (induction n)
  case (Suc n)
  have "(\<exists>accu. accu_cycles m (Suc n) = Inr accu) \<longleftrightarrow> (\<exists>accu. accu_cycles m n = Inr accu) \<and> int n \<in> dom m"
    by (auto simp: res_bind_Inr split: option.splits)
  then show ?case using Suc by (auto simp: less_Suc_eq)
qed simp

lemma accu_cycles_errs: "accu_cycles m n = Inl e \<Longrightarrow> e = KeyMissing ''cycle''"
  by (induction n) (auto simp: res_bind_Inl split: option.splits)

lemma accu_cycles_spec:
  assumes "\<forall>c \<in> ran m. 0 < (c :: int)"
  shows "accu_cycles m n = Inr accu \<Longrightarrow> length accu = Suc n \<and> accu ! 0 = 0 \<and> sorted accu"
proof (induction n arbitrary: accu)
  case (Suc n)
  then obtain accu' k where "accu_cycles m n = Inr accu'" "m (int n) = Some k" "accu = accu' @ [last accu' + k]"
    by (auto split: option.splits)
  moreover have "0 < k" using assms \<open>m (int n) = Some k\<close> by (auto simp: ran_def)
  ultimately show ?case using Suc.IH [of accu']
    by (cases accu' rule: rev_cases) (auto simp: sorted_append nth_append)
qed simp

text \<open>A search from 0 finds what a search from the boundary before finds.\<close>

lemma search_from_zero:
  assumes "search_predicate P 0 N" "0 \<le> l" "l \<le> N" "\<And>p. 0 \<le> p \<Longrightarrow> p < l \<Longrightarrow> P p"
  shows "lower_bound_loop P 0 N = lower_bound_loop P l N"
proof -
  have l: "search_predicate P l N" using assms(1-3) by (auto simp: search_predicate_def)
  define r s where "r = lower_bound_loop P 0 N" and "s = lower_bound_loop P l N"
  have r: "0 \<le> r" "r \<le> N" "0 \<le> i \<Longrightarrow> i < N \<Longrightarrow> P i \<longleftrightarrow> i < r" for i
    using search_predicate.search_bounds [OF assms(1)] search_predicate.search_iff [OF assms(1)] by (simp_all add: r_def)
  have s: "l \<le> s" "s \<le> N" "l \<le> i \<Longrightarrow> i < N \<Longrightarrow> P i \<longleftrightarrow> i < s" for i
    using search_predicate.search_bounds [OF l] search_predicate.search_iff [OF l] by (simp_all add: s_def)
  have "\<not> r < s"
    using r(3) [of r] s(3) [of r] assms(4) [of r] r(1) s(2) by (cases "r < l") auto
  moreover have "\<not> s < r" using r(3) [of s] s(3) [of s] r(2) s(1) assms(2) by auto
  ultimately show ?thesis by (simp add: r_def s_def)
qed

lemma boundaries_below:
  assumes "boundaries_inv A n N bs" "0 < n"
  shows "k < length bs \<Longrightarrow> 0 \<le> p \<Longrightarrow> p < bs ! k \<Longrightarrow> A p < n * int k"
proof (induction k)
  case 0
  then show ?case using assms(1) by (simp add: boundaries_inv_def hd_conv_nth)
next
  case (Suc k)
  show ?case
  proof (cases "bs ! k \<le> p")
    case True
    then show ?thesis using assms(1) Suc.prems by (auto simp: boundaries_inv_def)
  next
    case False
    then have "A p < n * int k" using Suc by simp
    then show ?thesis using assms(2) by (simp add: algebra_simps)
  qed
qed

lemma boundary_intervals_chain:
  assumes inv: "boundaries_inv A n N bs" and bs: "last bs = N" "2 \<le> length bs" and u: "0 < u"
  shows "interval_chain 0 (boundary_intervals u bs) (N * u + 1)" "boundary_intervals u bs \<noteq> []"
proof -
  define ivs where "ivs = boundary_intervals u bs"
  have len: "length ivs = length bs - 1" unfolding ivs_def by (rule boundary_intervals_nth [OF bs(2)])
  have nth: "ivs ! k = (bs ! k * u, bs ! Suc k * u + (if k = length bs - 2 then 1 else 0))" if "k < length bs - 1" for k
    unfolding ivs_def using boundary_intervals_nth(2) [OF bs(2) that] .
  show ne: "boundary_intervals u bs \<noteq> []" using len bs(2) by (auto simp: ivs_def)
  have "bs ! 0 = 0" using inv by (auto simp: boundaries_inv_def hd_conv_nth)
  then have start: "fst (hd ivs) = 0" using len bs(2) nth [of 0] ne by (simp add: hd_conv_nth ivs_def)
  have "Suc (length bs - 2) = length bs - 1" using bs(2) by simp
  then have "bs ! Suc (length bs - 2) = N" using bs by (metis last_conv_nth list.size(3) not_numeral_le_zero)
  then have "snd (last ivs) = N * u + 1"
    using len bs(2) nth [of "length bs - 2"] ne by (simp add: last_conv_nth ivs_def numeral_2_eq_2)
  moreover have "interval_chain 0 ivs (snd (last ivs))"
    using ne start nth len by (intro chain_of_nth) (auto simp: ivs_def)
  ultimately show "interval_chain 0 (boundary_intervals u bs) (N * u + 1)" by (simp add: ivs_def)
qed

section \<open>Properties: counted cycles\<close>

text \<open>C24: The division that counts the events of every cycle exists exactly if every cycle of the simulation has an
  event of some pin; then its intervals follow each other from 0 to one past the last cycle. One idle cycle ends the
  program with a missing key.\<close>

theorem counted_rounds_need_events:
  assumes tw: "getTotalBusWidthOfAllVars v = Inr width" and size: "2 * width + 1 \<le> max_event_num" "width + 1 < max_event_num"
    and u: "0 < u" and N: "0 \<le> N"
  shows "case getTimeIntervalsByCycleIterateAllEvents max_event_num N u cycle arrays keys v of
      Inl e \<Rightarrow> e = KeyMissing ''cycle'' \<and>
        (\<exists>c. 0 \<le> c \<and> c < N \<and> \<not> (\<exists>a x. Some a \<in> set keys \<and> x \<in> set (arrays ! a) \<and> cycle (vv_time x) = c))
    | Inr r \<Rightarrow> (\<forall>c. 0 \<le> c \<and> c < N \<longrightarrow> (\<exists>a x. Some a \<in> set keys \<and> x \<in> set (arrays ! a) \<and> cycle (vv_time x) = c)) \<and>
        (\<exists>ivs. r = Some ivs \<and> ivs \<noteq> [] \<and> interval_chain 0 ivs (N * u + 1))"
proof -
  define m where "m = count_arrays cycle arrays keys {} Map.empty"
  define n where "n = max_event_num - width - 1"
  have n: "0 < n" using size by (simp add: n_def)
  have dom: "c \<in> dom m \<longleftrightarrow> (\<exists>a x. Some a \<in> set keys \<and> x \<in> set (arrays ! a) \<and> cycle (vv_time x) = c)" for c
    using count_arrays_dom [of c cycle arrays keys "{}" Map.empty] by (auto simp: m_def)
  have pos: "\<forall>c \<in> ran m. 0 < c" unfolding m_def by (rule count_arrays_pos) simp
  have all: "(\<forall>c < nat N. int c \<in> dom m) \<longleftrightarrow> (\<forall>c. 0 \<le> c \<and> c < N \<longrightarrow> c \<in> dom m)"
    by (metis nat_0_le nat_less_iff of_nat_0_le_iff zless_nat_eq_int_zless)
  have run: "getTimeIntervalsByCycleIterateAllEvents max_event_num N u cycle arrays keys v =
      res_bind (accu_cycles m (nat N)) (\<lambda>accu. Inr (map_option (boundary_intervals u)
        (boundaries_loop (\<lambda>c _. getCycleIntervalBoudaryByCycleIdxToAccuEvents accu N c) n N [0])))"
    using tw size by (simp add: getTimeIntervalsByCycleIterateAllEvents_def m_def n_def)
  show ?thesis
  proof (cases "accu_cycles m (nat N)")
    case (Inl e)
    then have "\<not> (\<forall>c. 0 \<le> c \<and> c < N \<longrightarrow> c \<in> dom m)"
      using accu_cycles_returns [of m "nat N"] unfolding all by simp
    then show ?thesis using accu_cycles_errs [OF Inl] unfolding run Inl by (auto simp: dom)
  next
    case (Inr accu)
    then have every: "\<forall>c. 0 \<le> c \<and> c < N \<longrightarrow> c \<in> dom m"
      using accu_cycles_returns [of m "nat N"] unfolding all by blast
    define A where "A = (\<lambda>p. accu ! nat p)"
    define bnd where "bnd = (\<lambda>c (_ :: int). getCycleIntervalBoudaryByCycleIdxToAccuEvents accu N c)"
    note accu = accu_cycles_spec [OF pos Inr]
    have mono: "A p \<le> A q" if "0 \<le> p" "p \<le> q" "q \<le> N" for p q
      unfolding A_def using accu that by (intro sorted_nth_mono) auto
    have bnd: "bnd (n * int (length bs)) (last bs) = lower_bound_loop (\<lambda>p. A p < n * int (length bs)) (last bs) N"
      if inv: "boundaries_inv A n N bs" for bs
    proof -
      have bs: "bs \<noteq> []" "0 \<le> last bs" "last bs \<le> N" using inv last_in_set by (fastforce simp: boundaries_inv_def)+
      have sp: "search_predicate (\<lambda>p. A p < n * int (length bs)) 0 N"
        using mono N by unfold_locales (fastforce intro: le_less_trans)+
      have "A p < n * int (length bs)" if "0 \<le> p" "p < last bs" for p
      proof -
        have "A p < n * int (length bs - 1)"
          using boundaries_below [OF inv n, of "length bs - 1" p] that bs(1) by (simp add: last_conv_nth)
        also have "\<dots> \<le> n * int (length bs)" using n by (intro mult_left_mono) auto
        finally show ?thesis .
      qed
      then show ?thesis
        using search_from_zero [OF sp bs(2,3)] by (simp add: bnd_def A_def getCycleIntervalBoudaryByCycleIdxToAccuEvents_def)
    qed
    have "boundaries_inv A n N [0]" using N by (simp add: boundaries_inv_def)
    then obtain bs where loop: "boundaries_loop bnd n N [0] = Some bs" and bs: "boundaries_inv A n N bs" "last bs = N" "2 \<le> length bs"
      using boundaries_loop_spec [OF n mono bnd, of "[0]"] by blast
    show ?thesis
      using boundary_intervals_chain [OF bs u] every loop unfolding run Inr by (simp add: bnd_def dom)
  qed
qed

theorem counted_rounds_need_events_witness:
  "getTimeIntervalsByCycleIterateAllEvents 3 3 4 (\<lambda>t. t div 4) [wave_vals] [Some 0, None, Some 0] wave_vcd \<noteq> Inl (KeyMissing ''cycle'') \<and>
   getTimeIntervalsByCycleIterateAllEvents 3 4 4 (\<lambda>t. t div 4) [wave_vals] [Some 0, None, Some 0] wave_vcd = Inl (KeyMissing ''cycle'')"
proof
  have w: "getTotalBusWidthOfAllVars wave_vcd = Inr 1"
    by (simp add: getTotalBusWidthOfAllVars_def wave_vcd_def vcd_values_def wave_vals_def)
  have three: "\<exists>a x. Some a \<in> set [Some 0, None, Some 0] \<and> x \<in> set ([wave_vals] ! a) \<and> vv_time x div 4 = c"
    if "0 \<le> c" "c < 3" for c
  proof -
    have "c = 0 \<or> c = 1 \<or> c = 2" using that by linarith
    then have "\<exists>x \<in> set wave_vals. vv_time x div 4 = c" by (auto simp: wave_vals_def)
    then show ?thesis by (metis list.set_intros(1) nth_Cons_0)
  qed
  show "getTimeIntervalsByCycleIterateAllEvents 3 3 4 (\<lambda>t. t div 4) [wave_vals] [Some 0, None, Some 0] wave_vcd \<noteq> Inl (KeyMissing ''cycle'')"
    using counted_rounds_need_events [OF w, where max_event_num = 3 and u = 4 and N = 3 and
        cycle = "\<lambda>t. t div 4" and arrays = "[wave_vals]" and keys = "[Some 0, None, Some 0]"] three
    by (auto split: sum.splits)
  have "\<not> (\<exists>a x. Some a \<in> set [Some 0, None, Some 0] \<and> x \<in> set ([wave_vals] ! a) \<and> vv_time x div 4 = 3)"
    by (auto simp: wave_vals_def)
  then show "getTimeIntervalsByCycleIterateAllEvents 3 4 4 (\<lambda>t. t div 4) [wave_vals] [Some 0, None, Some 0] wave_vcd = Inl (KeyMissing ''cycle'')"
    using counted_rounds_need_events [OF w, where max_event_num = 3 and u = 4 and N = 4 and
        cycle = "\<lambda>t. t div 4" and arrays = "[wave_vals]" and keys = "[Some 0, None, Some 0]"]
    by (auto split: sum.splits dest: spec [of _ 3])
qed

section \<open>Lemmas: intervals of the waveform file\<close>

text \<open>Moved to whole cycles, the intervals of a file still follow each other.\<close>

lemma round_to_cycles_chain:
  "round_to_cycles u ivs = Inr ivs' \<Longrightarrow> interval_chain s ivs t \<Longrightarrow>
    interval_chain (ceil_div s u * u) ivs' (ceil_div t u * u) \<and> list_all (\<lambda>(a, b). a \<noteq> b) ivs'"
  by (induction u ivs arbitrary: ivs' s rule: round_to_cycles.induct) (auto simp: Let_def split: if_splits)

end
