(* ===== verification/GTP_CudaFill.thy ===== *)
theory GTP_CudaFill
  imports GTP_CudaWave
begin

text \<open>
  The event buffer over all rounds of an analysis (\<open>power/cuda/CudaPower.cu\<close>): the list of the bits to copy that the
  first round sets up (\<open>CudaPower::initGateData\<close>), the filling from one thread
  (\<open>CudaPower::getGateWaveformRangeSingleThread\<close>) beside the one from several, and the choice between them in
  \<open>CudaPower::power\<close>. Both ways of filling meet the interface \<open>wave_fill\<close>, which is all that the slices of the waveforms
  depend on.
\<close>

section \<open>Lists of bits\<close>

text \<open>The arrays that were seen, and the bits of the first value of each.\<close>

record WaveLists =
  wl_known :: "nat list"
  wl_pairs :: "BitKey list"

definition first_width :: "VcdValue list \<Rightarrow> int" where
  "first_width vals = (case vals of [] \<Rightarrow> 0 | v # _ \<Rightarrow> vv_width v)"

definition register_array :: "VcdValue list list \<Rightarrow> nat \<Rightarrow> WaveLists \<Rightarrow> WaveLists" where
  "register_array arrays a wl =
     (if a \<in> set (wl_known wl) then wl
      else \<lparr>wl_known = wl_known wl @ [a],
            wl_pairs = wl_pairs wl @ map (Pair a) [0..first_width (arrays ! a) - 1]\<rparr>)"

text \<open>The pins of all gates in their order: the array and bit of each, if it has one.\<close>

fun prepare_waves :: "VcdValue list list \<Rightarrow> BitKey option list \<Rightarrow> WaveLists \<Rightarrow> (BitKey \<rightharpoonup> int) \<Rightarrow> WaveLists \<times> (BitKey \<rightharpoonup> int)" where
  "prepare_waves arrays [] wl bounds = (wl, bounds)"
| "prepare_waves arrays (None # keys) wl bounds = prepare_waves arrays keys wl bounds"
| "prepare_waves arrays (Some p # keys) wl bounds =
     prepare_waves arrays keys (register_array arrays (fst p) wl) (if bounds p = None then bounds(p \<mapsto> 0) else bounds)"

section \<open>Filling from one thread\<close>

text \<open>The host map of values; a position before the array has no value.\<close>

definition single_event :: "VcdValue list \<Rightarrow> int \<Rightarrow> int \<Rightarrow> power_error + Event" where
  "single_event vals bit_idx pos =
     (if pos < 0 then Inl StateOutOfRange
      else case vv_value_bit (vals ! nat pos) bit_idx of
        None \<Rightarrow> Inl StateOutOfRange
      | Some c \<Rightarrow> (case vcd_value_to_int c of
          None \<Rightarrow> Inl StateOutOfRange
        | Some val \<Rightarrow> Inr \<lparr>ev_time = vv_time (vals ! nat pos), ev_val = val\<rparr>))"

text \<open>Each bit is copied for the first pin that has it, at the end of what is in the buffer.\<close>

definition getWaveform ::
  "int \<Rightarrow> int \<Rightarrow> VcdValue list list \<Rightarrow> int \<Rightarrow> int \<Rightarrow> BitKey option \<Rightarrow> WaveRound \<times> WaveLists \<Rightarrow>
    power_error + WaveRound \<times> WaveLists" where
  "getWaveform max_event_num max_event_time arrays start_time end_time key = (\<lambda>(wr, wl).
     case key of
       None \<Rightarrow> Inr (wr, wl)
     | Some p \<Rightarrow>
         (let wl' = register_array arrays (fst p) wl; vals = arrays ! fst p; is_first = (start_time = 0) in
          if map_of (wr_ranges wr) p \<noteq> None then Inr (wr, wl')
          else case (if is_first then Some 0 else wr_bounds wr p) of
              None \<Rightarrow> Inl StateOutOfRange
            | Some prb \<Rightarrow>
                (let start_idx = (if is_first then 0 else prb - 1);
                     end_idx = (if max_event_time \<le> end_time then int (length vals)
                                else getEventIdxByTime_from vals end_time prb);
                     base = int (length (wr_events wr));
                     n_event_in_range = end_idx - start_idx
                 in if max_event_num < base + n_event_in_range then Inl AssertFailed
                    else res_bind (res_map (single_event vals (snd p)) [start_idx..end_idx - 1]) (\<lambda>events.
                      Inr (\<lparr>wr_events = wr_events wr @ events,
                             wr_ranges = wr_ranges wr @ [(p, base, base + n_event_in_range)],
                             wr_bounds = (wr_bounds wr)(p \<mapsto> end_idx)\<rparr>, wl')))))"

definition getGateWaveformRangeSingleThread ::
  "int \<Rightarrow> int \<Rightarrow> VcdValue list list \<Rightarrow> BitKey option list list \<Rightarrow> WaveLists \<Rightarrow> int \<Rightarrow> int \<Rightarrow> (BitKey \<rightharpoonup> int) \<Rightarrow>
    power_error + WaveRound \<times> WaveLists" where
  "getGateWaveformRangeSingleThread max_event_num max_event_time arrays gates wl start_time end_time bounds =
     res_fold (\<lambda>keys. res_fold (getWaveform max_event_num max_event_time arrays start_time end_time) keys) gates
       (\<lparr>wr_events = [], wr_ranges = [], wr_bounds = bounds\<rparr>, wl)"

section \<open>The rounds of an analysis\<close>

text \<open>
  The first round prepares the lists and copies from several threads; then the list of bits is shuffled. A later
  round copies from several threads during the kernel of the round before, or else from one thread, which keeps the
  lists, since all arrays are known.
\<close>

definition later_fill ::
  "bool \<Rightarrow> int \<Rightarrow> int \<Rightarrow> VcdValue list list \<Rightarrow> BitKey option list list \<Rightarrow> WaveLists \<Rightarrow> int \<Rightarrow> int \<Rightarrow> (BitKey \<rightharpoonup> int) \<Rightarrow>
    power_error + WaveRound" where
  "later_fill overlapping max_event_num max_event_time arrays gates wl start_time end_time bounds =
     (if overlapping
      then getGateWaveformRangeMultiThread max_event_num max_event_time arrays (wl_pairs wl) start_time end_time bounds
      else res_bind (getGateWaveformRangeSingleThread max_event_num max_event_time arrays gates wl start_time end_time bounds)
             (\<lambda>(wr, wl'). Inr wr))"

fun device_rounds ::
  "bool \<Rightarrow> (BitKey list \<Rightarrow> BitKey list) \<Rightarrow> int \<Rightarrow> int \<Rightarrow> VcdValue list list \<Rightarrow> BitKey option list list \<Rightarrow> (int \<times> int) list \<Rightarrow>
    power_error + WaveRound list" where
  "device_rounds overlapping shuffle max_event_num max_event_time arrays gates [] = Inr []"
| "device_rounds overlapping shuffle max_event_num max_event_time arrays gates ((s, e) # ivs) =
     (let (wl, bounds) = prepare_waves arrays (concat gates) \<lparr>wl_known = [], wl_pairs = []\<rparr> Map.empty;
          wl' = wl\<lparr>wl_pairs := shuffle (wl_pairs wl)\<rparr>
      in res_bind (getGateWaveformRangeMultiThread max_event_num max_event_time arrays (wl_pairs wl) s e bounds) (\<lambda>wr.
         res_bind (fill_rounds (later_fill overlapping max_event_num max_event_time arrays gates wl') (wr_bounds wr) ivs) (\<lambda>wrs.
         Inr (wr # wrs))))"

section \<open>The interface of a filling\<close>

text \<open>What a round holds of a waveform: the last change before its interval, then the changes of the interval.\<close>

definition new_events :: "Event list \<Rightarrow> int \<Rightarrow> int \<Rightarrow> Event list" where
  "new_events evs s e = (if 0 < s then [last (filter (\<lambda>ev. ev_time ev < s) evs)] else []) @
     filter (\<lambda>ev. s \<le> ev_time ev \<and> ev_time ev < e) evs"

text \<open>
  A filling gives every pin with a right bound of the round before the events of its range, and moves the bound to the
  end of the range. The lemmas give the slices of a whole run of rounds.
\<close>

locale wave_fill =
  fixes fill :: "int \<Rightarrow> int \<Rightarrow> (BitKey \<rightharpoonup> int) \<Rightarrow> power_error + WaveRound"
    and arrays :: "VcdValue list list" and max_time :: int and pins :: "BitKey set"
  assumes fill_pin: "fill s e bounds = Inr wr \<Longrightarrow> p \<in> pins \<Longrightarrow> bounds p = Some prb \<Longrightarrow> s = 0 \<or> 0 < prb \<Longrightarrow>
    pair_events (arrays ! fst p) (snd p) (pair_range max_time s e (arrays ! fst p) prb) = Inr (pin_slice wr p) \<and>
    wr_bounds wr p = Some (snd (pair_range max_time s e (arrays ! fst p) prb))"
begin

lemma round_slice:
  assumes fill: "fill s e bounds = Inr wr" and p: "p \<in> pins" "bounds p = Some prb"
    and wf: "wave_wf (arrays ! fst p)" "arrays ! fst p \<noteq> []" and late: "\<forall>v \<in> set (arrays ! fst p). vv_time v \<le> max_time"
    and whole: "pair_events (arrays ! fst p) (snd p) (0, int (length (arrays ! fst p))) = Inr evs"
    and se: "0 \<le> s" "s \<le> e" "e < max_time \<or> max_time < e"
    and prb: "0 < s \<longrightarrow> prb = int (n_before vv_time (arrays ! fst p) s)"
  shows "pin_slice wr p = new_events evs s e" "wr_bounds wr p = Some (int (n_before vv_time (arrays ! fst p) e))"
proof -
  define vals where "vals = arrays ! fst p"
  define m where "m = n_before vv_time vals s"
  define n where "n = n_before vv_time vals e"
  have range: "pair_range max_time s e vals prb = (int (m - 1), int n)" and m_pos: "0 < s \<Longrightarrow> 0 < m"
    using round_range [of vals max_time s e prb] wf late se prb by (simp_all add: vals_def m_def n_def)
  have "s = 0 \<or> 0 < prb" using se(1) prb m_pos unfolding m_def vals_def by (cases "s = 0") auto
  note rp = fill_pin [OF fill p this, folded vals_def, unfolded range]
  show "wr_bounds wr p = Some (int (n_before vv_time (arrays ! fst p) e))" using rp by (simp add: n_def vals_def)
  have times: "map ev_time evs = map vv_time vals" using pair_events_times [OF whole] by (simp add: vals_def)
  have sorted: "sorted_wrt (<) (map ev_time evs)" using wf(1) by (simp add: times wave_wf_def vals_def)
  have mn: "m = n_before ev_time evs s" "n = n_before ev_time evs e" "m \<le> n" "n \<le> length vals" "length evs = length vals"
    using n_before_map [OF times] n_before_mono [OF se(2)] n_before_le arg_cong [OF times, of length] by (simp_all add: m_def n_def)
  have slice: "pin_slice wr p = take (n - (m - 1)) (drop (m - 1) evs)"
    using pair_events_part [of vals "snd p" "m - 1" n] rp whole mn(3,4) by (simp add: vals_def)
  have window: "take (n - m) (drop m evs) = filter (\<lambda>ev. s \<le> ev_time ev \<and> ev_time ev < e) evs"
    using window_filter [OF sorted se(2)] by (simp add: mn)
  show "pin_slice wr p = new_events evs s e"
  proof (cases "0 < s")
    case True
    have m: "0 < m" "m \<le> length evs" using m_pos [OF True] mn by auto
    have "filter (\<lambda>ev. ev_time ev < s) evs = take m evs"
      unfolding mn(1) by (rule filter_before [OF sorted])
    moreover have "last (take m evs) = evs ! (m - 1)" using m by (cases m) (simp_all add: take_Suc_conv_app_nth)
    ultimately have "last (filter (\<lambda>ev. ev_time ev < s) evs) = evs ! (m - 1)" by simp
    moreover have "take (n - (m - 1)) (drop (m - 1) evs) = evs ! (m - 1) # take (n - m) (drop m evs)"
      using m mn by (cases m) (simp_all add: Cons_nth_drop_Suc [symmetric] Suc_diff_le)
    ultimately show ?thesis using True window slice by (simp add: new_events_def)
  next
    case False
    then have "s = 0" using se(1) by simp
    then have "m = 0" using n_before_start [OF wf(1)] by (simp add: m_def vals_def)
    then show ?thesis using False window slice by (simp add: new_events_def)
  qed
qed

lemma rounds_slices:
  assumes p: "p \<in> pins" and wf: "wave_wf (arrays ! fst p)" "arrays ! fst p \<noteq> []"
    and late: "\<forall>v \<in> set (arrays ! fst p). vv_time v \<le> max_time"
    and whole: "pair_events (arrays ! fst p) (snd p) (0, int (length (arrays ! fst p))) = Inr evs"
  shows "fill_rounds fill bounds ivs = Inr wrs \<Longrightarrow> rounds_from max_time t ivs \<Longrightarrow> 0 \<le> t \<Longrightarrow>
    bounds p \<noteq> None \<Longrightarrow> (0 < t \<longrightarrow> bounds p = Some (int (n_before vv_time (arrays ! fst p) t))) \<Longrightarrow>
    length wrs = length ivs \<and> (\<forall>k < length ivs. pin_slice (wrs ! k) p = new_events evs (fst (ivs ! k)) (snd (ivs ! k)))"
proof (induction ivs arbitrary: t bounds wrs)
  case (Cons iv ivs)
  obtain s e where iv: "iv = (s, e)" by fastforce
  obtain wr wrs' where wr: "fill s e bounds = Inr wr" and rest: "fill_rounds fill (wr_bounds wr) ivs = Inr wrs'"
      and wrs: "wrs = wr # wrs'"
    using Cons.prems(1) by (auto simp: iv)
  have se: "s = t" "s \<le> e" "e < max_time \<or> max_time < e" and next_rounds: "ivs \<noteq> [] \<Longrightarrow> 0 < e \<and> rounds_from max_time e ivs"
    using Cons.prems(2) iv by (cases ivs; auto)+
  obtain prb where prb: "bounds p = Some prb" using Cons.prems(4) by blast
  have here: "pin_slice wr p = new_events evs s e" "wr_bounds wr p = Some (int (n_before vv_time (arrays ! fst p) e))"
    using round_slice [OF wr p prb wf late whole] se Cons.prems(3,5) prb by auto
  have "length wrs' = length ivs \<and> (\<forall>k < length ivs. pin_slice (wrs' ! k) p = new_events evs (fst (ivs ! k)) (snd (ivs ! k)))"
  proof (cases "ivs = []")
    case True
    then show ?thesis using rest by simp
  next
    case False
    have e: "rounds_from max_time e ivs" "0 \<le> e" using next_rounds [OF False] by auto
    show ?thesis by (rule Cons.IH [OF rest e]) (use here(2) in simp_all)
  qed
  then show ?case using here(1) by (auto simp: wrs iv less_Suc_eq_0_disj)
qed simp

end

text \<open>The filling from several threads.\<close>

interpretation mtf: wave_fill "getGateWaveformRangeMultiThread max_event_num max_time arrays pairs" arrays max_time "set pairs"
  for max_event_num max_time arrays pairs
  using round_pin by unfold_locales blast

section \<open>Lemmas: filling from one thread\<close>

lemma single_event_pair: "single_event vals b pos = Inr ev \<Longrightarrow> pair_event vals b pos = Inr ev"
  using value_maps_agree by (auto simp: single_event_def pair_event_def split: option.splits if_splits)

lemma single_events_pair:
  "res_map (single_event vals b) [x..y - 1] = Inr evs \<Longrightarrow> pair_events vals b (x, y) = Inr evs"
proof -
  have "res_map (single_event vals b) ps = Inr evs \<Longrightarrow> res_map (pair_event vals b) ps = Inr evs" for ps
    by (induction ps arbitrary: evs) (auto dest!: single_event_pair)
  then show "res_map (single_event vals b) [x..y - 1] = Inr evs \<Longrightarrow> pair_events vals b (x, y) = Inr evs"
    by (simp add: pair_events_def)
qed

text \<open>A bit is not copied yet, or it has its range with its events.\<close>

definition pin_copied :: "VcdValue list list \<Rightarrow> BitKey \<Rightarrow> int \<times> int \<Rightarrow> WaveRound \<Rightarrow> bool" where
  "pin_copied arrays p r wr \<longleftrightarrow> (\<exists>a b. map_of (wr_ranges wr) p = Some (a, b) \<and> 0 \<le> a \<and> b \<le> int (length (wr_events wr)) \<and>
     pair_events (arrays ! fst p) (snd p) r = Inr (take (nat (b - a)) (drop (nat a) (wr_events wr))) \<and>
     wr_bounds wr p = Some (snd r))"

definition pin_pending :: "BitKey \<Rightarrow> int \<Rightarrow> WaveRound \<Rightarrow> bool" where
  "pin_pending p prb wr \<longleftrightarrow> map_of (wr_ranges wr) p = None \<and> wr_bounds wr p = Some prb"

lemma pin_copied_slice:
  "pin_copied arrays p r wr \<Longrightarrow> pair_events (arrays ! fst p) (snd p) r = Inr (pin_slice wr p) \<and> wr_bounds wr p = Some (snd r)"
  by (auto simp: pin_copied_def pin_slice_def pin_range_def)

text \<open>What one pin adds: nothing, or a range for a bit that has none.\<close>

lemma getWaveform_cases:
  assumes "getWaveform M T arrays s e key (wr, wl) = Inr (wr', wl')"
  obtains "wr' = wr" "\<And>p. key = Some p \<Longrightarrow> map_of (wr_ranges wr) p \<noteq> None"
  | p prb events x y where "key = Some p" "map_of (wr_ranges wr) p = None" "s = 0 \<or> wr_bounds wr p = Some prb"
      "x = (if s = 0 then 0 else prb - 1)"
      "y = (if T \<le> e then int (length (arrays ! fst p)) else getEventIdxByTime_from (arrays ! fst p) e (if s = 0 then 0 else prb))"
      "pair_events (arrays ! fst p) (snd p) (x, y) = Inr events" "nat (y - x) = length events"
      "wr' = \<lparr>wr_events = wr_events wr @ events,
        wr_ranges = wr_ranges wr @ [(p, int (length (wr_events wr)), int (length (wr_events wr)) + (y - x))],
        wr_bounds = (wr_bounds wr)(p \<mapsto> y)\<rparr>"
proof (cases "\<exists>p. key = Some p \<and> map_of (wr_ranges wr) p = None")
  case False
  then show thesis using assms that(1) by (auto simp: getWaveform_def Let_def split: option.splits)
next
  case True
  then obtain p where p: "key = Some p" "map_of (wr_ranges wr) p = None" by blast
  define vals where "vals = arrays ! fst p"
  obtain prb where prb: "(if s = 0 then Some 0 else wr_bounds wr p) = Some prb"
    using assms p by (auto simp: getWaveform_def Let_def split: option.splits)
  define x where "x = (if s = 0 then 0 else prb - 1)"
  define y where "y = (if T \<le> e then int (length vals) else getEventIdxByTime_from vals e prb)"
  obtain events where events: "res_map (single_event vals (snd p)) [x..y - 1] = Inr events"
      and wr': "wr' = \<lparr>wr_events = wr_events wr @ events,
        wr_ranges = wr_ranges wr @ [(p, int (length (wr_events wr)), int (length (wr_events wr)) + (y - x))],
        wr_bounds = (wr_bounds wr)(p \<mapsto> y)\<rparr>"
    using assms p prb by (auto simp: getWaveform_def Let_def x_def y_def vals_def split: if_splits)
  have "length events = nat (y - x)" using res_map_length [OF events] by simp
  then show thesis
    using that(2) [OF p _ x_def _ single_events_pair [OF events, unfolded vals_def]] prb wr'
    by (cases "s = 0") (auto simp: y_def vals_def)
qed

lemma getWaveform_keeps:
  assumes "getWaveform M T arrays s e key (wr, wl) = Inr (wr', wl')" and copied: "pin_copied arrays p r wr"
  shows "pin_copied arrays p r wr'"
proof (rule getWaveform_cases [OF assms(1)])
  show ?thesis if "wr' = wr" using that copied by simp
next
  fix q prb events x y
  assume q: "map_of (wr_ranges wr) q = None"
    and wr': "wr' = \<lparr>wr_events = wr_events wr @ events,
        wr_ranges = wr_ranges wr @ [(q, int (length (wr_events wr)), int (length (wr_events wr)) + (y - x))],
        wr_bounds = (wr_bounds wr)(q \<mapsto> y)\<rparr>"
  obtain a b where ab: "map_of (wr_ranges wr) p = Some (a, b)" "0 \<le> a" "b \<le> int (length (wr_events wr))"
      "pair_events (arrays ! fst p) (snd p) r = Inr (take (nat (b - a)) (drop (nat a) (wr_events wr)))"
      "wr_bounds wr p = Some (snd r)" using copied by (auto simp: pin_copied_def)
  have "p \<noteq> q" using q ab(1) by auto
  moreover have "take (nat (b - a)) (drop (nat a) (wr_events wr @ events)) = take (nat (b - a)) (drop (nat a) (wr_events wr))"
    using ab(2,3) by (cases "a \<le> b") auto
  ultimately show ?thesis using ab q by (auto simp: pin_copied_def wr' map_add_def split: option.splits)
qed

lemma getWaveform_copies:
  assumes "getWaveform M T arrays s e key (wr, wl) = Inr (wr', wl')" and pending: "pin_pending p prb wr"
    and prb: "s = 0 \<or> 0 < prb"
  shows "if key = Some p then pin_copied arrays p (pair_range T s e (arrays ! fst p) prb) wr' else pin_pending p prb wr'"
proof (rule getWaveform_cases [OF assms(1)])
  show ?thesis if "wr' = wr" "\<And>q. key = Some q \<Longrightarrow> map_of (wr_ranges wr) q \<noteq> None"
  proof -
    have "key \<noteq> Some p"
    proof
      assume "key = Some p"
      from that(2) [OF this] show False using pending by (simp add: pin_pending_def)
    qed
    then show ?thesis using that(1) pending by simp
  qed
next
  fix q prb' events x y
  assume key: "key = Some q" "map_of (wr_ranges wr) q = None" "s = 0 \<or> wr_bounds wr q = Some prb'"
    and x: "x = (if s = 0 then 0 else prb' - 1)"
    and y: "y = (if T \<le> e then int (length (arrays ! fst q)) else getEventIdxByTime_from (arrays ! fst q) e (if s = 0 then 0 else prb'))"
    and events: "pair_events (arrays ! fst q) (snd q) (x, y) = Inr events" "nat (y - x) = length events"
    and wr': "wr' = \<lparr>wr_events = wr_events wr @ events,
        wr_ranges = wr_ranges wr @ [(q, int (length (wr_events wr)), int (length (wr_events wr)) + (y - x))],
        wr_bounds = (wr_bounds wr)(q \<mapsto> y)\<rparr>"
  show ?thesis
  proof (cases "q = p")
    case True
    have "pair_range T s e (arrays ! fst p) prb = (x, y)"
      using key(3) pending prb by (auto simp: True x y pair_range_def Let_def pin_pending_def)
    then show ?thesis
      using key events True by (auto simp: pin_copied_def wr' map_add_def)
  next
    case False
    then show ?thesis using key pending by (auto simp: pin_pending_def wr' map_add_def)
  qed
qed

lemma single_thread_pins:
  assumes prb: "s = 0 \<or> 0 < prb"
  shows "res_fold (getWaveform M T arrays s e) keys wrl = Inr wrl' \<Longrightarrow>
    (pin_copied arrays p (pair_range T s e (arrays ! fst p) prb) (fst wrl) \<longrightarrow>
      pin_copied arrays p (pair_range T s e (arrays ! fst p) prb) (fst wrl')) \<and>
    (pin_pending p prb (fst wrl) \<longrightarrow>
      (if Some p \<in> set keys then pin_copied arrays p (pair_range T s e (arrays ! fst p) prb) (fst wrl') else pin_pending p prb (fst wrl')))"
proof (induction keys arbitrary: wrl)
  case (Cons key keys)
  obtain wr wl where wrl: "wrl = (wr, wl)" by fastforce
  obtain wr1 wl1 where step: "getWaveform M T arrays s e key (wr, wl) = Inr (wr1, wl1)"
      and rest: "res_fold (getWaveform M T arrays s e) keys (wr1, wl1) = Inr wrl'"
    using Cons.prems by (auto simp: wrl)
  show ?case
    using Cons.IH [OF rest] getWaveform_keeps [OF step, of p] getWaveform_copies [OF step _ prb, of p]
    by (auto simp: wrl split: if_splits)
qed simp

lemma res_fold_concat: "res_fold (res_fold f) xss s = res_fold f (concat xss) s"
proof (induction xss arbitrary: s)
  case (Cons xs xss)
  then have "res_fold (res_fold f) xss = res_fold f (concat xss)" by (rule ext)
  then show ?case by (simp add: res_fold_append)
qed simp

text \<open>The filling from one thread meets the interface.\<close>

interpretation stf: wave_fill "\<lambda>s e bounds. res_bind (getGateWaveformRangeSingleThread max_event_num max_time arrays gates wl s e bounds)
    (\<lambda>(wr, wl'). Inr wr)" arrays max_time "{p. Some p \<in> set (concat gates)}"
  for max_event_num max_time arrays gates wl
proof
  fix s e bounds wr p prb
  assume run: "res_bind (getGateWaveformRangeSingleThread max_event_num max_time arrays gates wl s e bounds) (\<lambda>(wr, wl'). Inr wr) = Inr wr"
    and p: "p \<in> {p. Some p \<in> set (concat gates)}" "bounds p = Some prb" and prb: "s = 0 \<or> 0 < prb"
  obtain wl' where "getGateWaveformRangeSingleThread max_event_num max_time arrays gates wl s e bounds = Inr (wr, wl')"
    using run by auto
  then have fold: "res_fold (getWaveform max_event_num max_time arrays s e) (concat gates)
      (\<lparr>wr_events = [], wr_ranges = [], wr_bounds = bounds\<rparr>, wl) = Inr (wr, wl')"
    unfolding getGateWaveformRangeSingleThread_def res_fold_concat .
  have "pin_pending p prb \<lparr>wr_events = [], wr_ranges = [], wr_bounds = bounds\<rparr>" using p(2) by (simp add: pin_pending_def)
  then have "pin_copied arrays p (pair_range max_time s e (arrays ! fst p) prb) wr"
    using single_thread_pins [OF prb fold, of p] p(1) by simp
  then show "pair_events (arrays ! fst p) (snd p) (pair_range max_time s e (arrays ! fst p) prb) = Inr (pin_slice wr p) \<and>
      wr_bounds wr p = Some (snd (pair_range max_time s e (arrays ! fst p) prb))"
    by (rule pin_copied_slice)
qed

section \<open>Lemmas: the lists of the first round\<close>

text \<open>Every bit of a pin has a bound, and it is in the list if the first value of its array has it.\<close>

lemma register_array_pairs:
  "(a, b) \<in> set (wl_pairs (register_array arrays a' wl)) \<longleftrightarrow>
    (a, b) \<in> set (wl_pairs wl) \<or> a = a' \<and> a \<notin> set (wl_known wl) \<and> 0 \<le> b \<and> b < first_width (arrays ! a)"
  "set (wl_known (register_array arrays a' wl)) = insert a' (set (wl_known wl))"
  by (auto simp: register_array_def)

definition lists_ok :: "VcdValue list list \<Rightarrow> WaveLists \<Rightarrow> bool" where
  "lists_ok arrays wl \<longleftrightarrow> distinct (wl_pairs wl) \<and>
     (\<forall>a b. (a, b) \<in> set (wl_pairs wl) \<longleftrightarrow> a \<in> set (wl_known wl) \<and> 0 \<le> b \<and> b < first_width (arrays ! a))"

lemma register_array_ok: "lists_ok arrays wl \<Longrightarrow> lists_ok arrays (register_array arrays a wl)"
  unfolding lists_ok_def register_array_pairs
  by (auto simp: register_array_def distinct_map inj_on_def)

lemma prepare_waves_spec:
  "prepare_waves arrays keys wl bounds = (wl', bounds') \<Longrightarrow> lists_ok arrays wl \<Longrightarrow>
    lists_ok arrays wl' \<and> set (wl_known wl') = set (wl_known wl) \<union> {a. \<exists>b. Some (a, b) \<in> set keys} \<and>
    (\<forall>p. bounds' p = (if bounds p = None \<and> Some p \<in> set keys then Some 0 else bounds p))"
proof (induction arrays keys wl bounds arbitrary: wl' bounds' rule: prepare_waves.induct)
  case (3 arrays p keys wl bounds)
  show ?case
  proof -
    define b1 where "b1 = (if bounds p = None then bounds(p \<mapsto> 0) else bounds)"
    have b1: "b1 q = (if bounds q = None \<and> q = p then Some 0 else bounds q)" for q by (simp add: b1_def)
    have "prepare_waves arrays keys (register_array arrays (fst p) wl) b1 = (wl', bounds')" using 3(2) by (simp add: b1_def)
    then have "lists_ok arrays wl' \<and>
        set (wl_known wl') = set (wl_known (register_array arrays (fst p) wl)) \<union> {a. \<exists>b. Some (a, b) \<in> set keys} \<and>
        (\<forall>q. bounds' q = (if b1 q = None \<and> Some q \<in> set keys then Some 0 else b1 q))"
      using 3(1) register_array_ok [OF 3(3)] unfolding b1_def by blast
    then show ?thesis unfolding register_array_pairs(2) b1 by (cases p) auto
  qed
qed auto

section \<open>Lemmas: the rounds of a waveform\<close>

text \<open>A waveform over all rounds, from the interface and the lists.\<close>

lemma device_rounds_pin:
  assumes rounds: "device_rounds overlapping shuffle max_event_num max_time arrays gates ivs = Inr wrs"
    and shuffle: "\<forall>ps. set (shuffle ps) = set ps" and ivs: "rounds_from max_time 0 ivs"
    and p: "Some p \<in> set (concat gates)" "0 \<le> snd p" "snd p < first_width (arrays ! fst p)"
    and wf: "wave_wf (arrays ! fst p)" "\<forall>v \<in> set (arrays ! fst p). vv_time v \<le> max_time"
    and whole: "pair_events (arrays ! fst p) (snd p) (0, int (length (arrays ! fst p))) = Inr evs"
  shows "length wrs = length ivs \<and> (\<forall>k < length ivs. pin_slice (wrs ! k) p = new_events evs (fst (ivs ! k)) (snd (ivs ! k)))"
proof -
  obtain e ivs' where ivs': "ivs = (0, e) # ivs'" "0 \<le> e" "e < max_time \<or> max_time < e"
      and next_rounds: "ivs' \<noteq> [] \<Longrightarrow> rounds_from max_time e ivs'"
    using ivs by (cases "(max_time, 0 :: int, ivs)" rule: rounds_from.cases) auto
  obtain wl bounds where prepared: "prepare_waves arrays (concat gates) \<lparr>wl_known = [], wl_pairs = []\<rparr> Map.empty = (wl, bounds)"
    by fastforce
  define wl' where "wl' = wl\<lparr>wl_pairs := shuffle (wl_pairs wl)\<rparr>"
  obtain wr wrs' where wr: "getGateWaveformRangeMultiThread max_event_num max_time arrays (wl_pairs wl) 0 e bounds = Inr wr"
      and rest: "fill_rounds (later_fill overlapping max_event_num max_time arrays gates wl') (wr_bounds wr) ivs' = Inr wrs'"
      and wrs: "wrs = wr # wrs'"
    using rounds prepared by (auto simp: ivs'(1) wl'_def)
  have "lists_ok arrays \<lparr>wl_known = [], wl_pairs = []\<rparr>" by (simp add: lists_ok_def)
  note lists = prepare_waves_spec [OF prepared this]
  then have b: "bounds p = Some 0" using p(1) by (cases p) simp
  have "fst p \<in> set (wl_known wl)" using lists p(1) by (cases p) auto
  then have pw: "p \<in> set (wl_pairs wl)" using lists p(2,3) by (cases p) (simp add: lists_ok_def)
  then have pw': "p \<in> set (wl_pairs wl')" using shuffle by (simp add: wl'_def)
  have ne: "arrays ! fst p \<noteq> []" using p(2,3) by (auto simp: first_width_def)
  have first: "pin_slice wr p = new_events evs 0 e" "wr_bounds wr p = Some (int (n_before vv_time (arrays ! fst p) e))"
    using mtf.round_slice [OF wr pw b wf(1) ne wf(2) whole] ivs'(2,3) by simp_all
  have fill: "later_fill True max_event_num max_time arrays gates wl' =
      getGateWaveformRangeMultiThread max_event_num max_time arrays (wl_pairs wl')"
    "later_fill False max_event_num max_time arrays gates wl' =
      (\<lambda>s e bounds. res_bind (getGateWaveformRangeSingleThread max_event_num max_time arrays gates wl' s e bounds) (\<lambda>(wr, wl'). Inr wr))"
    by (intro ext; simp add: later_fill_def)+
  have "length wrs' = length ivs' \<and> (\<forall>k < length ivs'. pin_slice (wrs' ! k) p = new_events evs (fst (ivs' ! k)) (snd (ivs' ! k)))"
  proof (cases "ivs' = []")
    case True
    then show ?thesis using rest by simp
  next
    case False
    have start: "0 < e \<longrightarrow> wr_bounds wr p = Some (int (n_before vv_time (arrays ! fst p) e))" "wr_bounds wr p \<noteq> None"
      using first(2) by simp_all
    show ?thesis
    proof (cases overlapping)
      case True
      have run: "analysis_rounds max_event_num max_time arrays (wl_pairs wl') (wr_bounds wr) ivs' = Inr wrs'"
        using rest True unfolding fill(1) [symmetric] by simp
      show ?thesis
        by (rule mtf.rounds_slices [OF pw' wf(1) ne wf(2) whole run next_rounds [OF False] ivs'(2) start(2,1)])
    next
      case single: False
      have pin: "p \<in> {p. Some p \<in> set (concat gates)}" using p(1) by (rule CollectI)
      have run: "fill_rounds (\<lambda>s e bounds. res_bind (getGateWaveformRangeSingleThread max_event_num max_time arrays gates wl' s e bounds)
          (\<lambda>(wr, wl'). Inr wr)) (wr_bounds wr) ivs' = Inr wrs'"
        using rest single unfolding fill(2) [symmetric] by simp
      show ?thesis
        by (rule stf.rounds_slices [OF pin wf(1) ne wf(2) whole run next_rounds [OF False] ivs'(2) start(2,1)])
    qed
  qed
  then show ?thesis using first(1) by (auto simp: wrs ivs'(1) less_Suc_eq_0_disj)
qed

section \<open>Properties: the rounds of a waveform\<close>

text \<open>C21: In an analysis of several rounds every change of a waveform is new in exactly one round, whether the later
  rounds fill the buffer from one thread or from several and however the list of bits was shuffled: in each round the
  buffer range of a pin holds the last change before the interval, which gives the state at its start and which the
  kernels take as the initial condition, and then exactly the changes of the interval in their order. The pin must be
  a bit of the first value of its array.\<close>

theorem device_rounds_slices:
  assumes rounds: "device_rounds overlapping shuffle max_event_num max_time arrays gates ivs = Inr wrs"
    and shuffle: "\<forall>ps. set (shuffle ps) = set ps" and ivs: "rounds_from max_time 0 ivs"
    and p: "Some p \<in> set (concat gates)" "0 \<le> snd p" "snd p < first_width (arrays ! fst p)"
    and wf: "wave_wf (arrays ! fst p)" "\<forall>v \<in> set (arrays ! fst p). vv_time v \<le> max_time"
    and whole: "pair_events (arrays ! fst p) (snd p) (0, int (length (arrays ! fst p))) = Inr evs"
  shows "length wrs = length ivs \<and> (\<forall>k < length ivs. pin_slice (wrs ! k) p = new_events evs (fst (ivs ! k)) (snd (ivs ! k)))"
  by (rule device_rounds_pin [OF assms])

theorem device_rounds_slices_witness:
  "\<exists>wrs. device_rounds False rev 2 10 [wave_vals] [[Some (0, 0)], [None, Some (0, 0)]] [(0, 4), (4, 8), (8, 13)] = Inr wrs \<and>
     map (\<lambda>wr. map ev_time (pin_slice wr (0, 0))) wrs = [[0], [0, 5], [5, 9]]"
proof -
  define r where "r = device_rounds False rev 2 10 [wave_vals] [[Some (0, 0)], [None, Some (0, 0)]] [(0, 4), (4, 8), (8, 13)]"
  have "case r of Inl _ \<Rightarrow> False | Inr _ \<Rightarrow> True" unfolding r_def by code_simp
  then obtain wrs where wrs: "r = Inr wrs" by (auto split: sum.splits)
  define w where "w = pair_events wave_vals 0 (0, 3)"
  have "w = Inr [\<lparr>ev_time = 0, ev_val = 0\<rparr>, \<lparr>ev_time = 5, ev_val = 1\<rparr>, \<lparr>ev_time = 9, ev_val = 0\<rparr>]"
    unfolding w_def by code_simp
  then have whole: "pair_events ([wave_vals] ! fst (0, 0)) (snd (0, 0)) (0, int (length ([wave_vals] ! fst (0, 0)))) =
      Inr [\<lparr>ev_time = 0, ev_val = 0\<rparr>, \<lparr>ev_time = 5, ev_val = 1\<rparr>, \<lparr>ev_time = 9, ev_val = 0\<rparr>]"
    by (simp add: w_def wave_vals_def)
  have wf: "Some (0, 0) \<in> set (concat [[Some (0, 0)], [None, Some (0, 0)]])" "0 \<le> snd (0 :: nat, 0 :: int)"
      "snd (0, 0) < first_width ([wave_vals] ! fst (0, 0))" "wave_wf ([wave_vals] ! fst (0, 0))"
      "\<forall>v \<in> set ([wave_vals] ! fst (0, 0)). vv_time v \<le> 10"
    by (simp_all add: wave_vals_def wave_wf_def first_width_def)
  have ivs: "\<forall>ps :: BitKey list. set (rev ps) = set ps" "rounds_from 10 0 [(0, 4), (4, 8), (8, 13)]" by simp_all
  note slices = device_rounds_slices [OF wrs [unfolded r_def] ivs wf whole]
  have "length wrs = 3" using slices by simp
  then obtain w0 w1 w2 where ws: "wrs = [w0, w1, w2]" by (auto simp: length_Suc_conv numeral_3_eq_3)
  note at = slices [THEN conjunct2, THEN spec, THEN mp, unfolded ws]
  have "map ev_time (pin_slice w0 (0, 0)) = [0]" "map ev_time (pin_slice w1 (0, 0)) = [0, 5]"
      "map ev_time (pin_slice w2 (0, 0)) = [5, 9]"
    using at [of 0] at [of 1] at [of 2] by (simp_all add: new_events_def)
  then have "map (\<lambda>wr. map ev_time (pin_slice wr (0, 0))) wrs = [[0], [0, 5], [5, 9]]" by (simp add: ws)
  then show ?thesis using wrs [unfolded r_def] by (intro exI [of _ wrs] conjI)
qed

text \<open>A bit that the first value of its array lacks is in no list, so the filling from several threads gives it no range.\<close>

definition scalar_first :: "VcdValue list" where
  "scalar_first = [\<lparr>vv_time = 0, vv_value = CHR ''X'', vv_bus = 0, vv_width = 1\<rparr>,
    \<lparr>vv_time = 5, vv_value = null_char, vv_bus = 3, vv_width = 2\<rparr>]"

lemma wide_bit_dropped:
  "fst (prepare_waves [scalar_first] [Some (0, 1)] \<lparr>wl_known = [], wl_pairs = []\<rparr> Map.empty) = \<lparr>wl_known = [0], wl_pairs = [(0, 0)]\<rparr>"
  by (simp add: register_array_def first_width_def scalar_first_def)

end
