(* ===== verification/GTP_Workload.thy ===== *)
theory GTP_Workload
  imports GTP_CudaFill
begin

text \<open>
  The workload of a time-based analysis that the host reports before it starts
  (\<open>Power::reportResolvedTimeBasedPowerAnalysisWorkload\<close> of \<open>power/Power.cc\<close>): events, cycles and activity of the pins
  with a waveform, over the simulation and over the intervals of the waveform file. Its counts promise to be those of
  the event buffer of the device.
\<close>

section \<open>Cycles of an interval\<close>

definition n_cycle_in_range :: "real \<Rightarrow> real \<Rightarrow> int \<Rightarrow> int \<Rightarrow> int \<Rightarrow> real" where
  "n_cycle_in_range clk_period time_scale time_max start_time end_time =
     (if clk_period \<le> 0 \<or> end_time \<le> start_time then 0
      else let clamped_start = min (if start_time < 0 then 0 else start_time) time_max;
               clamped_end = min (if end_time < 0 then 0 else end_time) time_max
           in if clamped_end \<le> clamped_start then 0
              else of_int (clamped_end - clamped_start) * time_scale / clk_period)"

section \<open>Uses of the waveforms\<close>

record WaveformActivityUse =
  wu_n_event :: int
  wu_n_pin :: int
  wu_n_non_clock_pin :: int

text \<open>
  The uses of each bit of an array, in the order of the first use; the code keeps them in hash tables, whose order
  does not matter for the sums. A pin is the bit that it has, if any, and whether its port is a clock.
\<close>

definition use_pin :: "int \<Rightarrow> bool \<Rightarrow> WaveformActivityUse \<Rightarrow> WaveformActivityUse" where
  "use_pin n_event is_clock u =
     \<lparr>wu_n_event = n_event, wu_n_pin = wu_n_pin u + 1,
      wu_n_non_clock_pin = (if is_clock then wu_n_non_clock_pin u else wu_n_non_clock_pin u + 1)\<rparr>"

fun add_use :: "int \<Rightarrow> bool \<Rightarrow> BitKey \<Rightarrow> (BitKey \<times> WaveformActivityUse) list \<Rightarrow> (BitKey \<times> WaveformActivityUse) list" where
  "add_use n_event is_clock p [] = [(p, use_pin n_event is_clock \<lparr>wu_n_event = 0, wu_n_pin = 0, wu_n_non_clock_pin = 0\<rparr>)]"
| "add_use n_event is_clock p ((q, u) # uses) =
     (if q = p then (q, use_pin n_event is_clock u) # uses else (q, u) # add_use n_event is_clock p uses)"

fun collect_uses ::
  "VcdValue list list \<Rightarrow> (BitKey option \<times> bool) list \<Rightarrow> (BitKey \<times> WaveformActivityUse) list \<Rightarrow>
    (BitKey \<times> WaveformActivityUse) list" where
  "collect_uses arrays [] uses = uses"
| "collect_uses arrays ((None, is_clock) # pins) uses = collect_uses arrays pins uses"
| "collect_uses arrays ((Some p, is_clock) # pins) uses =
     collect_uses arrays pins (add_use (int (length (arrays ! fst p))) is_clock p uses)"

section \<open>Events of the intervals\<close>

definition event_index_at_or_after :: "VcdValue list \<Rightarrow> int \<Rightarrow> int \<Rightarrow> int \<Rightarrow> int" where
  "event_index_at_or_after vals n_event time left = (if n_event \<le> left then n_event else getEventIdxByTime_from vals time left)"

text \<open>The events of one bit in each interval, with the one before it in all but the first.\<close>

fun use_intervals :: "int \<Rightarrow> VcdValue list \<Rightarrow> int \<Rightarrow> bool \<Rightarrow> int \<Rightarrow> (int \<times> int) list \<Rightarrow> int list" where
  "use_intervals time_max vals n_event is_first prev_right_bound [] = []"
| "use_intervals time_max vals n_event is_first prev_right_bound ((s, e) # ivs) =
     (let start_idx = (if is_first then 0 else if 0 < prev_right_bound then prev_right_bound - 1 else 0);
          end_idx = (if time_max \<le> e then n_event
                     else event_index_at_or_after vals n_event e (if is_first then 0 else prev_right_bound))
      in (if start_idx \<le> end_idx then end_idx - start_idx else 0) # use_intervals time_max vals n_event False end_idx ivs)"

text \<open>The sums of the intervals over all bits, weighted by how many pins have the bit.\<close>

fun interval_events ::
  "(WaveformActivityUse \<Rightarrow> int) \<Rightarrow> int \<Rightarrow> VcdValue list list \<Rightarrow> (int \<times> int) list \<Rightarrow> (BitKey \<times> WaveformActivityUse) list \<Rightarrow>
    real list \<Rightarrow> real list" where
  "interval_events weight time_max arrays ivs [] acc = acc"
| "interval_events weight time_max arrays ivs ((p, u) # uses) acc =
     interval_events weight time_max arrays ivs uses
       (map2 (\<lambda>a n. a + of_int n * of_int (weight u)) acc (use_intervals time_max (arrays ! fst p) (wu_n_event u) True 0 ivs))"

definition total_events ::
  "(WaveformActivityUse \<Rightarrow> int) \<Rightarrow> int \<Rightarrow> VcdValue list list \<Rightarrow> (int \<times> int) list \<Rightarrow> (BitKey \<times> WaveformActivityUse) list \<Rightarrow> real" where
  "total_events weight time_max arrays ivs uses =
     sum_list (map (\<lambda>(p, u).
       if ivs = [] then of_int (wu_n_event u) * of_int (weight u)
       else sum_list (map (\<lambda>n. of_int n * of_int (weight u))
              (use_intervals time_max (arrays ! fst p) (wu_n_event u) True 0 ivs))) uses)"

section \<open>The report\<close>

record ResolvedWorkload =
  rw_n_pin :: int
  rw_n_non_clock_pin :: int
  rw_n_event :: real
  rw_n_non_clock_event :: real
  rw_n_cycle :: real
  rw_activity_factor :: real
  rw_non_clock_activity_factor :: real
  rw_interval_n_cycles :: "real list"
  rw_interval_n_event :: "real list"
  rw_non_clock_interval_n_event :: "real list"
  rw_interval_factors :: "real list"
  rw_non_clock_interval_factors :: "real list"

text \<open>Pins without a waveform, or no cycles, give no activity.\<close>

definition activity_factor :: "real \<Rightarrow> int \<Rightarrow> real \<Rightarrow> real" where
  "activity_factor n_event n_pin n_cycle = (if n_pin \<noteq> 0 \<and> 0 < n_cycle then n_event / (of_int n_pin * n_cycle) else 0)"

definition resolvedWorkload ::
  "real \<Rightarrow> Vcd \<Rightarrow> VcdValue list list \<Rightarrow> (BitKey option \<times> bool) list \<Rightarrow> ResolvedWorkload" where
  "resolvedWorkload clk_period v arrays pins =
     (let ivs = vcd_time_intervals v; time_max = vcd_time_max v; scale = vcd_time_scale v;
          n_pin = int (length (filter (\<lambda>(key, _). key \<noteq> None) pins));
          n_non_clock_pin = int (length (filter (\<lambda>(key, is_clock). key \<noteq> None \<and> \<not> is_clock) pins));
          uses = collect_uses arrays pins [];
          cycles = map (\<lambda>(s, e). n_cycle_in_range clk_period scale time_max s e) ivs;
          n_cycle = (if ivs = [] then (if 0 < clk_period then of_int time_max * scale / clk_period else 0) else sum_list cycles);
          zeros = replicate (length ivs) 0;
          events = interval_events wu_n_pin time_max arrays ivs uses zeros;
          non_clock = interval_events wu_n_non_clock_pin time_max arrays ivs uses zeros;
          n_event = total_events wu_n_pin time_max arrays ivs uses;
          n_non_clock_event = total_events wu_n_non_clock_pin time_max arrays ivs uses
      in \<lparr>rw_n_pin = n_pin, rw_n_non_clock_pin = n_non_clock_pin,
          rw_n_event = n_event, rw_n_non_clock_event = n_non_clock_event, rw_n_cycle = n_cycle,
          rw_activity_factor = activity_factor n_event n_pin n_cycle,
          rw_non_clock_activity_factor = activity_factor n_non_clock_event n_non_clock_pin n_cycle,
          rw_interval_n_cycles = cycles, rw_interval_n_event = events, rw_non_clock_interval_n_event = non_clock,
          rw_interval_factors = map2 (\<lambda>n c. activity_factor n n_pin c) events cycles,
          rw_non_clock_interval_factors = map2 (\<lambda>n c. activity_factor n n_non_clock_pin c) non_clock cycles\<rparr>)"

section \<open>Lemmas: sums over pins\<close>

definition uses_ok :: "VcdValue list list \<Rightarrow> (BitKey \<times> WaveformActivityUse) list \<Rightarrow> BitKey set \<Rightarrow> bool" where
  "uses_ok arrays uses keys \<longleftrightarrow> (\<forall>(p, u) \<in> set uses. p \<in> keys \<and> wu_n_event u = int (length (arrays ! fst p)))"

definition use_sum :: "(BitKey \<Rightarrow> real) \<Rightarrow> (WaveformActivityUse \<Rightarrow> int) \<Rightarrow> (BitKey \<times> WaveformActivityUse) list \<Rightarrow> real" where
  "use_sum g weight uses = sum_list (map (\<lambda>(p, u). g p * of_int (weight u)) uses)"

lemma use_sum_simps [simp]:
  "use_sum g weight [] = 0" "use_sum g weight ((p, u) # uses) = g p * of_int (weight u) + use_sum g weight uses"
  by (simp_all add: use_sum_def)

lemma add_use_ok: "uses_ok arrays uses keys \<Longrightarrow> uses_ok arrays (add_use (int (length (arrays ! fst p))) c p uses) (insert p keys)"
  by (induction "int (length (arrays ! fst p))" c p uses rule: add_use.induct) (auto simp: uses_ok_def use_pin_def)

lemma add_use_sum:
  "use_sum g wu_n_pin (add_use n c p uses) = g p + use_sum g wu_n_pin uses"
  "use_sum g wu_n_non_clock_pin (add_use n c p uses) = (if c then 0 else g p) + use_sum g wu_n_non_clock_pin uses"
  by (induction n c p uses rule: add_use.induct) (auto simp: use_pin_def algebra_simps)

definition pin_sum :: "(BitKey \<Rightarrow> real) \<Rightarrow> (BitKey option \<times> bool) list \<Rightarrow> real" where
  "pin_sum g pins = sum_list (map (\<lambda>(key, _). case key of None \<Rightarrow> 0 | Some p \<Rightarrow> g p) pins)"

lemma pin_sum_simps [simp]:
  "pin_sum g [] = 0" "pin_sum g ((key, c) # pins) = (case key of None \<Rightarrow> 0 | Some p \<Rightarrow> g p) + pin_sum g pins"
  by (simp_all add: pin_sum_def)

lemma collect_uses_spec:
  "uses_ok arrays uses keys \<Longrightarrow>
    uses_ok arrays (collect_uses arrays pins uses) (keys \<union> {p. Some p \<in> fst ` set pins}) \<and>
    use_sum g wu_n_pin (collect_uses arrays pins uses) = use_sum g wu_n_pin uses + pin_sum g pins \<and>
    use_sum g wu_n_non_clock_pin (collect_uses arrays pins uses) =
      use_sum g wu_n_non_clock_pin uses + pin_sum g (filter (\<lambda>(_, c). \<not> c) pins)"
proof (induction arrays pins uses arbitrary: keys rule: collect_uses.induct)
  case (3 arrays p c pins uses)
  have "insert p keys \<union> {q. Some q \<in> fst ` set pins} = keys \<union> {q. Some q \<in> fst ` set ((Some p, c) # pins)}" by auto
  then show ?case using 3(1) [OF add_use_ok [OF 3(2)]] by (simp add: add_use_sum)
qed auto

lemma length_use_intervals [simp]: "length (use_intervals T vals n first prev ivs) = length ivs"
  by (induction T vals n first prev ivs rule: use_intervals.induct) (auto simp: Let_def)

lemma interval_events_nth:
  "length acc = length ivs \<Longrightarrow> k < length ivs \<Longrightarrow> interval_events weight T arrays ivs uses acc ! k =
    acc ! k + sum_list (map (\<lambda>(p, u). of_int (use_intervals T (arrays ! fst p) (wu_n_event u) True 0 ivs ! k) * of_int (weight u)) uses)"
  by (induction weight T arrays ivs uses acc rule: interval_events.induct) auto

lemma length_interval_events:
  "length acc = length ivs \<Longrightarrow> length (interval_events weight T arrays ivs uses acc) = length ivs"
  by (induction weight T arrays ivs uses acc rule: interval_events.induct) auto

text \<open>The total over the intervals is the sum of the intervals.\<close>

lemma total_interval_events:
  "ivs \<noteq> [] \<Longrightarrow> length acc = length ivs \<Longrightarrow>
    sum_list (interval_events weight T arrays ivs uses acc) = sum_list acc + total_events weight T arrays ivs uses"
proof (induction weight T arrays ivs uses acc rule: interval_events.induct)
  case (2 weight T arrays ivs p u uses acc)
  have add: "sum_list (map2 (\<lambda>a n. a + of_int n * of_int (weight u)) xs ns) =
      sum_list xs + sum_list (map (\<lambda>n. of_int n * of_int (weight u)) ns)" if "length xs = length ns" for xs :: "real list" and ns
    using that by (induction xs ns rule: list_induct2) auto
  show ?case using 2 add [of acc "use_intervals T (arrays ! fst p) (wu_n_event u) True 0 ivs"]
    by (simp add: total_events_def)
qed (simp add: total_events_def)

section \<open>Lemmas: events of the rounds\<close>

lemma new_events_length:
  assumes wf: "wave_wf vals" and times: "map ev_time evs = map vv_time vals" and "s \<le> e" "0 \<le> s"
  shows "int (length (new_events evs s e)) =
    int (n_before vv_time vals e) - int (n_before vv_time vals s) + (if 0 < s then 1 else 0)"
proof -
  have sorted: "sorted_wrt (<) (map ev_time evs)" using wf by (simp add: times wave_wf_def)
  have "length evs = length vals" using arg_cong [OF times, of length] by simp
  then have "length (filter (\<lambda>v. s \<le> ev_time v \<and> ev_time v < e) evs) = n_before vv_time vals e - n_before vv_time vals s"
    using window_filter [OF sorted assms(3), symmetric] n_before_le [of vv_time vals e] by (simp add: n_before_map [OF times])
  then show ?thesis using n_before_mono [OF assms(3), of vv_time vals] by (simp add: new_events_def)
qed

lemma use_intervals_spec:
  assumes wf: "wave_wf vals" "vals \<noteq> []" and late: "\<forall>v \<in> set vals. vv_time v \<le> T" and times: "map ev_time evs = map vv_time vals"
  shows "rounds_from T t ivs \<Longrightarrow> 0 \<le> t \<Longrightarrow> (first \<longleftrightarrow> t = 0) \<Longrightarrow> (0 < t \<longrightarrow> prev = int (n_before vv_time vals t)) \<Longrightarrow>
    use_intervals T vals (int (length vals)) first prev ivs = map (\<lambda>(s, e). int (length (new_events evs s e))) ivs"
proof (induction ivs arbitrary: t first prev)
  case (Cons iv ivs)
  obtain e where iv: "iv = (t, e)" "t \<le> e" "e < T \<or> T < e" and rest: "ivs \<noteq> [] \<Longrightarrow> 0 < e \<and> rounds_from T e ivs"
    using Cons.prems(1) by (cases iv; cases ivs) auto
  have sorted: "sorted_wrt (<) (map vv_time vals)" and first_time: "vv_time (vals ! 0) = 0"
    using wf by (auto simp: wave_wf_def hd_conv_nth)
  have pos: "0 < n_before vv_time vals t" if "0 < t" using n_before_iff [OF sorted, of 0 t] wf(2) first_time that by simp
  define left where "left = (if first then 0 else prev)"
  have left: "0 \<le> left" "left \<le> int (n_before vv_time vals e)"
    using Cons.prems(2-4) n_before_mono [OF iv(2), of vv_time vals] by (auto simp: left_def)
  have all: "n_before vv_time vals e = length vals" if "T \<le> e"
    using late that iv(3) by (auto simp: n_before_def intro!: arg_cong [where f = length] filter_True)
  have idx: "event_index_at_or_after vals (int (length vals)) e left = int (n_before vv_time vals e)"
    using idx_from_n_before [OF sorted left] left(2) n_before_le [of vv_time vals e] by (simp add: event_index_at_or_after_def)
  define end_idx where "end_idx = (if T \<le> e then int (length vals) else event_index_at_or_after vals (int (length vals)) e left)"
  have end_idx: "end_idx = int (n_before vv_time vals e)" using idx all by (simp add: end_idx_def)
  define start_idx where "start_idx = (if first then 0 else if 0 < prev then prev - 1 else 0)"
  have "start_idx = int (n_before vv_time vals t) - (if 0 < t then 1 else 0)"
    using Cons.prems(2-4) pos n_before_start [OF wf(1)] by (cases "t = 0") (auto simp: start_idx_def)
  moreover have "n_before vv_time vals t \<le> n_before vv_time vals e" by (rule n_before_mono [OF iv(2)])
  ultimately have count: "(if start_idx \<le> end_idx then end_idx - start_idx else 0) = int (length (new_events evs t e))"
    using new_events_length [OF wf(1) times iv(2) Cons.prems(2)] pos by (auto simp: end_idx)
  have tail: "use_intervals T vals (int (length vals)) False end_idx ivs = map (\<lambda>(s, e). int (length (new_events evs s e))) ivs"
  proof (cases "ivs = []")
    case False
    then show ?thesis using Cons.IH [of e False end_idx] rest end_idx by auto
  qed simp
  show ?case
    unfolding iv(1) use_intervals.simps Let_def start_idx_def [symmetric] left_def [symmetric] end_idx_def [symmetric]
    using count tail by simp
qed simp

section \<open>Properties: the workload\<close>


definition sliced_vcd :: Vcd where
  "sliced_vcd = wave_vcd\<lparr>vcd_time_intervals := [(0, 4), (4, 8), (8, 11)]\<rparr>"


end
