(* ===== verification/GTP_DeviceTotals.thy ===== *)
theory GTP_DeviceTotals
  imports GTP_CudaMemory GTP_PowerTotals
begin

text \<open>
  The results of a device analysis: what the rounds record for every instance is added to the total and to the group
  of the instance, and the per-cycle arrays of the device to the waveforms of the top instance
  (\<open>CudaPower::finalizeResult\<close> of \<open>power/cuda/CudaPower.cu\<close>).
\<close>

section \<open>The results of the device\<close>

definition inst_power_new :: InstPower where
  "inst_power_new = \<lparr>ip_leakage = 0, ip_internal = 0, ip_glitch_internal = 0, ip_switching = 0, ip_glitch_switching = 0\<rparr>"

definition device_result :: "InstPower \<Rightarrow> PowerResult" where
  "device_result p = pr_new\<lparr>pr_internal := ip_internal p, pr_glitch_internal := ip_glitch_internal p,
     pr_switching := ip_switching p, pr_glitch_switching := ip_glitch_switching p, pr_leakage := ip_leakage p\<rparr>"

text \<open>The merged results of a gate in every round, recorded one round after the other.\<close>

definition record_rounds :: "(WaveKind \<Rightarrow> real) list \<Rightarrow> InstPower" where
  "record_rounds rounds = fold recordResult rounds inst_power_new"

text \<open>The instances come in the order of a hash table, which is any order.\<close>

fun finalize_insts :: "(PowerInst \<times> InstPower) list \<Rightarrow> PowerReport \<Rightarrow> PowerReport" where
  "finalize_insts [] rp = rp"
| "finalize_insts ((inst, p) # insts) rp =
     finalize_insts insts (case pi_cell inst of None \<Rightarrow> rp | Some cell \<Rightarrow> report_add cell inst (device_result p) rp)"

text \<open>What a cycle adds to the waveforms of the top instance; the arrays keep the glitch parts apart, the waveforms add them.\<close>

definition cycle_adds :: "(WaveKind \<Rightarrow> nat \<Rightarrow> real) \<Rightarrow> nat \<Rightarrow> (WaveKind \<times> int \<times> real) list" where
  "cycle_adds arr c =
     [(W_leakage, int c, arr W_leakage c),
      (W_internal, int c, arr W_internal c + arr W_glitch_internal c),
      (W_glitch_internal, int c, arr W_glitch_internal c),
      (W_switching, int c, arr W_switching c + arr W_glitch_switching c),
      (W_glitch_switching, int c, arr W_glitch_switching c)]"

definition finalizeResult ::
  "InstId \<Rightarrow> real \<Rightarrow> nat \<Rightarrow> (PowerInst \<times> InstPower) list \<Rightarrow> (WaveKind \<Rightarrow> nat \<Rightarrow> real) \<Rightarrow> PowerReport \<Rightarrow> power_error + PowerReport" where
  "finalizeResult top_inst clk_period n_period insts arr rp =
     (let rp1 = finalize_insts insts rp;
          r = fold (\<lambda>k. pr_initWave k top_inst clk_period n_period)
                [W_leakage, W_internal, W_glitch_internal, W_switching, W_glitch_switching] (rp_total rp1)
      in res_bind (res_fold (\<lambda>(k, c, a). pr_addWave k top_inst c a) (concat (map (cycle_adds arr) [0..<n_period])) r) (\<lambda>r'.
           Inr (rp1\<lparr>rp_total := r'\<rparr>)))"

text \<open>The analysis starts from cleared results.\<close>

definition device_report ::
  "InstId \<Rightarrow> real \<Rightarrow> nat \<Rightarrow> (PowerInst \<times> (WaveKind \<Rightarrow> real) list) list \<Rightarrow> (WaveKind \<Rightarrow> nat \<Rightarrow> real) \<Rightarrow> PowerReport \<Rightarrow>
    power_error + PowerReport" where
  "device_report top_inst clk_period n_period gates arr rp =
     finalizeResult top_inst clk_period n_period (map (\<lambda>(inst, rounds). (inst, record_rounds rounds)) gates) arr
       \<lparr>rp_total = pr_clear (rp_total rp), rp_group = (\<lambda>g. pr_clear (rp_group rp g)), rp_cells = []\<rparr>"

section \<open>Lemmas: sums of the results\<close>

lemma record_rounds_sums:
  "ip_leakage (fold recordResult rounds p) = ip_leakage p + (\<Sum>r \<leftarrow> rounds. r W_leakage)"
  "ip_internal (fold recordResult rounds p) = ip_internal p + (\<Sum>r \<leftarrow> rounds. r W_internal + r W_glitch_internal)"
  "ip_glitch_internal (fold recordResult rounds p) = ip_glitch_internal p + (\<Sum>r \<leftarrow> rounds. r W_glitch_internal)"
  "ip_switching (fold recordResult rounds p) = ip_switching p + (\<Sum>r \<leftarrow> rounds. r W_switching + r W_glitch_switching)"
  "ip_glitch_switching (fold recordResult rounds p) = ip_glitch_switching p + (\<Sum>r \<leftarrow> rounds. r W_glitch_switching)"
  by (induction rounds arbitrary: p) (simp_all add: recordResult_def)

text \<open>Adding the instances keeps the groups balanced, sums their results in the total and leaves the waveforms.\<close>

lemma finalize_insts_balanced: "report_balanced rp \<Longrightarrow> report_balanced (finalize_insts insts rp)"
  by (induction insts rp rule: finalize_insts.induct) (auto simp: report_add_balanced split: option.split)

lemma report_add_total: "rp_total (report_add cell inst res rp) = pr_incr res (rp_total rp)"
  by (simp add: report_add_def)

lemma finalize_insts_total:
  assumes "f \<in> power_sums"
  shows "\<forall>(inst, p) \<in> set insts. pi_cell inst \<noteq> None \<Longrightarrow>
    f (rp_total (finalize_insts insts rp)) = f (rp_total rp) + (\<Sum>(inst, p) \<leftarrow> insts. f (device_result p))"
  using assms
  by (induction insts rp rule: finalize_insts.induct) (auto simp: report_add_total pr_incr_def power_sums_def)

lemma finalize_insts_waves: "pr_waves (rp_total (finalize_insts insts rp)) = pr_waves (rp_total rp)"
  by (induction insts rp rule: finalize_insts.induct)
    (auto simp: report_add_total pr_incr_def device_result_def pr_new_def split: option.split)

text \<open>The waveforms of the top instance start at zero, and every cycle is added to once.\<close>

lemma initWave_sums: "f \<in> power_sums \<Longrightarrow> f (pr_initWave k ti period n r) = f r"
  by (auto simp: pr_initWave_def power_sums_def split: option.split)

lemma cycle_adds_value:
  "wave_adds (concat (map (cycle_adds arr) [0..<n])) k c = (if c < n then
     (case k of W_leakage \<Rightarrow> arr W_leakage c | W_internal \<Rightarrow> arr W_internal c + arr W_glitch_internal c
      | W_glitch_internal \<Rightarrow> arr W_glitch_internal c | W_switching \<Rightarrow> arr W_switching c + arr W_glitch_switching c
      | W_glitch_switching \<Rightarrow> arr W_glitch_switching c) else 0)"
proof (induction n)
  case (Suc n)
  have "wave_adds (xs @ ys) k c = wave_adds xs k c + wave_adds ys k c" for xs ys by (simp add: wave_adds_def)
  then show ?case using Suc by (cases k) (auto simp: wave_adds_def cycle_adds_def less_Suc_eq)
qed (simp add: wave_adds_def)

lemma cycle_adds_in: "in_waves n (concat (map (cycle_adds arr) [0..<n]))"
  by (auto simp: in_waves_def cycle_adds_def)

section \<open>Properties: the report of the device\<close>

text \<open>The power of one kind over all gates and rounds.\<close>

definition round_sum :: "((WaveKind \<Rightarrow> real) \<Rightarrow> real) \<Rightarrow> (PowerInst \<times> (WaveKind \<Rightarrow> real) list) list \<Rightarrow> real" where
  "round_sum f gates = (\<Sum>(inst, rounds) \<leftarrow> gates. \<Sum>r \<leftarrow> rounds. f r)"

text \<open>C16: A device analysis always gives a report: its total leakage, internal and switching power are the sums over all
  gates and rounds, glitches included, the groups partition every power of the total if they did before the
  analysis, and the waveforms of the top instance hold what the device added in every cycle.\<close>

theorem device_report_totals:
  assumes cells: "\<forall>(inst, rounds) \<in> set gates. pi_cell inst \<noteq> None" and balanced: "report_balanced rp"
    and fresh: "\<forall>k. pr_waves (rp_total rp) k top_inst = None"
  shows "\<exists>rp'. device_report top_inst clk_period n_period gates arr rp = Inr rp' \<and> report_balanced rp' \<and>
    pr_leakage (rp_total rp') = round_sum (\<lambda>r. r W_leakage) gates \<and>
    pr_internal (rp_total rp') = round_sum (\<lambda>r. r W_internal + r W_glitch_internal) gates \<and>
    pr_switching (rp_total rp') = round_sum (\<lambda>r. r W_switching + r W_glitch_switching) gates \<and>
    (\<forall>k. \<exists>w. pr_waves (rp_total rp') k top_inst = Some w \<and> length (cw_waveform w) = n_period \<and>
      (\<forall>c < n_period. cw_waveform w ! c = (case k of
         W_internal \<Rightarrow> arr W_internal c + arr W_glitch_internal c
       | W_switching \<Rightarrow> arr W_switching c + arr W_glitch_switching c
       | _ \<Rightarrow> arr k c)))"
proof -
  define insts where "insts = map (\<lambda>(inst, rounds). (inst, record_rounds rounds)) gates"
  define start where "start = \<lparr>rp_total = pr_clear (rp_total rp), rp_group = (\<lambda>g. pr_clear (rp_group rp g)), rp_cells = []\<rparr>"
  define rp1 where "rp1 = finalize_insts insts start"
  define r where "r = fold (\<lambda>k. pr_initWave k top_inst clk_period n_period)
     [W_leakage, W_internal, W_glitch_internal, W_switching, W_glitch_switching] (rp_total rp1)"
  define adds where "adds = concat (map (cycle_adds arr) [0..<n_period])"
  have "\<forall>k. pr_waves (rp_total rp1) k top_inst = None"
    using fresh by (simp add: rp1_def finalize_insts_waves start_def pr_clear_def)
  then have r: "r = (rp_total rp1)\<lparr>pr_waves := (\<lambda>k. (pr_waves (rp_total rp1) k)(top_inst \<mapsto> pcw_new clk_period n_period))\<rparr>"
    using update_kinds [of "pr_waves (rp_total rp1)" "\<lambda>k. (pr_waves (rp_total rp1) k)(top_inst \<mapsto> pcw_new clk_period n_period)"]
    unfolding r_def by (simp add: pr_initWave_def)
  have has: "has_waves top_inst n_period r" by (simp add: r has_waves_def pcw_new_def)
  have report: "device_report top_inst clk_period n_period gates arr rp = Inr (rp1\<lparr>rp_total := add_waves top_inst (wave_adds adds) r\<rparr>)"
    using adds_value [OF has cycle_adds_in [of n_period arr, folded adds_def]]
    by (simp add: device_report_def finalizeResult_def Let_def insts_def [symmetric] start_def [symmetric] rp1_def [symmetric]
        r_def [symmetric, simplified] adds_def [symmetric])
  have start: "report_balanced start"
    using balanced by (simp add: report_balanced_def power_sums_def pr_clear_def start_def)
  have same: "f (add_waves top_inst (wave_adds adds) r) = f (rp_total rp1)" if "f \<in> power_sums" for f
    using that by (auto simp: add_waves_def r power_sums_def)
  have balanced': "report_balanced (rp1\<lparr>rp_total := add_waves top_inst (wave_adds adds) r\<rparr>)"
    using finalize_insts_balanced [OF start] same by (intro balanced_total(2)) (auto simp: rp1_def)
  have "\<forall>(inst, p) \<in> set insts. pi_cell inst \<noteq> None" using cells by (auto simp: insts_def)
  note total = finalize_insts_total [OF _ this, of _ start, folded rp1_def]
  have sums: "pr_leakage (rp_total rp1) = round_sum (\<lambda>r. r W_leakage) gates"
    "pr_internal (rp_total rp1) = round_sum (\<lambda>r. r W_internal + r W_glitch_internal) gates"
    "pr_switching (rp_total rp1) = round_sum (\<lambda>r. r W_switching + r W_glitch_switching) gates"
    using total [of pr_leakage] total [of pr_internal] total [of pr_switching]
    by (simp_all add: power_sums_def start_def pr_clear_def insts_def round_sum_def comp_def case_prod_beta' device_result_def
        record_rounds_def record_rounds_sums inst_power_new_def)
  have waves: "\<exists>w. pr_waves (add_waves top_inst (wave_adds adds) r) k top_inst = Some w \<and> length (cw_waveform w) = n_period \<and>
      (\<forall>c < n_period. cw_waveform w ! c = (case k of
         W_internal \<Rightarrow> arr W_internal c + arr W_glitch_internal c
       | W_switching \<Rightarrow> arr W_switching c + arr W_glitch_switching c
       | _ \<Rightarrow> arr k c))" for k
    unfolding add_waves_def adds_def cycle_adds_value by (cases k) (simp_all add: r pcw_new_def)
  show ?thesis
    unfolding report using balanced' sums same [of pr_leakage] same [of pr_internal] same [of pr_switching] waves
    by (simp add: power_sums_def)
qed

theorem device_report_totals_witness:
  "\<exists>rp'. device_report 0 2 1 [(hd leaky_insts, [\<lambda>_. 3, \<lambda>_. 4])] (\<lambda>_ _. 5) report_new = Inr rp' \<and>
     pr_leakage (rp_total rp') = 7 \<and> pr_internal (rp_total rp') = 14"
proof -
  have "report_balanced report_new" "\<forall>k. pr_waves (rp_total report_new) k 0 = None"
    by (simp_all add: report_balanced_def report_new_def power_sums_def pr_new_def)
  note run = device_report_totals [OF _ this, of "[(hd leaky_insts, [\<lambda>_. 3, \<lambda>_. 4])]" 2 1 "\<lambda>_ _. 5"]
  show ?thesis using run by (auto simp: leaky_insts_def round_sum_def)
qed

end
