(* ===== verification/GTP_CircuitStat.thy ===== *)
theory GTP_CircuitStat
  imports GTP_PowerTotals
begin

text \<open>
  The statistics of a circuit (\<open>Power::getCircuitStat\<close> of \<open>power/TimeBasedPower.cc\<close>): pins and events of the gates, by
  direction, by power group and by number of pins, with the two consistency checks that end the program, and the
  share of the gates that the dense state tables would cover for a bound on their pins.
\<close>

section \<open>Pins and gates\<close>

text \<open>A pin without a port is skipped. The counters of a gate are those of its inputs, outputs and events.\<close>

record StatPin =
  sp_port :: "(PortDirection \<times> bool) option"
  sp_n_event :: nat

record StatInst =
  si_inst :: PowerInst
  si_pins :: "StatPin list"

record PinStat =
  ps_n_output_pin :: nat
  ps_n_input_pin :: nat
  ps_n_other_pin :: nat
  ps_n_total_pin :: nat
  ps_n_event_of_output_pin :: nat
  ps_n_event_of_input_pin :: nat
  ps_n_event_of_clock_pin :: nat
  ps_min_output_pin_event :: nat
  ps_max_output_pin_event :: nat
  ps_min_input_pin_event :: nat
  ps_max_input_pin_event :: nat

record GateCount =
  gc_n_input_pin :: nat
  gc_n_output_pin :: nat
  gc_n_event :: nat

definition size_max :: nat where
  "size_max = 2 ^ 64 - 1"

definition pin_stat_new :: PinStat where
  "pin_stat_new = \<lparr>ps_n_output_pin = 0, ps_n_input_pin = 0, ps_n_other_pin = 0, ps_n_total_pin = 0,
     ps_n_event_of_output_pin = 0, ps_n_event_of_input_pin = 0, ps_n_event_of_clock_pin = 0,
     ps_min_output_pin_event = size_max, ps_max_output_pin_event = 0,
     ps_min_input_pin_event = size_max, ps_max_input_pin_event = 0\<rparr>"

definition stat_clock :: "bool \<Rightarrow> nat \<Rightarrow> PinStat \<Rightarrow> PinStat" where
  "stat_clock is_clock n ps =
     (if is_clock then ps\<lparr>ps_n_event_of_clock_pin := ps_n_event_of_clock_pin ps + n\<rparr> else ps)"

definition stat_pin :: "StatPin \<Rightarrow> PinStat \<times> GateCount \<Rightarrow> PinStat \<times> GateCount" where
  "stat_pin pin = (\<lambda>(ps, gc).
     case sp_port pin of
       None \<Rightarrow> (ps, gc)
     | Some (dir, is_clock) \<Rightarrow>
         (let n = sp_n_event pin;
              ps1 = stat_clock is_clock n (ps\<lparr>ps_n_total_pin := ps_n_total_pin ps + 1\<rparr>);
              gc1 = gc\<lparr>gc_n_event := gc_n_event gc + n\<rparr>
          in if pd_isAnyOutput dir then
               (ps1\<lparr>ps_n_output_pin := ps_n_output_pin ps + 1,
                    ps_n_event_of_output_pin := ps_n_event_of_output_pin ps + n,
                    ps_min_output_pin_event := min (ps_min_output_pin_event ps) n,
                    ps_max_output_pin_event := max (ps_max_output_pin_event ps) n\<rparr>,
                gc1\<lparr>gc_n_output_pin := gc_n_output_pin gc + 1\<rparr>)
             else if pd_isAnyInput dir then
               (ps1\<lparr>ps_n_input_pin := ps_n_input_pin ps + 1,
                    ps_n_event_of_input_pin := ps_n_event_of_input_pin ps + n,
                    ps_min_input_pin_event := min (ps_min_input_pin_event ps) n,
                    ps_max_input_pin_event := max (ps_max_input_pin_event ps) n\<rparr>,
                gc1\<lparr>gc_n_input_pin := gc_n_input_pin gc + 1\<rparr>)
             else (ps1\<lparr>ps_n_other_pin := ps_n_other_pin ps + 1\<rparr>, gc1)))"

section \<open>The circuit\<close>

text \<open>The smallest and largest counts, and the gates and events by group and by the number of pins.\<close>

record CircuitStat =
  cs_pins :: PinStat
  cs_n_gate :: nat
  cs_n_fallback_gate :: nat
  cs_n_event :: nat
  cs_group_gates :: "PowerGroup \<Rightarrow> nat"
  cs_group_events :: "PowerGroup \<Rightarrow> nat"
  cs_pin_range :: "nat \<times> nat"
  cs_input_pin_range :: "nat \<times> nat"
  cs_output_pin_range :: "nat \<times> nat"
  cs_gate_event_range :: "nat \<times> nat"
  cs_gates_by_pins :: "nat \<rightharpoonup> nat"
  cs_events_by_pins :: "nat \<rightharpoonup> nat"

definition widen :: "nat \<Rightarrow> nat \<times> nat \<Rightarrow> nat \<times> nat" where
  "widen n r = (min (fst r) n, max (snd r) n)"

definition count_at :: "nat \<Rightarrow> nat \<Rightarrow> (nat \<rightharpoonup> nat) \<Rightarrow> (nat \<rightharpoonup> nat)" where
  "count_at key n m = m(key \<mapsto> (case m key of None \<Rightarrow> 0 | Some c \<Rightarrow> c) + n)"

definition circuit_stat_new :: CircuitStat where
  "circuit_stat_new = \<lparr>cs_pins = pin_stat_new, cs_n_gate = 0, cs_n_fallback_gate = 0, cs_n_event = 0,
     cs_group_gates = (\<lambda>_. 0), cs_group_events = (\<lambda>_. 0), cs_pin_range = (size_max, 0), cs_input_pin_range = (size_max, 0),
     cs_output_pin_range = (size_max, 0), cs_gate_event_range = (size_max, 0),
     cs_gates_by_pins = Map.empty, cs_events_by_pins = Map.empty\<rparr>"

definition stat_inst :: "nat \<Rightarrow> nat \<Rightarrow> StatInst \<Rightarrow> CircuitStat \<Rightarrow> CircuitStat" where
  "stat_inst max_n_pin_for_leakage max_n_pin_for_internal si cs =
     (case pi_cell (si_inst si) of
        None \<Rightarrow> cs
      | Some cell \<Rightarrow>
          (let (ps, gc) = fold stat_pin (si_pins si)
                 (cs_pins cs, \<lparr>gc_n_input_pin = 0, gc_n_output_pin = 0, gc_n_event = 0\<rparr>);
               n_pin = gc_n_input_pin gc + gc_n_output_pin gc;
               g = power_group cell (si_inst si)
           in \<lparr>cs_pins = ps, cs_n_gate = cs_n_gate cs + 1,
               cs_n_fallback_gate = (if max_n_pin_for_leakage < n_pin \<or> max_n_pin_for_internal < n_pin
                 then cs_n_fallback_gate cs + 1 else cs_n_fallback_gate cs),
               cs_n_event = cs_n_event cs + gc_n_event gc,
               cs_group_gates = (cs_group_gates cs)(g := cs_group_gates cs g + 1),
               cs_group_events = (cs_group_events cs)(g := cs_group_events cs g + gc_n_event gc),
               cs_pin_range = widen n_pin (cs_pin_range cs),
               cs_input_pin_range = widen (gc_n_input_pin gc) (cs_input_pin_range cs),
               cs_output_pin_range = widen (gc_n_output_pin gc) (cs_output_pin_range cs),
               cs_gate_event_range = widen (gc_n_event gc) (cs_gate_event_range cs),
               cs_gates_by_pins = count_at n_pin 1 (cs_gates_by_pins cs),
               cs_events_by_pins = count_at n_pin (gc_n_event gc) (cs_events_by_pins cs)\<rparr>))"

definition all_groups :: "PowerGroup list" where
  "all_groups = [G_macro, G_pad, G_clock, G_sequential, G_combinational]"

definition getCircuitStat :: "nat \<Rightarrow> nat \<Rightarrow> StatInst list \<Rightarrow> power_error + CircuitStat" where
  "getCircuitStat max_n_pin_for_leakage max_n_pin_for_internal insts =
     (let cs = fold (stat_inst max_n_pin_for_leakage max_n_pin_for_internal) insts circuit_stat_new in
      if sum_list (map (cs_group_gates cs) all_groups) \<noteq> cs_n_gate cs then Inl AssertFailed
      else if sum_list (map (cs_group_events cs) all_groups) \<noteq> cs_n_event cs then Inl AssertFailed
      else Inr cs)"

text \<open>For a bound on the pins of a gate: the gates and events above it, and the share of the events below.\<close>

record BsimStat =
  bs_n_filtered_gate :: nat
  bs_n_filtered_event :: nat
  bs_filtered_gate_ratio :: real
  bs_filtered_event_ratio :: real
  bs_dense_event_coverage :: real

definition counts_above :: "nat \<Rightarrow> nat \<Rightarrow> (nat \<rightharpoonup> nat) \<Rightarrow> nat" where
  "counts_above max_key threshold m =
     sum_list (map (\<lambda>key. case m key of None \<Rightarrow> 0 | Some n \<Rightarrow> n) (filter (\<lambda>key. threshold < key) [0..<Suc max_key]))"

definition bsim_stat :: "nat \<Rightarrow> CircuitStat \<Rightarrow> BsimStat" where
  "bsim_stat threshold cs =
     (let gates = counts_above (snd (cs_pin_range cs)) threshold (cs_gates_by_pins cs);
          events = counts_above (snd (cs_pin_range cs)) threshold (cs_events_by_pins cs);
          gate_ratio = (if cs_n_gate cs = 0 then 0 else real gates / real (cs_n_gate cs));
          event_ratio = (if cs_n_event cs = 0 then 0 else real events / real (cs_n_event cs))
      in \<lparr>bs_n_filtered_gate = gates, bs_n_filtered_event = events, bs_filtered_gate_ratio = gate_ratio,
          bs_filtered_event_ratio = event_ratio, bs_dense_event_coverage = 1 - event_ratio\<rparr>)"

section \<open>Lemmas: counts of a gate\<close>

text \<open>The counters of a gate do not depend on those of the circuit.\<close>

definition gate_count :: "StatInst \<Rightarrow> GateCount" where
  "gate_count si = snd (fold stat_pin (si_pins si) (pin_stat_new, \<lparr>gc_n_input_pin = 0, gc_n_output_pin = 0, gc_n_event = 0\<rparr>))"

definition gate_n_pin :: "StatInst \<Rightarrow> nat" where
  "gate_n_pin si = gc_n_input_pin (gate_count si) + gc_n_output_pin (gate_count si)"

lemma stat_pin_count: "snd (stat_pin pin (ps, gc)) = snd (stat_pin pin (ps', gc))"
  by (auto simp: stat_pin_def Let_def split: option.splits)

lemma stat_pins_count: "snd (fold stat_pin pins (ps, gc)) = snd (fold stat_pin pins (ps', gc))"
proof (induction pins arbitrary: ps ps' gc)
  case (Cons pin pins)
  then show ?case using stat_pin_count [of pin ps gc ps']
    by (cases "stat_pin pin (ps, gc)"; cases "stat_pin pin (ps', gc)") auto
qed simp

definition pins_add_up :: "PinStat \<Rightarrow> bool" where
  "pins_add_up ps \<longleftrightarrow> ps_n_total_pin ps = ps_n_input_pin ps + ps_n_output_pin ps + ps_n_other_pin ps"

lemma stat_pin_adds: "pins_add_up ps \<Longrightarrow> pins_add_up (fst (stat_pin pin (ps, gc)))"
  by (auto simp: stat_pin_def stat_clock_def pins_add_up_def Let_def split: option.splits)

lemma stat_pins_add: "pins_add_up (fst pg) \<Longrightarrow> pins_add_up (fst (fold stat_pin pins pg))"
proof (induction pins arbitrary: pg)
  case (Cons pin pins)
  then show ?case using stat_pin_adds [of "fst pg" pin "snd pg"] by simp
qed simp

section \<open>Lemmas: counts of the circuit\<close>

text \<open>What the statistics of a list of instances are, over the instances with a cell.\<close>

definition stat_inv :: "StatInst list \<Rightarrow> CircuitStat \<Rightarrow> bool" where
  "stat_inv gates cs \<longleftrightarrow> pins_add_up (cs_pins cs) \<and> cs_n_gate cs = length gates \<and>
     cs_n_event cs = sum_list (map (gc_n_event \<circ> gate_count) gates) \<and>
     sum_list (map (cs_group_gates cs) all_groups) = cs_n_gate cs \<and>
     sum_list (map (cs_group_events cs) all_groups) = cs_n_event cs \<and>
     (\<forall>si \<in> set gates. gate_n_pin si \<le> snd (cs_pin_range cs)) \<and>
     (\<forall>key. (case cs_gates_by_pins cs key of None \<Rightarrow> 0 | Some n \<Rightarrow> n) =
       sum_list (map (\<lambda>_. 1) (filter (\<lambda>si. gate_n_pin si = key) gates))) \<and>
     (\<forall>key. (case cs_events_by_pins cs key of None \<Rightarrow> 0 | Some n \<Rightarrow> n) =
       sum_list (map (gc_n_event \<circ> gate_count) (filter (\<lambda>si. gate_n_pin si = key) gates)))"

lemma group_update:
  fixes f :: "PowerGroup \<Rightarrow> nat"
  shows "sum_list (map (f(g := f g + n)) all_groups) = sum_list (map f all_groups) + n"
  by (cases g) (simp_all add: all_groups_def)

lemma count_at_value: "(case count_at key n m k of None \<Rightarrow> 0 | Some c \<Rightarrow> c) =
    (case m k of None \<Rightarrow> 0 | Some c \<Rightarrow> c) + (if k = key then n else 0)"
  by (simp add: count_at_def)

lemma stat_inst_inv:
  assumes "stat_inv gates cs"
  shows "stat_inv (if pi_cell (si_inst si) = None then gates else gates @ [si]) (stat_inst a b si cs)"
proof (cases "pi_cell (si_inst si)")
  case None
  then show ?thesis using assms by (simp add: stat_inst_def)
next
  case (Some cell)
  obtain ps gc where fold: "fold stat_pin (si_pins si) (cs_pins cs, \<lparr>gc_n_input_pin = 0, gc_n_output_pin = 0, gc_n_event = 0\<rparr>) = (ps, gc)"
    by fastforce
  have gc: "gc = gate_count si"
    using stat_pins_count [of "si_pins si" "cs_pins cs" _ pin_stat_new] fold by (metis gate_count_def snd_conv)
  define g where "g = power_group cell (si_inst si)"
  define e where "e = gc_n_event (gate_count si)"
  define cs' where "cs' = stat_inst a b si cs"
  have cs': "cs_pins cs' = ps" "cs_n_gate cs' = cs_n_gate cs + 1" "cs_n_event cs' = cs_n_event cs + e"
      "cs_group_gates cs' = (cs_group_gates cs)(g := cs_group_gates cs g + 1)"
      "cs_group_events cs' = (cs_group_events cs)(g := cs_group_events cs g + e)"
      "cs_pin_range cs' = widen (gate_n_pin si) (cs_pin_range cs)"
      "cs_gates_by_pins cs' = count_at (gate_n_pin si) 1 (cs_gates_by_pins cs)"
      "cs_events_by_pins cs' = count_at (gate_n_pin si) e (cs_events_by_pins cs)"
    using fold by (simp_all add: cs'_def stat_inst_def Some Let_def gc g_def e_def gate_n_pin_def)
  have ps: "pins_add_up ps"
    using stat_pins_add [of "(cs_pins cs, \<lparr>gc_n_input_pin = 0, gc_n_output_pin = 0, gc_n_event = 0\<rparr>)" "si_pins si"] assms fold
    by (simp add: stat_inv_def)
  show ?thesis
    using assms ps unfolding cs'_def [symmetric] stat_inv_def cs' group_update count_at_value
    by (auto simp: Some widen_def le_max_iff_disj e_def)
qed

lemma stat_fold_inv:
  "stat_inv gates cs \<Longrightarrow> stat_inv (gates @ filter (\<lambda>si. pi_cell (si_inst si) \<noteq> None) insts) (fold (stat_inst a b) insts cs)"
proof (induction insts arbitrary: gates cs)
  case (Cons si insts)
  show ?case using Cons.IH [OF stat_inst_inv [OF Cons.prems, of si a b]] by (auto split: if_splits)
qed simp

text \<open>Counts by key above a bound are the counts of what has a key above it.\<close>

lemma sum_by_key:
  fixes g :: "'a \<Rightarrow> nat"
  assumes "\<forall>x \<in> set xs. f x \<le> M"
  shows "sum_list (map (\<lambda>key. sum_list (map g (filter (\<lambda>x. f x = key) xs))) (filter (\<lambda>key. T < key) [0..<Suc M])) =
    sum_list (map g (filter (\<lambda>x. T < f x) xs))"
  using assms
proof (induction xs)
  case (Cons x xs)
  define keys where "keys = filter (\<lambda>key. T < key) [0..<Suc M]"
  have one: "sum_list (map (\<lambda>key. (if f x = key then g x else 0) + h key) keys) =
      (if T < f x then g x else 0) + sum_list (map h keys)" for h :: "nat \<Rightarrow> nat"
  proof -
    have "distinct keys" "f x \<in> set keys \<longleftrightarrow> T < f x" using Cons.prems by (auto simp: keys_def simp del: upt_Suc)
    then have "sum_list (map (\<lambda>key. if f x = key then g x else 0) keys) = (if T < f x then g x else 0)"
      by (simp add: sum_list_distinct_conv_sum_set)
    then show ?thesis by (simp add: sum_list_addf)
  qed
  have "sum_list (map (\<lambda>key. sum_list (map g (filter (\<lambda>y. f y = key) (x # xs)))) keys) =
      sum_list (map (\<lambda>key. (if f x = key then g x else 0) + sum_list (map g (filter (\<lambda>y. f y = key) xs))) keys)"
    by (intro arg_cong [where f = sum_list] map_cong) auto
  then show ?case using Cons unfolding one keys_def [symmetric] by simp
qed (simp add: sum_list_0)

section \<open>Properties: the statistics of a circuit\<close>

text \<open>The statistics of a circuit always return: no circuit fails the two checks that gates and events add up over the
  groups. Inputs, outputs and other pins add up to all pins, and for every bound on the pins of a gate the report
  counts exactly the gates, and the events of the gates, that are above it, so the coverage is the share of the events
  of the gates up to the bound.\<close>

theorem circuit_stat_consistent:
  "\<exists>cs. getCircuitStat max_leakage max_internal insts = Inr cs \<and>
    cs_n_gate cs = length (filter (\<lambda>si. pi_cell (si_inst si) \<noteq> None) insts) \<and>
    ps_n_total_pin (cs_pins cs) = ps_n_input_pin (cs_pins cs) + ps_n_output_pin (cs_pins cs) + ps_n_other_pin (cs_pins cs) \<and>
    bs_n_filtered_gate (bsim_stat T cs) =
      length (filter (\<lambda>si. pi_cell (si_inst si) \<noteq> None \<and> T < gate_n_pin si) insts) \<and>
    bs_n_filtered_event (bsim_stat T cs) = sum_list (map (gc_n_event \<circ> gate_count)
      (filter (\<lambda>si. pi_cell (si_inst si) \<noteq> None \<and> T < gate_n_pin si) insts)) \<and>
    bs_dense_event_coverage (bsim_stat T cs) * real (cs_n_event cs) =
      real (sum_list (map (gc_n_event \<circ> gate_count)
        (filter (\<lambda>si. pi_cell (si_inst si) \<noteq> None \<and> gate_n_pin si \<le> T) insts)))"
proof -
  define gates where "gates = filter (\<lambda>si. pi_cell (si_inst si) \<noteq> None) insts"
  define cs where "cs = fold (stat_inst max_leakage max_internal) insts circuit_stat_new"
  have "stat_inv [] circuit_stat_new"
    by (simp add: stat_inv_def circuit_stat_new_def pin_stat_new_def pins_add_up_def all_groups_def)
  from stat_fold_inv [OF this, of insts max_leakage max_internal] have inv: "stat_inv gates cs" by (simp add: gates_def cs_def)
  have run: "getCircuitStat max_leakage max_internal insts = Inr cs"
    using inv by (simp add: getCircuitStat_def cs_def [symmetric] stat_inv_def)
  have small: "\<forall>si \<in> set gates. gate_n_pin si \<le> snd (cs_pin_range cs)" using inv by (simp add: stat_inv_def)
  have above: "counts_above (snd (cs_pin_range cs)) T (cs_gates_by_pins cs) = sum_list (map (\<lambda>_. 1) (filter (\<lambda>si. T < gate_n_pin si) gates))"
    "counts_above (snd (cs_pin_range cs)) T (cs_events_by_pins cs) =
      sum_list (map (gc_n_event \<circ> gate_count) (filter (\<lambda>si. T < gate_n_pin si) gates))"
    unfolding counts_above_def using inv sum_by_key [OF small, of "\<lambda>_. 1" T] sum_by_key [OF small, of "gc_n_event \<circ> gate_count" T]
    by (simp_all add: stat_inv_def)
  have split: "cs_n_event cs = sum_list (map (gc_n_event \<circ> gate_count) (filter (\<lambda>si. T < gate_n_pin si) gates)) +
      sum_list (map (gc_n_event \<circ> gate_count) (filter (\<lambda>si. gate_n_pin si \<le> T) gates))"
  proof -
    have "sum_list (map h gates) = sum_list (map h (filter (\<lambda>si. T < gate_n_pin si) gates)) +
        sum_list (map h (filter (\<lambda>si. gate_n_pin si \<le> T) gates))" for h :: "StatInst \<Rightarrow> nat"
      by (induction gates) auto
    then show ?thesis using inv by (simp add: stat_inv_def)
  qed
  have "bs_n_filtered_gate (bsim_stat T cs) = length (filter (\<lambda>si. T < gate_n_pin si) gates)"
    "bs_n_filtered_event (bsim_stat T cs) = sum_list (map (gc_n_event \<circ> gate_count) (filter (\<lambda>si. T < gate_n_pin si) gates))"
    using above by (simp_all add: bsim_stat_def Let_def sum_list_triv)
  moreover have "bs_dense_event_coverage (bsim_stat T cs) * real (cs_n_event cs) = real (cs_n_event cs) -
      real (counts_above (snd (cs_pin_range cs)) T (cs_events_by_pins cs))"
    using split [folded above(2)] by (cases "cs_n_event cs = 0") (simp_all add: bsim_stat_def Let_def left_diff_distrib)
  then have "bs_dense_event_coverage (bsim_stat T cs) * real (cs_n_event cs) =
      real (sum_list (map (gc_n_event \<circ> gate_count) (filter (\<lambda>si. gate_n_pin si \<le> T) gates)))"
    using split [folded above(2)] by linarith
  moreover have "filter (\<lambda>si. P (gate_n_pin si)) gates = filter (\<lambda>si. pi_cell (si_inst si) \<noteq> None \<and> P (gate_n_pin si)) insts" for P
    by (auto simp: gates_def intro: filter_cong)
  ultimately show ?thesis using run inv by (simp add: stat_inv_def gates_def pins_add_up_def)
qed

end
