(* ===== verification/GTP_CudaDynamic.thy ===== *)
theory GTP_CudaDynamic
  imports GTP_CudaMemory GTP_Glitch
begin

text \<open>
  The dynamic power of the device: which events a thread of the fused kernel takes for glitches
  (\<open>getGlitchScalingRatioClockCycleBasedOnDeviceOnly\<close> of \<open>power/cuda/CudaPower.cu\<close>) and what it adds for the other
  ones. However the cycles are divided among the threads, the switching power of a gate without its glitches is that of the
  host (\<open>power/TimeBasedPower.cc\<close>). The power of the glitches is not: the two measure the width of a pulse
  differently.
\<close>

section \<open>Cycles and glitches of a pin\<close>

abbreviation event_cycle :: "Launch \<Rightarrow> Event list \<Rightarrow> int \<Rightarrow> int" where
  "event_cycle la events j \<equiv> la_cycle la (ev_time (events ! nat j))"

text \<open>The events of a pin in the cycle of an event, and the rule of the host.\<close>

definition cycle_peers :: "Launch \<Rightarrow> DevGate \<Rightarrow> Event list \<Rightarrow> nat \<Rightarrow> int \<Rightarrow> int set" where
  "cycle_peers la g events i j =
     {j' \<in> {dg_pin_waveform_starts g ! i<..<dg_pin_waveform_ends g ! i}. event_cycle la events j' = event_cycle la events j}"

definition dev_is_glitch :: "Launch \<Rightarrow> DevGate \<Rightarrow> Event list \<Rightarrow> nat \<Rightarrow> int \<Rightarrow> bool" where
  "dev_is_glitch la g events i j \<longleftrightarrow> \<not> dg_pin_is_clocks g ! i \<and>
     (even (card (cycle_peers la g events i j)) \<or> (\<exists>j' \<in> cycle_peers la g events i j. j < j'))"

text \<open>The events of the cycle that a thread has counted when it comes to an event, from the first one it takes.\<close>

definition counted :: "Launch \<Rightarrow> Event list \<Rightarrow> int \<Rightarrow> int \<Rightarrow> int set" where
  "counted la events f j = {j' \<in> {f..j}. event_cycle la events j' = event_cycle la events j}"

text \<open>Waveforms that change at every event and have less events in a cycle than a 16-bit counter holds.\<close>

definition dynamic_ok :: "Launch \<Rightarrow> DevGate \<Rightarrow> Event list \<Rightarrow> bool" where
  "dynamic_ok la g events \<longleftrightarrow> fused_ok la g events \<and>
     (\<forall>i < dg_n_pin g. has_waveform g i \<longrightarrow> 0 \<le> ev_time (events ! nat (dg_pin_waveform_starts g ! i)) \<and>
        (\<forall>j. dg_pin_waveform_starts g ! i < j \<longrightarrow> j < dg_pin_waveform_ends g ! i \<longrightarrow>
           ev_val (events ! nat j) \<noteq> ev_val (events ! nat (j - 1)) \<and> card (cycle_peers la g events i j) < 2 ^ 15))"

text \<open>The power of an output event that is no glitch, and of the events of all outputs at a time.\<close>

definition plain_energy :: "Launch \<Rightarrow> DevGate \<Rightarrow> Event list \<Rightarrow> nat \<Rightarrow> int \<Rightarrow> real" where
  "plain_energy la g events i j =
     (if i < dg_n_input_pin g \<or> dev_is_glitch la g events i j then 0
      else getNRise (ev_val (events ! nat (j - 1))) (ev_val (events ! nat j)) * getSingleRiseTransitionEnergy g i)"

definition plain_energy_at :: "Launch \<Rightarrow> DevGate \<Rightarrow> Event list \<Rightarrow> int \<Rightarrow> real" where
  "plain_energy_at la g events t = (\<Sum>i \<in> {i. i < dg_n_pin g \<and> has_waveform g i}.
     \<Sum>j = dev_front g events i (t - 1)..<dev_front g events i t. plain_energy la g events i j)"

section \<open>Lemmas: cycles\<close>

lemma la_cycle_div:
  assumes "0 < la_time_scale la" "0 < la_clk_period la" "0 \<le> t"
  shows "la_cycle la t = t div time_unit_per_cycle (la_time_scale la) (la_clk_period la)"
proof -
  have "0 < time_unit_per_cycle (la_time_scale la) (la_clk_period la)" using assms by (simp add: time_unit_per_cycle_def)
  then show ?thesis using assms(3) by (cases "t = 0") (simp_all add: la_cycle_def clkedWaveformIdx_def c_div_def)
qed

lemma la_cycle_mono:
  assumes "0 < la_time_scale la" "0 < la_clk_period la" "0 \<le> s" "s \<le> t"
  shows "la_cycle la s \<le> la_cycle la t" "0 \<le> la_cycle la s"
proof -
  have "0 < time_unit_per_cycle (la_time_scale la) (la_clk_period la)" using assms by (simp add: time_unit_per_cycle_def)
  then show "la_cycle la s \<le> la_cycle la t" "0 \<le> la_cycle la s"
    using assms zdiv_mono1 by (simp_all add: la_cycle_div pos_imp_zdiv_nonneg_iff)
qed

definition dynamic_pin :: "Launch \<Rightarrow> DevGate \<Rightarrow> Event list \<Rightarrow> nat \<Rightarrow> bool" where
  "dynamic_pin la g events i \<longleftrightarrow> dynamic_ok la g events \<and> i < dg_n_pin g \<and> has_waveform g i"

lemma dynamic_gate:
  assumes "dynamic_pin la g events i"
  shows "dev_gate_ok la g events" "i < dg_n_pin g" "has_waveform g i"
  using assms by (simp_all add: dynamic_pin_def dynamic_ok_def fused_ok_def)

lemma times_less:
  "dynamic_pin la g events i \<Longrightarrow> dg_pin_waveform_starts g ! i \<le> j \<Longrightarrow> j < k \<Longrightarrow> k < dg_pin_waveform_ends g ! i \<Longrightarrow>
    ev_time (events ! nat j) < ev_time (events ! nat k)"
  using wave_ok_less [OF dev_gate_wave(1) [OF dynamic_gate(1,2)]] by blast

lemma cycles_mono:
  assumes pin: "dynamic_pin la g events i" and j: "dg_pin_waveform_starts g ! i \<le> j" "j \<le> k" "k < dg_pin_waveform_ends g ! i"
  shows "event_cycle la events j \<le> event_cycle la events k" "0 \<le> event_cycle la events j" "0 \<le> ev_time (events ! nat j)"
proof -
  have "0 \<le> ev_time (events ! nat (dg_pin_waveform_starts g ! i))" using pin by (simp add: dynamic_pin_def dynamic_ok_def)
  then show t: "0 \<le> ev_time (events ! nat j)"
    using times_less [OF pin, of "dg_pin_waveform_starts g ! i" j] j by (cases "j = dg_pin_waveform_starts g ! i") auto
  moreover have "ev_time (events ! nat j) \<le> ev_time (events ! nat k)" using times_less [OF pin, of j k] j by (cases "j = k") auto
  ultimately show "event_cycle la events j \<le> event_cycle la events k" "0 \<le> event_cycle la events j"
    using la_cycle_mono dynamic_gate(1) [OF pin] unfolding dev_gate_ok_def by blast+
qed

lemma event_changes:
  assumes "dynamic_pin la g events i" "dg_pin_waveform_starts g ! i < j" "j < dg_pin_waveform_ends g ! i"
  shows "ev_val (events ! nat j) \<noteq> ev_val (events ! nat (j - 1))" "card (cycle_peers la g events i j) < 2 ^ 15"
  using assms unfolding dynamic_pin_def dynamic_ok_def by blast+

text \<open>Whatever lies between two events of the same cycle is of that cycle.\<close>

lemma same_between:
  assumes "dynamic_pin la g events i" "dg_pin_waveform_starts g ! i \<le> j" "j \<le> k" "k \<le> l" "l < dg_pin_waveform_ends g ! i"
    and "event_cycle la events j = event_cycle la events l"
  shows "event_cycle la events k = event_cycle la events l"
  using cycles_mono(1) [OF assms(1), of j k] cycles_mono(1) [OF assms(1), of k l] assms(2-) by simp

lemma finite_counted [simp]: "finite (counted la events f j)"
  by (rule finite_subset [of _ "{f..j}"]) (auto simp: counted_def)

lemma counted_next:
  assumes "dynamic_pin la g events i" "dg_pin_waveform_starts g ! i < f" "f < j" "j < dg_pin_waveform_ends g ! i"
  shows "card (counted la events f j) =
    (if event_cycle la events (j - 1) = event_cycle la events j then card (counted la events f (j - 1)) + 1 else 1)"
proof (cases "event_cycle la events (j - 1) = event_cycle la events j")
  case True
  then have "counted la events f j = insert j (counted la events f (j - 1))" using assms by (auto simp: counted_def)
  moreover have "j \<notin> counted la events f (j - 1)" by (auto simp: counted_def)
  ultimately show ?thesis using True by simp
next
  case False
  have "j' = j" if "j' \<in> {f..j}" "event_cycle la events j' = event_cycle la events j" for j'
  proof (rule ccontr)
    assume "j' \<noteq> j"
    then show False using same_between [OF assms(1), of j' "j - 1" j] that assms(2-) False by auto
  qed
  then have "counted la events f j = {j}" using assms by (auto simp: counted_def)
  then show ?thesis using False by simp
qed

text \<open>An event is the last one of its cycle exactly if the next event is in another one.\<close>

lemma later_peer:
  assumes "dynamic_pin la g events i" "dg_pin_waveform_starts g ! i < j" "j < dg_pin_waveform_ends g ! i"
  shows "(\<exists>j' \<in> cycle_peers la g events i j. j < j') \<longleftrightarrow>
    j + 1 < dg_pin_waveform_ends g ! i \<and> event_cycle la events j = event_cycle la events (j + 1)"
proof
  assume "\<exists>j' \<in> cycle_peers la g events i j. j < j'"
  then obtain j' where j': "j < j'" "j' < dg_pin_waveform_ends g ! i" "event_cycle la events j' = event_cycle la events j"
    by (auto simp: cycle_peers_def)
  then show "j + 1 < dg_pin_waveform_ends g ! i \<and> event_cycle la events j = event_cycle la events (j + 1)"
    using same_between [OF assms(1), of j "j + 1" j'] assms(2-) by auto
next
  assume "j + 1 < dg_pin_waveform_ends g ! i \<and> event_cycle la events j = event_cycle la events (j + 1)"
  then show "\<exists>j' \<in> cycle_peers la g events i j. j < j'"
    using assms(2-) by (intro bexI [of _ "j + 1"]) (auto simp: cycle_peers_def)
qed

text \<open>
  A thread that starts at a border of cycles has counted, when it comes to an event, all events of its cycle so far.
\<close>

definition cycle_border :: "Launch \<Rightarrow> DevGate \<Rightarrow> Event list \<Rightarrow> nat \<Rightarrow> int \<Rightarrow> bool" where
  "cycle_border la g events i f \<longleftrightarrow> dg_pin_waveform_starts g ! i < f \<and>
     (f - 1 = dg_pin_waveform_starts g ! i \<or> f = dg_pin_waveform_ends g ! i \<or>
      event_cycle la events (f - 1) < event_cycle la events f)"

lemma counted_peers:
  assumes pin: "dynamic_pin la g events i" and j: "f \<le> j" "j < dg_pin_waveform_ends g ! i"
    and border: "cycle_border la g events i f"
  shows "counted la events f j = {j' \<in> cycle_peers la g events i j. j' \<le> j}"
proof -
  have f: "dg_pin_waveform_starts g ! i < f" using border by (simp add: cycle_border_def)
  have "f \<le> j'" if j': "dg_pin_waveform_starts g ! i < j'" "j' \<le> j" "event_cycle la events j' = event_cycle la events j" for j'
  proof (rule ccontr)
    assume "\<not> f \<le> j'"
    then show False
      using same_between [OF pin, of j' "f - 1" j] same_between [OF pin, of j' f j] j' f j border by (auto simp: cycle_border_def)
  qed
  then show ?thesis using f j by (auto simp: counted_def cycle_peers_def)
qed

section \<open>Lemmas: the ratio of an event\<close>

lemma to_short_small: "0 \<le> n \<Longrightarrow> n < 2 ^ 15 \<Longrightarrow> to_short n = n"
  by (simp add: to_short_def)

lemma glitch_ratio_positive:
  assumes "x \<noteq> 0"
  shows "0 < getTimeBasedGlitchScalingRatio_dev x slews" "0 < getTimeBasedGlitchScalingRatioH x slews"
proof -
  have "0 < x * 2 / slews * (x * 2 / slews)" if "slews \<noteq> 0"
  proof -
    have "x * 2 / slews \<noteq> 0" using assms that by simp
    then show ?thesis using not_real_square_gt_zero by blast
  qed
  then show "0 < getTimeBasedGlitchScalingRatio_dev x slews" "0 < getTimeBasedGlitchScalingRatioH x slews"
    unfolding getTimeBasedGlitchScalingRatio_dev_def getTimeBasedGlitchScalingRatioH_def Let_def by simp_all
qed

lemma scaled_ratio_positive:
  assumes "0 < la_time_scale la" "0 < width"
  shows "0 < scaled_ratio la g i width"
  using assms by (simp add: scaled_ratio_def INVALID_PULSE_WIDTH_def glitch_ratio_positive)

text \<open>With the right count, the ratio of an event is positive exactly if the event is a glitch by the rule of the host.\<close>

lemma counted_ratio:
  assumes pin: "dynamic_pin la g events i" and clock: "\<not> dg_pin_is_clocks g ! i"
    and j: "f \<le> j" "j < dg_pin_waveform_ends g ! i" and border: "cycle_border la g events i f"
    and count: "(if p0 = event_cycle la events j then c0 + 1 else 1) = int (card (counted la events f j))"
    and res: "getGlitchScalingRatioClockCycleBasedOnDeviceOnly la g events p0 c0 j i = (ratio, p, c)"
  shows "p = event_cycle la events j" "c = int (card (counted la events f j))"
    and "0 < ratio \<longleftrightarrow> dev_is_glitch la g events i j"
proof -
  define s where "s = dg_pin_waveform_starts g ! i"
  define e where "e = dg_pin_waveform_ends g ! i"
  define n where "n = card (counted la events f j)"
  define cyc where "cyc = event_cycle la events"
  define peers where "peers = cycle_peers la g events i j"
  have s: "s < f" "s < j" using border j by (auto simp: cycle_border_def s_def)
  have peers: "counted la events f j = {j' \<in> peers. j' \<le> j}" unfolding peers_def by (rule counted_peers [OF pin j border])
  have fin: "finite peers" by (rule finite_subset [of _ "{s<..<e}"]) (auto simp: peers_def cycle_peers_def s_def e_def)
  have "n \<le> card peers" unfolding n_def peers by (rule card_mono [OF fin]) auto
  then have small: "n < 2 ^ 15" using event_changes(2) [OF pin, of j] s j unfolding s_def peers_def by linarith
  have "j \<in> counted la events f j" using j by (simp add: counted_def)
  then have n: "0 < n" unfolding n_def by (intro card_gt_0_iff [THEN iffD2]) auto
  have next_peer: "(\<exists>j' \<in> peers. j < j') \<longleftrightarrow> j + 1 < e \<and> cyc j = cyc (j + 1)"
    using later_peer [OF pin, of j] s j by (simp add: peers_def s_def e_def cyc_def)
  have last_count: "card peers = n" if "\<not> (j + 1 < e \<and> cyc j = cyc (j + 1))"
  proof -
    have "\<forall>j' \<in> peers. j' \<le> j" using that next_peer by (meson not_less)
    then have "{j' \<in> peers. j' \<le> j} = peers" by blast
    then show ?thesis by (simp add: n_def peers)
  qed
  have prev_peer: "s \<le> j - 1 \<and> cyc j = cyc (j - 1)" if "even n"
  proof -
    have "f < j"
    proof (rule ccontr)
      assume "\<not> f < j"
      then have "counted la events f j = {j}" using j by (auto simp: counted_def)
      then show False using that by (simp add: n_def)
    qed
    then show ?thesis using counted_next [OF pin, of f j] s j that by (auto simp: n_def cyc_def s_def split: if_splits)
  qed
  have odd: "c_odd (int n) \<longleftrightarrow> odd n" using n unfolding c_odd_def by presburger
  define has_next where "has_next \<longleftrightarrow> j + 1 < e \<and> cyc j = cyc (j + 1)"
  define prev_width where "prev_width = (if s \<le> j - 1 \<and> cyc j = cyc (j - 1)
    then ev_time (events ! nat j) - ev_time (events ! nat (j - 1)) else INVALID_PULSE_WIDTH)"
  define next_width where "next_width = (if has_next \<and> ((j + 2 < e \<and> cyc j = cyc (j + 2)) \<or> c_odd (int n))
    then ev_time (events ! nat (j + 1)) - ev_time (events ! nat j) else INVALID_PULSE_WIDTH)"
  have c: "(if cyc j = p0 then to_short (c0 + 1) else 1) = int n"
    using count small by (auto simp: n_def [symmetric] cyc_def to_short_small split: if_splits)
  have "getGlitchScalingRatioClockCycleBasedOnDeviceOnly la g events p0 c0 j i =
      (if \<not> has_next \<and> c_odd (int n) then INVALID_N_TOGGLE_VAL else scaled_ratio la g i (max prev_width next_width),
       cyc j, int n)"
    unfolding getGlitchScalingRatioClockCycleBasedOnDeviceOnly_def Let_def cyc_def [symmetric] c s_def [symmetric] e_def [symmetric]
      prev_width_def next_width_def has_next_def using clock by simp
  then have r: "ratio = (if \<not> has_next \<and> c_odd (int n) then INVALID_N_TOGGLE_VAL
      else scaled_ratio la g i (max prev_width next_width))" "p = cyc j" "c = int n" using res by simp_all
  then show "p = event_cycle la events j" "c = int (card (counted la events f j))" by (simp_all add: cyc_def n_def)
  have before: "ev_time (events ! nat (j - 1)) < ev_time (events ! nat j)" if "s \<le> j - 1"
    by (rule times_less [OF pin]) (use that j in \<open>simp_all add: s_def\<close>)
  have after: "ev_time (events ! nat j) < ev_time (events ! nat (j + 1))" if "j + 1 < e"
    by (rule times_less [OF pin]) (use that s in \<open>simp_all add: s_def e_def\<close>)
  have widths: "0 < prev_width \<or> 0 < next_width" if "has_next \<or> even n"
  proof (cases "even n")
    case True
    then show ?thesis using before prev_peer unfolding prev_width_def by simp
  next
    case False
    then show ?thesis using that odd after unfolding next_width_def has_next_def by simp
  qed
  have "0 < max prev_width next_width" if "has_next \<or> even n"
    using widths [OF that] by linarith
  moreover have "0 < la_time_scale la" using dynamic_gate(1) [OF pin] by (simp add: dev_gate_ok_def)
  ultimately have "0 < ratio \<longleftrightarrow> has_next \<or> even n"
    unfolding r(1) odd by (simp add: scaled_ratio_positive INVALID_N_TOGGLE_VAL_def)
  also have "\<dots> \<longleftrightarrow> dev_is_glitch la g events i j"
    using last_count next_peer clock unfolding dev_is_glitch_def peers_def [symmetric] has_next_def by blast
  finally show "0 < ratio \<longleftrightarrow> dev_is_glitch la g events i j" .
qed
section \<open>Lemmas: the switching power of a time\<close>

abbreviation pin_ratio :: "Launch \<Rightarrow> DevGate \<Rightarrow> Event list \<Rightarrow> ThreadState \<Rightarrow> nat \<Rightarrow> real \<times> int \<times> int" where
  "pin_ratio la g events th i \<equiv> getGlitchScalingRatioClockCycleBasedOnDeviceOnly la g events
     (th_periods th ! i) (th_counts th ! i) (th_frontiers th ! i) i"

definition pin_plain :: "Launch \<Rightarrow> DevGate \<Rightarrow> Event list \<Rightarrow> ThreadState \<Rightarrow> nat \<Rightarrow> real" where
  "pin_plain la g events th i =
     (if i < dg_n_input_pin g \<or> 0 < fst (pin_ratio la g events th i) then 0
      else getNRise (th_states th ! i) (ev_val (events ! nat (th_frontiers th ! i))) * getSingleRiseTransitionEnergy g i)"

lemma thread_add_sums:
  "th_switching (thread_add_internal la t e r th) = th_switching th"
  "th_periods (thread_add_internal la t e r th) = th_periods th" "th_counts (thread_add_internal la t e r th) = th_counts th"
  "th_periods (thread_add_switching la g i t n r th) = th_periods th" "th_counts (thread_add_switching la g i t n r th) = th_counts th"
  by (simp_all add: thread_add_internal_def thread_add_switching_def Let_def)

lemma thread_add_switching_sum:
  "0 \<le> n \<Longrightarrow> th_switching (thread_add_switching la g i t n r th) =
    th_switching th + (if 0 < r then 0 else n * getSingleRiseTransitionEnergy g i) / kernel_sim_seconds la"
  by (auto simp: thread_add_switching_def Let_def)

lemma thread_pin_switching:
  assumes run: "thread_pin la g events t before i th = Inr th'"
    and vals: "th_states th ! i \<in> {0, 1, 2}" "ev_val (events ! nat (th_frontiers th ! i)) \<in> {0, 1, 2}"
    and change: "th_states th ! i \<noteq> ev_val (events ! nat (th_frontiers th ! i))"
  shows "th_switching th' = th_switching th + pin_plain la g events th i / kernel_sim_seconds la"
    and "th_periods th' = (th_periods th)[i := fst (snd (pin_ratio la g events th i))]"
    and "th_counts th' = (th_counts th)[i := snd (snd (pin_ratio la g events th i))]"
proof -
  define new where "new = ev_val (events ! nat (th_frontiers th ! i))"
  define old where "old = th_states th ! i"
  obtain ratio p c where r: "pin_ratio la g events th i = (ratio, p, c)" by (cases "pin_ratio la g events th i")
  note tables = toggle_returns [OF vals] edge_returns [OF vals] rise_returns [OF vals]
  have toggle: "getNToggle old new \<noteq> 0" using change by (simp add: getNToggle_def old_def new_def)
  have res: "th_switching th' = th_switching th + (if i < dg_n_input_pin g \<or> 0 < ratio then 0
        else getNRise old new * getSingleRiseTransitionEnergy g i) / kernel_sim_seconds la \<and>
      th_periods th' = (th_periods th)[i := p] \<and> th_counts th' = (th_counts th)[i := c]"
    using run tables toggle r unfolding thread_pin_def Let_def old_def [symmetric] new_def [symmetric]
    by (auto simp: thread_add_sums thread_add_switching_sum getNRise_nonneg split: if_splits prod.splits sum.splits
        elim!: res_bind_InrE)
  then show "th_switching th' = th_switching th + pin_plain la g events th i / kernel_sim_seconds la"
      "th_periods th' = (th_periods th)[i := fst (snd (pin_ratio la g events th i))]"
      "th_counts th' = (th_counts th)[i := snd (snd (pin_ratio la g events th i))]"
    by (simp_all add: r pin_plain_def old_def new_def)
qed
lemma thread_pins_switching:
  assumes ok: "fused_ok la g events"
  shows "distinct is \<Longrightarrow>
    \<forall>i \<in> set is. i < dg_n_pin g \<and> i < length (th_states th) \<and> i < length (th_frontiers th) \<and>
      i < length (th_periods th) \<and> i < length (th_counts th) \<and>
      th_states th ! i \<in> {0, 1, 2} \<and> ev_val (events ! nat (th_frontiers th ! i)) \<in> {0, 1, 2} \<and>
      th_states th ! i \<noteq> ev_val (events ! nat (th_frontiers th ! i)) \<Longrightarrow>
    thread_pins la g events t before is th = Inr th' \<Longrightarrow>
    th_switching th' = th_switching th + (\<Sum>i \<leftarrow> is. pin_plain la g events th i) / kernel_sim_seconds la \<and>
    length (th_periods th') = length (th_periods th) \<and> length (th_counts th') = length (th_counts th) \<and>
    (\<forall>k. th_periods th' ! k = (if k \<in> set is then fst (snd (pin_ratio la g events th k)) else th_periods th ! k) \<and>
       th_counts th' ! k = (if k \<in> set is then snd (snd (pin_ratio la g events th k)) else th_counts th ! k))"
proof (induction "is" arbitrary: th)
  case (Cons i "is")
  obtain th1 where th1: "thread_pin la g events t before i th = Inr th1"
      "th_states th1 = (th_states th)[i := ev_val (events ! nat (th_frontiers th ! i))]"
      "th_frontiers th1 = (th_frontiers th)[i := th_frontiers th ! i + 1]"
    using thread_pin_effect [OF ok, of i th t before] Cons.prems(2) by auto
  have "th_states th ! i \<in> {0, 1, 2}" "ev_val (events ! nat (th_frontiers th ! i)) \<in> {0, 1, 2}"
      "th_states th ! i \<noteq> ev_val (events ! nat (th_frontiers th ! i))" using Cons.prems(2) by simp_all
  note sums = thread_pin_switching [OF th1(1) this]
  have new: "i \<notin> set is" "distinct is" using Cons.prems(1) by simp_all
  have same: "th_states th1 ! k = th_states th ! k" "th_frontiers th1 ! k = th_frontiers th ! k"
      "th_periods th1 ! k = th_periods th ! k" "th_counts th1 ! k = th_counts th ! k" if "k \<noteq> i" for k
    using that by (simp_all add: th1(2,3) sums(2,3))
  have plain: "pin_plain la g events th1 k = pin_plain la g events th k" if "k \<in> set is" for k
  proof -
    have "k \<noteq> i" using that new(1) by blast
    then show ?thesis by (simp add: pin_plain_def same)
  qed
  have ready: "\<forall>k \<in> set is. k < dg_n_pin g \<and> k < length (th_states th1) \<and> k < length (th_frontiers th1) \<and>
      k < length (th_periods th1) \<and> k < length (th_counts th1) \<and>
      th_states th1 ! k \<in> {0, 1, 2} \<and> ev_val (events ! nat (th_frontiers th1 ! k)) \<in> {0, 1, 2} \<and>
      th_states th1 ! k \<noteq> ev_val (events ! nat (th_frontiers th1 ! k))"
  proof
    fix k assume k: "k \<in> set is"
    then have "k \<noteq> i" using new(1) by blast
    then show "k < dg_n_pin g \<and> k < length (th_states th1) \<and> k < length (th_frontiers th1) \<and>
      k < length (th_periods th1) \<and> k < length (th_counts th1) \<and>
      th_states th1 ! k \<in> {0, 1, 2} \<and> ev_val (events ! nat (th_frontiers th1 ! k)) \<in> {0, 1, 2} \<and>
      th_states th1 ! k \<noteq> ev_val (events ! nat (th_frontiers th1 ! k))"
      using Cons.prems(2) k by (simp add: same th1(2,3) sums(2,3))
  qed
  have run: "thread_pins la g events t before is th1 = Inr th'" using Cons.prems(3) th1(1) by simp
  note tail = Cons.IH [OF new(2) ready run]
  have "(\<Sum>k \<leftarrow> is. pin_plain la g events th1 k) = (\<Sum>k \<leftarrow> is. pin_plain la g events th k)"
    using plain by (simp cong: map_cong)
  then have "th_switching th' = th_switching th + (\<Sum>k \<leftarrow> i # is. pin_plain la g events th k) / kernel_sim_seconds la"
    using tail sums(1) by (simp add: add_divide_distrib)
  moreover have "th_periods th' ! k = (if k \<in> set (i # is) then fst (snd (pin_ratio la g events th k)) else th_periods th ! k) \<and>
       th_counts th' ! k = (if k \<in> set (i # is) then snd (snd (pin_ratio la g events th k)) else th_counts th ! k)" for k
  proof (cases "k = i")
    case True
    then show ?thesis using tail new(1) Cons.prems(2) by (simp add: sums(2,3))
  next
    case False
    then show ?thesis using tail same [OF False] by simp
  qed
  ultimately show ?case using tail sums(2,3) by simp
qed simp
section \<open>Lemmas: a time of the loop\<close>

lemma dev_front_mono:
  assumes "dev_gate_ok la g events" "i < dg_n_pin g" "has_waveform g i" "t \<le> t'"
  shows "dev_front g events i t \<le> dev_front g events i t'"
proof (rule ccontr)
  assume less: "\<not> dev_front g events i t \<le> dev_front g events i t'"
  note bounds = dev_front_bounds [OF assms(1-3)]
  have j: "dg_pin_waveform_starts g ! i < dev_front g events i t'" "dev_front g events i t' < dg_pin_waveform_ends g ! i"
    using less bounds(1) [of t'] bounds(2) [of t] by simp_all
  have "ev_time (events ! nat (dev_front g events i t')) \<le> t'"
    using dev_front_passed [OF assms(1-3) j, of t] less assms(4) by simp
  then show False using dev_front_passed [OF assms(1-3) j, of t'] by simp
qed

text \<open>The counters of a thread that started at \<open>a\<close> and has taken the events up to \<open>T\<close>.\<close>

definition counts_inv :: "Launch \<Rightarrow> DevGate \<Rightarrow> Event list \<Rightarrow> int \<Rightarrow> int \<Rightarrow> ThreadState \<Rightarrow> bool" where
  "counts_inv la g events a T th \<longleftrightarrow> length (th_periods th) = dg_n_pin g \<and> length (th_counts th) = dg_n_pin g \<and>
     (\<forall>i < dg_n_pin g. has_waveform g i \<longrightarrow> \<not> dg_pin_is_clocks g ! i \<longrightarrow>
        (if dev_front g events i (a - 1) < dev_front g events i T
         then th_periods th ! i = event_cycle la events (dev_front g events i T - 1) \<and>
           th_counts th ! i = int (card (counted la events (dev_front g events i (a - 1)) (dev_front g events i T - 1)))
         else th_periods th ! i = INVALID_N_PERIOD_VAL))"

definition thread_border :: "Launch \<Rightarrow> DevGate \<Rightarrow> Event list \<Rightarrow> int \<Rightarrow> bool" where
  "thread_border la g events a \<longleftrightarrow>
     (\<forall>i < dg_n_pin g. has_waveform g i \<longrightarrow> cycle_border la g events i (dev_front g events i (a - 1)))"

lemma next_count:
  assumes dyn: "dynamic_ok la g events" and i: "i < dg_n_pin g" "has_waveform g i" "\<not> dg_pin_is_clocks g ! i"
    and counts: "counts_inv la g events a T th" and a: "a - 1 \<le> T"
    and j: "j = dev_front g events i T" "j < dg_pin_waveform_ends g ! i"
  shows "(if th_periods th ! i = event_cycle la events j then th_counts th ! i + 1 else 1)
    = int (card (counted la events (dev_front g events i (a - 1)) j))"
proof -
  have pin: "dynamic_pin la g events i" using dyn i by (simp add: dynamic_pin_def)
  note gate = dynamic_gate(1) [OF pin]
  define f where "f = dev_front g events i (a - 1)"
  have f: "dg_pin_waveform_starts g ! i < f" "f \<le> j"
    using dev_front_bounds(1) [OF gate i(1,2)] dev_front_mono [OF gate i(1,2) a] j(1) by (simp_all add: f_def)
  show ?thesis
  proof (cases "f < j")
    case True
    then have "th_periods th ! i = event_cycle la events (j - 1)" "th_counts th ! i = int (card (counted la events f (j - 1)))"
      using counts i j(1) unfolding counts_inv_def f_def by simp_all
    then show ?thesis using counted_next [OF pin f(1) True j(2)] by (simp add: f_def [symmetric])
  next
    case False
    have "0 \<le> event_cycle la events j" by (rule cycles_mono(2) [OF pin _ order_refl j(2)]) (use f in simp)
    moreover have "th_periods th ! i = INVALID_N_PERIOD_VAL"
      using counts i False j(1) unfolding counts_inv_def f_def by simp
    ultimately have "th_periods th ! i \<noteq> event_cycle la events j" by (simp add: INVALID_N_PERIOD_VAL_def)
    moreover have "counted la events f j = {j}" using False f(2) by (auto simp: counted_def)
    ultimately show ?thesis by (simp add: f_def [symmetric])
  qed
qed

text \<open>A triggered pin: its ratio tells a glitch, and its counter then holds the events of its cycle.\<close>

lemma hit_ratio:
  assumes dyn: "dynamic_ok la g events" and i: "i < dg_n_pin g" "has_waveform g i"
    and inv: "thread_inv la g events a T P th" "counts_inv la g events a T th" "a - 1 \<le> T"
    and border: "thread_border la g events a" and j: "th_frontiers th ! i < dg_pin_waveform_ends g ! i"
  shows "pin_plain la g events th i = plain_energy la g events i (th_frontiers th ! i)"
    and "\<not> dg_pin_is_clocks g ! i \<Longrightarrow> fst (snd (pin_ratio la g events th i)) = event_cycle la events (th_frontiers th ! i) \<and>
      snd (snd (pin_ratio la g events th i)) = int (card (counted la events (dev_front g events i (a - 1)) (th_frontiers th ! i)))"
proof -
  have pin: "dynamic_pin la g events i" using dyn i by (simp add: dynamic_pin_def)
  note gate = dynamic_gate(1) [OF pin]
  define j where "j = th_frontiers th ! i"
  have front: "j = dev_front g events i T" using inv(1) i by (simp add: thread_inv_def j_def)
  have f: "dev_front g events i (a - 1) \<le> j" using dev_front_mono [OF gate i inv(3)] front by simp
  obtain ratio p c where r: "pin_ratio la g events th i = (ratio, p, c)" by (cases "pin_ratio la g events th i")
  have "cycle_border la g events i (dev_front g events i (a - 1))" using border i by (simp add: thread_border_def)
  note ratio = counted_ratio [OF pin _ f _ this, of "th_periods th ! i" "th_counts th ! i" ratio p c]
  note count = next_count [OF dyn i _ inv(2,3) front]
  have "th_states th ! i = ev_val (events ! nat (j - 1))"
    using inv(1) i front by (simp add: thread_inv_def dev_states_at_def dev_state_at_def)
  moreover have "0 < ratio \<longleftrightarrow> dev_is_glitch la g events i j"
  proof (cases "dg_pin_is_clocks g ! i")
    case True
    then show ?thesis using r
      by (simp add: dev_is_glitch_def getGlitchScalingRatioClockCycleBasedOnDeviceOnly_def INVALID_N_TOGGLE_VAL_def)
  next
    case False
    then show ?thesis using ratio(3) [OF False] count [OF False] j r by (simp add: j_def)
  qed
  ultimately show "pin_plain la g events th i = plain_energy la g events i (th_frontiers th ! i)"
    unfolding pin_plain_def plain_energy_def r fst_conv j_def by simp
  show "fst (snd (pin_ratio la g events th i)) = event_cycle la events (th_frontiers th ! i) \<and>
      snd (snd (pin_ratio la g events th i)) = int (card (counted la events (dev_front g events i (a - 1)) (th_frontiers th ! i)))"
    if "\<not> dg_pin_is_clocks g ! i"
    using ratio(1,2) [OF that] count [OF that] j r by (simp add: j_def)
qed
text \<open>The energies of a time: those of the triggered pins, and none between two times of the loop.\<close>

lemma quiet_energy:
  assumes "\<And>i. i < dg_n_pin g \<Longrightarrow> has_waveform g i \<Longrightarrow> dev_front g events i t = dev_front g events i (t - 1)"
  shows "plain_energy_at la g events t = 0"
  unfolding plain_energy_at_def by (rule sum.neutral) (simp add: assms)

lemma hit_energy:
  assumes ok: "dev_gate_ok la g events" and inv: "thread_inv la g events a T P th"
    and c: "c = next_event_time la g events b th" "c \<noteq> la_max_time la + 10"
  shows "plain_energy_at la g events c = (\<Sum>i \<in> {i. i < dg_n_pin g \<and> thread_hit g events b th c i}.
      plain_energy la g events i (th_frontiers th ! i))"
    and "T < t \<Longrightarrow> t < c \<Longrightarrow> plain_energy_at la g events t = 0"
proof -
  note next_facts = thread_next [OF ok inv c]
  have still: "dev_front g events i t = dev_front g events i T" if "T \<le> t" "t < c" "i < dg_n_pin g" "has_waveform g i" for i t
    by (rule front_move(1) [OF ok that(3,4) next_facts(5) [OF that(3,4)] next_facts(1,3) that(1,2)])
  show "plain_energy_at la g events t = 0" if "T < t" "t < c"
  proof (rule quiet_energy)
    fix i assume i: "i < dg_n_pin g" "has_waveform g i"
    have "dev_front g events i t = dev_front g events i T" by (rule still [OF _ _ i]) (use that in auto)
    moreover have "dev_front g events i (t - 1) = dev_front g events i T" by (rule still [OF _ _ i]) (use that in auto)
    ultimately show "dev_front g events i t = dev_front g events i (t - 1)" by simp
  qed
  have hit: "thread_hit g events b th c i \<longleftrightarrow> has_waveform g i \<and> dev_front g events i T < pin_end g events b i \<and>
      ev_time (events ! nat (dev_front g events i T)) = c" if "i < dg_n_pin g" for i
    using next_facts(6) [OF that] inv that by (auto simp: thread_hit_def thread_inv_def)
  have one: "(\<Sum>j = dev_front g events i (c - 1)..<dev_front g events i c. plain_energy la g events i j) =
      (if thread_hit g events b th c i then plain_energy la g events i (th_frontiers th ! i) else 0)"
    if i: "i < dg_n_pin g" "has_waveform g i" for i
  proof -
    have "dev_front g events i (c - 1) = dev_front g events i T" by (rule still [OF _ _ i]) (use next_facts(1) in auto)
    moreover have "dev_front g events i c = dev_front g events i T + (if thread_hit g events b th c i then 1 else 0)"
      using front_move(2) [OF ok i next_facts(5) [OF i] next_facts(1,3)] hit [OF i(1)] i by simp
    moreover have "{j..<j + 1 :: int} = {j}" for j by auto
    moreover have "th_frontiers th ! i = dev_front g events i T" using inv i by (simp add: thread_inv_def)
    ultimately show ?thesis by simp
  qed
  have "plain_energy_at la g events c = (\<Sum>i \<in> {i. i < dg_n_pin g \<and> has_waveform g i}.
      if thread_hit g events b th c i then plain_energy la g events i (th_frontiers th ! i) else 0)"
    unfolding plain_energy_at_def using one by (intro sum.cong) auto
  also have "\<dots> = (\<Sum>i \<in> {i \<in> {i. i < dg_n_pin g \<and> has_waveform g i}. thread_hit g events b th c i}.
      plain_energy la g events i (th_frontiers th ! i))" by (rule sum.inter_filter [symmetric]) simp
  also have "{i \<in> {i. i < dg_n_pin g \<and> has_waveform g i}. thread_hit g events b th c i} =
      {i. i < dg_n_pin g \<and> thread_hit g events b th c i}" using hit by auto
  finally show "plain_energy_at la g events c = (\<Sum>i \<in> {i. i < dg_n_pin g \<and> thread_hit g events b th c i}.
      plain_energy la g events i (th_frontiers th ! i))" .
qed

text \<open>A triggered pin of a thread has a waveform, and its frontier is an event that changes its state.\<close>

lemma hit_event:
  assumes dyn: "dynamic_ok la g events" and inv: "thread_inv la g events a T P th"
    and c: "c = next_event_time la g events b th" "c \<noteq> la_max_time la + 10"
    and i: "i < dg_n_pin g" "thread_hit g events b th c i"
  shows "has_waveform g i" "th_frontiers th ! i = dev_front g events i T" "th_frontiers th ! i < dg_pin_waveform_ends g ! i"
    and "th_states th ! i \<noteq> ev_val (events ! nat (th_frontiers th ! i))"
    and "dev_front g events i c = th_frontiers th ! i + 1"
proof -
  have ok: "dev_gate_ok la g events" using dyn by (simp add: dynamic_ok_def fused_ok_def)
  note next_facts = thread_next [OF ok inv c]
  show w: "has_waveform g i" using i by (simp add: thread_hit_def pin_pending_def)
  show front: "th_frontiers th ! i = dev_front g events i T" using inv i w by (simp add: thread_inv_def)
  have pending: "dev_front g events i T < pin_end g events b i" using next_facts(6) [OF i(1)] i by (simp add: thread_hit_def)
  then show j: "th_frontiers th ! i < dg_pin_waveform_ends g ! i" using pin_end_bounds [OF ok i(1), of b] front by simp
  have "th_states th ! i = ev_val (events ! nat (th_frontiers th ! i - 1))"
    using inv i w front by (simp add: thread_inv_def dev_states_at_def dev_state_at_def)
  moreover have "dynamic_pin la g events i" using dyn i w by (simp add: dynamic_pin_def)
  ultimately show "th_states th ! i \<noteq> ev_val (events ! nat (th_frontiers th ! i))"
    using event_changes(1) [of la g events i "th_frontiers th ! i"] dev_front_bounds(1) [OF ok i(1) w, of T] front j by simp
  show "dev_front g events i c = th_frontiers th ! i + 1"
    using front_move(2) [OF ok i(1) w next_facts(5) [OF i(1) w] next_facts(1,3)] pending i front by (simp add: thread_hit_def)
qed
lemma dynamic_step:
  assumes dyn: "dynamic_ok la g events" and inv: "thread_inv la g events a T P th" "counts_inv la g events a T th" "a - 1 \<le> T"
    and border: "thread_border la g events a"
    and c: "c = next_event_time la g events b th" "c \<noteq> la_max_time la + 10"
    and run: "thread_step la g events c (filter (thread_hit g events b th c) [0..<dg_n_pin g]) hot th = Inr th'"
  shows "th_switching th' = th_switching th + plain_energy_at la g events c / kernel_sim_seconds la"
    and "counts_inv la g events a c th'"
proof -
  have fused: "fused_ok la g events" and ok: "dev_gate_ok la g events" using dyn by (auto simp: dynamic_ok_def fused_ok_def)
  define pins where "pins = sort_triggered (\<lambda>i. th_frontiers th ! i) (filter (thread_hit g events b th c) [0..<dg_n_pin g])"
  have perm: "mset pins = mset (filter (thread_hit g events b th c) [0..<dg_n_pin g])"
    unfolding pins_def by (rule sort_triggered_mset)
  have pins: "distinct pins" "set pins = {i. i < dg_n_pin g \<and> thread_hit g events b th c i}"
    using mset_eq_imp_distinct_iff [OF perm] mset_eq_setD [OF perm] by auto
  note hit = hit_event [OF dyn inv(1) c]
  obtain adds where leak: "thread_leakage la g c th = Inr (th\<lparr>th_leakage := th_leakage th
      + findLeakageVal_dev g (th_states th) * of_int (c - th_prev_time th) / of_int (la_max_time la),
      th_adds := th_adds th @ map (Pair W_leakage) adds\<rparr>)" (is "_ = Inr ?th1")
    using thread_leakage_returns [OF ok, of c th] by blast
  obtain th2 where th2: "thread_pins la g events c (if hot then th_states th else []) pins ?th1 = Inr th2"
      "th' = th2\<lparr>th_prev_time := c\<rparr>"
    using run leak by (auto simp: thread_step_def pins_def)
  have len: "length (th_states th) = dg_n_pin g" "length (th_frontiers th) = dg_n_pin g"
      "length (th_periods th) = dg_n_pin g" "length (th_counts th) = dg_n_pin g"
    using inv by (auto simp: thread_inv_def dev_states_at_def counts_inv_def)
  have ready: "\<forall>i \<in> set pins. i < dg_n_pin g \<and> i < length (th_states ?th1) \<and> i < length (th_frontiers ?th1) \<and>
      i < length (th_periods ?th1) \<and> i < length (th_counts ?th1) \<and>
      th_states ?th1 ! i \<in> {0, 1, 2} \<and> ev_val (events ! nat (th_frontiers ?th1 ! i)) \<in> {0, 1, 2} \<and>
      th_states ?th1 ! i \<noteq> ev_val (events ! nat (th_frontiers ?th1 ! i))"
    using fused_states_ok [OF fused inv(1)] len hit(4) pins(2) by (auto simp: thread_hit_def)
  note sums = thread_pins_switching [OF fused pins(1) ready th2(1)]
  have ratio: "pin_plain la g events th i = plain_energy la g events i (th_frontiers th ! i)"
      "\<not> dg_pin_is_clocks g ! i \<Longrightarrow> fst (snd (pin_ratio la g events th i)) = event_cycle la events (th_frontiers th ! i) \<and>
      snd (snd (pin_ratio la g events th i)) = int (card (counted la events (dev_front g events i (a - 1)) (th_frontiers th ! i)))"
    if "i \<in> set pins" for i
    using hit_ratio [OF dyn _ hit(1) inv border hit(3)] that pins(2) by blast+
  have "(\<Sum>i \<leftarrow> pins. pin_plain la g events th i) = (\<Sum>i \<in> set pins. plain_energy la g events i (th_frontiers th ! i))"
    unfolding sum_list_distinct_conv_sum_set [OF pins(1)] by (rule sum.cong [OF refl ratio(1)])
  moreover have "pin_plain la g events ?th1 = pin_plain la g events th" by (simp add: pin_plain_def fun_eq_iff)
  ultimately show "th_switching th' = th_switching th + plain_energy_at la g events c / kernel_sim_seconds la"
    using sums hit_energy(1) [OF ok inv(1) c] pins(2) by (simp add: th2(2))
  show "counts_inv la g events a c th'"
    unfolding counts_inv_def
  proof (intro conjI allI impI)
    show "length (th_periods th') = dg_n_pin g" "length (th_counts th') = dg_n_pin g" using sums len by (simp_all add: th2(2))
    fix i assume i: "i < dg_n_pin g" "has_waveform g i" "\<not> dg_pin_is_clocks g ! i"
    have upd: "th_periods th' ! i = (if i \<in> set pins then fst (snd (pin_ratio la g events th i)) else th_periods th ! i)"
        "th_counts th' ! i = (if i \<in> set pins then snd (snd (pin_ratio la g events th i)) else th_counts th ! i)"
      using sums by (simp_all add: th2(2))
    show "if dev_front g events i (a - 1) < dev_front g events i c
         then th_periods th' ! i = event_cycle la events (dev_front g events i c - 1) \<and>
           th_counts th' ! i = int (card (counted la events (dev_front g events i (a - 1)) (dev_front g events i c - 1)))
         else th_periods th' ! i = INVALID_N_PERIOD_VAL"
    proof (cases "i \<in> set pins")
      case True
      then have "thread_hit g events b th c i" using pins(2) by simp
      note here = hit [OF i(1) this]
      have "dev_front g events i (a - 1) \<le> dev_front g events i T" by (rule dev_front_mono [OF ok i(1,2) inv(3)])
      then show ?thesis using True ratio(2) [OF True i(3)] here by (simp add: upd)
    next
      case False
      then have "\<not> thread_hit g events b th c i" using pins(2) i by simp
      then have "dev_front g events i c = dev_front g events i T"
        using thread_advance(2) [OF ok inv(1) c i(1,2)] inv(1) i by (simp add: hit_frontiers_def thread_inv_def)
      then show ?thesis using False inv(2) i by (simp add: upd counts_inv_def)
    qed
  qed
qed
section \<open>Lemmas: the switching power of a thread\<close>

lemma kernel_seconds_pos: "dev_gate_ok la g events \<Longrightarrow> 0 < kernel_sim_seconds la"
  by (simp add: dev_gate_ok_def kernel_sim_seconds_def)

lemma sum_ivl_split:
  fixes f :: "int \<Rightarrow> real"
  assumes "a \<le> m" "m \<le> b"
  shows "(\<Sum>t = a..<b. f t) = (\<Sum>t = a..<m. f t) + (\<Sum>t = m..<b. f t)"
proof -
  have "{a..<b} = {a..<m} \<union> {m..<b}" using assms by auto
  then show ?thesis by (simp add: sum.union_disjoint)
qed

lemma energies_extend:
  fixes f :: "int \<Rightarrow> real"
  assumes "a - 1 \<le> T" "T < c" "\<And>t. T < t \<Longrightarrow> t < c \<Longrightarrow> f t = 0"
  shows "(\<Sum>t = a..<c + 1. f t) = (\<Sum>t = a..<T + 1. f t) + f c"
proof -
  have "(\<Sum>t = a..<c + 1. f t) = (\<Sum>t = a..<T + 1. f t) + (\<Sum>t = T + 1..<c. f t) + (\<Sum>t = c..<c + 1. f t)"
    using sum_ivl_split [of a "T + 1" "c + 1" f] sum_ivl_split [of "T + 1" c "c + 1" f] assms(1,2) by simp
  moreover have "(\<Sum>t = T + 1..<c. f t) = 0" by (rule sum.neutral) (use assms(3) in auto)
  moreover have "{c..<c + 1} = {c}" by auto
  ultimately show ?thesis by simp
qed

lemma dynamic_loop:
  assumes dyn: "dynamic_ok la g events" and border: "thread_border la g events a"
  shows "thread_inv la g events a T P th \<Longrightarrow> counts_inv la g events a T th \<Longrightarrow> a - 1 \<le> T \<Longrightarrow> T < b \<Longrightarrow>
    th_switching th * kernel_sim_seconds la = (\<Sum>t = a..<T + 1. plain_energy_at la g events t) \<Longrightarrow>
    thread_pending g events b (th_frontiers th) < fuel \<Longrightarrow>
    \<exists>th' T' P'. thread_loop fuel la g events (thread_ends g events b) th = Inr th' \<and> thread_inv la g events a T' P' th' \<and>
      a - 1 \<le> T' \<and> T' < b \<and> next_event_time la g events b th' = la_max_time la + 10 \<and>
      th_switching th' * kernel_sim_seconds la = (\<Sum>t = a..<T' + 1. plain_energy_at la g events t)"
proof (induction fuel arbitrary: th T P)
  case (Suc fuel)
  have fused: "fused_ok la g events" and ok: "dev_gate_ok la g events" using dyn by (auto simp: dynamic_ok_def fused_ok_def)
  define c where "c = next_event_time la g events b th"
  obtain hot where scan: "scan_pins g events (thread_ends g events b) th [0..<dg_n_pin g] (la_max_time la + 10, [], False) =
      Inr (c, filter (thread_hit g events b th c) [0..<dg_n_pin g], hot)" by (rule fused_scan [OF fused Suc.prems(1) c_def])
  show ?case
  proof (cases "c = la_max_time la + 10")
    case True
    have "thread_loop (Suc fuel) la g events (thread_ends g events b) th = Inr th" using scan True by simp
    then show ?thesis using Suc.prems True unfolding c_def by blast
  next
    case False
    obtain th1 th' where step: "thread_leakage la g c th = Inr th1"
        "thread_step la g events c (filter (thread_hit g events b th c) [0..<dg_n_pin g]) hot th = Inr th'"
      and eff: "th_states th' = hit_states g events b th c" "th_frontiers th' = hit_frontiers g events b th c"
        "th_prev_time th' = c" "th_leakage th' = th_leakage th1"
      by (rule fused_step [OF fused Suc.prems(1)])
    note sums = dynamic_step [OF dyn Suc.prems(1-3) border c_def False step(2)]
    have inv: "thread_inv la g events a c c th'" by (rule thread_time_inv [OF ok Suc.prems(1) c_def False step(1) eff])
    have less: "thread_pending g events b (th_frontiers th') < fuel"
      using thread_pending_decreases [OF c_def False] Suc.prems(6) by (simp add: eff)
    note next_facts = thread_next [OF ok Suc.prems(1) c_def False]
    have "(\<Sum>t = a..<c + 1. plain_energy_at la g events t) =
        (\<Sum>t = a..<T + 1. plain_energy_at la g events t) + plain_energy_at la g events c"
      by (rule energies_extend [OF Suc.prems(3) next_facts(1) hit_energy(2) [OF ok Suc.prems(1) c_def False]])
    then have "th_switching th' * kernel_sim_seconds la = (\<Sum>t = a..<c + 1. plain_energy_at la g events t)"
      using sums(1) Suc.prems(5) kernel_seconds_pos [OF ok] by (simp add: distrib_right)
    from Suc.IH [OF inv sums(2) _ _ this less] next_facts(1,3) Suc.prems(3)
    have "\<exists>th2 T' P'. thread_loop fuel la g events (thread_ends g events b) th' = Inr th2 \<and> thread_inv la g events a T' P' th2 \<and>
      a - 1 \<le> T' \<and> T' < b \<and> next_event_time la g events b th2 = la_max_time la + 10 \<and>
      th_switching th2 * kernel_sim_seconds la = (\<Sum>t = a..<T' + 1. plain_energy_at la g events t)" by simp
    then show ?thesis using scan step(2) False by simp
  qed
qed simp

text \<open>A thread of the fused kernel has the switching power of the events of its times that are no glitches.\<close>

lemma kernel1All_switching:
  assumes dyn: "dynamic_ok la g events" and border: "thread_border la g events a"
    and r: "thread_range la g events k = Some (a, b)" "a \<le> b" "a \<le> la_max_time la"
  shows "\<exists>th. kernel1All la g events k = Inr (Some th) \<and>
    th_switching th = (\<Sum>t = a..<b. plain_energy_at la g events t) / kernel_sim_seconds la"
proof -
  have ok: "dev_gate_ok la g events" using dyn by (simp add: dynamic_ok_def fused_ok_def)
  have inv: "thread_inv la g events a (a - 1) a (thread_initial g events a)" by (rule thread_initial_inv [OF ok r(3)])
  have counts: "counts_inv la g events a (a - 1) (thread_initial g events a)"
    by (simp add: counts_inv_def thread_initial_def)
  obtain th T P where th: "thread_loop (thread_fuel g) la g events (thread_ends g events b) (thread_initial g events a) = Inr th"
      "thread_inv la g events a T P th" "a - 1 \<le> T" "T < b" "next_event_time la g events b th = la_max_time la + 10"
      "th_switching th * kernel_sim_seconds la = (\<Sum>t = a..<T + 1. plain_energy_at la g events t)"
    using dynamic_loop [OF dyn border inv counts _ _ _ thread_pending_initial [OF ok], of b] r(2)
    by (auto simp: thread_initial_def)
  note still = fronts_after_last [OF ok th(2,5)]
  have "plain_energy_at la g events t = 0" if "T < t" "t < b" for t
    by (rule quiet_energy) (use that still [of t] still [of "t - 1"] in auto)
  then have "(\<Sum>t = T + 1..<b. plain_energy_at la g events t) = 0" by (intro sum.neutral) auto
  then have "(\<Sum>t = a..<b. plain_energy_at la g events t) = th_switching th * kernel_sim_seconds la"
    using sum_ivl_split [of a "T + 1" b "plain_energy_at la g events"] th(3,4,6) by simp
  then show ?thesis
    using th(1) thread_leakage_returns [OF ok, of "min b (la_max_time la)" th] r(1) kernel_seconds_pos [OF ok]
    by (auto simp: kernel1All_def thread_ends_def [symmetric])
qed
section \<open>Lemmas: the switching power of all threads\<close>

lemma thread_starts_border:
  assumes dyn: "dynamic_ok la g events"
    and u: "la_unit_per_cycle la = time_unit_per_cycle (la_time_scale la) (la_clk_period la)"
    and r: "thread_range la g events k = Some (a, b)"
  shows "thread_border la g events a"
  unfolding thread_border_def
proof (intro allI impI)
  fix i assume i: "i < dg_n_pin g" "has_waveform g i"
  have pin: "dynamic_pin la g events i" using dyn i by (simp add: dynamic_pin_def)
  note ok = dynamic_gate(1) [OF pin]
  define f where "f = dev_front g events i (a - 1)"
  define U where "U = time_unit_per_cycle (la_time_scale la) (la_clk_period la)"
  obtain p where a: "a = p * U" using r by (auto simp: thread_range_def u U_def split: prod.splits if_splits)
  have scale: "0 < la_time_scale la" "0 < la_clk_period la" using ok by (simp_all add: dev_gate_ok_def)
  then have U: "0 < U" by (simp add: U_def time_unit_per_cycle_def)
  note bounds = dev_front_bounds [OF ok i, of "a - 1", folded f_def]
  note passed = dev_front_passed [OF ok i, of _ "a - 1", folded f_def]
  have "event_cycle la events (f - 1) < event_cycle la events f"
    if "f - 1 \<noteq> dg_pin_waveform_starts g ! i" "f \<noteq> dg_pin_waveform_ends g ! i"
  proof -
    have j: "dg_pin_waveform_starts g ! i < f - 1" "f < dg_pin_waveform_ends g ! i" using that bounds by simp_all
    have "ev_time (events ! nat (f - 1)) < p * U" "p * U \<le> ev_time (events ! nat f)"
      using passed [of "f - 1"] passed [of f] j a by auto
    moreover have "0 \<le> ev_time (events ! nat (f - 1))" "0 \<le> ev_time (events ! nat f)"
      using cycles_mono(3) [OF pin, of "f - 1" "f - 1"] cycles_mono(3) [OF pin, of f f] j by simp_all
    moreover have "ev_time (events ! nat (f - 1)) div U < p"
    proof (rule ccontr)
      assume "\<not> ev_time (events ! nat (f - 1)) div U < p"
      then have "p * U \<le> ev_time (events ! nat (f - 1)) div U * U" using U by (intro mult_right_mono) auto
      also have "\<dots> \<le> ev_time (events ! nat (f - 1))" using U div_mult_mod_eq [of "ev_time (events ! nat (f - 1))" U]
          pos_mod_sign [of U "ev_time (events ! nat (f - 1))"] by linarith
      finally show False using \<open>ev_time (events ! nat (f - 1)) < p * U\<close> by simp
    qed
    moreover have "p \<le> ev_time (events ! nat f) div U"
      using zdiv_mono1 [OF \<open>p * U \<le> ev_time (events ! nat f)\<close> U] U by simp
    ultimately show ?thesis using la_cycle_div [OF scale] by (simp add: U_def)
  qed
  then show "cycle_border la g events i (dev_front g events i (a - 1))"
    using bounds unfolding cycle_border_def f_def by blast
qed

text \<open>The energies over all times are those of all events after the initial states.\<close>

lemma fronts_telescope:
  assumes "dev_gate_ok la g events" "i < dg_n_pin g" "has_waveform g i"
  shows "(\<Sum>t = 0..<int n. \<Sum>j = dev_front g events i (t - 1)..<dev_front g events i t. f j :: real) =
    (\<Sum>j = dev_front g events i (- 1)..<dev_front g events i (int n - 1). f j)"
proof (induction n)
  case (Suc n)
  have "{0..<int (Suc n)} = insert (int n) {0..<int n}" by auto
  then have "(\<Sum>t = 0..<int (Suc n). \<Sum>j = dev_front g events i (t - 1)..<dev_front g events i t. f j) =
      (\<Sum>j = dev_front g events i (int n - 1)..<dev_front g events i (int n). f j) +
      (\<Sum>j = dev_front g events i (- 1)..<dev_front g events i (int n - 1). f j)" by (simp add: Suc)
  also have "\<dots> = (\<Sum>j = dev_front g events i (- 1)..<dev_front g events i (int n). f j)"
    using sum_ivl_split [of "dev_front g events i (- 1)" "dev_front g events i (int n - 1)" "dev_front g events i (int n)" f]
      dev_front_mono [OF assms] by simp
  finally show ?case by simp
qed simp

lemma dev_front_first:
  assumes "dynamic_pin la g events i"
  shows "dev_front g events i (- 1) = dg_pin_waveform_starts g ! i + 1"
proof (rule dev_front_eqI [OF dynamic_gate [OF assms]])
  show "dg_pin_waveform_starts g ! i + 1 \<le> dg_pin_waveform_ends g ! i"
    using dev_gate_wave(2) [OF dynamic_gate [OF assms]] by simp
  show "- 1 < ev_time (events ! nat (dg_pin_waveform_starts g ! i + 1))"
    if "dg_pin_waveform_starts g ! i + 1 < dg_pin_waveform_ends g ! i"
    using cycles_mono(3) [OF assms _ order_refl that] by simp
qed simp_all

lemma dev_front_last:
  assumes "dynamic_pin la g events i" "la_max_time la \<le> t"
  shows "dev_front g events i t = dg_pin_waveform_ends g ! i"
proof (rule dev_front_eqI [OF dynamic_gate [OF assms(1)]])
  show "dg_pin_waveform_starts g ! i < dg_pin_waveform_ends g ! i"
    using dev_gate_wave(2) [OF dynamic_gate [OF assms(1)]] .
  show "ev_time (events ! nat j) \<le> t" if "dg_pin_waveform_starts g ! i < j" "j < dg_pin_waveform_ends g ! i" for j
    using dev_gate_wave(3) [OF dynamic_gate [OF assms(1)], of j] that assms(2) by simp
qed simp_all

definition plain_total :: "Launch \<Rightarrow> DevGate \<Rightarrow> Event list \<Rightarrow> real" where
  "plain_total la g events = (\<Sum>i \<in> {i. i < dg_n_pin g \<and> has_waveform g i}.
     \<Sum>j = dg_pin_waveform_starts g ! i + 1..<dg_pin_waveform_ends g ! i. plain_energy la g events i j)"

lemma plain_energies_total:
  assumes dyn: "dynamic_ok la g events"
  shows "(\<Sum>t = 0..<la_max_time la + 1. plain_energy_at la g events t) = plain_total la g events"
    and "la_max_time la < t \<Longrightarrow> plain_energy_at la g events t = 0"
proof -
  have ok: "dev_gate_ok la g events" using dyn by (simp add: dynamic_ok_def fused_ok_def)
  have pin: "dynamic_pin la g events i" if "i < dg_n_pin g" "has_waveform g i" for i using dyn that by (simp add: dynamic_pin_def)
  show "plain_energy_at la g events t = 0" if "la_max_time la < t"
    by (rule quiet_energy) (use that dev_front_last [OF pin] in simp)
  define n where "n = nat (la_max_time la + 1)"
  have n: "int n = la_max_time la + 1" using ok by (simp add: n_def dev_gate_ok_def)
  have "(\<Sum>t = 0..<int n. plain_energy_at la g events t) = (\<Sum>i \<in> {i. i < dg_n_pin g \<and> has_waveform g i}.
      \<Sum>t = 0..<int n. \<Sum>j = dev_front g events i (t - 1)..<dev_front g events i t. plain_energy la g events i j)"
    unfolding plain_energy_at_def by (rule sum.swap)
  also have "\<dots> = plain_total la g events"
    unfolding plain_total_def
  proof (rule sum.cong [OF refl])
    fix i assume "i \<in> {i. i < dg_n_pin g \<and> has_waveform g i}"
    then have i: "i < dg_n_pin g" "has_waveform g i" by simp_all
    show "(\<Sum>t = 0..<int n. \<Sum>j = dev_front g events i (t - 1)..<dev_front g events i t. plain_energy la g events i j) =
        (\<Sum>j = dg_pin_waveform_starts g ! i + 1..<dg_pin_waveform_ends g ! i. plain_energy la g events i j)"
      unfolding fronts_telescope [OF ok i] using dev_front_first [OF pin [OF i]] dev_front_last [OF pin [OF i]] n by simp
  qed
  finally show "(\<Sum>t = 0..<la_max_time la + 1. plain_energy_at la g events t) = plain_total la g events" by (simp add: n)
qed
lemma threads_switching_total:
  assumes dyn: "dynamic_ok la g events" and launch: "launch_ok la g" "la_basis la = PB_cycle" and whole: "whole_simulation la"
    and u: "la_unit_per_cycle la = time_unit_per_cycle (la_time_scale la) (la_clk_period la)"
  shows "(\<Sum>k < gate_threads la g. kind_result K_fused W_switching (thread_result (kernel1All la g events k))) =
    plain_total la g events / kernel_sim_seconds la"
proof -
  define m where "m = la_max_time la + 1"
  note range = cycle_thread_range [OF launch whole]
  have part: "kind_result K_fused W_switching (thread_result (kernel1All la g events k)) =
      (case thread_range la g events k of None \<Rightarrow> 0
       | Some (a, b) \<Rightarrow> \<Sum>t = a..<min b m. plain_energy_at la g events t) / kernel_sim_seconds la" for k
  proof (cases "thread_range la g events k")
    case None
    then show ?thesis by (simp add: kernel1All_def kind_result_def thread_result_def)
  next
    case (Some r)
    obtain a b where r: "thread_range la g events k = Some (a, b)" using Some by (cases r) auto
    obtain th where th: "kernel1All la g events k = Inr (Some th)"
        "th_switching th = (\<Sum>t = a..<b. plain_energy_at la g events t) / kernel_sim_seconds la"
      using kernel1All_switching [OF dyn thread_starts_border [OF dyn u r] r] range(2,3) [OF r] by blast
    have "(\<Sum>t = min b m..<b. plain_energy_at la g events t) = 0"
      by (rule sum.neutral) (use plain_energies_total(2) [OF dyn] in \<open>auto simp: m_def\<close>)
    then have "(\<Sum>t = a..<b. plain_energy_at la g events t) = (\<Sum>t = a..<min b m. plain_energy_at la g events t)"
      using sum_ivl_split [of a "min b m" b "plain_energy_at la g events"] range(2,3) [OF r] by (auto simp: m_def)
    then show ?thesis using th r by (simp add: kind_result_def thread_result_def)
  qed
  have cover: "\<exists>!k. takes_time la g events k t" if "0 \<le> t" "t < m" for t
    using cycle_threads_cover [OF launch, of t] that whole by (simp add: whole_simulation_def m_def)
  show ?thesis
    unfolding part sum_divide_distrib [symmetric]
    by (subst sum_over_threads [OF cover range(1)]) (simp_all add: m_def plain_energies_total(1) [OF dyn])
qed

section \<open>Lemmas: the glitches of the host\<close>

lemma host_glitch_rule:
  assumes ok: "gate_ok env hg" and i: "i < length (g_pins hg)"
    and j: "j < length (gp_events (g_pins hg ! i))"
  shows "pin_glitch_flags env (g_pins hg ! i) ! j \<longleftrightarrow> \<not> gp_is_clock (g_pins hg ! i) \<and> 1 \<le> j \<and>
    (let same = {j'. 1 \<le> j' \<and> j' < length (gp_events (g_pins hg ! i)) \<and>
         cycle_of env (fst (gp_events (g_pins hg ! i) ! j')) = cycle_of env (fst (gp_events (g_pins hg ! i) ! j))}
     in even (card same) \<or> (\<exists>j' \<in> same. j < j'))"
proof -
  have pin: "pin_ok hg env (g_pins hg ! i)" "0 < se_time_scale env" "0 < se_clk_period env"
    using ok i by (auto simp: gate_ok_def)
  show ?thesis
    using glitch_flags_rule [OF pin(2,3), of "map fst (gp_events (g_pins hg ! i))" j] pin(1) j
    by (cases "gp_is_clock (g_pins hg ! i)") (auto simp: pin_glitch_flags_def Let_def pin_ok_def cong: conj_cong)
qed
text \<open>Glitches come in runs: next to one in its cycle there is another.\<close>

lemma glitch_neighbour:
  fixes cyc :: "nat \<Rightarrow> int"
  assumes mono: "\<And>p q. p \<le> q \<Longrightarrow> q < n \<Longrightarrow> cyc p \<le> cyc q" and j: "1 \<le> j" "j < n"
  defines "same \<equiv> \<lambda>j. {j'. 1 \<le> j' \<and> j' < n \<and> cyc j' = cyc j}"
  defines "glitch \<equiv> \<lambda>j. even (card (same j)) \<or> (\<exists>j' \<in> same j. j < j')"
  assumes "glitch j"
  shows "(2 \<le> j \<and> glitch (j - 1)) \<or> (j + 1 < n \<and> glitch (j + 1))"
proof -
  have fin: "finite (same j)" by (simp add: same_def)
  have mem: "j \<in> same j" using j by (simp add: same_def)
  have between: "k \<in> same j" if "p \<in> same j" "q \<in> same j" "p \<le> k" "k \<le> q" for p q k
    using that mono [of p k] mono [of k q] by (auto simp: same_def)
  have eq: "same k = same j" if "k \<in> same j" for k using that by (auto simp: same_def)
  show ?thesis
  proof (cases "\<exists>q \<in> same j. q < j")
    case True
    then obtain q where q: "q \<in> same j" "q < j" by blast
    then have "j - 1 \<in> same j" by (intro between [OF q(1) mem]) auto
    moreover from this have "glitch (j - 1)" using eq [of "j - 1"] mem q j unfolding glitch_def by auto
    ultimately show ?thesis by (auto simp: same_def)
  next
    case False
    then have first: "j \<le> q" if "q \<in> same j" for q using that by force
    have later: "\<exists>q \<in> same j. j < q"
    proof (rule ccontr)
      assume "\<not> (\<exists>q \<in> same j. j < q)"
      then have "same j = {j}" using first mem by force
      then show False using \<open>glitch j\<close> by (simp add: glitch_def)
    qed
    then obtain q where q: "q \<in> same j" "j < q" by blast
    then have nxt: "j + 1 \<in> same j" by (intro between [OF mem q(1)]) auto
    have "glitch (j + 1)"
    proof (rule ccontr)
      assume no: "\<not> glitch (j + 1)"
      then have "\<not> (\<exists>k \<in> same j. j + 1 < k)" "odd (card (same j))" using eq [OF nxt] by (auto simp: glitch_def)
      then have "same j = {j, j + 1}" using first mem nxt by force
      then show False using \<open>odd (card (same j))\<close> by simp
    qed
    then show ?thesis using nxt by (simp add: same_def)
  qed
qed

text \<open>On the host a flagged event always has a width, so its ratio is positive.\<close>

lemma host_glitch_iff:
  assumes ok: "gate_ok env hg" and i: "i < length (g_pins hg)" and j: "1 \<le> j" "j < length (gp_events (g_pins hg ! i))"
  shows "event_is_glitch env hg i j \<longleftrightarrow> pin_glitch_flags env (g_pins hg ! i) ! j"
proof -
  define pin where "pin = g_pins hg ! i"
  define flags where "flags = pin_glitch_flags env pin"
  define tms where "tms = map fst (gp_events pin)"
  have pin: "pin_ok hg env pin" and scale: "0 < se_time_scale env" "0 < se_clk_period env"
    using ok i by (auto simp: gate_ok_def pin_def)
  have len: "length flags = length tms" "j < length tms"
    using j length_pin_glitch_flags [of env pin] by (simp_all add: flags_def tms_def pin_def)
  have less: "tms ! p < tms ! q" if "p < q" "q < length tms" for p q
    using pin that by (simp add: pin_ok_def tms_def sorted_wrt_iff_nth_less)
  obtain r f where slews: "gp_slew pin RISE = Some r" "gp_slew pin FALL = Some f" using pin by (auto simp: pin_ok_def)
  show ?thesis
  proof (cases "flags ! j")
    case False
    then show ?thesis using len
      by (simp add: event_is_glitch_def event_ratio_def pin_def [symmetric] flags_def [symmetric] getGlitchScalingRatio_def
          INVALID_N_TOGGLE_VAL_def)
  next
    case True
    define prev where "prev = (if 1 \<le> j \<and> flags ! (j - 1) then tms ! j - tms ! (j - 1) else INVALID_PULSE_WIDTH)"
    define nxt where "nxt = (if j + 1 < length tms \<and> flags ! (j + 1) then tms ! (j + 1) - tms ! j else INVALID_PULSE_WIDTH)"
    define cyc where "cyc = (\<lambda>j. cycle_of env (tms ! j))"
    have flag: "flags ! k \<longleftrightarrow> \<not> gp_is_clock pin \<and> 1 \<le> k \<and> (even (card {j'. 1 \<le> j' \<and> j' < length tms \<and> cyc j' = cyc k}) \<or>
        (\<exists>j' \<in> {j'. 1 \<le> j' \<and> j' < length tms \<and> cyc j' = cyc k}. k < j'))" if "k < length tms" for k
      using host_glitch_rule [OF ok i, of k] that
      by (simp add: flags_def pin_def [symmetric] tms_def cyc_def Let_def cong: conj_cong)
    have mono: "cyc p \<le> cyc q" if "p \<le> q" "q < length tms" for p q
    proof -
      have "tms ! p \<le> tms ! q" using less [of p q] that by (cases "p = q") auto
      moreover have "0 \<le> tms ! p" using pin that by (simp add: pin_ok_def tms_def)
      ultimately show ?thesis unfolding cyc_def by (intro cycle_of_mono [OF scale])
    qed
    have "(2 \<le> j \<and> flags ! (j - 1)) \<or> (j + 1 < length tms \<and> flags ! (j + 1))"
      using glitch_neighbour [of "length tms" cyc, OF mono j(1) len(2)] True flag [OF len(2)] flag [of "j - 1"] flag [of "j + 1"] len(2)
      by auto
    then have "0 < prev \<or> 0 < nxt" using less [of "j - 1" j] less [of j "j + 1"] len(2) by (auto simp: prev_def nxt_def)
    then have width: "0 < max prev nxt" by linarith
    have valid: "max prev nxt \<noteq> INVALID_PULSE_WIDTH" using width unfolding INVALID_PULSE_WIDTH_def by linarith
    have "event_ratio env hg i j = Inr (getTimeBasedGlitchScalingRatioH (of_int (max prev nxt) * se_time_scale env) (r + f))"
      unfolding event_ratio_def pin_def [symmetric] flags_def [symmetric] getGlitchScalingRatio_def Let_def
        tms_def [symmetric] prev_def [symmetric] nxt_def [symmetric]
      using True len slews valid by (simp del: of_int_max)
    moreover have "0 < getTimeBasedGlitchScalingRatioH (of_int (max prev nxt) * se_time_scale env) (r + f)"
      by (rule glitch_ratio_positive(2)) (use width scale in simp)
    ultimately show ?thesis using True by (simp add: event_is_glitch_def flags_def pin_def)
  qed
qed
section \<open>The same switching power\<close>

text \<open>
  The events of a pin in the cycle of an event on the host, and a host gate whose pins change at every event, with the inputs,
  clocks and, for the outputs, the switching energies of a device gate.
\<close>

definition host_peers :: "SimEnv \<Rightarrow> GatePin \<Rightarrow> nat \<Rightarrow> nat set" where
  "host_peers env pin j = {j'. 1 \<le> j' \<and> j' < length (gp_events pin) \<and>
     cycle_of env (fst (gp_events pin ! j')) = cycle_of env (fst (gp_events pin ! j))}"

definition same_switching :: "SimEnv \<Rightarrow> Gate \<Rightarrow> DevGate \<Rightarrow> bool" where
  "same_switching env hg g \<longleftrightarrow> g_n_input hg = dg_n_input_pin g \<and>
     (\<forall>i < dg_n_pin g. gp_is_clock (g_pins hg ! i) = dg_pin_is_clocks g ! i \<and>
        (dg_n_input_pin g \<le> i \<longrightarrow> gp_switching_energy (g_pins hg ! i) = getSingleRiseTransitionEnergy g i) \<and>
        (\<forall>j < length (gp_events (g_pins hg ! i)). 1 \<le> j \<longrightarrow>
           snd (gp_events (g_pins hg ! i) ! j) \<noteq> snd (gp_events (g_pins hg ! i) ! (j - 1)) \<and>
           card (host_peers env (g_pins hg ! i) j) < 2 ^ 15))"

lemma same_pin_event:
  assumes "same_pin g events pin i" "gp_events pin \<noteq> []" "j < length (gp_events pin)"
  shows "ev_time (events ! nat (dg_pin_waveform_starts g ! i + int j)) = fst (gp_events pin ! j)"
    and "ev_val (events ! nat (dg_pin_waveform_starts g ! i + int j)) = snd (gp_events pin ! j)"
    and "dg_pin_waveform_starts g ! i + int j < dg_pin_waveform_ends g ! i"
  using same_pin_events(5) [OF assms(1,2)] same_pin_events(7) [OF assms(1,2), of "dg_pin_waveform_starts g ! i + int j"] assms(3)
  by (auto simp: prod_eq_iff)

lemma same_peers:
  assumes same: "same_pin g events pin i" "gp_events pin \<noteq> []" "j < length (gp_events pin)"
    and scale: "la_time_scale la = se_time_scale env" "la_clk_period la = se_clk_period env"
  shows "cycle_peers la g events i (dg_pin_waveform_starts g ! i + int j) =
    (\<lambda>j'. dg_pin_waveform_starts g ! i + int j') ` host_peers env pin j"
proof -
  define s where "s = dg_pin_waveform_starts g ! i"
  have len: "dg_pin_waveform_ends g ! i = s + int (length (gp_events pin))"
    using same_pin_events(5) [OF same(1,2)] by (simp add: s_def)
  have cyc: "event_cycle la events (s + int k) = cycle_of env (fst (gp_events pin ! k))" if "k < length (gp_events pin)" for k
    using same_pin_event(1) [OF same(1,2) that] by (simp add: s_def la_cycle_def cycle_of_def scale)
  have "x \<in> (\<lambda>j'. s + int j') ` host_peers env pin j"
    if x: "s < x" "x < s + int (length (gp_events pin))" "event_cycle la events x = event_cycle la events (s + int j)" for x
  proof -
    obtain k where k: "x = s + int k" "1 \<le> k" "k < length (gp_events pin)"
      using x(1,2) by (intro that [of "nat (x - s)"]) auto
    then show ?thesis using x(3) cyc [OF k(3)] cyc [OF same(3)] by (auto simp: host_peers_def)
  qed
  moreover have "s < s + int k \<and> s + int k < s + int (length (gp_events pin)) \<and>
      event_cycle la events (s + int k) = event_cycle la events (s + int j)" if "k \<in> host_peers env pin j" for k
    using that cyc [of k] cyc [OF same(3)] by (auto simp: host_peers_def)
  ultimately show ?thesis unfolding cycle_peers_def len s_def [symmetric] by auto
qed

text \<open>So the device and the host agree which events are glitches.\<close>

lemma same_glitch:
  assumes host: "gate_ok env hg" and same: "same_gate env hg la g events" "same_switching env hg g"
    and i: "i < dg_n_pin g" and j: "1 \<le> j" "j < length (gp_events (g_pins hg ! i))"
  shows "dev_is_glitch la g events i (dg_pin_waveform_starts g ! i + int j) \<longleftrightarrow> event_is_glitch env hg i j"
    and "card (cycle_peers la g events i (dg_pin_waveform_starts g ! i + int j)) = card (host_peers env (g_pins hg ! i) j)"
proof -
  define pin where "pin = g_pins hg ! i"
  define s where "s = dg_pin_waveform_starts g ! i"
  have pin: "same_pin g events pin i" "i < length (g_pins hg)" "gp_events pin \<noteq> []"
    using same(1) i j by (auto simp: same_gate_def list_all_iff pin_def)
  have peers: "cycle_peers la g events i (s + int j) = (\<lambda>j'. s + int j') ` host_peers env pin j"
    unfolding s_def by (rule same_peers [OF pin(1,3)]) (use j same(1) in \<open>auto simp: same_gate_def pin_def\<close>)
  have "inj_on (\<lambda>j'. s + int j') (host_peers env pin j)" by (simp add: inj_on_def)
  then show card: "card (cycle_peers la g events i (dg_pin_waveform_starts g ! i + int j)) = card (host_peers env (g_pins hg ! i) j)"
    unfolding s_def [symmetric] pin_def [symmetric] peers by (rule card_image)
  have "event_is_glitch env hg i j \<longleftrightarrow> \<not> gp_is_clock pin \<and> (even (card (host_peers env pin j)) \<or> (\<exists>j' \<in> host_peers env pin j. j < j'))"
    using host_glitch_iff [OF host pin(2) j] host_glitch_rule [OF host pin(2) j(2)] j(1)
    by (simp add: host_peers_def pin_def [symmetric] Let_def)
  moreover have "(\<exists>j' \<in> cycle_peers la g events i (s + int j). s + int j < j') \<longleftrightarrow> (\<exists>j' \<in> host_peers env pin j. j < j')"
    by (simp add: peers)
  moreover have "gp_is_clock pin = dg_pin_is_clocks g ! i" using same(2) i by (simp add: same_switching_def pin_def)
  ultimately show "dev_is_glitch la g events i (dg_pin_waveform_starts g ! i + int j) \<longleftrightarrow> event_is_glitch env hg i j"
    using card by (simp add: dev_is_glitch_def s_def pin_def)
qed

lemma same_dynamic_ok:
  assumes host: "gate_ok env hg" and same: "same_gate env hg la g events" "same_switching env hg g"
    and tables: "dev_values_ok g events" "dev_luts_ok g"
  shows "dynamic_ok la g events"
  unfolding dynamic_ok_def
proof (intro conjI allI impI)
  show "fused_ok la g events" using same_gate_ok [OF host same(1)] tables by (simp add: fused_ok_def)
  fix i assume i: "i < dg_n_pin g" "has_waveform g i"
  define pin where "pin = g_pins hg ! i"
  define s where "s = dg_pin_waveform_starts g ! i"
  have pin: "same_pin g events pin i" "pin_ok hg env pin" using same(1) host i by (auto simp: same_gate_def list_all_iff pin_def gate_ok_def)
  have ne: "gp_events pin \<noteq> []" using pin(1) i(2) by (auto simp: same_pin_def has_waveform_def)
  have first: "fst (hd (gp_events pin)) = 0" using pin(1) ne by (simp add: same_pin_def Let_def)
  then show "0 \<le> ev_time (events ! nat (dg_pin_waveform_starts g ! i))"
    using same_pin_event(1) [OF pin(1) ne, of 0] ne by (simp add: hd_conv_nth)
  fix x assume x: "dg_pin_waveform_starts g ! i < x" "x < dg_pin_waveform_ends g ! i"
  obtain j where j: "x = s + int j" "1 \<le> j" "j < length (gp_events pin)"
    using x same_pin_events(5) [OF pin(1) ne] by (intro that [of "nat (x - s)"]) (auto simp: s_def)
  have "snd (gp_events pin ! j) \<noteq> snd (gp_events pin ! (j - 1))" "card (host_peers env pin j) < 2 ^ 15"
    using same(2) i(1) j by (auto simp: same_switching_def pin_def)
  moreover have "ev_val (events ! nat x) = snd (gp_events pin ! j)"
    unfolding j(1) s_def by (rule same_pin_event(2) [OF pin(1) ne j(3)])
  moreover have "ev_val (events ! nat (x - 1)) = snd (gp_events pin ! (j - 1))"
  proof -
    have "x - 1 = s + int (j - 1)" using j by simp
    then show ?thesis using same_pin_event(2) [OF pin(1) ne, of "j - 1"] j by (simp only: s_def)
  qed
  ultimately show "ev_val (events ! nat x) \<noteq> ev_val (events ! nat (x - 1))" "card (cycle_peers la g events i x) < 2 ^ 15"
    using same_glitch(2) [OF host same i(1) j(2)] j(1,3) by (simp_all add: s_def pin_def)
qed

text \<open>From an event until the next one a pin has the value of the event.\<close>

lemma pin_state_event:
  assumes sorted: "sorted_wrt (<) (map fst (gp_events pin))" and k: "k < length (gp_events pin)" "fst (gp_events pin ! k) \<le> t"
    and later: "\<forall>l < length (gp_events pin). k < l \<longrightarrow> t < fst (gp_events pin ! l)"
  shows "pin_state_at pin t = snd (gp_events pin ! k)"
proof -
  define es where "es = gp_events pin"
  have early: "fst e \<le> t" if "e \<in> set (take (Suc k) es)" for e
  proof -
    obtain l where "l < length (take (Suc k) es)" "e = take (Suc k) es ! l" using \<open>e \<in> set (take (Suc k) es)\<close> unfolding in_set_conv_nth by blast
    then have l: "l \<le> k" "e = es ! l" by auto
    then have "fst (es ! l) \<le> fst (es ! k)"
      using sorted k(1) by (cases "l = k") (auto simp: sorted_wrt_iff_nth_less le_less es_def)
    then show ?thesis using l k(2) by (simp add: es_def)
  qed
  have late: "\<not> fst e \<le> t" if "e \<in> set (drop (Suc k) es)" for e
  proof -
    obtain l where "l < length (drop (Suc k) es)" "e = drop (Suc k) es ! l" using \<open>e \<in> set (drop (Suc k) es)\<close> unfolding in_set_conv_nth by blast
    then have l: "l < length es - Suc k" "e = es ! (Suc k + l)" by auto
    then have "Suc k + l < length (gp_events pin)" by (simp add: es_def)
    then have "t < fst (gp_events pin ! (Suc k + l))" using later [rule_format, of "Suc k + l"] by simp
    then show ?thesis using l(2) by (simp add: es_def)
  qed
  have "filter (\<lambda>e. fst e \<le> t) es = filter (\<lambda>e. fst e \<le> t) (take (Suc k) es @ drop (Suc k) es)" by simp
  also have "\<dots> = take (Suc k) es" using early late by (simp only: filter_append) (simp add: filter_empty_conv)
  finally have "filter (\<lambda>e. fst e \<le> t) (gp_events pin) = take (Suc k) es" by (simp add: es_def)
  then show ?thesis using k(1) by (auto simp: pin_state_at_def Let_def es_def take_Suc_conv_app_nth)
qed

text \<open>The energy of an event that is no glitch is the same on both sides.\<close>

lemma same_plain_energy:
  assumes host: "gate_ok env hg" and same: "same_gate env hg la g events" "same_switching env hg g"
    and i: "i < dg_n_pin g" and j: "1 \<le> j" "j < length (gp_events (g_pins hg ! i))"
  shows "plain_energy la g events i (dg_pin_waveform_starts g ! i + int j) =
    (if event_is_glitch env hg i j then 0 else event_switching env hg i j)"
proof -
  define pin where "pin = g_pins hg ! i"
  define es where "es = gp_events pin"
  have pin: "same_pin g events pin i" "pin_ok hg env pin" using same(1) host i by (auto simp: same_gate_def list_all_iff pin_def gate_ok_def)
  have sorted: "sorted_wrt (<) (map fst es)" using pin(2) by (simp add: pin_ok_def es_def)
  have jes: "j < length es" "j - 1 < length es" "es \<noteq> []" using j by (auto simp: es_def pin_def)
  have less: "fst (es ! k) < fst (es ! l)" if "k < l" "l < length es" for k l
    using sorted that by (simp add: sorted_wrt_iff_nth_less)
  have after: "pin_state_at pin (fst (es ! j)) = snd (es ! j)" unfolding es_def
    by (rule pin_state_event) (use sorted jes less in \<open>auto simp: es_def\<close>)
  have before: "pin_state_at pin (fst (es ! j) - 1) = snd (es ! (j - 1))"
    unfolding es_def
  proof (rule pin_state_event, unfold es_def [symmetric])
    show "fst (es ! (j - 1)) \<le> fst (es ! j) - 1" using less [of "j - 1" j] j(1) jes by simp
    show "\<forall>l < length es. j - 1 < l \<longrightarrow> fst (es ! j) - 1 < fst (es ! l)"
    proof (intro allI impI)
      fix l assume l: "l < length es" "j - 1 < l"
      then have "l = j \<or> j < l" by linarith
      then show "fst (es ! j) - 1 < fst (es ! l)" using less [of j l] l(1) by auto
    qed
  qed (use jes sorted in auto)
  obtain r where r: "event_ratio env hg i j = Inr r"
    using event_ratio_returns [of hg env i j] pin(2) j(2) by (auto simp: pin_def)
  have vals: "ev_val (events ! nat (dg_pin_waveform_starts g ! i + int j)) = snd (es ! j)"
      "ev_val (events ! nat (dg_pin_waveform_starts g ! i + int j - 1)) = snd (es ! (j - 1))"
  proof -
    have eq: "dg_pin_waveform_starts g ! i + int j - 1 = dg_pin_waveform_starts g ! i + int (j - 1)" using j(1) by simp
    show "ev_val (events ! nat (dg_pin_waveform_starts g ! i + int j - 1)) = snd (es ! (j - 1))"
      unfolding es_def eq by (rule same_pin_event(2) [OF pin(1)]) (use jes in \<open>simp_all add: es_def\<close>)
    show "ev_val (events ! nat (dg_pin_waveform_starts g ! i + int j)) = snd (es ! j)"
      using same_pin_event(2) [OF pin(1), of j] jes by (simp add: es_def)
  qed
  have "event_factor env hg i j = 1" if "\<not> event_is_glitch env hg i j"
    using that r by (simp add: event_factor_def event_is_glitch_def)
  moreover have "dg_n_input_pin g \<le> i \<longrightarrow> gp_switching_energy pin = getSingleRiseTransitionEnergy g i" "g_n_input hg = dg_n_input_pin g"
    using same(2) i by (auto simp: same_switching_def pin_def)
  ultimately show ?thesis
    unfolding plain_energy_def same_glitch(1) [OF host same i j] vals event_switching_def Let_def event_time_def
      pin_def [symmetric] es_def [symmetric] after before by simp
qed
lemma same_plain_total:
  assumes host: "gate_ok env hg" and same: "same_gate env hg la g events" "same_switching env hg g"
  shows "plain_total la g events = gate_energy hg (event_switching env hg) - gate_energy hg (only_glitches env hg (event_switching env hg))"
proof -
  define e where "e = (\<lambda>i j. if event_is_glitch env hg i j then 0 else event_switching env hg i j)"
  have n: "dg_n_pin g = length (g_pins hg)" using same(1) by (simp add: same_gate_def)
  have pin: "(if has_waveform g i then \<Sum>x = dg_pin_waveform_starts g ! i + 1..<dg_pin_waveform_ends g ! i. plain_energy la g events i x else 0)
      = (\<Sum>j = snd (pin_initial (g_pins hg ! i))..<length (gp_events (g_pins hg ! i)). e i j)" if i: "i < dg_n_pin g" for i
  proof -
    define pin where "pin = g_pins hg ! i"
    have pin: "same_pin g events pin i" using same(1) i by (simp add: same_gate_def list_all_iff pin_def)
    show ?thesis
    proof (cases "gp_events pin = []")
      case True
      then have "\<not> has_waveform g i" using pin by (simp add: same_pin_def has_waveform_def)
      then show ?thesis using True by (simp add: pin_def)
    next
      case False
      define s where "s = dg_pin_waveform_starts g ! i"
      note ev = same_pin_events(4,5) [OF pin False]
      have "fst (hd (gp_events pin)) = 0" using pin False by (simp add: same_pin_def Let_def)
      then have first: "snd (pin_initial pin) = 1" using False by (cases "gp_events pin") (auto simp: pin_initial_def split: prod.splits)
      have "(\<Sum>x = s + 1..<dg_pin_waveform_ends g ! i. plain_energy la g events i x) = (\<Sum>j = 1..<length (gp_events pin). e i j)"
      proof (rule sum.reindex_bij_witness [where i = "\<lambda>j. s + int j" and j = "\<lambda>x. nat (x - s)"])
        fix x assume x: "x \<in> {s + 1..<dg_pin_waveform_ends g ! i}"
        show "s + int (nat (x - s)) = x" "nat (x - s) \<in> {1..<length (gp_events pin)}" using x ev(2) by (auto simp: s_def)
        then show "e i (nat (x - s)) = plain_energy la g events i x"
          using same_plain_energy [OF host same i, of "nat (x - s)"] by (simp add: e_def s_def pin_def)
      qed (use ev(2) in \<open>auto simp: s_def\<close>)
      then show ?thesis using ev(1) first by (simp add: s_def pin_def)
    qed
  qed
  have "plain_total la g events = (\<Sum>i \<in> {i \<in> {0..<dg_n_pin g}. has_waveform g i}.
      \<Sum>x = dg_pin_waveform_starts g ! i + 1..<dg_pin_waveform_ends g ! i. plain_energy la g events i x)"
    unfolding plain_total_def by (rule sum.cong) auto
  also have "\<dots> = (\<Sum>i = 0..<dg_n_pin g. if has_waveform g i
      then \<Sum>x = dg_pin_waveform_starts g ! i + 1..<dg_pin_waveform_ends g ! i. plain_energy la g events i x else 0)"
    by (rule sum.inter_filter) simp
  also have "\<dots> = (\<Sum>i = 0..<dg_n_pin g. \<Sum>j = snd (pin_initial (g_pins hg ! i))..<length (gp_events (g_pins hg ! i)). e i j)"
    by (rule sum.cong [OF refl]) (use pin in simp)
  also have "\<dots> = gate_energy hg (event_switching env hg) - gate_energy hg (only_glitches env hg (event_switching env hg))"
    unfolding gate_energy_def frontier_sum_def n sum_subtractf [symmetric]
    by (intro sum.cong refl) (auto simp: e_def only_glitches_def)
  finally show ?thesis .
qed

lemma threads_match_host_switching:
  assumes host: "gate_ok env hg" and same: "same_gate env hg la g events" "same_switching env hg g"
    and tables: "dev_values_ok g events" "dev_luts_ok g"
    and launch: "launch_ok la g" "la_basis la = PB_cycle" and whole: "whole_simulation la"
    and u: "la_unit_per_cycle la = time_unit_per_cycle (la_time_scale la) (la_clk_period la)"
  shows "\<exists>st. findTimeBasedAllPower env hg = Inr st \<and>
    (\<Sum>k < gate_threads la g. kind_result K_fused W_switching (thread_result (kernel1All la g events k))) = ls_switching st"
proof -
  note dyn = same_dynamic_ok [OF host same tables]
  obtain st where st: "findTimeBasedAllPower env hg = Inr st"
      "(ls_switching st + ls_glitch_switching st) * sim_seconds env = gate_energy hg (event_switching env hg)"
      "ls_glitch_switching st * sim_seconds env = gate_energy hg (only_glitches env hg (event_switching env hg))"
    using gate_power_computed [OF host] by blast
  have "kernel_sim_seconds la = sim_seconds env" using same(1) by (simp add: kernel_sim_seconds_def sim_seconds_def same_gate_def)
  moreover have "plain_total la g events = ls_switching st * sim_seconds env"
    using same_plain_total [OF host same] st(2,3) by (simp add: distrib_right)
  moreover have "0 < sim_seconds env" using sim_seconds_pos [OF host] by simp
  ultimately show ?thesis using threads_switching_total [OF dyn launch whole u] st(1) by simp
qed
section \<open>Properties: switching power\<close>

lemma same_work_switching:
  assumes "same_work g g'"
  shows "same_switching env hg g' = same_switching env hg g"
proof -
  obtain c et eb ct cb off where "g' = g\<lparr>dg_n_cycle_per_thread := c, dg_event_threads := et, dg_event_blocks := eb,
      dg_cycle_threads := ct, dg_cycle_blocks := cb, dg_tile_offset := off\<rparr>" using assms unfolding same_work_def by blast
  then show ?thesis by (simp add: same_switching_def getSingleRiseTransitionEnergy_def)
qed

text \<open>
  The width of a glitch is not the same: a pulse from 2 to 3 after the initial state at 0, in one cycle. The device takes the
  distance to the initial state for a width, so the pulse counts in full; the host does not, and scales it to a quarter.
\<close>

definition pulse_events :: "Event list" where
  "pulse_events = [\<lparr>ev_time = 0, ev_val = 0\<rparr>, \<lparr>ev_time = 2, ev_val = 1\<rparr>, \<lparr>ev_time = 3, ev_val = 0\<rparr>]"

lemma glitch_widths_differ:
  "fst (getGlitchScalingRatioClockCycleBasedOnDeviceOnly (dev_launch PB_cycle) (dev_inverter\<lparr>dg_pin_waveform_ends := [3, 3]\<rparr>)
     pulse_events INVALID_N_PERIOD_VAL 0 1 0) = 1"
  "getGlitchScalingRatio inverter_env (inverter_pin 0 [(0, 0), (2, 1), (3, 0)])
     (pin_glitch_flags inverter_env (inverter_pin 0 [(0, 0), (2, 1), (3, 0)])) 1 = Inr (1 / 4)"
  by code_simp+

text \<open>An inverter whose output rises once: no glitch.\<close>

definition rising_inverter :: Gate where
  "rising_inverter = inverter\<lparr>g_pins := [inverter_pin 0 [(0, 1), (5, 0)], inverter_pin 1 [(0, 0), (6, 1)]]\<rparr>"

definition rising_events :: "Event list" where
  "rising_events = [\<lparr>ev_time = 0, ev_val = 1\<rparr>, \<lparr>ev_time = 5, ev_val = 0\<rparr>, \<lparr>ev_time = 0, ev_val = 0\<rparr>, \<lparr>ev_time = 6, ev_val = 1\<rparr>]"

definition dev_rising :: DevGate where
  "dev_rising = dev_inverter\<lparr>dg_pin_waveform_ends := [2, 4]\<rparr>"

lemma rising_copy:
  "device_copy K_fused (single_round dev_config inverter_env) inverter_env rising_events rising_inverter dev_rising"
  "same_switching inverter_env rising_inverter dev_rising"
proof -
  have u: "time_unit_per_cycle (1 / 2) 2 = 4" by (simp add: time_unit_per_cycle_def)
  have "gate_ok inverter_env rising_inverter"
    by (auto simp: gate_ok_def pin_ok_def inverter_env_def rising_inverter_def inverter_def inverter_pin_def inverter_ports_def)
  moreover have "same_gate inverter_env rising_inverter (single_round dev_config inverter_env) dev_rising rising_events"
    by (simp add: same_gate_def single_round_def inverter_env_def rising_inverter_def inverter_def inverter_pin_def dev_rising_def
        dev_inverter_def rising_events_def same_pin_def Let_def upt_rec)
  moreover have "dev_values_ok dev_rising rising_events" "dev_luts_ok dev_rising" by code_simp+
  ultimately show "device_copy K_fused (single_round dev_config inverter_env) inverter_env rising_events rising_inverter dev_rising"
    by (simp add: device_copy_def)
  have few: "card (host_peers inverter_env pin j) < 32768" if two: "length (gp_events pin) = 2" for pin j
  proof -
    have "host_peers inverter_env pin j \<subseteq> {1}" using two by (auto simp: host_peers_def)
    then have "card (host_peers inverter_env pin j) \<le> card {1 :: nat}" by (intro card_mono) auto
    then show ?thesis by simp
  qed
  have pins: "length (gp_events (g_pins rising_inverter ! i)) = 2 \<and>
      gp_is_clock (g_pins rising_inverter ! i) = dg_pin_is_clocks dev_rising ! i \<and>
      (1 \<le> i \<longrightarrow> gp_switching_energy (g_pins rising_inverter ! i) = getSingleRiseTransitionEnergy dev_rising i) \<and>
      snd (gp_events (g_pins rising_inverter ! i) ! 1) \<noteq> snd (gp_events (g_pins rising_inverter ! i) ! 0)" if "i < 2" for i
    using that by (auto simp: rising_inverter_def inverter_pin_def dev_rising_def dev_inverter_def getSingleRiseTransitionEnergy_def
        less_2_cases_iff)
  have counts: "dg_n_pin dev_rising = 2" "dg_n_input_pin dev_rising = 1" "g_n_input rising_inverter = 1"
    by (simp_all add: rising_inverter_def inverter_def dev_rising_def dev_inverter_def)
  have "snd (gp_events (g_pins rising_inverter ! i) ! j) \<noteq> snd (gp_events (g_pins rising_inverter ! i) ! (j - 1))"
    if "i < 2" "j < 2" "1 \<le> j" for i j
  proof -
    have "j = 1" using that by simp
    then show ?thesis using pins [OF that(1)] by simp
  qed
  then show "same_switching inverter_env rising_inverter dev_rising"
    using pins few unfolding same_switching_def counts by simp
qed


end
