(* ===== verification/Spec2Isabelle.thy ===== *)
theory Spec2Isabelle
  imports GTP_RiseFall GTP_Names GTP_PowerState GTP_Activity GTP_PowerTime GTP_Glitch GTP_GateEnergy GTP_CudaLut
    GTP_CudaMemory GTP_CudaWave GTP_PowerTotals GTP_Propagate GTP_ClkPins
    GTP_LibertyReader GTP_TableEquiv GTP_CudaRounds GTP_Workload GTP_DeviceTotals GTP_CircuitStat GTP_CudaDynamic
begin

text \<open>
  A verification development for GTPower, a power analyser built on the static timing analyser OpenSTA. The program
  reads a netlist, a cell library and a waveform file (VCD) and reports the power of every gate, either
  \<^emph>\<open>statistically\<close>, from a duty and an activity per pin, or \<^emph>\<open>time-based\<close>, from the waveforms themselves,
  on the host or on a GPU.

  \<^bold>\<open>The parts and how they interact.\<close> \<open>power/VcdReader.cc\<close> parses the waveform file into the database
  \<open>power/Vcd.hh\<close>; \<open>power/ReadVcdActivities.cc\<close> gives the pins of the network their waveforms, duties and activities.
  \<open>power/Power.cc\<close> drives an analysis: it sums the results of the instances by group (sequential, combinational, clock,
  macro, pad), with one thread or several. The power of an instance is either statistical (decision diagrams of the
  cell functions, \<open>search/Bdd.cc\<close>, evaluated on the activities) or time-based (\<open>power/TimeBasedPower.cc\<close>: an event loop
  over the waveforms of the pins of a gate). \<open>power/cuda/CudaPower.cu\<close> does the time-based analysis on a device: it cuts
  the time axis into rounds that fit an event buffer, divides the work of each gate among threads and merges their sums.
  Both engines look up the tables of a cell library by the values of the pins (\<open>power/PowerUtils.cc\<close>), with the
  logic functions of \<open>liberty/FuncExpr.cc\<close>. The statistical engine first propagates activities from the annotated pins
  over the timing graph (\<open>Power::ensureActivities\<close>), with a search by levels (\<open>search/Bfs.cc\<close>) along the edges that
  \<open>search/SearchPred.cc\<close> lets it cross; the levels come from \<open>search/Levelize.cc\<close>.

  \<^bold>\<open>The theories\<close>, from the bottom; source files are named relative to \<open>src\<close>.

  \<^item> \<^verbatim>\<open>GTP_Prelude\<close>: collections of simplification rules, errors (a sum type with \<^verbatim>\<open>res_bind\<close>, \<^verbatim>\<open>res_map\<close> and
    \<^verbatim>\<open>res_fold\<close>), the interfaces \<^verbatim>\<open>strict_weak_order\<close> (what \<open>std::sort\<close> and \<open>std::map\<close> ask of a comparison; met by the
    orders of ports, functions and timing roles) and \<^verbatim>\<open>search_predicate\<close> (what \<open>std::lower_bound\<close> asks of a
    predicate; met by the search over the events of a waveform).
  \<^item> \<^verbatim>\<open>GTP_RiseFall\<close>: edges, transitions and corners (\<open>util/Transition.cc\<close>, \<open>util/MinMax.cc\<close>) and the tables of values
    per edge and corner (\<open>util/RiseFallMinMax.cc\<close>), with merging as a lattice operation.
  \<^item> \<^verbatim>\<open>GTP_Names\<close>: patterns, bus subscripts and Verilog names (\<open>util/PatternMatch.cc\<close>, \<open>network/ParseBus.cc\<close>,
    \<open>network/VerilogNamespace.cc\<close>).
  \<^item> \<^verbatim>\<open>GTP_FuncExpr\<close>: logic functions of cells (\<open>liberty/FuncExpr.cc\<close>): evaluation, timing sense, bits of bus functions,
    printing and ordering.
  \<^item> \<^verbatim>\<open>GTP_PowerState\<close>: states of the pins of a gate, the states in which a condition is true and the leakage table
    indexed by state (\<open>power/PowerUtils.cc\<close>).
  \<^item> \<^verbatim>\<open>GTP_Vcd\<close>, \<^verbatim>\<open>GTP_VcdReader\<close>: the waveform database and the parser, a state machine over the tokens of the file.
  \<^item> \<^verbatim>\<open>GTP_Activity\<close>: event counts, activities and duties from waveforms, and the annotation of pins.
  \<^item> \<^verbatim>\<open>GTP_PowerTime\<close>, \<^verbatim>\<open>GTP_Glitch\<close>, \<^verbatim>\<open>GTP_GateEnergy\<close>: the event loop of a gate, its classification of glitches and
    its split of leakage over clock cycles; then what the loop computes, event by event.
  \<^item> \<^verbatim>\<open>GTP_PowerActivity\<close>, \<^verbatim>\<open>GTP_Bdd\<close>, \<^verbatim>\<open>GTP_CellPower\<close>, \<^verbatim>\<open>GTP_PowerTotals\<close>: the statistical engine: activities and
    their lookup, decision diagrams, the power of one instance; and the totals of both engines with their threads.
  \<^item> \<^verbatim>\<open>GTP_Graph\<close>, \<^verbatim>\<open>GTP_Levelize\<close>: timing roles, the predicates that say which edges a search crosses, and
    levelization with its loop breaking.
  \<^item> \<^verbatim>\<open>GTP_Bfs\<close>: the iterator that searches by levels in both directions, and the interface \<^verbatim>\<open>bfs_visitor\<close>: what it asks
    of a visitor so that a visit ends.
  \<^item> \<^verbatim>\<open>GTP_Propagate\<close>: the propagation of activities: seeds, the visitor (which meets \<^verbatim>\<open>bfs_visitor\<close>) and the passes over
    the registers.
  \<^item> \<^verbatim>\<open>GTP_ClkPins\<close>: the backward search from the register clock pins (\<open>search/Search.cc\<close>) on levels that the levelizer gave.
  \<^item> \<^verbatim>\<open>GTP_CudaLut\<close>, \<^verbatim>\<open>GTP_CudaSchedule\<close>, \<^verbatim>\<open>GTP_CudaKernel\<close>, \<^verbatim>\<open>GTP_CudaFused\<close>, \<^verbatim>\<open>GTP_CudaThread\<close>, \<^verbatim>\<open>GTP_CudaHost\<close>,
    \<^verbatim>\<open>GTP_CudaMemory\<close>, \<^verbatim>\<open>GTP_CudaWave\<close>: the device: its power tables, the division of the work into threads and blocks
    (interface \<^verbatim>\<open>thread_cuts\<close>, met by the division by events and the one by cycles), the kernels
    (interface \<^verbatim>\<open>event_loop\<close>, met by the fused and the leakage kernel), the comparison with the host, the
    interleavings of the atomic additions of a launch, and the rounds with their event buffer.
  \<^item> \<^verbatim>\<open>GTP_CudaDynamic\<close>: the glitches that a thread finds by counting, against the flags of the host, and the switching
    power of all threads without them.
  \<^item> \<^verbatim>\<open>GTP_CudaFill\<close>, \<^verbatim>\<open>GTP_CudaRounds\<close>, \<^verbatim>\<open>GTP_Workload\<close>: how a round copies the events of the waveforms into the buffer
    (interface \<^verbatim>\<open>wave_fill\<close>, met by filling from one thread and from several), how the time axis is divided by time and by
    counted cycles, and the workload that is resolved without running the kernels.
  \<^item> \<^verbatim>\<open>GTP_DeviceTotals\<close>, \<^verbatim>\<open>GTP_CircuitStat\<close>: the results of the device, instance by instance and cycle by cycle, added to
    the totals of the host; and the statistics of gates, pins and events by group.
  \<^item> \<^verbatim>\<open>GTP_LibertyTable\<close>: the tables of a cell library on the host (\<open>liberty/TableModel.cc\<close>, \<open>liberty/InternalPower.cc\<close>):
    axes and their bisection, tables of zero to three axes with their interpolation, the models of delay, check and internal
    power with the test of their axes, and the scale factors of a library (\<open>liberty/Liberty.cc\<close>).
  \<^item> \<^verbatim>\<open>GTP_LibertyReader\<close>: how the reader of a library builds those (\<open>util/TokenParser.cc\<close>, the visitors of scale
    factors, templates, indexes, values and tables of \<open>liberty/LibertyReader.cc\<close>).
  \<^item> \<^verbatim>\<open>GTP_TableEquiv\<close>: the tables of the device and those of the host: same index, same value, and the same energy of
    a gate's inputs and outputs when the device reads tables that were flattened from the host's.

  \<^bold>\<open>How code becomes definitions.\<close> A class or struct is a record with the fields of the source, an enumeration a datatype.
  A method that changes its object takes and returns the record; assertions, \<open>at()\<close> out of range, null pointers and
  \<open>LOG_ERROR\<close> are values of an error type. A \<open>float\<close> or \<open>double\<close> is a real number: rounding is not modelled. A
  64-bit time is an integer. Interleavings of threads are sequences of steps of an inductive relation.
  Decision diagrams (CUDD) are not part of the repository: their operations are parameters whose contract is stated as a
  hypothesis and met by truth functions in the witnesses. Slews, loads, arc delays and supply voltages are values of the
  records that use them. So are, for the event loop of the host, the energies it reads from power tables; the function
  \<^verbatim>\<open>host_group\<close> of \<^verbatim>\<open>GTP_TableEquiv\<close> is the lookup that gives them.

  \<^bold>\<open>What the lemmas show.\<close> The waveform theories: recording and reading a waveform keeps its value at every time, and
  durations, counts and duties are the ones of the waveform. The host engine: the event loop charges every event of every pin
  once, in the states around it, and averages leakage over time; cycle waveforms balance against the sums. The
  device: every thread runs exactly once and returns, any interleaving leaves the same memory, the leakage of a gate is
  that of the host, so is the switching power of the transitions that are no glitches, and over all rounds every change of a
  waveform is seen exactly once, however many threads fill the buffer. A division by time fits a buffer that has twice the
  width of all variables to spare; a division by counted cycles fails when a cycle has no event. The resolved workload counts
  the events that the buffer would hold, and the totals of a device analysis are the sums of what its rounds recorded. The statistical engine: on
  the diagrams the duty of a function is a probability and its activity weights the Boolean differences; leakage is an
  expectation; the multi-threaded analysis equals the sequential one and groups partition the total. The graph: levelization
  ends and levels rise along every edge that is still searched; a search from the register clock pins marks what leads to
  them; the propagation of activities ends and leaves every covered pin with the activity that its driver, function or
  clock gate gives it, up to the tolerance of a thousandth. The library: bisection finds the interval that holds a value,
  interpolation stays between the corners of its cell, a model that passed the test of its axes returns a value for every
  slew and load, the reader keeps the shape that the lookup asks for, and the device interpolates as the host does.

  \<^bold>\<open>Bounds and fuel.\<close> Loops whose end depends on their data carry fuel, and it is proved enough: \<^verbatim>\<open>thread_fuel\<close>, the events of
  the gate and one, for the loop of a device thread, since every iteration consumes an event; \<^verbatim>\<open>bdd_fuel\<close>, the number of
  variables and one, for the walk down a diagram, since every step goes to a higher variable; \<^verbatim>\<open>levelize_fuel\<close>, the number
  of vertices and one, for the depth first search, since a path never enters a vertex twice. The passes over the registers
  are bounded by the constant 100 of the code. The visits of the breadth first iterator are partial functions; they return
  because a visit replaces the rank of its vertex in the multiset of the queued vertices by lower ones. Loops that do not end for
  some inputs of the source, such as the split of leakage for a clock period of zero, are partial functions into
  options, and their theorems say that they return.

  \<^bold>\<open>Not modelled.\<close> The inherited engines whose results reach power analysis only as numbers: arrival and required times,
  delay calculation, parasitics, constraints, the netlist readers and the object stores. Of the library and its reader, all
  but functions, tables and scale factors. The FSDB reader, which calls a
  library that is not in the repository. Memory management, streams and copies of the device, logs, files and
  reports, the Tcl shell. In the modelled parts: the observer of the levelizer and its loop exceptions, the parallel
  visit of the breadth first iterator.

  \<^bold>\<open>Plan.\<close> Still open: the internal power of the device over whole runs against the host (the lookups of input and output
  tables are compared one by one). The powers of glitches are not equal: the two engines measure their widths differently.
\<close>

end
